(* ===== verification/Event_Prelude.thy ===== *)
theory Event_Prelude
  imports Main "HOL-Library.Word" "HOL-Library.Multiset"
begin

text \<open>
  Shared vocabulary of the development: the outcome of a C function that may abort the process,
  the event flags of \<^verbatim>\<open>include/event2/event.h\<close>, and the generic lemmas on lists and words
  that several components use.
\<close>

unbundle bit_operations_syntax

text \<open>
  Collections for the proofs of the components: the limits of the C types, and what a request to the allocator
  of a buffer unfolds to.
\<close>

named_theorems c_limits
named_theorems buffer_limits

section \<open>Outcomes\<close>

text \<open>
  \<^verbatim>\<open>EVUTIL_ASSERT\<close> and \<^verbatim>\<open>event_errx\<close> terminate the process. An operation that contains such
  a check returns a value of this type: \<open>Aborted\<close> when the check fails, \<open>Done\<close> otherwise.
\<close>

datatype 'a outcome = Done 'a | Aborted

primrec bind_outcome :: "'a outcome \<Rightarrow> ('a \<Rightarrow> 'b outcome) \<Rightarrow> 'b outcome" where
  "bind_outcome (Done x) f = f x"
| "bind_outcome Aborted f = Aborted"

lemma bind_outcome_eq_Done [simp]:
  "bind_outcome m f = Done y \<longleftrightarrow> (\<exists>x. m = Done x \<and> f x = Done y)"
  by (cases m) auto

lemma bind_outcome_eq_Aborted [simp]:
  "bind_outcome m f = Aborted \<longleftrightarrow> m = Aborted \<or> (\<exists>x. m = Done x \<and> f x = Aborted)"
  by (cases m) auto

section \<open>Machine integers\<close>

type_synonym u8 = "8 word"
type_synonym u16 = "16 word"
type_synonym u32 = "32 word"
type_synonym u64 = "64 word"

text \<open>The limits of the C types on the 64-bit Linux target the build files configure.\<close>

definition INT_MAX :: int where "INT_MAX = 2147483647"
definition LONG_MAX :: int where "LONG_MAX = 9223372036854775807"
definition EV_SIZE_MAX :: nat where "EV_SIZE_MAX = 18446744073709551615"

declare INT_MAX_def [c_limits] LONG_MAX_def [c_limits] EV_SIZE_MAX_def [c_limits]

text \<open>Conversion of a wider signed value to \<^verbatim>\<open>int\<close>, and of any value to \<^verbatim>\<open>size_t\<close>.\<close>

definition c_int :: "int \<Rightarrow> int" where
  "c_int n = signed_take_bit 31 n"

definition c_size :: "int \<Rightarrow> nat" where
  "c_size n = nat (n mod 2 ^ 64)"

lemma c_int_id: "- INT_MAX - 1 \<le> n \<Longrightarrow> n \<le> INT_MAX \<Longrightarrow> c_int n = n"
  unfolding c_int_def INT_MAX_def by (rule signed_take_bit_int_eq_self) simp_all

lemma c_size_id: "0 \<le> n \<Longrightarrow> n < 2 ^ 64 \<Longrightarrow> c_size n = nat n"
  by (simp add: c_size_def)

section \<open>Event flags\<close>

text \<open>The values of \<^verbatim>\<open>include/event2/event.h\<close>; they are kept in \<^verbatim>\<open>short\<close>s.\<close>

definition EV_TIMEOUT :: u16 where "EV_TIMEOUT = 0x01"
definition EV_READ :: u16 where "EV_READ = 0x02"
definition EV_WRITE :: u16 where "EV_WRITE = 0x04"
definition EV_SIGNAL :: u16 where "EV_SIGNAL = 0x08"
definition EV_PERSIST :: u16 where "EV_PERSIST = 0x10"
definition EV_ET :: u16 where "EV_ET = 0x20"
definition EV_FINALIZE :: u16 where "EV_FINALIZE = 0x40"
definition EV_CLOSED :: u16 where "EV_CLOSED = 0x80"

lemma bit_numeral_exp: "(2 :: 'a::len word) ^ k = n \<Longrightarrow> k < LENGTH('a) \<Longrightarrow> bit n i \<longleftrightarrow> i = k"
  by (auto simp: bit_exp_iff)

lemma bit_EV [simp]:
  "bit EV_TIMEOUT i \<longleftrightarrow> i = 0" "bit EV_READ i \<longleftrightarrow> i = 1" "bit EV_WRITE i \<longleftrightarrow> i = 2" "bit EV_SIGNAL i \<longleftrightarrow> i = 3"
  "bit EV_PERSIST i \<longleftrightarrow> i = 4" "bit EV_ET i \<longleftrightarrow> i = 5" "bit EV_FINALIZE i \<longleftrightarrow> i = 6" "bit EV_CLOSED i \<longleftrightarrow> i = 7"
  unfolding EV_TIMEOUT_def EV_READ_def EV_WRITE_def EV_SIGNAL_def EV_PERSIST_def EV_ET_def EV_FINALIZE_def EV_CLOSED_def
  by (rule bit_numeral_exp; simp)+

text \<open>Testing a flag.\<close>

definition has :: "u16 \<Rightarrow> u16 \<Rightarrow> bool" where
  "has ev flag \<longleftrightarrow> ev AND flag \<noteq> 0"

lemma and_single_bit: "(\<And>i. bit f i \<longleftrightarrow> i = k) \<Longrightarrow> (w :: 'a::len word) AND f \<noteq> 0 \<longleftrightarrow> bit w k"
proof -
  assume f: "\<And>i. bit f i \<longleftrightarrow> i = k"
  have "w AND f = 0 \<longleftrightarrow> (\<forall>i. \<not> bit (w AND f) i)"
    by (metis bit_0_eq bit_eqI bot_apply bot_bool_def)
  then show ?thesis using f by (auto simp: bit_and_iff)
qed

lemma has_bit [simp]:
  "has ev EV_TIMEOUT \<longleftrightarrow> bit ev 0" "has ev EV_READ \<longleftrightarrow> bit ev 1" "has ev EV_WRITE \<longleftrightarrow> bit ev 2"
  "has ev EV_SIGNAL \<longleftrightarrow> bit ev 3" "has ev EV_PERSIST \<longleftrightarrow> bit ev 4" "has ev EV_ET \<longleftrightarrow> bit ev 5"
  "has ev EV_FINALIZE \<longleftrightarrow> bit ev 6" "has ev EV_CLOSED \<longleftrightarrow> bit ev 7"
  unfolding has_def by (rule and_single_bit; simp)+

section \<open>Lists\<close>

lemma mset_list_update_swap:
  assumes "i < length xs" "j < length xs" "i \<noteq> j"
  shows "mset ((xs[i := xs ! j])[j := y]) = mset (xs[i := y])"
proof -
  have "mset ((xs[i := y])[i := (xs[i := y]) ! j, j := (xs[i := y]) ! i]) = mset (xs[i := y])"
    using assms by (intro mset_swap) auto
  moreover have "(xs[i := y])[i := (xs[i := y]) ! j, j := (xs[i := y]) ! i]
      = (xs[i := xs ! j])[j := y]"
    using assms by simp
  ultimately show ?thesis by simp
qed

lemma set_take_list_update_swap:
  assumes "i < n" "j < n" "n \<le> length xs" "i \<noteq> j"
  shows "mset (take n ((xs[i := xs ! j])[j := y])) = mset (take n (xs[i := y]))"
proof -
  have "mset (((take n xs)[i := take n xs ! j])[j := y]) = mset ((take n xs)[i := y])"
    using assms by (intro mset_list_update_swap) auto
  with assms show ?thesis by (simp add: take_update_swap)
qed

lemma distinct_mset_eq: "mset xs = mset ys \<Longrightarrow> distinct xs = distinct ys"
  by (simp add: distinct_count_atmost_1 set_mset_mset [symmetric] del: set_mset_mset)

lemma remove1_append_notin: "x \<notin> set xs \<Longrightarrow> remove1 x (xs @ x # ys) = xs @ ys"
  by (simp add: remove1_append)

lemma sorted_takeWhile_filter:
  fixes key :: "'a \<Rightarrow> 'k::linorder"
  assumes "sorted (map key xs)"
  shows "takeWhile (\<lambda>x. key x \<le> now) xs = filter (\<lambda>x. key x \<le> now) xs"
    "dropWhile (\<lambda>x. key x \<le> now) xs = filter (\<lambda>x. \<not> key x \<le> now) xs"
  using assms by (induction xs) (fastforce simp: filter_empty_conv filter_id_conv intro: sym)+

end
