(* ===== verification/Dll.thy ===== *)
theory Dll
  imports Event_Prelude "HOL-Library.Monad_Syntax"
begin

text \<open>
  Doubly linked lists of heap objects, shared by the timer list (\<^verbatim>\<open>LST_Timer.h\<close>) and the slots
  of the time wheel (\<^verbatim>\<open>TimeWheel.h\<close>). Objects live in a store: a partial map from addresses
  to records with a \<open>nprev\<close> and a \<open>nnext\<close> field. \<^verbatim>\<open>delete\<close> removes the address from the store, so
  that reading a deleted object gives \<open>None\<close>, as does following a null pointer. A loop that does
  not end is \<open>None\<close> as well; the theorems show that the operations return.
\<close>

record dnode =
  nprev :: "nat option"
  nnext :: "nat option"

type_synonym 'a store = "nat \<rightharpoonup> 'a dnode_scheme"

definition deref :: "('p \<rightharpoonup> 'o) \<Rightarrow> 'p option \<Rightarrow> 'o option" where
  "deref s p = (case p of None \<Rightarrow> None | Some a \<Rightarrow> s a)"

definition set_next :: "'a store \<Rightarrow> nat option \<Rightarrow> nat option \<Rightarrow> 'a store option" where
  "set_next s p v = (case p of None \<Rightarrow> None
     | Some a \<Rightarrow> (case s a of None \<Rightarrow> None | Some n \<Rightarrow> Some (s(a \<mapsto> n\<lparr>nnext := v\<rparr>))))"

definition set_prev :: "'a store \<Rightarrow> nat option \<Rightarrow> nat option \<Rightarrow> 'a store option" where
  "set_prev s p v = (case p of None \<Rightarrow> None
     | Some a \<Rightarrow> (case s a of None \<Rightarrow> None | Some n \<Rightarrow> Some (s(a \<mapsto> n\<lparr>nprev := v\<rparr>))))"

definition delete :: "'a store \<Rightarrow> nat option \<Rightarrow> 'a store option" where
  "delete s p = (case p of None \<Rightarrow> Some s
     | Some a \<Rightarrow> (case s a of None \<Rightarrow> None | Some _ \<Rightarrow> Some (s(a := None))))"

lemma deref_simps [simp]: "deref m None = None" "deref m (Some a) = m a"
  by (simp_all add: deref_def)

lemma store_simps [simp]:
  "s a = Some n \<Longrightarrow> set_next s (Some a) v = Some (s(a \<mapsto> n\<lparr>nnext := v\<rparr>))"
  "s a = Some n \<Longrightarrow> set_prev s (Some a) v = Some (s(a \<mapsto> n\<lparr>nprev := v\<rparr>))"
  "s a = Some n \<Longrightarrow> delete s (Some a) = Some (s(a := None))"
  "delete s None = Some s"
  by (simp_all add: deref_def set_next_def set_prev_def delete_def)

section \<open>Segments\<close>

fun firstp :: "nat list \<Rightarrow> nat option \<Rightarrow> nat option" where
  "firstp [] p = p"
| "firstp (x # xs) p = Some x"

fun lastp :: "nat option \<Rightarrow> nat list \<Rightarrow> nat option" where
  "lastp p [] = p"
| "lastp p (x # xs) = lastp (Some x) xs"

primrec dseg :: "'a store \<Rightarrow> nat option \<Rightarrow> nat list \<Rightarrow> nat option \<Rightarrow> bool" where
  "dseg s pv [] nx \<longleftrightarrow> True"
| "dseg s pv (x # xs) nx \<longleftrightarrow>
     (\<exists>n. s x = Some n \<and> nprev n = pv \<and> nnext n = firstp xs nx) \<and> dseg s (Some x) xs nx"

lemma firstp_append [simp]: "firstp (xs @ ys) p = firstp xs (firstp ys p)"
  by (cases xs) auto

lemma lastp_append [simp]: "lastp p (xs @ ys) = lastp (lastp p xs) ys"
  by (induction xs arbitrary: p) auto

lemma lastp_last: "xs \<noteq> [] \<Longrightarrow> lastp p xs = Some (last xs)"
  by (induction xs arbitrary: p) auto

lemma dseg_append [simp]:
  "dseg s pv (xs @ ys) nx \<longleftrightarrow> dseg s pv xs (firstp ys nx) \<and> dseg s (lastp pv xs) ys nx"
  by (induction xs arbitrary: pv) auto

lemma dseg_upd [simp]: "x \<notin> set xs \<Longrightarrow> dseg (s(x := v)) pv xs nx = dseg s pv xs nx"
  by (induction xs arbitrary: pv) auto

lemma dseg_dom: "dseg s pv xs nx \<Longrightarrow> set xs \<subseteq> dom s"
  by (induction xs arbitrary: pv) auto

lemma dseg_cong:
  "(\<And>x. x \<in> set xs \<Longrightarrow> s' x = s x) \<Longrightarrow> dseg s' pv xs nx = dseg s pv xs nx"
  by (induction xs arbitrary: pv) auto

text \<open>Redirecting the two ends of a segment.\<close>

lemma dseg_set_first:
  assumes "dseg s pv (x # xs) nx" "s x = Some n" "x \<notin> set xs"
  shows "dseg (s(x \<mapsto> n\<lparr>nprev := pv'\<rparr>)) pv' (x # xs) nx"
  using assms by auto

lemma dseg_set_last:
  assumes "dseg s pv (xs @ [x]) nx" "s x = Some n" "x \<notin> set xs"
  shows "dseg (s(x \<mapsto> n\<lparr>nnext := nx'\<rparr>)) pv (xs @ [x]) nx'"
  using assms by auto

definition dll :: "'a store \<Rightarrow> nat option \<Rightarrow> nat list \<Rightarrow> bool" where
  "dll s h xs \<longleftrightarrow> h = firstp xs None \<and> dseg s None xs None \<and> distinct xs"

lemma dll_empty [simp]: "dll s None xs \<longleftrightarrow> xs = []"
  by (cases xs) (auto simp: dll_def)

lemma dll_Nil [simp]: "dll s h [] \<longleftrightarrow> h = None"
  by (auto simp: dll_def)

section \<open>Unlinking an inner node\<close>

text \<open>
  \<^verbatim>\<open>t->prev->next = t->next; t->next->prev = t->prev\<close>, where the second statement is skipped for
  a null \<open>t->next\<close> in the time wheel.
\<close>

lemma unlink_dseg:
  assumes seg: "dseg s pv (as @ [a]) (Some t)" "dseg s (Some a) (t # bs) nx"
    and dist: "distinct (as @ a # t # bs)" and a: "s a = Some na" and t: "s t = Some nt"
    and s1: "s1 = s(a \<mapsto> na\<lparr>nnext := nnext nt\<rparr>)"
  shows "nprev nt = Some a" "nnext nt = firstp bs nx"
    "bs = [] \<Longrightarrow> dseg s1 pv (as @ [a]) nx"
    "bs = b # bs' \<Longrightarrow> \<exists>nb. s1 b = Some nb \<and>
       dseg (s1(b \<mapsto> nb\<lparr>nprev := nprev nt\<rparr>)) pv (as @ a # bs) nx"
proof -
  show nt: "nprev nt = Some a" "nnext nt = firstp bs nx" using seg t by auto
  have an: "a \<notin> set as" "a \<notin> set bs" using dist by auto
  have s1a: "dseg s1 pv (as @ [a]) (firstp bs nx)"
    using dseg_set_last [OF seg(1) a an(1), of "nnext nt"] s1 nt by simp
  then show "dseg s1 pv (as @ [a]) nx" if "bs = []" using that by simp
  show "\<exists>nb. s1 b = Some nb \<and> dseg (s1(b \<mapsto> nb\<lparr>nprev := nprev nt\<rparr>)) pv (as @ a # bs) nx"
    if b: "bs = b # bs'"
  proof -
    have sb: "dseg s1 (Some t) bs nx" using seg(2) an s1 by simp
    then obtain nb where nb: "s1 b = Some nb" using b by auto
    have "b \<notin> set bs'" "b \<notin> set (as @ [a])" using dist b by auto
    then have "dseg (s1(b \<mapsto> nb\<lparr>nprev := Some a\<rparr>)) (Some a) bs nx"
      "dseg (s1(b \<mapsto> nb\<lparr>nprev := Some a\<rparr>)) pv (as @ [a]) (firstp bs nx)"
      using dseg_set_first [of s1 "Some t" b bs' nx nb "Some a"] sb b nb s1a by simp_all
    then have "dseg (s1(b \<mapsto> nb\<lparr>nprev := Some a\<rparr>)) pv ((as @ [a]) @ bs) nx"
      by (subst dseg_append) simp
    with nb nt show ?thesis by auto
  qed
qed

section \<open>Freeing a list\<close>

text \<open>
  The loop of the two destructors: \<^verbatim>\<open>while (tmp) { head = tmp->next; delete tmp; tmp = head; }\<close>.
\<close>

partial_function (option) destroy_loop :: "'a store \<Rightarrow> nat option \<Rightarrow> 'a store option" where
  "destroy_loop m h =
     (if h = None then Some m
      else do { tmp \<leftarrow> h; n \<leftarrow> m tmp; m1 \<leftarrow> delete m (Some tmp); destroy_loop m1 (nnext n) })"

lemma destroy_loop_ok:
  "dseg m pv xs None \<Longrightarrow> distinct xs \<Longrightarrow>
   destroy_loop m (firstp xs None) = Some (m |` (- set xs))"
proof (induction xs arbitrary: m pv)
  case Nil
  then show ?case by (simp add: destroy_loop.simps [of _ None])
next
  case (Cons x xs)
  from Cons.prems obtain n where n: "m x = Some n" "nnext n = firstp xs None" by auto
  have d: "dseg (m(x := None)) (Some x) xs None" "distinct xs" using Cons.prems by simp_all
  have "(m(x := None)) |` (- set xs) = m |` (- set (x # xs))"
    by (auto simp: restrict_map_def fun_eq_iff)
  then have "destroy_loop (m(x := None)) (firstp xs None) = Some (m |` (- set (x # xs)))"
    by (subst Cons.IH [OF d]) (simp only:)
  with n show ?case by (simp add: destroy_loop.simps [of _ "Some x"])
qed

end
