(* ===== verification/Timer_List.thy ===== *)
theory Timer_List
  imports Dll
begin

text \<open>
  The ascending timer list of \<^verbatim>\<open>LST_Timer.h\<close> (\<^verbatim>\<open>sort_timer_lst\<close>). A timer object is a record in
  the store; the callback of a timer closes the connection of its user data and does not touch the
  list (\<^verbatim>\<open>cb_func\<close> of \<^verbatim>\<open>LST_Timer.cpp\<close>), so a call is recorded as the user data it receives.
\<close>

section \<open>State and operations\<close>

record util_timer = dnode +
  expire :: int
  user_data :: nat

type_synonym timer_store = "nat \<rightharpoonup> util_timer"

record sort_timer_lst =
  mem :: timer_store
  head :: "nat option"
  tail :: "nat option"

text \<open>The private \<^verbatim>\<open>add_timer(timer, lst_head)\<close>: the search loop, then nothing at its end.\<close>

partial_function (option) add_timer_loop ::
  "timer_store \<Rightarrow> nat \<Rightarrow> nat \<Rightarrow> nat option \<Rightarrow> timer_store option" where
  "add_timer_loop m timer prev tmp =
     (if tmp = None then Some m
      else
         do { t \<leftarrow> tmp; nt \<leftarrow> m timer; n \<leftarrow> m t;
              if expire nt < expire n
              then do { m1 \<leftarrow> set_next m (Some prev) (Some timer);
                        m2 \<leftarrow> set_next m1 (Some timer) (Some t);
                        m3 \<leftarrow> set_prev m2 (Some t) (Some timer);
                        set_prev m3 (Some timer) (Some prev) }
              else add_timer_loop m timer t (nnext n) })"

definition add_timer_from :: "timer_store \<Rightarrow> nat \<Rightarrow> nat option \<Rightarrow> timer_store option" where
  "add_timer_from m timer lst_head =
     do { p \<leftarrow> lst_head; n \<leftarrow> m p; add_timer_loop m timer p (nnext n) }"

definition add_timer :: "sort_timer_lst \<Rightarrow> nat option \<Rightarrow> sort_timer_lst option" where
  "add_timer l tm =
     (case tm of None \<Rightarrow> Some l
      | Some timer \<Rightarrow>
         (case head l of
            None \<Rightarrow> Some (l\<lparr>head := Some timer, tail := Some timer\<rparr>)
          | Some h \<Rightarrow>
             do { nt \<leftarrow> mem l timer; nh \<leftarrow> mem l h;
                  if expire nt < expire nh
                  then do { m1 \<leftarrow> set_next (mem l) (Some timer) (Some h);
                            m2 \<leftarrow> set_prev m1 (Some h) (Some timer);
                            Some (l\<lparr>mem := m2, head := Some timer\<rparr>) }
                  else do { m1 \<leftarrow> add_timer_from (mem l) timer (Some h);
                            Some (l\<lparr>mem := m1\<rparr>) } }))"

definition adjust_timer :: "sort_timer_lst \<Rightarrow> nat option \<Rightarrow> sort_timer_lst option" where
  "adjust_timer l tm =
     (case tm of None \<Rightarrow> Some l
      | Some timer \<Rightarrow>
         do { nt \<leftarrow> mem l timer;
              case nnext nt of None \<Rightarrow> Some l
              | Some tmp \<Rightarrow>
                 do { ntmp \<leftarrow> mem l tmp;
                      if expire nt < expire ntmp then Some l
                      else if Some timer = head l
                      then do { m1 \<leftarrow> set_prev (mem l) (nnext nt) None;
                                m2 \<leftarrow> set_next m1 (Some timer) None;
                                m3 \<leftarrow> add_timer_from m2 timer (nnext nt);
                                Some (l\<lparr>mem := m3, head := nnext nt\<rparr>) }
                      else do { m1 \<leftarrow> set_next (mem l) (nprev nt) (nnext nt);
                                m2 \<leftarrow> set_prev m1 (nnext nt) (nprev nt);
                                m3 \<leftarrow> add_timer_from m2 timer (nnext nt);
                                Some (l\<lparr>mem := m3\<rparr>) } } })"

definition del_timer :: "sort_timer_lst \<Rightarrow> nat option \<Rightarrow> sort_timer_lst option" where
  "del_timer l tm =
     (case tm of None \<Rightarrow> Some l
      | Some timer \<Rightarrow>
         if tm = head l \<and> tm = tail l
         then do { m \<leftarrow> delete (mem l) tm; Some (l\<lparr>mem := m, head := None, tail := None\<rparr>) }
         else if tm = head l
         then do { nh \<leftarrow> deref (mem l) (head l);
                   m1 \<leftarrow> set_prev (mem l) (nnext nh) None;
                   m2 \<leftarrow> delete m1 tm;
                   Some (l\<lparr>mem := m2, head := nnext nh\<rparr>) }
         else if tm = tail l
         then do { nt \<leftarrow> deref (mem l) (tail l);
                   m1 \<leftarrow> set_next (mem l) (nprev nt) None;
                   m2 \<leftarrow> delete m1 tm;
                   Some (l\<lparr>mem := m2, tail := nprev nt\<rparr>) }
         else do { nt \<leftarrow> mem l timer;
                   m1 \<leftarrow> set_next (mem l) (nprev nt) (nnext nt);
                   m2 \<leftarrow> set_prev m1 (nnext nt) (nprev nt);
                   m3 \<leftarrow> delete m2 tm;
                   Some (l\<lparr>mem := m3\<rparr>) })"

text \<open>The loop of \<^verbatim>\<open>tick\<close>; the result holds the user data of the callbacks, in order.\<close>

partial_function (option) tick_loop ::
  "int \<Rightarrow> timer_store \<Rightarrow> nat option \<Rightarrow> nat list \<Rightarrow> (timer_store \<times> nat option \<times> nat list) option" where
  "tick_loop cur m h calls =
     (if h = None then Some (m, None, calls)
      else
         do { tmp \<leftarrow> h; n \<leftarrow> m tmp;
              if cur < expire n then Some (m, Some tmp, calls)
              else do { m1 \<leftarrow> (case nnext n of None \<Rightarrow> Some m | Some _ \<Rightarrow> set_prev m (nnext n) None);
                        m2 \<leftarrow> delete m1 (Some tmp);
                        tick_loop cur m2 (nnext n) (calls @ [user_data n]) } })"

definition tick :: "int \<Rightarrow> sort_timer_lst \<Rightarrow> (sort_timer_lst \<times> nat list) option" where
  "tick cur l =
     (case head l of None \<Rightarrow> Some (l, [])
      | Some _ \<Rightarrow> do { (m, h, calls) \<leftarrow> tick_loop cur (mem l) (head l) [];
                       Some (l\<lparr>mem := m, head := h\<rparr>, calls) })"

definition destroy_sort_timer_lst :: "sort_timer_lst \<Rightarrow> timer_store option" where
  "destroy_sort_timer_lst l = destroy_loop (mem l) (head l)"

section \<open>The list a state represents\<close>

definition repr :: "sort_timer_lst \<Rightarrow> nat list \<Rightarrow> bool" where
  "repr l xs \<longleftrightarrow> dll (mem l) (head l) xs \<and> (xs \<noteq> [] \<longrightarrow> tail l = Some (last xs))"

definition exp_of :: "timer_store \<Rightarrow> nat \<Rightarrow> int" where
  "exp_of m t = expire (the (m t))"

text \<open>
  What the search does to the list of timers behind the first one: the new timer is put in front of
  the first timer that expires strictly later, and nothing happens if there is none.
\<close>

fun insert_before_later :: "(nat \<Rightarrow> int) \<Rightarrow> nat \<Rightarrow> nat list \<Rightarrow> nat list" where
  "insert_before_later ex t [] = []"
| "insert_before_later ex t (x # xs) =
     (if ex t < ex x then t # x # xs else x # insert_before_later ex t xs)"

definition add_spec :: "(nat \<Rightarrow> int) \<Rightarrow> nat \<Rightarrow> nat list \<Rightarrow> nat list" where
  "add_spec ex t xs =
     (case xs of [] \<Rightarrow> [t]
      | x # ys \<Rightarrow> if ex t < ex x then t # xs else x # insert_before_later ex t ys)"

lemma insert_before_later_eq:
  "insert_before_later ex t xs =
     (if \<exists>x \<in> set xs. ex t < ex x
      then takeWhile (\<lambda>x. \<not> ex t < ex x) xs @ t # dropWhile (\<lambda>x. \<not> ex t < ex x) xs else xs)"
  by (induction xs) auto

lemma set_insert_before_later: "set (insert_before_later ex t xs) \<subseteq> insert t (set xs)"
  by (induction xs) auto

lemma distinct_insert_before_later:
  "distinct xs \<Longrightarrow> t \<notin> set xs \<Longrightarrow> distinct (insert_before_later ex t xs)"
  using set_insert_before_later by (induction xs) fastforce+

lemma sorted_insert_before_later:
  "sorted (map ex xs) \<Longrightarrow> sorted (map ex (insert_before_later ex t xs))"
proof (induction xs)
  case (Cons x xs)
  show ?case
  proof (cases "ex t < ex x")
    case False
    have "\<forall>y \<in> set (insert_before_later ex t xs). ex x \<le> ex y"
      using Cons.prems set_insert_before_later [of ex t xs] False by fastforce
    with Cons False show ?thesis by simp
  qed (use Cons in fastforce)
qed simp

lemma sorted_add_spec: "sorted (map ex xs) \<Longrightarrow> sorted (map ex (add_spec ex t xs))"
proof (cases xs)
  case (Cons x ys)
  assume s: "sorted (map ex xs)"
  have "\<forall>y \<in> set (insert_before_later ex t ys). \<not> ex t < ex x \<longrightarrow> ex x \<le> ex y"
    using s Cons set_insert_before_later [of ex t ys] by fastforce
  with s Cons sorted_insert_before_later [of ex ys t] show ?thesis by (fastforce simp: add_spec_def)
qed (simp add: add_spec_def)

text \<open>Without a later timer behind the first one, a timer that is not earlier than it is lost.\<close>

lemma add_spec_lost:
  "xs \<noteq> [] \<Longrightarrow> \<forall>x \<in> set xs. ex x \<le> ex t \<Longrightarrow> add_spec ex t xs = xs"
proof (cases xs)
  case (Cons x ys)
  assume a: "\<forall>x \<in> set xs. ex x \<le> ex t"
  then have "insert_before_later ex t ys = ys" using Cons by (auto simp: insert_before_later_eq)
  with a Cons show ?thesis by (simp add: add_spec_def)
qed simp

section \<open>The pointer operations implement the list operations\<close>

text \<open>What no operation but the deletion changes: the objects and their data fields.\<close>

definition data_of :: "timer_store \<Rightarrow> nat \<Rightarrow> (int \<times> nat) option" where
  "data_of m x = map_option (\<lambda>n. (expire n, user_data n)) (m x)"

lemma data_of_upd [simp]:
  "m a = Some n \<Longrightarrow> data_of (m(a \<mapsto> n\<lparr>nnext := v\<rparr>)) = data_of m"
  "m a = Some n \<Longrightarrow> data_of (m(a \<mapsto> n\<lparr>nprev := v\<rparr>)) = data_of m"
  by (auto simp: data_of_def fun_eq_iff)

lemma data_of_delete [simp]: "data_of (m(a := None)) = (data_of m)(a := None)"
  by (auto simp: data_of_def)

lemma data_of_exp_of: "data_of m' = data_of m \<Longrightarrow> exp_of m' = exp_of m"
proof
  fix x
  assume "data_of m' = data_of m"
  then have "data_of m' x = data_of m x" by simp
  then show "exp_of m' x = exp_of m x"
    by (cases "m x"; cases "m' x") (auto simp: data_of_def exp_of_def)
qed

lemma add_timer_loop_ok:
  assumes "dseg m pv (as @ p # ys) None" "distinct (as @ p # ys)"
    "timer \<notin> set (as @ p # ys)" "m timer = Some nt"
  shows "\<exists>m'. add_timer_loop m timer p (firstp ys None) = Some m' \<and>
     dseg m' pv (as @ p # insert_before_later (exp_of m) timer ys) None \<and> data_of m' = data_of m"
  using assms
proof (induction ys arbitrary: as p)
  case Nil
  then show ?case by (simp add: add_timer_loop.simps [of _ _ _ None])
next
  case (Cons y ys)
  from Cons.prems obtain n np where n: "m y = Some n" "nnext n = firstp ys None" "m p = Some np"
    by auto
  show ?case
  proof (cases "expire nt < expire n")
    case False
    have "dseg m pv ((as @ [p]) @ y # ys) None" "distinct ((as @ [p]) @ y # ys)"
      "timer \<notin> set ((as @ [p]) @ y # ys)" using Cons.prems by simp_all
    from Cons.IH [OF this Cons.prems(4)] n False Cons.prems(4) show ?thesis
      by (simp add: add_timer_loop.simps [of _ _ _ "Some y"] exp_of_def)
  next
    case True
    define m4 where "m4 = m(p \<mapsto> np\<lparr>nnext := Some timer\<rparr>,
      timer \<mapsto> nt\<lparr>nnext := Some y, nprev := Some p\<rparr>, y \<mapsto> n\<lparr>nprev := Some timer\<rparr>)"
    have "add_timer_loop m timer p (Some y) = Some m4"
      using True n Cons.prems by (auto simp: add_timer_loop.simps [of _ _ _ "Some y"] m4_def fun_upd_twist)
    moreover have "dseg m4 pv (as @ p # timer # y # ys) None"
      using Cons.prems n by (auto simp: m4_def)
    moreover have "data_of m4 = data_of m"
      using Cons.prems n by (auto simp: m4_def data_of_def fun_eq_iff)
    ultimately show ?thesis using True n Cons.prems(4) by (simp add: exp_of_def)
  qed
qed

lemma insert_before_later_last: "xs \<noteq> [] \<Longrightarrow> last (insert_before_later ex t xs) = last xs"
  by (induction xs) (auto split: if_splits, (metis insert_before_later.elims list.distinct(1))+)

lemma insert_before_later_empty [simp]: "insert_before_later ex t xs = [] \<longleftrightarrow> xs = []"
  by (cases xs) auto

lemma add_timer_from_ok:
  assumes "dseg m pv (as @ p # ys) None" "distinct (as @ p # ys)"
    "timer \<notin> set (as @ p # ys)" "m timer = Some nt"
  shows "\<exists>m'. add_timer_from m timer (Some p) = Some m' \<and>
     dseg m' pv (as @ p # insert_before_later (exp_of m) timer ys) None \<and> data_of m' = data_of m"
proof -
  obtain np where "m p = Some np" "nnext np = firstp ys None" using assms(1) by auto
  with add_timer_loop_ok [OF assms] show ?thesis by (simp add: add_timer_from_def)
qed

lemma add_timer_ok:
  assumes r: "repr l xs" and t: "timer \<notin> set xs" "mem l timer = Some nt"
    and fresh: "nprev nt = None" "nnext nt = None"
  shows "\<exists>l'. add_timer l (Some timer) = Some l' \<and>
     repr l' (add_spec (exp_of (mem l)) timer xs) \<and> data_of (mem l') = data_of (mem l)"
proof (cases xs)
  case Nil
  with r t fresh show ?thesis by (auto simp: add_timer_def repr_def add_spec_def dll_def)
next
  case (Cons x ys)
  with r have h: "head l = Some x" "tail l = Some (last xs)" and d: "dseg (mem l) None xs None"
    and dist: "distinct xs" by (auto simp: repr_def dll_def)
  from d Cons obtain nx where nx: "mem l x = Some nx" "nprev nx = None" by auto
  show ?thesis
  proof (cases "expire nt < expire nx")
    case True
    define m2 where "m2 = (mem l)(timer \<mapsto> nt\<lparr>nnext := Some x\<rparr>, x \<mapsto> nx\<lparr>nprev := Some timer\<rparr>)"
    have "add_timer l (Some timer) = Some (l\<lparr>mem := m2, head := Some timer\<rparr>)"
      using h nx t Cons True by (auto simp: add_timer_def m2_def)
    moreover have "dseg m2 None (timer # xs) None"
      using d dist t Cons nx fresh by (auto simp: m2_def)
    moreover have "data_of m2 = data_of (mem l)"
      using t nx Cons by (auto simp: m2_def data_of_def fun_eq_iff)
    ultimately show ?thesis using Cons h dist t True nx
      by (auto simp: repr_def dll_def add_spec_def exp_of_def)
  next
    case False
    obtain m' where m': "add_timer_from (mem l) timer (Some x) = Some m'"
      "dseg m' None (x # insert_before_later (exp_of (mem l)) timer ys) None"
      "data_of m' = data_of (mem l)"
      using add_timer_from_ok [of "mem l" None "[]" x ys timer nt] d dist t Cons by auto
    have "add_timer l (Some timer) = Some (l\<lparr>mem := m'\<rparr>)"
      using h nx t False m' by (simp add: add_timer_def)
    moreover have "distinct (x # insert_before_later (exp_of (mem l)) timer ys)"
      using dist t Cons distinct_insert_before_later [of ys timer "exp_of (mem l)"]
        set_insert_before_later [of "exp_of (mem l)" timer ys] by auto
    ultimately show ?thesis using Cons h False m' nx t
      by (auto simp: repr_def dll_def add_spec_def exp_of_def insert_before_later_last)
  qed
qed

lemma del_timer_ok:
  assumes r: "repr l xs" and t: "t \<in> set xs"
  shows "\<exists>l'. del_timer l (Some t) = Some l' \<and> repr l' (remove1 t xs) \<and>
     data_of (mem l') = (data_of (mem l))(t := None)"
proof -
  from r t have hd: "head l = firstp xs None" "tail l = Some (last xs)"
    and d: "dseg (mem l) None xs None" and dist: "distinct xs" by (auto simp: repr_def dll_def)
  from t obtain as bs where xs: "xs = as @ t # bs" by (meson split_list)
  with d obtain nt where nt: "mem l t = Some nt" by auto
  show ?thesis
  proof (cases as rule: rev_cases)
    case Nil
    show ?thesis
    proof (cases bs)
      case bNil: Nil
      with Nil xs hd nt show ?thesis by (auto simp: del_timer_def repr_def)
    next
      case (Cons b bs')
      with Nil xs d obtain nb where nb: "mem l b = Some nb" "nnext nt = Some b" using nt by auto
      have bt: "b \<noteq> t" "last bs \<noteq> t" using Cons Nil xs dist by auto
      define m2 where "m2 = ((mem l)(b \<mapsto> nb\<lparr>nprev := None\<rparr>))(t := None)"
      have "del_timer l (Some t) = Some (l\<lparr>mem := m2, head := Some b\<rparr>)"
        using hd xs Nil Cons bt nb nt by (auto simp: del_timer_def m2_def)
      moreover have "dseg m2 None bs None"
        using d dist xs Nil Cons nb by (auto simp: m2_def)
      ultimately show ?thesis using hd xs Nil Cons dist nb bt nt
        by (auto simp: repr_def dll_def m2_def)
    qed
  next
    case (snoc as' a)
    have d': "dseg (mem l) None (as' @ [a]) (Some t)" "dseg (mem l) (Some a) (t # bs) None"
      and dist': "distinct (as' @ a # t # bs)" using d dist xs snoc by auto
    obtain na where na: "mem l a = Some na" using d'(1) by auto
    define m1 where "m1 = (mem l)(a \<mapsto> na\<lparr>nnext := nnext nt\<rparr>)"
    note u = unlink_dseg [OF d' dist' na nt m1_def]
    have th: "Some t \<noteq> head l" using hd xs snoc dist by (cases as') auto
    have rm: "remove1 t xs = as' @ a # bs" using xs snoc dist by (simp add: remove1_append)
    show ?thesis
    proof (cases bs)
      case Nil
      have "del_timer l (Some t) = Some (l\<lparr>mem := m1(t := None), tail := Some a\<rparr>)"
        using th hd xs Nil nt na u(1,2) dist' by (auto simp: del_timer_def m1_def)
      moreover have "dseg (m1(t := None)) None (as' @ [a]) None"
        using u(3) [OF Nil] dist' by (subst dseg_upd) auto
      ultimately show ?thesis using rm Nil hd xs snoc dist' na
        by (auto simp: repr_def dll_def m1_def)
    next
      case (Cons b bs')
      from u(4) [OF Cons] obtain nb where nb: "m1 b = Some nb"
        "dseg (m1(b \<mapsto> nb\<lparr>nprev := nprev nt\<rparr>)) None (as' @ a # bs) None" by auto
      define m3 where "m3 = (m1(b \<mapsto> nb\<lparr>nprev := nprev nt\<rparr>))(t := None)"
      have bt: "b \<noteq> t" "last bs \<noteq> t" using Cons dist' by auto
      have nn: "nnext nt = Some b" using u(2) Cons by simp
      have "del_timer l (Some t) = Some (l\<lparr>mem := m3\<rparr>)"
        using th hd xs Cons nt na u(1) nn nb bt dist' by (auto simp: del_timer_def m1_def m3_def)
      moreover have "dseg m3 None (as' @ a # bs) None"
        unfolding m3_def using nb(2) dist' by (subst dseg_upd) auto
      moreover have "data_of m3 = (data_of (mem l))(t := None)"
        using nb na by (simp add: m3_def m1_def)
      ultimately show ?thesis using rm hd xs snoc dist' Cons
        by (auto simp: repr_def dll_def)
    qed
  qed
qed

text \<open>A timer that is not in the list and has no predecessor: the code reads through a null pointer.\<close>

lemma del_timer_not_in_list:
  assumes "repr l xs" "xs \<noteq> []" "t \<notin> set xs" "mem l t = Some nt" "nprev nt = None"
  shows "del_timer l (Some t) = None"
proof -
  have "head l \<noteq> Some t" "tail l \<noteq> Some t" using assms(1-3) by (cases xs; auto simp: repr_def dll_def)+
  with assms(4,5) show ?thesis by (auto simp: del_timer_def set_next_def)
qed

definition expired :: "timer_store \<Rightarrow> int \<Rightarrow> nat \<Rightarrow> bool" where
  "expired m cur x \<longleftrightarrow> exp_of m x \<le> cur"

definition udata :: "timer_store \<Rightarrow> nat \<Rightarrow> nat" where
  "udata m x = user_data (the (m x))"

lemma tick_loop_ok:
  assumes "dseg m None xs None" "distinct xs"
  shows "\<exists>m'. tick_loop cur m (firstp xs None) calls =
       Some (m', firstp (dropWhile (expired m cur) xs) None,
             calls @ map (udata m) (takeWhile (expired m cur) xs)) \<and>
     dseg m' None (dropWhile (expired m cur) xs) None \<and>
     (\<forall>x. data_of m' x = (if x \<in> set (takeWhile (expired m cur) xs) then None else data_of m x))"
  using assms
proof (induction xs arbitrary: m calls)
  case Nil
  then show ?case by (simp add: tick_loop.simps [of _ _ None])
next
  case (Cons x xs)
  from Cons.prems obtain n where n: "m x = Some n" "nprev n = None" "nnext n = firstp xs None" by auto
  show ?case
  proof (cases "cur < expire n")
    case True
    then show ?thesis using n Cons.prems
      by (auto simp: tick_loop.simps [of _ _ "Some x"] expired_def exp_of_def)
  next
    case False
    have "\<exists>m2. dseg m2 None xs None \<and> data_of m2 = (data_of m)(x := None) \<and>
      tick_loop cur m (Some x) calls = tick_loop cur m2 (firstp xs None) (calls @ [user_data n])"
    proof (cases xs)
      case Nil
      then show ?thesis using False n
        by (intro exI [of _ "m(x := None)"]) (simp add: tick_loop.simps [of _ _ "Some x"])
    next
      case xs: (Cons y ys)
      with Cons.prems obtain ny where ny: "m y = Some ny" by auto
      let ?m2 = "(m(y \<mapsto> ny\<lparr>nprev := None\<rparr>))(x := None)"
      have "dseg ?m2 None xs None" using Cons.prems xs ny by auto
      moreover have "data_of ?m2 = (data_of m)(x := None)" using ny by simp
      ultimately show ?thesis using False n xs ny Cons.prems
        by (intro exI [of _ ?m2]) (auto simp: tick_loop.simps [of _ _ "Some x"])
    qed
    then obtain m2 where m2: "dseg m2 None xs None" "data_of m2 = (data_of m)(x := None)"
      "tick_loop cur m (Some x) calls = tick_loop cur m2 (firstp xs None) (calls @ [user_data n])"
      by blast
    have eq: "exp_of m2 y = exp_of m y" "udata m2 y = udata m y" if "y \<in> set xs" for y
    proof -
      have "data_of m2 y = data_of m y" using m2(2) that Cons.prems by auto
      then show "exp_of m2 y = exp_of m y" "udata m2 y = udata m y"
        by (cases "m y"; cases "m2 y"; simp add: data_of_def exp_of_def udata_def)+
    qed
    have tw: "takeWhile (expired m2 cur) xs = takeWhile (expired m cur) xs"
      "dropWhile (expired m2 cur) xs = dropWhile (expired m cur) xs"
      using eq(1) by (auto intro!: takeWhile_cong dropWhile_cong simp: expired_def)
    have ud: "map (udata m2) (takeWhile (expired m cur) xs) = map (udata m) (takeWhile (expired m cur) xs)"
      using eq(2) by (auto dest: set_takeWhileD)
    have ex: "expired m cur x" "udata m x = user_data n"
      using False n by (auto simp: expired_def exp_of_def udata_def)
    from Cons.IH [OF m2(1), of "calls @ [user_data n]"] Cons.prems(2) obtain m' where
      "tick_loop cur m (Some x) calls = Some (m', firstp (dropWhile (expired m cur) xs) None,
         (calls @ [udata m x]) @ map (udata m) (takeWhile (expired m cur) xs))"
      "dseg m' None (dropWhile (expired m cur) xs) None"
      "\<forall>y. data_of m' y = (if y \<in> set (takeWhile (expired m cur) xs) then None else data_of m2 y)"
      unfolding tw ud m2(3) ex by auto
    with ex(1) m2(2) show ?thesis by auto
  qed
qed

lemma tick_ok:
  assumes r: "repr l xs"
  shows "\<exists>l'. tick cur l = Some (l', map (udata (mem l)) (takeWhile (expired (mem l) cur) xs)) \<and>
     repr l' (dropWhile (expired (mem l) cur) xs) \<and>
     (\<forall>x. data_of (mem l') x =
        (if x \<in> set (takeWhile (expired (mem l) cur) xs) then None else data_of (mem l) x))"
proof (cases xs)
  case Nil
  with r show ?thesis by (auto simp: tick_def repr_def)
next
  case (Cons x ys)
  with r have h: "head l = Some x" "tail l = Some (last xs)" "dseg (mem l) None xs None" "distinct xs"
    by (auto simp: repr_def dll_def)
  let ?E = "expired (mem l) cur"
  obtain m' where m': "tick_loop cur (mem l) (firstp xs None) [] =
       Some (m', firstp (dropWhile ?E xs) None, [] @ map (udata (mem l)) (takeWhile ?E xs))"
     "dseg m' None (dropWhile ?E xs) None"
     "\<forall>x. data_of m' x = (if x \<in> set (takeWhile ?E xs) then None else data_of (mem l) x)"
    using tick_loop_ok [OF h(3,4)] by metis
  have "dropWhile ?E xs \<noteq> [] \<Longrightarrow> last (dropWhile ?E xs) = last xs"
    by (metis last_appendR takeWhile_dropWhile_id)
  moreover have "distinct (dropWhile ?E xs)" using h(4) by (rule distinct_dropWhile)
  ultimately show ?thesis using h m' Cons
    by (intro exI [of _ "l\<lparr>mem := m', head := firstp (dropWhile ?E xs) None\<rparr>"])
       (auto simp: tick_def repr_def dll_def)
qed

text \<open>
  \<^verbatim>\<open>adjust_timer\<close>: a timer that now expires later than its successor moves behind it, by the
  same search; a timer with no later successor drops out of the list.
\<close>

definition adjust_spec :: "(nat \<Rightarrow> int) \<Rightarrow> nat \<Rightarrow> nat list \<Rightarrow> nat list \<Rightarrow> nat list" where
  "adjust_spec ex t as bs =
     (case bs of [] \<Rightarrow> as @ [t]
      | b # bs' \<Rightarrow> if ex t < ex b then as @ t # bs else as @ b # insert_before_later ex t bs')"

lemma adjust_timer_ok:
  assumes r: "repr l (as @ t # bs)"
  shows "\<exists>l'. adjust_timer l (Some t) = Some l' \<and>
     repr l' (adjust_spec (exp_of (mem l)) t as bs) \<and> data_of (mem l') = data_of (mem l)"
proof -
  let ?ex = "exp_of (mem l)"
  from r have hd: "head l = firstp (as @ t # bs) None" "tail l = Some (last (t # bs))"
    and d: "dseg (mem l) None (as @ t # bs) None" and dist: "distinct (as @ t # bs)"
    by (auto simp: repr_def dll_def)
  from d obtain nt where nt: "mem l t = Some nt" "nnext nt = firstp bs None" "nprev nt = lastp None as"
    by auto
  show ?thesis
  proof (cases bs)
    case Nil
    with r nt show ?thesis by (auto simp: adjust_timer_def adjust_spec_def)
  next
    case (Cons b bs')
    with d obtain nb where nb: "mem l b = Some nb" by auto
    have exs: "?ex t = expire nt" "?ex b = expire nb" using nt nb by (simp_all add: exp_of_def)
    show ?thesis
    proof (cases "expire nt < expire nb")
      case True
      with r nt nb Cons exs show ?thesis by (auto simp: adjust_timer_def adjust_spec_def)
    next
      case False
      have "\<exists>m2 nt2. m2 t = Some nt2 \<and> dseg m2 None (as @ b # bs') None \<and> data_of m2 = data_of (mem l) \<and>
        adjust_timer l (Some t) = (add_timer_from m2 t (Some b) \<bind>
          (\<lambda>m3. Some (l\<lparr>mem := m3, head := firstp (as @ b # bs') None\<rparr>)))"
      proof (cases as rule: rev_cases)
        case as: Nil
        let ?m2 = "(mem l)(b \<mapsto> nb\<lparr>nprev := None\<rparr>, t \<mapsto> nt\<lparr>nnext := None\<rparr>)"
        have "b \<noteq> t" using dist Cons by auto
        moreover have "dseg ?m2 None (as @ b # bs') None" using d dist as Cons nb by auto
        moreover have "data_of ?m2 = data_of (mem l)"
          using nb nt \<open>b \<noteq> t\<close> by (auto simp: data_of_def fun_eq_iff)
        ultimately show ?thesis using False nt nb hd as Cons
          by (intro exI [of _ ?m2] exI [of _ "nt\<lparr>nnext := None\<rparr>"]) (simp add: adjust_timer_def)
      next
        case (snoc as' a)
        have d': "dseg (mem l) None (as' @ [a]) (Some t)" "dseg (mem l) (Some a) (t # bs) None"
          and dist': "distinct (as' @ a # t # bs)" using d dist snoc by auto
        obtain na where na: "mem l a = Some na" using d'(1) by auto
        define m1 where "m1 = (mem l)(a \<mapsto> na\<lparr>nnext := nnext nt\<rparr>)"
        note u = unlink_dseg [OF d' dist' na nt(1) m1_def]
        from u(4) [OF Cons] obtain nb' where nb': "m1 b = Some nb'"
          "dseg (m1(b \<mapsto> nb'\<lparr>nprev := nprev nt\<rparr>)) None (as' @ a # bs) None" by auto
        let ?m2 = "m1(b \<mapsto> nb'\<lparr>nprev := nprev nt\<rparr>)"
        have ne: "a \<noteq> t" "b \<noteq> t" using dist' Cons by auto
        have th: "Some t \<noteq> head l" using hd snoc dist by (cases as') auto
        have "data_of ?m2 = data_of (mem l)" using nb' na by (simp add: m1_def)
        moreover have "l\<lparr>mem := m3\<rparr> = l\<lparr>mem := m3, head := firstp (as @ b # bs') None\<rparr>" for m3
          using hd(1) snoc by (cases as') auto
        moreover have "?m2 t = Some nt" using nt ne by (simp add: m1_def)
        moreover have "set_next (mem l) (nprev nt) (nnext nt) = Some m1" "set_prev m1 (nnext nt) (nprev nt) = Some ?m2"
          using na nb' nt u(1) Cons by (simp_all add: m1_def)
        ultimately show ?thesis using False nt nb nb' th snoc Cons
          by (intro exI [of _ ?m2] exI [of _ nt]) (simp add: adjust_timer_def)
      qed
      then obtain m2 nt2 where m2: "m2 t = Some nt2" "dseg m2 None (as @ b # bs') None"
        "data_of m2 = data_of (mem l)"
        "adjust_timer l (Some t) = (add_timer_from m2 t (Some b) \<bind>
          (\<lambda>m3. Some (l\<lparr>mem := m3, head := firstp (as @ b # bs') None\<rparr>)))" by blast
      have dist2: "distinct (as @ b # bs')" "t \<notin> set (as @ b # bs')" using dist Cons by auto
      from add_timer_from_ok [OF m2(2) dist2 m2(1)] data_of_exp_of [OF m2(3)] obtain m3 where
        m3: "add_timer_from m2 t (Some b) = Some m3"
          "dseg m3 None (as @ b # insert_before_later ?ex t bs') None" "data_of m3 = data_of m2"
        by auto
      have "distinct (as @ b # insert_before_later ?ex t bs')"
        using dist2 distinct_insert_before_later [of bs' t ?ex] set_insert_before_later [of ?ex t bs']
        by auto
      then show ?thesis using m2 m3 False exs hd Cons
        by (auto simp: repr_def dll_def adjust_spec_def insert_before_later_last)
    qed
  qed
qed

section \<open>Properties\<close>

text \<open>A list of two timers, at the addresses 5 and 6, and a third timer outside the list.\<close>

definition sample_store :: timer_store where
  "sample_store =
     [5 \<mapsto> \<lparr>nprev = None, nnext = Some 6, expire = 10, user_data = 100\<rparr>,
      6 \<mapsto> \<lparr>nprev = Some 5, nnext = None, expire = 20, user_data = 200\<rparr>,
      7 \<mapsto> \<lparr>nprev = None, nnext = None, expire = 15, user_data = 300\<rparr>,
      8 \<mapsto> \<lparr>nprev = None, nnext = None, expire = 30, user_data = 400\<rparr>]"

definition sample_list :: sort_timer_lst where
  "sample_list = \<lparr>mem = sample_store, head = Some 5, tail = Some 6\<rparr>"

lemma sample_repr: "repr sample_list [5, 6]"
  by (simp add: repr_def sample_list_def sample_store_def dll_def)

lemma sample_exp:
  "exp_of (mem sample_list) 5 = 10" "exp_of (mem sample_list) 6 = 20"
  "exp_of (mem sample_list) 7 = 15" "exp_of (mem sample_list) 8 = 30"
  by (simp_all add: exp_of_def sample_list_def sample_store_def)

text \<open>
  C9. Adding a fresh timer to the linked list returns, never touches a null or deleted object,
  implements the list operation \<open>add_spec\<close>, keeps the list ascending and changes no expiry time.
\<close>

theorem add_timer_implements:
  assumes "repr l xs" "sorted (map (exp_of (mem l)) xs)" "timer \<notin> set xs" "mem l timer = Some nt"
    "nprev nt = None" "nnext nt = None"
  shows "\<exists>l'. add_timer l (Some timer) = Some l' \<and> repr l' (add_spec (exp_of (mem l)) timer xs) \<and>
    sorted (map (exp_of (mem l)) (add_spec (exp_of (mem l)) timer xs)) \<and> data_of (mem l') = data_of (mem l)"
  using add_timer_ok [OF assms(1,3-6)] sorted_add_spec [OF assms(2)] by auto

theorem add_timer_implements_witness:
  "\<exists>l'. add_timer sample_list (Some 7) = Some l' \<and> repr l' [5, 7, 6]"
proof -
  have "add_spec (exp_of (mem sample_list)) 7 [5, 6] = [5, 7, 6]" by (simp add: add_spec_def sample_exp)
  then show ?thesis
    using add_timer_implements [OF sample_repr, of 7 "\<lparr>nprev = None, nnext = None, expire = 15, user_data = 300\<rparr>"]
    by (simp add: sample_exp) (auto simp: sample_list_def sample_store_def)
qed

text \<open>
  C10. A timer that does not expire before any timer of a non-empty list is silently dropped by
  \<^verbatim>\<open>add_timer\<close>: the list is the same afterwards.
\<close>

theorem add_timer_drops_last:
  assumes "repr l xs" "xs \<noteq> []" "\<forall>x \<in> set xs. exp_of (mem l) x \<le> exp_of (mem l) timer"
    "timer \<notin> set xs" "mem l timer = Some nt" "nprev nt = None" "nnext nt = None"
  shows "\<exists>l'. add_timer l (Some timer) = Some l' \<and> repr l' xs"
  using add_timer_ok [OF assms(1,4-7)] add_spec_lost [OF assms(2,3)] by auto

theorem add_timer_drops_last_witness: "\<exists>l'. add_timer sample_list (Some 8) = Some l' \<and> repr l' [5, 6]"
  using add_timer_drops_last [OF sample_repr, of 8 "\<lparr>nprev = None, nnext = None, expire = 30, user_data = 400\<rparr>"]
  by (simp add: sample_exp) (simp add: sample_list_def sample_store_def)

text \<open>
  C11. A tick on an ascending list calls the callbacks of exactly the expired timers, in order,
  deletes these timers and leaves the others linked.
\<close>

theorem timer_list_tick_fires_expired:
  assumes "repr l xs" "sorted (map (exp_of (mem l)) xs)"
  shows "\<exists>l'. tick cur l = Some (l', map (udata (mem l)) (filter (\<lambda>x. exp_of (mem l) x \<le> cur) xs)) \<and>
     repr l' (filter (\<lambda>x. \<not> exp_of (mem l) x \<le> cur) xs) \<and>
     (\<forall>x \<in> set xs. exp_of (mem l) x \<le> cur \<longrightarrow> mem l' x = None)"
proof -
  have t: "takeWhile (expired (mem l) cur) xs = filter (\<lambda>x. exp_of (mem l) x \<le> cur) xs"
    "dropWhile (expired (mem l) cur) xs = filter (\<lambda>x. \<not> exp_of (mem l) x \<le> cur) xs"
    using assms(2) sorted_takeWhile_filter [of "exp_of (mem l)" xs cur] by (simp_all add: expired_def [abs_def])
  from tick_ok [OF assms(1), of cur] obtain l' where
    l': "tick cur l = Some (l', map (udata (mem l)) (takeWhile (expired (mem l) cur) xs))"
    "repr l' (dropWhile (expired (mem l) cur) xs)"
    "\<forall>x. data_of (mem l') x =
        (if x \<in> set (takeWhile (expired (mem l) cur) xs) then None else data_of (mem l) x)" by blast
  have "mem l' x = None" if "x \<in> set xs" "exp_of (mem l) x \<le> cur" for x
    using l'(3) [rule_format, of x] that t(1) by (simp add: data_of_def split: option.splits)
  with l' t show ?thesis by auto
qed

theorem timer_list_tick_fires_expired_witness:
  "\<exists>l'. tick 12 sample_list = Some (l', [100]) \<and> repr l' [6] \<and> mem l' 5 = None"
  using timer_list_tick_fires_expired [OF sample_repr, of 12]
  by (simp add: sample_exp) (simp add: udata_def sample_list_def sample_store_def)

text \<open>
  Deleting a timer of the list unlinks and frees exactly this timer, wherever it stands.
\<close>

theorem del_timer_removes:
  assumes "repr l xs" "t \<in> set xs"
  shows "\<exists>l'. del_timer l (Some t) = Some l' \<and> repr l' (remove1 t xs) \<and> mem l' t = None"
proof -
  from del_timer_ok [OF assms] obtain l' where
    l': "del_timer l (Some t) = Some l'" "repr l' (remove1 t xs)" "data_of (mem l') = (data_of (mem l))(t := None)"
    by blast
  from fun_cong [OF l'(3), of t] have "mem l' t = None" by (simp add: data_of_def split: option.splits)
  with l' show ?thesis by blast
qed

theorem del_timer_removes_witness:
  "\<exists>l'. del_timer sample_list (Some 6) = Some l' \<and> repr l' [5] \<and> mem l' 6 = None"
  using del_timer_removes [OF sample_repr, of 6] by simp

end
