(* ===== verification/Time_Wheel.thy ===== *)
theory Time_Wheel
  imports Dll
begin

text \<open>
  The time wheel of \<^verbatim>\<open>TimeWheel.h\<close>: \<open>N\<close> slots, each a doubly linked list of timers, and a current
  slot that \<^verbatim>\<open>tick\<close> advances. The address of a new timer is an argument (what \<^verbatim>\<open>operator new\<close>
  returns); a callback is recorded as the address of its timer, in the order of the calls.
\<close>

section \<open>State and operations\<close>

definition N :: nat where "N = 60"
definition SI :: int where "SI = 1"

record tw_timer = dnode +
  rotation :: int
  time_slot :: nat

type_synonym tw_store = "nat \<rightharpoonup> tw_timer"

record time_wheel =
  wmem :: tw_store
  slots :: "nat option list"
  cur_slot :: nat

definition new_time_wheel :: "tw_store \<Rightarrow> time_wheel" where
  "new_time_wheel m = \<lparr>wmem = m, slots = replicate N None, cur_slot = 0\<rparr>"

definition wheel_add_timer :: "nat \<Rightarrow> time_wheel \<Rightarrow> int \<Rightarrow> (nat option \<times> time_wheel) option" where
  "wheel_add_timer a w timeout =
     (if timeout < 0 then Some (None, w)
      else
       (let ticks = (if timeout < SI then 1 else timeout div SI);
            rot = ticks div int N;
            ts = (cur_slot w + nat (ticks mod int N)) mod N;
            timer = \<lparr>nprev = None, nnext = None, rotation = rot, time_slot = ts\<rparr>;
            m = (wmem w)(a \<mapsto> timer)
        in case slots w ! ts of
             None \<Rightarrow> Some (Some a, w\<lparr>wmem := m, slots := (slots w)[ts := Some a]\<rparr>)
           | Some h \<Rightarrow>
               do { m1 \<leftarrow> set_next m (Some a) (Some h);
                    m2 \<leftarrow> set_prev m1 (Some h) (Some a);
                    Some (Some a, w\<lparr>wmem := m2, slots := (slots w)[ts := Some a]\<rparr>) }))"

definition wheel_del_timer :: "time_wheel \<Rightarrow> nat option \<Rightarrow> time_wheel option" where
  "wheel_del_timer w tm =
     (case tm of None \<Rightarrow> Some w
      | Some t \<Rightarrow>
         do { nt \<leftarrow> wmem w t;
              let ts = time_slot nt;
              if tm = slots w ! ts
              then do { m1 \<leftarrow> (if nnext nt = None then Some (wmem w) else set_prev (wmem w) (nnext nt) None);
                        m2 \<leftarrow> delete m1 tm;
                        Some (w\<lparr>wmem := m2, slots := (slots w)[ts := nnext nt]\<rparr>) }
              else do { m1 \<leftarrow> set_next (wmem w) (nprev nt) (nnext nt);
                        m2 \<leftarrow> (if nnext nt = None then Some m1 else set_prev m1 (nnext nt) (nprev nt));
                        m3 \<leftarrow> delete m2 tm;
                        Some (w\<lparr>wmem := m3\<rparr>) } })"

text \<open>The loop of \<^verbatim>\<open>tick\<close> over the current slot, whose head is \<open>sl\<close>.\<close>

partial_function (option) wheel_tick_loop ::
  "tw_store \<Rightarrow> nat option \<Rightarrow> nat option \<Rightarrow> nat list \<Rightarrow> (tw_store \<times> nat option \<times> nat list) option" where
  "wheel_tick_loop m sl tmp calls =
     (if tmp = None then Some (m, sl, calls)
      else
       do { t \<leftarrow> tmp; n \<leftarrow> m t;
            if rotation n > 0
            then wheel_tick_loop (m(t \<mapsto> n\<lparr>rotation := rotation n - 1\<rparr>)) sl (nnext n) calls
            else if tmp = sl
            then do { m1 \<leftarrow> delete m tmp;
                      m2 \<leftarrow> (if nnext n = None then Some m1 else set_prev m1 (nnext n) None);
                      wheel_tick_loop m2 (nnext n) (nnext n) (calls @ [t]) }
            else do { m1 \<leftarrow> set_next m (nprev n) (nnext n);
                      m2 \<leftarrow> (if nnext n = None then Some m1 else set_prev m1 (nnext n) (nprev n));
                      m3 \<leftarrow> delete m2 tmp;
                      wheel_tick_loop m3 sl (nnext n) (calls @ [t]) } })"

definition wheel_tick :: "time_wheel \<Rightarrow> (time_wheel \<times> nat list) option" where
  "wheel_tick w =
     (let sl = slots w ! cur_slot w
      in do { (m, sl', calls) \<leftarrow> wheel_tick_loop (wmem w) sl sl [];
              Some (w\<lparr>wmem := m, slots := (slots w)[cur_slot w := sl'],
                      cur_slot := (cur_slot w + 1) mod N\<rparr>, calls) })"

text \<open>The destructor frees the list of every slot.\<close>

fun destroy_slots :: "tw_store \<Rightarrow> nat option list \<Rightarrow> tw_store option" where
  "destroy_slots m [] = Some m"
| "destroy_slots m (sl # sls) = do { m1 \<leftarrow> destroy_loop m sl; destroy_slots m1 sls }"

definition destroy_time_wheel :: "time_wheel \<Rightarrow> tw_store option" where
  "destroy_time_wheel w = destroy_slots (wmem w) (slots w)"

fun wheel_ticks :: "nat \<Rightarrow> time_wheel \<Rightarrow> (time_wheel \<times> nat list list) option" where
  "wheel_ticks 0 w = Some (w, [])"
| "wheel_ticks (Suc k) w =
     do { (w1, c) \<leftarrow> wheel_tick w; (w2, cs) \<leftarrow> wheel_ticks k w1; Some (w2, c # cs) }"

section \<open>The lists a wheel represents\<close>

text \<open>The data fields of a timer, and the ticks a pending timer still lets pass before it fires.\<close>

definition tdata :: "tw_store \<Rightarrow> nat \<Rightarrow> (int \<times> nat) option" where
  "tdata m t = map_option (\<lambda>n. (rotation n, time_slot n)) (m t)"

definition slot_ok :: "tw_store \<Rightarrow> nat option \<Rightarrow> nat \<Rightarrow> nat list \<Rightarrow> bool" where
  "slot_ok m sl i xs \<longleftrightarrow>
     sl = firstp xs None \<and> dseg m None xs None \<and> (\<forall>t \<in> set xs. \<exists>r \<ge> 0. tdata m t = Some (r, i))"

definition wheel_repr :: "time_wheel \<Rightarrow> nat list list \<Rightarrow> bool" where
  "wheel_repr w ls \<longleftrightarrow>
     length (slots w) = N \<and> length ls = N \<and> cur_slot w < N \<and>
     (\<forall>i < N. slot_ok (wmem w) (slots w ! i) i (ls ! i) \<and> distinct (ls ! i))"

definition rot_of :: "tw_store \<Rightarrow> nat \<Rightarrow> int" where
  "rot_of m t = fst (the (tdata m t))"

definition remaining :: "time_wheel \<Rightarrow> nat \<Rightarrow> int" where
  "remaining w t = rot_of (wmem w) t * int N
     + (int (snd (the (tdata (wmem w) t))) - int (cur_slot w)) mod int N"

lemma tdata_upd [simp]:
  "m a = Some n \<Longrightarrow> tdata (m(a \<mapsto> n\<lparr>nnext := v\<rparr>)) = tdata m"
  "m a = Some n \<Longrightarrow> tdata (m(a \<mapsto> n\<lparr>nprev := v\<rparr>)) = tdata m"
  "tdata (m(a := None)) = (tdata m)(a := None)"
  "tdata (m(a \<mapsto> n\<lparr>rotation := r\<rparr>)) = (tdata m)(a \<mapsto> (r, time_slot n))"
  by (auto simp: tdata_def fun_eq_iff)

lemma tdata_Some [simp]: "m t = Some n \<Longrightarrow> tdata m t = Some (rotation n, time_slot n)"
  by (simp add: tdata_def)

lemma dseg_rotation [simp]:
  "m t = Some n \<Longrightarrow> dseg (m(t \<mapsto> n\<lparr>rotation := r\<rparr>)) pv xs nx = dseg m pv xs nx"
  by (induction xs arbitrary: pv) auto

lemma filter_rot_cong:
  assumes "\<forall>x \<in> set xs. tdata m2 x = tdata m x"
  shows "filter (\<lambda>t. 0 < rot_of m2 t) xs = filter (\<lambda>t. 0 < rot_of m t) xs"
    "filter (\<lambda>t. \<not> 0 < rot_of m2 t) xs = filter (\<lambda>t. \<not> 0 < rot_of m t) xs"
  using assms by (auto simp: rot_of_def cong: filter_cong)

text \<open>
  Taking the timer \<open>t\<close> out of the slot, in the two ways the loop (and \<^verbatim>\<open>del_timer\<close>) does it: at the
  head of the list, or in the middle.
\<close>

lemma wheel_unlink_head:
  assumes "dseg m None (t # rest) None" "distinct (t # rest)" "m t = Some n"
  shows "\<exists>m2. (do { m1 \<leftarrow> delete m (Some t);
         if nnext n = None then Some m1 else set_prev m1 (nnext n) None }) = Some m2 \<and>
     dseg m2 None rest None \<and> tdata m2 = (tdata m)(t := None) \<and>
     (\<forall>x. x \<notin> set (t # rest) \<longrightarrow> m2 x = m x)"
proof (cases rest)
  case Nil
  then show ?thesis using assms by auto
next
  case (Cons b bs)
  with assms obtain nb where nb: "m b = Some nb" "nnext n = Some b" "b \<noteq> t" by auto
  let ?m2 = "m(t := None, b \<mapsto> nb\<lparr>nprev := None\<rparr>)"
  have "tdata ?m2 = (tdata m)(t := None)" using nb by (auto simp: tdata_def fun_eq_iff)
  moreover have "dseg ?m2 None rest None" using assms Cons nb by auto
  ultimately show ?thesis using assms Cons nb by (intro exI [of _ ?m2]) auto
qed

lemma wheel_unlink_inner:
  assumes seg: "dseg m None (kept @ t # rest) None" and dist: "distinct (kept @ t # rest)"
    and n: "m t = Some n" and ne: "kept \<noteq> []"
  shows "\<exists>m3. (do { m1 \<leftarrow> set_next m (nprev n) (nnext n);
         m2 \<leftarrow> (if nnext n = None then Some m1 else set_prev m1 (nnext n) (nprev n));
         delete m2 (Some t) }) = Some m3 \<and>
     dseg m3 None (kept @ rest) None \<and> tdata m3 = (tdata m)(t := None) \<and>
     (\<forall>x. x \<notin> set (kept @ t # rest) \<longrightarrow> m3 x = m x)"
proof -
  from ne obtain as a where k: "kept = as @ [a]" by (meson rev_exhaust)
  have d': "dseg m None (as @ [a]) (Some t)" "dseg m (Some a) (t # rest) None"
    and dist': "distinct (as @ a # t # rest)" using seg dist k by auto
  obtain na where na: "m a = Some na" using d'(1) by auto
  define m1 where "m1 = m(a \<mapsto> na\<lparr>nnext := nnext n\<rparr>)"
  note u = unlink_dseg [OF d' dist' na n m1_def]
  show ?thesis
  proof (cases rest)
    case Nil
    have "dseg (m1(t := None)) None (as @ [a]) None"
      using u(3) [OF Nil] dist' by (subst dseg_upd) auto
    then show ?thesis using k Nil u(1,2) na n dist'
      by (intro exI [of _ "m1(t := None)"]) (auto simp: m1_def)
  next
    case (Cons b bs)
    from u(4) [OF Cons] obtain nb where nb: "m1 b = Some nb"
      "dseg (m1(b \<mapsto> nb\<lparr>nprev := nprev n\<rparr>)) None (as @ a # rest) None" by auto
    let ?m3 = "(m1(b \<mapsto> nb\<lparr>nprev := nprev n\<rparr>))(t := None)"
    have "dseg ?m3 None (kept @ rest) None"
      using nb(2) dist' k by (subst dseg_upd) auto
    moreover have "tdata ?m3 = (tdata m)(t := None)" using nb na by (simp add: m1_def)
    moreover have "set_next m (nprev n) (nnext n) = Some m1" "nnext n = Some b" "m1 t = Some n" "b \<noteq> t"
      using u(1,2) na n Cons dist' by (auto simp: m1_def)
    ultimately show ?thesis using nb Cons k u(1) by (intro exI [of _ ?m3]) (auto simp: m1_def)
  qed
qed

definition dec_rot :: "(int \<times> nat) option \<Rightarrow> (int \<times> nat) option" where
  "dec_rot d = map_option (\<lambda>(r, s). (r - 1, s)) d"

definition tick_frame :: "tw_store \<Rightarrow> tw_store \<Rightarrow> nat list \<Rightarrow> nat list \<Rightarrow> bool" where
  "tick_frame m m' kept rest \<longleftrightarrow>
     (\<forall>x. x \<notin> set (kept @ rest) \<longrightarrow> m' x = m x) \<and>
     (\<forall>x \<in> set kept. tdata m' x = tdata m x) \<and>
     (\<forall>x \<in> set rest. tdata m' x = (if rot_of m x > 0 then dec_rot (tdata m x) else None))"

lemma wheel_tick_loop_ok:
  assumes "dseg m None (kept @ rest) None" "distinct (kept @ rest)"
  shows "\<exists>m'. wheel_tick_loop m (firstp (kept @ rest) None) (firstp rest None) calls =
       Some (m', firstp (kept @ filter (\<lambda>t. 0 < rot_of m t) rest) None,
             calls @ filter (\<lambda>t. \<not> 0 < rot_of m t) rest) \<and>
     dseg m' None (kept @ filter (\<lambda>t. 0 < rot_of m t) rest) None \<and> tick_frame m m' kept rest"
  using assms
proof (induction rest arbitrary: m kept calls)
  case Nil
  then show ?case by (auto simp: wheel_tick_loop.simps [of _ _ None] tick_frame_def)
next
  case (Cons t rest)
  from Cons.prems obtain n where n: "m t = Some n" "nnext n = firstp rest None" "nprev n = lastp None kept"
    by auto
  have rt: "rot_of m t = rotation n" using n by (simp add: rot_of_def)
  have tn: "t \<notin> set rest" "t \<notin> set kept" using Cons.prems by auto
  show ?case
  proof (cases "rotation n > 0")
    case True
    define m1 where "m1 = m(t \<mapsto> n\<lparr>rotation := rotation n - 1\<rparr>)"
    have "\<forall>x \<in> set rest. tdata m1 x = tdata m x" using tn by (auto simp: m1_def)
    note f = filter_rot_cong [of rest m1 m, OF this]
    have "dseg m1 None ((kept @ [t]) @ rest) None" "distinct ((kept @ [t]) @ rest)"
      using Cons.prems n by (simp_all add: m1_def)
    from Cons.IH [of m1 "kept @ [t]" calls, OF this] obtain m' where m':
      "wheel_tick_loop m1 (firstp ((kept @ [t]) @ rest) None) (firstp rest None) calls =
       Some (m', firstp ((kept @ [t]) @ filter (\<lambda>t. 0 < rot_of m t) rest) None,
             calls @ filter (\<lambda>t. \<not> 0 < rot_of m t) rest)"
      "dseg m' None ((kept @ [t]) @ filter (\<lambda>t. 0 < rot_of m t) rest) None"
      "tick_frame m1 m' (kept @ [t]) rest" unfolding f by blast
    have "wheel_tick_loop m (firstp (kept @ t # rest) None) (Some t) calls =
      wheel_tick_loop m1 (firstp ((kept @ [t]) @ rest) None) (firstp rest None) calls"
      using True n by (simp add: wheel_tick_loop.simps [of _ _ "Some t"] m1_def)
    moreover have "tick_frame m m' kept (t # rest)"
      using m'(3) tn n True rt unfolding tick_frame_def
      by (auto simp: dec_rot_def rot_of_def m1_def)
    ultimately show ?thesis using m'(1,2) True rt by auto
  next
    case False
    obtain m2 where m2: "dseg m2 None (kept @ rest) None" "tdata m2 = (tdata m)(t := None)"
      "\<forall>x. x \<notin> set (kept @ t # rest) \<longrightarrow> m2 x = m x"
      "wheel_tick_loop m (firstp (kept @ t # rest) None) (Some t) calls =
       wheel_tick_loop m2 (firstp (kept @ rest) None) (firstp rest None) (calls @ [t])"
    proof (cases "kept = []")
      case True
      with Cons.prems wheel_unlink_head [of m t rest n] n obtain m2 where
        "(do { m1 \<leftarrow> delete m (Some t);
            if nnext n = None then Some m1 else set_prev m1 (nnext n) None }) = Some m2"
        "dseg m2 None rest None" "tdata m2 = (tdata m)(t := None)"
        "\<forall>x. x \<notin> set (t # rest) \<longrightarrow> m2 x = m x" by auto
      with True False n that [of m2] show ?thesis
        by (auto simp: wheel_tick_loop.simps [of _ _ "Some t"])
    next
      case ne: False
      from wheel_unlink_inner [OF Cons.prems n(1) ne] obtain m2 where
        u: "(do { m1 \<leftarrow> set_next m (nprev n) (nnext n);
           m2 \<leftarrow> (if nnext n = None then Some m1 else set_prev m1 (nnext n) (nprev n));
           delete m2 (Some t) }) = Some m2"
        "dseg m2 None (kept @ rest) None" "tdata m2 = (tdata m)(t := None)"
        "\<forall>x. x \<notin> set (kept @ t # rest) \<longrightarrow> m2 x = m x" by blast
      from ne tn have "firstp (kept @ t # rest) None \<noteq> Some t"
        "firstp (kept @ t # rest) None = firstp (kept @ rest) None" by (cases kept; auto)+
      with u False n that [of m2] show ?thesis
        by (auto simp: wheel_tick_loop.simps [of _ _ "Some t"] bind_eq_Some_conv)
    qed
    have "\<forall>x \<in> set rest. tdata m2 x = tdata m x" using tn m2(2) by auto
    note f = filter_rot_cong [of rest m2 m, OF this]
    have "distinct (kept @ rest)" using Cons.prems by auto
    from Cons.IH [of m2 kept "calls @ [t]", OF m2(1) this] obtain m' where m':
      "wheel_tick_loop m2 (firstp (kept @ rest) None) (firstp rest None) (calls @ [t]) =
       Some (m', firstp (kept @ filter (\<lambda>t. 0 < rot_of m t) rest) None,
             (calls @ [t]) @ filter (\<lambda>t. \<not> 0 < rot_of m t) rest)"
      "dseg m' None (kept @ filter (\<lambda>t. 0 < rot_of m t) rest) None"
      "tick_frame m2 m' kept rest" unfolding f by blast
    have "tdata m2 t = None" using m2(2) by simp
    moreover have "m' t = m2 t" using m'(3) tn by (simp add: tick_frame_def)
    ultimately have "tdata m' t = None" by (simp add: tdata_def)
    then have "tick_frame m m' kept (t # rest)"
      using m'(3) m2(2,3) tn False rt unfolding tick_frame_def
      by (auto simp: rot_of_def)
    with m' m2(4) False rt show ?thesis by auto
  qed
qed

section \<open>The operations on the slots\<close>

lemma slot_ok_cong:
  assumes "slot_ok m sl i xs" "\<And>x. x \<in> set xs \<Longrightarrow> m' x = m x"
  shows "slot_ok m' sl i xs"
proof -
  have "dseg m' None xs None = dseg m None xs None" using assms(2) by (rule dseg_cong)
  then show ?thesis using assms by (auto simp: slot_ok_def tdata_def)
qed

text \<open>A timer is in the slot its \<^verbatim>\<open>time_slot\<close> field names, hence in no other.\<close>

lemma wheel_slots_disjoint:
  assumes "wheel_repr w ls" "i < N" "j < N" "t \<in> set (ls ! i)" "t \<in> set (ls ! j)"
  shows "i = j"
proof -
  have "\<exists>r. tdata (wmem w) t = Some (r, i)" "\<exists>r. tdata (wmem w) t = Some (r, j)"
    using assms by (auto simp: wheel_repr_def slot_ok_def)
  then show ?thesis by auto
qed

lemma wheel_tick_ok:
  assumes r: "wheel_repr w ls"
  defines "c \<equiv> cur_slot w" and "m \<equiv> wmem w"
  shows "\<exists>w'. wheel_tick w = Some (w', filter (\<lambda>t. \<not> 0 < rot_of m t) (ls ! c)) \<and>
     wheel_repr w' (ls[c := filter (\<lambda>t. 0 < rot_of m t) (ls ! c)]) \<and>
     cur_slot w' = (c + 1) mod N \<and> tick_frame m (wmem w') [] (ls ! c)"
proof -
  have c: "c < N" and sl: "slot_ok m (slots w ! c) c (ls ! c)" "distinct (ls ! c)"
    using r by (auto simp: wheel_repr_def c_def m_def)
  let ?k = "filter (\<lambda>t. 0 < rot_of m t) (ls ! c)"
  obtain m' where m': "wheel_tick_loop m (firstp (ls ! c) None) (firstp (ls ! c) None) [] =
       Some (m', firstp ?k None, filter (\<lambda>t. \<not> 0 < rot_of m t) (ls ! c))"
     "dseg m' None ?k None" "tick_frame m m' [] (ls ! c)"
    using wheel_tick_loop_ok [of m "[]" "ls ! c" "[]"] sl by (auto simp: slot_ok_def)
  define w' where "w' = w\<lparr>wmem := m', slots := (slots w)[c := firstp ?k None], cur_slot := (c + 1) mod N\<rparr>"
  have t: "wheel_tick w = Some (w', filter (\<lambda>t. \<not> 0 < rot_of m t) (ls ! c))"
    using sl m' unfolding wheel_tick_def c_def [symmetric] m_def [symmetric]
    by (auto simp: slot_ok_def w'_def c_def m_def Let_def)
  have "slot_ok m' (firstp ?k None) c ?k"
    using m' sl by (fastforce simp: slot_ok_def tick_frame_def dec_rot_def rot_of_def)
  moreover have "slot_ok m' (slots w ! i) i (ls ! i)" if "i < N" "i \<noteq> c" for i
  proof (rule slot_ok_cong)
    show "slot_ok m (slots w ! i) i (ls ! i)" using r that by (auto simp: wheel_repr_def m_def)
    show "m' x = m x" if x: "x \<in> set (ls ! i)" for x
      using wheel_slots_disjoint [OF r \<open>i < N\<close> c x] \<open>i \<noteq> c\<close> m'(3) by (auto simp: tick_frame_def)
  qed
  moreover have "(c + 1) mod N < N" by (simp add: N_def)
  ultimately have "wheel_repr w' (ls[c := ?k])"
    using r c by (auto simp: wheel_repr_def w'_def nth_list_update)
  with t m' show ?thesis by (auto simp: w'_def)
qed

section \<open>When a timer fires\<close>

lemma slot_distance_step:
  assumes "i < N" "c < N"
  shows "(int i - int ((c + 1) mod N)) mod int N =
     (if i = c then int N - 1 else (int i - int c) mod int N - 1)"
proof (cases "c = 59")
  case True
  with assms have "(int i - int ((c + 1) mod N)) mod int N = int i" by (simp add: N_def)
  moreover have "i \<noteq> c \<Longrightarrow> (int i - int c) mod int N = int i + 1"
  proof -
    assume "i \<noteq> c"
    have "(int i - int c) mod int N = (int i - int c + int N) mod int N" by simp
    also have "\<dots> = int i + 1" using True assms \<open>i \<noteq> c\<close> by (simp add: N_def)
    finally show ?thesis .
  qed
  ultimately show ?thesis using True by (auto simp: N_def)
next
  case False
  then have m: "(c + 1) mod N = c + 1" using assms by (simp add: N_def)
  consider "i = c" | "i > c" | "i < c" by linarith
  then show ?thesis
  proof cases
    case 1
    then have "(int i - int ((c + 1) mod N)) mod int N = (- 1) mod int N" using m by simp
    then show ?thesis using 1 by (simp add: N_def)
  next
    case 2
    then show ?thesis using m assms by (simp add: N_def)
  next
    case 3
    have "(int i - int (c + 1) + int N) mod int N = (int i - int (c + 1)) mod int N"
      "(int i - int c + int N) mod int N = (int i - int c) mod int N" by simp_all
    moreover have "(int i - int (c + 1) + int N) mod int N = int i - int (c + 1) + int N"
      "(int i - int c + int N) mod int N = int i - int c + int N"
      using 3 assms unfolding N_def by (intro mod_pos_pos_trivial; simp)+
    ultimately show ?thesis using 3 m by simp
  qed
qed

lemma slot_distance_zero:
  assumes "i < N" "c < N"
  shows "(int i - int c) mod int N = 0 \<longleftrightarrow> i = c"
proof
  assume "(int i - int c) mod int N = 0"
  then have "int i mod int N = int c mod int N" by (simp add: mod_eq_dvd_iff dvd_eq_mod_eq_0)
  then show "i = c" using assms by simp
qed simp

lemma remaining_in_slot:
  assumes "wheel_repr w ls" "i < N" "t \<in> set (ls ! i)"
  shows "\<exists>r \<ge> 0. tdata (wmem w) t = Some (r, i) \<and>
    remaining w t = r * int N + (int i - int (cur_slot w)) mod int N"
  using assms by (fastforce simp: wheel_repr_def slot_ok_def remaining_def rot_of_def)

definition pending :: "nat list list \<Rightarrow> nat \<Rightarrow> bool" where
  "pending ls t \<longleftrightarrow> (\<exists>i < N. t \<in> set (ls ! i))"

lemma wheel_tick_remaining:
  assumes r: "wheel_repr w ls" and t: "wheel_tick w = Some (w', fired)"
  shows "\<exists>ls'. wheel_repr w' ls' \<and>
     (\<forall>t. t \<in> set fired \<longleftrightarrow> pending ls t \<and> remaining w t = 0) \<and>
     (\<forall>t. pending ls' t \<longleftrightarrow> pending ls t \<and> remaining w t \<noteq> 0) \<and>
     (\<forall>t. pending ls' t \<longrightarrow> remaining w' t = remaining w t - 1)"
proof -
  define c m where "c = cur_slot w" and "m = wmem w"
  have c: "c < N" "length ls = N" using r by (auto simp: wheel_repr_def c_def)
  let ?ls = "ls[c := filter (\<lambda>t. 0 < rot_of m t) (ls ! c)]"
  from wheel_tick_ok [OF r] t have f: "fired = filter (\<lambda>t. \<not> 0 < rot_of m t) (ls ! c)"
    and r': "wheel_repr w' ?ls" and c': "cur_slot w' = (c + 1) mod N"
    and fr: "tick_frame m (wmem w') [] (ls ! c)" by (auto simp: c_def m_def)
  have zero: "remaining w t = 0 \<longleftrightarrow> i = c \<and> \<not> 0 < rot_of m t"
    if "i < N" "t \<in> set (ls ! i)" for i t
  proof -
    from remaining_in_slot [OF r that] obtain k where k: "k \<ge> 0" "tdata m t = Some (k, i)"
      "remaining w t = k * int N + (int i - int c) mod int N" by (auto simp: m_def c_def)
    have "(int i - int c) mod int N \<ge> 0" by (simp add: N_def)
    then have "remaining w t = 0 \<longleftrightarrow> k = 0 \<and> (int i - int c) mod int N = 0"
      using k by (auto simp: N_def add_nonneg_eq_0_iff)
    then show ?thesis using slot_distance_zero [OF that(1) c(1)] k by (auto simp: rot_of_def)
  qed
  have fired: "t \<in> set fired \<longleftrightarrow> pending ls t \<and> remaining w t = 0" for t
    using f zero c unfolding pending_def by fastforce
  have nls: "?ls ! i = (if i = c then filter (\<lambda>t. 0 < rot_of m t) (ls ! c) else ls ! i)" if "i < N" for i
    using that c by simp
  have pend: "pending ?ls t \<longleftrightarrow> pending ls t \<and> remaining w t \<noteq> 0" for t
    using zero nls unfolding pending_def by (auto split: if_splits)
  have "remaining w' t = remaining w t - 1" if p: "pending ?ls t" for t
  proof -
    from p obtain i where i: "i < N" "t \<in> set (?ls ! i)" by (auto simp: pending_def)
    then have il: "t \<in> set (ls ! i)" using nls by (auto split: if_splits)
    from remaining_in_slot [OF r i(1) il] obtain k where k: "tdata m t = Some (k, i)"
      "remaining w t = k * int N + (int i - int c) mod int N" by (auto simp: m_def c_def)
    from remaining_in_slot [OF r' i] obtain k' where k': "tdata (wmem w') t = Some (k', i)"
      "remaining w' t = k' * int N + (int i - int ((c + 1) mod N)) mod int N" using c' by auto
    have "k' = (if i = c then k - 1 else k)"
    proof (cases "i = c")
      case True
      then have "0 < rot_of m t" using i nls by auto
      then have "tdata (wmem w') t = dec_rot (tdata m t)" using fr il True by (auto simp: tick_frame_def)
      then show ?thesis using k k' True by (simp add: dec_rot_def)
    next
      case False
      then have "t \<notin> set (ls ! c)" using wheel_slots_disjoint [OF r i(1) c(1) il] by auto
      then have "wmem w' t = m t" using fr by (auto simp: tick_frame_def)
      then have "tdata (wmem w') t = tdata m t" by (simp add: tdata_def)
      then show ?thesis using k k' False by simp
    qed
    then show ?thesis using k k' slot_distance_step [OF i(1) c(1)] by (auto simp: algebra_simps)
  qed
  with r' fired pend show ?thesis by blast
qed

lemma wheel_ticks_fire:
  assumes "wheel_repr w ls"
  shows "\<exists>w' cs ls'. wheel_ticks n w = Some (w', cs) \<and> length cs = n \<and> wheel_repr w' ls' \<and>
     (\<forall>t. \<forall>j < n. t \<in> set (cs ! j) \<longleftrightarrow> pending ls t \<and> remaining w t = int j)"
  using assms
proof (induction n arbitrary: w ls)
  case 0
  then show ?case by auto
next
  case (Suc n)
  from wheel_tick_ok [OF Suc.prems] obtain w1 f where t: "wheel_tick w = Some (w1, f)" by blast
  from wheel_tick_remaining [OF Suc.prems t] obtain ls1 where w1: "wheel_repr w1 ls1"
    "\<forall>t. t \<in> set f \<longleftrightarrow> pending ls t \<and> remaining w t = 0"
    "\<forall>t. pending ls1 t \<longleftrightarrow> pending ls t \<and> remaining w t \<noteq> 0"
    "\<forall>t. pending ls1 t \<longrightarrow> remaining w1 t = remaining w t - 1" by blast
  from Suc.IH [OF w1(1)] obtain w2 cs ls2 where w2: "wheel_ticks n w1 = Some (w2, cs)" "length cs = n"
    "wheel_repr w2 ls2"
    "\<forall>t. \<forall>j < n. t \<in> set (cs ! j) \<longleftrightarrow> pending ls1 t \<and> remaining w1 t = int j" by blast
  have "t \<in> set ((f # cs) ! j) \<longleftrightarrow> pending ls t \<and> remaining w t = int j" if "j < Suc n" for t j
    using that w1 w2 by (cases j) auto
  then show ?case using t w2 by auto
qed

section \<open>Adding and deleting a timer\<close>

lemma wheel_add_timer_ok:
  assumes r: "wheel_repr w ls" and fresh: "wmem w a = None" and t: "0 \<le> timeout"
  shows "\<exists>w' ls'. wheel_add_timer a w timeout = Some (Some a, w') \<and> wheel_repr w' ls' \<and>
     (\<forall>x. pending ls' x \<longleftrightarrow> x = a \<or> pending ls x) \<and>
     remaining w' a = max 1 timeout \<and> (\<forall>x. pending ls x \<longrightarrow> remaining w' x = remaining w x)"
proof -
  define ticks where "ticks = max 1 timeout"
  define ts where "ts = (cur_slot w + nat (ticks mod int N)) mod N"
  define na where "na = \<lparr>nprev = None, nnext = None, rotation = ticks div int N, time_slot = ts\<rparr>"
  have tk: "(if timeout < SI then 1 else timeout div SI) = ticks" using t by (simp add: SI_def ticks_def)
  have ts: "ts < N" by (simp add: ts_def N_def)
  have rr: "length (slots w) = N" "length ls = N" "cur_slot w < N" using r by (auto simp: wheel_repr_def)
  have sl: "slot_ok (wmem w) (slots w ! i) i (ls ! i)" "distinct (ls ! i)" if "i < N" for i
    using r that by (auto simp: wheel_repr_def)
  have an: "a \<notin> set (ls ! i)" if "i < N" for i
    using sl(1) [OF that] fresh by (auto simp: slot_ok_def tdata_def)
  have "\<exists>m'. wheel_add_timer a w timeout =
      Some (Some a, w\<lparr>wmem := m', slots := (slots w)[ts := Some a]\<rparr>) \<and>
      dseg m' None (a # ls ! ts) None \<and> tdata m' = (tdata (wmem w))(a \<mapsto> (ticks div int N, ts)) \<and>
      (\<forall>x. x \<notin> set (a # ls ! ts) \<longrightarrow> m' x = wmem w x)"
  proof (cases "ls ! ts")
    case Nil
    then have "slots w ! ts = None" using sl(1) [OF ts] by (simp add: slot_ok_def)
    then show ?thesis using Nil t tk
      by (intro exI [of _ "(wmem w)(a \<mapsto> na)"])
         (auto simp: wheel_add_timer_def Let_def ts_def na_def tdata_def fun_eq_iff)
  next
    case (Cons h xs)
    with sl(1) [OF ts] obtain nh where h: "slots w ! ts = Some h" "wmem w h = Some nh" "nprev nh = None"
      by (auto simp: slot_ok_def)
    have ah: "a \<noteq> h" "a \<notin> set xs" using an [OF ts] Cons by auto
    let ?m' = "(wmem w)(a \<mapsto> na\<lparr>nnext := Some h\<rparr>, h \<mapsto> nh\<lparr>nprev := Some a\<rparr>)"
    have "dseg ?m' None (a # ls ! ts) None"
      using sl [OF ts] Cons ah h by (auto simp: slot_ok_def na_def)
    moreover have "tdata ?m' = (tdata (wmem w))(a \<mapsto> (ticks div int N, ts))"
      using h ah by (auto simp: tdata_def fun_eq_iff na_def)
    ultimately show ?thesis using Cons t tk h ah
      by (intro exI [of _ ?m'])
         (auto simp: wheel_add_timer_def Let_def ts_def [symmetric] na_def fun_upd_twist)
  qed
  then obtain m' where m': "wheel_add_timer a w timeout =
      Some (Some a, w\<lparr>wmem := m', slots := (slots w)[ts := Some a]\<rparr>)"
    "dseg m' None (a # ls ! ts) None" "tdata m' = (tdata (wmem w))(a \<mapsto> (ticks div int N, ts))"
    "\<forall>x. x \<notin> set (a # ls ! ts) \<longrightarrow> m' x = wmem w x" by blast
  define w' ls' where "w' = w\<lparr>wmem := m', slots := (slots w)[ts := Some a]\<rparr>"
    and "ls' = ls[ts := a # ls ! ts]"
  have nls: "ls' ! i = (if i = ts then a # ls ! ts else ls ! i)" if "i < N" for i
    using that rr by (simp add: ls'_def)
  have "slot_ok m' (slots w' ! i) i (ls' ! i)" if i: "i < N" for i
  proof (cases "i = ts")
    case True
    have "\<exists>r \<ge> 0. tdata m' x = Some (r, ts)" if "x \<in> set (a # ls ! ts)" for x
      using that m'(3) sl(1) [OF ts] ticks_def by (auto simp: slot_ok_def N_def)
    then show ?thesis using True m'(2) nls [OF i] rr ts by (simp add: slot_ok_def w'_def)
  next
    case False
    have "m' x = wmem w x" if x: "x \<in> set (ls ! i)" for x
    proof -
      have "x \<noteq> a" "x \<notin> set (ls ! ts)"
        using x an [OF i] wheel_slots_disjoint [OF r i ts x] False by auto
      then show ?thesis using m'(4) by simp
    qed
    then show ?thesis using False nls [OF i] slot_ok_cong [OF sl(1) [OF i]] by (simp add: w'_def)
  qed
  then have r': "wheel_repr w' ls'"
    using rr nls sl(2) an ts by (auto simp: wheel_repr_def w'_def ls'_def)
  have "pending ls' x \<longleftrightarrow> x = a \<or> pending ls x" for x
    using nls ts by (fastforce simp: pending_def split: if_splits)
  moreover have "remaining w' a = max 1 timeout"
  proof -
    have "int ts = (int (cur_slot w) + ticks mod int N) mod int N"
      by (simp add: ts_def zmod_int N_def)
    then have "(int ts - int (cur_slot w)) mod int N = ticks mod int N"
      by (simp add: mod_diff_left_eq)
    then show ?thesis using m'(3) by (simp add: remaining_def rot_of_def w'_def ticks_def)
  qed
  moreover have "remaining w' x = remaining w x" if "pending ls x" for x
    using that an m'(3) by (auto simp: remaining_def rot_of_def w'_def pending_def)
  ultimately show ?thesis using m'(1) r' unfolding w'_def by blast
qed

lemma wheel_del_timer_ok:
  assumes r: "wheel_repr w ls" and i: "i < N" "t \<in> set (ls ! i)"
  shows "\<exists>w'. wheel_del_timer w (Some t) = Some w' \<and> wheel_repr w' (ls[i := remove1 t (ls ! i)]) \<and>
     tdata (wmem w') = (tdata (wmem w))(t := None) \<and> cur_slot w' = cur_slot w"
proof -
  have rr: "length (slots w) = N" "length ls = N" "cur_slot w < N" using r by (auto simp: wheel_repr_def)
  have sl: "slot_ok (wmem w) (slots w ! j) j (ls ! j)" "distinct (ls ! j)" if "j < N" for j
    using r that by (auto simp: wheel_repr_def)
  from i obtain as bs where l: "ls ! i = as @ t # bs" by (meson split_list)
  with sl [OF i(1)] have seg: "dseg (wmem w) None (as @ t # bs) None" and dist: "distinct (as @ t # bs)"
    and hd: "slots w ! i = firstp (as @ t # bs) None" by (auto simp: slot_ok_def)
  from seg obtain nt where nt: "wmem w t = Some nt" by auto
  have tsl: "time_slot nt = i" using sl(1) [OF i(1)] l nt by (auto simp: slot_ok_def)
  have rm: "remove1 t (ls ! i) = as @ bs" using l dist by (simp add: remove1_append)
  have "\<exists>m'. wheel_del_timer w (Some t) = Some (w\<lparr>wmem := m', slots := (slots w)[i := firstp (as @ bs) None]\<rparr>) \<and>
     dseg m' None (as @ bs) None \<and> tdata m' = (tdata (wmem w))(t := None) \<and>
     (\<forall>x. x \<notin> set (as @ t # bs) \<longrightarrow> m' x = wmem w x)"
  proof (cases "as = []")
    case True
    have nn: "nnext nt = firstp bs None" using seg True nt by auto
    have "\<exists>m'. (do { m1 \<leftarrow> (if nnext nt = None then Some (wmem w) else set_prev (wmem w) (nnext nt) None);
         delete m1 (Some t) }) = Some m' \<and>
       dseg m' None bs None \<and> tdata m' = (tdata (wmem w))(t := None) \<and>
       (\<forall>x. x \<notin> set (t # bs) \<longrightarrow> m' x = wmem w x)"
    proof (cases bs)
      case Nil
      then show ?thesis using nn nt by auto
    next
      case (Cons b bs')
      with seg True obtain nb where nb: "wmem w b = Some nb" by auto
      let ?m = "((wmem w)(b \<mapsto> nb\<lparr>nprev := None\<rparr>))(t := None)"
      have "dseg ?m None bs None" using seg dist True Cons nb by auto
      moreover have "tdata ?m = (tdata (wmem w))(t := None)" using nb by simp
      ultimately show ?thesis using nn nt nb Cons dist True by (intro exI [of _ ?m]) auto
    qed
    with True hd nt tsl nn show ?thesis by (auto simp: wheel_del_timer_def bind_eq_Some_conv)
  next
    case False
    have "firstp (as @ t # bs) None \<noteq> Some t" "firstp (as @ t # bs) None = firstp (as @ bs) None"
      using False dist by (cases as; auto)+
    then have ne: "Some t \<noteq> slots w ! i" "(slots w)[i := firstp (as @ bs) None] = slots w"
      using hd by (auto simp: list_update_same_conv rr i)
    from wheel_unlink_inner [OF seg dist nt False] obtain m1 m2 m3 where
      u: "set_next (wmem w) (nprev nt) (nnext nt) = Some m1"
        "(if nnext nt = None then Some m1 else set_prev m1 (nnext nt) (nprev nt)) = Some m2"
        "delete m2 (Some t) = Some m3"
      and m3: "dseg m3 None (as @ bs) None" "tdata m3 = (tdata (wmem w))(t := None)"
        "\<forall>x. x \<notin> set (as @ t # bs) \<longrightarrow> m3 x = wmem w x"
      unfolding bind_eq_Some_conv by blast
    have "wheel_del_timer w (Some t) =
        Some (w\<lparr>wmem := m3, slots := (slots w)[i := firstp (as @ bs) None]\<rparr>)"
      unfolding ne(2) using ne(1) nt tsl u by (simp add: wheel_del_timer_def Let_def)
    with m3 show ?thesis by blast
  qed
  then obtain m' where m': "wheel_del_timer w (Some t) =
      Some (w\<lparr>wmem := m', slots := (slots w)[i := firstp (as @ bs) None]\<rparr>)"
    "dseg m' None (as @ bs) None" "tdata m' = (tdata (wmem w))(t := None)"
    "\<forall>x. x \<notin> set (as @ t # bs) \<longrightarrow> m' x = wmem w x" by blast
  let ?w = "w\<lparr>wmem := m', slots := (slots w)[i := firstp (as @ bs) None]\<rparr>"
  have "slot_ok m' (slots ?w ! j) j (ls[i := as @ bs] ! j)" if j: "j < N" for j
  proof (cases "j = i")
    case True
    then show ?thesis using m' sl(1) [OF i(1)] l dist rr i by (auto simp: slot_ok_def)
  next
    case False
    have "m' x = wmem w x" if "x \<in> set (ls ! j)" for x
      using that m'(4) wheel_slots_disjoint [OF r j i(1) that] False l by auto
    then show ?thesis using False slot_ok_cong [OF sl(1) [OF j]] by simp
  qed
  then have "wheel_repr ?w (ls[i := as @ bs])"
    using rr sl(2) dist i by (auto simp: wheel_repr_def nth_list_update)
  then show ?thesis using m' rm by auto
qed

section \<open>The destructor\<close>

lemma dseg_restrict:
  "set xs \<inter> A = {} \<Longrightarrow> dseg m pv xs None \<Longrightarrow> dseg (m |` (- A)) pv xs None"
  by (induction xs arbitrary: pv) (auto simp: restrict_map_def)

lemma destroy_slots_ok:
  assumes "length sls = length ls"
    "\<forall>i < length ls. sls ! i = firstp (ls ! i) None \<and> dseg m None (ls ! i) None \<and> distinct (ls ! i)"
    "\<forall>i < length ls. \<forall>j < length ls. i \<noteq> j \<longrightarrow> set (ls ! i) \<inter> set (ls ! j) = {}"
  shows "destroy_slots m sls = Some (m |` (- set (concat ls)))"
  using assms
proof (induction ls arbitrary: sls m)
  case Nil
  then show ?case by (simp add: restrict_map_def)
next
  case (Cons xs ls)
  then obtain sl sls' where sls: "sls = sl # sls'" by (cases sls) auto
  let ?m1 = "m |` (- set xs)"
  have d: "destroy_loop m sl = Some ?m1"
    using Cons.prems(2) [rule_format, of 0] sls by (auto intro: destroy_loop_ok)
  have seg: "dseg ?m1 None (ls ! i) None" if "i < length ls" for i
    using Cons.prems(2) [rule_format, of "Suc i"] Cons.prems(3) [rule_format, of 0 "Suc i"] that
    by (intro dseg_restrict) auto
  have "destroy_slots ?m1 sls' = Some (?m1 |` (- set (concat ls)))"
  proof (intro Cons.IH)
    show "length sls' = length ls" using Cons.prems(1) sls by simp
    show "\<forall>i < length ls. sls' ! i = firstp (ls ! i) None \<and> dseg ?m1 None (ls ! i) None \<and> distinct (ls ! i)"
      using Cons.prems(2) sls seg by fastforce
    show "\<forall>i < length ls. \<forall>j < length ls. i \<noteq> j \<longrightarrow> set (ls ! i) \<inter> set (ls ! j) = {}"
      using Cons.prems(3) by fastforce
  qed
  moreover have "?m1 |` (- set (concat ls)) = m |` (- set (concat (xs # ls)))"
    by (auto simp: restrict_map_def fun_eq_iff)
  ultimately show ?case using d sls by simp
qed

section \<open>Properties\<close>

definition sample_wheel :: time_wheel where
  "sample_wheel = new_time_wheel (\<lambda>_. None)"

lemma sample_wheel_repr: "wheel_repr sample_wheel (replicate N [])"
  by (simp add: sample_wheel_def new_time_wheel_def wheel_repr_def slot_ok_def N_def)

text \<open>
  C12. A timer added with a timeout of \<open>timeout\<close> slot intervals is linked, and \<open>n\<close> further ticks of the wheel
  never fail and call it in exactly one of them, the one numbered (from 0) by its timeout, where a timeout of 0
  counts as 1. Every timer that was pending before is called in the tick of its own remaining time: slot
  distance plus 60 times its rotations.
\<close>

theorem wheel_fires_on_time:
  assumes "wheel_repr w ls" "wmem w a = None" "0 \<le> timeout"
  shows "\<exists>w1 w' cs. wheel_add_timer a w timeout = Some (Some a, w1) \<and> wheel_ticks n w1 = Some (w', cs) \<and> length cs = n \<and>
     (\<forall>j < n. a \<in> set (cs ! j) \<longleftrightarrow> int j = max 1 timeout) \<and>
     (\<forall>t. t \<noteq> a \<longrightarrow> (\<forall>j < n. t \<in> set (cs ! j) \<longleftrightarrow> pending ls t \<and> remaining w t = int j))"
proof -
  from wheel_add_timer_ok [OF assms] obtain w1 ls1 where
    w1: "wheel_add_timer a w timeout = Some (Some a, w1)" "wheel_repr w1 ls1" "\<forall>x. pending ls1 x \<longleftrightarrow> x = a \<or> pending ls x"
      "remaining w1 a = max 1 timeout" "\<forall>x. pending ls x \<longrightarrow> remaining w1 x = remaining w x" by blast
  from wheel_ticks_fire [OF w1(2), of n] obtain w' cs where
    cs: "wheel_ticks n w1 = Some (w', cs)" "length cs = n"
      "\<forall>t. \<forall>j < n. t \<in> set (cs ! j) \<longleftrightarrow> pending ls1 t \<and> remaining w1 t = int j" by blast
  have "\<forall>j < n. a \<in> set (cs ! j) \<longleftrightarrow> int j = max 1 timeout"
    using cs(3) w1(3,4) by auto
  moreover have "\<forall>t. t \<noteq> a \<longrightarrow> (\<forall>j < n. t \<in> set (cs ! j) \<longleftrightarrow> pending ls t \<and> remaining w t = int j)"
    using cs(3) w1(3,5) by auto
  ultimately show ?thesis using w1(1) cs(1,2) by blast
qed

theorem wheel_fires_on_time_witness:
  "\<exists>w1 w' cs. wheel_add_timer 7 sample_wheel 2 = Some (Some 7, w1) \<and> wheel_ticks 3 w1 = Some (w', cs) \<and>
    7 \<notin> set (cs ! 0) \<and> 7 \<notin> set (cs ! 1) \<and> 7 \<in> set (cs ! 2)"
proof -
  have "wmem sample_wheel 7 = None" by (simp add: sample_wheel_def new_time_wheel_def)
  from wheel_fires_on_time [OF sample_wheel_repr this, of 2 3] obtain w1 w' cs where
    "wheel_add_timer 7 sample_wheel 2 = Some (Some 7, w1)" "wheel_ticks 3 w1 = Some (w', cs)"
    "\<forall>j < 3. 7 \<in> set (cs ! j) \<longleftrightarrow> int j = 2" by auto
  then show ?thesis by auto
qed

text \<open>
  A new timer waits for as many ticks as its timeout has slot intervals, at least one, and the
  timers already in the wheel keep their times.
\<close>

theorem wheel_add_timer_delay:
  assumes "wheel_repr w ls" "wmem w a = None" "0 \<le> timeout"
  shows "\<exists>w' ls'. wheel_add_timer a w timeout = Some (Some a, w') \<and> wheel_repr w' ls' \<and>
     (\<forall>x. pending ls' x \<longleftrightarrow> x = a \<or> pending ls x) \<and>
     remaining w' a = max 1 timeout \<and> (\<forall>x. pending ls x \<longrightarrow> remaining w' x = remaining w x)"
  using wheel_add_timer_ok [OF assms] .

theorem wheel_add_timer_delay_witness:
  "\<exists>w' ls'. wheel_add_timer 7 sample_wheel 130 = Some (Some 7, w') \<and> wheel_repr w' ls' \<and> remaining w' 7 = 130"
  using wheel_add_timer_delay [OF sample_wheel_repr, of 7 130]
  by (auto simp: sample_wheel_def new_time_wheel_def)

text \<open>
  Destroying a wheel frees every timer that is linked in one of its slots, each once, and no
  other object.
\<close>

theorem destroy_time_wheel_frees:
  assumes "wheel_repr w ls"
  shows "destroy_time_wheel w = Some (wmem w |` (- set (concat ls)))"
  unfolding destroy_time_wheel_def
proof (rule destroy_slots_ok)
  show "length (slots w) = length ls" using assms by (simp add: wheel_repr_def)
  show "\<forall>i < length ls. slots w ! i = firstp (ls ! i) None \<and> dseg (wmem w) None (ls ! i) None \<and> distinct (ls ! i)"
    using assms by (auto simp: wheel_repr_def slot_ok_def)
  show "\<forall>i < length ls. \<forall>j < length ls. i \<noteq> j \<longrightarrow> set (ls ! i) \<inter> set (ls ! j) = {}"
    using wheel_slots_disjoint [OF assms] assms by (metis disjoint_iff wheel_repr_def)
qed

theorem destroy_time_wheel_frees_witness: "destroy_time_wheel sample_wheel = Some (\<lambda>_. None)"
  using destroy_time_wheel_frees [OF sample_wheel_repr]
  by (simp add: sample_wheel_def new_time_wheel_def restrict_map_def)

end
