(* ===== verification/Array_Heap.thy ===== *)
theory Array_Heap
  imports Event_Prelude
begin

text \<open>
  Binary heaps in an array, as \<^verbatim>\<open>src/minheap-internal.h\<close> and \<^verbatim>\<open>TimeHeap.h\<close> keep them: the
  parent of index \<open>i\<close> is \<open>(i - 1) / 2\<close>. Both programs move a hole up or down instead of swapping;
  the lemmas below follow the hole. The element to be placed is written into the hole of the array
  (\<open>p[h := e]\<close>), and the order may be broken only between the hole and its parent (going up) or
  between the hole and its children (going down).
\<close>

definition par :: "nat \<Rightarrow> nat" where
  "par i = (i - 1) div 2"

lemma par_less [simp]: "0 < i \<Longrightarrow> par i < i"
  by (simp add: par_def)

lemma par_neq [simp]: "0 < i \<Longrightarrow> par i \<noteq> i" "0 < i \<Longrightarrow> i \<noteq> par i"
  using par_less by (metis less_irrefl)+

lemma par_less_le: "0 < i \<Longrightarrow> i \<le> n \<Longrightarrow> par i < n"
  by (simp add: par_def)

lemma par_eq_iff: "0 < i \<Longrightarrow> par i = h \<longleftrightarrow> i = 2 * h + 1 \<or> i = 2 * h + 2"
  unfolding par_def by arith

definition heap_upto :: "('e \<Rightarrow> 'k::linorder) \<Rightarrow> 'e list \<Rightarrow> nat \<Rightarrow> bool" where
  "heap_upto key p n \<longleftrightarrow> (\<forall>i. 0 < i \<and> i < n \<longrightarrow> key (p ! par i) \<le> key (p ! i))"

definition heap_except_up :: "('e \<Rightarrow> 'k::linorder) \<Rightarrow> 'e list \<Rightarrow> nat \<Rightarrow> nat \<Rightarrow> bool" where
  "heap_except_up key p n h \<longleftrightarrow>
     (\<forall>i. 0 < i \<and> i < n \<longrightarrow>
        (i \<noteq> h \<longrightarrow> key (p ! par i) \<le> key (p ! i)) \<and>
        (par i = h \<and> 0 < h \<longrightarrow> key (p ! par h) \<le> key (p ! i)))"

definition heap_except_down :: "('e \<Rightarrow> 'k::linorder) \<Rightarrow> 'e list \<Rightarrow> nat \<Rightarrow> nat \<Rightarrow> bool" where
  "heap_except_down key p n h \<longleftrightarrow>
     (\<forall>i. 0 < i \<and> i < n \<longrightarrow>
        (par i \<noteq> h \<longrightarrow> key (p ! par i) \<le> key (p ! i)) \<and>
        (par i = h \<and> 0 < h \<longrightarrow> key (p ! par h) \<le> key (p ! i)))"

text \<open>The same two conditions, asked only of the positions whose parent is at \<open>lo\<close> or behind it.\<close>

definition heap_from :: "nat \<Rightarrow> ('e \<Rightarrow> 'k::linorder) \<Rightarrow> 'e list \<Rightarrow> nat \<Rightarrow> bool" where
  "heap_from lo key p n \<longleftrightarrow>
     (\<forall>i. 0 < i \<and> i < n \<and> lo \<le> par i \<longrightarrow> key (p ! par i) \<le> key (p ! i))"

definition heap_hole_from :: "nat \<Rightarrow> ('e \<Rightarrow> 'k::linorder) \<Rightarrow> 'e list \<Rightarrow> nat \<Rightarrow> nat \<Rightarrow> bool" where
  "heap_hole_from lo key p n h \<longleftrightarrow>
     (\<forall>i. 0 < i \<and> i < n \<and> lo \<le> par i \<longrightarrow>
        (par i \<noteq> h \<longrightarrow> key (p ! par i) \<le> key (p ! i)) \<and>
        (par i = h \<and> 0 < h \<and> lo \<le> par h \<longrightarrow> key (p ! par h) \<le> key (p ! i)))"

lemma heap_upto_from: "heap_upto key p n = heap_from 0 key p n"
  by (simp add: heap_upto_def heap_from_def)

lemma heap_except_down_from: "heap_except_down key p n h = heap_hole_from 0 key p n h"
  by (simp add: heap_except_down_def heap_hole_from_def)

lemma heap_uptoD: "heap_upto key p n \<Longrightarrow> 0 < i \<Longrightarrow> i < n \<Longrightarrow> key (p ! par i) \<le> key (p ! i)"
  by (simp add: heap_upto_def)

lemma heap_uptoI: "(\<And>i. 0 < i \<Longrightarrow> i < n \<Longrightarrow> key (p ! par i) \<le> key (p ! i)) \<Longrightarrow> heap_upto key p n"
  by (simp add: heap_upto_def)

lemma heap_upto_le: "heap_upto key p n \<Longrightarrow> m \<le> n \<Longrightarrow> heap_upto key p m"
  by (simp add: heap_upto_def)

lemma heap_upto_take: "m \<le> n \<Longrightarrow> n \<le> length p \<Longrightarrow> heap_upto key (take n p) m = heap_upto key p m"
  unfolding heap_upto_def par_def by (auto simp: nth_take)

lemma heap_upto_cong:
  assumes "heap_upto key p n" "\<And>i. i < n \<Longrightarrow> key' (q ! i) = key (p ! i)"
  shows "heap_upto key' q n"
  using assms unfolding heap_upto_def by (metis par_less order_less_trans)

text \<open>The root holds a least key.\<close>

lemma heap_root_least:
  assumes "heap_upto key p n" "i < n"
  shows "key (p ! 0) \<le> key (p ! i)"
  using assms(2)
proof (induction i rule: less_induct)
  case (less i)
  show ?case
  proof (cases "i = 0")
    case False
    then have "par i < i" by simp
    with less have "key (p ! 0) \<le> key (p ! par i)" by simp
    also have "\<dots> \<le> key (p ! i)" using heap_uptoD [OF assms(1)] False less.prems by simp
    finally show ?thesis .
  qed simp
qed

section \<open>Moving the hole up\<close>

lemma heap_except_up_append:
  assumes "heap_upto key p n" "n < length p"
  shows "heap_except_up key (p[n := e]) (Suc n) n"
  using assms unfolding heap_except_up_def heap_upto_def
  by (auto simp: nth_list_update par_def less_Suc_eq)

lemma heap_up_step:
  assumes h: "heap_except_up key (p[h := e]) n h" and "0 < h" "h < n" "n \<le> length p"
    and lt: "key e < key (p ! par h)"
  shows "heap_except_up key ((p[h := p ! par h])[par h := e]) n (par h)"
  unfolding heap_except_up_def
proof (intro allI impI)
  fix i
  assume i: "0 < i \<and> i < n"
  let ?q = "(p[h := p ! par h])[par h := e]" and ?r = "p[h := e]"
  have ph: "par h < h" using \<open>0 < h\<close> by simp
  have q: "?q ! j = (if j = par h then e else if j = h then p ! par h else p ! j)" if "j < n" for j
    using that assms ph by (auto simp: nth_list_update)
  have r: "?r ! j = (if j = h then e else p ! j)" if "j < n" for j
    using that assms by (auto simp: nth_list_update)
  have pi: "par i < n" using i by (simp add: par_less_le)
  have H1: "i \<noteq> h \<Longrightarrow> key (?r ! par i) \<le> key (?r ! i)"
    and H2: "par i = h \<Longrightarrow> key (?r ! par h) \<le> key (?r ! i)"
    using h i \<open>0 < h\<close> unfolding heap_except_up_def by blast+
  have Hp: "0 < par h \<Longrightarrow> key (p ! par (par h)) \<le> key (p ! par h)"
  proof -
    assume pos: "0 < par h"
    then have "par h < n" "par h \<noteq> h" "par (par h) < n" "par (par h) \<noteq> h"
      using assms ph by (auto dest: order_less_trans [OF par_less])
    with h pos show ?thesis unfolding heap_except_up_def
      by (metis nth_list_update_neq)
  qed
  show "(i \<noteq> par h \<longrightarrow> key (?q ! par i) \<le> key (?q ! i)) \<and>
    (par i = par h \<and> 0 < par h \<longrightarrow> key (?q ! par (par h)) \<le> key (?q ! i))"
  proof (intro conjI impI)
    assume ne: "i \<noteq> par h"
    show "key (?q ! par i) \<le> key (?q ! i)"
    proof (cases "i = h")
      case True
      then have "h < length p" using i assms(4) by simp
      with True lt q pi i ph show ?thesis by simp
    next
      case False
      consider "par i = h" | "par i = par h" | "par i \<noteq> h" "par i \<noteq> par h" by blast
      then show ?thesis
      proof cases
        case 1
        moreover have "h < length p" using assms(3,4) by simp
        ultimately show ?thesis using False ne H2 q r pi i ph \<open>0 < h\<close> by simp
      next
        case 2
        with False ne H1 q r pi i ph lt show ?thesis by auto
      next
        case 3
        with False ne H1 q r pi i show ?thesis by simp
      qed
    qed
  next
    assume a: "par i = par h \<and> 0 < par h"
    then have ppi: "par (par h) < par h" by simp
    with a pi have n1: "par (par h) < n" by simp
    have "i \<noteq> par h" using a i by (metis less_irrefl par_less)
    moreover have "key (p ! par h) \<le> key (?q ! i)"
    proof (cases "i = h")
      case True
      moreover have "h < length p" using assms(3,4) by simp
      ultimately show ?thesis using q i ph by simp
    next
      case False
      with H1 a r q i pi ph \<open>i \<noteq> par h\<close> show ?thesis by auto
    qed
    ultimately show "key (?q ! par (par h)) \<le> key (?q ! i)"
      using Hp a q n1 ppi ph by (auto intro: order_trans)
  qed
qed

lemma heap_up_done:
  assumes "heap_except_up key (p[h := e]) n h" "h < n" "n \<le> length p"
    and "h = 0 \<or> key (p ! par h) \<le> key e"
  shows "heap_upto key (p[h := e]) n"
proof (rule heap_uptoI)
  fix i
  assume "0 < i" "i < n"
  with assms show "key (p[h := e] ! par i) \<le> key (p[h := e] ! i)"
    unfolding heap_except_up_def
    by (cases "i = h") (auto simp: nth_list_update)
qed

section \<open>Moving the hole down\<close>

lemma heap_except_down_update:
  assumes "heap_upto key p n" "h < n" "n \<le> length p" "0 < h \<Longrightarrow> key (p ! par h) \<le> key e"
  shows "heap_except_down key (p[h := e]) n h"
  unfolding heap_except_down_def
proof (intro allI impI conjI)
  fix i
  assume i: "0 < i \<and> i < n"
  show "key (p[h := e] ! par i) \<le> key (p[h := e] ! i)" if "par i \<noteq> h"
    using that i assms heap_uptoD [OF assms(1), of i] by (cases "i = h") (auto simp: nth_list_update)
  show "key (p[h := e] ! par h) \<le> key (p[h := e] ! i)" if a: "par i = h \<and> 0 < h"
  proof -
    have "i \<noteq> h" using a i by (metis less_irrefl par_less)
    moreover have "par h \<noteq> h" using a by (metis less_irrefl par_less)
    moreover have "key (p ! par h) \<le> key (p ! h)" "key (p ! h) \<le> key (p ! i)"
      using heap_uptoD [OF assms(1), of h] heap_uptoD [OF assms(1), of i] a i assms(2) by auto
    ultimately show ?thesis using assms(2,3) i by (auto simp: nth_list_update)
  qed
qed

lemma heap_except_up_update:
  assumes "heap_upto key p n" "h < n" "n \<le> length p" "key e \<le> key (p ! h)"
  shows "heap_except_up key (p[h := e]) n h"
  unfolding heap_except_up_def
proof (intro allI impI conjI)
  fix i
  assume i: "0 < i \<and> i < n"
  show "key (p[h := e] ! par i) \<le> key (p[h := e] ! i)" if "i \<noteq> h"
    using that i assms heap_uptoD [OF assms(1), of i] by (auto simp: nth_list_update)
  show "key (p[h := e] ! par h) \<le> key (p[h := e] ! i)" if a: "par i = h \<and> 0 < h"
  proof -
    have "i \<noteq> h" using a i by (metis less_irrefl par_less)
    moreover have "par h \<noteq> h" using a by (metis less_irrefl par_less)
    moreover have "key (p ! par h) \<le> key (p ! h)" "key (p ! h) \<le> key (p ! i)"
      using heap_uptoD [OF assms(1), of h] heap_uptoD [OF assms(1), of i] a i assms(2) by auto
    ultimately show ?thesis using assms(2,3) i by (auto simp: nth_list_update)
  qed
qed

lemma heap_hole_step:
  assumes h: "heap_hole_from lo key (p[h := e]) n h" and "0 < c" "par c = h" "c < n" "n \<le> length p"
    and lo: "lo \<le> h" and lt: "key (p ! c) \<le> key e"
    and least: "\<And>d. 0 < d \<Longrightarrow> d < n \<Longrightarrow> par d = h \<Longrightarrow> key (p ! c) \<le> key (p ! d)"
  shows "heap_hole_from lo key ((p[h := p ! c])[c := e]) n c"
  unfolding heap_hole_from_def
proof (intro allI impI)
  fix i
  assume i: "0 < i \<and> i < n \<and> lo \<le> par i"
  let ?q = "(p[h := p ! c])[c := e]" and ?r = "p[h := e]"
  have hc: "h < c" using assms(2,3) by auto
  have q: "?q ! j = (if j = c then e else if j = h then p ! c else p ! j)" if "j < n" for j
    using that assms hc by (auto simp: nth_list_update)
  have r: "?r ! j = (if j = h then e else p ! j)" if "j < n" for j
    using that assms hc by (auto simp: nth_list_update)
  have pi: "par i < n" using i by (simp add: par_less_le)
  have H1: "par i \<noteq> h \<Longrightarrow> key (?r ! par i) \<le> key (?r ! i)"
    using h i unfolding heap_hole_from_def by blast
  have H2: "0 < h \<Longrightarrow> lo \<le> par h \<Longrightarrow> key (p ! par h) \<le> key (p ! c)"
  proof -
    assume pos: "0 < h" "lo \<le> par h"
    then have "key (?r ! par h) \<le> key (?r ! c)"
      using h assms(2,3,4) lo unfolding heap_hole_from_def by blast
    moreover have "par h < h" using pos(1) by simp
    ultimately show ?thesis using r hc assms(4) by simp
  qed
  show "(par i \<noteq> c \<longrightarrow> key (?q ! par i) \<le> key (?q ! i)) \<and>
    (par i = c \<and> 0 < c \<and> lo \<le> par c \<longrightarrow> key (?q ! par c) \<le> key (?q ! i))"
  proof (intro conjI impI)
    assume ne: "par i \<noteq> c"
    show "key (?q ! par i) \<le> key (?q ! i)"
    proof (cases "par i = h")
      case True
      then have "i \<noteq> h" using i by (metis less_irrefl par_less)
      moreover have "h < length p" using hc assms(4,5) by simp
      ultimately show ?thesis using True q pi i lt least hc by simp
    next
      case False
      show ?thesis
      proof (cases "i = h")
        case True
        moreover have "h < length p" using hc assms(4,5) by simp
        ultimately show ?thesis using H2 q i pi hc ne False by (simp add: \<open>par c = h\<close>)
      next
        case F2: False
        have "i \<noteq> c" using False assms(3) by auto
        with False F2 ne H1 q r i pi show ?thesis by simp
      qed
    qed
  next
    assume a: "par i = c \<and> 0 < c \<and> lo \<le> par c"
    then have "i \<noteq> c" "i \<noteq> h" using i hc by (auto dest: par_less)
    moreover have "par i \<noteq> h" "h < length p" using a hc assms(4,5) by simp_all
    ultimately show "key (?q ! par c) \<le> key (?q ! i)"
      using H1 q r i pi assms(3) hc a by simp
  qed
qed

lemma heap_hole_done:
  assumes "heap_hole_from lo key (p[h := e]) n h" "h < n" "n \<le> length p"
    and "\<And>d. 0 < d \<Longrightarrow> d < n \<Longrightarrow> par d = h \<Longrightarrow> key e \<le> key (p ! d)"
  shows "heap_from lo key (p[h := e]) n"
  unfolding heap_from_def
proof (intro allI impI)
  fix i
  assume i: "0 < i \<and> i < n \<and> lo \<le> par i"
  then have "par i < i" by simp
  with assms i show "key (p[h := e] ! par i) \<le> key (p[h := e] ! i)"
    unfolding heap_hole_from_def
    by (cases "par i = h") (auto simp: nth_list_update)
qed

text \<open>Building a heap: one more root above a heap of the positions from \<open>lo + 1\<close> on.\<close>

lemma heap_from_extend: "heap_from (Suc lo) key p n \<Longrightarrow> heap_hole_from lo key p n lo"
  unfolding heap_from_def heap_hole_from_def
  by (metis Suc_leI leD le_neq_implies_less par_less)

lemma heap_from_leaves: "n \<le> 2 * lo + 1 \<Longrightarrow> heap_from lo key p n"
  unfolding heap_from_def par_def by auto

lemma heap_down_step:
  assumes "heap_except_down key (p[h := e]) n h" "0 < c" "par c = h" "c < n" "n \<le> length p"
    "key (p ! c) \<le> key e" "\<And>d. 0 < d \<Longrightarrow> d < n \<Longrightarrow> par d = h \<Longrightarrow> key (p ! c) \<le> key (p ! d)"
  shows "heap_except_down key ((p[h := p ! c])[c := e]) n c"
  unfolding heap_except_down_from
  by (rule heap_hole_step [OF assms(1) [unfolded heap_except_down_from] assms(2-5) le0 assms(6,7)])

lemma heap_down_done:
  assumes "heap_except_down key (p[h := e]) n h" "h < n" "n \<le> length p"
    and "\<And>d. 0 < d \<Longrightarrow> d < n \<Longrightarrow> par d = h \<Longrightarrow> key e \<le> key (p ! d)"
  shows "heap_upto key (p[h := e]) n"
  unfolding heap_upto_from
  by (rule heap_hole_done [OF assms(1) [unfolded heap_except_down_from] assms(2-4)])

section \<open>Changing the key of one element\<close>

lemma heap_rekey_up:
  assumes "heap_upto key p n" "0 < h" "h < n" "\<And>j. j < n \<Longrightarrow> j \<noteq> h \<Longrightarrow> key' (p ! j) = key (p ! j)"
    and "key' (p ! h) < key' (p ! par h)"
  shows "heap_except_up key' p n h"
  unfolding heap_except_up_def
proof (intro allI impI conjI)
  fix i
  assume i: "0 < i \<and> i < n"
  have ph: "par h < n" "par h \<noteq> h" using assms(2,3) by (simp_all add: par_less_le)
  have hh: "key (p ! par h) \<le> key (p ! h)" using heap_uptoD [OF assms(1-3)] .
  have ii: "key (p ! par i) \<le> key (p ! i)" using heap_uptoD [OF assms(1)] i by blast
  have pi: "par i < n" "par i \<noteq> i" using i by (simp_all add: par_less_le)
  show "key' (p ! par i) \<le> key' (p ! i)" if "i \<noteq> h"
  proof (cases "par i = h")
    case True
    have "key' (p ! h) \<le> key (p ! par h)" using assms(4) [OF ph] assms(5) by simp
    also have "\<dots> \<le> key (p ! i)" using hh ii True by (auto intro: order_trans)
    finally show ?thesis using assms(4) [of i] i that True by simp
  next
    case False
    then show ?thesis using ii assms(4) [of i] assms(4) [of "par i"] i that pi by simp
  qed
  show "key' (p ! par h) \<le> key' (p ! i)" if a: "par i = h \<and> 0 < h"
    using a hh ii pi ph assms(4) [of i] assms(4) [of "par h"] i by (auto intro: order_trans)
qed

lemma heap_rekey_down:
  assumes "heap_upto key p n" "h < n" "\<And>j. j < n \<Longrightarrow> j \<noteq> h \<Longrightarrow> key' (p ! j) = key (p ! j)"
    and "0 < h \<Longrightarrow> key' (p ! par h) \<le> key' (p ! h)"
  shows "heap_except_down key' p n h"
  unfolding heap_except_down_def
proof (intro allI impI conjI)
  fix i
  assume i: "0 < i \<and> i < n"
  have ii: "key (p ! par i) \<le> key (p ! i)" using heap_uptoD [OF assms(1)] i by blast
  have pi: "par i < n" "par i \<noteq> i" using i by (simp_all add: par_less_le)
  show "key' (p ! par i) \<le> key' (p ! i)" if "par i \<noteq> h"
    using ii pi that i assms(4) assms(3) [of i] assms(3) [of "par i"] by (cases "i = h") auto
  show "key' (p ! par h) \<le> key' (p ! i)" if a: "par i = h \<and> 0 < h"
  proof -
    have "par h < n" "par h \<noteq> h" using a assms(2) by (simp_all add: par_less_le)
    moreover have "key (p ! par h) \<le> key (p ! h)" using heap_uptoD [OF assms(1)] a assms(2) by blast
    ultimately show ?thesis using a ii pi i assms(3) [of i] assms(3) [of "par h"]
      by (auto intro: order_trans)
  qed
qed

end
