(* ===== verification/Timer_Queue.thy ===== *)
theory Timer_Queue
  imports Event_Prelude
begin

text \<open>
  What the event loop and the chat-server timers rely on when they keep pending timers in a priority
  queue: a least element can be read and removed. The loop that handles expired timers takes elements
  as long as the least one is due; its behaviour is proved once, from the interface, and the two
  heaps of the program (\<^verbatim>\<open>min_heap\<close> and \<^verbatim>\<open>time_heap\<close>) interpret it.
\<close>

fun drain :: "('q \<Rightarrow> 'e option) \<Rightarrow> ('q \<Rightarrow> 'q) \<Rightarrow> ('e \<Rightarrow> bool) \<Rightarrow> nat \<Rightarrow> 'q \<Rightarrow> 'e list \<times> 'q" where
  "drain tp pp due 0 q = ([], q)"
| "drain tp pp due (Suc k) q =
     (case tp q of None \<Rightarrow> ([], q)
      | Some e \<Rightarrow> if due e then (let (es, q') = drain tp pp due k (pp q) in (e # es, q')) else ([], q))"

locale timer_queue =
  fixes invar :: "'q \<Rightarrow> bool"
    and elems :: "'q \<Rightarrow> 'e multiset"
    and key :: "'e \<Rightarrow> 'k::linorder"
    and tp :: "'q \<Rightarrow> 'e option"
    and pp :: "'q \<Rightarrow> 'q"
  assumes top_None: "invar q \<Longrightarrow> tp q = None \<longleftrightarrow> elems q = {#}"
    and top_in: "invar q \<Longrightarrow> tp q = Some e \<Longrightarrow> e \<in># elems q"
    and top_least: "invar q \<Longrightarrow> tp q = Some e \<Longrightarrow> x \<in># elems q \<Longrightarrow> key e \<le> key x"
    and pop_elems: "invar q \<Longrightarrow> tp q = Some e \<Longrightarrow> elems (pp q) = elems q - {#e#}"
    and pop_invar: "invar q \<Longrightarrow> tp q = Some e \<Longrightarrow> invar (pp q)"
begin

text \<open>Draining a queue up to a time: exactly the due elements come out, in order of their keys.\<close>

lemma drain_due:
  assumes "invar q" "size (elems q) \<le> k" "drain tp pp (\<lambda>e. key e \<le> now) k q = (es, q')"
  shows "invar q' \<and> mset es = filter_mset (\<lambda>e. key e \<le> now) (elems q) \<and>
    elems q' = filter_mset (\<lambda>e. \<not> key e \<le> now) (elems q) \<and> sorted (map key es)"
  using assms
proof (induction k arbitrary: q es)
  case 0
  then show ?case by auto
next
  case (Suc k)
  show ?case
  proof (cases "tp q")
    case None
    have "elems q = {#}" using top_None [OF Suc.prems(1)] None by simp
    moreover have "es = []" "q' = q" using Suc.prems(3) None by auto
    ultimately show ?thesis using Suc.prems(1) by simp
  next
    case (Some e)
    have ein: "e \<in># elems q" and least: "\<And>x. x \<in># elems q \<Longrightarrow> key e \<le> key x"
      using top_in top_least Suc.prems(1) Some by auto
    show ?thesis
    proof (cases "key e \<le> now")
      case False
      then have "\<forall>x \<in># elems q. \<not> key x \<le> now" using least order_trans by blast
      then have "filter_mset (\<lambda>e. key e \<le> now) (elems q) = {#}"
        "filter_mset (\<lambda>e. \<not> key e \<le> now) (elems q) = elems q"
        by (auto simp: filter_mset_eq_conv)
      then show ?thesis using Suc.prems Some False by auto
    next
      case True
      obtain es1 where es1: "drain tp pp (\<lambda>e. key e \<le> now) k (pp q) = (es1, q')" "es = e # es1"
        using Suc.prems(3) Some True by (auto split: prod.splits)
      have el: "elems (pp q) = elems q - {#e#}" "invar (pp q)"
        using pop_elems pop_invar Suc.prems(1) Some by auto
      then have "size (elems (pp q)) \<le> k" using Suc.prems(2) ein by (simp add: size_Diff_singleton)
      from Suc.IH [OF el(2) this es1(1)] have ih: "invar q'"
        "mset es1 = filter_mset (\<lambda>e. key e \<le> now) (elems q - {#e#})"
        "elems q' = filter_mset (\<lambda>e. \<not> key e \<le> now) (elems q - {#e#})" "sorted (map key es1)"
        using el by auto
      have q: "elems q = add_mset e (elems q - {#e#})" using ein by simp
      have "mset es = filter_mset (\<lambda>e. key e \<le> now) (elems q)"
        by (subst q) (simp add: es1 ih(2) True)
      moreover have "elems q' = filter_mset (\<lambda>e. \<not> key e \<le> now) (elems q)"
        by (subst q) (simp add: ih(3) True)
      moreover have "\<forall>x \<in> set es1. key e \<le> key x"
      proof
        fix x
        assume "x \<in> set es1"
        then have "x \<in># mset es1" by simp
        then have "x \<in># elems q" using ih(2) by (metis filter_mset_eq_conv in_diffD mset_subset_eqD
            multiset_filter_subset)
        then show "key e \<le> key x" by (rule least)
      qed
      ultimately show ?thesis using ih es1 by simp
    qed
  qed
qed

end

end
