(* ===== verification/Time_Heap.thy ===== *)
theory Time_Heap
  imports Array_Heap Timer_Queue Dll
begin

text \<open>
  The timer heap of the chat-server examples, \<^verbatim>\<open>TimeHeap.h\<close>. Timers are objects of a store;
  the heap keeps an array of pointers (\<open>None\<close> is the null pointer), its capacity and the number of
  used slots. The operations that can throw or that write a new slot say how they fail
  (\<open>th_error\<close>: an exception, an \<^verbatim>\<open>int\<close> overflow, a write or a read behind the array, a bad
  pointer); the others throw nothing and are \<open>None\<close> when they read or write outside the array, follow
  a null pointer or reach a deleted object. Memory is available to \<^verbatim>\<open>new\<close>. The callback of a timer is opaque: \<open>cb_func\<close>
  tells whether it is set, and a tick reports the client data it is called with, in order.
\<close>

section \<open>State and operations\<close>

record heap_timer =
  expire :: int
  cb_func :: bool
  user_data :: nat

type_synonym timer_store = "nat \<rightharpoonup> heap_timer"

record time_heap =
  hmem :: timer_store
  array :: "nat option list"
  capacity :: nat
  cur_size :: nat

datatype th_error =
    Thrown
  | Int_overflow
  | Writes_behind nat
  | Reads_behind nat
  | Bad_pointer

definition aread :: "nat option list \<Rightarrow> nat \<Rightarrow> nat option option" where
  "aread arr i = (if i < length arr then Some (arr ! i) else None)"

definition awrite :: "nat option list \<Rightarrow> nat \<Rightarrow> nat option \<Rightarrow> nat option list option" where
  "awrite arr i p = (if i < length arr then Some (arr[i := p]) else None)"

definition slot_expire :: "timer_store \<Rightarrow> nat option list \<Rightarrow> nat \<Rightarrow> int option" where
  "slot_expire m arr i = do { p \<leftarrow> aread arr i; t \<leftarrow> deref m p; Some (expire t) }"


text \<open>The child that \<^verbatim>\<open>percolate_down\<close> descends to.\<close>

definition least_child :: "timer_store \<Rightarrow> nat option list \<Rightarrow> nat \<Rightarrow> nat \<Rightarrow> nat option" where
  "least_child m arr n hole =
     (let child = hole * 2 + 1 in
      if child < n - 1 then do {
        r \<leftarrow> slot_expire m arr (child + 1);
        l \<leftarrow> slot_expire m arr child;
        Some (if r < l then child + 1 else child) }
      else Some child)"

lemma least_child_Some:
  "least_child m arr n hole = Some c \<Longrightarrow> c = 2 * hole + 1 \<or> c = 2 * hole + 2 \<and> c < n"
  by (auto simp: least_child_def Let_def split: if_splits bind_splits)

function percolate_loop ::
  "timer_store \<Rightarrow> nat \<Rightarrow> nat option list \<Rightarrow> nat \<Rightarrow> nat option \<Rightarrow> nat option list option" where
  "percolate_loop m n arr hole temp =
     (if hole * 2 + 1 \<le> n - 1 then
        (case least_child m arr n hole of None \<Rightarrow> None
         | Some child \<Rightarrow>
           (case (slot_expire m arr child, deref m temp) of
              (Some ec, Some t) \<Rightarrow>
                (if ec < expire t then
                   (if hole < length arr then percolate_loop m n (arr[hole := arr ! child]) child temp
                    else None)
                 else awrite arr hole temp)
            | _ \<Rightarrow> None))
      else awrite arr hole temp)"
  by pat_completeness auto
termination
  by (relation "measure (\<lambda>(m, n, arr, hole, temp). n - hole)") (auto dest: least_child_Some)

declare percolate_loop.simps [simp del]

definition percolate_down ::
  "timer_store \<Rightarrow> nat \<Rightarrow> nat option list \<Rightarrow> nat \<Rightarrow> nat option list option" where
  "percolate_down m n arr hole = do { temp \<leftarrow> aread arr hole; percolate_loop m n arr hole temp }"

text \<open>The constructor from an array of timers: \<^verbatim>\<open>for (i = (cur_size - 1) / 2; i >= 0; --i)\<close>.\<close>

fun heapify :: "timer_store \<Rightarrow> nat \<Rightarrow> nat option list \<Rightarrow> nat \<Rightarrow> nat option list option" where
  "heapify m n arr 0 = Some arr"
| "heapify m n arr (Suc i) = do { arr1 \<leftarrow> percolate_down m n arr i; heapify m n arr1 i }"

definition time_heap_of_array ::
  "timer_store \<Rightarrow> nat option list \<Rightarrow> nat \<Rightarrow> nat \<Rightarrow> th_error + time_heap" where
  "time_heap_of_array m init_array sz cap =
     (if cap < sz then Inl Thrown
      else if length init_array < sz then Inl (Reads_behind (length init_array))
      else
        (case (if sz \<noteq> 0
               then heapify m sz (take sz init_array @ replicate (cap - sz) None)
                      ((sz - 1) div 2 + 1)
               else Some (replicate cap None)) of
           None \<Rightarrow> Inl Bad_pointer
         | Some arr \<Rightarrow> Inr \<lparr>hmem = m, array = arr, capacity = cap, cur_size = sz\<rparr>))"

definition th_empty :: "time_heap \<Rightarrow> bool" where
  "th_empty h \<longleftrightarrow> cur_size h = 0"

text \<open>Doubling the capacity; \<^verbatim>\<open>2 * capacity\<close> must not overflow an \<^verbatim>\<open>int\<close>.\<close>

definition th_resize :: "time_heap \<Rightarrow> th_error + time_heap" where
  "th_resize h =
     (if int (2 * capacity h) > INT_MAX then Inl Int_overflow
      else if cur_size h > 2 * capacity h then Inl (Writes_behind (2 * capacity h))
      else if cur_size h > length (array h) then Inl (Reads_behind (length (array h)))
      else Inr (h\<lparr>array := take (cur_size h) (array h) @ replicate (2 * capacity h - cur_size h) None,
                  capacity := 2 * capacity h\<rparr>))"

definition place_timer :: "nat option list \<Rightarrow> nat \<Rightarrow> nat option \<Rightarrow> th_error + nat option list" where
  "place_timer arr hole timer =
     (if hole < length arr then Inr (arr[hole := timer]) else Inl (Writes_behind hole))"

function sift_up_loop ::
  "timer_store \<Rightarrow> nat option list \<Rightarrow> nat \<Rightarrow> nat option \<Rightarrow> th_error + nat option list" where
  "sift_up_loop m arr hole timer =
     (if hole > 0 then
        (case (slot_expire m arr ((hole - 1) div 2), deref m timer) of
           (Some ep, Some t) \<Rightarrow>
             (if ep \<le> expire t then place_timer arr hole timer
              else if hole < length arr
                then sift_up_loop m (arr[hole := arr ! ((hole - 1) div 2)]) ((hole - 1) div 2) timer
                else Inl (Writes_behind hole))
         | _ \<Rightarrow> Inl Bad_pointer)
      else place_timer arr hole timer)"
  by pat_completeness auto
termination
  by (relation "measure (\<lambda>(m, arr, hole, timer). hole)") auto

declare sift_up_loop.simps [simp del]

definition th_add_timer :: "time_heap \<Rightarrow> nat option \<Rightarrow> th_error + time_heap" where
  "th_add_timer h timer =
     (if timer = None then Inr h
      else
        (case (if cur_size h \<ge> capacity h then th_resize h else Inr h) of
           Inl e \<Rightarrow> Inl e
         | Inr h1 \<Rightarrow>
             (case sift_up_loop (hmem h1) (array h1) (cur_size h1) timer of
                Inl e \<Rightarrow> Inl e
              | Inr arr \<Rightarrow> Inr (h1\<lparr>array := arr, cur_size := cur_size h1 + 1\<rparr>))))"

definition th_del_timer :: "time_heap \<Rightarrow> nat option \<Rightarrow> time_heap option" where
  "th_del_timer h timer =
     (case timer of None \<Rightarrow> Some h
      | Some a \<Rightarrow> (case hmem h a of None \<Rightarrow> None
                   | Some t \<Rightarrow> Some (h\<lparr>hmem := (hmem h)(a \<mapsto> t\<lparr>cb_func := False\<rparr>)\<rparr>)))"

definition th_top :: "time_heap \<Rightarrow> nat option option" where
  "th_top h = (if th_empty h then Some None else aread (array h) 0)"

definition pop_timer :: "time_heap \<Rightarrow> time_heap option" where
  "pop_timer h =
     (if th_empty h then Some h
      else do {
        p \<leftarrow> aread (array h) 0;
        (case p of None \<Rightarrow> Some h
         | Some a \<Rightarrow>
           if a \<notin> dom (hmem h) then None
           else do {
             let n = cur_size h - 1;
             let m = (hmem h)(a := None);
             lst \<leftarrow> aread (array h) n;
             arr \<leftarrow> percolate_down m n ((array h)[0 := lst]) 0;
             Some (h\<lparr>hmem := m, array := arr, cur_size := n\<rparr>) }) })"

text \<open>
  One round of the \<^verbatim>\<open>while\<close> in \<^verbatim>\<open>tick\<close> starts after \<^verbatim>\<open>tmp = array[0]\<close>, which is read even
  from an empty heap.
\<close>

partial_function (option) th_tick_loop :: "int \<Rightarrow> time_heap \<Rightarrow> (nat list \<times> time_heap) option" where
  "th_tick_loop cur h = do {
     tmp \<leftarrow> aread (array h) 0;
     if th_empty h \<or> tmp = None then Some ([], h)
     else do {
       t \<leftarrow> deref (hmem h) tmp;
       if expire t > cur then Some ([], h)
       else do {
         h1 \<leftarrow> pop_timer h;
         r \<leftarrow> th_tick_loop cur h1;
         Some ((if cb_func t then [user_data t] else []) @ fst r, snd r) } } }"

definition th_tick :: "int \<Rightarrow> time_heap \<Rightarrow> (nat list \<times> time_heap) option" where
  "th_tick cur h = th_tick_loop cur h"

text \<open>The destructor deletes the timers of the used slots; deleting a null pointer does nothing.\<close>

fun delete_all :: "timer_store \<Rightarrow> nat option list \<Rightarrow> timer_store option" where
  "delete_all m [] = Some m"
| "delete_all m (None # ps) = delete_all m ps"
| "delete_all m (Some a # ps) = (if a \<in> dom m then delete_all (m(a := None)) ps else None)"

definition destroy_time_heap :: "time_heap \<Rightarrow> timer_store option" where
  "destroy_time_heap h = delete_all (hmem h) (take (cur_size h) (array h))"

section \<open>Invariant\<close>

definition live :: "timer_store \<Rightarrow> nat option \<Rightarrow> bool" where
  "live m p \<longleftrightarrow> (\<exists>a \<in> dom m. p = Some a)"

definition slot_key :: "timer_store \<Rightarrow> nat option \<Rightarrow> int" where
  "slot_key m p = expire (the (m (the p)))"

definition time_heap_inv :: "time_heap \<Rightarrow> bool" where
  "time_heap_inv h \<longleftrightarrow>
     cur_size h \<le> capacity h \<and> length (array h) = capacity h \<and>
     (\<forall>i < cur_size h. live (hmem h) (array h ! i)) \<and>
     distinct (take (cur_size h) (array h)) \<and>
     heap_upto (slot_key (hmem h)) (array h) (cur_size h)"

lemma live_deref: "live m p \<Longrightarrow> \<exists>t. deref m p = Some t \<and> expire t = slot_key m p"
  by (auto simp: live_def slot_key_def)

lemma slot_expire_live:
  "i < length arr \<Longrightarrow> live m (arr ! i) \<Longrightarrow> slot_expire m arr i = Some (slot_key m (arr ! i))"
  using live_deref by (fastforce simp: slot_expire_def aread_def)

text \<open>What a run of one of the two loops achieves.\<close>

definition th_sifted :: "timer_store \<Rightarrow> nat \<Rightarrow> nat \<Rightarrow> nat option list \<Rightarrow> nat option list \<Rightarrow> bool" where
  "th_sifted m lo n q arr \<longleftrightarrow>
     heap_from lo (slot_key m) arr n \<and> mset (take n arr) = mset (take n q) \<and> length arr = length q"

lemma th_sifted_step:
  assumes "th_sifted m lo n ((p[h := p ! j])[j := e]) r" "h < n" "j < n" "h \<noteq> j" "n \<le> length p"
  shows "th_sifted m lo n (p[h := e]) r"
  using assms set_take_list_update_swap [of h n j p e] by (simp add: th_sifted_def)

lemma live_step:
  "\<forall>i < n. live m ((p[h := e]) ! i) \<Longrightarrow> h < n \<Longrightarrow> j < n \<Longrightarrow> h \<noteq> j \<Longrightarrow> n \<le> length p \<Longrightarrow>
   \<forall>i < n. live m (((p[h := p ! j])[j := e]) ! i)"
  by (auto simp: nth_list_update split: if_splits)

lemma sift_up_sifted:
  assumes "heap_except_up (slot_key m) (p[hole := e]) n hole" "\<forall>i < n. live m ((p[hole := e]) ! i)"
    "hole < n" "n \<le> length p"
  shows "\<exists>arr. sift_up_loop m p hole e = Inr arr \<and> th_sifted m 0 n (p[hole := e]) arr"
  using assms
proof (induction m p hole e rule: sift_up_loop.induct)
  case (1 m p hole e)
  show ?case
  proof (cases "hole = 0")
    case True
    then show ?thesis
      using heap_up_done [OF 1(2,4,5)] 1(4,5)
      by (subst sift_up_loop.simps) (auto simp: place_timer_def th_sifted_def heap_upto_from)
  next
    case False
    let ?j = "(hole - 1) div 2"
    have j: "par hole = ?j" "?j < n" "hole \<noteq> ?j" using False 1(4) by (auto simp: par_def)
    have "live m (p ! ?j)" using 1(3) j 1(4) by (auto simp: nth_list_update split: if_splits)
    then have ep: "slot_expire m p ?j = Some (slot_key m (p ! ?j))"
      using j 1(5) by (intro slot_expire_live) auto
    have "live m e" using 1(3-5) by (auto simp: nth_list_update split: if_splits)
    then obtain t where t: "deref m e = Some t" "expire t = slot_key m e" using live_deref by blast
    show ?thesis
    proof (cases "slot_key m (p ! ?j) \<le> slot_key m e")
      case True
      then show ?thesis using heap_up_done [OF 1(2,4,5)] False ep t j(1) 1(4,5)
        by (subst sift_up_loop.simps) (simp add: place_timer_def th_sifted_def heap_upto_from)
    next
      case gt: False
      then have "slot_key m e < slot_key m (p ! par hole)" using j(1) by simp
      from heap_up_step [OF 1(2) _ 1(4,5) this] False
      have "heap_except_up (slot_key m) ((p[hole := p ! ?j])[?j := e]) n ?j" using j(1) by simp
      moreover note live_step [OF 1(3,4) j(2,3) 1(5)]
      ultimately obtain arr where arr: "sift_up_loop m (p[hole := p ! ?j]) ?j e = Inr arr"
        "th_sifted m 0 n ((p[hole := p ! ?j])[?j := e]) arr"
        using 1(1) [OF _ refl ep t(1)] False gt t(2) j 1(4,5) by auto
      have "sift_up_loop m p hole e = Inr arr"
        using arr(1) False gt ep t 1(4,5) by (subst sift_up_loop.simps) simp
      with th_sifted_step [OF arr(2) 1(4) j(2,3) 1(5)] show ?thesis by blast
    qed
  qed
qed

lemma least_child_least:
  assumes "\<forall>i < n. live m ((p[hole := e]) ! i)" "hole * 2 + 1 \<le> n - 1" "n \<le> length p"
  shows "\<exists>c. least_child m p n hole = Some c \<and> 0 < c \<and> c < n \<and> par c = hole \<and> hole \<noteq> c \<and>
    live m (p ! c) \<and> (\<forall>d. 0 < d \<and> d < n \<and> par d = hole \<longrightarrow> slot_key m (p ! c) \<le> slot_key m (p ! d))"
proof -
  let ?c = "hole * 2 + 1"
  have lv: "live m (p ! i)" if "i < n" "i \<noteq> hole" for i using assms(1) that by auto
  have n: "?c < n" using assms(2) by simp
  have e: "slot_expire m p i = Some (slot_key m (p ! i))" if "i < n" "i \<noteq> hole" for i
    using slot_expire_live [OF _ lv [OF that]] that assms(3) by simp
  show ?thesis
  proof (cases "?c < n - 1")
    case True
    define c where "c = (if slot_key m (p ! (?c + 1)) < slot_key m (p ! ?c) then ?c + 1 else ?c)"
    have lc: "least_child m p n hole = Some c"
      using True e [of ?c] e [of "?c + 1"] by (simp add: least_child_def c_def)
    have c: "0 < c" "c < n" "par c = hole" "hole \<noteq> c" using True by (auto simp: c_def par_def)
    have "slot_key m (p ! c) \<le> slot_key m (p ! d)" if "0 < d" "d < n" "par d = hole" for d
    proof -
      have "d = ?c \<or> d = ?c + 1" using that by (auto simp: par_eq_iff)
      then show ?thesis by (auto simp: c_def)
    qed
    with lc c lv [OF c(2)] c(4) show ?thesis by (intro exI [of _ c]) simp
  next
    case False
    then have "least_child m p n hole = Some ?c" by (simp add: least_child_def)
    moreover have "d = ?c" if "0 < d" "d < n" "par d = hole" for d
      using that False by (auto simp: par_eq_iff)
    ultimately show ?thesis using n lv [of ?c] by (auto simp: par_def)
  qed
qed

lemma percolate_sifted:
  assumes "heap_hole_from lo (slot_key m) (p[hole := e]) n hole"
    "\<forall>i < n. live m ((p[hole := e]) ! i)" "hole < n" "n \<le> length p" "lo \<le> hole"
  shows "\<exists>arr. percolate_loop m n p hole e = Some arr \<and> th_sifted m lo n (p[hole := e]) arr"
  using assms
proof (induction m n p hole e rule: percolate_loop.induct)
  case (1 m n p hole e)
  have hl: "hole < length p" using 1(4,5) by simp
  have "live m e" using 1(3-5) by (auto simp: nth_list_update split: if_splits)
  then obtain t where t: "deref m e = Some t" "expire t = slot_key m e" using live_deref by blast
  show ?case
  proof (cases "hole * 2 + 1 \<le> n - 1")
    case False
    have "heap_from lo (slot_key m) (p[hole := e]) n"
      using False 1(4) by (intro heap_hole_done [OF 1(2,4,5)]) (auto simp: par_eq_iff)
    then show ?thesis using False hl
      by (subst percolate_loop.simps) (simp add: awrite_def th_sifted_def)
  next
    case True
    from least_child_least [OF 1(3) True 1(5)] obtain c where
      c: "least_child m p n hole = Some c" "0 < c" "c < n" "par c = hole" "hole \<noteq> c" "live m (p ! c)"
      and least: "\<And>d. 0 < d \<Longrightarrow> d < n \<Longrightarrow> par d = hole \<Longrightarrow> slot_key m (p ! c) \<le> slot_key m (p ! d)"
      by blast
    have ec: "slot_expire m p c = Some (slot_key m (p ! c))"
      using c 1(5) by (intro slot_expire_live) auto
    show ?thesis
    proof (cases "slot_key m (p ! c) < slot_key m e")
      case False
      have "heap_from lo (slot_key m) (p[hole := e]) n"
      proof (rule heap_hole_done [OF 1(2,4,5)])
        fix d assume "0 < d" "d < n" "par d = hole"
        from least [OF this] False show "slot_key m e \<le> slot_key m (p ! d)" by simp
      qed
      then show ?thesis using False True hl c(1) ec t
        by (subst percolate_loop.simps) (simp add: awrite_def th_sifted_def)
    next
      case lt: True
      have "heap_hole_from lo (slot_key m) ((p[hole := p ! c])[c := e]) n c"
        by (rule heap_hole_step [OF 1(2) c(2,4,3) 1(5,6) less_imp_le [OF lt] least])
      moreover have "lo \<le> c" using c(2,4) 1(6) par_less [OF c(2)] by simp
      moreover note live_step [OF 1(3,4) c(3,5) 1(5)]
      ultimately obtain arr where arr: "percolate_loop m n (p[hole := p ! c]) c e = Some arr"
        "th_sifted m lo n ((p[hole := p ! c])[c := e]) arr"
        using 1(1) [OF True c(1) refl ec t(1) _ hl] lt t(2) c(3) 1(5) by auto
      have "percolate_loop m n p hole e = Some arr"
        using arr(1) lt ec t hl True c(1) by (subst percolate_loop.simps) simp
      with th_sifted_step [OF arr(2) 1(4) c(3,5) 1(5)] show ?thesis by blast
    qed
  qed
qed

lemma percolate_down_sifted:
  assumes "heap_hole_from lo (slot_key m) p n hole"
    "\<forall>i < n. live m (p ! i)" "hole < n" "n \<le> length p" "lo \<le> hole"
  shows "\<exists>arr. percolate_down m n p hole = Some arr \<and> th_sifted m lo n p arr"
  using percolate_sifted [of lo m p hole "p ! hole" n] assms
  by (simp add: percolate_down_def aread_def)

section \<open>The operations\<close>

lemma live_mset:
  assumes "mset (take n q) = mset (take n p)" "\<forall>i < n. live m (p ! i)" "n \<le> length p" "length q = length p"
  shows "\<forall>i < n. live m (q ! i)"
proof -
  have "\<forall>x \<in> set (take n p). live m x" using assms(2,3) by (auto simp: in_set_conv_nth)
  then have "\<forall>x \<in> set (take n q). live m x" using assms(1) by (metis set_mset_mset)
  moreover have "q ! i \<in> set (take n q)" if "i < n" for i
    using that assms(3,4) by (auto simp: in_set_conv_nth)
  ultimately show ?thesis by blast
qed

lemma heapify_sifted:
  assumes "heap_from k (slot_key m) p n" "\<forall>i < n. live m (p ! i)" "k \<le> n" "n \<le> length p"
  shows "\<exists>arr. heapify m n p k = Some arr \<and> th_sifted m 0 n p arr"
  using assms
proof (induction k arbitrary: p)
  case 0
  then show ?case by (simp add: th_sifted_def)
next
  case (Suc k)
  from percolate_down_sifted [OF heap_from_extend [OF Suc.prems(1)] Suc.prems(2) _ Suc.prems(4)]
  obtain p1 where p1: "percolate_down m n p k = Some p1" "th_sifted m k n p p1"
    using Suc.prems(3) by auto
  then have "\<forall>i < n. live m (p1 ! i)"
    using live_mset [OF _ Suc.prems(2,4)] by (auto simp: th_sifted_def)
  from Suc.IH [OF _ this] p1(2) Suc.prems(3,4) obtain arr where
    "heapify m n p1 k = Some arr" "th_sifted m 0 n p1 arr" by (auto simp: th_sifted_def)
  with p1 show ?case by (auto simp: th_sifted_def)
qed

text \<open>The timers a heap holds, each with its address.\<close>

definition timer_of :: "timer_store \<Rightarrow> nat option \<Rightarrow> nat \<times> heap_timer" where
  "timer_of m p = (the p, the (m (the p)))"

definition th_elems :: "time_heap \<Rightarrow> (nat \<times> heap_timer) multiset" where
  "th_elems h = image_mset (timer_of (hmem h)) (mset (take (cur_size h) (array h)))"

lemma th_of_array_ok:
  assumes "sz \<le> cap" "sz \<le> length ps" "\<forall>i < sz. live m (ps ! i)" "distinct (take sz ps)"
  shows "\<exists>h. time_heap_of_array m ps sz cap = Inr h \<and> time_heap_inv h \<and> hmem h = m \<and>
    capacity h = cap \<and> cur_size h = sz \<and> mset (take sz (array h)) = mset (take sz ps)"
proof (cases "sz = 0")
  case True
  then show ?thesis using assms by (simp add: time_heap_of_array_def time_heap_inv_def heap_upto_def)
next
  case False
  let ?p = "take sz ps @ replicate (cap - sz) None"
  have p: "\<forall>i < sz. live m (?p ! i)" "take sz ?p = take sz ps" "length ?p = cap"
    using assms by (auto simp: nth_append)
  have "heap_from ((sz - 1) div 2 + 1) (slot_key m) ?p sz"
    by (rule heap_from_leaves) presburger
  from heapify_sifted [OF this p(1)] assms(1) p(3) False obtain arr where
    arr: "heapify m sz ?p ((sz - 1) div 2 + 1) = Some arr" "th_sifted m 0 sz ?p arr"
    by (force simp del: heapify.simps)
  have "\<forall>i < sz. live m (arr ! i)"
    using live_mset [OF _ p(1)] arr(2) assms(1) p(3) by (auto simp: th_sifted_def)
  moreover have "distinct (take sz arr)" using arr(2) p(2) assms(4) distinct_mset_eq
    by (metis th_sifted_def)
  ultimately show ?thesis using arr False assms p
    by (simp add: time_heap_of_array_def time_heap_inv_def th_sifted_def heap_upto_from
        del: heapify.simps)
qed

lemma th_invI:
  assumes "th_sifted m 0 n q arr" "\<forall>i < n. live m (q ! i)" "distinct (take n q)"
    "n \<le> cap" "length q = cap"
  shows "time_heap_inv \<lparr>hmem = m, array = arr, capacity = cap, cur_size = n\<rparr>"
    "mset (take n arr) = mset (take n q)"
proof -
  show m: "mset (take n arr) = mset (take n q)" using assms(1) by (simp add: th_sifted_def)
  have "\<forall>i < n. live m (arr ! i)"
    using live_mset [OF m assms(2)] assms(1,4,5) by (simp add: th_sifted_def)
  then show "time_heap_inv \<lparr>hmem = m, array = arr, capacity = cap, cur_size = n\<rparr>"
    using assms distinct_mset_eq [OF m] by (simp add: time_heap_inv_def th_sifted_def heap_upto_from)
qed

lemma th_resize_ok:
  assumes "time_heap_inv h" "int (2 * capacity h) \<le> INT_MAX"
  shows "\<exists>h1. th_resize h = Inr h1 \<and> time_heap_inv h1 \<and> th_elems h1 = th_elems h \<and>
    hmem h1 = hmem h \<and> cur_size h1 = cur_size h \<and> capacity h1 = 2 * capacity h \<and>
    take (cur_size h) (array h1) = take (cur_size h) (array h)"
proof -
  let ?n = "cur_size h"
  let ?a = "take ?n (array h) @ replicate (2 * capacity h - ?n) None"
  have hu: "heap_upto (slot_key (hmem h)) (array h) ?n" and len: "?n \<le> length (array h)"
    using assms(1) by (simp_all add: time_heap_inv_def)
  have "heap_upto (slot_key (hmem h)) ?a ?n"
    by (rule heap_upto_cong [OF hu]) (use len in \<open>simp add: nth_append\<close>)
  then show ?thesis using assms
    by (auto simp: th_resize_def time_heap_inv_def th_elems_def nth_append)
qed

lemma th_add_timer_ok:
  assumes inv: "time_heap_inv h" and t: "hmem h a = Some t" and new: "Some a \<notin> set (take (cur_size h) (array h))"
    and cap: "cur_size h < capacity h \<or> 0 < capacity h \<and> int (2 * capacity h) \<le> INT_MAX"
  shows "\<exists>h'. th_add_timer h (Some a) = Inr h' \<and> time_heap_inv h' \<and>
    th_elems h' = add_mset (a, t) (th_elems h) \<and> hmem h' = hmem h"
proof -
  define h1 where "h1 = (if cur_size h \<ge> capacity h then projr (th_resize h) else h)"
  have h1: "(if cur_size h \<ge> capacity h then th_resize h else Inr h) = Inr h1" "time_heap_inv h1"
    "th_elems h1 = th_elems h" "hmem h1 = hmem h" "cur_size h1 = cur_size h" "cur_size h < capacity h1"
    "take (cur_size h) (array h1) = take (cur_size h) (array h)"
    using th_resize_ok [OF inv] cap inv by (auto simp: h1_def time_heap_inv_def)
  let ?n = "cur_size h" and ?m = "hmem h" and ?q = "(array h1)[cur_size h := Some a]"
  have len: "length (array h1) = capacity h1" using h1(2) by (simp add: time_heap_inv_def)
  have "heap_except_up (slot_key ?m) ?q (Suc ?n) ?n"
    using h1 len by (intro heap_except_up_append) (auto simp: time_heap_inv_def)
  moreover have lv: "\<forall>i < Suc ?n. live ?m (?q ! i)"
    using h1 t len by (auto simp: time_heap_inv_def less_Suc_eq live_def)
  ultimately obtain arr where arr: "sift_up_loop ?m (array h1) ?n (Some a) = Inr arr"
    "th_sifted ?m 0 (Suc ?n) ?q arr"
    using sift_up_sifted [of ?m "array h1" ?n "Some a" "Suc ?n"] h1(6) len by auto
  have tq: "take (Suc ?n) ?q = take ?n (array h) @ [Some a]"
    using h1(6,7) len by (simp add: take_Suc_conv_app_nth)
  have d: "distinct (take (Suc ?n) ?q)" using tq new inv by (simp add: time_heap_inv_def)
  have "length ?q = capacity h1" using len by simp
  from th_invI [OF arr(2) lv d _ this] h1(6)
  have "time_heap_inv (h1\<lparr>array := arr, cur_size := Suc ?n\<rparr>)"
    "mset (take (Suc ?n) arr) = mset (take ?n (array h) @ [Some a])"
    using h1(4) tq by (simp_all add: time_heap_inv_def)
  moreover have "th_add_timer h (Some a) = Inr (h1\<lparr>array := arr, cur_size := Suc ?n\<rparr>)"
    using h1(1,4,5) arr(1) by (simp add: th_add_timer_def)
  ultimately show ?thesis using h1(4) t by (auto simp: th_elems_def timer_of_def)
qed



lemma th_del_timer_ok:
  assumes inv: "time_heap_inv h" and t: "hmem h a = Some t"
  shows "\<exists>h'. th_del_timer h (Some a) = Some h' \<and> time_heap_inv h' \<and>
    th_elems h' = image_mset (\<lambda>(b, u). (b, if b = a then u\<lparr>cb_func := False\<rparr> else u)) (th_elems h)"
proof -
  let ?m = "(hmem h)(a \<mapsto> t\<lparr>cb_func := False\<rparr>)"
  have k: "slot_key ?m p = slot_key (hmem h) p" for p
    using t by (auto simp: slot_key_def)
  have l: "live ?m p = live (hmem h) p" for p using t by (auto simp: live_def)
  have tm: "timer_of ?m p = (case timer_of (hmem h) p of (b, u) \<Rightarrow> (b, if b = a then u\<lparr>cb_func := False\<rparr> else u))" for p
    using t by (auto simp: timer_of_def)
  have "th_elems (h\<lparr>hmem := ?m\<rparr>)
      = image_mset (\<lambda>(b, u). (b, if b = a then u\<lparr>cb_func := False\<rparr> else u)) (th_elems h)"
    by (simp add: th_elems_def image_mset.compositionality comp_def) (intro image_mset_cong tm)
  moreover have "slot_key ?m = slot_key (hmem h)" using k by blast
  then have "time_heap_inv (h\<lparr>hmem := ?m\<rparr>)" using inv l by (simp add: time_heap_inv_def)
  ultimately show ?thesis using t by (auto simp: th_del_timer_def)
qed

text \<open>Removing the top of a non-empty heap.\<close>

definition th_top_elem :: "time_heap \<Rightarrow> (nat \<times> heap_timer) option" where
  "th_top_elem h = (if th_empty h then None else Some (timer_of (hmem h) (array h ! 0)))"

lemma th_elems_update_store:
  assumes "\<forall>p \<in> set ps. the p \<noteq> a"
  shows "image_mset (timer_of (m(a := v))) (mset ps) = image_mset (timer_of m) (mset ps)"
  using assms by (intro image_mset_cong) (auto simp: timer_of_def)

lemma pop_timer_ok:
  assumes inv: "time_heap_inv h" and ne: "th_top_elem h = Some (a, t)"
  shows "\<exists>h'. pop_timer h = Some h' \<and> time_heap_inv h' \<and> th_elems h' = th_elems h - {#(a, t)#} \<and>
    cur_size h' = cur_size h - 1 \<and> capacity h' = capacity h \<and> hmem h' = (hmem h)(a := None)"
proof -
  define n where "n = cur_size h - 1"
  have n: "cur_size h = Suc n" "n < length (array h)"
    using ne inv by (auto simp: n_def th_top_elem_def th_empty_def time_heap_inv_def split: if_splits)
  have len: "length (array h) = capacity h" and d: "distinct (take (Suc n) (array h))"
    and lv: "\<And>i. i < Suc n \<Longrightarrow> live (hmem h) (array h ! i)"
    and hu: "heap_upto (slot_key (hmem h)) (array h) (Suc n)"
    using inv n by (auto simp: time_heap_inv_def)
  have a: "array h ! 0 = Some a" "hmem h a = Some t"
    using ne lv [of 0] by (auto simp: th_top_elem_def timer_of_def live_def split: if_splits)
  let ?m = "(hmem h)(a := None)" and ?l = "array h ! n"
  let ?q = "(array h)[0 := ?l]"
  have ne_a: "array h ! i \<noteq> Some a" if "0 < i" "i < Suc n" for i
    using nth_eq_iff_index_eq [OF d, of i 0] that n a by auto
  have lvm: "live ?m (array h ! i)" "slot_key ?m (array h ! i) = slot_key (hmem h) (array h ! i)"
    if "0 < i" "i < Suc n" for i
    using lv [OF that(2)] ne_a [OF that] by (auto simp: live_def slot_key_def)
  have lq: "\<forall>i < n. live ?m (?q ! i)"
  proof (intro allI impI)
    fix i assume "i < n"
    moreover have "array h \<noteq> []" using n by auto
    ultimately show "live ?m (?q ! i)" using lvm(1) [of i] lvm(1) [of n] by (cases "i = 0") auto
  qed
  have tn: "take (Suc n) (array h) = Some a # tl (take (Suc n) (array h))"
    using a n by (cases "array h") auto
  have mq: "mset (take n ?q) = mset (tl (take (Suc n) (array h)))"
  proof (cases n)
    case (Suc k)
    then obtain x xs where "array h = x # xs" using n by (cases "array h") auto
    then show ?thesis using Suc n(2) by (simp add: take_Suc_conv_app_nth)
  qed (use n in \<open>auto simp: take_Suc neq_Nil_conv\<close>)
  have dq: "distinct (take n ?q)" using distinct_mset_eq [OF mq] d tn by (metis distinct.simps(2))
  have "\<exists>arr. percolate_down ?m n ?q 0 = Some arr \<and> th_sifted ?m 0 n ?q arr"
  proof (cases "n = 0")
    case True
    then show ?thesis using n by (simp add: percolate_down_def aread_def percolate_loop.simps
          awrite_def th_sifted_def heap_from_def)
  next
    case False
    have "heap_upto (slot_key ?m) ((array h)[0 := ?l]) 0" by (simp add: heap_upto_def)
    have "heap_from (Suc 0) (slot_key ?m) ?q n"
      unfolding heap_from_def
    proof (intro allI impI)
      fix i assume i: "0 < i \<and> i < n \<and> Suc 0 \<le> par i"
      then have "0 < par i" "par i < n" by (auto simp: par_less_le)
      with i show "slot_key ?m (?q ! par i) \<le> slot_key ?m (?q ! i)"
        using heap_uptoD [OF hu, of i] lvm [of i] lvm [of "par i"] by simp
    qed
    from percolate_down_sifted [OF heap_from_extend [OF this] lq] False n show ?thesis by auto
  qed
  then obtain arr where arr: "percolate_down ?m n ?q 0 = Some arr" "th_sifted ?m 0 n ?q arr" by blast
  have "length ?q = capacity h" using len by simp
  from th_invI [OF arr(2) lq dq _ this] n len
  have inv': "time_heap_inv (h\<lparr>hmem := ?m, array := arr, cur_size := n\<rparr>)"
    and me: "mset (take n arr) = mset (tl (take (Suc n) (array h)))"
    using mq by (simp_all add: time_heap_inv_def)
  have pop: "pop_timer h = Some (h\<lparr>hmem := ?m, array := arr, cur_size := n\<rparr>)"
    using a arr(1) n by (auto simp: pop_timer_def th_empty_def aread_def)
  have "\<forall>p \<in> set (tl (take (Suc n) (array h))). the p \<noteq> a"
  proof
    fix p assume p: "p \<in> set (tl (take (Suc n) (array h)))"
    then have "p \<noteq> Some a" using d tn by (metis distinct.simps(2))
    moreover have "p \<in> set (take (Suc n) (array h))" using p by (rule list.set_sel(2) [rotated]) (use tn in auto)
    then have "live (hmem h) p" using lv n by (auto simp: in_set_conv_nth)
    ultimately show "the p \<noteq> a" by (auto simp: live_def)
  qed
  then have "th_elems (h\<lparr>hmem := ?m, array := arr, cur_size := n\<rparr>)
      = image_mset (timer_of (hmem h)) (mset (tl (take (Suc n) (array h))))"
    using me by (simp add: th_elems_def th_elems_update_store)
  moreover have "th_elems h = add_mset (a, t) \<dots>"
    using a by (simp add: th_elems_def n(1), subst tn) (simp add: timer_of_def)
  ultimately show ?thesis using pop inv' n_def by simp
qed

section \<open>Ticking\<close>

lemma th_top_elem_in:
  assumes inv: "time_heap_inv h" and t: "th_top_elem h = Some e"
  shows "e \<in># th_elems h" "x \<in># th_elems h \<Longrightarrow> expire (snd e) \<le> expire (snd x)"
proof -
  have n: "0 < cur_size h" "cur_size h \<le> length (array h)" and e: "e = timer_of (hmem h) (array h ! 0)"
    using assms by (auto simp: th_top_elem_def th_empty_def time_heap_inv_def split: if_splits)
  then have "array h ! 0 \<in> set (take (cur_size h) (array h))"
    by (auto simp: in_set_conv_nth intro!: exI [of _ 0])
  then show "e \<in># th_elems h" using e by (simp add: th_elems_def)
  assume "x \<in># th_elems h"
  then obtain i where i: "i < cur_size h" "x = timer_of (hmem h) (array h ! i)"
    using n by (auto simp: th_elems_def in_set_conv_nth)
  have "slot_key (hmem h) (array h ! 0) \<le> slot_key (hmem h) (array h ! i)"
    using inv i(1) by (intro heap_root_least) (auto simp: time_heap_inv_def)
  then show "expire (snd e) \<le> expire (snd x)" using e i by (simp add: timer_of_def slot_key_def)
qed

text \<open>The heap keeps the promises of a timer queue, so that a tick drains it up to the current time.\<close>

interpretation th: timer_queue time_heap_inv th_elems "\<lambda>e. expire (snd e)" th_top_elem
  "\<lambda>h. the (pop_timer h)"
proof
  fix h e x
  assume inv: "time_heap_inv h"
  show "(th_top_elem h = None) = (th_elems h = {#})"
    using inv by (auto simp: th_top_elem_def th_empty_def th_elems_def time_heap_inv_def)
  assume t: "th_top_elem h = Some e"
  obtain a u where e: "e = (a, u)" by fastforce
  show "e \<in># th_elems h" using th_top_elem_in(1) [OF inv t] .
  show "expire (snd e) \<le> expire (snd x)" if "x \<in># th_elems h" using th_top_elem_in(2) [OF inv t that] .
  show "th_elems (the (pop_timer h)) = th_elems h - {#e#}" "time_heap_inv (the (pop_timer h))"
    using pop_timer_ok [OF inv] t e by fastforce+
qed

definition fired_data :: "(nat \<times> heap_timer) list \<Rightarrow> nat list" where
  "fired_data es = concat (map (\<lambda>e. if cb_func (snd e) then [user_data (snd e)] else []) es)"

lemma fired_data_simps [simp]:
  "fired_data [] = []"
  "fired_data (e # es) = (if cb_func (snd e) then [user_data (snd e)] else []) @ fired_data es"
  by (simp_all add: fired_data_def)

lemma th_tick_loop_drain:
  assumes "time_heap_inv h" "cur_size h \<le> k" "0 < capacity h"
    "drain th_top_elem (\<lambda>h. the (pop_timer h)) (\<lambda>e. expire (snd e) \<le> cur) k h = (es, h')"
  shows "th_tick_loop cur h = Some (fired_data es, h')"
  using assms
proof (induction k arbitrary: h es)
  case 0
  then show ?case
    by (subst th_tick_loop.simps) (auto simp: th_empty_def time_heap_inv_def aread_def)
next
  case (Suc k)
  have rd: "aread (array h) 0 = Some (array h ! 0)"
    using Suc.prems(1,3) by (simp add: aread_def time_heap_inv_def)
  show ?case
  proof (cases "th_empty h")
    case True
    then show ?thesis using Suc.prems(4) rd
      by (subst th_tick_loop.simps) (simp add: th_top_elem_def)
  next
    case False
    then have "live (hmem h) (array h ! 0)" using Suc.prems(1) by (auto simp: th_empty_def time_heap_inv_def)
    then obtain a t where a: "array h ! 0 = Some a" "hmem h a = Some t" by (auto simp: live_def)
    then have tp: "th_top_elem h = Some (a, t)" using False by (simp add: th_top_elem_def timer_of_def)
    from pop_timer_ok [OF Suc.prems(1) tp] obtain h1 where h1: "pop_timer h = Some h1"
      "time_heap_inv h1" "cur_size h1 = cur_size h - 1" "capacity h1 = capacity h" by blast
    show ?thesis
    proof (cases "expire t \<le> cur")
      case False
      then show ?thesis using Suc.prems(4) rd a tp \<open>\<not> th_empty h\<close>
        by (subst th_tick_loop.simps) simp
    next
      case True
      with Suc.prems(4) tp h1(1) obtain es1 where es1: "es = (a, t) # es1"
        "drain th_top_elem (\<lambda>h. the (pop_timer h)) (\<lambda>e. expire (snd e) \<le> cur) k h1 = (es1, h')"
        by (auto split: prod.splits)
      from Suc.IH [OF h1(2) _ _ es1(2)] h1(3,4) Suc.prems(2,3)
      have "th_tick_loop cur h1 = Some (fired_data es1, h')" by simp
      then show ?thesis using True rd a h1(1) es1(1) \<open>\<not> th_empty h\<close>
        by (subst th_tick_loop.simps) simp
    qed
  qed
qed

lemma th_tick_ok:
  assumes inv: "time_heap_inv h" and cap: "0 < capacity h"
  shows "\<exists>es h'. th_tick cur h = Some (fired_data es, h') \<and> time_heap_inv h' \<and>
    mset es = filter_mset (\<lambda>e. expire (snd e) \<le> cur) (th_elems h) \<and>
    sorted (map (\<lambda>e. expire (snd e)) es) \<and>
    th_elems h' = filter_mset (\<lambda>e. \<not> expire (snd e) \<le> cur) (th_elems h)"
proof -
  obtain es h' where d: "drain th_top_elem (\<lambda>h. the (pop_timer h)) (\<lambda>e. expire (snd e) \<le> cur)
      (cur_size h) h = (es, h')" by fastforce
  have "size (th_elems h) \<le> cur_size h" by (simp add: th_elems_def)
  from th.drain_due [OF inv this d] th_tick_loop_drain [OF inv _ cap d] show ?thesis
    unfolding th_tick_def by auto
qed

section \<open>Destruction\<close>

lemma delete_all_ok:
  assumes "\<forall>p \<in> set ps. live m p" "distinct ps"
  shows "delete_all m ps = Some (m |` (- {a. Some a \<in> set ps}))"
  using assms
proof (induction ps arbitrary: m)
  case (Cons p ps)
  then obtain a where a: "p = Some a" "a \<in> dom m" by (auto simp: live_def)
  have "\<forall>q \<in> set ps. live (m(a := None)) q" using Cons.prems a by (fastforce simp: live_def)
  from Cons.IH [of "m(a := None)", OF this] Cons.prems(2)
  have "delete_all (m(a := None)) ps = Some ((m(a := None)) |` (- {b. Some b \<in> set ps}))"
    by (simp only: distinct.simps)
  also have "(m(a := None)) |` (- {b. Some b \<in> set ps}) = m |` (- {b. Some b \<in> set (p # ps)})"
    using a by (auto simp: restrict_map_def fun_eq_iff)
  finally show ?case using a by (simp add: fun_upd_def)
qed (simp add: restrict_map_def)

lemma destroy_time_heap_ok:
  assumes "time_heap_inv h"
  shows "destroy_time_heap h = Some (hmem h |` (- {a. Some a \<in> set (take (cur_size h) (array h))}))"
proof -
  have "\<forall>p \<in> set (take (cur_size h) (array h)). live (hmem h) p"
    using assms by (auto simp: time_heap_inv_def in_set_conv_nth)
  from delete_all_ok [OF this] assms show ?thesis by (simp add: destroy_time_heap_def time_heap_inv_def)
qed

section \<open>Properties\<close>

definition sample_timers :: timer_store where
  "sample_timers = [1 \<mapsto> \<lparr>expire = 30, cb_func = True, user_data = 100\<rparr>,
     2 \<mapsto> \<lparr>expire = 10, cb_func = True, user_data = 200\<rparr>,
     3 \<mapsto> \<lparr>expire = 20, cb_func = False, user_data = 300\<rparr>]"

text \<open>
  The constructor from an array makes a heap of any array of distinct live timers, in any order,
  within the given capacity.
\<close>

theorem time_heap_of_array_heapifies:
  assumes "sz \<le> cap" "sz \<le> length ps" "\<forall>i < sz. live m (ps ! i)" "distinct (take sz ps)"
  shows "\<exists>h. time_heap_of_array m ps sz cap = Inr h \<and> time_heap_inv h \<and> hmem h = m \<and>
    capacity h = cap \<and> cur_size h = sz \<and> mset (take sz (array h)) = mset (take sz ps)"
  using th_of_array_ok [OF assms] .

theorem time_heap_of_array_heapifies_witness:
  "\<exists>h. time_heap_of_array sample_timers [Some 1, Some 2, Some 3] 3 4 = Inr h \<and> time_heap_inv h \<and>
    capacity h = 4 \<and> mset (take 3 (array h)) = {#Some 1, Some 2, Some 3#}"
proof -
  have "\<forall>i < 3. live sample_timers ([Some 1, Some 2, Some 3] ! i)"
    by (auto simp: live_def sample_timers_def less_Suc_eq numeral_3_eq_3)
  with time_heap_of_array_heapifies [of 3 4 "[Some 1, Some 2, Some 3]" sample_timers] show ?thesis by auto
qed

text \<open>
  Adding a timer to a heap of positive capacity succeeds, doubling a full array when the doubled
  capacity fits an \<^verbatim>\<open>int\<close>, and the heap holds exactly one timer more.
\<close>

theorem time_heap_add_timer:
  assumes "time_heap_inv h" "hmem h a = Some t" "Some a \<notin> set (take (cur_size h) (array h))"
    "cur_size h < capacity h \<or> 0 < capacity h \<and> int (2 * capacity h) \<le> INT_MAX"
  shows "\<exists>h'. th_add_timer h (Some a) = Inr h' \<and> time_heap_inv h' \<and>
    th_elems h' = add_mset (a, t) (th_elems h) \<and> hmem h' = hmem h"
  using th_add_timer_ok [OF assms] .

definition sample_th :: time_heap where
  "sample_th = \<lparr>hmem = sample_timers, array = [Some 2], capacity = 1, cur_size = 1\<rparr>"

lemma sample_th_inv: "time_heap_inv sample_th"
  by (auto simp: time_heap_inv_def sample_th_def sample_timers_def live_def heap_upto_def)

theorem time_heap_add_timer_witness:
  "\<exists>h'. th_add_timer sample_th (Some 1) = Inr h' \<and> time_heap_inv h' \<and>
    th_elems h' = add_mset (1, \<lparr>expire = 30, cb_func = True, user_data = 100\<rparr>) (th_elems sample_th)"
  using time_heap_add_timer [OF sample_th_inv, of 1 "\<lparr>expire = 30, cb_func = True, user_data = 100\<rparr>"]
  by (auto simp: sample_th_def sample_timers_def INT_MAX_def)




text \<open>
  C14. A tick ends and runs the callbacks of exactly the timers that are due, earliest first; timers
  whose callback was cleared by \<^verbatim>\<open>del_timer\<close> are removed without a call.
\<close>

theorem time_heap_tick_fires_due:
  assumes "time_heap_inv h" "0 < capacity h"
  shows "\<exists>es h'. th_tick cur h = Some (fired_data es, h') \<and> time_heap_inv h' \<and>
    mset es = filter_mset (\<lambda>e. expire (snd e) \<le> cur) (th_elems h) \<and>
    sorted (map (\<lambda>e. expire (snd e)) es) \<and>
    th_elems h' = filter_mset (\<lambda>e. \<not> expire (snd e) \<le> cur) (th_elems h)"
  using th_tick_ok [OF assms] .

theorem time_heap_tick_fires_due_witness: "\<exists>h'. th_tick 15 sample_th = Some ([200], h') \<and> th_elems h' = {#}"
proof -
  have e: "th_elems sample_th = {#(2, \<lparr>expire = 10, cb_func = True, user_data = 200\<rparr>)#}"
    by (simp add: th_elems_def timer_of_def sample_th_def sample_timers_def)
  have "0 < capacity sample_th" by (simp add: sample_th_def)
  from time_heap_tick_fires_due [OF sample_th_inv this, of 15] e show ?thesis by auto
qed

end
