(* ===== verification/Evbuffer.thy ===== *)
theory Evbuffer
  imports Event_Prelude "HOL-Library.Monad_Syntax"
begin

text \<open>
  The chained byte buffer of \<^verbatim>\<open>src/buffer.c\<close>. The linked list of chains is a list; the pointer
  \<^verbatim>\<open>last_with_datap\<close> is the index of the chain it leads to (0 for \<^verbatim>\<open>&buf->first\<close>), and
  \<^verbatim>\<open>last\<close> is the last element of the list. A chain keeps its whole memory block, so that
  every \<^verbatim>\<open>memcpy\<close> is checked against its bounds: an operation is \<open>None\<close> when it writes or reads
  outside a block, follows a null pointer or fails an \<^verbatim>\<open>EVUTIL_ASSERT\<close>. The allocator is the
  argument \<open>ok\<close>, which answers for each request size whether \<^verbatim>\<open>mm_malloc\<close> serves it. Callbacks
  are opaque: what each of them is told is appended to \<open>cb_log\<close>. Locks and reference counts are
  not modelled: a chain has one owner, and freeing it removes it.
\<close>

section \<open>Chains\<close>

record evbuffer_chain =
  cbuf :: "u8 list"
  misalign :: nat
  off :: nat
  cflags :: u32

definition EVBUFFER_IMMUTABLE :: u32 where "EVBUFFER_IMMUTABLE = 0x0008"
definition EVBUFFER_MEM_PINNED_R :: u32 where "EVBUFFER_MEM_PINNED_R = 0x0010"
definition EVBUFFER_MEM_PINNED_W :: u32 where "EVBUFFER_MEM_PINNED_W = 0x0020"
definition EVBUFFER_CHAIN_MAX :: nat where "EVBUFFER_CHAIN_MAX = 9223372036854775807"
definition EVBUFFER_CHAIN_SIZE :: nat where "EVBUFFER_CHAIN_SIZE = 48"
definition MIN_BUFFER_SIZE :: nat where "MIN_BUFFER_SIZE = 1024"
definition EVBUFFER_CHAIN_MAX_AUTO_SIZE :: nat where "EVBUFFER_CHAIN_MAX_AUTO_SIZE = 4096"
definition MAX_TO_COPY_IN_EXPAND :: nat where "MAX_TO_COPY_IN_EXPAND = 4096"
definition MAX_TO_REALIGN_IN_EXPAND :: nat where "MAX_TO_REALIGN_IN_EXPAND = 2048"

definition immutable :: "evbuffer_chain \<Rightarrow> bool" where
  "immutable c \<longleftrightarrow> cflags c AND EVBUFFER_IMMUTABLE \<noteq> 0"

definition CHAIN_PINNED :: "evbuffer_chain \<Rightarrow> bool" where
  "CHAIN_PINNED c \<longleftrightarrow> cflags c AND (EVBUFFER_MEM_PINNED_R OR EVBUFFER_MEM_PINNED_W) \<noteq> 0"

definition CHAIN_PINNED_R :: "evbuffer_chain \<Rightarrow> bool" where
  "CHAIN_PINNED_R c \<longleftrightarrow> cflags c AND EVBUFFER_MEM_PINNED_R \<noteq> 0"

abbreviation buffer_len :: "evbuffer_chain \<Rightarrow> nat" where
  "buffer_len c \<equiv> length (cbuf c)"

definition CHAIN_SPACE_LEN :: "evbuffer_chain \<Rightarrow> nat" where
  "CHAIN_SPACE_LEN c = (if immutable c then 0 else buffer_len c - (misalign c + off c))"

text \<open>The data a chain holds.\<close>

definition cdata :: "evbuffer_chain \<Rightarrow> u8 list" where
  "cdata c = take (off c) (drop (misalign c) (cbuf c))"

definition memcpy :: "u8 list \<Rightarrow> nat \<Rightarrow> u8 list \<Rightarrow> u8 list option" where
  "memcpy dst pos src =
     (if pos + length src \<le> length dst
      then Some (take pos dst @ src @ drop (pos + length src) dst) else None)"

function round_alloc :: "nat \<Rightarrow> nat \<Rightarrow> nat" where
  "round_alloc to_alloc sz = (if 0 < to_alloc \<and> to_alloc < sz then round_alloc (to_alloc * 2) sz else to_alloc)"
  by pat_completeness auto
termination
  by (relation "measure (\<lambda>(a, s). s - a)") auto

declare round_alloc.simps [simp del]

text \<open>Fresh memory is indeterminate; no operation reads it before writing it, and the model fills it with 0.\<close>

definition evbuffer_chain_new :: "(nat \<Rightarrow> bool) \<Rightarrow> nat \<Rightarrow> evbuffer_chain option" where
  "evbuffer_chain_new ok sz =
     (if sz > EVBUFFER_CHAIN_MAX - EVBUFFER_CHAIN_SIZE then None
      else
        (let sz1 = sz + EVBUFFER_CHAIN_SIZE;
             to_alloc = (if sz1 < EVBUFFER_CHAIN_MAX div 2 then round_alloc MIN_BUFFER_SIZE sz1 else sz1)
         in if ok to_alloc
            then Some \<lparr>cbuf = replicate (to_alloc - EVBUFFER_CHAIN_SIZE) 0, misalign = 0, off = 0, cflags = 0\<rparr>
            else None))"

definition evbuffer_chain_align :: "evbuffer_chain \<Rightarrow> evbuffer_chain option" where
  "evbuffer_chain_align c =
     (if immutable c \<or> CHAIN_PINNED c then None
      else do { b \<leftarrow> memcpy (cbuf c) 0 (cdata c); Some (c\<lparr>cbuf := b, misalign := 0\<rparr>) })"

definition evbuffer_chain_should_realign :: "evbuffer_chain \<Rightarrow> nat \<Rightarrow> bool" where
  "evbuffer_chain_should_realign c datlen \<longleftrightarrow>
     buffer_len c - off c \<ge> datlen \<and> off c < buffer_len c div 2 \<and> off c \<le> MAX_TO_REALIGN_IN_EXPAND"

definition evbuffer_chain_pin :: "evbuffer_chain \<Rightarrow> u32 \<Rightarrow> evbuffer_chain option" where
  "evbuffer_chain_pin c flag = (if cflags c AND flag = 0 then Some (c\<lparr>cflags := cflags c OR flag\<rparr>) else None)"

section \<open>Buffers and their callbacks\<close>

record cb_entry =
  cb_id :: nat
  cb_flags :: u32

definition EVBUFFER_CB_ENABLED :: u32 where "EVBUFFER_CB_ENABLED = 1"
definition EVBUFFER_CB_NODEFER :: u32 where "EVBUFFER_CB_NODEFER = 2"

record cb_info =
  ci_id :: nat
  orig_size :: nat
  n_added :: nat
  n_deleted :: nat

record evbuffer =
  chains :: "evbuffer_chain list"
  last_with_data :: nat
  total_len :: nat
  n_add_for_cb :: nat
  n_del_for_cb :: nat
  freeze_start :: bool
  freeze_end :: bool
  deferred_cbs :: bool
  deferred_scheduled :: bool
  callbacks :: "cb_entry list"
  cb_log :: "cb_info list"

definition evbuffer_new :: evbuffer where
  "evbuffer_new = \<lparr>chains = [], last_with_data = 0, total_len = 0, n_add_for_cb = 0, n_del_for_cb = 0,
     freeze_start = False, freeze_end = False, deferred_cbs = False, deferred_scheduled = False,
     callbacks = [], cb_log = []\<rparr>"

definition evbuffer_get_length :: "evbuffer \<Rightarrow> nat" where
  "evbuffer_get_length b = total_len b"

definition evbuffer_get_contiguous_space :: "evbuffer \<Rightarrow> nat" where
  "evbuffer_get_contiguous_space b = (case chains b of [] \<Rightarrow> 0 | c # _ \<Rightarrow> off c)"

definition evbuffer_run_callbacks :: "evbuffer \<Rightarrow> bool \<Rightarrow> evbuffer" where
  "evbuffer_run_callbacks b running_deferred =
     (let (mask, masked_val, clear) =
        (if running_deferred then (EVBUFFER_CB_NODEFER OR EVBUFFER_CB_ENABLED, EVBUFFER_CB_ENABLED, True)
         else if deferred_cbs b then (EVBUFFER_CB_NODEFER OR EVBUFFER_CB_ENABLED,
                                      EVBUFFER_CB_NODEFER OR EVBUFFER_CB_ENABLED, False)
         else (EVBUFFER_CB_ENABLED, EVBUFFER_CB_ENABLED, True))
      in if callbacks b = [] then b\<lparr>n_add_for_cb := 0, n_del_for_cb := 0\<rparr>
         else if n_add_for_cb b = 0 \<and> n_del_for_cb b = 0 then b
         else
           (let osize = nat ((int (total_len b) + int (n_del_for_cb b) - int (n_add_for_cb b)) mod 2 ^ 64);
                called = filter (\<lambda>e. cb_flags e AND mask = masked_val) (callbacks b);
                calls = map (\<lambda>e. \<lparr>ci_id = cb_id e, orig_size = osize, n_added = n_add_for_cb b,
                                 n_deleted = n_del_for_cb b\<rparr>) called;
                b1 = (if clear then b\<lparr>n_add_for_cb := 0, n_del_for_cb := 0\<rparr> else b)
            in b1\<lparr>cb_log := cb_log b1 @ calls\<rparr>))"

definition evbuffer_invoke_callbacks :: "evbuffer \<Rightarrow> evbuffer" where
  "evbuffer_invoke_callbacks b =
     (if callbacks b = [] then b\<lparr>n_add_for_cb := 0, n_del_for_cb := 0\<rparr>
      else evbuffer_run_callbacks (if deferred_cbs b then b\<lparr>deferred_scheduled := True\<rparr> else b) False)"

definition evbuffer_deferred_callback :: "evbuffer \<Rightarrow> evbuffer" where
  "evbuffer_deferred_callback b = (evbuffer_run_callbacks b True)\<lparr>deferred_scheduled := False\<rparr>"

definition evbuffer_add_cb :: "evbuffer \<Rightarrow> nat \<Rightarrow> evbuffer" where
  "evbuffer_add_cb b cb = b\<lparr>callbacks := \<lparr>cb_id = cb, cb_flags = EVBUFFER_CB_ENABLED\<rparr> # callbacks b\<rparr>"

fun remove_first_cb :: "nat \<Rightarrow> cb_entry list \<Rightarrow> cb_entry list option" where
  "remove_first_cb cb [] = None"
| "remove_first_cb cb (e # es) = (if cb = cb_id e then Some es else map_option ((#) e) (remove_first_cb cb es))"

definition evbuffer_remove_cb :: "evbuffer \<Rightarrow> nat \<Rightarrow> int \<times> evbuffer" where
  "evbuffer_remove_cb b cb =
     (case remove_first_cb cb (callbacks b) of None \<Rightarrow> (-1, b) | Some es \<Rightarrow> (0, b\<lparr>callbacks := es\<rparr>))"

definition evbuffer_freeze :: "evbuffer \<Rightarrow> bool \<Rightarrow> evbuffer" where
  "evbuffer_freeze b start = (if start then b\<lparr>freeze_start := True\<rparr> else b\<lparr>freeze_end := True\<rparr>)"

definition evbuffer_unfreeze :: "evbuffer \<Rightarrow> bool \<Rightarrow> evbuffer" where
  "evbuffer_unfreeze b start = (if start then b\<lparr>freeze_start := False\<rparr> else b\<lparr>freeze_end := False\<rparr>)"

section \<open>Appending and prepending\<close>

definition evbuffer_chains_all_empty :: "evbuffer_chain list \<Rightarrow> bool" where
  "evbuffer_chains_all_empty cs \<longleftrightarrow> (\<forall>c \<in> set cs. off c = 0)"

text \<open>The number of chains that stay in front of the first victim.\<close>

fun trailing_pos :: "evbuffer_chain list \<Rightarrow> nat" where
  "trailing_pos [] = 0"
| "trailing_pos (c # cs) = (if off c \<noteq> 0 \<or> CHAIN_PINNED c then Suc (trailing_pos cs) else 0)"

definition evbuffer_free_trailing_empty_chains :: "evbuffer \<Rightarrow> (nat \<times> evbuffer) option" where
  "evbuffer_free_trailing_empty_chains b =
     (let p = last_with_data b + trailing_pos (drop (last_with_data b) (chains b)) in
      if evbuffer_chains_all_empty (drop p (chains b))
      then Some (p, b\<lparr>chains := take p (chains b)\<rparr>) else None)"

definition evbuffer_chain_insert :: "evbuffer \<Rightarrow> evbuffer_chain \<Rightarrow> evbuffer option" where
  "evbuffer_chain_insert b c =
     (if last_with_data b \<ge> length (chains b) then
        (if last_with_data b = 0 \<and> chains b = []
         then Some (b\<lparr>chains := [c], total_len := total_len b + off c\<rparr>) else None)
      else do {
        (p, b1) \<leftarrow> evbuffer_free_trailing_empty_chains b;
        Some (b1\<lparr>chains := chains b1 @ [c],
                last_with_data := (if off c \<noteq> 0 then p else last_with_data b1),
                total_len := total_len b1 + off c\<rparr>) })"

definition add_bytes :: "evbuffer \<Rightarrow> nat \<Rightarrow> evbuffer_chain \<Rightarrow> nat \<Rightarrow> evbuffer" where
  "add_bytes b i c k = b\<lparr>chains := (chains b)[i := c\<lparr>off := off c + k\<rparr>],
     total_len := total_len b + k, n_add_for_cb := n_add_for_cb b + k\<rparr>"

text \<open>
  The last part of \<^verbatim>\<open>evbuffer_add\<close>: a new chain takes what does not fit into the last one.
\<close>

definition evbuffer_add_chain ::
  "(nat \<Rightarrow> bool) \<Rightarrow> evbuffer \<Rightarrow> nat \<Rightarrow> evbuffer_chain \<Rightarrow> nat \<Rightarrow> u8 list \<Rightarrow> (int \<times> evbuffer) option" where
  "evbuffer_add_chain ok b i c remain data =
     (let datlen = length data;
          a0 = buffer_len c;
          a1 = (if a0 \<le> EVBUFFER_CHAIN_MAX_AUTO_SIZE div 2 then a0 * 2 else a0);
          to_alloc = (if datlen > a1 then datlen else a1)
      in case evbuffer_chain_new ok to_alloc of None \<Rightarrow> Some (-1, b)
         | Some tmp \<Rightarrow> do {
             b1 \<leftarrow> (if remain \<noteq> 0 then do {
                       nb \<leftarrow> memcpy (cbuf c) (misalign c + off c) (take remain data);
                       Some (add_bytes b i (c\<lparr>cbuf := nb\<rparr>) remain) }
                    else Some b);
             tb \<leftarrow> memcpy (cbuf tmp) 0 (drop remain data);
             b2 \<leftarrow> evbuffer_chain_insert b1 (tmp\<lparr>cbuf := tb, off := datlen - remain\<rparr>);
             Some (0, evbuffer_invoke_callbacks
                        (b2\<lparr>n_add_for_cb := n_add_for_cb b2 + (datlen - remain)\<rparr>)) })"

text \<open>If there are no chains in the buffer, allocate one big enough; \<open>Some None\<close> when that fails.\<close>

definition evbuffer_first_chain :: "(nat \<Rightarrow> bool) \<Rightarrow> evbuffer \<Rightarrow> nat \<Rightarrow> evbuffer option option" where
  "evbuffer_first_chain ok b datlen =
     (if chains b = [] then
        (case evbuffer_chain_new ok datlen of None \<Rightarrow> Some None
         | Some c \<Rightarrow> map_option Some (evbuffer_chain_insert b c))
      else Some (Some b))"

definition evbuffer_add :: "(nat \<Rightarrow> bool) \<Rightarrow> evbuffer \<Rightarrow> u8 list \<Rightarrow> (int \<times> evbuffer) option" where
  "evbuffer_add ok b data =
     (let datlen = length data in
      if freeze_end b then Some (-1, b)
      else if datlen > EV_SIZE_MAX - total_len b then Some (-1, b)
      else do {
        bo \<leftarrow> evbuffer_first_chain ok b datlen;
        (case bo of None \<Rightarrow> Some (-1, b)
         | Some b1 \<Rightarrow>
           (let i = last_with_data b1 in
            if i \<ge> length (chains b1) then None
            else
              (let c = chains b1 ! i in
               if \<not> immutable c then
                 (if misalign c > EVBUFFER_CHAIN_MAX \<or> misalign c + off c > buffer_len c then None
                  else
                    (let remain = buffer_len c - misalign c - off c in
                     if remain \<ge> datlen then do {
                       nb \<leftarrow> memcpy (cbuf c) (misalign c + off c) data;
                       Some (0, evbuffer_invoke_callbacks (add_bytes b1 i (c\<lparr>cbuf := nb\<rparr>) datlen)) }
                     else if \<not> CHAIN_PINNED c \<and> evbuffer_chain_should_realign c datlen then do {
                       c1 \<leftarrow> evbuffer_chain_align c;
                       nb \<leftarrow> memcpy (cbuf c1) (off c1) data;
                       Some (0, evbuffer_invoke_callbacks (add_bytes b1 i (c1\<lparr>cbuf := nb\<rparr>) datlen)) }
                     else evbuffer_add_chain ok b1 i c remain data))
               else evbuffer_add_chain ok b1 i c 0 data))) })"

text \<open>
  The last part of \<^verbatim>\<open>evbuffer_prepend\<close>: \<open>data\<close> is what did not fit in front of the first chain.
\<close>

definition evbuffer_prepend_chain ::
  "(nat \<Rightarrow> bool) \<Rightarrow> evbuffer \<Rightarrow> u8 list \<Rightarrow> (int \<times> evbuffer) option" where
  "evbuffer_prepend_chain ok b data =
     (let datlen = length data in
      case evbuffer_chain_new ok datlen of None \<Rightarrow> Some (-1, b)
      | Some tmp \<Rightarrow>
        (if datlen > buffer_len tmp then None
         else do {
           let m = buffer_len tmp - datlen;
           nb \<leftarrow> memcpy (cbuf tmp) m data;
           Some (0, evbuffer_invoke_callbacks
             (b\<lparr>chains := tmp\<lparr>cbuf := nb, off := datlen, misalign := m\<rparr> # chains b,
                last_with_data := (if last_with_data b = 0 then (if off (hd (chains b)) \<noteq> 0 then 1 else 0)
                                   else Suc (last_with_data b)),
                total_len := total_len b + datlen, n_add_for_cb := n_add_for_cb b + datlen\<rparr>)) }))"

definition evbuffer_prepend :: "(nat \<Rightarrow> bool) \<Rightarrow> evbuffer \<Rightarrow> u8 list \<Rightarrow> (int \<times> evbuffer) option" where
  "evbuffer_prepend ok b data =
     (let datlen = length data in
      if datlen = 0 then Some (0, b)
      else if freeze_start b then Some (-1, b)
      else if datlen > EV_SIZE_MAX - total_len b then Some (-1, b)
      else do {
        bo \<leftarrow> evbuffer_first_chain ok b datlen;
        (case bo of None \<Rightarrow> Some (-1, b)
         | Some b1 \<Rightarrow>
           (let c0 = hd (chains b1) in
            if \<not> immutable c0 then
              (if misalign c0 > EVBUFFER_CHAIN_MAX then None
               else
                 (let c = (if off c0 = 0 then c0\<lparr>misalign := buffer_len c0\<rparr> else c0);
                      b2 = b1\<lparr>chains := c # tl (chains b1)\<rparr>
                  in if misalign c \<ge> datlen then do {
                       nb \<leftarrow> memcpy (cbuf c) (misalign c - datlen) data;
                       Some (0, evbuffer_invoke_callbacks
                         (b2\<lparr>chains := c\<lparr>cbuf := nb, off := off c + datlen, misalign := misalign c - datlen\<rparr>
                                # tl (chains b2),
                            total_len := total_len b2 + datlen, n_add_for_cb := n_add_for_cb b2 + datlen\<rparr>)) }
                     else if misalign c \<noteq> 0 then do {
                       nb \<leftarrow> memcpy (cbuf c) 0 (drop (datlen - misalign c) data);
                       evbuffer_prepend_chain ok
                         (b2\<lparr>chains := c\<lparr>cbuf := nb, off := off c + misalign c, misalign := 0\<rparr> # tl (chains b2),
                            total_len := total_len b2 + misalign c,
                            n_add_for_cb := n_add_for_cb b2 + misalign c\<rparr>)
                         (take (datlen - misalign c) data) }
                     else evbuffer_prepend_chain ok b2 data))
            else evbuffer_prepend_chain ok b1 data)) })"

section \<open>Draining\<close>

definition HAS_PINNED_R :: "evbuffer \<Rightarrow> bool" where
  "HAS_PINNED_R b \<longleftrightarrow> chains b \<noteq> [] \<and> CHAIN_PINNED_R (last (chains b))"

definition ZERO_CHAIN :: "evbuffer \<Rightarrow> evbuffer" where
  "ZERO_CHAIN b = b\<lparr>chains := [], last_with_data := 0, total_len := 0\<rparr>"

fun drain_loop :: "evbuffer_chain list \<Rightarrow> nat \<Rightarrow> nat \<Rightarrow> (evbuffer_chain list \<times> nat \<times> nat) option" where
  "drain_loop [] lwd remaining = None"
| "drain_loop (c # cs) lwd remaining =
     (if remaining \<ge> off c then
        (if CHAIN_PINNED_R c then
           (if remaining - off c = 0
            then Some (c\<lparr>misalign := misalign c + off c, off := 0\<rparr> # cs, (if lwd \<le> 1 then 0 else lwd), 0)
            else None)
         else drain_loop cs (lwd - 1) (remaining - off c))
      else Some (c # cs, lwd, remaining))"

definition evbuffer_drain :: "evbuffer \<Rightarrow> nat \<Rightarrow> (int \<times> evbuffer) option" where
  "evbuffer_drain b len0 =
     (let old_len = total_len b in
      if old_len = 0 then Some (0, b)
      else if freeze_start b then Some (-1, b)
      else if len0 \<ge> old_len \<and> \<not> HAS_PINNED_R b then
        Some (0, evbuffer_invoke_callbacks ((ZERO_CHAIN b)\<lparr>n_del_for_cb := n_del_for_cb b + old_len\<rparr>))
      else
        (let len = (if len0 \<ge> old_len then old_len else len0) in
         case drain_loop (chains b) (last_with_data b) len of
           Some (c # cs, lwd, remaining) \<Rightarrow>
             (if remaining \<le> off c then
                Some (0, evbuffer_invoke_callbacks
                  (b\<lparr>chains := c\<lparr>misalign := misalign c + remaining, off := off c - remaining\<rparr> # cs,
                     last_with_data := lwd, total_len := old_len - len,
                     n_del_for_cb := n_del_for_cb b + len\<rparr>))
              else None)
         | _ \<Rightarrow> None))"

section \<open>Copying out\<close>

text \<open>A position: the offset in the buffer, the index of its chain and the offset in that chain.\<close>

text \<open>
  A position in a buffer: \<^verbatim>\<open>chain\<close> is the index of the chain, \<open>None\<close> for \<^verbatim>\<open>NULL\<close>. Computing the room
  above a negative position overflows a signed integer, which is \<open>None\<close> here.
\<close>

record evbuffer_ptr =
  ppos :: int
  pchain :: "nat option"
  pos_in_chain :: nat

fun copyout_loop :: "evbuffer_chain list \<Rightarrow> nat \<Rightarrow> nat \<Rightarrow> u8 list option" where
  "copyout_loop [] p datlen = (if datlen = 0 then Some [] else None)"
| "copyout_loop (c # cs) p datlen =
     (if datlen = 0 then Some []
      else if off c < p then None
      else if datlen \<ge> off c - p
        then map_option ((@) (drop p (cdata c))) (copyout_loop cs 0 (datlen - (off c - p)))
      else if datlen + p \<le> off c then Some (take datlen (drop p (cdata c))) else None)"

definition chains_at :: "evbuffer \<Rightarrow> nat option \<Rightarrow> evbuffer_chain list option" where
  "chains_at b ci = (case ci of None \<Rightarrow> Some [] | Some k \<Rightarrow> if k < length (chains b) then Some (drop k (chains b)) else None)"

definition evbuffer_copyout_from ::
  "evbuffer \<Rightarrow> evbuffer_ptr option \<Rightarrow> nat \<Rightarrow> (int \<times> u8 list) option" where
  "evbuffer_copyout_from b pos datlen0 = do {
     (bad, start, p, datlen) \<leftarrow>
        (case pos of
           Some p \<Rightarrow>
             if ppos p < 0 then None
             else do {
               cs \<leftarrow> chains_at b (pchain p);
               Some (int datlen0 > LONG_MAX - ppos p, cs, pos_in_chain p,
                 if int datlen0 + ppos p > int (total_len b) then c_size (int (total_len b) - ppos p) else datlen0) }
         | None \<Rightarrow> Some (False, chains b, 0, if datlen0 > total_len b then total_len b else datlen0));
     if bad then Some (-1, [])
     else if datlen = 0 then Some (0, [])
     else if freeze_start b then Some (-1, [])
     else map_option (\<lambda>bs. (int datlen, bs)) (copyout_loop start p datlen) }"

definition evbuffer_copyout :: "evbuffer \<Rightarrow> nat \<Rightarrow> (int \<times> u8 list) option" where
  "evbuffer_copyout b datlen = evbuffer_copyout_from b None datlen"

definition evbuffer_remove :: "evbuffer \<Rightarrow> nat \<Rightarrow> (int \<times> u8 list \<times> evbuffer) option" where
  "evbuffer_remove b datlen = do {
     (n, bs) \<leftarrow> evbuffer_copyout_from b None datlen;
     if n > 0 then do {
       (r, b1) \<leftarrow> evbuffer_drain b (nat n);
       Some (if r < 0 then -1 else c_int n, bs, b1) }
     else Some (c_int n, bs, b) }"

section \<open>Invariant and contents\<close>

text \<open>
  Chains are pinned only while overlapped I/O (\<^verbatim>\<open>src/buffer_iocp.c\<close>, on Windows) is under way; the
  invariant describes buffers outside such an operation.
\<close>

definition chain_ok :: "evbuffer_chain \<Rightarrow> bool" where
  "chain_ok c \<longleftrightarrow> misalign c + off c \<le> buffer_len c \<and>
     buffer_len c \<le> EVBUFFER_CHAIN_MAX - EVBUFFER_CHAIN_SIZE \<and> \<not> CHAIN_PINNED c"

lemma flags_update [simp]:
  "CHAIN_PINNED (c\<lparr>cbuf := x\<rparr>) = CHAIN_PINNED c" "CHAIN_PINNED (c\<lparr>misalign := m\<rparr>) = CHAIN_PINNED c"
  "CHAIN_PINNED (c\<lparr>off := k\<rparr>) = CHAIN_PINNED c"
  "immutable (c\<lparr>cbuf := x\<rparr>) = immutable c" "immutable (c\<lparr>misalign := m\<rparr>) = immutable c"
  "immutable (c\<lparr>off := k\<rparr>) = immutable c"
  by (simp_all add: CHAIN_PINNED_def immutable_def)

lemma chain_ok_unpinned [simp]: "chain_ok c \<Longrightarrow> \<not> CHAIN_PINNED c" "chain_ok c \<Longrightarrow> \<not> CHAIN_PINNED_R c"
  by (auto simp: chain_ok_def CHAIN_PINNED_def CHAIN_PINNED_R_def bit.conj_disj_distrib or_eq_0_iff)

definition lwd_ok :: "evbuffer_chain list \<Rightarrow> nat \<Rightarrow> bool" where
  "lwd_ok cs i \<longleftrightarrow> evbuffer_chains_all_empty (drop (Suc i) cs) \<and> (i = 0 \<or> i < length cs \<and> off (cs ! i) \<noteq> 0)"

definition evbuffer_ok :: "evbuffer \<Rightarrow> bool" where
  "evbuffer_ok b \<longleftrightarrow>
     (\<forall>c \<in> set (chains b). chain_ok c) \<and> total_len b = sum_list (map off (chains b)) \<and>
     total_len b \<le> EV_SIZE_MAX \<and> lwd_ok (chains b) (last_with_data b)"

definition cs_content :: "evbuffer_chain list \<Rightarrow> u8 list" where
  "cs_content cs = concat (map cdata cs)"

definition content :: "evbuffer \<Rightarrow> u8 list" where
  "content b = cs_content (chains b)"

lemma cs_content_simps [simp]:
  "cs_content [] = []" "cs_content (c # cs) = cdata c @ cs_content cs"
  "cs_content (cs @ ds) = cs_content cs @ cs_content ds"
  by (simp_all add: cs_content_def)

lemma length_cdata [simp]: "chain_ok c \<Longrightarrow> length (cdata c) = off c"
  by (auto simp: chain_ok_def cdata_def min_def)

lemma cdata_empty [simp]: "off c = 0 \<Longrightarrow> cdata c = []"
  by (simp add: cdata_def)

lemma length_cs_content: "\<forall>c \<in> set cs. chain_ok c \<Longrightarrow> length (cs_content cs) = sum_list (map off cs)"
  by (induction cs) auto

lemma length_content [simp]: "evbuffer_ok b \<Longrightarrow> length (content b) = total_len b"
  by (simp add: evbuffer_ok_def content_def length_cs_content)

lemma all_empty_content: "evbuffer_chains_all_empty cs \<Longrightarrow> cs_content cs = []"
  by (induction cs) (auto simp: evbuffer_chains_all_empty_def)

lemma all_empty_sum: "evbuffer_chains_all_empty cs \<Longrightarrow> sum_list (map off cs) = 0"
  by (induction cs) (auto simp: evbuffer_chains_all_empty_def)

lemma all_empty_drop: "evbuffer_chains_all_empty cs \<Longrightarrow> evbuffer_chains_all_empty (drop n cs)"
  by (auto simp: evbuffer_chains_all_empty_def dest: in_set_dropD)

lemma evbuffer_unpinned: "evbuffer_ok b \<Longrightarrow> \<not> HAS_PINNED_R b"
  by (auto simp: HAS_PINNED_R_def evbuffer_ok_def)

lemma evbuffer_new_ok: "evbuffer_ok evbuffer_new" "content evbuffer_new = []"
  by (simp_all add: evbuffer_ok_def evbuffer_new_def lwd_ok_def evbuffer_chains_all_empty_def content_def)

text \<open>Callbacks see the buffer but leave its bytes alone.\<close>

lemma run_callbacks_frame [simp]:
  "chains (evbuffer_run_callbacks b d) = chains b"
  "last_with_data (evbuffer_run_callbacks b d) = last_with_data b"
  "total_len (evbuffer_run_callbacks b d) = total_len b"
  "freeze_start (evbuffer_run_callbacks b d) = freeze_start b"
  "freeze_end (evbuffer_run_callbacks b d) = freeze_end b"
  "callbacks (evbuffer_run_callbacks b d) = callbacks b"
  "deferred_cbs (evbuffer_run_callbacks b d) = deferred_cbs b"
  by (simp_all add: evbuffer_run_callbacks_def Let_def)

lemma invoke_callbacks_frame [simp]:
  "chains (evbuffer_invoke_callbacks b) = chains b"
  "last_with_data (evbuffer_invoke_callbacks b) = last_with_data b"
  "total_len (evbuffer_invoke_callbacks b) = total_len b"
  "freeze_start (evbuffer_invoke_callbacks b) = freeze_start b"
  "freeze_end (evbuffer_invoke_callbacks b) = freeze_end b"
  "callbacks (evbuffer_invoke_callbacks b) = callbacks b"
  "deferred_cbs (evbuffer_invoke_callbacks b) = deferred_cbs b"
  "evbuffer_ok (evbuffer_invoke_callbacks b) = evbuffer_ok b"
  "content (evbuffer_invoke_callbacks b) = content b"
  by (simp_all add: evbuffer_invoke_callbacks_def evbuffer_ok_def content_def)

section \<open>Memory\<close>

lemma memcpy_Some:
  "pos + length src \<le> length dst \<Longrightarrow>
   memcpy dst pos src = Some (take pos dst @ src @ drop (pos + length src) dst)"
  by (simp add: memcpy_def)

lemma round_alloc_bounds: "0 < a \<Longrightarrow> s \<le> round_alloc a s \<and> a \<le> round_alloc a s \<and> round_alloc a s \<le> max a (2 * s)"
proof (induction a s rule: round_alloc.induct)
  case (1 a s)
  show ?case
  proof (cases "a < s")
    case True
    then have "round_alloc a s = round_alloc (a * 2) s" using 1(2) by (subst round_alloc.simps) simp
    with 1(1) 1(2) True show ?thesis by auto
  next
    case False
    then have "round_alloc a s = a" by (subst round_alloc.simps) simp
    with False show ?thesis by simp
  qed
qed

lemma evbuffer_chain_new_ok:
  assumes "evbuffer_chain_new ok sz = Some c"
  shows "sz \<le> buffer_len c" "chain_ok c" "off c = 0" "misalign c = 0" "cflags c = 0"
proof -
  let ?s = "sz + EVBUFFER_CHAIN_SIZE"
  define a where "a = (if ?s < EVBUFFER_CHAIN_MAX div 2 then round_alloc MIN_BUFFER_SIZE ?s else ?s)"
  have c: "c = \<lparr>cbuf = replicate (a - EVBUFFER_CHAIN_SIZE) 0, misalign = 0, off = 0, cflags = 0\<rparr>"
    and sz: "sz \<le> EVBUFFER_CHAIN_MAX - EVBUFFER_CHAIN_SIZE"
    using assms by (auto simp: evbuffer_chain_new_def a_def Let_def split: if_splits)
  have a: "?s \<le> a" "a \<le> EVBUFFER_CHAIN_MAX"
    using round_alloc_bounds [of MIN_BUFFER_SIZE ?s] sz
    by (auto simp: a_def MIN_BUFFER_SIZE_def EVBUFFER_CHAIN_MAX_def EVBUFFER_CHAIN_SIZE_def)
  show "sz \<le> buffer_len c" "chain_ok c" "off c = 0" "misalign c = 0" "cflags c = 0"
    using c a diff_le_mono [OF a(2), of EVBUFFER_CHAIN_SIZE] by (auto simp: chain_ok_def CHAIN_PINNED_def)
qed

lemma new_chain_mutable: "cflags c = 0 \<Longrightarrow> \<not> immutable c \<and> \<not> CHAIN_PINNED c \<and> \<not> CHAIN_PINNED_R c"
  by (simp add: immutable_def CHAIN_PINNED_def CHAIN_PINNED_R_def)

text \<open>Writing behind the data of a chain.\<close>

lemma chain_append:
  assumes "chain_ok c" "misalign c + off c + length data \<le> buffer_len c"
    "memcpy (cbuf c) (misalign c + off c) data = Some nb"
  shows "chain_ok (c\<lparr>cbuf := nb, off := off c + length data\<rparr>)"
    "cdata (c\<lparr>cbuf := nb, off := off c + length data\<rparr>) = cdata c @ data"
  using assms by (auto simp: memcpy_def chain_ok_def cdata_def drop_take split: if_splits)

lemma chain_align_ok:
  assumes "chain_ok c" "\<not> immutable c" "\<not> CHAIN_PINNED c"
  shows "\<exists>nb. evbuffer_chain_align c = Some (c\<lparr>cbuf := nb, misalign := 0\<rparr>) \<and> length nb = buffer_len c \<and>
    chain_ok (c\<lparr>cbuf := nb, misalign := 0\<rparr>) \<and> cdata (c\<lparr>cbuf := nb, misalign := 0\<rparr>) = cdata c"
  using assms by (auto simp: evbuffer_chain_align_def memcpy_def chain_ok_def cdata_def)

section \<open>Inserting chains\<close>

lemma trailing_pos_le: "trailing_pos cs \<le> length cs"
  by (induction cs) auto

lemma evbuffer_chain_insert_ok:
  assumes inv: "evbuffer_ok b" and c: "chain_ok c" "total_len b + off c \<le> EV_SIZE_MAX"
  shows "\<exists>b'. evbuffer_chain_insert b c = Some b' \<and> evbuffer_ok b' \<and> content b' = content b @ cdata c \<and>
    (\<exists>cs l. b' = b\<lparr>chains := cs @ [c], last_with_data := l, total_len := total_len b + off c\<rparr> \<and>
        set cs \<subseteq> set (chains b) \<and> (chains b = [] \<longrightarrow> cs = [] \<and> l = 0))"
proof (cases "chains b = []")
  case True
  then have "last_with_data b = 0" using inv by (auto simp: evbuffer_ok_def lwd_ok_def)
  then show ?thesis using True inv c
    by (auto simp: evbuffer_chain_insert_def evbuffer_ok_def content_def lwd_ok_def
        evbuffer_chains_all_empty_def intro!: exI [of _ "[]"] exI [of _ 0])
next
  case False
  define i where "i = last_with_data b"
  let ?cs = "chains b"
  define p where "p = i + trailing_pos (drop i ?cs)"
  have i: "i < length ?cs" "evbuffer_chains_all_empty (drop (Suc i) ?cs)" "i = 0 \<or> off (?cs ! i) \<noteq> 0"
    using inv False by (auto simp: evbuffer_ok_def lwd_ok_def i_def)
  have dr: "drop i ?cs = ?cs ! i # drop (Suc i) ?cs" using i(1) by (simp add: Cons_nth_drop_Suc)
  have pl: "p \<le> length ?cs" using trailing_pos_le [of "drop i ?cs"] i(1) by (simp add: p_def)
  have e: "evbuffer_chains_all_empty (drop p ?cs)"
  proof (cases "p = i")
    case True
    then have "off (?cs ! i) = 0" using dr by (auto simp: p_def split: if_splits)
    then show ?thesis using True i(2) dr by (auto simp: evbuffer_chains_all_empty_def)
  next
    case False
    then have "Suc i \<le> p" by (simp add: p_def)
    then obtain k where "p = Suc i + k" using le_Suc_ex by blast
    then have "drop p ?cs = drop k (drop (Suc i) ?cs)" by (simp add: add.commute)
    with all_empty_drop [OF i(2)] show ?thesis by simp
  qed
  define b' where "b' = b\<lparr>chains := take p ?cs @ [c], last_with_data := (if off c \<noteq> 0 then p else i),
    total_len := total_len b + off c\<rparr>"
  have ins: "evbuffer_chain_insert b c = Some b'"
    using i(1) e by (simp add: evbuffer_chain_insert_def evbuffer_free_trailing_empty_chains_def
        i_def [symmetric] p_def [symmetric] Let_def b'_def)
  have split: "?cs = take p ?cs @ drop p ?cs" by simp
  have cont: "cs_content ?cs = cs_content (take p ?cs)" "sum_list (map off ?cs) = sum_list (map off (take p ?cs))"
    by (subst split, simp only: cs_content_simps map_append sum_list_append all_empty_content [OF e]
        all_empty_sum [OF e] append_Nil2 add_0_right)+
  have "lwd_ok (take p ?cs @ [c]) (last_with_data b')"
  proof (cases "off c = 0")
    case False
    then show ?thesis using pl by (simp add: lwd_ok_def b'_def evbuffer_chains_all_empty_def nth_append)
  next
    case True
    have "evbuffer_chains_all_empty (drop (Suc i) (take p ?cs @ [c]))"
      using i(2) True by (auto simp: evbuffer_chains_all_empty_def drop_take dest!: in_set_takeD dest: in_set_dropD)
    moreover have "i < p" "off ((take p ?cs @ [c]) ! i) \<noteq> 0" if "i \<noteq> 0"
      using that i dr pl by (auto simp: p_def nth_append)
    ultimately show ?thesis using True pl by (auto simp: lwd_ok_def b'_def)
  qed
  then have "evbuffer_ok b'" using inv c cont
    by (auto simp: evbuffer_ok_def b'_def dest: in_set_takeD)
  moreover have "content b' = content b @ cdata c" using cont by (simp add: content_def b'_def)
  moreover have "set (take p ?cs) \<subseteq> set ?cs" by (rule set_take_subset)
  ultimately show ?thesis using ins False b'_def by blast
qed

section \<open>Appending\<close>

lemma lwd_index: "evbuffer_ok b \<Longrightarrow> chains b \<noteq> [] \<Longrightarrow> last_with_data b < length (chains b)"
  by (auto simp: evbuffer_ok_def lwd_ok_def)

lemma evbuffer_grow:
  assumes inv: "evbuffer_ok b" and i: "i = last_with_data b" "i < length (chains b)"
    and c': "chain_ok c'" "cdata c' = cdata (chains b ! i) @ data" "total_len b + length data \<le> EV_SIZE_MAX"
    and b': "chains b' = (chains b)[i := c']" "last_with_data b' = i" "total_len b' = total_len b + length data"
  shows "evbuffer_ok b'" "content b' = content b @ data"
proof -
  let ?cs = "chains b"
  have e: "evbuffer_chains_all_empty (drop (Suc i) ?cs)" and l: "i = 0 \<or> off (?cs ! i) \<noteq> 0"
    and ok: "chain_ok (?cs ! i)" "\<forall>c \<in> set ?cs. chain_ok c"
    using inv i by (auto simp: evbuffer_ok_def lwd_ok_def)
  have o: "off c' = off (?cs ! i) + length data"
    using c'(1,2) ok(1) by (metis length_append length_cdata)
  have u: "?cs[i := c'] = take i ?cs @ c' # drop (Suc i) ?cs" using i(2) by (rule upd_conv_take_nth_drop)
  have s: "?cs = take i ?cs @ ?cs ! i # drop (Suc i) ?cs" using i(2) by (rule id_take_nth_drop)
  have "cs_content (?cs[i := c']) = cs_content (take i ?cs) @ cdata (?cs ! i) @ data"
    unfolding u by (simp add: all_empty_content [OF e] c'(2))
  moreover have "cs_content ?cs = cs_content (take i ?cs) @ cdata (?cs ! i)"
    by (subst s) (simp add: all_empty_content [OF e])
  ultimately show "content b' = content b @ data" by (simp add: content_def b')
  have "sum_list (map off (?cs[i := c'])) = sum_list (map off (take i ?cs)) + off (?cs ! i) + length data"
    unfolding u by (simp add: o all_empty_sum [OF e])
  moreover have "sum_list (map off ?cs) = sum_list (map off (take i ?cs)) + off (?cs ! i)"
    by (subst s) (simp add: all_empty_sum [OF e])
  moreover have "lwd_ok (?cs[i := c']) i"
    using e l i(2) o by (auto simp: lwd_ok_def)
  moreover have "\<forall>c \<in> set (?cs[i := c']). chain_ok c" using ok(2) c'(1) set_update_subset_insert by fastforce
  ultimately show "evbuffer_ok b'" using inv c'(3) by (simp add: evbuffer_ok_def b')
qed

definition add_post :: "evbuffer \<Rightarrow> u8 list \<Rightarrow> bool \<Rightarrow> int \<times> evbuffer \<Rightarrow> bool" where
  "add_post b bytes good rb \<longleftrightarrow>
     evbuffer_ok (snd rb) \<and> callbacks (snd rb) = callbacks b \<and>
     freeze_start (snd rb) = freeze_start b \<and> freeze_end (snd rb) = freeze_end b \<and>
     (fst rb = 0 \<and> content (snd rb) = content b @ bytes \<or>
      fst rb = -1 \<and> \<not> good \<and> content (snd rb) = content b)"

definition alloc_serves :: "(nat \<Rightarrow> bool) \<Rightarrow> nat \<Rightarrow> bool" where
  "alloc_serves ok n \<longleftrightarrow> (\<forall>k. ok k) \<and> n \<le> EVBUFFER_CHAIN_MAX - EVBUFFER_CHAIN_SIZE"

declare alloc_serves_def [buffer_limits] EVBUFFER_CHAIN_MAX_def [buffer_limits] EVBUFFER_CHAIN_SIZE_def [buffer_limits]

lemma chain_new_serves: "alloc_serves ok n \<Longrightarrow> evbuffer_chain_new ok n \<noteq> None"
  by (auto simp: alloc_serves_def evbuffer_chain_new_def Let_def)

lemma evbuffer_add_chain_ok:
  assumes inv: "evbuffer_ok b" and i: "i = last_with_data b" "i < length (chains b)" "c = chains b ! i"
    and tot: "total_len b + length data \<le> EV_SIZE_MAX"
    and rem: "remain < length data \<or> remain = 0 \<and> data = []" "misalign c + off c + remain \<le> buffer_len c"
  shows "\<exists>rb. evbuffer_add_chain ok b i c remain data = Some rb \<and>
    add_post b data (alloc_serves ok (length data)) rb"
proof -
  let ?a1 = "if buffer_len c \<le> EVBUFFER_CHAIN_MAX_AUTO_SIZE div 2 then buffer_len c * 2 else buffer_len c"
  let ?n = "if length data > ?a1 then length data else ?a1"
  have cok: "chain_ok c" using inv i by (auto simp: evbuffer_ok_def)
  show ?thesis
  proof (cases "evbuffer_chain_new ok ?n")
    case None
    have "?a1 \<le> EVBUFFER_CHAIN_MAX - EVBUFFER_CHAIN_SIZE" using cok
      by (auto simp: chain_ok_def EVBUFFER_CHAIN_MAX_def EVBUFFER_CHAIN_SIZE_def EVBUFFER_CHAIN_MAX_AUTO_SIZE_def)
    then have "alloc_serves ok (length data) \<Longrightarrow> alloc_serves ok ?n" by (simp add: alloc_serves_def)
    then have "\<not> alloc_serves ok (length data)" using chain_new_serves [of ok ?n] None by blast
    then show ?thesis using None inv by (simp add: evbuffer_add_chain_def Let_def add_post_def)
  next
    case (Some tmp)
    note t = evbuffer_chain_new_ok [OF Some]
    define b1 where "b1 = (if remain \<noteq> 0 then
        add_bytes b i (c\<lparr>cbuf := the (memcpy (cbuf c) (misalign c + off c) (take remain data))\<rparr>) remain else b)"
    have tl: "length (take remain data) = remain" using rem(1) by auto
    have m1: "(if remain \<noteq> 0 then do { nb \<leftarrow> memcpy (cbuf c) (misalign c + off c) (take remain data);
        Some (add_bytes b i (c\<lparr>cbuf := nb\<rparr>) remain) } else Some b) = Some b1"
      using rem(2) tl by (simp add: b1_def memcpy_def)
    have b1: "evbuffer_ok b1" "content b1 = content b @ take remain data" "total_len b1 = total_len b + remain"
      "callbacks b1 = callbacks b" "freeze_start b1 = freeze_start b" "freeze_end b1 = freeze_end b"
    proof -
      obtain nb where nb: "memcpy (cbuf c) (misalign c + off c) (take remain data) = Some nb"
        using rem(2) tl by (simp add: memcpy_def)
      note ca = chain_append [OF cok _ nb, unfolded tl, OF rem(2)]
      have g: "evbuffer_ok (add_bytes b i (c\<lparr>cbuf := nb\<rparr>) remain)"
        "content (add_bytes b i (c\<lparr>cbuf := nb\<rparr>) remain) = content b @ take remain data"
        using evbuffer_grow [OF inv i(1,2) ca(1) _ _, of "take remain data" "add_bytes b i (c\<lparr>cbuf := nb\<rparr>) remain"]
          ca(2) i tl tot rem(1) by (auto simp: add_bytes_def)
      show "evbuffer_ok b1" "content b1 = content b @ take remain data" "total_len b1 = total_len b + remain"
        "callbacks b1 = callbacks b" "freeze_start b1 = freeze_start b" "freeze_end b1 = freeze_end b"
        using g nb inv rem(1) by (auto simp: b1_def add_bytes_def)
    qed
    have fit: "length (drop remain data) \<le> buffer_len tmp" using t(1) by (auto split: if_splits)
    then obtain tb where tb: "memcpy (cbuf tmp) 0 (drop remain data) = Some tb" by (simp add: memcpy_def)
    let ?t = "tmp\<lparr>cbuf := tb, off := length data - remain\<rparr>"
    have tc: "chain_ok ?t" "cdata ?t = drop remain data"
      using chain_append [OF t(2), of "drop remain data" tb] t fit tb by (simp_all add: cdata_def [of tmp])
    have "total_len b1 + off ?t \<le> EV_SIZE_MAX" using b1(3) tot rem(1) by auto
    from evbuffer_chain_insert_ok [OF b1(1) tc(1) this] obtain b2 where
      b2: "evbuffer_chain_insert b1 ?t = Some b2" "evbuffer_ok b2" "content b2 = content b1 @ cdata ?t"
      "callbacks b2 = callbacks b1" "freeze_start b2 = freeze_start b1" "freeze_end b2 = freeze_end b1"
      by auto
    have "evbuffer_add_chain ok b i c remain data =
        Some (0, evbuffer_invoke_callbacks (b2\<lparr>n_add_for_cb := n_add_for_cb b2 + (length data - remain)\<rparr>))"
      unfolding evbuffer_add_chain_def Let_def Some option.case m1 by (simp add: tb b2(1))
    then show ?thesis using b2 b1 tc(2) by (simp add: add_post_def evbuffer_ok_def content_def)
  qed
qed

lemma evbuffer_first_chain_ok:
  assumes inv: "evbuffer_ok b" and nf: "\<not> (chains b = [] \<and> evbuffer_chain_new ok n = None)"
  shows "\<exists>b1. evbuffer_first_chain ok b n = Some (Some b1) \<and> evbuffer_ok b1 \<and> content b1 = content b \<and>
    total_len b1 = total_len b \<and> chains b1 \<noteq> [] \<and> callbacks b1 = callbacks b \<and>
    freeze_start b1 = freeze_start b \<and> freeze_end b1 = freeze_end b \<and>
    (chains b \<noteq> [] \<longrightarrow> b1 = b) \<and>
    (chains b = [] \<longrightarrow> (\<exists>c. evbuffer_chain_new ok n = Some c \<and> chains b1 = [c] \<and> last_with_data b1 = 0))"
proof (cases "chains b = []")
  case True
  with nf obtain c where c: "evbuffer_chain_new ok n = Some c" by auto
  note cn = evbuffer_chain_new_ok [OF c]
  have "total_len b + off c \<le> EV_SIZE_MAX" using cn(3) inv by (simp add: evbuffer_ok_def)
  from evbuffer_chain_insert_ok [OF inv cn(2) this] True cn(3) c show ?thesis
    by (auto simp: evbuffer_first_chain_def)
qed (use inv in \<open>simp add: evbuffer_first_chain_def\<close>)

lemma evbuffer_add_ok:
  assumes inv: "evbuffer_ok b"
  shows "\<exists>rb. evbuffer_add ok b data = Some rb \<and>
    add_post b data (alloc_serves ok (length data) \<and> \<not> freeze_end b \<and> total_len b + length data \<le> EV_SIZE_MAX) rb"
proof (cases "freeze_end b \<or> length data > EV_SIZE_MAX - total_len b")
  case True
  then show ?thesis using inv by (auto simp: evbuffer_add_def add_post_def Let_def)
next
  case False
  then have tot: "total_len b + length data \<le> EV_SIZE_MAX" using inv by (auto simp: evbuffer_ok_def)
  show ?thesis
  proof (cases "chains b = [] \<and> evbuffer_chain_new ok (length data) = None")
    case True
    then show ?thesis using False inv chain_new_serves [of ok "length data"]
      by (auto simp: evbuffer_add_def evbuffer_first_chain_def add_post_def Let_def)
  next
    case nf: False
    from evbuffer_first_chain_ok [OF inv nf] obtain b1 where
      b1: "evbuffer_first_chain ok b (length data) = Some (Some b1)"
      "evbuffer_ok b1" "content b1 = content b" "total_len b1 = total_len b" "chains b1 \<noteq> []"
      "callbacks b1 = callbacks b" "freeze_start b1 = freeze_start b" "freeze_end b1 = freeze_end b" by blast
    define i where "i = last_with_data b1"
    define c where "c = chains b1 ! i"
    have i: "i < length (chains b1)" using lwd_index [OF b1(2,5)] by (simp add: i_def)
    then have cok: "chain_ok c" using b1(2) by (auto simp: evbuffer_ok_def c_def)
    let ?rem = "buffer_len c - misalign c - off c"
    have unf: "evbuffer_add ok b data =
       (if \<not> immutable c then
          (if ?rem \<ge> length data then do {
             nb \<leftarrow> memcpy (cbuf c) (misalign c + off c) data;
             Some (0, evbuffer_invoke_callbacks (add_bytes b1 i (c\<lparr>cbuf := nb\<rparr>) (length data))) }
           else if \<not> CHAIN_PINNED c \<and> evbuffer_chain_should_realign c (length data) then do {
             c1 \<leftarrow> evbuffer_chain_align c;
             nb \<leftarrow> memcpy (cbuf c1) (off c1) data;
             Some (0, evbuffer_invoke_callbacks (add_bytes b1 i (c1\<lparr>cbuf := nb\<rparr>) (length data))) }
           else evbuffer_add_chain ok b1 i c ?rem data)
        else evbuffer_add_chain ok b1 i c 0 data)"
      using b1(1) False i cok
      by (auto simp: evbuffer_add_def Let_def i_def [symmetric] c_def [symmetric] chain_ok_def)
    have tot1: "total_len b1 + length data \<le> EV_SIZE_MAX" using tot b1(4) by simp
    have post: "add_post b1 data g rb \<Longrightarrow> g = alloc_serves ok (length data) \<Longrightarrow>
        add_post b data (alloc_serves ok (length data) \<and> \<not> freeze_end b \<and> total_len b + length data \<le> EV_SIZE_MAX) rb"
      for g rb using b1 by (auto simp: add_post_def)
    have grow: "add_post b1 data (alloc_serves ok (length data))
        (0, evbuffer_invoke_callbacks (add_bytes b1 i (c'\<lparr>cbuf := nb\<rparr>) (length data)))"
      if "chain_ok c'" "cdata c' = cdata c" "misalign c' + off c' + length data \<le> buffer_len c'"
        "memcpy (cbuf c') (misalign c' + off c') data = Some nb" for c' nb
      using chain_append [OF that(1,3,4)] evbuffer_grow [OF b1(2) i_def i _ _ tot1, of _ "add_bytes b1 i (c'\<lparr>cbuf := nb\<rparr>) (length data)"]
        that(2) i_def c_def by (auto simp: add_post_def add_bytes_def)
    show ?thesis
    proof (cases "\<not> immutable c \<and> (?rem \<ge> length data \<or> \<not> CHAIN_PINNED c \<and> evbuffer_chain_should_realign c (length data))")
      case True
      show ?thesis
      proof (cases "?rem \<ge> length data")
        case True
        then have "misalign c + off c + length data \<le> buffer_len c" using cok by (auto simp: chain_ok_def)
        then show ?thesis using unf \<open>\<not> immutable c \<and> _\<close> True post [OF grow [OF cok refl] refl]
          by (auto simp: memcpy_def)
      next
        case F: False
        then have pin: "\<not> CHAIN_PINNED c" "evbuffer_chain_should_realign c (length data)" "\<not> immutable c"
          using True by auto
        from chain_align_ok [OF cok pin(3,1)] obtain nb where
          nb: "evbuffer_chain_align c = Some (c\<lparr>cbuf := nb, misalign := 0\<rparr>)" "length nb = buffer_len c"
          "chain_ok (c\<lparr>cbuf := nb, misalign := 0\<rparr>)" "cdata (c\<lparr>cbuf := nb, misalign := 0\<rparr>) = cdata c" by blast
        have "off c + length data \<le> length nb" using pin(2) nb(2) cok
          by (auto simp: evbuffer_chain_should_realign_def chain_ok_def)
        then show ?thesis using unf F pin nb(1) post [OF grow [OF nb(3,4)] refl]
          by (auto simp: memcpy_def)
      qed
    next
      case False
      let ?r = "if immutable c then 0 else ?rem"
      have "evbuffer_add ok b data = evbuffer_add_chain ok b1 i c ?r data" using unf False by auto
      moreover have "?r < length data \<or> ?r = 0 \<and> data = []" "misalign c + off c + ?r \<le> buffer_len c"
        using False cok by (auto simp: chain_ok_def)
      ultimately show ?thesis
        using evbuffer_add_chain_ok [OF b1(2) i_def i c_def tot1, of ?r ok] post by auto
    qed
  qed
qed

section \<open>Prepending\<close>

lemma lwd_ok_replace_first: "lwd_ok (c # cs) l \<Longrightarrow> lwd_ok (c' # cs) l"
  by (cases l) (auto simp: lwd_ok_def)

lemma lwd_ok_new_first:
  "lwd_ok (c # cs) l \<Longrightarrow>
   lwd_ok (t # c # cs) (if l = 0 then (if off c \<noteq> 0 then 1 else 0) else Suc l)"
  by (cases l) (auto simp: lwd_ok_def evbuffer_chains_all_empty_def)

lemma chain_prefix:
  assumes "chain_ok c" "length data \<le> misalign c" "memcpy (cbuf c) (misalign c - length data) data = Some nb"
  shows "chain_ok (c\<lparr>cbuf := nb, off := off c + length data, misalign := misalign c - length data\<rparr>)"
    "cdata (c\<lparr>cbuf := nb, off := off c + length data, misalign := misalign c - length data\<rparr>) = data @ cdata c"
  using assms by (auto simp: memcpy_def chain_ok_def cdata_def split: if_splits)

lemma replace_first_ok:
  assumes "evbuffer_ok b" "chains b = c # cs" "chain_ok c'" "cdata c' = data @ cdata c"
    "total_len b + length data \<le> EV_SIZE_MAX"
    "chains b' = c' # cs" "last_with_data b' = last_with_data b" "total_len b' = total_len b + length data"
  shows "evbuffer_ok b'" "content b' = data @ content b"
proof -
  have "off c' = length data + off c"
    using assms(1-4) by (metis evbuffer_ok_def length_append length_cdata list.set_intros(1))
  then show "evbuffer_ok b'" "content b' = data @ content b"
    using assms lwd_ok_replace_first by (auto simp: evbuffer_ok_def content_def)
qed

definition prepend_post :: "evbuffer \<Rightarrow> u8 list \<Rightarrow> u8 list \<Rightarrow> bool \<Rightarrow> int \<times> evbuffer \<Rightarrow> bool" where
  "prepend_post b left all good rb \<longleftrightarrow>
     evbuffer_ok (snd rb) \<and>
     (fst rb = 0 \<and> content (snd rb) = all @ content b \<or>
      fst rb = -1 \<and> \<not> good \<and> content (snd rb) = drop (length left) all @ content b)"

lemma evbuffer_prepend_chain_ok:
  assumes inv: "evbuffer_ok b" "chains b \<noteq> []" "total_len b + length data \<le> EV_SIZE_MAX" "data \<noteq> []"
  shows "\<exists>rb. evbuffer_prepend_chain ok b data = Some rb \<and>
    prepend_post b data data (alloc_serves ok (length data)) rb"
proof (cases "evbuffer_chain_new ok (length data)")
  case None
  then show ?thesis using inv(1) chain_new_serves [of ok "length data"]
    by (auto simp: evbuffer_prepend_chain_def prepend_post_def)
next
  case (Some t)
  note tn = evbuffer_chain_new_ok [OF Some]
  let ?m = "buffer_len t - length data"
  obtain nb where nb: "memcpy (cbuf t) ?m data = Some nb" using tn(1) by (simp add: memcpy_def)
  let ?t = "t\<lparr>cbuf := nb, off := length data, misalign := ?m\<rparr>"
  have "chain_ok (t\<lparr>misalign := buffer_len t\<rparr>)" "cdata (t\<lparr>misalign := buffer_len t\<rparr>) = []"
    using tn by (simp_all add: chain_ok_def cdata_def)
  from chain_prefix [OF this(1), of data nb] this(2) tn nb
  have t: "chain_ok ?t" "cdata ?t = data" by simp_all
  obtain c cs where cs: "chains b = c # cs" using inv(2) by (cases "chains b") auto
  let ?b = "b\<lparr>chains := ?t # chains b,
    last_with_data := (if last_with_data b = 0 then (if off (hd (chains b)) \<noteq> 0 then 1 else 0)
                       else Suc (last_with_data b)),
    total_len := total_len b + length data, n_add_for_cb := n_add_for_cb b + length data\<rparr>"
  have "evbuffer_ok ?b" "content ?b = data @ content b"
    using inv t cs lwd_ok_new_first [of c cs "last_with_data b" ?t]
    by (simp_all add: evbuffer_ok_def content_def split del: if_split cong: if_cong)
  moreover have "evbuffer_prepend_chain ok b data = Some (0, evbuffer_invoke_callbacks ?b)"
    using Some tn(1) nb by (simp add: evbuffer_prepend_chain_def Let_def)
  ultimately show ?thesis by (simp add: prepend_post_def)
qed

lemma prepend_post_split:
  assumes "prepend_post b1 xs xs good rb" "content b1 = ys @ content b" "good' \<Longrightarrow> good"
  shows "prepend_post b xs (xs @ ys) good' rb"
  using assms by (auto simp: prepend_post_def)

lemma evbuffer_prepend_first_ok:
  assumes inv: "evbuffer_ok b" "chains b = c0 # cs" "total_len b + length data \<le> EV_SIZE_MAX" "data \<noteq> []"
    and c: "c = (if off c0 = 0 then c0\<lparr>misalign := buffer_len c0\<rparr> else c0)"
    and b2: "b2 = b\<lparr>chains := c # cs\<rparr>"
  shows "\<exists>left rb. (if misalign c \<ge> length data then do {
         nb \<leftarrow> memcpy (cbuf c) (misalign c - length data) data;
         Some (0, evbuffer_invoke_callbacks
           (b2\<lparr>chains := c\<lparr>cbuf := nb, off := off c + length data, misalign := misalign c - length data\<rparr> # cs,
              total_len := total_len b2 + length data, n_add_for_cb := n_add_for_cb b2 + length data\<rparr>)) }
       else if misalign c \<noteq> 0 then do {
         nb \<leftarrow> memcpy (cbuf c) 0 (drop (length data - misalign c) data);
         evbuffer_prepend_chain ok
           (b2\<lparr>chains := c\<lparr>cbuf := nb, off := off c + misalign c, misalign := 0\<rparr> # cs,
              total_len := total_len b2 + misalign c, n_add_for_cb := n_add_for_cb b2 + misalign c\<rparr>)
           (take (length data - misalign c) data) }
       else evbuffer_prepend_chain ok b2 data) = Some rb \<and> length left \<le> length data \<and>
     prepend_post b left data (alloc_serves ok (length data)) rb"
proof -
  have c0: "chain_ok c0" using inv by (simp add: evbuffer_ok_def)
  have ck: "chain_ok c" "cdata c = [] @ cdata c0" "off c = off c0"
    using c0 by (auto simp: c chain_ok_def cdata_def)
  have b2ok: "evbuffer_ok b2" "content b2 = content b"
    using replace_first_ok [OF inv(1,2) ck(1,2), of b2] inv by (auto simp: b2)
  let ?m = "misalign c"
  consider (fit) "?m \<ge> length data" | (part) "?m < length data" "?m \<noteq> 0" | (none) "?m < length data" "?m = 0"
    by linarith
  then show ?thesis
  proof cases
    case fit
    obtain nb where nb: "memcpy (cbuf c) (?m - length data) data = Some nb"
      using fit ck(1) by (simp add: memcpy_def chain_ok_def)
    note cp = chain_prefix [OF ck(1) fit nb]
    let ?b = "b2\<lparr>chains := c\<lparr>cbuf := nb, off := off c + length data, misalign := ?m - length data\<rparr> # cs,
      total_len := total_len b2 + length data, n_add_for_cb := n_add_for_cb b2 + length data\<rparr>"
    have "evbuffer_ok ?b" "content ?b = data @ content b2"
      using replace_first_ok [OF b2ok(1) _ cp, of cs ?b] inv b2 by auto
    then show ?thesis using fit nb b2ok(2) by (auto simp: prepend_post_def intro!: exI [of _ "[]"])
  next
    case none
    from evbuffer_prepend_chain_ok [OF b2ok(1) _ _ inv(4), of ok] inv b2 obtain rb where
      "evbuffer_prepend_chain ok b2 data = Some rb" "prepend_post b2 data data (alloc_serves ok (length data)) rb"
      by auto
    then show ?thesis using none b2ok(2) by (auto simp: prepend_post_def intro!: exI [of _ data])
  next
    case part
    let ?xs = "take (length data - ?m) data" and ?ys = "drop (length data - ?m) data"
    have yl: "length ?ys = ?m" "?xs \<noteq> []" using part by auto
    obtain nb where nb: "memcpy (cbuf c) 0 ?ys = Some nb"
      using yl ck(1) by (simp add: memcpy_def chain_ok_def)
    have cp: "chain_ok (c\<lparr>cbuf := nb, off := off c + ?m, misalign := 0\<rparr>)"
      "cdata (c\<lparr>cbuf := nb, off := off c + ?m, misalign := 0\<rparr>) = ?ys @ cdata c"
      using chain_prefix [OF ck(1), of ?ys nb] nb yl by simp_all
    let ?b = "b2\<lparr>chains := c\<lparr>cbuf := nb, off := off c + ?m, misalign := 0\<rparr> # cs,
      total_len := total_len b2 + ?m, n_add_for_cb := n_add_for_cb b2 + ?m\<rparr>"
    have b: "evbuffer_ok ?b" "content ?b = ?ys @ content b"
      using replace_first_ok [OF b2ok(1) _ cp, of cs ?b] inv b2 b2ok(2) yl part by auto
    from evbuffer_prepend_chain_ok [OF b(1) _ _ yl(2), of ok] inv(3) part b2 obtain rb where
      rb: "evbuffer_prepend_chain ok ?b ?xs = Some rb" "prepend_post ?b ?xs ?xs (alloc_serves ok (length ?xs)) rb"
      by auto
    have "prepend_post b ?xs (?xs @ ?ys) (alloc_serves ok (length data)) rb"
      by (rule prepend_post_split [OF rb(2) b(2)]) (auto simp: alloc_serves_def)
    then show ?thesis using part nb rb(1) by (auto intro!: exI [of _ ?xs])
  qed
qed

lemma evbuffer_prepend_ok:
  assumes inv: "evbuffer_ok b"
  shows "\<exists>left rb. evbuffer_prepend ok b data = Some rb \<and> length left \<le> length data \<and>
    prepend_post b left data (alloc_serves ok (length data) \<and> \<not> freeze_start b \<and>
      total_len b + length data \<le> EV_SIZE_MAX) rb"
proof -
  consider (nil) "data = []" | (bad) "data \<noteq> []" "freeze_start b \<or> length data > EV_SIZE_MAX - total_len b"
    | (oom) "data \<noteq> []" "\<not> (freeze_start b \<or> length data > EV_SIZE_MAX - total_len b)"
        "chains b = [] \<and> evbuffer_chain_new ok (length data) = None"
    | (go) "data \<noteq> []" "\<not> (freeze_start b \<or> length data > EV_SIZE_MAX - total_len b)"
        "\<not> (chains b = [] \<and> evbuffer_chain_new ok (length data) = None)" by blast
  then show ?thesis
  proof cases
    case go
    from evbuffer_first_chain_ok [OF inv go(3)] obtain b1 c0 cs where
      b1: "evbuffer_first_chain ok b (length data) = Some (Some b1)"
      "evbuffer_ok b1" "content b1 = content b" "total_len b1 = total_len b" "chains b1 = c0 # cs"
      by (metis list.exhaust)
    have tot: "total_len b1 + length data \<le> EV_SIZE_MAX" using go(2) b1(2,4) by (auto simp: evbuffer_ok_def)
    have mis: "\<not> misalign c0 > EVBUFFER_CHAIN_MAX" using b1(2,5) by (auto simp: evbuffer_ok_def chain_ok_def)
    obtain left rb where rb: "evbuffer_prepend ok b data = Some rb" "length left \<le> length data"
      "prepend_post b1 left data (alloc_serves ok (length data)) rb"
    proof (cases "immutable c0")
      case True
      from evbuffer_prepend_chain_ok [OF b1(2) _ tot go(1), of ok] b1(5) obtain rb where
        "evbuffer_prepend_chain ok b1 data = Some rb" "prepend_post b1 data data (alloc_serves ok (length data)) rb"
        by auto
      then show thesis using that [of rb data] True go b1 by (simp add: evbuffer_prepend_def Let_def)
    next
      case False
      from evbuffer_prepend_first_ok [OF b1(2,5) tot go(1) refl refl, of ok] that show thesis
        using False go b1(1,5) mis by (auto simp: evbuffer_prepend_def Let_def split: if_splits)
    qed
    then show ?thesis using b1(3) go(2) by (auto simp: prepend_post_def)
  qed (use inv chain_new_serves [of ok "length data"] in
    \<open>auto simp: evbuffer_prepend_def prepend_post_def evbuffer_first_chain_def Let_def intro!: exI [of _ data]\<close>)
qed

section \<open>Draining and copying out\<close>

lemma lwd_ok_tl: "lwd_ok (c # cs) l \<Longrightarrow> sum_list (map off cs) \<noteq> 0 \<Longrightarrow> lwd_ok cs (l - 1)"
  by (cases l) (auto simp: lwd_ok_def dest: all_empty_sum)

lemma drain_loop_ok:
  assumes "\<forall>c \<in> set cs. chain_ok c" "lwd_ok cs lwd" "n < sum_list (map off cs)"
  shows "\<exists>c ds l r. drain_loop cs lwd n = Some (c # ds, l, r) \<and> r < off c \<and> lwd_ok (c # ds) l \<and>
    (\<forall>d \<in> set (c # ds). chain_ok d) \<and> set (c # ds) \<subseteq> set cs \<and>
    drop n (cs_content cs) = drop r (cdata c) @ cs_content ds \<and>
    sum_list (map off cs) = n + (off c - r) + sum_list (map off ds)"
  using assms
proof (induction cs arbitrary: lwd n)
  case (Cons c cs)
  show ?case
  proof (cases "n \<ge> off c")
    case True
    then have s: "n - off c < sum_list (map off cs)" using Cons.prems(3) by auto
    then have "lwd_ok cs (lwd - 1)" by (intro lwd_ok_tl [OF Cons.prems(2)]) linarith
    from Cons.IH [OF _ this s] Cons.prems(1) obtain c' ds l r where
      "drain_loop cs (lwd - 1) (n - off c) = Some (c' # ds, l, r)" "r < off c'" "lwd_ok (c' # ds) l"
      "\<forall>d \<in> set (c' # ds). chain_ok d" "set (c' # ds) \<subseteq> set cs"
      "drop (n - off c) (cs_content cs) = drop r (cdata c') @ cs_content ds"
      "sum_list (map off cs) = n - off c + (off c' - r) + sum_list (map off ds)" by auto
    then show ?thesis using True Cons.prems(1)
      by (intro exI [of _ c'] exI [of _ ds] exI [of _ l] exI [of _ r]) auto
  qed (use Cons.prems in auto)
qed simp

lemma evbuffer_drain_ok:
  assumes inv: "evbuffer_ok b"
  shows "\<exists>r b'. evbuffer_drain b len = Some (r, b') \<and> evbuffer_ok b' \<and>
    (if freeze_start b \<and> total_len b \<noteq> 0 then r = -1 \<and> b' = b else r = 0 \<and> content b' = drop len (content b)) \<and>
    freeze_start b' = freeze_start b \<and> freeze_end b' = freeze_end b"
proof -
  have hp: "\<not> HAS_PINNED_R b" using inv by (simp add: evbuffer_unpinned)
  have len: "length (content b) = total_len b" using inv by simp
  consider (zero) "total_len b = 0" | (froz) "total_len b \<noteq> 0" "freeze_start b"
    | (all) "total_len b \<noteq> 0" "\<not> freeze_start b" "len \<ge> total_len b"
    | (some) "total_len b \<noteq> 0" "\<not> freeze_start b" "len < total_len b" by linarith
  then show ?thesis
  proof cases
    case zero
    then have "content b = []" using len by simp
    then show ?thesis using zero inv by (auto simp: evbuffer_drain_def)
  next
    case froz
    then show ?thesis using inv by (auto simp: evbuffer_drain_def)
  next
    case all
    then show ?thesis using hp len
      by (auto simp: evbuffer_drain_def ZERO_CHAIN_def evbuffer_ok_def content_def lwd_ok_def
          evbuffer_chains_all_empty_def)
  next
    case some
    have "\<forall>c \<in> set (chains b). chain_ok c" "lwd_ok (chains b) (last_with_data b)"
      "len < sum_list (map off (chains b))" using inv some by (auto simp: evbuffer_ok_def)
    from drain_loop_ok [OF this] obtain c ds l r where
      d: "drain_loop (chains b) (last_with_data b) len = Some (c # ds, l, r)" "r < off c" "lwd_ok (c # ds) l"
      "\<forall>d \<in> set (c # ds). chain_ok d" "set (c # ds) \<subseteq> set (chains b)"
      "drop len (cs_content (chains b)) = drop r (cdata c) @ cs_content ds"
      "sum_list (map off (chains b)) = len + (off c - r) + sum_list (map off ds)" by blast
    let ?c = "c\<lparr>misalign := misalign c + r, off := off c - r\<rparr>"
    have c: "chain_ok ?c" "cdata ?c = drop r (cdata c)"
      using d(2,4) by (auto simp: chain_ok_def cdata_def drop_take add.commute)
    show ?thesis using some hp d inv c lwd_ok_replace_first [OF d(3)]
      by (auto simp: evbuffer_drain_def Let_def evbuffer_ok_def content_def)
  qed
qed

lemma copyout_loop_ok:
  assumes "\<forall>c \<in> set cs. chain_ok c" "cs \<noteq> [] \<longrightarrow> p \<le> off (hd cs)" "p + n \<le> sum_list (map off cs)"
  shows "copyout_loop cs p n = Some (take n (drop p (cs_content cs)))"
  using assms
proof (induction cs arbitrary: p n)
  case (Cons c cs)
  then have c: "chain_ok c" "length (cdata c) = off c" "p \<le> off c" by auto
  show ?case
  proof (cases "n \<ge> off c - p")
    case True
    from Cons.IH [of 0 "n - (off c - p)"] Cons.prems True c
    have "copyout_loop cs 0 (n - (off c - p)) = Some (take (n - (off c - p)) (cs_content cs))" by auto
    then show ?thesis using True c by auto
  qed (use c in auto)
qed simp

lemma evbuffer_copyout_ok:
  assumes inv: "evbuffer_ok b"
  shows "evbuffer_copyout b n =
    (if freeze_start b \<and> n \<noteq> 0 \<and> total_len b \<noteq> 0 then Some (-1, [])
     else Some (int (min n (total_len b)), take n (content b)))"
proof -
  have "copyout_loop (chains b) 0 (min n (total_len b)) = Some (take (min n (total_len b)) (content b))"
    using inv copyout_loop_ok [of "chains b" 0 "min n (total_len b)"]
    by (auto simp: evbuffer_ok_def content_def)
  then show ?thesis using length_content [OF inv]
    by (auto simp: evbuffer_copyout_def evbuffer_copyout_from_def min_def)
qed

lemma evbuffer_remove_ok:
  assumes inv: "evbuffer_ok b" and fr: "\<not> freeze_start b"
  shows "\<exists>b'. evbuffer_remove b n = Some (c_int (int (min n (total_len b))), take n (content b), b') \<and>
    evbuffer_ok b' \<and> content b' = drop n (content b) \<and> freeze_end b' = freeze_end b \<and> freeze_start b' = freeze_start b"
proof -
  let ?k = "min n (total_len b)"
  have co: "evbuffer_copyout_from b None n = Some (int ?k, take n (content b))"
    using evbuffer_copyout_ok [OF inv, of n] fr by (simp add: evbuffer_copyout_def)
  have dk: "drop ?k (content b) = drop n (content b)"
    using length_content [OF inv] by (auto simp: min_def)
  from evbuffer_drain_ok [OF inv, of ?k] fr obtain b' where
    "evbuffer_drain b ?k = Some (0, b')" "evbuffer_ok b'" "content b' = drop ?k (content b)"
    "freeze_end b' = freeze_end b" "freeze_start b' = freeze_start b" by auto
  then show ?thesis using co dk inv by (cases "?k = 0") (auto simp: evbuffer_remove_def)
qed

section \<open>Properties\<close>

text \<open>
  \<^verbatim>\<open>evbuffer_add\<close> on a well-formed buffer fails no assertion, stays inside its memory and keeps
  the buffer well-formed; it appends exactly the bytes, or returns -1 with the contents unchanged,
  and the latter only for a frozen buffer, a length overflow or a refused allocation.
\<close>

theorem evbuffer_add_appends:
  assumes "evbuffer_ok b"
  shows "\<exists>r b'. evbuffer_add ok b data = Some (r, b') \<and> evbuffer_ok b' \<and>
    (r = 0 \<and> content b' = content b @ data \<or>
     r = -1 \<and> content b' = content b \<and>
       (freeze_end b \<or> total_len b + length data > EV_SIZE_MAX \<or> \<not> alloc_serves ok (length data)))"
proof -
  from evbuffer_add_ok [OF assms, of ok data] obtain rb where
    rb: "evbuffer_add ok b data = Some rb"
    "add_post b data (alloc_serves ok (length data) \<and> \<not> freeze_end b \<and> total_len b + length data \<le> EV_SIZE_MAX) rb"
    by blast
  then show ?thesis by (cases rb) (auto simp: add_post_def)
qed

theorem evbuffer_add_appends_witness:
  "\<exists>b'. evbuffer_add (\<lambda>_. True) evbuffer_new [1, 2, 3] = Some (0, b') \<and> evbuffer_ok b' \<and> content b' = [1, 2, 3]"
  using evbuffer_add_appends [OF evbuffer_new_ok(1), of "\<lambda>_. True" "[1, 2, 3]"]
  by (auto simp: evbuffer_new_ok(2) buffer_limits EV_SIZE_MAX_def)
     (simp_all add: evbuffer_new_def)

text \<open>
  C3. Bytes come out in the order they went in: after data has been added, removing \<open>n\<close> bytes
  delivers the first \<open>n\<close> bytes of the old contents followed by the data, and the rest stays.
\<close>

theorem evbuffer_add_remove_fifo:
  assumes "evbuffer_ok b" "\<not> freeze_start b" "\<not> freeze_end b" "total_len b + length data \<le> EV_SIZE_MAX"
    "alloc_serves ok (length data)"
  shows "\<exists>b1 b2 k. evbuffer_add ok b data = Some (0, b1) \<and>
    evbuffer_remove b1 n = Some (k, take n (content b @ data), b2) \<and> evbuffer_ok b2 \<and>
    content b2 = drop n (content b @ data)"
proof -
  from evbuffer_add_ok [OF assms(1), of ok data] assms obtain b1 where
    b1: "evbuffer_add ok b data = Some (0, b1)" "evbuffer_ok b1" "content b1 = content b @ data" "\<not> freeze_start b1"
    by (fastforce simp: add_post_def)
  from evbuffer_remove_ok [OF b1(2,4), of n] b1 show ?thesis by auto
qed

theorem evbuffer_add_remove_fifo_witness:
  "\<exists>b1 b2 k. evbuffer_add (\<lambda>_. True) evbuffer_new [1, 2, 3] = Some (0, b1) \<and>
    evbuffer_remove b1 2 = Some (k, [1, 2], b2) \<and> content b2 = [3]"
  using evbuffer_add_remove_fifo [OF evbuffer_new_ok(1), of "[1, 2, 3]" "\<lambda>_. True" 2]
  by (auto simp: evbuffer_new_def content_def buffer_limits
      EV_SIZE_MAX_def)

text \<open>
  \<^verbatim>\<open>evbuffer_prepend\<close> puts the bytes in front of the contents; when it returns -1, a final part
  of the data may already stand in front of them.
\<close>

theorem evbuffer_prepend_puts_in_front:
  assumes "evbuffer_ok b"
  shows "\<exists>r b'. evbuffer_prepend ok b data = Some (r, b') \<and> evbuffer_ok b' \<and>
    (r = 0 \<and> content b' = data @ content b \<or>
     r = -1 \<and> (\<exists>k. content b' = drop k data @ content b) \<and>
       (freeze_start b \<or> total_len b + length data > EV_SIZE_MAX \<or> \<not> alloc_serves ok (length data)))"
proof -
  from evbuffer_prepend_ok [OF assms, of ok data] obtain left rb where
    "evbuffer_prepend ok b data = Some rb"
    "prepend_post b left data (alloc_serves ok (length data) \<and> \<not> freeze_start b \<and>
      total_len b + length data \<le> EV_SIZE_MAX) rb" by blast
  then show ?thesis by (cases rb) (auto simp: prepend_post_def)
qed

theorem evbuffer_prepend_puts_in_front_witness:
  "\<exists>b'. evbuffer_prepend (\<lambda>_. True) evbuffer_new [1, 2, 3] = Some (0, b') \<and> evbuffer_ok b' \<and> content b' = [1, 2, 3]"
  using evbuffer_prepend_puts_in_front [OF evbuffer_new_ok(1), of "\<lambda>_. True" "[1, 2, 3]"]
  by (auto simp: evbuffer_new_ok(2) buffer_limits EV_SIZE_MAX_def)
     (simp_all add: evbuffer_new_def)

text \<open>
  Draining removes exactly the given number of bytes from the front, all of them if there are
  fewer, and only a frozen, non-empty buffer refuses.
\<close>

theorem evbuffer_drain_drops:
  assumes "evbuffer_ok b"
  shows "\<exists>r b'. evbuffer_drain b len = Some (r, b') \<and> evbuffer_ok b' \<and>
    (if freeze_start b \<and> total_len b \<noteq> 0 then r = -1 \<and> b' = b else r = 0 \<and> content b' = drop len (content b))"
  using evbuffer_drain_ok [OF assms, of len] by blast

theorem evbuffer_drain_drops_witness: "\<exists>r b'. evbuffer_drain evbuffer_new 4 = Some (r, b') \<and> evbuffer_ok b' \<and> r = 0"
  using evbuffer_drain_drops [OF evbuffer_new_ok(1), of 4] by (auto simp: evbuffer_new_def)

end
