(* ===== verification/Evbuffer_Move.thy ===== *)
theory Evbuffer_Move
  imports Evbuffer
begin

text \<open>
  The operations of \<^verbatim>\<open>src/buffer.c\<close> that move data between chains and between buffers:
  \<^verbatim>\<open>evbuffer_pullup\<close>, \<^verbatim>\<open>evbuffer_add_buffer\<close>, \<^verbatim>\<open>evbuffer_prepend_buffer\<close> and
  \<^verbatim>\<open>evbuffer_remove_buffer\<close>. The two buffers of a transfer are
  distinct objects.
\<close>

section \<open>Making the front contiguous\<close>

fun pull_pinned :: "evbuffer_chain list \<Rightarrow> nat \<Rightarrow> bool" where
  "pull_pinned [] remaining \<longleftrightarrow> False"
| "pull_pinned (c # cs) remaining \<longleftrightarrow>
     CHAIN_PINNED c \<or> (\<not> off c \<ge> remaining \<and> pull_pinned cs (remaining - off c))"

text \<open>The chains that are pulled up entirely: their bytes, their number, and the bytes still missing.\<close>

fun pull_loop :: "evbuffer_chain list \<Rightarrow> nat \<Rightarrow> u8 list \<times> nat \<times> nat" where
  "pull_loop [] n = ([], 0, n)"
| "pull_loop (c # cs) n =
     (if n \<ge> off c then (let (bs, k, r) = pull_loop cs (n - off c) in (cdata c @ bs, Suc k, r))
      else ([], 0, n))"

definition pull_into ::
  "evbuffer \<Rightarrow> evbuffer_chain \<Rightarrow> nat \<Rightarrow> nat \<Rightarrow> (u8 list option \<times> evbuffer) option" where
  "pull_into b tmp s0 sz =
     (let rest = drop s0 (chains b);
          (bs, k, r) = pull_loop rest (sz - off tmp);
          (bytes, rest') = (case drop k rest of [] \<Rightarrow> (bs, [])
             | d # ds \<Rightarrow> (bs @ take r (cdata d), d\<lparr>misalign := misalign d + r, off := off d - r\<rparr> # ds));
          l = last_with_data b;
          lwd = (if s0 \<le> l \<and> l < s0 + k then 0
                 else if k \<ge> 1 \<and> l = s0 + k then (if rest' \<noteq> [] \<and> off (hd rest') \<noteq> 0 then 1 else 0)
                 else if l < s0 then l else l - (s0 + k) + 1)
      in do {
        nb \<leftarrow> memcpy (cbuf tmp) (misalign tmp + off tmp) bytes;
        let tmp' = tmp\<lparr>cbuf := nb, off := sz\<rparr>;
        Some (Some (cdata tmp'), b\<lparr>chains := tmp' # rest', last_with_data := lwd\<rparr>) })"

definition evbuffer_pullup ::
  "(nat \<Rightarrow> bool) \<Rightarrow> evbuffer \<Rightarrow> int \<Rightarrow> (u8 list option \<times> evbuffer) option" where
  "evbuffer_pullup ok b size0 =
     (let sz = (if size0 < 0 then total_len b else nat size0) in
      if sz = 0 \<or> sz > total_len b then Some (None, b)
      else
        (case chains b of [] \<Rightarrow> None
         | c # cs \<Rightarrow>
           (if off c \<ge> sz then Some (Some (cdata c), b)
            else if pull_pinned cs (sz - off c) then Some (None, b)
            else if CHAIN_PINNED c then
              (if CHAIN_SPACE_LEN c < sz - off c then Some (None, b) else pull_into b c 1 sz)
            else if buffer_len c - misalign c \<ge> sz then pull_into b c 1 sz
            else (case evbuffer_chain_new ok sz of None \<Rightarrow> Some (None, b)
                  | Some tmp \<Rightarrow> pull_into b tmp 0 sz))))"

lemma pull_loop_ok:
  assumes "\<forall>c \<in> set cs. chain_ok c" "pull_loop cs n = (bs, k, r)"
  shows "k \<le> length cs" "bs = cs_content (take k cs)" "n = length bs + r" "k < length cs \<Longrightarrow> r < off (cs ! k)"
proof -
  have "k \<le> length cs \<and> bs = cs_content (take k cs) \<and> n = length bs + r \<and> (k < length cs \<longrightarrow> r < off (cs ! k))"
    using assms
  proof (induction cs arbitrary: n bs k)
    case (Cons c cs)
    show ?case
    proof (cases "n \<ge> off c")
      case True
      with Cons.prems(2) obtain bs' k' where
        p: "pull_loop cs (n - off c) = (bs', k', r)" "bs = cdata c @ bs'" "k = Suc k'"
        by (auto split: prod.splits)
      from Cons.IH [OF _ p(1)] Cons.prems(1) p True show ?thesis by auto
    qed (use Cons.prems in auto)
  qed auto
  then show "k \<le> length cs" "bs = cs_content (take k cs)" "n = length bs + r" "k < length cs \<Longrightarrow> r < off (cs ! k)"
    by auto
qed

lemma chain_consume:
  assumes "chain_ok d" "r \<le> off d"
  shows "chain_ok (d\<lparr>misalign := misalign d + r, off := off d - r\<rparr>)"
    "cdata (d\<lparr>misalign := misalign d + r, off := off d - r\<rparr>) = drop r (cdata d)"
  using assms by (auto simp: chain_ok_def cdata_def drop_take add.commute)

text \<open>
  The bytes taken from \<open>rest\<close> and what is left of it.
\<close>

lemma pull_rest:
  assumes ok: "\<forall>c \<in> set rest. chain_ok c" and n: "n \<le> sum_list (map off rest)"
    and p: "pull_loop rest n = (bs, k, r)"
    and q: "(bytes, rest') = (case drop k rest of [] \<Rightarrow> (bs, [])
             | d # ds \<Rightarrow> (bs @ take r (cdata d), d\<lparr>misalign := misalign d + r, off := off d - r\<rparr> # ds))"
  shows "length bytes = n" "bytes @ cs_content rest' = cs_content rest" "\<forall>c \<in> set rest'. chain_ok c"
    "length rest' = length rest - k" "rest' \<noteq> [] \<Longrightarrow> off (hd rest') \<noteq> 0"
    "i < length rest' \<Longrightarrow> 0 < i \<Longrightarrow> rest' ! i = rest ! (k + i)" "tl rest' = drop (Suc k) rest"
proof -
  note pl = pull_loop_ok [OF ok p]
  have "length bytes = n \<and> bytes @ cs_content rest' = cs_content rest \<and> (\<forall>c \<in> set rest'. chain_ok c) \<and>
    length rest' = length rest - k \<and> (rest' \<noteq> [] \<longrightarrow> off (hd rest') \<noteq> 0) \<and>
    (i < length rest' \<longrightarrow> 0 < i \<longrightarrow> rest' ! i = rest ! (k + i)) \<and> tl rest' = drop (Suc k) rest"
  proof (cases "k < length rest")
    case True
    then have d: "drop k rest = rest ! k # drop (Suc k) rest" by (simp add: Cons_nth_drop_Suc)
    let ?d = "rest ! k"
    have dk: "chain_ok ?d" "r < off ?d" using ok True pl(4) by auto
    have s: "rest = take k rest @ ?d # drop (Suc k) rest" using True by (rule id_take_nth_drop)
    have b: "bytes = bs @ take r (cdata ?d)" "rest' = ?d\<lparr>misalign := misalign ?d + r, off := off ?d - r\<rparr> # drop (Suc k) rest"
      using q d by auto
    have "cs_content rest = bs @ cdata ?d @ cs_content (drop (Suc k) rest)"
      by (subst s) (simp add: pl(2))
    then have "bytes @ cs_content rest' = cs_content rest"
      using b chain_consume(2) [OF dk(1), of r] dk(2) by simp
    moreover have "\<forall>c \<in> set rest'. chain_ok c"
      using b chain_consume(1) [OF dk(1)] dk(2) ok by (auto dest: in_set_dropD)
    ultimately show ?thesis using b pl(3) dk True by auto
  next
    case False
    then have b: "bytes = bs" "rest' = []" "bs = cs_content rest" using q pl(2) by auto
    then have "length bs = sum_list (map off rest)" using length_cs_content [OF ok] by simp
    then show ?thesis using b pl(3) n False by auto
  qed
  then show "length bytes = n" "bytes @ cs_content rest' = cs_content rest" "\<forall>c \<in> set rest'. chain_ok c"
    "length rest' = length rest - k" "rest' \<noteq> [] \<Longrightarrow> off (hd rest') \<noteq> 0"
    "i < length rest' \<Longrightarrow> 0 < i \<Longrightarrow> rest' ! i = rest ! (k + i)" "tl rest' = drop (Suc k) rest" by auto
qed

lemma pull_into_ok:
  assumes inv: "evbuffer_ok b" and s0: "s0 = 1 \<and> tmp = hd (chains b) \<and> chains b \<noteq> [] \<or> s0 = 0 \<and> off tmp = 0 \<and> chains b \<noteq> []"
    and t: "chain_ok tmp" "off tmp < sz" "misalign tmp + sz \<le> buffer_len tmp" "sz \<le> total_len b"
    and first: "off (hd (chains b)) < sz"
  shows "\<exists>bytes b'. pull_into b tmp s0 sz = Some (Some bytes, b') \<and> evbuffer_ok b' \<and> content b' = content b \<and>
    bytes = take sz (content b) \<and> freeze_start b' = freeze_start b \<and> freeze_end b' = freeze_end b"
proof -
  let ?cs = "chains b" and ?rest = "drop s0 (chains b)" and ?l = "last_with_data b"
  obtain bs k r where p: "pull_loop ?rest (sz - off tmp) = (bs, k, r)" using prod_cases3 by blast
  obtain bytes rest' where q: "(bytes, rest') = (case drop k ?rest of [] \<Rightarrow> (bs, [])
     | d # ds \<Rightarrow> (bs @ take r (cdata d), d\<lparr>misalign := misalign d + r, off := off d - r\<rparr> # ds))"
    by (rule that [OF prod.collapse])
  have ok: "\<forall>c \<in> set ?rest. chain_ok c" using inv by (auto simp: evbuffer_ok_def dest: in_set_dropD)
  have tot: "total_len b = sum_list (map off ?cs)" using inv by (simp add: evbuffer_ok_def)
  have sp: "?cs = take s0 ?cs @ ?rest" by simp
  have pre: "sum_list (map off (take s0 ?cs)) = off tmp" "cs_content (take s0 ?cs) = cdata tmp"
    using s0 by (cases ?cs; auto)+
  have n: "sz - off tmp \<le> sum_list (map off ?rest)"
  proof -
    have "sum_list (map off ?cs) = sum_list (map off (take s0 ?cs)) + sum_list (map off ?rest)"
      by (subst sp) (simp only: map_append sum_list_append)
    then show ?thesis using t(4) tot pre(1) by simp
  qed
  note pr = pull_rest [OF ok n p q]
  have kp: "s0 = 0 \<Longrightarrow> k \<ge> 1" using p s0 first by (cases ?cs) (auto split: prod.splits if_splits)
  define l' where "l' = (if s0 \<le> ?l \<and> ?l < s0 + k then 0
     else if k \<ge> 1 \<and> ?l = s0 + k then (if rest' \<noteq> [] \<and> off (hd rest') \<noteq> 0 then 1 else 0)
     else if ?l < s0 then ?l else ?l - (s0 + k) + 1)"
  obtain nb where nb: "memcpy (cbuf tmp) (misalign tmp + off tmp) bytes = Some nb"
    using t pr(1) by (simp add: memcpy_def)
  let ?t = "tmp\<lparr>cbuf := nb, off := sz\<rparr>"
  have tc: "chain_ok ?t" "cdata ?t = cdata tmp @ bytes"
    using chain_append [OF t(1) _ nb] t pr(1) by simp_all
  have ct: "content b = cdata tmp @ cs_content ?rest" by (simp add: content_def, subst sp) (simp only: cs_content_simps pre)
  let ?b = "b\<lparr>chains := ?t # rest', last_with_data := l'\<rparr>"
  have cont: "content ?b = content b" using tc(2) pr(2) ct by (simp add: content_def)
  have lw: "evbuffer_chains_all_empty (drop (Suc ?l) ?cs)" "?l = 0 \<or> ?l < length ?cs \<and> off (?cs ! ?l) \<noteq> 0"
    using inv by (auto simp: evbuffer_ok_def lwd_ok_def)
  have dr: "drop (Suc k) ?rest = drop (s0 + Suc k) ?cs" by (simp add: add.commute)
  have emp: "rest' = []" if "evbuffer_chains_all_empty (drop k ?rest)"
  proof -
    have "\<not> k < length ?rest"
    proof
      assume k: "k < length ?rest"
      then have "?rest ! k \<in> set (drop k ?rest)" by (metis Cons_nth_drop_Suc list.set_intros(1))
      then have "off (?rest ! k) = 0" using that by (simp only: evbuffer_chains_all_empty_def)
      then show False using pull_loop_ok(4) [OF ok p k] by simp
    qed
    then show ?thesis using pr(4) by simp
  qed
  have "lwd_ok (?t # rest') l'"
  proof -
    consider (inside) "?l < s0 + k" | (at) "?l = s0 + k" | (after) "?l > s0 + k" by linarith
    then show ?thesis
    proof cases
      case inside
      then have "evbuffer_chains_all_empty (drop (s0 + k) ?cs)"
        using all_empty_drop [OF lw(1), of "s0 + k - Suc ?l"] unfolding drop_drop
        by (metis Suc_leI le_add_diff_inverse2)
      then have "rest' = []" by (intro emp) (simp add: add.commute)
      then show ?thesis using inside s0 by (auto simp: lwd_ok_def l'_def evbuffer_chains_all_empty_def)
    next
      case at
      have "?l \<noteq> 0" using at kp s0 by auto
      then have "s0 + k < length ?cs" using lw(2) at by auto
      then have ne: "rest' \<noteq> []" using pr(4) by auto
      have "l' = 1" using at ne pr(5) s0 by (auto simp: l'_def)
      moreover have "evbuffer_chains_all_empty (tl rest')" using lw(1) at pr(7) dr by simp
      ultimately show ?thesis using ne pr(5) by (cases rest') (auto simp: lwd_ok_def)
    next
      case after
      define i where "i = ?l - (s0 + k)"
      have i: "0 < i" "?l = s0 + k + i" "l' = Suc i" using after s0 by (auto simp: i_def l'_def)
      have "?l < length ?cs" using lw(2) after by auto
      then have il: "i < length rest'" using pr(4) i by simp
      have "off (rest' ! i) \<noteq> 0"
        using pr(6) [OF il i(1)] lw(2) i \<open>?l < length ?cs\<close> by (auto simp: add.assoc)
      moreover have "drop (Suc i) rest' = drop i (tl rest')" by (simp add: drop_Suc)
      then have "drop (Suc i) rest' = drop (Suc ?l) ?cs"
        using pr(7) dr i by (simp add: add.commute add.left_commute)
      ultimately show ?thesis using il i(3) lw(1) by (simp add: lwd_ok_def)
    qed
  qed
  moreover have "sum_list (map off (?t # rest')) = total_len b"
  proof -
    have "\<forall>c \<in> set (?t # rest'). chain_ok c" using tc(1) pr(3) by simp
    from length_cs_content [OF this] have "sum_list (map off (?t # rest')) = length (content ?b)"
      by (simp add: content_def)
    then show ?thesis using cont length_content [OF inv] by simp
  qed
  ultimately have "evbuffer_ok ?b" using inv tc(1) pr(3) by (simp add: evbuffer_ok_def)
  moreover have "cdata ?t = take sz (content b)"
    unfolding tc(2) ct pr(2) [symmetric] using pr(1) t(1,2) by simp
  moreover have "pull_into b tmp s0 sz = Some (Some (cdata ?t), ?b)"
    unfolding pull_into_def Let_def p case_prod_conv q [symmetric] l'_def by (simp add: nb)
  ultimately show ?thesis using cont by simp
qed

lemma pull_pinned_none: "\<forall>c \<in> set cs. \<not> CHAIN_PINNED c \<Longrightarrow> \<not> pull_pinned cs n"
  by (induction cs arbitrary: n) auto

lemma evbuffer_pullup_ok:
  fixes size0 :: int
  assumes inv: "evbuffer_ok b"
  defines "sz \<equiv> (if size0 < 0 then total_len b else nat size0)"
  shows "\<exists>res b'. evbuffer_pullup ok b size0 = Some (res, b') \<and> evbuffer_ok b' \<and> content b' = content b \<and>
    freeze_start b' = freeze_start b \<and> freeze_end b' = freeze_end b \<and>
    (case res of None \<Rightarrow> sz = 0 \<or> sz > total_len b \<or> \<not> alloc_serves ok sz
     | Some bytes \<Rightarrow> 0 < sz \<and> sz \<le> total_len b \<and> take sz bytes = take sz (content b) \<and>
         sz \<le> length bytes)"
proof (cases "sz = 0 \<or> sz > total_len b")
  case True
  then show ?thesis using inv by (auto simp: evbuffer_pullup_def sz_def [symmetric] Let_def)
next
  case False
  then have "chains b \<noteq> []" using inv by (auto simp: evbuffer_ok_def)
  then obtain c cs where cs: "chains b = c # cs" by (cases "chains b") auto
  have cok: "chain_ok c" "\<not> CHAIN_PINNED c" using inv cs by (auto simp: evbuffer_ok_def)
  have npc: "\<not> pull_pinned cs (sz - off c)" using inv cs pull_pinned_none by (simp add: evbuffer_ok_def)
  have unf: "evbuffer_pullup ok b size0 =
     (if off c \<ge> sz then Some (Some (cdata c), b)
      else if buffer_len c - misalign c \<ge> sz then pull_into b c 1 sz
      else (case evbuffer_chain_new ok sz of None \<Rightarrow> Some (None, b) | Some tmp \<Rightarrow> pull_into b tmp 0 sz))"
    using False cs cok(2) npc by (simp add: evbuffer_pullup_def sz_def [symmetric])
  have len: "length (content b) = total_len b" using inv by simp
  consider (here) "off c \<ge> sz" | (room) "off c < sz" "buffer_len c - misalign c \<ge> sz"
    | (oom) "off c < sz" "\<not> buffer_len c - misalign c \<ge> sz" "evbuffer_chain_new ok sz = None"
    | (new) t where "off c < sz" "\<not> buffer_len c - misalign c \<ge> sz" "evbuffer_chain_new ok sz = Some t"
    by fastforce
  then show ?thesis
  proof cases
    case here
    have "content b = cdata c @ cs_content cs" using cs by (simp add: content_def)
    then show ?thesis using here unf inv False cok by auto
  next
    case room
    from pull_into_ok [OF inv _ cok(1) room(1), of 1] room cs False cok(1) unf len show ?thesis
      by (fastforce simp: chain_ok_def)
  next
    case oom
    then show ?thesis using unf inv chain_new_serves [of ok sz] by auto
  next
    case new
    note tn = evbuffer_chain_new_ok [OF new(3)]
    from pull_into_ok [OF inv _ tn(2), of 0 sz] new cs False tn unf len show ?thesis by fastforce
  qed
qed

section \<open>Transfers between buffers\<close>

text \<open>
  \<^verbatim>\<open>PRESERVE_PINNED\<close> takes the read-pinned chains off the source before its chains are moved;
  it gives the return code, the preserved chains and the source.
\<close>

definition PRESERVE_PINNED ::
  "(nat \<Rightarrow> bool) \<Rightarrow> evbuffer \<Rightarrow> (int \<times> evbuffer_chain list \<times> evbuffer) option" where
  "PRESERVE_PINNED ok src =
     (if \<not> HAS_PINNED_R src then Some (0, [], src)
      else
        (let l = last_with_data src;
             p = (if l < length (chains src) \<and> CHAIN_PINNED_R (chains src ! l) then l else Suc l)
         in if l \<ge> length (chains src) \<or> p \<ge> length (chains src) \<or> \<not> CHAIN_PINNED_R (chains src ! p) then None
            else
              (let c = chains src ! p in
               if off c \<noteq> 0 then
                 (if p \<noteq> l then None
                  else (case evbuffer_chain_new ok (off c) of
                      None \<Rightarrow> Some (-1, drop p (chains src), src)
                    | Some tmp \<Rightarrow> do {
                        nb \<leftarrow> memcpy (cbuf tmp) 0 (cdata c);
                        Some (0, c\<lparr>misalign := misalign c + off c, off := 0\<rparr> # drop (Suc p) (chains src),
                              src\<lparr>chains := take l (chains src) @ [tmp\<lparr>cbuf := nb, off := off c\<rparr>]\<rparr>) }))
               else Some (0, drop p (chains src), src\<lparr>chains := take p (chains src)\<rparr>))))"

definition RESTORE_PINNED :: "evbuffer \<Rightarrow> evbuffer_chain list \<Rightarrow> evbuffer" where
  "RESTORE_PINNED src pinned = src\<lparr>chains := pinned, last_with_data := 0, total_len := 0\<rparr>"

definition COPY_CHAIN :: "evbuffer \<Rightarrow> evbuffer \<Rightarrow> evbuffer" where
  "COPY_CHAIN dst src =
     dst\<lparr>chains := chains src, last_with_data := last_with_data src, total_len := total_len src\<rparr>"

definition APPEND_CHAIN :: "evbuffer \<Rightarrow> evbuffer \<Rightarrow> evbuffer option" where
  "APPEND_CHAIN dst src = do {
     (p, dst1) \<leftarrow> evbuffer_free_trailing_empty_chains dst;
     Some (dst1\<lparr>chains := chains dst1 @ chains src, last_with_data := p + last_with_data src,
               total_len := total_len dst1 + total_len src\<rparr>) }"

definition PREPEND_CHAIN :: "evbuffer \<Rightarrow> evbuffer \<Rightarrow> evbuffer option" where
  "PREPEND_CHAIN dst src =
     (if chains src = [] then None
      else Some (dst\<lparr>chains := chains src @ chains dst,
        last_with_data := (if last_with_data dst \<ge> length (chains dst) then last_with_data src
                           else length (chains src) + last_with_data dst),
        total_len := total_len dst + total_len src\<rparr>))"

text \<open>The results are the return code and the two buffers, \<open>outbuf\<close> first.\<close>

definition transfer_done :: "evbuffer \<Rightarrow> evbuffer \<Rightarrow> evbuffer_chain list \<Rightarrow> nat \<Rightarrow> int \<times> evbuffer \<times> evbuffer" where
  "transfer_done outbuf inbuf pinned in_total_len =
     (let i1 = RESTORE_PINNED inbuf pinned;
          i2 = i1\<lparr>n_del_for_cb := n_del_for_cb i1 + in_total_len\<rparr>;
          o2 = outbuf\<lparr>n_add_for_cb := n_add_for_cb outbuf + in_total_len\<rparr>
      in (0, evbuffer_invoke_callbacks o2, evbuffer_invoke_callbacks i2))"

definition evbuffer_add_buffer ::
  "(nat \<Rightarrow> bool) \<Rightarrow> evbuffer \<Rightarrow> evbuffer \<Rightarrow> (int \<times> evbuffer \<times> evbuffer) option" where
  "evbuffer_add_buffer ok outbuf inbuf =
     (let in_total_len = total_len inbuf in
      if in_total_len = 0 then Some (0, outbuf, inbuf)
      else if freeze_end outbuf \<or> freeze_start inbuf then Some (-1, outbuf, inbuf)
      else do {
        (r, pinned, in1) \<leftarrow> PRESERVE_PINNED ok inbuf;
        if r < 0 then Some (-1, outbuf, in1)
        else do {
          out1 \<leftarrow> (if total_len outbuf = 0 then Some (COPY_CHAIN outbuf in1) else APPEND_CHAIN outbuf in1);
          Some (transfer_done out1 in1 pinned in_total_len) } })"

definition evbuffer_prepend_buffer ::
  "(nat \<Rightarrow> bool) \<Rightarrow> evbuffer \<Rightarrow> evbuffer \<Rightarrow> (int \<times> evbuffer \<times> evbuffer) option" where
  "evbuffer_prepend_buffer ok outbuf inbuf =
     (let in_total_len = total_len inbuf in
      if in_total_len = 0 then Some (0, outbuf, inbuf)
      else if freeze_start outbuf \<or> freeze_start inbuf then Some (-1, outbuf, inbuf)
      else do {
        (r, pinned, in1) \<leftarrow> PRESERVE_PINNED ok inbuf;
        if r < 0 then Some (-1, outbuf, in1)
        else do {
          out1 \<leftarrow> (if total_len outbuf = 0 then Some (COPY_CHAIN outbuf in1) else PREPEND_CHAIN outbuf in1);
          Some (transfer_done out1 in1 pinned in_total_len) } })"

definition advance_last_with_data :: "evbuffer \<Rightarrow> evbuffer" where
  "advance_last_with_data b =
     (let l = last_with_data b;
          later = filter (\<lambda>i. off (chains b ! i) \<noteq> 0) [Suc l..<length (chains b)]
      in if later = [] then b else b\<lparr>last_with_data := last later\<rparr>)"

text \<open>The chains of the source that are moved as a whole: their number, and the bytes still wanted.\<close>

fun remove_loop :: "evbuffer_chain list \<Rightarrow> nat \<Rightarrow> nat \<Rightarrow> (nat \<times> nat) option" where
  "remove_loop [] lwd datlen = None"
| "remove_loop (c # cs) lwd datlen =
     (if off c \<le> datlen then
        (if lwd = 0 then None
         else map_option (\<lambda>(k, r). (Suc k, r)) (remove_loop cs (lwd - 1) (datlen - off c)))
      else Some (0, datlen))"

text \<open>
  The return value of the inner \<^verbatim>\<open>evbuffer_add\<close> is ignored, as in the source.
\<close>

definition evbuffer_remove_buffer ::
  "(nat \<Rightarrow> bool) \<Rightarrow> evbuffer \<Rightarrow> evbuffer \<Rightarrow> nat \<Rightarrow> (int \<times> evbuffer \<times> evbuffer) option" where
  "evbuffer_remove_buffer ok src dst datlen =
     (if datlen = 0 then Some (0, src, dst)
      else if freeze_end dst \<or> freeze_start src then Some (-1, src, dst)
      else if datlen \<ge> total_len src then do {
        (r, dst1, src1) \<leftarrow> evbuffer_add_buffer ok dst src;
        Some (c_int (int (total_len src)), src1, dst1) }
      else do {
        (k, r) \<leftarrow> remove_loop (chains src) (last_with_data src) datlen;
        let moved = take k (chains src);
        let nread = datlen - r;
        dst1 \<leftarrow> (if k \<noteq> 0 then do {
                    (p, d) \<leftarrow> evbuffer_free_trailing_empty_chains dst;
                    let d1 = advance_last_with_data (d\<lparr>chains := chains d @ moved\<rparr>);
                    Some (d1\<lparr>total_len := total_len d1 + nread, n_add_for_cb := n_add_for_cb d1 + nread\<rparr>) }
                 else Some dst);
        let c = chains src ! k;
        (ra, dst2) \<leftarrow> evbuffer_add ok dst1 (take r (cdata c));
        let src1 = src\<lparr>chains := c\<lparr>misalign := misalign c + r, off := off c - r\<rparr> # drop (Suc k) (chains src),
                      last_with_data := last_with_data src - k,
                      total_len := total_len src - (nread + r),
                      n_del_for_cb := n_del_for_cb src + (nread + r)\<rparr>;
        Some (c_int (int (nread + r)),
              (if nread + r \<noteq> 0 then evbuffer_invoke_callbacks src1 else src1),
              (if nread + r \<noteq> 0 then evbuffer_invoke_callbacks dst2 else dst2)) })"

lemma preserve_unpinned: "\<not> HAS_PINNED_R src \<Longrightarrow> PRESERVE_PINNED ok src = Some (0, [], src)"
  by (simp add: PRESERVE_PINNED_def)

lemma free_trailing_ok:
  assumes inv: "evbuffer_ok b" "chains b \<noteq> []"
  shows "\<exists>p. evbuffer_free_trailing_empty_chains b = Some (p, b\<lparr>chains := take p (chains b)\<rparr>) \<and>
    p \<le> length (chains b) \<and> last_with_data b \<le> p \<and> evbuffer_chains_all_empty (drop p (chains b)) \<and>
    (off (chains b ! last_with_data b) \<noteq> 0 \<longrightarrow> last_with_data b < p)"
proof -
  define i where "i = last_with_data b"
  let ?cs = "chains b"
  let ?p = "i + trailing_pos (drop i ?cs)"
  have i: "i < length ?cs" "evbuffer_chains_all_empty (drop (Suc i) ?cs)"
    using inv lwd_index by (auto simp: evbuffer_ok_def lwd_ok_def i_def)
  have dr: "drop i ?cs = ?cs ! i # drop (Suc i) ?cs" using i(1) by (simp add: Cons_nth_drop_Suc)
  have pl: "?p \<le> length ?cs" using trailing_pos_le [of "drop i ?cs"] i(1) by simp
  have e: "evbuffer_chains_all_empty (drop ?p ?cs)"
  proof (cases "?p = i")
    case True
    then have "off (?cs ! i) = 0" using dr by (auto split: if_splits)
    then show ?thesis using True i(2) dr by (auto simp: evbuffer_chains_all_empty_def)
  next
    case False
    then obtain k where k: "?p = Suc i + k" using le_Suc_ex [of "Suc i" ?p] by auto
    then have "drop ?p ?cs = drop k (drop (Suc i) ?cs)" by (simp add: add.commute)
    with all_empty_drop [OF i(2)] show ?thesis by simp
  qed
  have "off (?cs ! i) \<noteq> 0 \<Longrightarrow> i < ?p" using dr by simp
  then show ?thesis using e pl
    by (simp add: evbuffer_free_trailing_empty_chains_def i_def [symmetric] Let_def)
qed

text \<open>A source without data after the transfer.\<close>

lemma restore_ok: "evbuffer_ok (RESTORE_PINNED b [])" "content (RESTORE_PINNED b []) = []"
  by (simp_all add: RESTORE_PINNED_def evbuffer_ok_def content_def lwd_ok_def evbuffer_chains_all_empty_def)

lemma transfer_done_ok:
  "\<exists>o' i'. transfer_done outbuf inbuf [] n = (0, o', i') \<and> evbuffer_ok o' = evbuffer_ok outbuf \<and>
    content o' = content outbuf \<and> evbuffer_ok i' \<and> content i' = []"
  using restore_ok [of inbuf] by (simp add: transfer_done_def Let_def evbuffer_ok_def content_def)

lemma lwd_data: "evbuffer_ok b \<Longrightarrow> total_len b \<noteq> 0 \<Longrightarrow>
    last_with_data b < length (chains b) \<and> off (chains b ! last_with_data b) \<noteq> 0"
proof -
  assume inv: "evbuffer_ok b" and t: "total_len b \<noteq> 0"
  then have ne: "chains b \<noteq> []" by (auto simp: evbuffer_ok_def)
  have "off (chains b ! 0) \<noteq> 0" if "last_with_data b = 0"
  proof
    assume z: "off (chains b ! 0) = 0"
    have "evbuffer_chains_all_empty (drop (Suc 0) (chains b))"
      using inv that by (auto simp: evbuffer_ok_def lwd_ok_def)
    then have "evbuffer_chains_all_empty (chains b)"
      using z ne by (cases "chains b") (auto simp: evbuffer_chains_all_empty_def)
    then show False using all_empty_sum inv t by (simp add: evbuffer_ok_def)
  qed
  then show ?thesis using inv lwd_index [OF inv ne] by (cases "last_with_data b = 0") (auto simp: evbuffer_ok_def lwd_ok_def)
qed

lemma copy_chain_ok:
  "evbuffer_ok src \<Longrightarrow> evbuffer_ok (COPY_CHAIN dst src) \<and> content (COPY_CHAIN dst src) = content src"
  by (simp add: COPY_CHAIN_def evbuffer_ok_def content_def)

lemma append_chain_ok:
  assumes d: "evbuffer_ok dst" "total_len dst \<noteq> 0" and s: "evbuffer_ok src" "total_len src \<noteq> 0"
    and tot: "total_len dst + total_len src \<le> EV_SIZE_MAX"
  shows "\<exists>d'. APPEND_CHAIN dst src = Some d' \<and> evbuffer_ok d' \<and> content d' = content dst @ content src"
proof -
  have ne: "chains dst \<noteq> []" using d by (auto simp: evbuffer_ok_def)
  from free_trailing_ok [OF d(1) ne] obtain p where
    p: "evbuffer_free_trailing_empty_chains dst = Some (p, dst\<lparr>chains := take p (chains dst)\<rparr>)"
    "p \<le> length (chains dst)" "evbuffer_chains_all_empty (drop p (chains dst))" by blast
  let ?t = "take p (chains dst)"
  have sp: "chains dst = ?t @ drop p (chains dst)" by simp
  have c: "cs_content (chains dst) = cs_content ?t" "sum_list (map off (chains dst)) = sum_list (map off ?t)"
    by (subst sp, simp only: cs_content_simps map_append sum_list_append all_empty_content [OF p(3)]
        all_empty_sum [OF p(3)] append_Nil2 add_0_right)+
  have "lwd_ok (?t @ chains src) (p + last_with_data src)"
    using lwd_data [OF s] s(1) p(2) by (auto simp: lwd_ok_def evbuffer_ok_def nth_append)
  then show ?thesis using p(1) c d(1) s(1) tot
    by (auto simp: APPEND_CHAIN_def evbuffer_ok_def content_def dest: in_set_takeD)
qed

lemma prepend_chain_ok:
  assumes d: "evbuffer_ok dst" "total_len dst \<noteq> 0" and s: "evbuffer_ok src" "total_len src \<noteq> 0"
    and tot: "total_len dst + total_len src \<le> EV_SIZE_MAX"
  shows "\<exists>d'. PREPEND_CHAIN dst src = Some d' \<and> evbuffer_ok d' \<and> content d' = content src @ content dst"
proof -
  have ne: "chains src \<noteq> []" using s by (auto simp: evbuffer_ok_def)
  have "lwd_ok (chains src @ chains dst) (length (chains src) + last_with_data dst)"
    using lwd_data [OF d] d(1) by (auto simp: lwd_ok_def evbuffer_ok_def nth_append)
  then show ?thesis using ne lwd_data [OF d] d(1) s(1) tot
    by (auto simp: PREPEND_CHAIN_def evbuffer_ok_def content_def)
qed

text \<open>
  Moving a whole buffer: the bytes of \<open>inbuf\<close> end up behind (or in front of) those of \<open>outbuf\<close>,
  and \<open>inbuf\<close> is empty.
\<close>

lemma evbuffer_add_buffer_ok:
  assumes o: "evbuffer_ok outbuf" "\<not> freeze_end outbuf" and i: "evbuffer_ok inbuf" "\<not> freeze_start inbuf"
    and tot: "total_len outbuf + total_len inbuf \<le> EV_SIZE_MAX"
  shows "\<exists>o' i'. evbuffer_add_buffer ok outbuf inbuf = Some (0, o', i') \<and> evbuffer_ok o' \<and> evbuffer_ok i' \<and>
    content o' = content outbuf @ content inbuf \<and> content i' = []"
proof (cases "total_len inbuf = 0")
  case True
  then have "content inbuf = []" using length_content [OF i(1)] by simp
  then show ?thesis using True o i by (simp add: evbuffer_add_buffer_def)
next
  case False
  obtain out1 where out1: "(if total_len outbuf = 0 then Some (COPY_CHAIN outbuf inbuf)
      else APPEND_CHAIN outbuf inbuf) = Some out1" "evbuffer_ok out1" "content out1 = content outbuf @ content inbuf"
  proof (cases "total_len outbuf = 0")
    case True
    then have "content outbuf = []" using length_content [OF o(1)] by simp
    then show thesis using that True copy_chain_ok [OF i(1), of outbuf] by simp
  next
    case ne: False
    from append_chain_ok [OF o(1) ne i(1) False tot] that ne show thesis by auto
  qed
  from transfer_done_ok [of out1 inbuf "total_len inbuf"] out1 show ?thesis
    using False o i preserve_unpinned [OF evbuffer_unpinned [OF i(1)]] by (auto simp: evbuffer_add_buffer_def Let_def)
qed

lemma evbuffer_prepend_buffer_ok:
  assumes o: "evbuffer_ok outbuf" "\<not> freeze_start outbuf" and i: "evbuffer_ok inbuf" "\<not> freeze_start inbuf"
    and tot: "total_len outbuf + total_len inbuf \<le> EV_SIZE_MAX"
  shows "\<exists>o' i'. evbuffer_prepend_buffer ok outbuf inbuf = Some (0, o', i') \<and> evbuffer_ok o' \<and> evbuffer_ok i' \<and>
    content o' = content inbuf @ content outbuf \<and> content i' = []"
proof (cases "total_len inbuf = 0")
  case True
  then have "content inbuf = []" using length_content [OF i(1)] by simp
  then show ?thesis using True o i by (simp add: evbuffer_prepend_buffer_def)
next
  case False
  obtain out1 where out1: "(if total_len outbuf = 0 then Some (COPY_CHAIN outbuf inbuf)
      else PREPEND_CHAIN outbuf inbuf) = Some out1" "evbuffer_ok out1" "content out1 = content inbuf @ content outbuf"
  proof (cases "total_len outbuf = 0")
    case True
    then have "content outbuf = []" using length_content [OF o(1)] by simp
    then show thesis using that True copy_chain_ok [OF i(1), of outbuf] by simp
  next
    case ne: False
    from prepend_chain_ok [OF o(1) ne i(1) False tot] that ne show thesis by auto
  qed
  from transfer_done_ok [of out1 inbuf "total_len inbuf"] out1 show ?thesis
    using False o i preserve_unpinned [OF evbuffer_unpinned [OF i(1)]] by (auto simp: evbuffer_prepend_buffer_def Let_def)
qed

section \<open>Moving a part of a buffer\<close>

lemma remove_loop_ok:
  assumes "\<forall>c \<in> set cs. chain_ok c" "lwd_ok cs lwd" "n < sum_list (map off cs)"
  shows "\<exists>k r. remove_loop cs lwd n = Some (k, r) \<and> k < length cs \<and> r < off (cs ! k) \<and>
    n = sum_list (map off (take k cs)) + r \<and> lwd_ok (drop k cs) (lwd - k)"
  using assms
proof (induction cs arbitrary: lwd n)
  case (Cons c cs)
  show ?case
  proof (cases "off c \<le> n")
    case True
    then have s: "n - off c < sum_list (map off cs)" using Cons.prems(3) by auto
    then have l: "lwd_ok cs (lwd - 1)" by (intro lwd_ok_tl [OF Cons.prems(2)]) linarith
    have "lwd \<noteq> 0"
    proof
      assume "lwd = 0"
      then have "evbuffer_chains_all_empty cs" using Cons.prems(2) by (simp add: lwd_ok_def)
      then show False using s all_empty_sum by fastforce
    qed
    moreover from Cons.IH [OF _ l s] Cons.prems(1) obtain k r where
      "remove_loop cs (lwd - 1) (n - off c) = Some (k, r)" "k < length cs" "r < off (cs ! k)"
      "n - off c = sum_list (map off (take k cs)) + r" "lwd_ok (drop k cs) (lwd - 1 - k)" by auto
    ultimately show ?thesis using True by (intro exI [of _ "Suc k"] exI [of _ r]) auto
  qed (use Cons.prems in auto)
qed simp

lemma sorted_le_last: "sorted xs \<Longrightarrow> x \<in> set xs \<Longrightarrow> x \<le> last xs"
  by (induction xs) (auto intro: last_in_set)

lemma last_filter_upt:
  assumes "filter P [a..<n] \<noteq> []"
  defines "m \<equiv> last (filter P [a..<n])"
  shows "a \<le> m" "m < n" "P m" "\<And>i. m < i \<Longrightarrow> i < n \<Longrightarrow> \<not> P i"
proof -
  have "m \<in> set (filter P [a..<n])" unfolding m_def using assms(1) by (rule last_in_set)
  then show m: "a \<le> m" "m < n" "P m" by auto
  have "sorted (filter P [a..<n])" by (simp add: sorted_wrt_filter)
  then have "x \<le> m" if "x \<in> set (filter P [a..<n])" for x
    using that unfolding m_def by (rule sorted_le_last)
  then show "\<not> P i" if "m < i" "i < n" for i using that m(1) by fastforce
qed

lemma all_empty_nth: "evbuffer_chains_all_empty (drop a cs) \<longleftrightarrow> (\<forall>i. a \<le> i \<and> i < length cs \<longrightarrow> off (cs ! i) = 0)"
proof -
  have "(\<forall>j < length cs - a. off (cs ! (a + j)) = 0) \<longleftrightarrow> (\<forall>i. a \<le> i \<and> i < length cs \<longrightarrow> off (cs ! i) = 0)"
    by (metis add_less_cancel_left le_add1 le_add_diff_inverse less_diff_conv add.commute)
  then show ?thesis by (simp add: evbuffer_chains_all_empty_def all_set_conv_all_nth)
qed

lemma advance_lwd_ok:
  assumes "last_with_data b = 0 \<or> last_with_data b < length (chains b) \<and> off (chains b ! last_with_data b) \<noteq> 0"
  shows "lwd_ok (chains b) (last_with_data (advance_last_with_data b))"
proof -
  let ?P = "\<lambda>i. off (chains b ! i) \<noteq> 0"
  let ?l = "filter ?P [Suc (last_with_data b)..<length (chains b)]"
  show ?thesis
  proof (cases "?l = []")
    case True
    then have "\<forall>i. Suc (last_with_data b) \<le> i \<and> i < length (chains b) \<longrightarrow> off (chains b ! i) = 0"
      by (simp add: filter_empty_conv)
    then show ?thesis using True assms by (simp add: advance_last_with_data_def Let_def lwd_ok_def all_empty_nth)
  next
    case False
    define m where "m = last ?l"
    note mp = last_filter_upt [OF False, folded m_def]
    have "\<forall>i. Suc m \<le> i \<and> i < length (chains b) \<longrightarrow> off (chains b ! i) = 0"
      using mp(4) Suc_le_lessD by blast
    then have "lwd_ok (chains b) m" using mp(2,3) by (simp only: lwd_ok_def all_empty_nth) simp
    moreover have "last_with_data (advance_last_with_data b) = m"
      using False by (simp add: advance_last_with_data_def Let_def m_def)
    ultimately show ?thesis by simp
  qed
qed

lemma advance_frame [simp]:
  "chains (advance_last_with_data b) = chains b" "total_len (advance_last_with_data b) = total_len b"
  "freeze_end (advance_last_with_data b) = freeze_end b"
  by (simp_all add: advance_last_with_data_def Let_def)

lemma move_chains_ok:
  assumes d: "evbuffer_ok dst" and m: "\<forall>c \<in> set moved. chain_ok c"
    and tot: "total_len dst + sum_list (map off moved) \<le> EV_SIZE_MAX"
  shows "\<exists>p d0. evbuffer_free_trailing_empty_chains dst = Some (p, d0) \<and>
    (let d1 = advance_last_with_data (d0\<lparr>chains := chains d0 @ moved\<rparr>);
         d2 = d1\<lparr>total_len := total_len d1 + sum_list (map off moved), n_add_for_cb := x\<rparr>
     in evbuffer_ok d2 \<and> content d2 = content dst @ cs_content moved \<and> freeze_end d2 = freeze_end dst \<and>
        total_len d2 = total_len dst + sum_list (map off moved))"
proof -
  obtain p where p: "evbuffer_free_trailing_empty_chains dst = Some (p, dst\<lparr>chains := take p (chains dst)\<rparr>)"
    "evbuffer_chains_all_empty (drop p (chains dst))"
    "last_with_data dst = 0 \<or> last_with_data dst < p \<and> p \<le> length (chains dst) \<and> off (chains dst ! last_with_data dst) \<noteq> 0"
  proof (cases "chains dst = []")
    case True
    then show thesis using that [of 0] d
      by (auto simp: evbuffer_free_trailing_empty_chains_def Let_def evbuffer_chains_all_empty_def
          evbuffer_ok_def lwd_ok_def)
  next
    case False
    from free_trailing_ok [OF d False] that d show thesis by (auto simp: evbuffer_ok_def lwd_ok_def)
  qed
  let ?t = "take p (chains dst)"
  have sp: "chains dst = ?t @ drop p (chains dst)" by simp
  have c: "cs_content (chains dst) = cs_content ?t" "sum_list (map off (chains dst)) = sum_list (map off ?t)"
    by (subst sp, simp only: cs_content_simps map_append sum_list_append all_empty_content [OF p(2)]
        all_empty_sum [OF p(2)] append_Nil2 add_0_right)+
  let ?d = "dst\<lparr>chains := ?t @ moved\<rparr>"
  have "last_with_data ?d = 0 \<or> last_with_data ?d < length (chains ?d) \<and> off (chains ?d ! last_with_data ?d) \<noteq> 0"
    using p(3) by (auto simp: nth_append)
  from advance_lwd_ok [OF this] p(1) c d m tot show ?thesis
    by (auto simp: Let_def evbuffer_ok_def content_def dest: in_set_takeD)
qed

lemma preserve_frame: "PRESERVE_PINNED ok src = Some (r, p, src') \<Longrightarrow> freeze_start src' = freeze_start src \<and> freeze_end src' = freeze_end src"
  by (auto simp: PRESERVE_PINNED_def Let_def split: if_splits option.splits bind_splits)

lemma append_chain_frame: "APPEND_CHAIN dst src = Some dst' \<Longrightarrow> freeze_start dst' = freeze_start dst \<and> freeze_end dst' = freeze_end dst"
  by (auto simp: APPEND_CHAIN_def evbuffer_free_trailing_empty_chains_def Let_def split: if_splits bind_splits)

lemma add_buffer_frame:
  assumes "evbuffer_add_buffer ok outbuf inbuf = Some (r, outbuf', inbuf')"
  shows "freeze_start inbuf' = freeze_start inbuf" "freeze_end outbuf' = freeze_end outbuf"
    "freeze_start outbuf' = freeze_start outbuf" "freeze_end inbuf' = freeze_end inbuf"
  using assms
  by (auto simp: evbuffer_add_buffer_def transfer_done_def RESTORE_PINNED_def COPY_CHAIN_def Let_def
      split: if_splits bind_splits dest!: preserve_frame append_chain_frame)

lemma evbuffer_remove_buffer_ok:
  assumes s: "evbuffer_ok src" "\<not> freeze_start src"
    and d: "evbuffer_ok dst" "\<not> freeze_end dst"
    and tot: "total_len dst + total_len src \<le> EV_SIZE_MAX" and al: "alloc_serves ok n"
  shows "\<exists>src' dst'. evbuffer_remove_buffer ok src dst n = Some (c_int (int (min n (total_len src))), src', dst') \<and>
    evbuffer_ok src' \<and> evbuffer_ok dst' \<and> freeze_start src' = freeze_start src \<and> freeze_end dst' = freeze_end dst \<and>
    content dst' = content dst @ take n (content src) \<and> content src' = drop n (content src)"
proof -
  have len: "length (content src) = total_len src" using s(1) by simp
  consider (zero) "n = 0" | (all) "n \<noteq> 0" "n \<ge> total_len src" | (part) "n \<noteq> 0" "n < total_len src" by linarith
  then show ?thesis
  proof cases
    case zero
    then show ?thesis using s d by (simp add: evbuffer_remove_buffer_def c_int_def)
  next
    case all
    from evbuffer_add_buffer_ok [OF d s tot, of ok] all s(2) d(2) len show ?thesis
      by (auto simp: evbuffer_remove_buffer_def min_def dest: add_buffer_frame(1,2))
  next
    case part
    let ?cs = "chains src"
    have ok: "\<forall>c \<in> set ?cs. chain_ok c" "lwd_ok ?cs (last_with_data src)" "n < sum_list (map off ?cs)"
      using s(1) part by (auto simp: evbuffer_ok_def)
    from remove_loop_ok [OF this] obtain k r where
      kr: "remove_loop ?cs (last_with_data src) n = Some (k, r)" "k < length ?cs" "r < off (?cs ! k)"
      "n = sum_list (map off (take k ?cs)) + r" "lwd_ok (drop k ?cs) (last_with_data src - k)" by blast
    define c where "c = ?cs ! k"
    let ?m = "take k ?cs" and ?rest = "drop (Suc k) ?cs"
    have sp: "?cs = ?m @ c # ?rest" "drop k ?cs = c # ?rest"
      using kr(2) id_take_nth_drop Cons_nth_drop_Suc unfolding c_def by fastforce+
    have cok: "chain_ok c" "r < off c" using ok(1) kr by (auto simp: c_def)
    have sum: "total_len src = sum_list (map off ?m) + off c + sum_list (map off ?rest)"
      using s(1) by (simp add: evbuffer_ok_def, subst sp(1)) simp
    have mok: "\<forall>c \<in> set ?m. chain_ok c" using ok(1) by (auto dest: in_set_takeD)
    have cont: "content src = cs_content ?m @ cdata c @ cs_content ?rest"
      by (simp add: content_def, subst sp(1)) simp
    have lm: "length (cs_content ?m) = n - r" using length_cs_content [OF mok] kr(4) by simp
    obtain dst1 where d1: "(if k \<noteq> 0 then do {
          (p, d) \<leftarrow> evbuffer_free_trailing_empty_chains dst;
          let d1 = advance_last_with_data (d\<lparr>chains := chains d @ ?m\<rparr>);
          Some (d1\<lparr>total_len := total_len d1 + (n - r), n_add_for_cb := n_add_for_cb d1 + (n - r)\<rparr>) }
        else Some dst) = Some dst1" "evbuffer_ok dst1" "content dst1 = content dst @ cs_content ?m"
      "\<not> freeze_end dst1" "total_len dst1 = total_len dst + (n - r)"
    proof (cases "k = 0")
      case True
      then show thesis using that d kr(4) by simp
    next
      case False
      have nr: "sum_list (map off ?m) = n - r" using kr(4) by simp
      have le: "total_len dst + sum_list (map off ?m) \<le> EV_SIZE_MAX" using tot sum by simp
      from move_chains_ok [OF d(1) mok this] obtain p d0 where
        d0: "evbuffer_free_trailing_empty_chains dst = Some (p, d0)"
        by blast
      let ?a = "advance_last_with_data (d0\<lparr>chains := chains d0 @ ?m\<rparr>)"
      from move_chains_ok [OF d(1) mok le, of "n_add_for_cb ?a + (n - r)"] d0 nr that False d(2)
      show thesis by (auto simp: Let_def)
    qed
    let ?x = "take r (cdata c)"
    have "length ?x = r" using cok by simp
    then obtain ra dst2 where d2: "evbuffer_add ok dst1 ?x = Some (ra, dst2)" "evbuffer_ok dst2"
      "content dst2 = content dst1 @ ?x" "freeze_end dst2 = freeze_end dst1"
      using evbuffer_add_ok [OF d1(2), of ok ?x] d1(4,5) al tot part kr(4)
      by (fastforce simp: add_post_def alloc_serves_def)
    define src1 where "src1 = src\<lparr>chains := c\<lparr>misalign := misalign c + r, off := off c - r\<rparr> # ?rest,
      last_with_data := last_with_data src - k, total_len := total_len src - n, n_del_for_cb := n_del_for_cb src + n\<rparr>"
    have "evbuffer_ok src1" "content src1 = drop r (cdata c) @ cs_content ?rest" "freeze_start src1 = freeze_start src"
      using chain_consume [OF cok(1), of r] cok(2) kr(4,5) sp(2) ok(1) sum s(1)
        lwd_ok_replace_first [of c ?rest "last_with_data src - k"]
      by (auto simp: src1_def evbuffer_ok_def content_def dest: in_set_dropD)
    moreover have "drop n (content src) = drop r (cdata c) @ cs_content ?rest" "take n (content src) = cs_content ?m @ ?x"
      using cont lm kr(4) cok by simp_all
    moreover have "n - r + r = n" using kr(4) by simp
    then have "evbuffer_remove_buffer ok src dst n =
        Some (c_int (int n), evbuffer_invoke_callbacks src1, evbuffer_invoke_callbacks dst2)"
      using part s(2) d(2) kr(1) d1(1) d2(1) by (auto simp: evbuffer_remove_buffer_def src1_def Let_def c_def)
    ultimately show ?thesis using part d(2) d1(3,4) d2 by (simp add: min_def)
  qed
qed

section \<open>Properties\<close>

text \<open>
  \<^verbatim>\<open>evbuffer_pullup\<close> never changes the contents; when it returns a pointer, the requested number
  of bytes of the contents stands contiguously there, and it returns null only for an empty or too
  large request or a refused allocation.
\<close>

theorem evbuffer_pullup_linearizes:
  assumes "evbuffer_ok b" "0 \<le> n"
  shows "\<exists>res b'. evbuffer_pullup ok b n = Some (res, b') \<and> evbuffer_ok b' \<and> content b' = content b \<and>
    (case res of None \<Rightarrow> n = 0 \<or> nat n > total_len b \<or> \<not> alloc_serves ok (nat n)
     | Some bytes \<Rightarrow> take (nat n) bytes = take (nat n) (content b) \<and> nat n \<le> length bytes)"
  using evbuffer_pullup_ok [OF assms(1), of ok n] assms(2) by (fastforce split: option.splits)

definition sample_chain :: "u8 list \<Rightarrow> evbuffer_chain" where
  "sample_chain bs = \<lparr>cbuf = bs, misalign = 0, off = length bs, cflags = 0\<rparr>"

definition sample_buffer :: evbuffer where
  "sample_buffer = evbuffer_new\<lparr>chains := [sample_chain [1, 2], sample_chain [3]], last_with_data := 1, total_len := 3\<rparr>"

lemma sample_buffer_ok: "evbuffer_ok sample_buffer" "content sample_buffer = [1, 2, 3]"
  by (auto simp: sample_buffer_def evbuffer_ok_def sample_chain_def evbuffer_new_def chain_ok_def CHAIN_PINNED_def
      lwd_ok_def evbuffer_chains_all_empty_def EVBUFFER_CHAIN_MAX_def EVBUFFER_CHAIN_SIZE_def EV_SIZE_MAX_def
      content_def cdata_def)

theorem evbuffer_pullup_linearizes_witness:
  "\<exists>bytes b'. evbuffer_pullup (\<lambda>_. True) sample_buffer 3 = Some (Some bytes, b') \<and> take 3 bytes = [1, 2, 3]"
proof -
  have "total_len sample_buffer = 3" "alloc_serves (\<lambda>_. True) 3"
    by (simp_all add: sample_buffer_def buffer_limits)
  with evbuffer_pullup_linearizes [OF sample_buffer_ok(1), of 3 "\<lambda>_. True"] show ?thesis
    by (auto simp: sample_buffer_ok(2) split: option.splits)
qed

text \<open>
  \<^verbatim>\<open>evbuffer_add_buffer\<close> moves all bytes of the source, in order, behind those of the
  destination and leaves the source empty; both buffers stay well-formed.
\<close>

theorem evbuffer_add_buffer_moves:
  assumes "evbuffer_ok outbuf" "\<not> freeze_end outbuf" "evbuffer_ok inbuf" "\<not> freeze_start inbuf"
    "total_len outbuf + total_len inbuf \<le> EV_SIZE_MAX"
  shows "\<exists>o' i'. evbuffer_add_buffer ok outbuf inbuf = Some (0, o', i') \<and> evbuffer_ok o' \<and> evbuffer_ok i' \<and>
    content o' = content outbuf @ content inbuf \<and> content i' = []"
  using evbuffer_add_buffer_ok [OF assms] .

theorem evbuffer_add_buffer_moves_witness:
  "\<exists>o' i'. evbuffer_add_buffer (\<lambda>_. False) sample_buffer sample_buffer = Some (0, o', i') \<and>
    content o' = [1, 2, 3, 1, 2, 3] \<and> content i' = []"
  using evbuffer_add_buffer_moves [OF sample_buffer_ok(1) _ sample_buffer_ok(1), of "\<lambda>_. False"]
  by (simp add: sample_buffer_ok(2)) (auto simp: sample_buffer_def evbuffer_new_def EV_SIZE_MAX_def)

text \<open>
  C4. \<^verbatim>\<open>evbuffer_remove_buffer\<close> moves exactly the first \<open>n\<close> bytes, by chains and by copying the
  partial one, and reports how many it moved.
\<close>

theorem evbuffer_remove_buffer_moves:
  assumes "evbuffer_ok src" "\<not> freeze_start src" "evbuffer_ok dst" "\<not> freeze_end dst"
    "total_len dst + total_len src \<le> EV_SIZE_MAX" "alloc_serves ok n"
  shows "\<exists>src' dst'. evbuffer_remove_buffer ok src dst n = Some (c_int (int (min n (total_len src))), src', dst') \<and>
    evbuffer_ok src' \<and> evbuffer_ok dst' \<and>
    content dst' = content dst @ take n (content src) \<and> content src' = drop n (content src)"
  using evbuffer_remove_buffer_ok [OF assms] by blast

theorem evbuffer_remove_buffer_moves_witness:
  "\<exists>r src' dst'. evbuffer_remove_buffer (\<lambda>_. True) sample_buffer evbuffer_new 2 = Some (r, src', dst') \<and>
    content dst' = [1, 2] \<and> content src' = [3]"
proof -
  have "\<not> freeze_start sample_buffer" "\<not> freeze_end evbuffer_new"
    "total_len evbuffer_new + total_len sample_buffer \<le> EV_SIZE_MAX" "alloc_serves (\<lambda>_. True) 2"
    by (simp_all add: sample_buffer_def evbuffer_new_def EV_SIZE_MAX_def buffer_limits)
  from evbuffer_remove_buffer_moves [OF sample_buffer_ok(1) this(1) evbuffer_new_ok(1) this(2-4)] show ?thesis
    by (auto simp: sample_buffer_ok(2) evbuffer_new_ok(2))
qed

end
