(* ===== verification/Timeval.thy ===== *)
theory Timeval
  imports Event_Prelude
begin

text \<open>
  \<^verbatim>\<open>struct timeval\<close> and the operations on it: the macros of \<^verbatim>\<open>include/event2/util.h\<close>
  (lines 532-569) and the conversions and the ratcheting clock of \<^verbatim>\<open>src/evutil_time.c\<close>.
  The two fields are signed 64-bit integers; signed overflow is undefined in C, so the model uses
  unbounded integers and the bounds are stated where they matter.
\<close>

section \<open>The structure and its order\<close>

datatype timeval = Timeval (tv_sec: int) (tv_usec: int)

definition evutil_timercmp_lt :: "timeval \<Rightarrow> timeval \<Rightarrow> bool" where
  "evutil_timercmp_lt a b =
     (if tv_sec a = tv_sec b then tv_usec a < tv_usec b else tv_sec a < tv_sec b)"

definition evutil_timercmp_le :: "timeval \<Rightarrow> timeval \<Rightarrow> bool" where
  "evutil_timercmp_le a b =
     (if tv_sec a = tv_sec b then tv_usec a \<le> tv_usec b else tv_sec a \<le> tv_sec b)"

definition evutil_timercmp_gt :: "timeval \<Rightarrow> timeval \<Rightarrow> bool" where
  "evutil_timercmp_gt a b =
     (if tv_sec a = tv_sec b then tv_usec a > tv_usec b else tv_sec a > tv_sec b)"

definition evutil_timercmp_ge :: "timeval \<Rightarrow> timeval \<Rightarrow> bool" where
  "evutil_timercmp_ge a b =
     (if tv_sec a = tv_sec b then tv_usec a \<ge> tv_usec b else tv_sec a \<ge> tv_sec b)"

instantiation timeval :: linorder
begin

definition less_eq_timeval :: "timeval \<Rightarrow> timeval \<Rightarrow> bool" where
  "less_eq_timeval a b \<longleftrightarrow> tv_sec a < tv_sec b \<or> (tv_sec a = tv_sec b \<and> tv_usec a \<le> tv_usec b)"

definition less_timeval :: "timeval \<Rightarrow> timeval \<Rightarrow> bool" where
  "less_timeval a b \<longleftrightarrow> tv_sec a < tv_sec b \<or> (tv_sec a = tv_sec b \<and> tv_usec a < tv_usec b)"

instance
proof
  fix x y z :: timeval
  show "x < y \<longleftrightarrow> x \<le> y \<and> \<not> y \<le> x" by (auto simp: less_timeval_def less_eq_timeval_def)
  show "x \<le> x" by (simp add: less_eq_timeval_def)
  show "x \<le> y \<Longrightarrow> y \<le> z \<Longrightarrow> x \<le> z" by (auto simp: less_eq_timeval_def)
  show "x \<le> y \<Longrightarrow> y \<le> x \<Longrightarrow> x = y" by (auto simp: less_eq_timeval_def intro: timeval.expand)
  show "x \<le> y \<or> y \<le> x" by (auto simp: less_eq_timeval_def)
qed

end

lemma timercmp_order [simp]:
  "evutil_timercmp_lt a b \<longleftrightarrow> a < b" "evutil_timercmp_le a b \<longleftrightarrow> a \<le> b"
  "evutil_timercmp_gt a b \<longleftrightarrow> b < a" "evutil_timercmp_ge a b \<longleftrightarrow> b \<le> a"
  by (auto simp: evutil_timercmp_lt_def evutil_timercmp_le_def evutil_timercmp_gt_def
      evutil_timercmp_ge_def less_timeval_def less_eq_timeval_def)

section \<open>Arithmetic\<close>

definition evutil_timeradd :: "timeval \<Rightarrow> timeval \<Rightarrow> timeval" where
  "evutil_timeradd t u =
     (let s = tv_sec t + tv_sec u; us = tv_usec t + tv_usec u
      in if us \<ge> 1000000 then Timeval (s + 1) (us - 1000000) else Timeval s us)"

definition evutil_timersub :: "timeval \<Rightarrow> timeval \<Rightarrow> timeval" where
  "evutil_timersub t u =
     (let s = tv_sec t - tv_sec u; us = tv_usec t - tv_usec u
      in if us < 0 then Timeval (s - 1) (us + 1000000) else Timeval s us)"

definition evutil_timerclear :: timeval where
  "evutil_timerclear = Timeval 0 0"

definition evutil_timerisset :: "timeval \<Rightarrow> bool" where
  "evutil_timerisset t \<longleftrightarrow> tv_sec t \<noteq> 0 \<or> tv_usec t \<noteq> 0"

text \<open>A normalised value, and the number of microseconds a value stands for.\<close>

definition timeval_ok :: "timeval \<Rightarrow> bool" where
  "timeval_ok t \<longleftrightarrow> 0 \<le> tv_usec t \<and> tv_usec t < 1000000"

definition usecs :: "timeval \<Rightarrow> int" where
  "usecs t = 1000000 * tv_sec t + tv_usec t"

lemma usecs_add [simp]: "usecs (evutil_timeradd t u) = usecs t + usecs u"
  by (simp add: usecs_def evutil_timeradd_def Let_def algebra_simps)

lemma usecs_sub [simp]: "usecs (evutil_timersub t u) = usecs t - usecs u"
  by (simp add: usecs_def evutil_timersub_def Let_def algebra_simps)

lemma timeval_ok_add [simp, intro]:
  "timeval_ok t \<Longrightarrow> timeval_ok u \<Longrightarrow> timeval_ok (evutil_timeradd t u)"
  by (auto simp: timeval_ok_def evutil_timeradd_def Let_def)

lemma timeval_ok_sub [simp, intro]:
  "timeval_ok t \<Longrightarrow> timeval_ok u \<Longrightarrow> timeval_ok (evutil_timersub t u)"
  by (auto simp: timeval_ok_def evutil_timersub_def Let_def)

lemma usecs_le_iff: "timeval_ok t \<Longrightarrow> timeval_ok u \<Longrightarrow> t \<le> u \<longleftrightarrow> usecs t \<le> usecs u"
  unfolding timeval_ok_def usecs_def less_eq_timeval_def by linarith

lemma usecs_less_iff: "timeval_ok t \<Longrightarrow> timeval_ok u \<Longrightarrow> t < u \<longleftrightarrow> usecs t < usecs u"
  unfolding timeval_ok_def usecs_def less_timeval_def by linarith

lemma usecs_inject: "timeval_ok t \<Longrightarrow> timeval_ok u \<Longrightarrow> usecs t = usecs u \<longleftrightarrow> t = u"
  by (metis order_antisym order_refl usecs_le_iff)

lemma timersub_timeradd:
  "timeval_ok t \<Longrightarrow> timeval_ok u \<Longrightarrow> evutil_timersub (evutil_timeradd t u) u = t"
  by (simp add: usecs_inject [symmetric])

section \<open>Conversion to milliseconds\<close>

definition MAX_SECONDS_IN_MSEC_LONG :: int where
  "MAX_SECONDS_IN_MSEC_LONG = (LONG_MAX - 999) div 1000"

text \<open>C division truncates towards zero; the constant above divides a positive number.\<close>

definition c_div :: "int \<Rightarrow> int \<Rightarrow> int" where
  "c_div a b = sgn a * sgn b * (\<bar>a\<bar> div \<bar>b\<bar>)"

definition evutil_tv_to_msec :: "timeval \<Rightarrow> int" where
  "evutil_tv_to_msec tv =
     (if tv_usec tv > 1000000 \<or> tv_sec tv > MAX_SECONDS_IN_MSEC_LONG then -1
      else tv_sec tv * 1000 + c_div (tv_usec tv + 999) 1000)"

section \<open>The ratcheting monotonic clock\<close>

record evutil_monotonic_timer =
  monotonic_clock :: int
  adjust_monotonic_clock :: timeval
  last_time :: timeval

definition adjust_monotonic_time ::
  "evutil_monotonic_timer \<Rightarrow> timeval \<Rightarrow> evutil_monotonic_timer \<times> timeval" where
  "adjust_monotonic_time base tv0 =
     (let tv = evutil_timeradd tv0 (adjust_monotonic_clock base)
      in if evutil_timercmp_lt tv (last_time base)
         then (let adjust = evutil_timersub (last_time base) tv
               in (base\<lparr>adjust_monotonic_clock :=
                          evutil_timeradd adjust (adjust_monotonic_clock base),
                        last_time := last_time base\<rparr>, last_time base))
         else (base\<lparr>last_time := tv\<rparr>, tv))"

text \<open>
  One reading of the clock (the POSIX variant). The two system calls are arguments: what
  \<^verbatim>\<open>gettimeofday\<close> and \<^verbatim>\<open>clock_gettime\<close> deliver at this call, \<open>None\<close> for a failure; a
  \<^verbatim>\<open>timespec\<close> is a pair of seconds and nanoseconds.
\<close>

definition evutil_gettime_monotonic ::
  "timeval option \<Rightarrow> (int \<times> int) option \<Rightarrow> evutil_monotonic_timer \<Rightarrow>
     (evutil_monotonic_timer \<times> timeval) option" where
  "evutil_gettime_monotonic tod ts base =
     (if monotonic_clock base < 0
      then (case tod of None \<Rightarrow> None | Some tp \<Rightarrow> Some (adjust_monotonic_time base tp))
      else (case ts of None \<Rightarrow> None
            | Some (s, ns) \<Rightarrow> Some (base, Timeval s (c_div ns 1000))))"

fun clock_readings :: "evutil_monotonic_timer \<Rightarrow> timeval list \<Rightarrow> timeval list" where
  "clock_readings base [] = []"
| "clock_readings base (t # ts) =
     (let (base', tv) = adjust_monotonic_time base t in tv # clock_readings base' ts)"

definition monotonic_timer_ok :: "evutil_monotonic_timer \<Rightarrow> bool" where
  "monotonic_timer_ok base \<longleftrightarrow>
     timeval_ok (adjust_monotonic_clock base) \<and> timeval_ok (last_time base)"

lemma adjust_monotonic_time_ok:
  assumes "monotonic_timer_ok base" "timeval_ok t" "adjust_monotonic_time base t = (base', tv)"
  shows "monotonic_timer_ok base'" "last_time base' = tv" "last_time base \<le> tv" "timeval_ok tv"
  using assms by (auto simp: adjust_monotonic_time_def monotonic_timer_ok_def Let_def split: if_splits)

lemma clock_readings_ge:
  assumes "monotonic_timer_ok base" "\<forall>t \<in> set ts. timeval_ok t"
  shows "sorted (last_time base # clock_readings base ts)"
  using assms
proof (induction ts arbitrary: base)
  case Nil
  then show ?case by simp
next
  case (Cons t ts)
  obtain base' tv where adj: "adjust_monotonic_time base t = (base', tv)" by fastforce
  from Cons.prems have "timeval_ok t" by simp
  note ok = adjust_monotonic_time_ok [OF Cons.prems(1) this adj]
  from Cons.IH [OF ok(1)] Cons.prems(2) ok(2) have "sorted (tv # clock_readings base' ts)" by simp
  with adj ok(3) show ?case by auto
qed

section \<open>Properties\<close>

text \<open>
  C15. Whatever normalised times the system clock delivers, also when it is set back, the readings of
  the ratcheted clock never decrease.
\<close>

theorem monotonic_readings_sorted:
  assumes "monotonic_timer_ok base" "\<forall>t \<in> set ts. timeval_ok t"
  shows "sorted (last_time base # clock_readings base ts)"
  using clock_readings_ge [OF assms] .

theorem monotonic_readings_sorted_witness:
  "sorted (Timeval 0 0 # clock_readings \<lparr>monotonic_clock = -1, adjust_monotonic_clock = Timeval 0 0,
     last_time = Timeval 0 0\<rparr> [Timeval 9 5, Timeval 3 0, Timeval 4 0])"
  using monotonic_readings_sorted [of "\<lparr>monotonic_clock = -1, adjust_monotonic_clock = Timeval 0 0,
     last_time = Timeval 0 0\<rparr>" "[Timeval 9 5, Timeval 3 0, Timeval 4 0]"]
  by (simp add: monotonic_timer_ok_def timeval_ok_def del: clock_readings.simps sorted_simps)

text \<open>
  Converting a normalised time that fits to milliseconds rounds up and neither overflows a
  \<^verbatim>\<open>long\<close> nor loses a microsecond of waiting; a time that is too large gives -1.
\<close>

theorem tv_to_msec_rounds_up:
  assumes "timeval_ok t" "0 \<le> tv_sec t"
  shows "if tv_sec t \<le> MAX_SECONDS_IN_MSEC_LONG
    then usecs t \<le> 1000 * evutil_tv_to_msec t \<and> 1000 * evutil_tv_to_msec t < usecs t + 1000 \<and>
      0 \<le> evutil_tv_to_msec t \<and> evutil_tv_to_msec t \<le> LONG_MAX
    else evutil_tv_to_msec t = -1"
proof -
  have d: "c_div (tv_usec t + 999) 1000 = (tv_usec t + 999) div 1000"
    using assms by (simp add: c_div_def timeval_ok_def sgn_if)
  show ?thesis using assms unfolding evutil_tv_to_msec_def d timeval_ok_def usecs_def
    by (auto simp: MAX_SECONDS_IN_MSEC_LONG_def LONG_MAX_def)
qed

theorem tv_to_msec_rounds_up_witness:
  "usecs (Timeval 2 1) \<le> 1000 * evutil_tv_to_msec (Timeval 2 1) \<and>
   1000 * evutil_tv_to_msec (Timeval 2 1) < usecs (Timeval 2 1) + 1000"
  using tv_to_msec_rounds_up [of "Timeval 2 1"]
  by (simp add: timeval_ok_def MAX_SECONDS_IN_MSEC_LONG_def LONG_MAX_def)

end
