(* ===== verification/Framed_Stream.thy ===== *)
theory Framed_Stream
  imports Event_Prelude "HOL-Library.Monad_Syntax"
begin

text \<open>
  What a wire format promises to its users: a writer appends the encoding of a message to a byte
  buffer, and a reader takes the first message off it. From these two laws follows that a sequence
  of messages is read back as it was written; the formats of \<^verbatim>\<open>src/event_tagging.c\<close> interpret
  the interface.
\<close>

fun write_all :: "('b \<Rightarrow> 'm \<Rightarrow> 'b option) \<Rightarrow> 'b \<Rightarrow> 'm list \<Rightarrow> 'b option" where
  "write_all wr b [] = Some b"
| "write_all wr b (m # ms) = do { b1 \<leftarrow> wr b m; write_all wr b1 ms }"

fun read_all :: "('b \<Rightarrow> ('m \<times> 'b) option) \<Rightarrow> 'b \<Rightarrow> nat \<Rightarrow> ('m list \<times> 'b) option" where
  "read_all rd b 0 = Some ([], b)"
| "read_all rd b (Suc n) = do { (m, b1) \<leftarrow> rd b; (ms, b2) \<leftarrow> read_all rd b1 n; Some (m # ms, b2) }"

locale framed_stream =
  fixes fine :: "'b \<Rightarrow> bool"
    and bytes :: "'b \<Rightarrow> u8 list"
    and bound :: nat
    and valid :: "'m \<Rightarrow> bool"
    and enc :: "'m \<Rightarrow> u8 list"
    and wr :: "'b \<Rightarrow> 'm \<Rightarrow> 'b option"
    and rd :: "'b \<Rightarrow> ('m \<times> 'b) option"
  assumes write_ok: "fine b \<Longrightarrow> valid m \<Longrightarrow> length (bytes b) + length (enc m) \<le> bound \<Longrightarrow>
      \<exists>b'. wr b m = Some b' \<and> fine b' \<and> bytes b' = bytes b @ enc m"
    and read_ok: "fine b \<Longrightarrow> valid m \<Longrightarrow> bytes b = enc m @ rest \<Longrightarrow>
      \<exists>b'. rd b = Some (m, b') \<and> fine b' \<and> bytes b' = rest"
begin

lemma write_all_ok:
  "fine b \<Longrightarrow> \<forall>m \<in> set ms. valid m \<Longrightarrow> length (bytes b) + length (concat (map enc ms)) \<le> bound \<Longrightarrow>
   \<exists>b'. write_all wr b ms = Some b' \<and> fine b' \<and> bytes b' = bytes b @ concat (map enc ms)"
proof (induction ms arbitrary: b)
  case (Cons m ms)
  from write_ok [of b m] Cons.prems obtain b1 where
    "wr b m = Some b1" "fine b1" "bytes b1 = bytes b @ enc m" by auto
  with Cons.IH [of b1] Cons.prems show ?case by auto
qed simp

lemma read_all_ok:
  "fine b \<Longrightarrow> \<forall>m \<in> set ms. valid m \<Longrightarrow> bytes b = concat (map enc ms) @ rest \<Longrightarrow>
   \<exists>b'. read_all rd b (length ms) = Some (ms, b') \<and> fine b' \<and> bytes b' = rest"
proof (induction ms arbitrary: b)
  case (Cons m ms)
  from read_ok [of b m "concat (map enc ms) @ rest"] Cons.prems obtain b1 where
    "rd b = Some (m, b1)" "fine b1" "bytes b1 = concat (map enc ms) @ rest" by auto
  with Cons.IH [of b1] Cons.prems show ?case by auto
qed simp

text \<open>Messages come out in the order and with the values they went in; what was behind them stays.\<close>

lemma stream_round_trip:
  assumes "fine b" "bytes b = []" "\<forall>m \<in> set ms. valid m" "length (concat (map enc ms)) \<le> bound"
  shows "\<exists>b1 b2. write_all wr b ms = Some b1 \<and> read_all rd b1 (length ms) = Some (ms, b2) \<and> bytes b2 = []"
proof -
  from write_all_ok [OF assms(1,3)] assms(2,4) obtain b1 where
    b1: "write_all wr b ms = Some b1" "fine b1" "bytes b1 = concat (map enc ms)" by auto
  with read_all_ok [OF b1(2) assms(3), of "[]"] show ?thesis by auto
qed

end

end
