(* ===== verification/Event_Tag.thy ===== *)
theory Event_Tag
  imports Evbuffer_Move Timeval Framed_Stream
begin

text \<open>
  The tagged wire format of \<^verbatim>\<open>src/event_tagging.c\<close>: integers as nibbles, tags as groups of seven
  bits, and tagged fields (tag, length, payload) in an \<^verbatim>\<open>evbuffer\<close>. Each function over a buffer
  returns \<open>None\<close> for a read outside the bytes that \<^verbatim>\<open>evbuffer_pullup\<close> made contiguous; otherwise
  it returns the C result, the value of the out parameter where it was written, and the buffer.
\<close>

section \<open>Integers\<close>

text \<open>The macro \<^verbatim>\<open>ENCODE_INT_INTERNAL\<close>, for numbers of any width.\<close>

function encode_int_loop :: "'a::len word \<Rightarrow> u8 list \<Rightarrow> nat \<Rightarrow> u8 list \<times> nat" where
  "encode_int_loop number data pos =
     (if number \<noteq> 0 then
        (let i = pos div 2; nib = ucast (number AND 0x0f) :: u8 in
         encode_int_loop (drop_bit 4 number)
           (data[i := (if odd pos then (data ! i AND 0xf0) OR nib
                       else (data ! i AND 0x0f) OR push_bit 4 nib)])
           (pos + 1))
      else (data, pos))"
  by pat_completeness auto

lemma unat_drop_bit_less: "(w :: 'a::len word) \<noteq> 0 \<Longrightarrow> 0 < k \<Longrightarrow> unat (drop_bit k w) < unat w"
proof -
  assume w: "w \<noteq> 0" "0 < k"
  have "unat (drop_bit k w) = unat w div 2 ^ k" by (subst unat_drop_bit_eq) (rule drop_bit_eq_div)
  also have "(1 :: nat) < 2 ^ k" using w(2) by (intro one_less_power) simp_all
  then have "unat w div 2 ^ k < unat w" using w(1) by (intro div_less_dividend) (simp_all add: unat_gt_0)
  finally show ?thesis .
qed

termination encode_int_loop
  by (relation "measure (\<lambda>(number, data, pos). unat number)") (auto simp: unat_drop_bit_less)

declare encode_int_loop.simps [simp del]

definition ENCODE_INT_INTERNAL :: "nat \<Rightarrow> 'a::len word \<Rightarrow> u8 list \<times> nat" where
  "ENCODE_INT_INTERNAL sizeof number =
     (let (data, pos) = encode_int_loop number (replicate (sizeof + 1) 0) 1;
          nibbles = (if pos > 2 then pos - 2 else 0)
      in (data[0 := (data ! 0 AND 0x0f) OR push_bit 4 (of_nat nibbles AND 0x0f)], (pos + 1) div 2))"

definition encode_int_internal :: "u32 \<Rightarrow> u8 list" where
  "encode_int_internal number = (let (data, len) = ENCODE_INT_INTERNAL 4 number in take len data)"

definition encode_int64_internal :: "u64 \<Rightarrow> u8 list" where
  "encode_int64_internal number = (let (data, len) = ENCODE_INT_INTERNAL 8 number in take len data)"

fun decode_int_loop :: "u8 list \<Rightarrow> nat \<Rightarrow> 'a::len word \<Rightarrow> 'a word" where
  "decode_int_loop data 0 number = number"
| "decode_int_loop data (Suc n) number =
     decode_int_loop data n
       (push_bit 4 number OR
        (if odd (Suc n) then ucast (data ! (Suc n div 2) AND 0x0f)
         else ucast (drop_bit 4 (data ! (Suc n div 2) AND 0xf0))))"

section \<open>Tags\<close>

function encode_tag_bytes :: "u32 \<Rightarrow> u8 list" where
  "encode_tag_bytes tag =
     (let lower = ucast (tag AND 0x7f) :: u8; tag' = drop_bit 7 tag in
      if tag' \<noteq> 0 then (lower OR 0x80) # encode_tag_bytes tag' else [lower])"
  by pat_completeness auto
termination
proof (relation "measure unat")
  fix tag :: u32 and lower :: u8 and tag'
  assume "tag' = drop_bit 7 tag" "tag' \<noteq> 0"
  then show "(tag', tag) \<in> measure unat"
    by (cases "tag = 0") (simp_all add: unat_drop_bit_less)
qed simp

declare encode_tag_bytes.simps [simp del]

text \<open>
  How the loop of \<^verbatim>\<open>decode_tag_internal\<close> ends: it reads the byte at an offset that is not among the contiguous
  bytes it was given, it rejects the input, or it has the tag and the number of bytes read.
\<close>

datatype tag_read = Reads_behind nat | Rejected | Tag u32 nat

text \<open>The loop over the \<open>len\<close> bytes of the buffer, of which \<open>data\<close> are contiguous.\<close>

function decode_tag_loop :: "u8 list \<Rightarrow> nat \<Rightarrow> nat \<Rightarrow> nat \<Rightarrow> u32 \<Rightarrow> tag_read" where
  "decode_tag_loop data len cnt shift number =
     (if cnt < len then
        (if cnt \<ge> length data then Reads_behind cnt
         else
           (let lower = data ! cnt in
            if shift > 28 \<or> shift = 28 \<and> lower AND 0x7f > 15 then Rejected
            else
              (let number' = number OR push_bit shift (ucast (lower AND 0x7f)) in
               if lower AND 0x80 = 0 then Tag number' (cnt + 1)
               else decode_tag_loop data len (cnt + 1) (shift + 7) number')))
      else Rejected)"
  by pat_completeness auto
termination
  by (relation "measure (\<lambda>(data, len, cnt, shift, number). len - cnt)") auto

declare decode_tag_loop.simps [simp del]

section \<open>Operations on buffers\<close>

text \<open>The results of \<^verbatim>\<open>evbuffer_add\<close> are ignored by the encoders.\<close>

definition put :: "(nat \<Rightarrow> bool) \<Rightarrow> evbuffer \<Rightarrow> u8 list \<Rightarrow> evbuffer option" where
  "put ok b bytes = map_option snd (evbuffer_add ok b bytes)"

definition evtag_encode_int :: "(nat \<Rightarrow> bool) \<Rightarrow> evbuffer \<Rightarrow> u32 \<Rightarrow> evbuffer option" where
  "evtag_encode_int ok evbuf number = put ok evbuf (encode_int_internal number)"

definition evtag_encode_int64 :: "(nat \<Rightarrow> bool) \<Rightarrow> evbuffer \<Rightarrow> u64 \<Rightarrow> evbuffer option" where
  "evtag_encode_int64 ok evbuf number = put ok evbuf (encode_int64_internal number)"

definition evtag_encode_tag :: "(nat \<Rightarrow> bool) \<Rightarrow> evbuffer \<Rightarrow> u32 \<Rightarrow> (int \<times> evbuffer) option" where
  "evtag_encode_tag ok evbuf tag =
     (let data = encode_tag_bytes tag in map_option (\<lambda>b. (int (length data), b)) (put ok evbuf data))"

definition decode_tag_internal ::
  "(nat \<Rightarrow> bool) \<Rightarrow> evbuffer \<Rightarrow> bool \<Rightarrow> (int \<times> u32 option \<times> evbuffer) option" where
  "decode_tag_internal ok evbuf dodrain =
     (let len = evbuffer_get_length evbuf in do {
      (data, b1) \<leftarrow> evbuffer_pullup ok evbuf (if len < 5 then int len else 5);
      (case data of None \<Rightarrow> Some (-1, None, b1)
       | Some bytes \<Rightarrow>
           (case decode_tag_loop bytes len 0 0 0 of
              Reads_behind cnt \<Rightarrow> None
            | Rejected \<Rightarrow> Some (-1, None, b1)
            | Tag number cnt \<Rightarrow>
                (if dodrain then do {
                   (r, b2) \<leftarrow> evbuffer_drain b1 cnt;
                   Some (if int cnt > INT_MAX then INT_MAX else int cnt, Some number, b2) }
                 else Some (if int cnt > INT_MAX then INT_MAX else int cnt, Some number, b1)))) })"

definition evtag_decode_tag :: "(nat \<Rightarrow> bool) \<Rightarrow> evbuffer \<Rightarrow> (int \<times> u32 option \<times> evbuffer) option" where
  "evtag_decode_tag ok evbuf = decode_tag_internal ok evbuf True"

definition evtag_marshal :: "(nat \<Rightarrow> bool) \<Rightarrow> evbuffer \<Rightarrow> u32 \<Rightarrow> u8 list \<Rightarrow> evbuffer option" where
  "evtag_marshal ok evbuf tag data = do {
     (r, b1) \<leftarrow> evtag_encode_tag ok evbuf tag;
     b2 \<leftarrow> evtag_encode_int ok b1 (of_nat (length data));
     put ok b2 data }"

definition evtag_marshal_buffer ::
  "(nat \<Rightarrow> bool) \<Rightarrow> evbuffer \<Rightarrow> u32 \<Rightarrow> evbuffer \<Rightarrow> (evbuffer \<times> evbuffer) option" where
  "evtag_marshal_buffer ok evbuf tag data = do {
     (r, b1) \<leftarrow> evtag_encode_tag ok evbuf tag;
     b2 \<leftarrow> evtag_encode_int ok b1 (of_nat (evbuffer_get_length data));
     (r, b3, d) \<leftarrow> evbuffer_add_buffer ok b2 data;
     Some (b3, d) }"

definition evtag_marshal_int :: "(nat \<Rightarrow> bool) \<Rightarrow> evbuffer \<Rightarrow> u32 \<Rightarrow> u32 \<Rightarrow> evbuffer option" where
  "evtag_marshal_int ok evbuf tag integer =
     (let data = encode_int_internal integer in do {
      (r, b1) \<leftarrow> evtag_encode_tag ok evbuf tag;
      b2 \<leftarrow> evtag_encode_int ok b1 (of_nat (length data));
      put ok b2 data })"

definition evtag_marshal_int64 :: "(nat \<Rightarrow> bool) \<Rightarrow> evbuffer \<Rightarrow> u32 \<Rightarrow> u64 \<Rightarrow> evbuffer option" where
  "evtag_marshal_int64 ok evbuf tag integer =
     (let data = encode_int64_internal integer in do {
      (r, b1) \<leftarrow> evtag_encode_tag ok evbuf tag;
      b2 \<leftarrow> evtag_encode_int ok b1 (of_nat (length data));
      put ok b2 data })"

text \<open>A C string is given by its bytes before the terminating 0.\<close>

definition evtag_marshal_string :: "(nat \<Rightarrow> bool) \<Rightarrow> evbuffer \<Rightarrow> u32 \<Rightarrow> u8 list \<Rightarrow> evbuffer option" where
  "evtag_marshal_string ok buf tag str = evtag_marshal ok buf tag str"

definition evtag_marshal_timeval :: "(nat \<Rightarrow> bool) \<Rightarrow> evbuffer \<Rightarrow> u32 \<Rightarrow> timeval \<Rightarrow> evbuffer option" where
  "evtag_marshal_timeval ok evbuf tag tv =
     evtag_marshal ok evbuf tag
       (encode_int_internal (of_int (tv_sec tv)) @ encode_int_internal (of_int (tv_usec tv)))"

text \<open>
  The macro \<^verbatim>\<open>DECODE_INT_INTERNAL\<close>. The null check comes after \<open>offset\<close> was added to the
  pointer, so that a failing \<^verbatim>\<open>evbuffer_pullup\<close> is only noticed for offset 0.
\<close>

definition DECODE_INT_INTERNAL ::
  "(nat \<Rightarrow> bool) \<Rightarrow> nat \<Rightarrow> evbuffer \<Rightarrow> nat \<Rightarrow> (int \<times> 'a::len word option \<times> evbuffer) option" where
  "DECODE_INT_INTERNAL ok maxnibbles evbuf offset =
     (let len = int (evbuffer_get_length evbuf) - int offset in
      if len \<le> 0 then Some (-1, None, evbuf)
      else do {
        (p1, b1) \<leftarrow> evbuffer_pullup ok evbuf (int offset + 1);
        (case p1 of None \<Rightarrow> (if offset = 0 then Some (-1, None, b1) else None)
         | Some d1 \<Rightarrow>
           if offset \<ge> length d1 then None
           else
             (let nibbles = unat (drop_bit 4 (d1 ! offset AND 0xf0)) + 1;
                  len2 = nibbles div 2 + 1
              in if nibbles > maxnibbles \<or> int len2 > len then Some (-1, None, b1)
                 else do {
                   (p2, b2) \<leftarrow> evbuffer_pullup ok b1 (int (offset + len2));
                   (case p2 of None \<Rightarrow> (if offset = 0 then Some (-1, None, b2) else None)
                    | Some d2 \<Rightarrow>
                      if offset + len2 > length d2 then None
                      else Some (int len2, Some (decode_int_loop (drop offset d2) nibbles 0), b2)) })) })"

definition decode_int_internal ::
  "(nat \<Rightarrow> bool) \<Rightarrow> evbuffer \<Rightarrow> nat \<Rightarrow> (int \<times> u32 option \<times> evbuffer) option" where
  "decode_int_internal ok evbuf offset = DECODE_INT_INTERNAL ok 8 evbuf offset"

definition decode_int64_internal ::
  "(nat \<Rightarrow> bool) \<Rightarrow> evbuffer \<Rightarrow> nat \<Rightarrow> (int \<times> u64 option \<times> evbuffer) option" where
  "decode_int64_internal ok evbuf offset = DECODE_INT_INTERNAL ok 16 evbuf offset"

definition drain_decoded ::
  "(int \<times> 'a option \<times> evbuffer) option \<Rightarrow> (int \<times> 'a option \<times> evbuffer) option" where
  "drain_decoded m = do {
     (res, n, b1) \<leftarrow> m;
     if res \<noteq> -1 then do { (r, b2) \<leftarrow> evbuffer_drain b1 (c_size res); Some (0, n, b2) }
     else Some (-1, n, b1) }"

definition evtag_decode_int :: "(nat \<Rightarrow> bool) \<Rightarrow> evbuffer \<Rightarrow> (int \<times> u32 option \<times> evbuffer) option" where
  "evtag_decode_int ok evbuf = drain_decoded (decode_int_internal ok evbuf 0)"

definition evtag_decode_int64 :: "(nat \<Rightarrow> bool) \<Rightarrow> evbuffer \<Rightarrow> (int \<times> u64 option \<times> evbuffer) option" where
  "evtag_decode_int64 ok evbuf = drain_decoded (decode_int64_internal ok evbuf 0)"

definition evtag_peek :: "(nat \<Rightarrow> bool) \<Rightarrow> evbuffer \<Rightarrow> (int \<times> u32 option \<times> evbuffer) option" where
  "evtag_peek ok evbuf = decode_tag_internal ok evbuf False"

definition evtag_payload_length :: "(nat \<Rightarrow> bool) \<Rightarrow> evbuffer \<Rightarrow> (int \<times> u32 option \<times> evbuffer) option" where
  "evtag_payload_length ok evbuf = do {
     (len, t, b1) \<leftarrow> decode_tag_internal ok evbuf False;
     if len = -1 then Some (-1, None, b1)
     else do {
       (res, n, b2) \<leftarrow> decode_int_internal ok b1 (nat len);
       if res = -1 then Some (-1, n, b2) else Some (0, n, b2) } }"

definition evtag_peek_length :: "(nat \<Rightarrow> bool) \<Rightarrow> evbuffer \<Rightarrow> (int \<times> u32 option \<times> evbuffer) option" where
  "evtag_peek_length ok evbuf = do {
     (len, t, b1) \<leftarrow> decode_tag_internal ok evbuf False;
     if len = -1 then Some (-1, None, b1)
     else do {
       (res, n, b2) \<leftarrow> decode_int_internal ok b1 (nat len);
       if res = -1 then Some (-1, n, b2)
       else Some (0, map_option (\<lambda>k. k + of_int (res + len)) n, b2) } }"

text \<open>The length is returned as an \<^verbatim>\<open>int\<close>.\<close>

definition evtag_unmarshal_header :: "(nat \<Rightarrow> bool) \<Rightarrow> evbuffer \<Rightarrow> (int \<times> u32 option \<times> evbuffer) option" where
  "evtag_unmarshal_header ok evbuf = do {
     (r, tag, b1) \<leftarrow> decode_tag_internal ok evbuf True;
     if r = -1 then Some (-1, tag, b1)
     else do {
       (r2, n, b2) \<leftarrow> evtag_decode_int ok b1;
       (case (r2 = -1, n) of (False, Some len) \<Rightarrow>
            (if evbuffer_get_length b2 < unat len then Some (-1, tag, b2)
             else Some (c_int (uint len), tag, b2))
        | _ \<Rightarrow> Some (-1, tag, b2)) } }"

definition evtag_consume :: "(nat \<Rightarrow> bool) \<Rightarrow> evbuffer \<Rightarrow> (int \<times> evbuffer) option" where
  "evtag_consume ok evbuf = do {
     (len, t, b1) \<leftarrow> evtag_unmarshal_header ok evbuf;
     if len = -1 then Some (-1, b1)
     else do { (r, b2) \<leftarrow> evbuffer_drain b1 (c_size len); Some (0, b2) } }"

text \<open>
  \<^verbatim>\<open>evbuffer_add(dst, evbuffer_pullup(src, len), len)\<close>: for length 0 the null pointer is not read.
\<close>

definition evtag_unmarshal ::
  "(nat \<Rightarrow> bool) \<Rightarrow> evbuffer \<Rightarrow> evbuffer \<Rightarrow> (int \<times> u32 option \<times> evbuffer \<times> evbuffer) option" where
  "evtag_unmarshal ok src dst = do {
     (len, tag, s1) \<leftarrow> evtag_unmarshal_header ok src;
     if len = -1 then Some (-1, tag, s1, dst)
     else do {
       (p, s2) \<leftarrow> evbuffer_pullup ok s1 len;
       (case p of None \<Rightarrow> (if len \<noteq> 0 then None else Some ())
        | Some d \<Rightarrow> (if c_size len > length d then None else Some ()));
       (r, d1) \<leftarrow> evbuffer_add ok dst (case p of None \<Rightarrow> [] | Some d \<Rightarrow> take (c_size len) d);
       if r = -1 then Some (-1, tag, s2, d1)
       else do { (r2, s3) \<leftarrow> evbuffer_drain s2 (c_size len); Some (len, tag, s3, d1) } } }"

definition unmarshal_int_gen ::
  "(nat \<Rightarrow> bool) \<Rightarrow> (evbuffer \<Rightarrow> (int \<times> 'a option \<times> evbuffer) option) \<Rightarrow> evbuffer \<Rightarrow> u32 \<Rightarrow>
     (int \<times> 'a option \<times> evbuffer) option" where
  "unmarshal_int_gen ok decode evbuf need_tag = do {
     (r, tag, b1) \<leftarrow> decode_tag_internal ok evbuf True;
     if r = -1 then Some (-1, None, b1)
     else if tag \<noteq> Some need_tag then Some (-1, None, b1)
     else do {
       (r2, n, b2) \<leftarrow> evtag_decode_int ok b1;
       (case (r2 = -1, n) of (False, Some len) \<Rightarrow>
            (if evbuffer_get_length b2 < unat len then Some (-1, None, b2)
             else do {
               (result, v, b3) \<leftarrow> decode b2;
               (r3, b4) \<leftarrow> evbuffer_drain b3 (unat len);
               if result < 0 \<or> result > uint len then Some (-1, v, b4) else Some (result, v, b4) })
        | _ \<Rightarrow> Some (-1, None, b2)) } }"

definition evtag_unmarshal_int ::
  "(nat \<Rightarrow> bool) \<Rightarrow> evbuffer \<Rightarrow> u32 \<Rightarrow> (int \<times> u32 option \<times> evbuffer) option" where
  "evtag_unmarshal_int ok evbuf need_tag = unmarshal_int_gen ok (\<lambda>b. decode_int_internal ok b 0) evbuf need_tag"

definition evtag_unmarshal_int64 ::
  "(nat \<Rightarrow> bool) \<Rightarrow> evbuffer \<Rightarrow> u32 \<Rightarrow> (int \<times> u64 option \<times> evbuffer) option" where
  "evtag_unmarshal_int64 ok evbuf need_tag = unmarshal_int_gen ok (\<lambda>b. decode_int64_internal ok b 0) evbuf need_tag"

definition evtag_unmarshal_fixed ::
  "(nat \<Rightarrow> bool) \<Rightarrow> evbuffer \<Rightarrow> u32 \<Rightarrow> nat \<Rightarrow> (int \<times> u8 list \<times> evbuffer) option" where
  "evtag_unmarshal_fixed ok src need_tag len = do {
     (tag_len, tag, b1) \<leftarrow> evtag_unmarshal_header ok src;
     if tag_len < 0 \<or> tag \<noteq> Some need_tag then Some (-1, [], b1)
     else if c_size tag_len \<noteq> len then Some (-1, [], b1)
     else do { (n, bytes, b2) \<leftarrow> evbuffer_remove b1 len; Some (0, bytes, b2) } }"

text \<open>The string is allocated with \<^verbatim>\<open>mm_malloc(tag_len + 1)\<close> and terminated with 0.\<close>

definition evtag_unmarshal_string ::
  "(nat \<Rightarrow> bool) \<Rightarrow> evbuffer \<Rightarrow> u32 \<Rightarrow> (int \<times> u8 list \<times> evbuffer) option" where
  "evtag_unmarshal_string ok evbuf need_tag = do {
     (tag_len, tag, b1) \<leftarrow> evtag_unmarshal_header ok evbuf;
     if tag_len = -1 \<or> tag \<noteq> Some need_tag then Some (-1, [], b1)
     else if \<not> ok (c_size (tag_len + 1)) then Some (-1, [], b1)
     else do {
       (n, bytes, b2) \<leftarrow> evbuffer_remove b1 (c_size tag_len);
       Some (0, bytes @ [0], b2) } }"

definition evtag_unmarshal_timeval ::
  "(nat \<Rightarrow> bool) \<Rightarrow> evbuffer \<Rightarrow> u32 \<Rightarrow> (int \<times> timeval option \<times> evbuffer) option" where
  "evtag_unmarshal_timeval ok evbuf need_tag = do {
     (len, tag, b1) \<leftarrow> evtag_unmarshal_header ok evbuf;
     if len = -1 then Some (-1, None, b1)
     else do {
       (result, tv, b2) \<leftarrow>
         (if tag \<noteq> Some need_tag then Some (-1, None, b1)
          else do {
            (offset, n1, c1) \<leftarrow> decode_int_internal ok b1 0;
            if offset = -1 then Some (-1, None, c1)
            else do {
              (offset2, n2, c2) \<leftarrow> decode_int_internal ok c1 (nat offset);
              if offset2 = -1 then Some (-1, None, c2)
              else
                (let tv = Some (Timeval (uint (the n1)) (uint (the n2)))
                 in if offset + offset2 > len then Some (-1, tv, c2) else Some (0, tv, c2)) } });
       (r, b3) \<leftarrow> evbuffer_drain b2 (c_size len);
       Some (result, tv, b3) } }"

section \<open>Round trip of integers\<close>

text \<open>The nibble at a position of the byte string: even positions are the high halves.\<close>

definition nib :: "u8 list \<Rightarrow> nat \<Rightarrow> u8" where
  "nib data p = (if odd p then data ! (p div 2) AND 0x0f else drop_bit 4 (data ! (p div 2) AND 0xf0))"

lemma nibble_masks: "(0x0f :: 'a::len word) = mask 4" "(0xf0 :: u8) = push_bit 4 (mask 4)"
  by (simp_all add: mask_eq_exp_minus_1 push_bit_eq_mult)

lemma byte_halves:
  fixes b n :: u8
  assumes "n = take_bit 4 n"
  shows "((b AND 0xf0) OR n) AND 0x0f = n" "drop_bit 4 (((b AND 0xf0) OR n) AND 0xf0) = drop_bit 4 (b AND 0xf0)"
    "((b AND 0x0f) OR push_bit 4 n) AND 0x0f = b AND 0x0f" "drop_bit 4 (((b AND 0x0f) OR push_bit 4 n) AND 0xf0) = n"
proof -
  have n: "j < 4" if "bit n j" for j using assms that by (metis bit_take_bit_iff)
  show "((b AND 0xf0) OR n) AND 0x0f = n" "drop_bit 4 (((b AND 0xf0) OR n) AND 0xf0) = drop_bit 4 (b AND 0xf0)"
    "((b AND 0x0f) OR push_bit 4 n) AND 0x0f = b AND 0x0f" "drop_bit 4 (((b AND 0x0f) OR push_bit 4 n) AND 0xf0) = n"
    unfolding nibble_masks
    by (rule bit_word_eqI; auto simp: bit_simps dest: n)+
qed

lemma nib_set:
  assumes "p div 2 < length data" "n = take_bit 4 n"
  shows "nib (data[p div 2 := (if odd p then (data ! (p div 2) AND 0xf0) OR n
      else (data ! (p div 2) AND 0x0f) OR push_bit 4 n)]) q = (if q = p then n else nib data q)"
proof (cases "q div 2 = p div 2")
  case True
  then have "q = p \<or> odd q \<noteq> odd p" by (metis div_mult_mod_eq even_iff_mod_2_eq_zero odd_iff_mod_2_eq_one)
  then show ?thesis using True assms byte_halves [OF assms(2)] by (auto simp: nib_def)
next
  case False
  then show ?thesis by (auto simp: nib_def)
qed

lemma nib_append: "p div 2 < length xs \<Longrightarrow> nib (xs @ ys) p = nib xs p"
  by (simp add: nib_def nth_append)

lemma nib_take: "p div 2 < n \<Longrightarrow> nib (take n xs) p = nib xs p"
  by (simp add: nib_def)

lemma take_bit_ucast_nibble: "take_bit 4 (ucast (w AND 0x0f) :: u8) = ucast ((w :: 'a::len word) AND 0x0f)"
  unfolding nibble_masks by (rule bit_word_eqI) (auto simp: bit_simps)

lemma encode_int_loop_nib:
  fixes number :: "'a::len word"
  assumes "drop_bit (4 * k) number = 0" "pos + k \<le> 2 * length data"
    "encode_int_loop number data pos = (data', pos')"
  shows "pos \<le> pos' \<and> pos' \<le> pos + k \<and> length data' = length data \<and> drop_bit (4 * (pos' - pos)) number = 0 \<and>
    (\<forall>q. nib data' q = (if pos \<le> q \<and> q < pos' then ucast (drop_bit (4 * (q - pos)) number AND 0x0f) else nib data q))"
  using assms
proof (induction number data pos arbitrary: k rule: encode_int_loop.induct)
  case (1 number data pos)
  show ?case
  proof (cases "number = 0")
    case True
    with 1(4) show ?thesis by (subst (asm) encode_int_loop.simps) auto
  next
    case False
    then obtain k' where k: "k = Suc k'" using 1(2) by (cases k) auto
    define n where "n = (ucast (number AND 0x0f) :: u8)"
    define d1 where "d1 = data[pos div 2 := (if odd pos then (data ! (pos div 2) AND 0xf0) OR n
       else (data ! (pos div 2) AND 0x0f) OR push_bit 4 n)]"
    have e: "encode_int_loop (drop_bit 4 number) d1 (pos + 1) = (data', pos')"
      unfolding d1_def n_def
      using 1(4) False by (subst (asm) encode_int_loop.simps) (simp add: Let_def split del: if_split)
    have nd: "nib d1 q = (if q = pos then n else nib data q)" for q
      unfolding d1_def using 1(3) k by (intro nib_set) (auto simp: n_def take_bit_ucast_nibble)
    have db: "drop_bit (4 * k') (drop_bit 4 number) = 0" using 1(2) k by (simp add: add.commute)
    have ih: "pos + 1 \<le> pos' \<and> pos' \<le> pos + 1 + k' \<and> length data' = length d1 \<and>
       drop_bit (4 * (pos' - (pos + 1))) (drop_bit 4 number) = 0 \<and>
       (\<forall>q. nib data' q = (if pos + 1 \<le> q \<and> q < pos'
           then ucast (drop_bit (4 * (q - (pos + 1))) (drop_bit 4 number) AND 0x0f) else nib d1 q))"
      using 1(1) [OF False refl refl db] e 1(3) k by (auto simp: d1_def n_def)
    have "drop_bit (4 * (j - (pos + 1))) (drop_bit 4 number) = drop_bit (4 * (j - pos)) number" if "pos + 1 \<le> j" for j
    proof -
      have "4 * (j - (pos + 1)) + 4 = 4 * (j - pos)" using that by simp
      then show ?thesis by (simp add: drop_bit_drop_bit)
    qed
    with ih nd k show ?thesis by (auto simp: d1_def n_def Suc_le_eq)
  qed
qed

lemma decode_int_loop_nib:
  fixes x :: "'a::len word"
  assumes "\<And>q. 1 \<le> q \<Longrightarrow> q \<le> n \<Longrightarrow> nib data q = ucast (drop_bit (4 * (q - 1)) x AND 0x0f)"
  shows "decode_int_loop data n (drop_bit (4 * n) x) = x"
  using assms
proof (induction n)
  case (Suc n)
  have "push_bit 4 (drop_bit (4 * Suc n) x) OR ucast (nib data (Suc n)) = drop_bit (4 * n) x"
  proof (rule bit_word_eqI)
    fix j
    assume "j < LENGTH('a)"
    then show "bit (push_bit 4 (drop_bit (4 * Suc n) x) OR ucast (nib data (Suc n))) j = bit (drop_bit (4 * n) x) j"
      using Suc.prems [of "Suc n"] unfolding nibble_masks
      by (cases "j < 4") (auto simp: bit_simps add.commute add.left_commute)
  qed
  moreover have "decode_int_loop data (Suc n) y = decode_int_loop data n (push_bit 4 y OR ucast (nib data (Suc n)))" for y :: "'a word"
    by (simp add: nib_def)
  ultimately show ?case using Suc by simp
qed simp

text \<open>What the decoder makes of a byte string: the number and the bytes it takes up.\<close>

definition dec_int :: "nat \<Rightarrow> u8 list \<Rightarrow> ('a::len word \<times> nat) option" where
  "dec_int maxnibbles bs =
     (if bs = [] then None
      else
        (let nibbles = unat (nib bs 0) + 1; len = nibbles div 2 + 1
         in if nibbles > maxnibbles \<or> len > length bs then None
            else Some (decode_int_loop bs nibbles 0, len)))"

lemma nib_bound: "unat (nib bs p) < 16"
proof -
  have "nib bs p = take_bit 4 (nib bs p)"
    unfolding nib_def nibble_masks by (rule bit_word_eqI) (auto simp: bit_simps)
  then have "unat (nib bs p) = take_bit 4 (unat (nib bs p))" by (metis unsigned_take_bit_eq)
  then have "unat (nib bs p) = unat (nib bs p) mod 2 ^ 4" by (simp only: take_bit_eq_mod)
  moreover have "unat (nib bs p) mod 2 ^ 4 < 2 ^ 4" by (rule mod_less_divisor) simp
  ultimately show ?thesis by simp
qed

lemma decode_int_loop_cong:
  "(\<And>q. 1 \<le> q \<Longrightarrow> q \<le> n \<Longrightarrow> nib xs q = nib ys q) \<Longrightarrow> decode_int_loop xs n y = decode_int_loop ys n y"
proof (induction n arbitrary: y)
  case (Suc n)
  have "decode_int_loop zs (Suc n) y = decode_int_loop zs n (push_bit 4 y OR ucast (nib zs (Suc n)))" for zs
    by (simp add: nib_def)
  then show ?case using Suc by simp
qed simp

lemma ENCODE_INT_INTERNAL_ok:
  fixes x :: "'a::len word"
  assumes "LENGTH('a) = 8 * sz" "0 < sz" "2 * sz \<le> 16" "ENCODE_INT_INTERNAL sz x = (data, len)"
  shows "length data = sz + 1" "0 < len" "len \<le> sz + 1"
    "dec_int (2 * sz) (take len data @ rest) = Some (x, len)"
proof -
  obtain d pos where e: "encode_int_loop x (replicate (sz + 1) 0) 1 = (d, pos)" by fastforce
  have z: "drop_bit (4 * (2 * sz)) x = 0" using assms(1) by (intro bit_word_eqI) (auto simp: bit_simps dest: bit_imp_le_length)
  have l: "1 + 2 * sz \<le> 2 * length (replicate (sz + 1) (0 :: u8))" by simp
  note el = encode_int_loop_nib [OF z l e]
  define cnt where "cnt = pos - 1"
  have pos: "pos = cnt + 1" "cnt \<le> 2 * sz" "drop_bit (4 * cnt) x = 0" and ld: "length d = sz + 1"
    using el by (auto simp: cnt_def)
  have nd: "nib d q = ucast (drop_bit (4 * (q - 1)) x AND 0x0f)" if "1 \<le> q" "q \<le> max 1 cnt" for q
  proof (cases "cnt = 0")
    case True
    then have x: "x = 0" "q = 1" using pos that by auto
    then have "d = 0 # replicate sz 0" using e by (simp add: encode_int_loop.simps)
    then show ?thesis using x by (simp add: nib_def)
  qed (use el that pos(1) in auto)
  define nibbles where "nibbles = (if pos > 2 then pos - 2 else 0)"
  have nb: "nibbles < 16" "nibbles + 1 = max 1 cnt" using pos assms(3) by (auto simp: nibbles_def)
  let ?h = "of_nat nibbles AND 0x0f :: u8"
  have h: "?h = take_bit 4 ?h" unfolding nibble_masks by (rule bit_word_eqI) (auto simp: bit_simps)
  have uh: "unat ?h = nibbles"
  proof -
    have "unat ?h = take_bit 4 (unat (of_nat nibbles :: u8))"
      unfolding nibble_masks take_bit_eq_mask [symmetric] by (rule unsigned_take_bit_eq)
    also have "unat (of_nat nibbles :: u8) = nibbles" using nb(1) by (simp add: unat_of_nat)
    finally show ?thesis using nb(1) by (simp add: take_bit_eq_mod)
  qed
  have dl: "data = d[0 := (d ! 0 AND 0x0f) OR push_bit 4 ?h]" "len = (pos + 1) div 2"
    using assms(4) e by (auto simp: ENCODE_INT_INTERNAL_def nibbles_def Let_def)
  have nq: "nib data q = (if q = 0 then ?h else nib d q)" for q
    using nib_set [of 0 d ?h q] ld h by (simp add: dl)
  have len: "len = (nibbles + 1) div 2 + 1" using nb(2) pos dl(2) by (cases "cnt = 0") (auto simp: max_def)
  show ldat: "length data = sz + 1" "0 < len" using dl ld pos by auto
  show lle: "len \<le> sz + 1" using dl pos by auto
  let ?bs = "take len data @ rest"
  have lt: "length (take len data) = len" using lle ldat by simp
  have nbs: "nib ?bs q = nib data q" if "q \<le> nibbles + 1" for q
  proof -
    have "q div 2 < len" using that len div_le_mono [of q "nibbles + 1" 2] by simp
    then show ?thesis using lt by (simp add: nib_append nib_take)
  qed
  have "decode_int_loop ?bs (nibbles + 1) (drop_bit (4 * (nibbles + 1)) x) = x"
    by (rule decode_int_loop_nib) (use nbs nq nd nb in auto)
  moreover have "drop_bit (4 * (nibbles + 1)) x = 0"
    using pos(3) nb(2) by (cases "cnt = 0") (auto simp: max_def)
  moreover have "unat (nib ?bs 0) = nibbles" using nbs [of 0] nq uh by simp
  moreover have "?bs \<noteq> []" "\<not> len > length ?bs" using lt ldat(2) by auto
  moreover have "\<not> nibbles + 1 > 2 * sz" using nb(2) pos(2) assms(2) by simp
  ultimately show "dec_int (2 * sz) ?bs = Some (x, len)"
    unfolding dec_int_def Let_def len [symmetric] by (simp only: if_False simp_thms len [symmetric])
qed

lemma encode_int_internal_dec:
  "dec_int 8 (encode_int_internal x @ rest) = Some (x, length (encode_int_internal x))"
  "0 < length (encode_int_internal x)" "length (encode_int_internal x) \<le> 5"
proof -
  obtain data len where e: "ENCODE_INT_INTERNAL 4 x = (data, len)" by fastforce
  note ok = ENCODE_INT_INTERNAL_ok [OF _ _ _ e, simplified]
  then have "length (take len data) = len" by simp
  then show "dec_int 8 (encode_int_internal x @ rest) = Some (x, length (encode_int_internal x))"
    "0 < length (encode_int_internal x)" "length (encode_int_internal x) \<le> 5"
    using ok e by (simp_all add: encode_int_internal_def)
qed

lemma encode_int64_internal_dec:
  "dec_int 16 (encode_int64_internal x @ rest) = Some (x, length (encode_int64_internal x))"
  "0 < length (encode_int64_internal x)" "length (encode_int64_internal x) \<le> 9"
proof -
  obtain data len where e: "ENCODE_INT_INTERNAL 8 x = (data, len)" by fastforce
  note ok = ENCODE_INT_INTERNAL_ok [OF _ _ _ e, simplified]
  then have "length (take len data) = len" by simp
  then show "dec_int 16 (encode_int64_internal x @ rest) = Some (x, length (encode_int64_internal x))"
    "0 < length (encode_int64_internal x)" "length (encode_int64_internal x) \<le> 9"
    using ok e by (simp_all add: encode_int64_internal_def)
qed

section \<open>Round trip of tags\<close>

lemma seven_mask: "(0x7f :: 'a::len word) = mask 7"
  by (simp add: mask_eq_exp_minus_1)

lemma bit_0x80: "bit (0x80 :: u8) n \<longleftrightarrow> n = 7" "bit (0x80 :: int) n \<longleftrightarrow> n = 7"
  using bit_exp_iff [where 'a = "8 word", of 7 n] bit_exp_iff [where 'a = int, of 7 n] by (auto simp: bit_simps)

lemma tag_byte:
  fixes t :: u32
  defines "lower \<equiv> ucast (t AND 0x7f) :: u8"
  shows "(lower OR 0x80) AND 0x7f = lower" "lower AND 0x7f = lower" "(lower OR 0x80) AND 0x80 \<noteq> 0"
    "lower AND 0x80 = 0" "ucast lower = t AND 0x7f"
proof -
  show "(lower OR 0x80) AND 0x7f = lower"
    unfolding lower_def seven_mask by (rule bit_word_eqI) (auto simp: bit_simps bit_0x80)
  show "lower AND 0x7f = lower"
    unfolding lower_def seven_mask by (rule bit_word_eqI) (auto simp: bit_simps)
  show "lower AND 0x80 = 0"
    unfolding lower_def seven_mask by (rule bit_word_eqI) (auto simp: bit_simps bit_0x80)
  have "bit ((lower OR 0x80) AND 0x80) 7" by (simp add: bit_and_iff bit_or_iff bit_0x80)
  then show "(lower OR 0x80) AND 0x80 \<noteq> 0" by (metis bit_0_eq bot_apply bot_bool_def)
  show "ucast lower = t AND 0x7f"
    unfolding lower_def seven_mask by (rule bit_word_eqI) (auto simp: bit_simps)
qed

lemma tag_split:
  fixes t acc :: u32
  shows "(acc OR push_bit s (t AND 0x7f)) OR push_bit (s + 7) (drop_bit 7 t) = acc OR push_bit s t"
proof (rule bit_word_eqI)
  fix n
  assume "n < LENGTH(32)"
  then show "bit ((acc OR push_bit s (t AND 0x7f)) OR push_bit (s + 7) (drop_bit 7 t)) n = bit (acc OR push_bit s t) n"
    unfolding seven_mask by (cases "n < s + 7") (auto simp: bit_simps)
qed

lemma drop_bit_small:
  fixes t :: u32
  assumes "drop_bit 4 t = 0"
  shows "(ucast (t AND 0x7f) :: u8) \<le> 15"
proof -
  have "drop_bit 4 (unat t) = 0" using arg_cong [OF assms, of unat] by (simp only: unat_drop_bit_eq unsigned_0)
  then have "unat t div 16 = 0" by (simp add: drop_bit_eq_div)
  then have t: "unat t < 16" by (simp add: div_eq_0_iff)
  have "unat (t AND 0x7f) \<le> unat t" by (metis word_and_le2 word_le_nat_alt)
  moreover have "unat (ucast (t AND 0x7f) :: u8) \<le> unat (t AND 0x7f)"
    by (simp add: unsigned_ucast_eq take_bit_eq_mod)
  ultimately have "unat (ucast (t AND 0x7f) :: u8) < 16" using t by linarith
  then show ?thesis by (simp add: word_le_nat_alt)
qed

text \<open>
  The decoder reads back what the encoder wrote, group by group, and needs no byte behind it.
\<close>

lemma decode_tag_loop_encode:
  fixes t :: u32
  assumes "drop_bit (32 - s) t = 0" "s \<le> 28" "s = 7 * c" "bytes = pre @ encode_tag_bytes t @ rest"
    "length pre = c" "c + length (encode_tag_bytes t) \<le> len"
  shows "decode_tag_loop bytes len c s acc = Tag (acc OR push_bit s t) (c + length (encode_tag_bytes t))
    \<and> c + length (encode_tag_bytes t) \<le> 5"
  using assms
proof (induction t arbitrary: s c acc pre rule: encode_tag_bytes.induct)
  case (1 t)
  define lower where "lower = (ucast (t AND 0x7f) :: u8)"
  note tb = tag_byte [of t, folded lower_def]
  have small: "\<not> lower AND 0x7f > 15" if "s = 28"
    using drop_bit_small [of t] 1(2) that tb(2) by (simp add: lower_def not_less)
  have c: "c \<le> 4" using 1(3,4) by simp
  have unf: "encode_tag_bytes t =
      (if drop_bit 7 t \<noteq> 0 then (lower OR 0x80) # encode_tag_bytes (drop_bit 7 t) else [lower])"
    by (subst encode_tag_bytes.simps) (simp add: Let_def lower_def)
  have pos: "0 < length (encode_tag_bytes t)" using unf by (cases "drop_bit 7 t = 0") simp_all
  then have lt: "c < len" using 1(6,7) by linarith
  have lb: "c < length bytes" using pos 1(5,6) by simp
  show ?case
  proof (cases "drop_bit 7 t = 0")
    case True
    have bc: "bytes ! c = lower" using 1(5,6) unf True by (simp add: nth_append)
    have "decode_tag_loop bytes len c s acc = Tag (acc OR push_bit s (ucast (lower AND 0x7f))) (c + 1)"
      using lt lb bc small 1(3) tb(4) by (subst decode_tag_loop.simps) (simp add: Let_def)
    then show ?thesis using tag_split [of acc s t] True tb(2,5) unf c by simp
  next
    case False
    have ne: "s \<noteq> 28"
    proof
      assume "s = 28"
      then have "drop_bit 3 (drop_bit 4 t) = 0" using 1(2) by simp
      then show False using False by simp
    qed
    then have c1: "c \<le> 3" "s + 7 \<le> 28" using 1(3,4) by auto
    have bc: "bytes ! c = lower OR 0x80" using 1(5,6) unf False by (simp add: nth_append)
    let ?acc = "acc OR push_bit s (ucast ((lower OR 0x80) AND 0x7f))"
    have "drop_bit (32 - (s + 7)) (drop_bit 7 t) = 0" using 1(2) c1 by (simp add: drop_bit_drop_bit)
    from 1(1) [OF refl refl False this c1(2), of "c + 1" "pre @ [lower OR 0x80]" ?acc] 1(4-7) unf False
    have "decode_tag_loop bytes len (c + 1) (s + 7) ?acc =
        Tag (?acc OR push_bit (s + 7) (drop_bit 7 t)) (c + 1 + length (encode_tag_bytes (drop_bit 7 t)))
        \<and> c + 1 + length (encode_tag_bytes (drop_bit 7 t)) \<le> 5" by simp
    moreover have "decode_tag_loop bytes len c s acc = decode_tag_loop bytes len (c + 1) (s + 7) ?acc"
      using lt lb bc 1(3) ne tb(3) by (subst decode_tag_loop.simps) (simp add: Let_def)
    ultimately show ?thesis using tag_split [of acc s t] tb(1,5) unf False by simp
  qed
qed

section \<open>The functions over buffers\<close>

definition BUF_MAX :: nat where
  "BUF_MAX = EVBUFFER_CHAIN_MAX - EVBUFFER_CHAIN_SIZE"

definition usable :: "(nat \<Rightarrow> bool) \<Rightarrow> evbuffer \<Rightarrow> bool" where
  "usable ok b \<longleftrightarrow> evbuffer_ok b \<and> \<not> freeze_start b \<and> \<not> freeze_end b \<and> (\<forall>k. ok k) \<and> total_len b \<le> BUF_MAX"

lemma usable_length: "usable ok b \<Longrightarrow> length (content b) = total_len b"
  by (simp add: usable_def)

lemma BUF_MAX_le: "n \<le> BUF_MAX \<Longrightarrow> n \<le> EV_SIZE_MAX"
  by (simp add: BUF_MAX_def EVBUFFER_CHAIN_MAX_def EVBUFFER_CHAIN_SIZE_def EV_SIZE_MAX_def)

lemma put_ok:
  assumes u: "usable ok b" and l: "length (content b) + length bytes \<le> BUF_MAX"
  shows "\<exists>b'. put ok b bytes = Some b' \<and> usable ok b' \<and> content b' = content b @ bytes"
proof -
  have g: "alloc_serves ok (length bytes) \<and> \<not> freeze_end b \<and> total_len b + length bytes \<le> EV_SIZE_MAX"
    using u l BUF_MAX_le [OF l] by (simp add: usable_def alloc_serves_def BUF_MAX_def)
  from evbuffer_add_ok [of b ok bytes] u obtain rb where
    rb: "evbuffer_add ok b bytes = Some rb" "add_post b bytes True rb"
    using g unfolding usable_def by (metis (full_types))
  then have "evbuffer_ok (snd rb)" "content (snd rb) = content b @ bytes" by (auto simp: add_post_def)
  moreover from calculation have "total_len (snd rb) = length (content b) + length bytes"
    by (metis length_append length_content)
  then have "usable ok (snd rb)" using rb(2) u l by (auto simp: add_post_def usable_def)
  ultimately show ?thesis using rb(1) by (simp add: put_def)
qed

lemma pull_ok:
  assumes u: "usable ok b" and sz: "0 < sz" "sz \<le> length (content b)"
  shows "\<exists>d b'. evbuffer_pullup ok b (int sz) = Some (Some d, b') \<and> usable ok b' \<and> content b' = content b \<and>
    take sz d = take sz (content b) \<and> sz \<le> length d"
proof -
  have inv: "evbuffer_ok b" and al: "alloc_serves ok sz"
    using u sz usable_length [OF u] by (auto simp: usable_def alloc_serves_def BUF_MAX_def)
  have "(if int sz < 0 then total_len b else nat (int sz)) = sz" by simp
  from evbuffer_pullup_ok [OF inv, of ok "int sz", unfolded this] obtain res b' where
    r: "evbuffer_pullup ok b (int sz) = Some (res, b')" "evbuffer_ok b'" "content b' = content b"
    "freeze_start b' = freeze_start b" "freeze_end b' = freeze_end b"
    "case res of None \<Rightarrow> sz = 0 \<or> sz > total_len b \<or> \<not> alloc_serves ok sz
     | Some bytes \<Rightarrow> 0 < sz \<and> sz \<le> total_len b \<and> take sz bytes = take sz (content b) \<and> sz \<le> length bytes"
    by blast
  moreover have "total_len b' = total_len b" using r(2,3) inv by (metis length_content)
  ultimately show ?thesis using sz al u usable_length [OF u] by (cases res) (auto simp: usable_def)
qed

lemma drain_ok:
  assumes u: "usable ok b"
  shows "\<exists>b'. evbuffer_drain b n = Some (0, b') \<and> usable ok b' \<and> content b' = drop n (content b)"
proof -
  from evbuffer_drain_ok [of b n] u obtain b' where
    b': "evbuffer_drain b n = Some (0, b')" "evbuffer_ok b'" "content b' = drop n (content b)"
    "freeze_start b' = freeze_start b" "freeze_end b' = freeze_end b" by (auto simp: usable_def)
  moreover have "total_len b' \<le> total_len b"
    using length_content [OF b'(2)] b'(3) usable_length [OF u] by simp
  ultimately show ?thesis using u by (auto simp: usable_def)
qed

text \<open>The prefix of a contiguous block agrees with the contents.\<close>

lemma take_eq_prefix: "take n d = take n (xs @ ys) \<Longrightarrow> length xs \<le> n \<Longrightarrow> \<exists>zs. d = xs @ zs"
  by (metis append_take_drop_id take_append take_all append_eq_append_conv2 append_assoc)

lemma decode_tag_internal_ok:
  assumes u: "usable ok b" and c: "content b = encode_tag_bytes t @ rest"
  shows "\<exists>b'. decode_tag_internal ok b dd = Some (int (length (encode_tag_bytes t)), Some t, b') \<and>
    usable ok b' \<and> content b' = (if dd then rest else content b)"
proof -
  let ?e = "encode_tag_bytes t" and ?len = "total_len b"
  have len: "?len = length ?e + length rest" using usable_length [OF u] c by simp
  have z: "drop_bit (32 - 0) t = 0" by (rule bit_word_eqI) (auto simp: bit_simps dest: bit_imp_le_length)
  have e5: "length ?e \<le> 5" "?e \<noteq> []"
    using decode_tag_loop_encode [OF z, of 0 ?e "[]" "[]" "length ?e" 0] by (auto simp: encode_tag_bytes.simps [of t] Let_def)
  define sz where "sz = (if ?len < 5 then ?len else 5)"
  have sz: "0 < sz" "sz \<le> length (content b)" "length ?e \<le> sz"
    using len e5 usable_length [OF u] by (auto simp: sz_def)
  from pull_ok [OF u sz(1,2)] obtain d b1 where
    p: "evbuffer_pullup ok b (int sz) = Some (Some d, b1)" "usable ok b1" "content b1 = content b"
    "take sz d = take sz (content b)" by blast
  obtain zs where d: "d = ?e @ zs" using take_eq_prefix [OF p(4) [unfolded c] sz(3)] by blast
  have dl: "decode_tag_loop d ?len 0 0 0 = Tag t (length ?e)"
    using decode_tag_loop_encode [OF z, of 0 d "[]" zs ?len 0] d len by simp
  have si: "(if ?len < 5 then int ?len else 5) = int sz" by (simp add: sz_def)
  have im: "\<not> int (length ?e) > INT_MAX" using e5(1) by (simp add: INT_MAX_def)
  from drain_ok [OF p(2), of "length ?e"] obtain b2 where
    "evbuffer_drain b1 (length ?e) = Some (0, b2)" "usable ok b2" "content b2 = rest"
    using p(3) c by auto
  then show ?thesis using p dl im unfolding decode_tag_internal_def evbuffer_get_length_def Let_def si
    by simp
qed

lemma DECODE_INT_INTERNAL_dec:
  assumes u: "usable ok b" and c: "content b = pre @ bs" and d: "dec_int maxn bs = Some (x :: 'a::len word, n)"
  shows "\<exists>b'. DECODE_INT_INTERNAL ok maxn b (length pre) = Some (int n, Some x, b') \<and> usable ok b' \<and>
    content b' = content b"
proof -
  let ?o = "length pre" and ?N = "unat (nib bs 0) + 1"
  have bs: "bs \<noteq> []" "\<not> ?N > maxn" "n = ?N div 2 + 1" "n \<le> length bs" "x = decode_int_loop bs ?N 0"
    using d by (auto simp: dec_int_def Let_def split: if_splits)
  have tl: "total_len b = ?o + length bs" using usable_length [OF u] c by simp
  have l1: "0 < length bs" using bs(1) by simp
  have s1: "0 < ?o + 1" "?o + 1 \<le> length (content b)" using c l1 by (simp_all add: Suc_leI)
  from pull_ok [OF u s1] obtain d1 b1 where
    p1: "evbuffer_pullup ok b (int (?o + 1)) = Some (Some d1, b1)" "usable ok b1" "content b1 = content b"
    "take (?o + 1) d1 = take (?o + 1) (content b)" "?o + 1 \<le> length d1" by blast
  have d1: "d1 ! ?o = bs ! 0"
    using arg_cong [OF p1(4), of "\<lambda>xs. xs ! ?o"] c l1 by (simp add: nth_append)
  have s2: "0 < ?o + n" "?o + n \<le> length (content b1)" using c bs(3,4) p1(3) by simp_all
  from pull_ok [OF p1(2) s2] obtain d2 b2 where
    p2: "evbuffer_pullup ok b1 (int (?o + n)) = Some (Some d2, b2)" "usable ok b2" "content b2 = content b1"
    "take (?o + n) d2 = take (?o + n) (content b1)" "?o + n \<le> length d2" by blast
  have t2: "take n (drop ?o d2) = take n bs"
    using arg_cong [OF p2(4), of "drop ?o"] c p1(3) by (simp add: drop_take)
  have "nib (drop ?o d2) q = nib bs q" if "q \<le> ?N" for q
  proof -
    have "q div 2 < n" using bs(3) div_le_mono [OF that, of 2] by simp
    then show ?thesis using t2 by (metis nib_take)
  qed
  then have "decode_int_loop (drop ?o d2) ?N 0 = decode_int_loop bs ?N (0 :: 'a word)"
    by (intro decode_int_loop_cong) blast
  then have "decode_int_loop (drop ?o d2) ?N 0 = x" by (simp only: bs(5))
  moreover have "unat (drop_bit 4 (d1 ! ?o AND 0xf0)) + 1 = ?N" by (simp add: d1 nib_def)
  moreover have "evbuffer_pullup ok b (int ?o + 1) = Some (Some d1, b1)" using p1(1) by (simp add: add.commute)
  moreover have "(int (?o + length bs) - int ?o \<le> 0) = False" "(length d1 \<le> ?o) = False"
    "(?N > maxn \<or> int n > int (?o + length bs) - int ?o) = False" "(?o + n > length d2) = False"
    using l1 p1(5) p2(5) bs(2,4) by simp_all
  ultimately have "DECODE_INT_INTERNAL ok maxn b ?o = Some (int n, Some x, b2)"
    unfolding DECODE_INT_INTERNAL_def evbuffer_get_length_def Let_def tl
    by (simp only: bs(3) [symmetric] p2(1) bind.bind_lunit prod.case option.case if_False)
  then show ?thesis using p2(2,3) p1(3) by simp
qed

section \<open>Marshalling and unmarshalling\<close>

lemma drain_decoded_ok:
  assumes "m = Some (int n, Some x, b1)" "usable ok b1" "n \<le> BUF_MAX"
  shows "\<exists>b2. drain_decoded m = Some (0, Some x, b2) \<and> usable ok b2 \<and> content b2 = drop n (content b1)"
proof -
  have "c_size (int n) = n" using BUF_MAX_le [OF assms(3)] by (simp add: c_size_def EV_SIZE_MAX_def)
  then show ?thesis using drain_ok [OF assms(2), of n] assms(1) by (auto simp: drain_decoded_def)
qed

lemma encoded_int_le: "content b = pre @ encode_int_internal x @ rest \<Longrightarrow> length (encode_int_internal x) \<le> BUF_MAX"
  using encode_int_internal_dec(3) [of x]
  by (simp add: BUF_MAX_def EVBUFFER_CHAIN_MAX_def EVBUFFER_CHAIN_SIZE_def)

lemma evtag_decode_int_ok:
  assumes u: "usable ok b" and c: "content b = encode_int_internal x @ rest"
  shows "\<exists>b'. evtag_decode_int ok b = Some (0, Some x, b') \<and> usable ok b' \<and> content b' = rest"
proof -
  from DECODE_INT_INTERNAL_dec [OF u, of "[]"] c encode_int_internal_dec(1) obtain b1 where
    b1: "decode_int_internal ok b 0 = Some (int (length (encode_int_internal x)), Some x, b1)" "usable ok b1"
    "content b1 = content b" unfolding decode_int_internal_def by fastforce
  from drain_decoded_ok [OF b1(1,2)] encoded_int_le [of b "[]" x rest] c b1(3) show ?thesis
    by (auto simp: evtag_decode_int_def)
qed

lemma evtag_decode_int64_ok:
  assumes u: "usable ok b" and c: "content b = encode_int64_internal x @ rest"
  shows "\<exists>b'. evtag_decode_int64 ok b = Some (0, Some x, b') \<and> usable ok b' \<and> content b' = rest"
proof -
  from DECODE_INT_INTERNAL_dec [OF u, of "[]"] c encode_int64_internal_dec(1) obtain b1 where
    b1: "decode_int64_internal ok b 0 = Some (int (length (encode_int64_internal x)), Some x, b1)" "usable ok b1"
    "content b1 = content b" unfolding decode_int64_internal_def by fastforce
  have "length (encode_int64_internal x) \<le> BUF_MAX" using encode_int64_internal_dec(3) [of x]
    by (simp add: BUF_MAX_def EVBUFFER_CHAIN_MAX_def EVBUFFER_CHAIN_SIZE_def)
  from drain_decoded_ok [OF b1(1,2) this] c b1(3) show ?thesis by (auto simp: evtag_decode_int64_def)
qed

definition field_bytes :: "u32 \<Rightarrow> u8 list \<Rightarrow> u8 list" where
  "field_bytes tag data = encode_tag_bytes tag @ encode_int_internal (of_nat (length data)) @ data"

lemma evtag_encode_tag_ok:
  assumes "usable ok b" "length (content b) + length (encode_tag_bytes t) \<le> BUF_MAX"
  shows "\<exists>b'. evtag_encode_tag ok b t = Some (int (length (encode_tag_bytes t)), b') \<and> usable ok b' \<and>
    content b' = content b @ encode_tag_bytes t"
  using put_ok [OF assms] by (auto simp: evtag_encode_tag_def Let_def)

lemma evtag_marshal_ok:
  assumes u: "usable ok b" and l: "length (content b) + length (field_bytes tag data) \<le> BUF_MAX"
  shows "\<exists>b'. evtag_marshal ok b tag data = Some b' \<and> usable ok b' \<and> content b' = content b @ field_bytes tag data"
proof -
  from evtag_encode_tag_ok [OF u, of tag] l obtain b1 where
    b1: "evtag_encode_tag ok b tag = Some (int (length (encode_tag_bytes tag)), b1)" "usable ok b1"
    "content b1 = content b @ encode_tag_bytes tag" by (auto simp: field_bytes_def)
  from put_ok [OF b1(2), of "encode_int_internal (of_nat (length data))"] l b1(3) obtain b2 where
    b2: "evtag_encode_int ok b1 (of_nat (length data)) = Some b2" "usable ok b2"
    "content b2 = content b1 @ encode_int_internal (of_nat (length data))"
    by (auto simp: field_bytes_def evtag_encode_int_def)
  from put_ok [OF b2(2), of data] l b1(3) b2(3) b1(1) b2(1) show ?thesis
    by (auto simp: field_bytes_def evtag_marshal_def)
qed

lemma evtag_marshal_int_field: "evtag_marshal_int ok b tag x = evtag_marshal ok b tag (encode_int_internal x)"
  by (simp add: evtag_marshal_int_def evtag_marshal_def Let_def)

lemma evtag_marshal_int64_field: "evtag_marshal_int64 ok b tag x = evtag_marshal ok b tag (encode_int64_internal x)"
  by (simp add: evtag_marshal_int64_def evtag_marshal_def Let_def)

definition small_field :: "u8 list \<Rightarrow> bool" where
  "small_field data \<longleftrightarrow> int (length data) \<le> INT_MAX"

lemma small_field_word:
  assumes "small_field data"
  shows "unat (of_nat (length data) :: u32) = length data" "uint (of_nat (length data) :: u32) = int (length data)"
    "c_int (int (length data)) = int (length data)" "c_size (int (length data)) = length data"
    "int (length data) \<noteq> -1"
proof -
  have l: "length data < 2 ^ 31" using assms by (simp add: small_field_def INT_MAX_def)
  show n: "unat (of_nat (length data) :: u32) = length data" using l by (simp add: unat_of_nat take_bit_nat_eq_self)
  then show "uint (of_nat (length data) :: u32) = int (length data)" by (metis uint_nat)
  show "c_int (int (length data)) = int (length data)"
    using assms by (intro c_int_id) (simp_all add: small_field_def INT_MAX_def)
  show "c_size (int (length data)) = length data" using l by (simp add: c_size_def)
qed simp

lemma evtag_unmarshal_header_ok:
  assumes u: "usable ok b" and c: "content b = field_bytes tag data @ rest" and s: "small_field data"
  shows "\<exists>b'. evtag_unmarshal_header ok b = Some (int (length data), Some tag, b') \<and> usable ok b' \<and>
    content b' = data @ rest"
proof -
  let ?n = "of_nat (length data) :: u32"
  from decode_tag_internal_ok [OF u, of tag "encode_int_internal ?n @ data @ rest" True] c obtain b1 where
    b1: "decode_tag_internal ok b True = Some (int (length (encode_tag_bytes tag)), Some tag, b1)" "usable ok b1"
    "content b1 = encode_int_internal ?n @ data @ rest" by (auto simp: field_bytes_def)
  from evtag_decode_int_ok [OF b1(2,3)] obtain b2 where
    b2: "evtag_decode_int ok b1 = Some (0, Some ?n, b2)" "usable ok b2" "content b2 = data @ rest" by blast
  have "total_len b2 = length data + length rest" using usable_length [OF b2(2)] b2(3) by simp
  then show ?thesis using b1(1) b2 small_field_word [OF s]
    by (simp add: evtag_unmarshal_header_def evbuffer_get_length_def)
qed

lemma evtag_consume_ok:
  assumes u: "usable ok b" and c: "content b = field_bytes tag data @ rest" and s: "small_field data"
  shows "\<exists>b'. evtag_consume ok b = Some (0, b') \<and> usable ok b' \<and> content b' = rest"
proof -
  from evtag_unmarshal_header_ok [OF assms] obtain b1 where
    b1: "evtag_unmarshal_header ok b = Some (int (length data), Some tag, b1)" "usable ok b1"
    "content b1 = data @ rest" by blast
  from drain_ok [OF b1(2), of "length data"] b1 small_field_word [OF s] show ?thesis
    by (auto simp: evtag_consume_def)
qed

lemma evtag_unmarshal_ok:
  assumes u: "usable ok b" and c: "content b = field_bytes tag data @ rest" and s: "small_field data"
    and d: "usable ok dst" "length (content dst) + length data \<le> BUF_MAX"
  shows "\<exists>b' dst'. evtag_unmarshal ok b dst = Some (int (length data), Some tag, b', dst') \<and>
    usable ok b' \<and> content b' = rest \<and> usable ok dst' \<and> content dst' = content dst @ data"
proof -
  from evtag_unmarshal_header_ok [OF u c s] obtain b1 where
    b1: "evtag_unmarshal_header ok b = Some (int (length data), Some tag, b1)" "usable ok b1"
    "content b1 = data @ rest" by blast
  obtain p b2 where b2: "evbuffer_pullup ok b1 (int (length data)) = Some (p, b2)" "usable ok b2"
    "content b2 = data @ rest" "p = None \<and> data = [] \<or> (\<exists>x. p = Some x \<and> take (length data) x = data \<and> length data \<le> length x)"
  proof (cases "data = []")
    case True
    then show thesis using that [of None b1] b1 by (simp add: evbuffer_pullup_def)
  next
    case False
    from pull_ok [OF b1(2), of "length data"] b1(3) False that show thesis by auto
  qed
  have x: "(case p of None \<Rightarrow> [] | Some d \<Rightarrow> take (c_size (int (length data))) d) = data"
    using b2(4) small_field_word [OF s] by auto
  from put_ok [OF d] obtain r dst' where dst': "evbuffer_add ok dst data = Some (r, dst')" "usable ok dst'"
    "content dst' = content dst @ data" by (auto simp: put_def)
  have "r \<noteq> -1"
  proof -
    have g: "alloc_serves ok (length data) \<and> \<not> freeze_end dst \<and> total_len dst + length data \<le> EV_SIZE_MAX"
      using d usable_length [OF d(1)] BUF_MAX_le [OF d(2)] by (simp add: usable_def alloc_serves_def BUF_MAX_def)
    from evbuffer_add_ok [of dst ok data] d(1) g dst'(1) show ?thesis by (auto simp: usable_def add_post_def)
  qed
  moreover from drain_ok [OF b2(2), of "length data"] b2(3) obtain b3 where
    "evbuffer_drain b2 (length data) = Some (0, b3)" "usable ok b3" "content b3 = rest" by auto
  moreover have "(case p of None \<Rightarrow> if int (length data) \<noteq> 0 then None else Some ()
      | Some d \<Rightarrow> if c_size (int (length data)) > length d then None else Some ()) = Some ()"
    using b2(4) small_field_word [OF s] by auto
  ultimately show ?thesis using b1(1) b2(1) dst' small_field_word [OF s]
    by (simp add: evtag_unmarshal_def x)
qed

text \<open>Integers inside a field.\<close>

lemma unmarshal_int_gen_ok:
  assumes u: "usable ok b" and c: "content b = field_bytes tag data @ rest" and s: "small_field data"
    and dec: "\<And>b. usable ok b \<Longrightarrow> content b = data @ rest \<Longrightarrow>
      \<exists>b'. decode b = Some (int (length data), Some x, b') \<and> usable ok b' \<and> content b' = content b"
  shows "\<exists>b'. unmarshal_int_gen ok decode b tag = Some (int (length data), Some x, b') \<and> usable ok b' \<and>
    content b' = rest"
proof -
  let ?n = "of_nat (length data) :: u32"
  from decode_tag_internal_ok [OF u, of tag "encode_int_internal ?n @ data @ rest" True] c obtain b1 where
    b1: "decode_tag_internal ok b True = Some (int (length (encode_tag_bytes tag)), Some tag, b1)" "usable ok b1"
    "content b1 = encode_int_internal ?n @ data @ rest" by (auto simp: field_bytes_def)
  from evtag_decode_int_ok [OF b1(2,3)] obtain b2 where
    b2: "evtag_decode_int ok b1 = Some (0, Some ?n, b2)" "usable ok b2" "content b2 = data @ rest" by blast
  from dec [OF b2(2,3)] obtain b3 where
    b3: "decode b2 = Some (int (length data), Some x, b3)" "usable ok b3" "content b3 = data @ rest" using b2(3) by auto
  from drain_ok [OF b3(2), of "length data"] b3(3) obtain b4 where
    b4: "evbuffer_drain b3 (length data) = Some (0, b4)" "usable ok b4" "content b4 = rest" by auto
  have "total_len b2 = length data + length rest" using usable_length [OF b2(2)] b2(3) by simp
  then show ?thesis using b1(1) b2(1) b3(1) b4 small_field_word [OF s]
    by (simp add: unmarshal_int_gen_def evbuffer_get_length_def)
qed

lemma evtag_unmarshal_int_ok:
  assumes u: "usable ok b" and c: "content b = field_bytes tag (encode_int_internal x) @ rest"
  shows "\<exists>b'. evtag_unmarshal_int ok b tag = Some (int (length (encode_int_internal x)), Some x, b') \<and>
    usable ok b' \<and> content b' = rest"
  unfolding evtag_unmarshal_int_def
proof (rule unmarshal_int_gen_ok [OF u c])
  show "small_field (encode_int_internal x)"
    using encode_int_internal_dec(3) [of x] by (simp add: small_field_def INT_MAX_def)
  fix b
  assume "usable ok b" "content b = encode_int_internal x @ rest"
  then show "\<exists>b'. decode_int_internal ok b 0 = Some (int (length (encode_int_internal x)), Some x, b') \<and>
      usable ok b' \<and> content b' = content b"
    using DECODE_INT_INTERNAL_dec [of ok b "[]"] encode_int_internal_dec(1) unfolding decode_int_internal_def
    by fastforce
qed

lemma evtag_unmarshal_int64_ok:
  assumes u: "usable ok b" and c: "content b = field_bytes tag (encode_int64_internal x) @ rest"
  shows "\<exists>b'. evtag_unmarshal_int64 ok b tag = Some (int (length (encode_int64_internal x)), Some x, b') \<and>
    usable ok b' \<and> content b' = rest"
  unfolding evtag_unmarshal_int64_def
proof (rule unmarshal_int_gen_ok [OF u c])
  show "small_field (encode_int64_internal x)"
    using encode_int64_internal_dec(3) [of x] by (simp add: small_field_def INT_MAX_def)
  fix b
  assume "usable ok b" "content b = encode_int64_internal x @ rest"
  then show "\<exists>b'. decode_int64_internal ok b 0 = Some (int (length (encode_int64_internal x)), Some x, b') \<and>
      usable ok b' \<and> content b' = content b"
    using DECODE_INT_INTERNAL_dec [of ok b "[]"] encode_int64_internal_dec(1) unfolding decode_int64_internal_def
    by fastforce
qed

text \<open>The other payloads: fixed-size data, strings and time values.\<close>

lemma remove_ok:
  assumes u: "usable ok b"
  shows "\<exists>r b'. evbuffer_remove b n = Some (r, take n (content b), b') \<and> usable ok b' \<and> content b' = drop n (content b)"
proof -
  let ?k = "min n (total_len b)"
  have co: "evbuffer_copyout_from b None n = Some (int ?k, take n (content b))"
    using evbuffer_copyout_ok [of b n] u by (simp add: evbuffer_copyout_def usable_def)
  have dk: "drop ?k (content b) = drop n (content b)" using usable_length [OF u] by (auto simp: min_def)
  from drain_ok [OF u, of ?k] obtain b' where
    "evbuffer_drain b ?k = Some (0, b')" "usable ok b'" "content b' = drop ?k (content b)" by blast
  then show ?thesis using co dk u by (cases "?k = 0") (auto simp: evbuffer_remove_def)
qed

lemma evtag_unmarshal_fixed_ok:
  assumes u: "usable ok b" and c: "content b = field_bytes tag data @ rest" and s: "small_field data"
  shows "\<exists>b'. evtag_unmarshal_fixed ok b tag (length data) = Some (0, data, b') \<and> usable ok b' \<and> content b' = rest"
proof -
  from evtag_unmarshal_header_ok [OF assms] obtain b1 where
    b1: "evtag_unmarshal_header ok b = Some (int (length data), Some tag, b1)" "usable ok b1"
    "content b1 = data @ rest" by blast
  from remove_ok [OF b1(2), of "length data"] b1 small_field_word [OF s] show ?thesis
    by (auto simp: evtag_unmarshal_fixed_def)
qed

lemma evtag_unmarshal_string_ok:
  assumes u: "usable ok b" and c: "content b = field_bytes tag data @ rest" and s: "small_field data"
  shows "\<exists>b'. evtag_unmarshal_string ok b tag = Some (0, data @ [0], b') \<and> usable ok b' \<and> content b' = rest"
proof -
  from evtag_unmarshal_header_ok [OF assms] obtain b1 where
    b1: "evtag_unmarshal_header ok b = Some (int (length data), Some tag, b1)" "usable ok b1"
    "content b1 = data @ rest" by blast
  from remove_ok [OF b1(2), of "length data"] b1 small_field_word [OF s] u show ?thesis
    by (auto simp: evtag_unmarshal_string_def usable_def)
qed

definition timeval_bytes :: "timeval \<Rightarrow> u8 list" where
  "timeval_bytes tv = encode_int_internal (of_int (tv_sec tv)) @ encode_int_internal (of_int (tv_usec tv))"

lemma evtag_unmarshal_timeval_ok:
  assumes u: "usable ok b" and c: "content b = field_bytes tag (timeval_bytes tv) @ rest"
    and r: "0 \<le> tv_sec tv" "tv_sec tv < 2 ^ 32" "0 \<le> tv_usec tv" "tv_usec tv < 2 ^ 32"
  shows "\<exists>b'. evtag_unmarshal_timeval ok b tag = Some (0, Some tv, b') \<and> usable ok b' \<and> content b' = rest"
proof -
  let ?s = "encode_int_internal (of_int (tv_sec tv))" and ?us = "encode_int_internal (of_int (tv_usec tv))"
  have sm: "small_field (timeval_bytes tv)"
    using encode_int_internal_dec(3) [of "of_int (tv_sec tv)"] encode_int_internal_dec(3) [of "of_int (tv_usec tv)"]
    by (simp add: small_field_def timeval_bytes_def INT_MAX_def)
  from evtag_unmarshal_header_ok [OF u c sm] obtain b1 where
    b1: "evtag_unmarshal_header ok b = Some (int (length (timeval_bytes tv)), Some tag, b1)" "usable ok b1"
    "content b1 = ?s @ ?us @ rest" by (auto simp: timeval_bytes_def)
  from DECODE_INT_INTERNAL_dec [OF b1(2), of "[]"] b1(3) encode_int_internal_dec(1) obtain b2 where
    b2: "decode_int_internal ok b1 0 = Some (int (length ?s), Some (of_int (tv_sec tv)), b2)" "usable ok b2"
    "content b2 = content b1" unfolding decode_int_internal_def by fastforce
  have c2: "content b2 = ?s @ ?us @ rest" using b1(3) b2(3) by simp
  from DECODE_INT_INTERNAL_dec [OF b2(2) c2 encode_int_internal_dec(1)] obtain b3 where
    b3: "decode_int_internal ok b2 (length ?s) = Some (int (length ?us), Some (of_int (tv_usec tv)), b3)" "usable ok b3"
    "content b3 = content b2" unfolding decode_int_internal_def by blast
  have w: "uint (of_int (tv_sec tv) :: u32) = tv_sec tv" "uint (of_int (tv_usec tv) :: u32) = tv_usec tv"
    using r by (simp_all add: uint_word_of_int_eq take_bit_int_eq_self)
  from drain_ok [OF b3(2), of "length (timeval_bytes tv)"] b3(3) c2 obtain b4 where
    "evbuffer_drain b3 (length (timeval_bytes tv)) = Some (0, b4)" "usable ok b4" "content b4 = rest"
    by (auto simp: timeval_bytes_def)
  then show ?thesis using b1(1) b2(1) b3(1) w small_field_word [OF sm]
    by (simp add: evtag_unmarshal_timeval_def timeval_bytes_def)
qed

section \<open>The formats as framed streams\<close>

definition read_int :: "(nat \<Rightarrow> bool) \<Rightarrow> evbuffer \<Rightarrow> (u32 \<times> evbuffer) option" where
  "read_int ok b = do { (r, n, b1) \<leftarrow> evtag_decode_int ok b; if r = 0 then map_option (\<lambda>x. (x, b1)) n else None }"

definition read_int64 :: "(nat \<Rightarrow> bool) \<Rightarrow> evbuffer \<Rightarrow> (u64 \<times> evbuffer) option" where
  "read_int64 ok b = do { (r, n, b1) \<leftarrow> evtag_decode_int64 ok b; if r = 0 then map_option (\<lambda>x. (x, b1)) n else None }"

definition read_tag :: "(nat \<Rightarrow> bool) \<Rightarrow> evbuffer \<Rightarrow> (u32 \<times> evbuffer) option" where
  "read_tag ok b = do { (r, n, b1) \<leftarrow> evtag_decode_tag ok b; if r = -1 then None else map_option (\<lambda>x. (x, b1)) n }"

text \<open>A field is read with \<^verbatim>\<open>evtag_unmarshal\<close> into a new buffer.\<close>

definition read_field :: "(nat \<Rightarrow> bool) \<Rightarrow> evbuffer \<Rightarrow> ((u32 \<times> u8 list) \<times> evbuffer) option" where
  "read_field ok b = do {
     (r, tag, b1, dst) \<leftarrow> evtag_unmarshal ok b evbuffer_new;
     if r = -1 then None else map_option (\<lambda>t. ((t, content dst), b1)) tag }"

definition write_field :: "(nat \<Rightarrow> bool) \<Rightarrow> evbuffer \<Rightarrow> u32 \<times> u8 list \<Rightarrow> evbuffer option" where
  "write_field ok b m = evtag_marshal ok b (fst m) (snd m)"

interpretation tag_ints: framed_stream "usable ok" content BUF_MAX "\<lambda>_. True" encode_int_internal
  "evtag_encode_int ok" "read_int ok" for ok
proof
  show "\<exists>b'. evtag_encode_int ok b m = Some b' \<and> usable ok b' \<and> content b' = content b @ encode_int_internal m"
    if "usable ok b" "True" "length (content b) + length (encode_int_internal m) \<le> BUF_MAX" for b m
    using put_ok [OF that(1,3)] by (simp add: evtag_encode_int_def)
  show "\<exists>b'. read_int ok b = Some (m, b') \<and> usable ok b' \<and> content b' = rest"
    if "usable ok b" "True" "content b = encode_int_internal m @ rest" for b m rest
    using evtag_decode_int_ok [OF that(1,3)] by (auto simp: read_int_def)
qed

interpretation tag_int64s: framed_stream "usable ok" content BUF_MAX "\<lambda>_. True" encode_int64_internal
  "evtag_encode_int64 ok" "read_int64 ok" for ok
proof
  show "\<exists>b'. evtag_encode_int64 ok b m = Some b' \<and> usable ok b' \<and> content b' = content b @ encode_int64_internal m"
    if "usable ok b" "True" "length (content b) + length (encode_int64_internal m) \<le> BUF_MAX" for b m
    using put_ok [OF that(1,3)] by (simp add: evtag_encode_int64_def)
  show "\<exists>b'. read_int64 ok b = Some (m, b') \<and> usable ok b' \<and> content b' = rest"
    if "usable ok b" "True" "content b = encode_int64_internal m @ rest" for b m rest
    using evtag_decode_int64_ok [OF that(1,3)] by (auto simp: read_int64_def)
qed

interpretation tag_tags: framed_stream "usable ok" content BUF_MAX "\<lambda>_. True" encode_tag_bytes
  "\<lambda>b t. map_option snd (evtag_encode_tag ok b t)" "read_tag ok" for ok
proof
  show "\<exists>b'. map_option snd (evtag_encode_tag ok b m) = Some b' \<and> usable ok b' \<and> content b' = content b @ encode_tag_bytes m"
    if "usable ok b" "True" "length (content b) + length (encode_tag_bytes m) \<le> BUF_MAX" for b m
    using evtag_encode_tag_ok [OF that(1,3)] by auto
  show "\<exists>b'. read_tag ok b = Some (m, b') \<and> usable ok b' \<and> content b' = rest"
    if "usable ok b" "True" "content b = encode_tag_bytes m @ rest" for b m rest
    using decode_tag_internal_ok [OF that(1,3), of True] by (auto simp: read_tag_def evtag_decode_tag_def)
qed

interpretation tag_fields: framed_stream "usable ok" content BUF_MAX "\<lambda>m. small_field (snd m)"
  "\<lambda>m. field_bytes (fst m) (snd m)" "write_field ok" "read_field ok" for ok
proof
  show "\<exists>b'. write_field ok b m = Some b' \<and> usable ok b' \<and> content b' = content b @ field_bytes (fst m) (snd m)"
    if "usable ok b" "small_field (snd m)" "length (content b) + length (field_bytes (fst m) (snd m)) \<le> BUF_MAX" for b m
    using evtag_marshal_ok [OF that(1,3)] by (simp add: write_field_def)
  show "\<exists>b'. read_field ok b = Some (m, b') \<and> usable ok b' \<and> content b' = rest"
    if u: "usable ok b" and s: "small_field (snd m)" and c: "content b = field_bytes (fst m) (snd m) @ rest" for b m rest
  proof -
    have n: "usable ok evbuffer_new" using u evbuffer_new_ok by (auto simp: usable_def evbuffer_new_def)
    have "length (content evbuffer_new) + length (snd m) \<le> BUF_MAX"
      using u c usable_length [OF u] evbuffer_new_ok(2) by (simp add: usable_def field_bytes_def)
    from evtag_unmarshal_ok [OF u c s n this] evbuffer_new_ok(2) show ?thesis
      by (auto simp: read_field_def)
  qed
qed

section \<open>Properties\<close>

text \<open>
  C5. A sequence of tagged fields written with \<^verbatim>\<open>evtag_marshal\<close> into an empty buffer is read back
  by \<^verbatim>\<open>evtag_unmarshal\<close> with the same tags and payloads, in the same order, and nothing is left.
\<close>

theorem tagged_fields_round_trip:
  assumes "usable ok b" "content b = []" "\<forall>m \<in> set ms. small_field (snd m)"
    "length (concat (map (\<lambda>m. field_bytes (fst m) (snd m)) ms)) \<le> BUF_MAX"
  shows "\<exists>b1 b2. write_all (write_field ok) b ms = Some b1 \<and>
    read_all (read_field ok) b1 (length ms) = Some (ms, b2) \<and> content b2 = []"
  using tag_fields.stream_round_trip [OF assms] .

lemma usable_new: "(\<forall>k. ok k) \<Longrightarrow> usable ok evbuffer_new"
  using evbuffer_new_ok by (simp add: usable_def evbuffer_new_def)

theorem tagged_fields_round_trip_witness:
  "\<exists>b1 b2. write_all (write_field (\<lambda>_. True)) evbuffer_new [(0x166, [1, 2]), (7, [])] = Some b1 \<and>
    read_all (read_field (\<lambda>_. True)) b1 2 = Some ([(0x166, [1, 2]), (7, [])], b2) \<and> content b2 = []"
proof -
  have len: "length (field_bytes t d) \<le> 20" if "length d \<le> 2" for t d
    using that encode_int_internal_dec(3) [of "of_nat (length d)"]
      decode_tag_loop_encode [of 0 t 0 "encode_tag_bytes t" "[]" "[]" "length (encode_tag_bytes t)" 0]
    by (simp add: field_bytes_def)
  have "length (concat (map (\<lambda>m. field_bytes (fst m) (snd m)) [(0x166, [1, 2]), (7, [])])) \<le> BUF_MAX"
    using len [of "[1, 2]" "0x166"] len [of "[]" 7]
    by (simp add: BUF_MAX_def EVBUFFER_CHAIN_MAX_def EVBUFFER_CHAIN_SIZE_def)
  then show ?thesis
    using tagged_fields_round_trip [of "\<lambda>_. True" evbuffer_new "[(0x166, [1, 2]), (7, [])]"] usable_new
    by (simp add: evbuffer_new_ok(2) small_field_def INT_MAX_def numeral_2_eq_2)
qed

text \<open>
  The nibble encoding of a 32-bit integer has at most five bytes and decodes to the integer and
  its length, whatever bytes follow it.
\<close>

theorem encode_int_round_trip:
  assumes "usable ok b" "content b = encode_int_internal x @ rest"
  shows "0 < length (encode_int_internal x) \<and> length (encode_int_internal x) \<le> 5 \<and>
    (\<exists>b'. evtag_decode_int ok b = Some (0, Some x, b') \<and> usable ok b' \<and> content b' = rest)"
  using evtag_decode_int_ok [OF assms] encode_int_internal_dec(2,3) [of x] by auto

definition sample_int_buffer :: evbuffer where
  "sample_int_buffer = evbuffer_new\<lparr>chains := [sample_chain [0x21, 0x23, 0xff]], total_len := 3\<rparr>"

lemma sample_int_usable: "usable (\<lambda>_. True) sample_int_buffer" "content sample_int_buffer = [0x21, 0x23, 0xff]"
  by (auto simp: sample_int_buffer_def usable_def evbuffer_ok_def sample_chain_def evbuffer_new_def chain_ok_def
      CHAIN_PINNED_def lwd_ok_def evbuffer_chains_all_empty_def EVBUFFER_CHAIN_MAX_def EVBUFFER_CHAIN_SIZE_def
      EV_SIZE_MAX_def BUF_MAX_def content_def cdata_def)

theorem encode_int_round_trip_witness:
  "\<exists>b'. evtag_decode_int (\<lambda>_. True) sample_int_buffer = Some (0, Some 0x321, b') \<and> content b' = [0xff]"
proof -
  have "encode_int_internal 0x321 = [0x21, 0x23]" by code_simp
  with encode_int_round_trip [OF sample_int_usable(1), of "0x321" "[0xff]"] sample_int_usable(2) show ?thesis by auto
qed

text \<open>
  A time marshalled with \<^verbatim>\<open>evtag_marshal_timeval\<close> is read back unchanged when its fields fit
  32 bits.
\<close>

theorem timeval_round_trip:
  assumes "usable ok b" "content b = field_bytes tag (timeval_bytes tv) @ rest"
    "0 \<le> tv_sec tv" "tv_sec tv < 2 ^ 32" "0 \<le> tv_usec tv" "tv_usec tv < 2 ^ 32"
  shows "\<exists>b'. evtag_unmarshal_timeval ok b tag = Some (0, Some tv, b') \<and> usable ok b' \<and> content b' = rest"
  using evtag_unmarshal_timeval_ok [OF assms] .

definition sample_tv_buffer :: evbuffer where
  "sample_tv_buffer = evbuffer_new\<lparr>chains := [sample_chain [9, 2, 5, 7]], total_len := 4\<rparr>"

theorem timeval_round_trip_witness:
  "\<exists>b'. evtag_unmarshal_timeval (\<lambda>_. True) sample_tv_buffer 9 = Some (0, Some (Timeval 5 7), b') \<and> content b' = []"
proof -
  have "usable (\<lambda>_. True) sample_tv_buffer" "content sample_tv_buffer = [9, 2, 5, 7]"
    by (auto simp: sample_tv_buffer_def usable_def evbuffer_ok_def sample_chain_def evbuffer_new_def chain_ok_def
        CHAIN_PINNED_def lwd_ok_def evbuffer_chains_all_empty_def EVBUFFER_CHAIN_MAX_def EVBUFFER_CHAIN_SIZE_def
        EV_SIZE_MAX_def BUF_MAX_def content_def cdata_def)
  moreover have "field_bytes 9 (timeval_bytes (Timeval 5 7)) = [9, 2, 5, 7]" by code_simp
  ultimately show ?thesis
    using timeval_round_trip [of "\<lambda>_. True" sample_tv_buffer 9 "Timeval 5 7" "[]"] by auto
qed

lemma decode_tag_loop_continues:
  assumes "cnt < len" "cnt < length data" "shift \<le> 28" "data ! cnt AND 0x80 \<noteq> 0" "shift = 28 \<longrightarrow> data ! cnt AND 0x7f \<le> 15"
  shows "\<exists>number'. decode_tag_loop data len cnt shift number = decode_tag_loop data len (cnt + 1) (shift + 7) number'"
  using assms by (subst decode_tag_loop.simps) (auto simp: Let_def not_less)

text \<open>
  C6. The tag decoder asks for at most five contiguous bytes but examines a sixth one. Whenever a buffer
  has more than five bytes, its first chain holds exactly five of them, all five ask for another byte and the fifth one fits into 32 bits,
  then the pullup succeeds and gives the data of this chain, and the loop goes on to read the byte at offset 5 of it: the byte
  behind the data of the chain, where its memory may end.
\<close>

theorem decode_tag_reads_sixth_byte:
  assumes "evbuffer_ok b" "chains b = c # cs" "off c = 5" "5 < total_len b"
    "list_all (\<lambda>x. x AND 0x80 \<noteq> 0) (cdata c)" "cdata c ! 4 AND 0x7f \<le> 15"
  shows "evbuffer_pullup ok b 5 = Some (Some (cdata c), b) \<and> length (cdata c) = 5 \<and>
    decode_tag_loop (cdata c) (total_len b) 0 0 0 = Reads_behind 5 \<and> decode_tag_internal ok b dodrain = None"
proof -
  have len: "length (cdata c) = 5" using assms(1-3) by (simp add: evbuffer_ok_def)
  have pull: "evbuffer_pullup ok b 5 = Some (Some (cdata c), b)" using assms(2-4) by (simp add: evbuffer_pullup_def)
  have cont: "cdata c ! i AND 0x80 \<noteq> 0" if "i < 5" for i using assms(5) len that by (simp add: list_all_length)
  have go: "\<exists>x'. decode_tag_loop (cdata c) (total_len b) i (7 * i) x = decode_tag_loop (cdata c) (total_len b) (i + 1) (7 * i + 7) x'"
    if "i < 5" for i x
    by (rule decode_tag_loop_continues) (use that assms(4,6) len cont [OF that] in \<open>auto simp: less_Suc_eq_0_disj numeral_eq_Suc\<close>)
  have "k \<le> 5 \<Longrightarrow> \<exists>x. decode_tag_loop (cdata c) (total_len b) 0 0 0 = decode_tag_loop (cdata c) (total_len b) k (7 * k) x" for k
  proof (induction k)
    case (Suc k)
    then obtain x where "decode_tag_loop (cdata c) (total_len b) 0 0 0 = decode_tag_loop (cdata c) (total_len b) k (7 * k) x" by auto
    with go [of k x] Suc.prems show ?case by (auto simp: algebra_simps)
  qed auto
  from this [of 5] obtain x where "decode_tag_loop (cdata c) (total_len b) 0 0 0 = decode_tag_loop (cdata c) (total_len b) 5 35 x" by auto
  moreover have "decode_tag_loop (cdata c) (total_len b) 5 35 x = Reads_behind 5" using assms(4) len by (subst decode_tag_loop.simps) simp
  ultimately have loop: "decode_tag_loop (cdata c) (total_len b) 0 0 0 = Reads_behind 5" by simp
  moreover have "decode_tag_internal ok b dodrain = None"
    using assms(4) pull loop by (simp add: decode_tag_internal_def evbuffer_get_length_def)
  ultimately show ?thesis using pull len by blast
qed

text \<open>The memory of the first chain ends with its five bytes.\<close>

definition five_continued :: evbuffer where
  "five_continued = evbuffer_new\<lparr>chains := [sample_chain [0x80, 0x80, 0x80, 0x80, 0x80], sample_chain [1]],
     last_with_data := 1, total_len := 6\<rparr>"

theorem decode_tag_reads_sixth_byte_witness:
  "buffer_len (hd (chains five_continued)) = 5 \<and>
   evbuffer_pullup (\<lambda>_. True) five_continued 5 = Some (Some [0x80, 0x80, 0x80, 0x80, 0x80], five_continued) \<and>
   decode_tag_loop [0x80, 0x80, 0x80, 0x80, 0x80] 6 0 0 0 = Reads_behind 5"
proof -
  have "evbuffer_ok five_continued"
    by (auto simp: five_continued_def evbuffer_ok_def sample_chain_def evbuffer_new_def chain_ok_def CHAIN_PINNED_def
        lwd_ok_def evbuffer_chains_all_empty_def EVBUFFER_CHAIN_MAX_def EVBUFFER_CHAIN_SIZE_def EV_SIZE_MAX_def)
  moreover have c: "chains five_continued = [sample_chain [0x80, 0x80, 0x80, 0x80, 0x80], sample_chain [1]]" "total_len five_continued = 6"
    by (simp_all add: five_continued_def)
  moreover have d: "cdata (sample_chain [0x80, 0x80, 0x80, 0x80, 0x80]) = [0x80, 0x80, 0x80, 0x80, 0x80]"
    by (simp add: cdata_def sample_chain_def)
  ultimately show ?thesis
    using decode_tag_reads_sixth_byte [of five_continued "sample_chain [0x80, 0x80, 0x80, 0x80, 0x80]" "[sample_chain [1]]" "\<lambda>_. True" True]
    by (simp add: d) (simp add: sample_chain_def)
qed

end
