(* ===== verification/Backend.thy ===== *)
theory Backend
  imports Event_Prelude
begin

text \<open>
  What \<^verbatim>\<open>src/evmap.c\<close> relies on when it calls the \<^verbatim>\<open>add\<close> and \<^verbatim>\<open>del\<close> members of a
  \<^verbatim>\<open>struct eventop\<close> (\<^verbatim>\<open>src/event-internal.h\<close>): when it is told what it watches on a descriptor, the
  backend watches after the call the old events with the new ones added or taken away, and nothing
  changes for other descriptors; a descriptor that cannot be polled is refused. The epoll backend and the changelist
  interpret the interface.
\<close>

definition IO_EVENTS :: u16 where
  "IO_EVENTS = EV_READ OR EV_WRITE OR EV_CLOSED"

lemma bit_IO_EVENTS: "bit IO_EVENTS i \<longleftrightarrow> i = 1 \<or> i = 2 \<or> i = 7"
  by (auto simp: IO_EVENTS_def bit_simps)

text \<open>The events of a mask of three conditions.\<close>

definition io_mask :: "bool \<Rightarrow> bool \<Rightarrow> bool \<Rightarrow> u16" where
  "io_mask r w c = (if r then EV_READ else 0) OR (if w then EV_WRITE else 0) OR (if c then EV_CLOSED else 0)"

lemma bit_io_mask: "bit (io_mask r w c) i \<longleftrightarrow> r \<and> i = 1 \<or> w \<and> i = 2 \<or> c \<and> i = 7"
  by (auto simp: io_mask_def bit_simps)

lemma io_mask_AND [simp]: "io_mask r w c AND IO_EVENTS = io_mask r w c"
  by (rule bit_word_eqI) (auto simp: bit_simps bit_io_mask bit_IO_EVENTS)

lemma io_mask_eq_iff [simp]: "io_mask r w c = io_mask r' w' c' \<longleftrightarrow> r = r' \<and> w = w' \<and> c = c'"
proof
  assume eq: "io_mask r w c = io_mask r' w' c'"
  show "r = r' \<and> w = w' \<and> c = c'"
    using arg_cong [OF eq, of "\<lambda>x. bit x 1"] arg_cong [OF eq, of "\<lambda>x. bit x 2"] arg_cong [OF eq, of "\<lambda>x. bit x 7"]
    by (simp add: bit_io_mask)
qed simp

lemma io_mask_zero: "io_mask False False False = 0"
  by (simp add: io_mask_def)

lemma io_mask_eq_0 [simp]: "io_mask r w c = 0 \<longleftrightarrow> \<not> r \<and> \<not> w \<and> \<not> c"
  using io_mask_eq_iff [of r w c False False False] unfolding io_mask_zero by auto

lemma IO_part: "x AND IO_EVENTS = io_mask (bit x 1) (bit x 2) (bit x 7)"
  by (rule bit_word_eqI) (auto simp: bit_simps bit_io_mask bit_IO_EVENTS)

locale eventop =
  fixes badd :: "'k \<Rightarrow> int \<Rightarrow> u16 \<Rightarrow> u16 \<Rightarrow> (int \<times> 'k) outcome"
    and bdel :: "'k \<Rightarrow> int \<Rightarrow> u16 \<Rightarrow> u16 \<Rightarrow> (int \<times> 'k) outcome"
    and bwf :: "'k \<Rightarrow> bool"
    and watch :: "'k \<Rightarrow> int \<Rightarrow> u16"
    and pollable :: "int \<Rightarrow> bool"
  assumes badd_ok: "bwf k \<Longrightarrow> watch k fd = old \<Longrightarrow> events AND IO_EVENTS \<noteq> 0 \<Longrightarrow> \<not> has events EV_SIGNAL \<Longrightarrow> pollable fd \<Longrightarrow>
      \<exists>k'. badd k fd old events = Done (0, k') \<and> bwf k' \<and> watch k' = (watch k)(fd := (old OR events) AND IO_EVENTS)"
    and badd_refused: "bwf k \<Longrightarrow> watch k fd = old \<Longrightarrow> events AND IO_EVENTS \<noteq> 0 \<Longrightarrow> \<not> pollable fd \<Longrightarrow>
      badd k fd old events = Done (-1, k)"
    and bdel_ok: "bwf k \<Longrightarrow> watch k fd = old \<Longrightarrow> events AND IO_EVENTS \<noteq> 0 \<Longrightarrow> \<not> has events EV_SIGNAL \<Longrightarrow> pollable fd \<Longrightarrow>
      \<exists>k'. bdel k fd old events = Done (0, k') \<and> bwf k' \<and> watch k' = (watch k)(fd := (old AND NOT events) AND IO_EVENTS)"

text \<open>
  The same for signals: a signal is caught from the first event for it until the last one is gone.
  \<^verbatim>\<open>NSIG\<close> is the constant of the system headers, 65 on Linux.
\<close>

definition NSIG :: int where "NSIG = 65"

locale sigop =
  fixes sadd :: "'k \<Rightarrow> int \<Rightarrow> u16 \<Rightarrow> u16 \<Rightarrow> (int \<times> 'k) outcome"
    and sdel :: "'k \<Rightarrow> int \<Rightarrow> u16 \<Rightarrow> u16 \<Rightarrow> (int \<times> 'k) outcome"
    and swf :: "'k \<Rightarrow> bool"
    and caught :: "'k \<Rightarrow> int \<Rightarrow> bool"
  assumes sadd_ok: "swf k \<Longrightarrow> 0 \<le> sig \<Longrightarrow> sig < NSIG \<Longrightarrow> \<not> caught k sig \<Longrightarrow>
      \<exists>r k'. sadd k sig 0 EV_SIGNAL = Done (r, k') \<and> swf k' \<and>
        (r = 0 \<and> caught k' = (caught k)(sig := True) \<or> r = -1 \<and> caught k' = caught k)"
    and sdel_ok: "swf k \<Longrightarrow> 0 \<le> sig \<Longrightarrow> sig < NSIG \<Longrightarrow> caught k sig \<Longrightarrow>
      \<exists>r k'. sdel k sig 0 EV_SIGNAL = Done (r, k') \<and> swf k' \<and> (r = 0 \<or> r = -1) \<and> caught k' = (caught k)(sig := False)"

end
