(* ===== verification/Event_Struct.thy ===== *)
theory Event_Struct
  imports Timeval Backend
begin

text \<open>
  The event structure of \<^verbatim>\<open>include/event2/event_struct.h\<close> and its list flags. An event and the
  \<^verbatim>\<open>event_callback\<close> it starts with have the same address, so one record describes both; a bare
  callback (a deferred one) only uses the \<open>evcb\<close> fields. The callback function and its argument are
  determined by the address. \<open>ev_io_timeout\<close> and \<open>ev_ncalls\<close>, \<open>ev_pncalls\<close> are members of a union in the source: the
  first is read for persistent events only, the others for signal events only; \<open>ev_pncalls\<close> is set when
  the pointer is not null, and then points at the counter of the running signal closure. \<open>ev_ncalls\<close> is the
  value of the \<^verbatim>\<open>short\<close> modulo $2^{16}$.
\<close>

section \<open>List flags\<close>

definition EVLIST_TIMEOUT :: u16 where "EVLIST_TIMEOUT = 0x01"
definition EVLIST_INSERTED :: u16 where "EVLIST_INSERTED = 0x02"
definition EVLIST_SIGNAL :: u16 where "EVLIST_SIGNAL = 0x04"
definition EVLIST_ACTIVE :: u16 where "EVLIST_ACTIVE = 0x08"
definition EVLIST_INTERNAL :: u16 where "EVLIST_INTERNAL = 0x10"
definition EVLIST_ACTIVE_LATER :: u16 where "EVLIST_ACTIVE_LATER = 0x20"
definition EVLIST_FINALIZING :: u16 where "EVLIST_FINALIZING = 0x40"
definition EVLIST_INIT :: u16 where "EVLIST_INIT = 0x80"
definition EVLIST_ALL :: u16 where "EVLIST_ALL = 0xff"

lemma bit_EVLIST [simp]:
  "bit EVLIST_TIMEOUT i \<longleftrightarrow> i = 0" "bit EVLIST_INSERTED i \<longleftrightarrow> i = 1" "bit EVLIST_SIGNAL i \<longleftrightarrow> i = 2"
  "bit EVLIST_ACTIVE i \<longleftrightarrow> i = 3" "bit EVLIST_INTERNAL i \<longleftrightarrow> i = 4" "bit EVLIST_ACTIVE_LATER i \<longleftrightarrow> i = 5"
  "bit EVLIST_FINALIZING i \<longleftrightarrow> i = 6" "bit EVLIST_INIT i \<longleftrightarrow> i = 7"
  unfolding EVLIST_TIMEOUT_def EVLIST_INSERTED_def EVLIST_SIGNAL_def EVLIST_ACTIVE_def EVLIST_INTERNAL_def
    EVLIST_ACTIVE_LATER_def EVLIST_FINALIZING_def EVLIST_INIT_def
  by (rule bit_numeral_exp; simp)+

lemma has_EVLIST [simp]:
  "has f EVLIST_TIMEOUT \<longleftrightarrow> bit f 0" "has f EVLIST_INSERTED \<longleftrightarrow> bit f 1" "has f EVLIST_SIGNAL \<longleftrightarrow> bit f 2"
  "has f EVLIST_ACTIVE \<longleftrightarrow> bit f 3" "has f EVLIST_INTERNAL \<longleftrightarrow> bit f 4" "has f EVLIST_ACTIVE_LATER \<longleftrightarrow> bit f 5"
  "has f EVLIST_FINALIZING \<longleftrightarrow> bit f 6" "has f EVLIST_INIT \<longleftrightarrow> bit f 7"
  unfolding has_def by (rule and_single_bit; simp)+

section \<open>Events\<close>

datatype closure = EV_CLOSURE_EVENT | EV_CLOSURE_EVENT_SIGNAL | EV_CLOSURE_EVENT_PERSIST | EV_CLOSURE_CB_SELF
  | EV_CLOSURE_CB_FINALIZE | EV_CLOSURE_EVENT_FINALIZE | EV_CLOSURE_EVENT_FINALIZE_FREE

record event =
  evcb_flags :: u16
  evcb_pri :: nat
  evcb_closure :: closure
  ev_fd :: int
  ev_events :: u16
  ev_res :: u16
  ev_timeout :: timeval
  ev_io_timeout :: timeval
  ev_ncalls :: nat
  ev_pncalls :: bool

end
