(* ===== verification/Evmap.thy ===== *)
theory Evmap
  imports Event_Struct
begin

text \<open>
  The maps from descriptors and signals to events, \<^verbatim>\<open>src/evmap.c\<close>, in the variant with arrays
  (without \<^verbatim>\<open>EVMAP_USE_HT\<close>). A map is the list of its entries, \<open>None\<close> for a null pointer; a
  \<^verbatim>\<open>LIST\<close> of events is the list of their addresses, first element first. The backend is called
  through the record \<open>eventop_ops\<close>, as the source does through \<^verbatim>\<open>struct eventop\<close>; \<open>ok\<close> answers whether
  the allocator serves a request.
\<close>

section \<open>State\<close>

record evmap_io =
  io_events :: "nat list"
  nread :: nat
  nwrite :: nat
  nclose :: nat

record 'k eventop_ops =
  op_add :: "'k \<Rightarrow> int \<Rightarrow> u16 \<Rightarrow> u16 \<Rightarrow> (int \<times> 'k) outcome"
  op_del :: "'k \<Rightarrow> int \<Rightarrow> u16 \<Rightarrow> u16 \<Rightarrow> (int \<times> 'k) outcome"
  fdinfo_len :: nat

record 'k evmap_base =
  evs :: "nat \<Rightarrow> event"
  backend :: 'k
  io :: "evmap_io option list"
  sigmap :: "nat list option list"

section \<open>Space\<close>

function grow_entries :: "nat \<Rightarrow> nat \<Rightarrow> nat" where
  "grow_entries nentries slot = (if 0 < nentries \<and> nentries \<le> slot then grow_entries (nentries * 2) slot else nentries)"
  by pat_completeness auto
termination
  by (relation "measure (\<lambda>(n, slot). Suc slot - n)") auto

declare grow_entries.simps [simp del]

definition evmap_make_space :: "(nat \<Rightarrow> bool) \<Rightarrow> 'a option list \<Rightarrow> nat \<Rightarrow> nat \<Rightarrow> int \<times> 'a option list" where
  "evmap_make_space ok m slot msize =
     (if length m \<le> slot then
        (if int slot > INT_MAX div 2 then (-1, m)
         else
           (let n = grow_entries (if length m \<noteq> 0 then length m else 32) slot in
            if int n > INT_MAX div int msize then (-1, m)
            else if ok (n * msize) then (0, m @ replicate (n - length m) None)
            else (-1, m)))
      else (0, m))"

definition GET_SLOT_AND_CTOR :: "(nat \<Rightarrow> bool) \<Rightarrow> nat \<Rightarrow> 'a \<Rightarrow> 'a option list \<Rightarrow> nat \<Rightarrow> 'a option list option" where
  "GET_SLOT_AND_CTOR ok bytes ctor m slot =
     (if m ! slot = None then (if ok bytes then Some (m[slot := Some ctor]) else None) else Some m)"

section \<open>Descriptors\<close>

definition evmap_io_init :: evmap_io where
  "evmap_io_init = \<lparr>io_events = [], nread = 0, nwrite = 0, nclose = 0\<rparr>"

definition old_io_events :: "evmap_io \<Rightarrow> u16" where
  "old_io_events ctx = io_mask (nread ctx \<noteq> 0) (nwrite ctx \<noteq> 0) (nclose ctx \<noteq> 0)"

definition evmap_io_count_up :: "evmap_io \<Rightarrow> u16 \<Rightarrow> evmap_io" where
  "evmap_io_count_up ctx ev =
     ctx\<lparr>nread := nread ctx + (if has ev EV_READ then 1 else 0),
         nwrite := nwrite ctx + (if has ev EV_WRITE then 1 else 0),
         nclose := nclose ctx + (if has ev EV_CLOSED then 1 else 0)\<rparr>"

definition evmap_io_count_down :: "evmap_io \<Rightarrow> u16 \<Rightarrow> evmap_io" where
  "evmap_io_count_down ctx ev =
     ctx\<lparr>nread := nread ctx - (if has ev EV_READ then 1 else 0),
         nwrite := nwrite ctx - (if has ev EV_WRITE then 1 else 0),
         nclose := nclose ctx - (if has ev EV_CLOSED then 1 else 0)\<rparr>"

text \<open>\<^verbatim>\<open>evmap_io_add_\<close> from the point where the entry of the descriptor exists.\<close>

definition evmap_io_register ::
  "bool \<Rightarrow> 'k eventop_ops \<Rightarrow> ('k, 'z) evmap_base_scheme \<Rightarrow> nat \<Rightarrow> nat \<Rightarrow> evmap_io \<Rightarrow>
     (int \<times> ('k, 'z) evmap_base_scheme) outcome" where
  "evmap_io_register debug evsel b slot ev ctx =
     (let e = evs b ev;
          up = evmap_io_count_up ctx (ev_events e);
          res = io_mask (has (ev_events e) EV_READ \<and> nread up = 1)
                        (has (ev_events e) EV_WRITE \<and> nwrite up = 1)
                        (has (ev_events e) EV_CLOSED \<and> nclose up = 1);
          b3 = b\<lparr>io := (io b)[slot := Some (up\<lparr>io_events := ev # io_events ctx\<rparr>)]\<rparr>
      in if nread up > 0xffff \<or> nwrite up > 0xffff \<or> nclose up > 0xffff then Done (-1, b)
         else if debug \<and> io_events ctx \<noteq> [] \<and>
              ev_events (evs b (hd (io_events ctx))) AND EV_ET \<noteq> ev_events e AND EV_ET then Done (-1, b)
         else if res \<noteq> 0 then
           bind_outcome (op_add evsel (backend b) (ev_fd e) (old_io_events ctx) ((ev_events e AND EV_ET) OR res))
             (\<lambda>(q, k). if q = -1 then Done (-1, b\<lparr>backend := k\<rparr>) else Done (1, b3\<lparr>backend := k\<rparr>))
         else Done (0, b3))"

definition evmap_io_add ::
  "bool \<Rightarrow> (nat \<Rightarrow> bool) \<Rightarrow> 'k eventop_ops \<Rightarrow> ('k, 'z) evmap_base_scheme \<Rightarrow> int \<Rightarrow> nat \<Rightarrow>
     (int \<times> ('k, 'z) evmap_base_scheme) outcome" where
  "evmap_io_add debug ok evsel b fd ev =
     (if fd \<noteq> ev_fd (evs b ev) then Aborted
      else if fd < 0 then Done (0, b)
      else
        (let slot = nat fd;
             (r, m1) = (if slot \<ge> length (io b) then evmap_make_space ok (io b) slot 8 else (0, io b))
         in if r = -1 then Done (-1, b)
            else case GET_SLOT_AND_CTOR ok (16 + fdinfo_len evsel) evmap_io_init m1 slot of
              None \<Rightarrow> Done (-1, b\<lparr>io := m1\<rparr>)
            | Some m2 \<Rightarrow> evmap_io_register debug evsel (b\<lparr>io := m2\<rparr>) slot ev (the (m2 ! slot))))"

definition evmap_io_del ::
  "'k eventop_ops \<Rightarrow> ('k, 'z) evmap_base_scheme \<Rightarrow> int \<Rightarrow> nat \<Rightarrow> (int \<times> ('k, 'z) evmap_base_scheme) outcome" where
  "evmap_io_del evsel b fd ev =
     (if fd < 0 then Done (0, b)
      else if fd \<noteq> ev_fd (evs b ev) then Aborted
      else if nat fd \<ge> length (io b) then Done (-1, b)
      else case io b ! nat fd of None \<Rightarrow> Aborted
      | Some ctx \<Rightarrow>
        (let e = evs b ev;
             down = evmap_io_count_down ctx (ev_events e);
             res = io_mask (has (ev_events e) EV_READ \<and> nread down = 0)
                           (has (ev_events e) EV_WRITE \<and> nwrite down = 0)
                           (has (ev_events e) EV_CLOSED \<and> nclose down = 0);
             b1 = b\<lparr>io := (io b)[nat fd := Some (down\<lparr>io_events := remove1 ev (io_events ctx)\<rparr>)]\<rparr>
         in if has (ev_events e) EV_READ \<and> nread ctx = 0 \<or> has (ev_events e) EV_WRITE \<and> nwrite ctx = 0 \<or>
               has (ev_events e) EV_CLOSED \<and> nclose ctx = 0 \<or> ev \<notin> set (io_events ctx) then Aborted
            else if res \<noteq> 0 then
              bind_outcome (op_del evsel (backend b) (ev_fd e) (old_io_events ctx) ((ev_events e AND EV_ET) OR res))
                (\<lambda>(q, k). Done (if q = -1 then -1 else 1, b1\<lparr>backend := k\<rparr>))
            else Done (0, b1)))"

text \<open>The calls of \<^verbatim>\<open>event_active_nolock_\<close> that \<^verbatim>\<open>evmap_io_active_\<close> makes, in order.\<close>

definition evmap_io_active :: "('k, 'z) evmap_base_scheme \<Rightarrow> int \<Rightarrow> u16 \<Rightarrow> (nat \<times> u16) list" where
  "evmap_io_active b fd events =
     (if fd < 0 \<or> fd \<ge> int (length (io b)) then []
      else case io b ! nat fd of None \<Rightarrow> []
      | Some ctx \<Rightarrow>
          map (\<lambda>ev. (ev, ev_events (evs b ev) AND events))
            (filter (\<lambda>ev. ev_events (evs b ev) AND events \<noteq> 0) (io_events ctx)))"

section \<open>Signals\<close>

definition evmap_signal_add ::
  "(nat \<Rightarrow> bool) \<Rightarrow> 'k eventop_ops \<Rightarrow> ('k, 'z) evmap_base_scheme \<Rightarrow> int \<Rightarrow> nat \<Rightarrow>
     (int \<times> ('k, 'z) evmap_base_scheme) outcome" where
  "evmap_signal_add ok evsigsel b sig ev =
     (if sig < 0 \<or> sig \<ge> NSIG then Done (-1, b)
      else
        (let slot = nat sig;
             (r, m1) = (if slot \<ge> length (sigmap b) then evmap_make_space ok (sigmap b) slot 8 else (0, sigmap b))
         in if r = -1 then Done (-1, b)
            else case GET_SLOT_AND_CTOR ok (8 + fdinfo_len evsigsel) [] m1 slot of
              None \<Rightarrow> Done (-1, b\<lparr>sigmap := m1\<rparr>)
            | Some m2 \<Rightarrow>
              (let b2 = b\<lparr>sigmap := m2\<rparr>; ctx = the (m2 ! slot);
                   b3 = b\<lparr>sigmap := m2[slot := Some (ev # ctx)]\<rparr>
               in if ctx = [] then
                    bind_outcome (op_add evsigsel (backend b2) (ev_fd (evs b ev)) 0 EV_SIGNAL)
                      (\<lambda>(q, k). if q = -1 then Done (-1, b2\<lparr>backend := k\<rparr>) else Done (1, b3\<lparr>backend := k\<rparr>))
                  else Done (1, b3))))"

definition evmap_signal_del ::
  "'k eventop_ops \<Rightarrow> ('k, 'z) evmap_base_scheme \<Rightarrow> int \<Rightarrow> nat \<Rightarrow> (int \<times> ('k, 'z) evmap_base_scheme) outcome" where
  "evmap_signal_del evsigsel b sig ev =
     (if sig < 0 \<or> sig \<ge> int (length (sigmap b)) then Done (-1, b)
      else case sigmap b ! nat sig of None \<Rightarrow> Aborted
      | Some ctx \<Rightarrow>
        (if ev \<notin> set ctx then Aborted
         else
           (let ctx1 = remove1 ev ctx; b1 = b\<lparr>sigmap := (sigmap b)[nat sig := Some ctx1]\<rparr> in
            if ctx1 = [] then
              bind_outcome (op_del evsigsel (backend b) (ev_fd (evs b ev)) 0 EV_SIGNAL)
                (\<lambda>(q, k). Done (if q = -1 then -1 else 1, b1\<lparr>backend := k\<rparr>))
            else Done (1, b1))))"

definition evmap_signal_active :: "('k, 'z) evmap_base_scheme \<Rightarrow> int \<Rightarrow> nat list" where
  "evmap_signal_active b sig =
     (if sig < 0 \<or> sig \<ge> int (length (sigmap b)) then []
      else case sigmap b ! nat sig of None \<Rightarrow> [] | Some ctx \<Rightarrow> ctx)"

section \<open>Reinitialization\<close>

definition evmap_io_reinit_iter_fn ::
  "'k eventop_ops \<Rightarrow> (nat \<Rightarrow> event) \<Rightarrow> nat \<Rightarrow> evmap_io \<Rightarrow> int \<times> 'k \<Rightarrow> (int \<times> 'k) outcome" where
  "evmap_io_reinit_iter_fn evsel es fd ctx rk =
     (let events = old_io_events ctx;
          et = (if events \<noteq> 0 \<and> io_events ctx \<noteq> [] \<and> has (ev_events (es (hd (io_events ctx)))) EV_ET then EV_ET else 0)
      in bind_outcome (op_add evsel (snd rk) (int fd) 0 (events OR et))
           (\<lambda>(q, k). Done (if q = -1 then -1 else fst rk, k)))"

definition evmap_signal_reinit_iter_fn ::
  "'k eventop_ops \<Rightarrow> nat \<Rightarrow> nat list \<Rightarrow> int \<times> 'k \<Rightarrow> (int \<times> 'k) outcome" where
  "evmap_signal_reinit_iter_fn evsigsel sig ctx rk =
     (if ctx \<noteq> [] then
        bind_outcome (op_add evsigsel (snd rk) (int sig) 0 EV_SIGNAL) (\<lambda>(q, k). Done (if q = -1 then -1 else fst rk, k))
      else Done rk)"

text \<open>The iteration over the entries of a map, from index \<open>i\<close> on.\<close>

fun map_foreach :: "(nat \<Rightarrow> 'c \<Rightarrow> 's \<Rightarrow> 's outcome) \<Rightarrow> nat \<Rightarrow> 'c option list \<Rightarrow> 's \<Rightarrow> 's outcome" where
  "map_foreach fn i [] s = Done s"
| "map_foreach fn i (None # m) s = map_foreach fn (Suc i) m s"
| "map_foreach fn i (Some c # m) s = bind_outcome (fn i c s) (map_foreach fn (Suc i) m)"

definition evmap_reinit ::
  "'k eventop_ops \<Rightarrow> 'k eventop_ops \<Rightarrow> ('k, 'z) evmap_base_scheme \<Rightarrow> (int \<times> ('k, 'z) evmap_base_scheme) outcome" where
  "evmap_reinit evsel evsigsel b =
     bind_outcome (map_foreach (evmap_io_reinit_iter_fn evsel (evs b)) 0 (io b) (0, backend b)) (\<lambda>(r, k).
       if r < 0 then Done (-1, b\<lparr>backend := k\<rparr>)
       else bind_outcome (map_foreach (evmap_signal_reinit_iter_fn evsigsel) 0 (sigmap b) (r, k)) (\<lambda>(r1, k1).
         Done (if r1 < 0 then -1 else 0, b\<lparr>backend := k1\<rparr>)))"

section \<open>Integrity\<close>

definition evmap_io_check_integrity_fn :: "(nat \<Rightarrow> event) \<Rightarrow> nat \<Rightarrow> evmap_io \<Rightarrow> bool" where
  "evmap_io_check_integrity_fn es fd ctx \<longleftrightarrow>
     distinct (io_events ctx) \<and>
     (\<forall>ev \<in> set (io_events ctx). has (evcb_flags (es ev)) EVLIST_INSERTED \<and> ev_fd (es ev) = int fd \<and>
        \<not> has (ev_events (es ev)) EV_SIGNAL \<and> ev_events (es ev) AND IO_EVENTS \<noteq> 0) \<and>
     length (filter (\<lambda>ev. has (ev_events (es ev)) EV_READ) (io_events ctx)) = nread ctx \<and>
     length (filter (\<lambda>ev. has (ev_events (es ev)) EV_WRITE) (io_events ctx)) = nwrite ctx \<and>
     length (filter (\<lambda>ev. has (ev_events (es ev)) EV_CLOSED) (io_events ctx)) = nclose ctx"

definition evmap_signal_check_integrity_fn :: "(nat \<Rightarrow> event) \<Rightarrow> nat \<Rightarrow> nat list \<Rightarrow> bool" where
  "evmap_signal_check_integrity_fn es sig ctx \<longleftrightarrow>
     distinct ctx \<and>
     (\<forall>ev \<in> set ctx. has (evcb_flags (es ev)) EVLIST_INSERTED \<and> ev_fd (es ev) = int sig \<and>
        has (ev_events (es ev)) EV_SIGNAL \<and> ev_events (es ev) AND IO_EVENTS = 0)"

definition evmap_check_integrity :: "('k, 'z) evmap_base_scheme \<Rightarrow> bool" where
  "evmap_check_integrity b \<longleftrightarrow>
     (\<forall>i < length (io b). case io b ! i of None \<Rightarrow> True | Some ctx \<Rightarrow> evmap_io_check_integrity_fn (evs b) i ctx) \<and>
     (\<forall>i < length (sigmap b). case sigmap b ! i of None \<Rightarrow> True
        | Some ctx \<Rightarrow> evmap_signal_check_integrity_fn (evs b) i ctx)"

section \<open>What the maps mean\<close>

text \<open>The events registered for a descriptor or a signal, and the union of what they wait for.\<close>

definition slot_list :: "('c \<Rightarrow> nat list) \<Rightarrow> 'c option list \<Rightarrow> int \<Rightarrow> nat list" where
  "slot_list f m fd =
     (if 0 \<le> fd \<and> fd < int (length m) then (case m ! nat fd of None \<Rightarrow> [] | Some c \<Rightarrow> f c) else [])"

definition io_list :: "('k, 'z) evmap_base_scheme \<Rightarrow> int \<Rightarrow> nat list" where
  "io_list b = slot_list io_events (io b)"

definition sig_list :: "('k, 'z) evmap_base_scheme \<Rightarrow> int \<Rightarrow> nat list" where
  "sig_list b = slot_list (\<lambda>x. x) (sigmap b)"

definition union_events :: "(nat \<Rightarrow> event) \<Rightarrow> nat list \<Rightarrow> u16" where
  "union_events es xs =
     io_mask (\<exists>ev \<in> set xs. has (ev_events (es ev)) EV_READ) (\<exists>ev \<in> set xs. has (ev_events (es ev)) EV_WRITE)
       (\<exists>ev \<in> set xs. has (ev_events (es ev)) EV_CLOSED)"

text \<open>The integrity of an entry, without the flag that is set when the entry is complete.\<close>

definition io_ctx_ok :: "(nat \<Rightarrow> event) \<Rightarrow> nat \<Rightarrow> evmap_io \<Rightarrow> bool" where
  "io_ctx_ok es fd ctx \<longleftrightarrow>
     distinct (io_events ctx) \<and>
     (\<forall>ev \<in> set (io_events ctx). ev_fd (es ev) = int fd \<and> \<not> has (ev_events (es ev)) EV_SIGNAL \<and>
        ev_events (es ev) AND IO_EVENTS \<noteq> 0) \<and>
     length (filter (\<lambda>ev. has (ev_events (es ev)) EV_READ) (io_events ctx)) = nread ctx \<and>
     length (filter (\<lambda>ev. has (ev_events (es ev)) EV_WRITE) (io_events ctx)) = nwrite ctx \<and>
     length (filter (\<lambda>ev. has (ev_events (es ev)) EV_CLOSED) (io_events ctx)) = nclose ctx \<and>
     nread ctx \<le> 0xffff \<and> nwrite ctx \<le> 0xffff \<and> nclose ctx \<le> 0xffff"

definition io_map_ok :: "(nat \<Rightarrow> event) \<Rightarrow> evmap_io option list \<Rightarrow> bool" where
  "io_map_ok es m \<longleftrightarrow> (\<forall>i < length m. case m ! i of None \<Rightarrow> True | Some ctx \<Rightarrow> io_ctx_ok es i ctx)"

lemma old_io_events_union: "io_ctx_ok es fd ctx \<Longrightarrow> old_io_events ctx = union_events es (io_events ctx)"
  unfolding io_ctx_ok_def old_io_events_def union_events_def io_mask_eq_iff
  by (metis (no_types, lifting) filter_False length_0_conv length_greater_0_conv filter_empty_conv)

lemma io_ctx_init: "io_ctx_ok es fd evmap_io_init"
  by (simp add: io_ctx_ok_def evmap_io_init_def)

lemma io_map_okD: "io_map_ok es m \<Longrightarrow> i < length m \<Longrightarrow> m ! i = Some ctx \<Longrightarrow> io_ctx_ok es i ctx"
  by (fastforce simp: io_map_ok_def)

lemma io_map_ok_update: "io_map_ok es m \<Longrightarrow> io_ctx_ok es i ctx \<Longrightarrow> io_map_ok es (m[i := Some ctx])"
  by (cases "i < length m") (auto simp: io_map_ok_def nth_list_update list_update_beyond)

lemma slot_list_update:
  "i < length m \<Longrightarrow> slot_list f (m[i := Some c]) = (slot_list f m)(int i := f c)"
  by (auto simp: slot_list_def fun_eq_iff nth_list_update split: option.splits)

lemma slot_list_Some: "i < length m \<Longrightarrow> m ! i = Some c \<Longrightarrow> slot_list f m (int i) = f c"
  by (simp add: slot_list_def)

lemma slot_listE:
  assumes "x \<in> set (slot_list f m fd)"
  obtains c where "0 \<le> fd" "nat fd < length m" "m ! nat fd = Some c" "f c = slot_list f m fd"
proof -
  have l: "0 \<le> fd \<and> fd < int (length m)" using assms unfolding slot_list_def by (metis empty_iff empty_set)
  then have b: "0 \<le> fd" "nat fd < length m" by (simp_all add: nat_less_iff)
  from l assms have x: "x \<in> set (case m ! nat fd of None \<Rightarrow> [] | Some c \<Rightarrow> f c)" by (simp add: slot_list_def)
  then obtain c where c: "m ! nat fd = Some c" by (cases "m ! nat fd") auto
  show thesis by (rule that [OF b c]) (use l c in \<open>simp add: slot_list_def\<close>)
qed

section \<open>Space\<close>

lemma grow_entries_gt: "0 < n \<Longrightarrow> n \<le> grow_entries n slot \<and> slot < grow_entries n slot \<and> grow_entries n slot \<le> max n (2 * slot)"
proof (induction n slot rule: grow_entries.induct)
  case (1 n slot)
  show ?case
  proof (cases "n \<le> slot")
    case True
    with 1 show ?thesis by (subst (1 2 3) grow_entries.simps) auto
  next
    case False
    then have "grow_entries n slot = n" by (simp add: grow_entries.simps)
    with False show ?thesis by simp
  qed
qed

lemma evmap_make_space_ok:
  assumes "evmap_make_space ok m slot msize = (r, m')"
  shows "r = 0 \<and> slot < length m' \<and> (\<exists>k. m' = m @ replicate k None) \<or> r = -1 \<and> m' = m"
proof -
  let ?n = "grow_entries (if length m \<noteq> 0 then length m else 32) slot"
  have "(if length m \<noteq> 0 then length m else 32) \<le> ?n" "slot < ?n" by (rule grow_entries_gt [THEN conjunct1], simp)
    (rule grow_entries_gt [THEN conjunct2, THEN conjunct1], simp)
  then have "length m \<le> ?n" "slot < ?n" by (auto split: if_splits)
  then show ?thesis using assms by (auto simp: evmap_make_space_def Let_def split: if_splits)
qed

lemma evmap_make_space_served:
  assumes "evmap_make_space ok m slot 8 = (r, m')" "slot < 2 ^ 27" "\<forall>n. ok n"
  shows "r = 0"
proof (cases "length m \<le> slot")
  case True
  let ?s = "if length m \<noteq> 0 then length m else 32"
  have "grow_entries ?s slot \<le> max ?s (2 * slot)" by (rule grow_entries_gt [THEN conjunct2, THEN conjunct2]) simp
  then have "grow_entries ?s slot \<le> 2 ^ 28 - 2" using True assms(2) by (auto split: if_splits)
  then show ?thesis using assms by (auto simp: evmap_make_space_def Let_def c_limits split: if_splits)
qed (use assms(1) in \<open>simp add: evmap_make_space_def\<close>)

lemma slot_list_append: "slot_list f (m @ replicate k None) = slot_list f m"
  by (auto simp: slot_list_def fun_eq_iff nth_append nat_less_iff)

lemma io_map_ok_append: "io_map_ok es m \<Longrightarrow> io_map_ok es (m @ replicate k None)"
  by (auto simp: io_map_ok_def nth_append)

lemma get_slot_ok:
  assumes "GET_SLOT_AND_CTOR ok bytes ctor m slot = Some m2" "slot < length m" "f ctor = []"
  shows "length m2 = length m \<and> slot_list f m2 = slot_list f m \<and> (\<exists>c. m2 ! slot = Some c) \<and>
    (m2 = m \<or> m2 = m[slot := Some ctor])"
proof (cases "m ! slot")
  case None
  then have "m2 = m[slot := Some ctor]" using assms(1) by (auto simp: GET_SLOT_AND_CTOR_def split: if_splits)
  moreover have "slot_list f m (int slot) = []" using None assms(2) by (simp add: slot_list_def)
  ultimately show ?thesis using assms(2,3) slot_list_update [of slot m f ctor] by (auto simp: fun_upd_idem)
next
  case (Some c)
  then show ?thesis using assms by (auto simp: GET_SLOT_AND_CTOR_def)
qed

section \<open>The backend watches what the events want\<close>

text \<open>Only the map of descriptors and the backend differ.\<close>

definition io_frame :: "('k, 'z) evmap_base_scheme \<Rightarrow> ('k, 'z) evmap_base_scheme \<Rightarrow> bool" where
  "io_frame b b' \<longleftrightarrow> (\<exists>m k. b' = b\<lparr>io := m, backend := k\<rparr>)"

lemma io_frame_simps [simp]:
  "io_frame b b" "io_frame b (b\<lparr>io := m\<rparr>)" "io_frame b (b\<lparr>backend := k\<rparr>)" "io_frame b (b\<lparr>io := m, backend := k\<rparr>)"
  unfolding io_frame_def by (rule exI [of _ "io b"], rule exI [of _ "backend b"], simp)
    (rule exI [of _ m], rule exI [of _ "backend b"], simp, rule exI [of _ "io b"], rule exI [of _ k], simp, blast)

lemma io_frameE:
  assumes "io_frame b b'"
  obtains m k where "b' = b\<lparr>io := m, backend := k\<rparr>"
  using assms by (auto simp: io_frame_def)

definition evmap_io_inv ::
  "('k \<Rightarrow> bool) \<Rightarrow> ('k \<Rightarrow> int \<Rightarrow> u16) \<Rightarrow> (int \<Rightarrow> bool) \<Rightarrow> ('k, 'z) evmap_base_scheme \<Rightarrow> bool" where
  "evmap_io_inv bwf watch pollable b \<longleftrightarrow>
     bwf (backend b) \<and> io_map_ok (evs b) (io b) \<and>
     (\<forall>fd. watch (backend b) fd = union_events (evs b) (io_list b fd)) \<and>
     (\<forall>fd. io_list b fd \<noteq> [] \<longrightarrow> pollable fd)"

lemma union_events_Cons:
  "union_events es (ev # xs) = (union_events es xs OR ev_events (es ev)) AND IO_EVENTS"
  unfolding IO_part by (auto simp: union_events_def bit_or_iff bit_io_mask)

lemma io_ctx_up:
  assumes c: "io_ctx_ok es fd ctx" and e: "ev_fd (es ev) = int fd" "\<not> has (ev_events (es ev)) EV_SIGNAL"
    "ev_events (es ev) AND IO_EVENTS \<noteq> 0" "ev \<notin> set (io_events ctx)"
    and lim: "nread (evmap_io_count_up ctx (ev_events (es ev))) \<le> 0xffff"
      "nwrite (evmap_io_count_up ctx (ev_events (es ev))) \<le> 0xffff"
      "nclose (evmap_io_count_up ctx (ev_events (es ev))) \<le> 0xffff"
  shows "io_ctx_ok es fd ((evmap_io_count_up ctx (ev_events (es ev)))\<lparr>io_events := ev # io_events ctx\<rparr>)"
  using assms by (auto simp: io_ctx_ok_def evmap_io_count_up_def)

text \<open>The events that are new for the backend, and what it watches with them.\<close>

lemma io_ctx_new_events:
  assumes c: "io_ctx_ok es fd ctx" and up: "up = evmap_io_count_up ctx (ev_events (es ev))"
    and res: "res = io_mask (has (ev_events (es ev)) EV_READ \<and> nread up = 1)
       (has (ev_events (es ev)) EV_WRITE \<and> nwrite up = 1) (has (ev_events (es ev)) EV_CLOSED \<and> nclose up = 1)"
  shows "(old_io_events ctx OR ((ev_events (es ev) AND EV_ET) OR res)) AND IO_EVENTS = union_events es (ev # io_events ctx)"
    "((ev_events (es ev) AND EV_ET) OR res) AND IO_EVENTS = res"
    "res = 0 \<Longrightarrow> union_events es (ev # io_events ctx) = union_events es (io_events ctx)"
    "\<not> has ((ev_events (es ev) AND EV_ET) OR res) EV_SIGNAL"
proof -
  note o = old_io_events_union [OF c, symmetric]
  let ?e = "ev_events (es ev)"
  have et: "bit (?e AND EV_ET OR res) i = (i = 5 \<and> bit ?e 5 \<or> bit res i)" for i by (auto simp: bit_simps)
  show "\<not> has (?e AND EV_ET OR res) EV_SIGNAL" unfolding has_bit et unfolding res by (simp add: bit_io_mask)
  show 1: "(?e AND EV_ET OR res) AND IO_EVENTS = res"
    unfolding IO_part et unfolding res by (auto simp: bit_io_mask)
  have r: "res = io_mask (bit ?e 1 \<and> nread ctx = 0) (bit ?e 2 \<and> nwrite ctx = 0) (bit ?e 7 \<and> nclose ctx = 0)"
    unfolding res up evmap_io_count_up_def by simp
  show "(old_io_events ctx OR (?e AND EV_ET OR res)) AND IO_EVENTS = union_events es (ev # io_events ctx)"
    unfolding union_events_Cons o IO_part bit_or_iff et [unfolded bit_or_iff]
    unfolding r old_io_events_def by (auto simp: bit_io_mask)
  assume "res = 0"
  then show "union_events es (ev # io_events ctx) = union_events es (io_events ctx)"
    unfolding union_events_Cons o IO_part bit_or_iff unfolding r old_io_events_def by (auto simp: bit_io_mask)
qed

text \<open>The events that no other event waits for, and what the backend watches without them.\<close>

lemma io_ctx_down:
  assumes c: "io_ctx_ok es fd ctx" and mem: "ev \<in> set (io_events ctx)"
    and down: "down = evmap_io_count_down ctx (ev_events (es ev))"
    and res: "res = io_mask (has (ev_events (es ev)) EV_READ \<and> nread down = 0)
       (has (ev_events (es ev)) EV_WRITE \<and> nwrite down = 0) (has (ev_events (es ev)) EV_CLOSED \<and> nclose down = 0)"
  shows "\<not> (has (ev_events (es ev)) EV_READ \<and> nread ctx = 0 \<or> has (ev_events (es ev)) EV_WRITE \<and> nwrite ctx = 0 \<or>
      has (ev_events (es ev)) EV_CLOSED \<and> nclose ctx = 0 \<or> ev \<notin> set (io_events ctx))"
    "io_ctx_ok es fd (down\<lparr>io_events := remove1 ev (io_events ctx)\<rparr>)"
    "(old_io_events ctx AND NOT ((ev_events (es ev) AND EV_ET) OR res)) AND IO_EVENTS =
       union_events es (remove1 ev (io_events ctx))"
    "((ev_events (es ev) AND EV_ET) OR res) AND IO_EVENTS = res"
    "res = 0 \<Longrightarrow> union_events es (remove1 ev (io_events ctx)) = union_events es (io_events ctx)"
    "\<not> has ((ev_events (es ev) AND EV_ET) OR res) EV_SIGNAL"
proof -
  let ?e = "ev_events (es ev)"
  have len: "length (filter P (remove1 ev xs)) = length (filter P xs) - (if P ev then 1 else 0)"
    if "ev \<in> set xs" for P and xs :: "nat list"
    using that by (simp add: filter_remove1 length_remove1)
  note l = len [OF mem]
  have dis: "distinct (io_events ctx)" using c by (simp add: io_ctx_ok_def)
  have cnt: "nread ctx = length (filter (\<lambda>ev. has (ev_events (es ev)) EV_READ) (io_events ctx))"
    "nwrite ctx = length (filter (\<lambda>ev. has (ev_events (es ev)) EV_WRITE) (io_events ctx))"
    "nclose ctx = length (filter (\<lambda>ev. has (ev_events (es ev)) EV_CLOSED) (io_events ctx))"
    using c by (simp_all add: io_ctx_ok_def)
  have lim: "nread ctx \<le> 0xffff" "nwrite ctx \<le> 0xffff" "nclose ctx \<le> 0xffff" using c by (simp_all add: io_ctx_ok_def)
  show 1: "\<not> (has ?e EV_READ \<and> nread ctx = 0 \<or> has ?e EV_WRITE \<and> nwrite ctx = 0 \<or>
      has ?e EV_CLOSED \<and> nclose ctx = 0 \<or> ev \<notin> set (io_events ctx))"
    unfolding cnt using mem by (auto simp: filter_empty_conv)
  have sub: "set (remove1 ev (io_events ctx)) \<subseteq> set (io_events ctx)" by (rule set_remove1_subset)
  have "nread down = length (filter (\<lambda>ev. has (ev_events (es ev)) EV_READ) (remove1 ev (io_events ctx)))"
    "nwrite down = length (filter (\<lambda>ev. has (ev_events (es ev)) EV_WRITE) (remove1 ev (io_events ctx)))"
    "nclose down = length (filter (\<lambda>ev. has (ev_events (es ev)) EV_CLOSED) (remove1 ev (io_events ctx)))"
    unfolding l unfolding down evmap_io_count_down_def by (simp_all add: cnt)
  moreover have "nread down \<le> 0xffff" "nwrite down \<le> 0xffff" "nclose down \<le> 0xffff"
    using lim unfolding down evmap_io_count_down_def by auto
  moreover have "\<forall>ev \<in> set (remove1 ev (io_events ctx)). ev_fd (es ev) = int fd \<and> \<not> has (ev_events (es ev)) EV_SIGNAL \<and>
      ev_events (es ev) AND IO_EVENTS \<noteq> 0"
    using c sub unfolding io_ctx_ok_def by blast
  ultimately show 2: "io_ctx_ok es fd (down\<lparr>io_events := remove1 ev (io_events ctx)\<rparr>)"
    unfolding io_ctx_ok_def using dis by simp
  have u: "union_events es (remove1 ev (io_events ctx)) = io_mask (nread down \<noteq> 0) (nwrite down \<noteq> 0) (nclose down \<noteq> 0)"
    using old_io_events_union [OF 2] by (simp add: old_io_events_def)
  have et: "bit (?e AND EV_ET OR res) i = (i = 5 \<and> bit ?e 5 \<or> bit res i)" for i by (auto simp: bit_simps)
  show "\<not> has (?e AND EV_ET OR res) EV_SIGNAL" unfolding has_bit et unfolding res by (simp add: bit_io_mask)
  show "(?e AND EV_ET OR res) AND IO_EVENTS = res"
    unfolding IO_part et unfolding res by (auto simp: bit_io_mask)
  show "(old_io_events ctx AND NOT (?e AND EV_ET OR res)) AND IO_EVENTS = union_events es (remove1 ev (io_events ctx))"
    unfolding IO_part u io_mask_eq_iff bit_and_iff bit_not_iff et unfolding res old_io_events_def down evmap_io_count_down_def
    using 1 by (auto simp: bit_io_mask)
  assume r0: "res = 0"
  show "union_events es (remove1 ev (io_events ctx)) = union_events es (io_events ctx)"
    unfolding u old_io_events_union [OF c, symmetric] old_io_events_def io_mask_eq_iff
    using r0 1 unfolding res down evmap_io_count_down_def by (auto split: if_splits)
qed

text \<open>
  What can make \<^verbatim>\<open>evmap_io_add_\<close> fail: the kernel refuses the descriptor, the events of the descriptor are more than
  the counters hold, the table would grow beyond \<^verbatim>\<open>INT_MAX\<close> bytes, memory is short, or the debug mode
  finds the edge-triggered flag mixed.
\<close>

definition io_refusal :: "bool \<Rightarrow> (nat \<Rightarrow> bool) \<Rightarrow> (int \<Rightarrow> bool) \<Rightarrow> ('k, 'z) evmap_base_scheme \<Rightarrow> int \<Rightarrow> bool" where
  "io_refusal debug ok pollable b fd \<longleftrightarrow>
     \<not> pollable fd \<or> debug \<or> 0xffff \<le> length (io_list b fd) \<or> 2 ^ 27 \<le> fd \<or> (\<exists>n. \<not> ok n)"

context eventop
begin

lemma io_register:
  assumes inv: "evmap_io_inv bwf watch pollable b" and sl: "slot < length (io b)" "io b ! slot = Some ctx"
    and ops: "op_add evsel = badd" and e: "ev_fd (evs b ev) = int slot" "\<not> has (ev_events (evs b ev)) EV_SIGNAL"
    "ev_events (evs b ev) AND IO_EVENTS \<noteq> 0" "ev \<notin> set (io_events ctx)"
  shows "\<exists>r b'. evmap_io_register debug evsel b slot ev ctx = Done (r, b') \<and> evmap_io_inv bwf watch pollable b' \<and>
    io_frame b b' \<and>
    (if r = -1 then b' = b \<and> (\<not> pollable (int slot) \<or> debug \<or> length (io_events ctx) \<ge> 0xffff)
     else (r = 0 \<or> r = 1) \<and> io_list b' = (io_list b)(int slot := ev # io_list b (int slot)))"
proof -
  let ?e = "ev_events (evs b ev)"
  define up where "up = evmap_io_count_up ctx ?e"
  define res where "res = io_mask (has ?e EV_READ \<and> nread up = 1) (has ?e EV_WRITE \<and> nwrite up = 1)
    (has ?e EV_CLOSED \<and> nclose up = 1)"
  define bad where "bad \<longleftrightarrow> nread up > 0xffff \<or> nwrite up > 0xffff \<or> nclose up > 0xffff"
  define mix where "mix \<longleftrightarrow> debug \<and> io_events ctx \<noteq> [] \<and> ev_events (evs b (hd (io_events ctx))) AND EV_ET \<noteq> ?e AND EV_ET"
  let ?b3 = "b\<lparr>io := (io b)[slot := Some (up\<lparr>io_events := ev # io_events ctx\<rparr>)]\<rparr>"
  have cok: "io_ctx_ok (evs b) slot ctx" using inv sl by (auto simp: evmap_io_inv_def dest: io_map_okD)
  note ne = io_ctx_new_events [OF cok up_def res_def]
  have unf: "evmap_io_register debug evsel b slot ev ctx =
     (if bad \<or> mix then Done (-1, b)
      else if res \<noteq> 0 then bind_outcome (badd (backend b) (int slot) (old_io_events ctx) ((?e AND EV_ET) OR res))
        (\<lambda>(q, k). if q = -1 then Done (-1, b\<lparr>backend := k\<rparr>) else Done (1, ?b3\<lparr>backend := k\<rparr>))
      else Done (0, ?b3))"
    unfolding evmap_io_register_def Let_def up_def [symmetric] res_def [symmetric] bad_def mix_def e(1) ops by simp
  have io3: "io_list (?b3\<lparr>backend := k\<rparr>) = (io_list b)(int slot := ev # io_list b (int slot))"
    "io_list ?b3 = (io_list b)(int slot := ev # io_list b (int slot))" for k
    using sl by (simp_all add: io_list_def slot_list_update slot_list_Some)
  have map3: "io_map_ok (evs b) ((io b)[slot := Some (up\<lparr>io_events := ev # io_events ctx\<rparr>)])" if "\<not> bad"
  proof (rule io_map_ok_update)
    show "io_map_ok (evs b) (io b)" using inv by (simp add: evmap_io_inv_def)
    show "io_ctx_ok (evs b) slot (up\<lparr>io_events := ev # io_events ctx\<rparr>)"
      unfolding up_def by (rule io_ctx_up [OF cok e]) (use that in \<open>auto simp: bad_def up_def\<close>)
  qed
  have lst: "io_list b (int slot) = io_events ctx" using sl by (simp add: io_list_def slot_list_Some)
  have wfk: "bwf (backend b)" and w: "watch (backend b) (int slot) = union_events (evs b) (io_events ctx)"
    using inv lst by (simp_all add: evmap_io_inv_def)
  have wo: "watch (backend b) (int slot) = old_io_events ctx" using w old_io_events_union [OF cok] by simp
  have many: "length (io_events ctx) \<ge> 0xffff" if bad
    using that cok length_filter_le [of "\<lambda>ev. has (ev_events (evs b ev)) EV_READ" "io_events ctx"]
      length_filter_le [of "\<lambda>ev. has (ev_events (evs b ev)) EV_WRITE" "io_events ctx"]
      length_filter_le [of "\<lambda>ev. has (ev_events (evs b ev)) EV_CLOSED" "io_events ctx"]
    by (auto simp: bad_def up_def evmap_io_count_up_def io_ctx_ok_def split: if_splits)
  consider (refuse) "bad \<or> mix" | (same) "\<not> (bad \<or> mix)" "res = 0"
    | (new) "\<not> (bad \<or> mix)" "res \<noteq> 0" "pollable (int slot)" | (no) "\<not> (bad \<or> mix)" "res \<noteq> 0" "\<not> pollable (int slot)"
    by blast
  then show ?thesis
  proof cases
    case refuse
    then show ?thesis using unf inv many by (auto simp: mix_def)
  next
    case same
    have "union_events (evs b) (ev # io_events ctx) \<noteq> 0"
      using e(3) unfolding union_events_Cons IO_part by (auto simp: bit_or_iff)
    then have "io_events ctx \<noteq> []" using ne(3) [OF same(2)] by (auto simp: union_events_def)
    then have "pollable (int slot)" using inv lst by (auto simp: evmap_io_inv_def)
    then have "evmap_io_inv bwf watch pollable ?b3"
      using inv map3 same io3(2) w lst ne(3) [OF same(2)]
      unfolding evmap_io_inv_def by auto
    then show ?thesis using unf same io3(2) by auto
  next
    case new
    from badd_ok [OF wfk wo, of "?e AND EV_ET OR res"] ne(1,2,4) new(2,3) obtain k' where
      k': "badd (backend b) (int slot) (old_io_events ctx) (?e AND EV_ET OR res) = Done (0, k')" "bwf k'"
      "watch k' = (watch (backend b))(int slot := union_events (evs b) (ev # io_events ctx))" by auto
    have "evmap_io_inv bwf watch pollable (?b3\<lparr>backend := k'\<rparr>)"
      using inv map3 new(1,3) io3(1) k'(2,3) lst unfolding evmap_io_inv_def by auto
    then show ?thesis using unf new k'(1) io3(1) by auto
  next
    case no
    have "badd (backend b) (int slot) (old_io_events ctx) (?e AND EV_ET OR res) = Done (-1, backend b)"
      using badd_refused [OF wfk wo _ no(3)] ne(2) no(2) by simp
    then show ?thesis using unf no inv by auto
  qed
qed

lemma io_add_or_refused:
  assumes inv: "evmap_io_inv bwf watch pollable b" and ops: "op_add evsel = badd"
    and e: "ev_fd (evs b ev) = fd" "0 \<le> fd" "\<not> has (ev_events (evs b ev)) EV_SIGNAL"
      "ev_events (evs b ev) AND IO_EVENTS \<noteq> 0" "ev \<notin> set (io_list b fd)"
  shows "\<exists>r b'. evmap_io_add debug ok evsel b fd ev = Done (r, b') \<and> evmap_io_inv bwf watch pollable b' \<and>
    io_frame b b' \<and>
    (if r = -1 then io_list b' = io_list b \<and> backend b' = backend b \<and> io_refusal debug ok pollable b fd
     else (r = 0 \<or> r = 1) \<and> io_list b' = (io_list b)(fd := ev # io_list b fd))"
proof -
  obtain r m1 where sp: "(if nat fd \<ge> length (io b) then evmap_make_space ok (io b) (nat fd) 8 else (0, io b)) = (r, m1)"
    by (cases "if nat fd \<ge> length (io b) then evmap_make_space ok (io b) (nat fd) 8 else (0, io b)") auto
  have m1: "r = 0 \<and> nat fd < length m1 \<and> (\<exists>k. m1 = io b @ replicate k None) \<or> r = -1 \<and> m1 = io b"
  proof (cases "nat fd \<ge> length (io b)")
    case True
    then show ?thesis using sp evmap_make_space_ok [of ok "io b" "nat fd" 8 r m1] by simp
  next
    case False
    then show ?thesis using sp by (auto intro: exI [of _ 0])
  qed
  have unf: "evmap_io_add debug ok evsel b fd ev =
    (if r = -1 then Done (-1, b)
     else case GET_SLOT_AND_CTOR ok (16 + fdinfo_len evsel) evmap_io_init m1 (nat fd) of
        None \<Rightarrow> Done (-1, b\<lparr>io := m1\<rparr>)
      | Some m2 \<Rightarrow> evmap_io_register debug evsel (b\<lparr>io := m2\<rparr>) (nat fd) ev (the (m2 ! nat fd)))"
    unfolding evmap_io_add_def Let_def sp using e by simp
  show ?thesis
  proof (cases "r = -1")
    case True
    then have "nat fd \<ge> length (io b)" "evmap_make_space ok (io b) (nat fd) 8 = (-1, m1)" using sp by (auto split: if_splits)
    then have "io_refusal debug ok pollable b fd" using evmap_make_space_served [of ok "io b" "nat fd" "-1" m1] e(2)
      by (cases "fd < 2 ^ 27") (auto simp: io_refusal_def nat_less_iff)
    with True show ?thesis using unf inv by simp
  next
    case False
    with m1 obtain k where k: "nat fd < length m1" "m1 = io b @ replicate k None" by auto
    have l1: "io_list (b\<lparr>io := m1\<rparr>) = io_list b" by (simp add: io_list_def k(2) slot_list_append)
    have i1: "evmap_io_inv bwf watch pollable (b\<lparr>io := m1\<rparr>)"
      using inv l1 by (simp add: evmap_io_inv_def io_map_ok_append k(2))
    show ?thesis
    proof (cases "GET_SLOT_AND_CTOR ok (16 + fdinfo_len evsel) evmap_io_init m1 (nat fd)")
      case None
      then have "io_refusal debug ok pollable b fd" by (auto simp: io_refusal_def GET_SLOT_AND_CTOR_def split: if_splits)
      with None show ?thesis using unf False i1 l1 by simp
    next
      case (Some m2)
      have g: "length m2 = length m1" "slot_list io_events m2 = slot_list io_events m1"
        "\<exists>c. m2 ! nat fd = Some c" "m2 = m1 \<or> m2 = m1[nat fd := Some evmap_io_init]"
        using get_slot_ok [OF Some k(1), of io_events] by (auto simp: evmap_io_init_def)
      from g(3) obtain c where c: "m2 ! nat fd = Some c" by auto
      let ?b2 = "b\<lparr>io := m2\<rparr>"
      have l2: "io_list ?b2 = io_list b" using g(2) l1 by (simp add: io_list_def)
      have "io_map_ok (evs b) m2" using i1 g(4) io_map_ok_update [OF _ io_ctx_init] by (auto simp: evmap_io_inv_def)
      then have i2: "evmap_io_inv bwf watch pollable ?b2" using inv l2 by (simp add: evmap_io_inv_def)
      have cl: "io_events c = io_list b fd"
        using l2 c k(1) g(1) e(2) slot_list_Some [of "nat fd" m2 c io_events] by (simp add: io_list_def)
      obtain r' b' where r': "evmap_io_register debug evsel ?b2 (nat fd) ev c = Done (r', b')"
        "evmap_io_inv bwf watch pollable b'" "io_frame ?b2 b'"
        "if r' = -1 then b' = ?b2 \<and> (\<not> pollable (int (nat fd)) \<or> debug \<or> length (io_events c) \<ge> 0xffff)
         else (r' = 0 \<or> r' = 1) \<and> io_list b' = (io_list ?b2)(int (nat fd) := ev # io_list ?b2 (int (nat fd)))"
        using io_register [of ?b2 "nat fd" c evsel ev debug] i2 k(1) g(1) c ops e cl by fastforce
      have "io_frame b b'" using r'(3) by (auto elim: io_frameE)
      moreover have "if r' = -1 then io_list b' = io_list b \<and> backend b' = backend b \<and> io_refusal debug ok pollable b fd
          else (r' = 0 \<or> r' = 1) \<and> io_list b' = (io_list b)(fd := ev # io_list b fd)"
        using r'(4) e(2) l2 cl by (auto simp: io_refusal_def split: if_splits)
      ultimately show ?thesis using unf False Some c r'(1,2) by auto
    qed
  qed
qed

lemma io_add:
  assumes "evmap_io_inv bwf watch pollable b" "op_add evsel = badd"
    "ev_fd (evs b ev) = fd" "0 \<le> fd" "\<not> has (ev_events (evs b ev)) EV_SIGNAL"
    "ev_events (evs b ev) AND IO_EVENTS \<noteq> 0" "ev \<notin> set (io_list b fd)"
  shows "\<exists>r b'. evmap_io_add debug ok evsel b fd ev = Done (r, b') \<and> evmap_io_inv bwf watch pollable b' \<and>
    io_frame b b' \<and>
    (if r = -1 then io_list b' = io_list b \<and> backend b' = backend b
     else (r = 0 \<or> r = 1) \<and> io_list b' = (io_list b)(fd := ev # io_list b fd))"
  using io_add_or_refused [OF assms, of debug ok] by (auto split: if_splits)

lemma io_del:
  assumes inv: "evmap_io_inv bwf watch pollable b" and ops: "op_del evsel = bdel"
    and e: "ev_fd (evs b ev) = fd" "0 \<le> fd" "ev \<in> set (io_list b fd)"
  shows "\<exists>r b'. evmap_io_del evsel b fd ev = Done (r, b') \<and> evmap_io_inv bwf watch pollable b' \<and>
    io_frame b b' \<and> (r = 0 \<or> r = 1) \<and>
    io_list b' = (io_list b)(fd := remove1 ev (io_list b fd))"
proof -
  from e(3) obtain ctx where sl: "nat fd < length (io b)" "io b ! nat fd = Some ctx" "io_events ctx = io_list b fd"
    unfolding io_list_def by (rule slot_listE) auto
  let ?e = "ev_events (evs b ev)"
  have cok: "io_ctx_ok (evs b) (nat fd) ctx" using inv sl by (auto simp: evmap_io_inv_def dest: io_map_okD)
  have "io_list b fd \<noteq> []" using e(3) by auto
  then have pol: "pollable fd" using inv by (simp add: evmap_io_inv_def)
  define down where "down = evmap_io_count_down ctx ?e"
  define res where "res = io_mask (has ?e EV_READ \<and> nread down = 0) (has ?e EV_WRITE \<and> nwrite down = 0)
    (has ?e EV_CLOSED \<and> nclose down = 0)"
  have mem: "ev \<in> set (io_events ctx)" using sl e by simp
  note d = io_ctx_down [OF cok mem down_def res_def]
  have nf: "\<not> fd < 0" "\<not> length (io b) \<le> nat fd" using e(2) sl(1) by simp_all
  let ?b1 = "b\<lparr>io := (io b)[nat fd := Some (down\<lparr>io_events := remove1 ev (io_events ctx)\<rparr>)]\<rparr>"
  have unf: "evmap_io_del evsel b fd ev =
    (if res \<noteq> 0 then bind_outcome (bdel (backend b) fd (old_io_events ctx) ((?e AND EV_ET) OR res))
       (\<lambda>(q, k). Done (if q = -1 then -1 else 1, ?b1\<lparr>backend := k\<rparr>))
     else Done (0, ?b1))"
    unfolding evmap_io_del_def Let_def
    by (simp only: nf e(1) sl(2) option.case ops down_def [symmetric] res_def [symmetric] d(1) if_False simp_thms)
  have io1: "io_list (?b1\<lparr>backend := k\<rparr>) = (io_list b)(fd := remove1 ev (io_list b fd))"
    "io_list ?b1 = (io_list b)(fd := remove1 ev (io_list b fd))" for k
    using sl e(2) by (simp_all add: io_list_def slot_list_update slot_list_Some)
  have m1: "io_map_ok (evs b) ((io b)[nat fd := Some (down\<lparr>io_events := remove1 ev (io_events ctx)\<rparr>)])"
    by (rule io_map_ok_update) (use inv d(2) mem in \<open>auto simp: evmap_io_inv_def\<close>)
  show ?thesis
  proof (cases "res = 0")
    case True
    have "evmap_io_inv bwf watch pollable ?b1"
      using inv m1 io1(2) d(5) [OF True] sl(3) pol unfolding evmap_io_inv_def
      by (auto dest: in_set_remove1 split: if_splits)
    then show ?thesis using unf True io1(2) by auto
  next
    case False
    have "bwf (backend b)" "watch (backend b) fd = old_io_events ctx"
      using inv old_io_events_union [OF cok] sl(3) by (simp_all add: evmap_io_inv_def)
    from bdel_ok [OF this, of "?e AND EV_ET OR res"] pol d(3,4,6) False obtain k' where
      k': "bdel (backend b) fd (old_io_events ctx) (?e AND EV_ET OR res) = Done (0, k')" "bwf k'"
      "watch k' = (watch (backend b))(fd := union_events (evs b) (remove1 ev (io_events ctx)))" by auto
    have "evmap_io_inv bwf watch pollable (?b1\<lparr>backend := k'\<rparr>)"
      using inv m1 io1(1) k'(2,3) sl(3) pol unfolding evmap_io_inv_def by auto
    then show ?thesis using unf False k'(1) io1(1) by auto
  qed
qed

end

section \<open>Signals\<close>

definition evmap_sig_inv :: "('k \<Rightarrow> bool) \<Rightarrow> ('k \<Rightarrow> int \<Rightarrow> bool) \<Rightarrow> ('k, 'z) evmap_base_scheme \<Rightarrow> bool" where
  "evmap_sig_inv swf caught b \<longleftrightarrow> swf (backend b) \<and>
     (\<forall>sig. (caught (backend b) sig \<longleftrightarrow> sig_list b sig \<noteq> []) \<and> distinct (sig_list b sig) \<and>
        (sig_list b sig \<noteq> [] \<longrightarrow> 0 \<le> sig \<and> sig < NSIG) \<and> (\<forall>ev \<in> set (sig_list b sig). ev_fd (evs b ev) = sig))"

lemma evmap_sig_invD:
  assumes "evmap_sig_inv swf caught b"
  shows "swf (backend b)" "caught (backend b) sig \<longleftrightarrow> sig_list b sig \<noteq> []" "distinct (sig_list b sig)"
    "sig_list b sig \<noteq> [] \<Longrightarrow> 0 \<le> sig \<and> sig < NSIG" "ev \<in> set (sig_list b sig) \<Longrightarrow> ev_fd (evs b ev) = sig"
  using assms unfolding evmap_sig_inv_def by blast+

text \<open>The entry of the signal exists after the first part of \<^verbatim>\<open>evmap_signal_add_\<close>.\<close>

lemma signal_add_unfold:
  assumes sig: "0 \<le> sig" "sig < NSIG"
  shows "(\<exists>m. sig_list (b\<lparr>sigmap := m\<rparr>) = sig_list b \<and> evmap_signal_add ok evsigsel b sig ev = Done (-1, b\<lparr>sigmap := m\<rparr>)) \<or>
   (\<exists>m2. sig_list (b\<lparr>sigmap := m2\<rparr>) = sig_list b \<and> nat sig < length m2 \<and> m2 ! nat sig = Some (sig_list b sig) \<and>
     evmap_signal_add ok evsigsel b sig ev =
       (if sig_list b sig = [] then
          bind_outcome (op_add evsigsel (backend b) (ev_fd (evs b ev)) 0 EV_SIGNAL)
            (\<lambda>(q, k). if q = -1 then Done (-1, b\<lparr>sigmap := m2, backend := k\<rparr>)
               else Done (1, b\<lparr>sigmap := m2[nat sig := Some (ev # sig_list b sig)], backend := k\<rparr>))
        else Done (1, b\<lparr>sigmap := m2[nat sig := Some (ev # sig_list b sig)]\<rparr>)))"
proof -
  obtain r m1 where sp: "(if nat sig \<ge> length (sigmap b) then evmap_make_space ok (sigmap b) (nat sig) 8 else (0, sigmap b)) = (r, m1)"
    by (cases "if nat sig \<ge> length (sigmap b) then evmap_make_space ok (sigmap b) (nat sig) 8 else (0, sigmap b)") auto
  have m1: "r = 0 \<and> nat sig < length m1 \<and> (\<exists>k. m1 = sigmap b @ replicate k None) \<or> r = -1 \<and> m1 = sigmap b"
  proof (cases "nat sig \<ge> length (sigmap b)")
    case True
    then show ?thesis using sp evmap_make_space_ok [of ok "sigmap b" "nat sig" 8 r m1] by simp
  next
    case False
    then show ?thesis using sp by (auto intro: exI [of _ 0])
  qed
  have ns: "\<not> (sig < 0 \<or> NSIG \<le> sig)" using sig by simp
  show ?thesis
  proof (cases "r = -1")
    case True
    then have "evmap_signal_add ok evsigsel b sig ev = Done (-1, b\<lparr>sigmap := sigmap b\<rparr>)"
      unfolding evmap_signal_add_def Let_def sp using ns by simp
    then show ?thesis by (intro disjI1 exI [of _ "sigmap b"]) (simp add: sig_list_def)
  next
    case False
    with m1 obtain k where k: "nat sig < length m1" "m1 = sigmap b @ replicate k None" by auto
    have l1: "sig_list (b\<lparr>sigmap := m1\<rparr>) = sig_list b" by (simp add: sig_list_def k(2) slot_list_append)
    show ?thesis
    proof (cases "GET_SLOT_AND_CTOR ok (8 + fdinfo_len evsigsel) [] m1 (nat sig)")
      case None
      then have "evmap_signal_add ok evsigsel b sig ev = Done (-1, b\<lparr>sigmap := m1\<rparr>)"
        unfolding evmap_signal_add_def Let_def sp using ns False by simp
      then show ?thesis using l1 by blast
    next
      case (Some m2)
      have g: "length m2 = length m1" "slot_list (\<lambda>x. x) m2 = slot_list (\<lambda>x. x) m1" "\<exists>c. m2 ! nat sig = Some c"
        using get_slot_ok [OF Some k(1), of "\<lambda>x. x"] by auto
      then obtain c where c: "m2 ! nat sig = Some c" by auto
      have l2: "sig_list (b\<lparr>sigmap := m2\<rparr>) = sig_list b" using g(2) l1 by (simp add: sig_list_def)
      have cl: "c = sig_list b sig" using l2 c k(1) g(1) sig slot_list_Some [of "nat sig" m2 c "\<lambda>x. x"] by (simp add: sig_list_def)
      show ?thesis
        by (intro disjI2 exI [of _ m2] conjI)
          (use l2 k(1) g(1) c cl in \<open>simp_all add: evmap_signal_add_def Let_def sp ns False Some\<close>)
    qed
  qed
qed

lemma sig_list_update:
  assumes "0 \<le> sig" "nat sig < length m" "sig_list (b\<lparr>sigmap := m\<rparr>) = sig_list b"
  shows "sig_list (b\<lparr>sigmap := m[nat sig := Some xs]\<rparr>) = (sig_list b)(sig := xs)"
    "sig_list (b\<lparr>sigmap := m[nat sig := Some xs], backend := k\<rparr>) = (sig_list b)(sig := xs)"
    "sig_list (b\<lparr>sigmap := m, backend := k\<rparr>) = sig_list b"
  using assms slot_list_update [of "nat sig" m "\<lambda>x. x" xs] by (simp_all add: sig_list_def)

context sigop
begin

lemma signal_add:
  assumes inv: "evmap_sig_inv swf caught b" and ops: "op_add evsigsel = sadd"
    and e: "ev_fd (evs b ev) = sig" "0 \<le> sig" "sig < NSIG" "ev \<notin> set (sig_list b sig)"
  shows "\<exists>r b' m k. evmap_signal_add ok evsigsel b sig ev = Done (r, b') \<and> evmap_sig_inv swf caught b' \<and>
    b' = b\<lparr>sigmap := m, backend := k\<rparr> \<and>
    (if r = -1 then sig_list b' = sig_list b else r = 1 \<and> sig_list b' = (sig_list b)(sig := ev # sig_list b sig))"
proof -
  note i = evmap_sig_invD [OF inv]
  have inv_upd: "evmap_sig_inv swf caught (b\<lparr>sigmap := m, backend := k\<rparr>)"
    if "swf k" "sig_list (b\<lparr>sigmap := m, backend := k\<rparr>) = (sig_list b)(sig := ev # sig_list b sig)"
      "caught k = (caught (backend b))(sig := True)" for m k
    unfolding evmap_sig_inv_def using that i e by auto
  have inv_same: "evmap_sig_inv swf caught (b\<lparr>sigmap := m, backend := k\<rparr>)"
    if "swf k" "sig_list (b\<lparr>sigmap := m, backend := k\<rparr>) = sig_list b" "caught k = caught (backend b)" for m k
    unfolding evmap_sig_inv_def using that i by auto
  from signal_add_unfold [OF e(2,3), of b ok evsigsel ev] show ?thesis
  proof (elim disjE exE conjE)
    fix m assume "sig_list (b\<lparr>sigmap := m\<rparr>) = sig_list b" "evmap_signal_add ok evsigsel b sig ev = Done (-1, b\<lparr>sigmap := m\<rparr>)"
    then show ?thesis using inv_same [of "backend b" m] i(1) by (intro exI [of _ "-1"] exI [of _ "b\<lparr>sigmap := m\<rparr>"] exI [of _ m] exI [of _ "backend b"]) simp
  next
    fix m2 assume m2: "sig_list (b\<lparr>sigmap := m2\<rparr>) = sig_list b" "nat sig < length m2" "m2 ! nat sig = Some (sig_list b sig)"
      "evmap_signal_add ok evsigsel b sig ev =
       (if sig_list b sig = [] then
          bind_outcome (op_add evsigsel (backend b) (ev_fd (evs b ev)) 0 EV_SIGNAL)
            (\<lambda>(q, k). if q = -1 then Done (-1, b\<lparr>sigmap := m2, backend := k\<rparr>)
               else Done (1, b\<lparr>sigmap := m2[nat sig := Some (ev # sig_list b sig)], backend := k\<rparr>))
        else Done (1, b\<lparr>sigmap := m2[nat sig := Some (ev # sig_list b sig)]\<rparr>))"
    note u = sig_list_update [OF e(2) m2(2,1)]
    show ?thesis
    proof (cases "sig_list b sig = []")
      case True
      then have "\<not> caught (backend b) sig" using i(2) by simp
      from sadd_ok [OF i(1) e(2,3) this] obtain r k where s: "sadd (backend b) sig 0 EV_SIGNAL = Done (r, k)" "swf k"
        "r = 0 \<and> caught k = (caught (backend b))(sig := True) \<or> r = -1 \<and> caught k = caught (backend b)" by blast
      then show ?thesis using m2(4) True ops e(1) inv_upd [of k] inv_same [of k] u by auto
    next
      case False
      then have "caught (backend b) = (caught (backend b))(sig := True)" using i(2) by (auto simp: fun_eq_iff)
      then have "evmap_sig_inv swf caught (b\<lparr>sigmap := m2[nat sig := Some (ev # sig_list b sig)], backend := backend b\<rparr>)"
        by (rule inv_upd [OF i(1) u(2)])
      then show ?thesis using m2(4) False u(1) by (auto intro!: exI [of _ "backend b"])
    qed
  qed
qed

lemma signal_del:
  assumes inv: "evmap_sig_inv swf caught b" and ops: "op_del evsigsel = sdel" and e: "ev \<in> set (sig_list b sig)"
  shows "\<exists>r b' m k. evmap_signal_del evsigsel b sig ev = Done (r, b') \<and> evmap_sig_inv swf caught b' \<and>
    b' = b\<lparr>sigmap := m, backend := k\<rparr> \<and> sig_list b' = (sig_list b)(sig := remove1 ev (sig_list b sig))"
proof -
  note i = evmap_sig_invD [OF inv]
  from e have ne: "sig_list b sig \<noteq> []" by auto
  then have sig: "0 \<le> sig" "sig < NSIG" using i(4) by auto
  from e obtain c where c: "nat sig < length (sigmap b)" "sigmap b ! nat sig = Some (sig_list b sig)"
    unfolding sig_list_def by (rule slot_listE) auto
  have ns: "\<not> (sig < 0 \<or> int (length (sigmap b)) \<le> sig)" using sig c(1) by auto
  let ?xs = "remove1 ev (sig_list b sig)"
  let ?m = "(sigmap b)[nat sig := Some ?xs]"
  have unf: "evmap_signal_del evsigsel b sig ev =
     (if ?xs = [] then bind_outcome (sdel (backend b) sig 0 EV_SIGNAL)
        (\<lambda>(q, k). Done (if q = -1 then -1 else 1, b\<lparr>sigmap := ?m, backend := k\<rparr>))
      else Done (1, b\<lparr>sigmap := ?m\<rparr>))"
    unfolding evmap_signal_del_def Let_def using ns c(2) e i(5) [OF e] ops by simp
  have u: "sig_list (b\<lparr>sigmap := ?m, backend := k\<rparr>) = (sig_list b)(sig := ?xs)"
    "sig_list (b\<lparr>sigmap := ?m\<rparr>) = (sig_list b)(sig := ?xs)" for k
    using sig_list_update(1,2) [OF sig(1) c(1), of b] by (simp_all add: sig_list_def)
  have inv': "evmap_sig_inv swf caught (b\<lparr>sigmap := ?m, backend := k\<rparr>)"
    if "swf k" "caught k = (caught (backend b))(sig := (?xs \<noteq> []))" for k
  proof -
    have sub: "set ?xs \<subseteq> set (sig_list b sig)" by (rule set_remove1_subset)
    then have "\<forall>ev \<in> set ?xs. ev_fd (evs b ev) = sig" using i(5) by blast
    then show ?thesis unfolding evmap_sig_inv_def u using that i sig by simp
  qed
  show ?thesis
  proof (cases "?xs = []")
    case True
    have "caught (backend b) sig" using i(2) ne by simp
    from sdel_ok [OF i(1) sig this] obtain r k where "sdel (backend b) sig 0 EV_SIGNAL = Done (r, k)" "swf k"
      "caught k = (caught (backend b))(sig := False)" by blast
    then show ?thesis using unf True inv' [of k] u by auto
  next
    case False
    then have "caught (backend b) = (caught (backend b))(sig := (?xs \<noteq> []))" using i(2) ne by (auto simp: fun_eq_iff)
    then have "evmap_sig_inv swf caught (b\<lparr>sigmap := ?m, backend := backend b\<rparr>)" 
      by (rule inv' [OF i(1)])
    then show ?thesis using unf False u(2) by (auto intro!: exI [of _ "backend b"])
  qed
qed

end

end
