(* ===== verification/Min_Heap.thy ===== *)
theory Min_Heap
  imports Timeval Array_Heap Timer_Queue
begin

text \<open>
  The timer heap of the event loop, \<^verbatim>\<open>src/minheap-internal.h\<close>. An event is named by its address
  (a \<^typ>\<open>nat\<close>); \<open>hp\<close> is the array of event pointers, \<open>hn\<close> and \<open>ha\<close> its used and allocated
  lengths, and \<open>hidx\<close> the field \<^verbatim>\<open>ev_timeout_pos.min_heap_idx\<close> of every event. The timeouts of
  the events are an argument \<open>tmo\<close> of the operations that compare them.
  The functions keep the source's names without the trailing underscore.
\<close>

section \<open>State and operations\<close>

type_synonym ev_ptr = nat

record min_heap =
  hp :: "ev_ptr list"
  hn :: nat
  ha :: nat
  hidx :: "ev_ptr \<Rightarrow> nat"

definition min_heap_elem_greater :: "(ev_ptr \<Rightarrow> timeval) \<Rightarrow> ev_ptr \<Rightarrow> ev_ptr \<Rightarrow> bool" where
  "min_heap_elem_greater tmo a b = evutil_timercmp_gt (tmo a) (tmo b)"

definition min_heap_ctor :: "min_heap \<Rightarrow> min_heap" where
  "min_heap_ctor s = s\<lparr>hp := [], hn := 0, ha := 0\<rparr>"

definition min_heap_elem_init :: "min_heap \<Rightarrow> ev_ptr \<Rightarrow> min_heap" where
  "min_heap_elem_init s e = s\<lparr>hidx := (hidx s)(e := EV_SIZE_MAX)\<rparr>"

definition min_heap_empty :: "min_heap \<Rightarrow> bool" where
  "min_heap_empty s \<longleftrightarrow> 0 = hn s"

definition min_heap_size :: "min_heap \<Rightarrow> nat" where
  "min_heap_size s = hn s"

definition min_heap_top :: "min_heap \<Rightarrow> ev_ptr option" where
  "min_heap_top s = (if hn s \<noteq> 0 then Some (hp s ! 0) else None)"

definition min_heap_elt_is_top :: "min_heap \<Rightarrow> ev_ptr \<Rightarrow> bool" where
  "min_heap_elt_is_top s e \<longleftrightarrow> hidx s e = 0"

text \<open>
  The \<^verbatim>\<open>while\<close> loops move a hole; \<open>par 0\<close> is never read, because the loop tests the index first.
\<close>

function min_heap_shift_up ::
  "(ev_ptr \<Rightarrow> timeval) \<Rightarrow> ev_ptr list \<Rightarrow> (ev_ptr \<Rightarrow> nat) \<Rightarrow> nat \<Rightarrow> ev_ptr \<Rightarrow>
     ev_ptr list \<times> (ev_ptr \<Rightarrow> nat)" where
  "min_heap_shift_up tmo p idx hole e =
     (if hole \<noteq> 0 \<and> min_heap_elem_greater tmo (p ! par hole) e
      then min_heap_shift_up tmo (p[hole := p ! par hole]) (idx(p ! par hole := hole)) (par hole) e
      else (p[hole := e], idx(e := hole)))"
  by pat_completeness auto
termination
  by (relation "measure (\<lambda>(tmo, p, idx, hole, e). hole)") auto

declare min_heap_shift_up.simps [simp del]

text \<open>The \<^verbatim>\<open>do ... while\<close> of the unconditional variant: one step, then the loop above.\<close>

definition min_heap_shift_up_unconditional ::
  "(ev_ptr \<Rightarrow> timeval) \<Rightarrow> ev_ptr list \<Rightarrow> (ev_ptr \<Rightarrow> nat) \<Rightarrow> nat \<Rightarrow> ev_ptr \<Rightarrow>
     ev_ptr list \<times> (ev_ptr \<Rightarrow> nat)" where
  "min_heap_shift_up_unconditional tmo p idx hole e =
     min_heap_shift_up tmo (p[hole := p ! par hole]) (idx(p ! par hole := hole)) (par hole) e"

function min_heap_shift_down ::
  "(ev_ptr \<Rightarrow> timeval) \<Rightarrow> nat \<Rightarrow> ev_ptr list \<Rightarrow> (ev_ptr \<Rightarrow> nat) \<Rightarrow> nat \<Rightarrow> ev_ptr \<Rightarrow>
     ev_ptr list \<times> (ev_ptr \<Rightarrow> nat)" where
  "min_heap_shift_down tmo n p idx hole e =
     (let min_child0 = 2 * (hole + 1) in
      if min_child0 \<le> n then
        (let min_child = (if min_child0 = n
             \<or> min_heap_elem_greater tmo (p ! min_child0) (p ! (min_child0 - 1))
             then min_child0 - 1 else min_child0)
         in if \<not> min_heap_elem_greater tmo e (p ! min_child)
            then (p[hole := e], idx(e := hole))
            else min_heap_shift_down tmo n (p[hole := p ! min_child])
                   (idx(p ! min_child := hole)) min_child e)
      else (p[hole := e], idx(e := hole)))"
  by pat_completeness auto
termination
  by (relation "measure (\<lambda>(tmo, n, p, idx, hole, e). n - hole)") (auto simp: Let_def split: if_splits)

declare min_heap_shift_down.simps [simp del]

text \<open>
  Growing the array. \<open>ok\<close> answers whether the allocator serves a request of that many bytes; sizes
  are \<^verbatim>\<open>size_t\<close> and wrap; the new slots hold indeterminate values and are written before they
  are read, the model fills them with 0.
\<close>

definition resize_array :: "nat \<Rightarrow> ev_ptr list \<Rightarrow> ev_ptr list" where
  "resize_array k p = take k p @ replicate (k - length p) 0"

definition min_heap_reserve :: "(nat \<Rightarrow> bool) \<Rightarrow> min_heap \<Rightarrow> nat \<Rightarrow> int \<times> min_heap" where
  "min_heap_reserve ok s n =
     (if ha s < n then
        (let a0 = (if ha s \<noteq> 0 then (ha s * 2) mod 2 ^ 64 else 8);
             a = (if a0 < n then n else a0);
             bytes = (a * 8) mod 2 ^ 64
         in if ok bytes then (0, s\<lparr>hp := resize_array (bytes div 8) (hp s), ha := a\<rparr>)
            else (-1, s))
      else (0, s))"

definition min_heap_push ::
  "(nat \<Rightarrow> bool) \<Rightarrow> (ev_ptr \<Rightarrow> timeval) \<Rightarrow> min_heap \<Rightarrow> ev_ptr \<Rightarrow> int \<times> min_heap" where
  "min_heap_push ok tmo s e =
     (let (r, s1) = min_heap_reserve ok s (hn s + 1) in
      if r \<noteq> 0 then (-1, s1)
      else (let (p, idx) = min_heap_shift_up tmo (hp s1) (hidx s1) (hn s1) e
            in (0, s1\<lparr>hp := p, hidx := idx, hn := hn s1 + 1\<rparr>)))"

definition min_heap_pop :: "(ev_ptr \<Rightarrow> timeval) \<Rightarrow> min_heap \<Rightarrow> ev_ptr option \<times> min_heap" where
  "min_heap_pop tmo s =
     (if hn s \<noteq> 0 then
        (let e = hp s ! 0;
             n = hn s - 1;
             (p, idx) = min_heap_shift_down tmo n (hp s) (hidx s) 0 (hp s ! n)
         in (Some e, s\<lparr>hp := p, hn := n, hidx := idx(e := EV_SIZE_MAX)\<rparr>))
      else (None, s))"

definition min_heap_erase :: "(ev_ptr \<Rightarrow> timeval) \<Rightarrow> min_heap \<Rightarrow> ev_ptr \<Rightarrow> int \<times> min_heap" where
  "min_heap_erase tmo s e =
     (if EV_SIZE_MAX \<noteq> hidx s e then
        (let n = hn s - 1;
             last = hp s ! n;
             i = hidx s e;
             (p, idx) = (if i > 0 \<and> min_heap_elem_greater tmo (hp s ! par i) last
                then min_heap_shift_up_unconditional tmo (hp s) (hidx s) i last
                else min_heap_shift_down tmo n (hp s) (hidx s) i last)
         in (0, s\<lparr>hp := p, hn := n, hidx := idx(e := EV_SIZE_MAX)\<rparr>))
      else (-1, s))"

definition min_heap_adjust ::
  "(nat \<Rightarrow> bool) \<Rightarrow> (ev_ptr \<Rightarrow> timeval) \<Rightarrow> min_heap \<Rightarrow> ev_ptr \<Rightarrow> int \<times> min_heap" where
  "min_heap_adjust ok tmo s e =
     (if EV_SIZE_MAX = hidx s e then min_heap_push ok tmo s e
      else
        (let i = hidx s e;
             (p, idx) = (if i > 0 \<and> min_heap_elem_greater tmo (hp s ! par i) e
                then min_heap_shift_up_unconditional tmo (hp s) (hidx s) i e
                else min_heap_shift_down tmo (hn s) (hp s) (hidx s) i e)
         in (0, s\<lparr>hp := p, hidx := idx\<rparr>)))"

section \<open>Invariant\<close>

definition heap_elems :: "min_heap \<Rightarrow> ev_ptr multiset" where
  "heap_elems s = mset (take (hn s) (hp s))"

definition min_heap_inv :: "(ev_ptr \<Rightarrow> timeval) \<Rightarrow> min_heap \<Rightarrow> bool" where
  "min_heap_inv tmo s \<longleftrightarrow>
     hn s \<le> ha s \<and> length (hp s) = ha s \<and> ha s < 2 ^ 61 \<and>
     distinct (take (hn s) (hp s)) \<and>
     (\<forall>i < hn s. hidx s (hp s ! i) = i) \<and>
     heap_upto tmo (hp s) (hn s)"

text \<open>What one run of a shifting loop achieves, whichever way the hole moved.\<close>

definition sifted ::
  "(ev_ptr \<Rightarrow> timeval) \<Rightarrow> nat \<Rightarrow> ev_ptr list \<Rightarrow> (ev_ptr \<Rightarrow> nat) \<Rightarrow>
   ev_ptr list \<times> (ev_ptr \<Rightarrow> nat) \<Rightarrow> bool" where
  "sifted tmo n q idx r \<longleftrightarrow>
     heap_upto tmo (fst r) n \<and> mset (take n (fst r)) = mset (take n q) \<and>
     length (fst r) = length q \<and>
     (\<forall>i < n. snd r (fst r ! i) = i) \<and>
     (\<forall>x. x \<notin> set (take n q) \<longrightarrow> snd r x = idx x)"

definition index_but :: "(ev_ptr \<Rightarrow> nat) \<Rightarrow> ev_ptr list \<Rightarrow> nat \<Rightarrow> nat \<Rightarrow> bool" where
  "index_but idx p n h \<longleftrightarrow> (\<forall>i < n. i \<noteq> h \<longrightarrow> idx (p ! i) = i)"

lemma sifted_done:
  assumes "heap_upto tmo (p[h := e]) n" "index_but idx p n h" "h < n" "n \<le> length p"
    "distinct (take n (p[h := e]))"
  shows "sifted tmo n (p[h := e]) idx (p[h := e], idx(e := h))"
proof -
  have "p ! i \<noteq> e" if "i < n" "i \<noteq> h" for i
    using assms(5) that assms(3,4) nth_eq_iff_index_eq [OF assms(5), of i h] by auto
  moreover have "e \<in> set (take n (p[h := e]))"
    using assms(3,4) by (auto simp: in_set_conv_nth intro!: exI [of _ h])
  ultimately show ?thesis
    using assms unfolding sifted_def index_but_def by (auto simp: nth_list_update)
qed

lemma sifted_step:
  assumes "sifted tmo n ((p[h := p ! j])[j := e]) (idx(p ! j := h)) r"
    "h < n" "j < n" "h \<noteq> j" "n \<le> length p"
  shows "sifted tmo n (p[h := e]) idx r"
proof -
  have m: "mset (take n ((p[h := p ! j])[j := e])) = mset (take n (p[h := e]))"
    using assms by (intro set_take_list_update_swap) auto
  then have s: "set (take n ((p[h := p ! j])[j := e])) = set (take n (p[h := e]))"
    by (metis set_mset_mset)
  have "p ! j \<in> set (take n (p[h := e]))"
    using assms(2-5) by (auto simp: in_set_conv_nth intro!: exI [of _ j])
  with assms(1) m s show ?thesis unfolding sifted_def by auto
qed

lemma index_but_step:
  assumes "index_but idx p n h" "distinct (take n (p[h := e]))" "h < n" "j < n" "h \<noteq> j" "n \<le> length p"
  shows "index_but (idx(p ! j := h)) (p[h := p ! j]) n j"
    and "distinct (take n ((p[h := p ! j])[j := e]))"
proof -
  have ne: "p ! i \<noteq> p ! j" if "i < n" "i \<noteq> h" "i \<noteq> j" for i
    using nth_eq_iff_index_eq [OF assms(2), of i j] that assms by auto
  show "index_but (idx(p ! j := h)) (p[h := p ! j]) n j"
    using assms ne unfolding index_but_def by (auto simp: nth_list_update)
  have "mset (take n ((p[h := p ! j])[j := e])) = mset (take n (p[h := e]))"
    using assms by (intro set_take_list_update_swap) auto
  with assms(2) show "distinct (take n ((p[h := p ! j])[j := e]))"
    using distinct_mset_eq by blast
qed

lemma shift_up_sifted:
  assumes "heap_except_up tmo (p[hole := e]) n hole" "index_but idx p n hole"
    "distinct (take n (p[hole := e]))" "hole < n" "n \<le> length p"
  shows "sifted tmo n (p[hole := e]) idx (min_heap_shift_up tmo p idx hole e)"
  using assms
proof (induction tmo p idx hole e rule: min_heap_shift_up.induct)
  case (1 tmo p idx hole e)
  show ?case
  proof (cases "hole \<noteq> 0 \<and> min_heap_elem_greater tmo (p ! par hole) e")
    case True
    then have lt: "tmo e < tmo (p ! par hole)" and pos: "0 < hole"
      by (simp_all add: min_heap_elem_greater_def)
    have ph: "par hole < n" "hole \<noteq> par hole" using pos 1(5) by (simp_all add: par_less_le)
    note st = index_but_step [OF 1(3) 1(4) 1(5) ph 1(6)]
    have "heap_except_up tmo ((p[hole := p ! par hole])[par hole := e]) n (par hole)"
      using heap_up_step [OF 1(2) pos 1(5,6) lt] .
    from 1(1) [OF True this st ph(1)] 1(6)
    have "sifted tmo n ((p[hole := p ! par hole])[par hole := e]) (idx(p ! par hole := hole))
       (min_heap_shift_up tmo (p[hole := p ! par hole]) (idx(p ! par hole := hole)) (par hole) e)"
      by (simp add: fun_upd_def)
    from sifted_step [OF this 1(5) ph 1(6)] True show ?thesis
      by (subst min_heap_shift_up.simps) simp
  next
    case False
    then have "heap_upto tmo (p[hole := e]) n"
      using 1(2,5,6) by (intro heap_up_done) (auto simp: min_heap_elem_greater_def)
    from sifted_done [OF this 1(3,5,6,4)] False show ?thesis
      by (subst min_heap_shift_up.simps) auto
  qed
qed

lemma shift_down_sifted:
  assumes "heap_except_down tmo (p[hole := e]) n hole" "index_but idx p n hole"
    "distinct (take n (p[hole := e]))" "hole < n" "n \<le> length p"
  shows "sifted tmo n (p[hole := e]) idx (min_heap_shift_down tmo n p idx hole e)"
  using assms
proof (induction tmo n p idx hole e rule: min_heap_shift_down.induct)
  case (1 tmo n p idx hole e)
  define c0 where "c0 = 2 * (hole + 1)"
  define c where "c = (if c0 = n \<or> min_heap_elem_greater tmo (p ! c0) (p ! (c0 - 1)) then c0 - 1 else c0)"
  have unf: "min_heap_shift_down tmo n p idx hole e =
     (if c0 \<le> n then
        (if \<not> min_heap_elem_greater tmo e (p ! c) then (p[hole := e], idx(e := hole))
         else min_heap_shift_down tmo n (p[hole := p ! c]) (idx(p ! c := hole)) c e)
      else (p[hole := e], idx(e := hole)))"
    by (subst min_heap_shift_down.simps) (simp only: Let_def c0_def c_def)
  show ?case
  proof (cases "c0 \<le> n")
    case False
    then have "heap_upto tmo (p[hole := e]) n"
      using 1(2,5,6) by (intro heap_down_done) (auto simp: par_eq_iff c0_def)
    from sifted_done [OF this 1(3,5,6,4)] False show ?thesis by (simp add: unf)
  next
    case True
    then have c: "0 < c" "c < n" "par c = hole" "hole \<noteq> c"
      by (auto simp: c_def c0_def par_def)
    have least: "tmo (p ! c) \<le> tmo (p ! d)" if "0 < d" "d < n" "par d = hole" for d
      using that by (auto simp: par_eq_iff c_def c0_def min_heap_elem_greater_def not_less)
    show ?thesis
    proof (cases "min_heap_elem_greater tmo e (p ! c)")
      case False
      then have "heap_upto tmo (p[hole := e]) n"
        using 1(2,5,6) least
        by (intro heap_down_done) (auto simp: min_heap_elem_greater_def not_less intro: order_trans)
      from sifted_done [OF this 1(3,5,6,4)] False True show ?thesis by (simp add: unf)
    next
      case gt: True
      then have lt: "tmo (p ! c) \<le> tmo e" by (simp add: min_heap_elem_greater_def)
      note st = index_but_step [OF 1(3) 1(4) 1(5) c(2,4) 1(6)]
      have "heap_except_down tmo ((p[hole := p ! c])[c := e]) n c"
        using heap_down_step [OF 1(2) c(1,3,2) 1(6) lt least] .
      from 1(1) [OF c0_def True c_def _ this st c(2)] 1(6) gt
      have "sifted tmo n ((p[hole := p ! c])[c := e]) (idx(p ! c := hole))
         (min_heap_shift_down tmo n (p[hole := p ! c]) (idx(p ! c := hole)) c e)"
        by (simp add: fun_upd_def)
      from sifted_step [OF this 1(5) c(2,4) 1(6)] gt True show ?thesis by (simp add: unf)
    qed
  qed
qed

section \<open>The operations keep the invariant\<close>

lemma heap_inv_index_but:
  "min_heap_inv tmo s \<Longrightarrow> index_but (hidx s) (hp s) (hn s) h"
  by (simp add: min_heap_inv_def index_but_def)

lemma min_heap_invI:
  assumes "sifted tmo n q idx (p, idx')" "distinct (take n q)" "n \<le> a" "length q = a" "a < 2 ^ 61"
  shows "min_heap_inv tmo \<lparr>hp = p, hn = n, ha = a, hidx = idx'\<rparr>"
    and "heap_elems \<lparr>hp = p, hn = n, ha = a, hidx = idx'\<rparr> = mset (take n q)"
  using assms distinct_mset_eq [of "take n p" "take n q"]
  by (auto simp: min_heap_inv_def heap_elems_def sifted_def)

lemma resize_array_grow [simp]:
  "length p \<le> k \<Longrightarrow> length (resize_array k p) = k"
  "n \<le> length p \<Longrightarrow> n \<le> k \<Longrightarrow> take n (resize_array k p) = take n p"
  "i < length p \<Longrightarrow> i < k \<Longrightarrow> resize_array k p ! i = p ! i"
  by (auto simp: resize_array_def nth_append min_def)

lemma min_heap_reserve_fail: "fst (min_heap_reserve ok s n) \<noteq> 0 \<Longrightarrow> snd (min_heap_reserve ok s n) = s"
  by (auto simp: min_heap_reserve_def Let_def)

lemma min_heap_reserve_ok:
  assumes inv: "min_heap_inv tmo s" and small: "ha s < 2 ^ 60" "n < 2 ^ 60"
    and r: "min_heap_reserve ok s n = (0, s')"
  shows "min_heap_inv tmo s'" "heap_elems s' = heap_elems s" "hn s' = hn s" "hidx s' = hidx s"
    "n \<le> ha s'" "take (hn s) (hp s') = take (hn s) (hp s)"
proof -
  define a where "a = (if (if ha s \<noteq> 0 then ha s * 2 else 8) < n then n
    else if ha s \<noteq> 0 then ha s * 2 else 8)"
  have "a < 2 ^ 61" using small by (auto simp: a_def)
  then have bytes: "(a * 8) mod 2 ^ 64 div 8 = a" by simp
  have "(if (if ha s \<noteq> 0 then (ha s * 2) mod 2 ^ 64 else 8) < n then n
    else if ha s \<noteq> 0 then (ha s * 2) mod 2 ^ 64 else 8) = a"
    using small by (simp add: a_def)
  with r bytes have s': "s' = (if ha s < n then s\<lparr>hp := resize_array a (hp s), ha := a\<rparr> else s)"
    by (auto simp: min_heap_reserve_def Let_def split: if_splits)
  have ge: "ha s < n \<Longrightarrow> ha s \<le> a" "ha s < n \<Longrightarrow> n \<le> a" by (auto simp: a_def)
  have nl: "hn s \<le> length (hp s)" "length (hp s) = ha s" using inv by (auto simp: min_heap_inv_def)
  show t: "take (hn s) (hp s') = take (hn s) (hp s)"
    using s' nl ge by (cases "ha s < n") auto
  show "hn s' = hn s" "hidx s' = hidx s" "n \<le> ha s'" using s' ge by auto
  then show "heap_elems s' = heap_elems s" using t by (simp add: heap_elems_def)
  show "min_heap_inv tmo s'"
  proof (cases "ha s < n")
    case True
    have "heap_upto tmo (resize_array a (hp s)) (hn s)"
    proof (rule heap_upto_cong)
      show "heap_upto tmo (hp s) (hn s)" using inv by (simp add: min_heap_inv_def)
      show "tmo (resize_array a (hp s) ! i) = tmo (hp s ! i)" if "i < hn s" for i
        using that ge(1) [OF True] nl by simp
    qed
    moreover have "length (resize_array a (hp s)) = a" "hn s \<le> a"
      using ge(1) [OF True] nl by simp_all
    moreover have "\<forall>i < hn s. hidx s (resize_array a (hp s) ! i) = i"
      using inv ge(1) [OF True] nl by (simp add: min_heap_inv_def)
    moreover have "distinct (take (hn s) (resize_array a (hp s)))"
      using t s' True inv by (simp add: min_heap_inv_def)
    ultimately show ?thesis using \<open>a < 2 ^ 61\<close> s' True by (simp add: min_heap_inv_def)
  qed (use s' inv in simp)
qed

lemma min_heap_push_ok:
  assumes inv: "min_heap_inv tmo s" and small: "ha s < 2 ^ 59"
    and new: "e \<notin># heap_elems s"
    and r: "min_heap_push ok tmo s e = (0, s')"
  shows "min_heap_inv tmo s'" "heap_elems s' = add_mset e (heap_elems s)"
proof -
  obtain s1 where s1: "min_heap_reserve ok s (hn s + 1) = (0, s1)"
    using r by (cases "min_heap_reserve ok s (hn s + 1)") (auto simp: min_heap_push_def split: if_splits)
  have "hn s + 1 < 2 ^ 60" using inv small by (simp add: min_heap_inv_def)
  note res = min_heap_reserve_ok [OF inv _ this s1]
  have s60: "ha s < 2 ^ 60" using small by simp
  obtain p idx where pi: "min_heap_shift_up tmo (hp s1) (hidx s1) (hn s1) e = (p, idx)" by fastforce
  let ?n = "hn s1" and ?q = "(hp s1)[hn s1 := e]"
  have inv1: "min_heap_inv tmo s1" and el: "heap_elems s1 = heap_elems s" using res(1,2) [OF s60] .
  have lt: "?n < length (hp s1)" using res(3,5) [OF s60] inv1 by (simp add: min_heap_inv_def)
  have tq: "take (Suc ?n) ?q = take ?n (hp s1) @ [e]"
    using lt by (simp add: take_Suc_conv_app_nth)
  have "e \<notin> set (take ?n (hp s1))" using new el by (metis heap_elems_def set_mset_mset)
  then have dist: "distinct (take (Suc ?n) ?q)"
    using tq inv1 by (auto simp: min_heap_inv_def)
  have "heap_except_up tmo ?q (Suc ?n) ?n"
    using inv1 lt by (intro heap_except_up_append) (auto simp: min_heap_inv_def)
  moreover have "index_but (hidx s1) (hp s1) (Suc ?n) ?n"
    using inv1 by (auto simp: index_but_def min_heap_inv_def)
  ultimately have "sifted tmo (Suc ?n) ?q (hidx s1) (p, idx)"
    using shift_up_sifted [of tmo "hp s1" ?n e "Suc ?n" "hidx s1"] dist lt pi by simp
  note m = min_heap_invI [OF this dist, of "ha s1"]
  have "s' = \<lparr>hp = p, hn = Suc ?n, ha = ha s1, hidx = idx\<rparr>"
    using r s1 pi by (auto simp: min_heap_push_def)
  with m inv1 lt tq el show "min_heap_inv tmo s'" "heap_elems s' = add_mset e (heap_elems s)"
    by (auto simp: min_heap_inv_def heap_elems_def)
qed

lemma min_heap_push_fail:
  "fst (min_heap_push ok tmo s e) \<noteq> 0 \<Longrightarrow> snd (min_heap_push ok tmo s e) = s"
  using min_heap_reserve_fail [of ok s "hn s + 1"]
  by (auto simp: min_heap_push_def split: prod.splits if_splits)

lemma min_heap_top_least:
  assumes "min_heap_inv tmo s" "min_heap_top s = Some e"
  shows "e \<in># heap_elems s" "x \<in># heap_elems s \<Longrightarrow> tmo e \<le> tmo x"
proof -
  have n: "0 < hn s" "hn s \<le> length (hp s)" and e: "e = hp s ! 0"
    using assms by (auto simp: min_heap_inv_def min_heap_top_def split: if_splits)
  then show "e \<in># heap_elems s"
    by (auto simp: heap_elems_def in_set_conv_nth intro!: exI [of _ 0])
  assume "x \<in># heap_elems s"
  then obtain i where "i < hn s" "x = hp s ! i"
    using n by (auto simp: heap_elems_def in_set_conv_nth)
  with assms(1) e show "tmo e \<le> tmo x"
    using heap_root_least [of tmo "hp s" "hn s" i] by (simp add: min_heap_inv_def)
qed

lemma min_heap_top_None: "min_heap_inv tmo s \<Longrightarrow> min_heap_top s = None \<longleftrightarrow> heap_elems s = {#}"
  by (auto simp: min_heap_top_def heap_elems_def min_heap_inv_def)

text \<open>
  Replacing the element at index \<open>h\<close> by the last one of the heap, when the heap shrinks by one:
  the common part of \<^verbatim>\<open>min_heap_pop_\<close> and \<^verbatim>\<open>min_heap_erase_\<close>.
\<close>

lemma take_update_last:
  assumes "h < n" "Suc n \<le> length p"
  shows "mset (take n (p[h := p ! n])) = mset (take (Suc n) p) - {#p ! h#}"
proof -
  have "take (Suc n) p = take n p @ [p ! n]" using assms by (simp add: take_Suc_conv_app_nth)
  moreover have "mset ((take n p)[h := p ! n]) = add_mset (p ! n) (mset (take n p) - {#take n p ! h#})"
    using assms by (intro mset_update) simp
  moreover have "p ! h \<in># mset (take n p)"
    using assms by (auto simp: in_set_conv_nth intro!: exI [of _ h])
  ultimately show ?thesis using assms by (simp add: take_update_swap)
qed

lemma distinct_update_last:
  assumes "h < n" "Suc n \<le> length p" "distinct (take (Suc n) p)"
  shows "distinct (take n (p[h := p ! n]))"
proof -
  have "distinct (take n p @ [p ! n])"
    using assms by (simp add: take_Suc_conv_app_nth)
  then show ?thesis using assms(1,2) by (simp add: take_update_swap distinct_list_update)
qed

lemma heap_member_index:
  assumes "min_heap_inv tmo s" "e \<in># heap_elems s"
  shows "hidx s e < hn s" "hp s ! hidx s e = e" "hidx s e \<noteq> EV_SIZE_MAX"
proof -
  obtain i where i: "i < hn s" "e = hp s ! i"
    using assms by (auto simp: heap_elems_def min_heap_inv_def in_set_conv_nth)
  with assms(1) show "hidx s e < hn s" "hp s ! hidx s e = e" by (auto simp: min_heap_inv_def)
  with assms(1) show "hidx s e \<noteq> EV_SIZE_MAX" by (auto simp: min_heap_inv_def EV_SIZE_MAX_def)
qed

lemma shift_up_unconditional_eq:
  "hole \<noteq> 0 \<Longrightarrow> min_heap_elem_greater tmo (p ! par hole) e \<Longrightarrow>
   min_heap_shift_up_unconditional tmo p idx hole e = min_heap_shift_up tmo p idx hole e"
  using min_heap_shift_up.simps [of tmo p idx hole e]
  by (simp add: min_heap_shift_up_unconditional_def)

lemma min_heap_erase_ok:
  assumes inv: "min_heap_inv tmo s" and mem: "e \<in># heap_elems s"
    and r: "min_heap_erase tmo s e = (r, s')"
  shows "r = 0" "min_heap_inv tmo s'" "heap_elems s' = heap_elems s - {#e#}"
    "hidx s' e = EV_SIZE_MAX"
proof -
  note ix = heap_member_index [OF inv mem]
  define n i where "n = hn s - 1" and "i = hidx s e"
  have n: "hn s = Suc n" "i \<le> n" "Suc n \<le> length (hp s)" "hp s ! i = e"
    using ix inv by (auto simp: n_def i_def min_heap_inv_def)
  have dist: "distinct (take (Suc n) (hp s))" using inv n by (simp add: min_heap_inv_def)
  have hu: "heap_upto tmo (hp s) (Suc n)" using inv n by (simp add: min_heap_inv_def)
  let ?l = "hp s ! n"
  let ?up = "i > 0 \<and> min_heap_elem_greater tmo (hp s ! par i) ?l"
  define pr where "pr = (if ?up then min_heap_shift_up_unconditional tmo (hp s) (hidx s) i ?l
     else min_heap_shift_down tmo n (hp s) (hidx s) i ?l)"
  obtain p idx where pi: "pr = (p, idx)" by fastforce
  have "min_heap_erase tmo s e =
      (case pr of (p, idx) \<Rightarrow> (0, s\<lparr>hp := p, hn := n, hidx := idx(e := EV_SIZE_MAX)\<rparr>))"
    using ix(3) unfolding min_heap_erase_def pr_def n_def i_def Let_def
    by (subst if_P) (simp_all only: eq_commute not_False_eq_True)
  with r pi have s': "r = 0 \<and> s' = \<lparr>hp = p, hn = n, ha = ha s, hidx = idx(e := EV_SIZE_MAX)\<rparr>"
    by auto
  have sif: "sifted tmo n ((hp s)[i := ?l]) (hidx s) pr" if "i < n"
  proof -
    have ib: "index_but (hidx s) (hp s) n i" using inv n by (simp add: index_but_def min_heap_inv_def)
    have d: "distinct (take n ((hp s)[i := ?l]))" using distinct_update_last [OF that n(3) dist] .
    have hn: "heap_upto tmo (hp s) n" using hu by (rule heap_upto_le) simp
    show ?thesis
    proof (cases ?up)
      case True
      then have "tmo ?l \<le> tmo (hp s ! i)"
        using heap_uptoD [OF hu, of i] n by (auto simp: min_heap_elem_greater_def)
      then have "heap_except_up tmo ((hp s)[i := ?l]) n i"
        using hn that n by (intro heap_except_up_update) auto
      then show ?thesis using shift_up_sifted [OF _ ib d that] n True
        by (simp add: pr_def shift_up_unconditional_eq)
    next
      case False
      then have "heap_except_down tmo ((hp s)[i := ?l]) n i"
        using hn that n by (intro heap_except_down_update) (auto simp: min_heap_elem_greater_def)
      then show ?thesis using shift_down_sifted [OF _ ib d that] n False by (auto simp: pr_def)
    qed
  qed
  have "min_heap_inv tmo s' \<and> heap_elems s' = heap_elems s - {#e#}"
  proof (cases "i < n")
    case True
    have m: "mset (take n ((hp s)[i := ?l])) = heap_elems s - {#e#}"
      using take_update_last [OF True n(3)] n by (simp add: heap_elems_def)
    have "e \<notin># heap_elems s - {#e#}"
      using dist n(1) by (auto simp: heap_elems_def distinct_count_atmost_1 in_diff_count)
    then have en: "e \<notin> set (take n ((hp s)[i := ?l]))" using m by (metis set_mset_mset)
    with sif [OF True] pi have "e \<notin> set (take n p)"
      unfolding sifted_def by (metis fst_conv set_mset_mset)
    then have "p ! j \<noteq> e" if "j < n" for j
      using that sif [OF True] pi n(3) by (auto simp: sifted_def in_set_conv_nth)
    then have "sifted tmo n ((hp s)[i := ?l]) ((hidx s)(e := EV_SIZE_MAX)) (p, idx(e := EV_SIZE_MAX))"
      using sif [OF True] pi by (auto simp: sifted_def)
    from min_heap_invI [OF this distinct_update_last [OF True n(3) dist], of "ha s"] s' m inv n
    show ?thesis by (auto simp: min_heap_inv_def)
  next
    case False
    then have i: "i = n" "?l = e" using n by auto
    have "\<not> ?up" using heap_uptoD [OF hu, of n] i by (auto simp: min_heap_elem_greater_def not_less)
    then have "pr = min_heap_shift_down tmo n (hp s) (hidx s) n e" using i by (auto simp: pr_def)
    also have "\<dots> = (hp s, (hidx s)(e := n))"
      using i by (subst min_heap_shift_down.simps) (simp add: Let_def flip: i(2))
    finally have "p = hp s" "idx = (hidx s)(e := n)" using pi by auto
    moreover have "take (Suc n) (hp s) = take n (hp s) @ [e]"
      using n i by (simp add: take_Suc_conv_app_nth)
    moreover have "hp s ! j \<noteq> e" if "j < n" for j
      using nth_eq_iff_index_eq [OF dist, of j n] that n i by auto
    ultimately show ?thesis using s' inv n hu
      by (auto simp: min_heap_inv_def heap_elems_def intro: heap_upto_le)
  qed
  with s' show "r = 0" "min_heap_inv tmo s'" "heap_elems s' = heap_elems s - {#e#}"
    "hidx s' e = EV_SIZE_MAX" by auto
qed

lemma min_heap_erase_absent: "hidx s e = EV_SIZE_MAX \<Longrightarrow> min_heap_erase tmo s e = (-1, s)"
  by (simp add: min_heap_erase_def)

text \<open>Popping is erasing the top.\<close>

lemma min_heap_pop_erase:
  assumes "min_heap_inv tmo s" "hn s \<noteq> 0"
  shows "min_heap_pop tmo s = (Some (hp s ! 0), snd (min_heap_erase tmo s (hp s ! 0)))"
proof -
  have "hidx s (hp s ! 0) = 0" using assms by (simp add: min_heap_inv_def)
  then show ?thesis using assms(2)
    by (auto simp: min_heap_pop_def min_heap_erase_def EV_SIZE_MAX_def Let_def split: prod.splits)
qed

lemma min_heap_pop_ok:
  assumes inv: "min_heap_inv tmo s" and r: "min_heap_pop tmo s = (Some e, s')"
  shows "min_heap_top s = Some e" "min_heap_inv tmo s'" "heap_elems s' = heap_elems s - {#e#}"
proof -
  have n: "hn s \<noteq> 0" using r by (auto simp: min_heap_pop_def split: if_splits)
  note pe = min_heap_pop_erase [OF inv n]
  with r n show t: "min_heap_top s = Some e" by (auto simp: min_heap_top_def)
  obtain r' where "min_heap_erase tmo s e = (r', s')"
    using pe r by (cases "min_heap_erase tmo s (hp s ! 0)") auto
  from min_heap_erase_ok [OF inv min_heap_top_least(1) [OF inv t] this]
  show "min_heap_inv tmo s'" "heap_elems s' = heap_elems s - {#e#}" by auto
qed

lemma min_heap_adjust_ok:
  assumes inv: "min_heap_inv tmo s" and mem: "e \<in># heap_elems s"
    and r: "min_heap_adjust ok (tmo(e := t)) s e = (r, s')"
  shows "r = 0" "min_heap_inv (tmo(e := t)) s'" "heap_elems s' = heap_elems s"
proof -
  note ix = heap_member_index [OF inv mem]
  define i where "i = hidx s e"
  let ?k = "tmo(e := t)" and ?n = "hn s"
  have i: "i < ?n" "hp s ! i = e" "?n \<le> length (hp s)" using ix inv by (auto simp: i_def min_heap_inv_def)
  then have same: "(hp s)[i := e] = hp s" by (metis list_update_id)
  have dist: "distinct (take ?n (hp s))" and hu: "heap_upto tmo (hp s) ?n"
    using inv by (simp_all add: min_heap_inv_def)
  have oth: "?k (hp s ! j) = tmo (hp s ! j)" if "j < ?n" "j \<noteq> i" for j
    using nth_eq_iff_index_eq [OF dist, of j i] that i by auto
  let ?up = "i > 0 \<and> min_heap_elem_greater ?k (hp s ! par i) e"
  define pr where "pr = (if ?up then min_heap_shift_up_unconditional ?k (hp s) (hidx s) i e
     else min_heap_shift_down ?k ?n (hp s) (hidx s) i e)"
  obtain p idx where pi: "pr = (p, idx)" by fastforce
  have "min_heap_adjust ok ?k s e = (case pr of (p, idx) \<Rightarrow> (0, s\<lparr>hp := p, hidx := idx\<rparr>))"
    using ix(3) unfolding min_heap_adjust_def pr_def i_def Let_def
    by (subst if_not_P) (simp_all only: eq_commute not_False_eq_True)
  with r pi have s': "r = 0 \<and> s' = \<lparr>hp = p, hn = ?n, ha = ha s, hidx = idx\<rparr>" by auto
  have ib: "index_but (hidx s) (hp s) ?n i" using heap_inv_index_but [OF inv] .
  have "sifted ?k ?n (hp s) (hidx s) pr"
  proof (cases ?up)
    case True
    then have "0 < i" "?k (hp s ! i) < ?k (hp s ! par i)"
      unfolding min_heap_elem_greater_def timercmp_order i(2) by blast+
    from heap_rekey_up [OF hu this(1) i(1) oth this(2)] have "heap_except_up ?k (hp s) ?n i" .
    then show ?thesis using shift_up_sifted [of ?k "hp s" i e ?n "hidx s"] same ib dist i True
      by (simp add: pr_def shift_up_unconditional_eq)
  next
    case False
    then have "0 < i \<Longrightarrow> ?k (hp s ! par i) \<le> ?k (hp s ! i)"
      unfolding min_heap_elem_greater_def timercmp_order i(2) not_less [symmetric] by blast
    from heap_rekey_down [OF hu i(1) oth this] have "heap_except_down ?k (hp s) ?n i" .
    then show ?thesis using shift_down_sifted [of ?k "hp s" i e ?n "hidx s"] same ib dist i False
      by (auto simp: pr_def)
  qed
  from min_heap_invI [OF this [unfolded pi] dist, of "ha s"] s' inv
  show "r = 0" "min_heap_inv ?k s'" "heap_elems s' = heap_elems s"
    by (auto simp: min_heap_inv_def heap_elems_def)
qed

text \<open>The heap keeps the promises of a timer queue.\<close>

interpretation mh: timer_queue "min_heap_inv tmo" heap_elems tmo min_heap_top
  "\<lambda>s. snd (min_heap_pop tmo s)" for tmo
proof
  fix q e x
  assume inv: "min_heap_inv tmo q"
  show "(min_heap_top q = None) = (heap_elems q = {#})" using min_heap_top_None [OF inv] .
  assume t: "min_heap_top q = Some e"
  note tl = min_heap_top_least [OF inv t]
  show "e \<in># heap_elems q" using tl(1) .
  show "tmo e \<le> tmo x" if "x \<in># heap_elems q" using tl(2) that .
  obtain y q' where "min_heap_pop tmo q = (Some y, q')"
    using min_heap_pop_erase [OF inv] t by (auto simp: min_heap_top_def split: if_splits)
  note this min_heap_pop_ok [OF inv this]
  then show "heap_elems (snd (min_heap_pop tmo q)) = heap_elems q - {#e#}"
    "min_heap_inv tmo (snd (min_heap_pop tmo q))" using t by auto
qed

section \<open>Properties\<close>

text \<open>A heap of two events, in which event 1 is due after 1 second and event 2 after 2.\<close>

definition sample_tmo :: "ev_ptr \<Rightarrow> timeval" where
  "sample_tmo e = Timeval (int e) 0"

definition sample_heap :: min_heap where
  "sample_heap = \<lparr>hp = [1, 2], hn = 2, ha = 2,
     hidx = (\<lambda>e. if e = 1 then 0 else if e = 2 then 1 else EV_SIZE_MAX)\<rparr>"

lemma sample_heap_inv: "min_heap_inv sample_tmo sample_heap"
  by (auto simp: min_heap_inv_def sample_heap_def heap_upto_def par_def less_2_cases_iff
      sample_tmo_def less_eq_timeval_def evutil_timercmp_le_def)

lemma sample_heap_elems: "heap_elems sample_heap = {#1, 2#}"
  by (simp add: heap_elems_def sample_heap_def)

text \<open>
  Pushing an event: either it is in the heap afterwards together with the old events and the
  heap order and the index fields are right, or the allocator refused, the result is -1 and the
  heap is unchanged.
\<close>

theorem min_heap_push_inserts:
  assumes "min_heap_inv tmo s" "ha s < 2 ^ 59" "e \<notin># heap_elems s" "min_heap_push ok tmo s e = (r, s')"
  shows "if r = 0 then min_heap_inv tmo s' \<and> heap_elems s' = add_mset e (heap_elems s)
    else r = -1 \<and> s' = s \<and> (\<exists>n. \<not> ok n)"
proof (cases "r = 0")
  case True
  then show ?thesis using min_heap_push_ok [OF assms(1-3)] assms(4) by simp
next
  case False
  then have "r = -1 \<and> (\<exists>n. \<not> ok n)" using assms(4)
    by (auto simp: min_heap_push_def min_heap_reserve_def Let_def split: if_splits prod.splits)
  then show ?thesis using min_heap_push_fail [of ok tmo s e] assms(4) by simp
qed

theorem min_heap_push_inserts_witness:
  "min_heap_inv sample_tmo (snd (min_heap_push (\<lambda>_. True) sample_tmo sample_heap 3)) \<and>
   heap_elems (snd (min_heap_push (\<lambda>_. True) sample_tmo sample_heap 3)) = {#1, 2, 3#}"
proof -
  obtain r s' where p: "min_heap_push (\<lambda>_. True) sample_tmo sample_heap 3 = (r, s')" by fastforce
  have "ha sample_heap < 2 ^ 59" "3 \<notin># heap_elems sample_heap"
    by (simp add: sample_heap_def, simp add: sample_heap_elems)
  from min_heap_push_inserts [OF sample_heap_inv this p] p show ?thesis
    by (auto simp: sample_heap_elems add_mset_commute split: if_splits)
qed

text \<open>
  C1. Erasing an event that is in the heap, wherever it stands in the array, removes exactly this
  event, keeps the heap order and the index fields and marks the event as not in the heap.
\<close>

theorem min_heap_erase_removes:
  assumes "min_heap_inv tmo s" "e \<in># heap_elems s"
  shows "\<exists>s'. min_heap_erase tmo s e = (0, s') \<and> min_heap_inv tmo s' \<and>
    heap_elems s' = heap_elems s - {#e#} \<and> hidx s' e = EV_SIZE_MAX"
  using min_heap_erase_ok [OF assms] by (cases "min_heap_erase tmo s e") blast

theorem min_heap_erase_removes_witness:
  "\<exists>s'. min_heap_erase sample_tmo sample_heap 1 = (0, s') \<and> min_heap_inv sample_tmo s' \<and>
    heap_elems s' = {#2#} \<and> hidx s' 1 = EV_SIZE_MAX"
  using min_heap_erase_removes [OF sample_heap_inv, of 1] by (simp add: sample_heap_elems)

text \<open>
  After the timeout of an event in the heap has been changed, adjusting the heap restores the
  heap order for the new timeout, without allocating, with the same events.
\<close>

theorem min_heap_adjust_restores:
  assumes "min_heap_inv tmo s" "e \<in># heap_elems s"
  shows "\<exists>s'. min_heap_adjust ok (tmo(e := t)) s e = (0, s') \<and> min_heap_inv (tmo(e := t)) s' \<and>
    heap_elems s' = heap_elems s"
  using min_heap_adjust_ok [OF assms] by (cases "min_heap_adjust ok (tmo(e := t)) s e") blast

theorem min_heap_adjust_restores_witness:
  "\<exists>s'. min_heap_adjust (\<lambda>_. False) (sample_tmo(1 := Timeval 5 0)) sample_heap 1 = (0, s') \<and>
    min_heap_inv (sample_tmo(1 := Timeval 5 0)) s' \<and> heap_elems s' = {#1, 2#}"
  using min_heap_adjust_restores [OF sample_heap_inv, of 1 "\<lambda>_. False" "Timeval 5 0"]
  by (simp add: sample_heap_elems)

text \<open>
  C2. Taking events off the heap while the top one is due delivers exactly the due events, each
  once, in the order of their timeouts, and leaves the others.
\<close>

theorem min_heap_drains_due:
  assumes "min_heap_inv tmo s"
    "drain min_heap_top (\<lambda>s. snd (min_heap_pop tmo s)) (\<lambda>e. tmo e \<le> now) (size (heap_elems s)) s = (es, s')"
  shows "min_heap_inv tmo s' \<and> mset es = filter_mset (\<lambda>e. tmo e \<le> now) (heap_elems s) \<and>
    heap_elems s' = filter_mset (\<lambda>e. \<not> tmo e \<le> now) (heap_elems s) \<and> sorted (map tmo es)"
  using mh.drain_due [OF assms(1) order_refl assms(2)] .

theorem min_heap_drains_due_witness:
  "\<exists>es s'. drain min_heap_top (\<lambda>s. snd (min_heap_pop sample_tmo s)) (\<lambda>e. sample_tmo e \<le> Timeval 1 0) 2
      sample_heap = (es, s') \<and> mset es = {#1#} \<and> heap_elems s' = {#2#}"
proof -
  obtain es s' where e: "drain min_heap_top (\<lambda>s. snd (min_heap_pop sample_tmo s))
      (\<lambda>e. sample_tmo e \<le> Timeval 1 0) 2 sample_heap = (es, s')" by fastforce
  then have "drain min_heap_top (\<lambda>s. snd (min_heap_pop sample_tmo s))
      (\<lambda>e. sample_tmo e \<le> Timeval 1 0) (size (heap_elems sample_heap)) sample_heap = (es, s')"
    unfolding sample_heap_elems by (simp only: size_add_mset size_empty numeral_2_eq_2)
  from min_heap_drains_due [OF sample_heap_inv this] e show ?thesis
    by (auto simp: sample_heap_elems sample_tmo_def less_eq_timeval_def evutil_timercmp_le_def)
qed

end
