(* ===== verification/Event_Base.thy ===== *)
theory Event_Base
  imports Evmap Min_Heap
begin

text \<open>
  The event base of \<^verbatim>\<open>src/event.c\<close>: its state, the clock, the queues, adding, deleting and activating
  events. The base runs in one thread: locks, condition variables and the notification of another
  thread are left out. A tail queue is the list of its elements, the array of active queues the list
  of the queues. \<open>clock\<close> gives the readings of the monotonic clock, in order; \<open>tick\<close> counts the
  readings made. The results are \<open>Aborted\<close> where \<^verbatim>\<open>EVUTIL_ASSERT\<close> or \<^verbatim>\<open>event_errx\<close> ends the process.
\<close>

section \<open>State\<close>

record common_timeout_list =
  ct_events :: "nat list"
  duration :: timeval
  timeout_event :: nat

record 'k event_base = "'k evmap_base" +
  timeheap :: min_heap
  activequeues :: "nat list list"
  active_later_queue :: "nat list"
  virtual_event_count :: int
  virtual_event_count_max :: int
  event_count :: int
  event_count_max :: int
  event_count_active :: int
  event_count_active_max :: int
  event_gotterm :: bool
  event_break :: bool
  event_continue :: bool
  event_running_priority :: int
  running_loop :: bool
  n_deferreds_queued :: int
  common_timeout_queues :: "common_timeout_list list"
  n_common_timeouts_allocated :: nat
  tv_cache :: timeval
  no_cache_time :: bool
  clock :: "nat \<Rightarrow> timeval"
  tick :: nat
  current_event :: "nat option"
  sig_ncalls :: nat
  max_dispatch_time :: timeval
  max_dispatch_callbacks :: int
  limit_callbacks_after_prio :: int

text \<open>
  What the operations call: the two backends, the allocator, whether debug mode is on, and
  \<^verbatim>\<open>evsig_set_base_\<close> with the condition under which the loop calls it, which is a condition on the
  state of the signal backend (\<open>evsig_loop_base\<close> in \<open>Evsig\<close>).
\<close>

record 'k base_env =
  evsel :: "'k eventop_ops"
  evsigsel :: "'k eventop_ops"
  alloc_ok :: "nat \<Rightarrow> bool"
  debug_mode :: bool
  sig_set_base :: "'k \<Rightarrow> 'k"

definition upd_event :: "nat \<Rightarrow> (event \<Rightarrow> event) \<Rightarrow> 'k event_base \<Rightarrow> 'k event_base" where
  "upd_event a f b = b\<lparr>evs := (evs b)(a := f (evs b a))\<rparr>"

definition set_flag :: "u16 \<Rightarrow> event \<Rightarrow> event" where
  "set_flag m e = e\<lparr>evcb_flags := evcb_flags e OR m\<rparr>"

definition clear_flag :: "u16 \<Rightarrow> event \<Rightarrow> event" where
  "clear_flag m e = e\<lparr>evcb_flags := evcb_flags e AND NOT m\<rparr>"

definition flag :: "'k event_base \<Rightarrow> nat \<Rightarrow> u16 \<Rightarrow> bool" where
  "flag b a m \<longleftrightarrow> has (evcb_flags (evs b a)) m"

definition tmo :: "'k event_base \<Rightarrow> nat \<Rightarrow> timeval" where
  "tmo b a = ev_timeout (evs b a)"

section \<open>Time\<close>

definition gettime :: "'k event_base \<Rightarrow> timeval \<times> 'k event_base" where
  "gettime b = (if tv_sec (tv_cache b) \<noteq> 0 then (tv_cache b, b) else (clock b (tick b), b\<lparr>tick := tick b + 1\<rparr>))"

definition clear_time_cache :: "'k event_base \<Rightarrow> 'k event_base" where
  "clear_time_cache b = b\<lparr>tv_cache := Timeval 0 (tv_usec (tv_cache b))\<rparr>"

definition update_time_cache :: "'k event_base \<Rightarrow> 'k event_base" where
  "update_time_cache b =
     (let b1 = clear_time_cache b in
      if no_cache_time b then b1 else (let (now, b2) = gettime b1 in b2\<lparr>tv_cache := now\<rparr>))"

definition event_base_update_cache_time :: "'k event_base \<Rightarrow> 'k event_base" where
  "event_base_update_cache_time b = (if running_loop b then update_time_cache b else b)"

section \<open>Common timeouts\<close>

definition MICROSECONDS_MASK :: int where "MICROSECONDS_MASK = 0xfffff"
definition COMMON_TIMEOUT_IDX_MASK :: int where "COMMON_TIMEOUT_IDX_MASK = 0x0ff00000"
definition COMMON_TIMEOUT_IDX_SHIFT :: nat where "COMMON_TIMEOUT_IDX_SHIFT = 20"
definition COMMON_TIMEOUT_MASK :: int where "COMMON_TIMEOUT_MASK = 0xf0000000"
definition COMMON_TIMEOUT_MAGIC :: int where "COMMON_TIMEOUT_MAGIC = 0x50000000"
definition MAX_COMMON_TIMEOUTS :: nat where "MAX_COMMON_TIMEOUTS = 256"

definition COMMON_TIMEOUT_IDX :: "timeval \<Rightarrow> nat" where
  "COMMON_TIMEOUT_IDX tv = nat (drop_bit COMMON_TIMEOUT_IDX_SHIFT (tv_usec tv AND COMMON_TIMEOUT_IDX_MASK))"

definition is_common_timeout :: "timeval \<Rightarrow> 'k event_base \<Rightarrow> bool" where
  "is_common_timeout tv b \<longleftrightarrow> tv_usec tv AND COMMON_TIMEOUT_MASK = COMMON_TIMEOUT_MAGIC \<and>
     COMMON_TIMEOUT_IDX tv < length (common_timeout_queues b)"

definition is_same_common_timeout :: "timeval \<Rightarrow> timeval \<Rightarrow> bool" where
  "is_same_common_timeout tv1 tv2 \<longleftrightarrow> tv_usec tv1 AND NOT MICROSECONDS_MASK = tv_usec tv2 AND NOT MICROSECONDS_MASK"

definition mask_usec :: "timeval \<Rightarrow> timeval" where
  "mask_usec tv = Timeval (tv_sec tv) (tv_usec tv AND MICROSECONDS_MASK)"

definition upd_common :: "nat \<Rightarrow> (nat list \<Rightarrow> nat list) \<Rightarrow> 'k event_base \<Rightarrow> 'k event_base" where
  "upd_common i f b =
     (let ctl = common_timeout_queues b ! i in
      b\<lparr>common_timeout_queues := (common_timeout_queues b)[i := ctl\<lparr>ct_events := f (ct_events ctl)\<rparr>]\<rparr>)"

text \<open>
  The search from the end of the list for the last event that is not later than \<open>ev\<close>: the reversed
  list is split at the insertion point. None where the assertion on the magic values fails.
\<close>

fun insert_inorder_rev :: "(nat \<Rightarrow> timeval) \<Rightarrow> nat \<Rightarrow> nat list \<Rightarrow> nat list option" where
  "insert_inorder_rev t ev [] = Some [ev]"
| "insert_inorder_rev t ev (e # es) =
     (if \<not> is_same_common_timeout (t e) (t ev) then None
      else if evutil_timercmp_ge (t ev) (t e) then Some (ev # e # es)
      else map_option (Cons e) (insert_inorder_rev t ev es))"

definition insert_common_timeout_inorder :: "nat \<Rightarrow> nat \<Rightarrow> 'k event_base \<Rightarrow> 'k event_base outcome" where
  "insert_common_timeout_inorder i ev b =
     (case insert_inorder_rev (tmo b) ev (rev (ct_events (common_timeout_queues b ! i))) of
        None \<Rightarrow> Aborted | Some es \<Rightarrow> Done (upd_common i (\<lambda>_. rev es) b))"

section \<open>Queues\<close>

definition DECR_EVENT_COUNT :: "u16 \<Rightarrow> 'k event_base \<Rightarrow> 'k event_base" where
  "DECR_EVENT_COUNT fl b = b\<lparr>event_count := event_count b - (if has fl EVLIST_INTERNAL then 0 else 1)\<rparr>"

definition INCR_EVENT_COUNT :: "u16 \<Rightarrow> 'k event_base \<Rightarrow> 'k event_base" where
  "INCR_EVENT_COUNT fl b =
     (let n = event_count b + (if has fl EVLIST_INTERNAL then 0 else 1) in
      b\<lparr>event_count := n, event_count_max := max (event_count_max b) n\<rparr>)"

definition event_queue_remove_inserted :: "nat \<Rightarrow> 'k event_base \<Rightarrow> 'k event_base outcome" where
  "event_queue_remove_inserted ev b =
     (if \<not> flag b ev EVLIST_INSERTED then Aborted
      else Done (upd_event ev (clear_flag EVLIST_INSERTED) (DECR_EVENT_COUNT (evcb_flags (evs b ev)) b)))"

definition remove_from_active :: "nat \<Rightarrow> 'k event_base \<Rightarrow> 'k event_base" where
  "remove_from_active ev b =
     (let i = evcb_pri (evs b ev) in b\<lparr>activequeues := (activequeues b)[i := remove1 ev (activequeues b ! i)]\<rparr>)"

definition event_queue_remove_active :: "nat \<Rightarrow> 'k event_base \<Rightarrow> 'k event_base outcome" where
  "event_queue_remove_active ev b =
     (if \<not> flag b ev EVLIST_ACTIVE then Aborted
      else
        (let b1 = upd_event ev (clear_flag EVLIST_ACTIVE) (DECR_EVENT_COUNT (evcb_flags (evs b ev)) b);
             b2 = b1\<lparr>event_count_active := event_count_active b1 - 1\<rparr>
         in Done (remove_from_active ev b2)))"

definition event_queue_remove_active_later :: "nat \<Rightarrow> 'k event_base \<Rightarrow> 'k event_base outcome" where
  "event_queue_remove_active_later ev b =
     (if \<not> flag b ev EVLIST_ACTIVE_LATER then Aborted
      else
        (let b1 = upd_event ev (clear_flag EVLIST_ACTIVE_LATER) (DECR_EVENT_COUNT (evcb_flags (evs b ev)) b);
             b2 = b1\<lparr>event_count_active := event_count_active b1 - 1\<rparr>
         in Done (b2\<lparr>active_later_queue := remove1 ev (active_later_queue b2)\<rparr>)))"

definition event_queue_remove_timeout :: "nat \<Rightarrow> 'k event_base \<Rightarrow> 'k event_base outcome" where
  "event_queue_remove_timeout ev b =
     (if \<not> flag b ev EVLIST_TIMEOUT then Aborted
      else
        (let b1 = upd_event ev (clear_flag EVLIST_TIMEOUT) (DECR_EVENT_COUNT (evcb_flags (evs b ev)) b)
         in if is_common_timeout (tmo b ev) b then Done (upd_common (COMMON_TIMEOUT_IDX (tmo b ev)) (remove1 ev) b1)
            else Done (b1\<lparr>timeheap := snd (min_heap_erase (tmo b1) (timeheap b1) ev)\<rparr>)))"

definition event_queue_insert_inserted :: "nat \<Rightarrow> 'k event_base \<Rightarrow> 'k event_base outcome" where
  "event_queue_insert_inserted ev b =
     (if flag b ev EVLIST_INSERTED then Aborted
      else Done (upd_event ev (set_flag EVLIST_INSERTED) (INCR_EVENT_COUNT (evcb_flags (evs b ev)) b)))"

definition incr_active_count :: "'k event_base \<Rightarrow> 'k event_base" where
  "incr_active_count b =
     b\<lparr>event_count_active := event_count_active b + 1,
       event_count_active_max := max (event_count_active_max b) (event_count_active b + 1)\<rparr>"

definition append_active :: "nat \<Rightarrow> 'k event_base \<Rightarrow> 'k event_base" where
  "append_active ev b =
     (let i = evcb_pri (evs b ev) in b\<lparr>activequeues := (activequeues b)[i := activequeues b ! i @ [ev]]\<rparr>)"

definition event_queue_insert_active :: "nat \<Rightarrow> 'k event_base \<Rightarrow> 'k event_base outcome" where
  "event_queue_insert_active ev b =
     (if flag b ev EVLIST_ACTIVE then Done b
      else
        (let b1 = incr_active_count (upd_event ev (set_flag EVLIST_ACTIVE) (INCR_EVENT_COUNT (evcb_flags (evs b ev)) b))
         in if evcb_pri (evs b1 ev) < length (activequeues b1) then Done (append_active ev b1) else Aborted))"

definition event_queue_insert_active_later :: "nat \<Rightarrow> 'k event_base \<Rightarrow> 'k event_base outcome" where
  "event_queue_insert_active_later ev b =
     (if flag b ev EVLIST_ACTIVE_LATER \<or> flag b ev EVLIST_ACTIVE then Done b
      else
        (let b1 = incr_active_count (upd_event ev (set_flag EVLIST_ACTIVE_LATER) (INCR_EVENT_COUNT (evcb_flags (evs b ev)) b))
         in if evcb_pri (evs b1 ev) < length (activequeues b1)
            then Done (b1\<lparr>active_later_queue := active_later_queue b1 @ [ev]\<rparr>) else Aborted))"

definition event_queue_insert_timeout :: "(nat \<Rightarrow> bool) \<Rightarrow> nat \<Rightarrow> 'k event_base \<Rightarrow> 'k event_base outcome" where
  "event_queue_insert_timeout ok ev b =
     (if flag b ev EVLIST_TIMEOUT then Aborted
      else
        (let b1 = upd_event ev (set_flag EVLIST_TIMEOUT) (INCR_EVENT_COUNT (evcb_flags (evs b ev)) b)
         in if is_common_timeout (tmo b ev) b then insert_common_timeout_inorder (COMMON_TIMEOUT_IDX (tmo b ev)) ev b1
            else Done (b1\<lparr>timeheap := snd (min_heap_push ok (tmo b1) (timeheap b1) ev)\<rparr>)))"

text \<open>One turn of the loop for every element of the queue, first element first.\<close>

fun make_later_active :: "nat list \<Rightarrow> 'k event_base \<Rightarrow> 'k event_base outcome" where
  "make_later_active [] b = Done b"
| "make_later_active (ev # evs') b =
     (let b1 = b\<lparr>active_later_queue := evs'\<rparr>;
          b2 = upd_event ev (\<lambda>e. set_flag EVLIST_ACTIVE (clear_flag EVLIST_ACTIVE_LATER e)) b1
      in if evcb_pri (evs b2 ev) < length (activequeues b2) then
           make_later_active evs'
             (let b3 = append_active ev b2 in
              b3\<lparr>n_deferreds_queued := n_deferreds_queued b3 + (if evcb_closure (evs b3 ev) = EV_CLOSURE_CB_SELF then 1 else 0)\<rparr>)
         else Aborted)"

definition event_queue_make_later_events_active :: "'k event_base \<Rightarrow> 'k event_base outcome" where
  "event_queue_make_later_events_active b = make_later_active (active_later_queue b) b"

section \<open>Setting up\<close>

definition event_assign :: "nat \<Rightarrow> int \<Rightarrow> u16 \<Rightarrow> 'k event_base \<Rightarrow> int \<times> 'k event_base" where
  "event_assign ev fd events b =
     (let b1 = upd_event ev (\<lambda>e. e\<lparr>ev_fd := fd, ev_events := events, ev_res := 0, evcb_flags := EVLIST_INIT,
                                 ev_ncalls := 0, ev_pncalls := False\<rparr>) b
      in if has events EV_SIGNAL \<and> events AND IO_EVENTS \<noteq> 0 then (-1, b1)
         else
           (let b2 = upd_event ev (\<lambda>e.
                       if has events EV_SIGNAL then e\<lparr>evcb_closure := EV_CLOSURE_EVENT_SIGNAL\<rparr>
                       else if has events EV_PERSIST
                       then e\<lparr>ev_io_timeout := evutil_timerclear, evcb_closure := EV_CLOSURE_EVENT_PERSIST\<rparr>
                       else e\<lparr>evcb_closure := EV_CLOSURE_EVENT\<rparr>) b1;
                b3 = b2\<lparr>timeheap := min_heap_elem_init (timeheap b2) ev\<rparr>
            in (0, upd_event ev (\<lambda>e. e\<lparr>evcb_pri := length (activequeues b3) div 2\<rparr>) b3)))"

definition event_priority_set :: "nat \<Rightarrow> int \<Rightarrow> 'k event_base \<Rightarrow> int \<times> 'k event_base" where
  "event_priority_set ev pri b =
     (if flag b ev EVLIST_ACTIVE then (-1, b)
      else if pri < 0 \<or> pri \<ge> int (length (activequeues b)) then (-1, b)
      else (0, upd_event ev (\<lambda>e. e\<lparr>evcb_pri := nat pri\<rparr>) b))"

text \<open>The flags returned by \<^verbatim>\<open>event_pending\<close>.\<close>

definition event_pending :: "nat \<Rightarrow> u16 \<Rightarrow> 'k event_base \<Rightarrow> u16" where
  "event_pending ev event b =
     (let e = evs b ev;
          fl = (if flag b ev EVLIST_INSERTED then ev_events e AND (IO_EVENTS OR EV_SIGNAL) else 0) OR
               (if flag b ev EVLIST_ACTIVE \<or> flag b ev EVLIST_ACTIVE_LATER then ev_res e else 0) OR
               (if flag b ev EVLIST_TIMEOUT then EV_TIMEOUT else 0)
      in fl AND (event AND (EV_TIMEOUT OR IO_EVENTS OR EV_SIGNAL)))"

definition EVENT_MAX_PRIORITIES :: int where "EVENT_MAX_PRIORITIES = 256"

definition event_base_priority_init :: "(nat \<Rightarrow> bool) \<Rightarrow> int \<Rightarrow> 'k event_base \<Rightarrow> int \<times> 'k event_base" where
  "event_base_priority_init ok npriorities b =
     (if event_count_active b \<noteq> 0 \<or> npriorities < 1 \<or> npriorities \<ge> EVENT_MAX_PRIORITIES then (-1, b)
      else if npriorities = int (length (activequeues b)) then (0, b)
      else if \<not> ok (nat npriorities * 16) then (-1, b\<lparr>activequeues := []\<rparr>)
      else (0, b\<lparr>activequeues := replicate (nat npriorities) []\<rparr>))"

definition event_haveevents :: "'k event_base \<Rightarrow> bool" where
  "event_haveevents b \<longleftrightarrow> virtual_event_count b > 0 \<or> event_count b > 0"

definition event_base_add_virtual :: "'k event_base \<Rightarrow> 'k event_base" where
  "event_base_add_virtual b =
     b\<lparr>virtual_event_count := virtual_event_count b + 1,
       virtual_event_count_max := max (virtual_event_count_max b) (virtual_event_count b + 1)\<rparr>"

definition event_base_del_virtual :: "'k event_base \<Rightarrow> 'k event_base outcome" where
  "event_base_del_virtual b =
     (if virtual_event_count b > 0 then Done (b\<lparr>virtual_event_count := virtual_event_count b - 1\<rparr>) else Aborted)"

section \<open>Deleting\<close>

datatype del_blocking = EVENT_DEL_NOBLOCK | EVENT_DEL_BLOCK | EVENT_DEL_AUTOBLOCK | EVENT_DEL_EVEN_IF_FINALIZING

text \<open>Stop the loop of \<^verbatim>\<open>event_signal_closure\<close> when it runs for this event.\<close>

definition abort_signal_loop :: "nat \<Rightarrow> 'k event_base \<Rightarrow> 'k event_base" where
  "abort_signal_loop ev b =
     (if has (ev_events (evs b ev)) EV_SIGNAL \<and> ev_ncalls (evs b ev) \<noteq> 0 \<and> ev_pncalls (evs b ev)
      then b\<lparr>sig_ncalls := 0\<rparr> else b)"

definition event_del_timeout :: "nat \<Rightarrow> 'k event_base \<Rightarrow> 'k event_base outcome" where
  "event_del_timeout ev b = (if flag b ev EVLIST_TIMEOUT then event_queue_remove_timeout ev b else Done b)"

definition event_del_active :: "nat \<Rightarrow> 'k event_base \<Rightarrow> 'k event_base outcome" where
  "event_del_active ev b =
     (if flag b ev EVLIST_ACTIVE then event_queue_remove_active ev b
      else if flag b ev EVLIST_ACTIVE_LATER then event_queue_remove_active_later ev b else Done b)"

definition event_del_inserted :: "'k base_env \<Rightarrow> nat \<Rightarrow> 'k event_base \<Rightarrow> (int \<times> 'k event_base) outcome" where
  "event_del_inserted E ev b =
     (if flag b ev EVLIST_INSERTED then
        bind_outcome (event_queue_remove_inserted ev b) (\<lambda>b1.
          bind_outcome
            (if ev_events (evs b1 ev) AND IO_EVENTS \<noteq> 0 then evmap_io_del (evsel E) b1 (ev_fd (evs b1 ev)) ev
             else evmap_signal_del (evsigsel E) b1 (ev_fd (evs b1 ev)) ev)
            (\<lambda>(res, b2). Done (if res = 1 then 0 else res, b2)))
      else Done (0, b))"

definition event_del_nolock :: "'k base_env \<Rightarrow> nat \<Rightarrow> del_blocking \<Rightarrow> 'k event_base \<Rightarrow> (int \<times> 'k event_base) outcome" where
  "event_del_nolock E ev blocking b =
     (if blocking \<noteq> EVENT_DEL_EVEN_IF_FINALIZING \<and> flag b ev EVLIST_FINALIZING then Done (0, b)
      else if evcb_flags (evs b ev) AND NOT EVLIST_ALL \<noteq> 0 then Aborted
      else bind_outcome (event_del_timeout ev (abort_signal_loop ev b)) (\<lambda>b1.
             bind_outcome (event_del_active ev b1) (event_del_inserted E ev)))"

definition event_del :: "'k base_env \<Rightarrow> nat \<Rightarrow> 'k event_base \<Rightarrow> (int \<times> 'k event_base) outcome" where
  "event_del E ev b = event_del_nolock E ev EVENT_DEL_AUTOBLOCK b"

definition event_remove_timer_nolock :: "nat \<Rightarrow> 'k event_base \<Rightarrow> (int \<times> 'k event_base) outcome" where
  "event_remove_timer_nolock ev b =
     (if flag b ev EVLIST_TIMEOUT then
        bind_outcome (event_queue_remove_timeout ev b)
          (\<lambda>b1. Done (0, upd_event ev (\<lambda>e. e\<lparr>ev_io_timeout := evutil_timerclear\<rparr>) b1))
      else Done (0, b))"

section \<open>Activating\<close>

definition event_callback_activate_nolock :: "nat \<Rightarrow> 'k event_base \<Rightarrow> (int \<times> 'k event_base) outcome" where
  "event_callback_activate_nolock ev b =
     (if flag b ev EVLIST_FINALIZING then Done (0, b)
      else case (flag b ev EVLIST_ACTIVE, flag b ev EVLIST_ACTIVE_LATER) of
        (True, True) \<Rightarrow> Aborted
      | (False, True) \<Rightarrow>
          bind_outcome (event_queue_remove_active_later ev b) (\<lambda>b1.
            bind_outcome (event_queue_insert_active ev b1) (\<lambda>b2. Done (0, b2)))
      | (True, False) \<Rightarrow> Done (0, b)
      | (False, False) \<Rightarrow> bind_outcome (event_queue_insert_active ev b) (\<lambda>b1. Done (1, b1)))"

definition event_callback_activate_later_nolock :: "nat \<Rightarrow> 'k event_base \<Rightarrow> (int \<times> 'k event_base) outcome" where
  "event_callback_activate_later_nolock ev b =
     (if flag b ev EVLIST_ACTIVE \<or> flag b ev EVLIST_ACTIVE_LATER then Done (0, b)
      else bind_outcome (event_queue_insert_active_later ev b) (\<lambda>b1. Done (1, b1)))"

definition event_active_nolock :: "nat \<Rightarrow> u16 \<Rightarrow> nat \<Rightarrow> 'k event_base \<Rightarrow> 'k event_base outcome" where
  "event_active_nolock ev res ncalls b =
     (if flag b ev EVLIST_FINALIZING then Done b
      else if flag b ev EVLIST_ACTIVE \<and> flag b ev EVLIST_ACTIVE_LATER then Aborted
      else if flag b ev EVLIST_ACTIVE then Done (upd_event ev (\<lambda>e. e\<lparr>ev_res := ev_res e OR res\<rparr>) b)
      else
        (let b1 = upd_event ev (\<lambda>e. e\<lparr>ev_res := if flag b ev EVLIST_ACTIVE_LATER then ev_res e OR res else res\<rparr>) b;
             b2 = (if int (evcb_pri (evs b1 ev)) < event_running_priority b1 then b1\<lparr>event_continue := True\<rparr> else b1);
             b3 = (if has (ev_events (evs b2 ev)) EV_SIGNAL
                   then upd_event ev (\<lambda>e. e\<lparr>ev_ncalls := ncalls mod 2 ^ 16, ev_pncalls := False\<rparr>) b2 else b2)
         in bind_outcome (event_callback_activate_nolock ev b3) (\<lambda>(r, b4). Done b4)))"

definition event_active_later_nolock :: "nat \<Rightarrow> u16 \<Rightarrow> 'k event_base \<Rightarrow> 'k event_base outcome" where
  "event_active_later_nolock ev res b =
     (if flag b ev EVLIST_ACTIVE \<or> flag b ev EVLIST_ACTIVE_LATER then Done (upd_event ev (\<lambda>e. e\<lparr>ev_res := ev_res e OR res\<rparr>) b)
      else bind_outcome (event_callback_activate_later_nolock ev (upd_event ev (\<lambda>e. e\<lparr>ev_res := res\<rparr>) b)) (\<lambda>(r, b1). Done b1))"

definition event_callback_cancel_nolock :: "'k base_env \<Rightarrow> nat \<Rightarrow> bool \<Rightarrow> 'k event_base \<Rightarrow> (int \<times> 'k event_base) outcome" where
  "event_callback_cancel_nolock E ev even_if_finalizing b =
     (if flag b ev EVLIST_FINALIZING \<and> \<not> even_if_finalizing then Done (0, b)
      else if flag b ev EVLIST_INIT then
        event_del_nolock E ev (if even_if_finalizing then EVENT_DEL_EVEN_IF_FINALIZING else EVENT_DEL_AUTOBLOCK) b
      else case (flag b ev EVLIST_ACTIVE, flag b ev EVLIST_ACTIVE_LATER) of
        (True, True) \<Rightarrow> Aborted
      | (True, False) \<Rightarrow> bind_outcome (event_queue_remove_active ev b) (\<lambda>b1. Done (0, b1))
      | (False, True) \<Rightarrow> bind_outcome (event_queue_remove_active_later ev b) (\<lambda>b1. Done (0, b1))
      | (False, False) \<Rightarrow> Done (0, b))"

definition event_callback_init :: "nat \<Rightarrow> event \<Rightarrow> 'k event_base \<Rightarrow> 'k event_base" where
  "event_callback_init cb zero b = upd_event cb (\<lambda>_. zero\<lparr>evcb_pri := length (activequeues b) - 1\<rparr>) b"

definition event_deferred_cb_init :: "nat \<Rightarrow> event \<Rightarrow> nat \<Rightarrow> 'k event_base \<Rightarrow> 'k event_base" where
  "event_deferred_cb_init cb zero priority b =
     upd_event cb (\<lambda>_. zero\<lparr>evcb_pri := priority, evcb_closure := EV_CLOSURE_CB_SELF\<rparr>) b"

definition MAX_DEFERREDS_QUEUED :: int where "MAX_DEFERREDS_QUEUED = 32"

definition event_deferred_cb_schedule :: "nat \<Rightarrow> 'k event_base \<Rightarrow> (int \<times> 'k event_base) outcome" where
  "event_deferred_cb_schedule cb b =
     (if n_deferreds_queued b > MAX_DEFERREDS_QUEUED then event_callback_activate_later_nolock cb b
      else bind_outcome (event_callback_activate_nolock cb b)
             (\<lambda>(r, b1). Done (r, if r \<noteq> 0 then b1\<lparr>n_deferreds_queued := n_deferreds_queued b1 + 1\<rparr> else b1)))"

section \<open>Adding\<close>

definition event_add_reserve :: "'k base_env \<Rightarrow> nat \<Rightarrow> timeval option \<Rightarrow> 'k event_base \<Rightarrow> int \<times> 'k event_base" where
  "event_add_reserve E ev tv b =
     (if tv \<noteq> None \<and> \<not> flag b ev EVLIST_TIMEOUT then
        (let (r, h) = min_heap_reserve (alloc_ok E) (timeheap b) (1 + min_heap_size (timeheap b)) in (r, b\<lparr>timeheap := h\<rparr>))
      else (0, b))"

definition event_add_register :: "'k base_env \<Rightarrow> nat \<Rightarrow> 'k event_base \<Rightarrow> (int \<times> 'k event_base) outcome" where
  "event_add_register E ev b =
     (let e = evs b ev in
      if (ev_events e AND IO_EVENTS \<noteq> 0 \<or> has (ev_events e) EV_SIGNAL) \<and>
         \<not> (flag b ev EVLIST_INSERTED \<or> flag b ev EVLIST_ACTIVE \<or> flag b ev EVLIST_ACTIVE_LATER) then
        bind_outcome
          (if ev_events e AND IO_EVENTS \<noteq> 0 then evmap_io_add (debug_mode E) (alloc_ok E) (evsel E) b (ev_fd e) ev
           else evmap_signal_add (alloc_ok E) (evsigsel E) b (ev_fd e) ev)
          (\<lambda>(res, b1).
             if res \<noteq> -1 then bind_outcome (event_queue_insert_inserted ev b1) (\<lambda>b2. Done (if res = 1 then 0 else res, b2))
             else Done (-1, b1))
      else Done (0, b))"

text \<open>The expiration that \<^verbatim>\<open>event_add_nolock_\<close> stores.\<close>

definition new_timeout :: "timeval \<Rightarrow> timeval \<Rightarrow> bool \<Rightarrow> 'k event_base \<Rightarrow> timeval" where
  "new_timeout now tv tv_is_absolute b =
     (if tv_is_absolute then tv
      else if is_common_timeout tv b then
        (let t = evutil_timeradd now (mask_usec tv)
         in Timeval (tv_sec t) (tv_usec t OR (tv_usec tv AND NOT MICROSECONDS_MASK)))
      else evutil_timeradd now tv)"

definition event_add_timeout :: "'k base_env \<Rightarrow> nat \<Rightarrow> timeval \<Rightarrow> bool \<Rightarrow> 'k event_base \<Rightarrow> 'k event_base outcome" where
  "event_add_timeout E ev tv tv_is_absolute b =
     (let b1 = (if evcb_closure (evs b ev) = EV_CLOSURE_EVENT_PERSIST \<and> \<not> tv_is_absolute
                then upd_event ev (\<lambda>e. e\<lparr>ev_io_timeout := tv\<rparr>) b else b)
      in bind_outcome (event_del_timeout ev b1) (\<lambda>b2.
           bind_outcome
             (if flag b2 ev EVLIST_ACTIVE \<and> has (ev_res (evs b2 ev)) EV_TIMEOUT
              then event_queue_remove_active ev (abort_signal_loop ev b2) else Done b2)
             (\<lambda>b3.
               (let (now, b4) = gettime b3;
                    b5 = upd_event ev (\<lambda>e. e\<lparr>ev_timeout := new_timeout now tv tv_is_absolute b4\<rparr>) b4
                in event_queue_insert_timeout (alloc_ok E) ev b5))))"

definition event_add_body ::
  "'k base_env \<Rightarrow> nat \<Rightarrow> timeval option \<Rightarrow> bool \<Rightarrow> 'k event_base \<Rightarrow> (int \<times> 'k event_base) outcome" where
  "event_add_body E ev tv tv_is_absolute b =
     (if evcb_flags (evs b ev) AND NOT EVLIST_ALL \<noteq> 0 then Aborted
      else if flag b ev EVLIST_FINALIZING then Done (-1, b)
      else
        (let (r, b0) = event_add_reserve E ev tv b in
         if r = -1 then Done (-1, b0)
         else bind_outcome (event_add_register E ev b0) (\<lambda>(res, b1).
           case tv of
             Some t \<Rightarrow> (if res \<noteq> -1 then bind_outcome (event_add_timeout E ev t tv_is_absolute b1) (\<lambda>b2. Done (res, b2))
                        else Done (res, b1))
           | None \<Rightarrow> Done (res, b1))))"

text \<open>
  \<^verbatim>\<open>event_add_nolock_\<close>, with the call of \<^verbatim>\<open>common_timeout_schedule\<close> when the event is the first of its
  common timeout. That call adds the internal event of the list at a time without magic value, so it
  makes no further call.
\<close>

definition is_magic :: "timeval \<Rightarrow> bool" where
  "is_magic tv \<longleftrightarrow> tv_usec tv AND COMMON_TIMEOUT_MASK = COMMON_TIMEOUT_MAGIC"

lemma mask_usec_not_magic [simp]: "\<not> is_magic (mask_usec tv)"
proof
  assume "is_magic (mask_usec tv)"
  then have "bit ((tv_usec tv AND MICROSECONDS_MASK) AND COMMON_TIMEOUT_MASK) 28 = bit COMMON_TIMEOUT_MAGIC 28"
    by (simp add: is_magic_def mask_usec_def)
  then show False by (simp add: bit_and_iff MICROSECONDS_MASK_def COMMON_TIMEOUT_MAGIC_def)
qed

function event_add_nolock ::
  "'k base_env \<Rightarrow> nat \<Rightarrow> timeval option \<Rightarrow> bool \<Rightarrow> 'k event_base \<Rightarrow> (int \<times> 'k event_base) outcome" where
  "event_add_nolock E ev tv tv_is_absolute b =
     bind_outcome (event_add_body E ev tv tv_is_absolute b) (\<lambda>(res, b1).
       case tv of None \<Rightarrow> Done (res, b1)
       | Some t \<Rightarrow>
         (if res \<noteq> -1 \<and> is_magic t \<and> is_common_timeout t b then
            (let ctl = common_timeout_queues b1 ! COMMON_TIMEOUT_IDX (tmo b1 ev) in
             if ct_events ctl \<noteq> [] \<and> ev = hd (ct_events ctl) then
               bind_outcome (event_add_nolock E (timeout_event ctl) (Some (mask_usec (tmo b1 ev))) True b1)
                 (\<lambda>(r, b2). Done (res, b2))
             else Done (res, b1))
          else Done (res, b1)))"
  by pat_completeness auto
termination
  by (relation "measure (\<lambda>(E, ev, tv, a, b). case tv of None \<Rightarrow> 0 | Some t \<Rightarrow> if is_magic t then 1 else 0)") auto

declare event_add_nolock.simps [simp del]

definition event_add :: "'k base_env \<Rightarrow> nat \<Rightarrow> timeval option \<Rightarrow> 'k event_base \<Rightarrow> (int \<times> 'k event_base) outcome" where
  "event_add E ev tv b = event_add_nolock E ev tv False b"

definition common_timeout_schedule :: "'k base_env \<Rightarrow> nat \<Rightarrow> nat \<Rightarrow> 'k event_base \<Rightarrow> (int \<times> 'k event_base) outcome" where
  "common_timeout_schedule E i ev b =
     event_add_nolock E (timeout_event (common_timeout_queues b ! i)) (Some (mask_usec (tmo b ev))) True b"

section \<open>Finalizing\<close>

definition event_finalize_nolock :: "'k base_env \<Rightarrow> bool \<Rightarrow> nat \<Rightarrow> 'k event_base \<Rightarrow> 'k event_base outcome" where
  "event_finalize_nolock E finalize_free ev b =
     bind_outcome (event_del_nolock E ev EVENT_DEL_NOBLOCK b) (\<lambda>(r, b1).
       bind_outcome
         (event_active_nolock ev EV_FINALIZE 1
           (upd_event ev (\<lambda>e. e\<lparr>evcb_closure := if finalize_free then EV_CLOSURE_EVENT_FINALIZE_FREE
                                             else EV_CLOSURE_EVENT_FINALIZE\<rparr>) b1))
         (\<lambda>b2. Done (upd_event ev (set_flag EVLIST_FINALIZING) b2)))"

definition event_callback_finalize_nolock :: "'k base_env \<Rightarrow> nat \<Rightarrow> 'k event_base \<Rightarrow> 'k event_base outcome" where
  "event_callback_finalize_nolock E ev b =
     bind_outcome
       (if flag b ev EVLIST_INIT then event_del_nolock E ev EVENT_DEL_NOBLOCK b
        else event_callback_cancel_nolock E ev False b)
       (\<lambda>(r, b1).
          bind_outcome (event_callback_activate_nolock ev (upd_event ev (\<lambda>e. e\<lparr>evcb_closure := EV_CLOSURE_CB_FINALIZE\<rparr>) b1))
            (\<lambda>(q, b2). Done (upd_event ev (set_flag EVLIST_FINALIZING) b2)))"

fun finalize_many_loop :: "'k base_env \<Rightarrow> nat list \<Rightarrow> nat \<Rightarrow> 'k event_base \<Rightarrow> (nat \<times> 'k event_base) outcome" where
  "finalize_many_loop E [] n_pending b = Done (n_pending, b)"
| "finalize_many_loop E (ev # evs') n_pending b =
     (if current_event b = Some ev
      then bind_outcome (event_callback_finalize_nolock E ev b) (finalize_many_loop E evs' (n_pending + 1))
      else bind_outcome (event_callback_cancel_nolock E ev False b) (\<lambda>(r, b1). finalize_many_loop E evs' n_pending b1))"

definition event_callback_finalize_many :: "'k base_env \<Rightarrow> nat list \<Rightarrow> 'k event_base \<Rightarrow> 'k event_base outcome" where
  "event_callback_finalize_many E cbs b =
     bind_outcome (finalize_many_loop E cbs 0 b) (\<lambda>(n, b1).
       if n = 0 then event_callback_finalize_nolock E (hd cbs) b1 else Done b1)"

section \<open>Other operations\<close>

text \<open>\<^verbatim>\<open>event_base_once\<close>; \<open>a\<close> is the address of the event in the allocated structure.\<close>

definition event_base_once ::
  "'k base_env \<Rightarrow> nat \<Rightarrow> int \<Rightarrow> u16 \<Rightarrow> timeval option \<Rightarrow> 'k event_base \<Rightarrow> (int \<times> 'k event_base) outcome" where
  "event_base_once E a fd events tv b =
     (if has events EV_SIGNAL \<or> has events EV_PERSIST then Done (-1, b)
      else if \<not> alloc_ok E 176 then Done (-1, b)
      else if events AND (EV_TIMEOUT OR EV_SIGNAL OR IO_EVENTS) = EV_TIMEOUT then
        (let (r, b1) = event_assign a (-1) 0 b in
         if (case tv of None \<Rightarrow> True | Some t \<Rightarrow> \<not> evutil_timerisset t)
         then bind_outcome (event_active_nolock a EV_TIMEOUT 1 b1) (\<lambda>b2. Done (0, b2))
         else event_add_nolock E a tv False b1)
      else if events AND IO_EVENTS \<noteq> 0 then
        (let (r, b1) = event_assign a fd (events AND IO_EVENTS) b in event_add_nolock E a tv False b1)
      else Done (-1, b))"

text \<open>Activating a list of events in turn, as the loops over the lists of the maps do.\<close>

fun activate_all :: "(nat \<times> u16) list \<Rightarrow> nat \<Rightarrow> 'k event_base \<Rightarrow> 'k event_base outcome" where
  "activate_all [] ncalls b = Done b"
| "activate_all ((ev, res) # xs) ncalls b = bind_outcome (event_active_nolock ev res ncalls b) (activate_all xs ncalls)"

definition event_base_active_by_fd :: "int \<Rightarrow> u16 \<Rightarrow> 'k event_base \<Rightarrow> 'k event_base outcome" where
  "event_base_active_by_fd fd events b =
     (if \<not> has events EV_TIMEOUT then activate_all (evmap_io_active b fd (events AND IO_EVENTS)) 1 b
      else
        (let on_fd = (\<lambda>evs'. map (\<lambda>ev. (ev, EV_TIMEOUT)) (filter (\<lambda>ev. ev_fd (evs b ev) = fd) evs')) in
         activate_all (on_fd (take (hn (timeheap b)) (hp (timeheap b))) @
           concat (map (\<lambda>ctl. on_fd (ct_events ctl)) (common_timeout_queues b))) 1 b))"

definition event_base_active_by_signal :: "int \<Rightarrow> 'k event_base \<Rightarrow> 'k event_base outcome" where
  "event_base_active_by_signal sig b = activate_all (map (\<lambda>ev. (ev, EV_SIGNAL)) (evmap_signal_active b sig)) 1 b"

end
