(* ===== verification/Event_Inv.thy ===== *)
theory Event_Inv
  imports Event_Base
begin

text \<open>
  The invariant of an event base, in the shape of \<^verbatim>\<open>event_base_assert_ok_nolock_\<close> of \<^verbatim>\<open>src/event.c\<close>: the
  flags of every event say exactly on which queues it is, the queues are in order, and the counters
  count them. Every queue operation keeps it.
\<close>

section \<open>Magic timeouts\<close>

text \<open>
  A timeout with a magic value carries the index of its list above bit 20; an ordinary one has at most
  20 bits of microseconds.
\<close>

definition usec_small :: "timeval \<Rightarrow> bool" where
  "usec_small t \<longleftrightarrow> 0 \<le> tv_usec t \<and> tv_usec t < 2 ^ 20"

definition magic_at :: "nat \<Rightarrow> timeval \<Rightarrow> bool" where
  "magic_at i t \<longleftrightarrow> tv_usec t AND NOT MICROSECONDS_MASK = COMMON_TIMEOUT_MAGIC OR push_bit 20 (int i)"

lemma usec_mask: "MICROSECONDS_MASK = mask 20" "COMMON_TIMEOUT_IDX_MASK = push_bit 20 (mask 8)"
  "COMMON_TIMEOUT_MASK = push_bit 28 (mask 4)" "COMMON_TIMEOUT_MAGIC = push_bit 28 5"
  by (simp_all add: MICROSECONDS_MASK_def COMMON_TIMEOUT_IDX_MASK_def COMMON_TIMEOUT_MASK_def COMMON_TIMEOUT_MAGIC_def
      mask_eq_exp_minus_1 push_bit_eq_mult)

lemma bit_magic: "bit COMMON_TIMEOUT_MAGIC k \<longleftrightarrow> k = 28 \<or> k = 30"
proof -
  have "bit (5 :: int) j \<longleftrightarrow> j = 0 \<or> j = 2" for j
  proof -
    have "bit (1 OR (2 ^ 2) :: int) j \<longleftrightarrow> j = 0 \<or> j = 2"
      unfolding bit_or_iff bit_exp_iff bit_1_iff by auto
    then show ?thesis by simp
  qed
  then have "bit (push_bit 28 (5 :: int)) k \<longleftrightarrow> k = 28 \<or> k = 30" unfolding bit_push_bit_iff by auto
  then show ?thesis unfolding usec_mask .
qed

lemma bit_small: "0 \<le> x \<Longrightarrow> x < 2 ^ n \<Longrightarrow> n \<le> k \<Longrightarrow> \<not> bit (x :: int) k"
  by (metis bit_take_bit_iff leD take_bit_int_eq_self)

lemma bit_usec_small: "usec_small t \<Longrightarrow> 20 \<le> k \<Longrightarrow> \<not> bit (tv_usec t) k"
  using bit_small [of "tv_usec t" 20 k] by (simp add: usec_small_def)

lemma usec_small_not_magic: "usec_small t \<Longrightarrow> \<not> is_magic t"
proof
  assume "usec_small t" "is_magic t"
  then have "bit (tv_usec t AND COMMON_TIMEOUT_MASK) 28 \<longleftrightarrow> bit COMMON_TIMEOUT_MAGIC 28" by (simp add: is_magic_def)
  then show False using bit_usec_small [OF \<open>usec_small t\<close>, of 28] by (simp add: bit_and_iff bit_magic)
qed

lemma magic_at_bits:
  assumes "magic_at i t" "i < 256" "20 \<le> k"
  shows "bit (tv_usec t) k \<longleftrightarrow> k = 28 \<or> k = 30 \<or> k < 28 \<and> bit i (k - 20)"
proof -
  have "bit (tv_usec t AND NOT MICROSECONDS_MASK) k \<longleftrightarrow> bit (COMMON_TIMEOUT_MAGIC OR push_bit 20 (int i)) k"
    using assms(1) by (simp add: magic_at_def)
  moreover have "k < 28" if "bit i (k - 20)"
    using bit_small [of "int i" 8 "k - 20"] assms(2) that assms(3) by (cases "8 \<le> k - 20") (auto simp: bit_of_nat_iff)
  ultimately show ?thesis using assms(3)
    by (auto simp: bit_and_iff bit_not_iff bit_or_iff bit_magic usec_mask(1) bit_mask_iff bit_push_bit_iff bit_of_nat_iff not_less)
qed

lemma magic_at_is_magic:
  assumes "magic_at i t" "i < 256"
  shows "is_magic t" "COMMON_TIMEOUT_IDX t = i"
proof -
  show "is_magic t" unfolding is_magic_def
  proof (rule bit_eqI)
    fix k
    show "bit (tv_usec t AND COMMON_TIMEOUT_MASK) k \<longleftrightarrow> bit COMMON_TIMEOUT_MAGIC k"
      using magic_at_bits [OF assms, of k]
      by (auto simp: bit_and_iff bit_magic usec_mask(3) bit_push_bit_iff bit_mask_iff)
  qed
  have "drop_bit 20 (tv_usec t AND COMMON_TIMEOUT_IDX_MASK) = int i"
  proof (rule bit_eqI)
    fix k
    have "\<not> bit i k" if "8 \<le> k" using bit_small [of "int i" 8 k] assms(2) that by (simp add: bit_of_nat_iff)
    then show "bit (drop_bit 20 (tv_usec t AND COMMON_TIMEOUT_IDX_MASK)) k \<longleftrightarrow> bit (int i) k"
      using magic_at_bits [OF assms, of "20 + k"]
      by (auto simp: bit_drop_bit_eq bit_and_iff usec_mask(2) bit_push_bit_iff bit_mask_iff bit_of_nat_iff)
  qed
  then show "COMMON_TIMEOUT_IDX t = i" by (simp add: COMMON_TIMEOUT_IDX_def COMMON_TIMEOUT_IDX_SHIFT_def)
qed

lemma magic_at_same: "magic_at i t \<Longrightarrow> magic_at i u \<Longrightarrow> is_same_common_timeout t u"
  by (simp add: magic_at_def is_same_common_timeout_def)

lemma mask_usec_small [simp]: "usec_small (mask_usec t)"
proof -
  have "tv_usec t AND MICROSECONDS_MASK = take_bit 20 (tv_usec t)" by (simp add: usec_mask(1) take_bit_eq_mask)
  moreover have "take_bit 20 (tv_usec t) < 2 ^ 20" by (rule take_bit_int_less_exp)
  ultimately show ?thesis by (simp add: usec_small_def mask_usec_def)
qed

text \<open>Adding a small interval to the time keeps the microseconds small.\<close>

lemma timeradd_small:
  assumes "timeval_ok now" "usec_small t"
  shows "usec_small (evutil_timeradd now t)"
  using assms by (auto simp: timeval_ok_def usec_small_def evutil_timeradd_def Let_def)

lemma new_timeout_magic:
  assumes "timeval_ok now" "magic_at i tv" "i < 256" "i < length (common_timeout_queues b)"
  shows "magic_at i (new_timeout now tv absolute b)"
proof (cases absolute)
  case True
  then show ?thesis using assms(2) by (simp add: new_timeout_def)
next
  case False
  have c: "is_common_timeout tv b"
    using magic_at_is_magic [OF assms(2,3)] assms(4) by (simp add: is_common_timeout_def is_magic_def)
  let ?t = "evutil_timeradd now (mask_usec tv)"
  have s: "usec_small ?t" by (rule timeradd_small [OF assms(1)]) simp
  have "(tv_usec ?t OR (tv_usec tv AND NOT MICROSECONDS_MASK)) AND NOT MICROSECONDS_MASK = tv_usec tv AND NOT MICROSECONDS_MASK"
    using bit_usec_small [OF s]
    by (intro bit_eqI) (auto simp: bit_or_iff bit_and_iff bit_not_iff usec_mask(1) bit_mask_iff not_less)
  then show ?thesis using assms(2) c False by (simp add: new_timeout_def magic_at_def Let_def)
qed

lemma new_timeout_small:
  assumes "timeval_ok now" "usec_small tv"
  shows "usec_small (new_timeout now tv absolute b)"
proof -
  have "\<not> is_common_timeout tv b" using usec_small_not_magic [OF assms(2)] by (simp add: is_common_timeout_def is_magic_def)
  then show ?thesis using assms timeradd_small by (simp add: new_timeout_def)
qed

section \<open>Flags\<close>

text \<open>The bits of the flags; an operation on a queue sets or clears one bit of one event.\<close>

definition evbit :: "nat \<Rightarrow> 'k event_base \<Rightarrow> nat \<Rightarrow> bool" where
  "evbit j b a \<longleftrightarrow> bit (evcb_flags (evs b a)) j"

lemma flag_evbit [simp]:
  "flag b a EVLIST_TIMEOUT \<longleftrightarrow> evbit 0 b a" "flag b a EVLIST_INSERTED \<longleftrightarrow> evbit 1 b a"
  "flag b a EVLIST_ACTIVE \<longleftrightarrow> evbit 3 b a" "flag b a EVLIST_INTERNAL \<longleftrightarrow> evbit 4 b a"
  "flag b a EVLIST_ACTIVE_LATER \<longleftrightarrow> evbit 5 b a" "flag b a EVLIST_FINALIZING \<longleftrightarrow> evbit 6 b a"
  "flag b a EVLIST_INIT \<longleftrightarrow> evbit 7 b a"
  by (simp_all add: flag_def evbit_def)

definition cleared :: "nat \<Rightarrow> nat \<Rightarrow> 'k event_base \<Rightarrow> 'k event_base \<Rightarrow> bool" where
  "cleared k ev b b' \<longleftrightarrow> (\<forall>j a. evbit j b' a \<longleftrightarrow> evbit j b a \<and> \<not> (a = ev \<and> j = k))"

definition marked :: "nat \<Rightarrow> nat \<Rightarrow> 'k event_base \<Rightarrow> 'k event_base \<Rightarrow> bool" where
  "marked k ev b b' \<longleftrightarrow> (\<forall>j a. evbit j b' a \<longleftrightarrow> evbit j b a \<or> a = ev \<and> j = k)"

lemma bit_and_not: "bit (w AND NOT m) j \<longleftrightarrow> bit w j \<and> \<not> bit m j" for w m :: u16
  using bit_imp_le_length [of w j] by (auto simp: bit_simps)

lemma cleared_upd:
  assumes "\<And>i. bit m i \<longleftrightarrow> i = k" "evs b' = (evs b)(ev := clear_flag m (evs b ev))"
  shows "cleared k ev b b'"
  unfolding cleared_def evbit_def assms(2)
  using assms(1) by (simp add: clear_flag_def bit_and_not)

lemma marked_upd:
  assumes "\<And>i. bit m i \<longleftrightarrow> i = k" "evs b' = (evs b)(ev := set_flag m (evs b ev))"
  shows "marked k ev b b'"
  unfolding marked_def evbit_def assms(2) using assms(1) by (auto simp: set_flag_def bit_or_iff)

section \<open>Counters\<close>

text \<open>The flags that stand for a queue: timeout, inserted, active and active later.\<close>

definition QUEUES :: "nat set" where "QUEUES = {0, 1, 3, 5}"

definition on_queue :: "nat \<Rightarrow> 'k event_base \<Rightarrow> nat set" where
  "on_queue k b = {a. evbit k b a}"

definition counted :: "nat \<Rightarrow> 'k event_base \<Rightarrow> nat set" where
  "counted k b = {a. evbit k b a \<and> \<not> evbit 4 b a}"

definition counts_ok :: "'k event_base \<Rightarrow> bool" where
  "counts_ok b \<longleftrightarrow> (\<forall>k \<in> QUEUES. finite (on_queue k b)) \<and>
     event_count b = (\<Sum>k\<in>QUEUES. int (card (counted k b))) \<and>
     event_count_active b = (\<Sum>k\<in>{3, 5}. int (card (on_queue k b)))"

lemma counted_subset: "counted k b \<subseteq> on_queue k b"
  by (auto simp: counted_def on_queue_def)

lemma sum_update:
  assumes "finite K" "\<And>j. j \<in> K \<Longrightarrow> j \<noteq> k \<Longrightarrow> g j = f j"
  shows "(\<Sum>j\<in>K. g j) = (\<Sum>j\<in>K. f j) + (if k \<in> K then g k - f k else (0 :: int))"
proof (cases "k \<in> K")
  case True
  have "(\<Sum>j\<in>K - {k}. g j) = (\<Sum>j\<in>K - {k}. f j)" by (rule sum.cong) (use assms(2) in auto)
  then show ?thesis using True assms(1) by (simp add: sum.remove [of K k])
next
  case False
  then show ?thesis using assms(2) by (auto intro: sum.cong)
qed

lemma counts_cleared:
  assumes ok: "counts_ok b" and c: "cleared k ev b b'" and on: "evbit k b ev" "k \<in> QUEUES"
    and n: "event_count b' = event_count b - (if evbit 4 b ev then 0 else 1)"
      "event_count_active b' = event_count_active b - (if k \<in> {3, 5} then 1 else 0)"
  shows "counts_ok b'"
proof -
  have k4: "k \<noteq> 4" using on(2) by (auto simp: QUEUES_def)
  have q: "on_queue j b' = (if j = k then on_queue j b - {ev} else on_queue j b)" for j
    using c by (auto simp: on_queue_def cleared_def)
  have e: "counted j b' = (if j = k then counted j b - {ev} else counted j b)" for j
    using c k4 by (auto simp: counted_def cleared_def)
  have fin: "finite (on_queue j b)" if "j \<in> QUEUES" for j using ok that by (simp add: counts_ok_def)
  have fc: "finite (counted k b)" using fin [OF on(2)] counted_subset finite_subset by blast
  have dq: "int (card (on_queue k b')) - int (card (on_queue k b)) = -1"
    using on(1) fin [OF on(2)] q [of k] card_Suc_Diff1 [of "on_queue k b" ev] by (auto simp: on_queue_def)
  have dc: "int (card (counted k b')) - int (card (counted k b)) = - (if evbit 4 b ev then 0 else 1)"
  proof (cases "evbit 4 b ev")
    case True
    then show ?thesis using e [of k] by (simp add: counted_def)
  next
    case False
    then have "ev \<in> counted k b" using on(1) by (simp add: counted_def)
    then show ?thesis using False fc e [of k] card_Suc_Diff1 [of "counted k b" ev] by auto
  qed
  have "(\<Sum>j\<in>QUEUES. int (card (counted j b'))) = event_count b'"
    using sum_update [of QUEUES k "\<lambda>j. int (card (counted j b'))" "\<lambda>j. int (card (counted j b))"] e dc on(2) ok n(1)
    by (simp add: QUEUES_def counts_ok_def)
  moreover have "(\<Sum>j\<in>{3, 5}. int (card (on_queue j b'))) = event_count_active b'"
    using sum_update [of "{3, 5}" k "\<lambda>j. int (card (on_queue j b'))" "\<lambda>j. int (card (on_queue j b))"] q dq ok n(2)
    by (simp add: counts_ok_def)
  ultimately show ?thesis using fin q by (simp add: counts_ok_def)
qed

lemma counts_marked:
  assumes ok: "counts_ok b" and c: "marked k ev b b'" and on: "\<not> evbit k b ev" "k \<in> QUEUES"
    and n: "event_count b' = event_count b + (if evbit 4 b ev then 0 else 1)"
      "event_count_active b' = event_count_active b + (if k \<in> {3, 5} then 1 else 0)"
  shows "counts_ok b'"
proof -
  have k4: "k \<noteq> 4" using on(2) by (auto simp: QUEUES_def)
  have q: "on_queue j b' = (if j = k then insert ev (on_queue j b) else on_queue j b)" for j
    using c by (auto simp: on_queue_def marked_def)
  have e: "counted j b' = (if j = k \<and> \<not> evbit 4 b ev then insert ev (counted j b) else counted j b)" for j
    using c k4 by (auto simp: counted_def marked_def)
  have fin: "finite (on_queue j b)" if "j \<in> QUEUES" for j using ok that by (simp add: counts_ok_def)
  have fc: "finite (counted k b)" using fin [OF on(2)] counted_subset finite_subset by blast
  have dq: "int (card (on_queue k b')) - int (card (on_queue k b)) = 1"
    using on(1) fin [OF on(2)] q [of k] by (simp add: on_queue_def)
  have dc: "int (card (counted k b')) - int (card (counted k b)) = (if evbit 4 b ev then 0 else 1)"
    using fc e [of k] on(1) by (simp add: counted_def)
  have "(\<Sum>j\<in>QUEUES. int (card (counted j b'))) = event_count b'"
    using sum_update [of QUEUES k "\<lambda>j. int (card (counted j b'))" "\<lambda>j. int (card (counted j b))"] e dc on(2) ok n(1)
    by (simp add: QUEUES_def counts_ok_def)
  moreover have "(\<Sum>j\<in>{3, 5}. int (card (on_queue j b'))) = event_count_active b'"
    using sum_update [of "{3, 5}" k "\<lambda>j. int (card (on_queue j b'))" "\<lambda>j. int (card (on_queue j b))"] q dq ok n(2)
    by (simp add: counts_ok_def)
  ultimately show ?thesis using fin q by (simp add: counts_ok_def)
qed

section \<open>The active queues\<close>

definition queues_ok :: "'k event_base \<Rightarrow> bool" where
  "queues_ok b \<longleftrightarrow>
     (\<forall>i < length (activequeues b). distinct (activequeues b ! i) \<and>
        set (activequeues b ! i) = {a. evbit 3 b a \<and> evcb_pri (evs b a) = i}) \<and>
     distinct (active_later_queue b) \<and> set (active_later_queue b) = {a. evbit 5 b a} \<and>
     (\<forall>a. evbit 3 b a \<or> evbit 5 b a \<longrightarrow> evcb_pri (evs b a) < length (activequeues b)) \<and>
     (\<forall>a. \<not> (evbit 3 b a \<and> evbit 5 b a))"

lemma queues_cong:
  assumes "\<And>a. evbit 3 b' a = evbit 3 b a" "\<And>a. evbit 5 b' a = evbit 5 b a" "\<And>a. evcb_pri (evs b' a) = evcb_pri (evs b a)"
    "activequeues b' = activequeues b" "active_later_queue b' = active_later_queue b"
  shows "queues_ok b' = queues_ok b"
  by (simp add: queues_ok_def assms)

lemma clear_flag_simps [simp]:
  "evcb_pri (clear_flag m e) = evcb_pri e" "evcb_closure (clear_flag m e) = evcb_closure e" "ev_fd (clear_flag m e) = ev_fd e"
  "ev_events (clear_flag m e) = ev_events e" "ev_res (clear_flag m e) = ev_res e" "ev_timeout (clear_flag m e) = ev_timeout e"
  "ev_io_timeout (clear_flag m e) = ev_io_timeout e"
  "evcb_pri (set_flag m e) = evcb_pri e" "evcb_closure (set_flag m e) = evcb_closure e" "ev_fd (set_flag m e) = ev_fd e"
  "ev_events (set_flag m e) = ev_events e" "ev_res (set_flag m e) = ev_res e" "ev_timeout (set_flag m e) = ev_timeout e"
  "ev_io_timeout (set_flag m e) = ev_io_timeout e"
  by (simp_all add: clear_flag_def set_flag_def)

lemma queues_remove_active:
  assumes q: "queues_ok b" and on: "evbit 3 b ev" and c: "cleared 3 ev b b'"
    and pri: "\<And>a. evcb_pri (evs b' a) = evcb_pri (evs b a)" and later: "active_later_queue b' = active_later_queue b"
    and act: "activequeues b' = (activequeues b)[evcb_pri (evs b ev) := remove1 ev (activequeues b ! evcb_pri (evs b ev))]"
  shows "queues_ok b'"
proof -
  have p: "evcb_pri (evs b ev) < length (activequeues b)" using q on by (simp add: queues_ok_def)
  have bits: "evbit 3 b' a \<longleftrightarrow> evbit 3 b a \<and> a \<noteq> ev" "evbit 5 b' a \<longleftrightarrow> evbit 5 b a" for a
    using c by (auto simp: cleared_def)
  have s: "distinct (activequeues b ! i) \<and> set (activequeues b ! i) = {a. evbit 3 b a \<and> evcb_pri (evs b a) = i}"
    if "i < length (activequeues b)" for i using q that by (simp add: queues_ok_def)
  have "distinct (activequeues b' ! i) \<and> set (activequeues b' ! i) = {a. evbit 3 b' a \<and> evcb_pri (evs b' a) = i}"
    if "i < length (activequeues b')" for i
    using s [of i] s [OF p] that p unfolding act pri bits by (auto simp: nth_list_update)
  then show ?thesis using q unfolding queues_ok_def pri bits later by (simp add: act)
qed

lemma queues_remove_later:
  assumes q: "queues_ok b" and c: "cleared 5 ev b b'" and pri: "\<And>a. evcb_pri (evs b' a) = evcb_pri (evs b a)"
    and act: "activequeues b' = activequeues b" "active_later_queue b' = remove1 ev (active_later_queue b)"
  shows "queues_ok b'"
proof -
  have bits: "evbit 3 b' a \<longleftrightarrow> evbit 3 b a" "evbit 5 b' a \<longleftrightarrow> evbit 5 b a \<and> a \<noteq> ev" for a
    using c by (auto simp: cleared_def)
  show ?thesis using q unfolding queues_ok_def pri bits act by auto
qed

lemma queues_insert_active:
  assumes q: "queues_ok b" and off: "\<not> evbit 3 b ev" "\<not> evbit 5 b ev" and c: "marked 3 ev b b'"
    and p: "evcb_pri (evs b ev) < length (activequeues b)"
    and pri: "\<And>a. evcb_pri (evs b' a) = evcb_pri (evs b a)" and later: "active_later_queue b' = active_later_queue b"
    and act: "activequeues b' = (activequeues b)[evcb_pri (evs b ev) := activequeues b ! evcb_pri (evs b ev) @ [ev]]"
  shows "queues_ok b'"
proof -
  have bits: "evbit 3 b' a \<longleftrightarrow> evbit 3 b a \<or> a = ev" "evbit 5 b' a \<longleftrightarrow> evbit 5 b a" for a
    using c by (auto simp: marked_def)
  have s: "distinct (activequeues b ! i) \<and> set (activequeues b ! i) = {a. evbit 3 b a \<and> evcb_pri (evs b a) = i}"
    if "i < length (activequeues b)" for i using q that by (simp add: queues_ok_def)
  have "distinct (activequeues b' ! i) \<and> set (activequeues b' ! i) = {a. evbit 3 b' a \<and> evcb_pri (evs b' a) = i}"
    if "i < length (activequeues b')" for i
    using s [of i] s [OF p] that p off(1) unfolding act pri bits by (auto simp: nth_list_update)
  then show ?thesis using q p off(2) unfolding queues_ok_def pri bits later by (simp add: act) blast
qed

lemma queues_insert_later:
  assumes q: "queues_ok b" and off: "\<not> evbit 3 b ev" "\<not> evbit 5 b ev" and c: "marked 5 ev b b'"
    and p: "evcb_pri (evs b ev) < length (activequeues b)" and pri: "\<And>a. evcb_pri (evs b' a) = evcb_pri (evs b a)"
    and act: "activequeues b' = activequeues b" "active_later_queue b' = active_later_queue b @ [ev]"
  shows "queues_ok b'"
proof -
  have bits: "evbit 3 b' a \<longleftrightarrow> evbit 3 b a" "evbit 5 b' a \<longleftrightarrow> evbit 5 b a \<or> a = ev" for a
    using c by (auto simp: marked_def)
  show ?thesis using q off p unfolding queues_ok_def pri bits act by auto
qed

section \<open>The timeouts\<close>

text \<open>The heap does not look at timeouts of events that are not in it, and its array only grows.\<close>

lemma min_heap_inv_cong:
  assumes "min_heap_inv t h" "\<And>a. a \<in># heap_elems h \<Longrightarrow> t' a = t a"
  shows "min_heap_inv t' h"
proof -
  have "t' (hp h ! i) = t (hp h ! i)" if "i < hn h" for i
  proof (rule assms(2))
    have "hn h \<le> length (hp h)" using assms(1) by (simp add: min_heap_inv_def)
    then show "hp h ! i \<in># heap_elems h" using that by (auto simp: heap_elems_def in_set_conv_nth)
  qed
  then have "heap_upto t' (hp h) (hn h)"
    using assms(1) heap_upto_cong [of t "hp h" "hn h" t' "hp h"] by (simp add: min_heap_inv_def)
  then show ?thesis using assms(1) by (simp add: min_heap_inv_def)
qed

definition alloc_small :: "(nat \<Rightarrow> bool) \<Rightarrow> bool" where
  "alloc_small ok \<longleftrightarrow> (\<forall>n. ok n \<longrightarrow> n < 2 ^ 62)"

lemma min_heap_reserve_small:
  assumes "min_heap_inv t h" "ha h < 2 ^ 59" "alloc_small ok" "min_heap_reserve ok h (hn h + 1) = (r, h')"
  shows "r = 0 \<and> min_heap_inv t h' \<and> heap_elems h' = heap_elems h \<and> hn h' = hn h \<and> ha h' < 2 ^ 59 \<and> hn h + 1 \<le> ha h' \<or>
    r = -1 \<and> h' = h"
proof (cases "r = -1")
  case True
  then show ?thesis using assms(4) min_heap_reserve_fail [of ok h "hn h + 1"] by simp
next
  case False
  then have r: "r = 0" using assms(4) by (auto simp: min_heap_reserve_def Let_def split: if_splits)
  have n: "hn h + 1 < 2 ^ 60" using assms(1,2) by (simp add: min_heap_inv_def)
  have a: "ha h < 2 ^ 60" using assms(2) by simp
  note ok = min_heap_reserve_ok [OF assms(1) a n assms(4) [unfolded r]]
  have "ha h' < 2 ^ 59"
  proof (cases "ha h < hn h + 1")
    case True
    define m where "m = (if (if ha h \<noteq> 0 then ha h * 2 else 8) < hn h + 1 then hn h + 1 else if ha h \<noteq> 0 then ha h * 2 else 8)"
    have m: "(if (if ha h \<noteq> 0 then (ha h * 2) mod 2 ^ 64 else 8) < hn h + 1 then hn h + 1
        else if ha h \<noteq> 0 then (ha h * 2) mod 2 ^ 64 else 8) = m"
      using assms(2) by (simp add: m_def)
    have "m < 2 ^ 61" using assms(2) n by (auto simp: m_def)
    then have "(m * 8) mod 2 ^ 64 = m * 8" by simp
    then have "ha h' = m" "ok (m * 8)"
      using assms(4) r True m by (auto simp: min_heap_reserve_def Let_def split: if_splits)
    then show ?thesis using assms(3) by (fastforce simp: alloc_small_def)
  next
    case False
    then have "h' = h" using assms(4) by (simp add: min_heap_reserve_def)
    then show ?thesis using assms(2) by simp
  qed
  then show ?thesis using r ok by simp
qed

lemma min_heap_push_reserved:
  assumes "min_heap_inv t h" "ha h < 2 ^ 59" "hn h + 1 \<le> ha h" "e \<notin># heap_elems h"
  shows "\<exists>h'. min_heap_push ok t h e = (0, h') \<and> min_heap_inv t h' \<and> heap_elems h' = add_mset e (heap_elems h) \<and> ha h' = ha h"
proof -
  have res: "min_heap_reserve ok h (hn h + 1) = (0, h)" using assms(3) by (simp add: min_heap_reserve_def)
  obtain h' where h': "min_heap_push ok t h e = (0, h')" "ha h' = ha h"
    unfolding min_heap_push_def res by (cases "min_heap_shift_up t (hp h) (hidx h) (hn h) e") simp
  then show ?thesis using min_heap_push_ok [OF assms(1,2,4) h'(1)] by simp
qed

lemma min_heap_erase_elem:
  assumes "min_heap_inv t h" "e \<in># heap_elems h"
  shows "min_heap_inv t (snd (min_heap_erase t h e))" "heap_elems (snd (min_heap_erase t h e)) = heap_elems h - {#e#}"
    "ha (snd (min_heap_erase t h e)) = ha h" "hn (snd (min_heap_erase t h e)) + 1 = hn h"
proof -
  obtain r h' where e: "min_heap_erase t h e = (r, h')" by fastforce
  note ok = min_heap_erase_ok [OF assms e]
  have "ha h' = ha h \<and> hn h' + 1 = hn h"
    using e heap_member_index [OF assms] by (auto simp: min_heap_erase_def Let_def split: prod.splits)
  then show "min_heap_inv t (snd (min_heap_erase t h e))" "heap_elems (snd (min_heap_erase t h e)) = heap_elems h - {#e#}"
    "ha (snd (min_heap_erase t h e)) = ha h" "hn (snd (min_heap_erase t h e)) + 1 = hn h" using ok e by auto
qed

text \<open>Where an event with a timeout waits: in the heap, or in the list its magic value names.\<close>

definition tmo_wf :: "timeval \<Rightarrow> 'k event_base \<Rightarrow> bool" where
  "tmo_wf t b \<longleftrightarrow> usec_small t \<or> (\<exists>i < length (common_timeout_queues b). magic_at i t)"

definition timers_ok :: "'k event_base \<Rightarrow> bool" where
  "timers_ok b \<longleftrightarrow>
     min_heap_inv (tmo b) (timeheap b) \<and> ha (timeheap b) < 2 ^ 59 \<and> length (common_timeout_queues b) \<le> MAX_COMMON_TIMEOUTS \<and>
     (\<forall>a. a \<in># heap_elems (timeheap b) \<longleftrightarrow> evbit 0 b a \<and> usec_small (tmo b a)) \<and>
     (\<forall>i < length (common_timeout_queues b). distinct (ct_events (common_timeout_queues b ! i)) \<and>
        sorted (map (tmo b) (ct_events (common_timeout_queues b ! i))) \<and>
        set (ct_events (common_timeout_queues b ! i)) = {a. evbit 0 b a \<and> magic_at i (tmo b a)}) \<and>
     (\<forall>a. evbit 0 b a \<longrightarrow> tmo_wf (tmo b a) b)"

lemma timers_cong:
  assumes "\<And>a. evbit 0 b' a = evbit 0 b a" "\<And>a. evbit 0 b a \<Longrightarrow> tmo b' a = tmo b a"
    "timeheap b' = timeheap b" "common_timeout_queues b' = common_timeout_queues b" "timers_ok b"
  shows "timers_ok b'"
proof -
  have heap: "a \<in># heap_elems (timeheap b) \<longleftrightarrow> evbit 0 b a \<and> usec_small (tmo b a)" for a
    using assms(5) by (simp add: timers_ok_def)
  have inv: "min_heap_inv (tmo b') (timeheap b)"
    by (rule min_heap_inv_cong [of "tmo b"]) (use assms heap in \<open>auto simp: timers_ok_def\<close>)
  have ct: "distinct (ct_events (common_timeout_queues b ! i)) \<and>
      sorted (map (tmo b') (ct_events (common_timeout_queues b ! i))) \<and>
      set (ct_events (common_timeout_queues b ! i)) = {a. evbit 0 b a \<and> magic_at i (tmo b' a)}"
    if "i < length (common_timeout_queues b)" for i
  proof -
    have c: "distinct (ct_events (common_timeout_queues b ! i))" "sorted (map (tmo b) (ct_events (common_timeout_queues b ! i)))"
      "set (ct_events (common_timeout_queues b ! i)) = {a. evbit 0 b a \<and> magic_at i (tmo b a)}"
      using assms(5) that by (simp_all add: timers_ok_def)
    have "map (tmo b') (ct_events (common_timeout_queues b ! i)) = map (tmo b) (ct_events (common_timeout_queues b ! i))"
      by (rule map_cong) (use c(3) assms(2) in auto)
    then have "sorted (map (tmo b') (ct_events (common_timeout_queues b ! i)))" using c(2) by (simp only:)
    then show ?thesis using c(1,3) assms(2) by auto
  qed
  have wf: "evbit 0 b a \<Longrightarrow> tmo_wf (tmo b' a) b" for a using assms(2,5) by (simp add: timers_ok_def)
  show ?thesis unfolding timers_ok_def assms(1,3,4) tmo_wf_def
    using inv ct wf heap assms(2,5) by (auto simp: timers_ok_def tmo_wf_def)
qed

lemma wf_cases:
  assumes "length (common_timeout_queues b) \<le> MAX_COMMON_TIMEOUTS" "tmo_wf t b"
  shows "(usec_small t \<and> \<not> is_common_timeout t b \<and> (\<forall>i < length (common_timeout_queues b). \<not> magic_at i t)) \<or>
    (\<exists>i < length (common_timeout_queues b). magic_at i t \<and> is_common_timeout t b \<and> COMMON_TIMEOUT_IDX t = i \<and> \<not> usec_small t \<and>
      (\<forall>j < length (common_timeout_queues b). magic_at j t \<longrightarrow> j = i))"
proof -
  have m: "is_magic t \<and> COMMON_TIMEOUT_IDX t = i" if "magic_at i t" "i < length (common_timeout_queues b)" for i
    using magic_at_is_magic [OF that(1)] that(2) assms(1) by (auto simp: MAX_COMMON_TIMEOUTS_def)
  have c: "is_common_timeout t b \<longleftrightarrow> is_magic t \<and> COMMON_TIMEOUT_IDX t < length (common_timeout_queues b)"
    by (simp add: is_common_timeout_def is_magic_def)
  show ?thesis
  proof (cases "usec_small t")
    case True
    then show ?thesis using usec_small_not_magic m c by blast
  next
    case False
    then obtain i where i: "i < length (common_timeout_queues b)" "magic_at i t" using assms(2) by (auto simp: tmo_wf_def)
    then show ?thesis using False m c by metis
  qed
qed

lemma sorted_map_remove1: "sorted (map f xs) \<Longrightarrow> sorted (map f (remove1 x xs))"
proof (induction xs)
  case (Cons y xs)
  have "set (remove1 x xs) \<subseteq> set xs" by (rule set_remove1_subset)
  with Cons show ?case by auto
qed simp

text \<open>What the operations on the timeouts change besides the heap and the lists.\<close>

definition minus_count :: "nat \<Rightarrow> 'k event_base \<Rightarrow> int" where
  "minus_count ev b = event_count b - (if evbit 4 b ev then 0 else 1)"

definition plus_count :: "nat \<Rightarrow> 'k event_base \<Rightarrow> int" where
  "plus_count ev b = event_count b + (if evbit 4 b ev then 0 else 1)"

lemma upd_common_nth:
  "length (common_timeout_queues (upd_common i f b)) = length (common_timeout_queues b)"
  "i < length (common_timeout_queues b) \<Longrightarrow> j < length (common_timeout_queues b) \<Longrightarrow>
     ct_events (common_timeout_queues (upd_common i f b) ! j) =
       (if j = i then f (ct_events (common_timeout_queues b ! i)) else ct_events (common_timeout_queues b ! j))"
  "j < length (common_timeout_queues b) \<Longrightarrow>
     timeout_event (common_timeout_queues (upd_common i f b) ! j) = timeout_event (common_timeout_queues b ! j)"
  by (simp add: upd_common_def Let_def, simp add: upd_common_def Let_def nth_list_update,
      cases "i = j", simp_all add: upd_common_def Let_def)

lemma upd_common_queues:
  "upd_common i f b = b\<lparr>common_timeout_queues := common_timeout_queues (upd_common i f b)\<rparr>"
  by (simp add: upd_common_def Let_def)

lemma timers_remove:
  assumes ok: "timers_ok b" and on: "evbit 0 b ev"
  shows "\<exists>h q. event_queue_remove_timeout ev b =
      Done (b\<lparr>evs := (evs b)(ev := clear_flag EVLIST_TIMEOUT (evs b ev)), event_count := minus_count ev b,
              timeheap := h, common_timeout_queues := q\<rparr>) \<and>
    timers_ok (b\<lparr>evs := (evs b)(ev := clear_flag EVLIST_TIMEOUT (evs b ev)), event_count := minus_count ev b,
              timeheap := h, common_timeout_queues := q\<rparr>) \<and>
    length q = length (common_timeout_queues b) \<and> map timeout_event q = map timeout_event (common_timeout_queues b) \<and>
    (if usec_small (tmo b ev) then q = common_timeout_queues b \<and> hn h + 1 = hn (timeheap b) \<and> ha h = ha (timeheap b) else
       h = timeheap b \<and> (\<exists>i < length q. magic_at i (tmo b ev) \<and>
         (\<forall>j < length q. ct_events (q ! j) = (if j = i then remove1 ev (ct_events (common_timeout_queues b ! i))
            else ct_events (common_timeout_queues b ! j)) \<and> timeout_event (q ! j) = timeout_event (common_timeout_queues b ! j))))"
proof -
  let ?b1 = "b\<lparr>evs := (evs b)(ev := clear_flag EVLIST_TIMEOUT (evs b ev)), event_count := minus_count ev b\<rparr>"
  have b1: "upd_event ev (clear_flag EVLIST_TIMEOUT) (DECR_EVENT_COUNT (evcb_flags (evs b ev)) b) = ?b1"
    by (simp add: upd_event_def DECR_EVENT_COUNT_def minus_count_def evbit_def)
  have t1: "tmo ?b1 = tmo b" by (simp add: tmo_def fun_eq_iff)
  have bits: "evbit 0 ?b1 a \<longleftrightarrow> evbit 0 b a \<and> a \<noteq> ev" for a
    using cleared_upd [of EVLIST_TIMEOUT 0 ?b1 b ev] by (auto simp: cleared_def)
  have tk: "length (common_timeout_queues b) \<le> MAX_COMMON_TIMEOUTS" "tmo_wf (tmo b ev) b"
    "min_heap_inv (tmo b) (timeheap b)" "ha (timeheap b) < 2 ^ 59"
    "\<And>a. a \<in># heap_elems (timeheap b) \<longleftrightarrow> evbit 0 b a \<and> usec_small (tmo b a)"
    "\<And>a. evbit 0 b a \<Longrightarrow> tmo_wf (tmo b a) b"
    using ok on by (simp_all add: timers_ok_def)
  have ct: "distinct (ct_events (common_timeout_queues b ! i)) \<and> sorted (map (tmo b) (ct_events (common_timeout_queues b ! i))) \<and>
      set (ct_events (common_timeout_queues b ! i)) = {a. evbit 0 b a \<and> magic_at i (tmo b a)}"
    if "i < length (common_timeout_queues b)" for i using ok that by (simp add: timers_ok_def)
  have sel: "tmo (?b1\<lparr>timeheap := h, common_timeout_queues := q\<rparr>) = tmo b"
    "evbit 0 (?b1\<lparr>timeheap := h, common_timeout_queues := q\<rparr>) a \<longleftrightarrow> evbit 0 b a \<and> a \<noteq> ev" for h q a
    using t1 bits [of a] by (simp_all add: tmo_def evbit_def fun_eq_iff)
  from wf_cases [OF tk(1,2)] show ?thesis
  proof (elim disjE exE conjE)
    assume s: "usec_small (tmo b ev)" "\<not> is_common_timeout (tmo b ev) b" "\<forall>i < length (common_timeout_queues b). \<not> magic_at i (tmo b ev)"
    have mem: "ev \<in># heap_elems (timeheap b)" using tk(5) on s(1) by simp
    let ?h = "snd (min_heap_erase (tmo b) (timeheap b) ev)"
    note e = min_heap_erase_elem [OF tk(3) mem]
    have dist: "heap_elems (timeheap b) = mset (take (hn (timeheap b)) (hp (timeheap b)))" "distinct (take (hn (timeheap b)) (hp (timeheap b)))"
      using tk(3) by (simp_all add: heap_elems_def min_heap_inv_def)
    have in_h: "a \<in># heap_elems ?h \<longleftrightarrow> a \<in># heap_elems (timeheap b) \<and> a \<noteq> ev" for a
      unfolding e(2) dist(1) using dist(2) by (auto simp: in_diff_count distinct_count_atmost_1 count_eq_zero_iff)
    have "timers_ok (?b1\<lparr>timeheap := ?h, common_timeout_queues := common_timeout_queues b\<rparr>)"
      unfolding timers_ok_def sel using e(1,3) tk ct s(3) in_h by (auto simp: tmo_wf_def)
    moreover have "event_queue_remove_timeout ev b = Done (?b1\<lparr>timeheap := ?h, common_timeout_queues := common_timeout_queues b\<rparr>)"
      using on s(2) t1 b1 by (simp add: event_queue_remove_timeout_def Let_def)
    ultimately show ?thesis using e(3,4) s(1) by (intro exI [of _ ?h] exI [of _ "common_timeout_queues b"]) simp
  next
    fix i assume s: "i < length (common_timeout_queues b)" "magic_at i (tmo b ev)" "is_common_timeout (tmo b ev) b"
      "COMMON_TIMEOUT_IDX (tmo b ev) = i" "\<not> usec_small (tmo b ev)" "\<forall>j < length (common_timeout_queues b). magic_at j (tmo b ev) \<longrightarrow> j = i"
    let ?q = "common_timeout_queues (upd_common i (remove1 ev) b)"
    have q: "length ?q = length (common_timeout_queues b)" "common_timeout_queues (upd_common i (remove1 ev) ?b1) = ?q"
      by (simp_all add: upd_common_def Let_def)
    have nth: "ct_events (?q ! j) = (if j = i then remove1 ev (ct_events (common_timeout_queues b ! i)) else ct_events (common_timeout_queues b ! j))"
      "timeout_event (?q ! j) = timeout_event (common_timeout_queues b ! j)" if "j < length (common_timeout_queues b)" for j
      by (rule upd_common_nth(2) [OF s(1) that], rule upd_common_nth(3) [OF that])
    have lists: "distinct (ct_events (?q ! j)) \<and> sorted (map (tmo b) (ct_events (?q ! j))) \<and>
        set (ct_events (?q ! j)) = {a. (evbit 0 b a \<and> a \<noteq> ev) \<and> magic_at j (tmo b a)}" if "j < length ?q" for j
      using nth [of j] ct [of j] ct [OF s(1)] that q(1) s(6) sorted_map_remove1 by auto
    have "timers_ok (?b1\<lparr>timeheap := timeheap b, common_timeout_queues := ?q\<rparr>)"
      unfolding timers_ok_def sel using tk s(5) q(1) lists by (auto simp: tmo_wf_def)
    moreover have "event_queue_remove_timeout ev b = Done (?b1\<lparr>timeheap := timeheap b, common_timeout_queues := ?q\<rparr>)"
      using on s(3,4) b1 q(2) upd_common_queues [of i "remove1 ev" ?b1] by (simp add: event_queue_remove_timeout_def Let_def)
    moreover have "map timeout_event ?q = map timeout_event (common_timeout_queues b)"
      by (rule nth_equalityI) (use q(1) nth(2) in auto)
    ultimately show ?thesis using s(1,2,5) q(1) nth by (intro exI [of _ "timeheap b"] exI [of _ ?q]) auto
  qed
qed

text \<open>Inserting from the end keeps a list in order.\<close>

lemma insert_inorder_rev_ok:
  assumes "sorted (map t (rev xs))" "\<forall>x \<in> set xs. is_same_common_timeout (t x) (t ev)" "distinct xs" "ev \<notin> set xs"
  shows "\<exists>ys. insert_inorder_rev t ev xs = Some ys \<and> sorted (map t (rev ys)) \<and> distinct ys \<and> set ys = insert ev (set xs)"
  using assms
proof (induction xs)
  case Nil
  then show ?case by simp
next
  case (Cons x xs)
  have srt: "sorted (map t (rev xs))" "\<forall>y \<in> set xs. t y \<le> t x" using Cons.prems(1) by (auto simp: sorted_append)
  show ?case
  proof (cases "t x \<le> t ev")
    case True
    then have "\<forall>y \<in> set (x # xs). t y \<le> t ev" using srt(2) by auto
    then show ?thesis using True Cons.prems by (auto simp: sorted_append)
  next
    case False
    obtain ys where ys: "insert_inorder_rev t ev xs = Some ys" "sorted (map t (rev ys))" "distinct ys" "set ys = insert ev (set xs)"
      using Cons.IH srt(1) Cons.prems by auto
    then have "\<forall>y \<in> set ys. t y \<le> t x" using srt(2) False by auto
    then show ?thesis using False Cons.prems ys by (auto simp: sorted_append)
  qed
qed

lemma timers_insert:
  assumes ok: "timers_ok b" and off: "\<not> evbit 0 b ev" and wf: "tmo_wf (tmo b ev) b"
    and room: "usec_small (tmo b ev) \<Longrightarrow> hn (timeheap b) + 1 \<le> ha (timeheap b)"
  shows "\<exists>h q. event_queue_insert_timeout al ev b =
      Done (b\<lparr>evs := (evs b)(ev := set_flag EVLIST_TIMEOUT (evs b ev)), event_count := plus_count ev b,
              event_count_max := max (event_count_max b) (plus_count ev b), timeheap := h, common_timeout_queues := q\<rparr>) \<and>
    timers_ok (b\<lparr>evs := (evs b)(ev := set_flag EVLIST_TIMEOUT (evs b ev)), event_count := plus_count ev b,
              event_count_max := max (event_count_max b) (plus_count ev b), timeheap := h, common_timeout_queues := q\<rparr>) \<and>
    length q = length (common_timeout_queues b) \<and> map timeout_event q = map timeout_event (common_timeout_queues b) \<and>
    ha h = ha (timeheap b)"
proof -
  let ?b1 = "b\<lparr>evs := (evs b)(ev := set_flag EVLIST_TIMEOUT (evs b ev)), event_count := plus_count ev b,
    event_count_max := max (event_count_max b) (plus_count ev b)\<rparr>"
  have b1: "upd_event ev (set_flag EVLIST_TIMEOUT) (INCR_EVENT_COUNT (evcb_flags (evs b ev)) b) = ?b1"
    by (simp add: upd_event_def INCR_EVENT_COUNT_def plus_count_def evbit_def Let_def)
  have t1: "tmo ?b1 = tmo b" by (simp add: tmo_def fun_eq_iff)
  have bits: "evbit 0 ?b1 a \<longleftrightarrow> evbit 0 b a \<or> a = ev" for a
    using marked_upd [of EVLIST_TIMEOUT 0 ?b1 b ev] by (auto simp: marked_def)
  have tk: "length (common_timeout_queues b) \<le> MAX_COMMON_TIMEOUTS"
    "min_heap_inv (tmo b) (timeheap b)" "ha (timeheap b) < 2 ^ 59"
    "\<And>a. a \<in># heap_elems (timeheap b) \<longleftrightarrow> evbit 0 b a \<and> usec_small (tmo b a)"
    "\<And>a. evbit 0 b a \<Longrightarrow> tmo_wf (tmo b a) b"
    using ok by (simp_all add: timers_ok_def)
  have ct: "distinct (ct_events (common_timeout_queues b ! i)) \<and> sorted (map (tmo b) (ct_events (common_timeout_queues b ! i))) \<and>
      set (ct_events (common_timeout_queues b ! i)) = {a. evbit 0 b a \<and> magic_at i (tmo b a)}"
    if "i < length (common_timeout_queues b)" for i using ok that by (simp add: timers_ok_def)
  have sel: "tmo (?b1\<lparr>timeheap := h, common_timeout_queues := q\<rparr>) = tmo b"
    "evbit 0 (?b1\<lparr>timeheap := h, common_timeout_queues := q\<rparr>) a \<longleftrightarrow> evbit 0 b a \<or> a = ev" for h q a
    using t1 bits [of a] by (simp_all add: tmo_def evbit_def fun_eq_iff)
  from wf_cases [OF tk(1) wf] show ?thesis
  proof (elim disjE exE conjE)
    assume s: "usec_small (tmo b ev)" "\<not> is_common_timeout (tmo b ev) b" "\<forall>i < length (common_timeout_queues b). \<not> magic_at i (tmo b ev)"
    have "ev \<notin># heap_elems (timeheap b)" using tk(4) off by simp
    from min_heap_push_reserved [OF tk(2,3) room [OF s(1)] this, of al] obtain h where
      h: "min_heap_push al (tmo b) (timeheap b) ev = (0, h)" "min_heap_inv (tmo b) h"
      "heap_elems h = add_mset ev (heap_elems (timeheap b))" "ha h = ha (timeheap b)" by blast
    have "timers_ok (?b1\<lparr>timeheap := h, common_timeout_queues := common_timeout_queues b\<rparr>)"
      unfolding timers_ok_def sel using h tk ct s wf by (auto simp: tmo_wf_def)
    moreover have "event_queue_insert_timeout al ev b = Done (?b1\<lparr>timeheap := h, common_timeout_queues := common_timeout_queues b\<rparr>)"
      using off s(2) t1 b1 h(1) by (simp add: event_queue_insert_timeout_def Let_def)
    ultimately show ?thesis using h(4) by (intro exI [of _ h] exI [of _ "common_timeout_queues b"]) simp
  next
    fix i assume s: "i < length (common_timeout_queues b)" "magic_at i (tmo b ev)" "is_common_timeout (tmo b ev) b"
      "COMMON_TIMEOUT_IDX (tmo b ev) = i" "\<not> usec_small (tmo b ev)" "\<forall>j < length (common_timeout_queues b). magic_at j (tmo b ev) \<longrightarrow> j = i"
    let ?es = "ct_events (common_timeout_queues b ! i)"
    have same: "\<forall>x \<in> set (rev ?es). is_same_common_timeout (tmo b x) (tmo b ev)" using ct [OF s(1)] s(2) magic_at_same by auto
    obtain ys where ys: "insert_inorder_rev (tmo b) ev (rev ?es) = Some ys" "sorted (map (tmo b) (rev ys))" "distinct ys" "set ys = insert ev (set ?es)"
      using insert_inorder_rev_ok [of "tmo b" "rev ?es" ev] same ct [OF s(1)] off by auto
    let ?q = "common_timeout_queues (upd_common i (\<lambda>_. rev ys) b)"
    have q: "length ?q = length (common_timeout_queues b)" "common_timeout_queues (upd_common i (\<lambda>_. rev ys) ?b1) = ?q"
      "map timeout_event ?q = map timeout_event (common_timeout_queues b)"
      by (simp_all add: upd_common_def Let_def map_update list_update_same_conv s(1))
    have nth: "ct_events (?q ! j) = (if j = i then rev ys else ct_events (common_timeout_queues b ! j))" if "j < length (common_timeout_queues b)" for j
      using upd_common_nth(2) [OF s(1) that] that by auto
    have lists: "distinct (ct_events (?q ! j)) \<and> sorted (map (tmo b) (ct_events (?q ! j))) \<and>
        set (ct_events (?q ! j)) = {a. (evbit 0 b a \<or> a = ev) \<and> magic_at j (tmo b a)}" if "j < length ?q" for j
    proof (cases "j = i")
      case True
      then show ?thesis using nth [of j] ct [OF s(1)] that q(1) s(2) ys(2-4) by auto
    next
      case False
      then have "\<not> magic_at j (tmo b ev)" using s(6) that q(1) by auto
      then show ?thesis using nth [of j] ct [of j] that q(1) False by auto
    qed
    have "timers_ok (?b1\<lparr>timeheap := timeheap b, common_timeout_queues := ?q\<rparr>)"
      unfolding timers_ok_def sel using tk s(5) q(1) lists wf by (auto simp: tmo_wf_def)
    moreover have "event_queue_insert_timeout al ev b = Done (?b1\<lparr>timeheap := timeheap b, common_timeout_queues := ?q\<rparr>)"
      using off s(3,4) b1 q(2) ys(1) t1 upd_common_queues [of i "\<lambda>_. rev ys" ?b1]
      by (simp add: event_queue_insert_timeout_def insert_common_timeout_inorder_def Let_def)
    ultimately show ?thesis using q(1,3) by (intro exI [of _ "timeheap b"] exI [of _ ?q]) auto
  qed
qed

end
