(* ===== verification/Event_Loop.thy ===== *)
theory Event_Loop
  imports Event_Base
begin

text \<open>
  The loop of \<^verbatim>\<open>src/event.c\<close>: timeouts, the closures that run callbacks, processing the active queues
  and \<^verbatim>\<open>event_base_loop\<close>. \<open>user\<close> are the callbacks of the program, by the address of their event; a
  callback sees the base and may change it in any way. A loop that callbacks can prolong takes the
  number of turns it may make and gives \<open>None\<close> when that is not enough.
\<close>

section \<open>Timeouts\<close>

text \<open>The time to wait, \<open>None\<close> when there is no timeout.\<close>

definition timeout_next :: "'k event_base \<Rightarrow> (timeval option \<times> 'k event_base) outcome" where
  "timeout_next b =
     (case min_heap_top (timeheap b) of None \<Rightarrow> Done (None, b)
      | Some ev \<Rightarrow>
          (let (now, b1) = gettime b in
           if evutil_timercmp_le (tmo b1 ev) now then Done (Some evutil_timerclear, b1)
           else
             (let tv = evutil_timersub (tmo b1 ev) now in
              if tv_sec tv \<ge> 0 \<and> tv_usec tv \<ge> 0 then Done (Some tv, b1) else Aborted)))"

text \<open>Delete an event and activate it for its timeout.\<close>

definition expire :: "'k base_env \<Rightarrow> nat \<Rightarrow> 'k event_base \<Rightarrow> 'k event_base outcome" where
  "expire E ev b = bind_outcome (event_del_nolock E ev EVENT_DEL_NOBLOCK b) (\<lambda>(r, b1). event_active_nolock ev EV_TIMEOUT 1 b1)"

fun timeout_process_loop :: "nat \<Rightarrow> 'k base_env \<Rightarrow> timeval \<Rightarrow> 'k event_base \<Rightarrow> 'k event_base outcome option" where
  "timeout_process_loop fuel E now b =
     (case min_heap_top (timeheap b) of None \<Rightarrow> Some (Done b)
      | Some ev \<Rightarrow>
          if evutil_timercmp_gt (tmo b ev) now then Some (Done b)
          else (case fuel of 0 \<Rightarrow> None
                | Suc n \<Rightarrow> (case expire E ev b of Aborted \<Rightarrow> Some Aborted | Done b1 \<Rightarrow> timeout_process_loop n E now b1)))"

declare timeout_process_loop.simps [simp del]

text \<open>Every turn takes one element off the heap, so its size bounds the number of turns.\<close>

definition timeout_process :: "'k base_env \<Rightarrow> 'k event_base \<Rightarrow> 'k event_base outcome option" where
  "timeout_process E b =
     (if min_heap_empty (timeheap b) then Some (Done b)
      else (let (now, b1) = gettime b in timeout_process_loop (min_heap_size (timeheap b1)) E now b1))"

fun common_timeout_expire :: "nat \<Rightarrow> 'k base_env \<Rightarrow> nat \<Rightarrow> timeval \<Rightarrow> 'k event_base \<Rightarrow> 'k event_base outcome option" where
  "common_timeout_expire fuel E i now b =
     (case ct_events (common_timeout_queues b ! i) of [] \<Rightarrow> Some (Done b)
      | ev # es \<Rightarrow>
          if evutil_timercmp_gt (mask_usec (tmo b ev)) now then Some (Done b)
          else (case fuel of 0 \<Rightarrow> None
                | Suc n \<Rightarrow> (case expire E ev b of Aborted \<Rightarrow> Some Aborted | Done b1 \<Rightarrow> common_timeout_expire n E i now b1)))"

declare common_timeout_expire.simps [simp del]

definition common_timeout_callback :: "'k base_env \<Rightarrow> nat \<Rightarrow> 'k event_base \<Rightarrow> 'k event_base outcome option" where
  "common_timeout_callback E i b =
     (let (now, b1) = gettime b in
      case common_timeout_expire (length (ct_events (common_timeout_queues b1 ! i))) E i now b1 of
        None \<Rightarrow> None
      | Some Aborted \<Rightarrow> Some Aborted
      | Some (Done b2) \<Rightarrow>
          (case ct_events (common_timeout_queues b2 ! i) of [] \<Rightarrow> Some (Done b2)
           | ev # es \<Rightarrow> Some (bind_outcome (common_timeout_schedule E i ev b2) (\<lambda>(r, b3). Done b3))))"

text \<open>
  \<^verbatim>\<open>event_base_init_common_timeout\<close>; \<open>a\<close> is the address of the internal event of a new list. The result
  is the duration with its magic value.
\<close>

definition norm_duration :: "timeval \<Rightarrow> 'k event_base \<Rightarrow> timeval" where
  "norm_duration d b =
     (if tv_usec d > 1000000 then
        (let us = (if is_common_timeout d b then tv_usec d AND MICROSECONDS_MASK else tv_usec d)
         in Timeval (tv_sec d + us div 1000000) (us mod 1000000))
      else d)"

definition event_base_init_common_timeout ::
  "(nat \<Rightarrow> bool) \<Rightarrow> nat \<Rightarrow> timeval \<Rightarrow> 'k event_base \<Rightarrow> (timeval option \<times> 'k event_base) outcome" where
  "event_base_init_common_timeout ok a dur b =
     (let d = norm_duration dur b; qs = common_timeout_queues b; n = length qs in
      case find (\<lambda>ctl. tv_sec d = tv_sec (duration ctl) \<and> tv_usec d = tv_usec (duration ctl) AND MICROSECONDS_MASK) qs of
        Some ctl \<Rightarrow> (if is_common_timeout (duration ctl) b then Done (Some (duration ctl), b) else Aborted)
      | None \<Rightarrow>
          if n = MAX_COMMON_TIMEOUTS then Done (None, b)
          else
            (let m = (if n < 16 then 16 else n * 2); full = (n_common_timeouts_allocated b = n) in
             if full \<and> \<not> ok (m * 8) then Done (None, b)
             else
               (let b1 = (if full then b\<lparr>n_common_timeouts_allocated := m\<rparr> else b) in
                if \<not> ok 168 then Done (None, b1)
                else
                  (let result = Timeval (tv_sec d) ((tv_usec d OR COMMON_TIMEOUT_MAGIC) OR push_bit COMMON_TIMEOUT_IDX_SHIFT (int n));
                       (r, b2) = event_assign a (-1) 0 b1;
                       b3 = upd_event a (set_flag EVLIST_INTERNAL) b2;
                       (q, b4) = event_priority_set a 0 b3;
                       b5 = b4\<lparr>common_timeout_queues := qs @ [\<lparr>ct_events = [], duration = result, timeout_event = a\<rparr>]\<rparr>
                   in if is_common_timeout result b5 then Done (Some result, b5) else Aborted))))"

section \<open>Closures\<close>

text \<open>The callbacks that the source installs itself, and the ones of the program.\<close>

type_synonym 'k callbacks = "nat \<Rightarrow> u16 \<Rightarrow> 'k event_base \<Rightarrow> 'k event_base outcome option"

definition find_ctl :: "nat \<Rightarrow> 'k event_base \<Rightarrow> nat option" where
  "find_ctl ev b = find (\<lambda>i. timeout_event (common_timeout_queues b ! i) = ev) [0..<length (common_timeout_queues b)]"

definition run_callback :: "'k base_env \<Rightarrow> 'k callbacks \<Rightarrow> 'k callbacks" where
  "run_callback E user ev res b =
     (case find_ctl ev b of Some i \<Rightarrow> common_timeout_callback E i b | None \<Rightarrow> user ev res b)"

definition bind_oo :: "'a outcome option \<Rightarrow> ('a \<Rightarrow> 'b outcome option) \<Rightarrow> 'b outcome option" where
  "bind_oo m f = (case m of None \<Rightarrow> None | Some Aborted \<Rightarrow> Some Aborted | Some (Done x) \<Rightarrow> f x)"

lemma bind_oo_simps [simp]: "bind_oo None f = None" "bind_oo (Some Aborted) f = Some Aborted" "bind_oo (Some (Done x)) f = f x"
  by (simp_all add: bind_oo_def)

text \<open>
  The loop of \<^verbatim>\<open>event_signal_closure\<close>: \<open>n\<close> is the local variable, which other functions can set to zero
  through \<^verbatim>\<open>ev_pncalls\<close> while the callback runs. The variable is a \<^verbatim>\<open>short\<close>; \<open>n\<close> is its value modulo
  $2^{16}$, which is the number of times it can be decremented before it is zero.
\<close>

fun signal_closure_loop :: "'k base_env \<Rightarrow> 'k callbacks \<Rightarrow> nat \<Rightarrow> nat \<Rightarrow> 'k event_base \<Rightarrow> 'k event_base outcome option" where
  "signal_closure_loop E user ev 0 b = Some (Done b)"
| "signal_closure_loop E user ev (Suc n) b =
     (let b1 = upd_event ev (\<lambda>e. e\<lparr>ev_ncalls := n, ev_pncalls := (if n = 0 then False else ev_pncalls e)\<rparr>) (b\<lparr>sig_ncalls := n\<rparr>)
      in bind_oo (run_callback E user ev (ev_res (evs b1 ev)) b1) (\<lambda>b2.
           let m = (if sig_ncalls b2 = 0 then 0 else n) in
           if event_break b2 then Some (Done (if m \<noteq> 0 then upd_event ev (\<lambda>e. e\<lparr>ev_pncalls := False\<rparr>) b2 else b2))
           else if m = 0 then Some (Done b2) else signal_closure_loop E user ev n b2))"

definition event_signal_closure :: "'k base_env \<Rightarrow> 'k callbacks \<Rightarrow> nat \<Rightarrow> 'k event_base \<Rightarrow> 'k event_base outcome option" where
  "event_signal_closure E user ev b =
     (let n = ev_ncalls (evs b ev) in
      signal_closure_loop E user ev n (if n \<noteq> 0 then upd_event ev (\<lambda>e. e\<lparr>ev_pncalls := True\<rparr>) b else b))"

text \<open>When a persistent event with a timeout runs again.\<close>

definition persist_run_at :: "event \<Rightarrow> timeval \<Rightarrow> 'k event_base \<Rightarrow> timeval" where
  "persist_run_at e now b =
     (let common = is_common_timeout (ev_timeout e) b;
          delay = (if common then mask_usec (ev_io_timeout e) else ev_io_timeout e);
          usec_mask = (if common then tv_usec (ev_io_timeout e) AND NOT MICROSECONDS_MASK else 0);
          relative_to = (if has (ev_res e) EV_TIMEOUT then (if common then mask_usec (ev_timeout e) else ev_timeout e) else now);
          run0 = evutil_timeradd relative_to delay;
          run_at = (if evutil_timercmp_lt run0 now then evutil_timeradd now delay else run0)
      in Timeval (tv_sec run_at) (tv_usec run_at OR usec_mask))"

definition event_persist_closure :: "'k base_env \<Rightarrow> 'k callbacks \<Rightarrow> nat \<Rightarrow> 'k event_base \<Rightarrow> 'k event_base outcome option" where
  "event_persist_closure E user ev b =
     bind_oo
       (if evutil_timerisset (ev_io_timeout (evs b ev)) then
          (if \<not> is_same_common_timeout (ev_timeout (evs b ev)) (ev_io_timeout (evs b ev)) then Some Aborted
           else
             (let (now, b1) = gettime b in
              Some (bind_outcome (event_add_nolock E ev (Some (persist_run_at (evs b1 ev) now b1)) True b1) (\<lambda>(r, b2). Done b2))))
        else Some (Done b))
       (\<lambda>b1. run_callback E user ev (ev_res (evs b1 ev)) b1)"

definition run_closure :: "'k base_env \<Rightarrow> 'k callbacks \<Rightarrow> nat \<Rightarrow> bool \<Rightarrow> 'k event_base \<Rightarrow> 'k event_base outcome option" where
  "run_closure E user ev is_event b =
     (case evcb_closure (evs b ev) of
        EV_CLOSURE_EVENT_SIGNAL \<Rightarrow> (if is_event then event_signal_closure E user ev b else Some Aborted)
      | EV_CLOSURE_EVENT_PERSIST \<Rightarrow> (if is_event then event_persist_closure E user ev b else Some Aborted)
      | EV_CLOSURE_EVENT \<Rightarrow> (if is_event then run_callback E user ev (ev_res (evs b ev)) b else Some Aborted)
      | EV_CLOSURE_CB_SELF \<Rightarrow> run_callback E user ev 0 b
      | EV_CLOSURE_CB_FINALIZE \<Rightarrow>
          (if flag b ev EVLIST_FINALIZING then run_callback E user ev 0 (b\<lparr>current_event := None\<rparr>) else Some Aborted)
      | _ \<Rightarrow> (if is_event \<and> flag b ev EVLIST_FINALIZING
              then run_callback E user ev 0 (b\<lparr>current_event := None\<rparr>) else Some Aborted))"

section \<open>Processing the active queues\<close>

text \<open>One element: it leaves the queue (a non-persistent event is deleted) and its closure runs.\<close>

definition process_one :: "'k base_env \<Rightarrow> 'k callbacks \<Rightarrow> nat \<Rightarrow> 'k event_base \<Rightarrow> 'k event_base outcome option" where
  "process_one E user ev b =
     (let is_event = flag b ev EVLIST_INIT in
      bind_oo
        (Some (if is_event \<and> \<not> (has (ev_events (evs b ev)) EV_PERSIST \<or> flag b ev EVLIST_FINALIZING)
               then bind_outcome (event_del_nolock E ev EVENT_DEL_NOBLOCK b) (\<lambda>(r, b1). Done b1)
               else event_queue_remove_active ev b))
        (\<lambda>b1. bind_oo (run_closure E user ev is_event (b1\<lparr>current_event := Some ev\<rparr>))
                 (\<lambda>b2. Some (Done (b2\<lparr>current_event := None\<rparr>)))))"

fun event_process_active_single_queue ::
  "nat \<Rightarrow> 'k base_env \<Rightarrow> 'k callbacks \<Rightarrow> nat \<Rightarrow> int \<Rightarrow> timeval option \<Rightarrow> int \<Rightarrow> 'k event_base \<Rightarrow> (int \<times> 'k event_base) outcome option"
  where
  "event_process_active_single_queue fuel E user i max_to_process endtime n b =
     (case activequeues b ! i of [] \<Rightarrow> Some (Done (n, b))
      | ev # _ \<Rightarrow>
        (case fuel of 0 \<Rightarrow> None
         | Suc f \<Rightarrow>
           (let n1 = n + (if flag b ev EVLIST_INTERNAL then 0 else 1) in
            bind_oo (process_one E user ev b) (\<lambda>b1.
              if event_break b1 then Some (Done (-1, b1))
              else if n1 \<ge> max_to_process then Some (Done (n1, b1))
              else
                (let (late, b2) =
                   (case endtime of None \<Rightarrow> (False, b1)
                    | Some t \<Rightarrow> if n1 = 0 then (False, b1)
                        else (let (now, b3) = gettime (update_time_cache b1) in (evutil_timercmp_ge now t, b3)))
                 in if late \<or> event_continue b2 then Some (Done (n1, b2))
                    else event_process_active_single_queue f E user i max_to_process endtime n1 b2)))))"

declare event_process_active_single_queue.simps [simp del]

fun process_queues ::
  "nat \<Rightarrow> 'k base_env \<Rightarrow> 'k callbacks \<Rightarrow> int \<Rightarrow> int \<Rightarrow> timeval option \<Rightarrow> nat list \<Rightarrow> 'k event_base \<Rightarrow> (int \<times> 'k event_base) outcome option" where
  "process_queues fuel E user limit maxcb endtime [] b = Some (Done (0, b))"
| "process_queues fuel E user limit maxcb endtime (i # is) b =
     (if activequeues b ! i = [] then process_queues fuel E user limit maxcb endtime is b
      else
        (let b1 = b\<lparr>event_running_priority := int i\<rparr> in
         bind_oo
           (if int i < limit
            then event_process_active_single_queue fuel E user i INT_MAX None 0 b1
            else event_process_active_single_queue fuel E user i maxcb endtime 0 b1)
           (\<lambda>(c, b2). if c \<noteq> 0 then Some (Done (c, b2)) else process_queues fuel E user limit maxcb endtime is b2)))"

definition event_process_active :: "nat \<Rightarrow> 'k base_env \<Rightarrow> 'k callbacks \<Rightarrow> 'k event_base \<Rightarrow> (int \<times> 'k event_base) outcome option" where
  "event_process_active fuel E user b =
     (let (endtime, b1) =
            (if tv_sec (max_dispatch_time b) \<ge> 0 then
               (let (now, b1) = gettime (update_time_cache b) in (Some (evutil_timeradd (max_dispatch_time b) now), b1))
             else (None, b))
      in bind_oo (process_queues fuel E user (limit_callbacks_after_prio b) (max_dispatch_callbacks b) endtime [0..<length (activequeues b1)] b1)
           (\<lambda>(c, b2). Some (Done (c, b2\<lparr>event_running_priority := -1\<rparr>))))"

section \<open>The loop\<close>

definition EVLOOP_ONCE :: u16 where "EVLOOP_ONCE = 0x01"
definition EVLOOP_NONBLOCK :: u16 where "EVLOOP_NONBLOCK = 0x02"
definition EVLOOP_NO_EXIT_ON_EMPTY :: u16 where "EVLOOP_NO_EXIT_ON_EMPTY = 0x04"

text \<open>
  The parts of one turn: the wait for the backend, which activates events (the parameter \<open>dispatch\<close>
  is the member of the backend), and what follows it. The second result of \<open>loop_work\<close> is \<^verbatim>\<open>done\<close>.
\<close>

type_synonym 'k dispatcher = "'k event_base \<Rightarrow> timeval option \<Rightarrow> (int \<times> 'k event_base) outcome"

definition loop_wait :: "u16 \<Rightarrow> 'k event_base \<Rightarrow> (timeval option \<times> 'k event_base) outcome" where
  "loop_wait fl b =
     (if event_count_active b = 0 \<and> \<not> has fl EVLOOP_NONBLOCK then timeout_next b else Done (Some evutil_timerclear, b))"

definition loop_work :: "nat \<Rightarrow> 'k base_env \<Rightarrow> 'k callbacks \<Rightarrow> u16 \<Rightarrow> 'k event_base \<Rightarrow> (bool \<times> 'k event_base) outcome option" where
  "loop_work fuel E user fl b =
     bind_oo (timeout_process E (update_time_cache b)) (\<lambda>b1.
       if event_count_active b1 \<noteq> 0 then
         bind_oo (event_process_active fuel E user b1) (\<lambda>(n, b2).
           Some (Done (has fl EVLOOP_ONCE \<and> event_count_active b2 = 0 \<and> n \<noteq> 0, b2)))
       else Some (Done (has fl EVLOOP_NONBLOCK, b1)))"

fun event_base_loop_turns ::
  "nat \<Rightarrow> 'k base_env \<Rightarrow> 'k dispatcher \<Rightarrow> 'k callbacks \<Rightarrow> u16 \<Rightarrow> 'k event_base \<Rightarrow> (int \<times> 'k event_base) outcome option" where
  "event_base_loop_turns 0 E dispatch user fl b = None"
| "event_base_loop_turns (Suc fuel) E dispatch user fl b =
     (let b0 = b\<lparr>event_continue := False, n_deferreds_queued := 0\<rparr> in
      if event_gotterm b0 \<or> event_break b0 then Some (Done (0, b0))
      else bind_oo (Some (loop_wait fl b0)) (\<lambda>(tv, b1).
        if \<not> has fl EVLOOP_NO_EXIT_ON_EMPTY \<and> \<not> event_haveevents b1 \<and> event_count_active b1 = 0 then Some (Done (1, b1))
        else bind_oo (Some (event_queue_make_later_events_active b1)) (\<lambda>b2.
          bind_oo (Some (dispatch (clear_time_cache b2) tv)) (\<lambda>(res, b3).
            if res = -1 then Some (Done (-1, b3))
            else bind_oo (loop_work fuel E user fl b3) (\<lambda>(finished, b4).
              if finished then Some (Done (0, b4)) else event_base_loop_turns fuel E dispatch user fl b4)))))"

definition event_base_loop ::
  "nat \<Rightarrow> 'k base_env \<Rightarrow> 'k dispatcher \<Rightarrow> 'k callbacks \<Rightarrow> u16 \<Rightarrow> 'k event_base \<Rightarrow> (int \<times> 'k event_base) outcome option" where
  "event_base_loop fuel E dispatch user fl b =
     (if running_loop b then Some (Done (-1, b))
      else
        (let b1 = clear_time_cache (b\<lparr>running_loop := True\<rparr>);
             b2 = b1\<lparr>backend := sig_set_base E (backend b1), event_gotterm := False, event_break := False\<rparr>
         in bind_oo (event_base_loop_turns fuel E dispatch user fl b2)
              (\<lambda>(r, b3). Some (Done (r, (clear_time_cache b3)\<lparr>running_loop := False\<rparr>)))))"

definition event_base_loopbreak :: "'k event_base \<Rightarrow> 'k event_base" where
  "event_base_loopbreak b = b\<lparr>event_break := True\<rparr>"

definition event_base_loopcontinue :: "'k event_base \<Rightarrow> 'k event_base" where
  "event_base_loopcontinue b = b\<lparr>event_continue := True\<rparr>"

end
