(* ===== verification/Base_Inv.thy ===== *)
theory Base_Inv
  imports Event_Inv Event_Loop
begin

text \<open>
  The invariant of a whole event base of \<^verbatim>\<open>src/event.c\<close>, and that the operations on the queues,
  deleting and activating keep it. What the operations rely on in \<^verbatim>\<open>src/evmap.c\<close> is the locale \<open>evmaps\<close>, interpreted in \<open>Base_Epoll\<close> on the maps over the
  epoll backend and the signal backend.
\<close>

section \<open>The interface of the maps\<close>

text \<open>The maps hold every registered event but those with a negative descriptor.\<close>

definition stored :: "event \<Rightarrow> bool" where
  "stored e \<longleftrightarrow> ev_events e AND IO_EVENTS = 0 \<or> 0 \<le> ev_fd e"

text \<open>\<^verbatim>\<open>event_assign\<close> refuses an event that waits for a signal and a descriptor.\<close>

definition unmixed :: "event \<Rightarrow> bool" where
  "unmixed e \<longleftrightarrow> \<not> (ev_events e AND IO_EVENTS \<noteq> 0 \<and> has (ev_events e) EV_SIGNAL)"

text \<open>An event that waits for a descriptor or a signal is registered when it is added.\<close>

definition wants :: "event \<Rightarrow> bool" where
  "wants e \<longleftrightarrow> ev_events e AND IO_EVENTS \<noteq> 0 \<or> has (ev_events e) EV_SIGNAL"

definition maps_del :: "'k base_env \<Rightarrow> nat \<Rightarrow> 'k event_base \<Rightarrow> (int \<times> 'k event_base) outcome" where
  "maps_del E ev b =
     (if ev_events (evs b ev) AND IO_EVENTS \<noteq> 0 then evmap_io_del (evsel E) b (ev_fd (evs b ev)) ev
      else evmap_signal_del (evsigsel E) b (ev_fd (evs b ev)) ev)"

definition maps_add :: "'k base_env \<Rightarrow> nat \<Rightarrow> 'k event_base \<Rightarrow> (int \<times> 'k event_base) outcome" where
  "maps_add E ev b =
     (if ev_events (evs b ev) AND IO_EVENTS \<noteq> 0
      then evmap_io_add (debug_mode E) (alloc_ok E) (evsel E) b (ev_fd (evs b ev)) ev
      else evmap_signal_add (alloc_ok E) (evsigsel E) b (ev_fd (evs b ev)) ev)"

definition same_maps :: "'k event_base \<Rightarrow> 'k event_base \<Rightarrow> bool" where
  "same_maps b b' \<longleftrightarrow> io b' = io b \<and> sigmap b' = sigmap b \<and> backend b' = backend b \<and>
     (\<forall>a. ev_fd (evs b' a) = ev_fd (evs b a) \<and> ev_events (evs b' a) = ev_events (evs b a))"

locale evmaps =
  fixes E :: "'k base_env"
    and maps :: "'k event_base \<Rightarrow> bool"
    and regd :: "'k event_base \<Rightarrow> nat \<Rightarrow> bool"
  assumes maps_frame: "same_maps b b' \<Longrightarrow> maps b \<Longrightarrow> maps b'"
    and regd_frame: "same_maps b b' \<Longrightarrow> regd b' a = regd b a"
    and maps_del_ok: "maps b \<Longrightarrow> stored (evs b ev) \<Longrightarrow> regd b ev \<Longrightarrow>
      \<exists>r m s k. maps_del E ev b = Done (r, b\<lparr>io := m, sigmap := s, backend := k\<rparr>) \<and>
        maps (b\<lparr>io := m, sigmap := s, backend := k\<rparr>) \<and>
        (\<forall>a. regd (b\<lparr>io := m, sigmap := s, backend := k\<rparr>) a \<longleftrightarrow> regd b a \<and> a \<noteq> ev)"
    and maps_add_ok: "maps b \<Longrightarrow> stored (evs b ev) \<Longrightarrow> unmixed (evs b ev) \<Longrightarrow> \<not> regd b ev \<Longrightarrow>
      \<exists>r m s k. maps_add E ev b = Done (r, b\<lparr>io := m, sigmap := s, backend := k\<rparr>) \<and> r \<in> {-1, 0, 1} \<and>
        maps (b\<lparr>io := m, sigmap := s, backend := k\<rparr>) \<and>
        (\<forall>a. regd (b\<lparr>io := m, sigmap := s, backend := k\<rparr>) a \<longleftrightarrow> regd b a \<or> a = ev \<and> r \<noteq> -1)"

section \<open>The invariant\<close>

text \<open>
  Only the flags of \<^verbatim>\<open>EVLIST_ALL\<close> are used, an event that is being finalized has no timeout, and an event
  on a queue has the priority of an active queue.
\<close>

definition event_ok :: "'k event_base \<Rightarrow> nat \<Rightarrow> bool" where
  "event_ok b a \<longleftrightarrow> (\<forall>j \<ge> 8. \<not> evbit j b a) \<and> (evbit 6 b a \<longrightarrow> \<not> evbit 0 b a) \<and>
     (\<forall>k \<in> QUEUES. evbit k b a \<longrightarrow> evcb_pri (evs b a) < length (activequeues b))"

definition base_inv :: "('k event_base \<Rightarrow> bool) \<Rightarrow> ('k event_base \<Rightarrow> nat \<Rightarrow> bool) \<Rightarrow> 'k event_base \<Rightarrow> bool" where
  "base_inv maps regd b \<longleftrightarrow> queues_ok b \<and> timers_ok b \<and> counts_ok b \<and> maps b \<and>
     (\<forall>a. stored (evs b a) \<longrightarrow> (regd b a \<longleftrightarrow> evbit 1 b a)) \<and> (\<forall>a. event_ok b a)"

text \<open>What an operation leaves alone besides the results of the events in \<open>X\<close>.\<close>

definition same_data :: "nat set \<Rightarrow> 'k event_base \<Rightarrow> 'k event_base \<Rightarrow> bool" where
  "same_data X b b' \<longleftrightarrow>
     (\<forall>a. a \<notin> X \<longrightarrow> ev_res (evs b' a) = ev_res (evs b a)) \<and>
     (\<forall>a. evcb_pri (evs b' a) = evcb_pri (evs b a) \<and> evcb_closure (evs b' a) = evcb_closure (evs b a) \<and>
        ev_fd (evs b' a) = ev_fd (evs b a) \<and> ev_events (evs b' a) = ev_events (evs b a) \<and>
        ev_timeout (evs b' a) = ev_timeout (evs b a) \<and> ev_io_timeout (evs b' a) = ev_io_timeout (evs b a)) \<and>
     clock b' = clock b \<and> tick b' = tick b \<and> tv_cache b' = tv_cache b \<and> length (activequeues b') = length (activequeues b) \<and>
     ha (timeheap b') = ha (timeheap b) \<and> map timeout_event (common_timeout_queues b') = map timeout_event (common_timeout_queues b)"

text \<open>Taking an event off several queues.\<close>

definition off_queues :: "nat set \<Rightarrow> nat \<Rightarrow> 'k event_base \<Rightarrow> 'k event_base \<Rightarrow> bool" where
  "off_queues K ev b b' \<longleftrightarrow> (\<forall>j a. evbit j b' a \<longleftrightarrow> evbit j b a \<and> \<not> (a = ev \<and> j \<in> K))"

lemma off_queues_cleared: "cleared k ev b b' \<Longrightarrow> off_queues {k} ev b b'"
  by (simp add: off_queues_def cleared_def)

lemma off_queues_trans: "off_queues K ev b b1 \<Longrightarrow> off_queues L ev b1 b2 \<Longrightarrow> off_queues (K \<union> L) ev b b2"
  by (auto simp: off_queues_def)

lemma off_queues_same: "(\<And>j a. evbit j b' a = evbit j b a) \<Longrightarrow> (\<And>k. k \<in> K \<Longrightarrow> \<not> evbit k b ev) \<Longrightarrow> off_queues K ev b b'"
  by (auto simp: off_queues_def)

lemma same_data_refl [simp]: "same_data X b b"
  by (simp add: same_data_def)

lemma same_data_trans: "same_data X b b1 \<Longrightarrow> same_data X b1 b2 \<Longrightarrow> same_data X b b2"
  by (simp add: same_data_def)

lemma same_data_mono: "same_data X b b' \<Longrightarrow> X \<subseteq> Y \<Longrightarrow> same_data Y b b'"
  by (auto simp: same_data_def)

text \<open>An event goes to the active queue of its priority.\<close>

definition activated :: "nat \<Rightarrow> 'k event_base \<Rightarrow> 'k event_base \<Rightarrow> bool" where
  "activated ev b b' \<longleftrightarrow> (\<forall>j a. evbit j b' a \<longleftrightarrow> a = ev \<and> j = 3 \<or> evbit j b a \<and> \<not> (a = ev \<and> j = 5))"

lemma common_length:
  "map timeout_event (common_timeout_queues b') = map timeout_event (common_timeout_queues b) \<Longrightarrow>
     length (common_timeout_queues b') = length (common_timeout_queues b)"
  by (metis length_map)

lemma timers_card:
  assumes "timers_ok b"
  shows "finite {a. evbit 0 b a \<and> usec_small (tmo b a)}" "hn (timeheap b) = card {a. evbit 0 b a \<and> usec_small (tmo b a)}"
proof -
  let ?xs = "take (hn (timeheap b)) (hp (timeheap b))"
  have h: "distinct ?xs" "hn (timeheap b) \<le> length (hp (timeheap b))" "\<And>a. a \<in># mset ?xs \<longleftrightarrow> evbit 0 b a \<and> usec_small (tmo b a)"
    using assms by (simp_all add: timers_ok_def min_heap_inv_def heap_elems_def)
  then have "set ?xs = {a. evbit 0 b a \<and> usec_small (tmo b a)}" by auto
  then show "finite {a. evbit 0 b a \<and> usec_small (tmo b a)}" "hn (timeheap b) = card {a. evbit 0 b a \<and> usec_small (tmo b a)}"
    using distinct_card [OF h(1)] h(2) by (metis List.finite_set, simp)
qed

lemma all_flags: "evcb_flags (evs b a) AND NOT EVLIST_ALL = 0 \<longleftrightarrow> (\<forall>j \<ge> 8. \<not> evbit j b a)"
proof -
  have m: "EVLIST_ALL = mask 8" by (simp add: EVLIST_ALL_def mask_eq_exp_minus_1)
  have "evcb_flags (evs b a) AND NOT EVLIST_ALL = 0 \<longleftrightarrow> (\<forall>j. \<not> bit (evcb_flags (evs b a) AND NOT EVLIST_ALL) j)"
    unfolding bit_eq_iff using bit_imp_le_length [of "evcb_flags (evs b a) AND NOT EVLIST_ALL"] by auto
  also have "\<dots> \<longleftrightarrow> (\<forall>j \<ge> 8. \<not> evbit j b a)"
    unfolding bit_and_not m bit_mask_iff evbit_def using bit_imp_le_length [of "evcb_flags (evs b a)"] by (auto simp: not_less)
  finally show ?thesis .
qed

text \<open>The time of the base.\<close>

lemma gettime_frame: "gettime b = (now, b') \<Longrightarrow> \<exists>n. b' = b\<lparr>tick := n\<rparr>"
  by (auto simp: gettime_def split: if_splits intro: exI [of _ "tick b"])

lemma counts_cong:
  assumes "\<And>j a. evbit j b' a = evbit j b a" "event_count b' = event_count b" "event_count_active b' = event_count_active b"
  shows "counts_ok b' = counts_ok b"
  by (simp add: counts_ok_def on_queue_def counted_def assms)

lemma upd_flag_fields [simp]:
  "evcb_pri (((evs b)(ev := clear_flag m (evs b ev))) a) = evcb_pri (evs b a)"
  "ev_timeout (((evs b)(ev := clear_flag m (evs b ev))) a) = ev_timeout (evs b a)"
  "evcb_pri (((evs b)(ev := set_flag m (evs b ev))) a) = evcb_pri (evs b a)"
  "ev_timeout (((evs b)(ev := set_flag m (evs b ev))) a) = ev_timeout (evs b a)"
  by simp_all

lemma event_ok_cleared:
  assumes "event_ok b a" "cleared k ev b b'" "evcb_pri (evs b' a) = evcb_pri (evs b a)"
    "length (activequeues b') = length (activequeues b)"
  shows "event_ok b' a"
  using assms by (auto simp: event_ok_def cleared_def)

lemma event_ok_marked:
  assumes "event_ok b a" "marked k ev b b'" "evcb_pri (evs b' a) = evcb_pri (evs b a)"
    "length (activequeues b') = length (activequeues b)" "k < 8" "k = 0 \<Longrightarrow> \<not> evbit 6 b ev" "k \<noteq> 6"
    "evcb_pri (evs b ev) < length (activequeues b)"
  shows "event_ok b' a"
  using assms by (auto simp: event_ok_def marked_def)

context evmaps
begin

text \<open>Operations on the timeouts and the active queues do not concern the maps.\<close>

lemma maps_kept:
  assumes "base_inv maps regd b" "same_maps b b'" "\<And>a. evbit 1 b' a = evbit 1 b a"
  shows "maps b'" "stored (evs b' a) \<longrightarrow> (regd b' a \<longleftrightarrow> evbit 1 b' a)"
proof -
  show "maps b'" using assms maps_frame by (auto simp: base_inv_def)
  have "stored (evs b' a) = stored (evs b a)" using assms(2) by (simp add: same_maps_def stored_def)
  then show "stored (evs b' a) \<longrightarrow> (regd b' a \<longleftrightarrow> evbit 1 b' a)"
    using assms regd_frame [OF assms(2)] by (simp add: base_inv_def)
qed

lemma inv_cleared:
  assumes inv: "base_inv maps regd b" and c: "cleared k ev b b'" and parts: "queues_ok b'" "timers_ok b'" "counts_ok b'"
    and same: "same_maps b b'" "\<And>a. evcb_pri (evs b' a) = evcb_pri (evs b a)" "length (activequeues b') = length (activequeues b)"
    and k: "k \<noteq> 1"
  shows "base_inv maps regd b'"
proof -
  have "evbit 1 b' a = evbit 1 b a" for a using c k by (auto simp: cleared_def)
  note m = maps_kept [OF inv same(1) this]
  have "event_ok b' a" for a
    by (rule event_ok_cleared [OF _ c same(2,3)]) (use inv in \<open>simp add: base_inv_def\<close>)
  then show ?thesis using parts m by (simp add: base_inv_def)
qed

lemma inv_marked:
  assumes inv: "base_inv maps regd b" and c: "marked k ev b b'" and parts: "queues_ok b'" "timers_ok b'" "counts_ok b'"
    and same: "same_maps b b'" "\<And>a. evcb_pri (evs b' a) = evcb_pri (evs b a)" "length (activequeues b') = length (activequeues b)"
    and k: "k \<in> {0, 3, 5}" "k = 0 \<Longrightarrow> \<not> evbit 6 b ev" and p: "evcb_pri (evs b ev) < length (activequeues b)"
  shows "base_inv maps regd b'"
proof -
  have "evbit 1 b' a = evbit 1 b a" for a using c k by (auto simp: marked_def)
  note m = maps_kept [OF inv same(1) this]
  have "event_ok b' a" for a
    by (rule event_ok_marked [OF _ c same(2,3) _ k(2) _ p]) (use inv k(1) in \<open>auto simp: base_inv_def\<close>)
  then show ?thesis using parts m by (simp add: base_inv_def)
qed

lemma base_remove_active:
  assumes inv: "base_inv maps regd b" and on: "evbit 3 b ev"
  shows "\<exists>b'. event_queue_remove_active ev b = Done b' \<and> base_inv maps regd b' \<and> cleared 3 ev b b' \<and> same_data {} b b'"
proof -
  let ?p = "evcb_pri (evs b ev)"
  define b' where "b' = b\<lparr>evs := (evs b)(ev := clear_flag EVLIST_ACTIVE (evs b ev)), event_count := minus_count ev b,
    event_count_active := event_count_active b - 1, activequeues := (activequeues b)[?p := remove1 ev (activequeues b ! ?p)]\<rparr>"
  have op: "event_queue_remove_active ev b = Done b'"
    using on by (simp add: event_queue_remove_active_def Let_def remove_from_active_def upd_event_def DECR_EVENT_COUNT_def
        minus_count_def evbit_def b'_def)
  have c: "cleared 3 ev b b'" by (rule cleared_upd [of EVLIST_ACTIVE]) (simp_all add: b'_def)
  then have bits: "evbit j b' a = evbit j b a" if "j \<noteq> 3" for j a using that by (auto simp: cleared_def)
  have q: "queues_ok b'"
    by (rule queues_remove_active [OF _ on c]) (use inv in \<open>simp_all add: base_inv_def b'_def\<close>)
  have t: "timers_ok b'"
    by (rule timers_cong [of b' b]) (use inv bits in \<open>simp_all add: base_inv_def b'_def tmo_def\<close>)
  have n: "counts_ok b'"
    by (rule counts_cleared [OF _ c on]) (use inv in \<open>simp_all add: base_inv_def QUEUES_def b'_def minus_count_def\<close>)
  have "base_inv maps regd b'"
    by (rule inv_cleared [OF inv c q t n]) (simp_all add: same_maps_def b'_def)
  then show ?thesis using op c by (auto simp: same_data_def b'_def)
qed

lemma base_remove_later:
  assumes inv: "base_inv maps regd b" and on: "evbit 5 b ev"
  shows "\<exists>b'. event_queue_remove_active_later ev b = Done b' \<and> base_inv maps regd b' \<and> cleared 5 ev b b' \<and> same_data {} b b'"
proof -
  define b' where "b' = b\<lparr>evs := (evs b)(ev := clear_flag EVLIST_ACTIVE_LATER (evs b ev)), event_count := minus_count ev b,
    event_count_active := event_count_active b - 1, active_later_queue := remove1 ev (active_later_queue b)\<rparr>"
  have op: "event_queue_remove_active_later ev b = Done b'"
    using on by (simp add: event_queue_remove_active_later_def Let_def upd_event_def DECR_EVENT_COUNT_def
        minus_count_def evbit_def b'_def)
  have c: "cleared 5 ev b b'" by (rule cleared_upd [of EVLIST_ACTIVE_LATER]) (simp_all add: b'_def)
  then have bits: "evbit j b' a = evbit j b a" if "j \<noteq> 5" for j a using that by (auto simp: cleared_def)
  have q: "queues_ok b'"
    by (rule queues_remove_later [OF _ c]) (use inv in \<open>simp_all add: base_inv_def b'_def\<close>)
  have t: "timers_ok b'"
    by (rule timers_cong [of b' b]) (use inv bits in \<open>simp_all add: base_inv_def b'_def tmo_def\<close>)
  have n: "counts_ok b'"
    by (rule counts_cleared [OF _ c on]) (use inv in \<open>simp_all add: base_inv_def QUEUES_def b'_def minus_count_def\<close>)
  have "base_inv maps regd b'"
    by (rule inv_cleared [OF inv c q t n]) (simp_all add: same_maps_def b'_def)
  then show ?thesis using op c by (auto simp: same_data_def b'_def)
qed

lemma base_insert_active:
  assumes inv: "base_inv maps regd b" and off: "\<not> evbit 3 b ev" "\<not> evbit 5 b ev"
    and p: "evcb_pri (evs b ev) < length (activequeues b)"
  shows "\<exists>b'. event_queue_insert_active ev b = Done b' \<and> base_inv maps regd b' \<and> marked 3 ev b b' \<and> same_data {} b b'"
proof -
  let ?p = "evcb_pri (evs b ev)"
  define b' where "b' = b\<lparr>evs := (evs b)(ev := set_flag EVLIST_ACTIVE (evs b ev)), event_count := plus_count ev b,
    event_count_max := max (event_count_max b) (plus_count ev b), event_count_active := event_count_active b + 1,
    event_count_active_max := max (event_count_active_max b) (event_count_active b + 1),
    activequeues := (activequeues b)[?p := activequeues b ! ?p @ [ev]]\<rparr>"
  have op: "event_queue_insert_active ev b = Done b'"
    using off p by (simp add: event_queue_insert_active_def Let_def append_active_def upd_event_def INCR_EVENT_COUNT_def
        incr_active_count_def plus_count_def evbit_def b'_def)
  have c: "marked 3 ev b b'" by (rule marked_upd [of EVLIST_ACTIVE]) (simp_all add: b'_def)
  then have bits: "evbit j b' a = evbit j b a" if "j \<noteq> 3" for j a using that by (auto simp: marked_def)
  have q: "queues_ok b'"
    by (rule queues_insert_active [OF _ off c p]) (use inv in \<open>simp_all add: base_inv_def b'_def\<close>)
  have t: "timers_ok b'"
    by (rule timers_cong [of b' b]) (use inv bits in \<open>simp_all add: base_inv_def b'_def tmo_def\<close>)
  have n: "counts_ok b'"
    by (rule counts_marked [OF _ c off(1)]) (use inv in \<open>simp_all add: base_inv_def QUEUES_def b'_def plus_count_def\<close>)
  have "base_inv maps regd b'"
    by (rule inv_marked [OF inv c q t n _ _ _ _ _ p]) (simp_all add: same_maps_def b'_def)
  then show ?thesis using op c by (auto simp: same_data_def b'_def)
qed

lemma base_insert_later:
  assumes inv: "base_inv maps regd b" and off: "\<not> evbit 3 b ev" "\<not> evbit 5 b ev"
    and p: "evcb_pri (evs b ev) < length (activequeues b)"
  shows "\<exists>b'. event_queue_insert_active_later ev b = Done b' \<and> base_inv maps regd b' \<and> marked 5 ev b b' \<and> same_data {} b b'"
proof -
  define b' where "b' = b\<lparr>evs := (evs b)(ev := set_flag EVLIST_ACTIVE_LATER (evs b ev)), event_count := plus_count ev b,
    event_count_max := max (event_count_max b) (plus_count ev b), event_count_active := event_count_active b + 1,
    event_count_active_max := max (event_count_active_max b) (event_count_active b + 1),
    active_later_queue := active_later_queue b @ [ev]\<rparr>"
  have op: "event_queue_insert_active_later ev b = Done b'"
    using off p by (simp add: event_queue_insert_active_later_def Let_def upd_event_def INCR_EVENT_COUNT_def
        incr_active_count_def plus_count_def evbit_def b'_def)
  have c: "marked 5 ev b b'" by (rule marked_upd [of EVLIST_ACTIVE_LATER]) (simp_all add: b'_def)
  then have bits: "evbit j b' a = evbit j b a" if "j \<noteq> 5" for j a using that by (auto simp: marked_def)
  have q: "queues_ok b'"
    by (rule queues_insert_later [OF _ off c p]) (use inv in \<open>simp_all add: base_inv_def b'_def\<close>)
  have t: "timers_ok b'"
    by (rule timers_cong [of b' b]) (use inv bits in \<open>simp_all add: base_inv_def b'_def tmo_def\<close>)
  have n: "counts_ok b'"
    by (rule counts_marked [OF _ c off(2)]) (use inv in \<open>simp_all add: base_inv_def QUEUES_def b'_def plus_count_def\<close>)
  have "base_inv maps regd b'"
    by (rule inv_marked [OF inv c q t n _ _ _ _ _ p]) (simp_all add: same_maps_def b'_def)
  then show ?thesis using op c by (auto simp: same_data_def b'_def)
qed

lemma base_remove_timeout:
  assumes inv: "base_inv maps regd b" and on: "evbit 0 b ev"
  shows "\<exists>b'. event_queue_remove_timeout ev b = Done b' \<and> base_inv maps regd b' \<and> cleared 0 ev b b' \<and> same_data {} b b'"
proof -
  have "timers_ok b" using inv by (simp add: base_inv_def)
  from timers_remove [OF this on] obtain h q where
    op: "event_queue_remove_timeout ev b = Done (b\<lparr>evs := (evs b)(ev := clear_flag EVLIST_TIMEOUT (evs b ev)),
      event_count := minus_count ev b, timeheap := h, common_timeout_queues := q\<rparr>)"
    and t: "timers_ok (b\<lparr>evs := (evs b)(ev := clear_flag EVLIST_TIMEOUT (evs b ev)),
      event_count := minus_count ev b, timeheap := h, common_timeout_queues := q\<rparr>)"
    and q: "length q = length (common_timeout_queues b)"
      "map timeout_event q = map timeout_event (common_timeout_queues b)" "ha h = ha (timeheap b)" by metis
  define b' where "b' = b\<lparr>evs := (evs b)(ev := clear_flag EVLIST_TIMEOUT (evs b ev)),
      event_count := minus_count ev b, timeheap := h, common_timeout_queues := q\<rparr>"
  have c: "cleared 0 ev b b'" by (rule cleared_upd [of EVLIST_TIMEOUT]) (simp_all add: b'_def)
  then have bits: "evbit j b' a = evbit j b a" if "j \<noteq> 0" for j a using that by (auto simp: cleared_def)
  have qs: "queues_ok b'"
    using queues_cong [of b' b] bits inv by (simp add: base_inv_def b'_def)
  have n: "counts_ok b'"
    by (rule counts_cleared [OF _ c on]) (use inv in \<open>simp_all add: base_inv_def QUEUES_def b'_def minus_count_def\<close>)
  have "base_inv maps regd b'"
    by (rule inv_cleared [OF inv c qs _ n]) (use t in \<open>simp_all add: same_maps_def b'_def\<close>)
  then show ?thesis using op c q by (auto simp: same_data_def b'_def)
qed

lemma base_insert_timeout:
  assumes inv: "base_inv maps regd b" and off: "\<not> evbit 0 b ev" "\<not> evbit 6 b ev" and tw: "tmo_wf (tmo b ev) b"
    and room: "usec_small (tmo b ev) \<Longrightarrow> hn (timeheap b) + 1 \<le> ha (timeheap b)"
    and p: "evcb_pri (evs b ev) < length (activequeues b)"
  shows "\<exists>b'. event_queue_insert_timeout al ev b = Done b' \<and> base_inv maps regd b' \<and> marked 0 ev b b' \<and> same_data {} b b'"
proof -
  have "timers_ok b" using inv by (simp add: base_inv_def)
  from timers_insert [OF this off(1) tw room, of al] obtain h q where
    op: "event_queue_insert_timeout al ev b = Done (b\<lparr>evs := (evs b)(ev := set_flag EVLIST_TIMEOUT (evs b ev)), event_count := plus_count ev b,
              event_count_max := max (event_count_max b) (plus_count ev b), timeheap := h, common_timeout_queues := q\<rparr>)"
    and t: "timers_ok (b\<lparr>evs := (evs b)(ev := set_flag EVLIST_TIMEOUT (evs b ev)), event_count := plus_count ev b,
              event_count_max := max (event_count_max b) (plus_count ev b), timeheap := h, common_timeout_queues := q\<rparr>)"
    and q: "map timeout_event q = map timeout_event (common_timeout_queues b)" "ha h = ha (timeheap b)" by blast
  define b' where "b' = b\<lparr>evs := (evs b)(ev := set_flag EVLIST_TIMEOUT (evs b ev)), event_count := plus_count ev b,
              event_count_max := max (event_count_max b) (plus_count ev b), timeheap := h, common_timeout_queues := q\<rparr>"
  have c: "marked 0 ev b b'" by (rule marked_upd [of EVLIST_TIMEOUT]) (simp_all add: b'_def)
  then have bits: "evbit j b' a = evbit j b a" if "j \<noteq> 0" for j a using that by (auto simp: marked_def)
  have qs: "queues_ok b'"
    using queues_cong [of b' b] bits inv by (simp add: base_inv_def b'_def)
  have n: "counts_ok b'"
    by (rule counts_marked [OF _ c off(1)]) (use inv in \<open>simp_all add: base_inv_def QUEUES_def b'_def plus_count_def\<close>)
  have "base_inv maps regd b'"
    by (rule inv_marked [OF inv c qs _ n _ _ _ _ _ p]) (use t off(2) in \<open>simp_all add: same_maps_def b'_def\<close>)
  then show ?thesis using op c q by (auto simp: same_data_def b'_def)
qed

section \<open>Deleting\<close>

lemma base_del_timeout:
  assumes "base_inv maps regd b"
  shows "\<exists>b'. event_del_timeout ev b = Done b' \<and> base_inv maps regd b' \<and> off_queues {0} ev b b' \<and> same_data {} b b'"
proof (cases "evbit 0 b ev")
  case True
  then show ?thesis using base_remove_timeout [OF assms True] off_queues_cleared by (fastforce simp: event_del_timeout_def)
next
  case False
  then show ?thesis using assms off_queues_same [of b b "{0}" ev] by (simp add: event_del_timeout_def)
qed

lemma base_del_active:
  assumes "base_inv maps regd b"
  shows "\<exists>b'. event_del_active ev b = Done b' \<and> base_inv maps regd b' \<and> off_queues {3, 5} ev b b' \<and> same_data {} b b'"
proof -
  have excl: "\<not> (evbit 3 b ev \<and> evbit 5 b ev)" using assms by (simp add: base_inv_def queues_ok_def)
  then have off: "off_queues {3, 5} ev b b'" if "cleared 3 ev b b' \<and> evbit 3 b ev \<or> cleared 5 ev b b' \<and> evbit 5 b ev" for b'
    using that by (auto simp: off_queues_def cleared_def)
  consider "evbit 3 b ev" | "\<not> evbit 3 b ev" "evbit 5 b ev" | "\<not> evbit 3 b ev" "\<not> evbit 5 b ev" by blast
  then show ?thesis
  proof cases
    case 1
    then show ?thesis using base_remove_active [OF assms 1] off by (fastforce simp: event_del_active_def)
  next
    case 2
    then show ?thesis using base_remove_later [OF assms 2(2)] off by (fastforce simp: event_del_active_def)
  next
    case 3
    then show ?thesis using assms off_queues_same [of b b "{3, 5}" ev] by (auto simp: event_del_active_def)
  qed
qed

lemma base_del_inserted:
  assumes inv: "base_inv maps regd b"
  shows "\<exists>r b'. event_del_inserted E ev b = Done (r, b') \<and> base_inv maps regd b' \<and> off_queues {1} ev b b' \<and> same_data {} b b'"
proof (cases "evbit 1 b ev")
  case False
  then show ?thesis using inv off_queues_same [of b b "{1}" ev] by (simp add: event_del_inserted_def)
next
  case True
  define b1 where "b1 = b\<lparr>evs := (evs b)(ev := clear_flag EVLIST_INSERTED (evs b ev)), event_count := minus_count ev b\<rparr>"
  have c: "cleared 1 ev b b1" by (rule cleared_upd [of EVLIST_INSERTED]) (simp_all add: b1_def)
  have same: "same_maps b b1" by (simp add: same_maps_def b1_def)
  have rest: "base_inv maps regd b2" if b2: "b2 = b1\<lparr>io := m, sigmap := s, backend := k\<rparr>" and m: "maps b2"
    and r: "\<And>a. stored (evs b2 a) \<Longrightarrow> regd b2 a \<longleftrightarrow> regd b a \<and> a \<noteq> ev" for b2 m s k
  proof -
    have c2: "cleared 1 ev b b2" using c by (simp add: cleared_def evbit_def b2)
    then have bits: "evbit j b2 a = evbit j b a" if "j \<noteq> 1" for j a using that by (auto simp: cleared_def)
    have q: "queues_ok b2" using queues_cong [of b2 b] bits inv by (simp add: base_inv_def b2 b1_def)
    have t: "timers_ok b2"
      by (rule timers_cong [of b2 b]) (use inv bits in \<open>simp_all add: base_inv_def b2 b1_def tmo_def\<close>)
    have n: "counts_ok b2"
      by (rule counts_cleared [OF _ c2 True]) (use inv in \<open>simp_all add: base_inv_def QUEUES_def b2 b1_def minus_count_def\<close>)
    have e: "event_ok b2 a" for a
      by (rule event_ok_cleared [OF _ c2]) (use inv in \<open>simp_all add: base_inv_def b2 b1_def\<close>)
    have "stored (evs b2 a) = stored (evs b a)" for a by (simp add: stored_def b2 b1_def)
    then have "regd b2 a \<longleftrightarrow> evbit 1 b2 a" if "stored (evs b2 a)" for a
      using r [OF that] that inv c2 by (auto simp: base_inv_def cleared_def)
    then show ?thesis using q t n e m by (simp add: base_inv_def)
  qed
  have "event_queue_remove_inserted ev b = Done b1"
    using True by (simp add: event_queue_remove_inserted_def b1_def upd_event_def DECR_EVENT_COUNT_def minus_count_def evbit_def)
  then have unf: "event_del_inserted E ev b = bind_outcome (maps_del E ev b1) (\<lambda>(res, b2). Done (if res = 1 then 0 else res, b2))"
    using True by (simp add: event_del_inserted_def maps_del_def)
  have eff: "off_queues {1} ev b (b1\<lparr>io := m, sigmap := s, backend := k\<rparr>) \<and> same_data {} b (b1\<lparr>io := m, sigmap := s, backend := k\<rparr>)" for m s k
    using c by (simp add: off_queues_def cleared_def evbit_def same_data_def b1_def)
  have m1: "maps b1" "regd b1 a = regd b a" for a
    using inv maps_frame [OF same] regd_frame [OF same] by (simp_all add: base_inv_def)
  show ?thesis
  proof (cases "stored (evs b ev)")
    case True
    then have st: "stored (evs b1 ev)" by (simp add: stored_def b1_def)
    have "regd b1 ev" using inv m1(2) True \<open>evbit 1 b ev\<close> by (simp add: base_inv_def)
    from maps_del_ok [OF m1(1) st this] obtain r m s k where
      d: "maps_del E ev b1 = Done (r, b1\<lparr>io := m, sigmap := s, backend := k\<rparr>)" "maps (b1\<lparr>io := m, sigmap := s, backend := k\<rparr>)"
      "\<forall>a. regd (b1\<lparr>io := m, sigmap := s, backend := k\<rparr>) a \<longleftrightarrow> regd b1 a \<and> a \<noteq> ev" by blast
    have "base_inv maps regd (b1\<lparr>io := m, sigmap := s, backend := k\<rparr>)" by (rule rest [OF refl d(2)]) (use d(3) m1(2) in simp)
    then show ?thesis using unf d(1) eff by auto
  next
    case False
    then have "maps_del E ev b1 = Done (0, b1)" by (simp add: maps_del_def stored_def evmap_io_del_def b1_def)
    moreover have "base_inv maps regd (b1\<lparr>io := io b1, sigmap := sigmap b1, backend := backend b1\<rparr>)"
      by (rule rest [OF refl]) (use m1 False in \<open>auto simp: stored_def b1_def split: if_splits\<close>)
    ultimately show ?thesis using unf eff [where m = "io b1" and s = "sigmap b1" and k = "backend b1"] by auto
  qed
qed

text \<open>Fields that the invariant does not look at.\<close>

lemma inv_cong:
  assumes inv: "base_inv maps regd b" and flags: "\<And>a. evcb_flags (evs b' a) = evcb_flags (evs b a)"
    and fields: "\<And>a. evcb_pri (evs b' a) = evcb_pri (evs b a)" "\<And>a. evbit 0 b a \<Longrightarrow> tmo b' a = tmo b a"
    and same: "same_maps b b'" "timeheap b' = timeheap b" "common_timeout_queues b' = common_timeout_queues b"
      "activequeues b' = activequeues b" "active_later_queue b' = active_later_queue b"
      "event_count b' = event_count b" "event_count_active b' = event_count_active b"
  shows "base_inv maps regd b'"
proof -
  have bits: "evbit j b' a = evbit j b a" for j a by (simp add: evbit_def flags)
  have q: "queues_ok b'" using queues_cong [of b' b] bits fields(1) same inv by (simp add: base_inv_def)
  have t: "timers_ok b'" by (rule timers_cong [of b' b]) (use inv bits fields(2) same in \<open>simp_all add: base_inv_def\<close>)
  have "counts_ok b' = counts_ok b" by (rule counts_cong) (simp_all add: bits same)
  moreover have "event_ok b' a = event_ok b a" for a using fields(1) same by (simp add: event_ok_def bits)
  moreover note maps_kept [OF inv same(1) bits]
  ultimately show ?thesis using q t inv by (simp add: base_inv_def)
qed

lemma base_del:
  assumes inv: "base_inv maps regd b" and fin: "blocking = EVENT_DEL_EVEN_IF_FINALIZING \<or> \<not> evbit 6 b ev"
  shows "\<exists>r b'. event_del_nolock E ev blocking b = Done (r, b') \<and> base_inv maps regd b' \<and> off_queues QUEUES ev b b' \<and> same_data {} b b'"
proof -
  let ?a = "abort_signal_loop ev b"
  have a: "base_inv maps regd ?a"
    by (rule inv_cong [OF inv]) (simp_all add: abort_signal_loop_def same_maps_def tmo_def)
  have ea: "evbit j ?a x = evbit j b x" "same_data {} b ?a" for j x by (simp_all add: abort_signal_loop_def evbit_def same_data_def)
  obtain b1 where b1: "event_del_timeout ev ?a = Done b1" "base_inv maps regd b1" "off_queues {0} ev ?a b1" "same_data {} ?a b1"
    using base_del_timeout [OF a] by blast
  obtain b2 where b2: "event_del_active ev b1 = Done b2" "base_inv maps regd b2" "off_queues {3, 5} ev b1 b2" "same_data {} b1 b2"
    using base_del_active [OF b1(2)] by blast
  obtain r b3 where b3: "event_del_inserted E ev b2 = Done (r, b3)" "base_inv maps regd b3" "off_queues {1} ev b2 b3" "same_data {} b2 b3"
    using base_del_inserted [OF b2(2)] by blast
  have "off_queues ({0} \<union> {3, 5} \<union> {1}) ev ?a b3" by (rule off_queues_trans [OF off_queues_trans [OF b1(3) b2(3)] b3(3)])
  then have "off_queues QUEUES ev b b3" by (auto simp: off_queues_def QUEUES_def ea(1))
  moreover have "same_data {} b b3" using ea(2) b1(4) b2(4) b3(4) same_data_trans by blast
  moreover have "evcb_flags (evs b ev) AND NOT EVLIST_ALL = 0" unfolding all_flags using inv by (simp add: base_inv_def event_ok_def)
  ultimately show ?thesis using b1(1) b2(1) b3(1,2) fin by (auto simp: event_del_nolock_def)
qed

section \<open>Activating\<close>

lemma base_activate:
  assumes inv: "base_inv maps regd b" and fin: "\<not> evbit 6 b ev" and p: "evcb_pri (evs b ev) < length (activequeues b)"
  shows "\<exists>b'. event_callback_activate_nolock ev b = Done (if evbit 3 b ev \<or> evbit 5 b ev then 0 else 1, b') \<and>
    base_inv maps regd b' \<and> activated ev b b' \<and> same_data {} b b'"
proof -
  have excl: "\<not> (evbit 3 b ev \<and> evbit 5 b ev)" using inv by (simp add: base_inv_def queues_ok_def)
  consider "evbit 3 b ev" "\<not> evbit 5 b ev" | "\<not> evbit 3 b ev" "evbit 5 b ev" | "\<not> evbit 3 b ev" "\<not> evbit 5 b ev" using excl by blast
  then show ?thesis
  proof cases
    case 1
    then have "activated ev b b" by (auto simp: activated_def)
    then show ?thesis using 1 inv fin by (simp add: event_callback_activate_nolock_def)
  next
    case 2
    obtain b1 where b1: "event_queue_remove_active_later ev b = Done b1" "base_inv maps regd b1" "cleared 5 ev b b1" "same_data {} b b1"
      using base_remove_later [OF inv 2(2)] by blast
    have off: "\<not> evbit 3 b1 ev" "\<not> evbit 5 b1 ev" "evcb_pri (evs b1 ev) < length (activequeues b1)"
      using 2 b1(3,4) p by (simp_all add: cleared_def same_data_def)
    obtain b2 where b2: "event_queue_insert_active ev b1 = Done b2" "base_inv maps regd b2" "marked 3 ev b1 b2" "same_data {} b1 b2"
      using base_insert_active [OF b1(2) off] by blast
    have "activated ev b b2" using b1(3) b2(3) by (auto simp: activated_def cleared_def marked_def)
    then show ?thesis using 2 fin b1(1) b2(1,2) same_data_trans [OF b1(4) b2(4)] by (simp add: event_callback_activate_nolock_def)
  next
    case 3
    obtain b2 where b2: "event_queue_insert_active ev b = Done b2" "base_inv maps regd b2" "marked 3 ev b b2" "same_data {} b b2"
      using base_insert_active [OF inv 3 p] by blast
    have "activated ev b b2" using b2(3) 3 by (auto simp: activated_def marked_def)
    then show ?thesis using 3 fin b2 by (simp add: event_callback_activate_nolock_def)
  qed
qed

lemma base_active:
  assumes inv: "base_inv maps regd b" and fin: "\<not> evbit 6 b ev" and p: "evcb_pri (evs b ev) < length (activequeues b)"
  shows "\<exists>b'. event_active_nolock ev res ncalls b = Done b' \<and> base_inv maps regd b' \<and> activated ev b b' \<and> same_data {ev} b b' \<and>
    ev_res (evs b' ev) = (if evbit 3 b ev \<or> evbit 5 b ev then ev_res (evs b ev) OR res else res)"
proof -
  have excl: "\<not> (evbit 3 b ev \<and> evbit 5 b ev)" using inv by (simp add: base_inv_def queues_ok_def)
  show ?thesis
  proof (cases "evbit 3 b ev")
    case True
    let ?b = "upd_event ev (\<lambda>e. e\<lparr>ev_res := ev_res e OR res\<rparr>) b"
    have "event_active_nolock ev res ncalls b = Done ?b" using True fin excl by (simp add: event_active_nolock_def)
    moreover have "base_inv maps regd ?b"
      by (rule inv_cong [OF inv]) (simp_all add: upd_event_def same_maps_def tmo_def)
    moreover have "activated ev b ?b" using True excl by (auto simp: activated_def evbit_def upd_event_def)
    ultimately show ?thesis using True by (auto simp: same_data_def upd_event_def)
  next
    case False
    define b1 where "b1 = upd_event ev (\<lambda>e. e\<lparr>ev_res := if evbit 5 b ev then ev_res e OR res else res\<rparr>) b"
    define b2 where "b2 = (if int (evcb_pri (evs b1 ev)) < event_running_priority b1 then b1\<lparr>event_continue := True\<rparr> else b1)"
    define b3 where "b3 = (if has (ev_events (evs b2 ev)) EV_SIGNAL
        then upd_event ev (\<lambda>e. e\<lparr>ev_ncalls := ncalls mod 2 ^ 16, ev_pncalls := False\<rparr>) b2 else b2)"
    have op: "event_active_nolock ev res ncalls b = bind_outcome (event_callback_activate_nolock ev b3) (\<lambda>(r, b4). Done b4)"
      using False fin excl unfolding event_active_nolock_def b3_def b2_def b1_def Let_def by simp
    have inv3: "base_inv maps regd b3"
      by (rule inv_cong [OF inv]) (simp_all add: b3_def b2_def b1_def upd_event_def same_maps_def tmo_def)
    have bits: "evbit j b3 a = evbit j b a" for j a by (simp add: b3_def b2_def b1_def upd_event_def evbit_def)
    have d: "same_data {ev} b b3" "ev_res (evs b3 ev) = (if evbit 5 b ev then ev_res (evs b ev) OR res else res)"
      by (simp_all add: b3_def b2_def b1_def upd_event_def same_data_def)
    have "\<not> evbit 6 b3 ev" "evcb_pri (evs b3 ev) < length (activequeues b3)" using fin p bits d(1) by (simp_all add: same_data_def)
    from base_activate [OF inv3 this] obtain r b4 where b4: "event_callback_activate_nolock ev b3 = Done (r, b4)" "base_inv maps regd b4"
      "activated ev b3 b4" "same_data {} b3 b4" by blast
    have "activated ev b b4" using b4(3) bits by (simp add: activated_def)
    moreover have "same_data {ev} b b4" using d(1) b4(4) by (simp add: same_data_def)
    moreover have "ev_res (evs b4 ev) = ev_res (evs b3 ev)" using b4(4) by (simp add: same_data_def)
    ultimately show ?thesis using op b4(1,2) d(2) False by simp
  qed
qed

end

end
