(* ===== verification/Base_Timeouts.thy ===== *)
theory Base_Timeouts
  imports Base_Inv
begin

text \<open>
  The processing of timeouts in \<^verbatim>\<open>src/event.c\<close>: both loops end within the turns the model gives them, and
  they activate exactly the events that are due.
\<close>

section \<open>Expired events\<close>

text \<open>Events leave every queue and go to the active queues with the result \<^verbatim>\<open>EV_TIMEOUT\<close>.\<close>

definition expired :: "nat set \<Rightarrow> 'k event_base \<Rightarrow> 'k event_base \<Rightarrow> bool" where
  "expired X b b' \<longleftrightarrow>
     (\<forall>j a. evbit j b' a \<longleftrightarrow> (if a \<in> X then j = 3 \<or> evbit j b a \<and> j \<notin> QUEUES else evbit j b a)) \<and>
     (\<forall>a \<in> X. ev_res (evs b' a) = EV_TIMEOUT)"

lemma expired_empty: "expired {} b b"
  by (simp add: expired_def)

lemma expired_insert:
  assumes "expired {ev} b b1" "same_data {ev} b b1" "expired X b1 b2" "same_data X b1 b2" "ev \<notin> X"
  shows "expired (insert ev X) b b2 \<and> same_data (insert ev X) b b2"
  using assms unfolding expired_def same_data_def by auto

text \<open>The events in the heap whose timeout is not later than \<open>now\<close>.\<close>

definition due :: "timeval \<Rightarrow> 'k event_base \<Rightarrow> nat set" where
  "due now b = {a. evbit 0 b a \<and> usec_small (tmo b a) \<and> tmo b a \<le> now}"

text \<open>The events of a common timeout that are due, and the order of their times without the magic value.\<close>

definition due_common :: "nat \<Rightarrow> timeval \<Rightarrow> 'k event_base \<Rightarrow> nat set" where
  "due_common i now b = {a. evbit 0 b a \<and> magic_at i (tmo b a) \<and> mask_usec (tmo b a) \<le> now}"

lemma mask_usec_mono:
  assumes "magic_at i t" "magic_at i u" "t \<le> u"
  shows "mask_usec t \<le> mask_usec u"
proof -
  have split: "x = (x AND MICROSECONDS_MASK) + (x AND NOT MICROSECONDS_MASK)" for x :: int
  proof -
    have "(x AND MICROSECONDS_MASK) AND (x AND NOT MICROSECONDS_MASK) = 0" "(x AND MICROSECONDS_MASK) OR (x AND NOT MICROSECONDS_MASK) = x"
      by (rule bit_eqI, auto simp: bit_simps)+
    then show ?thesis using plus_and_or [of "x AND MICROSECONDS_MASK" "x AND NOT MICROSECONDS_MASK"] by simp
  qed
  have "tv_usec t AND NOT MICROSECONDS_MASK = tv_usec u AND NOT MICROSECONDS_MASK" using assms(1,2) by (simp add: magic_at_def)
  then have "tv_usec t \<le> tv_usec u \<longleftrightarrow> tv_usec t AND MICROSECONDS_MASK \<le> tv_usec u AND MICROSECONDS_MASK"
    using split [of "tv_usec t"] split [of "tv_usec u"] by linarith
  then show ?thesis using assms(3) by (auto simp: mask_usec_def less_eq_timeval_def)
qed

context evmaps
begin

section \<open>Processing timeouts\<close>

lemma base_expire:
  assumes inv: "base_inv maps regd b" and on: "evbit 0 b ev"
  shows "\<exists>b'. expire E ev b = Done b' \<and> base_inv maps regd b' \<and> expired {ev} b b' \<and> same_data {ev} b b'"
proof -
  have ok: "\<not> evbit 6 b ev" "evcb_pri (evs b ev) < length (activequeues b)"
    using inv on by (auto simp: base_inv_def event_ok_def QUEUES_def)
  from base_del [OF inv, of EVENT_DEL_NOBLOCK ev] ok(1) obtain r b1 where
    b1: "event_del_nolock E ev EVENT_DEL_NOBLOCK b = Done (r, b1)" "base_inv maps regd b1" "off_queues QUEUES ev b b1" "same_data {} b b1"
    by blast
  have "\<not> evbit 6 b1 ev" "evcb_pri (evs b1 ev) < length (activequeues b1)"
    using ok b1(3,4) by (simp_all add: off_queues_def same_data_def)
  from base_active [OF b1(2) this, of EV_TIMEOUT 1] obtain b2 where
    b2: "event_active_nolock ev EV_TIMEOUT 1 b1 = Done b2" "base_inv maps regd b2" "activated ev b1 b2" "same_data {ev} b1 b2"
    "ev_res (evs b2 ev) = (if evbit 3 b1 ev \<or> evbit 5 b1 ev then ev_res (evs b1 ev) OR EV_TIMEOUT else EV_TIMEOUT)" by blast
  have "ev_res (evs b2 ev) = EV_TIMEOUT" using b2(5) b1(3) by (simp add: off_queues_def QUEUES_def)
  then have "expired {ev} b b2" using b1(3) b2(3) by (auto simp: expired_def off_queues_def activated_def QUEUES_def)
  moreover have "same_data {ev} b b2" using same_data_trans same_data_mono [OF b1(4)] b2(4) by blast
  ultimately show ?thesis using b1(1) b2(1,2) by (auto simp: expire_def)
qed

lemma base_timeout_loop:
  assumes "base_inv maps regd b" "hn (timeheap b) \<le> fuel"
  shows "\<exists>b'. timeout_process_loop fuel E now b = Some (Done b') \<and> base_inv maps regd b' \<and> expired (due now b) b b' \<and>
    same_data (due now b) b b'"
  using assms
proof (induction fuel arbitrary: b)
  case 0
  have t: "timers_ok b" using 0 by (simp add: base_inv_def)
  then have "due now b = {}" using 0 timers_card [OF t] by (auto simp: due_def)
  moreover have "min_heap_top (timeheap b) = None" using 0 by (simp add: min_heap_top_def)
  ultimately show ?case using 0 expired_empty by (simp add: timeout_process_loop.simps [of 0])
next
  case (Suc n)
  have t: "timers_ok b" using Suc by (simp add: base_inv_def)
  then have hi: "min_heap_inv (tmo b) (timeheap b)" and he: "\<And>a. a \<in># heap_elems (timeheap b) \<longleftrightarrow> evbit 0 b a \<and> usec_small (tmo b a)"
    by (simp_all add: timers_ok_def)
  show ?case
  proof (cases "min_heap_top (timeheap b)")
    case None
    then have "due now b = {}" using min_heap_top_None [OF hi] he by (auto simp: due_def)
    then show ?thesis using None Suc.prems expired_empty by (simp add: timeout_process_loop.simps [of "Suc n"])
  next
    case (Some ev)
    note top = min_heap_top_least [OF hi Some]
    show ?thesis
    proof (cases "tmo b ev \<le> now")
      case False
      then have "due now b = {}" using top he by (force simp: due_def)
      then show ?thesis using Some False Suc.prems expired_empty by (simp add: timeout_process_loop.simps [of "Suc n"] not_le)
    next
      case True
      have on: "evbit 0 b ev" "usec_small (tmo b ev)" using top he by auto
      from base_expire [OF Suc.prems(1) on(1)] obtain b1 where
        b1: "expire E ev b = Done b1" "base_inv maps regd b1" "expired {ev} b b1" "same_data {ev} b b1" by blast
      have t1: "timers_ok b1" using b1(2) by (simp add: base_inv_def)
      have tm: "tmo b1 = tmo b" using b1(4) by (auto simp: same_data_def tmo_def)
      have bit0: "evbit 0 b1 a \<longleftrightarrow> evbit 0 b a \<and> a \<noteq> ev" for a using b1(3) by (auto simp: expired_def QUEUES_def)
      have "{a. evbit 0 b1 a \<and> usec_small (tmo b1 a)} = {a. evbit 0 b a \<and> usec_small (tmo b a)} - {ev}"
        by (auto simp: bit0 tm)
      then have "hn (timeheap b1) \<le> n"
        using timers_card [OF t] timers_card(2) [OF t1] on Suc.prems(2) by simp
      from Suc.IH [OF b1(2) this] obtain b2 where
        b2: "timeout_process_loop n E now b1 = Some (Done b2)" "base_inv maps regd b2" "expired (due now b1) b1 b2" "same_data (due now b1) b1 b2"
        by blast
      have d: "due now b = insert ev (due now b1)" "ev \<notin> due now b1" using True on by (auto simp: due_def bit0 tm)
      have "timeout_process_loop (Suc n) E now b = Some (Done b2)"
        using Some True b1(1) b2(1) by (simp add: timeout_process_loop.simps [of "Suc n"])
      then show ?thesis using b2(2) expired_insert [OF b1(3,4) b2(3,4) d(2)] unfolding d(1) by blast
    qed
  qed
qed

section \<open>Common timeouts\<close>

lemma common_list:
  assumes "timers_ok b" "i < length (common_timeout_queues b)"
  shows "distinct (ct_events (common_timeout_queues b ! i))" "sorted (map (tmo b) (ct_events (common_timeout_queues b ! i)))"
    "set (ct_events (common_timeout_queues b ! i)) = {a. evbit 0 b a \<and> magic_at i (tmo b a)}"
  using assms by (simp_all add: timers_ok_def)

lemma base_common_expire:
  assumes "base_inv maps regd b" "i < length (common_timeout_queues b)" "length (ct_events (common_timeout_queues b ! i)) \<le> fuel"
  shows "\<exists>b'. common_timeout_expire fuel E i now b = Some (Done b') \<and> base_inv maps regd b' \<and>
    expired (due_common i now b) b b' \<and> same_data (due_common i now b) b b'"
  using assms
proof (induction fuel arbitrary: b)
  case 0
  have t: "timers_ok b" using 0 by (simp add: base_inv_def)
  have "due_common i now b = {}" using 0 common_list(3) [OF t 0(2)] by (auto simp: due_common_def)
  then show ?case using 0 expired_empty by (simp add: common_timeout_expire.simps [of 0])
next
  case (Suc n)
  have t: "timers_ok b" using Suc by (simp add: base_inv_def)
  note cl = common_list [OF t Suc.prems(2)]
  show ?case
  proof (cases "ct_events (common_timeout_queues b ! i)")
    case Nil
    then have "due_common i now b = {}" using cl(3) by (auto simp: due_common_def)
    then show ?thesis using Nil Suc.prems expired_empty by (simp add: common_timeout_expire.simps [of "Suc n"])
  next
    case (Cons ev es)
    have on: "evbit 0 b ev" "magic_at i (tmo b ev)" using cl(3) Cons by auto
    show ?thesis
    proof (cases "mask_usec (tmo b ev) \<le> now")
      case False
      have "now < mask_usec (tmo b a)" if "evbit 0 b a" "magic_at i (tmo b a)" for a
      proof -
        have "a \<in> set (ev # es)" using cl(3) Cons that by auto
        then have "tmo b ev \<le> tmo b a" using cl(2) Cons by auto
        then have "mask_usec (tmo b ev) \<le> mask_usec (tmo b a)" by (rule mask_usec_mono [OF on(2) that(2)])
        then show ?thesis using False by simp
      qed
      then have "due_common i now b = {}" by (force simp: due_common_def)
      then show ?thesis using Cons False Suc.prems expired_empty by (simp add: common_timeout_expire.simps [of "Suc n"] not_le)
    next
      case True
      from base_expire [OF Suc.prems(1) on(1)] obtain b1 where
        b1: "expire E ev b = Done b1" "base_inv maps regd b1" "expired {ev} b b1" "same_data {ev} b b1" by blast
      have t1: "timers_ok b1" using b1(2) by (simp add: base_inv_def)
      have len: "length (common_timeout_queues b1) = length (common_timeout_queues b)"
        using b1(4) common_length by (auto simp: same_data_def)
      have tm: "tmo b1 = tmo b" using b1(4) by (auto simp: same_data_def tmo_def)
      have bit0: "evbit 0 b1 a \<longleftrightarrow> evbit 0 b a \<and> a \<noteq> ev" for a using b1(3) by (auto simp: expired_def QUEUES_def)
      note cl1 = common_list [OF t1 Suc.prems(2) [folded len]]
      have "set (ct_events (common_timeout_queues b1 ! i)) = set es" using cl1(3) cl(1,3) Cons by (auto simp: bit0 tm)
      then have "length (ct_events (common_timeout_queues b1 ! i)) \<le> n"
        using distinct_card [OF cl1(1)] cl(1) Cons distinct_card [of es] Suc.prems(3) by simp
      from Suc.IH [OF b1(2) _ this] Suc.prems(2) len obtain b2 where
        b2: "common_timeout_expire n E i now b1 = Some (Done b2)" "base_inv maps regd b2"
        "expired (due_common i now b1) b1 b2" "same_data (due_common i now b1) b1 b2" by auto
      have d: "due_common i now b = insert ev (due_common i now b1)" "ev \<notin> due_common i now b1"
        using True on by (auto simp: due_common_def bit0 tm)
      have "common_timeout_expire (Suc n) E i now b = Some (Done b2)"
        using Cons True b1(1) b2(1) by (simp add: common_timeout_expire.simps [of "Suc n"])
      then show ?thesis using b2(2) expired_insert [OF b1(3,4) b2(3,4) d(2)] unfolding d(1) by blast
    qed
  qed
qed

end

end
