(* ===== verification/Base_Add.thy ===== *)
theory Base_Add
  imports Base_Inv
begin

text \<open>
  Adding events in \<^verbatim>\<open>src/event.c\<close>: the invariant is kept, the event is registered and its timeout is set, or
  nothing changes on any queue.
\<close>

section \<open>What adding changes\<close>

text \<open>What adding an event leaves alone, for every event and for the other events.\<close>

definition kept :: "'k event_base \<Rightarrow> 'k event_base \<Rightarrow> bool" where
  "kept b b' \<longleftrightarrow>
     (\<forall>j a. j \<notin> {0, 1, 3} \<longrightarrow> evbit j b' a = evbit j b a) \<and> (\<forall>a. evbit 3 b' a \<longrightarrow> evbit 3 b a) \<and>
     (\<forall>a. evcb_pri (evs b' a) = evcb_pri (evs b a) \<and> evcb_closure (evs b' a) = evcb_closure (evs b a) \<and>
        ev_fd (evs b' a) = ev_fd (evs b a) \<and> ev_events (evs b' a) = ev_events (evs b a)) \<and>
     length (activequeues b') = length (activequeues b) \<and> clock b' = clock b \<and> tv_cache b' = tv_cache b \<and>
     map timeout_event (common_timeout_queues b') = map timeout_event (common_timeout_queues b)"

definition same_others :: "nat \<Rightarrow> 'k event_base \<Rightarrow> 'k event_base \<Rightarrow> bool" where
  "same_others ev b b' \<longleftrightarrow> kept b b' \<and>
     (\<forall>j a. a \<noteq> ev \<longrightarrow> evbit j b' a = evbit j b a \<and> tmo b' a = tmo b a \<and> ev_io_timeout (evs b' a) = ev_io_timeout (evs b a))"

lemma same_othersI:
  assumes "same_data {} b b'" "\<And>j a. a \<noteq> ev \<or> j \<notin> {0, 1, 3} \<Longrightarrow> evbit j b' a = evbit j b a" "evbit 3 b' ev \<Longrightarrow> evbit 3 b ev"
  shows "same_others ev b b'"
proof -
  have "evbit 3 b' a \<longrightarrow> evbit 3 b a" for a using assms(2,3) by (cases "a = ev") auto
  then show ?thesis using assms by (simp add: same_others_def kept_def same_data_def tmo_def)
qed

lemma kept_trans: "kept b b1 \<Longrightarrow> kept b1 b2 \<Longrightarrow> kept b b2"
  unfolding kept_def by metis

lemma same_others_trans: "same_others ev b b1 \<Longrightarrow> same_others ev b1 b2 \<Longrightarrow> same_others ev b b2"
  unfolding same_others_def using kept_trans by metis

lemma new_timeout_cong:
  "length (common_timeout_queues b') = length (common_timeout_queues b) \<Longrightarrow> new_timeout now t ab b' = new_timeout now t ab b"
  by (simp add: new_timeout_def is_common_timeout_def)

lemma new_timeout_wf:
  assumes "timeval_ok now" "tmo_wf t b" "length (common_timeout_queues b) \<le> MAX_COMMON_TIMEOUTS"
  shows "tmo_wf (new_timeout now t ab b) b" "usec_small (new_timeout now t ab b) \<Longrightarrow> usec_small t"
proof -
  show "tmo_wf (new_timeout now t ab b) b"
  proof (cases "usec_small t")
    case True
    then show ?thesis using new_timeout_small [OF assms(1)] by (auto simp: tmo_wf_def)
  next
    case False
    then obtain i where i: "i < length (common_timeout_queues b)" "magic_at i t" using assms(2) by (auto simp: tmo_wf_def)
    then have "magic_at i (new_timeout now t ab b)"
      using assms(3) by (intro new_timeout_magic [OF assms(1)]) (auto simp: MAX_COMMON_TIMEOUTS_def)
    then show ?thesis using i(1) by (auto simp: tmo_wf_def)
  qed
  assume s: "usec_small (new_timeout now t ab b)"
  show "usec_small t"
  proof (rule ccontr)
    assume "\<not> usec_small t"
    then obtain i where i: "i < length (common_timeout_queues b)" "magic_at i t" using assms(2) by (auto simp: tmo_wf_def)
    have "i < 256" using i(1) assms(3) by (simp add: MAX_COMMON_TIMEOUTS_def)
    then have "is_magic (new_timeout now t ab b)"
      using magic_at_is_magic(1) new_timeout_magic [OF assms(1) i(2) _ i(1)] by blast
    then show False using usec_small_not_magic [OF s] by simp
  qed
qed

text \<open>
  What \<^verbatim>\<open>event_add_nolock_\<close> needs to know of the event and the timeout. It reserves space in the heap only for an
  event without a timeout; one that leaves the list of a common timeout for the heap needs an allocator that
  serves the request of \<^verbatim>\<open>min_heap_push_\<close>.
\<close>

definition heap_grows :: "(nat \<Rightarrow> bool) \<Rightarrow> min_heap \<Rightarrow> bool" where
  "heap_grows al h \<longleftrightarrow> fst (min_heap_reserve al h (hn h + 1)) = 0"

definition addable :: "(nat \<Rightarrow> bool) \<Rightarrow> nat \<Rightarrow> timeval option \<Rightarrow> 'k event_base \<Rightarrow> bool" where
  "addable al ev tv b \<longleftrightarrow> \<not> evbit 6 b ev \<and> unmixed (evs b ev) \<and> evcb_pri (evs b ev) < length (activequeues b) \<and>
     (case tv of None \<Rightarrow> True
      | Some t \<Rightarrow> tmo_wf t b \<and> timeval_ok (fst (gettime b)) \<and> 
          (usec_small t \<and> evbit 0 b ev \<longrightarrow> usec_small (tmo b ev) \<or> heap_grows al (timeheap b)))"

definition added :: "nat \<Rightarrow> timeval option \<Rightarrow> bool \<Rightarrow> 'k event_base \<Rightarrow> 'k event_base \<Rightarrow> bool" where
  "added ev tv ab b b' \<longleftrightarrow>
     (wants (evs b ev) \<and> \<not> evbit 3 b ev \<and> \<not> evbit 5 b ev \<longrightarrow> evbit 1 b' ev) \<and>
     (case tv of None \<Rightarrow> True | Some t \<Rightarrow> evbit 0 b' ev \<and> tmo b' ev = new_timeout (fst (gettime b)) t ab b)"

text \<open>The internal events of the common timeouts, and the readings of the clock.\<close>

definition internal :: "'k event_base \<Rightarrow> nat set" where
  "internal b = timeout_event ` set (common_timeout_queues b)"

definition internal_ok :: "'k event_base \<Rightarrow> bool" where
  "internal_ok b \<longleftrightarrow> (\<forall>a \<in> internal b. \<not> evbit 6 b a \<and> ev_events (evs b a) = 0 \<and> evcb_pri (evs b a) < length (activequeues b) \<and>
     (evbit 0 b a \<longrightarrow> usec_small (tmo b a)))"

definition clock_ok :: "'k event_base \<Rightarrow> bool" where
  "clock_ok b \<longleftrightarrow> (\<forall>n. timeval_ok (clock b n)) \<and> timeval_ok (tv_cache b)"

text \<open>An internal event has its old timeout, or the time of an event of its list.\<close>

definition internal_times :: "'k event_base \<Rightarrow> 'k event_base \<Rightarrow> bool" where
  "internal_times b b' \<longleftrightarrow> (\<forall>a \<in> internal b. evbit 0 b' a \<longrightarrow>
     evbit 0 b a \<and> tmo b' a = tmo b a \<or> (\<exists>c. c \<notin> internal b \<and> evbit 0 b' c \<and> tmo b' a = mask_usec (tmo b' c)))"

lemma clock_ok_gettime: "clock_ok b \<Longrightarrow> timeval_ok (fst (gettime b))"
  by (simp add: clock_ok_def gettime_def)

lemma internal_same: "same_others ev b b' \<Longrightarrow> internal b' = internal b"
  unfolding internal_def same_others_def kept_def by (metis image_set)

lemma internal_ok_same:
  assumes "same_others ev b b'" "internal_ok b" "ev \<in> internal b \<Longrightarrow> evbit 0 b' ev \<Longrightarrow> usec_small (tmo b' ev)"
  shows "internal_ok b'"
proof -
  have "\<not> evbit 6 b' a \<and> ev_events (evs b' a) = 0 \<and> evcb_pri (evs b' a) < length (activequeues b') \<and> (evbit 0 b' a \<longrightarrow> usec_small (tmo b' a))"
    if "a \<in> internal b" for a
  proof (cases "a = ev")
    case True
    then show ?thesis using assms that by (simp add: same_others_def kept_def internal_ok_def)
  next
    case False
    then show ?thesis using assms(1,2) that by (simp add: same_others_def kept_def internal_ok_def)
  qed
  then show ?thesis by (simp add: internal_ok_def internal_same [OF assms(1)])
qed

context evmaps
begin

section \<open>Adding\<close>

lemma base_heap_swap:
  assumes inv: "base_inv maps regd b"
    and h: "min_heap_inv (tmo b) h" "heap_elems h = heap_elems (timeheap b)" "ha h < 2 ^ 59"
  shows "base_inv maps regd (b\<lparr>timeheap := h\<rparr>)"
proof -
  let ?b = "b\<lparr>timeheap := h\<rparr>"
  have t: "timers_ok b" using inv by (simp add: base_inv_def)
  have bits: "evbit j ?b a = evbit j b a" "tmo ?b = tmo b" for j a by (auto simp: evbit_def tmo_def)
  have "timers_ok ?b" using t h unfolding timers_ok_def bits tmo_wf_def by simp
  moreover have "queues_ok ?b" using queues_cong [of ?b b] inv bits by (simp add: base_inv_def)
  moreover have "counts_ok ?b = counts_ok b" by (rule counts_cong) (simp_all add: bits)
  moreover have "event_ok ?b a = event_ok b a" for a unfolding event_ok_def bits by simp
  moreover have "same_maps b ?b" by (simp add: same_maps_def)
  note maps_kept [OF inv this bits(1)]
  ultimately show ?thesis using inv by (simp add: base_inv_def)
qed

lemma base_reserve:
  assumes inv: "base_inv maps regd b" and al: "alloc_small (alloc_ok E)" and e: "event_add_reserve E ev tv b = (r, b')"
  shows "\<exists>h. b' = b\<lparr>timeheap := h\<rparr>" "r = 0 \<or> r = -1" "base_inv maps regd b'"
    "r = 0 \<Longrightarrow> tv \<noteq> None \<Longrightarrow> \<not> evbit 0 b ev \<Longrightarrow> hn (timeheap b') + 1 \<le> ha (timeheap b')"
proof -
  have t: "timers_ok b" using inv by (simp add: base_inv_def)
  have "(\<exists>h. b' = b\<lparr>timeheap := h\<rparr>) \<and> (r = 0 \<or> r = -1) \<and> base_inv maps regd b' \<and>
    (r = 0 \<longrightarrow> tv \<noteq> None \<longrightarrow> \<not> evbit 0 b ev \<longrightarrow> hn (timeheap b') + 1 \<le> ha (timeheap b'))"
  proof (cases "tv \<noteq> None \<and> \<not> evbit 0 b ev")
    case False
    then have "b' = b\<lparr>timeheap := timeheap b\<rparr>" "r = 0" using e by (auto simp: event_add_reserve_def)
    then show ?thesis using inv False by (intro conjI exI [of _ "timeheap b"]) auto
  next
    case True
    obtain h where h: "min_heap_reserve (alloc_ok E) (timeheap b) (hn (timeheap b) + 1) = (r, h)" "b' = b\<lparr>timeheap := h\<rparr>"
      using True e by (auto simp: event_add_reserve_def min_heap_size_def split: prod.splits)
    have hi: "min_heap_inv (tmo b) (timeheap b)" "ha (timeheap b) < 2 ^ 59" using t by (simp_all add: timers_ok_def)
    have res: "r = 0 \<and> min_heap_inv (tmo b) h \<and> heap_elems h = heap_elems (timeheap b) \<and> ha h < 2 ^ 59 \<and> hn h + 1 \<le> ha h \<or> r = -1 \<and> h = timeheap b"
      using min_heap_reserve_small [OF hi al h(1)] by auto
    then have hb: "min_heap_inv (tmo b) h" "heap_elems h = heap_elems (timeheap b)" "ha h < 2 ^ 59" using hi by auto
    have "base_inv maps regd b'" unfolding h(2) by (rule base_heap_swap [OF inv hb])
    then show ?thesis using h(2) res by auto
  qed
  then show "\<exists>h. b' = b\<lparr>timeheap := h\<rparr>" "r = 0 \<or> r = -1" "base_inv maps regd b'"
    "r = 0 \<Longrightarrow> tv \<noteq> None \<Longrightarrow> \<not> evbit 0 b ev \<Longrightarrow> hn (timeheap b') + 1 \<le> ha (timeheap b')" by blast+
qed

lemma base_register:
  assumes inv: "base_inv maps regd b" and um: "unmixed (evs b ev)" and p: "evcb_pri (evs b ev) < length (activequeues b)"
  shows "\<exists>r b'. event_add_register E ev b = Done (r, b') \<and> base_inv maps regd b' \<and> same_data {} b b' \<and> timeheap b' = timeheap b \<and>
    (r = 0 \<or> r = -1) \<and> (\<forall>j a. evbit j b' a \<longleftrightarrow> evbit j b a \<or> a = ev \<and> j = 1 \<and> r = 0 \<and> wants (evs b ev) \<and> \<not> evbit 3 b ev \<and> \<not> evbit 5 b ev)"
proof (cases "wants (evs b ev) \<and> \<not> (evbit 1 b ev \<or> evbit 3 b ev \<or> evbit 5 b ev)")
  case False
  then have "event_add_register E ev b = Done (0, b)" by (auto simp: event_add_register_def Let_def wants_def)
  then show ?thesis using inv False by auto
next
  case True
  have fin: "base_inv maps regd b2 \<and> same_data {} b b2 \<and> marked 1 ev b b2 \<and> event_queue_insert_inserted ev (b\<lparr>io := m, sigmap := s, backend := k\<rparr>) = Done b2"
    if b2: "b2 = b\<lparr>evs := (evs b)(ev := set_flag EVLIST_INSERTED (evs b ev)), event_count := plus_count ev b,
        event_count_max := max (event_count_max b) (plus_count ev b), io := m, sigmap := s, backend := k\<rparr>"
      and m: "maps (b\<lparr>io := m, sigmap := s, backend := k\<rparr>)"
      and r: "\<And>a. stored (evs b a) \<Longrightarrow> regd (b\<lparr>io := m, sigmap := s, backend := k\<rparr>) a \<longleftrightarrow> regd b a \<or> a = ev" for b2 m s k
  proof -
    have c: "marked 1 ev b b2" by (rule marked_upd [of EVLIST_INSERTED]) (simp_all add: b2)
    then have bits: "evbit j b2 a = evbit j b a" if "j \<noteq> 1" for j a using that by (auto simp: marked_def)
    have off: "\<not> evbit 1 b ev" using True by simp
    have q: "queues_ok b2" using queues_cong [of b2 b] bits inv by (simp add: base_inv_def b2)
    have t: "timers_ok b2" by (rule timers_cong [of b2 b]) (use inv bits in \<open>simp_all add: base_inv_def b2 tmo_def\<close>)
    have n: "counts_ok b2"
      by (rule counts_marked [OF _ c off]) (use inv in \<open>simp_all add: base_inv_def QUEUES_def b2 plus_count_def\<close>)
    have e: "event_ok b2 a" for a
      by (rule event_ok_marked [OF _ c _ _ _ _ _ p]) (use inv in \<open>simp_all add: base_inv_def b2\<close>)
    have sm: "same_maps (b\<lparr>io := m, sigmap := s, backend := k\<rparr>) b2" by (simp add: same_maps_def b2)
    have "stored (evs b2 a) = stored (evs b a)" for a by (simp add: stored_def b2)
    then have "regd b2 a \<longleftrightarrow> evbit 1 b2 a" if "stored (evs b2 a)" for a
      using r [of a] that inv c regd_frame [OF sm, of a] by (auto simp: base_inv_def marked_def)
    then have "base_inv maps regd b2" using q t n e maps_frame [OF sm m] by (simp add: base_inv_def)
    moreover have "event_queue_insert_inserted ev (b\<lparr>io := m, sigmap := s, backend := k\<rparr>) = Done b2"
      using off by (simp add: event_queue_insert_inserted_def flag_def b2 evbit_def upd_event_def INCR_EVENT_COUNT_def Let_def plus_count_def)
    ultimately show ?thesis using c by (simp add: same_data_def b2)
  qed
  have unf: "event_add_register E ev b = bind_outcome (maps_add E ev b)
     (\<lambda>(res, b1). if res \<noteq> -1 then bind_outcome (event_queue_insert_inserted ev b1) (\<lambda>b2. Done (if res = 1 then 0 else res, b2)) else Done (-1, b1))"
    using True by (auto simp: event_add_register_def maps_add_def Let_def wants_def)
  have m1: "maps b" and reg: "stored (evs b a) \<Longrightarrow> regd b a \<longleftrightarrow> evbit 1 b a" for a using inv by (simp_all add: base_inv_def)
  show ?thesis
  proof (cases "stored (evs b ev)")
    case True
    with reg \<open>wants _ \<and> _\<close> have "\<not> regd b ev" by simp
    from maps_add_ok [OF m1 True um this] obtain r m s k where
      d: "maps_add E ev b = Done (r, b\<lparr>io := m, sigmap := s, backend := k\<rparr>)" "r \<in> {-1, 0, 1}" "maps (b\<lparr>io := m, sigmap := s, backend := k\<rparr>)"
      "\<forall>a. regd (b\<lparr>io := m, sigmap := s, backend := k\<rparr>) a \<longleftrightarrow> regd b a \<or> a = ev \<and> r \<noteq> -1" by blast
    show ?thesis
    proof (cases "r = -1")
      case True
      let ?b = "b\<lparr>io := m, sigmap := s, backend := k\<rparr>"
      have bits: "evbit j ?b a = evbit j b a" "tmo ?b a = tmo b a" for j a by (simp_all add: evbit_def tmo_def)
      have "timers_ok ?b" by (rule timers_cong [of ?b b]) (use inv bits in \<open>simp_all add: base_inv_def\<close>)
      moreover have "queues_ok ?b" using queues_cong [of ?b b] inv bits by (simp add: base_inv_def)
      moreover have "counts_ok ?b = counts_ok b" by (rule counts_cong) (simp_all add: bits)
      moreover have "event_ok ?b a = event_ok b a" for a by (simp add: event_ok_def bits)
      ultimately have "base_inv maps regd ?b" using inv d(3,4) True by (simp add: base_inv_def bits)
      then show ?thesis using unf d(1) True bits by (auto simp: same_data_def)
    next
      case False
      note fin [OF refl d(3)]
      then show ?thesis using unf d False \<open>wants _ \<and> _\<close> by (auto simp: marked_def)
    qed
  next
    case False
    then have a: "maps_add E ev b = Done (0, b\<lparr>io := io b, sigmap := sigmap b, backend := backend b\<rparr>)"
      by (simp add: maps_add_def stored_def evmap_io_add_def)
    have m: "maps (b\<lparr>io := io b, sigmap := sigmap b, backend := backend b\<rparr>)" using m1 by simp
    have r: "regd (b\<lparr>io := io b, sigmap := sigmap b, backend := backend b\<rparr>) a \<longleftrightarrow> regd b a \<or> a = ev"
      if "stored (evs b a)" for a using that False by auto
    note fin [OF refl m r]
    then show ?thesis using unf a False \<open>wants _ \<and> _\<close> by (auto simp: marked_def)
  qed
qed

lemma push_grown:
  assumes "min_heap_reserve al h (hn h + 1) = (0, h1)" "hn h1 = hn h" "hn h + 1 \<le> ha h1"
  shows "min_heap_push al t h e = min_heap_push al t h1 e"
proof -
  have "min_heap_reserve al h1 (hn h1 + 1) = (0, h1)" using assms(2,3) by (simp add: min_heap_reserve_def)
  then show ?thesis using assms(1) by (simp add: min_heap_push_def)
qed

lemma base_insert_grown:
  assumes inv: "base_inv maps regd b" and off: "\<not> evbit 0 b ev" "\<not> evbit 6 b ev" and tw: "tmo_wf (tmo b ev) b"
    and al: "alloc_small al" and room: "usec_small (tmo b ev) \<Longrightarrow> heap_grows al (timeheap b)"
    and p: "evcb_pri (evs b ev) < length (activequeues b)"
  shows "\<exists>b'. event_queue_insert_timeout al ev b = Done b' \<and> base_inv maps regd b' \<and> marked 0 ev b b' \<and> same_others ev b b' \<and>
    tmo b' ev = tmo b ev \<and> ev_io_timeout (evs b' ev) = ev_io_timeout (evs b ev)"
proof -
  define h1 where "h1 = (if usec_small (tmo b ev) then snd (min_heap_reserve al (timeheap b) (hn (timeheap b) + 1)) else timeheap b)"
  let ?b = "b\<lparr>timeheap := h1\<rparr>"
  have hi: "min_heap_inv (tmo b) (timeheap b)" "ha (timeheap b) < 2 ^ 59" using inv by (simp_all add: base_inv_def timers_ok_def)
  have u: "min_heap_reserve al (timeheap b) (hn (timeheap b) + 1) = (0, h1)" if "usec_small (tmo b ev)"
    using room [OF that] that by (simp add: h1_def heap_grows_def prod_eq_iff)
  have h: "min_heap_inv (tmo b) h1 \<and> heap_elems h1 = heap_elems (timeheap b) \<and> ha h1 < 2 ^ 59 \<and> hn h1 = hn (timeheap b) \<and>
      (usec_small (tmo b ev) \<longrightarrow> hn (timeheap b) + 1 \<le> ha h1)"
    using min_heap_reserve_small [OF hi al u] hi by (cases "usec_small (tmo b ev)") (auto simp: h1_def)
  have invb: "base_inv maps regd ?b" using base_heap_swap [OF inv] h by blast
  have eb: "evbit j ?b a = evbit j b a" "tmo ?b a = tmo b a" "evs ?b = evs b" "activequeues ?b = activequeues b" "same_others ev b ?b" for j a
    by (simp_all add: evbit_def tmo_def same_others_def kept_def)
  have tb: "tmo_wf (tmo ?b ev) ?b" using tw eb(2) by (simp add: tmo_wf_def)
  obtain b' where b': "event_queue_insert_timeout al ev ?b = Done b'" "base_inv maps regd b'" "marked 0 ev ?b b'" "same_data {} ?b b'"
    using base_insert_timeout [OF invb _ _ tb, of al] h off p eb by auto
  have "event_queue_insert_timeout al ev b = event_queue_insert_timeout al ev ?b"
  proof (cases "usec_small (tmo b ev)")
    case False
    then show ?thesis by (simp add: h1_def)
  next
    case True
    then have "\<not> is_common_timeout (tmo b ev) c" for c :: "'k event_base"
      using usec_small_not_magic by (auto simp: is_common_timeout_def is_magic_def)
    moreover have "tmo c = (\<lambda>a. ev_timeout (evs c a))" for c :: "'k event_base" by (simp add: tmo_def fun_eq_iff)
    ultimately show ?thesis using push_grown [OF u [OF True]] h True
      by (simp add: event_queue_insert_timeout_def Let_def flag_def upd_event_def INCR_EVENT_COUNT_def)
  qed
  moreover have "same_others ev ?b b'" by (rule same_othersI [OF b'(4)]) (use b'(3) in \<open>auto simp: marked_def\<close>)
  ultimately show ?thesis using b' eb same_others_trans [OF eb(5)] by (auto simp: marked_def same_data_def tmo_def evbit_def)
qed

text \<open>\<^verbatim>\<open>event_add_nolock_\<close> up to the insertion of the new timeout.\<close>

lemma base_add_timeout_prepared:
  assumes inv: "base_inv maps regd b" and fin: "\<not> evbit 6 b ev" and p: "evcb_pri (evs b ev) < length (activequeues b)"
    and tw: "tmo_wf t b" and now: "timeval_ok (fst (gettime b))"
  shows "\<exists>b5. event_add_timeout E ev t ab b = event_queue_insert_timeout (alloc_ok E) ev b5 \<and> base_inv maps regd b5 \<and> same_others ev b b5 \<and>
    \<not> evbit 0 b5 ev \<and> evbit 1 b5 ev = evbit 1 b ev \<and> tmo b5 ev = new_timeout (fst (gettime b)) t ab b \<and> tmo_wf (tmo b5 ev) b5 \<and>
    (usec_small (tmo b5 ev) \<longrightarrow> usec_small t) \<and> ha (timeheap b5) = ha (timeheap b) \<and>
    hn (timeheap b5) = hn (timeheap b) - (if evbit 0 b ev \<and> usec_small (tmo b ev) then 1 else 0) \<and>
    (ab \<longrightarrow> (\<forall>a. ev_io_timeout (evs b5 a) = ev_io_timeout (evs b a)))"
proof -
  define b1 where "b1 = (if evcb_closure (evs b ev) = EV_CLOSURE_EVENT_PERSIST \<and> \<not> ab then upd_event ev (\<lambda>e. e\<lparr>ev_io_timeout := t\<rparr>) b else b)"
  have inv1: "base_inv maps regd b1" by (rule inv_cong [OF inv]) (simp_all add: b1_def upd_event_def same_maps_def tmo_def)
  have e1: "evbit j b1 a = evbit j b a" "tmo b1 a = tmo b a" "same_others ev b b1" "fst (gettime b1) = fst (gettime b)"
    "timeheap b1 = timeheap b" "common_timeout_queues b1 = common_timeout_queues b" for j a
    by (simp_all add: b1_def upd_event_def evbit_def tmo_def same_others_def kept_def gettime_def)
  obtain b2 where b2: "event_del_timeout ev b1 = Done b2" "base_inv maps regd b2" "off_queues {0} ev b1 b2" "same_data {} b1 b2"
    using base_del_timeout [OF inv1] by blast
  have s2: "same_others ev b1 b2" by (rule same_othersI [OF b2(4)]) (use b2(3) in \<open>auto simp: off_queues_def\<close>)
  have "\<exists>b3. (if flag b2 ev EVLIST_ACTIVE \<and> has (ev_res (evs b2 ev)) EV_TIMEOUT
      then event_queue_remove_active ev (abort_signal_loop ev b2) else Done b2) = Done b3 \<and> base_inv maps regd b3 \<and> same_data {} b2 b3 \<and>
      (\<forall>j a. a \<noteq> ev \<or> j \<noteq> 3 \<longrightarrow> evbit j b3 a = evbit j b2 a) \<and> (evbit 3 b3 ev \<longrightarrow> evbit 3 b2 ev)"
  proof (cases "evbit 3 b2 ev \<and> has (ev_res (evs b2 ev)) EV_TIMEOUT")
    case True
    let ?a = "abort_signal_loop ev b2"
    have a: "base_inv maps regd ?a" by (rule inv_cong [OF b2(2)]) (simp_all add: abort_signal_loop_def same_maps_def tmo_def)
    have ea: "evbit j ?a x = evbit j b2 x" "same_data {} b2 ?a" for j x by (simp_all add: abort_signal_loop_def evbit_def same_data_def)
    obtain b3 where "event_queue_remove_active ev ?a = Done b3" "base_inv maps regd b3" "cleared 3 ev ?a b3" "same_data {} ?a b3"
      using base_remove_active [OF a] True ea by blast
    then show ?thesis using True same_data_trans [OF ea(2)] by (auto simp: cleared_def ea(1))
  next
    case False
    then show ?thesis using b2(2) by auto
  qed
  then obtain b3 where b3: "(if flag b2 ev EVLIST_ACTIVE \<and> has (ev_res (evs b2 ev)) EV_TIMEOUT
      then event_queue_remove_active ev (abort_signal_loop ev b2) else Done b2) = Done b3" "base_inv maps regd b3" "same_data {} b2 b3"
      "\<And>j a. a \<noteq> ev \<or> j \<noteq> 3 \<Longrightarrow> evbit j b3 a = evbit j b2 a" "evbit 3 b3 ev \<Longrightarrow> evbit 3 b2 ev" by blast
  have s3: "same_others ev b2 b3" by (rule same_othersI [OF b3(3)]) (use b3(4,5) in auto)
  have sd: "same_data {} b1 b3" by (rule same_data_trans [OF b2(4) b3(3)])
  obtain b4 where g: "gettime b3 = (fst (gettime b), b4)"
    using sd e1(4) by (auto simp: gettime_def same_data_def split: if_splits)
  from gettime_frame [OF g] obtain n where b4: "b4 = b3\<lparr>tick := n\<rparr>" by blast
  have len: "length (common_timeout_queues b4) = length (common_timeout_queues b)"
    using common_length [of b3 b1] sd e1(6) by (simp add: same_data_def b4)
  let ?t = "new_timeout (fst (gettime b)) t ab b"
  define b5 where "b5 = upd_event ev (\<lambda>e. e\<lparr>ev_timeout := ?t\<rparr>) b4"
  have off0: "\<not> evbit 0 b3 ev" using b2(3) b3(4) by (simp add: off_queues_def)
  have inv5: "base_inv maps regd b5"
    by (rule inv_cong [OF b3(2)]) (use off0 in \<open>auto simp: b5_def b4 upd_event_def same_maps_def tmo_def\<close>)
  have e5: "evbit j b5 a = evbit j b3 a" "tmo b5 ev = ?t" "timeheap b5 = timeheap b3" "length (common_timeout_queues b5) = length (common_timeout_queues b)" for j a
    using len by (simp_all add: b5_def b4 upd_event_def evbit_def tmo_def)
  have s5: "same_others ev b3 b5" by (simp add: b5_def b4 upd_event_def same_others_def kept_def evbit_def tmo_def)
  have max: "length (common_timeout_queues b) \<le> MAX_COMMON_TIMEOUTS" using inv by (simp add: base_inv_def timers_ok_def)
  note nw = new_timeout_wf [OF now tw max]
  have tw5: "tmo_wf (tmo b5 ev) b5" using nw(1) [of ab] e5 by (simp add: tmo_wf_def)
  have so: "same_others ev b b5" using e1(3) s2 s3 s5 same_others_trans by blast
  have p5: "evcb_pri (evs b5 ev) < length (activequeues b5)" "\<not> evbit 6 b5 ev"
    using so p fin by (simp_all add: same_others_def kept_def)
  have heap5: "ha (timeheap b5) = ha (timeheap b)"
    "hn (timeheap b5) = hn (timeheap b) - (if evbit 0 b ev \<and> usec_small (tmo b ev) then 1 else 0)"
  proof -
    have t: "timers_ok b" "timers_ok b3" using inv b3(2) by (simp_all add: base_inv_def)
    have t3: "tmo b3 a = tmo b a" for a using sd e1(2) [of a] by (simp add: same_data_def tmo_def)
    have bit3: "evbit 0 b3 a \<longleftrightarrow> evbit 0 b a \<and> a \<noteq> ev" for a using b2(3) b3(4) e1(1) by (auto simp: off_queues_def)
    show "ha (timeheap b5) = ha (timeheap b)" using sd e1(5) e5(3) by (simp add: same_data_def)
    have eq: "{a. evbit 0 b3 a \<and> usec_small (tmo b3 a)} = {a. evbit 0 b a \<and> usec_small (tmo b a)} - {ev}" by (auto simp: bit3 t3)
    have "hn (timeheap b3) = card ({a. evbit 0 b a \<and> usec_small (tmo b a)} - {ev})"
      using timers_card(2) [OF t(2)] unfolding eq by simp
    also have "\<dots> = hn (timeheap b) - (if evbit 0 b ev \<and> usec_small (tmo b ev) then 1 else 0)"
      using timers_card [OF t(1)] by (auto simp: card_Diff_singleton_if)
    finally show "hn (timeheap b5) = hn (timeheap b) - (if evbit 0 b ev \<and> usec_small (tmo b ev) then 1 else 0)" using e5(3) by simp
  qed
  have op: "event_add_timeout E ev t ab b = event_queue_insert_timeout (alloc_ok E) ev b5"
    unfolding event_add_timeout_def Let_def b1_def [symmetric] using b2(1) b3(1) g new_timeout_cong [OF len] by (simp add: b5_def)
  have bits: "evbit 1 b5 ev = evbit 1 b ev" "\<not> evbit 0 b5 ev"
    using e5(1) b3(4) [of ev 1] b2(3) e1(1) off0 by (auto simp: off_queues_def)
  have "ev_io_timeout (evs b5 a) = ev_io_timeout (evs b a)" if ab for a
    using sd that by (auto simp: b5_def b4 upd_event_def same_data_def b1_def)
  then show ?thesis using op inv5 so bits e5(2) tw5 heap5 nw(2) by auto
qed

lemma base_add_timeout:
  assumes inv: "base_inv maps regd b" and fin: "\<not> evbit 6 b ev" and p: "evcb_pri (evs b ev) < length (activequeues b)"
    and tw: "tmo_wf t b" and now: "timeval_ok (fst (gettime b))" and al: "alloc_small (alloc_ok E)"
    and room: "usec_small t \<Longrightarrow> \<not> (evbit 0 b ev \<and> usec_small (tmo b ev)) \<Longrightarrow> heap_grows (alloc_ok E) (timeheap b)"
  shows "\<exists>b'. event_add_timeout E ev t ab b = Done b' \<and> base_inv maps regd b' \<and> same_others ev b b' \<and>
    evbit 0 b' ev \<and> evbit 1 b' ev = evbit 1 b ev \<and> tmo b' ev = new_timeout (fst (gettime b)) t ab b \<and> (ab \<longrightarrow> (\<forall>a. ev_io_timeout (evs b' a) = ev_io_timeout (evs b a)))"
proof -
  from base_add_timeout_prepared [OF inv fin p tw now, of ab] obtain b5 where
    b5: "event_add_timeout E ev t ab b = event_queue_insert_timeout (alloc_ok E) ev b5" "base_inv maps regd b5" "same_others ev b b5"
    "\<not> evbit 0 b5 ev" "evbit 1 b5 ev = evbit 1 b ev" "tmo b5 ev = new_timeout (fst (gettime b)) t ab b" "tmo_wf (tmo b5 ev) b5"
    "usec_small (tmo b5 ev) \<longrightarrow> usec_small t" "ha (timeheap b5) = ha (timeheap b)"
    "hn (timeheap b5) = hn (timeheap b) - (if evbit 0 b ev \<and> usec_small (tmo b ev) then 1 else 0)"
    "ab \<longrightarrow> (\<forall>a. ev_io_timeout (evs b5 a) = ev_io_timeout (evs b a))" by blast
  have p5: "evcb_pri (evs b5 ev) < length (activequeues b5)" "\<not> evbit 6 b5 ev"
    using b5(3) p fin by (simp_all add: same_others_def kept_def)
  have grows: "heap_grows (alloc_ok E) (timeheap b5)" if "usec_small (tmo b5 ev)"
  proof (cases "evbit 0 b ev \<and> usec_small (tmo b ev)")
    case True
    have t: "timers_ok b" using inv by (simp add: base_inv_def)
    then have "hn (timeheap b) \<le> ha (timeheap b)" by (simp add: timers_ok_def min_heap_inv_def)
    moreover have "0 < hn (timeheap b)" using timers_card [OF t] True card_gt_0_iff [of "{a. evbit 0 b a \<and> usec_small (tmo b a)}"] by auto
    ultimately have "hn (timeheap b5) + 1 \<le> ha (timeheap b5)" using b5(9,10) True by simp
    then show ?thesis by (simp add: heap_grows_def min_heap_reserve_def)
  next
    case False
    then have "heap_grows (alloc_ok E) (timeheap b)" using room b5(8) that by blast
    then show ?thesis using b5(9,10) False by (simp add: heap_grows_def min_heap_reserve_def Let_def split: if_splits)
  qed
  from base_insert_grown [OF b5(2,4) p5(2) b5(7) al grows p5(1)] obtain b6 where
    b6: "event_queue_insert_timeout (alloc_ok E) ev b5 = Done b6" "base_inv maps regd b6" "marked 0 ev b5 b6" "same_others ev b5 b6"
    "tmo b6 ev = tmo b5 ev" "ev_io_timeout (evs b6 ev) = ev_io_timeout (evs b5 ev)" by blast
  have io: "ab \<longrightarrow> (\<forall>a. ev_io_timeout (evs b6 a) = ev_io_timeout (evs b a))" using b5(11) b6(4,6) by (metis same_others_def)
  have "evbit 1 b6 ev = evbit 1 b ev" "evbit 0 b6 ev" using b6(3) b5(5) by (auto simp: marked_def)
  then show ?thesis using b5(1,6) b6(1,2,5) same_others_trans [OF b5(3) b6(4)] io by auto
qed

lemma base_add_body:
  assumes inv: "base_inv maps regd b" and ok: "addable (alloc_ok E) ev tv b" and al: "alloc_small (alloc_ok E)"
  shows "\<exists>r b'. event_add_body E ev tv ab b = Done (r, b') \<and> base_inv maps regd b' \<and> same_others ev b b' \<and> (ab \<longrightarrow> (\<forall>a. ev_io_timeout (evs b' a) = ev_io_timeout (evs b a))) \<and>
    (r = 0 \<and> added ev tv ab b b' \<or> r = -1 \<and> (\<forall>j a. evbit j b' a = evbit j b a) \<and> tmo b' ev = tmo b ev)"
proof -
  have e: "\<not> evbit 6 b ev" "unmixed (evs b ev)" "evcb_pri (evs b ev) < length (activequeues b)"
    "tv = Some t \<Longrightarrow> tmo_wf t b \<and> timeval_ok (fst (gettime b)) \<and>
      (usec_small t \<and> evbit 0 b ev \<longrightarrow> usec_small (tmo b ev) \<or> heap_grows (alloc_ok E) (timeheap b))" for t
    using ok by (auto simp: addable_def)
  have fl: "evcb_flags (evs b ev) AND NOT EVLIST_ALL = 0" unfolding all_flags using inv by (simp add: base_inv_def event_ok_def)
  obtain r0 b0 where r0: "event_add_reserve E ev tv b = (r0, b0)" by fastforce
  note res = base_reserve [OF inv al r0]
  from res(1) obtain h where h: "b0 = b\<lparr>timeheap := h\<rparr>" by blast
  have e0: "evbit j b0 a = evbit j b a" "evs b0 = evs b" "tmo b0 = tmo b" "activequeues b0 = activequeues b" "same_others ev b b0"
    "gettime b0 = (fst (gettime b), snd (gettime b0))" "common_timeout_queues b0 = common_timeout_queues b" for j a
    by (auto simp: h evbit_def tmo_def same_others_def kept_def gettime_def)
  show ?thesis
  proof (cases "r0 = -1")
    case True
    then have "event_add_body E ev tv ab b = Done (-1, b0)" using r0 fl e(1) by (simp add: event_add_body_def)
    then show ?thesis using res(3) e0 by auto
  next
    case False
    then have r0': "r0 = 0" using res(2) by simp
    from base_register [OF res(3), of ev] e(2,3) e0 obtain r b1 where
      b1: "event_add_register E ev b0 = Done (r, b1)" "base_inv maps regd b1" "same_data {} b0 b1" "timeheap b1 = timeheap b0" "r = 0 \<or> r = -1"
      "\<And>j a. evbit j b1 a \<longleftrightarrow> evbit j b a \<or> a = ev \<and> j = 1 \<and> r = 0 \<and> wants (evs b ev) \<and> \<not> evbit 3 b ev \<and> \<not> evbit 5 b ev" by auto
    have s1: "same_others ev b0 b1" by (rule same_othersI [OF b1(3)]) (use b1(6) e0(1) in auto)
    have so: "same_others ev b b1" by (rule same_others_trans [OF e0(5) s1])
    have t1: "tmo b1 ev = tmo b ev" "fst (gettime b1) = fst (gettime b)" "length (common_timeout_queues b1) = length (common_timeout_queues b)"
      using b1(3) e0(2,3,6,7) common_length [of b1 b0] by (auto simp: same_data_def tmo_def gettime_def h)
    have io1: "ev_io_timeout (evs b1 a) = ev_io_timeout (evs b a)" for a using b1(3) e0(2) by (simp add: same_data_def)
    have unf: "event_add_body E ev tv ab b = (case tv of
        Some t \<Rightarrow> (if r \<noteq> -1 then bind_outcome (event_add_timeout E ev t ab b1) (\<lambda>b2. Done (r, b2)) else Done (r, b1)) | None \<Rightarrow> Done (r, b1))"
      using r0 fl e(1) False b1(1) by (simp add: event_add_body_def split: option.splits)
    show ?thesis
    proof (cases "r = -1 \<or> tv = None")
      case True
      then have "event_add_body E ev tv ab b = Done (r, b1)" using unf by (cases tv) auto
      then show ?thesis using b1(2,5,6) so t1(1) True io1 by (auto simp: added_def)
    next
      case False
      then obtain t where t: "tv = Some t" "r = 0" using b1(5) by auto
      have et: "tmo_wf t b1" "timeval_ok (fst (gettime b1))" using e(4) [OF t(1)] t1 by (simp_all add: tmo_wf_def)
      have e1: "\<not> evbit 6 b1 ev" "evcb_pri (evs b1 ev) < length (activequeues b1)" using so e(1,3) by (simp_all add: same_others_def kept_def)
      have bit0: "evbit 0 b1 ev = evbit 0 b ev" using b1(6) by auto
      have room: "heap_grows (alloc_ok E) (timeheap b1)" if "usec_small t" "\<not> (evbit 0 b1 ev \<and> usec_small (tmo b1 ev))"
      proof (cases "evbit 0 b ev")
        case True
        then have "heap_grows (alloc_ok E) (timeheap b)" using that e(4) [OF t(1)] t1(1) bit0 by simp
        moreover have "timeheap b1 = timeheap b" using True r0 b1(4) t(1) by (auto simp: event_add_reserve_def)
        ultimately show ?thesis by simp
      next
        case False
        then have "hn (timeheap b1) + 1 \<le> ha (timeheap b1)" using res(4) [OF r0'] t(1) b1(4) by simp
        then show ?thesis by (simp add: heap_grows_def min_heap_reserve_def)
      qed
      from base_add_timeout [OF b1(2) e1 et al room, of ab] obtain b2 where
        b2: "event_add_timeout E ev t ab b1 = Done b2" "base_inv maps regd b2" "same_others ev b1 b2" "evbit 0 b2 ev" "evbit 1 b2 ev = evbit 1 b1 ev"
        "tmo b2 ev = new_timeout (fst (gettime b1)) t ab b1" "ab \<longrightarrow> (\<forall>a. ev_io_timeout (evs b2 a) = ev_io_timeout (evs b1 a))" by blast
      have "added ev tv ab b b2" using b2(4-6) b1(6) t t1(2) new_timeout_cong [OF t1(3)] by (auto simp: added_def)
      then show ?thesis using unf t b2(1,2,7) same_others_trans [OF so b2(3)] io1 by auto
    qed
  qed
qed

lemma base_add_plain:
  assumes inv: "base_inv maps regd b" and ok: "addable (alloc_ok E) ev tv b" and al: "alloc_small (alloc_ok E)"
    and nm: "\<And>t. tv = Some t \<Longrightarrow> usec_small t"
  shows "\<exists>r b'. event_add_nolock E ev tv ab b = Done (r, b') \<and> base_inv maps regd b' \<and> same_others ev b b' \<and> (ab \<longrightarrow> (\<forall>a. ev_io_timeout (evs b' a) = ev_io_timeout (evs b a))) \<and>
    (r = 0 \<and> added ev tv ab b b' \<or> r = -1 \<and> (\<forall>j a. evbit j b' a = evbit j b a) \<and> tmo b' ev = tmo b ev)"
proof -
  have "event_add_nolock E ev tv ab b = event_add_body E ev tv ab b"
    using nm usec_small_not_magic unfolding event_add_nolock.simps [of E ev]
    by (cases "event_add_body E ev tv ab b") (auto split: option.splits)
  then show ?thesis using base_add_body [OF inv ok al] by simp
qed

text \<open>
  With a common timeout, the internal event of the list is added too when the event is its first one.
  Adding is either done, or refused without a change to any queue.
\<close>

lemma base_add:
  assumes inv: "base_inv maps regd b" and ok: "addable (alloc_ok E) ev tv b" and al: "alloc_small (alloc_ok E)" and int: "internal_ok b" "ev \<notin> internal b"
    and clk: "clock_ok b"
  shows "\<exists>r b'. event_add_nolock E ev tv ab b = Done (r, b') \<and> base_inv maps regd b' \<and> internal_ok b' \<and> internal_times b b' \<and> kept b b' \<and> (ab \<longrightarrow> (\<forall>a. ev_io_timeout (evs b' a) = ev_io_timeout (evs b a))) \<and>
    (\<forall>j a. a \<noteq> ev \<and> a \<notin> internal b \<longrightarrow> evbit j b' a = evbit j b a \<and> tmo b' a = tmo b a) \<and>
    (r = 0 \<and> added ev tv ab b b' \<or> r = -1 \<and> (\<forall>j a. evbit j b' a = evbit j b a) \<and> tmo b' ev = tmo b ev)"
proof -
  obtain r b1 where b1: "event_add_body E ev tv ab b = Done (r, b1)" "base_inv maps regd b1" "same_others ev b b1"
    "ab \<longrightarrow> (\<forall>a. ev_io_timeout (evs b1 a) = ev_io_timeout (evs b a))"
    "r = 0 \<and> added ev tv ab b b1 \<or> r = -1 \<and> (\<forall>j a. evbit j b1 a = evbit j b a) \<and> tmo b1 ev = tmo b ev"
    using base_add_body [OF inv ok al, of ab] by blast
  have k1: "kept b b1" using b1(3) by (simp add: same_others_def)
  have i1: "internal_ok b1" by (rule internal_ok_same [OF b1(3) int(1)]) (use int(2) in simp)
  have others: "evbit j b1 a = evbit j b a \<and> tmo b1 a = tmo b a" if "a \<noteq> ev" for j a using b1(3) that by (simp add: same_others_def kept_def)
  show ?thesis
  proof (cases "\<exists>t. tv = Some t \<and> r \<noteq> -1 \<and> is_magic t \<and> is_common_timeout t b \<and>
      ct_events (common_timeout_queues b1 ! COMMON_TIMEOUT_IDX (tmo b1 ev)) \<noteq> [] \<and>
      ev = hd (ct_events (common_timeout_queues b1 ! COMMON_TIMEOUT_IDX (tmo b1 ev)))")
    case False
    then have "event_add_nolock E ev tv ab b = Done (r, b1)"
      unfolding event_add_nolock.simps [of E ev tv] b1(1) by (auto simp: Let_def split: option.splits)
    moreover have "internal_times b b1" unfolding internal_times_def using others int(2) by metis
    ultimately show ?thesis using b1(2,4,5) k1 i1 others by auto
  next
    case True
    then obtain t where t: "tv = Some t" "r \<noteq> -1" "is_magic t" "is_common_timeout t b" by blast
    let ?ctl = "common_timeout_queues b1 ! COMMON_TIMEOUT_IDX (tmo b1 ev)"
    let ?te = "timeout_event ?ctl" and ?tv = "mask_usec (tmo b1 ev)"
    have r: "r = 0" "added ev tv ab b b1" using b1(5) t(2) by auto
    have tm: "tmo b1 ev = new_timeout (fst (gettime b)) t ab b" "evbit 0 b1 ev" using r(2) t(1) by (simp_all add: added_def)
    have tk: "timers_ok b1" using b1(2) by (simp add: base_inv_def)
    then have wfe: "tmo_wf (tmo b1 ev) b1" "length (common_timeout_queues b1) \<le> MAX_COMMON_TIMEOUTS" using tm(2) by (simp_all add: timers_ok_def)
    have nwf: "tmo_wf t b" "timeval_ok (fst (gettime b))" "length (common_timeout_queues b) \<le> MAX_COMMON_TIMEOUTS"
      using ok t(1) inv by (auto simp: addable_def base_inv_def timers_ok_def)
    have "\<not> usec_small (tmo b1 ev)" using new_timeout_wf(2) [OF nwf(2,1,3), of ab] usec_small_not_magic t(3) tm(1) by auto
    then have "COMMON_TIMEOUT_IDX (tmo b1 ev) < length (common_timeout_queues b1)" using wf_cases [OF wfe(2,1)] by auto
    then have te: "?te \<in> internal b1" by (auto simp: internal_def)
    have neq: "?te \<noteq> ev" using te int(2) internal_same [OF b1(3)] by auto
    have "clock_ok b1" using clk b1(3) by (simp add: clock_ok_def same_others_def kept_def)
    then have ad: "addable (alloc_ok E) ?te (Some ?tv) b1"
      using i1 te clock_ok_gettime by (auto simp: addable_def internal_ok_def unmixed_def tmo_wf_def)
    obtain q b2 where b2: "event_add_nolock E ?te (Some ?tv) True b1 = Done (q, b2)" "base_inv maps regd b2" "same_others ?te b1 b2"
      "\<forall>a. ev_io_timeout (evs b2 a) = ev_io_timeout (evs b1 a)"
      "q = 0 \<and> added ?te (Some ?tv) True b1 b2 \<or> q = -1 \<and> (\<forall>j a. evbit j b2 a = evbit j b1 a) \<and> tmo b2 ?te = tmo b1 ?te"
      using base_add_plain [OF b1(2) ad al, of True] by auto
    have unf: "event_add_nolock E ev tv ab b = Done (0, b2)"
      unfolding event_add_nolock.simps [of E ev tv] b1(1) using t True r(1) b2(1) by (auto simp: Let_def)
    have small: "usec_small (tmo b2 ?te)" if "evbit 0 b2 ?te"
      using b2(5) that te i1 by (auto simp: added_def new_timeout_def internal_ok_def)
    have i2: "internal_ok b2" by (rule internal_ok_same [OF b2(3) i1]) (use small in simp)
    have keep: "evbit j b2 a = evbit j b1 a \<and> tmo b2 a = tmo b1 a" if "a \<noteq> ?te" for j a using b2(3) that by (simp add: same_others_def kept_def)
    have "added ev tv ab b b2" using r(2) keep [of ev] neq t(1) by (simp add: added_def)
    moreover have "evbit j b2 a = evbit j b a \<and> tmo b2 a = tmo b a" if "a \<noteq> ev" "a \<notin> internal b" for j a
    proof -
      have "a \<noteq> ?te" using that(2) te internal_same [OF b1(3)] by auto
      then show ?thesis using keep others that(1) by simp
    qed
    moreover have "internal_times b b2"
    proof -
      have ev0: "evbit 0 b2 ev" "tmo b2 ev = tmo b1 ev" using keep [of ev] neq tm(2) by auto
      have "evbit 0 b a \<and> tmo b2 a = tmo b a \<or> tmo b2 a = mask_usec (tmo b2 ev)" if "a \<in> internal b" "evbit 0 b2 a" for a
      proof (cases "a = ?te")
        case True
        then show ?thesis using b2(5) ev0(2) others [of ?te] neq that(2) by (auto simp: added_def new_timeout_def)
      next
        case False
        then show ?thesis using keep [of a] others [of a] that int(2) by auto
      qed
      then show ?thesis using ev0(1) int(2) unfolding internal_times_def by blast
    qed
    moreover have "kept b b2" using kept_trans [OF k1] b2(3) by (simp add: same_others_def)
    moreover have "ab \<longrightarrow> (\<forall>a. ev_io_timeout (evs b2 a) = ev_io_timeout (evs b a))" using b1(4) b2(4) by simp
    ultimately show ?thesis using unf b2(2) i2 by blast
  qed
qed

text \<open>
  The one case that \<open>addable\<close> leaves out: an event on the list of a common timeout is added again with a plain timeout while
  the heap is full and cannot grow. No space is reserved because the event has a timeout, and the failure of
  \<^verbatim>\<open>min_heap_push_\<close> is not looked at: the call succeeds, and the event is nowhere.
\<close>

lemma base_add_loses:
  assumes inv: "base_inv maps regd b" and fin: "\<not> evbit 6 b ev" and p: "evcb_pri (evs b ev) < length (activequeues b)"
    and on: "evbit 0 b ev" "\<not> usec_small (tmo b ev)" and w: "\<not> wants (evs b ev)" and t: "usec_small t"
    and now: "timeval_ok (fst (gettime b))" and full: "\<not> heap_grows (alloc_ok E) (timeheap b)"
  shows "\<exists>b'. event_add_nolock E ev (Some t) ab b = Done (0, b') \<and> evbit 0 b' ev \<and> tmo b' ev = new_timeout (fst (gettime b)) t ab b \<and>
    ev \<notin># heap_elems (timeheap b') \<and> (\<forall>ctl \<in> set (common_timeout_queues b'). ev \<notin> set (ct_events ctl))"
proof -
  have tw: "tmo_wf t b" using t by (simp add: tmo_wf_def)
  from base_add_timeout_prepared [OF inv fin p tw now, of ab] obtain b5 where
    b5: "event_add_timeout E ev t ab b = event_queue_insert_timeout (alloc_ok E) ev b5" "base_inv maps regd b5"
    "\<not> evbit 0 b5 ev" "tmo b5 ev = new_timeout (fst (gettime b)) t ab b"
    "ha (timeheap b5) = ha (timeheap b)" "hn (timeheap b5) = hn (timeheap b)" using on by auto
  have t5: "timers_ok b5" using b5(2) by (simp add: base_inv_def)
  then have "ev \<notin> set (ct_events (common_timeout_queues b5 ! i))" if "i < length (common_timeout_queues b5)" for i
    using b5(3) that by (simp add: timers_ok_def)
  then have out: "ev \<notin># heap_elems (timeheap b5)" "\<forall>ctl \<in> set (common_timeout_queues b5). ev \<notin> set (ct_events ctl)"
    using b5(3) t5 by (simp add: timers_ok_def, metis in_set_conv_nth)
  have small: "usec_small (tmo b5 ev)" using new_timeout_small [OF now t] b5(4) by simp
  then have nc: "\<not> is_common_timeout (tmo b5 ev) b5"
    using usec_small_not_magic by (auto simp: is_common_timeout_def is_magic_def)
  have "fst (min_heap_reserve (alloc_ok E) (timeheap b5) (hn (timeheap b5) + 1)) \<noteq> 0"
    using full b5(5,6) by (auto simp: heap_grows_def min_heap_reserve_def Let_def split: if_splits)
  then have push: "snd (min_heap_push (alloc_ok E) f (timeheap b5) ev) = timeheap b5" for f
    using min_heap_push_fail [of "alloc_ok E" f "timeheap b5" ev] by (auto simp: min_heap_push_def split: prod.splits)
  obtain b6 where b6: "event_queue_insert_timeout (alloc_ok E) ev b5 = Done b6" "evbit 0 b6 ev" "timeheap b6 = timeheap b5"
    "common_timeout_queues b6 = common_timeout_queues b5" "tmo b6 ev = tmo b5 ev"
    using b5(3) nc push
    by (auto simp: event_queue_insert_timeout_def Let_def upd_event_def INCR_EVENT_COUNT_def set_flag_def evbit_def tmo_def bit_or_iff flag_def)
  have fl: "evcb_flags (evs b ev) AND NOT EVLIST_ALL = 0" unfolding all_flags using inv by (simp add: base_inv_def event_ok_def)
  have "event_add_body E ev (Some t) ab b = Done (0, b6)"
    using fl fin on(1) w b5(1) b6(1) by (simp add: event_add_body_def event_add_reserve_def event_add_register_def Let_def wants_def)
  then have "event_add_nolock E ev (Some t) ab b = Done (0, b6)"
    unfolding event_add_nolock.simps [of E ev] using usec_small_not_magic [OF t] by simp
  then show ?thesis using b6 b5(4) out by auto
qed

end

end
