(* ===== verification/Base_Loop.thy ===== *)
theory Base_Loop
  imports Base_Timeouts Base_Add
begin

text \<open>
  The steps of the loop of \<^verbatim>\<open>src/event.c\<close> around the processing of timeouts: the time to wait, the events to
  activate later, the callback of a common timeout, and the finalization of events.
\<close>

section \<open>Events to activate later\<close>

text \<open>One turn of \<^verbatim>\<open>event_queue_make_later_events_active\<close>.\<close>

definition later_step :: "nat \<Rightarrow> nat list \<Rightarrow> 'k event_base \<Rightarrow> 'k event_base" where
  "later_step ev es b =
     b\<lparr>active_later_queue := es, evs := (evs b)(ev := set_flag EVLIST_ACTIVE (clear_flag EVLIST_ACTIVE_LATER (evs b ev))),
       activequeues := (activequeues b)[evcb_pri (evs b ev) := activequeues b ! evcb_pri (evs b ev) @ [ev]],
       n_deferreds_queued := n_deferreds_queued b + (if evcb_closure (evs b ev) = EV_CLOSURE_CB_SELF then 1 else 0)\<rparr>"

lemma make_later_Cons:
  "make_later_active (ev # es) b =
     (if evcb_pri (evs b ev) < length (activequeues b) then make_later_active es (later_step ev es b) else Aborted)"
  by (simp add: Let_def upd_event_def append_active_def later_step_def)

text \<open>What the steps of the loop leave alone.\<close>

definition on_some_queue :: "'k event_base \<Rightarrow> nat \<Rightarrow> bool" where
  "on_some_queue b a \<longleftrightarrow> (\<exists>k \<in> QUEUES. evbit k b a)"

definition loop_frame :: "'k event_base \<Rightarrow> 'k event_base \<Rightarrow> bool" where
  "loop_frame b b' \<longleftrightarrow>
     (\<forall>a. evcb_pri (evs b' a) = evcb_pri (evs b a) \<and> evcb_closure (evs b' a) = evcb_closure (evs b a) \<and>
        ev_events (evs b' a) = ev_events (evs b a) \<and> ev_io_timeout (evs b' a) = ev_io_timeout (evs b a) \<and>
        evbit 6 b' a = evbit 6 b a \<and> evbit 7 b' a = evbit 7 b a) \<and>
     clock b' = clock b \<and> tv_cache b' = tv_cache b \<and> length (activequeues b') = length (activequeues b) \<and>
     map timeout_event (common_timeout_queues b') = map timeout_event (common_timeout_queues b) \<and>
     (\<forall>a. a \<notin> internal b \<longrightarrow> tmo b' a = tmo b a \<and> (on_some_queue b' a \<longrightarrow> on_some_queue b a))"

lemma loop_frame_internal: "loop_frame b b' \<Longrightarrow> internal b' = internal b"
  unfolding internal_def loop_frame_def by (metis image_set)

lemma loop_frame_trans: "loop_frame b b1 \<Longrightarrow> loop_frame b1 b2 \<Longrightarrow> loop_frame b b2"
  using loop_frame_internal [of b b1] unfolding loop_frame_def by metis

lemma loop_frameI:
  assumes "same_data X b b'" "\<And>a. evbit 6 b' a = evbit 6 b a \<and> evbit 7 b' a = evbit 7 b a" "\<And>a. on_some_queue b' a \<Longrightarrow> on_some_queue b a"
  shows "loop_frame b b'"
  using assms by (simp add: loop_frame_def same_data_def tmo_def)

lemma loop_frame_expired: "expired X b b' \<Longrightarrow> same_data X b b' \<Longrightarrow> (\<And>a. a \<in> X \<Longrightarrow> evbit 0 b a) \<Longrightarrow> loop_frame b b'"
  by (rule loop_frameI) (auto simp: expired_def on_some_queue_def QUEUES_def split: if_splits)

lemma loop_frame_added:
  assumes "same_others te b b'" "te \<in> internal b" "\<forall>a. ev_io_timeout (evs b' a) = ev_io_timeout (evs b a)"
  shows "loop_frame b b'"
proof -
  have "tmo b' a = tmo b a \<and> (on_some_queue b' a \<longrightarrow> on_some_queue b a)" if "a \<notin> internal b" for a
    using assms(1,2) that unfolding same_others_def on_some_queue_def by metis
  then show ?thesis using assms by (simp add: same_others_def kept_def loop_frame_def)
qed

context evmaps
begin

lemma base_later_step:
  assumes inv: "base_inv maps regd b" and q: "active_later_queue b = ev # es"
  shows "base_inv maps regd (later_step ev es b)" "activated ev b (later_step ev es b)" "same_data {} b (later_step ev es b)"
proof -
  have qk: "queues_ok b" using inv by (simp add: base_inv_def)
  then have on: "evbit 5 b ev" and p: "evcb_pri (evs b ev) < length (activequeues b)" and off: "\<not> evbit 3 b ev"
    using q by (auto simp: queues_ok_def)
  have dist: "distinct (ev # es)" using qk q by (simp add: queues_ok_def)
  define bm where "bm = b\<lparr>evs := (evs b)(ev := clear_flag EVLIST_ACTIVE_LATER (evs b ev)), event_count := minus_count ev b,
    event_count_active := event_count_active b - 1, active_later_queue := es\<rparr>"
  define b' where "b' = later_step ev es b"
  have c: "cleared 5 ev b bm" by (rule cleared_upd [of EVLIST_ACTIVE_LATER]) (simp_all add: bm_def)
  have m: "marked 3 ev bm b'" by (rule marked_upd [of EVLIST_ACTIVE]) (simp_all add: b'_def later_step_def bm_def)
  have offm: "\<not> evbit 3 bm ev" "\<not> evbit 5 bm ev" using c off by (simp_all add: cleared_def)
  have qm: "queues_ok bm" by (rule queues_remove_later [OF qk c]) (use q dist in \<open>simp_all add: bm_def\<close>)
  have q': "queues_ok b'"
    by (rule queues_insert_active [OF qm offm m]) (use p in \<open>simp_all add: bm_def b'_def later_step_def\<close>)
  have nm: "counts_ok bm" by (rule counts_cleared [OF _ c on]) (use inv in \<open>simp_all add: base_inv_def QUEUES_def bm_def minus_count_def\<close>)
  have bit4: "evbit 4 bm ev = evbit 4 b ev" using c by (simp add: cleared_def)
  have n': "counts_ok b'"
    by (rule counts_marked [OF nm m offm(1)]) (simp_all add: QUEUES_def bit4, simp_all add: b'_def later_step_def bm_def minus_count_def)
  have act: "activated ev b b'" using c m by (auto simp: activated_def cleared_def marked_def)
  then have bits: "evbit j b' a = evbit j b a" if "j \<notin> {3, 5}" for j a using that by (auto simp: activated_def)
  have t: "timers_ok b'"
    by (rule timers_cong [of b' b]) (use inv bits in \<open>simp_all add: base_inv_def b'_def later_step_def tmo_def\<close>)
  have sm: "same_maps b b'" by (simp add: same_maps_def b'_def later_step_def)
  have b1: "evbit 1 b' a = evbit 1 b a" for a using bits by simp
  have e: "event_ok b' a" for a
    by (rule event_ok_marked [OF event_ok_cleared [OF _ c] m]) (use inv p in \<open>simp_all add: base_inv_def bm_def b'_def later_step_def\<close>)
  have "base_inv maps regd b'" using q' t n' e maps_kept [OF inv sm b1] by (simp add: base_inv_def)
  then show "base_inv maps regd (later_step ev es b)" "activated ev b (later_step ev es b)" "same_data {} b (later_step ev es b)"
    using act by (simp_all add: b'_def, simp add: same_data_def later_step_def)
qed

lemma base_make_later:
  assumes "base_inv maps regd b" "active_later_queue b = es"
  shows "\<exists>b'. make_later_active es b = Done b' \<and> base_inv maps regd b' \<and> same_data {} b b' \<and> active_later_queue b' = [] \<and>
    (\<forall>j a. evbit j b' a \<longleftrightarrow> a \<in> set es \<and> j = 3 \<or> evbit j b a \<and> j \<noteq> 5) \<and>
    (\<forall>i < length (activequeues b). activequeues b' ! i = activequeues b ! i @ filter (\<lambda>a. evcb_pri (evs b a) = i) es)"
  using assms
proof (induction es arbitrary: b)
  case Nil
  then have "evbit 5 b a = False" for a by (auto simp: base_inv_def queues_ok_def)
  then show ?case using Nil by auto
next
  case (Cons ev es)
  let ?b = "later_step ev es b"
  note st = base_later_step [OF Cons.prems]
  have p: "evcb_pri (evs b ev) < length (activequeues b)" using Cons.prems by (auto simp: base_inv_def queues_ok_def)
  have f: "active_later_queue ?b = es" by (simp add: later_step_def)
  from Cons.IH [OF st(1) f] obtain b' where
    b': "make_later_active es ?b = Done b'" "base_inv maps regd b'" "same_data {} ?b b'" "active_later_queue b' = []"
    "\<forall>j a. evbit j b' a \<longleftrightarrow> a \<in> set es \<and> j = 3 \<or> evbit j ?b a \<and> j \<noteq> 5"
    "\<forall>i < length (activequeues ?b). activequeues b' ! i = activequeues ?b ! i @ filter (\<lambda>a. evcb_pri (evs ?b a) = i) es" by blast
  have pri: "evcb_pri (evs ?b a) = evcb_pri (evs b a)" for a using st(3) by (simp add: same_data_def)
  have "activequeues b' ! i = activequeues b ! i @ filter (\<lambda>a. evcb_pri (evs b a) = i) (ev # es)" if "i < length (activequeues b)" for i
    using b'(6) that p unfolding pri by (cases "i = evcb_pri (evs b ev)") (simp_all add: later_step_def)
  moreover have "evbit j b' a \<longleftrightarrow> a \<in> set (ev # es) \<and> j = 3 \<or> evbit j b a \<and> j \<noteq> 5" for j a
    using b'(5) st(2) by (auto simp: activated_def)
  ultimately show ?case using b'(1,2,4) p same_data_trans [OF st(3) b'(3)] unfolding make_later_Cons by simp
qed

section \<open>The time to wait\<close>

lemma base_timeout_next:
  assumes inv: "base_inv maps regd b" and now: "timeval_ok (fst (gettime b))"
    and tv: "\<And>a. evbit 0 b a \<Longrightarrow> usec_small (tmo b a) \<Longrightarrow> timeval_ok (tmo b a)"
  shows "\<exists>w b'. timeout_next b = Done (w, b') \<and> base_inv maps regd b' \<and>
    (case w of None \<Rightarrow> \<forall>a. \<not> (evbit 0 b a \<and> usec_small (tmo b a))
     | Some d \<Rightarrow> timeval_ok d \<and> 0 \<le> tv_sec d \<and>
         (\<forall>a. evbit 0 b a \<and> usec_small (tmo b a) \<longrightarrow> usecs d \<le> max 0 (usecs (tmo b a) - usecs (fst (gettime b)))) \<and>
         (\<exists>a. evbit 0 b a \<and> usec_small (tmo b a) \<and> usecs d = max 0 (usecs (tmo b a) - usecs (fst (gettime b)))))"
proof -
  have t: "timers_ok b" using inv by (simp add: base_inv_def)
  then have hi: "min_heap_inv (tmo b) (timeheap b)" and he: "\<And>a. a \<in># heap_elems (timeheap b) \<longleftrightarrow> evbit 0 b a \<and> usec_small (tmo b a)"
    by (simp_all add: timers_ok_def)
  obtain n b1 where g: "gettime b = (n, b1)" by fastforce
  obtain k where b1: "b1 = b\<lparr>tick := k\<rparr>" using gettime_frame [OF g] by blast
  have inv1: "base_inv maps regd b1" by (rule inv_cong [OF inv]) (simp_all add: b1 same_maps_def tmo_def)
  have t1: "tmo b1 = tmo b" by (auto simp: b1 tmo_def)
  have nk: "timeval_ok n" using now g by simp
  show ?thesis
  proof (cases "min_heap_top (timeheap b)")
    case None
    then have "\<not> (evbit 0 b a \<and> usec_small (tmo b a))" for a using min_heap_top_None [OF hi] he by auto
    then show ?thesis using None inv by (simp add: timeout_next_def)
  next
    case (Some ev)
    have e: "evbit 0 b ev" "usec_small (tmo b ev)" using min_heap_top_least(1) [OF hi Some] he by auto
    have ek: "timeval_ok (tmo b ev)" by (rule tv [OF e])
    have least: "usecs (tmo b ev) \<le> usecs (tmo b a)" if "evbit 0 b a" "usec_small (tmo b a)" for a
      using min_heap_top_least(2) [OF hi Some, of a] he that usecs_le_iff [OF ek tv [OF that]] by simp
    show ?thesis
    proof (cases "tmo b ev \<le> n")
      case True
      then have "usecs (tmo b ev) \<le> usecs n" using usecs_le_iff [OF ek nk] by simp
      moreover have "timeout_next b = Done (Some evutil_timerclear, b1)" using Some g True by (simp add: timeout_next_def t1)
      moreover have "usecs evutil_timerclear = 0" "timeval_ok evutil_timerclear" "tv_sec evutil_timerclear = 0"
        by (simp_all add: usecs_def evutil_timerclear_def timeval_ok_def)
      ultimately show ?thesis using inv1 e g by (auto intro!: exI [of _ ev])
    next
      case False
      let ?d = "evutil_timersub (tmo b ev) n"
      have lt: "usecs n < usecs (tmo b ev)" using False usecs_le_iff [OF ek nk] by simp
      have dk: "timeval_ok ?d" by (rule timeval_ok_sub [OF ek nk])
      have ud: "usecs ?d = usecs (tmo b ev) - usecs n" by simp
      have sec: "0 \<le> tv_sec ?d" using lt dk ud unfolding usecs_def timeval_ok_def by linarith
      have le: "usecs (tmo b ev) - usecs n \<le> max 0 (usecs (tmo b a) - usecs n)" if "evbit 0 b a" "usec_small (tmo b a)" for a
        using least [OF that] by (intro max.coboundedI2) simp
      have "timeout_next b = Done (Some ?d, b1)" using Some g False sec dk by (simp add: timeout_next_def t1 timeval_ok_def)
      then show ?thesis using inv1 e g dk sec le lt by (auto intro!: exI [of _ ev])
    qed
  qed
qed

section \<open>The callback of a common timeout\<close>

end

text \<open>
  What the callback leaves of its list and of its internal event: the events that are not due, and when there are any, the
  internal event in the heap at the time of the first of them, which is the earliest. The result of
  \<^verbatim>\<open>common_timeout_schedule\<close> is not looked at, so this needs an internal event that is in the heap already or
  an allocator that lets the heap grow.
\<close>

definition rescheduled :: "(nat \<Rightarrow> bool) \<Rightarrow> nat \<Rightarrow> 'k event_base \<Rightarrow> 'k event_base \<Rightarrow> bool" where
  "rescheduled al i b b' \<longleftrightarrow>
     (let te = timeout_event (common_timeout_queues b ! i); left = ct_events (common_timeout_queues b' ! i);
          X = due_common i (fst (gettime b)) b in
      set left = set (ct_events (common_timeout_queues b ! i)) - X \<and>
      (\<forall>j a. a \<notin> X \<and> a \<noteq> te \<longrightarrow> evbit j b' a = evbit j b a \<and> tmo b' a = tmo b a) \<and>
      (if left = [] then (\<forall>j. evbit j b' te = evbit j b te) \<and> tmo b' te = tmo b te
       else evbit 0 b te \<or> heap_grows al (timeheap b) \<longrightarrow>
         evbit 0 b' te \<and> tmo b' te = mask_usec (tmo b' (hd left)) \<and> (\<forall>a \<in> set left. tmo b' te \<le> mask_usec (tmo b' a))))"

context evmaps
begin

text \<open>Adding an internal event at a plain time is refused only when the heap cannot grow.\<close>

lemma base_add_internal:
  assumes inv: "base_inv maps regd b" and int: "internal_ok b" "te \<in> internal b" and clk: "clock_ok b" and al: "alloc_small (alloc_ok E)"
    and room: "evbit 0 b te \<or> heap_grows (alloc_ok E) (timeheap b)"
    and r: "event_add_nolock E te (Some (mask_usec t)) True b = Done (r, b')"
  shows "r = 0"
proof -
  have e: "\<not> evbit 6 b te" "ev_events (evs b te) = 0" "evcb_pri (evs b te) < length (activequeues b)" "evbit 0 b te \<longrightarrow> usec_small (tmo b te)"
    using int by (auto simp: internal_ok_def)
  have "event_add_nolock E te (Some (mask_usec t)) True b = event_add_body E te (Some (mask_usec t)) True b"
    unfolding event_add_nolock.simps [of E te] by (cases "event_add_body E te (Some (mask_usec t)) True b") auto
  moreover have fl: "evcb_flags (evs b te) AND NOT EVLIST_ALL = 0" unfolding all_flags using inv by (simp add: base_inv_def event_ok_def)
  obtain r0 b0 where r0: "event_add_reserve E te (Some (mask_usec t)) b = (r0, b0)" by fastforce
  have "r0 = 0" using r0 room
    by (cases "evbit 0 b te") (auto simp: event_add_reserve_def heap_grows_def min_heap_size_def split: prod.splits)
  moreover have "evs b0 = evs b" using r0 by (auto simp: event_add_reserve_def split: prod.splits if_splits)
  then have "event_add_register E te b0 = Done (0, b0)" using e(2) by (simp add: event_add_register_def)
  ultimately show "r = 0" using r r0 fl e(1)
    by (cases "event_add_timeout E te (mask_usec t) True b0") (auto simp: event_add_body_def)
qed

lemma base_common_callback:
  assumes inv: "base_inv maps regd b" and i: "i < length (common_timeout_queues b)" and al: "alloc_small (alloc_ok E)"
    and int: "internal_ok b" and clk: "clock_ok b"
  shows "\<exists>b'. common_timeout_callback E i b = Some (Done b') \<and> base_inv maps regd b' \<and> internal_ok b' \<and>
    loop_frame b b' \<and> internal_times b b' \<and> (\<forall>a \<in> due_common i (fst (gettime b)) b. evbit 3 b' a \<and> \<not> evbit 0 b' a) \<and>
    (\<forall>j a. a \<notin> due_common i (fst (gettime b)) b \<and> a \<notin> internal b \<longrightarrow> evbit j b' a = evbit j b a) \<and> rescheduled (alloc_ok E) i b b'"
proof -
  obtain n b1 where g: "gettime b = (n, b1)" by fastforce
  obtain k where b1: "b1 = b\<lparr>tick := k\<rparr>" using gettime_frame [OF g] by blast
  have inv1: "base_inv maps regd b1" by (rule inv_cong [OF inv]) (simp_all add: b1 same_maps_def tmo_def)
  have e1: "evbit j b1 a = evbit j b a" "tmo b1 = tmo b" "common_timeout_queues b1 = common_timeout_queues b" for j a
    by (auto simp: b1 tmo_def evbit_def)
  let ?X = "due_common i n b"
  have d1: "due_common i n b1 = ?X" by (simp add: due_common_def e1)
  have i1: "i < length (common_timeout_queues b1)" using i e1(3) by simp
  from base_common_expire [OF inv1 i1 le_refl, of n] obtain b2 where
    b2: "common_timeout_expire (length (ct_events (common_timeout_queues b1 ! i))) E i n b1 = Some (Done b2)" "base_inv maps regd b2"
    "expired ?X b1 b2" "same_data ?X b1 b2" unfolding d1 by blast
  have len: "length (common_timeout_queues b2) = length (common_timeout_queues b)" "internal b2 = internal b"
    using b2(4) e1(3) common_length [of b2 b1] unfolding internal_def same_data_def by (simp_all) (metis image_set)
  have max: "length (common_timeout_queues b) \<le> MAX_COMMON_TIMEOUTS" using inv by (simp add: base_inv_def timers_ok_def)
  have out: "a \<notin> ?X" if "a \<in> internal b" for a
  proof
    assume "a \<in> ?X"
    then have a: "evbit 0 b a" "magic_at i (tmo b a)" by (simp_all add: due_common_def)
    then have "usec_small (tmo b a)" using int that by (simp add: internal_ok_def)
    then show False using usec_small_not_magic magic_at_is_magic(1) [OF a(2)] i max by (simp add: MAX_COMMON_TIMEOUTS_def)
  qed
  have bits: "evbit j b2 a = evbit j b a" if "a \<notin> ?X" for j a using b2(3) e1(1) that by (simp add: expired_def)
  have "loop_frame b1 b2" by (rule loop_frame_expired [OF b2(3,4)]) (simp add: due_common_def e1)
  moreover have "loop_frame b b1" by (simp add: loop_frame_def on_some_queue_def e1) (simp add: b1)
  ultimately have fr: "loop_frame b b2" using loop_frame_trans by blast
  have tm2: "tmo b2 a = tmo b a" for a using b2(4) by (simp add: same_data_def b1 tmo_def)
  have int2: "internal_ok b2"
    using int b2(4) bits out len(2) by (auto simp: internal_ok_def same_data_def b1 tmo_def)
  have on: "evbit 3 b2 a \<and> \<not> evbit 0 b2 a" if "a \<in> ?X" for a using b2(3) that by (simp add: expired_def QUEUES_def)
  have unf: "common_timeout_callback E i b = (case ct_events (common_timeout_queues b2 ! i) of [] \<Rightarrow> Some (Done b2)
      | ev # es \<Rightarrow> Some (bind_outcome (common_timeout_schedule E i ev b2) (\<lambda>(r, b3). Done b3)))"
    using g b2(1) by (simp add: common_timeout_callback_def)
  have mt: "map timeout_event (common_timeout_queues b2) = map timeout_event (common_timeout_queues b)"
    using b2(4) e1(3) by (simp add: same_data_def)
  have teq: "timeout_event (common_timeout_queues b2 ! i) = timeout_event (common_timeout_queues b ! i)"
    using arg_cong [OF mt, of "\<lambda>xs. xs ! i"] i len(1) by simp
  have tk: "timers_ok b" "timers_ok b2" using inv b2(2) by (simp_all add: base_inv_def)
  have bit02: "evbit 0 b2 a \<longleftrightarrow> evbit 0 b a \<and> a \<notin> ?X" for a using bits [of a 0] on [of a] by (cases "a \<in> ?X") auto
  have set2: "set (ct_events (common_timeout_queues b2 ! i)) = set (ct_events (common_timeout_queues b ! i)) - ?X"
    using common_list(3) [OF tk(1) i] common_list(3) [of b2 i] tk(2) i len(1) tm2 bit02 by auto
  have heap2: "hn (timeheap b2) = hn (timeheap b)" "ha (timeheap b2) = ha (timeheap b)"
  proof -
    have "\<not> usec_small (tmo b a)" if "a \<in> ?X" for a
      using that usec_small_not_magic magic_at_is_magic(1) i max by (fastforce simp: due_common_def MAX_COMMON_TIMEOUTS_def)
    then have "{a. evbit 0 b2 a \<and> usec_small (tmo b2 a)} = {a. evbit 0 b a \<and> usec_small (tmo b a)}"
      using bits on tm2 by auto
    then show "hn (timeheap b2) = hn (timeheap b)" using timers_card(2) [OF tk(1)] timers_card(2) [OF tk(2)] by simp
    show "ha (timeheap b2) = ha (timeheap b)" using b2(4) by (simp add: same_data_def b1)
  qed
  have te0: "timeout_event (common_timeout_queues b ! i) \<in> internal b" using i by (auto simp: internal_def)
  show ?thesis
  proof (cases "ct_events (common_timeout_queues b2 ! i)")
    case Nil
    have "rescheduled (alloc_ok E) i b b2"
      using set2 Nil bits tm2 out [OF te0] g by (simp add: rescheduled_def Let_def)
    moreover note Nil
    moreover have "internal_times b b2" using out bits tm2 by (auto simp: internal_times_def)
    ultimately show ?thesis using unf b2(2) int2 on bits g fr by auto
  next
    case (Cons ev es)
    let ?te = "timeout_event (common_timeout_queues b2 ! i)" and ?tv = "mask_usec (tmo b2 ev)"
    have te: "?te \<in> internal b2" using i len(1) by (auto simp: internal_def)
    have "clock_ok b2" using clk b2(4) by (simp add: clock_ok_def same_data_def b1)
    then have ad: "addable (alloc_ok E) ?te (Some ?tv) b2"
      using int2 te clock_ok_gettime by (auto simp: addable_def internal_ok_def unmixed_def tmo_wf_def)
    from base_add_plain [OF b2(2) ad al, of True] obtain r b3 where
      b3: "event_add_nolock E ?te (Some ?tv) True b2 = Done (r, b3)" "base_inv maps regd b3" "same_others ?te b2 b3"
      "\<forall>a. ev_io_timeout (evs b3 a) = ev_io_timeout (evs b2 a)"
      "r = 0 \<and> added ?te (Some ?tv) True b2 b3 \<or> r = -1 \<and> (\<forall>j a. evbit j b3 a = evbit j b2 a) \<and> tmo b3 ?te = tmo b2 ?te" by auto
    have small: "usec_small (tmo b3 ?te)" if "evbit 0 b3 ?te"
      using b3(5) that te int2 by (auto simp: added_def new_timeout_def internal_ok_def)
    have int3: "internal_ok b3" by (rule internal_ok_same [OF b3(3) int2]) (use small in simp)
    have keep: "evbit j b3 a = evbit j b2 a" if "a \<notin> internal b" for j a
      using b3(3) that te len(2) unfolding same_others_def by metis
    have op: "common_timeout_callback E i b = Some (Done b3)"
      unfolding unf Cons using b3(1) by (simp add: common_timeout_schedule_def)
    have iq: "i < length (common_timeout_queues b2)" "i < length (common_timeout_queues b3)"
      using i len(1) b3(3) common_length [of b3 b2] by (simp_all add: same_others_def kept_def)
    have keep3: "evbit j b3 a = evbit j b2 a \<and> tmo b3 a = tmo b2 a" if "a \<noteq> ?te" for j a using b3(3) that by (simp add: same_others_def)
    have te3: "\<not> (evbit 0 c ?te \<and> magic_at i (tmo c ?te))" if "internal_ok c" "internal c = internal b" for c :: "'k event_base"
    proof
      assume a: "evbit 0 c ?te \<and> magic_at i (tmo c ?te)"
      then have "usec_small (tmo c ?te)" using that te0 teq by (simp add: internal_ok_def)
      then show False
        using usec_small_not_magic [of "tmo c ?te"] magic_at_is_magic(1) [of i "tmo c ?te"] a i max by (simp add: MAX_COMMON_TIMEOUTS_def)
    qed
    have tk3: "timers_ok b3" using b3(2) by (simp add: base_inv_def)
    have set3: "set (ct_events (common_timeout_queues b3 ! i)) = set (ev # es)"
    proof -
      have "evbit 0 b3 a \<and> magic_at i (tmo b3 a) \<longleftrightarrow> evbit 0 b2 a \<and> magic_at i (tmo b2 a)" for a
        using keep3 [of a] te3 [OF int3] te3 [OF int2 len(2)] internal_same [OF b3(3)] len(2) by (cases "a = ?te") auto
      then show ?thesis using common_list(3) [OF tk3 iq(2)] common_list(3) [OF tk(2) iq(1)] unfolding Cons by simp
    qed
    have evn: "ev \<noteq> ?te" using common_list(3) [OF tk(2) iq(1)] Cons te3 [OF int2 len(2)] by auto
    define hd3 where "hd3 = hd (ct_events (common_timeout_queues b3 ! i))"
    have ne3: "ct_events (common_timeout_queues b3 ! i) \<noteq> []" using set3 by auto
    have "tmo b3 hd3 \<le> tmo b3 a" if "a \<in> set (ct_events (common_timeout_queues b3 ! i))" for a
      using that common_list(2) [OF tk3 iq(2)] unfolding hd3_def by (cases "ct_events (common_timeout_queues b3 ! i)") auto
    then have hd: "hd3 \<in> set (ev # es)" "\<And>a. a \<in> set (ev # es) \<Longrightarrow> tmo b3 hd3 \<le> tmo b3 a"
      using hd_in_set [OF ne3] unfolding set3 hd3_def by blast+
    have notte: "a \<noteq> ?te" if "a \<in> set (ev # es)" for a
      using that common_list(3) [OF tk(2) iq(1)] Cons te3 [OF int2 len(2)] by auto
    have "tmo b2 ev \<le> tmo b2 hd3" using common_list(2) [OF tk(2) iq(1)] Cons hd(1) by auto
    then have t3: "tmo b3 hd3 = tmo b2 ev" using hd(2) [of ev] keep3 [OF evn] keep3 [OF notte [OF hd(1)]] by simp
    have mg: "magic_at i (tmo b3 a)" if "a \<in> set (ev # es)" for a
      using that set3 common_list(3) [OF tk3 iq(2)] by auto
    have early: "mask_usec (tmo b3 hd3) \<le> mask_usec (tmo b3 a)" if "a \<in> set (ev # es)" for a
      using mask_usec_mono [OF mg [OF hd(1)] mg [OF that] hd(2) [OF that]] .
    have res: "rescheduled (alloc_ok E) i b b3"
    proof -
      have "r = 0" if "evbit 0 b ?te \<or> heap_grows (alloc_ok E) (timeheap b)"
      proof (rule base_add_internal [OF b2(2) int2 te _ al _ b3(1)])
        show "clock_ok b2" using clk b2(4) by (simp add: clock_ok_def same_data_def b1)
        show "evbit 0 b2 ?te \<or> heap_grows (alloc_ok E) (timeheap b2)"
          using that bits [OF out] te0 teq heap2 by (auto simp: heap_grows_def min_heap_reserve_def Let_def split: if_splits)
      qed
      then have a: "added ?te (Some ?tv) True b2 b3" if "evbit 0 b ?te \<or> heap_grows (alloc_ok E) (timeheap b)"
        using b3(5) that by auto
      have "evbit 0 b3 ?te \<and> tmo b3 ?te = mask_usec (tmo b3 hd3) \<and> 
          (\<forall>a \<in> set (ct_events (common_timeout_queues b3 ! i)). tmo b3 ?te \<le> mask_usec (tmo b3 a))"
        if "evbit 0 b ?te \<or> heap_grows (alloc_ok E) (timeheap b)"
        using a [OF that] early t3 unfolding set3 by (simp add: added_def new_timeout_def)
      moreover have "evbit j b3 a = evbit j b a \<and> tmo b3 a = tmo b a" if "a \<notin> ?X" "a \<noteq> ?te" for j a
        using keep3 [OF that(2)] bits [OF that(1)] tm2 by simp
      moreover have "set (ct_events (common_timeout_queues b3 ! i)) = set (ct_events (common_timeout_queues b ! i)) - ?X"
        using set2 set3 Cons by simp
      ultimately show ?thesis using ne3 unfolding rescheduled_def Let_def teq [symmetric] hd3_def g fst_conv
        by (simp only: if_False) blast
    qed
    have "evbit 3 b3 a \<and> \<not> evbit 0 b3 a" if "a \<in> ?X" for a
      using on [OF that] keep [of a] out that by blast
    moreover have "evbit j b3 a = evbit j b a" if "a \<notin> ?X" "a \<notin> internal b" for j a
      using keep [OF that(2)] bits [OF that(1)] by simp
    moreover have "internal_times b b3"
    proof -
      have "i < length (common_timeout_queues b2)" using i len(1) by simp
      then have c: "evbit 0 b2 ev" "magic_at i (tmo b2 ev)" using common_list(3) [of b2 i] b2(2) Cons by (auto simp: base_inv_def)
      have cn: "ev \<notin> internal b"
        using int2 c usec_small_not_magic magic_at_is_magic(1) [OF c(2)] i max len(2) by (auto simp: internal_ok_def MAX_COMMON_TIMEOUTS_def)
      have te': "?te \<in> internal b" using te len(2) by simp
      have k3: "evbit j b3 a = evbit j b2 a \<and> tmo b3 a = tmo b2 a" if "a \<noteq> ?te" for j a using b3(3) that by (simp add: same_others_def)
      have "evbit 0 b a \<and> tmo b3 a = tmo b a \<or> tmo b3 a = mask_usec (tmo b3 ev)" if "a \<in> internal b" "evbit 0 b3 a" for a
      proof (cases "a = ?te")
        case True
        have "ev \<noteq> ?te" using cn te' by auto
        then show ?thesis using True b3(5) k3 [of ev] that bits [OF out [OF te']] tm2 by (auto simp: added_def new_timeout_def)
      next
        case False
        then show ?thesis using k3 [of a] that bits [OF out [OF that(1)]] tm2 by auto
      qed
      moreover have "evbit 0 b3 ev" using k3 [of ev] c(1) cn te' by auto
      ultimately show ?thesis using cn unfolding internal_times_def by blast
    qed
    moreover have "loop_frame b b3" by (rule loop_frame_trans [OF fr loop_frame_added [OF b3(3) te b3(4)]])
    ultimately show ?thesis using op b3(2) int3 g res by auto
  qed
qed

section \<open>Finalization\<close>

lemma base_finalize:
  assumes inv: "base_inv maps regd b" and fin: "\<not> evbit 6 b ev" and p: "evcb_pri (evs b ev) < length (activequeues b)"
  shows "\<exists>b'. event_finalize_nolock E free ev b = Done b' \<and> base_inv maps regd b' \<and>
    (\<forall>j a. evbit j b' a \<longleftrightarrow> (if a = ev then j = 3 \<or> j = 6 \<or> evbit j b a \<and> j \<notin> QUEUES else evbit j b a)) \<and>
    evcb_closure (evs b' ev) = (if free then EV_CLOSURE_EVENT_FINALIZE_FREE else EV_CLOSURE_EVENT_FINALIZE)"
proof -
  from base_del [OF inv, of EVENT_DEL_NOBLOCK ev] fin obtain r b1 where
    b1: "event_del_nolock E ev EVENT_DEL_NOBLOCK b = Done (r, b1)" "base_inv maps regd b1" "off_queues QUEUES ev b b1" "same_data {} b b1" by blast
  let ?c = "if free then EV_CLOSURE_EVENT_FINALIZE_FREE else EV_CLOSURE_EVENT_FINALIZE"
  define b2 where "b2 = upd_event ev (\<lambda>e. e\<lparr>evcb_closure := ?c\<rparr>) b1"
  have inv2: "base_inv maps regd b2" by (rule inv_cong [OF b1(2)]) (simp_all add: b2_def upd_event_def same_maps_def tmo_def)
  have e2: "evbit j b2 a = evbit j b1 a" for j a by (simp add: b2_def upd_event_def evbit_def)
  have ok2: "\<not> evbit 6 b2 ev" "evcb_pri (evs b2 ev) < length (activequeues b2)"
    using fin p b1(3,4) by (simp_all add: e2 off_queues_def same_data_def, simp add: b2_def upd_event_def)
  from base_active [OF inv2 ok2, of EV_FINALIZE 1] obtain b3 where
    b3: "event_active_nolock ev EV_FINALIZE 1 b2 = Done b3" "base_inv maps regd b3" "activated ev b2 b3" "same_data {ev} b2 b3" by blast
  define b4 where "b4 = upd_event ev (set_flag EVLIST_FINALIZING) b3"
  have m: "marked 6 ev b3 b4" by (rule marked_upd [of EVLIST_FINALIZING]) (simp_all add: b4_def upd_event_def)
  then have bits: "evbit j b4 a = evbit j b3 a" if "j \<noteq> 6" for j a using that by (auto simp: marked_def)
  have b0: "\<not> evbit 0 b3 ev" using b3(3) b1(3) by (simp add: activated_def e2 off_queues_def QUEUES_def)
  have "queues_ok b4" using queues_cong [of b4 b3] bits b3(2) by (simp add: base_inv_def b4_def upd_event_def)
  moreover have "timers_ok b4" by (rule timers_cong [of b4 b3]) (use b3(2) bits in \<open>simp_all add: base_inv_def b4_def upd_event_def tmo_def\<close>)
  moreover have "counts_ok b4"
  proof -
    have "on_queue k b4 = on_queue k b3" "counted k b4 = counted k b3" if "k \<noteq> 6" for k using bits that by (auto simp: on_queue_def counted_def)
    moreover have "event_count b4 = event_count b3" "event_count_active b4 = event_count_active b3" by (simp_all add: b4_def upd_event_def)
    ultimately show ?thesis using b3(2) by (simp add: base_inv_def counts_ok_def QUEUES_def)
  qed
  moreover have "event_ok b4 a" for a
    using b3(2) m b0 by (auto simp: base_inv_def event_ok_def marked_def QUEUES_def b4_def upd_event_def)
  moreover have "same_maps b3 b4" by (simp add: same_maps_def b4_def upd_event_def)
  note maps_kept [OF b3(2) this bits]
  ultimately have "base_inv maps regd b4" by (simp add: base_inv_def)
  moreover have "event_finalize_nolock E free ev b = Done b4" using b1(1) b3(1) by (simp add: event_finalize_nolock_def b2_def b4_def)
  moreover have "evbit j b4 a \<longleftrightarrow> (if a = ev then j = 3 \<or> j = 6 \<or> evbit j b a \<and> j \<notin> QUEUES else evbit j b a)" for j a
    using m b3(3) b1(3) by (auto simp: marked_def activated_def e2 off_queues_def QUEUES_def)
  moreover have "evcb_closure (evs b4 ev) = ?c" using b3(4) by (simp add: b4_def b2_def upd_event_def same_data_def)
  ultimately show ?thesis by blast
qed

end

end
