(* ===== verification/Base_Run.thy ===== *)
theory Base_Run
  imports Base_Loop
begin

text \<open>
  The whole loop of \<^verbatim>\<open>src/event.c\<close>: when the callbacks of the program and the backend keep the invariant,
  \<^verbatim>\<open>event_base_loop\<close> keeps it too and never fails an assertion.
\<close>

section \<open>The invariant of the loop\<close>

text \<open>
  The closure of an event on a queue is one that the processing of active events can run, and a persistent
  event with an interval has a timeout of the same kind, in the heap or in the same list.
\<close>

definition closure_ok :: "'k event_base \<Rightarrow> nat \<Rightarrow> bool" where
  "closure_ok b a \<longleftrightarrow>
     (evbit 6 b a \<longrightarrow> evcb_closure (evs b a) \<in> {EV_CLOSURE_CB_FINALIZE, EV_CLOSURE_EVENT_FINALIZE, EV_CLOSURE_EVENT_FINALIZE_FREE}) \<and>
     (on_some_queue b a \<longrightarrow>
        (evcb_closure (evs b a) \<in> {EV_CLOSURE_CB_FINALIZE, EV_CLOSURE_EVENT_FINALIZE, EV_CLOSURE_EVENT_FINALIZE_FREE} \<longrightarrow> evbit 6 b a) \<and>
        (evcb_closure (evs b a) \<notin> {EV_CLOSURE_CB_SELF, EV_CLOSURE_CB_FINALIZE} \<longrightarrow> evbit 7 b a))"

definition same_kind :: "'k event_base \<Rightarrow> timeval \<Rightarrow> timeval \<Rightarrow> bool" where
  "same_kind b t u \<longleftrightarrow> timeval_ok (mask_usec t) \<and> timeval_ok (mask_usec u) \<and>
     (usec_small t \<and> usec_small u \<or> (\<exists>i < length (common_timeout_queues b). magic_at i t \<and> magic_at i u))"

definition persist_ok :: "'k event_base \<Rightarrow> nat \<Rightarrow> bool" where
  "persist_ok b a \<longleftrightarrow>
     (evcb_closure (evs b a) = EV_CLOSURE_EVENT_PERSIST \<and> evutil_timerisset (ev_io_timeout (evs b a)) \<longrightarrow>
        same_kind b (tmo b a) (ev_io_timeout (evs b a)))"

text \<open>The times that wait, without magic values, have less than a million microseconds.\<close>

definition times_ok :: "'k event_base \<Rightarrow> bool" where
  "times_ok b \<longleftrightarrow> (\<forall>a. evbit 0 b a \<longrightarrow> timeval_ok (mask_usec (tmo b a)))"

definition side_ok :: "'k event_base \<Rightarrow> bool" where
  "side_ok b \<longleftrightarrow> internal_ok b \<and> clock_ok b \<and> times_ok b \<and>
     (\<forall>a \<in> internal b. evcb_closure (evs b a) = EV_CLOSURE_EVENT \<and> evbit 7 b a) \<and>
     (\<forall>a. unmixed (evs b a) \<and> closure_ok b a \<and> persist_ok b a)"

definition loop_inv ::
  "('k event_base \<Rightarrow> bool) \<Rightarrow> ('k event_base \<Rightarrow> nat \<Rightarrow> bool) \<Rightarrow> nat \<Rightarrow> 'k event_base \<Rightarrow> bool" where
  "loop_inv maps regd n b \<longleftrightarrow> base_inv maps regd b \<and> side_ok b \<and> length (activequeues b) = n"

text \<open>Not aborting: a result, when there is one, satisfies the condition.\<close>

definition safe :: "('a \<Rightarrow> bool) \<Rightarrow> 'a outcome option \<Rightarrow> bool" where
  "safe P r \<longleftrightarrow> (case r of None \<Rightarrow> True | Some Aborted \<Rightarrow> False | Some (Done x) \<Rightarrow> P x)"

definition callbacks_ok :: "('k event_base \<Rightarrow> bool) \<Rightarrow> 'k callbacks \<Rightarrow> bool" where
  "callbacks_ok P user \<longleftrightarrow> (\<forall>ev res b. P b \<longrightarrow> safe P (user ev res b))"

definition dispatch_ok :: "('k event_base \<Rightarrow> bool) \<Rightarrow> 'k dispatcher \<Rightarrow> bool" where
  "dispatch_ok P dispatch \<longleftrightarrow> (\<forall>b tv. P b \<longrightarrow> safe (\<lambda>(r, b'). P b') (Some (dispatch b tv)))"

lemma safe_simps [simp]: "safe P None" "\<not> safe P (Some Aborted)" "safe P (Some (Done x)) \<longleftrightarrow> P x"
  by (simp_all add: safe_def)

lemma safe_bind:
  assumes "safe P m" "\<And>x. P x \<Longrightarrow> safe Q (f x)"
  shows "safe Q (bind_oo m f)"
proof (cases m)
  case (Some r)
  then show ?thesis using assms by (cases r) simp_all
qed simp

text \<open>Nothing is pending but internal events.\<close>

definition idle :: "'k event_base \<Rightarrow> bool" where
  "idle b \<longleftrightarrow> (\<forall>a. on_some_queue b a \<longrightarrow> flag b a EVLIST_INTERNAL) \<and> (\<forall>q \<in> set (activequeues b). q = []) \<and> active_later_queue b = []"

lemma no_events_idle:
  assumes "counts_ok b" "queues_ok b" "\<not> event_haveevents b" "event_count_active b = 0"
  shows "idle b"
proof -
  have fin: "finite (counted k b)" if "k \<in> QUEUES" for k
    using assms(1) that finite_subset [OF counted_subset] by (auto simp: counts_ok_def)
  have "(\<Sum>k\<in>QUEUES. int (card (counted k b))) \<le> 0" using assms(1,3) by (simp add: counts_ok_def event_haveevents_def)
  moreover have "finite QUEUES" by (simp add: QUEUES_def)
  ultimately have "int (card (counted k b)) = 0" if "k \<in> QUEUES" for k
    using that sum_nonneg_eq_0_iff [of QUEUES "\<lambda>k. int (card (counted k b))"] by (simp add: sum_nonneg antisym)
  then have "counted k b = {}" if "k \<in> QUEUES" for k using that fin [OF that] by (metis card_0_eq of_nat_eq_0_iff)
  then have c: "\<not> (evbit k b a \<and> \<not> evbit 4 b a)" if "k \<in> QUEUES" for k a using that by (auto simp: counted_def)
  have "int (card (on_queue 3 b)) + int (card (on_queue 5 b)) = 0" and finq: "finite (on_queue 3 b)" "finite (on_queue 5 b)"
    using assms(1,4) by (simp_all add: counts_ok_def QUEUES_def)
  then have "card (on_queue 3 b) = 0" "card (on_queue 5 b) = 0" by linarith+
  then have "on_queue 3 b = {}" "on_queue 5 b = {}" using finq by simp_all
  then have "evbit 3 b a = False" "evbit 5 b a = False" for a by (auto simp: on_queue_def)
  then have "q = []" if "q \<in> set (activequeues b)" for q
    using assms(2) that by (auto simp: queues_ok_def in_set_conv_nth)
  moreover have "active_later_queue b = []" using assms(2) \<open>\<And>a. evbit 5 b a = False\<close> by (simp add: queues_ok_def)
  ultimately show ?thesis using c by (auto simp: idle_def on_some_queue_def)
qed

lemma idle_clear [simp]: "idle ((clear_time_cache b)\<lparr>running_loop := r\<rparr>) = idle b"
  by (simp add: idle_def on_some_queue_def evbit_def clear_time_cache_def)

lemma mask_usec_idem [simp]: "mask_usec (mask_usec t) = mask_usec t"
  by (simp add: mask_usec_def and.assoc)

lemma mask_usec_id: "usec_small t \<Longrightarrow> mask_usec t = t"
proof -
  assume "usec_small t"
  then have "tv_usec t AND MICROSECONDS_MASK = tv_usec t"
    unfolding usec_mask(1) take_bit_eq_mask [symmetric] usec_small_def by (simp add: take_bit_int_eq_self)
  then show ?thesis by (cases t) (simp add: mask_usec_def)
qed

lemma times_ok_internal:
  assumes "times_ok b" "internal_times b b'" "\<And>a. a \<notin> internal b \<Longrightarrow> evbit 0 b' a \<Longrightarrow> timeval_ok (mask_usec (tmo b' a))"
  shows "times_ok b'"
  unfolding times_ok_def
proof (intro allI impI)
  fix a assume a: "evbit 0 b' a"
  show "timeval_ok (mask_usec (tmo b' a))"
  proof (cases "a \<in> internal b")
    case True
    then show ?thesis using assms a unfolding internal_times_def times_ok_def by (metis mask_usec_idem)
  next
    case False
    then show ?thesis using assms(3) a by simp
  qed
qed

lemma side_ok_frame:
  assumes s: "side_ok b" and f: "loop_frame b b'" and i: "internal_ok b'" "times_ok b'"
  shows "side_ok b'"
proof -
  note int = loop_frame_internal [OF f]
  have len: "length (common_timeout_queues b') = length (common_timeout_queues b)" using f common_length by (auto simp: loop_frame_def)
  have "closure_ok b' a \<and> persist_ok b' a" for a
  proof (cases "a \<in> internal b")
    case True
    then have "evcb_closure (evs b' a) = EV_CLOSURE_EVENT" "evbit 7 b' a" "\<not> evbit 6 b' a"
      using s f by (auto simp: side_ok_def loop_frame_def internal_ok_def)
    then show ?thesis by (simp add: closure_ok_def persist_ok_def)
  next
    case False
    have "closure_ok b a" "persist_ok b a" using s by (simp_all add: side_ok_def)
    then show ?thesis using f False len by (auto simp: closure_ok_def persist_ok_def same_kind_def loop_frame_def)
  qed
  moreover have "unmixed (evs b' a)" for a using s f by (simp add: side_ok_def loop_frame_def unmixed_def)
  moreover have "clock_ok b'" using s f by (simp add: side_ok_def clock_ok_def loop_frame_def)
  moreover have "evcb_closure (evs b' a) = EV_CLOSURE_EVENT \<and> evbit 7 b' a" if "a \<in> internal b'" for a
    using s f that unfolding int by (simp add: side_ok_def loop_frame_def)
  ultimately show ?thesis using i by (simp add: side_ok_def)
qed

lemma internal_ok_data:
  assumes "internal_ok b" "same_data X b b'" "\<And>a. evbit 6 b' a = evbit 6 b a" "\<And>a. evbit 0 b' a \<Longrightarrow> evbit 0 b a"
  shows "internal_ok b'"
proof -
  have "internal b' = internal b" using assms(2) unfolding internal_def same_data_def by (metis image_set)
  then show ?thesis using assms by (auto simp: internal_ok_def same_data_def tmo_def)
qed

lemma side_ok_data:
  assumes "side_ok b" "same_data X b b'" "\<And>a. evbit 6 b' a = evbit 6 b a \<and> evbit 7 b' a = evbit 7 b a"
    "\<And>a. on_some_queue b' a \<Longrightarrow> on_some_queue b a" "\<And>a. evbit 0 b' a \<Longrightarrow> evbit 0 b a"
  shows "side_ok b'"
  by (rule side_ok_frame [OF assms(1) loop_frameI [OF assms(2-4)] internal_ok_data [OF _ assms(2)]])
    (use assms in \<open>auto simp: side_ok_def times_ok_def same_data_def tmo_def\<close>)

text \<open>When a persistent event runs again: a time of the kind of its interval.\<close>

lemma or_magic:
  assumes "usec_small r" "magic_at i u"
  shows "magic_at i (Timeval s (tv_usec r OR (tv_usec u AND NOT MICROSECONDS_MASK)))"
    "mask_usec (Timeval s (tv_usec r OR (tv_usec u AND NOT MICROSECONDS_MASK))) = Timeval s (tv_usec r)"
proof -
  have "(tv_usec r OR (tv_usec u AND NOT MICROSECONDS_MASK)) AND NOT MICROSECONDS_MASK = tv_usec u AND NOT MICROSECONDS_MASK"
    using bit_usec_small [OF assms(1)]
    by (intro bit_eqI) (auto simp: bit_or_iff bit_and_iff bit_not_iff usec_mask(1) bit_mask_iff not_less)
  then show "magic_at i (Timeval s (tv_usec r OR (tv_usec u AND NOT MICROSECONDS_MASK)))" using assms(2) by (simp add: magic_at_def)
  have "(tv_usec r OR (tv_usec u AND NOT MICROSECONDS_MASK)) AND MICROSECONDS_MASK = tv_usec r"
    using bit_usec_small [OF assms(1)]
    by (intro bit_eqI) (auto simp: bit_or_iff bit_and_iff bit_not_iff usec_mask(1) bit_mask_iff not_less, meson not_le)
  then show "mask_usec (Timeval s (tv_usec r OR (tv_usec u AND NOT MICROSECONDS_MASK))) = Timeval s (tv_usec r)"
    by (simp add: mask_usec_def)
qed

lemma timeval_ok_small: "timeval_ok t \<Longrightarrow> usec_small t"
  by (simp add: timeval_ok_def usec_small_def)

lemma same_kind_common: "same_kind b t u \<Longrightarrow> is_same_common_timeout t u"
proof -
  assume k: "same_kind b t u"
  have "tv_usec x AND NOT MICROSECONDS_MASK = 0" if "usec_small x" for x
    using bit_usec_small [OF that] by (intro bit_eqI) (auto simp: bit_and_iff bit_not_iff usec_mask(1) bit_mask_iff not_less)
  then show ?thesis using k magic_at_same by (auto simp: same_kind_def is_same_common_timeout_def)
qed

lemma persist_run_at_kind:
  assumes k: "same_kind b (ev_timeout e) (ev_io_timeout e)" and now: "timeval_ok now"
    and max: "length (common_timeout_queues b) \<le> MAX_COMMON_TIMEOUTS"
  shows "same_kind b (persist_run_at e now b) (ev_io_timeout e)" "usec_small (persist_run_at e now b) = usec_small (ev_timeout e)"
    "tmo_wf (persist_run_at e now b) b"
proof -
  define c where "c = is_common_timeout (ev_timeout e) b"
  define d where "d = (if c then mask_usec (ev_io_timeout e) else ev_io_timeout e)"
  define t where "t = (if c then mask_usec (ev_timeout e) else ev_timeout e)"
  define rel where "rel = (if has (ev_res e) EV_TIMEOUT then t else now)"
  define r where "r = (if evutil_timercmp_lt (evutil_timeradd rel d) now then evutil_timeradd now d else evutil_timeradd rel d)"
  have run: "persist_run_at e now b = Timeval (tv_sec r) (tv_usec r OR (if c then tv_usec (ev_io_timeout e) AND NOT MICROSECONDS_MASK else 0))"
    unfolding persist_run_at_def Let_def c_def [symmetric] d_def [symmetric] t_def [symmetric] rel_def [symmetric] r_def [symmetric] ..
  have mk: "timeval_ok (mask_usec (ev_timeout e))" "timeval_ok (mask_usec (ev_io_timeout e))" using k by (simp_all add: same_kind_def)
  have "(usec_small (ev_timeout e) \<and> usec_small (ev_io_timeout e) \<and> \<not> c) \<or>
      (\<exists>i < length (common_timeout_queues b). magic_at i (ev_timeout e) \<and> magic_at i (ev_io_timeout e) \<and> c \<and> \<not> usec_small (ev_timeout e))"
  proof -
    have "tmo_wf (ev_timeout e) b" using k by (auto simp: same_kind_def tmo_wf_def)
    from wf_cases [OF max this] show ?thesis using k unfolding same_kind_def c_def by blast
  qed
  then have "same_kind b (persist_run_at e now b) (ev_io_timeout e) \<and> usec_small (persist_run_at e now b) = usec_small (ev_timeout e) \<and>
      tmo_wf (persist_run_at e now b) b"
  proof (elim disjE exE conjE)
    assume s: "usec_small (ev_timeout e)" "usec_small (ev_io_timeout e)" "\<not> c"
    then have "timeval_ok t" "timeval_ok d" using mk by (simp_all add: t_def d_def mask_usec_id)
    then have r: "timeval_ok r" using now by (simp add: r_def rel_def)
    have "persist_run_at e now b = r" using run s(3) by simp
    then show ?thesis using r s mk timeval_ok_small [OF r] by (simp add: same_kind_def mask_usec_id tmo_wf_def)
  next
    fix i assume s: "i < length (common_timeout_queues b)" "magic_at i (ev_timeout e)" "magic_at i (ev_io_timeout e)" "c" "\<not> usec_small (ev_timeout e)"
    then have "timeval_ok t" "timeval_ok d" using mk by (simp_all add: t_def d_def)
    then have r: "timeval_ok r" using now by (simp add: r_def rel_def)
    have p: "magic_at i (persist_run_at e now b)" "timeval_ok (mask_usec (persist_run_at e now b))"
      using or_magic [OF timeval_ok_small [OF r] s(3), of "tv_sec r"] r run s(4) by (simp_all add: timeval_ok_def)
    have "i < 256" using s(1) max by (simp add: MAX_COMMON_TIMEOUTS_def)
    then have "\<not> usec_small (persist_run_at e now b)" using usec_small_not_magic magic_at_is_magic(1) [OF p(1)] by blast
    then show ?thesis using p s mk unfolding same_kind_def tmo_wf_def by blast
  qed
  then show "same_kind b (persist_run_at e now b) (ev_io_timeout e)" "usec_small (persist_run_at e now b) = usec_small (ev_timeout e)"
    "tmo_wf (persist_run_at e now b) b" by blast+
qed

context evmaps
begin

abbreviation "LI \<equiv> loop_inv maps regd"

lemma LI_data:
  assumes "LI n b" "base_inv maps regd b'" "same_data X b b'" "\<And>a. evbit 6 b' a = evbit 6 b a \<and> evbit 7 b' a = evbit 7 b a"
    "\<And>a. on_some_queue b' a \<Longrightarrow> on_some_queue b a" "\<And>a. evbit 0 b' a \<Longrightarrow> evbit 0 b a"
  shows "LI n b'"
  using assms side_ok_data [OF _ assms(3-6)] by (simp add: loop_inv_def same_data_def)

lemma LI_frame: "LI n b \<Longrightarrow> base_inv maps regd b' \<Longrightarrow> loop_frame b b' \<Longrightarrow> internal_ok b' \<Longrightarrow> times_ok b' \<Longrightarrow> LI n b'"
  using side_ok_frame by (auto simp: loop_inv_def loop_frame_def)

text \<open>Fields that the invariant does not look at.\<close>

lemma LI_cong:
  assumes inv: "LI n b" and ev: "\<And>a. evcb_flags (evs b' a) = evcb_flags (evs b a) \<and> evcb_pri (evs b' a) = evcb_pri (evs b a) \<and>
      evcb_closure (evs b' a) = evcb_closure (evs b a) \<and> ev_fd (evs b' a) = ev_fd (evs b a) \<and> ev_events (evs b' a) = ev_events (evs b a) \<and>
      ev_timeout (evs b' a) = ev_timeout (evs b a) \<and> ev_io_timeout (evs b' a) = ev_io_timeout (evs b a)"
    and same: "io b' = io b" "sigmap b' = sigmap b" "backend b' = backend b" "timeheap b' = timeheap b"
      "common_timeout_queues b' = common_timeout_queues b" "activequeues b' = activequeues b" "active_later_queue b' = active_later_queue b"
      "event_count b' = event_count b" "event_count_active b' = event_count_active b" and clk: "clock b' = clock b" "timeval_ok (tv_cache b')"
  shows "LI n b'"
proof -
  have bits: "evbit j b' a = evbit j b a" "tmo b' a = tmo b a" for j a using ev by (simp_all add: evbit_def tmo_def)
  have b: "base_inv maps regd b'"
    by (rule inv_cong [of b]) (use inv ev same bits in \<open>simp_all add: loop_inv_def same_maps_def\<close>)
  have int: "internal b' = internal b" by (simp add: internal_def same)
  have "side_ok b" using inv by (simp add: loop_inv_def)
  then have "side_ok b'"
    using ev same clk unfolding side_ok_def internal_ok_def int closure_ok_def persist_ok_def same_kind_def on_some_queue_def
      bits clock_ok_def times_ok_def unmixed_def by simp
  then show ?thesis using b inv same by (simp add: loop_inv_def)
qed

lemma LI_fields:
  assumes "LI n b"
  shows "LI n (b\<lparr>current_event := c\<rparr>)" "LI n (b\<lparr>event_running_priority := p\<rparr>)" "LI n (b\<lparr>running_loop := r\<rparr>)"
    "LI n (b\<lparr>event_continue := r, n_deferreds_queued := p\<rparr>)" "LI n (b\<lparr>event_gotterm := r, event_break := q\<rparr>)"
  by (rule LI_cong [OF assms], (use assms in \<open>auto simp: loop_inv_def side_ok_def clock_ok_def\<close>)[12])+

lemma LI_backend:
  assumes inv: "LI n b" and m: "maps (b\<lparr>backend := k\<rparr>)" "\<And>a. regd (b\<lparr>backend := k\<rparr>) a = regd b a"
  shows "LI n (b\<lparr>backend := k\<rparr>)"
proof -
  let ?b = "b\<lparr>backend := k\<rparr>"
  have bits: "evbit j ?b a = evbit j b a" "tmo ?b a = tmo b a" for j a by (simp_all add: evbit_def tmo_def)
  have b: "base_inv maps regd b" "side_ok b" using inv by (simp_all add: loop_inv_def)
  have "timers_ok ?b" by (rule timers_cong [of ?b b]) (use b(1) bits in \<open>simp_all add: base_inv_def\<close>)
  moreover have "queues_ok ?b" using queues_cong [of ?b b] b(1) bits by (simp add: base_inv_def)
  moreover have "counts_ok ?b = counts_ok b" by (rule counts_cong) (simp_all add: bits)
  moreover have "event_ok ?b a = event_ok b a" for a by (simp add: event_ok_def bits)
  ultimately have "base_inv maps regd ?b" using b(1) m by (simp add: base_inv_def bits)
  moreover have "side_ok ?b" using b(2) unfolding side_ok_def internal_ok_def internal_def closure_ok_def persist_ok_def same_kind_def
      on_some_queue_def bits clock_ok_def times_ok_def unmixed_def by simp
  ultimately show ?thesis using inv by (simp add: loop_inv_def)
qed

section \<open>Time\<close>

lemma LI_gettime:
  assumes "LI n b" "gettime b = (now, b')"
  shows "LI n b'"
proof -
  obtain k where "b' = b\<lparr>tick := k\<rparr>" using gettime_frame [OF assms(2)] by blast
  then show ?thesis using assms(1) by (intro LI_cong [of n b b']) (auto simp: loop_inv_def side_ok_def clock_ok_def)
qed

lemma LI_update_time: "LI n b \<Longrightarrow> LI n (update_time_cache b)"
  by (rule LI_cong [of n b]) (auto simp: update_time_cache_def clear_time_cache_def gettime_def Let_def loop_inv_def side_ok_def clock_ok_def timeval_ok_def)

lemma LI_clear_time: "LI n b \<Longrightarrow> LI n (clear_time_cache b)"
  by (rule LI_cong [of n b]) (auto simp: clear_time_cache_def loop_inv_def side_ok_def clock_ok_def timeval_ok_def)

section \<open>Callbacks\<close>

lemma run_callback_safe:
  assumes inv: "LI n b" and al: "alloc_small (alloc_ok E)" and user: "callbacks_ok (LI n) user"
  shows "safe (LI n) (run_callback E user ev res b)"
proof (cases "find_ctl ev b")
  case None
  then show ?thesis using user inv by (simp add: run_callback_def callbacks_ok_def)
next
  case (Some i)
  then have i: "i < length (common_timeout_queues b)" by (auto simp: find_ctl_def find_Some_iff)
  have b: "base_inv maps regd b" "internal_ok b" "clock_ok b" "times_ok b" using inv by (simp_all add: loop_inv_def side_ok_def)
  let ?X = "due_common i (fst (gettime b)) b"
  from base_common_callback [OF b(1) i al b(2,3)] obtain b' where
    b': "common_timeout_callback E i b = Some (Done b')" "base_inv maps regd b'" "internal_ok b'" "loop_frame b b'" "internal_times b b'"
    "\<forall>a \<in> ?X. evbit 3 b' a \<and> \<not> evbit 0 b' a" "\<forall>j a. a \<notin> ?X \<and> a \<notin> internal b \<longrightarrow> evbit j b' a = evbit j b a" by blast
  have "timeval_ok (mask_usec (tmo b' a))" if "a \<notin> internal b" "evbit 0 b' a" for a
  proof -
    have "evbit 0 b a" using b'(6,7) that by (cases "a \<in> ?X") auto
    then show ?thesis using b(4) b'(4) that(1) by (simp add: times_ok_def loop_frame_def)
  qed
  then have "times_ok b'" by (rule times_ok_internal [OF b(4) b'(5)])
  then have "LI n b'" using LI_frame [OF inv b'(2,4,3)] by blast
  then show ?thesis using Some b'(1) by (simp add: run_callback_def)
qed

lemma signal_closure_safe:
  assumes "LI n b" "alloc_small (alloc_ok E)" "callbacks_ok (LI n) user"
  shows "safe (LI n) (signal_closure_loop E user ev m b)"
  using assms
proof (induction m arbitrary: b)
  case (Suc m)
  let ?b1 = "upd_event ev (\<lambda>e. e\<lparr>ev_ncalls := m, ev_pncalls := (if m = 0 then False else ev_pncalls e)\<rparr>) (b\<lparr>sig_ncalls := m\<rparr>)"
  have b1: "LI n ?b1" by (rule LI_cong [OF Suc.prems(1)]) (use Suc.prems(1) in \<open>auto simp: upd_event_def loop_inv_def side_ok_def clock_ok_def\<close>)
  have p: "LI n (upd_event ev (\<lambda>e. e\<lparr>ev_pncalls := False\<rparr>) b2)" if "LI n b2" for b2
    by (rule LI_cong [OF that]) (use that in \<open>auto simp: upd_event_def loop_inv_def side_ok_def clock_ok_def\<close>)
  show ?case
    by (simp only: signal_closure_loop.simps Let_def, rule safe_bind [OF run_callback_safe [OF b1 Suc.prems(2,3)]])
      (use Suc.IH Suc.prems(2,3) p in auto)
qed simp

lemma persist_add_safe:
  assumes inv: "LI n b" and al: "alloc_small (alloc_ok E)" and cl: "evcb_closure (evs b ev) = EV_CLOSURE_EVENT_PERSIST"
    and e: "evbit 7 b ev" "evcb_pri (evs b ev) < n" and io: "evutil_timerisset (ev_io_timeout (evs b ev))" and now: "timeval_ok now"
  shows "\<exists>r b'. event_add_nolock E ev (Some (persist_run_at (evs b ev) now b)) True b = Done (r, b') \<and> LI n b'"
proof -
  let ?t = "persist_run_at (evs b ev) now b"
  have b: "base_inv maps regd b" "side_ok b" "length (activequeues b) = n" using inv by (simp_all add: loop_inv_def)
  then have s: "internal_ok b" "clock_ok b" "times_ok b" "unmixed (evs b ev)" "closure_ok b ev" "persist_ok b ev"
    "\<And>a. a \<in> internal b \<Longrightarrow> evcb_closure (evs b a) = EV_CLOSURE_EVENT \<and> evbit 7 b a" by (simp_all add: side_ok_def)
  have kind: "same_kind b (ev_timeout (evs b ev)) (ev_io_timeout (evs b ev))" using s(6) cl io by (simp add: persist_ok_def tmo_def)
  have max: "length (common_timeout_queues b) \<le> MAX_COMMON_TIMEOUTS" using b(1) by (simp add: base_inv_def timers_ok_def)
  note ra = persist_run_at_kind [OF kind now max]
  have fin: "\<not> evbit 6 b ev" using s(5) cl by (auto simp: closure_ok_def)
  have ad: "addable (alloc_ok E) ev (Some ?t) b"
    using fin s(4) e(2) b(3) ra clock_ok_gettime [OF s(2)] by (simp add: addable_def tmo_def)
  have int: "ev \<notin> internal b" using s(7) cl by fastforce
  from base_add [OF b(1) ad al s(1) int s(2), of True] obtain r b' where
    b': "event_add_nolock E ev (Some ?t) True b = Done (r, b')" "base_inv maps regd b'" "internal_ok b'" "internal_times b b'" "kept b b'"
    "\<forall>a. ev_io_timeout (evs b' a) = ev_io_timeout (evs b a)"
    "\<forall>j a. a \<noteq> ev \<and> a \<notin> internal b \<longrightarrow> evbit j b' a = evbit j b a \<and> tmo b' a = tmo b a"
    "r = 0 \<and> added ev (Some ?t) True b b' \<or> r = -1 \<and> (\<forall>j a. evbit j b' a = evbit j b a) \<and> tmo b' ev = tmo b ev" by auto
  have k: "evcb_closure (evs b' a) = evcb_closure (evs b a)" "evbit 6 b' a = evbit 6 b a" "evbit 7 b' a = evbit 7 b a"
    "ev_events (evs b' a) = ev_events (evs b a)" for a using b'(5) by (simp_all add: kept_def)
  have len: "length (common_timeout_queues b') = length (common_timeout_queues b)" "internal b' = internal b"
    using b'(5) common_length [of b' b] unfolding internal_def kept_def by (simp, metis image_set)
  have tm: "tmo b' ev = tmo b ev \<and> evbit 0 b' ev = evbit 0 b ev \<or> tmo b' ev = ?t" using b'(8) by (auto simp: added_def new_timeout_def)
  have kev: "same_kind b (tmo b' ev) (ev_io_timeout (evs b ev))" using tm kind ra(1) by (auto simp: tmo_def)
  have "closure_ok b' a \<and> persist_ok b' a" for a
  proof (cases "a = ev \<or> a \<in> internal b")
    case True
    then show ?thesis
    proof
      assume "a = ev"
      then show ?thesis using k cl e(1) fin kev b'(6) len(1) by (simp add: closure_ok_def persist_ok_def same_kind_def)
    next
      assume "a \<in> internal b"
      then show ?thesis using k s(7) s(1) by (simp add: closure_ok_def persist_ok_def internal_ok_def)
    qed
  next
    case False
    then have "evbit j b' a = evbit j b a" "tmo b' a = tmo b a" for j using b'(7) by auto
    moreover have "closure_ok b a" "persist_ok b a" using b(2) by (simp_all add: side_ok_def)
    ultimately show ?thesis using k b'(6) len(1) by (simp add: closure_ok_def persist_ok_def same_kind_def on_some_queue_def)
  qed
  moreover have "times_ok b'"
  proof (rule times_ok_internal [OF s(3) b'(4)])
    fix a assume a: "a \<notin> internal b" "evbit 0 b' a"
    show "timeval_ok (mask_usec (tmo b' a))"
    proof (cases "a = ev")
      case True
      then show ?thesis using kev by (simp add: same_kind_def)
    next
      case False
      then show ?thesis using b'(7) a s(3) by (simp add: times_ok_def)
    qed
  qed
  moreover have "unmixed (evs b' a)" for a using b(2) k(4) by (simp add: side_ok_def unmixed_def)
  moreover have "clock_ok b'" using s(2) b'(5) by (simp add: clock_ok_def kept_def)
  ultimately have "side_ok b'" using b'(3) s(7) k len(2) by (simp add: side_ok_def)
  then show ?thesis using b'(1,2,5) b(3) by (auto simp: loop_inv_def kept_def)
qed

lemma persist_closure_safe:
  assumes inv: "LI n b" and al: "alloc_small (alloc_ok E)" and user: "callbacks_ok (LI n) user"
    and cl: "evcb_closure (evs b ev) = EV_CLOSURE_EVENT_PERSIST" and e: "evbit 7 b ev" "evcb_pri (evs b ev) < n"
  shows "safe (LI n) (event_persist_closure E user ev b)"
  unfolding event_persist_closure_def
proof (rule safe_bind [where P = "LI n"])
  show "safe (LI n) (run_callback E user ev (ev_res (evs b1 ev)) b1)" if "LI n b1" for b1
    by (rule run_callback_safe [OF that al user])
  obtain now b1 where g: "gettime b = (now, b1)" by fastforce
  have b1: "LI n b1" by (rule LI_gettime [OF inv g])
  obtain k where k: "b1 = b\<lparr>tick := k\<rparr>" using gettime_frame [OF g] by blast
  have now: "timeval_ok now" using inv g clock_ok_gettime [of b] by (simp add: loop_inv_def side_ok_def)
  have kind: "is_same_common_timeout (ev_timeout (evs b ev)) (ev_io_timeout (evs b ev))" if "evutil_timerisset (ev_io_timeout (evs b ev))"
  proof (rule same_kind_common)
    show "same_kind b (ev_timeout (evs b ev)) (ev_io_timeout (evs b ev))"
      using inv cl that by (auto simp: loop_inv_def side_ok_def persist_ok_def tmo_def)
  qed
  have "\<exists>r b'. event_add_nolock E ev (Some (persist_run_at (evs b1 ev) now b1)) True b1 = Done (r, b') \<and> LI n b'"
    if "evutil_timerisset (ev_io_timeout (evs b ev))"
    by (rule persist_add_safe [OF b1 al _ _ _ _ now]) (use cl e that in \<open>simp_all add: k evbit_def\<close>)
  then show "safe (LI n)
     (if evutil_timerisset (ev_io_timeout (evs b ev))
      then if \<not> is_same_common_timeout (ev_timeout (evs b ev)) (ev_io_timeout (evs b ev)) then Some Aborted
           else let (now, b1) = gettime b in
             Some (bind_outcome (event_add_nolock E ev (Some (persist_run_at (evs b1 ev) now b1)) True b1) (\<lambda>(r, b2). Done b2))
      else Some (Done b))"
    using g kind inv by fastforce
qed

section \<open>Processing active events\<close>

lemma run_closure_safe:
  assumes inv: "LI n b" and al: "alloc_small (alloc_ok E)" and user: "callbacks_ok (LI n) user" and p: "evcb_pri (evs b ev) < n"
    and fin: "evcb_closure (evs b ev) \<in> {EV_CLOSURE_CB_FINALIZE, EV_CLOSURE_EVENT_FINALIZE, EV_CLOSURE_EVENT_FINALIZE_FREE} \<Longrightarrow> evbit 6 b ev"
    and ini: "evcb_closure (evs b ev) \<notin> {EV_CLOSURE_CB_SELF, EV_CLOSURE_CB_FINALIZE} \<Longrightarrow> evbit 7 b ev"
  shows "safe (LI n) (run_closure E user ev (evbit 7 b ev) b)"
proof -
  have run: "safe (LI n) (run_callback E user ev res b)" "safe (LI n) (run_callback E user ev res (b\<lparr>current_event := None\<rparr>))" for res
    by (rule run_callback_safe [OF inv al user], rule run_callback_safe [OF LI_fields(1) [OF inv] al user])
  have sig: "safe (LI n) (event_signal_closure E user ev b)"
    unfolding event_signal_closure_def Let_def
    by (rule signal_closure_safe [OF _ al user], rule LI_cong [OF inv]) (use inv in \<open>auto simp: upd_event_def loop_inv_def side_ok_def clock_ok_def\<close>)
  show ?thesis using run sig persist_closure_safe [OF inv al user _ _ p] fin ini
    by (cases "evcb_closure (evs b ev)") (simp_all add: run_closure_def)
qed

lemma process_one_safe:
  assumes inv: "LI n b" and al: "alloc_small (alloc_ok E)" and user: "callbacks_ok (LI n) user" and on: "evbit 3 b ev"
  shows "safe (LI n) (process_one E user ev b)"
proof -
  have b: "base_inv maps regd b" "side_ok b" "length (activequeues b) = n" using inv by (simp_all add: loop_inv_def)
  have p: "evcb_pri (evs b ev) < n" using b(1,3) on by (simp add: base_inv_def queues_ok_def)
  have c: "closure_ok b ev" "on_some_queue b ev" using b(2) on by (auto simp: side_ok_def on_some_queue_def QUEUES_def)
  let ?m = "if evbit 7 b ev \<and> \<not> (has (ev_events (evs b ev)) EV_PERSIST \<or> evbit 6 b ev)
      then bind_outcome (event_del_nolock E ev EVENT_DEL_NOBLOCK b) (\<lambda>(r, b1). Done b1) else event_queue_remove_active ev b"
  have "\<exists>b1. ?m = Done b1 \<and> LI n b1 \<and> same_data {} b b1 \<and> (\<forall>a. evbit 6 b1 a = evbit 6 b a \<and> evbit 7 b1 a = evbit 7 b a)"
  proof (cases "evbit 7 b ev \<and> \<not> (has (ev_events (evs b ev)) EV_PERSIST \<or> evbit 6 b ev)")
    case True
    from base_del [OF b(1), of EVENT_DEL_NOBLOCK ev] True obtain r b1 where
      b1: "event_del_nolock E ev EVENT_DEL_NOBLOCK b = Done (r, b1)" "base_inv maps regd b1" "off_queues QUEUES ev b b1" "same_data {} b b1" by blast
    have bits: "evbit 6 b1 a = evbit 6 b a \<and> evbit 7 b1 a = evbit 7 b a" for a using b1(3) by (auto simp: off_queues_def QUEUES_def)
    have "LI n b1" by (rule LI_data [OF inv b1(2,4) bits]) (use b1(3) in \<open>auto simp: off_queues_def on_some_queue_def\<close>)
    then show ?thesis using True b1(1,4) bits by simp
  next
    case False
    from base_remove_active [OF b(1) on] obtain b1 where
      b1: "event_queue_remove_active ev b = Done b1" "base_inv maps regd b1" "cleared 3 ev b b1" "same_data {} b b1" by blast
    have bits: "evbit 6 b1 a = evbit 6 b a \<and> evbit 7 b1 a = evbit 7 b a" for a using b1(3) by (auto simp: cleared_def)
    have "LI n b1" by (rule LI_data [OF inv b1(2,4) bits]) (use b1(3) in \<open>auto simp: cleared_def on_some_queue_def\<close>)
    then show ?thesis unfolding if_not_P [OF False] using b1(1,4) bits by blast
  qed
  then obtain b1 where b1: "?m = Done b1" "LI n b1" "same_data {} b b1" "\<And>a. evbit 6 b1 a = evbit 6 b a \<and> evbit 7 b1 a = evbit 7 b a" by blast
  let ?b = "b1\<lparr>current_event := Some ev\<rparr>"
  have e: "evbit j ?b a = evbit j b1 a" "evcb_pri (evs ?b ev) = evcb_pri (evs b ev)" "evcb_closure (evs ?b ev) = evcb_closure (evs b ev)" for j a
    using b1(3) by (simp_all add: evbit_def same_data_def)
  have "evbit 7 b ev = evbit 7 ?b ev" using e(1) b1(4) by simp
  moreover have "safe (LI n) (run_closure E user ev (evbit 7 ?b ev) ?b)"
    by (rule run_closure_safe [OF LI_fields(1) [OF b1(2)] al user]) (use p c e b1(4) in \<open>auto simp: closure_ok_def\<close>)
  ultimately have "safe (LI n) (run_closure E user ev (evbit 7 b ev) ?b)" by simp
  then show ?thesis
    unfolding process_one_def Let_def flag_evbit b1(1) bind_oo_simps by (rule safe_bind) (simp add: LI_fields(1))
qed

lemma single_queue_safe:
  assumes "LI n b" "alloc_small (alloc_ok E)" "callbacks_ok (LI n) user" "i < n"
  shows "safe (\<lambda>(c, b'). LI n b') (event_process_active_single_queue fuel E user i maxp endtime m b)"
  using assms
proof (induction fuel arbitrary: b m)
  case 0
  then show ?case by (simp add: event_process_active_single_queue.simps [of 0] split: list.splits)
next
  case (Suc fuel)
  show ?case
  proof (cases "activequeues b ! i")
    case Nil
    then show ?thesis using Suc.prems by (simp add: event_process_active_single_queue.simps [of "Suc fuel"])
  next
    case (Cons ev es)
    have "set (activequeues b ! i) = {a. evbit 3 b a \<and> evcb_pri (evs b a) = i}"
      using Suc.prems(1,4) by (simp add: loop_inv_def base_inv_def queues_ok_def)
    then have on: "evbit 3 b ev" using Cons by auto
    have late: "LI n (snd (case endtime of None \<Rightarrow> (False, b1) | Some t \<Rightarrow> if k = 0 then (False, b1)
        else (let (now, b3) = gettime (update_time_cache b1) in (evutil_timercmp_ge now t, b3))))" if "LI n b1" for b1 and k :: int
      using that LI_gettime [OF LI_update_time [OF that]]
      by (cases "gettime (update_time_cache b1)") (auto split: option.splits)
    show ?thesis
      unfolding event_process_active_single_queue.simps [of "Suc fuel"] Cons list.case nat.case Let_def
    proof (rule safe_bind [OF process_one_safe [OF Suc.prems(1-3) on]])
      fix b1 assume b1: "LI n b1"
      let ?n1 = "m + (if flag b ev EVLIST_INTERNAL then 0 else 1)"
      obtain l b2 where lb: "(case endtime of None \<Rightarrow> (False, b1) | Some t \<Rightarrow> if ?n1 = 0 then (False, b1)
        else (let (now, b3) = gettime (update_time_cache b1) in (evutil_timercmp_ge now t, b3))) = (l, b2)" by fastforce
      have "LI n b2" using late [OF b1, of ?n1] unfolding lb by simp
      then show "safe (\<lambda>(c, b'). LI n b')
          (if event_break b1 then Some (Done (- 1, b1))
           else if maxp \<le> ?n1 then Some (Done (?n1, b1))
                else case case endtime of None \<Rightarrow> (False, b1)
                          | Some t \<Rightarrow> if ?n1 = 0 then (False, b1)
                              else case gettime (update_time_cache b1) of (now, b3) \<Rightarrow> (evutil_timercmp_ge now t, b3) of
                     (late, b2) \<Rightarrow> if late \<or> event_continue b2 then Some (Done (?n1, b2))
                       else event_process_active_single_queue fuel E user i maxp endtime ?n1 b2)"
        unfolding lb [unfolded Let_def] prod.case using b1 Suc.IH [OF _ Suc.prems(2-4)] by simp
    qed
  qed
qed

lemma process_queues_safe:
  assumes "LI n b" "alloc_small (alloc_ok E)" "callbacks_ok (LI n) user" "\<forall>i \<in> set is. i < n"
  shows "safe (\<lambda>(c, b'). LI n b') (process_queues fuel E user limit maxcb endtime is b)"
  using assms
proof (induction "is" arbitrary: b)
  case (Cons i "is")
  have q: "safe (\<lambda>(c, b'). LI n b') (event_process_active_single_queue fuel E user i k e 0 (b\<lparr>event_running_priority := int i\<rparr>))" for k e
    by (rule single_queue_safe [OF LI_fields(2) [OF Cons.prems(1)] Cons.prems(2,3)]) (use Cons.prems(4) in simp)
  show ?case
  proof (cases "activequeues b ! i = []")
    case True
    then show ?thesis using Cons.IH [OF Cons.prems(1-3)] Cons.prems(4) by simp
  next
    case False
    show ?thesis unfolding process_queues.simps if_not_P [OF False] Let_def
      by (rule safe_bind [where P = "\<lambda>(c, b'). LI n b'"]) (use q Cons.IH Cons.prems in auto)
  qed
qed simp

lemma process_active_safe:
  assumes "LI n b" "alloc_small (alloc_ok E)" "callbacks_ok (LI n) user"
  shows "safe (\<lambda>(c, b'). LI n b') (event_process_active fuel E user b)"
proof -
  let ?e = "if tv_sec (max_dispatch_time b) \<ge> 0 then
       (let (now, b1) = gettime (update_time_cache b) in (Some (evutil_timeradd (max_dispatch_time b) now), b1)) else (None, b)"
  obtain e b1 where e: "?e = (e, b1)" by fastforce
  have b1: "LI n b1" using e assms(1) LI_gettime [OF LI_update_time [OF assms(1)]] by (auto split: if_splits prod.splits)
  have "\<forall>i \<in> set [0..<length (activequeues b1)]. i < n" using b1 by (simp add: loop_inv_def)
  from process_queues_safe [OF b1 assms(2,3) this] show ?thesis
    unfolding event_process_active_def Let_def e [unfolded Let_def] prod.case by (rule safe_bind) (auto intro: LI_fields(2))
qed

lemma timeout_process_safe:
  assumes inv: "LI n b"
  shows "safe (LI n) (timeout_process E b)"
proof (cases "min_heap_empty (timeheap b)")
  case True
  then show ?thesis using inv by (simp add: timeout_process_def)
next
  case False
  obtain now b1 where g: "gettime b = (now, b1)" by fastforce
  have b1: "LI n b1" by (rule LI_gettime [OF inv g])
  then have "base_inv maps regd b1" "hn (timeheap b1) \<le> min_heap_size (timeheap b1)" by (simp_all add: loop_inv_def min_heap_size_def)
  from base_timeout_loop [OF this, of now] obtain b' where
    b': "timeout_process_loop (min_heap_size (timeheap b1)) E now b1 = Some (Done b')" "base_inv maps regd b'"
    "expired (due now b1) b1 b'" "same_data (due now b1) b1 b'" by blast
  have "LI n b'" by (rule LI_data [OF b1 b'(2,4)])
    (use b'(3) in \<open>auto simp: expired_def due_def on_some_queue_def QUEUES_def split: if_splits\<close>)
  then show ?thesis using False g b'(1) by (simp add: timeout_process_def)
qed

lemma timeout_next_safe:
  assumes inv: "LI n b"
  shows "safe (\<lambda>(w, b'). LI n b') (Some (timeout_next b))"
proof -
  have b: "base_inv maps regd b" "times_ok b" "timeval_ok (fst (gettime b))"
    using inv clock_ok_gettime by (auto simp: loop_inv_def side_ok_def)
  have "timeval_ok (tmo b a)" if "evbit 0 b a" "usec_small (tmo b a)" for a
    using b(2) that mask_usec_id [OF that(2)] unfolding times_ok_def by metis
  from base_timeout_next [OF b(1,3) this] obtain w b' where w: "timeout_next b = Done (w, b')" by blast
  obtain now b1 where g: "gettime b = (now, b1)" by fastforce
  have "b' = b \<or> b' = b1" using w g by (auto simp: timeout_next_def Let_def split: option.splits if_splits)
  then show ?thesis using w inv LI_gettime [OF inv g] by auto
qed

lemma make_later_safe:
  assumes inv: "LI n b"
  shows "safe (LI n) (Some (event_queue_make_later_events_active b))"
proof -
  have b: "base_inv maps regd b" using inv by (simp add: loop_inv_def)
  then have later: "set (active_later_queue b) = {a. evbit 5 b a}" by (simp add: base_inv_def queues_ok_def)
  from base_make_later [OF b refl] obtain b' where
    b': "make_later_active (active_later_queue b) b = Done b'" "base_inv maps regd b'" "same_data {} b b'"
    "\<And>j a. evbit j b' a \<longleftrightarrow> evbit 5 b a \<and> j = 3 \<or> evbit j b a \<and> j \<noteq> 5" unfolding later by auto
  have "LI n b'" by (rule LI_data [OF inv b'(2,3)]) (auto simp: b'(4) on_some_queue_def QUEUES_def)
  then show ?thesis using b'(1) by (simp add: event_queue_make_later_events_active_def)
qed

section \<open>The loop\<close>

lemma loop_work_safe:
  assumes "LI n b" "alloc_small (alloc_ok E)" "callbacks_ok (LI n) user"
  shows "safe (\<lambda>(d, b'). LI n b') (loop_work fuel E user fl b)"
  unfolding loop_work_def
proof (rule safe_bind [OF timeout_process_safe [OF LI_update_time [OF assms(1)]]])
  fix b1 assume b1: "LI n b1"
  have "safe (\<lambda>(d, b'). LI n b') (bind_oo (event_process_active fuel E user b1)
      (\<lambda>(k, b2). Some (Done (has fl EVLOOP_ONCE \<and> event_count_active b2 = 0 \<and> k \<noteq> 0, b2))))"
    by (rule safe_bind [OF process_active_safe [OF b1 assms(2,3)]]) auto
  then show "safe (\<lambda>(d, b'). LI n b')
      (if event_count_active b1 \<noteq> 0 then bind_oo (event_process_active fuel E user b1)
         (\<lambda>(k, b2). Some (Done (has fl EVLOOP_ONCE \<and> event_count_active b2 = 0 \<and> k \<noteq> 0, b2)))
       else Some (Done (has fl EVLOOP_NONBLOCK, b1)))" using b1 by simp
qed

lemma loop_turns_safe:
  assumes "LI n b" "alloc_small (alloc_ok E)" "callbacks_ok (LI n) user" "dispatch_ok (LI n) dispatch"
  shows "safe (\<lambda>(r, b'). LI n b' \<and> (r = 1 \<longrightarrow> idle b')) (event_base_loop_turns fuel E dispatch user fl b)"
  using assms
proof (induction fuel arbitrary: b)
  case (Suc fuel)
  let ?b0 = "b\<lparr>event_continue := False, n_deferreds_queued := 0\<rparr>"
  have b0: "LI n ?b0" by (rule LI_fields(4) [OF Suc.prems(1)])
  have wait: "safe (\<lambda>(w, b'). LI n b') (Some (loop_wait fl ?b0))"
    unfolding loop_wait_def using timeout_next_safe [OF b0] b0 by (simp split: if_splits)
  have body: "safe (\<lambda>(r, b'). LI n b' \<and> (r = 1 \<longrightarrow> idle b'))
      (bind_oo (Some (event_queue_make_later_events_active b1)) (\<lambda>b2.
         bind_oo (Some (dispatch (clear_time_cache b2) tv)) (\<lambda>(res, b3).
           if res = -1 then Some (Done (-1, b3))
           else bind_oo (loop_work fuel E user fl b3) (\<lambda>(finished, b4).
             if finished then Some (Done (0, b4)) else event_base_loop_turns fuel E dispatch user fl b4))))"
    if b1: "LI n b1" for b1 tv
  proof (rule safe_bind [OF make_later_safe [OF b1]], rule safe_bind)
    fix b2 assume "LI n b2"
    then have "LI n (clear_time_cache b2)" by (rule LI_clear_time)
    then show "safe (\<lambda>(r, b'). LI n b') (Some (dispatch (clear_time_cache b2) tv))" using Suc.prems(4) by (simp add: dispatch_ok_def)
  next
    fix x :: "int \<times> 'k event_base" assume x: "case x of (r, b') \<Rightarrow> LI n b'"
    have turn: "safe (\<lambda>(r, b'). LI n b' \<and> (r = 1 \<longrightarrow> idle b')) (bind_oo (loop_work fuel E user fl (snd x)) (\<lambda>(finished, b4).
             if finished then Some (Done (0, b4)) else event_base_loop_turns fuel E dispatch user fl b4))"
      by (rule safe_bind [OF loop_work_safe [OF _ Suc.prems(2,3)]]) (use x Suc.IH Suc.prems(2-4) in auto)
    then show "safe (\<lambda>(r, b'). LI n b' \<and> (r = 1 \<longrightarrow> idle b')) (case x of (res, b3) \<Rightarrow> if res = -1 then Some (Done (-1, b3))
           else bind_oo (loop_work fuel E user fl b3) (\<lambda>(finished, b4).
             if finished then Some (Done (0, b4)) else event_base_loop_turns fuel E dispatch user fl b4))"
      using x by (cases x) simp
  qed
  have idle: "idle b1" if "LI n b1" "\<not> event_haveevents b1" "event_count_active b1 = 0" for b1
    using no_events_idle [OF _ _ that(2,3)] that(1) by (simp add: loop_inv_def base_inv_def)
  show ?case unfolding event_base_loop_turns.simps Let_def
    using b0 by (auto intro!: safe_bind [OF wait] body idle simp del: bind_oo_simps)
qed simp

lemma loop_safe:
  assumes inv: "LI n b" and al: "alloc_small (alloc_ok E)" and cb: "callbacks_ok (LI n) user" "dispatch_ok (LI n) dispatch"
    and sb: "\<And>b. LI n b \<Longrightarrow> LI n (b\<lparr>backend := sig_set_base E (backend b)\<rparr>)"
  shows "safe (\<lambda>(r, b'). LI n b' \<and> (r = 1 \<longrightarrow> idle b')) (event_base_loop fuel E dispatch user fl b)"
proof -
  let ?b1 = "clear_time_cache (b\<lparr>running_loop := True\<rparr>)"
  let ?b2 = "?b1\<lparr>backend := sig_set_base E (backend ?b1), event_gotterm := False, event_break := False\<rparr>"
  have "LI n ?b2" by (rule LI_fields(5) [OF sb [OF LI_clear_time [OF LI_fields(3) [OF inv]]]])
  from loop_turns_safe [OF this al cb] have "safe (\<lambda>(r, b'). LI n b' \<and> (r = 1 \<longrightarrow> idle b')) (bind_oo (event_base_loop_turns fuel E dispatch user fl ?b2)
      (\<lambda>(r, b3). Some (Done (r, (clear_time_cache b3)\<lparr>running_loop := False\<rparr>))))"
    by (rule safe_bind) (use LI_fields(3) [OF LI_clear_time] in \<open>auto simp: idle_clear\<close>)
  then show ?thesis using inv by (simp add: event_base_loop_def Let_def)
qed

end

end
