(* ===== verification/Epoll_Table.thy ===== *)
theory Epoll_Table
  imports Event_Prelude
begin

text \<open>
  The table of \<^verbatim>\<open>src/epolltable-internal.h\<close>, which says for every combination of wanted changes and
  old events which \<^verbatim>\<open>epoll_ctl\<close> operation to make and with which events. It is transcribed row
  by row (eight lists of 64 rows, in the order of the index) and compared with the pseudocode of the
  header's comment, word for word and extended to \<^verbatim>\<open>EV_CLOSED\<close>/\<^verbatim>\<open>EPOLLRDHUP\<close>, which the comment leaves out.
  For a change that adds and deletes at once the pseudocode asks for the operation -1; the table has 255.
\<close>

section \<open>Constants of the kernel interface\<close>

definition EPOLLIN :: u32 where "EPOLLIN = 0x001"
definition EPOLLOUT :: u32 where "EPOLLOUT = 0x004"
definition EPOLLERR :: u32 where "EPOLLERR = 0x008"
definition EPOLLHUP :: u32 where "EPOLLHUP = 0x010"
definition EPOLLRDHUP :: u32 where "EPOLLRDHUP = 0x2000"
definition EPOLLET :: u32 where "EPOLLET = 0x80000000"
definition EPOLL_CTL_ADD :: int where "EPOLL_CTL_ADD = 1"
definition EPOLL_CTL_DEL :: int where "EPOLL_CTL_DEL = 2"
definition EPOLL_CTL_MOD :: int where "EPOLL_CTL_MOD = 3"

section \<open>The table\<close>

text \<open>A row: the events and the operation.\<close>

type_synonym operation = "u32 \<times> int"

definition epoll_op_table_0 :: "operation list" where
  "epoll_op_table_0 = [
   (0, 0), (EPOLLRDHUP, EPOLL_CTL_ADD), (EPOLLRDHUP, EPOLL_CTL_DEL), (0, 255),
   (EPOLLIN, EPOLL_CTL_ADD), (EPOLLIN OR EPOLLRDHUP, EPOLL_CTL_ADD), (EPOLLIN, EPOLL_CTL_ADD),
   (0, 255), (EPOLLIN, EPOLL_CTL_DEL), (EPOLLRDHUP, EPOLL_CTL_ADD),
   (EPOLLIN OR EPOLLRDHUP, EPOLL_CTL_DEL), (0, 255), (0, 255), (0, 255), (0, 255), (0, 255),
   (EPOLLOUT, EPOLL_CTL_ADD), (EPOLLOUT OR EPOLLRDHUP, EPOLL_CTL_ADD), (EPOLLOUT, EPOLL_CTL_ADD),
   (0, 255), (EPOLLIN OR EPOLLOUT, EPOLL_CTL_ADD),
   (EPOLLIN OR EPOLLOUT OR EPOLLRDHUP, EPOLL_CTL_ADD), (EPOLLIN OR EPOLLOUT, EPOLL_CTL_ADD),
   (0, 255), (EPOLLOUT, EPOLL_CTL_ADD), (EPOLLOUT OR EPOLLRDHUP, EPOLL_CTL_ADD),
   (EPOLLOUT, EPOLL_CTL_ADD), (0, 255), (0, 255), (0, 255), (0, 255), (0, 255),
   (EPOLLOUT, EPOLL_CTL_DEL), (EPOLLRDHUP, EPOLL_CTL_ADD), (EPOLLOUT OR EPOLLRDHUP, EPOLL_CTL_DEL),
   (0, 255), (EPOLLIN, EPOLL_CTL_ADD), (EPOLLIN OR EPOLLRDHUP, EPOLL_CTL_ADD),
   (EPOLLIN, EPOLL_CTL_ADD), (0, 255), (EPOLLIN OR EPOLLOUT, EPOLL_CTL_DEL),
   (EPOLLRDHUP, EPOLL_CTL_ADD), (EPOLLIN OR EPOLLOUT OR EPOLLRDHUP, EPOLL_CTL_DEL), (0, 255),
   (0, 255), (0, 255), (0, 255), (0, 255), (0, 255), (0, 255), (0, 255), (0, 255), (0, 255),
   (0, 255), (0, 255), (0, 255), (0, 255), (0, 255), (0, 255), (0, 255), (0, 255), (0, 255),
   (0, 255), (0, 255)]"

definition epoll_op_table_1 :: "operation list" where
  "epoll_op_table_1 = [
   (0, 0), (EPOLLIN OR EPOLLRDHUP, EPOLL_CTL_MOD), (EPOLLIN, EPOLL_CTL_MOD), (0, 255),
   (EPOLLIN, EPOLL_CTL_MOD), (EPOLLIN OR EPOLLRDHUP, EPOLL_CTL_MOD), (EPOLLIN, EPOLL_CTL_MOD),
   (0, 255), (EPOLLIN, EPOLL_CTL_DEL), (EPOLLRDHUP, EPOLL_CTL_MOD),
   (EPOLLIN OR EPOLLRDHUP, EPOLL_CTL_DEL), (0, 255), (0, 255), (0, 255), (0, 255), (0, 255),
   (EPOLLIN OR EPOLLOUT, EPOLL_CTL_MOD), (EPOLLIN OR EPOLLOUT OR EPOLLRDHUP, EPOLL_CTL_MOD),
   (EPOLLIN OR EPOLLOUT, EPOLL_CTL_MOD), (0, 255), (EPOLLIN OR EPOLLOUT, EPOLL_CTL_MOD),
   (EPOLLIN OR EPOLLOUT OR EPOLLRDHUP, EPOLL_CTL_MOD), (EPOLLIN OR EPOLLOUT, EPOLL_CTL_MOD),
   (0, 255), (EPOLLOUT, EPOLL_CTL_MOD), (EPOLLOUT OR EPOLLRDHUP, EPOLL_CTL_MOD),
   (EPOLLOUT, EPOLL_CTL_MOD), (0, 255), (0, 255), (0, 255), (0, 255), (0, 255),
   (EPOLLIN, EPOLL_CTL_MOD), (EPOLLIN OR EPOLLRDHUP, EPOLL_CTL_MOD), (EPOLLIN, EPOLL_CTL_MOD),
   (0, 255), (EPOLLIN, EPOLL_CTL_MOD), (EPOLLIN OR EPOLLRDHUP, EPOLL_CTL_MOD),
   (EPOLLIN, EPOLL_CTL_MOD), (0, 255), (EPOLLIN OR EPOLLOUT, EPOLL_CTL_DEL),
   (EPOLLRDHUP, EPOLL_CTL_MOD), (EPOLLIN OR EPOLLOUT OR EPOLLRDHUP, EPOLL_CTL_DEL), (0, 255),
   (0, 255), (0, 255), (0, 255), (0, 255), (0, 255), (0, 255), (0, 255), (0, 255), (0, 255),
   (0, 255), (0, 255), (0, 255), (0, 255), (0, 255), (0, 255), (0, 255), (0, 255), (0, 255),
   (0, 255), (0, 255)]"

definition epoll_op_table_2 :: "operation list" where
  "epoll_op_table_2 = [
   (0, 0), (EPOLLOUT OR EPOLLRDHUP, EPOLL_CTL_MOD), (EPOLLOUT, EPOLL_CTL_MOD), (0, 255),
   (EPOLLIN OR EPOLLOUT, EPOLL_CTL_MOD), (EPOLLIN OR EPOLLOUT OR EPOLLRDHUP, EPOLL_CTL_MOD),
   (EPOLLIN OR EPOLLOUT, EPOLL_CTL_MOD), (0, 255), (EPOLLOUT, EPOLL_CTL_MOD),
   (EPOLLOUT OR EPOLLRDHUP, EPOLL_CTL_MOD), (EPOLLOUT, EPOLL_CTL_MOD), (0, 255), (0, 255),
   (0, 255), (0, 255), (0, 255), (EPOLLOUT, EPOLL_CTL_MOD),
   (EPOLLOUT OR EPOLLRDHUP, EPOLL_CTL_MOD), (EPOLLOUT, EPOLL_CTL_MOD), (0, 255),
   (EPOLLIN OR EPOLLOUT, EPOLL_CTL_MOD), (EPOLLIN OR EPOLLOUT OR EPOLLRDHUP, EPOLL_CTL_MOD),
   (EPOLLIN OR EPOLLOUT, EPOLL_CTL_MOD), (0, 255), (EPOLLOUT, EPOLL_CTL_MOD),
   (EPOLLOUT OR EPOLLRDHUP, EPOLL_CTL_MOD), (EPOLLOUT, EPOLL_CTL_MOD), (0, 255), (0, 255),
   (0, 255), (0, 255), (0, 255), (EPOLLOUT, EPOLL_CTL_DEL), (EPOLLRDHUP, EPOLL_CTL_MOD),
   (EPOLLOUT OR EPOLLRDHUP, EPOLL_CTL_DEL), (0, 255), (EPOLLIN, EPOLL_CTL_MOD),
   (EPOLLIN OR EPOLLRDHUP, EPOLL_CTL_MOD), (EPOLLIN, EPOLL_CTL_MOD), (0, 255),
   (EPOLLIN OR EPOLLOUT, EPOLL_CTL_DEL), (EPOLLRDHUP, EPOLL_CTL_MOD),
   (EPOLLIN OR EPOLLOUT OR EPOLLRDHUP, EPOLL_CTL_DEL), (0, 255), (0, 255), (0, 255), (0, 255),
   (0, 255), (0, 255), (0, 255), (0, 255), (0, 255), (0, 255), (0, 255), (0, 255), (0, 255),
   (0, 255), (0, 255), (0, 255), (0, 255), (0, 255), (0, 255), (0, 255), (0, 255)]"

definition epoll_op_table_3 :: "operation list" where
  "epoll_op_table_3 = [
   (0, 0), (EPOLLIN OR EPOLLOUT OR EPOLLRDHUP, EPOLL_CTL_MOD),
   (EPOLLIN OR EPOLLOUT, EPOLL_CTL_MOD), (0, 255), (EPOLLIN OR EPOLLOUT, EPOLL_CTL_MOD),
   (EPOLLIN OR EPOLLOUT OR EPOLLRDHUP, EPOLL_CTL_MOD), (EPOLLIN OR EPOLLOUT, EPOLL_CTL_MOD),
   (0, 255), (EPOLLOUT, EPOLL_CTL_MOD), (EPOLLOUT OR EPOLLRDHUP, EPOLL_CTL_MOD),
   (EPOLLOUT, EPOLL_CTL_MOD), (0, 255), (0, 255), (0, 255), (0, 255), (0, 255),
   (EPOLLIN OR EPOLLOUT, EPOLL_CTL_MOD), (EPOLLIN OR EPOLLOUT OR EPOLLRDHUP, EPOLL_CTL_MOD),
   (EPOLLIN OR EPOLLOUT, EPOLL_CTL_MOD), (0, 255), (EPOLLIN OR EPOLLOUT, EPOLL_CTL_MOD),
   (EPOLLIN OR EPOLLOUT OR EPOLLRDHUP, EPOLL_CTL_MOD), (EPOLLIN OR EPOLLOUT, EPOLL_CTL_MOD),
   (0, 255), (EPOLLOUT, EPOLL_CTL_MOD), (EPOLLOUT OR EPOLLRDHUP, EPOLL_CTL_MOD),
   (EPOLLOUT, EPOLL_CTL_MOD), (0, 255), (0, 255), (0, 255), (0, 255), (0, 255),
   (EPOLLIN, EPOLL_CTL_MOD), (EPOLLIN OR EPOLLRDHUP, EPOLL_CTL_MOD), (EPOLLIN, EPOLL_CTL_MOD),
   (0, 255), (EPOLLIN, EPOLL_CTL_MOD), (EPOLLIN OR EPOLLRDHUP, EPOLL_CTL_MOD),
   (EPOLLIN, EPOLL_CTL_MOD), (0, 255), (EPOLLIN OR EPOLLOUT, EPOLL_CTL_DEL),
   (EPOLLRDHUP, EPOLL_CTL_MOD), (EPOLLIN OR EPOLLOUT OR EPOLLRDHUP, EPOLL_CTL_DEL), (0, 255),
   (0, 255), (0, 255), (0, 255), (0, 255), (0, 255), (0, 255), (0, 255), (0, 255), (0, 255),
   (0, 255), (0, 255), (0, 255), (0, 255), (0, 255), (0, 255), (0, 255), (0, 255), (0, 255),
   (0, 255), (0, 255)]"

definition epoll_op_table_4 :: "operation list" where
  "epoll_op_table_4 = [
   (0, 0), (EPOLLRDHUP, EPOLL_CTL_MOD), (EPOLLRDHUP, EPOLL_CTL_DEL), (0, 255),
   (EPOLLIN OR EPOLLRDHUP, EPOLL_CTL_MOD), (EPOLLIN OR EPOLLRDHUP, EPOLL_CTL_MOD),
   (EPOLLIN, EPOLL_CTL_MOD), (0, 255), (EPOLLRDHUP, EPOLL_CTL_MOD), (EPOLLRDHUP, EPOLL_CTL_MOD),
   (EPOLLIN OR EPOLLRDHUP, EPOLL_CTL_DEL), (0, 255), (0, 255), (0, 255), (0, 255), (0, 255),
   (EPOLLOUT OR EPOLLRDHUP, EPOLL_CTL_MOD), (EPOLLOUT OR EPOLLRDHUP, EPOLL_CTL_MOD),
   (EPOLLOUT, EPOLL_CTL_MOD), (0, 255), (EPOLLIN OR EPOLLOUT OR EPOLLRDHUP, EPOLL_CTL_MOD),
   (EPOLLIN OR EPOLLOUT OR EPOLLRDHUP, EPOLL_CTL_MOD), (EPOLLIN OR EPOLLOUT, EPOLL_CTL_MOD),
   (0, 255), (EPOLLOUT OR EPOLLRDHUP, EPOLL_CTL_MOD), (EPOLLOUT OR EPOLLRDHUP, EPOLL_CTL_MOD),
   (EPOLLOUT, EPOLL_CTL_MOD), (0, 255), (0, 255), (0, 255), (0, 255), (0, 255),
   (EPOLLRDHUP, EPOLL_CTL_MOD), (EPOLLRDHUP, EPOLL_CTL_MOD),
   (EPOLLOUT OR EPOLLRDHUP, EPOLL_CTL_DEL), (0, 255), (EPOLLIN OR EPOLLRDHUP, EPOLL_CTL_MOD),
   (EPOLLIN OR EPOLLRDHUP, EPOLL_CTL_MOD), (EPOLLIN, EPOLL_CTL_MOD), (0, 255),
   (EPOLLRDHUP, EPOLL_CTL_MOD), (EPOLLRDHUP, EPOLL_CTL_MOD),
   (EPOLLIN OR EPOLLOUT OR EPOLLRDHUP, EPOLL_CTL_DEL), (0, 255), (0, 255), (0, 255), (0, 255),
   (0, 255), (0, 255), (0, 255), (0, 255), (0, 255), (0, 255), (0, 255), (0, 255), (0, 255),
   (0, 255), (0, 255), (0, 255), (0, 255), (0, 255), (0, 255), (0, 255), (0, 255)]"

definition epoll_op_table_5 :: "operation list" where
  "epoll_op_table_5 = [
   (0, 0), (EPOLLIN OR EPOLLRDHUP, EPOLL_CTL_MOD), (EPOLLIN, EPOLL_CTL_MOD), (0, 255),
   (EPOLLIN OR EPOLLRDHUP, EPOLL_CTL_MOD), (EPOLLIN OR EPOLLRDHUP, EPOLL_CTL_MOD),
   (EPOLLIN, EPOLL_CTL_MOD), (0, 255), (EPOLLRDHUP, EPOLL_CTL_MOD), (EPOLLRDHUP, EPOLL_CTL_MOD),
   (EPOLLIN OR EPOLLRDHUP, EPOLL_CTL_DEL), (0, 255), (0, 255), (0, 255), (0, 255), (0, 255),
   (EPOLLIN OR EPOLLOUT OR EPOLLRDHUP, EPOLL_CTL_MOD),
   (EPOLLIN OR EPOLLOUT OR EPOLLRDHUP, EPOLL_CTL_MOD), (EPOLLIN OR EPOLLOUT, EPOLL_CTL_MOD),
   (0, 255), (EPOLLIN OR EPOLLOUT OR EPOLLRDHUP, EPOLL_CTL_MOD),
   (EPOLLIN OR EPOLLOUT OR EPOLLRDHUP, EPOLL_CTL_MOD), (EPOLLIN OR EPOLLOUT, EPOLL_CTL_MOD),
   (0, 255), (EPOLLOUT OR EPOLLRDHUP, EPOLL_CTL_MOD), (EPOLLOUT OR EPOLLRDHUP, EPOLL_CTL_MOD),
   (EPOLLOUT, EPOLL_CTL_MOD), (0, 255), (0, 255), (0, 255), (0, 255), (0, 255),
   (EPOLLIN OR EPOLLRDHUP, EPOLL_CTL_MOD), (EPOLLIN OR EPOLLRDHUP, EPOLL_CTL_MOD),
   (EPOLLIN, EPOLL_CTL_MOD), (0, 255), (EPOLLIN OR EPOLLRDHUP, EPOLL_CTL_MOD),
   (EPOLLIN OR EPOLLRDHUP, EPOLL_CTL_MOD), (EPOLLIN, EPOLL_CTL_MOD), (0, 255),
   (EPOLLRDHUP, EPOLL_CTL_MOD), (EPOLLRDHUP, EPOLL_CTL_MOD),
   (EPOLLIN OR EPOLLOUT OR EPOLLRDHUP, EPOLL_CTL_DEL), (0, 255), (0, 255), (0, 255), (0, 255),
   (0, 255), (0, 255), (0, 255), (0, 255), (0, 255), (0, 255), (0, 255), (0, 255), (0, 255),
   (0, 255), (0, 255), (0, 255), (0, 255), (0, 255), (0, 255), (0, 255), (0, 255)]"

definition epoll_op_table_6 :: "operation list" where
  "epoll_op_table_6 = [
   (0, 0), (EPOLLOUT OR EPOLLRDHUP, EPOLL_CTL_MOD), (EPOLLOUT, EPOLL_CTL_MOD), (0, 255),
   (EPOLLIN OR EPOLLOUT OR EPOLLRDHUP, EPOLL_CTL_MOD),
   (EPOLLIN OR EPOLLOUT OR EPOLLRDHUP, EPOLL_CTL_MOD), (EPOLLIN OR EPOLLOUT, EPOLL_CTL_MOD),
   (0, 255), (EPOLLOUT OR EPOLLRDHUP, EPOLL_CTL_MOD), (EPOLLOUT OR EPOLLRDHUP, EPOLL_CTL_MOD),
   (EPOLLOUT, EPOLL_CTL_MOD), (0, 255), (0, 255), (0, 255), (0, 255), (0, 255),
   (EPOLLOUT OR EPOLLRDHUP, EPOLL_CTL_MOD), (EPOLLOUT OR EPOLLRDHUP, EPOLL_CTL_MOD),
   (EPOLLOUT, EPOLL_CTL_MOD), (0, 255), (EPOLLIN OR EPOLLOUT OR EPOLLRDHUP, EPOLL_CTL_MOD),
   (EPOLLIN OR EPOLLOUT OR EPOLLRDHUP, EPOLL_CTL_MOD), (EPOLLIN OR EPOLLOUT, EPOLL_CTL_MOD),
   (0, 255), (EPOLLOUT OR EPOLLRDHUP, EPOLL_CTL_MOD), (EPOLLOUT OR EPOLLRDHUP, EPOLL_CTL_MOD),
   (EPOLLOUT, EPOLL_CTL_MOD), (0, 255), (0, 255), (0, 255), (0, 255), (0, 255),
   (EPOLLRDHUP, EPOLL_CTL_MOD), (EPOLLRDHUP, EPOLL_CTL_MOD),
   (EPOLLOUT OR EPOLLRDHUP, EPOLL_CTL_DEL), (0, 255), (EPOLLIN OR EPOLLRDHUP, EPOLL_CTL_MOD),
   (EPOLLIN OR EPOLLRDHUP, EPOLL_CTL_MOD), (EPOLLIN, EPOLL_CTL_MOD), (0, 255),
   (EPOLLRDHUP, EPOLL_CTL_MOD), (EPOLLRDHUP, EPOLL_CTL_MOD),
   (EPOLLIN OR EPOLLOUT OR EPOLLRDHUP, EPOLL_CTL_DEL), (0, 255), (0, 255), (0, 255), (0, 255),
   (0, 255), (0, 255), (0, 255), (0, 255), (0, 255), (0, 255), (0, 255), (0, 255), (0, 255),
   (0, 255), (0, 255), (0, 255), (0, 255), (0, 255), (0, 255), (0, 255), (0, 255)]"

definition epoll_op_table_7 :: "operation list" where
  "epoll_op_table_7 = [
   (0, 0), (EPOLLIN OR EPOLLOUT OR EPOLLRDHUP, EPOLL_CTL_MOD),
   (EPOLLIN OR EPOLLOUT, EPOLL_CTL_MOD), (0, 255),
   (EPOLLIN OR EPOLLOUT OR EPOLLRDHUP, EPOLL_CTL_MOD),
   (EPOLLIN OR EPOLLOUT OR EPOLLRDHUP, EPOLL_CTL_MOD), (EPOLLIN OR EPOLLOUT, EPOLL_CTL_MOD),
   (0, 255), (EPOLLOUT OR EPOLLRDHUP, EPOLL_CTL_MOD), (EPOLLOUT OR EPOLLRDHUP, EPOLL_CTL_MOD),
   (EPOLLOUT, EPOLL_CTL_MOD), (0, 255), (0, 255), (0, 255), (0, 255), (0, 255),
   (EPOLLIN OR EPOLLOUT OR EPOLLRDHUP, EPOLL_CTL_MOD),
   (EPOLLIN OR EPOLLOUT OR EPOLLRDHUP, EPOLL_CTL_MOD), (EPOLLIN OR EPOLLOUT, EPOLL_CTL_MOD),
   (0, 255), (EPOLLIN OR EPOLLOUT OR EPOLLRDHUP, EPOLL_CTL_MOD),
   (EPOLLIN OR EPOLLOUT OR EPOLLRDHUP, EPOLL_CTL_MOD), (EPOLLIN OR EPOLLOUT, EPOLL_CTL_MOD),
   (0, 255), (EPOLLOUT OR EPOLLRDHUP, EPOLL_CTL_MOD), (EPOLLOUT OR EPOLLRDHUP, EPOLL_CTL_MOD),
   (EPOLLOUT, EPOLL_CTL_MOD), (0, 255), (0, 255), (0, 255), (0, 255), (0, 255),
   (EPOLLIN OR EPOLLRDHUP, EPOLL_CTL_MOD), (EPOLLIN OR EPOLLRDHUP, EPOLL_CTL_MOD),
   (EPOLLIN, EPOLL_CTL_MOD), (0, 255), (EPOLLIN OR EPOLLRDHUP, EPOLL_CTL_MOD),
   (EPOLLIN OR EPOLLRDHUP, EPOLL_CTL_MOD), (EPOLLIN, EPOLL_CTL_MOD), (0, 255),
   (EPOLLRDHUP, EPOLL_CTL_MOD), (EPOLLRDHUP, EPOLL_CTL_MOD),
   (EPOLLIN OR EPOLLOUT OR EPOLLRDHUP, EPOLL_CTL_DEL), (0, 255), (0, 255), (0, 255), (0, 255),
   (0, 255), (0, 255), (0, 255), (0, 255), (0, 255), (0, 255), (0, 255), (0, 255), (0, 255),
   (0, 255), (0, 255), (0, 255), (0, 255), (0, 255), (0, 255), (0, 255), (0, 255)]"

definition epoll_op_table :: "operation list" where
  "epoll_op_table = epoll_op_table_0 @ epoll_op_table_1 @ epoll_op_table_2 @ epoll_op_table_3 @
     epoll_op_table_4 @ epoll_op_table_5 @ epoll_op_table_6 @ epoll_op_table_7"

section \<open>The pseudocode\<close>

text \<open>
  The rule of the comment, as it is written there: two changes (add and del of read and write) and the old events
  (read, write).
\<close>

definition op_comment :: "bool \<Rightarrow> bool \<Rightarrow> bool \<Rightarrow> bool \<Rightarrow> bool \<Rightarrow> bool \<Rightarrow> operation" where
  "op_comment ra rd wa wd old_r old_w =
     (if ra \<and> rd \<or> wa \<and> wd then (0, -1)
      else if ra \<or> wa then
        ((if ra \<or> \<not> rd \<and> old_r then EPOLLIN else 0) OR (if wa \<or> \<not> wd \<and> old_w then EPOLLOUT else 0),
         if old_r \<or> old_w then EPOLL_CTL_MOD else EPOLL_CTL_ADD)
      else if rd \<or> wd then
        (if rd then
           (if wd then (EPOLLIN OR EPOLLOUT, EPOLL_CTL_DEL)
            else if old_w then (EPOLLOUT, EPOLL_CTL_MOD)
            else (EPOLLIN, EPOLL_CTL_DEL))
         else
           (if old_r then (EPOLLIN, EPOLL_CTL_MOD) else (EPOLLOUT, EPOLL_CTL_DEL)))
      else (0, 0))"

text \<open>
  The rule with a third change and a third old event, for the closing of the other side.
\<close>

definition op_pseudocode ::
  "bool \<Rightarrow> bool \<Rightarrow> bool \<Rightarrow> bool \<Rightarrow> bool \<Rightarrow> bool \<Rightarrow> bool \<Rightarrow> bool \<Rightarrow> bool \<Rightarrow> operation" where
  "op_pseudocode ca cd ra rd wa wd old_r old_w old_c =
     (if ca \<and> cd \<or> ra \<and> rd \<or> wa \<and> wd then (0, -1)
      else
        (let new = (if ra \<or> \<not> rd \<and> old_r then EPOLLIN else 0) OR
                   (if wa \<or> \<not> wd \<and> old_w then EPOLLOUT else 0) OR
                   (if ca \<or> \<not> cd \<and> old_c then EPOLLRDHUP else 0)
         in if ca \<or> ra \<or> wa then (new, if old_r \<or> old_w \<or> old_c then EPOLL_CTL_MOD else EPOLL_CTL_ADD)
            else if cd \<or> rd \<or> wd then
              (if new \<noteq> 0 then (new, EPOLL_CTL_MOD)
               else ((if rd then EPOLLIN else 0) OR (if wd then EPOLLOUT else 0) OR
                     (if cd then EPOLLRDHUP else 0), EPOLL_CTL_DEL))
            else (0, 0)))"

lemma op_pseudocode_comment: "op_pseudocode False False ra rd wa wd old_r old_w False = op_comment ra rd wa wd old_r old_w"
  by (simp add: op_pseudocode_def op_comment_def EPOLLIN_def EPOLLOUT_def)

text \<open>What the table has where the rule says -1.\<close>

definition op_stored :: "operation \<Rightarrow> operation" where
  "op_stored r = (if snd r = -1 then (fst r, 255) else r)"

text \<open>The bits of the index, as the header lists them.\<close>

definition op_of_index :: "nat \<Rightarrow> operation" where
  "op_of_index k = op_stored (op_pseudocode (bit k 0) (bit k 1) (bit k 2) (bit k 3) (bit k 4) (bit k 5)
     (bit k 6) (bit k 7) (bit k 8))"

lemma epoll_consts:
  "EPOLLIN = 1" "EPOLLOUT = 4" "EPOLLRDHUP = 0x2000" "EPOLL_CTL_ADD = 1" "EPOLL_CTL_DEL = 2" "EPOLL_CTL_MOD = 3"
  by (simp_all add: EPOLLIN_def EPOLLOUT_def EPOLLRDHUP_def EPOLL_CTL_ADD_def EPOLL_CTL_DEL_def EPOLL_CTL_MOD_def)

text \<open>The 64 rows for one combination of old events.\<close>

definition op_rows :: "bool \<Rightarrow> bool \<Rightarrow> bool \<Rightarrow> operation list" where
  "op_rows old_r old_w old_c =
     map (\<lambda>k. op_stored (op_pseudocode (bit k 0) (bit k 1) (bit k 2) (bit k 3) (bit k 4) (bit k 5) old_r old_w old_c)) [0..<64]"

lemma epoll_op_table_0_ok: "epoll_op_table_0 = op_rows False False False"
  by code_simp

lemma epoll_op_table_1_ok: "epoll_op_table_1 = op_rows True False False"
  by code_simp

lemma epoll_op_table_2_ok: "epoll_op_table_2 = op_rows False True False"
  by code_simp

lemma epoll_op_table_3_ok: "epoll_op_table_3 = op_rows True True False"
  by code_simp

lemma epoll_op_table_4_ok: "epoll_op_table_4 = op_rows False False True"
  by code_simp

lemma epoll_op_table_5_ok: "epoll_op_table_5 = op_rows True False True"
  by code_simp

lemma epoll_op_table_6_ok: "epoll_op_table_6 = op_rows False True True"
  by code_simp

lemma epoll_op_table_7_ok: "epoll_op_table_7 = op_rows True True True"
  by code_simp

lemma op_of_index_split:
  assumes "k < 64"
  shows "op_of_index (64 * j + k) = op_rows (bit j 0) (bit j 1) (bit j 2) ! k"
proof -
  have "odd ((64 * j + k) div 2 ^ i) = odd (k div 2 ^ i)" if "i < 6" for i
  proof -
    have "(64 * j + k) div 2 ^ i = k div 2 ^ i + 2 ^ (6 - i) * j"
    proof -
      have "(2 :: nat) ^ i * 2 ^ (6 - i) = 64" using that by (simp add: power_add [symmetric])
      then have "64 * j + k = k + (2 ^ (6 - i) * j) * 2 ^ i" by (metis add.commute mult.commute mult.assoc)
      then show ?thesis by (simp only: div_mult_self1 power_not_zero zero_neq_numeral simp_thms)
    qed
    then show ?thesis using that by simp
  qed
  then have lo: "bit (64 * j + k) i = bit k i" if "i < 6" for i using that by (simp add: bit_iff_odd)
  have hi: "bit (64 * j + k) (6 + i) = bit j i" for i
  proof -
    have "(64 * j + k) div 2 ^ (6 + i) = (64 * j + k) div 64 div 2 ^ i" by (simp add: power_add div_mult2_eq)
    also have "(64 * j + k) div 64 = j" using assms by simp
    finally show ?thesis by (simp add: bit_iff_odd)
  qed
  show ?thesis using assms lo [of 0] lo [of 1] lo [of 2] lo [of 3] lo [of 4] lo [of 5] hi [of 0] hi [of 1] hi [of 2]
    by (simp add: op_of_index_def op_rows_def)
qed

lemma length_op_rows [simp]: "length (op_rows a b c) = 64"
  by (simp add: op_rows_def)

lemma nth_blocks:
  assumes "\<forall>x \<in> set xss. length x = n" "0 < n" "k < n * length xss"
  shows "concat xss ! k = xss ! (k div n) ! (k mod n)"
  using assms
proof (induction xss arbitrary: k)
  case (Cons xs xss)
  show ?case
  proof (cases "k < n")
    case True
    then show ?thesis using Cons.prems(1) by (simp add: nth_append)
  next
    case False
    then have "k div n = Suc ((k - n) div n)" "(k - n) mod n = k mod n"
      using Cons.prems(2) by (simp_all add: le_div_geq le_mod_geq not_less)
    moreover have "concat xss ! (k - n) = xss ! ((k - n) div n) ! ((k - n) mod n)"
      using Cons.IH [of "k - n"] Cons.prems False by simp
    ultimately show ?thesis using Cons.prems(1) False by (simp add: nth_append)
  qed
qed simp

text \<open>Every row is what the pseudocode asks for, with 255 for -1.\<close>

lemma epoll_op_table_nth:
  assumes "k < 512"
  shows "epoll_op_table ! k = op_of_index k"
proof -
  let ?rows = "[op_rows False False False, op_rows True False False, op_rows False True False, op_rows True True False,
     op_rows False False True, op_rows True False True, op_rows False True True, op_rows True True True]"
  let ?j = "k div 64"
  have t: "epoll_op_table = concat ?rows"
    by (simp add: epoll_op_table_def epoll_op_table_0_ok epoll_op_table_1_ok epoll_op_table_2_ok
        epoll_op_table_3_ok epoll_op_table_4_ok epoll_op_table_5_ok epoll_op_table_6_ok epoll_op_table_7_ok)
  have "concat ?rows ! k = ?rows ! ?j ! (k mod 64)" using assms by (intro nth_blocks) auto
  moreover have "?j < 8" using assms by simp
  then have "?j \<in> {0, 1, 2, 3, 4, 5, 6, 7}" by auto
  then have "?rows ! ?j = op_rows (bit ?j 0) (bit ?j 1) (bit ?j 2)"
    by (elim insertE emptyE) (simp_all add: bit_iff_odd)
  moreover have "op_of_index k = op_rows (bit ?j 0) (bit ?j 1) (bit ?j 2) ! (k mod 64)"
    using op_of_index_split [of "k mod 64" ?j] by simp
  ultimately show ?thesis using t by simp
qed

lemma length_epoll_op_table: "length epoll_op_table = 512"
  by (simp add: epoll_op_table_def epoll_op_table_0_ok epoll_op_table_1_ok epoll_op_table_2_ok
      epoll_op_table_3_ok epoll_op_table_4_ok epoll_op_table_5_ok epoll_op_table_6_ok epoll_op_table_7_ok)

end
