(* ===== verification/Changelist.thy ===== *)
theory Changelist
  imports Backend
begin

text \<open>
  The changelist of \<^verbatim>\<open>src/evmap.c\<close> and \<^verbatim>\<open>src/changelist-internal.h\<close>: the changes a backend has still to
  make. The entries of the array from \<^verbatim>\<open>n_changes\<close> on are never read, so the array is the list of the
  first \<^verbatim>\<open>n_changes\<close> entries with its allocated size. The \<^verbatim>\<open>idxplus1\<close> that the source keeps behind every
  entry of the two maps is a function of the entry, zero at first as \<^verbatim>\<open>mm_calloc\<close> leaves it; \<open>ok\<close> answers
  whether the allocator serves a request.
\<close>

section \<open>Changes\<close>

record event_change =
  ch_fd :: int
  old_events :: u16
  read_change :: u8
  write_change :: u8
  close_change :: u8

definition EV_CHANGE_ADD :: u8 where "EV_CHANGE_ADD = 0x01"
definition EV_CHANGE_DEL :: u8 where "EV_CHANGE_DEL = 0x02"
definition EV_CHANGE_SIGNAL :: u8 where "EV_CHANGE_SIGNAL = 0x08"
definition EV_CHANGE_ET :: u8 where "EV_CHANGE_ET = 0x20"

lemma change_bits [simp]:
  "bit EV_CHANGE_ADD i \<longleftrightarrow> i = 0" "bit EV_CHANGE_DEL i \<longleftrightarrow> i = 1" "bit EV_CHANGE_ET i \<longleftrightarrow> i = 5"
  "bit EV_CHANGE_SIGNAL i \<longleftrightarrow> i = 3"
  unfolding EV_CHANGE_ADD_def EV_CHANGE_DEL_def EV_CHANGE_ET_def EV_CHANGE_SIGNAL_def by (rule bit_numeral_exp; simp)+

text \<open>The fdinfo of an entry of the map of descriptors or of the map of signals.\<close>

datatype fdinfo_ptr = Io_fdinfo int | Sig_fdinfo int

record changelist =
  changes :: "event_change list"
  changes_size :: nat
  idxplus1 :: "fdinfo_ptr \<Rightarrow> nat"

definition event_changelist_init :: "changelist \<Rightarrow> changelist" where
  "event_changelist_init cl = cl\<lparr>changes := [], changes_size := 0\<rparr>"

definition event_change_get_fdinfo :: "event_change \<Rightarrow> fdinfo_ptr" where
  "event_change_get_fdinfo ch =
     (if read_change ch AND EV_CHANGE_SIGNAL \<noteq> 0 then Sig_fdinfo (ch_fd ch) else Io_fdinfo (ch_fd ch))"

text \<open>The check that \<^verbatim>\<open>DEBUG_CHANGELIST\<close> turns on; \<open>fds\<close> are the descriptors that have an entry.\<close>

definition event_changelist_assert_ok :: "changelist \<Rightarrow> nat list \<Rightarrow> bool" where
  "event_changelist_assert_ok cl fds \<longleftrightarrow>
     length (changes cl) \<le> changes_size cl \<and>
     (\<forall>i < length (changes cl). 0 \<le> ch_fd (changes cl ! i) \<and>
        idxplus1 cl (event_change_get_fdinfo (changes cl ! i)) = i + 1) \<and>
     (\<forall>fd \<in> set fds. idxplus1 cl (Io_fdinfo (int fd)) \<noteq> 0 \<longrightarrow>
        ch_fd (changes cl ! (idxplus1 cl (Io_fdinfo (int fd)) - 1)) = int fd)"

fun changelist_clear :: "(fdinfo_ptr \<Rightarrow> nat) \<Rightarrow> nat \<Rightarrow> event_change list \<Rightarrow> (fdinfo_ptr \<Rightarrow> nat) outcome" where
  "changelist_clear idx i [] = Done idx"
| "changelist_clear idx i (ch # chs) =
     (let p = event_change_get_fdinfo ch in
      if idx p \<noteq> i + 1 then Aborted else changelist_clear (idx(p := 0)) (i + 1) chs)"

definition event_changelist_remove_all :: "changelist \<Rightarrow> changelist outcome" where
  "event_changelist_remove_all cl =
     bind_outcome (changelist_clear (idxplus1 cl) 0 (changes cl)) (\<lambda>idx. Done (cl\<lparr>idxplus1 := idx, changes := []\<rparr>))"

definition event_changelist_freemem :: "changelist \<Rightarrow> changelist" where
  "event_changelist_freemem cl = event_changelist_init cl"

definition event_changelist_grow :: "(nat \<Rightarrow> bool) \<Rightarrow> changelist \<Rightarrow> int \<times> changelist" where
  "event_changelist_grow ok cl =
     (let new_size = (if changes_size cl < 64 then 64 else changes_size cl * 2) in
      if ok (new_size * 12) then (0, cl\<lparr>changes_size := new_size\<rparr>) else (-1, cl))"

text \<open>The index of the change, or none where the source returns a null pointer.\<close>

definition event_changelist_get_or_construct ::
  "(nat \<Rightarrow> bool) \<Rightarrow> changelist \<Rightarrow> int \<Rightarrow> u16 \<Rightarrow> fdinfo_ptr \<Rightarrow> (nat option \<times> changelist) outcome" where
  "event_changelist_get_or_construct ok cl fd old p =
     (if idxplus1 cl p = 0 then
        (if length (changes cl) > changes_size cl then Aborted
         else
           (let (r, cl1) = (if length (changes cl) = changes_size cl then event_changelist_grow ok cl else (0, cl))
            in if r < 0 then Done (None, cl1)
               else
                 (let idx = length (changes cl1) in
                  Done (Some idx,
                    cl1\<lparr>changes := changes cl1 @
                          [\<lparr>ch_fd = fd, old_events = old, read_change = 0, write_change = 0, close_change = 0\<rparr>],
                        idxplus1 := (idxplus1 cl1)(p := idx + 1)\<rparr>))))
      else if ch_fd (changes cl ! (idxplus1 cl p - 1)) = fd then Done (Some (idxplus1 cl p - 1), cl)
      else Aborted)"

definition change_add :: "u16 \<Rightarrow> event_change \<Rightarrow> event_change" where
  "change_add events ch =
     (let evchange = EV_CHANGE_ADD OR ucast (events AND (EV_ET OR EV_PERSIST OR EV_SIGNAL));
          ch1 = (if events AND (EV_READ OR EV_SIGNAL) \<noteq> 0 then ch\<lparr>read_change := evchange\<rparr> else ch);
          ch2 = (if has events EV_WRITE then ch1\<lparr>write_change := evchange\<rparr> else ch1)
      in if has events EV_CLOSED then ch2\<lparr>close_change := evchange\<rparr> else ch2)"

definition event_changelist_add ::
  "(nat \<Rightarrow> bool) \<Rightarrow> changelist \<Rightarrow> int \<Rightarrow> u16 \<Rightarrow> u16 \<Rightarrow> fdinfo_ptr \<Rightarrow> (int \<times> changelist) outcome" where
  "event_changelist_add ok cl fd old events p =
     bind_outcome (event_changelist_get_or_construct ok cl fd old p) (\<lambda>(c, cl1).
       case c of None \<Rightarrow> Done (-1, cl1)
       | Some i \<Rightarrow> Done (0, cl1\<lparr>changes := (changes cl1)[i := change_add events (changes cl1 ! i)]\<rparr>))"

definition change_del :: "u16 \<Rightarrow> event_change \<Rightarrow> event_change" where
  "change_del events ch =
     (let del = EV_CHANGE_DEL OR ucast (events AND EV_ET);
          ch1 = (if events AND (EV_READ OR EV_SIGNAL) \<noteq> 0 then
                   ch\<lparr>read_change := if old_events ch AND (EV_READ OR EV_SIGNAL) = 0 then 0 else del\<rparr> else ch);
          ch2 = (if has events EV_WRITE then
                   ch1\<lparr>write_change := if old_events ch AND EV_WRITE = 0 then 0 else del\<rparr> else ch1)
      in if has events EV_CLOSED then
           ch2\<lparr>close_change := if old_events ch AND EV_CLOSED = 0 then 0 else del\<rparr> else ch2)"

definition event_changelist_del ::
  "(nat \<Rightarrow> bool) \<Rightarrow> changelist \<Rightarrow> int \<Rightarrow> u16 \<Rightarrow> u16 \<Rightarrow> fdinfo_ptr \<Rightarrow> (int \<times> changelist) outcome" where
  "event_changelist_del ok cl fd old events p =
     bind_outcome (event_changelist_get_or_construct ok cl fd old p) (\<lambda>(c, cl1).
       case c of None \<Rightarrow> Done (-1, cl1)
       | Some i \<Rightarrow> Done (0, cl1\<lparr>changes := (changes cl1)[i := change_del events (changes cl1 ! i)]\<rparr>))"

section \<open>Consistency\<close>

text \<open>
  The indices and the changes point at each other, and no change adds and deletes the same event.
  Changes of descriptors only: no signal goes through the list.
\<close>

definition change_ok :: "event_change \<Rightarrow> bool" where
  "change_ok ch \<longleftrightarrow> \<not> bit (read_change ch) 3 \<and> \<not> bit (old_events ch) 3 \<and>
     \<not> (bit (close_change ch) 0 \<and> bit (close_change ch) 1) \<and>
     \<not> (bit (read_change ch) 0 \<and> bit (read_change ch) 1) \<and> \<not> (bit (write_change ch) 0 \<and> bit (write_change ch) 1)"

definition changelist_ok :: "changelist \<Rightarrow> bool" where
  "changelist_ok cl \<longleftrightarrow>
     length (changes cl) \<le> changes_size cl \<and>
     (\<forall>i < length (changes cl). change_ok (changes cl ! i) \<and> idxplus1 cl (Io_fdinfo (ch_fd (changes cl ! i))) = i + 1) \<and>
     (\<forall>p. idxplus1 cl p \<noteq> 0 \<longrightarrow>
        idxplus1 cl p \<le> length (changes cl) \<and> p = Io_fdinfo (ch_fd (changes cl ! (idxplus1 cl p - 1))))"

text \<open>The events a change leaves enabled.\<close>

definition change_events :: "event_change \<Rightarrow> u16" where
  "change_events ch =
     io_mask (bit (read_change ch) 0 \<or> \<not> bit (read_change ch) 1 \<and> bit (old_events ch) 1)
       (bit (write_change ch) 0 \<or> \<not> bit (write_change ch) 1 \<and> bit (old_events ch) 2)
       (bit (close_change ch) 0 \<or> \<not> bit (close_change ch) 1 \<and> bit (old_events ch) 7)"

definition change_of :: "changelist \<Rightarrow> int \<Rightarrow> event_change option" where
  "change_of cl fd =
     (let i = idxplus1 cl (Io_fdinfo fd) in if i = 0 then None else Some (changes cl ! (i - 1)))"

lemma change_flags:
  "bit (ucast (events AND (EV_ET OR EV_PERSIST OR EV_SIGNAL)) :: u8) i \<longleftrightarrow>
     i = 5 \<and> bit events 5 \<or> i = 4 \<and> bit events 4 \<or> i = 3 \<and> bit events 3"
  "bit (ucast (events AND EV_ET) :: u8) i \<longleftrightarrow> i = 5 \<and> bit events 5" for events :: u16
  by (auto simp: bit_simps)

lemma and_flag_eq_0:
  "x AND EV_READ = 0 \<longleftrightarrow> \<not> bit x 1" "x AND EV_WRITE = 0 \<longleftrightarrow> \<not> bit x 2" "x AND EV_SIGNAL = 0 \<longleftrightarrow> \<not> bit x 3"
  "x AND EV_CLOSED = 0 \<longleftrightarrow> \<not> bit x 7" for x :: u16
  using has_bit(2,3,4,8) [of x] unfolding has_def by blast+

lemma read_signal_eq_0: "x AND (EV_READ OR EV_SIGNAL) = 0 \<longleftrightarrow> \<not> bit x 1 \<and> \<not> bit x 3" for x :: u16
  unfolding bit.conj_disj_distrib or_eq_0_iff and_flag_eq_0 ..

lemmas change_simps = change_flags and_flag_eq_0 read_signal_eq_0 bit_or_iff bit_and_iff bit_not_iff bit_io_mask

lemma change_add_events:
  assumes "\<not> bit events 3"
  shows "change_ok ch \<Longrightarrow> change_ok (change_add events ch)" "old_events (change_add events ch) = old_events ch"
    "ch_fd (change_add events ch) = ch_fd ch"
    "change_events (change_add events ch) = (change_events ch OR events) AND IO_EVENTS"
  using assms unfolding change_events_def IO_part change_add_def Let_def read_signal_eq_0
  by (auto simp: change_ok_def change_simps)

lemma change_del_events:
  assumes "\<not> bit events 3" "change_ok ch"
  shows "change_ok (change_del events ch)" "old_events (change_del events ch) = old_events ch"
    "ch_fd (change_del events ch) = ch_fd ch"
    "change_events (change_del events ch) = (change_events ch AND NOT events) AND IO_EVENTS"
  using assms unfolding change_events_def IO_part change_del_def Let_def read_signal_eq_0 and_flag_eq_0 io_mask_eq_iff
  by (auto simp: change_ok_def change_simps)

definition fresh_change :: "int \<Rightarrow> u16 \<Rightarrow> event_change" where
  "fresh_change fd old = \<lparr>ch_fd = fd, old_events = old, read_change = 0, write_change = 0, close_change = 0\<rparr>"

lemma change_of_Some:
  assumes "changelist_ok cl" "change_of cl fd = Some ch"
  shows "idxplus1 cl (Io_fdinfo fd) \<noteq> 0" "idxplus1 cl (Io_fdinfo fd) - 1 < length (changes cl)"
    "changes cl ! (idxplus1 cl (Io_fdinfo fd) - 1) = ch" "ch_fd ch = fd" "change_ok ch"
proof -
  show i: "idxplus1 cl (Io_fdinfo fd) \<noteq> 0" and c: "changes cl ! (idxplus1 cl (Io_fdinfo fd) - 1) = ch"
    using assms(2) by (auto simp: change_of_def Let_def split: if_splits)
  show "idxplus1 cl (Io_fdinfo fd) - 1 < length (changes cl)" "ch_fd ch = fd" "change_ok ch"
    using assms(1) i c unfolding changelist_ok_def by fastforce+
qed

lemma changelist_ok_update:
  assumes "changelist_ok cl" "i < length (changes cl)" "change_ok ch" "ch_fd ch = ch_fd (changes cl ! i)"
  shows "changelist_ok (cl\<lparr>changes := (changes cl)[i := ch]\<rparr>)"
    "change_of (cl\<lparr>changes := (changes cl)[i := ch]\<rparr>) = (change_of cl)(ch_fd ch \<mapsto> ch)"
proof -
  show "changelist_ok (cl\<lparr>changes := (changes cl)[i := ch]\<rparr>)"
    using assms unfolding changelist_ok_def by (auto simp: nth_list_update)
  show "change_of (cl\<lparr>changes := (changes cl)[i := ch]\<rparr>) = (change_of cl)(ch_fd ch \<mapsto> ch)"
  proof
    fix fd
    show "change_of (cl\<lparr>changes := (changes cl)[i := ch]\<rparr>) fd = ((change_of cl)(ch_fd ch \<mapsto> ch)) fd"
      using assms unfolding changelist_ok_def change_of_def Let_def
      by (cases "idxplus1 cl (Io_fdinfo fd)") (auto simp: nth_list_update, metis diff_Suc_Suc diff_zero fdinfo_ptr.inject(1) zero_less_Suc)
  qed
qed

lemma changelist_ok_append:
  assumes "changelist_ok cl" "idxplus1 cl (Io_fdinfo fd) = 0" "length (changes cl) < n" "\<not> bit old 3"
  defines "cl' \<equiv> cl\<lparr>changes := changes cl @ [fresh_change fd old], changes_size := n,
      idxplus1 := (idxplus1 cl)(Io_fdinfo fd := length (changes cl) + 1)\<rparr>"
  shows "changelist_ok cl'" "change_of cl' = (change_of cl)(fd \<mapsto> fresh_change fd old)"
proof -
  have f: "change_ok (fresh_change fd old)" "ch_fd (fresh_change fd old) = fd"
    using assms(4) by (simp_all add: fresh_change_def change_ok_def)
  have l: "idxplus1 cl p \<noteq> 0 \<Longrightarrow> idxplus1 cl p - 1 < length (changes cl)" for p
    using assms(1) unfolding changelist_ok_def by fastforce
  show "changelist_ok cl'"
    using assms(1-3) f l unfolding changelist_ok_def cl'_def
    by (auto simp: nth_append less_Suc_eq le_Suc_eq)
  show "change_of cl' = (change_of cl)(fd \<mapsto> fresh_change fd old)"
    using l unfolding change_of_def cl'_def Let_def by (auto simp: fun_eq_iff nth_append)
qed

lemma get_or_construct_ok:
  assumes "changelist_ok cl" "\<not> bit old 3"
  shows "\<exists>c cl'. event_changelist_get_or_construct ok cl fd old (Io_fdinfo fd) = Done (c, cl') \<and>
    (case c of None \<Rightarrow> cl' = cl \<and> (\<exists>n. \<not> ok n)
     | Some i \<Rightarrow> changelist_ok cl' \<and> i < length (changes cl') \<and>
         changes cl' ! i = (case change_of cl fd of None \<Rightarrow> fresh_change fd old | Some ch \<Rightarrow> ch) \<and>
         ch_fd (changes cl' ! i) = fd \<and> change_of cl' = (change_of cl)(fd \<mapsto> changes cl' ! i))"
proof (cases "change_of cl fd")
  case None
  then have i: "idxplus1 cl (Io_fdinfo fd) = 0" by (auto simp: change_of_def Let_def split: if_splits)
  have len: "length (changes cl) \<le> changes_size cl" using assms(1) by (simp add: changelist_ok_def)
  define n where "n = (if length (changes cl) < changes_size cl then changes_size cl
    else if changes_size cl < 64 then 64 else changes_size cl * 2)"
  have n: "length (changes cl) < n" using len by (auto simp: n_def)
  note ap = changelist_ok_append [OF assms(1) i n assms(2)]
  let ?cl = "cl\<lparr>changes := changes cl @ [fresh_change fd old], changes_size := n,
      idxplus1 := (idxplus1 cl)(Io_fdinfo fd := length (changes cl) + 1)\<rparr>"
  have "event_changelist_get_or_construct ok cl fd old (Io_fdinfo fd) =
    (if length (changes cl) = changes_size cl \<and> \<not> ok (n * 12) then Done (None, cl)
     else Done (Some (length (changes cl)), ?cl))"
    using i len by (auto simp: event_changelist_get_or_construct_def event_changelist_grow_def n_def fresh_change_def Let_def)
  then show ?thesis using ap None by (auto simp: fresh_change_def)
next
  case (Some ch)
  note s = change_of_Some [OF assms(1) Some]
  then show ?thesis using assms(1) Some
    by (auto simp: event_changelist_get_or_construct_def)
qed

text \<open>Both operations update the change of the descriptor by a function that keeps it well-formed.\<close>

lemma changelist_step:
  assumes "changelist_ok cl" "\<not> bit old 3" "\<And>ch. change_ok ch \<Longrightarrow> change_ok (f ch) \<and> ch_fd (f ch) = ch_fd ch"
  shows "\<exists>r cl'. bind_outcome (event_changelist_get_or_construct ok cl fd old (Io_fdinfo fd)) (\<lambda>(c, cl1).
       case c of None \<Rightarrow> Done (-1 :: int, cl1)
       | Some i \<Rightarrow> Done (0, cl1\<lparr>changes := (changes cl1)[i := f (changes cl1 ! i)]\<rparr>)) = Done (r, cl') \<and>
    changelist_ok cl' \<and>
    (r = -1 \<and> cl' = cl \<and> (\<exists>n. \<not> ok n) \<or>
     r = 0 \<and> change_of cl' = (change_of cl)(fd \<mapsto> f (case change_of cl fd of None \<Rightarrow> fresh_change fd old | Some ch \<Rightarrow> ch)))"
proof -
  obtain c cl' where g: "event_changelist_get_or_construct ok cl fd old (Io_fdinfo fd) = Done (c, cl')"
    "case c of None \<Rightarrow> cl' = cl \<and> (\<exists>n. \<not> ok n)
     | Some i \<Rightarrow> changelist_ok cl' \<and> i < length (changes cl') \<and>
         changes cl' ! i = (case change_of cl fd of None \<Rightarrow> fresh_change fd old | Some ch \<Rightarrow> ch) \<and>
         ch_fd (changes cl' ! i) = fd \<and> change_of cl' = (change_of cl)(fd \<mapsto> changes cl' ! i)"
    using get_or_construct_ok [OF assms(1,2), of ok fd] by blast
  show ?thesis
  proof (cases c)
    case None
    then show ?thesis using g assms(1) by simp
  next
    case (Some i)
    with g have i: "changelist_ok cl'" "i < length (changes cl')" by auto
    then have "change_ok (changes cl' ! i)" by (auto simp: changelist_ok_def)
    note a = assms(3) [OF this]
    note changelist_ok_update [OF i conjunct1 [OF a] conjunct2 [OF a]]
    then show ?thesis using g Some a by auto
  qed
qed

lemma changelist_add_ok:
  assumes "changelist_ok cl" "\<not> bit old 3" "\<not> bit events 3"
  shows "\<exists>r cl'. event_changelist_add ok cl fd old events (Io_fdinfo fd) = Done (r, cl') \<and> changelist_ok cl' \<and>
    (r = -1 \<and> cl' = cl \<and> (\<exists>n. \<not> ok n) \<or>
     r = 0 \<and> change_of cl' = (change_of cl)(fd \<mapsto>
       change_add events (case change_of cl fd of None \<Rightarrow> fresh_change fd old | Some ch \<Rightarrow> ch)))"
  unfolding event_changelist_add_def
  by (rule changelist_step [OF assms(1,2)]) (simp add: change_add_events [OF assms(3)])

lemma changelist_del_ok:
  assumes "changelist_ok cl" "\<not> bit old 3" "\<not> bit events 3"
  shows "\<exists>r cl'. event_changelist_del ok cl fd old events (Io_fdinfo fd) = Done (r, cl') \<and> changelist_ok cl' \<and>
    (r = -1 \<and> cl' = cl \<and> (\<exists>n. \<not> ok n) \<or>
     r = 0 \<and> change_of cl' = (change_of cl)(fd \<mapsto>
       change_del events (case change_of cl fd of None \<Rightarrow> fresh_change fd old | Some ch \<Rightarrow> ch)))"
  unfolding event_changelist_del_def
  by (rule changelist_step [OF assms(1,2)]) (simp add: change_del_events [OF assms(3)])

lemma changelist_clear_ok:
  assumes "\<forall>j < length chs. \<not> bit (read_change (chs ! j)) 3 \<and> idx (Io_fdinfo (ch_fd (chs ! j))) = i + j + 1"
    "\<forall>p. idx p \<noteq> 0 \<longrightarrow> (\<exists>j < length chs. p = Io_fdinfo (ch_fd (chs ! j)))"
  shows "changelist_clear idx i chs = Done (\<lambda>_. 0)"
  using assms
proof (induction chs arbitrary: idx i)
  case Nil
  then show ?case by (auto simp: fun_eq_iff)
next
  case (Cons ch chs)
  let ?p = "Io_fdinfo (ch_fd ch)"
  have "read_change ch AND EV_CHANGE_SIGNAL = 0 \<longleftrightarrow> \<not> bit (read_change ch) 3"
    using and_single_bit [of EV_CHANGE_SIGNAL 3 "read_change ch"] by (metis change_bits(4))
  then have p: "event_change_get_fdinfo ch = ?p" using Cons.prems(1) by (auto simp: event_change_get_fdinfo_def)
  have i: "idx ?p = i + 1" using Cons.prems(1) by auto
  have nth: "\<not> bit (read_change (chs ! j)) 3 \<and> idx (Io_fdinfo (ch_fd (chs ! j))) = i + Suc j + 1"
    if "j < length chs" for j
    using Cons.prems(1) that by (metis Suc_less_eq length_Cons nth_Cons_Suc)
  have "changelist_clear (idx(?p := 0)) (i + 1) chs = Done (\<lambda>_. 0)"
  proof (rule Cons.IH)
    show "\<forall>j < length chs. \<not> bit (read_change (chs ! j)) 3 \<and> (idx(?p := 0)) (Io_fdinfo (ch_fd (chs ! j))) = i + 1 + j + 1"
      using nth i by fastforce
    show "\<forall>q. (idx(?p := 0)) q \<noteq> 0 \<longrightarrow> (\<exists>j < length chs. q = Io_fdinfo (ch_fd (chs ! j)))"
    proof (intro allI impI)
      fix q assume q: "(idx(?p := 0)) q \<noteq> 0"
      then obtain j where "j < length (ch # chs)" "q = Io_fdinfo (ch_fd ((ch # chs) ! j))" "q \<noteq> ?p"
        using Cons.prems(2) by (auto split: if_splits)
      then show "\<exists>j < length chs. q = Io_fdinfo (ch_fd (chs ! j))" by (cases j) auto
    qed
  qed
  then show ?case using p i by simp
qed

lemma changelist_remove_all_ok:
  assumes "changelist_ok cl"
  shows "event_changelist_remove_all cl = Done (cl\<lparr>idxplus1 := (\<lambda>_. 0), changes := []\<rparr>)"
    "changelist_ok (cl\<lparr>idxplus1 := (\<lambda>_. 0), changes := []\<rparr>)"
    "change_of (cl\<lparr>idxplus1 := (\<lambda>_. 0), changes := []\<rparr>) = Map.empty"
proof -
  have "changelist_clear (idxplus1 cl) 0 (changes cl) = Done (\<lambda>_. 0)"
  proof (rule changelist_clear_ok)
    show "\<forall>j < length (changes cl). \<not> bit (read_change (changes cl ! j)) 3 \<and>
        idxplus1 cl (Io_fdinfo (ch_fd (changes cl ! j))) = 0 + j + 1"
      using assms by (auto simp: changelist_ok_def change_ok_def)
    show "\<forall>p. idxplus1 cl p \<noteq> 0 \<longrightarrow> (\<exists>j < length (changes cl). p = Io_fdinfo (ch_fd (changes cl ! j)))"
    proof (intro allI impI)
      fix p assume "idxplus1 cl p \<noteq> 0"
      then show "\<exists>j < length (changes cl). p = Io_fdinfo (ch_fd (changes cl ! j))"
        using assms unfolding changelist_ok_def by (intro exI [of _ "idxplus1 cl p - 1"]) fastforce
    qed
  qed
  then show "event_changelist_remove_all cl = Done (cl\<lparr>idxplus1 := (\<lambda>_. 0), changes := []\<rparr>)"
    by (simp add: event_changelist_remove_all_def)
qed (simp_all add: changelist_ok_def change_of_def fun_eq_iff)

end
