(* ===== verification/Epoll.thy ===== *)
theory Epoll
  imports Epoll_Table Timeval Changelist
begin

text \<open>
  The epoll backend, \<^verbatim>\<open>src/epoll.c\<close>. The kernel is a parameter: \<open>ctl\<close> is the system call
  \<^verbatim>\<open>epoll_ctl\<close>, which maps a kernel state, an operation, a file descriptor and the events to an
  error (\<open>None\<close> for success) and the next state. The results of the functions are \<open>Aborted\<close> where
  \<^verbatim>\<open>EVUTIL_ASSERT\<close> fails.
\<close>

section \<open>Changes\<close>

definition EPOLL_OP_TABLE_INDEX :: "event_change \<Rightarrow> nat" where
  "EPOLL_OP_TABLE_INDEX c =
     unat ((ucast (close_change c AND (EV_CHANGE_ADD OR EV_CHANGE_DEL)) :: u32) OR
           push_bit 2 (ucast (read_change c AND (EV_CHANGE_ADD OR EV_CHANGE_DEL))) OR
           push_bit 4 (ucast (write_change c AND (EV_CHANGE_ADD OR EV_CHANGE_DEL))) OR
           push_bit 5 (ucast (old_events c AND (EV_READ OR EV_WRITE))) OR
           push_bit 1 (ucast (old_events c AND EV_CLOSED)))"

definition change_to_string :: "u8 \<Rightarrow> string" where
  "change_to_string change =
     (let c = change AND (EV_CHANGE_ADD OR EV_CHANGE_DEL) in
      if c = EV_CHANGE_ADD then ''add'' else if c = EV_CHANGE_DEL then ''del''
      else if c = 0 then ''none'' else ''???'')"

definition epoll_op_to_string :: "int \<Rightarrow> string" where
  "epoll_op_to_string op =
     (if op = EPOLL_CTL_ADD then ''ADD'' else if op = EPOLL_CTL_DEL then ''DEL''
      else if op = EPOLL_CTL_MOD then ''MOD'' else ''???'')"

datatype errno = ENOENT | EEXIST | EBADF | EPERM | EOTHER

type_synonym 'k ctl = "'k \<Rightarrow> int \<Rightarrow> int \<Rightarrow> u32 \<Rightarrow> errno option \<times> 'k"

definition epoll_apply_one_change :: "'k ctl \<Rightarrow> 'k \<Rightarrow> event_change \<Rightarrow> (int \<times> 'k) outcome" where
  "epoll_apply_one_change ctl k ch =
     (let (events0, op) = epoll_op_table ! EPOLL_OP_TABLE_INDEX ch in
      if events0 = 0 then (if op = 0 then Done (0, k) else Aborted)
      else
        (let events = (if (read_change ch OR write_change ch) AND EV_CHANGE_ET \<noteq> 0
                       then events0 OR EPOLLET else events0)
         in case ctl k op (ch_fd ch) events of
              (None, k1) \<Rightarrow> Done (0, k1)
            | (Some err, k1) \<Rightarrow>
                if op = EPOLL_CTL_MOD \<and> err = ENOENT then
                  (case ctl k1 EPOLL_CTL_ADD (ch_fd ch) events of
                     (None, k2) \<Rightarrow> Done (0, k2) | (Some _, k2) \<Rightarrow> Done (-1, k2))
                else if op = EPOLL_CTL_ADD \<and> err = EEXIST then
                  (case ctl k1 EPOLL_CTL_MOD (ch_fd ch) events of
                     (None, k2) \<Rightarrow> Done (0, k2) | (Some _, k2) \<Rightarrow> Done (-1, k2))
                else if op = EPOLL_CTL_DEL \<and> err \<in> {ENOENT, EBADF, EPERM} then Done (0, k1)
                else Done (-1, k1)))"

fun epoll_apply_changes_loop :: "'k ctl \<Rightarrow> 'k \<Rightarrow> event_change list \<Rightarrow> int \<Rightarrow> (int \<times> 'k) outcome" where
  "epoll_apply_changes_loop ctl k [] r = Done (r, k)"
| "epoll_apply_changes_loop ctl k (ch # chs) r =
     bind_outcome (epoll_apply_one_change ctl k ch)
       (\<lambda>(q, k1). epoll_apply_changes_loop ctl k1 chs (if q < 0 then -1 else r))"

definition epoll_apply_changes :: "'k ctl \<Rightarrow> 'k \<Rightarrow> event_change list \<Rightarrow> (int \<times> 'k) outcome" where
  "epoll_apply_changes ctl k chs = epoll_apply_changes_loop ctl k chs 0"

definition epoll_nochangelist_add :: "'k ctl \<Rightarrow> 'k \<Rightarrow> int \<Rightarrow> u16 \<Rightarrow> u16 \<Rightarrow> (int \<times> 'k) outcome" where
  "epoll_nochangelist_add ctl k fd old events =
     (let ch = (if has events EV_CLOSED then EV_CHANGE_ADD OR ucast (events AND EV_ET) else 0) in
      epoll_apply_one_change ctl k
        \<lparr>ch_fd = fd, old_events = old,
         read_change = (if has events EV_READ then EV_CHANGE_ADD OR ucast (events AND EV_ET) else 0),
         write_change = (if has events EV_WRITE then EV_CHANGE_ADD OR ucast (events AND EV_ET) else 0),
         close_change = ch\<rparr>)"

definition epoll_nochangelist_del :: "'k ctl \<Rightarrow> 'k \<Rightarrow> int \<Rightarrow> u16 \<Rightarrow> u16 \<Rightarrow> (int \<times> 'k) outcome" where
  "epoll_nochangelist_del ctl k fd old events =
     (let ch = (if has events EV_CLOSED then EV_CHANGE_DEL OR ucast (events AND EV_ET) else 0) in
      epoll_apply_one_change ctl k
        \<lparr>ch_fd = fd, old_events = old,
         read_change = (if has events EV_READ then EV_CHANGE_DEL OR ucast (events AND EV_ET) else 0),
         write_change = (if has events EV_WRITE then EV_CHANGE_DEL OR ucast (events AND EV_ET) else 0),
         close_change = ch\<rparr>)"

section \<open>Dispatching\<close>

definition MAX_EPOLL_TIMEOUT_MSEC :: int where "MAX_EPOLL_TIMEOUT_MSEC = 35 * 60 * 1000"
definition INITIAL_NEVENT :: nat where "INITIAL_NEVENT = 32"
definition MAX_NEVENT :: nat where "MAX_NEVENT = 4096"

text \<open>The timeout given to \<^verbatim>\<open>epoll_wait\<close>, without a timerfd.\<close>

definition epoll_timeout :: "timeval option \<Rightarrow> int" where
  "epoll_timeout tv =
     (case tv of None \<Rightarrow> -1
      | Some t \<Rightarrow> (let timeout = evutil_tv_to_msec t in
          if timeout < 0 \<or> timeout > MAX_EPOLL_TIMEOUT_MSEC then MAX_EPOLL_TIMEOUT_MSEC else timeout))"

definition epoll_what_to_ev :: "u32 \<Rightarrow> u16" where
  "epoll_what_to_ev what =
     (if what AND (EPOLLHUP OR EPOLLERR) \<noteq> 0 then EV_READ OR EV_WRITE
      else (if what AND EPOLLIN \<noteq> 0 then EV_READ else 0) OR
           (if what AND EPOLLOUT \<noteq> 0 then EV_WRITE else 0) OR
           (if what AND EPOLLRDHUP \<noteq> 0 then EV_CLOSED else 0))"

text \<open>
  The loop over the reported events: the calls of \<^verbatim>\<open>evmap_io_active_\<close>, in order.
\<close>

definition epoll_activations :: "(int \<times> u32) list \<Rightarrow> (int \<times> u16) list" where
  "epoll_activations evs =
     map (\<lambda>(fd, what). (fd, epoll_what_to_ev what OR EV_ET)) (filter (\<lambda>(fd, what). epoll_what_to_ev what \<noteq> 0) evs)"

definition epoll_grow :: "(nat \<Rightarrow> bool) \<Rightarrow> nat \<Rightarrow> nat \<Rightarrow> nat" where
  "epoll_grow ok nevents res =
     (if res = nevents \<and> nevents < MAX_NEVENT \<and> ok (nevents * 2) then nevents * 2 else nevents)"

record 'k epollop =
  kernel :: 'k
  nevents :: nat
  clist :: changelist

text \<open>
  \<^verbatim>\<open>epoll_dispatch\<close>: \<open>wait\<close> is the system call \<^verbatim>\<open>epoll_wait\<close>, which is given the size of the
  event array and the timeout and answers with the events, or with an error that is
  \<^verbatim>\<open>EINTR\<close> or not. The result is the return value and the activations.
\<close>

datatype wait_result = Events "(int \<times> u32) list" | EINTR | Wait_failed

definition epoll_dispatch ::
  "'k ctl \<Rightarrow> ('k \<Rightarrow> nat \<Rightarrow> int \<Rightarrow> wait_result \<times> 'k) \<Rightarrow> (nat \<Rightarrow> bool) \<Rightarrow> 'k epollop \<Rightarrow> timeval option \<Rightarrow>
     (int \<times> (int \<times> u16) list \<times> 'k epollop) outcome" where
  "epoll_dispatch ctl wait ok ep tv =
     bind_outcome (epoll_apply_changes ctl (kernel ep) (changes (clist ep))) (\<lambda>(r, k1).
     bind_outcome (event_changelist_remove_all (clist ep)) (\<lambda>cl1.
       (let (res, k2) = wait k1 (nevents ep) (epoll_timeout tv); ep1 = ep\<lparr>kernel := k2, clist := cl1\<rparr>
        in case res of
             EINTR \<Rightarrow> Done (0, [], ep1)
           | Wait_failed \<Rightarrow> Done (-1, [], ep1)
           | Events evs \<Rightarrow>
               (if length evs \<le> nevents ep
                then Done (0, epoll_activations evs, ep1\<lparr>nevents := epoll_grow ok (nevents ep) (length evs)\<rparr>)
                else Aborted))))"

section \<open>The table index\<close>

lemma change_mask_bits:
  "bit (ucast (c AND (EV_CHANGE_ADD OR EV_CHANGE_DEL)) :: u32) i \<longleftrightarrow> i = 0 \<and> bit c 0 \<or> i = 1 \<and> bit c 1"
  by (auto simp: bit_simps)

lemma old_mask_bits:
  "bit (ucast (w AND (EV_READ OR EV_WRITE)) :: u32) i \<longleftrightarrow> i = 1 \<and> bit w 1 \<or> i = 2 \<and> bit w 2"
  "bit (ucast (w AND EV_CLOSED) :: u32) i \<longleftrightarrow> i = 7 \<and> bit w 7"
  by (auto simp: bit_simps)

lemma bit_push_u32: "bit (push_bit s (x :: u32)) i \<longleftrightarrow> s \<le> i \<and> i < 32 \<and> bit x (i - s)"
  by (auto simp: bit_simps)

lemma shifted_bits:
  "bit (push_bit 2 (ucast (c AND (EV_CHANGE_ADD OR EV_CHANGE_DEL)) :: u32)) i \<longleftrightarrow> i = 2 \<and> bit c 0 \<or> i = 3 \<and> bit c 1"
  "bit (push_bit 4 (ucast (c AND (EV_CHANGE_ADD OR EV_CHANGE_DEL)) :: u32)) i \<longleftrightarrow> i = 4 \<and> bit c 0 \<or> i = 5 \<and> bit c 1"
  "bit (push_bit 5 (ucast (w AND (EV_READ OR EV_WRITE)) :: u32)) i \<longleftrightarrow> i = 6 \<and> bit w 1 \<or> i = 7 \<and> bit w 2"
  "bit (push_bit 1 (ucast (w AND EV_CLOSED) :: u32)) i \<longleftrightarrow> i = 8 \<and> bit w 7"
  unfolding bit_push_u32 change_mask_bits old_mask_bits by auto

lemma bit_unat: "bit (unat (w :: u32)) i \<longleftrightarrow> bit w i"
  by (simp add: bit_unsigned_iff)

lemma index_bits:
  "bit (EPOLL_OP_TABLE_INDEX c) i \<longleftrightarrow>
     (i = 0 \<and> bit (close_change c) 0) \<or> (i = 1 \<and> bit (close_change c) 1) \<or>
     (i = 2 \<and> bit (read_change c) 0) \<or> (i = 3 \<and> bit (read_change c) 1) \<or>
     (i = 4 \<and> bit (write_change c) 0) \<or> (i = 5 \<and> bit (write_change c) 1) \<or>
     (i = 6 \<and> bit (old_events c) 1) \<or> (i = 7 \<and> bit (old_events c) 2) \<or> (i = 8 \<and> bit (old_events c) 7)"
  unfolding EPOLL_OP_TABLE_INDEX_def bit_unat bit_or_iff shifted_bits change_mask_bits
  by (simp only: disj_assoc)

lemma index_less: "EPOLL_OP_TABLE_INDEX c < 512"
proof -
  have "take_bit 9 (EPOLL_OP_TABLE_INDEX c) = EPOLL_OP_TABLE_INDEX c"
    by (rule bit_eqI) (auto simp: bit_take_bit_iff index_bits)
  then have "EPOLL_OP_TABLE_INDEX c = EPOLL_OP_TABLE_INDEX c mod 512" by (simp add: take_bit_eq_mod)
  then show ?thesis by (metis mod_less_divisor zero_less_numeral)
qed

definition op_rule :: "event_change \<Rightarrow> operation" where
  "op_rule ch = op_pseudocode (bit (close_change ch) 0) (bit (close_change ch) 1)
     (bit (read_change ch) 0) (bit (read_change ch) 1) (bit (write_change ch) 0) (bit (write_change ch) 1)
     (bit (old_events ch) 1) (bit (old_events ch) 2) (bit (old_events ch) 7)"

definition op_wanted :: "event_change \<Rightarrow> operation" where
  "op_wanted ch = op_stored (op_rule ch)"

lemma epoll_op_table_wanted: "epoll_op_table ! EPOLL_OP_TABLE_INDEX ch = op_wanted ch"
  by (simp add: epoll_op_table_nth [OF index_less] op_of_index_def op_wanted_def op_rule_def index_bits)

section \<open>Against a kernel that behaves as documented\<close>

text \<open>
  What \<^verbatim>\<open>epoll_ctl(2)\<close> says of descriptors that can be polled: an interest list, additions that fail
  with \<open>EEXIST\<close> for a registered descriptor, modifications and deletions that fail with \<open>ENOENT\<close>
  for one that is not registered; a descriptor that does not support epoll is refused with \<open>EPERM\<close>.
\<close>

locale epoll_kernel =
  fixes ctl :: "'k ctl"
    and interest :: "'k \<Rightarrow> int \<rightharpoonup> u32"
    and pollable :: "int \<Rightarrow> bool"
  assumes add_new: "pollable fd \<Longrightarrow> interest k fd = None \<Longrightarrow>
      \<exists>k'. ctl k EPOLL_CTL_ADD fd ev = (None, k') \<and> interest k' = (interest k)(fd \<mapsto> ev)"
    and add_old: "pollable fd \<Longrightarrow> interest k fd \<noteq> None \<Longrightarrow> ctl k EPOLL_CTL_ADD fd ev = (Some EEXIST, k)"
    and mod_old: "pollable fd \<Longrightarrow> interest k fd \<noteq> None \<Longrightarrow>
      \<exists>k'. ctl k EPOLL_CTL_MOD fd ev = (None, k') \<and> interest k' = (interest k)(fd \<mapsto> ev)"
    and mod_new: "pollable fd \<Longrightarrow> interest k fd = None \<Longrightarrow> ctl k EPOLL_CTL_MOD fd ev = (Some ENOENT, k)"
    and del_old: "pollable fd \<Longrightarrow> interest k fd \<noteq> None \<Longrightarrow>
      \<exists>k'. ctl k EPOLL_CTL_DEL fd ev = (None, k') \<and> interest k' = (interest k)(fd := None)"
    and del_new: "pollable fd \<Longrightarrow> interest k fd = None \<Longrightarrow> ctl k EPOLL_CTL_DEL fd ev = (Some ENOENT, k)"
    and unpollable: "\<not> pollable fd \<Longrightarrow> ctl k op fd ev = (Some EPERM, k)"

text \<open>The events a change asks for.\<close>

definition contradictory :: "event_change \<Rightarrow> bool" where
  "contradictory ch \<longleftrightarrow> bit (close_change ch) 0 \<and> bit (close_change ch) 1 \<or>
     bit (read_change ch) 0 \<and> bit (read_change ch) 1 \<or> bit (write_change ch) 0 \<and> bit (write_change ch) 1"

definition no_change :: "event_change \<Rightarrow> bool" where
  "no_change ch \<longleftrightarrow> \<not> bit (close_change ch) 0 \<and> \<not> bit (close_change ch) 1 \<and> \<not> bit (read_change ch) 0 \<and>
     \<not> bit (read_change ch) 1 \<and> \<not> bit (write_change ch) 0 \<and> \<not> bit (write_change ch) 1"

definition wanted_events :: "event_change \<Rightarrow> u32" where
  "wanted_events ch =
     (if bit (read_change ch) 0 \<or> \<not> bit (read_change ch) 1 \<and> bit (old_events ch) 1 then EPOLLIN else 0) OR
     (if bit (write_change ch) 0 \<or> \<not> bit (write_change ch) 1 \<and> bit (old_events ch) 2 then EPOLLOUT else 0) OR
     (if bit (close_change ch) 0 \<or> \<not> bit (close_change ch) 1 \<and> bit (old_events ch) 7 then EPOLLRDHUP else 0)"

definition edge :: "event_change \<Rightarrow> u32" where
  "edge ch = (if (read_change ch OR write_change ch) AND EV_CHANGE_ET \<noteq> 0 then EPOLLET else 0)"

definition wanted_interest :: "event_change \<Rightarrow> u32 option" where
  "wanted_interest ch = (if wanted_events ch = 0 then None else Some (wanted_events ch OR edge ch))"

lemma op_rule_contradictory: "contradictory ch \<Longrightarrow> op_rule ch = (0, -1)"
  by (auto simp: op_rule_def op_pseudocode_def contradictory_def)

lemma op_rule_fine: "\<not> contradictory ch \<Longrightarrow> snd (op_rule ch) \<noteq> -1"
  by (auto simp: op_rule_def op_pseudocode_def contradictory_def Let_def EPOLL_CTL_ADD_def EPOLL_CTL_DEL_def EPOLL_CTL_MOD_def)

lemma op_wanted_fine: "\<not> contradictory ch \<Longrightarrow> op_wanted ch = op_rule ch"
  by (simp add: op_wanted_def op_stored_def op_rule_fine)

lemma op_wanted_contradictory: "contradictory ch \<Longrightarrow> op_wanted ch = (0, 255)"
  by (simp add: op_wanted_def op_stored_def op_rule_contradictory)

lemma op_wanted_no_change: "no_change ch \<Longrightarrow> op_wanted ch = (0, 0)"
  by (auto simp: op_wanted_def op_stored_def op_rule_def op_pseudocode_def no_change_def Let_def)

lemma op_wanted_change:
  assumes "\<not> contradictory ch" "\<not> no_change ch" "op_wanted ch = (ev, op)"
  shows "ev \<noteq> 0" "op = EPOLL_CTL_ADD \<or> op = EPOLL_CTL_MOD \<or> op = EPOLL_CTL_DEL"
    "op \<noteq> EPOLL_CTL_DEL \<Longrightarrow> ev = wanted_events ch" "op = EPOLL_CTL_DEL \<longleftrightarrow> wanted_events ch = 0"
  using assms(2,3)
  unfolding op_wanted_fine [OF assms(1)] using assms(1)
  unfolding op_rule_def op_pseudocode_def contradictory_def no_change_def Let_def wanted_events_def epoll_consts
  by (auto split: if_splits)

text \<open>The events the kernel watches, in the flags of the library.\<close>

definition watched_events :: "u32 option \<Rightarrow> u16" where
  "watched_events w = (case w of None \<Rightarrow> 0
     | Some e \<Rightarrow> io_mask (e AND EPOLLIN \<noteq> 0) (e AND EPOLLOUT \<noteq> 0) (e AND EPOLLRDHUP \<noteq> 0))"

lemma watched_IO [simp]: "watched_events w AND IO_EVENTS = watched_events w"
  by (simp add: watched_events_def split: option.splits)

lemma watched_wanted:
  "watched_events (wanted_interest ch) = change_events ch"
proof -
  have [simp]: "(EPOLLET :: u32) = 0x80000000" by (simp add: EPOLLET_def)
  show ?thesis
    by (auto simp: watched_events_def wanted_interest_def wanted_events_def edge_def epoll_consts change_events_def)
qed

context epoll_kernel
begin

text \<open>
  Whatever the kernel knew of the descriptor before (it may have been closed and reopened), a change
  leaves exactly the wanted events registered.
\<close>

lemma apply_one_change:
  assumes "pollable (ch_fd ch)" "\<not> contradictory ch" "\<not> no_change ch"
  shows "\<exists>k'. epoll_apply_one_change ctl k ch = Done (0, k') \<and>
    interest k' = (interest k)(ch_fd ch := wanted_interest ch)"
proof -
  let ?fd = "ch_fd ch"
  obtain ev op where w: "op_wanted ch = (ev, op)" by fastforce
  note oc = op_wanted_change [OF assms(2,3) w]
  define e where "e = (if (read_change ch OR write_change ch) AND EV_CHANGE_ET \<noteq> 0 then ev OR EPOLLET else ev)"
  have ee: "e = ev OR edge ch" by (simp add: e_def edge_def)
  have ne: "EPOLL_CTL_ADD \<noteq> EPOLL_CTL_DEL" "EPOLL_CTL_MOD \<noteq> EPOLL_CTL_DEL" "EPOLL_CTL_ADD \<noteq> EPOLL_CTL_MOD"
    by (simp_all add: epoll_consts)
  have unf: "epoll_apply_one_change ctl k ch =
      (case ctl k op ?fd e of (None, k1) \<Rightarrow> Done (0, k1)
       | (Some err, k1) \<Rightarrow>
         if op = EPOLL_CTL_MOD \<and> err = ENOENT then
           (case ctl k1 EPOLL_CTL_ADD ?fd e of (None, k2) \<Rightarrow> Done (0, k2) | (Some _, k2) \<Rightarrow> Done (-1, k2))
         else if op = EPOLL_CTL_ADD \<and> err = EEXIST then
           (case ctl k1 EPOLL_CTL_MOD ?fd e of (None, k2) \<Rightarrow> Done (0, k2) | (Some _, k2) \<Rightarrow> Done (-1, k2))
         else if op = EPOLL_CTL_DEL \<and> err \<in> {ENOENT, EBADF, EPERM} then Done (0, k1)
         else Done (-1, k1))"
    using oc(1) unfolding epoll_apply_one_change_def epoll_op_table_wanted w e_def Let_def by simp
  consider (add) "op = EPOLL_CTL_ADD" | (modi) "op = EPOLL_CTL_MOD" | (del) "op = EPOLL_CTL_DEL" using oc(2) by blast
  then show ?thesis
  proof cases
    case add
    then have "wanted_interest ch = Some e" using oc(3,4) ne by (auto simp: wanted_interest_def ee)
    then show ?thesis
      using unf add ne add_new [OF assms(1), of k e] add_old [OF assms(1), of k e] mod_old [OF assms(1), of k e]
      by (cases "interest k ?fd = None") auto
  next
    case modi
    then have "wanted_interest ch = Some e" using oc(3,4) ne by (auto simp: wanted_interest_def ee)
    then show ?thesis
      using unf modi ne add_new [OF assms(1), of k e] mod_new [OF assms(1), of k e] mod_old [OF assms(1), of k e]
      by (cases "interest k ?fd = None") auto
  next
    case del
    then have "wanted_interest ch = None" using oc(4) by (simp add: wanted_interest_def)
    then show ?thesis
      using unf del ne del_new [OF assms(1), of k e] del_old [OF assms(1), of k e]
      by (cases "interest k ?fd = None") auto
  qed
qed

text \<open>Applying a list of changes of different descriptors; a change that asks for nothing leaves the kernel alone.\<close>

lemma apply_one_watched:
  assumes "pollable (ch_fd ch)" "\<not> contradictory ch" "old_events ch = watched_events (interest k (ch_fd ch))"
  shows "\<exists>k'. epoll_apply_one_change ctl k ch = Done (0, k') \<and>
    (\<lambda>f. watched_events (interest k' f)) = (\<lambda>f. watched_events (interest k f))(ch_fd ch := change_events ch)"
proof (cases "no_change ch")
  case True
  have "change_events ch = old_events ch AND IO_EVENTS"
    using True unfolding IO_part change_events_def no_change_def by simp
  then have "change_events ch = watched_events (interest k (ch_fd ch))" using assms(3) by simp
  then show ?thesis using op_wanted_no_change [OF True]
    by (auto simp: epoll_apply_one_change_def epoll_op_table_wanted fun_eq_iff)
next
  case False
  then show ?thesis using apply_one_change [of ch k] assms(1,2) watched_wanted [of ch] by (auto simp: fun_eq_iff)
qed

lemma apply_changes:
  assumes "\<forall>ch \<in> set chs. pollable (ch_fd ch) \<and> \<not> contradictory ch \<and>
      old_events ch = watched_events (interest k (ch_fd ch))" "distinct (map ch_fd chs)"
  shows "\<exists>k'. epoll_apply_changes_loop ctl k chs r = Done (r, k') \<and>
    (\<forall>fd. watched_events (interest k' fd) =
       (case map_of (map (\<lambda>ch. (ch_fd ch, ch)) chs) fd of None \<Rightarrow> watched_events (interest k fd) | Some ch \<Rightarrow> change_events ch))"
  using assms
proof (induction chs arbitrary: k)
  case (Cons ch chs)
  from apply_one_watched [of ch k] Cons.prems obtain k1 where
    k1: "epoll_apply_one_change ctl k ch = Done (0, k1)"
      "(\<lambda>f. watched_events (interest k1 f)) = (\<lambda>f. watched_events (interest k f))(ch_fd ch := change_events ch)"
    by auto
  have w: "watched_events (interest k1 f) = (if f = ch_fd ch then change_events ch else watched_events (interest k f))" for f
    using fun_cong [OF k1(2), of f] by simp
  have "\<forall>c \<in> set chs. pollable (ch_fd c) \<and> \<not> contradictory c \<and> old_events c = watched_events (interest k1 (ch_fd c))"
    using Cons.prems w by (auto simp: image_iff)
  from Cons.IH [OF this] Cons.prems(2) obtain k' where k': "epoll_apply_changes_loop ctl k1 chs r = Done (r, k')"
    "\<forall>fd. watched_events (interest k' fd) =
       (case map_of (map (\<lambda>ch. (ch_fd ch, ch)) chs) fd of None \<Rightarrow> watched_events (interest k1 fd) | Some ch \<Rightarrow> change_events ch)"
    by auto
  have "map_of (map (\<lambda>ch. (ch_fd ch, ch)) chs) (ch_fd ch) = None" using Cons.prems(2) by (force simp: map_of_eq_None_iff)
  then show ?case using k1(1) k' w by (auto split: option.splits)
qed simp

end

section \<open>The backend interface\<close>

definition add_change :: "int \<Rightarrow> u16 \<Rightarrow> u16 \<Rightarrow> u8 \<Rightarrow> event_change" where
  "add_change fd old events flag =
     (let ch = (\<lambda>f. if has events f then flag OR ucast (events AND EV_ET) else 0) in
      \<lparr>ch_fd = fd, old_events = old, read_change = ch EV_READ, write_change = ch EV_WRITE,
       close_change = ch EV_CLOSED\<rparr>)"

lemma nochangelist_change:
  "epoll_nochangelist_add ctl k fd old events = epoll_apply_one_change ctl k (add_change fd old events EV_CHANGE_ADD)"
  "epoll_nochangelist_del ctl k fd old events = epoll_apply_one_change ctl k (add_change fd old events EV_CHANGE_DEL)"
  by (simp_all add: epoll_nochangelist_add_def epoll_nochangelist_del_def add_change_def Let_def)

lemma change_flag_bits:
  "bit (EV_CHANGE_ADD OR ucast (events AND EV_ET)) i \<longleftrightarrow> i = 0 \<or> i = 5 \<and> bit events 5"
  "bit (EV_CHANGE_DEL OR ucast (events AND EV_ET)) i \<longleftrightarrow> i = 1 \<or> i = 5 \<and> bit events 5"
  by (auto simp: bit_simps)

lemma add_change_bits:
  fixes fd :: int and old events :: u16
  defines "a \<equiv> add_change fd old events EV_CHANGE_ADD" and "d \<equiv> add_change fd old events EV_CHANGE_DEL"
  shows "bit (read_change a) 0 = bit events 1" "\<not> bit (read_change a) 1"
    "bit (write_change a) 0 = bit events 2" "\<not> bit (write_change a) 1"
    "bit (close_change a) 0 = bit events 7" "\<not> bit (close_change a) 1"
    "bit (read_change d) 1 = bit events 1" "\<not> bit (read_change d) 0"
    "bit (write_change d) 1 = bit events 2" "\<not> bit (write_change d) 0"
    "bit (close_change d) 1 = bit events 7" "\<not> bit (close_change d) 0"
    "old_events a = old" "old_events d = old" "ch_fd a = fd" "ch_fd d = fd"
  by (auto simp: a_def d_def add_change_def Let_def change_flag_bits)

lemmas add_change_simps = add_change_bits [unfolded One_nat_def]

lemma add_change_fine:
  assumes "events AND IO_EVENTS \<noteq> 0"
  shows "\<not> contradictory (add_change fd old events EV_CHANGE_ADD)" "\<not> no_change (add_change fd old events EV_CHANGE_ADD)"
    "\<not> contradictory (add_change fd old events EV_CHANGE_DEL)" "\<not> no_change (add_change fd old events EV_CHANGE_DEL)"
  using assms unfolding IO_part io_mask_eq_0 by (auto simp: contradictory_def no_change_def add_change_simps)

context epoll_kernel
begin

lemma backend_add:
  assumes "pollable fd" "events AND IO_EVENTS \<noteq> 0"
  shows "\<exists>k'. epoll_nochangelist_add ctl k fd old events = Done (0, k') \<and>
    (\<lambda>f. watched_events (interest k' f)) =
      (\<lambda>f. watched_events (interest k f))(fd := (old OR events) AND IO_EVENTS)"
proof -
  let ?ch = "add_change fd old events EV_CHANGE_ADD"
  have "watched_events (wanted_interest ?ch) = (old OR events) AND IO_EVENTS"
    unfolding watched_wanted change_events_def IO_part by (auto simp: add_change_simps bit_or_iff)
  then show ?thesis using apply_one_change [of ?ch k] assms add_change_fine [OF assms(2)]
    by (auto simp: nochangelist_change add_change_simps fun_eq_iff)
qed

lemma backend_del:
  assumes "pollable fd" "events AND IO_EVENTS \<noteq> 0"
  shows "\<exists>k'. epoll_nochangelist_del ctl k fd old events = Done (0, k') \<and>
    (\<lambda>f. watched_events (interest k' f)) =
      (\<lambda>f. watched_events (interest k f))(fd := (old AND NOT events) AND IO_EVENTS)"
proof -
  let ?ch = "add_change fd old events EV_CHANGE_DEL"
  have "watched_events (wanted_interest ?ch) = (old AND NOT events) AND IO_EVENTS"
    unfolding watched_wanted change_events_def IO_part by (auto simp: add_change_simps bit_and_iff bit_not_iff)
  then show ?thesis using apply_one_change [of ?ch k] assms add_change_fine [OF assms(2)]
    by (auto simp: nochangelist_change add_change_simps fun_eq_iff)
qed

lemma backend_refused:
  assumes "\<not> pollable fd" "events AND IO_EVENTS \<noteq> 0"
  shows "epoll_nochangelist_add ctl k fd old events = Done (-1, k)"
proof -
  let ?ch = "add_change fd old events EV_CHANGE_ADD"
  obtain ev op where w: "op_wanted ?ch = (ev, op)" by fastforce
  have "wanted_events ?ch \<noteq> 0" using assms(2) unfolding IO_part io_mask_eq_0
    by (auto simp: wanted_events_def add_change_simps epoll_consts)
  with op_wanted_change [OF add_change_fine(1,2) [OF assms(2)] w] have "ev \<noteq> 0" "op \<noteq> EPOLL_CTL_DEL" by auto
  then show ?thesis using unpollable [OF assms(1)]
    by (auto simp: nochangelist_change epoll_apply_one_change_def epoll_op_table_wanted w Let_def add_change_simps)
qed

end

sublocale epoll_kernel \<subseteq> be: eventop "epoll_nochangelist_add ctl" "epoll_nochangelist_del ctl" "\<lambda>_. True"
  "\<lambda>k fd. watched_events (interest k fd)" pollable
  by unfold_locales (use backend_add backend_del backend_refused in auto)

section \<open>The backend with a changelist\<close>

text \<open>
  The members \<^verbatim>\<open>add\<close> and \<^verbatim>\<open>del\<close> of \<^verbatim>\<open>epollops_changelist\<close> only record the change. What the backend
  watches is then what the kernel watches once the changes are applied.
\<close>

definition epoll_changelist_add :: "(nat \<Rightarrow> bool) \<Rightarrow> 'k epollop \<Rightarrow> int \<Rightarrow> u16 \<Rightarrow> u16 \<Rightarrow> (int \<times> 'k epollop) outcome" where
  "epoll_changelist_add ok ep fd old events =
     bind_outcome (event_changelist_add ok (clist ep) fd old events (Io_fdinfo fd)) (\<lambda>(r, cl). Done (r, ep\<lparr>clist := cl\<rparr>))"

definition epoll_changelist_del :: "(nat \<Rightarrow> bool) \<Rightarrow> 'k epollop \<Rightarrow> int \<Rightarrow> u16 \<Rightarrow> u16 \<Rightarrow> (int \<times> 'k epollop) outcome" where
  "epoll_changelist_del ok ep fd old events =
     bind_outcome (event_changelist_del ok (clist ep) fd old events (Io_fdinfo fd)) (\<lambda>(r, cl). Done (r, ep\<lparr>clist := cl\<rparr>))"

definition epoll_wf :: "('k \<Rightarrow> int \<rightharpoonup> u32) \<Rightarrow> 'k epollop \<Rightarrow> bool" where
  "epoll_wf interest ep \<longleftrightarrow> changelist_ok (clist ep) \<and>
     (\<forall>fd ch. change_of (clist ep) fd = Some ch \<longrightarrow> old_events ch = watched_events (interest (kernel ep) fd))"

definition epoll_watch :: "('k \<Rightarrow> int \<rightharpoonup> u32) \<Rightarrow> 'k epollop \<Rightarrow> int \<Rightarrow> u16" where
  "epoll_watch interest ep fd =
     (case change_of (clist ep) fd of None \<Rightarrow> watched_events (interest (kernel ep) fd) | Some ch \<Rightarrow> change_events ch)"

lemma watched_signal: "\<not> bit (watched_events w) 3" "\<not> bit (change_events ch) 3"
  by (auto simp: watched_events_def change_events_def bit_io_mask split: option.splits)

lemma fresh_change_events: "change_events (fresh_change fd old) = old AND IO_EVENTS"
  by (simp add: change_events_def fresh_change_def IO_part)

text \<open>A change of one descriptor by a function that keeps what was enabled before.\<close>

lemma epoll_watch_step:
  assumes wf: "epoll_wf interest ep" and old: "epoll_watch interest ep fd = old"
    and cl: "changelist_ok cl" "change_of cl = (change_of (clist ep))(fd \<mapsto>
       f (case change_of (clist ep) fd of None \<Rightarrow> fresh_change fd old | Some ch \<Rightarrow> ch))"
    and f: "\<And>ch. change_ok ch \<Longrightarrow> old_events (f ch) = old_events ch \<and> change_events (f ch) = g (change_events ch)"
  shows "epoll_wf interest (ep\<lparr>clist := cl\<rparr>)" "epoll_watch interest (ep\<lparr>clist := cl\<rparr>) = (epoll_watch interest ep)(fd := g old)"
proof -
  define ch where "ch = (case change_of (clist ep) fd of None \<Rightarrow> fresh_change fd old | Some ch \<Rightarrow> ch)"
  have ch: "change_ok ch \<and> old_events ch = watched_events (interest (kernel ep) fd) \<and> change_events ch = old"
  proof (cases "change_of (clist ep) fd")
    case None
    then have o: "old = watched_events (interest (kernel ep) fd)" using old by (simp add: epoll_watch_def)
    then have "change_ok (fresh_change fd old)" using watched_signal(1) by (simp add: change_ok_def fresh_change_def)
    moreover have "change_events (fresh_change fd old) = old" unfolding fresh_change_events o by simp
    ultimately show ?thesis using None o by (simp add: ch_def fresh_change_def)
  next
    case (Some c)
    then show ?thesis using old wf change_of_Some(5) [OF _ Some] by (auto simp: ch_def epoll_watch_def epoll_wf_def)
  qed
  note fc = f [OF conjunct1 [OF ch]]
  show "epoll_wf interest (ep\<lparr>clist := cl\<rparr>)"
    using wf cl ch fc unfolding epoll_wf_def ch_def [symmetric] by auto
  show "epoll_watch interest (ep\<lparr>clist := cl\<rparr>) = (epoll_watch interest ep)(fd := g old)"
    using cl(2) ch fc unfolding epoll_watch_def ch_def [symmetric] by (auto simp: fun_eq_iff split: option.splits)
qed

lemma epoll_watch_signal: "epoll_watch interest ep fd = old \<Longrightarrow> \<not> bit old 3"
  using watched_signal by (auto simp: epoll_watch_def split: option.splits)

lemma changelist_backend_add:
  assumes wf: "epoll_wf interest ep" and old: "epoll_watch interest ep fd = old" and ev: "\<not> has events EV_SIGNAL"
  shows "\<exists>ep'. epoll_changelist_add (\<lambda>_. True) ep fd old events = Done (0, ep') \<and> epoll_wf interest ep' \<and>
    epoll_watch interest ep' = (epoll_watch interest ep)(fd := (old OR events) AND IO_EVENTS)"
proof -
  have e3: "\<not> bit events 3" using ev by simp
  obtain cl where a: "event_changelist_add (\<lambda>_. True) (clist ep) fd old events (Io_fdinfo fd) = Done (0, cl)"
    "changelist_ok cl" "change_of cl = (change_of (clist ep))(fd \<mapsto>
       change_add events (case change_of (clist ep) fd of None \<Rightarrow> fresh_change fd old | Some ch \<Rightarrow> ch))"
    using changelist_add_ok [OF _ epoll_watch_signal [OF old] e3, of "clist ep" "\<lambda>_. True" fd] wf
    by (auto simp: epoll_wf_def)
  have "old_events (change_add events ch) = old_events ch \<and>
      change_events (change_add events ch) = (change_events ch OR events) AND IO_EVENTS" for ch
    using change_add_events(2,4) [OF e3] by blast
  note epoll_watch_step [OF wf old a(2,3) this]
  then show ?thesis using a(1) by (simp add: epoll_changelist_add_def)
qed

lemma changelist_backend_del:
  assumes wf: "epoll_wf interest ep" and old: "epoll_watch interest ep fd = old" and ev: "\<not> has events EV_SIGNAL"
  shows "\<exists>ep'. epoll_changelist_del (\<lambda>_. True) ep fd old events = Done (0, ep') \<and> epoll_wf interest ep' \<and>
    epoll_watch interest ep' = (epoll_watch interest ep)(fd := (old AND NOT events) AND IO_EVENTS)"
proof -
  have e3: "\<not> bit events 3" using ev by simp
  obtain cl where a: "event_changelist_del (\<lambda>_. True) (clist ep) fd old events (Io_fdinfo fd) = Done (0, cl)"
    "changelist_ok cl" "change_of cl = (change_of (clist ep))(fd \<mapsto>
       change_del events (case change_of (clist ep) fd of None \<Rightarrow> fresh_change fd old | Some ch \<Rightarrow> ch))"
    using changelist_del_ok [OF _ epoll_watch_signal [OF old] e3, of "clist ep" "\<lambda>_. True" fd] wf
    by (auto simp: epoll_wf_def)
  have "change_ok ch \<Longrightarrow> old_events (change_del events ch) = old_events ch \<and>
      change_events (change_del events ch) = (change_events ch AND NOT events) AND IO_EVENTS" for ch
    using change_del_events(2,4) [OF e3] by blast
  note epoll_watch_step [OF wf old a(2,3) this]
  then show ?thesis using a(1) by (simp add: epoll_changelist_del_def)
qed

interpretation clep: eventop "epoll_changelist_add (\<lambda>_. True)" "epoll_changelist_del (\<lambda>_. True)" "epoll_wf interest"
  "epoll_watch interest" "\<lambda>_. True" for interest
  by unfold_locales ((rule changelist_backend_add; assumption), simp, (rule changelist_backend_del; assumption))

text \<open>The changes of a consistent list concern different descriptors.\<close>

lemma changelist_ok_distinct:
  assumes "changelist_ok cl"
  shows "distinct (map ch_fd (changes cl))" "map_of (map (\<lambda>ch. (ch_fd ch, ch)) (changes cl)) = change_of cl"
    "ch \<in> set (changes cl) \<Longrightarrow> change_of cl (ch_fd ch) = Some ch \<and> \<not> contradictory ch"
proof -
  have c: "change_ok (changes cl ! i) \<and> idxplus1 cl (Io_fdinfo (ch_fd (changes cl ! i))) = i + 1" if "i < length (changes cl)" for i
    using assms that by (simp add: changelist_ok_def)
  show d: "distinct (map ch_fd (changes cl))"
    unfolding distinct_conv_nth using c by (metis add_right_cancel length_map nth_map)
  have m: "change_of cl (ch_fd ch) = Some ch" if "ch \<in> set (changes cl)" for ch
    using that c by (auto simp: in_set_conv_nth change_of_def)
  show "map_of (map (\<lambda>ch. (ch_fd ch, ch)) (changes cl)) = change_of cl"
  proof
    fix fd
    show "map_of (map (\<lambda>ch. (ch_fd ch, ch)) (changes cl)) fd = change_of cl fd"
    proof (cases "change_of cl fd")
      case None
      then show ?thesis using m by (fastforce simp: map_of_eq_None_iff)
    next
      case (Some ch)
      note s = change_of_Some [OF assms Some]
      then have "ch \<in> set (changes cl)" using nth_mem by blast
      then show ?thesis using d s(4) Some by (auto intro!: map_of_is_SomeI simp: comp_def image_iff)
    qed
  qed
  show "change_of cl (ch_fd ch) = Some ch \<and> \<not> contradictory ch" if "ch \<in> set (changes cl)"
    using m [OF that] that c by (auto simp: in_set_conv_nth change_ok_def contradictory_def)
qed

context epoll_kernel
begin

lemma apply_changelist:
  assumes "epoll_wf interest ep" "\<forall>ch \<in> set (changes (clist ep)). pollable (ch_fd ch)"
  shows "\<exists>k'. epoll_apply_changes ctl (kernel ep) (changes (clist ep)) = Done (0, k') \<and>
    (\<forall>fd. watched_events (interest k' fd) = epoll_watch interest ep fd)"
proof -
  have ok: "changelist_ok (clist ep)" using assms(1) by (simp add: epoll_wf_def)
  note d = changelist_ok_distinct [OF ok]
  have "\<forall>ch \<in> set (changes (clist ep)). pollable (ch_fd ch) \<and> \<not> contradictory ch \<and>
      old_events ch = watched_events (interest (kernel ep) (ch_fd ch))"
    using assms d(3) by (auto simp: epoll_wf_def)
  from apply_changes [OF this d(1), of 0] show ?thesis
    by (simp add: epoll_apply_changes_def epoll_watch_def d(2))
qed

end

section \<open>A kernel that behaves as documented\<close>

text \<open>
  The laws can be met: a kernel state that is the interest list itself, and an \<^verbatim>\<open>epoll_ctl\<close> that
  answers as the manual page says.
\<close>

definition doc_ctl :: "(int \<Rightarrow> bool) \<Rightarrow> (int \<rightharpoonup> u32) ctl" where
  "doc_ctl pollable k op fd ev =
     (if \<not> pollable fd then (Some EPERM, k)
      else if op = EPOLL_CTL_ADD then (if k fd = None then (None, k(fd \<mapsto> ev)) else (Some EEXIST, k))
      else if op = EPOLL_CTL_MOD then (if k fd = None then (Some ENOENT, k) else (None, k(fd \<mapsto> ev)))
      else if op = EPOLL_CTL_DEL then (if k fd = None then (Some ENOENT, k) else (None, k(fd := None)))
      else (Some EOTHER, k))"

interpretation docep: epoll_kernel "doc_ctl pollable" "\<lambda>k. k" pollable for pollable
  by unfold_locales (auto simp: doc_ctl_def epoll_consts)

section \<open>Properties\<close>

text \<open>
  C7. The 512-entry table of \<^verbatim>\<open>epolltable-internal.h\<close> has, for every change that does not add and delete
  the same event at once, the operation and the events of the rule it was generated from, which for changes that do not concern
  the closing of the other side is the pseudocode of the header, word for word. For a change that adds and
  deletes at once the pseudocode asks for the operation -1 and no events; the table has the operation 255 there and no events.
\<close>

theorem epoll_table_matches_rule:
  "(if contradictory ch then op_rule ch = (0, -1) \<and> epoll_op_table ! EPOLL_OP_TABLE_INDEX ch = (0, 255)
    else epoll_op_table ! EPOLL_OP_TABLE_INDEX ch = op_rule ch) \<and>
   (if bit (close_change ch) 0 \<or> bit (close_change ch) 1 \<or> bit (old_events ch) 7 then True
    else op_rule ch = op_comment (bit (read_change ch) 0) (bit (read_change ch) 1) (bit (write_change ch) 0) (bit (write_change ch) 1)
      (bit (old_events ch) 1) (bit (old_events ch) 2))"
  by (intro conjI) (simp add: epoll_op_table_wanted op_wanted_fine op_wanted_contradictory op_rule_contradictory,
    simp add: op_rule_def op_pseudocode_comment)

text \<open>
  C8. Applying a change to a documented kernel leaves exactly the wanted events registered for the
  descriptor, even when the kernel's knowledge of it is out of date (it was closed and reopened): a
  failed modification is retried as an addition and the other way round.
\<close>

theorem epoll_change_registers_wanted:
  assumes "epoll_kernel ctl interest pollable" "pollable (ch_fd ch)" "\<not> contradictory ch" "\<not> no_change ch"
  shows "\<exists>k'. epoll_apply_one_change ctl k ch = Done (0, k') \<and>
    interest k' = (interest k)(ch_fd ch := wanted_interest ch)"
  using epoll_kernel.apply_one_change [OF assms] .

text \<open>Changing the watch on descriptor 5 from reading to reading and writing, after a reopen.\<close>

definition sample_change :: event_change where
  "sample_change = \<lparr>ch_fd = 5, old_events = EV_READ, read_change = 0, write_change = EV_CHANGE_ADD, close_change = 0\<rparr>"

lemma sample_change_fine: "\<not> contradictory sample_change" "\<not> no_change sample_change"
    "wanted_interest sample_change = Some (EPOLLIN OR EPOLLOUT)"
  by (auto simp: sample_change_def contradictory_def no_change_def wanted_interest_def wanted_events_def edge_def
      epoll_consts EV_CHANGE_ADD_def EV_CHANGE_ET_def)

theorem epoll_change_registers_wanted_witness:
  "epoll_apply_one_change (doc_ctl (\<lambda>_. True)) Map.empty sample_change = Done (0, [5 \<mapsto> EPOLLIN OR EPOLLOUT])"
  using epoll_change_registers_wanted [OF docep.epoll_kernel_axioms [of "\<lambda>_. True"] _ sample_change_fine(1,2),
      of Map.empty] sample_change_fine(3)
  by (simp add: sample_change_def)

text \<open>
  A dispatch reports, for every event the kernel delivers, the matching library events together
  with \<^verbatim>\<open>EV_ET\<close>, in order, skips the ones that carry nothing, empties the changelist, and grows the
  event array only by doubling, up to 4096 entries.
\<close>

theorem epoll_dispatch_reports:
  assumes "epoll_kernel ctl interest pollable" "epoll_wf interest ep"
    "\<forall>ch \<in> set (changes (clist ep)). pollable (ch_fd ch)"
    "\<And>k t. wait k (nevents ep) t = (Events evs, k)" "length evs \<le> nevents ep" "nevents ep \<le> MAX_NEVENT"
    "\<exists>i. nevents ep = INITIAL_NEVENT * 2 ^ i"
  shows "\<exists>ep'. epoll_dispatch ctl wait ok ep tv = Done (0, epoll_activations evs, ep') \<and>
    epoll_wf interest ep' \<and> changes (clist ep') = [] \<and>
    (\<forall>fd. watched_events (interest (kernel ep') fd) = epoll_watch interest ep fd) \<and>
    nevents ep \<le> nevents ep' \<and> nevents ep' \<le> MAX_NEVENT"
proof -
  obtain i where i: "nevents ep = INITIAL_NEVENT * 2 ^ i" using assms(7) by blast
  have dbl: "nevents ep * 2 \<le> MAX_NEVENT" if "nevents ep < MAX_NEVENT"
  proof -
    have "(2::nat) ^ (i + 5) < 2 ^ 12" using that i by (simp add: MAX_NEVENT_def INITIAL_NEVENT_def power_add)
    then have "i + 5 < 12" using power_less_imp_less_exp one_less_numeral_iff semiring_norm(76) by blast
    then have "(2::nat) ^ (i + 6) \<le> 2 ^ 12" by (intro power_increasing) simp_all
    then show ?thesis using i by (simp add: MAX_NEVENT_def INITIAL_NEVENT_def power_add)
  qed
  from epoll_kernel.apply_changelist [OF assms(1-3)] obtain k' where
    "epoll_apply_changes ctl (kernel ep) (changes (clist ep)) = Done (0, k')"
    "\<forall>fd. watched_events (interest k' fd) = epoll_watch interest ep fd" by blast
  then show ?thesis using assms(2,4-6) dbl changelist_remove_all_ok [of "clist ep"]
    by (auto simp: epoll_dispatch_def epoll_grow_def epoll_wf_def)
qed

definition sample_clist :: changelist where
  "sample_clist = \<lparr>changes = [sample_change], changes_size = 64, idxplus1 = (\<lambda>_. 0)(Io_fdinfo 5 := 1)\<rparr>"

theorem epoll_dispatch_reports_witness:
  "\<exists>ep'. epoll_dispatch (doc_ctl (\<lambda>_. True)) (\<lambda>k n t. (Events [(5, EPOLLIN)], k)) (\<lambda>_. True)
      \<lparr>kernel = [5 \<mapsto> EPOLLIN], nevents = 32, clist = sample_clist\<rparr> None = Done (0, [(5, EV_READ OR EV_ET)], ep') \<and>
    changes (clist ep') = []"
proof -
  have a: "epoll_activations [(5, EPOLLIN)] = [(5, EV_READ OR EV_ET)]"
    by (simp add: epoll_activations_def epoll_what_to_ev_def epoll_consts EPOLLHUP_def EPOLLERR_def EV_READ_def)
  let ?ep = "\<lparr>kernel = [5 \<mapsto> EPOLLIN], nevents = 32, clist = sample_clist\<rparr>"
  have "epoll_wf (\<lambda>k. k) ?ep"
    by (auto simp: epoll_wf_def sample_clist_def sample_change_def changelist_ok_def change_ok_def change_of_def
        watched_events_def io_mask_def epoll_consts EV_CHANGE_ADD_def)
  from epoll_dispatch_reports [OF docep.epoll_kernel_axioms this,
      of "\<lambda>_. True" "\<lambda>k n t. (Events [(5, EPOLLIN)], k)" "[(5, EPOLLIN)]" "\<lambda>_. True" None] a show ?thesis
    by (auto simp: MAX_NEVENT_def INITIAL_NEVENT_def exI [of _ 0])
qed

end
