(* ===== verification/Evmap_Epoll.thy ===== *)
theory Evmap_Epoll
  imports Evmap Epoll
begin

text \<open>
  The maps of \<^verbatim>\<open>src/evmap.c\<close> on top of the epoll backend of \<^verbatim>\<open>src/epoll.c\<close>, with and without the
  changelist: the kernel watches, on every descriptor, the union of what the registered events wait for.
\<close>

definition epollops :: "'k ctl \<Rightarrow> 'k eventop_ops" where
  "epollops ctl = \<lparr>op_add = epoll_nochangelist_add ctl, op_del = epoll_nochangelist_del ctl, fdinfo_len = 0\<rparr>"

definition epollops_changelist :: "(nat \<Rightarrow> bool) \<Rightarrow> 'k epollop eventop_ops" where
  "epollops_changelist ok = \<lparr>op_add = epoll_changelist_add ok, op_del = epoll_changelist_del ok, fdinfo_len = 4\<rparr>"

lemma epollops_simps [simp]:
  "op_add (epollops ctl) = epoll_nochangelist_add ctl" "op_del (epollops ctl) = epoll_nochangelist_del ctl"
  "op_add (epollops_changelist ok) = epoll_changelist_add ok" "op_del (epollops_changelist ok) = epoll_changelist_del ok"
  by (simp_all add: epollops_def epollops_changelist_def)

text \<open>What it means that the kernel watches the registered events, for the two backends.\<close>

abbreviation epoll_inv :: "('k \<Rightarrow> int \<rightharpoonup> u32) \<Rightarrow> (int \<Rightarrow> bool) \<Rightarrow> ('k, 'z) evmap_base_scheme \<Rightarrow> bool" where
  "epoll_inv interest pollable \<equiv> evmap_io_inv (\<lambda>_. True) (\<lambda>k fd. watched_events (interest k fd)) pollable"

abbreviation epoll_changelist_inv :: "('k \<Rightarrow> int \<rightharpoonup> u32) \<Rightarrow> ('k epollop, 'z) evmap_base_scheme \<Rightarrow> bool" where
  "epoll_changelist_inv interest \<equiv> evmap_io_inv (epoll_wf interest) (epoll_watch interest) (\<lambda>_. True)"

context epoll_kernel
begin

lemmas io_add_epoll = be.io_add [OF _ epollops_simps(1)]
lemmas io_add_epoll_or_refused = be.io_add_or_refused [OF _ epollops_simps(1)]
  and io_del_epoll = be.io_del [OF _ epollops_simps(2)]

end

lemmas io_add_changelist = eventop.io_add [OF clep.eventop_axioms _ epollops_simps(3)]
  and io_del_changelist = eventop.io_del [OF clep.eventop_axioms _ epollops_simps(4)]

section \<open>The two backends side by side\<close>


text \<open>
  The calls \<^verbatim>\<open>event.c\<close> makes: an event is added only while it is not registered and deleted only while it
  is (the flag \<^verbatim>\<open>EVLIST_INSERTED\<close>). A sequence of calls collects the return values.
\<close>

datatype io_call = Add_io (call_ev: nat) | Del_io (call_ev: nat)

definition evmap_io_call ::
  "bool \<Rightarrow> (nat \<Rightarrow> bool) \<Rightarrow> 'k eventop_ops \<Rightarrow> 'k evmap_base \<Rightarrow> io_call \<Rightarrow> (int \<times> 'k evmap_base) outcome" where
  "evmap_io_call debug ok evsel b c =
     (let fd = ev_fd (evs b (call_ev c)) in
      case c of
        Add_io ev \<Rightarrow> if ev \<in> set (io_list b fd) then Done (0, b) else evmap_io_add debug ok evsel b fd ev
      | Del_io ev \<Rightarrow> if ev \<in> set (io_list b fd) then evmap_io_del evsel b fd ev else Done (0, b))"

fun evmap_io_calls ::
  "bool \<Rightarrow> (nat \<Rightarrow> bool) \<Rightarrow> 'k eventop_ops \<Rightarrow> io_call list \<Rightarrow> 'k evmap_base \<Rightarrow> (int list \<times> 'k evmap_base) outcome" where
  "evmap_io_calls debug ok evsel [] b = Done ([], b)"
| "evmap_io_calls debug ok evsel (c # cs) b =
     bind_outcome (evmap_io_call debug ok evsel b c) (\<lambda>(r, b1).
       bind_outcome (evmap_io_calls debug ok evsel cs b1) (\<lambda>(rs, b2). Done (r # rs, b2)))"

text \<open>The same maps over different backends.\<close>

definition same_map :: "'j evmap_base \<Rightarrow> 'k evmap_base \<Rightarrow> bool" where
  "same_map b c \<longleftrightarrow> evs b = evs c \<and> io b = io c \<and> sigmap b = sigmap c"

lemma same_map_io_list: "same_map b c \<Longrightarrow> io_list b = io_list c"
  by (simp add: same_map_def io_list_def fun_eq_iff)

text \<open>An event that can be registered.\<close>

definition io_event_ok :: "(int \<Rightarrow> bool) \<Rightarrow> event \<Rightarrow> bool" where
  "io_event_ok pollable e \<longleftrightarrow> 0 \<le> ev_fd e \<and> pollable (ev_fd e) \<and> \<not> has (ev_events e) EV_SIGNAL \<and> ev_events e AND IO_EVENTS \<noteq> 0"

text \<open>A backend accepts what the map tells it about a descriptor it can poll.\<close>

definition op_accepts :: "('k \<Rightarrow> int \<Rightarrow> u16 \<Rightarrow> u16 \<Rightarrow> (int \<times> 'k) outcome) \<Rightarrow> 'k evmap_base \<Rightarrow> int \<Rightarrow> bool" where
  "op_accepts oper b fd \<longleftrightarrow> (\<forall>events. events AND IO_EVENTS \<noteq> 0 \<longrightarrow> \<not> has events EV_SIGNAL \<longrightarrow>
     (\<exists>k. oper (backend b) fd (union_events (evs b) (io_list b fd)) events = Done (0, k)))"

context eventop
begin

lemma accepts:
  assumes "evmap_io_inv bwf watch pollable b" "pollable fd"
  shows "op_accepts badd b fd" "op_accepts bdel b fd"
  using assms badd_ok [of "backend b" fd "union_events (evs b) (io_list b fd)"]
    bdel_ok [of "backend b" fd "union_events (evs b) (io_list b fd)"]
  unfolding op_accepts_def evmap_io_inv_def by blast+

end

context epoll_kernel
begin

lemmas backend_accepts = be.accepts

end

lemma io_register_same:
  assumes eq: "same_map b c" and cok: "io_ctx_ok (evs b) slot ctx" and ev: "ev_fd (evs b ev) = fd"
    and u: "old_io_events ctx = union_events (evs b) (io_list b0 fd)" "backend b = backend b0" "evs b = evs b0"
      "old_io_events ctx = union_events (evs c) (io_list c0 fd)" "backend c = backend c0" "evs c = evs c0"
    and acc: "op_accepts (op_add s) b0 fd" "op_accepts (op_add t) c0 fd"
  shows "\<exists>r b' c'. evmap_io_register debug s b slot ev ctx = Done (r, b') \<and>
    evmap_io_register debug t c slot ev ctx = Done (r, c') \<and> same_map b' c'"
proof -
  let ?e = "ev_events (evs b ev)"
  define up where "up = evmap_io_count_up ctx ?e"
  define res where "res = io_mask (has ?e EV_READ \<and> nread up = 1) (has ?e EV_WRITE \<and> nwrite up = 1)
    (has ?e EV_CLOSED \<and> nclose up = 1)"
  note ne = io_ctx_new_events(2,4) [OF cok up_def res_def]
  have "res \<noteq> 0 \<Longrightarrow> \<exists>k. op_add s (backend b) fd (old_io_events ctx) (?e AND EV_ET OR res) = Done (0, k)"
    "res \<noteq> 0 \<Longrightarrow> \<exists>k. op_add t (backend c) fd (old_io_events ctx) (?e AND EV_ET OR res) = Done (0, k)"
    using acc ne u unfolding op_accepts_def by (metis, metis)
  moreover have e: "evs c = evs b" "io c = io b" "sigmap c = sigmap b" using eq by (simp_all add: same_map_def)
  ultimately show ?thesis
    unfolding evmap_io_register_def Let_def e(1) ev up_def [symmetric] res_def [symmetric]
    by (cases "res = 0") (auto simp: same_map_def e simp del: bind_outcome_eq_Done)
qed

lemma get_slot_bytes:
  "\<forall>n. ok n \<Longrightarrow> GET_SLOT_AND_CTOR ok x ctor m slot =
     (if m ! slot = None then Some (m[slot := Some ctor]) else Some m)"
  by (simp add: GET_SLOT_AND_CTOR_def)

lemma io_add_same:
  assumes eq: "same_map b c" and ok: "\<forall>n. ok n" and m: "io_map_ok (evs b) (io b)" and ev: "ev_fd (evs b ev) = fd" "0 \<le> fd"
    and acc: "op_accepts (op_add s) b fd" "op_accepts (op_add t) c fd"
  shows "\<exists>r b' c'. evmap_io_add debug ok s b fd ev = Done (r, b') \<and>
    evmap_io_add debug ok t c fd ev = Done (r, c') \<and> same_map b' c'"
proof -
  have e: "evs c = evs b" "io c = io b" "sigmap c = sigmap b" using eq by (simp_all add: same_map_def)
  obtain r m1 where sp: "(if nat fd \<ge> length (io b) then evmap_make_space ok (io b) (nat fd) 8 else (0, io b)) = (r, m1)"
    by (cases "if nat fd \<ge> length (io b) then evmap_make_space ok (io b) (nat fd) 8 else (0, io b)") auto
  define m2 where "m2 = (if m1 ! nat fd = None then m1[nat fd := Some evmap_io_init] else m1)"
  have unf: "evmap_io_add debug ok s b fd ev = (if r = -1 then Done (-1, b)
      else evmap_io_register debug s (b\<lparr>io := m2\<rparr>) (nat fd) ev (the (m2 ! nat fd)))"
    "evmap_io_add debug ok t c fd ev = (if r = -1 then Done (-1, c)
      else evmap_io_register debug t (c\<lparr>io := m2\<rparr>) (nat fd) ev (the (m2 ! nat fd)))"
    unfolding evmap_io_add_def Let_def e sp get_slot_bytes [OF ok] m2_def using ev by simp_all
  show ?thesis
  proof (cases "r = -1")
    case True
    then show ?thesis using unf eq by simp
  next
    case False
    have m1: "nat fd < length m1" "\<exists>k. m1 = io b @ replicate k None"
      using sp evmap_make_space_ok [of ok "io b" "nat fd" 8 r m1] False by (auto split: if_splits intro: exI [of _ 0])
    have "GET_SLOT_AND_CTOR ok 0 evmap_io_init m1 (nat fd) = Some m2"
      unfolding get_slot_bytes [OF ok] m2_def by simp
    from get_slot_ok [OF this m1(1), of io_events] obtain ctx where
      g: "length m2 = length m1" "slot_list io_events m2 = slot_list io_events m1" "m2 ! nat fd = Some ctx"
      by (auto simp: evmap_io_init_def)
    have l: "slot_list io_events m2 fd = io_list b fd" "io_list c fd = io_list b fd"
      using m1(2) g(2) by (auto simp: io_list_def slot_list_append e)
    have "io_map_ok (evs b) m1" using m1(2) m by (auto simp: io_map_ok_append)
    then have "io_map_ok (evs b) m2" unfolding m2_def by (auto intro: io_map_ok_update io_ctx_init)
    then have cok: "io_ctx_ok (evs b) (nat fd) ctx" using g m1(1) by (auto dest: io_map_okD)
    have "io_events ctx = io_list b fd" using l(1) g(1,3) m1(1) ev(2) slot_list_Some [of "nat fd" m2 ctx io_events] by simp
    then have "old_io_events ctx = union_events (evs b) (io_list b fd)" using old_io_events_union [OF cok] by simp
    from io_register_same [of "b\<lparr>io := m2\<rparr>" "c\<lparr>io := m2\<rparr>" "nat fd" ctx ev fd b c s t debug] this cok eq ev acc l e
    show ?thesis using unf False g(3) by (simp add: same_map_def)
  qed
qed

lemma io_del_unfold:
  assumes "ev_fd (evs b ev) = fd" "\<not> fd < 0" "\<not> length (io b) \<le> nat fd" "io b ! nat fd = Some ctx"
    "\<not> (has (ev_events (evs b ev)) EV_READ \<and> nread ctx = 0 \<or> has (ev_events (evs b ev)) EV_WRITE \<and> nwrite ctx = 0 \<or>
      has (ev_events (evs b ev)) EV_CLOSED \<and> nclose ctx = 0 \<or> ev \<notin> set (io_events ctx))"
    "down = evmap_io_count_down ctx (ev_events (evs b ev))"
    "res = io_mask (has (ev_events (evs b ev)) EV_READ \<and> nread down = 0)
       (has (ev_events (evs b ev)) EV_WRITE \<and> nwrite down = 0) (has (ev_events (evs b ev)) EV_CLOSED \<and> nclose down = 0)"
    "b1 = b\<lparr>io := (io b)[nat fd := Some (down\<lparr>io_events := remove1 ev (io_events ctx)\<rparr>)]\<rparr>"
  shows "evmap_io_del s b fd ev =
    (if res \<noteq> 0 then bind_outcome (op_del s (backend b) fd (old_io_events ctx) ((ev_events (evs b ev) AND EV_ET) OR res))
       (\<lambda>(q, k). Done (if q = -1 then -1 else 1, b1\<lparr>backend := k\<rparr>))
     else Done (0, b1))"
  unfolding evmap_io_del_def Let_def
  by (simp only: assms(1-4) option.case assms(6-8) [symmetric] assms(5) if_False simp_thms)

lemma io_del_same:
  assumes eq: "same_map b c" and m: "io_map_ok (evs b) (io b)" and ev: "ev_fd (evs b ev) = fd" "0 \<le> fd" "ev \<in> set (io_list b fd)"
    and acc: "op_accepts (op_del s) b fd" "op_accepts (op_del t) c fd"
  shows "\<exists>r b' c'. evmap_io_del s b fd ev = Done (r, b') \<and> evmap_io_del t c fd ev = Done (r, c') \<and> same_map b' c'"
proof -
  have e: "evs c = evs b" "io c = io b" "sigmap c = sigmap b" using eq by (simp_all add: same_map_def)
  from ev(3) obtain ctx where sl: "nat fd < length (io b)" "io b ! nat fd = Some ctx" "io_events ctx = io_list b fd"
    unfolding io_list_def by (rule slot_listE) auto
  let ?e = "ev_events (evs b ev)"
  have cok: "io_ctx_ok (evs b) (nat fd) ctx" using m sl by (auto dest: io_map_okD)
  define down where "down = evmap_io_count_down ctx ?e"
  define res where "res = io_mask (has ?e EV_READ \<and> nread down = 0) (has ?e EV_WRITE \<and> nwrite down = 0)
    (has ?e EV_CLOSED \<and> nclose down = 0)"
  have mem: "ev \<in> set (io_events ctx)" using sl ev by simp
  note d = io_ctx_down(1,4,6) [OF cok mem down_def res_def]
  have u: "old_io_events ctx = union_events (evs b) (io_list b fd)" "io_list c fd = io_list b fd"
    using old_io_events_union [OF cok] sl(3) same_map_io_list [OF eq] by simp_all
  have "res \<noteq> 0 \<Longrightarrow> \<exists>k. op_del s (backend b) fd (old_io_events ctx) (?e AND EV_ET OR res) = Done (0, k)"
    "res \<noteq> 0 \<Longrightarrow> \<exists>k. op_del t (backend c) fd (old_io_events ctx) (?e AND EV_ET OR res) = Done (0, k)"
    using acc d(2,3) u e unfolding op_accepts_def by (metis, metis)
  moreover have nf: "\<not> fd < 0" "\<not> length (io b) \<le> nat fd" using ev(2) sl(1) by simp_all
  ultimately show ?thesis
    using io_del_unfold [OF ev(1) nf sl(2) d(1) down_def res_def refl, of s]
      io_del_unfold [of c ev fd ctx down res, unfolded e, OF ev(1) nf sl(2) d(1) down_def res_def refl, of t]
    by (cases "res = 0") (auto simp: same_map_def e simp del: bind_outcome_eq_Done)
qed

text \<open>What an operation of the map does to the backend, it does through the operation of the backend.\<close>

lemma register_backend:
  assumes "(if A then Done (-1, b) else if B then Done (-1, b)
    else if Q then bind_outcome (f (backend b) fd old events)
      (\<lambda>(q, k). if q = -1 then Done (-1, b\<lparr>backend := k\<rparr>) else Done (1, b\<lparr>io := m\<rparr>\<lparr>backend := k\<rparr>))
    else Done (0, b\<lparr>io := m\<rparr>)) = Done (r, b')"
  shows "evs b' = evs b \<and> (backend b' = backend b \<or> (\<exists>q old events. f (backend b) fd old events = Done (q, backend b')))"
  using assms by (auto split: if_splits)

lemma io_register_backend:
  assumes "evmap_io_register debug s b slot ev ctx = Done (r, b')"
  shows "evs b' = evs b \<and>
    (backend b' = backend b \<or> (\<exists>q old events. op_add s (backend b) (ev_fd (evs b ev)) old events = Done (q, backend b')))"
  by (rule register_backend [where f = "op_add s" and fd = "ev_fd (evs b ev)", OF assms [unfolded evmap_io_register_def Let_def]])

lemma io_add_backend:
  assumes "evmap_io_add debug ok s b fd ev = Done (r, b')"
  shows "evs b' = evs b \<and> (backend b' = backend b \<or> (\<exists>q old events. op_add s (backend b) fd old events = Done (q, backend b')))"
  using assms unfolding evmap_io_add_def Let_def
  by (auto split: if_splits option.splits prod.splits dest: io_register_backend)

lemma delete_backend:
  assumes "(if A then Done (0, b) else if fd \<noteq> fd' then Aborted else if C then Done (-1, b)
    else case sl of None \<Rightarrow> Aborted
      | Some ctx \<Rightarrow> if D ctx then Aborted
         else if Q ctx then bind_outcome (f (backend b) fd' (old ctx) (events ctx))
           (\<lambda>(q, k). Done (if q = -1 then -1 else 1, b\<lparr>io := m ctx\<rparr>\<lparr>backend := k\<rparr>))
         else Done (0, b\<lparr>io := m ctx\<rparr>)) = Done (r, b')"
  shows "evs b' = evs b \<and> (backend b' = backend b \<or> (\<exists>q old events. f (backend b) fd old events = Done (q, backend b')))"
  using assms by (auto split: if_splits option.splits)

lemma io_del_backend:
  assumes "evmap_io_del s b fd ev = Done (r, b')"
  shows "evs b' = evs b \<and> (backend b' = backend b \<or> (\<exists>q old events. op_del s (backend b) fd old events = Done (q, backend b')))"
  by (rule delete_backend [where f = "op_del s" and fd = fd and fd' = "ev_fd (evs b ev)", OF assms [unfolded evmap_io_del_def Let_def]])

text \<open>The changelist backend leaves the kernel alone, forgets no descriptor and records no other one.\<close>

definition only_collects :: "int \<Rightarrow> 'k epollop \<Rightarrow> 'k epollop \<Rightarrow> bool" where
  "only_collects fd ep ep' \<longleftrightarrow> kernel ep' = kernel ep \<and>
     ch_fd ` set (changes (clist ep)) \<subseteq> ch_fd ` set (changes (clist ep')) \<and>
     ch_fd ` set (changes (clist ep')) \<subseteq> insert fd (ch_fd ` set (changes (clist ep)))"

lemma get_or_construct_collects:
  assumes "event_changelist_get_or_construct ok cl fd old p = Done (c, cl')"
  shows "ch_fd ` set (changes cl) \<subseteq> ch_fd ` set (changes cl') \<and>
    ch_fd ` set (changes cl') \<subseteq> insert fd (ch_fd ` set (changes cl))"
  using assms by (auto simp: event_changelist_get_or_construct_def event_changelist_grow_def Let_def split: if_splits)

lemma ch_fd_update:
  assumes "\<And>ch. ch_fd (f ch) = ch_fd ch"
  shows "ch_fd ` set (xs[i := f (xs ! i)]) = ch_fd ` set xs"
proof -
  have "map ch_fd (xs[i := f (xs ! i)]) = map ch_fd xs"
    using assms by (cases "i < length xs") (simp_all add: map_update list_update_beyond list_update_same_conv)
  then show ?thesis by (metis list.set_map)
qed

lemma change_fd: "ch_fd (change_add events ch) = ch_fd ch" "ch_fd (change_del events ch) = ch_fd ch"
  by (simp_all add: change_add_def change_del_def Let_def)

lemma collected:
  assumes g: "event_changelist_get_or_construct ok (clist ep) fd old p = Done (c, cl)"
    and f: "\<And>ch. ch_fd (f ch) = ch_fd ch"
    and ep: "ep' = ep\<lparr>clist := cl\<rparr> \<or> ep' = ep\<lparr>clist := cl\<lparr>changes := (changes cl)[i := f (changes cl ! i)]\<rparr>\<rparr>"
  shows "only_collects fd ep ep'"
  using get_or_construct_collects [OF g] ch_fd_update [of f "changes cl" i, OF f] ep unfolding only_collects_def
  by (elim disjE) simp_all

lemma changelist_add_collects:
  assumes "epoll_changelist_add ok ep fd old events = Done (r, ep')"
  shows "only_collects fd ep ep'"
proof -
  note d = epoll_changelist_add_def event_changelist_add_def
  from assms obtain c cl where g: "event_changelist_get_or_construct ok (clist ep) fd old (Io_fdinfo fd) = Done (c, cl)"
    by (cases "event_changelist_get_or_construct ok (clist ep) fd old (Io_fdinfo fd)") (auto simp: d)
  show ?thesis using assms
    by (cases c) (auto simp: d g intro: collected [OF g change_fd(1)])
qed

lemma changelist_del_collects:
  assumes "epoll_changelist_del ok ep fd old events = Done (r, ep')"
  shows "only_collects fd ep ep'"
proof -
  note d = epoll_changelist_del_def event_changelist_del_def
  from assms obtain c cl where g: "event_changelist_get_or_construct ok (clist ep) fd old (Io_fdinfo fd) = Done (c, cl)"
    by (cases "event_changelist_get_or_construct ok (clist ep) fd old (Io_fdinfo fd)") (auto simp: d)
  show ?thesis using assms
    by (cases c) (auto simp: d g intro: collected [OF g change_fd(2)])
qed

lemma only_collects_refl [simp]: "only_collects fd ep ep"
  by (auto simp: only_collects_def)

lemma io_call_collects:
  assumes "evmap_io_call debug ok' (epollops_changelist ok) b c = Done (r, b')"
  shows "only_collects (ev_fd (evs b (call_ev c))) (backend b) (backend b') \<and> evs b' = evs b"
proof (cases c)
  case (Add_io ev)
  let ?fd = "ev_fd (evs b ev)"
  from assms Add_io have "b' = b \<or> evmap_io_add debug ok' (epollops_changelist ok) b ?fd ev = Done (r, b')"
    by (auto simp: evmap_io_call_def Let_def split: if_splits)
  then show ?thesis
    using io_add_backend [of debug ok' "epollops_changelist ok" b ?fd ev r b'] Add_io
      changelist_add_collects [of ok "backend b" ?fd _ _ _ "backend b'"] by auto
next
  case (Del_io ev)
  let ?fd = "ev_fd (evs b ev)"
  from assms Del_io have "b' = b \<or> evmap_io_del (epollops_changelist ok) b ?fd ev = Done (r, b')"
    by (auto simp: evmap_io_call_def Let_def split: if_splits)
  then show ?thesis
    using io_del_backend [of "epollops_changelist ok" b ?fd ev r b'] Del_io
      changelist_del_collects [of ok "backend b" ?fd _ _ _ "backend b'"] by auto
qed

text \<open>One call, made of both backends.\<close>

definition both_ok ::
  "('k \<Rightarrow> int \<rightharpoonup> u32) \<Rightarrow> (int \<Rightarrow> bool) \<Rightarrow> 'k epollop evmap_base \<Rightarrow> 'k evmap_base \<Rightarrow> bool" where
  "both_ok interest pollable b c \<longleftrightarrow> epoll_changelist_inv interest b \<and> epoll_inv interest pollable c \<and> same_map b c"

lemma both_call:
  assumes k: "epoll_kernel ctl interest pollable" and ok: "\<forall>n. ok n" and b: "both_ok interest pollable b c"
    and e: "io_event_ok pollable (evs b (call_ev cl))"
  shows "\<exists>r b' c'. evmap_io_call debug ok (epollops_changelist ok) b cl = Done (r, b') \<and>
    evmap_io_call debug ok (epollops ctl) c cl = Done (r, c') \<and> both_ok interest pollable b' c'"
proof -
  have okT: "ok = (\<lambda>_. True)" using ok by (simp add: fun_eq_iff)
  obtain ev where ev: "ev = call_ev cl" by simp
  let ?fd = "ev_fd (evs b ev)"
  have inv: "epoll_changelist_inv interest b" "epoll_inv interest pollable c" "same_map b c"
    using b by (simp_all add: both_ok_def)
  have eq: "evs c = evs b" "io_list c = io_list b" using inv(3) same_map_io_list [OF inv(3)] by (simp_all add: same_map_def)
  have e: "0 \<le> ?fd" "pollable ?fd" "\<not> has (ev_events (evs b ev)) EV_SIGNAL" "ev_events (evs b ev) AND IO_EVENTS \<noteq> 0"
    using e by (simp_all add: io_event_ok_def ev)
  have m: "io_map_ok (evs b) (io b)" using inv(1) by (simp add: evmap_io_inv_def)
  note acc = eventop.accepts [OF clep.eventop_axioms inv(1), of ?fd]
    epoll_kernel.backend_accepts [OF k inv(2) e(2)]
  consider (skip) "ev \<in> set (io_list b ?fd)" "cl = Add_io ev" | (none) "ev \<notin> set (io_list b ?fd)" "cl = Del_io ev"
    | (add) "ev \<notin> set (io_list b ?fd)" "cl = Add_io ev" | (del) "ev \<in> set (io_list b ?fd)" "cl = Del_io ev"
    using ev by (cases cl) auto
  then show ?thesis
  proof cases
    case add
    then have r: "\<exists>r b' c'. evmap_io_add debug ok (epollops_changelist ok) b ?fd ev = Done (r, b') \<and>
        evmap_io_add debug ok (epollops ctl) c ?fd ev = Done (r, c') \<and> same_map b' c'"
      using io_add_same [OF inv(3) ok m refl e(1), of "epollops_changelist ok" "epollops ctl" debug] acc by (simp add: okT)
    from io_add_changelist [OF inv(1) refl e(1,3,4) add(1), of debug ok]
      epoll_kernel.io_add_epoll [OF k inv(2), of ev ?fd debug ok] r add e eq
    show ?thesis by (auto simp: evmap_io_call_def both_ok_def okT)
  next
    case del
    then have r: "\<exists>r b' c'. evmap_io_del (epollops_changelist ok) b ?fd ev = Done (r, b') \<and>
        evmap_io_del (epollops ctl) c ?fd ev = Done (r, c') \<and> same_map b' c'"
      using io_del_same [OF inv(3) m refl e(1), of "epollops_changelist ok" "epollops ctl"] acc by (simp add: okT)
    from io_del_changelist [OF inv(1) refl e(1) del(1)] epoll_kernel.io_del_epoll [OF k inv(2), of ev ?fd] r del e eq
    show ?thesis by (auto simp: evmap_io_call_def both_ok_def okT)
  qed (use b eq in \<open>auto simp: evmap_io_call_def\<close>)
qed

text \<open>Any sequence of calls.\<close>

definition changes_pollable :: "(int \<Rightarrow> bool) \<Rightarrow> 'k epollop \<Rightarrow> bool" where
  "changes_pollable pollable ep \<longleftrightarrow> (\<forall>ch \<in> set (changes (clist ep)). pollable (ch_fd ch))"

lemma both_calls:
  assumes k: "epoll_kernel ctl interest pollable" and ok: "\<forall>n. ok n"
  shows "both_ok interest pollable b c \<Longrightarrow> changes_pollable pollable (backend b) \<Longrightarrow>
    \<forall>cl \<in> set calls. io_event_ok pollable (evs b (call_ev cl)) \<Longrightarrow>
    \<exists>rs b' c'. evmap_io_calls debug ok (epollops_changelist ok) calls b = Done (rs, b') \<and>
      evmap_io_calls debug ok (epollops ctl) calls c = Done (rs, c') \<and> both_ok interest pollable b' c' \<and>
      changes_pollable pollable (backend b') \<and> kernel (backend b') = kernel (backend b) \<and> evs b' = evs b"
proof (induction calls arbitrary: b c)
  case Nil
  then show ?case by simp
next
  case (Cons cl calls)
  have e: "io_event_ok pollable (evs b (call_ev cl))" using Cons.prems(3) by simp
  from both_call [OF k ok Cons.prems(1) e, of debug] obtain r b1 c1 where
    1: "evmap_io_call debug ok (epollops_changelist ok) b cl = Done (r, b1)"
      "evmap_io_call debug ok (epollops ctl) c cl = Done (r, c1)" "both_ok interest pollable b1 c1" by blast
  note col = conjunct1 [OF io_call_collects [OF 1(1)]] conjunct2 [OF io_call_collects [OF 1(1)]]
  have p: "changes_pollable pollable (backend b1)"
    unfolding changes_pollable_def
  proof
    fix ch assume "ch \<in> set (changes (clist (backend b1)))"
    then have "ch_fd ch \<in> insert (ev_fd (evs b (call_ev cl))) (ch_fd ` set (changes (clist (backend b))))"
      using col(1) by (auto simp: only_collects_def)
    then show "pollable (ch_fd ch)" using Cons.prems(2) e by (auto simp: changes_pollable_def io_event_ok_def)
  qed
  have "\<forall>cl \<in> set calls. io_event_ok pollable (evs b1 (call_ev cl))" using Cons.prems(3) col(2) by simp
  from Cons.IH [OF 1(3) p this] 1(1,2) col show ?case by (auto simp: only_collects_def)
qed

lemma io_calls_collect:
  assumes "evmap_io_calls debug ok' (epollops_changelist ok) calls b = Done (rs, b')"
  shows "ch_fd ` set (changes (clist (backend b))) \<subseteq> ch_fd ` set (changes (clist (backend b')))"
  using assms
proof (induction calls arbitrary: b rs)
  case (Cons cl calls)
  then obtain r b1 rs1 where
    1: "evmap_io_call debug ok' (epollops_changelist ok) b cl = Done (r, b1)"
      "evmap_io_calls debug ok' (epollops_changelist ok) calls b1 = Done (rs1, b')" by auto
  from Cons.IH [OF 1(2)] io_call_collects [OF 1(1)] show ?case by (simp add: only_collects_def) blast
qed simp

section \<open>Properties\<close>

definition sample_event :: "int \<Rightarrow> u16 \<Rightarrow> event" where
  "sample_event fd events = \<lparr>evcb_flags = EVLIST_INIT, evcb_pri = 0, evcb_closure = EV_CLOSURE_EVENT, ev_fd = fd,
     ev_events = events, ev_res = 0, ev_timeout = Timeval 0 0, ev_io_timeout = Timeval 0 0,
     ev_ncalls = 0, ev_pncalls = False\<rparr>"

definition sample_map :: "'k \<Rightarrow> 'k evmap_base" where
  "sample_map k = \<lparr>evs = (\<lambda>a. sample_event 5 (if a = 7 then EV_READ else EV_WRITE)), backend = k, io = [], sigmap = []\<rparr>"

lemma sample_map_io: "io_list (sample_map k) fd = []"
  by (auto simp: io_list_def slot_list_def sample_map_def)

lemma sample_map_inv: "bwf k \<Longrightarrow> (\<And>fd. watch k fd = 0) \<Longrightarrow> evmap_io_inv bwf watch pollable (sample_map k)"
  by (simp add: evmap_io_inv_def sample_map_io union_events_def io_map_ok_def io_mask_zero) (simp add: sample_map_def)

lemma sample_map_event:
  "ev_fd (evs (sample_map k) 7) = 5" "\<not> has (ev_events (evs (sample_map k) 7)) EV_SIGNAL"
  "ev_events (evs (sample_map k) 7) AND IO_EVENTS \<noteq> 0"
  unfolding IO_part by (simp_all add: sample_map_def sample_event_def)

text \<open>
  C16. Adding an event on a descriptor of an epoll base keeps the kernel's interest list equal to the
  union of what the registered events wait for, and puts the event at the front of the descriptor's
  list; when the call fails, nothing is registered and nothing changes, and then the kernel does not
  accept the descriptor, memory is short, the debug mode is on, the descriptor has 65535 events already or its
  number is so large that the table would not fit.
\<close>

theorem evmap_io_add_epoll:
  assumes "epoll_kernel ctl interest pollable" "epoll_inv interest pollable b"
    "ev_fd (evs b ev) = fd" "0 \<le> fd" "\<not> has (ev_events (evs b ev)) EV_SIGNAL"
    "ev_events (evs b ev) AND IO_EVENTS \<noteq> 0" "ev \<notin> set (io_list b fd)"
  shows "\<exists>r b'. evmap_io_add debug ok (epollops ctl) b fd ev = Done (r, b') \<and> epoll_inv interest pollable b' \<and>
    io_frame b b' \<and>
    (if r = -1 then io_list b' = io_list b \<and> backend b' = backend b \<and> io_refusal debug ok pollable b fd
     else (r = 0 \<or> r = 1) \<and> io_list b' = (io_list b)(fd := ev # io_list b fd))"
  by (rule epoll_kernel.io_add_epoll_or_refused [OF assms(1-)])

theorem evmap_io_add_epoll_witness:
  "\<exists>r b'. evmap_io_add False (\<lambda>_. True) (epollops (doc_ctl (\<lambda>_. True))) (sample_map Map.empty) 5 7 = Done (r, b') \<and>
    epoll_inv (\<lambda>k. k) (\<lambda>_. True) b' \<and> r \<noteq> -1 \<and> io_list b' 5 = [7]"
proof -
  have "\<not> io_refusal False (\<lambda>_. True) (\<lambda>_. True) (sample_map Map.empty) 5" by (simp add: io_refusal_def sample_map_io)
  then show ?thesis
    using evmap_io_add_epoll [OF docep.epoll_kernel_axioms [of "\<lambda>_. True"] sample_map_inv sample_map_event(1) _ sample_map_event(2,3),
        of Map.empty False "\<lambda>_. True"]
    by (auto simp: sample_map_io watched_events_def split: if_splits)
qed

text \<open>
  Deleting a registered event takes it out of the descriptor's list and out of the kernel's interest,
  unless another event on the descriptor waits for the same; it never aborts.
\<close>

theorem evmap_io_del_epoll:
  assumes "epoll_kernel ctl interest pollable" "epoll_inv interest pollable b"
    "ev_fd (evs b ev) = fd" "0 \<le> fd" "ev \<in> set (io_list b fd)"
  shows "\<exists>r b'. evmap_io_del (epollops ctl) b fd ev = Done (r, b') \<and> epoll_inv interest pollable b' \<and>
    io_frame b b' \<and> (r = 0 \<or> r = 1) \<and> io_list b' = (io_list b)(fd := remove1 ev (io_list b fd))"
  by (rule epoll_kernel.io_del_epoll [OF assms(1-)])

definition sample_map1 :: "(int \<rightharpoonup> u32) evmap_base" where
  "sample_map1 = (sample_map [5 \<mapsto> EPOLLIN])\<lparr>io := replicate 5 None @ [Some \<lparr>io_events = [7], nread = 1, nwrite = 0, nclose = 0\<rparr>]\<rparr>"

lemma sample_map1_io: "io_list sample_map1 fd = (if fd = 5 then [7] else [])"
  by (auto simp: io_list_def slot_list_def sample_map1_def nth_append nth_Cons')

lemma sample_map1_inv: "epoll_inv (\<lambda>k. k) (\<lambda>_. True) sample_map1"
proof -
  have "io_map_ok (evs sample_map1) (io sample_map1)"
    unfolding io_map_ok_def io_ctx_ok_def IO_part
    by (auto simp: sample_map1_def sample_map_def sample_event_def nth_append nth_Cons' less_Suc_eq)
  moreover have "watched_events (backend sample_map1 fd) = union_events (evs sample_map1) (io_list sample_map1 fd)" for fd
    unfolding sample_map1_io union_events_def
    by (auto simp: watched_events_def sample_map1_def sample_map_def sample_event_def epoll_consts io_mask_zero)
  ultimately show ?thesis by (simp add: evmap_io_inv_def)
qed

theorem evmap_io_del_epoll_witness:
  "\<exists>r b'. evmap_io_del (epollops (doc_ctl (\<lambda>_. True))) sample_map1 5 7 = Done (r, b') \<and>
    watched_events (backend b' 5) = 0 \<and> io_list b' 5 = []"
proof -
  have e: "ev_fd (evs sample_map1 7) = 5" "(0::int) \<le> 5" "7 \<in> set (io_list sample_map1 5)"
    by (simp add: sample_map1_def sample_map_def sample_event_def, simp, simp add: sample_map1_io)
  from evmap_io_del_epoll [OF docep.epoll_kernel_axioms [of "\<lambda>_. True"] sample_map1_inv e]
  show ?thesis by (auto simp: evmap_io_inv_def sample_map1_io union_events_def io_mask_zero)
qed

text \<open>
  C17. With the changelist, adding and deleting events only collects changes: after any sequence of calls
  on descriptors that can be polled, with memory available, the kernel is as it was before, and the maps and the
  return values are those of the backend without a changelist after the same calls. When
  \<^verbatim>\<open>epoll_apply_changes\<close> then runs, it succeeds, and the kernel watches on every descriptor the same events
  as under the backend without a changelist: the union of what the registered events wait for.
\<close>

theorem evmap_changelist_applied:
  assumes "epoll_kernel ctl interest pollable" "\<forall>n. ok n"
    "epoll_changelist_inv interest b" "epoll_inv interest pollable c" "same_map b c"
    "changes_pollable pollable (backend b)" "\<forall>cl \<in> set calls. io_event_ok pollable (evs b (call_ev cl))"
  shows "\<exists>rs b' c' k'.
    evmap_io_calls debug ok (epollops_changelist ok) calls b = Done (rs, b') \<and>
    evmap_io_calls debug ok (epollops ctl) calls c = Done (rs, c') \<and>
    kernel (backend b') = kernel (backend b) \<and> same_map b' c' \<and>
    epoll_apply_changes ctl (kernel (backend b')) (changes (clist (backend b'))) = Done (0, k') \<and>
    (\<forall>fd. watched_events (interest k' fd) = watched_events (interest (backend c') fd) \<and>
      watched_events (interest k' fd) = union_events (evs b) (io_list b' fd))"
proof -
  have "both_ok interest pollable b c" using assms(3-5) by (simp add: both_ok_def)
  from both_calls [OF assms(1,2) this assms(6,7), of debug] obtain rs b' c' where
    r: "evmap_io_calls debug ok (epollops_changelist ok) calls b = Done (rs, b')"
      "evmap_io_calls debug ok (epollops ctl) calls c = Done (rs, c')" "both_ok interest pollable b' c'"
      "changes_pollable pollable (backend b')" "kernel (backend b') = kernel (backend b)" "evs b' = evs b" by blast
  have i: "epoll_changelist_inv interest b'" "epoll_inv interest pollable c'" "same_map b' c'"
    using r(3) by (simp_all add: both_ok_def)
  have "epoll_wf interest (backend b')" using i(1) by (simp add: evmap_io_inv_def)
  from epoll_kernel.apply_changelist [OF assms(1) this] r(4) obtain k' where
    k': "epoll_apply_changes ctl (kernel (backend b')) (changes (clist (backend b'))) = Done (0, k')"
      "\<forall>fd. watched_events (interest k' fd) = epoll_watch interest (backend b') fd"
    unfolding changes_pollable_def by blast
  have "watched_events (interest k' fd) = union_events (evs b) (io_list b' fd)"
    "watched_events (interest (backend c') fd) = union_events (evs b) (io_list b' fd)" for fd
    using k'(2) i same_map_io_list [OF i(3)] r(6) by (simp_all add: evmap_io_inv_def same_map_def)
  with r i(3) k'(1) show ?thesis by (intro exI conjI allI) (assumption | simp)+
qed

definition sample_epollop :: "(int \<rightharpoonup> u32) epollop" where
  "sample_epollop = \<lparr>kernel = Map.empty, nevents = 32, clist = \<lparr>changes = [], changes_size = 0, idxplus1 = (\<lambda>_. 0)\<rparr>\<rparr>"

lemma sample_epollop_inv: "epoll_changelist_inv (\<lambda>k. k) (sample_map sample_epollop)"
  by (rule sample_map_inv)
    (simp_all add: sample_epollop_def epoll_wf_def epoll_watch_def changelist_ok_def change_of_def watched_events_def)

definition sample_calls :: "io_call list" where
  "sample_calls = [Add_io 7, Add_io 8, Del_io 7]"

lemma sample_call_changes:
  "case evmap_io_call False (\<lambda>_. True) (epollops_changelist (\<lambda>_. True)) (sample_map sample_epollop) (Add_io 7) of
     Aborted \<Rightarrow> False | Done (r, b) \<Rightarrow> length (changes (clist (backend b))) = 1"
proof -
  have "evmap_io_call False (\<lambda>_. True) (epollops_changelist (\<lambda>_. True)) (sample_map sample_epollop) (Add_io 7) =
      evmap_io_add False (\<lambda>_. True) (epollops_changelist (\<lambda>_. True)) (sample_map sample_epollop) 5 7"
    by (simp add: evmap_io_call_def sample_map_io sample_map_event(1))
  then show ?thesis
    by (simp add: evmap_io_add_def evmap_make_space_def grow_entries.simps INT_MAX_def GET_SLOT_AND_CTOR_def
        evmap_io_init_def evmap_io_register_def evmap_io_count_up_def old_io_events_def epollops_changelist_def
        epoll_changelist_add_def event_changelist_add_def event_changelist_get_or_construct_def
        event_changelist_grow_def sample_map_def sample_event_def sample_epollop_def Let_def)
qed

theorem evmap_changelist_applied_witness:
  "\<exists>rs b' c' k'.
    evmap_io_calls False (\<lambda>_. True) (epollops_changelist (\<lambda>_. True)) sample_calls (sample_map sample_epollop) = Done (rs, b') \<and>
    evmap_io_calls False (\<lambda>_. True) (epollops (doc_ctl (\<lambda>_. True))) sample_calls (sample_map Map.empty) = Done (rs, c') \<and>
    kernel (backend b') = Map.empty \<and>
    epoll_apply_changes (doc_ctl (\<lambda>_. True)) (kernel (backend b')) (changes (clist (backend b'))) = Done (0, k') \<and>
    changes (clist (backend b')) \<noteq> [] \<and> watched_events (k' 5) = watched_events (backend c' 5)"
proof -
  have i: "epoll_inv (\<lambda>k. k) (\<lambda>_. True) (sample_map Map.empty)"
    by (rule sample_map_inv) (simp_all add: watched_events_def)
  have m: "same_map (sample_map sample_epollop) (sample_map Map.empty)" by (simp add: same_map_def sample_map_def)
  have p: "changes_pollable (\<lambda>_. True) (backend (sample_map sample_epollop))" by (simp add: changes_pollable_def)
  have e: "\<forall>cl \<in> set sample_calls. io_event_ok (\<lambda>_. True) (evs (sample_map sample_epollop) (call_ev cl))"
    unfolding io_event_ok_def IO_part by (auto simp: sample_calls_def sample_map_def sample_event_def)
  have o: "\<forall>n. (\<lambda>_ :: nat. True) n" by simp
  from evmap_changelist_applied [OF docep.epoll_kernel_axioms o sample_epollop_inv i m p e, of False]
  obtain rs b' c' k' where r:
    "evmap_io_calls False (\<lambda>_. True) (epollops_changelist (\<lambda>_. True)) sample_calls (sample_map sample_epollop) = Done (rs, b')"
    "evmap_io_calls False (\<lambda>_. True) (epollops (doc_ctl (\<lambda>_. True))) sample_calls (sample_map Map.empty) = Done (rs, c')"
    "kernel (backend b') = kernel (backend (sample_map sample_epollop))"
    "epoll_apply_changes (doc_ctl (\<lambda>_. True)) (kernel (backend b')) (changes (clist (backend b'))) = Done (0, k')"
    "\<forall>fd. watched_events (k' fd) = watched_events (backend c' fd) \<and>
      watched_events (k' fd) = union_events (evs (sample_map sample_epollop)) (io_list b' fd)"
    by blast
  have k0: "kernel (backend b') = Map.empty" using r(3) by (simp add: sample_map_def sample_epollop_def)
  from r(1) obtain q b1 qs where "evmap_io_call False (\<lambda>_. True) (epollops_changelist (\<lambda>_. True)) (sample_map sample_epollop) (Add_io 7) =
      Done (q, b1)" "evmap_io_calls False (\<lambda>_. True) (epollops_changelist (\<lambda>_. True)) [Add_io 8, Del_io 7] b1 = Done (qs, b')"
    unfolding sample_calls_def by (subst (asm) evmap_io_calls.simps(2)) (auto simp del: evmap_io_calls.simps)
  with sample_call_changes io_calls_collect have "changes (clist (backend b')) \<noteq> []" by fastforce
  with r k0 show ?thesis by blast
qed

end
