(* ===== verification/Evsig.thy ===== *)
theory Evsig
  imports Evmap
begin

text \<open>
  The signal backend, \<^verbatim>\<open>src/signal.c\<close>. The handlers the process has installed are the function \<open>disp\<close> of
  the state, which \<^verbatim>\<open>sigaction\<close> reads and replaces; \<open>sigok\<close> tells which signals it accepts and \<open>ok\<close>
  whether the allocator serves a request. \<open>rest\<close> is the state of the base that the call of
  \<^verbatim>\<open>event_add_nolock_\<close> for the internal event changes, through the parameter \<open>addev\<close>. The globals
  \<^verbatim>\<open>evsig_base\<close>, \<^verbatim>\<open>evsig_base_n_signals_added\<close> and \<^verbatim>\<open>evsig_base_fd\<close> are the fields whose names begin
  with \<open>g\<close>; \<open>self\<close> is the address of the base.
\<close>

record ('h, 'b) evsig_info =
  self :: nat
  ev_signal_pair :: "int \<times> int"
  ev_signal_added :: bool
  ev_n_signals_added :: int
  sh_old :: "'h option list"
  disp :: "int \<Rightarrow> 'h"
  g_base :: "nat option"
  g_n_signals_added :: int
  g_fd :: int
  rest :: 'b

definition evsig_set_base :: "('h, 'b) evsig_info \<Rightarrow> ('h, 'b) evsig_info" where
  "evsig_set_base s = s\<lparr>g_base := Some (self s), g_n_signals_added := ev_n_signals_added s, g_fd := snd (ev_signal_pair s)\<rparr>"

text \<open>The call at the start of \<^verbatim>\<open>event_base_loop\<close>, with its condition.\<close>

definition evsig_loop_base :: "('h, 'b) evsig_info \<Rightarrow> ('h, 'b) evsig_info" where
  "evsig_loop_base s = (if ev_signal_added s \<and> ev_n_signals_added s \<noteq> 0 then evsig_set_base s else s)"

definition evsig_set_handler ::
  "(nat \<Rightarrow> bool) \<Rightarrow> (int \<Rightarrow> bool) \<Rightarrow> ('h, 'b) evsig_info \<Rightarrow> int \<Rightarrow> 'h \<Rightarrow> int \<times> ('h, 'b) evsig_info" where
  "evsig_set_handler ok sigok s evsignal handler =
     (let n = nat evsignal in
      if n \<ge> length (sh_old s) \<and> \<not> ok ((n + 1) * 8) then (-1, s)
      else
        (let old = sh_old s @ replicate (n + 1 - length (sh_old s)) None in
         if \<not> ok 152 then (-1, s\<lparr>sh_old := old[n := None]\<rparr>)
         else if \<not> sigok evsignal then (-1, s\<lparr>sh_old := old[n := None]\<rparr>)
         else (0, s\<lparr>sh_old := old[n := Some (disp s evsignal)], disp := (disp s)(evsignal := handler)\<rparr>)))"

definition evsig_add_err :: "('h, 'b) evsig_info \<Rightarrow> ('h, 'b) evsig_info" where
  "evsig_add_err s = s\<lparr>g_n_signals_added := g_n_signals_added s - 1, ev_n_signals_added := ev_n_signals_added s - 1\<rparr>"

definition evsig_add ::
  "(nat \<Rightarrow> bool) \<Rightarrow> (int \<Rightarrow> bool) \<Rightarrow> 'h \<Rightarrow> ('b \<Rightarrow> int \<times> 'b) \<Rightarrow> ('h, 'b) evsig_info \<Rightarrow> int \<Rightarrow> u16 \<Rightarrow> u16 \<Rightarrow>
     (int \<times> ('h, 'b) evsig_info) outcome" where
  "evsig_add ok sigok evsig_handler addev s evsignal old events =
     (if 0 \<le> evsignal \<and> evsignal < NSIG then
        (let s1 = s\<lparr>g_base := Some (self s), ev_n_signals_added := ev_n_signals_added s + 1,
                    g_n_signals_added := ev_n_signals_added s + 1, g_fd := snd (ev_signal_pair s)\<rparr>;
             (r, s2) = evsig_set_handler ok sigok s1 evsignal evsig_handler
         in if r = -1 then Done (-1, evsig_add_err s2)
            else if ev_signal_added s2 then Done (0, s2)
            else
              (let (q, b) = addev (rest s2); s3 = s2\<lparr>rest := b\<rparr> in
               if q \<noteq> 0 then Done (-1, evsig_add_err s3) else Done (0, s3\<lparr>ev_signal_added := True\<rparr>)))
      else Aborted)"

text \<open>A null pointer in \<^verbatim>\<open>sh_old\<close> makes \<^verbatim>\<open>sigaction\<close> only read the handler.\<close>

definition evsig_restore_handler :: "(int \<Rightarrow> bool) \<Rightarrow> ('h, 'b) evsig_info \<Rightarrow> int \<Rightarrow> int \<times> ('h, 'b) evsig_info" where
  "evsig_restore_handler sigok s evsignal =
     (let n = nat evsignal in
      if n \<ge> length (sh_old s) then (0, s)
      else
        (let sh = sh_old s ! n; s1 = s\<lparr>sh_old := (sh_old s)[n := None]\<rparr> in
         case sh of
           None \<Rightarrow> (if 0 < evsignal \<and> evsignal < NSIG then 0 else -1, s1)
         | Some h \<Rightarrow> (if sigok evsignal then (0, s1\<lparr>disp := (disp s)(evsignal := h)\<rparr>) else (-1, s1))))"

definition evsig_del ::
  "(int \<Rightarrow> bool) \<Rightarrow> ('h, 'b) evsig_info \<Rightarrow> int \<Rightarrow> u16 \<Rightarrow> u16 \<Rightarrow> (int \<times> ('h, 'b) evsig_info) outcome" where
  "evsig_del sigok s evsignal old events =
     (if 0 \<le> evsignal \<and> evsignal < NSIG then Done (evsig_restore_handler sigok (evsig_add_err s) evsignal) else Aborted)"

text \<open>What the handler writes to the pipe, and the counting of what \<^verbatim>\<open>evsig_cb\<close> reads from it.\<close>

definition evsig_handler :: "nat option \<Rightarrow> int \<Rightarrow> u8 list" where
  "evsig_handler base sig = (if base = None then [] else [word_of_int sig])"

definition count_signals :: "(nat \<Rightarrow> nat) \<Rightarrow> u8 list \<Rightarrow> nat \<Rightarrow> nat" where
  "count_signals ncaught signals =
     fold (\<lambda>sig n. if int (unat sig) < NSIG then n(unat sig := n (unat sig) + 1) else n) signals ncaught"

text \<open>
  The reads of \<^verbatim>\<open>evsig_cb\<close>: the results of the calls of \<^verbatim>\<open>read\<close>, up to the one that would block or finds the end
  of the stream; then the calls of \<^verbatim>\<open>evmap_signal_active_\<close>, in order. Any other error of a read ends the
  process through \<^verbatim>\<open>event_sock_err\<close>, which is \<open>Aborted\<close>. A list of results that is used up stands for a
  read that would block.
\<close>

datatype sig_read = Read_bytes "u8 list" | Read_retriable | Read_error

fun evsig_read_loop :: "(nat \<Rightarrow> nat) \<Rightarrow> sig_read list \<Rightarrow> (nat \<Rightarrow> nat) outcome" where
  "evsig_read_loop ncaught [] = Done ncaught"
| "evsig_read_loop ncaught (Read_error # rs) = Aborted"
| "evsig_read_loop ncaught (Read_retriable # rs) = Done ncaught"
| "evsig_read_loop ncaught (Read_bytes signals # rs) =
     (if signals = [] then Done ncaught else evsig_read_loop (count_signals ncaught signals) rs)"

definition evsig_cb :: "sig_read list \<Rightarrow> (int \<times> nat) list outcome" where
  "evsig_cb reads =
     bind_outcome (evsig_read_loop (\<lambda>_. 0) reads) (\<lambda>ncaught.
       Done (map (\<lambda>i. (int i, ncaught i)) (filter (\<lambda>i. ncaught i \<noteq> 0) [0..<nat NSIG])))"

fun evsig_restore_all :: "(int \<Rightarrow> bool) \<Rightarrow> ('h, 'b) evsig_info \<Rightarrow> nat list \<Rightarrow> ('h, 'b) evsig_info" where
  "evsig_restore_all sigok s [] = s"
| "evsig_restore_all sigok s (i # is) =
     evsig_restore_all sigok
       (if i < length (sh_old s) \<and> sh_old s ! i \<noteq> None then snd (evsig_restore_handler sigok s (int i)) else s) is"

definition evsig_dealloc :: "(int \<Rightarrow> bool) \<Rightarrow> ('b \<Rightarrow> 'b) \<Rightarrow> ('h, 'b) evsig_info \<Rightarrow> ('h, 'b) evsig_info" where
  "evsig_dealloc sigok delev s =
     (let s1 = (if ev_signal_added s then s\<lparr>rest := delev (rest s), ev_signal_added := False\<rparr> else s);
          s2 = evsig_restore_all sigok s1 [0..<nat NSIG];
          s3 = (if g_base s2 = Some (self s2) then s2\<lparr>g_base := None, g_n_signals_added := 0, g_fd := -1\<rparr> else s2)
      in s3\<lparr>ev_signal_pair := (-1, -1), sh_old := []\<rparr>)"

section \<open>The interface\<close>

text \<open>
  A signal is caught when its old handler is saved. \<open>orig\<close> are the handlers before the base installed
  any: they are in place for every signal that is not caught, and saved for every one that is.
\<close>

definition saved :: "('h, 'b) evsig_info \<Rightarrow> int \<Rightarrow> 'h option" where
  "saved s sig = (if 0 \<le> sig \<and> nat sig < length (sh_old s) then sh_old s ! nat sig else None)"

definition sig_at :: "(int \<Rightarrow> bool) \<Rightarrow> 'h \<Rightarrow> (int \<Rightarrow> 'h) \<Rightarrow> 'h option \<Rightarrow> 'h \<Rightarrow> int \<Rightarrow> bool" where
  "sig_at sigok handler orig sh d sig \<longleftrightarrow>
     (case sh of None \<Rightarrow> d = orig sig | Some h \<Rightarrow> h = orig sig \<and> d = handler \<and> sigok sig)"

definition sig_wf :: "(int \<Rightarrow> bool) \<Rightarrow> 'h \<Rightarrow> (int \<Rightarrow> 'h) \<Rightarrow> ('h, 'b) evsig_info \<Rightarrow> bool" where
  "sig_wf sigok handler orig s \<longleftrightarrow> (\<forall>sig. sig_at sigok handler orig (saved s sig) (disp s sig) sig)"

lemma sig_wf_upd:
  assumes "sig_wf sigok handler orig s" "saved t = (saved s)(sig := sh)" "disp t = (disp s)(sig := d)"
    "sig_at sigok handler orig sh d sig"
  shows "sig_wf sigok handler orig t"
  using assms by (simp add: sig_wf_def)

lemma sig_at_simps [simp]:
  "sig_at sigok handler orig None d sig \<longleftrightarrow> d = orig sig"
  "sig_at sigok handler orig (Some h) d sig \<longleftrightarrow> h = orig sig \<and> d = handler \<and> sigok sig"
  by (simp_all add: sig_at_def)

lemma sig_wfD: "sig_wf sigok handler orig s \<Longrightarrow> sig_at sigok handler orig (saved s sig) (disp s sig) sig"
  by (simp add: sig_wf_def)

definition sig_caught :: "('h, 'b) evsig_info \<Rightarrow> int \<Rightarrow> bool" where
  "sig_caught s sig \<longleftrightarrow> saved s sig \<noteq> None"

text \<open>The lookup behind \<open>saved\<close>, for an array that is extended by null pointers and updated.\<close>

definition handler_at :: "'h option list \<Rightarrow> int \<Rightarrow> 'h option" where
  "handler_at xs sig = (if 0 \<le> sig \<and> nat sig < length xs then xs ! nat sig else None)"

lemma saved_handler_at: "saved s = handler_at (sh_old s)"
  by (simp add: saved_def handler_at_def fun_eq_iff)

lemma handler_at_append: "handler_at (xs @ replicate k None) = handler_at xs"
  by (auto simp: handler_at_def fun_eq_iff nth_append)

lemma handler_at_update:
  assumes "0 \<le> sig" "nat sig < length xs"
  shows "handler_at (xs[nat sig := x]) = (handler_at xs)(sig := x)"
proof
  fix i
  show "handler_at (xs[nat sig := x]) i = ((handler_at xs)(sig := x)) i"
  proof (cases "i = sig")
    case True
    then show ?thesis using assms by (simp add: handler_at_def)
  next
    case False
    then have "0 \<le> i \<Longrightarrow> nat i \<noteq> nat sig" using assms(1) by (simp add: nat_eq_iff)
    then show ?thesis using False by (auto simp: handler_at_def)
  qed
qed

lemma set_handler_saved:
  assumes "0 \<le> sig" "evsig_set_handler ok sigok s sig handler = (r, s')" "saved s sig = None"
  shows "r = -1 \<and> saved s' = saved s \<and> disp s' = disp s \<or>
    r = 0 \<and> sigok sig \<and> saved s' = (saved s)(sig := Some (disp s sig)) \<and> disp s' = (disp s)(sig := handler)"
proof -
  let ?old = "sh_old s @ replicate (nat sig + 1 - length (sh_old s)) None"
  have upd: "saved (s\<lparr>sh_old := ?old[nat sig := x]\<rparr>) = (saved s)(sig := x)" for x
    using handler_at_update [OF assms(1), of ?old x] by (simp add: saved_handler_at handler_at_append)
  have none: "saved (s\<lparr>sh_old := ?old[nat sig := None]\<rparr>) = saved s" using upd [of None] assms(3) by (simp add: fun_upd_idem)
  have set: "saved (s\<lparr>sh_old := ?old[nat sig := Some h], disp := d\<rparr>) = (saved s)(sig \<mapsto> h)" for h d
    using upd [of "Some h"] by (simp add: saved_handler_at)
  consider "nat sig \<ge> length (sh_old s) \<and> \<not> ok ((nat sig + 1) * 8)" "(r, s') = (-1, s)"
    | "(r, s') = (-1, s\<lparr>sh_old := ?old[nat sig := None]\<rparr>)"
    | "sigok sig" "(r, s') = (0, s\<lparr>sh_old := ?old[nat sig := Some (disp s sig)], disp := (disp s)(sig := handler)\<rparr>)"
    using assms(2) unfolding evsig_set_handler_def Let_def by (metis (no_types, lifting))
  then show ?thesis by cases (use none set in simp_all)
qed

lemma restore_handler_saved:
  assumes "0 \<le> sig" "evsig_restore_handler sigok s sig = (r, s')" "saved s sig = Some h" "sigok sig"
  shows "r = 0 \<and> saved s' = (saved s)(sig := None) \<and> disp s' = (disp s)(sig := h)"
proof -
  have n: "nat sig < length (sh_old s)" "sh_old s ! nat sig = Some h" using assms(3) by (auto simp: saved_def split: if_splits)
  have "saved (s\<lparr>sh_old := (sh_old s)[nat sig := None], disp := d\<rparr>) = (saved s)(sig := None)" for d
    using handler_at_update [OF assms(1) n(1)] by (simp add: saved_handler_at)
  then show ?thesis using assms(2,4) n by (auto simp: evsig_restore_handler_def Let_def)
qed

lemma saved_frame [simp]:
  "saved (s\<lparr>rest := b\<rparr>) = saved s" "saved (s\<lparr>ev_signal_added := x\<rparr>) = saved s" "saved (evsig_add_err s) = saved s"
  "disp (evsig_add_err s) = disp s"
  "saved (s\<lparr>g_base := gb, ev_n_signals_added := n, g_n_signals_added := gn, g_fd := f\<rparr>) = saved s"
  by (simp_all add: saved_def fun_eq_iff evsig_add_err_def)

lemma evsig_add_caught:
  assumes wf: "sig_wf sigok handler orig s" and sig: "0 \<le> sig" "sig < NSIG" and free: "\<not> sig_caught s sig"
    and ev: "\<And>b. fst (addev b) = 0"
  shows "\<exists>r s'. evsig_add ok sigok handler addev s sig 0 EV_SIGNAL = Done (r, s') \<and> sig_wf sigok handler orig s' \<and>
    (r = 0 \<and> sig_caught s' = (sig_caught s)(sig := True) \<or> r = -1 \<and> sig_caught s' = sig_caught s)"
proof -
  let ?s1 = "s\<lparr>g_base := Some (self s), ev_n_signals_added := ev_n_signals_added s + 1,
    g_n_signals_added := ev_n_signals_added s + 1, g_fd := snd (ev_signal_pair s)\<rparr>"
  obtain r s2 where h: "evsig_set_handler ok sigok ?s1 sig handler = (r, s2)" by fastforce
  have no: "saved ?s1 sig = None" using free by (simp add: sig_caught_def)
  note sh = set_handler_saved [OF sig(1) h no]
  have keep: "sig_wf sigok handler orig t \<and> sig_caught t = sig_caught s" if "saved t = saved s" "disp t = disp s" for t
    using wf that by (simp add: sig_wf_def sig_caught_def fun_eq_iff)
  have orig: "disp s sig = orig sig" using sig_wfD [OF wf, of sig] no by simp
  have set: "sig_wf sigok handler orig t \<and> sig_caught t = (sig_caught s)(sig := True)"
    if "saved t = (saved s)(sig := Some (disp s sig))" "disp t = (disp s)(sig := handler)" "sigok sig" for t
    using sig_wf_upd [OF wf that(1,2)] that orig by (auto simp: sig_caught_def fun_eq_iff)
  obtain q b where a: "addev (rest s2) = (q, b)" by fastforce
  then have "q = 0" using ev [of "rest s2"] by simp
  have unf: "evsig_add ok sigok handler addev s sig 0 EV_SIGNAL =
    (if r = -1 then Done (-1, evsig_add_err s2) else if ev_signal_added s2 then Done (0, s2)
     else Done (0, s2\<lparr>rest := b, ev_signal_added := True\<rparr>))"
    using sig h a \<open>q = 0\<close> by (simp add: evsig_add_def Let_def)
  show ?thesis
  proof (cases "r = -1")
    case True
    then show ?thesis using unf sh keep [of "evsig_add_err s2"] by auto
  next
    case False
    then have s2: "saved s2 = (saved s)(sig := Some (disp s sig))" "disp s2 = (disp s)(sig := handler)" "sigok sig"
      using sh by auto
    show ?thesis using unf False set [OF s2] set [of "s2\<lparr>rest := b, ev_signal_added := True\<rparr>"] s2
      by (cases "ev_signal_added s2") auto
  qed
qed

lemma evsig_del_caught:
  assumes wf: "sig_wf sigok handler orig s" and sig: "0 \<le> sig" "sig < NSIG" and c: "sig_caught s sig"
  shows "\<exists>r s'. evsig_del sigok s sig 0 EV_SIGNAL = Done (r, s') \<and> sig_wf sigok handler orig s' \<and> (r = 0 \<or> r = -1) \<and>
    sig_caught s' = (sig_caught s)(sig := False)"
proof -
  from c obtain h where h: "saved s sig = Some h" by (auto simp: sig_caught_def)
  then have o: "h = orig sig" "sigok sig" using sig_wfD [OF wf, of sig] by simp_all
  obtain r s' where r: "evsig_restore_handler sigok (evsig_add_err s) sig = (r, s')" by fastforce
  from restore_handler_saved [OF sig(1) r _ o(2)] h have
    s': "r = 0" "saved s' = (saved s)(sig := None)" "disp s' = (disp s)(sig := h)" by auto
  have "sig_wf sigok handler orig s'" "sig_caught s' = (sig_caught s)(sig := False)"
    using sig_wf_upd [OF wf s'(2,3)] s' o(1) by (auto simp: sig_caught_def fun_eq_iff)
  then show ?thesis using r s'(1) sig by (simp add: evsig_del_def)
qed

interpretation evsigops: sigop "evsig_add ok sigok handler (\<lambda>b. (0, addev b))" "evsig_del sigok" "sig_wf sigok handler orig" sig_caught
  for ok sigok handler addev orig
  by unfold_locales (rule evsig_add_caught, assumption+, simp, rule evsig_del_caught)

section \<open>Deallocation and counting\<close>

lemma restore_all_orig:
  assumes "sig_wf sigok handler orig s" "set is \<subseteq> {0..<nat NSIG}"
  shows "sig_wf sigok handler orig (evsig_restore_all sigok s is) \<and>
    saved (evsig_restore_all sigok s is) = (\<lambda>sig. if sig \<in> int ` set is then None else saved s sig)"
  using assms
proof (induction "is" arbitrary: s)
  case Nil
  then show ?case by simp
next
  case (Cons i "is")
  let ?c = "i < length (sh_old s) \<and> sh_old s ! i \<noteq> None"
  have sv: "saved s (int i) = (if ?c then sh_old s ! i else None)" by (auto simp: saved_def)
  obtain s1 where s1: "s1 = (if ?c then snd (evsig_restore_handler sigok s (int i)) else s)"
    "sig_wf sigok handler orig s1" "saved s1 = (saved s)(int i := None)"
  proof (cases ?c)
    case True
    then obtain h where h: "saved s (int i) = Some h" using sv by auto
    then have o: "h = orig (int i)" "sigok (int i)" using sig_wfD [OF Cons.prems(1), of "int i"] by simp_all
    obtain r s' where r: "evsig_restore_handler sigok s (int i) = (r, s')" by fastforce
    note rs = restore_handler_saved [OF _ r h o(2)]
    then have "sig_wf sigok handler orig s'" using sig_wf_upd [OF Cons.prems(1), of s' "int i" None h] o(1) by simp
    then show ?thesis using that [of s'] True r rs by simp
  next
    case False
    then have e: "(if ?c then snd (evsig_restore_handler sigok s (int i)) else s) = s" and n: "saved s (int i) = None"
      using sv by (simp_all only: if_False)
    show ?thesis by (rule that [OF e [symmetric] Cons.prems(1)]) (simp add: n fun_upd_idem)
  qed
  from Cons.IH [OF s1(2)] Cons.prems(2) s1(3) show ?case
    unfolding evsig_restore_all.simps s1(1) [symmetric] by (auto simp: fun_eq_iff)
qed

lemma restore_handler_self [simp]: "self (snd (evsig_restore_handler sigok s i)) = self s"
  by (auto simp: evsig_restore_handler_def Let_def split: option.splits)

lemma restore_all_self: "self (evsig_restore_all sigok s is) = self s"
  by (induction "is" arbitrary: s) simp_all

lemma count_signals_nth:
  "count_signals n signals i = n i + (if int i < NSIG then length (filter (\<lambda>c. unat c = i) signals) else 0)"
  by (induction signals arbitrary: n) (auto simp: count_signals_def)

text \<open>The bytes the callback reads before a read would block or finds nothing; none when a read fails.\<close>

fun bytes_read :: "sig_read list \<Rightarrow> u8 list option" where
  "bytes_read [] = Some []"
| "bytes_read (Read_error # rs) = None"
| "bytes_read (Read_retriable # rs) = Some []"
| "bytes_read (Read_bytes signals # rs) =
     (if signals = [] then Some [] else map_option (\<lambda>bs. signals @ bs) (bytes_read rs))"

lemma read_loop_counts:
  "evsig_read_loop n reads =
     (case bytes_read reads of None \<Rightarrow> Aborted
      | Some bs \<Rightarrow> Done (\<lambda>i. n i + (if int i < NSIG then length (filter (\<lambda>c. unat c = i) bs) else 0)))"
  by (induction reads arbitrary: n rule: bytes_read.induct)
    (auto simp: count_signals_nth fun_eq_iff split: option.splits)

section \<open>Properties\<close>

definition sample_sig :: "(nat, unit) evsig_info" where
  "sample_sig = \<lparr>self = 9, ev_signal_pair = (3, 4), ev_signal_added = False, ev_n_signals_added = 0, sh_old = [],
     disp = (\<lambda>_. 0), g_base = None, g_n_signals_added = 0, g_fd = -1, rest = ()\<rparr>"

lemma sample_sig_wf: "sig_wf (\<lambda>_. True) 8 (\<lambda>_. 0) sample_sig"
  by (simp add: sig_wf_def saved_def sample_sig_def)

text \<open>
  Calls of the backend, for any signals, and the values they return.
\<close>

datatype sig_call = Sig_add (call_sig: int) | Sig_del (call_sig: int)

definition evsig_call ::
  "(nat \<Rightarrow> bool) \<Rightarrow> (int \<Rightarrow> bool) \<Rightarrow> 'h \<Rightarrow> ('b \<Rightarrow> int \<times> 'b) \<Rightarrow> ('h, 'b) evsig_info \<Rightarrow> sig_call \<Rightarrow>
     (int \<times> ('h, 'b) evsig_info) outcome" where
  "evsig_call ok sigok handler addev s c =
     (case c of Sig_add sig \<Rightarrow> evsig_add ok sigok handler addev s sig 0 EV_SIGNAL
      | Sig_del sig \<Rightarrow> evsig_del sigok s sig 0 EV_SIGNAL)"

fun evsig_calls ::
  "(nat \<Rightarrow> bool) \<Rightarrow> (int \<Rightarrow> bool) \<Rightarrow> 'h \<Rightarrow> ('b \<Rightarrow> int \<times> 'b) \<Rightarrow> sig_call list \<Rightarrow> ('h, 'b) evsig_info \<Rightarrow>
     (int list \<times> ('h, 'b) evsig_info) outcome" where
  "evsig_calls ok sigok handler addev [] s = Done ([], s)"
| "evsig_calls ok sigok handler addev (c # cs) s =
     bind_outcome (evsig_call ok sigok handler addev s c) (\<lambda>(r, s1).
       bind_outcome (evsig_calls ok sigok handler addev cs s1) (\<lambda>(rs, s2). Done (r # rs, s2)))"

text \<open>A call concerns no signal but its own.\<close>

lemma set_handler_frame:
  assumes "0 \<le> sig" "x \<noteq> sig" "evsig_set_handler ok sigok s sig handler = (r, t)"
  shows "saved t x = saved s x \<and> disp t x = disp s x"
proof -
  let ?old = "sh_old s @ replicate (nat sig + 1 - length (sh_old s)) None"
  have "handler_at (?old[nat sig := y]) x = handler_at (sh_old s) x" for y
    using handler_at_update [OF assms(1), of ?old y] assms(2) by (simp add: handler_at_append)
  then show ?thesis using assms(2,3)
    by (auto simp: evsig_set_handler_def Let_def saved_handler_at split: if_splits)
qed

lemma restore_handler_frame:
  assumes "0 \<le> sig" "x \<noteq> sig" "evsig_restore_handler sigok s sig = (r, t)"
  shows "saved t x = saved s x \<and> disp t x = disp s x"
proof (cases "nat sig < length (sh_old s)")
  case True
  have "handler_at ((sh_old s)[nat sig := y]) x = handler_at (sh_old s) x" for y
    using handler_at_update [OF assms(1) True, of y] assms(2) by simp
  then show ?thesis using assms(2,3) True
    by (auto simp: evsig_restore_handler_def Let_def saved_handler_at split: option.splits if_splits)
next
  case False
  then show ?thesis using assms(3) by (simp add: evsig_restore_handler_def)
qed

lemma evsig_call_frame:
  assumes "0 \<le> call_sig c" "call_sig c < NSIG"
  shows "\<exists>r t. evsig_call ok sigok handler addev s c = Done (r, t) \<and>
    (\<forall>x. x \<noteq> call_sig c \<longrightarrow> saved t x = saved s x \<and> disp t x = disp s x)"
proof (cases c)
  case (Sig_add sig)
  let ?s1 = "s\<lparr>g_base := Some (self s), ev_n_signals_added := ev_n_signals_added s + 1,
    g_n_signals_added := ev_n_signals_added s + 1, g_fd := snd (ev_signal_pair s)\<rparr>"
  obtain r s2 where h: "evsig_set_handler ok sigok ?s1 sig handler = (r, s2)" by fastforce
  have "\<forall>x. x \<noteq> sig \<longrightarrow> saved s2 x = saved s x \<and> disp s2 x = disp s x"
    using set_handler_frame [OF _ _ h] assms Sig_add by simp
  then show ?thesis using Sig_add assms h
    by (auto simp: evsig_call_def evsig_add_def Let_def split: prod.splits)
next
  case (Sig_del sig)
  obtain r t where h: "evsig_restore_handler sigok (evsig_add_err s) sig = (r, t)" by fastforce
  then show ?thesis using restore_handler_frame [OF _ _ h] Sig_del assms by (auto simp: evsig_call_def evsig_del_def)
qed

lemma evsig_calls_frame:
  assumes "\<forall>c \<in> set calls. 0 \<le> call_sig c \<and> call_sig c < NSIG"
  shows "\<exists>rs t. evsig_calls ok sigok handler addev calls s = Done (rs, t) \<and>
    (\<forall>x. x \<notin> call_sig ` set calls \<longrightarrow> saved t x = saved s x \<and> disp t x = disp s x)"
  using assms
proof (induction calls arbitrary: s)
  case (Cons c calls)
  from evsig_call_frame [of c ok sigok handler addev s] Cons.prems obtain r t where
    1: "evsig_call ok sigok handler addev s c = Done (r, t)"
      "\<forall>x. x \<noteq> call_sig c \<longrightarrow> saved t x = saved s x \<and> disp t x = disp s x" by auto
  from Cons.IH [of t] Cons.prems obtain rs u where
    "evsig_calls ok sigok handler addev calls t = Done (rs, u)"
    "\<forall>x. x \<notin> call_sig ` set calls \<longrightarrow> saved u x = saved t x \<and> disp u x = disp t x" by auto
  with 1 show ?case by simp
qed simp

lemma evsig_add_saves:
  assumes "0 \<le> sig" "sig < NSIG" "evsig_add ok sigok handler addev s sig 0 EV_SIGNAL = Done (0, t)"
  shows "sigok sig \<and> saved t sig = Some (disp s sig) \<and> disp t sig = handler"
proof -
  let ?s1 = "s\<lparr>g_base := Some (self s), ev_n_signals_added := ev_n_signals_added s + 1,
    g_n_signals_added := ev_n_signals_added s + 1, g_fd := snd (ev_signal_pair s)\<rparr>"
  let ?old = "sh_old s @ replicate (nat sig + 1 - length (sh_old s)) None"
  obtain r s2 where h: "evsig_set_handler ok sigok ?s1 sig handler = (r, s2)" by fastforce
  have u: "handler_at (?old[nat sig := Some y]) sig = Some y" for y
    using handler_at_update [OF assms(1), of ?old "Some y"] by simp
  have "r \<noteq> -1" "saved t = saved s2" "disp t = disp s2"
    using assms h by (auto simp: evsig_add_def Let_def split: if_splits prod.splits)
  moreover have "sigok sig \<and> saved s2 sig = Some (disp s sig) \<and> disp s2 sig = handler"
    using h \<open>r \<noteq> -1\<close> u by (auto simp: evsig_set_handler_def Let_def saved_handler_at split: if_splits)
  ultimately show ?thesis by simp
qed

text \<open>
  C18. Catching a signal installs the library's handler. However many other signals are caught and released
  after that, whether those calls succeed or not (the array of saved handlers grows when one of them is larger), releasing
  the signal succeeds and puts back the handler the process had before. No call touches the handler or the saved
  handler of a signal it is not about.
\<close>

theorem evsig_add_del_roundtrip:
  assumes "0 \<le> sig" "sig < NSIG" "evsig_add ok sigok handler addev s sig 0 EV_SIGNAL = Done (0, s1)"
    "\<forall>c \<in> set calls. 0 \<le> call_sig c \<and> call_sig c < NSIG \<and> call_sig c \<noteq> sig"
  shows "disp s1 sig = handler \<and>
    (\<exists>rs s2 s3. evsig_calls ok sigok handler addev calls s1 = Done (rs, s2) \<and> disp s2 sig = handler \<and>
       evsig_del sigok s2 sig 0 EV_SIGNAL = Done (0, s3) \<and>
       disp s3 = (disp s2)(sig := disp s sig) \<and> saved s3 = (saved s2)(sig := None) \<and>
       (\<forall>x. x \<notin> insert sig (call_sig ` set calls) \<longrightarrow> disp s3 x = disp s x \<and> saved s3 x = saved s x))"
proof -
  note a = evsig_add_saves [OF assms(1-3)]
  have f: "saved s1 x = saved s x \<and> disp s1 x = disp s x" if "x \<noteq> sig" for x
    using evsig_call_frame [of "Sig_add sig" ok sigok handler addev s] assms(1-3) that by (auto simp: evsig_call_def)
  from evsig_calls_frame [of calls ok sigok handler addev s1] assms(4) obtain rs s2 where
    c: "evsig_calls ok sigok handler addev calls s1 = Done (rs, s2)"
      "\<forall>x. x \<notin> call_sig ` set calls \<longrightarrow> saved s2 x = saved s1 x \<and> disp s2 x = disp s1 x" by auto
  have n: "sig \<notin> call_sig ` set calls" using assms(4) by auto
  obtain r s3 where r: "evsig_restore_handler sigok (evsig_add_err s2) sig = (r, s3)" by fastforce
  have "saved (evsig_add_err s2) sig = Some (disp s sig)" using c(2) n a by simp
  from restore_handler_saved [OF assms(1) r this] a have
    d: "r = 0" "saved s3 = (saved s2)(sig := None)" "disp s3 = (disp s2)(sig := disp s sig)" by simp_all
  have "evsig_del sigok s2 sig 0 EV_SIGNAL = Done (0, s3)" using r d(1) assms(1,2) by (simp add: evsig_del_def)
  moreover have "disp s3 x = disp s x \<and> saved s3 x = saved s x" if "x \<notin> insert sig (call_sig ` set calls)" for x
    using that f [of x] c(2) d by simp
  ultimately show ?thesis using a c n d by auto
qed

text \<open>Signal 15 is caught, then 20, for which the array grows, and 2 is caught and released.\<close>

definition sample_sig_calls :: "sig_call list" where
  "sample_sig_calls = [Sig_add 20, Sig_add 2, Sig_del 2]"

theorem evsig_add_del_roundtrip_witness:
  "\<exists>s1 rs s2 s3. evsig_add (\<lambda>_. True) (\<lambda>_. True) 8 (\<lambda>b. (0, b)) sample_sig 15 0 EV_SIGNAL = Done (0, s1) \<and> disp s1 15 = 8 \<and>
    evsig_calls (\<lambda>_. True) (\<lambda>_. True) 8 (\<lambda>b. (0, b)) sample_sig_calls s1 = Done (rs, s2) \<and>
    evsig_del (\<lambda>_. True) s2 15 0 EV_SIGNAL = Done (0, s3) \<and> disp s3 15 = 0 \<and> disp s3 20 = disp s2 20"
proof -
  have "\<exists>s1. evsig_add (\<lambda>_. True) (\<lambda>_. True) 8 (\<lambda>b. (0, b)) sample_sig 15 0 EV_SIGNAL = Done (0, s1)"
    by (simp add: evsig_add_def sample_sig_def NSIG_def evsig_set_handler_def eval_nat_numeral)
  then obtain s1 where a: "evsig_add (\<lambda>_. True) (\<lambda>_. True) 8 (\<lambda>b. (0, b)) sample_sig 15 0 EV_SIGNAL = Done (0, s1)" by blast
  have "\<forall>c \<in> set sample_sig_calls. 0 \<le> call_sig c \<and> call_sig c < NSIG \<and> call_sig c \<noteq> 15"
    by (simp add: sample_sig_calls_def NSIG_def)
  from evsig_add_del_roundtrip [OF _ _ a this] a show ?thesis by (auto simp: NSIG_def sample_sig_def)
qed

text \<open>
  Deallocating the base restores the original handler of every signal it caught, and forgets the
  global base when it is this one.
\<close>

theorem evsig_dealloc_restores:
  assumes "sig_wf sigok handler orig s" "\<And>sig. sig_caught s sig \<Longrightarrow> sig < NSIG"
  shows "disp (evsig_dealloc sigok delev s) = orig \<and> sh_old (evsig_dealloc sigok delev s) = [] \<and>
    (g_base s = Some (self s) \<longrightarrow> g_base (evsig_dealloc sigok delev s) \<noteq> Some (self s))"
proof -
  define s1 where "s1 = (if ev_signal_added s then s\<lparr>rest := delev (rest s), ev_signal_added := False\<rparr> else s)"
  have s1: "sig_wf sigok handler orig s1" "saved s1 = saved s" using assms(1) by (simp_all add: s1_def sig_wf_def)
  let ?s2 = "evsig_restore_all sigok s1 [0..<nat NSIG]"
  have r: "sig_wf sigok handler orig ?s2" "saved ?s2 = (\<lambda>sig. if sig \<in> int ` {0..<nat NSIG} then None else saved s1 sig)"
    using restore_all_orig [OF s1(1), of "[0..<nat NSIG]"] by simp_all
  have "saved ?s2 sig = None" for sig
  proof (rule ccontr)
    assume a: "saved ?s2 sig \<noteq> None"
    then have "sig \<notin> int ` {0..<nat NSIG}" "saved s1 sig \<noteq> None" using r(2) by (auto split: if_splits)
    moreover from this have "0 \<le> sig" "sig < NSIG" using assms(2) [of sig] s1(2) by (auto simp: sig_caught_def saved_def split: if_splits)
    ultimately show False by (metis atLeastLessThan_iff image_eqI int_nat_eq nat_less_eq_zless zero_le)
  qed
  then have d: "disp ?s2 = orig" using r(1) sig_wfD [OF r(1)] by (auto simp: fun_eq_iff)
  have "self ?s2 = self s" by (simp add: restore_all_self s1_def)
  then show ?thesis using d by (simp add: evsig_dealloc_def Let_def s1_def [symmetric])
qed

theorem evsig_dealloc_restores_witness:
  "disp (evsig_dealloc (\<lambda>_. True) id sample_sig) = (\<lambda>_. 0)"
proof -
  have "\<And>sig. sig_caught sample_sig sig \<Longrightarrow> sig < NSIG" by (simp add: sig_caught_def saved_def sample_sig_def)
  from evsig_dealloc_restores [OF sample_sig_wf this, of id] show ?thesis by simp
qed

text \<open>
  The error path of \<^verbatim>\<open>evsig_add\<close> that is taken when the internal event cannot be added leaves the handler
  installed and the old one saved, although the signal is reported as not added.
\<close>

lemma evsig_add_failure_keeps_handler:
  assumes "0 \<le> sig" "sig < NSIG" "\<And>n. ok n" "sigok sig" "\<not> ev_signal_added s" "fst (addev (rest s)) = -1"
  shows "\<exists>s'. evsig_add ok sigok handler addev s sig 0 EV_SIGNAL = Done (-1, s') \<and> disp s' sig = handler \<and>
    ev_n_signals_added s' = ev_n_signals_added s"
  using assms by (auto simp: evsig_add_def evsig_set_handler_def Let_def evsig_add_err_def split: prod.splits)

end
