(* ===== verification/Base_Epoll.thy ===== *)
theory Base_Epoll
  imports Base_Run Evmap_Epoll Evsig
begin

text \<open>
  An event base over the epoll backend with its changelist and the signal backend: the state of the
  backends is the pair of the two, each operation changes its own component, and the maps over them
  meet what the event base relies on. The internal event for the signal socket pair, which
  \<^verbatim>\<open>evsig_add\<close> adds once, is in the component \<open>rest\<close> of the signal backend.
\<close>

section \<open>Two backends side by side\<close>

definition on_fst ::
  "('a \<Rightarrow> int \<Rightarrow> u16 \<Rightarrow> u16 \<Rightarrow> (int \<times> 'a) outcome) \<Rightarrow> 'a \<times> 'b \<Rightarrow> int \<Rightarrow> u16 \<Rightarrow> u16 \<Rightarrow> (int \<times> 'a \<times> 'b) outcome" where
  "on_fst f k fd old events = bind_outcome (f (fst k) fd old events) (\<lambda>(r, x). Done (r, x, snd k))"

definition on_snd ::
  "('b \<Rightarrow> int \<Rightarrow> u16 \<Rightarrow> u16 \<Rightarrow> (int \<times> 'b) outcome) \<Rightarrow> 'a \<times> 'b \<Rightarrow> int \<Rightarrow> u16 \<Rightarrow> u16 \<Rightarrow> (int \<times> 'a \<times> 'b) outcome" where
  "on_snd f k fd old events = bind_outcome (f (snd k) fd old events) (\<lambda>(r, x). Done (r, fst k, x))"

definition pair_env ::
  "'k eventop_ops \<Rightarrow> 's eventop_ops \<Rightarrow> (nat \<Rightarrow> bool) \<Rightarrow> bool \<Rightarrow> ('s \<Rightarrow> 's) \<Rightarrow> ('k \<times> 's) base_env" where
  "pair_env io_ops sig_ops ok debug set_base =
     \<lparr>evsel = \<lparr>op_add = on_fst (op_add io_ops), op_del = on_fst (op_del io_ops), fdinfo_len = fdinfo_len io_ops\<rparr>,
      evsigsel = \<lparr>op_add = on_snd (op_add sig_ops), op_del = on_snd (op_del sig_ops), fdinfo_len = fdinfo_len sig_ops\<rparr>,
      alloc_ok = ok, debug_mode = debug, sig_set_base = map_prod id set_base\<rparr>"

definition pair_maps ::
  "('k \<Rightarrow> bool) \<Rightarrow> ('k \<Rightarrow> int \<Rightarrow> u16) \<Rightarrow> (int \<Rightarrow> bool) \<Rightarrow> ('s \<Rightarrow> bool) \<Rightarrow> ('s \<Rightarrow> int \<Rightarrow> bool) \<Rightarrow> ('k \<times> 's) event_base \<Rightarrow> bool" where
  "pair_maps bwf watch pollable swf caught b \<longleftrightarrow>
     evmap_io_inv (\<lambda>k. bwf (fst k)) (\<lambda>k. watch (fst k)) pollable b \<and>
     evmap_sig_inv (\<lambda>k. swf (snd k)) (\<lambda>k. caught (snd k)) b \<and>
     (\<forall>sig. \<forall>ev \<in> set (sig_list b sig). ev_events (evs b ev) AND IO_EVENTS = 0)"

definition map_entry :: "'k event_base \<Rightarrow> nat \<Rightarrow> bool" where
  "map_entry b a \<longleftrightarrow>
     (if ev_events (evs b a) AND IO_EVENTS \<noteq> 0 then a \<in> set (io_list b (ev_fd (evs b a))) else a \<in> set (sig_list b (ev_fd (evs b a))))"

context eventop
begin

lemma on_fst_eventop: "eventop (on_fst badd) (on_fst bdel) (\<lambda>k. bwf (fst k) \<and> snd k = s0) (\<lambda>k. watch (fst k)) pollable"
proof
  fix k fd old events
  assume k: "bwf (fst k) \<and> snd k = s0" "watch (fst k) fd = old" "events AND IO_EVENTS \<noteq> 0"
  show "on_fst badd k fd old events = Done (-1, k)" if "\<not> pollable fd"
    using badd_refused [OF _ k(2,3) that] k(1) by (auto simp: on_fst_def prod_eq_iff)
  assume p: "\<not> has events EV_SIGNAL" "pollable fd"
  show "\<exists>k'. on_fst badd k fd old events = Done (0, k') \<and> (bwf (fst k') \<and> snd k' = s0) \<and>
      watch (fst k') = (watch (fst k))(fd := (old OR events) AND IO_EVENTS)"
    using badd_ok [OF _ k(2,3) p] k(1) by (fastforce simp: on_fst_def)
  show "\<exists>k'. on_fst bdel k fd old events = Done (0, k') \<and> (bwf (fst k') \<and> snd k' = s0) \<and>
      watch (fst k') = (watch (fst k))(fd := (old AND NOT events) AND IO_EVENTS)"
    using bdel_ok [OF _ k(2,3) p] k(1) by (fastforce simp: on_fst_def)
qed

end

context sigop
begin

lemma on_snd_sigop: "sigop (on_snd sadd) (on_snd sdel) (\<lambda>k. swf (snd k) \<and> fst k = k0) (\<lambda>k. caught (snd k))"
proof
  fix k sig
  assume k: "swf (snd k) \<and> fst k = k0" "0 \<le> sig" "sig < NSIG"
  show "\<exists>r k'. on_snd sadd k sig 0 EV_SIGNAL = Done (r, k') \<and> (swf (snd k') \<and> fst k' = k0) \<and>
      (r = 0 \<and> caught (snd k') = (caught (snd k))(sig := True) \<or> r = -1 \<and> caught (snd k') = caught (snd k))" if "\<not> caught (snd k) sig"
    using sadd_ok [OF _ k(2,3) that] k(1) by (fastforce simp: on_snd_def)
  show "\<exists>r k'. on_snd sdel k sig 0 EV_SIGNAL = Done (r, k') \<and> (swf (snd k') \<and> fst k' = k0) \<and> (r = 0 \<or> r = -1) \<and>
      caught (snd k') = (caught (snd k))(sig := False)" if "caught (snd k) sig"
    using sdel_ok [OF _ k(2,3) that] k(1) by (fastforce simp: on_snd_def)
qed

end

locale two_backends = eventop badd bdel bwf watch pollable + sigop sadd sdel swf caught
  for badd :: "'k \<Rightarrow> int \<Rightarrow> u16 \<Rightarrow> u16 \<Rightarrow> (int \<times> 'k) outcome" and bdel bwf watch pollable
    and sadd :: "'s \<Rightarrow> int \<Rightarrow> u16 \<Rightarrow> u16 \<Rightarrow> (int \<times> 's) outcome" and sdel swf caught +
  fixes io_ops :: "'k eventop_ops" and sig_ops :: "'s eventop_ops"
  assumes ops: "op_add io_ops = badd" "op_del io_ops = bdel" "op_add sig_ops = sadd" "op_del sig_ops = sdel"
begin

lemma entry_frame: "same_maps b b' \<Longrightarrow> io_list b' = io_list b \<and> sig_list b' = sig_list b"
  by (simp add: same_maps_def io_list_def sig_list_def)

lemma io_inv_cong:
  assumes "same_maps b b'" "evmap_io_inv f g p b"
  shows "evmap_io_inv f g p b'"
proof -
  have e: "ev_fd (evs b' a) = ev_fd (evs b a)" "ev_events (evs b' a) = ev_events (evs b a)" for a using assms(1) by (simp_all add: same_maps_def)
  have u: "union_events (evs b') xs = union_events (evs b) xs" for xs by (simp add: union_events_def e)
  have "io_ctx_ok (evs b') = io_ctx_ok (evs b)" by (simp add: io_ctx_ok_def e fun_eq_iff)
  then have "io_map_ok (evs b') (io b') = io_map_ok (evs b) (io b)"
    using assms(1) by (simp add: io_map_ok_def same_maps_def cong: option.case_cong)
  then show ?thesis using assms entry_frame [OF assms(1)] by (simp add: evmap_io_inv_def u same_maps_def)
qed

lemma sig_inv_cong:
  assumes "same_maps b b'" "evmap_sig_inv f g b"
  shows "evmap_sig_inv f g b'"
  using assms entry_frame [OF assms(1)] by (simp add: evmap_sig_inv_def same_maps_def)

abbreviation "mp \<equiv> pair_maps bwf watch pollable swf caught"

lemma mpD:
  assumes "mp b"
  shows "evmap_io_inv (\<lambda>k. bwf (fst k) \<and> snd k = snd (backend b)) (\<lambda>k. watch (fst k)) pollable b"
    "evmap_sig_inv (\<lambda>k. swf (snd k) \<and> fst k = fst (backend b)) (\<lambda>k. caught (snd k)) b"
    "ev \<in> set (sig_list b sig) \<Longrightarrow> ev_events (evs b ev) AND IO_EVENTS = 0"
    "distinct (io_list b fd)" "distinct (sig_list b sig)"
proof -
  show "evmap_io_inv (\<lambda>k. bwf (fst k) \<and> snd k = snd (backend b)) (\<lambda>k. watch (fst k)) pollable b"
    "evmap_sig_inv (\<lambda>k. swf (snd k) \<and> fst k = fst (backend b)) (\<lambda>k. caught (snd k)) b"
    "ev \<in> set (sig_list b sig) \<Longrightarrow> ev_events (evs b ev) AND IO_EVENTS = 0"
    using assms by (auto simp: pair_maps_def evmap_io_inv_def evmap_sig_inv_def)
  show "distinct (sig_list b sig)" using assms by (simp add: pair_maps_def evmap_sig_inv_def)
  have "io_map_ok (evs b) (io b)" using assms by (simp add: pair_maps_def evmap_io_inv_def)
  then show "distinct (io_list b fd)"
    by (auto simp: io_list_def slot_list_def io_ctx_ok_def split: option.splits dest: io_map_okD [where i = "nat fd"])
qed

text \<open>A change of one map with the component of its backend leaves the other map alone.\<close>

lemma mp_io:
  assumes "mp b" "evmap_io_inv (\<lambda>k. bwf (fst k) \<and> snd k = snd (backend b)) (\<lambda>k. watch (fst k)) pollable (b\<lparr>io := m, backend := k\<rparr>)"
  shows "mp (b\<lparr>io := m, sigmap := sigmap b, backend := k\<rparr>)" "sig_list (b\<lparr>io := m, sigmap := sigmap b, backend := k\<rparr>) = sig_list b"
  using assms by (auto simp: pair_maps_def evmap_io_inv_def evmap_sig_inv_def sig_list_def)

lemma mp_sig:
  assumes "mp b" "evmap_sig_inv (\<lambda>k. swf (snd k) \<and> fst k = fst (backend b)) (\<lambda>k. caught (snd k)) (b\<lparr>sigmap := s, backend := k\<rparr>)"
    "\<And>sig ev. ev \<in> set (sig_list (b\<lparr>sigmap := s, backend := k\<rparr>) sig) \<Longrightarrow> ev_events (evs b ev) AND IO_EVENTS = 0"
  shows "mp (b\<lparr>io := io b, sigmap := s, backend := k\<rparr>)" "io_list (b\<lparr>io := io b, sigmap := s, backend := k\<rparr>) = io_list b"
  using assms by (auto simp: pair_maps_def evmap_io_inv_def evmap_sig_inv_def io_list_def)

lemmas io_add' = eventop.io_add [OF on_fst_eventop] and io_del' = eventop.io_del [OF on_fst_eventop]
  and sig_add' = sigop.signal_add [OF on_snd_sigop] and sig_del' = sigop.signal_del [OF on_snd_sigop]

lemma pair_del:
  assumes m: "mp b" and st: "stored (evs b ev)" and r: "map_entry b ev"
  shows "\<exists>r m s k. maps_del (pair_env io_ops sig_ops ok debug sb) ev b = Done (r, b\<lparr>io := m, sigmap := s, backend := k\<rparr>) \<and>
    mp (b\<lparr>io := m, sigmap := s, backend := k\<rparr>) \<and>
    (\<forall>a. map_entry (b\<lparr>io := m, sigmap := s, backend := k\<rparr>) a \<longleftrightarrow> map_entry b a \<and> a \<noteq> ev)"
proof (cases "ev_events (evs b ev) AND IO_EVENTS \<noteq> 0")
  case True
  let ?fd = "ev_fd (evs b ev)"
  have fd: "0 \<le> ?fd" "ev \<in> set (io_list b ?fd)" using True st r by (simp_all add: stored_def map_entry_def)
  obtain q b' where q: "evmap_io_del (evsel (pair_env io_ops sig_ops ok debug sb)) b ?fd ev = Done (q, b')"
    "evmap_io_inv (\<lambda>k. bwf (fst k) \<and> snd k = snd (backend b)) (\<lambda>k. watch (fst k)) pollable b'" "io_frame b b'"
    "io_list b' = (io_list b)(?fd := remove1 ev (io_list b ?fd))"
    using io_del' [OF mpD(1) [OF m] _ refl fd, of "evsel (pair_env io_ops sig_ops ok debug sb)"] by (auto simp: pair_env_def ops)
  from q(3) obtain m' k where b': "b' = b\<lparr>io := m', backend := k\<rparr>" by (auto simp: io_frame_def)
  let ?b = "b\<lparr>io := m', sigmap := sigmap b, backend := k\<rparr>"
  have eq: "b' = ?b" by (simp add: b')
  note mp = mp_io [OF m q(2) [unfolded b']]
  have "map_entry ?b a \<longleftrightarrow> map_entry b a \<and> a \<noteq> ev" for a
    using mp(2) q(4) mpD(4) [OF m, of ?fd] True unfolding eq by (auto simp: map_entry_def)
  moreover have "maps_del (pair_env io_ops sig_ops ok debug sb) ev b = Done (q, ?b)" using q(1) True eq by (simp add: maps_del_def)
  ultimately show ?thesis using mp(1) by blast
next
  case False
  let ?sig = "ev_fd (evs b ev)"
  have mem: "ev \<in> set (sig_list b ?sig)" using False r by (simp add: map_entry_def)
  have "op_del (evsigsel (pair_env io_ops sig_ops ok debug sb)) = on_snd sdel" by (simp add: pair_env_def ops)
  from sig_del' [OF mpD(2) [OF m] this mem] obtain q b' s k where
    q: "evmap_signal_del (evsigsel (pair_env io_ops sig_ops ok debug sb)) b ?sig ev = Done (q, b')"
    "evmap_sig_inv (\<lambda>k. swf (snd k) \<and> fst k = fst (backend b)) (\<lambda>k. caught (snd k)) b'" "b' = b\<lparr>sigmap := s, backend := k\<rparr>"
    "sig_list b' = (sig_list b)(?sig := remove1 ev (sig_list b ?sig))" by blast
  let ?b = "b\<lparr>io := io b, sigmap := s, backend := k\<rparr>"
  have eq: "b' = ?b" by (simp add: q(3))
  have sub: "ev_events (evs b a) AND IO_EVENTS = 0" if "a \<in> set (sig_list b' sig)" for sig a
    using that q(4) mpD(3) [OF m] set_remove1_subset [of ev "sig_list b ?sig"] by (auto split: if_splits)
  note mp = mp_sig [OF m q(2) [unfolded q(3)] sub [unfolded q(3)]]
  have "map_entry ?b a \<longleftrightarrow> map_entry b a \<and> a \<noteq> ev" for a
    using mp(2) q(4) mpD(5) [OF m, of ?sig] False unfolding eq by (auto simp: map_entry_def)
  moreover have "maps_del (pair_env io_ops sig_ops ok debug sb) ev b = Done (q, ?b)" using q(1) False eq by (simp add: maps_del_def)
  ultimately show ?thesis using mp(1) by (intro exI [of _ q] exI [of _ "io b"] exI [of _ s] exI [of _ k]) simp
qed

lemma pair_add:
  assumes m: "mp b" and st: "stored (evs b ev)" and um: "unmixed (evs b ev)" and r: "\<not> map_entry b ev"
  shows "\<exists>r m s k. maps_add (pair_env io_ops sig_ops ok debug sb) ev b = Done (r, b\<lparr>io := m, sigmap := s, backend := k\<rparr>) \<and> r \<in> {-1, 0, 1} \<and>
    mp (b\<lparr>io := m, sigmap := s, backend := k\<rparr>) \<and>
    (\<forall>a. map_entry (b\<lparr>io := m, sigmap := s, backend := k\<rparr>) a \<longleftrightarrow> map_entry b a \<or> a = ev \<and> r \<noteq> -1)"
proof (cases "ev_events (evs b ev) AND IO_EVENTS \<noteq> 0")
  case True
  let ?fd = "ev_fd (evs b ev)" and ?E = "pair_env io_ops sig_ops ok debug sb"
  have fd: "0 \<le> ?fd" "\<not> has (ev_events (evs b ev)) EV_SIGNAL" "ev \<notin> set (io_list b ?fd)"
    using True st um r by (simp_all add: stored_def unmixed_def map_entry_def)
  have "op_add (evsel ?E) = on_fst badd" by (simp add: pair_env_def ops)
  from io_add' [OF mpD(1) [OF m] this refl fd(1,2) True fd(3)] obtain q b' where
    q: "evmap_io_add (debug_mode ?E) (alloc_ok ?E) (evsel ?E) b ?fd ev = Done (q, b')"
    "evmap_io_inv (\<lambda>k. bwf (fst k) \<and> snd k = snd (backend b)) (\<lambda>k. watch (fst k)) pollable b'" "io_frame b b'"
    "if q = -1 then io_list b' = io_list b \<and> backend b' = backend b
     else (q = 0 \<or> q = 1) \<and> io_list b' = (io_list b)(?fd := ev # io_list b ?fd)" by blast
  from q(3) obtain m' k where b': "b' = b\<lparr>io := m', backend := k\<rparr>" by (auto simp: io_frame_def)
  let ?b = "b\<lparr>io := m', sigmap := sigmap b, backend := k\<rparr>"
  have eq: "b' = ?b" by (simp add: b')
  note mp = mp_io [OF m q(2) [unfolded b']]
  have "map_entry ?b a \<longleftrightarrow> map_entry b a \<or> a = ev \<and> q \<noteq> -1" for a
    using mp(2) q(4) True unfolding eq by (auto simp: map_entry_def split: if_splits)
  moreover have "maps_add ?E ev b = Done (q, ?b)" using q(1) True eq by (simp add: maps_add_def)
  moreover have "q \<in> {-1, 0, 1}" using q(4) by (auto split: if_splits)
  ultimately show ?thesis using mp(1) by blast
next
  case False
  let ?sig = "ev_fd (evs b ev)" and ?E = "pair_env io_ops sig_ops ok debug sb"
  show ?thesis
  proof (cases "0 \<le> ?sig \<and> ?sig < NSIG")
    case out: False
    then have "maps_add ?E ev b = Done (-1, b)" using False by (auto simp: maps_add_def evmap_signal_add_def)
    then show ?thesis using m by (intro exI [of _ "-1"] exI [of _ "io b"] exI [of _ "sigmap b"] exI [of _ "backend b"]) simp
  next
    case True
    have mem: "ev \<notin> set (sig_list b ?sig)" using False r by (simp add: map_entry_def)
    have "op_add (evsigsel ?E) = on_snd sadd" by (simp add: pair_env_def ops)
    from sig_add' [OF mpD(2) [OF m] this refl _ _ mem] True obtain q b' s k where
      q: "evmap_signal_add (alloc_ok ?E) (evsigsel ?E) b ?sig ev = Done (q, b')"
      "evmap_sig_inv (\<lambda>k. swf (snd k) \<and> fst k = fst (backend b)) (\<lambda>k. caught (snd k)) b'" "b' = b\<lparr>sigmap := s, backend := k\<rparr>"
      "if q = -1 then sig_list b' = sig_list b else q = 1 \<and> sig_list b' = (sig_list b)(?sig := ev # sig_list b ?sig)" by blast
    let ?b = "b\<lparr>io := io b, sigmap := s, backend := k\<rparr>"
    have eq: "b' = ?b" by (simp add: q(3))
    have sub: "ev_events (evs b a) AND IO_EVENTS = 0" if "a \<in> set (sig_list b' sig)" for sig a
      using that q(4) mpD(3) [OF m] False by (auto split: if_splits)
    note mp = mp_sig [OF m q(2) [unfolded q(3)] sub [unfolded q(3)]]
    have "map_entry ?b a \<longleftrightarrow> map_entry b a \<or> a = ev \<and> q \<noteq> -1" for a
      using mp(2) q(4) False unfolding eq by (auto simp: map_entry_def split: if_splits)
    moreover have "maps_add ?E ev b = Done (q, ?b)" using q(1) False eq by (simp add: maps_add_def)
    moreover have "q \<in> {-1, 0, 1}" using q(4) by (auto split: if_splits)
    ultimately show ?thesis using mp(1) by (intro exI [of _ q] exI [of _ "io b"] exI [of _ s] exI [of _ k]) simp
  qed
qed

end

sublocale two_backends \<subseteq> bm: evmaps "pair_env io_ops sig_ops ok debug sb" "pair_maps bwf watch pollable swf caught" map_entry for ok debug sb
proof
  fix b b' :: "('k \<times> 's) event_base" and a ev
  show "mp b'" if "same_maps b b'" "mp b"
    using that io_inv_cong [OF that(1)] sig_inv_cong [OF that(1)] entry_frame [OF that(1)]
    by (simp add: pair_maps_def same_maps_def)
  show "map_entry b' a = map_entry b a" if "same_maps b b'"
    using that entry_frame [OF that] by (simp add: map_entry_def same_maps_def)
qed ((rule pair_del; assumption), (rule pair_add; assumption))

section \<open>The base with epoll and signals\<close>

definition evsigops :: "(nat \<Rightarrow> bool) \<Rightarrow> (int \<Rightarrow> bool) \<Rightarrow> 'h \<Rightarrow> ('b \<Rightarrow> 'b) \<Rightarrow> ('h, 'b) evsig_info eventop_ops" where
  "evsigops ok sigok handler addev =
     \<lparr>op_add = evsig_add ok sigok handler (\<lambda>b. (0, addev b)), op_del = evsig_del sigok, fdinfo_len = 0\<rparr>"

interpretation epsig: two_backends "epoll_changelist_add (\<lambda>_. True)" "epoll_changelist_del (\<lambda>_. True)" "epoll_wf interest"
    "epoll_watch interest" "\<lambda>_. True" "evsig_add ok sigok handler (\<lambda>b. (0, addev b))" "evsig_del sigok" "sig_wf sigok handler orig" sig_caught
    "epollops_changelist (\<lambda>_. True)" "evsigops ok sigok handler addev" for interest ok sigok handler addev orig
  by unfold_locales (simp_all add: evsigops_def)

end
