(* ===== verification/Base_Props.thy ===== *)
theory Base_Props
  imports Base_Epoll Base_Run
begin

text \<open>
  The properties of an event base of \<^verbatim>\<open>src/event.c\<close> that runs on the epoll backend with its changelist and
  on the signal backend.
\<close>

section \<open>The base\<close>

abbreviation epoll_base_env ::
  "(nat \<Rightarrow> bool) \<Rightarrow> (int \<Rightarrow> bool) \<Rightarrow> 'h \<Rightarrow> ('b \<Rightarrow> 'b) \<Rightarrow> (nat \<Rightarrow> bool) \<Rightarrow> bool \<Rightarrow> ('k epollop \<times> ('h, 'b) evsig_info) base_env" where
  "epoll_base_env ok sigok handler addev al debug \<equiv>
     pair_env (epollops_changelist (\<lambda>_. True)) (evsigops ok sigok handler addev) al debug evsig_loop_base"

abbreviation epoll_base_inv ::
  "('k \<Rightarrow> int \<rightharpoonup> u32) \<Rightarrow> (int \<Rightarrow> bool) \<Rightarrow> 'h \<Rightarrow> (int \<Rightarrow> 'h) \<Rightarrow> ('k epollop \<times> ('h, 'b) evsig_info) event_base \<Rightarrow> bool" where
  "epoll_base_inv interest sigok handler orig \<equiv>
     base_inv (pair_maps (epoll_wf interest) (epoll_watch interest) (\<lambda>_. True) (sig_wf sigok handler orig) sig_caught) map_entry"

text \<open>A base with two timers, events 1 and 2 in the heap, and a third event that waits for a descriptor.\<close>

definition sample_events :: "nat \<Rightarrow> event" where
  "sample_events a =
     (sample_event (if a = 1 \<or> a = 2 then -1 else 5) (if a = 1 \<or> a = 2 then 0 else EV_READ))
       \<lparr>evcb_flags := (if a = 1 \<or> a = 2 then EVLIST_INIT OR EVLIST_TIMEOUT else EVLIST_INIT), ev_timeout := sample_tmo a\<rparr>"

definition sample_base :: "((int \<rightharpoonup> u32) epollop \<times> (nat, unit) evsig_info) event_base" where
  "sample_base =
     \<lparr>evs = sample_events, backend = (sample_epollop, sample_sig), io = [], sigmap = [], timeheap = sample_heap,
      activequeues = [[]], active_later_queue = [], virtual_event_count = 0, virtual_event_count_max = 0,
      event_count = 2, event_count_max = 2, event_count_active = 0, event_count_active_max = 0,
      event_gotterm = False, event_break = False, event_continue = False, event_running_priority = -1,
      running_loop = False, n_deferreds_queued = 0, common_timeout_queues = [], n_common_timeouts_allocated = 0,
      tv_cache = Timeval 0 0, no_cache_time = False, clock = (\<lambda>n. Timeval (int n + 1) 0), tick = 0, current_event = None,
      sig_ncalls = 0, max_dispatch_time = Timeval (-1) 0, max_dispatch_callbacks = INT_MAX, limit_callbacks_after_prio = 1\<rparr>"

lemma sample_bits: "evbit j sample_base a \<longleftrightarrow> j = 7 \<or> j = 0 \<and> (a = 1 \<or> a = 2)"
  by (auto simp: evbit_def sample_base_def sample_events_def bit_or_iff)

lemma sample_fields:
  "tmo sample_base a = sample_tmo a" "evcb_pri (evs sample_base a) = 0" "length (activequeues sample_base) = 1"
  "ev_events (evs sample_base a) = (if a = 1 \<or> a = 2 then 0 else EV_READ)"
  by (simp_all add: tmo_def sample_base_def sample_events_def sample_event_def)

lemma sample_lists: "io_list sample_base fd = []" "sig_list sample_base fd = []"
  by (auto simp: io_list_def sig_list_def slot_list_def sample_base_def)

lemma sample_counts: "counts_ok sample_base"
proof -
  have q: "on_queue 0 sample_base = {1, 2}" "on_queue 1 sample_base = {}" "on_queue 3 sample_base = {}" "on_queue 5 sample_base = {}"
    "counted 0 sample_base = {1, 2}" "counted 1 sample_base = {}" "counted 3 sample_base = {}" "counted 5 sample_base = {}"
    by (auto simp: on_queue_def counted_def sample_bits)
  show ?thesis unfolding counts_ok_def QUEUES_def by (simp add: q [simplified]) (simp add: sample_base_def)
qed

lemma sample_timers: "timers_ok sample_base"
proof -
  have t: "tmo sample_base = sample_tmo" by (simp add: sample_fields fun_eq_iff)
  have f: "timeheap sample_base = sample_heap" "common_timeout_queues sample_base = []" by (simp_all add: sample_base_def)
  have small: "usec_small (sample_tmo a)" for a by (simp add: usec_small_def sample_tmo_def)
  have ha: "ha sample_heap < 2 ^ 59" by (simp add: sample_heap_def)
  show ?thesis unfolding timers_ok_def t f using sample_heap_inv ha small
    by (auto simp: sample_heap_elems sample_bits tmo_wf_def)
qed

lemma sample_maps: "pair_maps (epoll_wf (\<lambda>k. k)) (epoll_watch (\<lambda>k. k)) (\<lambda>_. True) (sig_wf (\<lambda>_. True) 8 (\<lambda>_. 0)) sig_caught sample_base"
proof -
  have "epoll_wf (\<lambda>k. k) sample_epollop" "epoll_watch (\<lambda>k. k) sample_epollop fd = 0" for fd
    by (simp_all add: sample_epollop_def epoll_wf_def epoll_watch_def changelist_ok_def change_of_def watched_events_def)
  moreover have "sig_caught sample_sig sig = False" for sig by (simp add: sig_caught_def saved_def sample_sig_def)
  moreover have "backend sample_base = (sample_epollop, sample_sig)" "io sample_base = []" by (simp_all add: sample_base_def)
  ultimately show ?thesis
    by (simp add: pair_maps_def evmap_io_inv_def evmap_sig_inv_def sample_lists io_map_ok_def union_events_def io_mask_zero sample_sig_wf)
qed

lemma sample_base_inv: "epoll_base_inv (\<lambda>k. k) (\<lambda>_. True) 8 (\<lambda>_. 0) sample_base"
proof -
  have "queues_ok sample_base"
    by (auto simp: queues_ok_def sample_bits sample_fields) (simp_all add: sample_base_def)
  moreover have "event_ok sample_base a" for a by (auto simp: event_ok_def sample_bits sample_fields QUEUES_def)
  moreover have "\<not> map_entry sample_base a" for a by (simp add: map_entry_def sample_lists)
  ultimately show ?thesis
    unfolding base_inv_def using sample_timers sample_counts sample_maps by (auto simp: sample_bits)
qed

section \<open>Properties\<close>

lemma not_pending: "(\<And>k. k \<in> QUEUES \<Longrightarrow> \<not> evbit k b ev) \<Longrightarrow> event_pending ev event b = 0"
  by (simp add: event_pending_def QUEUES_def Let_def)

text \<open>
  C19. Deleting an event that is not being finalized always returns; afterwards the event is on no queue and
  not pending for anything, the flags of all other events are as before, and the invariant of the base
  holds: the flags agree with the heap, the lists, the active queues and the maps, the counters count
  them, and epoll, once the collected changes are applied, and the signal handlers watch exactly what the
  remaining events wait for. Memory for the list of changes is available.
\<close>

theorem event_del_off_every_queue:
  assumes "epoll_base_inv interest sigok handler orig b" "\<not> flag b ev EVLIST_FINALIZING"
  shows "\<exists>r b'. event_del (epoll_base_env ok sigok handler addev al debug) ev b = Done (r, b') \<and>
    epoll_base_inv interest sigok handler orig b' \<and> off_queues QUEUES ev b b' \<and>
    event_pending ev (EV_TIMEOUT OR IO_EVENTS OR EV_SIGNAL) b' = 0"
proof -
  have "EVENT_DEL_AUTOBLOCK = EVENT_DEL_EVEN_IF_FINALIZING \<or> \<not> evbit 6 b ev" using assms(2) by simp
  from epsig.bm.base_del [OF assms(1) this] show ?thesis unfolding event_del_def off_queues_def by (metis not_pending)
qed

theorem event_del_off_every_queue_witness:
  "\<exists>r b'. event_del (epoll_base_env (\<lambda>_. True) (\<lambda>_. True) 8 (\<lambda>b. b) (\<lambda>_. True) False) 1 sample_base = Done (r, b') \<and>
    evbit 0 sample_base 1 \<and> \<not> evbit 0 b' 1 \<and> evbit 0 b' 2"
proof -
  have "\<not> flag sample_base 1 EVLIST_FINALIZING" by (simp add: sample_bits)
  from event_del_off_every_queue [OF sample_base_inv this, of "\<lambda>_. True" "\<lambda>b. b" "\<lambda>_. True" False]
  show ?thesis by (auto simp: off_queues_def sample_bits QUEUES_def)
qed

text \<open>
  Activating an event that is not being finalized puts it on the active queue of its priority, from no
  queue or from the queue of events to activate later, keeps every other queue, and records the
  reason: the new one, or the union with the old one when it was active already.
\<close>

theorem event_active_queues:
  assumes "epoll_base_inv interest sigok handler orig b" "\<not> flag b ev EVLIST_FINALIZING"
    "evcb_pri (evs b ev) < length (activequeues b)"
  shows "\<exists>b'. event_active_nolock ev res ncalls b = Done b' \<and> epoll_base_inv interest sigok handler orig b' \<and>
    ev \<in> set (activequeues b' ! evcb_pri (evs b ev)) \<and> ev \<notin> set (active_later_queue b') \<and> activated ev b b' \<and>
    ev_res (evs b' ev) = (if flag b ev EVLIST_ACTIVE \<or> flag b ev EVLIST_ACTIVE_LATER then ev_res (evs b ev) OR res else res)"
proof -
  have "\<not> evbit 6 b ev" using assms(2) by simp
  from epsig.bm.base_active [OF assms(1) this assms(3), of res ncalls] obtain b' where
    b': "event_active_nolock ev res ncalls b = Done b'" "epoll_base_inv interest sigok handler orig b'" "activated ev b b'" "same_data {ev} b b'"
    "ev_res (evs b' ev) = (if evbit 3 b ev \<or> evbit 5 b ev then ev_res (evs b ev) OR res else res)" by blast
  have "evbit 3 b' ev" "\<not> evbit 5 b' ev" using b'(3) by (simp_all add: activated_def)
  moreover have "evcb_pri (evs b' ev) = evcb_pri (evs b ev)" "evcb_pri (evs b ev) < length (activequeues b')" using b'(4) assms(3) by (simp_all add: same_data_def)
  moreover have "queues_ok b'" using b'(2) by (simp add: base_inv_def)
  ultimately show ?thesis using b' by (simp add: queues_ok_def)
qed

theorem event_active_queues_witness:
  "\<exists>b'. event_active_nolock 7 EV_READ 1 sample_base = Done b' \<and> 7 \<in> set (activequeues b' ! 0) \<and> ev_res (evs b' 7) = EV_READ"
proof -
  have "\<not> flag sample_base 7 EVLIST_FINALIZING" "evcb_pri (evs sample_base 7) < length (activequeues sample_base)"
    by (simp_all add: sample_bits sample_fields)
  from event_active_queues [OF sample_base_inv this, of EV_READ 1] show ?thesis by (auto simp: sample_bits sample_fields)
qed

text \<open>
  C20. The processing of timeouts always ends, and it takes exactly the events of the heap whose time has
  come: each leaves every queue and becomes active with the result \<^verbatim>\<open>EV_TIMEOUT\<close>, all other events keep
  their queues, and the invariant of the base holds afterwards.
\<close>

theorem timeout_process_expires_due:
  assumes "epoll_base_inv interest sigok handler orig b"
  shows "\<exists>b'. timeout_process (epoll_base_env ok sigok handler addev al debug) b = Some (Done b') \<and>
    epoll_base_inv interest sigok handler orig b' \<and> expired (due (fst (gettime b)) b) b b'"
proof (cases "min_heap_empty (timeheap b)")
  case True
  have t: "timers_ok b" using assms by (simp add: base_inv_def)
  have "hn (timeheap b) = 0" using True by (simp add: min_heap_empty_def)
  then have "due (fst (gettime b)) b = {}" using timers_card [OF t] by (auto simp: due_def)
  then show ?thesis using True assms expired_empty by (simp add: timeout_process_def)
next
  case False
  obtain now b1 where g: "gettime b = (now, b1)" by fastforce
  obtain n where b1: "b1 = b\<lparr>tick := n\<rparr>" using gettime_frame [OF g] by blast
  have inv1: "epoll_base_inv interest sigok handler orig b1"
    by (rule epsig.bm.inv_cong [OF assms]) (simp_all add: b1 same_maps_def tmo_def)
  have "evbit j b1 a = evbit j b a" "tmo b1 = tmo b" for j a by (auto simp: b1 evbit_def tmo_def)
  then have d: "due now b1 = due now b" "expired X b1 b' = expired X b b'" for X b' by (simp_all add: due_def expired_def)
  have "hn (timeheap b1) \<le> min_heap_size (timeheap b1)" by (simp add: min_heap_size_def)
  then obtain b' where "timeout_process_loop (min_heap_size (timeheap b1)) (epoll_base_env ok sigok handler addev al debug) now b1 = Some (Done b')"
    "epoll_base_inv interest sigok handler orig b'" "expired (due now b1) b1 b'"
    using epsig.bm.base_timeout_loop [OF inv1] by blast
  then show ?thesis using False g by (auto simp: timeout_process_def d)
qed

theorem timeout_process_expires_due_witness:
  "\<exists>b'. timeout_process (epoll_base_env (\<lambda>_. True) (\<lambda>_. True) 8 (\<lambda>b. b) (\<lambda>_. True) False) sample_base = Some (Done b') \<and>
    evbit 3 b' 1 \<and> \<not> evbit 0 b' 1 \<and> evbit 0 b' 2 \<and> \<not> evbit 3 b' 2"
proof -
  have g: "fst (gettime sample_base) = Timeval 1 0" by (simp add: gettime_def sample_base_def)
  have "due (Timeval 1 0) sample_base = {1}"
    by (auto simp: due_def sample_bits sample_fields sample_tmo_def usec_small_def less_eq_timeval_def evutil_timercmp_le_def)
  then show ?thesis
    using timeout_process_expires_due [OF sample_base_inv, of "\<lambda>_. True" "\<lambda>b. b" "\<lambda>_. True" False] unfolding g
    by (auto simp: expired_def sample_bits QUEUES_def)
qed

text \<open>
  C21. Adding an event that does not wait for a signal either succeeds or changes no queue. When it succeeds, an event that
  waits for a descriptor and is not active is registered, and a timeout is pending at the time that
  \<^verbatim>\<open>event_add_nolock_\<close> computes from the clock; other events keep their queues and times, except for the
  internal events of common timeouts, and the invariant of the base holds. The event is not being finalized and its priority
  exists; when it leaves the list of a common timeout for the heap, the heap has room or can grow.
\<close>

theorem event_add_registers:
  assumes "epoll_base_inv interest sigok handler orig b" "addable al ev tv b" "\<not> has (ev_events (evs b ev)) EV_SIGNAL"
    "alloc_small al" "internal_ok b" "ev \<notin> internal b" "clock_ok b"
  shows "\<exists>r b'. event_add_nolock (epoll_base_env ok sigok handler addev al debug) ev tv absolute b = Done (r, b') \<and>
    epoll_base_inv interest sigok handler orig b' \<and> internal_ok b' \<and>
    (\<forall>j a. a \<noteq> ev \<and> a \<notin> internal b \<longrightarrow> evbit j b' a = evbit j b a \<and> tmo b' a = tmo b a) \<and>
    (r = 0 \<and> added ev tv absolute b b' \<or> r = -1 \<and> (\<forall>j a. evbit j b' a = evbit j b a) \<and> tmo b' ev = tmo b ev)"
proof -
  have "alloc_small (alloc_ok (epoll_base_env ok sigok handler addev al debug))"
    "addable (alloc_ok (epoll_base_env ok sigok handler addev al debug)) ev tv b"
    using assms(2,4) by (simp_all add: pair_env_def)
  from epsig.bm.base_add [OF assms(1) this(2,1) assms(5-7), of absolute] show ?thesis
    by (elim exE conjE) (intro exI conjI, assumption+)
qed

lemma sample_addable: "addable al 7 (Some (Timeval 3 0)) sample_base"
  unfolding addable_def
  by (auto simp: sample_bits sample_fields unmixed_def tmo_wf_def usec_small_def)
    (simp add: gettime_def sample_base_def timeval_ok_def)

theorem event_add_registers_witness:
  "\<exists>r b'. event_add_nolock (epoll_base_env (\<lambda>_. True) (\<lambda>_. True) 8 (\<lambda>b. b) (\<lambda>n. n < 100) False) 7 (Some (Timeval 3 0)) False sample_base = Done (r, b') \<and>
    (r = 0 \<and> evbit 0 b' 7 \<and> evbit 1 b' 7 \<and> tmo b' 7 = Timeval 4 0 \<or> r = -1) \<and> evbit 0 b' 1 \<and> evbit 0 b' 2"
proof -
  have al: "alloc_small (\<lambda>n. n < 100)" by (simp add: alloc_small_def)
  have int: "internal_ok sample_base" "7 \<notin> internal sample_base" "clock_ok sample_base"
    by (simp_all add: internal_ok_def internal_def clock_ok_def sample_base_def timeval_ok_def)
  have g: "fst (gettime sample_base) = Timeval 1 0" "length (common_timeout_queues sample_base) = 0"
    by (simp_all add: gettime_def sample_base_def)
  have new: "new_timeout (fst (gettime sample_base)) (Timeval 3 0) False sample_base = Timeval 4 0"
    by (simp add: g new_timeout_def is_common_timeout_def evutil_timeradd_def)
  have w: "wants (evs sample_base 7)" unfolding wants_def IO_part by (simp add: sample_fields)
  have none: "internal sample_base = {}" by (simp add: internal_def sample_base_def)
  have ns: "\<not> has (ev_events (evs sample_base 7)) EV_SIGNAL" by (simp add: sample_fields)
  from event_add_registers [OF sample_base_inv sample_addable ns al int, of "\<lambda>_. True" "\<lambda>b. b" False False] show ?thesis
  proof (elim exE conjE, goal_cases)
    case (1 r b')
    have "evbit 0 b' 1" "evbit 0 b' 2" using 1(4) by (simp_all add: none sample_bits)
    moreover have "r = 0 \<and> evbit 0 b' 7 \<and> evbit 1 b' 7 \<and> tmo b' 7 = Timeval 4 0 \<or> r = -1"
      using 1(5) w unfolding added_def by (auto simp: sample_bits new)
    ultimately show ?case using 1(1) by (intro exI [of _ r] exI [of _ b'] conjI)
  qed
qed

text \<open>
  C23. Before it waits, the loop computes the time until the earliest timeout: the wait is never longer
  than any pending timeout of the heap is away, it is zero when one is due, it is exactly the distance
  to the earliest one otherwise, and there is no limit only when no timeout is pending. The
  subtraction never gives a negative field, so its assertions hold.
\<close>

theorem timeout_next_never_late:
  assumes "epoll_base_inv interest sigok handler orig b" "timeval_ok (fst (gettime b))"
    "\<And>a. flag b a EVLIST_TIMEOUT \<Longrightarrow> usec_small (tmo b a) \<Longrightarrow> timeval_ok (tmo b a)"
  shows "\<exists>w b'. timeout_next b = Done (w, b') \<and> epoll_base_inv interest sigok handler orig b' \<and>
    (case w of None \<Rightarrow> \<forall>a. \<not> (evbit 0 b a \<and> usec_small (tmo b a))
     | Some d \<Rightarrow> timeval_ok d \<and> 0 \<le> tv_sec d \<and>
         (\<forall>a. evbit 0 b a \<and> usec_small (tmo b a) \<longrightarrow> usecs d \<le> max 0 (usecs (tmo b a) - usecs (fst (gettime b)))) \<and>
         (\<exists>a. evbit 0 b a \<and> usec_small (tmo b a) \<and> usecs d = max 0 (usecs (tmo b a) - usecs (fst (gettime b)))))"
  by (rule epsig.bm.base_timeout_next [OF assms(1,2)]) (use assms(3) in simp)

theorem timeout_next_never_late_witness:
  "\<exists>d b'. timeout_next sample_base = Done (Some d, b') \<and> usecs d = 0"
proof -
  have g: "fst (gettime sample_base) = Timeval 1 0" by (simp add: gettime_def sample_base_def)
  have t: "timeval_ok (tmo sample_base a)" for a by (simp add: sample_fields sample_tmo_def timeval_ok_def)
  have n: "timeval_ok (fst (gettime sample_base))" unfolding g by (simp add: timeval_ok_def)
  have u: "usec_small (tmo sample_base 1)" "usecs (tmo sample_base 1) = usecs (Timeval 1 0)"
    by (simp_all add: sample_fields sample_tmo_def usec_small_def)
  from timeout_next_never_late [OF sample_base_inv n t] obtain w b' where
    w: "timeout_next sample_base = Done (w, b')" "case w of None \<Rightarrow> \<forall>a. \<not> (evbit 0 sample_base a \<and> usec_small (tmo sample_base a))
     | Some d \<Rightarrow> timeval_ok d \<and> 0 \<le> tv_sec d \<and>
         (\<forall>a. evbit 0 sample_base a \<and> usec_small (tmo sample_base a) \<longrightarrow> usecs d \<le> max 0 (usecs (tmo sample_base a) - usecs (fst (gettime sample_base)))) \<and>
         (\<exists>a. evbit 0 sample_base a \<and> usec_small (tmo sample_base a) \<and> usecs d = max 0 (usecs (tmo sample_base a) - usecs (fst (gettime sample_base))))"
    by blast
  show ?thesis
  proof (cases w)
    case None
    then show ?thesis using w(2) u(1) sample_bits [of 0 1] by simp
  next
    case (Some d)
    have "usecs d \<le> 0" using w(2) Some u sample_bits [of 0 1] unfolding g by auto
    moreover have "0 \<le> usecs d" using w(2) Some by auto
    ultimately show ?thesis using w(1) Some by auto
  qed
qed

text \<open>
  The events that were scheduled for the next turn of the loop become active in the order in which
  they were scheduled, each behind the events already in the active queue of its priority; the
  queue of later events is empty afterwards.
\<close>

theorem make_later_events_active_order:
  assumes "epoll_base_inv interest sigok handler orig b"
  shows "\<exists>b'. event_queue_make_later_events_active b = Done b' \<and> epoll_base_inv interest sigok handler orig b' \<and> active_later_queue b' = [] \<and>
    (\<forall>i < length (activequeues b).
       activequeues b' ! i = activequeues b ! i @ filter (\<lambda>a. evcb_pri (evs b a) = i) (active_later_queue b))"
  using epsig.bm.base_make_later [OF assms refl] unfolding event_queue_make_later_events_active_def by blast

theorem make_later_events_active_order_witness:
  "\<exists>b b'. event_queue_insert_active_later 7 sample_base = Done b \<and> event_queue_make_later_events_active b = Done b' \<and>
    active_later_queue b = [7] \<and> active_later_queue b' = [] \<and> activequeues b' ! 0 = [7]"
proof -
  have off: "\<not> evbit 3 sample_base 7" "\<not> evbit 5 sample_base 7" "evcb_pri (evs sample_base 7) < length (activequeues sample_base)"
    by (simp_all add: sample_bits sample_fields)
  obtain b where b: "event_queue_insert_active_later 7 sample_base = Done b" "epoll_base_inv (\<lambda>k. k) (\<lambda>_. True) 8 (\<lambda>_. 0) b" "same_data {} sample_base b"
    using epsig.bm.base_insert_later [OF sample_base_inv off] by blast
  have q: "active_later_queue b = [7]" "activequeues b = [[]]"
    using b(1) off by (auto simp: event_queue_insert_active_later_def Let_def incr_active_count_def upd_event_def INCR_EVENT_COUNT_def
        sample_bits) (simp_all add: sample_base_def)
  have "evcb_pri (evs b 7) = 0" using b(3) by (simp add: same_data_def sample_fields)
  then show ?thesis using make_later_events_active_order [OF b(2)] b(1) q by auto
qed

text \<open>
  A base with a common timeout of two seconds: events 3 and 4 are on its list, event 3 is due at the first reading of the
  clock, and event 1 is its internal event. The heap is full.
\<close>

definition sample_common_events :: "nat \<Rightarrow> event" where
  "sample_common_events a =
     (if a = 3 \<or> a = 4
      then (sample_event (-1) 0)\<lparr>evcb_flags := EVLIST_INIT OR EVLIST_TIMEOUT,
             ev_timeout := Timeval (if a = 3 then 1 else 9) 0x50000000\<rparr>
      else sample_events a)"

definition sample_common :: "((int \<rightharpoonup> u32) epollop \<times> (nat, unit) evsig_info) event_base" where
  "sample_common = sample_base\<lparr>evs := sample_common_events, event_count := 4,
     common_timeout_queues := [\<lparr>ct_events = [3, 4], duration = Timeval 2 0x50000000, timeout_event = 1\<rparr>]\<rparr>"

lemma sample_common_bits: "evbit j sample_common a \<longleftrightarrow> j = 7 \<or> j = 0 \<and> a \<in> {1, 2, 3, 4}"
  by (auto simp: evbit_def sample_common_def sample_common_events_def sample_events_def bit_or_iff)

lemma sample_common_fields:
  "tmo sample_common a = (if a = 3 then Timeval 1 0x50000000 else if a = 4 then Timeval 9 0x50000000 else sample_tmo a)"
  "evcb_pri (evs sample_common a) = 0" "length (activequeues sample_common) = 1"
  "ev_events (evs sample_common a) = (if a \<in> {1, 2, 3, 4} then 0 else EV_READ)"
  by (auto simp: tmo_def sample_common_def sample_common_events_def sample_base_def sample_events_def sample_event_def)

lemma sample_magic: "magic_at 0 (Timeval s 0x50000000)" "\<not> magic_at 0 (sample_tmo a)" "usec_small (sample_tmo a)"
  "\<not> usec_small (Timeval s 0x50000000)" "mask_usec (Timeval s 0x50000000) = Timeval s 0"
  by (simp_all add: magic_at_def COMMON_TIMEOUT_MAGIC_def MICROSECONDS_MASK_def usec_small_def sample_tmo_def mask_usec_def)

lemma sample_common_timers: "timers_ok sample_common"
proof -
  have f: "timeheap sample_common = sample_heap"
    "common_timeout_queues sample_common = [\<lparr>ct_events = [3, 4], duration = Timeval 2 0x50000000, timeout_event = 1\<rparr>]"
    by (simp_all add: sample_common_def sample_base_def)
  have "min_heap_inv (tmo sample_common) sample_heap"
    by (rule min_heap_inv_cong [OF sample_heap_inv]) (auto simp: sample_heap_elems sample_common_fields)
  moreover have "ha sample_heap < 2 ^ 59" by (simp add: sample_heap_def)
  moreover have "a \<in># heap_elems sample_heap \<longleftrightarrow> evbit 0 sample_common a \<and> usec_small (tmo sample_common a)" for a
    by (auto simp: sample_heap_elems sample_common_bits sample_common_fields sample_magic)
  moreover have "{3, 4} = {a. evbit 0 sample_common a \<and> magic_at 0 (tmo sample_common a)}"
    by (auto simp: sample_common_bits sample_common_fields sample_magic split: if_splits)
  moreover have "tmo_wf (tmo sample_common a) sample_common" for a
    using sample_magic by (auto simp: tmo_wf_def f sample_common_fields)
  moreover have "tmo sample_common 3 \<le> tmo sample_common 4"
    by (simp add: sample_common_fields less_eq_timeval_def evutil_timercmp_le_def)
  ultimately show ?thesis unfolding timers_ok_def f by (simp add: MAX_COMMON_TIMEOUTS_def)
qed

lemma sample_common_counts: "counts_ok sample_common"
proof -
  have q: "on_queue 0 sample_common = {1, 2, 3, 4}" "on_queue 1 sample_common = {}" "on_queue 3 sample_common = {}" "on_queue 5 sample_common = {}"
    "counted 0 sample_common = {1, 2, 3, 4}" "counted 1 sample_common = {}" "counted 3 sample_common = {}" "counted 5 sample_common = {}"
    by (auto simp: on_queue_def counted_def sample_common_bits)
  show ?thesis unfolding counts_ok_def QUEUES_def by (simp add: q [simplified]) (simp add: sample_common_def sample_base_def)
qed

lemma sample_common_inv: "epoll_base_inv (\<lambda>k. k) (\<lambda>_. True) 8 (\<lambda>_. 0) sample_common"
proof -
  have l: "io_list sample_common fd = []" "sig_list sample_common fd = []" for fd
    by (auto simp: io_list_def sig_list_def slot_list_def sample_common_def sample_base_def)
  have b: "backend sample_common = backend sample_base" "io sample_common = []" by (simp_all add: sample_common_def sample_base_def)
  have "pair_maps (epoll_wf (\<lambda>k. k)) (epoll_watch (\<lambda>k. k)) (\<lambda>_. True) (sig_wf (\<lambda>_. True) 8 (\<lambda>_. 0)) sig_caught sample_common"
    using sample_maps unfolding pair_maps_def evmap_io_inv_def evmap_sig_inv_def b l
    by (simp add: sample_lists io_map_ok_def union_events_def)
  moreover have "queues_ok sample_common"
    by (auto simp: queues_ok_def sample_common_bits sample_common_fields) (simp_all add: sample_common_def sample_base_def)
  moreover have "event_ok sample_common a" for a
    by (auto simp: event_ok_def sample_common_bits sample_common_fields QUEUES_def)
  moreover have "\<not> map_entry sample_common a" for a by (simp add: map_entry_def l)
  ultimately show ?thesis
    unfolding base_inv_def using sample_common_timers sample_common_counts by (auto simp: sample_common_bits)
qed

text \<open>
  C22. An event on the list of a common timeout that is added again with a plain timeout is lost when the heap is full and
  memory is short: \<^verbatim>\<open>event_add_nolock_\<close> reserves no space because the event has a timeout already, and
  \<^verbatim>\<open>event_queue_insert_timeout\<close> does not look at the result of \<^verbatim>\<open>min_heap_push_\<close>. The call returns 0 and the event is marked as
  having the new timeout, but it is neither in the heap nor on a list, so the timeout never fires.
\<close>

theorem event_add_loses_timeout:
  assumes "epoll_base_inv interest sigok handler orig b" "\<not> flag b ev EVLIST_FINALIZING" "evcb_pri (evs b ev) < length (activequeues b)"
    "flag b ev EVLIST_TIMEOUT" "\<not> usec_small (tmo b ev)" "\<not> wants (evs b ev)" "usec_small t"
    "timeval_ok (fst (gettime b))" "\<not> heap_grows al (timeheap b)"
  shows "\<exists>b'. event_add_nolock (epoll_base_env ok sigok handler addev al debug) ev (Some t) absolute b = Done (0, b') \<and>
    flag b' ev EVLIST_TIMEOUT \<and> tmo b' ev = new_timeout (fst (gettime b)) t absolute b \<and>
    ev \<notin># heap_elems (timeheap b') \<and> (\<forall>ctl \<in> set (common_timeout_queues b'). ev \<notin> set (ct_events ctl))"
proof -
  have "\<not> evbit 6 b ev" "evbit 0 b ev" "\<not> heap_grows (alloc_ok (epoll_base_env ok sigok handler addev al debug)) (timeheap b)"
    using assms(2,4,9) by (simp_all add: pair_env_def)
  from epsig.bm.base_add_loses [OF assms(1) this(1) assms(3) this(2) assms(5-8) this(3)] show ?thesis by simp
qed

theorem event_add_loses_timeout_witness:
  "\<exists>b'. event_add_nolock (epoll_base_env (\<lambda>_. True) (\<lambda>_. True) 8 (\<lambda>b. b) (\<lambda>_. False) False) 4 (Some (Timeval 3 0)) False sample_common = Done (0, b') \<and>
    flag b' 4 EVLIST_TIMEOUT \<and> 4 \<notin># heap_elems (timeheap b') \<and> (\<forall>ctl \<in> set (common_timeout_queues b'). 4 \<notin> set (ct_events ctl))"
proof -
  have a: "\<not> flag sample_common 4 EVLIST_FINALIZING" "evcb_pri (evs sample_common 4) < length (activequeues sample_common)"
    "flag sample_common 4 EVLIST_TIMEOUT" "\<not> usec_small (tmo sample_common 4)" "\<not> wants (evs sample_common 4)" "usec_small (Timeval 3 0)"
    by (simp_all add: sample_common_bits sample_common_fields sample_magic wants_def) (simp add: usec_small_def)
  have "timeval_ok (fst (gettime sample_common))" by (simp add: gettime_def sample_common_def sample_base_def timeval_ok_def)
  moreover have "\<not> heap_grows (\<lambda>_. False) (timeheap sample_common)"
    by (simp add: heap_grows_def min_heap_reserve_def sample_common_def sample_base_def sample_heap_def Let_def)
  ultimately show ?thesis
    using event_add_loses_timeout [OF sample_common_inv a, of "\<lambda>_. False" "\<lambda>_. True" "\<lambda>b. b" False False] by blast
qed

text \<open>
  C24. The callback of a common timeout always ends. It activates exactly the events of its list that are due and leaves the
  others on the list; all other events except its internal one keep their queues and times. When events are left, the internal event
  is in the heap again at the time of the earliest of them, unless it was off the heap and the heap could not grow; when
  none is left, the internal event is untouched.
\<close>

theorem common_timeout_callback_expires:
  assumes "epoll_base_inv interest sigok handler orig b" "i < length (common_timeout_queues b)" "alloc_small al" "internal_ok b" "clock_ok b"
  shows "\<exists>b'. common_timeout_callback (epoll_base_env ok sigok handler addev al debug) i b = Some (Done b') \<and>
    epoll_base_inv interest sigok handler orig b' \<and>
    (\<forall>a \<in> due_common i (fst (gettime b)) b. evbit 3 b' a \<and> \<not> evbit 0 b' a) \<and> rescheduled al i b b'"
proof -
  have "alloc_small (alloc_ok (epoll_base_env ok sigok handler addev al debug))" using assms(3) by (simp add: pair_env_def)
  from epsig.bm.base_common_callback [OF assms(1,2) this assms(4,5)] show ?thesis
  proof (elim exE conjE, goal_cases)
    case (1 b')
    have "rescheduled al i b b'" using 1(8) by (simp add: pair_env_def)
    then show ?case using 1(1,2,6) by (intro exI [of _ b'] conjI)
  qed
qed

theorem common_timeout_callback_expires_witness:
  "\<exists>b'. common_timeout_callback (epoll_base_env (\<lambda>_. True) (\<lambda>_. True) 8 (\<lambda>b. b) (\<lambda>n. n < 100) False) 0 sample_common = Some (Done b') \<and>
    evbit 3 b' 3 \<and> \<not> evbit 0 b' 3 \<and> set (ct_events (common_timeout_queues b' ! 0)) = {4} \<and> evbit 0 b' 1 \<and> tmo b' 1 = Timeval 9 0"
proof -
  have al: "alloc_small (\<lambda>n. n < 100)" by (simp add: alloc_small_def)
  have i: "0 < length (common_timeout_queues sample_common)" by (simp add: sample_common_def)
  have ie: "internal sample_common = {1}" by (simp add: internal_def sample_common_def)
  have int: "internal_ok sample_common"
    unfolding internal_ok_def ie by (simp add: sample_common_bits sample_common_fields sample_magic)
  have clk: "clock_ok sample_common" by (simp add: clock_ok_def sample_common_def sample_base_def timeval_ok_def)
  have g: "fst (gettime sample_common) = Timeval 1 0" by (simp add: gettime_def sample_common_def sample_base_def)
  have d: "due_common 0 (Timeval 1 0) sample_common = {3}"
    by (auto simp: due_common_def sample_common_bits sample_common_fields sample_magic less_eq_timeval_def evutil_timercmp_le_def split: if_splits)
  have q: "common_timeout_queues sample_common ! 0 = \<lparr>ct_events = [3, 4], duration = Timeval 2 0x50000000, timeout_event = 1\<rparr>"
    by (simp add: sample_common_def)
  from common_timeout_callback_expires [OF sample_common_inv i al int clk, of "\<lambda>_. True" "\<lambda>b. b" False] obtain b' where
    b': "common_timeout_callback (epoll_base_env (\<lambda>_. True) (\<lambda>_. True) 8 (\<lambda>b. b) (\<lambda>n. n < 100) False) 0 sample_common = Some (Done b')"
    "\<forall>a \<in> due_common 0 (Timeval 1 0) sample_common. evbit 3 b' a \<and> \<not> evbit 0 b' a" "rescheduled (\<lambda>n. n < 100) 0 sample_common b'"
    unfolding g by blast
  have left: "set (ct_events (common_timeout_queues b' ! 0)) = {4}"
    using b'(3) unfolding rescheduled_def Let_def g d q by simp
  then have ne: "ct_events (common_timeout_queues b' ! 0) \<noteq> []" by auto
  then have hd: "hd (ct_events (common_timeout_queues b' ! 0)) = 4" using hd_in_set [OF ne] left by simp
  have "tmo b' 4 = Timeval 9 0x50000000"
    using b'(3) unfolding rescheduled_def Let_def g d q by (simp add: sample_common_fields)
  moreover have "evbit 0 b' 1 \<and> tmo b' 1 = mask_usec (tmo b' 4)"
    using b'(3) ne hd unfolding rescheduled_def Let_def g d q by (simp add: sample_common_bits)
  ultimately show ?thesis using b'(1,2) left by (simp add: d sample_magic)
qed

text \<open>
  The loop never fails an assertion: when the callbacks of the program and the backend keep the
  invariant of the loop and the number of priorities, it keeps it too, however many turns it makes.
  It ends by itself with the result 1 only when nothing but internal events is pending and every
  active queue is empty.
\<close>

theorem event_base_loop_safe:
  assumes "loop_inv (pair_maps (epoll_wf interest) (epoll_watch interest) (\<lambda>_. True) (sig_wf sigok handler orig) sig_caught) map_entry n b"
    "alloc_small al"
    "callbacks_ok (loop_inv (pair_maps (epoll_wf interest) (epoll_watch interest) (\<lambda>_. True) (sig_wf sigok handler orig) sig_caught) map_entry n) user"
    "dispatch_ok (loop_inv (pair_maps (epoll_wf interest) (epoll_watch interest) (\<lambda>_. True) (sig_wf sigok handler orig) sig_caught) map_entry n) dispatch"
  shows "safe (\<lambda>(r, b'). loop_inv (pair_maps (epoll_wf interest) (epoll_watch interest) (\<lambda>_. True) (sig_wf sigok handler orig) sig_caught) map_entry n b' \<and>
      (r = 1 \<longrightarrow> idle b'))
    (event_base_loop fuel (epoll_base_env ok sigok handler addev al debug) dispatch user fl b)"
proof (rule epsig.bm.loop_safe [OF assms(1) _ assms(3,4)])
  show "alloc_small (alloc_ok (epoll_base_env ok sigok handler addev al debug))" using assms(2) by (simp add: pair_env_def)
  fix c :: "('a epollop \<times> ('b, 'c) evsig_info) event_base"
  assume c: "loop_inv (pair_maps (epoll_wf interest) (epoll_watch interest) (\<lambda>_. True) (sig_wf sigok handler orig) sig_caught) map_entry n c"
  let ?k = "sig_set_base (epoll_base_env ok sigok handler addev al debug) (backend c)"
  have k: "fst ?k = fst (backend c)" "snd ?k = evsig_loop_base (snd (backend c))" by (simp_all add: pair_env_def)
  have s: "saved (evsig_loop_base s) = saved s" "disp (evsig_loop_base s) = disp s" for s :: "('b, 'c) evsig_info"
    by (simp_all add: evsig_loop_base_def evsig_set_base_def saved_def fun_eq_iff)
  have "pair_maps (epoll_wf interest) (epoll_watch interest) (\<lambda>_. True) (sig_wf sigok handler orig) sig_caught c"
    using c by (simp add: loop_inv_def base_inv_def)
  then have "pair_maps (epoll_wf interest) (epoll_watch interest) (\<lambda>_. True) (sig_wf sigok handler orig) sig_caught (c\<lparr>backend := ?k\<rparr>)"
    unfolding pair_maps_def evmap_io_inv_def evmap_sig_inv_def
    by (simp add: k io_list_def sig_list_def sig_wf_def sig_caught_def s del: fst_map_prod snd_map_prod)
  moreover have "map_entry (c\<lparr>backend := ?k\<rparr>) a = map_entry c a" for a by (simp add: map_entry_def io_list_def sig_list_def)
  ultimately show "loop_inv (pair_maps (epoll_wf interest) (epoll_watch interest) (\<lambda>_. True) (sig_wf sigok handler orig) sig_caught) map_entry n (c\<lparr>backend := ?k\<rparr>)"
    by (rule epsig.bm.LI_backend [OF c])
qed

lemma sample_loop_inv:
  "loop_inv (pair_maps (epoll_wf (\<lambda>k. k)) (epoll_watch (\<lambda>k. k)) (\<lambda>_. True) (sig_wf (\<lambda>_. True) 8 (\<lambda>_. 0)) sig_caught) map_entry 1 sample_base"
proof -
  have none: "internal sample_base = {}" by (simp add: internal_def sample_base_def)
  have io: "evcb_closure (evs sample_base a) = EV_CLOSURE_EVENT" for a by (simp add: sample_base_def sample_events_def sample_event_def)
  have "unmixed (evs sample_base a) \<and> closure_ok sample_base a \<and> persist_ok sample_base a" for a
    by (simp add: unmixed_def sample_fields closure_ok_def persist_ok_def io sample_bits)
  moreover have "times_ok sample_base"
    by (simp add: times_ok_def sample_fields sample_tmo_def mask_usec_def timeval_ok_def)
  moreover have "clock_ok sample_base" by (simp add: clock_ok_def sample_base_def timeval_ok_def)
  ultimately show ?thesis using sample_base_inv by (simp add: loop_inv_def side_ok_def internal_ok_def none sample_fields)
qed

theorem event_base_loop_safe_witness:
  "safe (\<lambda>(r, b'). r = 1 \<longrightarrow> idle b')
    (event_base_loop 9 (epoll_base_env (\<lambda>_. True) (\<lambda>_. True) 8 (\<lambda>b. b) (\<lambda>n. n < 100) False)
       (\<lambda>b tv. Done (0, b)) (\<lambda>ev res b. Some (Done b)) EVLOOP_ONCE sample_base)"
proof -
  have al: "alloc_small (\<lambda>n. n < 100)" by (simp add: alloc_small_def)
  have cb: "callbacks_ok P (\<lambda>ev res b. Some (Done b))" "dispatch_ok P (\<lambda>b tv. Done (0, b))" for P :: "'z event_base \<Rightarrow> bool"
    by (simp_all add: callbacks_ok_def dispatch_ok_def)
  from event_base_loop_safe [OF sample_loop_inv al cb, of 9 "\<lambda>_. True" "\<lambda>b. b" False EVLOOP_ONCE] show ?thesis
    by (auto simp: safe_def split: option.splits outcome.splits)
qed

end
