(* ===== verification/Evbuffer_Search.thy ===== *)
theory Evbuffer_Search
  imports Evbuffer
begin

text \<open>
  Positions, searching and lines in the buffer of \<^verbatim>\<open>src/buffer.c\<close>: \<^verbatim>\<open>evbuffer_ptr_set\<close>,
  \<^verbatim>\<open>evbuffer_search_range\<close>, \<^verbatim>\<open>evbuffer_search_eol\<close>, \<^verbatim>\<open>evbuffer_readln\<close> and \<^verbatim>\<open>evbuffer_peek\<close>. As in \<open>Evbuffer\<close>,
  an operation is \<open>None\<close> when it reads outside a block or fails an assertion. The searches are
  compared with the same searches in the list of all bytes of the buffer.
\<close>

section \<open>Positions\<close>

definition EV_SSIZE_MAX :: nat where "EV_SSIZE_MAX = 9223372036854775807"

definition c_ssize :: "nat \<Rightarrow> int" where
  "c_ssize n = signed_take_bit 63 (int n)"

definition PTR_NOT_FOUND :: evbuffer_ptr where
  "PTR_NOT_FOUND = \<lparr>ppos = -1, pchain = None, pos_in_chain = 0\<rparr>"

definition ptr_first :: "evbuffer \<Rightarrow> evbuffer_ptr" where
  "ptr_first b = \<lparr>ppos = 0, pchain = (if chains b = [] then None else Some 0), pos_in_chain = 0\<rparr>"

text \<open>The bytes of a chain from an offset on, when they lie inside its block.\<close>

definition chain_from :: "evbuffer_chain \<Rightarrow> nat \<Rightarrow> u8 list option" where
  "chain_from c i = (if i \<le> off c \<and> misalign c + off c \<le> buffer_len c then Some (drop i (cdata c)) else None)"

datatype evbuffer_ptr_how = EVBUFFER_PTR_SET | EVBUFFER_PTR_ADD

fun ptr_walk :: "evbuffer_chain list \<Rightarrow> nat \<Rightarrow> nat \<Rightarrow> nat \<Rightarrow> (nat option \<times> nat \<times> nat) option" where
  "ptr_walk [] k position left = Some (None, position, left)"
| "ptr_walk (c # cs) k position left =
     (if position > off c then None
      else if position + left \<ge> off c then ptr_walk cs (Suc k) 0 (left - (off c - position))
      else Some (Some k, position, left))"

definition ptr_land :: "int \<Rightarrow> nat option \<times> nat \<times> nat \<Rightarrow> int \<times> evbuffer_ptr" where
  "ptr_land p = (\<lambda>(chain, position, left).
     case chain of
       Some k \<Rightarrow> (0, \<lparr>ppos = p, pchain = Some k, pos_in_chain = position + left\<rparr>)
     | None \<Rightarrow> if left = 0 then (0, \<lparr>ppos = p, pchain = None, pos_in_chain = 0\<rparr>) else (-1, PTR_NOT_FOUND))"

definition evbuffer_ptr_set ::
  "evbuffer \<Rightarrow> evbuffer_ptr \<Rightarrow> nat \<Rightarrow> evbuffer_ptr_how \<Rightarrow> (int \<times> evbuffer_ptr) option" where
  "evbuffer_ptr_set b pos position how =
     (case how of
        EVBUFFER_PTR_SET \<Rightarrow> map_option (ptr_land (c_ssize position)) (ptr_walk (chains b) 0 0 position)
      | EVBUFFER_PTR_ADD \<Rightarrow>
          if ppos pos < 0 \<or> int (EV_SIZE_MAX - position) < ppos pos then Some (-1, pos)
          else if EV_SIZE_MAX - position < pos_in_chain pos then None
          else do {
            cs \<leftarrow> chains_at b (pchain pos);
            w \<leftarrow> ptr_walk cs (case pchain pos of Some k \<Rightarrow> k | None \<Rightarrow> 0) (pos_in_chain pos) position;
            Some (ptr_land (c_ssize (nat (ppos pos) + position)) w) })"

definition evbuffer_ptr_subtract :: "evbuffer \<Rightarrow> evbuffer_ptr \<Rightarrow> nat \<Rightarrow> (int \<times> evbuffer_ptr) option" where
  "evbuffer_ptr_subtract b pos howfar =
     (if ppos pos < 0 then Some (-1, pos)
      else if int howfar > ppos pos then Some (-1, pos)
      else if pchain pos \<noteq> None \<and> howfar \<le> pos_in_chain pos
        then Some (0, pos\<lparr>pos_in_chain := pos_in_chain pos - howfar, ppos := ppos pos - int howfar\<rparr>)
      else evbuffer_ptr_set b pos (nat (ppos pos) - howfar) EVBUFFER_PTR_SET)"

section \<open>Searching for bytes\<close>

text \<open>\<^verbatim>\<open>memchr\<close> and \<^verbatim>\<open>memcmp\<close> of the C library.\<close>

definition first_index :: "(u8 \<Rightarrow> bool) \<Rightarrow> u8 list \<Rightarrow> nat option" where
  "first_index P s = (let n = length (takeWhile (\<lambda>x. \<not> P x) s) in if n < length s then Some n else None)"

definition memchr :: "u8 \<Rightarrow> u8 list \<Rightarrow> nat option" where
  "memchr c s = first_index (\<lambda>x. x = c) s"

fun memcmp :: "u8 list \<Rightarrow> u8 list \<Rightarrow> int" where
  "memcmp (x # xs) (y # ys) = (if x = y then memcmp xs ys else uint x - uint y)"
| "memcmp _ _ = 0"

definition CR :: u8 where "CR = 13"
definition LF :: u8 where "LF = 10"

definition CHUNK_SZ :: nat where "CHUNK_SZ = 128"

function find_eol_char :: "u8 list \<Rightarrow> nat option" where
  "find_eol_char s =
     (if s = [] then None
      else
        (let chunk = take (if CHUNK_SZ < length s then CHUNK_SZ else length s) s
         in case memchr CR chunk of
              Some cr \<Rightarrow> (case memchr LF chunk of Some lf \<Rightarrow> if lf < cr then Some lf else Some cr | None \<Rightarrow> Some cr)
            | None \<Rightarrow>
                (case memchr LF chunk of
                   Some lf \<Rightarrow> Some lf
                 | None \<Rightarrow> map_option ((+) CHUNK_SZ) (find_eol_char (drop CHUNK_SZ s)))))"
  by pat_completeness auto
termination
  by (relation "measure length") (auto simp: CHUNK_SZ_def)

declare find_eol_char.simps [simp del]

text \<open>
  The loop of \<^verbatim>\<open>evbuffer_strchr\<close> and of \<^verbatim>\<open>evbuffer_find_eol_char\<close> over the chains, with the search in
  the bytes of one chain as an argument. When nothing is found, the position has moved to the end
  while the chain stays.
\<close>

fun chain_scan :: "(u8 list \<Rightarrow> nat option) \<Rightarrow> evbuffer_chain list \<Rightarrow> nat \<Rightarrow> nat \<Rightarrow> int \<Rightarrow> (evbuffer_ptr option \<times> int) option" where
  "chain_scan f [] k i pos = Some (None, pos)"
| "chain_scan f (c # cs) k i pos = do {
     s \<leftarrow> chain_from c i;
     (case f s of
        Some n \<Rightarrow> Some (Some \<lparr>ppos = pos + int n, pchain = Some k, pos_in_chain = i + n\<rparr>, pos + int n)
      | None \<Rightarrow> chain_scan f cs (Suc k) 0 (pos + (int (off c) - int i))) }"

definition ptr_scan :: "(u8 list \<Rightarrow> nat option) \<Rightarrow> evbuffer \<Rightarrow> evbuffer_ptr \<Rightarrow> (int \<times> evbuffer_ptr) option" where
  "ptr_scan f b it =
     (case pchain it of
        None \<Rightarrow> Some (-1, it)
      | Some k \<Rightarrow> do {
          cs \<leftarrow> chains_at b (Some k);
          (r, pos) \<leftarrow> chain_scan f cs k (pos_in_chain it) (ppos it);
          Some (case r of Some p \<Rightarrow> (pos, p) | None \<Rightarrow> (-1, it\<lparr>ppos := pos\<rparr>)) })"

definition evbuffer_strchr :: "evbuffer \<Rightarrow> evbuffer_ptr \<Rightarrow> u8 \<Rightarrow> (int \<times> evbuffer_ptr) option" where
  "evbuffer_strchr b it chr = ptr_scan (memchr chr) b it"

definition evbuffer_find_eol_char :: "evbuffer \<Rightarrow> evbuffer_ptr \<Rightarrow> (int \<times> evbuffer_ptr) option" where
  "evbuffer_find_eol_char b it = ptr_scan find_eol_char b it"

text \<open>
  How many bytes from a position on are in a set; the position moves behind them, except that its
  offset in the last chain is 0 when all bytes up to the end of the buffer are in the set.
\<close>

fun strspn_loop :: "u8 list \<Rightarrow> evbuffer_chain list \<Rightarrow> nat \<Rightarrow> nat \<Rightarrow> nat \<Rightarrow> (nat \<times> nat \<times> nat) option" where
  "strspn_loop chrset [] k i acc = None"
| "strspn_loop chrset (c # cs) k i acc =
     (if off c < i then (if cs = [] then Some (acc, k, 0) else strspn_loop chrset cs (Suc k) 0 acc)
      else do {
        s \<leftarrow> chain_from c i;
        let n = length (takeWhile (\<lambda>x. x \<in> set chrset) s);
        if n < length s then Some (acc + n, k, i + n)
        else if cs = [] then Some (acc + n, k, 0)
        else strspn_loop chrset cs (Suc k) 0 (acc + n) })"

definition evbuffer_strspn :: "evbuffer \<Rightarrow> evbuffer_ptr \<Rightarrow> u8 list \<Rightarrow> (nat \<times> evbuffer_ptr) option" where
  "evbuffer_strspn b p chrset =
     (case pchain p of
        None \<Rightarrow> Some (0, p)
      | Some k \<Rightarrow> do {
          cs \<leftarrow> chains_at b (Some k);
          (acc, k', i) \<leftarrow> strspn_loop chrset cs k (pos_in_chain p) 0;
          Some (acc, \<lparr>ppos = ppos p + int acc, pchain = Some k', pos_in_chain = i\<rparr>) })"

definition evbuffer_getchr :: "evbuffer \<Rightarrow> evbuffer_ptr \<Rightarrow> int option" where
  "evbuffer_getchr b it =
     (case pchain it of
        None \<Rightarrow> Some (-1)
      | Some k \<Rightarrow>
          if k < length (chains b) \<and> misalign (chains b ! k) + pos_in_chain it < buffer_len (chains b ! k)
          then Some (uint (cbuf (chains b ! k) ! (misalign (chains b ! k) + pos_in_chain it))) else None)"

section \<open>Searching for a string\<close>

fun ptr_memcmp_loop :: "evbuffer_chain list \<Rightarrow> nat \<Rightarrow> u8 list \<Rightarrow> int option" where
  "ptr_memcmp_loop [] position mem = Some 0"
| "ptr_memcmp_loop (c # cs) position mem =
     (if mem = [] then Some 0
      else do {
        s \<leftarrow> chain_from c position;
        let n = (if length mem + position > off c then off c - position else length mem);
        let r = memcmp (take n s) (take n mem);
        if r \<noteq> 0 then Some r else ptr_memcmp_loop cs 0 (drop n mem) })"

definition evbuffer_ptr_memcmp :: "evbuffer \<Rightarrow> evbuffer_ptr \<Rightarrow> u8 list \<Rightarrow> int option" where
  "evbuffer_ptr_memcmp b pos mem =
     (if ppos pos < 0 \<or> int EV_SIZE_MAX - int (length mem) < ppos pos \<or> ppos pos + int (length mem) > int (total_len b)
      then Some (-1)
      else do { cs \<leftarrow> chains_at b (pchain pos); ptr_memcmp_loop cs (pos_in_chain pos) mem })"

lemma chain_from_Some:
  "chain_from c i = Some s \<Longrightarrow> s = drop i (cdata c) \<and> i \<le> off c \<and> length s = off c - i"
  by (auto simp: chain_from_def cdata_def min_def split: if_splits)

lemma memchr_less: "memchr c s = Some n \<Longrightarrow> n < length s"
  by (auto simp: memchr_def first_index_def Let_def split: if_splits)

function search_loop ::
  "evbuffer \<Rightarrow> u8 list \<Rightarrow> evbuffer_ptr option \<Rightarrow> evbuffer_chain list \<Rightarrow> nat \<Rightarrow> nat \<Rightarrow> int \<Rightarrow> evbuffer_ptr option" where
  "search_loop b what stop [] k i pos = Some PTR_NOT_FOUND"
| "search_loop b what stop (c # cs) k i pos =
     (case chain_from c i of
        None \<Rightarrow> None
      | Some s \<Rightarrow>
          (case memchr (hd what) s of
             Some n \<Rightarrow>
               (let p = \<lparr>ppos = pos + int n, pchain = Some k, pos_in_chain = i + n\<rparr>
                in case evbuffer_ptr_memcmp b p what of
                     None \<Rightarrow> None
                   | Some r \<Rightarrow>
                       if r = 0 then
                         (case stop of
                            Some e \<Rightarrow> if ppos p + int (length what) > ppos e then Some PTR_NOT_FOUND else Some p
                          | None \<Rightarrow> Some p)
                       else if i + n + 1 = off c then search_loop b what stop cs (Suc k) 0 (ppos p + 1)
                       else search_loop b what stop (c # cs) k (i + n + 1) (ppos p + 1))
           | None \<Rightarrow>
               if stop \<noteq> None \<and> pchain (the stop) = Some k then Some PTR_NOT_FOUND
               else search_loop b what stop cs (Suc k) 0 (pos + (int (off c) - int i))))"
  by pat_completeness auto
termination
  by (relation "measures [\<lambda>(b, w, e, cs, k, i, p). length cs, \<lambda>(b, w, e, cs, k, i, p). case cs of [] \<Rightarrow> 0 | c # _ \<Rightarrow> off c - i]")
    (auto dest!: chain_from_Some memchr_less)

definition evbuffer_search_range ::
  "evbuffer \<Rightarrow> u8 list \<Rightarrow> evbuffer_ptr option \<Rightarrow> evbuffer_ptr option \<Rightarrow> evbuffer_ptr option" where
  "evbuffer_search_range b what start stop =
     (let pos = (case start of Some p \<Rightarrow> p | None \<Rightarrow> ptr_first b)
      in if what = [] \<or> length what > EV_SSIZE_MAX then Some pos
         else (case pchain pos of
                 None \<Rightarrow> Some PTR_NOT_FOUND
               | Some k \<Rightarrow> do {
                   cs \<leftarrow> chains_at b (Some k);
                   search_loop b what stop cs k (pos_in_chain pos) (ppos pos) }))"

definition evbuffer_search :: "evbuffer \<Rightarrow> u8 list \<Rightarrow> evbuffer_ptr option \<Rightarrow> evbuffer_ptr option" where
  "evbuffer_search b what start = evbuffer_search_range b what start None"

section \<open>Lines\<close>

datatype evbuffer_eol_style =
  EVBUFFER_EOL_ANY | EVBUFFER_EOL_CRLF | EVBUFFER_EOL_CRLF_STRICT | EVBUFFER_EOL_LF | EVBUFFER_EOL_NUL

text \<open>
  The body of the switch of \<^verbatim>\<open>evbuffer_search_eol\<close>: the position and the length of the end of line, or
  \<open>None\<close> (inside the outer option) when there is none.
\<close>

definition search_eol_from :: "evbuffer \<Rightarrow> evbuffer_ptr \<Rightarrow> evbuffer_eol_style \<Rightarrow> (evbuffer_ptr \<times> nat) option option" where
  "search_eol_from b it style =
     (case style of
        EVBUFFER_EOL_ANY \<Rightarrow> do {
          (r, it) \<leftarrow> evbuffer_find_eol_char b it;
          if r < 0 then Some None
          else do { (extra, it2) \<leftarrow> evbuffer_strspn b it [CR, LF]; Some (Some (it, extra)) } }
      | EVBUFFER_EOL_CRLF_STRICT \<Rightarrow> do {
          it \<leftarrow> evbuffer_search b [CR, LF] (Some it);
          if ppos it < 0 then Some None else Some (Some (it, 2)) }
      | EVBUFFER_EOL_CRLF \<Rightarrow> do {
          let start_pos = ppos it;
          (r, it) \<leftarrow> evbuffer_strchr b it LF;
          if r < 0 then Some None
          else if ppos it = start_pos then Some (Some (it, 1))
          else do {
            (r2, it2) \<leftarrow> evbuffer_ptr_subtract b it 1;
            if r2 < 0 then Some (Some (it, 1))
            else do {
              c \<leftarrow> evbuffer_getchr b it2;
              Some (Some (if c = uint CR then (it2, 2) else (it, 1))) } } }
      | EVBUFFER_EOL_LF \<Rightarrow> do {
          (r, it) \<leftarrow> evbuffer_strchr b it LF;
          if r < 0 then Some None else Some (Some (it, 1)) }
      | EVBUFFER_EOL_NUL \<Rightarrow> do {
          (r, it) \<leftarrow> evbuffer_strchr b it 0;
          if r < 0 then Some None else Some (Some (it, 1)) })"

definition evbuffer_search_eol ::
  "evbuffer \<Rightarrow> evbuffer_ptr option \<Rightarrow> evbuffer_eol_style \<Rightarrow> (evbuffer_ptr \<times> nat) option" where
  "evbuffer_search_eol b start style =
     (if start \<noteq> None \<and> pchain (the start) = None then Some (PTR_NOT_FOUND, 0)
      else do {
        r \<leftarrow> search_eol_from b (case start of Some p \<Rightarrow> p | None \<Rightarrow> ptr_first b) style;
        Some (case r of Some x \<Rightarrow> x | None \<Rightarrow> (PTR_NOT_FOUND, 0)) })"

text \<open>The line, without its terminating 0, or \<open>None\<close> for \<^verbatim>\<open>NULL\<close>; and the buffer.\<close>

definition evbuffer_readln :: "(nat \<Rightarrow> bool) \<Rightarrow> evbuffer \<Rightarrow> evbuffer_eol_style \<Rightarrow> (u8 list option \<times> evbuffer) option" where
  "evbuffer_readln ok b style =
     (if freeze_start b then Some (None, b)
      else do {
        (it, extra) \<leftarrow> evbuffer_search_eol b None style;
        if ppos it < 0 then Some (None, b)
        else if \<not> ok (nat (ppos it) + 1) then Some (None, b)
        else do {
          (r, line, b1) \<leftarrow> evbuffer_remove b (nat (ppos it));
          (r', b2) \<leftarrow> evbuffer_drain b1 extra;
          Some (Some line, b2) } })"

definition evbuffer_readline :: "(nat \<Rightarrow> bool) \<Rightarrow> evbuffer \<Rightarrow> (u8 list option \<times> evbuffer) option" where
  "evbuffer_readline ok b = evbuffer_readln ok b EVBUFFER_EOL_ANY"

section \<open>Looking at the bytes in place\<close>

text \<open>
  \<^verbatim>\<open>evbuffer_peek\<close>: how many extents are needed, and the bytes of the extents that were filled in; an
  extent is the data of one chain.
\<close>

fun peek_loop :: "evbuffer_chain list \<Rightarrow> nat \<Rightarrow> int \<Rightarrow> int \<Rightarrow> nat \<Rightarrow> nat \<times> u8 list list" where
  "peek_loop [] idx len len_so_far n_vec = (idx, [])"
| "peek_loop (c # cs) idx len len_so_far n_vec =
     (if len \<ge> 0 \<and> len_so_far \<ge> len then (idx, [])
      else if idx < n_vec
        then (let (i, v) = peek_loop cs (Suc idx) len (len_so_far + int (off c)) n_vec in (i, cdata c # v))
      else if len < 0 then (idx, [])
      else peek_loop cs (Suc idx) len (len_so_far + int (off c)) n_vec)"

definition evbuffer_peek :: "evbuffer \<Rightarrow> int \<Rightarrow> evbuffer_ptr option \<Rightarrow> nat \<Rightarrow> (nat \<times> u8 list list) option" where
  "evbuffer_peek b len start_at n_vec =
     (let len' = (\<lambda>pos. if n_vec = 0 \<and> len < 0 then int (total_len b) - pos else len)
      in case start_at of
           None \<Rightarrow> Some (peek_loop (chains b) 0 (len' 0) 0 n_vec)
         | Some p \<Rightarrow>
             (case pchain p of
                None \<Rightarrow> Some (0, [])
              | Some k \<Rightarrow> do {
                  cs \<leftarrow> chains_at b (Some k);
                  s \<leftarrow> chain_from (hd cs) (pos_in_chain p);
                  let (i, v) = peek_loop (tl cs) 1 (len' (ppos p)) (int (length s)) n_vec;
                  Some (i, if n_vec > 0 then s # v else v) }))"

section \<open>The library searches\<close>

lemma first_index_Cons:
  "first_index P (x # s) = (if P x then Some 0 else map_option Suc (first_index P s))"
  by (auto simp: first_index_def Let_def)

lemma first_index_Nil [simp]: "first_index P [] = None"
  by (simp add: first_index_def)

lemma first_index_eq_None: "first_index P s = None \<longleftrightarrow> (\<forall>x \<in> set s. \<not> P x)"
  by (induction s) (auto simp: first_index_Cons)

lemma first_index_eq_Some: "first_index P s = Some n \<longleftrightarrow> n < length s \<and> P (s ! n) \<and> (\<forall>j < n. \<not> P (s ! j))"
proof (induction s arbitrary: n)
  case (Cons x s)
  then show ?case by (cases n) (auto simp: first_index_Cons All_less_Suc2)
qed simp

lemma first_index_append:
  "first_index P (s @ t) =
     (case first_index P s of Some n \<Rightarrow> Some n | None \<Rightarrow> map_option ((+) (length s)) (first_index P t))"
  by (induction s) (auto simp: first_index_Cons option.map_comp comp_def map_option_case split: option.splits)

lemma first_index_disj:
  "first_index (\<lambda>x. P x \<or> Q x) s =
     (case first_index P s of
        Some m \<Rightarrow> (case first_index Q s of Some n \<Rightarrow> if n < m then Some n else Some m | None \<Rightarrow> Some m)
      | None \<Rightarrow> first_index Q s)"
  by (induction s) (auto simp: first_index_Cons split: option.splits)

text \<open>The search in pieces of 128 bytes finds what one search for either character would.\<close>

lemma find_eol_char_first: "find_eol_char s = first_index (\<lambda>x. x = CR \<or> x = LF) s"
proof (induction s rule: find_eol_char.induct)
  case (1 s)
  let ?P = "\<lambda>x. x = CR \<or> x = LF"
  have c: "(if CHUNK_SZ < length s then CHUNK_SZ else length s) = min CHUNK_SZ (length s)" by simp
  have t: "take (min CHUNK_SZ (length s)) s = take CHUNK_SZ s" by (simp add: min_def)
  have "first_index ?P s = first_index ?P (take CHUNK_SZ s @ drop CHUNK_SZ s)" by simp
  also have "\<dots> = (case first_index ?P (take CHUNK_SZ s) of
      Some n \<Rightarrow> Some n | None \<Rightarrow> map_option ((+) CHUNK_SZ) (first_index ?P (drop CHUNK_SZ s)))"
    unfolding first_index_append by (cases "CHUNK_SZ \<le> length s") (auto split: option.splits)
  finally have split: "first_index ?P s = \<dots>" .
  show ?case
  proof (cases "s = []")
    case False
    have "find_eol_char s = (case first_index ?P (take CHUNK_SZ s) of
        Some n \<Rightarrow> Some n | None \<Rightarrow> map_option ((+) CHUNK_SZ) (find_eol_char (drop CHUNK_SZ s)))"
      using False unfolding find_eol_char.simps [of s] first_index_disj memchr_def c t Let_def
      by (simp split: option.split)
    moreover have "find_eol_char (drop CHUNK_SZ s) = first_index ?P (drop CHUNK_SZ s)"
      if "first_index ?P (take CHUNK_SZ s) = None"
      using 1 [OF False refl] that unfolding c t by (auto simp: memchr_def first_index_eq_None)
    ultimately show ?thesis using split by (simp split: option.split)
  qed (simp add: find_eol_char.simps)
qed

lemma memcmp_eq_0: "length xs = length ys \<Longrightarrow> memcmp xs ys = 0 \<longleftrightarrow> xs = ys"
  by (induction xs ys rule: memcmp.induct) (auto simp: word_uint_eq_iff)

section \<open>Positions and contents\<close>

text \<open>A position that stands for the byte \<open>n\<close> of the chains.\<close>

definition ptr_at :: "evbuffer_chain list \<Rightarrow> evbuffer_ptr \<Rightarrow> nat \<Rightarrow> bool" where
  "ptr_at cs p n \<longleftrightarrow> ppos p = int n \<and>
     (case pchain p of
        None \<Rightarrow> n = length (cs_content cs)
      | Some k \<Rightarrow> k < length cs \<and> pos_in_chain p \<le> off (cs ! k) \<and> n = length (cs_content (take k cs)) + pos_in_chain p)"

text \<open>A position in front of a byte of its own chain.\<close>

definition ptr_in :: "evbuffer_chain list \<Rightarrow> evbuffer_ptr \<Rightarrow> nat \<Rightarrow> bool" where
  "ptr_in cs p n \<longleftrightarrow> ptr_at cs p n \<and> (\<exists>k. pchain p = Some k \<and> pos_in_chain p < off (cs ! k))"

lemma ptr_in_at: "ptr_in cs p n \<Longrightarrow> ptr_at cs p n \<and> pchain p \<noteq> None"
  by (auto simp: ptr_in_def)

lemma ptr_at_pos: "ptr_at cs p n \<Longrightarrow> ppos p = int n"
  by (simp add: ptr_at_def)

lemma ptr_at_Some:
  assumes "ptr_at cs p n" "pchain p = Some k" "\<forall>c \<in> set cs. chain_ok c"
  obtains pre c post where "cs = pre @ c # post" "k = length pre" "chain_ok c" "pos_in_chain p \<le> off c"
    "n = length (cs_content pre) + pos_in_chain p" "drop k cs = c # post"
    "drop n (cs_content cs) = drop (pos_in_chain p) (cdata c) @ cs_content post"
proof -
  from assms have k: "k < length cs" "pos_in_chain p \<le> off (cs ! k)" "n = length (cs_content (take k cs)) + pos_in_chain p"
    by (simp_all add: ptr_at_def)
  have cs: "cs = take k cs @ cs ! k # drop (Suc k) cs" using k by (rule_tac id_take_nth_drop)
  have ok: "chain_ok (cs ! k)" using assms(3) k by simp
  have "drop n (cs_content cs) = drop (pos_in_chain p) (cdata (cs ! k) @ cs_content (drop (Suc k) cs))"
    by (subst cs) (simp add: k(3))
  with that [OF cs _ ok k(2,3)] k ok show ?thesis by (simp add: Cons_nth_drop_Suc min_def)
qed

lemma ptr_at_le:
  assumes "ptr_at cs p n" "\<forall>c \<in> set cs. chain_ok c"
  shows "n \<le> length (cs_content cs)"
proof (cases "pchain p")
  case None
  with assms show ?thesis by (simp add: ptr_at_def)
next
  case (Some k)
  from ptr_at_Some [OF assms(1) Some assms(2)] obtain pre c post where
    "cs = pre @ c # post" "chain_ok c" "pos_in_chain p \<le> off c" "n = length (cs_content pre) + pos_in_chain p" by metis
  then show ?thesis by simp
qed

lemma chain_from_ok [simp]: "chain_ok c \<Longrightarrow> i \<le> off c \<Longrightarrow> chain_from c i = Some (drop i (cdata c))"
  by (simp add: chain_from_def chain_ok_def)

lemma ptr_walk_ok:
  assumes "\<forall>c \<in> set cs. chain_ok c" "cs \<noteq> [] \<longrightarrow> i \<le> off (hd cs)" "cs = [] \<longrightarrow> i = 0"
    "n = length (cs_content pre) + i + left"
  shows "\<exists>w r p. ptr_walk cs (length pre) i left = Some w \<and> ptr_land (int n) w = (r, p) \<and>
    (if n \<le> length (cs_content (pre @ cs)) then r = 0 \<and> ptr_at (pre @ cs) p n \<and> (n < length (cs_content (pre @ cs)) \<longrightarrow> ptr_in (pre @ cs) p n) else r = -1 \<and> p = PTR_NOT_FOUND)"
  using assms
proof (induction cs arbitrary: pre i left)
  case (Cons c cs)
  show ?case
  proof (cases "i + left \<ge> off c")
    case True
    have walk: "ptr_walk (c # cs) (length pre) i left = ptr_walk cs (length (pre @ [c])) 0 (left - (off c - i))"
      using True Cons.prems by simp
    have "\<exists>w r p. ptr_walk cs (length (pre @ [c])) 0 (left - (off c - i)) = Some w \<and> ptr_land (int n) w = (r, p) \<and>
      (if n \<le> length (cs_content ((pre @ [c]) @ cs)) then r = 0 \<and> ptr_at ((pre @ [c]) @ cs) p n \<and>
         (n < length (cs_content ((pre @ [c]) @ cs)) \<longrightarrow> ptr_in ((pre @ [c]) @ cs) p n)
       else r = -1 \<and> p = PTR_NOT_FOUND)"
      by (rule Cons.IH) (use True Cons.prems in auto)
    then show ?thesis unfolding walk by (simp only: append_assoc append.simps)
  next
    case False
    then show ?thesis using Cons.prems by (auto simp: ptr_land_def ptr_at_def ptr_in_def nth_append)
  qed
qed (auto simp: ptr_land_def ptr_at_def PTR_NOT_FOUND_def)

lemma chain_scan_ok:
  assumes f: "\<And>s. f s = first_index P s"
    and "\<forall>c \<in> set cs. chain_ok c" "cs \<noteq> [] \<longrightarrow> i \<le> off (hd cs)" "cs = [] \<longrightarrow> i = 0"
  shows "\<exists>r. chain_scan f cs (length pre) i (int (length (cs_content pre) + i)) = Some r \<and>
    (case first_index P (drop i (cs_content cs)) of
       None \<Rightarrow> fst r = None
     | Some n \<Rightarrow> \<exists>p. r = (Some p, ppos p) \<and> ptr_in (pre @ cs) p (length (cs_content pre) + i + n))"
  using assms(2-)
proof (induction cs arbitrary: pre i)
  case (Cons c cs)
  then have c: "chain_ok c" "length (cdata c) = off c" "i \<le> off c" by auto
  show ?case
  proof (cases "first_index P (drop i (cdata c))")
    case None
    have scan: "chain_scan f (c # cs) (length pre) i (int (length (cs_content pre) + i)) =
        chain_scan f cs (length (pre @ [c])) 0 (int (length (cs_content (pre @ [c])) + 0))"
      using None c by (simp add: f algebra_simps)
    have ix: "first_index P (drop i (cs_content (c # cs))) = map_option ((+) (off c - i)) (first_index P (drop 0 (cs_content cs)))"
      using c None by (simp add: first_index_append)
    show ?thesis
      using Cons.IH [of 0 "pre @ [c]"] Cons.prems c
      unfolding scan ix by (auto split: option.splits simp: algebra_simps)
  next
    case (Some n)
    then have "i + n < off c" using c by (auto simp: first_index_eq_Some)
    then show ?thesis using Some c
      by (auto simp: f first_index_append ptr_at_def ptr_in_def nth_append)
  qed
qed simp

text \<open>The scans start at a position inside the buffer, or at the end of it.\<close>

lemma ptr_scan_ok:
  assumes f: "\<And>s. f s = first_index P s" and cs: "\<forall>c \<in> set (chains b). chain_ok c" and it: "ptr_at (chains b) it n"
  shows "\<exists>r p. ptr_scan f b it = Some (r, p) \<and>
    (case first_index P (drop n (content b)) of
       None \<Rightarrow> r = -1
     | Some m \<Rightarrow> r = int (n + m) \<and> ptr_in (chains b) p (n + m))"
proof (cases "pchain it")
  case None
  with it show ?thesis by (auto simp: ptr_scan_def ptr_at_def content_def)
next
  case (Some k)
  from ptr_at_Some [OF it Some cs] obtain pre c post where
    split: "chains b = pre @ c # post" "k = length pre" "chain_ok c" "pos_in_chain it \<le> off c"
    "n = length (cs_content pre) + pos_in_chain it" "drop k (chains b) = c # post"
    "drop n (cs_content (chains b)) = drop (pos_in_chain it) (cdata c) @ cs_content post" by metis
  have "\<forall>c \<in> set (c # post). chain_ok c" using cs split by auto
  from chain_scan_ok [OF f this, of "pos_in_chain it" pre] split(4)
  have "\<exists>r. chain_scan f (c # post) k (pos_in_chain it) (int n) = Some r \<and>
    (case first_index P (drop n (content b)) of None \<Rightarrow> fst r = None
     | Some m \<Rightarrow> \<exists>p. r = (Some p, ppos p) \<and> ptr_in (chains b) p (n + m))"
    unfolding split(1,2,5) content_def using split(3) by simp
  then obtain r where r: "chain_scan f (c # post) k (pos_in_chain it) (int n) = Some r"
    "case first_index P (drop n (content b)) of None \<Rightarrow> fst r = None
     | Some m \<Rightarrow> \<exists>p. r = (Some p, ppos p) \<and> ptr_in (chains b) p (n + m)"
    by blast
  have sc: "ptr_scan f b it = Some (case r of (Some p, pos) \<Rightarrow> (pos, p) | (None, pos) \<Rightarrow> (-1, it\<lparr>ppos := pos\<rparr>))"
    using Some split r(1) ptr_at_pos [OF it] by (simp add: ptr_scan_def chains_at_def split: prod.splits option.splits)
  show ?thesis
    using r(2) unfolding sc by (cases r) (auto split: option.splits dest: ptr_in_at [THEN conjunct1, THEN ptr_at_pos])
qed

lemma strspn_loop_ok:
  assumes "\<forall>c \<in> set cs. chain_ok c" "cs \<noteq> []" "i \<le> off (hd cs)"
  shows "\<exists>k' i'. strspn_loop chrset cs k i n =
    Some (n + length (takeWhile (\<lambda>x. x \<in> set chrset) (drop i (cs_content cs))), k', i')"
  using assms
proof (induction cs arbitrary: k i n)
  case (Cons c cs)
  then have c: "chain_ok c" "length (cdata c) = off c" "i \<le> off c" by auto
  let ?Q = "\<lambda>x. x \<in> set chrset"
  show ?case
  proof (cases "\<forall>x \<in> set (drop i (cdata c)). ?Q x")
    case True
    then have all: "takeWhile ?Q (drop i (cdata c)) = drop i (cdata c)"
      "takeWhile ?Q (drop i (cs_content (c # cs))) = drop i (cdata c) @ takeWhile ?Q (cs_content cs)"
      using c by (auto simp: takeWhile_eq_all_conv takeWhile_append)
    show ?thesis
    proof (cases "cs = []")
      case False
      with Cons.prems Cons.IH [of 0 "Suc k" "n + (off c - i)"] obtain k' i' where
        "strspn_loop chrset cs (Suc k) 0 (n + (off c - i)) = Some (n + (off c - i) + length (takeWhile ?Q (cs_content cs)), k', i')"
        by auto
      with False show ?thesis using c unfolding all(2) by (simp add: Let_def all(1))
    qed (use c in \<open>simp add: Let_def all\<close>)
  next
    case False
    then have "length (takeWhile ?Q (drop i (cdata c))) < length (drop i (cdata c))"
      by (metis le_neq_implies_less length_takeWhile_le order_refl take_all_iff takeWhile_eq_take takeWhile_eq_all_conv)
    moreover have "takeWhile ?Q (drop i (cs_content (c # cs))) = takeWhile ?Q (drop i (cdata c))"
      using False c by (auto simp: takeWhile_append)
    ultimately show ?thesis using c by (simp add: Let_def)
  qed
qed simp

section \<open>Occurrences of a string\<close>

definition occurs :: "u8 list \<Rightarrow> u8 list \<Rightarrow> nat \<Rightarrow> bool" where
  "occurs what s n \<longleftrightarrow> take (length what) (drop n s) = what"

lemma occurs_first: "occurs what s n \<Longrightarrow> what \<noteq> [] \<Longrightarrow> n < length s \<and> s ! n = hd what"
  by (cases what; cases "drop n s") (auto simp: occurs_def nth_via_drop, metis drop_all leI list.distinct(1))

lemma occurs_nth: "occurs what s m \<Longrightarrow> m \<le> length s \<Longrightarrow> j < length what \<Longrightarrow> s ! (m + j) = what ! j"
  unfolding occurs_def by (metis nth_drop nth_take)

lemma occurs_end: "occurs what s n \<Longrightarrow> n \<le> length s \<Longrightarrow> n + length what \<le> length s"
  by (auto simp: occurs_def) (metis add.commute le_diff_conv2 length_drop length_take min.bounded_iff order_refl)

lemma ptr_memcmp_loop_ok:
  assumes "\<forall>c \<in> set cs. chain_ok c" "cs \<noteq> [] \<longrightarrow> i \<le> off (hd cs)" "i + length mem \<le> length (cs_content cs)"
  shows "\<exists>r. ptr_memcmp_loop cs i mem = Some r \<and> (r = 0 \<longleftrightarrow> occurs mem (cs_content cs) i)"
  using assms
proof (induction cs arbitrary: i mem)
  case (Cons c cs)
  then have c: "chain_ok c" "length (cdata c) = off c" "i \<le> off c" by auto
  define n where "n = (if length mem + i > off c then off c - i else length mem)"
  have n: "n \<le> length mem" "n \<le> off c - i" using c by (auto simp: n_def)
  have eq: "memcmp (take n (drop i (cdata c))) (take n mem) = 0 \<longleftrightarrow> take n (drop i (cdata c)) = take n mem"
    by (rule memcmp_eq_0) (use n c in auto)
  have "\<exists>r. ptr_memcmp_loop cs 0 (drop n mem) = Some r \<and> (r = 0 \<longleftrightarrow> occurs (drop n mem) (cs_content cs) 0)"
    by (rule Cons.IH) (use Cons.prems c in \<open>auto simp: n_def\<close>)
  moreover have "occurs mem (cs_content (c # cs)) i \<longleftrightarrow>
      take n (drop i (cdata c)) = take n mem \<and> occurs (drop n mem) (cs_content cs) 0"
  proof (cases "length mem + i > off c")
    case True
    then have n': "n = off c - i" "length (drop i (cdata c)) = n" using c by (auto simp: n_def)
    have "occurs mem (cs_content (c # cs)) i \<longleftrightarrow>
        drop i (cdata c) @ take (length mem - n) (cs_content cs) = take n mem @ drop n mem"
      using c n n' by (simp add: occurs_def)
    also have "\<dots> \<longleftrightarrow> drop i (cdata c) = take n mem \<and> take (length mem - n) (cs_content cs) = drop n mem"
      by (rule append_eq_append_conv) (use n n' in simp)
    finally show ?thesis using n' by (simp add: occurs_def)
  qed (use c in \<open>auto simp: occurs_def n_def\<close>)
  ultimately show ?case using c eq by (auto simp: n_def [symmetric] Let_def occurs_def)
qed (simp add: occurs_def)

lemma ptr_memcmp_ok:
  assumes b: "evbuffer_ok b" and p: "ptr_at (chains b) p n"
  shows "\<exists>r. evbuffer_ptr_memcmp b p mem = Some r \<and> (r = 0 \<longleftrightarrow> occurs mem (content b) n)"
proof -
  have cs: "\<forall>c \<in> set (chains b). chain_ok c" and tl: "total_len b \<le> EV_SIZE_MAX" using b by (auto simp: evbuffer_ok_def)
  have pos: "ppos p = int n" using p by (rule ptr_at_pos)
  have le: "n \<le> length (content b)" using ptr_at_le [OF p cs] by (simp add: content_def)
  show ?thesis
  proof (cases "n + length mem \<le> total_len b")
    case True
    then have go: "evbuffer_ptr_memcmp b p mem = do { cs \<leftarrow> chains_at b (pchain p); ptr_memcmp_loop cs (pos_in_chain p) mem }"
      using pos tl by (simp add: evbuffer_ptr_memcmp_def)
    show ?thesis
    proof (cases "pchain p")
      case None
      with p have "n = length (content b)" by (simp add: ptr_at_def content_def)
      with True b have "mem = []" by simp
      then show ?thesis using None unfolding go by (simp add: chains_at_def occurs_def)
    next
      case (Some k)
      from ptr_at_Some [OF p Some cs] obtain pre c post where
        split: "chains b = pre @ c # post" "k = length pre" "chain_ok c" "pos_in_chain p \<le> off c"
        "n = length (cs_content pre) + pos_in_chain p" "drop k (chains b) = c # post" by metis
      have "\<exists>r. ptr_memcmp_loop (c # post) (pos_in_chain p) mem = Some r \<and> (r = 0 \<longleftrightarrow> occurs mem (cs_content (c # post)) (pos_in_chain p))"
        by (rule ptr_memcmp_loop_ok) (use cs split True length_content [OF b] in \<open>auto simp: content_def\<close>)
      then show ?thesis using split by (simp add: go Some chains_at_def occurs_def content_def)
    qed
  next
    case False
    then have "evbuffer_ptr_memcmp b p mem = Some (-1)" using pos by (simp add: evbuffer_ptr_memcmp_def)
    moreover have "\<not> occurs mem (content b) n" using occurs_end [OF _ le] False b by auto
    ultimately show ?thesis by simp
  qed
qed

text \<open>The first occurrence at or after \<open>n\<close>, if it ends at or before \<open>lim\<close>.\<close>

definition found_first :: "evbuffer \<Rightarrow> u8 list \<Rightarrow> nat \<Rightarrow> nat \<Rightarrow> evbuffer_ptr \<Rightarrow> bool" where
  "found_first b what n lim p \<longleftrightarrow>
     p = PTR_NOT_FOUND \<and> (\<forall>m \<ge> n. occurs what (content b) m \<longrightarrow> lim < m + length what) \<or>
     (\<exists>m \<ge> n. ptr_at (chains b) p m \<and> pchain p \<noteq> None \<and> occurs what (content b) m \<and> m + length what \<le> lim \<and>
       (\<forall>j. n \<le> j \<and> j < m \<longrightarrow> \<not> occurs what (content b) j))"

lemma found_first_later:
  assumes "found_first b what n' lim p" "n \<le> n'" "\<And>j. n \<le> j \<Longrightarrow> j < n' \<Longrightarrow> \<not> occurs what (content b) j"
  shows "found_first b what n lim p"
  using assms unfolding found_first_def by (meson linorder_not_le order_trans)

lemma found_first_here:
  assumes "ptr_at (chains b) p m" "pchain p \<noteq> None" "occurs what (content b) m" "n \<le> m"
    "\<And>j. n \<le> j \<Longrightarrow> j < m \<Longrightarrow> \<not> occurs what (content b) j"
  shows "found_first b what n lim (if lim < m + length what then PTR_NOT_FOUND else p)"
proof (cases "lim < m + length what")
  case True
  then have "lim < j + length what" if "j \<ge> n" "occurs what (content b) j" for j
    using assms(5) [of j] that by (meson add_le_mono1 linorder_not_le order_less_le_trans)
  with True show ?thesis by (auto simp: found_first_def)
qed (use assms in \<open>auto simp: found_first_def\<close>)

definition stop_lim :: "evbuffer \<Rightarrow> evbuffer_ptr option \<Rightarrow> nat" where
  "stop_lim b stop = (case stop of Some e \<Rightarrow> nat (ppos e) | None \<Rightarrow> total_len b)"

lemma no_occurrence:
  assumes "drop n (content b) = s @ t" "what \<noteq> []" "\<forall>x < q. s ! x \<noteq> hd what" "q \<le> length s" "n \<le> j" "j < n + q"
  shows "\<not> occurs what (content b) j"
proof
  assume "occurs what (content b) j"
  then have j: "j < length (content b)" "content b ! j = hd what" using occurs_first assms(2) by blast+
  have "n \<le> length (content b)" using j assms(5) by simp
  then have "drop n (content b) ! (j - n) = content b ! j" using assms(5) by simp
  moreover have "j - n < q" using assms(5,6) by simp
  ultimately show False using j assms(1,3,4) by (simp add: nth_append)
qed

lemma search_step_next:
  assumes "\<exists>p. search_loop b what stop cs (length pre') i' (int (length (cs_content pre') + i')) = Some p \<and>
      found_first b what (length (cs_content pre') + i') lim p"
    "loop = search_loop b what stop cs (length pre') i' (int (length (cs_content pre') + i'))"
    "n \<le> length (cs_content pre') + i'"
    "\<And>j. n \<le> j \<Longrightarrow> j < length (cs_content pre') + i' \<Longrightarrow> \<not> occurs what (content b) j"
  shows "\<exists>p. loop = Some p \<and> found_first b what n lim p"
  using assms found_first_later by metis

lemma stop_in_chain:
  assumes "ptr_at (chains b) e m" "pchain e = Some (length pre)" "chains b = pre @ c # cs"
  shows "nat (ppos e) \<le> length (cs_content pre) + off c"
  using assms by (auto simp: ptr_at_def nat_add_distrib)

lemma search_loop_ok:
  assumes b: "evbuffer_ok b" and what: "what \<noteq> []" and stop: "\<And>e. stop = Some e \<Longrightarrow> \<exists>m. ptr_at (chains b) e m"
    and "chains b = pre @ cs" "cs \<noteq> [] \<longrightarrow> i \<le> off (hd cs)" "cs = [] \<longrightarrow> i = 0"
  shows "\<exists>p. search_loop b what stop cs (length pre) i (int (length (cs_content pre) + i)) = Some p \<and>
    found_first b what (length (cs_content pre) + i) (stop_lim b stop) p"
  using assms(4-)
proof (induction "length cs + length (cs_content cs) - i" arbitrary: pre cs i rule: less_induct)
  case less
  let ?n = "length (cs_content pre) + i" and ?lim = "stop_lim b stop"
  show ?case
  proof (cases cs)
    case Nil
    have "n < length (content b)" if "occurs what (content b) n" for n
      using occurs_first that what by blast
    with Nil less.prems show ?thesis by (fastforce simp: found_first_def content_def)
  next
    case (Cons c ds)
    let ?s = "drop i (cdata c)"
    have c: "chain_ok c" "length (cdata c) = off c" "i \<le> off c" "chains b = pre @ c # ds"
      using b less.prems Cons by (auto simp: evbuffer_ok_def)
    have s: "drop ?n (content b) = ?s @ cs_content ds" using c by (simp add: content_def)
    note no = no_occurrence [OF s what]
    have next_chain: "\<exists>p. search_loop b what stop ds (length (pre @ [c])) 0 (int (length (cs_content (pre @ [c])) + 0)) = Some p \<and>
        found_first b what (length (cs_content (pre @ [c])) + 0) ?lim p"
      by (rule less.hyps) (use c Cons b in \<open>auto simp: evbuffer_ok_def\<close>)
    show ?thesis
    proof (cases "memchr (hd what) ?s")
      case None
      then have none: "\<forall>x < length ?s. ?s ! x \<noteq> hd what"
        unfolding memchr_def first_index_eq_None by (metis nth_mem)
      show ?thesis
      proof (cases "stop \<noteq> None \<and> pchain (the stop) = Some (length pre)")
        case True
        then obtain e m where e: "stop = Some e" "ptr_at (chains b) e m" "pchain e = Some (length pre)" using stop by auto
        have "?lim < j + length what" if "?n \<le> j" "occurs what (content b) j" for j
          using no [OF none order_refl that(1)] that stop_in_chain [OF e(2,3) c(4)] c(2,3) what
          by (simp add: stop_lim_def e(1)) (metis add_less_le_mono length_greater_0_conv linorder_not_le add.right_neutral add_le_less_mono order_le_less_trans)
        then show ?thesis using True None c Cons by (auto simp: found_first_def)
      next
        case False
        show ?thesis
          by (rule search_step_next [OF next_chain]) (use False None c Cons no [OF none order_refl] in auto)
      qed
    next
      case (Some q)
      then have q: "q < length ?s" "?s ! q = hd what" "\<forall>x < q. ?s ! x \<noteq> hd what"
        by (auto simp: memchr_def first_index_eq_Some)
      let ?p = "\<lparr>ppos = int ?n + int q, pchain = Some (length pre), pos_in_chain = i + q\<rparr>"
      have p: "ptr_at (chains b) ?p (?n + q)" using q c by (simp add: ptr_at_def)
      from ptr_memcmp_ok [OF b p, of what] obtain r where
        r: "evbuffer_ptr_memcmp b ?p what = Some r" "r = 0 \<longleftrightarrow> occurs what (content b) (?n + q)" by blast
      have none: "\<not> occurs what (content b) j" if "?n \<le> j" "j < ?n + q" for j
        by (rule no [OF q(3) _ that]) (use q in simp)
      show ?thesis
      proof (cases "r = 0")
        case True
        have "search_loop b what stop cs (length pre) i (int ?n) = Some (if ?lim < ?n + q + length what then PTR_NOT_FOUND else ?p)"
        proof (cases stop)
          case None
          have "?n + q + length what \<le> total_len b"
            using occurs_end [of what "content b" "?n + q"] occurs_first [OF _ what, of "content b" "?n + q"] True r b by simp
          with None True r Some c Cons show ?thesis by (simp add: stop_lim_def Let_def)
        next
          case e: (Some e)
          then have "0 \<le> ppos e" using stop [OF e] ptr_at_pos by auto
          with e True r Some c Cons show ?thesis by (auto simp: stop_lim_def Let_def zless_nat_eq_int_zless nat_less_iff)
        qed
        with found_first_here [OF p _ _ _ none] True r show ?thesis by simp
      next
        case False
        then have none1: "\<not> occurs what (content b) j" if "?n \<le> j" "j < ?n + q + 1" for j
          using none r that by (metis add.commute less_SucE plus_1_eq_Suc)
        show ?thesis
        proof (cases "i + q + 1 = off c")
          case True
          then have eq: "int (length (cs_content pre)) + int i + int q + 1 = int (length (cs_content pre)) + int (off c)" by simp
          show ?thesis
            by (rule search_step_next [OF next_chain]) (use False True Some r c Cons none1 in \<open>auto simp: Let_def eq\<close>)
        next
          case neq: False
          have here: "\<exists>p. search_loop b what stop cs (length pre) (i + q + 1) (int (length (cs_content pre) + (i + q + 1))) = Some p \<and>
              found_first b what (length (cs_content pre) + (i + q + 1)) ?lim p"
            by (rule less.hyps) (use neq q c Cons less.prems in auto)
          have step: "search_loop b what stop cs (length pre) i (int ?n) =
              search_loop b what stop cs (length pre) (i + q + 1) (int (length (cs_content pre) + (i + q + 1)))"
            using False neq Some r c unfolding Cons
            by (subst search_loop.simps(2)) (simp add: Let_def algebra_simps del: search_loop.simps)
          show ?thesis
            by (rule search_step_next [OF here step]) (use none1 in auto)
        qed
      qed
    qed
  qed
qed

definition starts_at :: "evbuffer \<Rightarrow> evbuffer_ptr option \<Rightarrow> nat \<Rightarrow> bool" where
  "starts_at b start n \<longleftrightarrow> ptr_at (chains b) (case start of Some p \<Rightarrow> p | None \<Rightarrow> ptr_first b) n"

lemma starts_at_None: "starts_at b None 0"
  by (auto simp: starts_at_def ptr_first_def ptr_at_def)

lemma search_range_ok:
  assumes b: "evbuffer_ok b" and what: "what \<noteq> []" "length what \<le> EV_SSIZE_MAX" and start: "starts_at b start n"
    and stop: "\<And>e. stop = Some e \<Longrightarrow> \<exists>m. ptr_at (chains b) e m"
  shows "\<exists>p. evbuffer_search_range b what start stop = Some p \<and> found_first b what n (stop_lim b stop) p"
proof -
  define pos where "pos = (case start of Some p \<Rightarrow> p | None \<Rightarrow> ptr_first b)"
  have pos: "ptr_at (chains b) pos n" using start by (simp add: starts_at_def pos_def)
  have cs: "\<forall>c \<in> set (chains b). chain_ok c" using b by (simp add: evbuffer_ok_def)
  show ?thesis
  proof (cases "pchain pos")
    case None
    then have "n = length (content b)" using pos by (simp add: ptr_at_def content_def)
    then have "\<not> occurs what (content b) m" if "n \<le> m" for m using occurs_first [OF _ what(1)] that by (meson linorder_not_less)
    then show ?thesis using None what by (auto simp: evbuffer_search_range_def pos_def [symmetric] found_first_def)
  next
    case (Some k)
    from ptr_at_Some [OF pos Some cs] obtain pre c post where
      split: "chains b = pre @ c # post" "k = length pre" "pos_in_chain pos \<le> off c"
      "n = length (cs_content pre) + pos_in_chain pos" "drop k (chains b) = c # post" by metis
    have "\<exists>p. search_loop b what stop (c # post) (length pre) (pos_in_chain pos) (int (length (cs_content pre) + pos_in_chain pos)) = Some p \<and>
        found_first b what (length (cs_content pre) + pos_in_chain pos) (stop_lim b stop) p"
      by (rule search_loop_ok [OF b what(1) stop]) (use split in auto)
    moreover have "evbuffer_search_range b what start stop =
        search_loop b what stop (c # post) (length pre) (pos_in_chain pos) (int (length (cs_content pre) + pos_in_chain pos))"
      using Some split what ptr_at_pos [OF pos]
      by (simp add: evbuffer_search_range_def pos_def [symmetric] chains_at_def del: search_loop.simps)
    ultimately show ?thesis using split by simp
  qed
qed

section \<open>Ends of lines\<close>

text \<open>Where the first end of line of a string stands and how long it is.\<close>

definition eol_spec :: "evbuffer_eol_style \<Rightarrow> u8 list \<Rightarrow> (nat \<times> nat) option" where
  "eol_spec style s =
     (case style of
        EVBUFFER_EOL_ANY \<Rightarrow>
          map_option (\<lambda>n. (n, length (takeWhile (\<lambda>x. x \<in> {CR, LF}) (drop n s)))) (first_index (\<lambda>x. x \<in> {CR, LF}) s)
      | EVBUFFER_EOL_CRLF_STRICT \<Rightarrow> map_option (\<lambda>n. (n, 2)) (List.find (occurs [CR, LF] s) [0..<length s])
      | EVBUFFER_EOL_CRLF \<Rightarrow>
          map_option (\<lambda>n. if 0 < n \<and> s ! (n - 1) = CR then (n - 1, 2) else (n, 1)) (first_index (\<lambda>x. x = LF) s)
      | EVBUFFER_EOL_LF \<Rightarrow> map_option (\<lambda>n. (n, 1)) (first_index (\<lambda>x. x = LF) s)
      | EVBUFFER_EOL_NUL \<Rightarrow> map_option (\<lambda>n. (n, 1)) (first_index (\<lambda>x. x = 0) s))"

definition eol_result :: "evbuffer \<Rightarrow> nat \<Rightarrow> (nat \<times> nat) option \<Rightarrow> (evbuffer_ptr \<times> nat) option \<Rightarrow> bool" where
  "eol_result b n spec r \<longleftrightarrow>
     (case spec of None \<Rightarrow> r = None | Some (m, e) \<Rightarrow> \<exists>p. r = Some (p, e) \<and> ptr_at (chains b) p (n + m))"

lemma scan_char_ok:
  assumes "evbuffer_ok b" "ptr_at (chains b) it n"
  shows "\<exists>r p. evbuffer_strchr b it chr = Some (r, p) \<and>
    (case first_index (\<lambda>x. x = chr) (drop n (content b)) of
       None \<Rightarrow> r = -1
     | Some m \<Rightarrow> r = int (n + m) \<and> ptr_in (chains b) p (n + m))"
  unfolding evbuffer_strchr_def
  by (rule ptr_scan_ok) (use assms in \<open>auto simp: memchr_def evbuffer_ok_def\<close>)

lemma scan_eol_ok:
  assumes "evbuffer_ok b" "ptr_at (chains b) it n"
  shows "\<exists>r p. evbuffer_find_eol_char b it = Some (r, p) \<and>
    (case first_index (\<lambda>x. x = CR \<or> x = LF) (drop n (content b)) of
       None \<Rightarrow> r = -1
     | Some m \<Rightarrow> r = int (n + m) \<and> ptr_in (chains b) p (n + m))"
  unfolding evbuffer_find_eol_char_def
  by (rule ptr_scan_ok) (use assms in \<open>auto simp: find_eol_char_first evbuffer_ok_def\<close>)

lemma strspn_ok:
  assumes "evbuffer_ok b" "ptr_at (chains b) p n" "pchain p \<noteq> None"
  shows "\<exists>p'. evbuffer_strspn b p chrset = Some (length (takeWhile (\<lambda>x. x \<in> set chrset) (drop n (content b))), p')"
proof -
  have cs: "\<forall>c \<in> set (chains b). chain_ok c" using assms by (simp add: evbuffer_ok_def)
  from assms(3) obtain k where k: "pchain p = Some k" by blast
  from ptr_at_Some [OF assms(2) k cs] obtain pre c post where
    split: "chains b = pre @ c # post" "k = length pre" "pos_in_chain p \<le> off c" "drop k (chains b) = c # post"
    "chain_ok c" "drop n (cs_content (chains b)) = drop (pos_in_chain p) (cdata c) @ cs_content post" by metis
  have "\<exists>k' i'. strspn_loop chrset (c # post) k (pos_in_chain p) 0 =
      Some (0 + length (takeWhile (\<lambda>x. x \<in> set chrset) (drop (pos_in_chain p) (cs_content (c # post)))), k', i')"
    by (rule strspn_loop_ok) (use cs split in auto)
  then show ?thesis using k split by (auto simp: evbuffer_strspn_def chains_at_def content_def)
qed

lemma ptr_subtract_ok:
  assumes b: "evbuffer_ok b" and p: "ptr_in (chains b) p n" and n: "howfar \<le> n" "n \<le> EV_SSIZE_MAX"
  shows "\<exists>p'. evbuffer_ptr_subtract b p howfar = Some (0, p') \<and> ptr_in (chains b) p' (n - howfar)"
proof -
  from p obtain k where k: "pchain p = Some k" "pos_in_chain p < off (chains b ! k)" "ptr_at (chains b) p n"
    by (auto simp: ptr_in_def)
  have cs: "\<forall>c \<in> set (chains b). chain_ok c" using b by (simp add: evbuffer_ok_def)
  have pos: "ppos p = int n" using k by (simp add: ptr_at_pos)
  show ?thesis
  proof (cases "howfar \<le> pos_in_chain p")
    case True
    then show ?thesis using k n by (auto simp: evbuffer_ptr_subtract_def ptr_at_def ptr_in_def)
  next
    case False
    have ss: "c_ssize (n - howfar) = int (n - howfar)"
      unfolding c_ssize_def by (rule signed_take_bit_int_eq_self) (use n in \<open>simp_all add: EV_SSIZE_MAX_def\<close>)
    have "n - howfar < length (cs_content ([] @ chains b))"
      using ptr_at_le [OF k(3) cs] False n by simp
    with ptr_walk_ok [OF cs, of 0 "n - howfar" "[]" "n - howfar"] show ?thesis
      using False pos n ss by (auto simp: evbuffer_ptr_subtract_def evbuffer_ptr_set_def)
  qed
qed

lemma getchr_ok:
  assumes b: "evbuffer_ok b" and p: "ptr_in (chains b) p n"
  shows "evbuffer_getchr b p = Some (uint (content b ! n))"
proof -
  from p obtain k where k: "pchain p = Some k" "pos_in_chain p < off (chains b ! k)" "ptr_at (chains b) p n"
    by (auto simp: ptr_in_def)
  have "\<forall>c \<in> set (chains b). chain_ok c" using b by (simp add: evbuffer_ok_def)
  from ptr_at_Some [OF k(3,1) this] obtain pre c post where
    split: "chains b = pre @ c # post" "k = length pre" "chain_ok c" "n = length (cs_content pre) + pos_in_chain p" by metis
  have "content b ! n = cdata c ! pos_in_chain p"
    using split k by (simp add: content_def nth_append)
  also have "\<dots> = cbuf c ! (misalign c + pos_in_chain p)" using split k by (auto simp: cdata_def chain_ok_def nth_append)
  finally show ?thesis using split k by (auto simp: evbuffer_getchr_def chain_ok_def)
qed

lemma find_first_occurrence:
  assumes "evbuffer_ok b" "what \<noteq> []" "found_first b what n (total_len b) p" "n \<le> total_len b"
  shows "case List.find (occurs what (drop n (content b))) [0..<length (drop n (content b))] of
    None \<Rightarrow> p = PTR_NOT_FOUND | Some m \<Rightarrow> ptr_at (chains b) p (n + m)"
proof -
  let ?s = "drop n (content b)"
  have occ: "occurs what ?s m \<longleftrightarrow> occurs what (content b) (n + m)" for m by (simp add: occurs_def add.commute)
  have lt: "m < length ?s" "n + m + length what \<le> total_len b" if "occurs what ?s m" for m
    using occurs_first [OF that assms(2)] occurs_end [of what "content b" "n + m"] that occ assms(1) by auto
  show ?thesis
  proof (cases "List.find (occurs what ?s) [0..<length ?s]")
    case None
    then have "\<not> occurs what ?s m" for m using lt by (auto simp: find_None_iff)
    then have "\<not> occurs what (content b) m" if "n \<le> m" for m using occ [of "m - n"] that by simp
    then show ?thesis using assms(3) None by (auto simp: found_first_def)
  next
    case (Some m)
    then have m: "occurs what ?s m" "\<And>j. j < m \<Longrightarrow> \<not> occurs what ?s j"
      by (auto simp: find_Some_iff)
    from assms(3) have "ptr_at (chains b) p (n + m)" unfolding found_first_def
    proof
      assume "\<exists>m\<ge>n. ptr_at (chains b) p m \<and> pchain p \<noteq> None \<and> occurs what (content b) m \<and> m + length what \<le> total_len b \<and>
        (\<forall>j. n \<le> j \<and> j < m \<longrightarrow> \<not> occurs what (content b) j)"
      then obtain m' where m': "m' \<ge> n" "ptr_at (chains b) p m'" "occurs what (content b) m'"
        "\<forall>j. n \<le> j \<and> j < m' \<longrightarrow> \<not> occurs what (content b) j" by blast
      have "\<not> m' - n < m" using m(2) [of "m' - n"] m'(1,3) occ by auto
      then have "\<not> m' < n + m" using m'(1) by simp
      moreover have "\<not> n + m < m'" using m(1) m'(4) occ by auto
      ultimately show ?thesis using m'(2) by (metis linorder_neqE_nat)
    next
      assume "p = PTR_NOT_FOUND \<and> (\<forall>m\<ge>n. occurs what (content b) m \<longrightarrow> total_len b < m + length what)"
      moreover have "occurs what (content b) (n + m)" using m(1) occ by simp
      ultimately have "total_len b < n + m + length what" by simp
      with lt(2) [OF m(1)] show ?thesis by simp
    qed
    then show ?thesis using Some by simp
  qed
qed

lemma search_eol_from_ok:
  assumes b: "evbuffer_ok b" "total_len b \<le> EV_SSIZE_MAX" and it: "ptr_at (chains b) it n"
  shows "\<exists>r. search_eol_from b it style = Some r \<and> eol_result b n (eol_spec style (drop n (content b))) r"
proof -
  have cs: "\<forall>c \<in> set (chains b). chain_ok c" using b by (simp add: evbuffer_ok_def)
  have n: "n \<le> total_len b" using ptr_at_le [OF it cs] length_content [OF b(1)] by (simp add: content_def)
  have chr: "\<exists>r p. evbuffer_strchr b it c = Some (r, p) \<and>
      (case first_index (\<lambda>x. x = c) (drop n (content b)) of
         None \<Rightarrow> r = -1 | Some m \<Rightarrow> r = int (n + m) \<and> ptr_in (chains b) p (n + m))" for c
    by (rule scan_char_ok [OF b(1) it])
  show ?thesis
  proof (cases style)
    case EVBUFFER_EOL_ANY
    from scan_eol_ok [OF b(1) it] obtain r p where
      "evbuffer_find_eol_char b it = Some (r, p)"
      "case first_index (\<lambda>x. x = CR \<or> x = LF) (drop n (content b)) of
         None \<Rightarrow> r = -1 | Some m \<Rightarrow> r = int (n + m) \<and> ptr_in (chains b) p (n + m)" by blast
    moreover have "\<exists>p'. evbuffer_strspn b p [CR, LF] =
        Some (length (takeWhile (\<lambda>x. x \<in> {CR, LF}) (drop m (content b))), p')" if "ptr_in (chains b) p m" for m
      using strspn_ok [OF b(1), of p m "[CR, LF]"] ptr_in_at [OF that] by simp
    ultimately show ?thesis using EVBUFFER_EOL_ANY
      by (fastforce simp: search_eol_from_def eol_spec_def eol_result_def add.commute dest: ptr_in_at split: option.splits)
  next
    case EVBUFFER_EOL_CRLF_STRICT
    have "\<exists>p. evbuffer_search_range b [CR, LF] (Some it) None = Some p \<and> found_first b [CR, LF] n (stop_lim b None) p"
      by (rule search_range_ok [OF b(1)]) (use it in \<open>auto simp: EV_SSIZE_MAX_def starts_at_def\<close>)
    then obtain p where p: "evbuffer_search b [CR, LF] (Some it) = Some p" "found_first b [CR, LF] n (total_len b) p"
      by (auto simp: evbuffer_search_def stop_lim_def)
    from find_first_occurrence [OF b(1) _ p(2) n] p(1) EVBUFFER_EOL_CRLF_STRICT show ?thesis
      by (auto simp: search_eol_from_def eol_spec_def eol_result_def PTR_NOT_FOUND_def dest: ptr_at_pos split: option.splits)
  next
    case EVBUFFER_EOL_CRLF
    from chr [of LF] obtain r p where p: "evbuffer_strchr b it LF = Some (r, p)"
      "case first_index (\<lambda>x. x = LF) (drop n (content b)) of
         None \<Rightarrow> r = -1 | Some m \<Rightarrow> r = int (n + m) \<and> ptr_in (chains b) p (n + m)" by blast
    show ?thesis
    proof (cases "first_index (\<lambda>x. x = LF) (drop n (content b))")
      case None
      with p EVBUFFER_EOL_CRLF show ?thesis by (simp add: search_eol_from_def eol_spec_def eol_result_def)
    next
      case (Some m)
      with p have m: "r = int (n + m)" "ptr_in (chains b) p (n + m)" "ppos p = int (n + m)" "ptr_at (chains b) p (n + m)"
        by (auto dest: ptr_in_at [THEN conjunct1, THEN ptr_at_pos] ptr_in_at)
      have le: "n + m \<le> EV_SSIZE_MAX" using ptr_at_le [OF m(4) cs] length_content [OF b(1)] b(2) by (simp add: content_def)
      show ?thesis
      proof (cases "m = 0")
        case True
        then show ?thesis using Some m p(1) it EVBUFFER_EOL_CRLF
          by (auto simp: search_eol_from_def eol_spec_def eol_result_def dest: ptr_at_pos)
      next
        case False
        with ptr_subtract_ok [OF b(1) m(2) _ le, of 1] obtain p' where
          p': "evbuffer_ptr_subtract b p 1 = Some (0, p')" "ptr_in (chains b) p' (n + (m - 1))" by auto
        have "content b ! (n + (m - 1)) = drop n (content b) ! (m - 1)" using n b by simp
        with getchr_ok [OF b(1) p'(2)] have "evbuffer_getchr b p' = Some (uint (drop n (content b) ! (m - 1)))" by simp
        then show ?thesis using Some m p(1) p' False it EVBUFFER_EOL_CRLF
          by (auto simp: search_eol_from_def eol_spec_def eol_result_def word_uint_eq_iff dest: ptr_in_at ptr_at_pos)
      qed
    qed
  next
    case EVBUFFER_EOL_LF
    with chr [of LF] show ?thesis
      by (auto simp: search_eol_from_def eol_spec_def eol_result_def dest: ptr_in_at split: option.splits)
  next
    case EVBUFFER_EOL_NUL
    with chr [of 0] show ?thesis
      by (auto simp: search_eol_from_def eol_spec_def eol_result_def dest: ptr_in_at split: option.splits)
  qed
qed

lemma readln_ok:
  assumes b: "evbuffer_ok b" "total_len b \<le> EV_SSIZE_MAX" "\<not> freeze_start b"
  shows "\<exists>b'. evbuffer_readln ok b style =
      (case eol_spec style (content b) of
         None \<Rightarrow> Some (None, b)
       | Some (m, e) \<Rightarrow> if ok (m + 1) then Some (Some (take m (content b)), b') else Some (None, b)) \<and>
    evbuffer_ok b' \<and> freeze_end b' = freeze_end b \<and> freeze_start b' = freeze_start b \<and>
    (\<forall>m e. eol_spec style (content b) = Some (m, e) \<longrightarrow> content b' = drop (m + e) (content b))"
proof -
  have "ptr_at (chains b) (ptr_first b) 0" using starts_at_None by (simp add: starts_at_def)
  from search_eol_from_ok [OF b(1,2) this, of style] obtain r where
    r: "search_eol_from b (ptr_first b) style = Some r" "eol_result b 0 (eol_spec style (content b)) r" by auto
  show ?thesis
  proof (cases "eol_spec style (content b)")
    case None
    with r b show ?thesis
      by (intro exI [of _ b]) (auto simp: evbuffer_readln_def evbuffer_search_eol_def eol_result_def PTR_NOT_FOUND_def)
  next
    case (Some me)
    obtain m e where me: "me = (m, e)" by fastforce
    with r Some obtain p where p: "r = Some (p, e)" "ptr_at (chains b) p m" by (auto simp: eol_result_def)
    from evbuffer_remove_ok [OF b(1,3), of m] obtain b1 where
      b1: "evbuffer_remove b m = Some (c_int (int (min m (total_len b))), take m (content b), b1)"
      "evbuffer_ok b1" "content b1 = drop m (content b)" "freeze_end b1 = freeze_end b" "freeze_start b1 = freeze_start b" by blast
    from evbuffer_drain_ok [OF b1(2), of e] b1 b obtain b2 where
      b2: "evbuffer_drain b1 e = Some (0, b2)" "evbuffer_ok b2" "content b2 = drop e (content b1)"
      "freeze_start b2 = freeze_start b1" "freeze_end b2 = freeze_end b1" by auto
    show ?thesis
      using Some me r(1) p b b1 b2 ptr_at_pos [OF p(2)]
      by (intro exI [of _ b2]) (auto simp: evbuffer_readln_def evbuffer_search_eol_def add.commute)
  qed
qed

lemma peek_loop_full: "n_vec \<le> idx \<Longrightarrow> snd (peek_loop cs idx len sofar n_vec) = []"
  by (induction cs arbitrary: idx sofar) auto

text \<open>
  The extents are a first part of the data, and all that was asked for when the array was long enough.
\<close>

lemma peek_loop_ok:
  assumes "\<forall>c \<in> set cs. chain_ok c" "peek_loop cs idx len sofar n_vec = (i, v)"
  shows "concat v = take (length (concat v)) (cs_content cs) \<and> idx \<le> i \<and>
    (i \<le> n_vec \<and> 0 \<le> len \<longrightarrow> min len (sofar + int (length (cs_content cs))) \<le> sofar + int (length (concat v)))"
  using assms
proof (induction cs arbitrary: idx sofar i v)
  case (Cons c cs)
  then have c: "chain_ok c" "length (cdata c) = off c" by auto
  obtain i' v' where rec: "peek_loop cs (Suc idx) len (sofar + int (off c)) n_vec = (i', v')" by fastforce
  from Cons.IH [OF _ rec] Cons.prems have IH: "concat v' = take (length (concat v')) (cs_content cs)" "Suc idx \<le> i'"
    "i' \<le> n_vec \<and> 0 \<le> len \<longrightarrow> min len (sofar + int (off c) + int (length (cs_content cs))) \<le> sofar + int (off c) + int (length (concat v'))"
    by auto
  consider "0 \<le> len" "len \<le> sofar" | "\<not> (0 \<le> len \<and> len \<le> sofar)" "idx < n_vec" | "len < 0" "\<not> idx < n_vec"
    | "0 \<le> len" "sofar < len" "\<not> idx < n_vec" by linarith
  then show ?case
  proof cases
    case 2
    with Cons.prems(2) rec have "i = i'" "v = cdata c # v'" by (auto split: if_splits)
    with IH c show ?thesis by (simp add: add.assoc)
  next
    case 4
    with Cons.prems(2) rec have "i = i'" by (auto split: if_splits)
    with IH(2) 4 have "n_vec < i" by simp
    moreover have "v = []" using peek_loop_full [of n_vec idx "c # cs" len sofar] 4 Cons.prems(2) by (simp split: if_splits)
    ultimately show ?thesis using \<open>i = i'\<close> IH(2) by simp
  qed (use Cons.prems(2) in auto)
qed simp

lemma peek_ok:
  assumes "evbuffer_ok b" "evbuffer_peek b len None n_vec = Some (i, v)"
  shows "concat v = take (length (concat v)) (content b) \<and>
    (i \<le> n_vec \<and> 0 \<le> len \<longrightarrow> min (nat len) (total_len b) \<le> length (concat v))"
  using peek_loop_ok [of "chains b" 0 _ 0 n_vec i v] assms length_content [OF assms(1)]
  by (fastforce simp: evbuffer_peek_def evbuffer_ok_def content_def split: if_splits)

section \<open>Properties\<close>

text \<open>
  Searching a string from a position finds its first occurrence at or after the position, also when
  it spans several chains, and only if it ends before the end position; otherwise the position
  -1 is returned. Every read stays inside the chains.
\<close>

theorem evbuffer_search_range_first:
  assumes "evbuffer_ok b" "what \<noteq> []" "length what \<le> EV_SSIZE_MAX" "starts_at b start n"
    "\<forall>e. stop = Some e \<longrightarrow> (\<exists>m. ptr_at (chains b) e m)"
  shows "\<exists>p. evbuffer_search_range b what start stop = Some p \<and>
    (p = PTR_NOT_FOUND \<and> (\<forall>m \<ge> n. occurs what (content b) m \<longrightarrow> stop_lim b stop < m + length what) \<or>
     (\<exists>m \<ge> n. ptr_at (chains b) p m \<and> occurs what (content b) m \<and> m + length what \<le> stop_lim b stop \<and>
       (\<forall>j. n \<le> j \<and> j < m \<longrightarrow> \<not> occurs what (content b) j)))"
proof -
  have "\<exists>p. evbuffer_search_range b what start stop = Some p \<and> found_first b what n (stop_lim b stop) p"
    by (rule search_range_ok [OF assms(1-4)]) (use assms(5) in blast)
  then show ?thesis unfolding found_first_def by blast
qed

text \<open>A buffer of two chains with the bytes \<open>ab CR\<close> and \<open>LF cd\<close>.\<close>

definition sample_chain :: "u8 list \<Rightarrow> evbuffer_chain" where
  "sample_chain s = \<lparr>cbuf = 0 # s @ [0], misalign = 1, off = length s, cflags = 0\<rparr>"

definition sample_lines :: evbuffer where
  "sample_lines = evbuffer_new\<lparr>chains := [sample_chain [97, 98, 13], sample_chain [10, 99, 100]], last_with_data := 1, total_len := 6\<rparr>"

lemma sample_lines_ok: "evbuffer_ok sample_lines" "content sample_lines = [97, 98, 13, 10, 99, 100]"
  by (simp_all add: evbuffer_ok_def sample_lines_def sample_chain_def evbuffer_new_def lwd_ok_def chain_ok_def CHAIN_PINNED_def
      evbuffer_chains_all_empty_def content_def cdata_def EV_SIZE_MAX_def EVBUFFER_CHAIN_MAX_def EVBUFFER_CHAIN_SIZE_def)

theorem evbuffer_search_range_first_witness:
  "\<exists>p. evbuffer_search_range sample_lines [13, 10] None None = Some p \<and> ppos p = 2"
proof -
  have occ: "occurs [13, 10] (content sample_lines) m \<longleftrightarrow> m = 2" if "m < 6" for m
  proof -
    have "m = 0 \<or> m = 1 \<or> m = 2 \<or> m = 3 \<or> m = 4 \<or> m = 5" using that by linarith
    then show ?thesis by (elim disjE) (simp_all add: sample_lines_ok occurs_def)
  qed
  have lim: "stop_lim sample_lines None = 6" by (simp add: stop_lim_def sample_lines_def)
  from evbuffer_search_range_first [OF sample_lines_ok(1) _ _ starts_at_None, of "[13, 10]" None]
  obtain p where p: "evbuffer_search_range sample_lines [13, 10] None None = Some p"
    "p = PTR_NOT_FOUND \<and> (\<forall>m. occurs [13, 10] (content sample_lines) m \<longrightarrow> 6 < m + 2) \<or>
     (\<exists>m. ptr_at (chains sample_lines) p m \<and> occurs [13, 10] (content sample_lines) m \<and> m + 2 \<le> 6)"
    by (auto simp: lim EV_SSIZE_MAX_def)
  have "occurs [13, 10] (content sample_lines) 2" using occ [of 2] by simp
  with p(2) have "\<exists>m. ptr_at (chains sample_lines) p m \<and> occurs [13, 10] (content sample_lines) m \<and> m + 2 \<le> 6" by fastforce
  then have "ppos p = 2" using occ by (auto dest!: ptr_at_pos)
  with p show ?thesis by blast
qed

text \<open>
  C27. \<^verbatim>\<open>evbuffer_readln\<close> takes the first line off the buffer: it returns the bytes in front of the first
  end of line of the given style and drains them together with it, while the rest stays; without an
  end of line, or without memory for the line, it returns no line and the buffer is as before.
\<close>

theorem evbuffer_readln_takes_line:
  assumes "evbuffer_ok b" "total_len b \<le> EV_SSIZE_MAX" "\<not> freeze_start b"
  shows "case eol_spec style (content b) of
      None \<Rightarrow> evbuffer_readln ok b style = Some (None, b)
    | Some (m, e) \<Rightarrow>
        if ok (m + 1)
        then \<exists>b'. evbuffer_readln ok b style = Some (Some (take m (content b)), b') \<and> evbuffer_ok b' \<and> content b' = drop (m + e) (content b)
        else evbuffer_readln ok b style = Some (None, b)"
  using readln_ok [OF assms, of ok style] by (auto split: option.splits)

theorem evbuffer_readln_takes_line_witness:
  "\<exists>b'. evbuffer_readln (\<lambda>_. True) sample_lines EVBUFFER_EOL_CRLF = Some (Some [97, 98], b') \<and> content b' = [99, 100]"
proof -
  have "eol_spec EVBUFFER_EOL_CRLF (content sample_lines) = Some (2, 2)"
    by (simp add: sample_lines_ok eol_spec_def first_index_Cons CR_def LF_def)
  with evbuffer_readln_takes_line [OF sample_lines_ok(1), where style = EVBUFFER_EOL_CRLF and ok = "\<lambda>_. True"] show ?thesis
    by (simp add: sample_lines_ok EV_SSIZE_MAX_def) (auto simp: sample_lines_def evbuffer_new_def)
qed

text \<open>Reading several lines, and the end of line that a writer uses for each style.\<close>

primrec read_lines :: "(nat \<Rightarrow> bool) \<Rightarrow> evbuffer_eol_style \<Rightarrow> nat \<Rightarrow> evbuffer \<Rightarrow> (u8 list option list \<times> evbuffer) option" where
  "read_lines ok style 0 b = Some ([], b)"
| "read_lines ok style (Suc n) b = do {
     (l, b1) \<leftarrow> evbuffer_readln ok b style;
     (ls, b2) \<leftarrow> read_lines ok style n b1;
     Some (l # ls, b2) }"

definition eol_bytes :: "evbuffer_eol_style \<Rightarrow> u8 list" where
  "eol_bytes style = (case style of EVBUFFER_EOL_NUL \<Rightarrow> [0] | EVBUFFER_EOL_LF \<Rightarrow> [LF] | _ \<Rightarrow> [CR, LF])"

lemma find_upt: "P k \<Longrightarrow> k < n \<Longrightarrow> (\<And>j. j < k \<Longrightarrow> \<not> P j) \<Longrightarrow> List.find P [0..<n] = Some k"
  by (auto simp: find_Some_iff intro!: exI [of _ k])

lemma eol_spec_line:
  assumes "style \<noteq> EVBUFFER_EOL_ANY" "last (eol_bytes style) \<notin> set line"
  shows "eol_spec style (line @ eol_bytes style @ rest) = Some (length line, length (eol_bytes style))"
proof -
  have ix: "first_index (\<lambda>x. x = c) (line @ pre @ c # rest) = Some (length line + length pre)" if "c \<notin> set line" "c \<notin> set pre" for c pre
    using that by (auto simp: first_index_append first_index_Cons first_index_eq_None split: option.splits
        dest: first_index_eq_Some [THEN iffD1])
  have crlf: "CR \<noteq> LF" by (simp add: CR_def LF_def)
  show ?thesis
  proof (cases style)
    case EVBUFFER_EOL_CRLF_STRICT
    with assms have lf: "LF \<notin> set line" by (simp add: eol_bytes_def)
    let ?s = "line @ CR # LF # rest"
    have "occurs [CR, LF] ?s (length line)" by (simp add: occurs_def)
    moreover have "\<not> occurs [CR, LF] ?s m" if "m < length line" for m
    proof
      assume "occurs [CR, LF] ?s m"
      then have "?s ! Suc m = LF" using occurs_nth [of "[CR, LF]" ?s m 1] that by simp
      with that lf crlf show False by (cases "Suc m < length line") (auto simp: nth_append dest: nth_mem less_antisym)
    qed
    ultimately have "List.find (occurs [CR, LF] ?s) [0..<length ?s] = Some (length line)"
      by (intro find_upt) simp_all
    then show ?thesis using EVBUFFER_EOL_CRLF_STRICT by (simp add: eol_spec_def eol_bytes_def)
  qed (use assms crlf ix [of LF "[]"] ix [of LF "[CR]"] ix [of 0 "[]"] in \<open>auto simp: eol_spec_def eol_bytes_def nth_append\<close>)
qed

text \<open>Reading lines that stand in a buffer, however its chains divide them.\<close>

lemma read_lines_ok:
  assumes "evbuffer_ok b" "total_len b \<le> EV_SSIZE_MAX" "\<not> freeze_start b" "style \<noteq> EVBUFFER_EOL_ANY"
    "content b = concat (map (\<lambda>l. l @ eol_bytes style) lines) @ rest" "\<forall>l \<in> set lines. last (eol_bytes style) \<notin> set l"
    "\<forall>n \<le> total_len b. ok n"
  shows "\<exists>b'. read_lines ok style (length lines) b = Some (map Some lines, b') \<and> evbuffer_ok b' \<and> content b' = rest"
  using assms(1-3,5-)
proof (induction lines arbitrary: b)
  case (Cons l ls)
  let ?rest = "concat (map (\<lambda>l. l @ eol_bytes style) ls) @ rest"
  have c: "content b = l @ eol_bytes style @ ?rest" using Cons.prems by simp
  have spec: "eol_spec style (content b) = Some (length l, length (eol_bytes style))"
    unfolding c by (rule eol_spec_line) (use assms(4) Cons.prems in auto)
  have ne: "eol_bytes style \<noteq> []" by (cases style) (auto simp: eol_bytes_def)
  then have "length l + 1 \<le> total_len b" using arg_cong [OF c, of length] Cons.prems(1) by (cases "eol_bytes style") auto
  with readln_ok [OF Cons.prems(1-3), of ok style] spec Cons.prems(6) obtain b1 where
    b1: "evbuffer_readln ok b style = Some (Some l, b1)" "evbuffer_ok b1" "\<not> freeze_start b1" "content b1 = ?rest"
    using Cons.prems(3) by (auto simp: c)
  have "total_len b1 \<le> total_len b"
    using length_content [OF b1(2)] length_content [OF Cons.prems(1)] b1(4) c by simp
  with Cons.IH [OF b1(2) _ b1(3,4)] Cons.prems b1(1) show ?case by auto
qed simp

text \<open>Writing lines, each followed by the end of line; the return values of the calls are collected.\<close>

primrec write_lines :: "(nat \<Rightarrow> bool) \<Rightarrow> evbuffer_eol_style \<Rightarrow> u8 list list \<Rightarrow> evbuffer \<Rightarrow> (int list \<times> evbuffer) option" where
  "write_lines ok style [] b = Some ([], b)"
| "write_lines ok style (l # ls) b = do {
     (r, b1) \<leftarrow> evbuffer_add ok b l;
     (q, b2) \<leftarrow> evbuffer_add ok b1 (eol_bytes style);
     (rs, b3) \<leftarrow> write_lines ok style ls b2;
     Some (r # q # rs, b3) }"

lemma add_serves:
  assumes "evbuffer_ok b" "\<not> freeze_end b" "alloc_serves ok (length data)" "length (content b @ data) \<le> EV_SIZE_MAX"
  shows "\<exists>b1. evbuffer_add ok b data = Some (0, b1) \<and> evbuffer_ok b1 \<and> content b1 = content b @ data \<and>
    freeze_start b1 = freeze_start b \<and> \<not> freeze_end b1"
  using evbuffer_add_ok [OF assms(1), of ok data] assms by (fastforce simp: add_post_def)

lemma write_lines_ok:
  assumes "evbuffer_ok b" "\<not> freeze_end b" "\<forall>l \<in> set lines. alloc_serves ok (length l)" "alloc_serves ok (length (eol_bytes style))"
    "length (content b @ concat (map (\<lambda>l. l @ eol_bytes style) lines)) \<le> EV_SIZE_MAX"
  shows "\<exists>b1. write_lines ok style lines b = Some (replicate (2 * length lines) 0, b1) \<and> evbuffer_ok b1 \<and>
    content b1 = content b @ concat (map (\<lambda>l. l @ eol_bytes style) lines) \<and> freeze_start b1 = freeze_start b \<and> \<not> freeze_end b1"
  using assms
proof (induction lines arbitrary: b)
  case (Cons l ls)
  from add_serves [OF Cons.prems(1,2), of ok l] Cons.prems(3,5) obtain b1 where
    b1: "evbuffer_add ok b l = Some (0, b1)" "evbuffer_ok b1" "content b1 = content b @ l" "freeze_start b1 = freeze_start b" "\<not> freeze_end b1"
    by (auto simp del: length_content)
  from add_serves [OF b1(2,5) Cons.prems(4)] b1(3) Cons.prems(5) obtain b2 where
    b2: "evbuffer_add ok b1 (eol_bytes style) = Some (0, b2)" "evbuffer_ok b2" "content b2 = content b @ l @ eol_bytes style"
    "freeze_start b2 = freeze_start b" "\<not> freeze_end b2"
    using b1(4) by (auto simp del: length_content)
  from Cons.IH [OF b2(2,5) _ Cons.prems(4)] Cons.prems(3,5) b2(3,4) b1(1) b2(1) show ?case
    by (auto simp del: length_content)
qed simp

text \<open>
  C28. Lines come out as they were written: when lines are added to an empty buffer with \<^verbatim>\<open>evbuffer_add\<close>, each followed by the
  end of line of the style, and further bytes behind them, every call of \<^verbatim>\<open>evbuffer_readln\<close> gives back one line, in
  order, and the further bytes stay in the buffer. The style is one of LF, CRLF, strict CRLF and NUL; for
  \<^verbatim>\<open>EVBUFFER_EOL_ANY\<close>, which takes several line breaks for one, there is no such end of line. No line contains the last
  byte of the end of line. Memory is available and the buffer holds at most \<^verbatim>\<open>EV_SSIZE_MAX\<close> bytes.
\<close>

theorem evbuffer_lines_round_trip:
  assumes "evbuffer_ok b" "content b = []" "\<not> freeze_start b" "\<not> freeze_end b" "style \<noteq> EVBUFFER_EOL_ANY"
    "\<forall>l \<in> set lines. last (eol_bytes style) \<notin> set l"
    "length (concat (map (\<lambda>l. l @ eol_bytes style) lines) @ tail) \<le> EV_SSIZE_MAX"
    "\<forall>l \<in> set lines. alloc_serves ok (length l)" "alloc_serves ok (length (eol_bytes style))" "alloc_serves ok (length tail)"
    "\<forall>n \<le> length (concat (map (\<lambda>l. l @ eol_bytes style) lines) @ tail). ok n"
  shows "\<exists>b1 b2 b3. write_lines ok style lines b = Some (replicate (2 * length lines) 0, b1) \<and>
    evbuffer_add ok b1 tail = Some (0, b2) \<and>
    read_lines ok style (length lines) b2 = Some (map Some lines, b3) \<and> evbuffer_ok b3 \<and> content b3 = tail"
proof -
  have le: "EV_SSIZE_MAX \<le> EV_SIZE_MAX" by (simp add: EV_SSIZE_MAX_def EV_SIZE_MAX_def)
  from write_lines_ok [OF assms(1,4,8,9)] assms(2,7) le obtain b1 where
    b1: "write_lines ok style lines b = Some (replicate (2 * length lines) 0, b1)" "evbuffer_ok b1"
    "content b1 = concat (map (\<lambda>l. l @ eol_bytes style) lines)" "freeze_start b1 = freeze_start b" "\<not> freeze_end b1" by auto
  from add_serves [OF b1(2,5) assms(10)] b1(3,4) assms(7) le obtain b2 where
    b2: "evbuffer_add ok b1 tail = Some (0, b2)" "evbuffer_ok b2" "content b2 = concat (map (\<lambda>l. l @ eol_bytes style) lines) @ tail"
    "freeze_start b2 = freeze_start b" by (auto simp del: length_content)
  have "total_len b2 = length (concat (map (\<lambda>l. l @ eol_bytes style) lines) @ tail)" using length_content [OF b2(2)] b2(3) by simp
  with read_lines_ok [OF b2(2) _ _ assms(5) b2(3) assms(6), of ok] b2(4) assms(3,7,11) b1(1) b2(1) show ?thesis by auto
qed

theorem evbuffer_lines_round_trip_witness:
  "\<exists>b1 b2 b3. write_lines (\<lambda>_. True) EVBUFFER_EOL_CRLF [[97, 98], [], [13, 99]] evbuffer_new = Some ([0, 0, 0, 0, 0, 0], b1) \<and>
    evbuffer_add (\<lambda>_. True) b1 [100] = Some (0, b2) \<and>
    read_lines (\<lambda>_. True) EVBUFFER_EOL_CRLF 3 b2 = Some ([Some [97, 98], Some [], Some [13, 99]], b3) \<and> content b3 = [100]"
proof -
  have n: "content evbuffer_new = []" "\<not> freeze_start evbuffer_new" "\<not> freeze_end evbuffer_new"
    by (simp_all add: evbuffer_new_def content_def)
  have a: "alloc_serves (\<lambda>_. True) k" if "k < 10" for k
    using that by (simp add: buffer_limits)
  let ?lines = "[[97, 98], [], [13, 99]] :: u8 list list"
  let ?all = "concat (map (\<lambda>l. l @ eol_bytes EVBUFFER_EOL_CRLF) ?lines) @ [100]"
  have h: "\<forall>l \<in> set ?lines. last (eol_bytes EVBUFFER_EOL_CRLF) \<notin> set l" "length ?all \<le> EV_SSIZE_MAX"
    "\<forall>l \<in> set ?lines. alloc_serves (\<lambda>_. True) (length l)" "alloc_serves (\<lambda>_. True) (length (eol_bytes EVBUFFER_EOL_CRLF))"
    "alloc_serves (\<lambda>_. True) (length [100 :: u8])"
    by (simp_all add: eol_bytes_def LF_def EV_SSIZE_MAX_def a)
  have r: "replicate (2 * 3) (0 :: int) = [0, 0, 0, 0, 0, 0]" "length ?lines = 3"
    "map Some ?lines = [Some [97, 98], Some [], Some [13, 99]]"
    by (simp_all add: numeral_eq_Suc)
  show ?thesis
    using evbuffer_lines_round_trip [OF evbuffer_new_ok(1) n _ h(1-5)] unfolding r by auto
qed

end
