(* ===== verification/Weakrand.thy ===== *)
theory Weakrand
  imports Event_Prelude "HOL-Library.Signed_Division" "HOL-Library.Monad_Syntax"
begin

text \<open>
  The weak random numbers of \<^verbatim>\<open>src/evutil.c\<close>, a linear congruential generator modulo \<open>2 ^ 31\<close>. The
  backends take the position at which they start to report events from it. The loop that rejects
  values which are too large ends because the generator runs through all residues.
\<close>

definition EVUTIL_WEAKRAND_MAX :: int where "EVUTIL_WEAKRAND_MAX = 0x7fffffff"

definition evutil_weakrand :: "u32 \<Rightarrow> int \<times> u32" where
  "evutil_weakrand seed = (let seed' = (seed * 1103515245 + 12345) AND 0x7fffffff in (sint seed', seed'))"

partial_function (option) weakrand_range_loop :: "int \<Rightarrow> int \<Rightarrow> u32 \<Rightarrow> (int \<times> u32) option" where
  "weakrand_range_loop divisor bound seed =
     (let (r, seed') = evutil_weakrand seed; result = r sdiv divisor
      in if result \<ge> bound then weakrand_range_loop divisor bound seed' else Some (result, seed'))"

text \<open>\<open>None\<close> also stands for the division by zero.\<close>

definition evutil_weakrand_range :: "u32 \<Rightarrow> int \<Rightarrow> (int \<times> u32) option" where
  "evutil_weakrand_range seed bound =
     (if bound = 0 \<or> EVUTIL_WEAKRAND_MAX sdiv bound = 0 then None
      else weakrand_range_loop (EVUTIL_WEAKRAND_MAX sdiv bound) bound seed)"

declare weakrand_range_loop.simps [code]

section \<open>The period of the generator\<close>

primrec geo :: "int \<Rightarrow> nat \<Rightarrow> int" where
  "geo a 0 = 0"
| "geo a (Suc n) = 1 + a * geo a n"

lemma geo_add: "geo a (m + n) = geo a n + a ^ n * geo a m"
  by (induction n) (auto simp: algebra_simps)

lemma lcg_iterate: "((\<lambda>x. a * x + c) ^^ n) x = x + geo a n * ((a - 1) * x + c)" for a c x :: int
proof (induction n)
  case (Suc n)
  have "((\<lambda>x. a * x + c) ^^ Suc n) x = a * (x + geo a n * ((a - 1) * x + c)) + c" using Suc by simp
  then show ?case by (simp add: algebra_simps)
qed simp

lemma geo_power_2:
  assumes "a mod 4 = 1"
  shows "\<exists>q. odd q \<and> geo a (2 ^ k) = 2 ^ k * q"
proof (induction k)
  case (Suc k)
  then obtain q where q: "odd q" "geo a (2 ^ k) = 2 ^ k * q" by blast
  have "a ^ n mod 4 = 1" for n using assms by (induction n) (auto simp: mod_mult_right_eq [symmetric] mod_mult_left_eq [symmetric])
  then have "a ^ 2 ^ k mod 4 = 1" .
  then have "a ^ 2 ^ k = 4 * (a ^ 2 ^ k div 4) + 1" by presburger
  then obtain r where "a ^ 2 ^ k = 4 * r + 1" by blast
  then have p: "1 + a ^ 2 ^ k = 2 * (2 * r + 1)" by simp
  have "geo a (2 ^ Suc k) = geo a (2 ^ k) * (1 + a ^ 2 ^ k)"
    using geo_add [of a "2 ^ k" "2 ^ k"] by (simp add: algebra_simps mult_2)
  then have "geo a (2 ^ Suc k) = 2 ^ Suc k * (q * (2 * r + 1))" unfolding q p by simp
  with q show ?case by (intro exI [of _ "q * (2 * r + 1)"]) simp
qed simp

text \<open>Every residue modulo a power of 2 is reached, in particular 0.\<close>

lemma lcg_reaches_0:
  fixes a c x :: int
  assumes "a mod 4 = 1" "odd c"
  shows "\<exists>n. 2 ^ k dvd ((\<lambda>x. a * x + c) ^^ n) x"
proof (induction k)
  case (Suc k)
  let ?f = "\<lambda>x. a * x + c"
  from Suc obtain n where "2 ^ k dvd (?f ^^ n) x" by blast
  then obtain m where m: "(?f ^^ n) x = 2 ^ k * m" by blast
  show ?case
  proof (cases "even m")
    case True
    then have "2 ^ Suc k dvd (?f ^^ n) x" unfolding m by auto
    then show ?thesis by blast
  next
    case False
    obtain q where q: "odd q" "geo a (2 ^ k) = 2 ^ k * q" using geo_power_2 [OF assms(1)] by blast
    let ?d = "(a - 1) * (2 ^ k * m) + c"
    have "even (a - 1)" using assms(1) by presburger
    then have d: "odd ?d" using assms(2) by simp
    have "(?f ^^ (2 ^ k + n)) x = 2 ^ k * (m + q * ?d)"
      unfolding funpow_add comp_def m lcg_iterate [where n = "2 ^ k"] q(2) by (simp add: algebra_simps)
    moreover have "even (m + q * ?d)" using False q(1) d by simp
    ultimately have "2 ^ Suc k dvd (?f ^^ (2 ^ k + n)) x" by auto
    then show ?thesis by blast
  qed
qed simp

section \<open>Random numbers below a bound\<close>

lemma uint_weakrand: "uint (snd (evutil_weakrand seed)) = (1103515245 * uint seed + 12345) mod 2 ^ 31"
proof -
  have "snd (evutil_weakrand seed) = take_bit 31 (seed * 1103515245 + 12345)"
    by (simp add: evutil_weakrand_def Let_def take_bit_eq_mask mask_numeral)
  also have "seed * 1103515245 + 12345 = word_of_int (1103515245 * uint seed + 12345)"
    by (simp add: mult.commute)
  finally have "uint (snd (evutil_weakrand seed)) = take_bit 31 (take_bit 32 (1103515245 * uint seed + 12345))"
    by (simp only: unsigned_take_bit_eq unsigned_of_int) simp
  then show ?thesis by (simp add: take_bit_eq_mod del: take_bit_take_bit) (simp add: mod_mod_cancel)
qed

lemma weakrand_result: "fst (evutil_weakrand seed) = uint (snd (evutil_weakrand seed))"
proof -
  let ?w = "snd (evutil_weakrand seed)"
  have "uint ?w < 2 ^ 31" "0 \<le> uint ?w" unfolding uint_weakrand by simp_all
  then have "signed_take_bit 31 (uint ?w) = uint ?w" by (intro signed_take_bit_int_eq_self) linarith+
  then have "sint ?w = uint ?w" by (simp add: sint_uint)
  then show ?thesis by (simp add: evutil_weakrand_def Let_def)
qed

lemma lcg_mod: "(a * (x mod m) + c) mod m = (a * x + c) mod m" for a x c m :: int
  by (metis mod_add_left_eq mod_mult_right_eq)

lemma weakrand_reaches_0: "\<exists>n. uint (((\<lambda>s. snd (evutil_weakrand s)) ^^ Suc n) seed) = 0"
proof -
  let ?f = "\<lambda>x :: int. 1103515245 * x + 12345" and ?g = "\<lambda>s. snd (evutil_weakrand s)"
  have "uint ((?g ^^ Suc n) seed) = (?f ^^ Suc n) (uint seed) mod 2 ^ 31" for n
  proof (induction n)
    case (Suc n)
    have "uint ((?g ^^ Suc (Suc n)) seed) = ?f (uint ((?g ^^ Suc n) seed)) mod 2 ^ 31"
      by (simp only: funpow.simps comp_def uint_weakrand)
    also have "\<dots> = ?f ((?f ^^ Suc n) (uint seed)) mod 2 ^ 31" unfolding Suc by (rule lcg_mod)
    finally show ?case by simp
  qed (simp add: uint_weakrand)
  moreover obtain n where "2 ^ 31 dvd (?f ^^ n) (?f (uint seed))" using lcg_reaches_0 [of 1103515245 12345 31] by auto
  ultimately have "uint ((?g ^^ Suc n) seed) = 0" by (simp only: funpow_Suc_right comp_def dvd_eq_mod_eq_0)
  then show ?thesis by blast
qed

lemma range_loop_ends:
  assumes "0 < divisor" "0 < bound" "uint (((\<lambda>s. snd (evutil_weakrand s)) ^^ Suc n) seed) = 0"
  shows "\<exists>r seed'. weakrand_range_loop divisor bound seed = Some (r, seed') \<and> 0 \<le> r \<and> r < bound"
  using assms(3)
proof (induction n arbitrary: seed)
  case (Suc n)
  let ?w = "snd (evutil_weakrand seed)"
  have "\<exists>r seed'. weakrand_range_loop divisor bound ?w = Some (r, seed') \<and> 0 \<le> r \<and> r < bound"
    by (rule Suc.IH) (use Suc.prems in \<open>simp only: funpow_Suc_right comp_def\<close>)
  moreover have "0 \<le> fst (evutil_weakrand seed) sdiv divisor"
    unfolding weakrand_result using assms(1) by (simp add: signed_divide_int_def pos_imp_zdiv_nonneg_iff)
  ultimately show ?case by (subst weakrand_range_loop.simps) (auto simp: case_prod_beta Let_def)
next
  case 0
  then have "fst (evutil_weakrand seed) = 0" by (simp add: weakrand_result)
  then show ?case using assms(2) by (subst weakrand_range_loop.simps) (auto simp: case_prod_beta Let_def)
qed

lemma weakrand_range_ok:
  assumes "0 < bound" "bound \<le> EVUTIL_WEAKRAND_MAX"
  shows "\<exists>r seed'. evutil_weakrand_range seed bound = Some (r, seed') \<and> 0 \<le> r \<and> r < bound"
proof -
  have d: "EVUTIL_WEAKRAND_MAX sdiv bound > 0"
    using assms by (simp add: signed_divide_int_def pos_imp_zdiv_pos_iff)
  obtain n where "uint (((\<lambda>s. snd (evutil_weakrand s)) ^^ Suc n) seed) = 0" using weakrand_reaches_0 by blast
  from range_loop_ends [OF d assms(1) this] d assms show ?thesis by (simp add: evutil_weakrand_range_def)
qed

section \<open>Properties\<close>

text \<open>
  C26. A random number below a bound is always produced: the loop that draws numbers until one is small
  enough ends for every seed, because the generator has the full period \<open>2 ^ 31\<close> and comes to 0, and
  the result is at least 0 and below the bound.
\<close>

theorem evutil_weakrand_range_returns:
  assumes "0 < bound" "bound \<le> EVUTIL_WEAKRAND_MAX"
  shows "\<exists>r seed'. evutil_weakrand_range seed bound = Some (r, seed') \<and> 0 \<le> r \<and> r < bound"
  by (rule weakrand_range_ok [OF assms])

theorem evutil_weakrand_range_returns_witness:
  "\<exists>r seed'. evutil_weakrand_range 1 10 = Some (r, seed') \<and> 0 \<le> r \<and> r < 10"
  by (rule evutil_weakrand_range_returns) (simp_all add: EVUTIL_WEAKRAND_MAX_def)

end
