(* ===== verification/Poll_Select.thy ===== *)
theory Poll_Select
  imports Backend Timeval Weakrand
begin

text \<open>
  The backends of \<^verbatim>\<open>src/poll.c\<close> and \<^verbatim>\<open>src/select.c\<close> for a program with one thread, which needs no copy of
  the array of \<^verbatim>\<open>poll\<close>. Both watch descriptors for reading and writing only; what they watch after a
  sequence of requests is the same function of the requests, proved once in the locale
  \<open>rw_backend\<close>. \<open>Aborted\<close> stands for a failed assertion and for an access outside an array; \<open>ok\<close> is
  the allocator. The system calls are arguments.
\<close>

section \<open>The array of poll\<close>

definition POLLIN :: u16 where "POLLIN = 0x001"
definition POLLOUT :: u16 where "POLLOUT = 0x004"
definition POLLERR :: u16 where "POLLERR = 0x008"
definition POLLHUP :: u16 where "POLLHUP = 0x010"
definition POLLNVAL :: u16 where "POLLNVAL = 0x020"

record pollfd =
  pfd_fd :: int
  pfd_events :: u16
  pfd_revents :: u16

text \<open>The field \<open>idxplus1\<close> is the one of \<^verbatim>\<open>struct pollidx\<close>, which the maps keep for every descriptor.\<close>

record pollop =
  event_count :: nat
  nfds :: nat
  realloc_copy :: bool
  event_set :: "pollfd list"
  poll_idxplus1 :: "int \<Rightarrow> nat"

definition zero_pollfd :: pollfd where
  "zero_pollfd = \<lparr>pfd_fd = 0, pfd_events = 0, pfd_revents = 0\<rparr>"

definition poll_init :: pollop where
  "poll_init = \<lparr>event_count = 0, nfds = 0, realloc_copy = False, event_set = [], poll_idxplus1 = (\<lambda>_. 0)\<rparr>"

definition poll_grow :: "(nat \<Rightarrow> bool) \<Rightarrow> pollop \<Rightarrow> pollop option" where
  "poll_grow ok pop =
     (if nfds pop + 1 \<ge> event_count pop then
        (let tmp_event_count = (if event_count pop < 32 then 32 else event_count pop * 2)
         in if ok tmp_event_count
            then Some (pop\<lparr>event_set := event_set pop @ replicate (tmp_event_count - event_count pop) zero_pollfd,
                   event_count := tmp_event_count, realloc_copy := True\<rparr>)
            else None)
      else Some pop)"

definition poll_enter :: "pollop \<Rightarrow> int \<Rightarrow> nat \<times> pollop" where
  "poll_enter pop fd =
     (if poll_idxplus1 pop fd > 0 then (poll_idxplus1 pop fd - 1, pop)
      else (nfds pop,
        pop\<lparr>nfds := nfds pop + 1,
          event_set := (event_set pop)[nfds pop := \<lparr>pfd_fd = fd, pfd_events = 0, pfd_revents = pfd_revents (event_set pop ! nfds pop)\<rparr>],
          poll_idxplus1 := (poll_idxplus1 pop)(fd := nfds pop + 1)\<rparr>))"

definition poll_set_events :: "u16 \<Rightarrow> pollfd \<Rightarrow> pollfd" where
  "poll_set_events events p =
     (let e1 = (if has events EV_WRITE then pfd_events p OR POLLOUT else pfd_events p)
      in p\<lparr>pfd_revents := 0, pfd_events := (if has events EV_READ then e1 OR POLLIN else e1)\<rparr>)"

definition poll_add :: "(nat \<Rightarrow> bool) \<Rightarrow> pollop \<Rightarrow> int \<Rightarrow> u16 \<Rightarrow> u16 \<Rightarrow> (int \<times> pollop) outcome" where
  "poll_add ok pop fd old events =
     (if has events EV_SIGNAL then Aborted
      else if \<not> (has events EV_READ \<or> has events EV_WRITE) then Done (0, pop)
      else
        (case poll_grow ok pop of
           None \<Rightarrow> Done (-1, pop)
         | Some pop1 \<Rightarrow>
             (let (i, pop2) = poll_enter pop1 fd
              in if i < length (event_set pop2)
                 then Done (0, pop2\<lparr>event_set := (event_set pop2)[i := poll_set_events events (event_set pop2 ! i)]\<rparr>)
                 else Aborted)))"

definition poll_clear_events :: "u16 \<Rightarrow> pollfd \<Rightarrow> pollfd" where
  "poll_clear_events events p =
     (let e1 = (if has events EV_READ then pfd_events p AND NOT POLLIN else pfd_events p)
      in p\<lparr>pfd_events := (if has events EV_WRITE then e1 AND NOT POLLOUT else e1)\<rparr>)"

text \<open>The last entry moves into the place of the one that goes away.\<close>

definition poll_remove :: "pollop \<Rightarrow> int \<Rightarrow> nat \<Rightarrow> (int \<times> pollop) outcome" where
  "poll_remove pop fd i =
     (let n = nfds pop - 1; pop1 = pop\<lparr>poll_idxplus1 := (poll_idxplus1 pop)(fd := 0), nfds := n\<rparr>
      in if i = n then Done (0, pop1)
         else
           (let last = event_set pop ! n
            in if poll_idxplus1 pop1 (pfd_fd last) = n + 1
               then Done (0, pop1\<lparr>event_set := (event_set pop)[i := last],
                      poll_idxplus1 := (poll_idxplus1 pop1)(pfd_fd last := i + 1)\<rparr>)
               else Aborted))"

definition poll_del :: "pollop \<Rightarrow> int \<Rightarrow> u16 \<Rightarrow> u16 \<Rightarrow> (int \<times> pollop) outcome" where
  "poll_del pop fd old events =
     (if has events EV_SIGNAL then Aborted
      else if \<not> (has events EV_READ \<or> has events EV_WRITE) then Done (0, pop)
      else if poll_idxplus1 pop fd = 0 then Done (-1, pop)
      else
        (let i = poll_idxplus1 pop fd - 1
         in if i < length (event_set pop) then
              (let p = poll_clear_events events (event_set pop ! i); pop1 = pop\<lparr>event_set := (event_set pop)[i := p]\<rparr>
               in if pfd_events p \<noteq> 0 then Done (0, pop1) else poll_remove pop1 fd i)
            else Aborted))"

section \<open>Reporting events\<close>

text \<open>
  The result of \<^verbatim>\<open>poll\<close>: how many entries have events, with the field \<^verbatim>\<open>revents\<close> of every entry, or an
  error. Both backends report the entries in circular order from a random one on.
\<close>

datatype 'r ready = Ready int 'r | Interrupted | Failed

definition circular :: "nat \<Rightarrow> nat \<Rightarrow> nat list" where
  "circular start n = map (\<lambda>j. (start + 1 + j) mod n) [0..<n]"

definition poll_timeout :: "timeval option \<Rightarrow> int" where
  "poll_timeout tv =
     (case tv of
        None \<Rightarrow> -1
      | Some t \<Rightarrow> (let msec = evutil_tv_to_msec t in if msec < 0 \<or> msec > INT_MAX then INT_MAX else msec))"

definition poll_what_to_ev :: "u16 \<Rightarrow> u16" where
  "poll_what_to_ev what =
     (let what1 = (if what AND (POLLHUP OR POLLERR OR POLLNVAL) \<noteq> 0 then what OR POLLIN OR POLLOUT else what)
      in (if what1 AND POLLIN \<noteq> 0 then EV_READ else 0) OR (if what1 AND POLLOUT \<noteq> 0 then EV_WRITE else 0))"

definition poll_activations :: "(int \<times> u16) list \<Rightarrow> nat \<Rightarrow> (int \<times> u16) list" where
  "poll_activations entries start =
     (let report = (\<lambda>i. (fst (entries ! i), poll_what_to_ev (snd (entries ! i))))
      in filter (\<lambda>(fd, res). res \<noteq> 0) (map report (filter (\<lambda>i. snd (entries ! i) \<noteq> 0) (circular start (length entries)))))"

definition poll_dispatch ::
  "(pollfd list \<Rightarrow> int \<Rightarrow> u16 list ready) \<Rightarrow> u32 \<Rightarrow> pollop \<Rightarrow> timeval option \<Rightarrow>
     (int \<times> (int \<times> u16) list \<times> u32 \<times> pollop) option" where
  "poll_dispatch poll seed pop tv =
     (case poll (take (nfds pop) (event_set pop)) (poll_timeout tv) of
        Failed \<Rightarrow> Some (-1, [], seed, pop)
      | Interrupted \<Rightarrow> Some (0, [], seed, pop)
      | Ready res revents \<Rightarrow>
          (let pop1 = pop\<lparr>event_set := map2 (\<lambda>p r. p\<lparr>pfd_revents := r\<rparr>) (take (nfds pop) (event_set pop)) revents @
                 drop (nfds pop) (event_set pop)\<rparr>
           in if res = 0 \<or> nfds pop = 0 then Some (0, [], seed, pop1)
              else do {
                (start, seed1) \<leftarrow> evutil_weakrand_range seed (int (nfds pop));
                Some (0, poll_activations (zip (map pfd_fd (take (nfds pop) (event_set pop))) revents) (nat start), seed1, pop1) }))"

section \<open>The sets of select\<close>

definition NFDBITS :: nat where "NFDBITS = 64"

definition DIV_ROUNDUP :: "nat \<Rightarrow> nat \<Rightarrow> nat" where
  "DIV_ROUNDUP x y = (x + (y - 1)) div y"

definition SELECT_ALLOC_SIZE :: "nat \<Rightarrow> nat" where
  "SELECT_ALLOC_SIZE n = DIV_ROUNDUP n NFDBITS * 8"

text \<open>A set of descriptors is an array of bits, eight per byte of memory.\<close>

record selectop =
  event_fds :: int
  event_fdsz :: nat
  resize_out_sets :: bool
  event_readset_in :: "bool list"
  event_writeset_in :: "bool list"

definition set_realloc :: "bool list \<Rightarrow> nat \<Rightarrow> bool list" where
  "set_realloc s bytes = take (8 * bytes) s @ replicate (8 * bytes - length s) False"

definition set_clear_from :: "bool list \<Rightarrow> nat \<Rightarrow> bool list" where
  "set_clear_from s bytes = take (8 * bytes) s @ replicate (length s - 8 * bytes) False"

text \<open>The two allocations of \<^verbatim>\<open>select_resize\<close> succeed or fail separately.\<close>

definition select_resize :: "bool \<times> bool \<Rightarrow> selectop \<Rightarrow> nat \<Rightarrow> int \<times> selectop" where
  "select_resize ok sop fdsz =
     (if \<not> fst ok then (-1, sop)
      else
        (let sop1 = sop\<lparr>event_readset_in := set_realloc (event_readset_in sop) fdsz\<rparr>
         in if \<not> snd ok then (-1, sop1)
            else
              (0, sop1\<lparr>
                 event_readset_in := set_clear_from (event_readset_in sop1) (event_fdsz sop),
                 event_writeset_in := set_clear_from (set_realloc (event_writeset_in sop) fdsz) (event_fdsz sop),
                 resize_out_sets := True, event_fdsz := fdsz\<rparr>)))"

definition select_init :: "bool \<times> bool \<Rightarrow> selectop option" where
  "select_init ok =
     (let (r, sop) = select_resize ok \<lparr>event_fds = 0, event_fdsz = 0, resize_out_sets = False,
        event_readset_in = [], event_writeset_in = []\<rparr> (SELECT_ALLOC_SIZE (32 + 1))
      in if r \<noteq> 0 then None else Some sop)"

function grow_fdsz :: "nat \<Rightarrow> nat \<Rightarrow> nat" where
  "grow_fdsz fdsz need = (if 0 < fdsz \<and> fdsz < need then grow_fdsz (fdsz * 2) need else fdsz)"
  by pat_completeness auto
termination
  by (relation "measure (\<lambda>(a, s). s - a)") auto

declare grow_fdsz.simps [simp del]

definition FD_PUT :: "bool \<Rightarrow> int \<Rightarrow> bool list \<Rightarrow> bool list outcome" where
  "FD_PUT v fd s = (if 0 \<le> fd \<and> nat fd < length s then Done (s[nat fd := v]) else Aborted)"

definition select_change :: "bool \<Rightarrow> selectop \<Rightarrow> int \<Rightarrow> u16 \<Rightarrow> (int \<times> selectop) outcome" where
  "select_change v sop fd events =
     bind_outcome (if has events EV_READ then FD_PUT v fd (event_readset_in sop) else Done (event_readset_in sop)) (\<lambda>r.
     bind_outcome (if has events EV_WRITE then FD_PUT v fd (event_writeset_in sop) else Done (event_writeset_in sop)) (\<lambda>w.
       Done (0, sop\<lparr>event_readset_in := r, event_writeset_in := w\<rparr>)))"

definition select_add :: "bool \<times> bool \<Rightarrow> selectop \<Rightarrow> int \<Rightarrow> u16 \<Rightarrow> u16 \<Rightarrow> (int \<times> selectop) outcome" where
  "select_add ok sop fd old events =
     (if has events EV_SIGNAL then Aborted
      else if event_fds sop < fd then
        (let fdsz = grow_fdsz (if event_fdsz sop < 8 then 8 else event_fdsz sop) (SELECT_ALLOC_SIZE (nat fd + 1));
             (r, sop1) = (if fdsz \<noteq> event_fdsz sop then select_resize ok sop fdsz else (0, sop))
         in if r \<noteq> 0 then Done (-1, sop1) else select_change True (sop1\<lparr>event_fds := fd\<rparr>) fd events)
      else select_change True sop fd events)"

definition select_del :: "selectop \<Rightarrow> int \<Rightarrow> u16 \<Rightarrow> u16 \<Rightarrow> (int \<times> selectop) outcome" where
  "select_del sop fd old events =
     (if has events EV_SIGNAL then Aborted
      else if event_fds sop < fd then Done (0, sop)
      else select_change False sop fd events)"

text \<open>
  \<^verbatim>\<open>select\<close> is given the number of descriptors to look at and copies of the two sets, which it replaces.
\<close>

definition select_activations :: "bool list \<Rightarrow> bool list \<Rightarrow> nat \<Rightarrow> nat \<Rightarrow> (int \<times> u16) list" where
  "select_activations r w start n =
     filter (\<lambda>(fd, res). res \<noteq> 0)
       (map (\<lambda>i. (int i, (if r ! i then EV_READ else 0) OR (if w ! i then EV_WRITE else 0))) (circular start n))"

definition select_dispatch ::
  "(nat \<Rightarrow> bool list \<Rightarrow> bool list \<Rightarrow> timeval option \<Rightarrow> (bool list \<times> bool list) ready) \<Rightarrow> bool \<times> bool \<Rightarrow> u32 \<Rightarrow> selectop \<Rightarrow>
     timeval option \<Rightarrow> (int \<times> (int \<times> u16) list \<times> u32 \<times> selectop) option" where
  "select_dispatch select ok seed sop tv =
     (if resize_out_sets sop \<and> (\<not> fst ok \<or> \<not> snd ok) then Some (-1, [], seed, sop)
      else
        (let sop1 = sop\<lparr>resize_out_sets := False\<rparr>; n = nat (event_fds sop + 1);
             copy = (\<lambda>s. take (8 * event_fdsz sop) s)
         in case select n (copy (event_readset_in sop)) (copy (event_writeset_in sop)) tv of
              Failed \<Rightarrow> Some (-1, [], seed, sop1)
            | Interrupted \<Rightarrow> Some (0, [], seed, sop1)
            | Ready res (r, w) \<Rightarrow> do {
                (start, seed1) \<leftarrow> evutil_weakrand_range seed (int n);
                if n \<le> length r \<and> n \<le> length w then Some (0, select_activations r w (nat start) n, seed1, sop1) else None }))"

section \<open>What the backends promise\<close>

text \<open>
  What is watched on a descriptor: reading, and writing. A request adds or takes away events. It may
  only take away what is watched, as the maps see to.
\<close>

type_synonym rw = "bool \<times> bool"

definition rw_of :: "u16 \<Rightarrow> rw" where
  "rw_of events = (has events EV_READ, has events EV_WRITE)"

definition rw_add :: "rw \<Rightarrow> u16 \<Rightarrow> rw" where
  "rw_add x events = (fst x \<or> has events EV_READ, snd x \<or> has events EV_WRITE)"

definition rw_del :: "rw \<Rightarrow> u16 \<Rightarrow> rw" where
  "rw_del x events = (fst x \<and> \<not> has events EV_READ, snd x \<and> \<not> has events EV_WRITE)"

datatype request = Add int u16 | Del int u16

fun request_ok :: "(int \<Rightarrow> rw) \<Rightarrow> request \<Rightarrow> bool" where
  "request_ok wt (Add fd events) \<longleftrightarrow> 0 \<le> fd \<and> \<not> has events EV_SIGNAL"
| "request_ok wt (Del fd events) \<longleftrightarrow> 0 \<le> fd \<and> \<not> has events EV_SIGNAL \<and>
     (has events EV_READ \<longrightarrow> fst (wt fd)) \<and> (has events EV_WRITE \<longrightarrow> snd (wt fd))"

text \<open>The watched events after a request that returned \<open>r\<close>.\<close>

fun rw_step :: "(int \<Rightarrow> rw) \<Rightarrow> request \<Rightarrow> int \<Rightarrow> int \<Rightarrow> rw" where
  "rw_step wt (Add fd events) r = (if r = 0 then wt(fd := rw_add (wt fd) events) else wt)"
| "rw_step wt (Del fd events) r = wt(fd := rw_del (wt fd) events)"

text \<open>A sequence of requests, their results, and the watched events; each request must be allowed.\<close>

fun rw_run :: "(int \<Rightarrow> rw) \<Rightarrow> (request \<times> int) list \<Rightarrow> (int \<Rightarrow> rw) option" where
  "rw_run wt [] = Some wt"
| "rw_run wt ((q, r) # qs) = (if request_ok wt q then rw_run (rw_step wt q r) qs else None)"

text \<open>Serving requests with the operations \<open>add\<close> and \<open>del\<close> of a backend; the results are kept.\<close>

type_synonym 'k change_op = "'k \<Rightarrow> int \<Rightarrow> u16 \<Rightarrow> u16 \<Rightarrow> (int \<times> 'k) outcome"

primrec serve :: "'k change_op \<Rightarrow> 'k change_op \<Rightarrow> 'k \<Rightarrow> request \<Rightarrow> (int \<times> 'k) outcome" where
  "serve add del k (Add fd events) = add k fd 0 events"
| "serve add del k (Del fd events) = del k fd 0 events"

primrec serve_all :: "'k change_op \<Rightarrow> 'k change_op \<Rightarrow> request list \<Rightarrow> 'k \<Rightarrow> ((request \<times> int) list \<times> 'k) outcome" where
  "serve_all add del [] k = Done ([], k)"
| "serve_all add del (q # qs) k =
     bind_outcome (serve add del k q) (\<lambda>(r, k1).
     bind_outcome (serve_all add del qs k1) (\<lambda>(rs, k2). Done ((q, r) # rs, k2)))"

locale rw_backend =
  fixes badd :: "'k \<Rightarrow> int \<Rightarrow> u16 \<Rightarrow> u16 \<Rightarrow> (int \<times> 'k) outcome"
    and bdel :: "'k \<Rightarrow> int \<Rightarrow> u16 \<Rightarrow> u16 \<Rightarrow> (int \<times> 'k) outcome"
    and bwf :: "'k \<Rightarrow> bool"
    and watch :: "'k \<Rightarrow> int \<Rightarrow> rw"
  assumes badd_ok: "bwf k \<Longrightarrow> 0 \<le> fd \<Longrightarrow> \<not> has events EV_SIGNAL \<Longrightarrow>
      \<exists>r k'. badd k fd old events = Done (r, k') \<and> bwf k' \<and> (r = 0 \<or> r = -1) \<and>
        watch k' = (if r = 0 then (watch k)(fd := rw_add (watch k fd) events) else watch k)"
    and bdel_ok: "bwf k \<Longrightarrow> 0 \<le> fd \<Longrightarrow> \<not> has events EV_SIGNAL \<Longrightarrow>
      (has events EV_READ \<longrightarrow> fst (watch k fd)) \<Longrightarrow> (has events EV_WRITE \<longrightarrow> snd (watch k fd)) \<Longrightarrow>
      \<exists>k'. bdel k fd old events = Done (0, k') \<and> bwf k' \<and> watch k' = (watch k)(fd := rw_del (watch k fd) events)"
begin

lemma serve_step:
  assumes "bwf k" "request_ok (watch k) q"
  shows "\<exists>r k'. serve badd bdel k q = Done (r, k') \<and> bwf k' \<and> watch k' = rw_step (watch k) q r"
proof (cases q)
  case (Add fd events)
  with assms badd_ok [of k fd events 0] obtain r k' where
    "badd k fd 0 events = Done (r, k')" "bwf k'"
    "watch k' = (if r = 0 then (watch k)(fd := rw_add (watch k fd) events) else watch k)" by auto
  with Add show ?thesis by auto
next
  case (Del fd events)
  with assms bdel_ok [of k fd events 0] show ?thesis by auto
qed

lemma serve_all_watch:
  assumes "bwf k" "serve_all badd bdel qs k = Done (rs, k')" "rw_run (watch k) rs = Some wt"
  shows "bwf k' \<and> watch k' = wt"
  using assms
proof (induction qs arbitrary: k rs)
  case (Cons q qs)
  from Cons.prems(2) obtain r k1 rs' where
    s: "serve badd bdel k q = Done (r, k1)" "serve_all badd bdel qs k1 = Done (rs', k')" "rs = (q, r) # rs'" by auto
  with Cons.prems(3) have q: "request_ok (watch k) q" "rw_run (rw_step (watch k) q r) rs' = Some wt"
    by (auto split: if_splits)
  from serve_step [OF Cons.prems(1) q(1)] s(1) have "bwf k1" "watch k1 = rw_step (watch k) q r" by auto
  with Cons.IH s(2) q(2) show ?case by simp
qed auto

end

text \<open>A backend whose allocations succeed serves every allowed request.\<close>

locale reliable_backend = rw_backend +
  assumes badd_0: "bwf k \<Longrightarrow> 0 \<le> fd \<Longrightarrow> \<not> has events EV_SIGNAL \<Longrightarrow> badd k fd old events = Done (r, k') \<Longrightarrow> r = 0"
begin

lemma serve_all_reliable:
  assumes "bwf k" "rw_run (watch k) (map (\<lambda>q. (q, 0)) qs) = Some wt"
  shows "\<exists>k'. serve_all badd bdel qs k = Done (map (\<lambda>q. (q, 0)) qs, k') \<and> bwf k' \<and> watch k' = wt"
  using assms
proof (induction qs arbitrary: k)
  case (Cons q qs)
  then have q: "request_ok (watch k) q" "rw_run (rw_step (watch k) q 0) (map (\<lambda>q. (q, 0)) qs) = Some wt"
    by (auto split: if_splits)
  from serve_step [OF Cons.prems(1) q(1)] obtain r k1 where
    k1: "serve badd bdel k q = Done (r, k1)" "bwf k1" "watch k1 = rw_step (watch k) q r" by blast
  have "r = 0"
  proof (cases q)
    case (Add fd events)
    with badd_0 [OF Cons.prems(1)] q(1) k1(1) show ?thesis by auto
  next
    case (Del fd events)
    with bdel_ok [OF Cons.prems(1), of fd events 0] q(1) k1(1) show ?thesis by auto
  qed
  with Cons.IH [of k1] k1 q(2) show ?case by auto
qed auto

end

section \<open>poll\<close>

definition poll_mask :: "rw \<Rightarrow> u16" where
  "poll_mask x = (if fst x then POLLIN else 0) OR (if snd x then POLLOUT else 0)"

lemma bit_POLL [simp]: "bit POLLIN i \<longleftrightarrow> i = 0" "bit POLLOUT i \<longleftrightarrow> i = 2"
  unfolding POLLIN_def POLLOUT_def by (simp add: bit_1_iff, rule bit_numeral_exp) simp_all

lemma bit_poll_mask: "bit (poll_mask x) i \<longleftrightarrow> fst x \<and> i = 0 \<or> snd x \<and> i = 2"
  by (auto simp: poll_mask_def bit_simps)

lemma poll_mask_inject [simp]: "poll_mask x = poll_mask y \<longleftrightarrow> x = y"
proof
  assume eq: "poll_mask x = poll_mask y"
  show "x = y" using arg_cong [OF eq, of "\<lambda>m. bit m 0"] arg_cong [OF eq, of "\<lambda>m. bit m 2"]
    by (simp add: bit_poll_mask prod_eq_iff)
qed simp

lemma poll_mask_eq_0: "poll_mask x = 0 \<longleftrightarrow> x = (False, False)"
  using poll_mask_inject [of x "(False, False)"] by (simp add: poll_mask_def del: poll_mask_inject)

lemma poll_set_mask: "pfd_events p = poll_mask x \<Longrightarrow> pfd_events (poll_set_events events p) = poll_mask (rw_add x events)"
  unfolding poll_set_events_def Let_def by (rule bit_word_eqI) (auto simp: bit_simps bit_poll_mask rw_add_def)

lemma poll_clear_mask: "pfd_events p = poll_mask x \<Longrightarrow> pfd_events (poll_clear_events events p) = poll_mask (rw_del x events)"
  unfolding poll_clear_events_def Let_def by (rule bit_word_eqI) (auto simp: bit_simps bit_poll_mask rw_del_def)

lemma poll_fd_set_clear [simp]:
  "pfd_fd (poll_set_events events p) = pfd_fd p" "pfd_fd (poll_clear_events events p) = pfd_fd p"
  by (simp_all add: poll_set_events_def poll_clear_events_def Let_def)

text \<open>The rows in use, and what they watch.\<close>

definition row_ok :: "pollfd \<Rightarrow> bool" where
  "row_ok p \<longleftrightarrow> (\<exists>x. x \<noteq> (False, False) \<and> pfd_events p = poll_mask x)"

definition rows_ok :: "(int \<Rightarrow> nat) \<Rightarrow> pollfd list \<Rightarrow> bool" where
  "rows_ok idx rows \<longleftrightarrow>
     (\<forall>i < length rows. idx (pfd_fd (rows ! i)) = i + 1 \<and> row_ok (rows ! i)) \<and>
     (\<forall>fd. idx fd \<noteq> 0 \<longrightarrow> idx fd \<le> length rows \<and> pfd_fd (rows ! (idx fd - 1)) = fd)"

definition rows :: "pollop \<Rightarrow> pollfd list" where
  "rows pop = take (nfds pop) (event_set pop)"

definition poll_wf :: "pollop \<Rightarrow> bool" where
  "poll_wf pop \<longleftrightarrow> length (event_set pop) = event_count pop \<and> nfds pop \<le> event_count pop \<and> rows_ok (poll_idxplus1 pop) (rows pop)"

definition rows_watch :: "(int \<Rightarrow> nat) \<Rightarrow> pollfd list \<Rightarrow> int \<Rightarrow> rw" where
  "rows_watch idx rs fd =
     (if idx fd = 0 then (False, False)
      else (bit (pfd_events (rs ! (idx fd - 1))) 0, bit (pfd_events (rs ! (idx fd - 1))) 2))"

definition poll_watch :: "pollop \<Rightarrow> int \<Rightarrow> rw" where
  "poll_watch pop = rows_watch (poll_idxplus1 pop) (rows pop)"

lemma rows_ok_row:
  assumes "rows_ok idx rs" "idx fd = Suc i"
  shows "i < length rs" "pfd_fd (rs ! i) = fd" "pfd_events (rs ! i) = poll_mask (rows_watch idx rs fd)"
    "rows_watch idx rs fd \<noteq> (False, False)"
proof -
  have "idx fd \<le> length rs \<and> pfd_fd (rs ! (idx fd - 1)) = fd" using assms unfolding rows_ok_def by (metis Zero_not_Suc)
  then show i: "i < length rs" "pfd_fd (rs ! i) = fd" using assms(2) by auto
  with assms(1) obtain x where x: "x \<noteq> (False, False)" "pfd_events (rs ! i) = poll_mask x" unfolding rows_ok_def row_ok_def by blast
  then have "rows_watch idx rs fd = x" using assms(2) by (simp add: rows_watch_def bit_poll_mask)
  with x show "pfd_events (rs ! i) = poll_mask (rows_watch idx rs fd)" "rows_watch idx rs fd \<noteq> (False, False)" by auto
qed

lemma rows_ok_idx: "rows_ok idx rs \<Longrightarrow> i < length rs \<Longrightarrow> idx (pfd_fd (rs ! i)) = Suc i"
  by (simp add: rows_ok_def)

lemma rows_okI:
  assumes "\<And>i. i < length rs \<Longrightarrow> idx (pfd_fd (rs ! i)) = Suc i"
    "\<And>i. i < length rs \<Longrightarrow> row_ok (rs ! i)"
    "\<And>fd i. idx fd = Suc i \<Longrightarrow> i < length rs \<and> pfd_fd (rs ! i) = fd"
  shows "rows_ok idx rs"
proof -
  have "idx fd \<le> length rs \<and> pfd_fd (rs ! (idx fd - 1)) = fd" if "idx fd \<noteq> 0" for fd
    using assms(3) [of fd "idx fd - 1"] that by auto
  with assms(1,2) show ?thesis by (simp add: rows_ok_def)
qed

lemma rows_cong:
  assumes ok: "rows_ok idx rs" and len: "length rs' = length rs"
    and same: "\<And>i. i < length rs \<Longrightarrow> pfd_fd (rs' ! i) = pfd_fd (rs ! i) \<and> pfd_events (rs' ! i) = pfd_events (rs ! i)"
  shows "rows_ok idx rs' \<and> rows_watch idx rs' = rows_watch idx rs"
proof
  show "rows_ok idx rs'"
  proof (rule rows_okI)
    fix i assume "i < length rs'"
    then show "idx (pfd_fd (rs' ! i)) = Suc i" "row_ok (rs' ! i)"
      using ok same [of i] len unfolding rows_ok_def row_ok_def by auto
  next
    fix fd i assume "idx fd = Suc i"
    from rows_ok_row(1,2) [OF ok this] show "i < length rs' \<and> pfd_fd (rs' ! i) = fd" using same [of i] len by simp
  qed
  have "idx fd - 1 < length rs" if "idx fd \<noteq> 0" for fd using rows_ok_row(1) [OF ok, of fd "idx fd - 1"] that by simp
  then show "rows_watch idx rs' = rows_watch idx rs" using same by (simp add: rows_watch_def fun_eq_iff)
qed

lemma rows_update:
  assumes ok: "rows_ok idx rs" "idx fd = Suc i" and p: "pfd_fd p = fd" "pfd_events p = poll_mask x" "x \<noteq> (False, False)"
  shows "rows_ok idx (rs[i := p]) \<and> rows_watch idx (rs[i := p]) = (rows_watch idx rs)(fd := x)"
proof
  note row = rows_ok_row [OF ok]
  have pok: "row_ok p" using p unfolding row_ok_def by blast
  show "rows_ok idx (rs[i := p])"
  proof (rule rows_okI)
    fix j assume "j < length (rs[i := p])"
    then show "idx (pfd_fd (rs[i := p] ! j)) = Suc j" "row_ok (rs[i := p] ! j)"
      using ok p(1) pok row(1,2) unfolding rows_ok_def by (cases "j = i"; simp)+
  next
    fix g j assume "idx g = Suc j"
    then show "j < length (rs[i := p]) \<and> pfd_fd (rs[i := p] ! j) = g"
      using rows_ok_row [OF ok(1), of g j] row p by (cases "j = i") auto
  qed
  show "rows_watch idx (rs[i := p]) = (rows_watch idx rs)(fd := x)"
  proof
    fix g
    show "rows_watch idx (rs[i := p]) g = ((rows_watch idx rs)(fd := x)) g"
    proof (cases "g = fd")
      case True
      then show ?thesis using ok(2) p row(1) by (simp add: rows_watch_def bit_poll_mask)
    next
      case False
      have "idx g - 1 \<noteq> i" if "idx g \<noteq> 0"
        using rows_ok_row(2) [OF ok(1), of g i] row(2) False that by (metis Suc_pred' bot_nat_0.not_eq_extremum One_nat_def)
      with False show ?thesis by (auto simp: rows_watch_def)
    qed
  qed
qed

lemma rows_append:
  assumes ok: "rows_ok idx rs" "idx fd = 0" and p: "pfd_fd p = fd" "pfd_events p = poll_mask x" "x \<noteq> (False, False)"
  shows "rows_ok (idx(fd := Suc (length rs))) (rs @ [p]) \<and>
    rows_watch (idx(fd := Suc (length rs))) (rs @ [p]) = (rows_watch idx rs)(fd := x)"
proof
  have pok: "row_ok p" using p unfolding row_ok_def by blast
  have ne: "pfd_fd (rs ! i) \<noteq> fd" if "i < length rs" for i using rows_ok_idx [OF ok(1) that] ok(2) by auto
  show "rows_ok (idx(fd := Suc (length rs))) (rs @ [p])"
  proof (rule rows_okI)
    fix i assume "i < length (rs @ [p])"
    then show "(idx(fd := Suc (length rs))) (pfd_fd ((rs @ [p]) ! i)) = Suc i"
      "row_ok ((rs @ [p]) ! i)"
      using ok p(1) pok ne unfolding rows_ok_def by (auto simp: nth_append less_Suc_eq)
  next
    fix g i assume "(idx(fd := Suc (length rs))) g = Suc i"
    then show "i < length (rs @ [p]) \<and> pfd_fd ((rs @ [p]) ! i) = g"
      using rows_ok_row [OF ok(1), of g i] p by (auto simp: nth_append split: if_splits)
  qed
  have "idx g - 1 < length rs" if "idx g \<noteq> 0" for g using rows_ok_row(1) [OF ok(1), of g "idx g - 1"] that by simp
  then show "rows_watch (idx(fd := Suc (length rs))) (rs @ [p]) = (rows_watch idx rs)(fd := x)"
    using p by (auto simp: rows_watch_def fun_eq_iff bit_poll_mask nth_append)
qed

lemma rows_remove_last:
  assumes ok: "rows_ok idx rs" "idx fd = Suc i" and i: "Suc i = length rs"
  shows "rows_ok (idx(fd := 0)) (take i rs) \<and> rows_watch (idx(fd := 0)) (take i rs) = (rows_watch idx rs)(fd := (False, False))"
proof
  note row = rows_ok_row [OF ok]
  have ne: "pfd_fd (rs ! j) \<noteq> fd" if "j < i" for j using rows_ok_idx [OF ok(1), of j] ok(2) that i by auto
  have lt: "j < i" if "idx g = Suc j" "g \<noteq> fd" for g j
    using rows_ok_row(1,2) [OF ok(1) that(1)] that row(2) i by (metis less_SucE)
  show "rows_ok (idx(fd := 0)) (take i rs)"
  proof (rule rows_okI)
    fix j assume "j < length (take i rs)"
    then show "(idx(fd := 0)) (pfd_fd (take i rs ! j)) = Suc j" "row_ok (take i rs ! j)"
      using ok(1) ne i unfolding rows_ok_def by auto
  next
    fix g j assume "(idx(fd := 0)) g = Suc j"
    then show "j < length (take i rs) \<and> pfd_fd (take i rs ! j) = g"
      using rows_ok_row(2) [OF ok(1), of g j] lt [of g j] i by (auto split: if_splits)
  qed
  have "idx g - 1 < i" if "idx g \<noteq> 0" "g \<noteq> fd" for g using lt [of g "idx g - 1"] that by simp
  then show "rows_watch (idx(fd := 0)) (take i rs) = (rows_watch idx rs)(fd := (False, False))"
    by (auto simp: rows_watch_def fun_eq_iff)
qed

lemma rows_remove_move:
  assumes ok: "rows_ok idx rs" "idx fd = Suc i" and n: "length rs = Suc n" "i \<noteq> n" and last: "l = rs ! n"
  shows "idx (pfd_fd l) = Suc n \<and> pfd_fd l \<noteq> fd \<and> rows_ok (idx(fd := 0, pfd_fd l := Suc i)) (take n (rs[i := l])) \<and>
    rows_watch (idx(fd := 0, pfd_fd l := Suc i)) (take n (rs[i := l])) = (rows_watch idx rs)(fd := (False, False))"
proof (intro conjI)
  note row = rows_ok_row [OF ok]
  let ?idx = "idx(fd := 0, pfd_fd l := Suc i)" and ?rs = "take n (rs[i := l])"
  have i: "i < n" using row(1) n by simp
  show l: "idx (pfd_fd l) = Suc n" using rows_ok_idx [OF ok(1), of n] n last by simp
  show ne: "pfd_fd l \<noteq> fd" using l ok(2) n(2) by auto
  have lok: "row_ok l" using ok(1) n last unfolding rows_ok_def by simp
  have other: "pfd_fd (rs ! j) \<noteq> fd \<and> pfd_fd (rs ! j) \<noteq> pfd_fd l" if "j < n" "j \<noteq> i" for j
    using rows_ok_idx [OF ok(1), of j] that n l ok(2) by auto
  have lt: "j < n \<and> j \<noteq> i" if "idx g = Suc j" "g \<noteq> fd" "g \<noteq> pfd_fd l" for g j
    using rows_ok_row(1,2) [OF ok(1) that(1)] that row(2) n last by (metis less_SucE)
  show "rows_ok ?idx ?rs"
  proof (rule rows_okI)
    fix j assume "j < length ?rs"
    then show "?idx (pfd_fd (?rs ! j)) = Suc j" "row_ok (?rs ! j)"
      using ok(1) other [of j] lok ne i n unfolding rows_ok_def by (cases "j = i"; simp)+
  next
    fix g j assume "?idx g = Suc j"
    then show "j < length ?rs \<and> pfd_fd (?rs ! j) = g"
      using rows_ok_row(2) [OF ok(1), of g j] lt [of g j] i n by (auto split: if_splits)
  qed
  show "rows_watch ?idx ?rs = (rows_watch idx rs)(fd := (False, False))"
  proof
    fix g
    show "rows_watch ?idx ?rs g = ((rows_watch idx rs)(fd := (False, False))) g"
    proof (cases "g = fd \<or> g = pfd_fd l \<or> idx g = 0")
      case False
      then have "idx g - 1 < n \<and> idx g - 1 \<noteq> i" using lt [of g "idx g - 1"] by simp
      with False show ?thesis by (simp add: rows_watch_def)
    qed (use l ne last i n in \<open>auto simp: rows_watch_def\<close>)
  qed
qed

lemma poll_grow_ok:
  assumes "poll_wf pop" "poll_grow ok pop = Some pop1"
  shows "poll_wf pop1" "rows pop1 = rows pop" "poll_idxplus1 pop1 = poll_idxplus1 pop" "nfds pop1 = nfds pop"
    "nfds pop1 < event_count pop1"
  using assms by (auto simp: poll_grow_def poll_wf_def rows_def Let_def split: if_splits)

lemma take_Suc_update: "n < length xs \<Longrightarrow> take (Suc n) (xs[n := x]) = take n xs @ [x]"
  by (simp add: take_Suc_conv_app_nth)

lemma poll_enter_ok:
  assumes wf: "poll_wf pop" "nfds pop < event_count pop" and e: "poll_enter pop fd = (i, pop1)"
    and p: "pfd_fd p = fd" "pfd_events p = poll_mask x" "x \<noteq> (False, False)"
  shows "i < length (event_set pop1) \<and> pfd_fd (event_set pop1 ! i) = fd \<and>
    pfd_events (event_set pop1 ! i) = poll_mask (poll_watch pop fd) \<and>
    poll_wf (pop1\<lparr>event_set := (event_set pop1)[i := p]\<rparr>) \<and>
    poll_watch (pop1\<lparr>event_set := (event_set pop1)[i := p]\<rparr>) = (poll_watch pop)(fd := x)"
proof -
  have ok: "rows_ok (poll_idxplus1 pop) (rows pop)" and len: "length (event_set pop) = event_count pop" "length (rows pop) = nfds pop"
    using wf by (auto simp: poll_wf_def rows_def)
  show ?thesis
  proof (cases "poll_idxplus1 pop fd")
    case 0
    with e have e': "i = nfds pop" "pop1 = snd (poll_enter pop fd)" by (auto simp: poll_enter_def)
    show ?thesis using rows_append [OF ok 0 p] 0 len wf p e' 
      by (simp add: poll_enter_def poll_wf_def poll_watch_def rows_def take_Suc_update rows_watch_def poll_mask_def)
  next
    case (Suc j)
    note row = rows_ok_row [OF ok Suc]
    from Suc e have e': "i = j" "pop1 = pop" by (auto simp: poll_enter_def)
    have j: "j < nfds pop" "j < length (event_set pop)" using row(1) len wf(2) by auto
    show ?thesis using rows_update [OF ok Suc p] row j len wf
      by (simp add: e' poll_wf_def poll_watch_def rows_def take_update_swap)
  qed
qed

lemma rw_add_ne: "has events EV_READ \<or> has events EV_WRITE \<Longrightarrow> rw_add x events \<noteq> (False, False)"
  by (auto simp: rw_add_def)

lemma poll_add_ok:
  assumes wf: "poll_wf pop" and ev: "\<not> has events EV_SIGNAL"
  shows "\<exists>r pop'. poll_add ok pop fd old events = Done (r, pop') \<and> poll_wf pop' \<and> (r = 0 \<or> r = -1) \<and>
    poll_watch pop' = (if r = 0 then (poll_watch pop)(fd := rw_add (poll_watch pop fd) events) else poll_watch pop)"
proof (cases "has events EV_READ \<or> has events EV_WRITE")
  case False
  then have "rw_add x events = x" for x by (simp add: rw_add_def)
  with False ev wf show ?thesis by (simp add: poll_add_def)
next
  case rw: True
  show ?thesis
  proof (cases "poll_grow ok pop")
    case None
    with rw ev wf show ?thesis by (simp add: poll_add_def)
  next
    case (Some pop1)
    note g = poll_grow_ok [OF wf Some]
    obtain i pop2 where e: "poll_enter pop1 fd = (i, pop2)" by fastforce
    let ?p = "poll_set_events events (event_set pop2 ! i)"
    have w: "poll_watch pop1 = poll_watch pop" using g by (simp add: poll_watch_def)
    have row: "i < length (event_set pop2)" "pfd_fd (event_set pop2 ! i) = fd"
      "pfd_events (event_set pop2 ! i) = poll_mask (poll_watch pop fd)"
      using poll_enter_ok [OF g(1,5) e, of "\<lparr>pfd_fd = fd, pfd_events = poll_mask (True, True), pfd_revents = 0\<rparr>" "(True, True)"] w
      by auto
    have "poll_wf (pop2\<lparr>event_set := (event_set pop2)[i := ?p]\<rparr>) \<and>
        poll_watch (pop2\<lparr>event_set := (event_set pop2)[i := ?p]\<rparr>) = (poll_watch pop1)(fd := rw_add (poll_watch pop fd) events)"
      using poll_enter_ok [OF g(1,5) e, of ?p "rw_add (poll_watch pop fd) events"] row poll_set_mask [OF row(3)] rw_add_ne [OF rw]
      by simp
    then show ?thesis using rw ev Some e row(1) w by (simp add: poll_add_def)
  qed
qed

lemma poll_del_ok:
  assumes wf: "poll_wf pop" and ev: "\<not> has events EV_SIGNAL"
    and w: "has events EV_READ \<longrightarrow> fst (poll_watch pop fd)" "has events EV_WRITE \<longrightarrow> snd (poll_watch pop fd)"
  shows "\<exists>pop'. poll_del pop fd old events = Done (0, pop') \<and> poll_wf pop' \<and>
    poll_watch pop' = (poll_watch pop)(fd := rw_del (poll_watch pop fd) events)"
proof (cases "has events EV_READ \<or> has events EV_WRITE")
  case False
  then have "rw_del x events = x" for x by (simp add: rw_del_def)
  with False ev wf show ?thesis by (simp add: poll_del_def)
next
  case rw: True
  have ok: "rows_ok (poll_idxplus1 pop) (rows pop)" and len: "length (event_set pop) = event_count pop" "length (rows pop) = nfds pop"
    using wf by (auto simp: poll_wf_def rows_def)
  have "poll_watch pop fd \<noteq> (False, False)" using rw w by auto
  then have "poll_idxplus1 pop fd \<noteq> 0" by (auto simp: poll_watch_def rows_watch_def split: if_splits)
  then obtain i where i: "poll_idxplus1 pop fd = Suc i" by (meson not0_implies_Suc)
  note row = rows_ok_row [OF ok i]
  have lt: "i < nfds pop" "i < length (event_set pop)" "nfds pop \<le> length (event_set pop)" using row(1) len wf by (auto simp: poll_wf_def)
  have nth: "rows pop ! i = event_set pop ! i" using lt by (simp add: rows_def)
  let ?x = "rw_del (poll_watch pop fd) events" and ?p = "poll_clear_events events (event_set pop ! i)"
  have p: "pfd_fd ?p = fd" "pfd_events ?p = poll_mask ?x"
    using row nth poll_clear_mask [of "event_set pop ! i" "poll_watch pop fd"] by (auto simp: poll_watch_def)
  have upd: "take n ((event_set pop)[i := ?p]) = (take n (event_set pop))[i := ?p]" for n by (simp add: take_update_swap)
  show ?thesis
  proof (cases "?x = (False, False)")
    case False
    with rows_update [OF ok i p] p show ?thesis
      using rw ev i lt len wf by (auto simp: poll_del_def poll_wf_def poll_watch_def rows_def upd poll_mask_eq_0)
  next
    case True
    then have z: "pfd_events ?p = 0" using p by (simp add: poll_mask_eq_0)
    define n where "n = nfds pop - 1"
    have n: "length (rows pop) = Suc n" "nfds pop = Suc n" using lt len by (auto simp: n_def)
    show ?thesis
    proof (cases "i = n")
      case True
      have "take n ((event_set pop)[i := ?p]) = take i (rows pop)" using True n by (simp add: rows_def)
      with rows_remove_last [OF ok i] show ?thesis
        using rw ev i lt len wf n z True \<open>?x = (False, False)\<close>
        by (simp add: poll_del_def poll_remove_def poll_wf_def poll_watch_def rows_def)
    next
      case False
      let ?l = "rows pop ! n"
      have l: "?l = event_set pop ! n" using n by (simp add: rows_def)
      have "take n ((event_set pop)[i := ?p, i := ?l]) = take n ((rows pop)[i := ?l])"
        using n by (simp add: rows_def take_update_swap)
      with rows_remove_move [OF ok i n(1) False refl] show ?thesis
        using rw ev i lt len wf n z False l \<open>?x = (False, False)\<close>
        by (simp add: poll_del_def poll_remove_def poll_wf_def poll_watch_def rows_def Let_def)
    qed
  qed
qed

interpretation pl: rw_backend "poll_add ok" poll_del poll_wf poll_watch
  by unfold_locales ((rule poll_add_ok; assumption) | (rule poll_del_ok; assumption))+

section \<open>select\<close>

definition select_watch :: "selectop \<Rightarrow> int \<Rightarrow> rw" where
  "select_watch sop fd =
     (if 0 \<le> fd \<and> nat fd < 8 * event_fdsz sop then (event_readset_in sop ! nat fd, event_writeset_in sop ! nat fd)
      else (False, False))"

lemma select_watch_fds [simp]: "select_watch (s\<lparr>event_fds := n\<rparr>) = select_watch s" "select_watch (s\<lparr>resize_out_sets := v\<rparr>) = select_watch s"
  by (simp_all add: select_watch_def fun_eq_iff)

definition select_wf :: "selectop \<Rightarrow> bool" where
  "select_wf sop \<longleftrightarrow> 8 \<le> event_fdsz sop \<and> 8 * event_fdsz sop \<le> length (event_readset_in sop) \<and>
     8 * event_fdsz sop \<le> length (event_writeset_in sop) \<and> 0 \<le> event_fds sop \<and> nat (event_fds sop) < 8 * event_fdsz sop \<and>
     (\<forall>fd > event_fds sop. select_watch sop fd = (False, False))"

lemma set_sizes [simp]:
  "length (set_realloc s n) = 8 * n" "length (set_clear_from s n) = max (length s) (min (8 * n) (length s))"
  by (auto simp: set_realloc_def set_clear_from_def)

lemma set_resized:
  assumes "8 * m \<le> length s" "m \<le> n" "i < 8 * n"
  shows "set_clear_from (set_realloc s n) m ! i = (i < 8 * m \<and> s ! i)"
  using assms by (auto simp: set_realloc_def set_clear_from_def nth_append min_def)

lemma select_resize_ok:
  assumes wf: "select_wf sop" and n: "event_fdsz sop \<le> n" and r: "select_resize ok sop n = (r, sop')"
  shows "(r = 0 \<or> r = -1) \<and> select_wf sop' \<and> select_watch sop' = select_watch sop \<and> event_fds sop' = event_fds sop \<and>
    (r = 0 \<longrightarrow> event_fdsz sop' = n)"
proof -
  have len: "8 * event_fdsz sop \<le> length (event_readset_in sop)" "8 * event_fdsz sop \<le> length (event_writeset_in sop)"
    using wf by (simp_all add: select_wf_def)
  consider "\<not> fst ok" | "fst ok" "\<not> snd ok" | "fst ok" "snd ok" by blast
  then show ?thesis
  proof cases
    case 1
    then show ?thesis using wf r by (auto simp: select_resize_def)
  next
    case 2
    then have s': "r = -1" "sop' = sop\<lparr>event_readset_in := set_realloc (event_readset_in sop) n\<rparr>"
      using r by (auto simp: select_resize_def Let_def)
    have "set_realloc (event_readset_in sop) n ! i = event_readset_in sop ! i" if "i < 8 * event_fdsz sop" for i
      using that len n by (auto simp: set_realloc_def nth_append)
    then have w: "select_watch sop' = select_watch sop" by (auto simp: s' select_watch_def fun_eq_iff)
    then show ?thesis using wf n by (simp add: select_wf_def s'(1)) (simp add: s'(2))
  next
    case 3
    then have r0: "r = 0" and f: "event_fdsz sop' = n" "event_fds sop' = event_fds sop"
      "event_readset_in sop' = set_clear_from (set_realloc (event_readset_in sop) n) (event_fdsz sop)"
      "event_writeset_in sop' = set_clear_from (set_realloc (event_writeset_in sop) n) (event_fdsz sop)"
      using r by (auto simp: select_resize_def Let_def)
    have w: "select_watch sop' = select_watch sop"
      using set_resized [OF len(1) n] set_resized [OF len(2) n] n by (auto simp: select_watch_def f fun_eq_iff)
    then show ?thesis using wf n f r0 by (simp add: select_wf_def)
  qed
qed

lemma grow_fdsz_ok: "0 < a \<Longrightarrow> a \<le> grow_fdsz a need \<and> need \<le> grow_fdsz a need"
proof (induction a need rule: grow_fdsz.induct)
  case (1 a need)
  show ?case
  proof (cases "a < need")
    case True
    with 1 show ?thesis by (subst (1 2) grow_fdsz.simps) auto
  qed (use 1 in \<open>simp add: grow_fdsz.simps\<close>)
qed

lemma alloc_size_enough: "n \<le> 8 * SELECT_ALLOC_SIZE n"
  by (simp add: SELECT_ALLOC_SIZE_def DIV_ROUNDUP_def NFDBITS_def)

lemma select_change_ok:
  assumes wf: "select_wf sop" and fd: "0 \<le> fd" "fd \<le> event_fds sop"
  shows "\<exists>sop'. select_change v sop fd events = Done (0, sop') \<and> select_wf sop' \<and>
    select_watch sop' = (select_watch sop)(fd :=
      (if has events EV_READ then v else fst (select_watch sop fd), if has events EV_WRITE then v else snd (select_watch sop fd)))"
proof -
  have lt: "nat fd < 8 * event_fdsz sop" using wf fd by (auto simp: select_wf_def)
  let ?s = "sop\<lparr>event_readset_in := (if has events EV_READ then (event_readset_in sop)[nat fd := v] else event_readset_in sop),
    event_writeset_in := (if has events EV_WRITE then (event_writeset_in sop)[nat fd := v] else event_writeset_in sop)\<rparr>"
  have eq: "select_change v sop fd events = Done (0, ?s)"
    using wf fd lt by (auto simp: select_change_def FD_PUT_def select_wf_def)
  have w: "select_watch ?s = (select_watch sop)(fd :=
      (if has events EV_READ then v else fst (select_watch sop fd), if has events EV_WRITE then v else snd (select_watch sop fd)))"
  proof
    fix g
    show "select_watch ?s g = ((select_watch sop)(fd := (if has events EV_READ then v else fst (select_watch sop fd),
        if has events EV_WRITE then v else snd (select_watch sop fd)))) g"
      using wf fd lt by (cases "g = fd") (auto simp: select_watch_def select_wf_def nth_list_update nat_eq_iff2)
  qed
  have "select_wf ?s" using wf w fd unfolding select_wf_def w by auto
  with eq w show ?thesis by blast
qed

lemma select_add_ok:
  assumes wf: "select_wf sop" and ev: "0 \<le> fd" "\<not> has events EV_SIGNAL"
  shows "\<exists>r sop'. select_add ok sop fd old events = Done (r, sop') \<and> select_wf sop' \<and> (r = 0 \<or> r = -1) \<and>
    select_watch sop' = (if r = 0 then (select_watch sop)(fd := rw_add (select_watch sop fd) events) else select_watch sop)"
proof -
  have change: "\<exists>sop'. select_change True s fd events = Done (0, sop') \<and> select_wf sop' \<and>
      select_watch sop' = (select_watch s)(fd := rw_add (select_watch s fd) events)" if "select_wf s" "fd \<le> event_fds s" for s
    using select_change_ok [OF that(1) ev(1) that(2), of True events] by (auto simp: rw_add_def fun_eq_iff split: if_splits)
  show ?thesis
  proof (cases "event_fds sop < fd")
    case False
    with change [OF wf] ev show ?thesis by (auto simp: select_add_def)
  next
    case True
    let ?need = "SELECT_ALLOC_SIZE (nat fd + 1)"
    define n where "n = grow_fdsz (if event_fdsz sop < 8 then 8 else event_fdsz sop) ?need"
    have n: "event_fdsz sop \<le> n" "?need \<le> n"
      using grow_fdsz_ok [of "event_fdsz sop" ?need] wf by (auto simp: n_def select_wf_def)
    obtain r s1 where s1: "(if n \<noteq> event_fdsz sop then select_resize ok sop n else (0, sop)) = (r, s1)" by fastforce
    have s1': "(r = 0 \<or> r = -1) \<and> select_wf s1 \<and> select_watch s1 = select_watch sop \<and> event_fds s1 = event_fds sop \<and>
        (r = 0 \<longrightarrow> event_fdsz s1 = n)"
      using s1 select_resize_ok [OF wf n(1), of ok r s1] wf by (cases "n = event_fdsz sop") auto
    have add: "select_add ok sop fd old events = (if r \<noteq> 0 then Done (-1, s1) else select_change True (s1\<lparr>event_fds := fd\<rparr>) fd events)"
      unfolding select_add_def Let_def n_def [symmetric] s1 using True ev by simp
    show ?thesis
    proof (cases "r = 0")
      case False
      with add s1' show ?thesis by auto
    next
      case r: True
      let ?s = "s1\<lparr>event_fds := fd\<rparr>"
      have "nat fd < 8 * n" using alloc_size_enough [of "nat fd + 1"] n(2) by linarith
      moreover have "select_watch ?s = select_watch sop" using s1' by simp
      ultimately have "select_wf ?s" "select_watch ?s = select_watch sop" using s1' r wf ev True by (auto simp: select_wf_def)
      with change [of ?s] add r show ?thesis by auto
    qed
  qed
qed

lemma select_del_ok:
  assumes wf: "select_wf sop" and ev: "0 \<le> fd" "\<not> has events EV_SIGNAL"
    and w: "has events EV_READ \<longrightarrow> fst (select_watch sop fd)" "has events EV_WRITE \<longrightarrow> snd (select_watch sop fd)"
  shows "\<exists>sop'. select_del sop fd old events = Done (0, sop') \<and> select_wf sop' \<and>
    select_watch sop' = (select_watch sop)(fd := rw_del (select_watch sop fd) events)"
proof (cases "event_fds sop < fd")
  case True
  then have "select_watch sop fd = (False, False)" using wf by (simp add: select_wf_def)
  with w have "rw_del (select_watch sop fd) events = select_watch sop fd" by (simp add: rw_del_def)
  with True ev wf show ?thesis by (simp add: select_del_def)
next
  case False
  with select_change_ok [OF wf ev(1), of False events] ev show ?thesis
    by (auto simp: select_del_def rw_del_def fun_eq_iff)
qed

interpretation sel: rw_backend "select_add ok" select_del select_wf select_watch
  by unfold_locales ((rule select_add_ok; assumption) | (rule select_del_ok; assumption))+

section \<open>Both backends\<close>

interpretation plr: reliable_backend "poll_add (\<lambda>_. True)" poll_del poll_wf poll_watch
  by unfold_locales (auto simp: poll_add_def poll_grow_def Let_def split: if_splits prod.splits)

interpretation selr: reliable_backend "select_add (True, True)" select_del select_wf select_watch
  by unfold_locales
    (auto simp: select_add_def select_resize_def select_change_def Let_def split: if_splits)

lemma poll_init_ok: "poll_wf poll_init \<and> poll_watch poll_init = (\<lambda>_. (False, False))"
  by (auto simp: poll_wf_def poll_init_def rows_def rows_ok_def poll_watch_def rows_watch_def fun_eq_iff)

lemma select_init_ok: "select_init ok = Some sop \<Longrightarrow> select_wf sop \<and> select_watch sop = (\<lambda>_. (False, False))"
  by (cases ok) (auto simp: select_init_def select_resize_def Let_def SELECT_ALLOC_SIZE_def DIV_ROUNDUP_def NFDBITS_def
      select_wf_def select_watch_def set_realloc_def set_clear_from_def fun_eq_iff split: if_splits)

text \<open>The circular order visits every position once.\<close>

lemma map_mod_rotate: "map (\<lambda>j. (k + j) mod n) [0..<n] = rotate k [0..<n]"
  by (rule nth_equalityI) (auto simp: nth_rotate)

lemma mset_rotate: "mset (rotate k xs) = mset xs"
  unfolding rotate_drop_take mset_append
  by (metis add.commute append_take_drop_id mset_append)

lemma mset_circular: "mset (circular start n) = mset [0..<n]"
  unfolding circular_def map_mod_rotate by (rule mset_rotate)

lemma poll_what_0 [simp]: "poll_what_to_ev 0 = 0"
  by (simp add: poll_what_to_ev_def)

lemma mset_poll_activations:
  "mset (poll_activations entries start) =
     mset (filter (\<lambda>(fd, res). res \<noteq> 0) (map (\<lambda>(fd, what). (fd, poll_what_to_ev what)) entries))"
proof -
  let ?r = "\<lambda>i. (fst (entries ! i), poll_what_to_ev (snd (entries ! i)))" and ?P = "\<lambda>(fd, res). res \<noteq> (0 :: u16)"
  have f: "filter ?P (map ?r (filter (\<lambda>i. snd (entries ! i) \<noteq> 0) xs)) = filter ?P (map ?r xs)" for xs
    by (induction xs) auto
  have "mset (poll_activations entries start) = filter_mset ?P (image_mset ?r (mset (circular start (length entries))))"
    by (simp only: poll_activations_def Let_def f mset_filter mset_map)
  also have "\<dots> = mset (filter ?P (map ?r [0..<length entries]))" by (simp only: mset_circular mset_filter mset_map)
  also have "map ?r [0..<length entries] = map (\<lambda>(fd, what). (fd, poll_what_to_ev what)) (map (\<lambda>i. entries ! i) [0..<length entries])"
    by (simp add: case_prod_beta)
  finally show ?thesis by (simp only: map_nth)
qed

section \<open>Properties\<close>

text \<open>
  C25. The backends poll and select do the same: after any sequence of requests that add events and take
  away watched events, both have served all of them, and both watch exactly the events that were
  added and not taken away again, also when poll has moved entries of its array. Memory is available.
\<close>

theorem poll_select_watch_same:
  assumes "rw_run (\<lambda>_. (False, False)) (map (\<lambda>q. (q, 0)) qs) = Some wt" "select_init (True, True) = Some sop"
  shows "\<exists>pop' sop'. serve_all (poll_add (\<lambda>_. True)) poll_del qs poll_init = Done (map (\<lambda>q. (q, 0)) qs, pop') \<and>
    serve_all (select_add (True, True)) select_del qs sop = Done (map (\<lambda>q. (q, 0)) qs, sop') \<and>
    poll_watch pop' = wt \<and> select_watch sop' = wt"
  using plr.serve_all_reliable [of poll_init qs wt] selr.serve_all_reliable [of sop qs wt]
    poll_init_ok select_init_ok [OF assms(2)] assms(1) by auto

theorem poll_select_watch_same_witness:
  "\<exists>pop' sop' sop. select_init (True, True) = Some sop \<and>
    serve_all (poll_add (\<lambda>_. True)) poll_del [Add 3 EV_READ, Add 5 EV_WRITE, Del 3 EV_READ] poll_init =
      Done ([(Add 3 EV_READ, 0), (Add 5 EV_WRITE, 0), (Del 3 EV_READ, 0)], pop') \<and>
    poll_watch pop' 3 = (False, False) \<and> poll_watch pop' 5 = (False, True) \<and> select_watch sop' = poll_watch pop'"
proof -
  let ?qs = "[Add 3 EV_READ, Add 5 EV_WRITE, Del 3 EV_READ]"
  have sel: "\<exists>sop. select_init (True, True) = Some sop" by (simp add: select_init_def select_resize_def Let_def)
  then obtain sop where sop: "select_init (True, True) = Some sop" by blast
  have "rw_run (\<lambda>_. (False, False)) (map (\<lambda>q. (q, 0)) ?qs) = Some ((\<lambda>_. (False, False))(5 := (False, True)))"
    by (auto simp: rw_add_def rw_del_def fun_eq_iff)
  from poll_select_watch_same [OF this sop] sop show ?thesis by auto
qed

text \<open>
  A dispatch of the poll backend always returns, whatever the random seed, and reports every entry
  of the array for which the system call delivers events exactly once, as readable, writable or,
  after a hang-up or an error, as both; what is watched does not change.
\<close>

theorem poll_dispatch_reports:
  assumes "poll_wf pop" "int (nfds pop) \<le> EVUTIL_WEAKRAND_MAX" "length revents = nfds pop" "res = 0 \<longleftrightarrow> set revents \<subseteq> {0}"
    "poll (rows pop) (poll_timeout tv) = Ready res revents"
  shows "\<exists>acts seed' pop'. poll_dispatch poll seed pop tv = Some (0, acts, seed', pop') \<and>
    mset acts = mset (filter (\<lambda>(fd, ev). ev \<noteq> 0) (zip (map pfd_fd (rows pop)) (map poll_what_to_ev revents))) \<and>
    poll_wf pop' \<and> poll_watch pop' = poll_watch pop"
proof -
  let ?es = "zip (map pfd_fd (rows pop)) revents" and ?rep = "map2 (\<lambda>p r. p\<lparr>pfd_revents := r\<rparr>) (rows pop) revents"
  define pop1 where "pop1 = pop\<lparr>event_set := ?rep @ drop (nfds pop) (event_set pop)\<rparr>"
  have len: "length (rows pop) = nfds pop" "length (event_set pop) = event_count pop" "nfds pop \<le> event_count pop"
    using assms(1) by (auto simp: poll_wf_def rows_def)
  have rows1: "rows pop1 = ?rep" using len assms(3) by (simp add: pop1_def rows_def)
  have "rows_ok (poll_idxplus1 pop) ?rep \<and> rows_watch (poll_idxplus1 pop) ?rep = rows_watch (poll_idxplus1 pop) (rows pop)"
    by (rule rows_cong) (use assms(1,3) len in \<open>auto simp: poll_wf_def\<close>)
  then have keep: "poll_wf pop1" "poll_watch pop1 = poll_watch pop"
    using rows1 len assms(3) by (simp_all add: poll_wf_def poll_watch_def) (simp_all add: pop1_def)
  have acts: "mset (poll_activations ?es start) = mset (filter (\<lambda>(fd, ev). ev \<noteq> 0) (zip (map pfd_fd (rows pop)) (map poll_what_to_ev revents)))" for start
    unfolding mset_poll_activations by (simp add: zip_map2 case_prod_beta)
  show ?thesis
  proof (cases "res = 0 \<or> nfds pop = 0")
    case True
    then have "poll_dispatch poll seed pop tv = Some (0, [], seed, pop1)"
      using assms(5) by (simp add: poll_dispatch_def pop1_def rows_def Let_def)
    moreover have "\<forall>r \<in> set revents. r = 0" using True assms(3,4) by auto
    then have "filter (\<lambda>(fd, ev). ev \<noteq> 0) (zip (map pfd_fd (rows pop)) (map poll_what_to_ev revents)) = []"
      by (auto simp: filter_empty_conv zip_map2 dest!: set_zip_rightD)
    ultimately show ?thesis using keep by simp
  next
    case False
    with weakrand_range_ok [of "int (nfds pop)" seed] assms(2) obtain start seed1 where
      "evutil_weakrand_range seed (int (nfds pop)) = Some (start, seed1)" by auto
    with False have "poll_dispatch poll seed pop tv = Some (0, poll_activations ?es (nat start), seed1, pop1)"
      using assms(5) by (simp add: poll_dispatch_def pop1_def rows_def Let_def)
    then show ?thesis using keep acts by blast
  qed
qed

text \<open>An array with one entry that is watched for reading.\<close>

definition sample_pollop :: pollop where
  "sample_pollop = \<lparr>event_count = 2, nfds = 1, realloc_copy = False,
     event_set = [\<lparr>pfd_fd = 3, pfd_events = POLLIN, pfd_revents = 0\<rparr>, zero_pollfd], poll_idxplus1 = (\<lambda>_. 0)(3 := 1)\<rparr>"

lemma sample_pollop_wf: "poll_wf sample_pollop"
proof -
  have "row_ok \<lparr>pfd_fd = 3, pfd_events = POLLIN, pfd_revents = 0\<rparr>"
    unfolding row_ok_def by (intro exI [of _ "(True, False)"]) (simp add: poll_mask_def)
  then show ?thesis by (auto simp: poll_wf_def sample_pollop_def rows_def rows_ok_def)
qed

theorem poll_dispatch_reports_witness:
  "\<exists>acts seed' pop'. poll_dispatch (\<lambda>_ _. Ready 1 [POLLHUP]) 7 sample_pollop None = Some (0, acts, seed', pop') \<and>
    mset acts = {#(3, EV_READ OR EV_WRITE)#}"
proof -
  have ev: "poll_what_to_ev POLLHUP = EV_READ OR EV_WRITE" "POLLHUP \<noteq> 0" "(EV_READ OR EV_WRITE :: u16) \<noteq> 0"
    by (simp_all add: poll_what_to_ev_def POLLHUP_def POLLERR_def POLLNVAL_def POLLIN_def POLLOUT_def EV_READ_def EV_WRITE_def)
  from poll_dispatch_reports [OF sample_pollop_wf, of "[POLLHUP]" 1 "\<lambda>_ _. Ready 1 [POLLHUP]" None 7] ev
  show ?thesis by (simp add: EVUTIL_WEAKRAND_MAX_def) (auto simp: sample_pollop_def rows_def)
qed

end
