(* ===== verification/Evutil.thy ===== *)
theory Evutil
  imports Event_Prelude
begin

text \<open>
  Helpers of \<^verbatim>\<open>src/evutil.c\<close> and \<^verbatim>\<open>src/strlcpy.c\<close>: the tables that replace \<^verbatim>\<open>ctype.h\<close>, comparison of strings
  without regard to case, trimming, copying with a bound and the weak random numbers. A C string is
  the list of its characters without the final 0; reading at its end gives 0.
\<close>

type_synonym cstr = "u8 list"

definition cur :: "cstr \<Rightarrow> u8" where
  "cur s = (case s of [] \<Rightarrow> 0 | c # _ \<Rightarrow> c)"

lemma cur_simps [simp]: "cur [] = 0" "cur (c # s) = c"
  by (simp_all add: cur_def)

section \<open>Character tables\<close>

definition EVUTIL_ISALPHA_TABLE :: "u32 list" where
  "EVUTIL_ISALPHA_TABLE = [0, 0, 0x7fffffe, 0x7fffffe, 0, 0, 0, 0]"

definition EVUTIL_ISALNUM_TABLE :: "u32 list" where
  "EVUTIL_ISALNUM_TABLE = [0, 0x3ff0000, 0x7fffffe, 0x7fffffe, 0, 0, 0, 0]"

definition EVUTIL_ISSPACE_TABLE :: "u32 list" where
  "EVUTIL_ISSPACE_TABLE = [0x3e00, 0x1, 0, 0, 0, 0, 0, 0]"

definition EVUTIL_ISXDIGIT_TABLE :: "u32 list" where
  "EVUTIL_ISXDIGIT_TABLE = [0, 0x3ff0000, 0x7e, 0x7e, 0, 0, 0, 0]"

definition EVUTIL_ISDIGIT_TABLE :: "u32 list" where
  "EVUTIL_ISDIGIT_TABLE = [0, 0x3ff0000, 0, 0, 0, 0, 0, 0]"

definition EVUTIL_ISPRINT_TABLE :: "u32 list" where
  "EVUTIL_ISPRINT_TABLE = [0, 0xffffffff, 0xffffffff, 0x7fffffff, 0, 0, 0, 0x0]"

definition EVUTIL_ISUPPER_TABLE :: "u32 list" where
  "EVUTIL_ISUPPER_TABLE = [0, 0, 0x7fffffe, 0, 0, 0, 0, 0]"

definition EVUTIL_ISLOWER_TABLE :: "u32 list" where
  "EVUTIL_ISLOWER_TABLE = [0, 0, 0, 0x7fffffe, 0, 0, 0, 0]"

definition EVUTIL_TOUPPER_TABLE :: "u8 list" where
  "EVUTIL_TOUPPER_TABLE = [
    0, 1, 2, 3, 4, 5, 6, 7, 8, 9, 10, 11, 12, 13, 14, 15,
    16, 17, 18, 19, 20, 21, 22, 23, 24, 25, 26, 27, 28, 29, 30, 31,
    32, 33, 34, 35, 36, 37, 38, 39, 40, 41, 42, 43, 44, 45, 46, 47,
    48, 49, 50, 51, 52, 53, 54, 55, 56, 57, 58, 59, 60, 61, 62, 63,
    64, 65, 66, 67, 68, 69, 70, 71, 72, 73, 74, 75, 76, 77, 78, 79,
    80, 81, 82, 83, 84, 85, 86, 87, 88, 89, 90, 91, 92, 93, 94, 95,
    96, 65, 66, 67, 68, 69, 70, 71, 72, 73, 74, 75, 76, 77, 78, 79,
    80, 81, 82, 83, 84, 85, 86, 87, 88, 89, 90, 123, 124, 125, 126, 127,
    128, 129, 130, 131, 132, 133, 134, 135, 136, 137, 138, 139, 140, 141, 142, 143,
    144, 145, 146, 147, 148, 149, 150, 151, 152, 153, 154, 155, 156, 157, 158, 159,
    160, 161, 162, 163, 164, 165, 166, 167, 168, 169, 170, 171, 172, 173, 174, 175,
    176, 177, 178, 179, 180, 181, 182, 183, 184, 185, 186, 187, 188, 189, 190, 191,
    192, 193, 194, 195, 196, 197, 198, 199, 200, 201, 202, 203, 204, 205, 206, 207,
    208, 209, 210, 211, 212, 213, 214, 215, 216, 217, 218, 219, 220, 221, 222, 223,
    224, 225, 226, 227, 228, 229, 230, 231, 232, 233, 234, 235, 236, 237, 238, 239,
    240, 241, 242, 243, 244, 245, 246, 247, 248, 249, 250, 251, 252, 253, 254, 255]"

definition EVUTIL_TOLOWER_TABLE :: "u8 list" where
  "EVUTIL_TOLOWER_TABLE = [
    0, 1, 2, 3, 4, 5, 6, 7, 8, 9, 10, 11, 12, 13, 14, 15,
    16, 17, 18, 19, 20, 21, 22, 23, 24, 25, 26, 27, 28, 29, 30, 31,
    32, 33, 34, 35, 36, 37, 38, 39, 40, 41, 42, 43, 44, 45, 46, 47,
    48, 49, 50, 51, 52, 53, 54, 55, 56, 57, 58, 59, 60, 61, 62, 63,
    64, 97, 98, 99, 100, 101, 102, 103, 104, 105, 106, 107, 108, 109, 110, 111,
    112, 113, 114, 115, 116, 117, 118, 119, 120, 121, 122, 91, 92, 93, 94, 95,
    96, 97, 98, 99, 100, 101, 102, 103, 104, 105, 106, 107, 108, 109, 110, 111,
    112, 113, 114, 115, 116, 117, 118, 119, 120, 121, 122, 123, 124, 125, 126, 127,
    128, 129, 130, 131, 132, 133, 134, 135, 136, 137, 138, 139, 140, 141, 142, 143,
    144, 145, 146, 147, 148, 149, 150, 151, 152, 153, 154, 155, 156, 157, 158, 159,
    160, 161, 162, 163, 164, 165, 166, 167, 168, 169, 170, 171, 172, 173, 174, 175,
    176, 177, 178, 179, 180, 181, 182, 183, 184, 185, 186, 187, 188, 189, 190, 191,
    192, 193, 194, 195, 196, 197, 198, 199, 200, 201, 202, 203, 204, 205, 206, 207,
    208, 209, 210, 211, 212, 213, 214, 215, 216, 217, 218, 219, 220, 221, 222, 223,
    224, 225, 226, 227, 228, 229, 230, 231, 232, 233, 234, 235, 236, 237, 238, 239,
    240, 241, 242, 243, 244, 245, 246, 247, 248, 249, 250, 251, 252, 253, 254, 255]"

definition ctype_fn :: "u32 list \<Rightarrow> u8 \<Rightarrow> bool" where
  "ctype_fn table u \<longleftrightarrow> table ! unat (drop_bit 5 u AND 7) AND push_bit (unat (u AND 31)) 1 \<noteq> 0"

definition EVUTIL_ISALPHA :: "u8 \<Rightarrow> bool" where
  "EVUTIL_ISALPHA c = ctype_fn EVUTIL_ISALPHA_TABLE c"

definition EVUTIL_ISALNUM :: "u8 \<Rightarrow> bool" where
  "EVUTIL_ISALNUM c = ctype_fn EVUTIL_ISALNUM_TABLE c"

definition EVUTIL_ISSPACE :: "u8 \<Rightarrow> bool" where
  "EVUTIL_ISSPACE c = ctype_fn EVUTIL_ISSPACE_TABLE c"

definition EVUTIL_ISDIGIT :: "u8 \<Rightarrow> bool" where
  "EVUTIL_ISDIGIT c = ctype_fn EVUTIL_ISDIGIT_TABLE c"

definition EVUTIL_ISXDIGIT :: "u8 \<Rightarrow> bool" where
  "EVUTIL_ISXDIGIT c = ctype_fn EVUTIL_ISXDIGIT_TABLE c"

definition EVUTIL_ISPRINT :: "u8 \<Rightarrow> bool" where
  "EVUTIL_ISPRINT c = ctype_fn EVUTIL_ISPRINT_TABLE c"

definition EVUTIL_ISLOWER :: "u8 \<Rightarrow> bool" where
  "EVUTIL_ISLOWER c = ctype_fn EVUTIL_ISLOWER_TABLE c"

definition EVUTIL_ISUPPER :: "u8 \<Rightarrow> bool" where
  "EVUTIL_ISUPPER c = ctype_fn EVUTIL_ISUPPER_TABLE c"

definition EVUTIL_TOLOWER :: "u8 \<Rightarrow> u8" where
  "EVUTIL_TOLOWER c = EVUTIL_TOLOWER_TABLE ! unat c"

definition EVUTIL_TOUPPER :: "u8 \<Rightarrow> u8" where
  "EVUTIL_TOUPPER c = EVUTIL_TOUPPER_TABLE ! unat c"

text \<open>A property of all characters is a property of 256 values.\<close>

lemma all_chars: "(\<And>n. n \<in> set [0..<256] \<Longrightarrow> P (of_nat n :: u8)) \<Longrightarrow> P c"
proof -
  assume all: "\<And>n. n \<in> set [0..<256] \<Longrightarrow> P (of_nat n :: u8)"
  have "unat c < 2 ^ LENGTH(8)" by (rule unsigned_less)
  then have "unat c \<in> set [0..<256]" by simp
  from all [OF this] show "P c" by simp
qed

lemma list_all_chars: "list_all (\<lambda>n. P (of_nat n :: u8)) [0..<256] \<Longrightarrow> P c"
  by (rule all_chars) (auto simp: list_all_iff)

lemma unat_and_mask: "unat (x AND mask k) = unat x mod 2 ^ k" for x :: u8
  unfolding take_bit_eq_mask [symmetric] unsigned_take_bit_eq by (rule take_bit_eq_mod)

lemma unat_char_less: "unat (c :: u8) < 256"
  using unsigned_less [of c] by simp

lemma ctype_fn_bit: "ctype_fn table c \<longleftrightarrow> bit (table ! (unat c div 32)) (unat c mod 32)"
proof -
  have "drop_bit 5 c AND 7 = drop_bit 5 c AND mask 3" "c AND 31 = c AND mask 5" by (simp_all add: mask_numeral)
  moreover have "unat (drop_bit 5 c) = unat c div 32"
    unfolding unsigned_drop_bit_eq using unat_char_less [of c] by (simp add: drop_bit_eq_div take_bit_eq_mod)
  moreover have "unat c div 32 mod 8 = unat c div 32" using unat_char_less [of c] by (intro mod_less) simp
  ultimately have i: "unat (drop_bit 5 c AND 7) = unat c div 32" "unat (c AND 31) = unat c mod 32"
    by (simp_all only: unat_and_mask) simp_all
  have "bit (push_bit (unat c mod 32) (1 :: u32)) j \<longleftrightarrow> j = unat c mod 32" for j
    by (auto simp: bit_simps)
  from and_single_bit [OF this] show ?thesis unfolding ctype_fn_def i .
qed

text \<open>The words of the tables are runs of ones.\<close>

lemma bit_runs:
  "bit (0x3ff0000 :: int) k \<longleftrightarrow> 16 \<le> k \<and> k < 26" "bit (0x7fffffe :: int) k \<longleftrightarrow> 1 \<le> k \<and> k < 27"
  "bit (0x7e :: int) k \<longleftrightarrow> 1 \<le> k \<and> k < 7" "bit (0x3e00 :: int) k \<longleftrightarrow> 9 \<le> k \<and> k < 14"
proof -
  have run: "bit (push_bit i (mask n) :: int) k \<longleftrightarrow> i \<le> k \<and> k < i + n" for i n
    by (auto simp: bit_simps)
  show "bit (0x3ff0000 :: int) k \<longleftrightarrow> 16 \<le> k \<and> k < 26" using run [of 16 10] by (simp add: mask_numeral)
  show "bit (0x7fffffe :: int) k \<longleftrightarrow> 1 \<le> k \<and> k < 27" using run [of 1 26] by (simp add: mask_numeral)
  show "bit (0x7e :: int) k \<longleftrightarrow> 1 \<le> k \<and> k < 7" using run [of 1 6] by (simp add: mask_numeral)
  show "bit (0x3e00 :: int) k \<longleftrightarrow> 9 \<le> k \<and> k < 14" using run [of 9 5] by (simp add: mask_numeral)
qed

lemma char_block:
  obtains q r where "unat (c :: u8) = 32 * q + r" "unat c div 32 = q" "unat c mod 32 = r" "r < 32"
    "q = 0 \<or> q = 1 \<or> q = 2 \<or> q = 3 \<or> q = 4 \<or> q = 5 \<or> q = 6 \<or> q = 7"
proof -
  have "unat c div 32 < 8" using unat_char_less [of c] by simp
  then show thesis by (intro that [of "unat c div 32" "unat c mod 32"]) (simp_all, linarith)
qed

lemma EVUTIL_ISDIGIT_iff: "EVUTIL_ISDIGIT c \<longleftrightarrow> 48 \<le> c \<and> c \<le> 57"
  unfolding EVUTIL_ISDIGIT_def ctype_fn_bit EVUTIL_ISDIGIT_TABLE_def word_le_nat_alt
  by (rule char_block [of c], elim disjE) (simp_all add: bit_runs bit_1_iff, auto)

lemma EVUTIL_ISXDIGIT_iff: "EVUTIL_ISXDIGIT c \<longleftrightarrow> 48 \<le> c \<and> c \<le> 57 \<or> 65 \<le> c \<and> c \<le> 70 \<or> 97 \<le> c \<and> c \<le> 102"
  unfolding EVUTIL_ISXDIGIT_def ctype_fn_bit EVUTIL_ISXDIGIT_TABLE_def word_le_nat_alt
  by (rule char_block [of c], elim disjE) (simp_all add: bit_runs bit_1_iff, auto)

lemma EVUTIL_ISALPHA_iff: "EVUTIL_ISALPHA c \<longleftrightarrow> 65 \<le> c \<and> c \<le> 90 \<or> 97 \<le> c \<and> c \<le> 122"
  unfolding EVUTIL_ISALPHA_def ctype_fn_bit EVUTIL_ISALPHA_TABLE_def word_le_nat_alt
  by (rule char_block [of c], elim disjE) (simp_all add: bit_runs bit_1_iff, auto)

lemma EVUTIL_ISALNUM_iff: "EVUTIL_ISALNUM c \<longleftrightarrow> 48 \<le> c \<and> c \<le> 57 \<or> 65 \<le> c \<and> c \<le> 90 \<or> 97 \<le> c \<and> c \<le> 122"
  unfolding EVUTIL_ISALNUM_def ctype_fn_bit EVUTIL_ISALNUM_TABLE_def word_le_nat_alt
  by (rule char_block [of c], elim disjE) (simp_all add: bit_runs bit_1_iff, auto)

lemma EVUTIL_ISSPACE_iff: "EVUTIL_ISSPACE c \<longleftrightarrow> 9 \<le> c \<and> c \<le> 13 \<or> c = 32"
  unfolding EVUTIL_ISSPACE_def ctype_fn_bit EVUTIL_ISSPACE_TABLE_def word_le_nat_alt word_unat_eq_iff
  by (rule char_block [of c], elim disjE) (simp_all add: bit_runs bit_1_iff, auto)

lemma EVUTIL_TOLOWER_eq: "EVUTIL_TOLOWER c = (if 65 \<le> c \<and> c \<le> 90 then c + 32 else c)"
  by (rule list_all_chars) code_simp

lemma EVUTIL_TOUPPER_eq: "EVUTIL_TOUPPER c = (if 97 \<le> c \<and> c \<le> 122 then c - 32 else c)"
  by (rule list_all_chars) code_simp

section \<open>Strings\<close>

lemma tolower_0 [simp]: "EVUTIL_TOLOWER 0 = 0"
  by (simp add: EVUTIL_TOLOWER_eq)

lemma tolower_eq_0 [simp]: "EVUTIL_TOLOWER c = 0 \<longleftrightarrow> c = 0"
  by (rule list_all_chars [of _ c]) (simp add: EVUTIL_TOLOWER_eq, code_simp)

text \<open>Characters are compared as \<^verbatim>\<open>char\<close>, which is signed on the target.\<close>

function evutil_ascii_strcasecmp :: "cstr \<Rightarrow> cstr \<Rightarrow> int" where
  "evutil_ascii_strcasecmp s1 s2 =
     (let c1 = EVUTIL_TOLOWER (cur s1); c2 = EVUTIL_TOLOWER (cur s2)
      in if sint c1 < sint c2 then -1
         else if sint c1 > sint c2 then 1
         else if c1 = 0 then 0
         else evutil_ascii_strcasecmp (tl s1) (tl s2))"
  by pat_completeness auto
termination
proof (relation "measure (\<lambda>(s1, s2). length s1)", simp)
  fix s1 s2 and c1 c2 :: u8
  assume "c1 = EVUTIL_TOLOWER (cur s1)" "c1 \<noteq> 0"
  then show "((tl s1, tl s2), s1, s2) \<in> measure (\<lambda>(s1, s2). length s1)" by (cases s1) auto
qed

declare evutil_ascii_strcasecmp.simps [simp del]

primrec evutil_ascii_strncasecmp :: "nat \<Rightarrow> cstr \<Rightarrow> cstr \<Rightarrow> int" where
  "evutil_ascii_strncasecmp 0 s1 s2 = 0"
| "evutil_ascii_strncasecmp (Suc n) s1 s2 =
     (let c1 = EVUTIL_TOLOWER (cur s1); c2 = EVUTIL_TOLOWER (cur s2)
      in if sint c1 < sint c2 then -1
         else if sint c1 > sint c2 then 1
         else if c1 = 0 then 0
         else evutil_ascii_strncasecmp n (tl s1) (tl s2))"

text \<open>Two strings compare equal when they are equal up to the case of letters.\<close>

lemma sint_eq: "\<not> sint a < sint b \<Longrightarrow> \<not> sint b < sint a \<Longrightarrow> a = b" for a b :: u8
  by (metis linorder_less_linear signed_word_eqI)

lemma sint_tolower_eq_0 [simp]: "sint (EVUTIL_TOLOWER a) = 0 \<longleftrightarrow> a = 0"
  by (metis signed_word_eqI sint_0 tolower_eq_0)

lemma strcasecmp_eq_0:
  "0 \<notin> set s1 \<Longrightarrow> 0 \<notin> set s2 \<Longrightarrow>
     evutil_ascii_strcasecmp s1 s2 = 0 \<longleftrightarrow> map EVUTIL_TOLOWER s1 = map EVUTIL_TOLOWER s2"
proof (induction s1 arbitrary: s2)
  case Nil
  then show ?case
    by (cases s2) (auto simp: evutil_ascii_strcasecmp.simps [of "[]"] Let_def dest: sint_eq [of _ 0])
next
  case (Cons c s)
  then show ?case
    by (cases s2) (auto simp: evutil_ascii_strcasecmp.simps [of "c # s"] Let_def dest: sint_eq)
qed

definition lws :: "u8 \<Rightarrow> bool" where
  "lws c \<longleftrightarrow> c = 32 \<or> c = 9"

fun rtrim_loop :: "cstr \<Rightarrow> nat \<Rightarrow> cstr" where
  "rtrim_loop str 0 = (if lws (str ! 0) then [] else take 1 str)"
| "rtrim_loop str (Suc k) = (if lws (str ! Suc k) then rtrim_loop str k else take (Suc (Suc k)) str)"

definition evutil_rtrim_lws :: "cstr \<Rightarrow> cstr" where
  "evutil_rtrim_lws str = (if str = [] then [] else rtrim_loop str (length str - 1))"

lemma rtrim_loop_take: "k < length str \<Longrightarrow> rtrim_loop str k = rev (dropWhile lws (rev (take (Suc k) str)))"
  by (induction k) (auto simp: take_Suc_conv_app_nth)

lemma rtrim_spec: "evutil_rtrim_lws str = rev (dropWhile lws (rev str))"
  by (simp add: evutil_rtrim_lws_def rtrim_loop_take)

definition evutil_hex_char_to_int :: "u8 \<Rightarrow> int" where
  "evutil_hex_char_to_int c =
     (if c = 48 then 0 else if c = 49 then 1 else if c = 50 then 2 else if c = 51 then 3 else if c = 52 then 4
      else if c = 53 then 5 else if c = 54 then 6 else if c = 55 then 7 else if c = 56 then 8 else if c = 57 then 9
      else if c = 65 \<or> c = 97 then 10 else if c = 66 \<or> c = 98 then 11 else if c = 67 \<or> c = 99 then 12
      else if c = 68 \<or> c = 100 then 13 else if c = 69 \<or> c = 101 then 14 else if c = 70 \<or> c = 102 then 15 else -1)"

text \<open>
  \<^verbatim>\<open>event_strlcpy_\<close>: the bytes written to the destination, what is left of the source and of the count.
  The destination has at least \<open>siz\<close> bytes.
\<close>

fun strlcpy_loop :: "nat \<Rightarrow> cstr \<Rightarrow> u8 list \<times> cstr option \<times> nat" where
  "strlcpy_loop 0 s = ([], Some s, 0)"
| "strlcpy_loop (Suc n) s =
     (case s of
        [] \<Rightarrow> ([0], None, Suc n)
      | c # s' \<Rightarrow> (let (w, r, m) = strlcpy_loop n s' in (c # w, r, m)))"

definition event_strlcpy :: "u8 list \<Rightarrow> cstr \<Rightarrow> nat \<Rightarrow> nat \<times> u8 list" where
  "event_strlcpy dst src siz =
     (let (w, r, n) = strlcpy_loop (siz - 1) src;
          w' = (if n = 0 \<and> siz \<noteq> 0 then w @ [0] else w)
      in (case r of None \<Rightarrow> length w - 1 | Some s \<Rightarrow> length w + length s, w' @ drop (length w') dst))"

text \<open>
  It returns the length of the source, and the destination holds the longest first part of it that
  fits, always followed by 0 unless there is no room at all.
\<close>

lemma strlcpy_loop_eq:
  "strlcpy_loop n s =
     (if length s < n then (s @ [0], None, n - length s) else (take n s, Some (drop n s), 0))"
  by (induction n s rule: strlcpy_loop.induct) (auto split: list.splits)

lemma strlcpy_spec:
  "event_strlcpy dst src siz =
     (length src, if siz = 0 then dst else take (siz - 1) src @ 0 # drop (min (length src) (siz - 1) + 1) dst)"
  by (cases siz) (auto simp: event_strlcpy_def strlcpy_loop_eq)

end
