(* ===== verification/Inet.thy ===== *)
theory Inet
  imports Evutil "HOL-Library.Monad_Syntax"
begin

text \<open>
  Internet addresses as text, \<^verbatim>\<open>evutil_inet_ntop\<close>, \<^verbatim>\<open>evutil_inet_pton\<close> and \<^verbatim>\<open>evutil_parse_sockaddr_port\<close> of
  \<^verbatim>\<open>src/evutil.c\<close>. An IPv4 address is the number \<^verbatim>\<open>ntohl(s_addr)\<close>, an IPv6 address the list of its eight
  16-bit words, which the code keeps as pairs of bytes. The conversions of \<^verbatim>\<open>printf\<close>, \<^verbatim>\<open>sscanf\<close> and
  \<^verbatim>\<open>strtol\<close> are those of the C library on a 64-bit target.
\<close>

section \<open>Numbers as text\<close>

definition digit_char :: "nat \<Rightarrow> u8" where
  "digit_char d = (if d < 10 then of_nat (48 + d) else of_nat (87 + d))"

fun digits :: "nat \<Rightarrow> nat \<Rightarrow> cstr" where
  "digits base n = (if base < 2 \<or> n < base then [digit_char n] else digits base (n div base) @ [digit_char (n mod base)])"

declare digits.simps [simp del]

abbreviation fmt_d :: "nat \<Rightarrow> cstr" where "fmt_d \<equiv> digits 10"
abbreviation fmt_x :: "nat \<Rightarrow> cstr" where "fmt_x \<equiv> digits 16"

definition char_val :: "u8 \<Rightarrow> nat" where
  "char_val c = (if c \<le> 57 then unat c - 48 else if c \<le> 70 then unat c - 55 else unat c - 87)"

definition num_val :: "nat \<Rightarrow> cstr \<Rightarrow> nat" where
  "num_val base s = foldl (\<lambda>n c. n * base + char_val c) 0 s"

text \<open>\<^verbatim>\<open>%u\<close> of \<^verbatim>\<open>sscanf\<close>: blanks, a sign, digits; the value is the one of \<^verbatim>\<open>strtoul\<close>, stored in 32 bits.\<close>

definition scan_u :: "cstr \<Rightarrow> (nat \<times> cstr) option" where
  "scan_u s =
     (let s1 = dropWhile EVUTIL_ISSPACE s;
          neg = (cur s1 = 45);
          s2 = (if cur s1 = 43 \<or> cur s1 = 45 then tl s1 else s1);
          ds = takeWhile EVUTIL_ISDIGIT s2;
          v = num_val 10 ds;
          v64 = (if v > 18446744073709551615 then 18446744073709551615 else if neg then (2 ^ 64 - v) mod 2 ^ 64 else v)
      in if ds = [] then None else Some (v64 mod 2 ^ 32, dropWhile EVUTIL_ISDIGIT s2))"

definition expect :: "u8 \<Rightarrow> cstr \<Rightarrow> cstr option" where
  "expect c s = (case s of x # s' \<Rightarrow> if x = c then Some s' else None | [] \<Rightarrow> None)"

text \<open>The conversion of exactly four numbers by \<^verbatim>\<open>"%u.%u.%u.%u%c"\<close>: nothing may follow the last one.\<close>

definition scan_quad :: "cstr \<Rightarrow> (nat \<times> nat \<times> nat \<times> nat) option" where
  "scan_quad s = do {
     (a, s) \<leftarrow> scan_u s; s \<leftarrow> expect 46 s;
     (b, s) \<leftarrow> scan_u s; s \<leftarrow> expect 46 s;
     (c, s) \<leftarrow> scan_u s; s \<leftarrow> expect 46 s;
     (d, s) \<leftarrow> scan_u s;
     if s = [] then Some (a, b, c, d) else None }"

text \<open>
  \<^verbatim>\<open>strtol(s, &next, 16)\<close> at a hexadecimal digit: a prefix \<^verbatim>\<open>0x\<close> is skipped. The result is the number and
  how many characters were read.
\<close>

definition strtol16 :: "cstr \<Rightarrow> nat \<times> nat" where
  "strtol16 s =
     (let skip = (case s of
                    a # b # c # _ \<Rightarrow> if a = 48 \<and> (b = 120 \<or> b = 88) \<and> EVUTIL_ISXDIGIT c then 2 else 0
                  | _ \<Rightarrow> 0);
          ds = takeWhile EVUTIL_ISXDIGIT (drop skip s)
      in (num_val 16 ds, skip + length ds))"

section \<open>IPv4\<close>

definition quad_text :: "nat \<Rightarrow> nat \<Rightarrow> nat \<Rightarrow> nat \<Rightarrow> cstr" where
  "quad_text a b c d = fmt_d a @ [46] @ fmt_d b @ [46] @ fmt_d c @ [46] @ fmt_d d"

definition evutil_inet_ntop4 :: "u32 \<Rightarrow> nat \<Rightarrow> cstr option" where
  "evutil_inet_ntop4 a len =
     (let byte = (\<lambda>k. unat (drop_bit k a AND 0xff));
          s = quad_text (byte 24) (byte 16) (byte 8) (byte 0)
      in if length s \<ge> len then None else Some s)"

definition evutil_inet_pton4 :: "cstr \<Rightarrow> u32 option" where
  "evutil_inet_pton4 src =
     (case scan_quad src of
        None \<Rightarrow> None
      | Some (a, b, c, d) \<Rightarrow>
          if a > 255 \<or> b > 255 \<or> c > 255 \<or> d > 255 then None
          else Some (push_bit 24 (of_nat a) OR push_bit 16 (of_nat b) OR push_bit 8 (of_nat c) OR of_nat d))"

section \<open>IPv6\<close>

definition in6_words :: "u8 list \<Rightarrow> u16 list" where
  "in6_words bs = map (\<lambda>i. push_bit 8 (ucast (bs ! (2 * i))) + ucast (bs ! (2 * i + 1))) [0..<8]"

definition words_in6 :: "u16 list \<Rightarrow> u8 list" where
  "words_in6 ws = concat (map (\<lambda>w. [ucast (drop_bit 8 w), ucast (w AND 0xff)]) ws)"

text \<open>The longest run of zero words, the first one of them, from the word with index \<open>i\<close> on.\<close>

function gap_scan :: "u16 list \<Rightarrow> nat \<Rightarrow> int \<times> nat \<Rightarrow> int \<times> nat" where
  "gap_scan [] i best = best"
| "gap_scan (w # ws) i best =
     (if w \<noteq> 0 then gap_scan ws (i + 1) best
      else
        (let n = length (takeWhile (\<lambda>x. x = 0) (w # ws))
         in gap_scan (drop n (w # ws)) (i + n) (if n > snd best then (int i, n) else best)))"
  by pat_completeness auto
termination
  by (relation "measure (\<lambda>(ws, i, best). length ws)") auto

definition longest_gap :: "u16 list \<Rightarrow> int" where
  "longest_gap ws = (let (pos, n) = gap_scan ws 0 (-1, 0) in if n \<le> 1 then -1 else pos)"

function print6 :: "int \<Rightarrow> nat \<Rightarrow> u16 list \<Rightarrow> cstr" where
  "print6 gap i [] = []"
| "print6 gap i (w # ws) =
     (if w = 0 \<and> gap = int i
      then (let n = length (takeWhile (\<lambda>x. x = 0) (w # ws))
            in (if i = 0 then [58, 58] else [58]) @ print6 gap (i + n) (drop n (w # ws)))
      else fmt_x (unat w) @ (if i \<noteq> 7 then [58] else []) @ print6 gap (i + 1) ws)"
  by pat_completeness auto
termination
  by (relation "measure (\<lambda>(gap, i, ws). length ws)") auto

definition word_bytes :: "u16 \<Rightarrow> nat \<times> nat" where
  "word_bytes w = (unat (drop_bit 8 w), unat (w AND 0xff))"

definition ntop6_text :: "u16 list \<Rightarrow> cstr" where
  "ntop6_text ws =
     (let quad = (let (a, b) = word_bytes (ws ! 6); (c, d) = word_bytes (ws ! 7) in quad_text a b c d)
      in if list_all (\<lambda>w. w = 0) (take 5 ws) \<and> (ws ! 5 = 0 \<and> ws ! 6 \<noteq> 0 \<and> ws ! 7 \<noteq> 0 \<or> ws ! 5 = 0xffff)
         then (if ws ! 5 = 0 then [58, 58] @ quad else [58, 58] @ fmt_x (unat (ws ! 5)) @ [58] @ quad)
         else print6 (longest_gap ws) 0 ws)"

text \<open>The text is copied with \<^verbatim>\<open>strlcpy\<close>, after a test that lets a text of \<open>len\<close> characters pass.\<close>

definition evutil_inet_ntop6 :: "u16 list \<Rightarrow> nat \<Rightarrow> cstr option" where
  "evutil_inet_ntop6 ws len =
     (let buf = ntop6_text ws in if length buf > len then None else Some (take (len - 1) buf))"

text \<open>
  The loop of \<^verbatim>\<open>evutil_inet_pton\<close> over the words. \<open>n\<close> is \<^verbatim>\<open>eow - src\<close>, which may become -1; the words so far
  and the position of the gap are passed along.
\<close>

function pton6_loop :: "cstr \<Rightarrow> int \<Rightarrow> u16 list \<Rightarrow> int \<Rightarrow> (u16 list \<times> int) option" where
  "pton6_loop src n ws gap =
     (if n \<le> 0 then Some (ws, gap)
      else if length ws > 7 then None
      else if EVUTIL_ISXDIGIT (cur src) then
        (let (r, k) = strtol16 src; src1 = drop k src
         in if k > 4 \<or> k = 0 \<or> r > 65536 then None
            else if cur src1 \<noteq> 58 \<and> int k \<noteq> n then None
            else pton6_loop (drop 1 src1) (n - int k - 1) (ws @ [of_nat r]) gap)
      else if cur src = 58 \<and> ws \<noteq> [] \<and> gap = -1 then pton6_loop (drop 1 src) (n - 1) ws (int (length ws))
      else if cur src = 58 \<and> ws = [] \<and> cur (drop 1 src) = 58 \<and> gap = -1 then pton6_loop (drop 2 src) (n - 2) ws 0
      else None)"
  by pat_completeness auto
termination
  by (relation "measure (\<lambda>(src, n, ws, gap). nat n)") auto

declare pton6_loop.simps [simp del]

definition pton6_finish :: "u16 list \<Rightarrow> int \<Rightarrow> u16 list \<Rightarrow> u16 list option" where
  "pton6_finish ws gap dot =
     (let setWords = length ws + length dot
      in if setWords > 8 \<or> setWords = 8 \<and> gap \<noteq> -1 \<or> setWords < 8 \<and> gap = -1 then None
         else if gap \<ge> 0 then Some (take (nat gap) ws @ replicate (8 - setWords) 0 @ drop (nat gap) ws @ dot)
         else Some (ws @ dot))"

text \<open>Where the dotted part begins: at the digits in front of the first dot.\<close>

definition dot_split :: "cstr \<Rightarrow> nat" where
  "dot_split src =
     (let dot = length (takeWhile (\<lambda>c. c \<noteq> 46) src)
      in dot - length (takeWhile EVUTIL_ISDIGIT (rev (take dot src))))"

definition evutil_inet_pton6 :: "cstr \<Rightarrow> u16 list option" where
  "evutil_inet_pton6 src =
     (if cur src = 46 then None
      else if 46 \<notin> set src then do { (ws, gap) \<leftarrow> pton6_loop src (int (length src)) [] (-1); pton6_finish ws gap [] }
      else
        (let eow = dot_split src
         in do {
           (a, b, c, d) \<leftarrow> scan_quad (drop eow src);
           if a > 255 \<or> b > 255 \<or> c > 255 \<or> d > 255 then None
           else do {
             (ws, gap) \<leftarrow> pton6_loop src (int eow) [] (-1);
             pton6_finish ws gap [of_nat (a * 256 + b), of_nat (c * 256 + d)] } }))"

section \<open>Socket addresses\<close>

text \<open>The families that the code knows; the sizes are those of the C structures.\<close>

datatype sockaddr = Sin u32 nat | Sin6 "u16 list" nat

definition atoi :: "cstr \<Rightarrow> int" where
  "atoi s =
     (let s1 = dropWhile EVUTIL_ISSPACE s;
          s2 = (if cur s1 = 43 \<or> cur s1 = 45 then tl s1 else s1);
          v = int (num_val 10 (takeWhile EVUTIL_ISDIGIT s2))
      in c_int (if cur s1 = 45 then max (- (2 ^ 63)) (- v) else min (2 ^ 63 - 1) v))"

text \<open>The part before and the part after the first character \<open>c\<close>.\<close>

definition split_at :: "u8 \<Rightarrow> cstr \<Rightarrow> (cstr \<times> cstr) option" where
  "split_at c s = (if c \<in> set s then Some (takeWhile (\<lambda>x. x \<noteq> c) s, tl (dropWhile (\<lambda>x. x \<noteq> c) s)) else None)"

definition sockaddr_parts :: "cstr \<Rightarrow> (bool \<times> cstr \<times> cstr option) option" where
  "sockaddr_parts s =
     (if cur s = 91 then
        (case split_at 93 s of
           None \<Rightarrow> None
         | Some (a, r) \<Rightarrow>
             if length (tl a) > 127 then None else Some (True, tl a, if cur r = 58 then Some (tl r) else None))
      else
        (case split_at 58 s of
           Some (a, r) \<Rightarrow>
             if 58 \<in> set r then Some (True, s, None)
             else if length a > 127 then None
             else Some (False, a, Some r)
         | None \<Rightarrow> Some (False, s, None)))"

definition evutil_parse_sockaddr_port :: "cstr \<Rightarrow> nat \<Rightarrow> (sockaddr \<times> nat) option" where
  "evutil_parse_sockaddr_port s outlen = do {
     (is_ipv6, addr_part, port_part) \<leftarrow> sockaddr_parts s;
     port \<leftarrow> (case port_part of
                None \<Rightarrow> Some 0
              | Some p \<Rightarrow> if atoi p \<le> 0 \<or> atoi p > 65535 then None else Some (nat (atoi p)));
     if is_ipv6 then do {
       ws \<leftarrow> evutil_inet_pton6 addr_part;
       if 28 > outlen then None else Some (Sin6 ws port, 28) }
     else do {
       a \<leftarrow> evutil_inet_pton4 addr_part;
       if 16 > outlen then None else Some (Sin a port, 16) } }"

text \<open>\<^verbatim>\<open>evutil_snprintf\<close> cuts the text when it does not fit.\<close>

definition socktype_text :: "nat \<Rightarrow> cstr" where
  "socktype_text family = map of_char ''<addr with socktype '' @ fmt_d family @ [62]"

definition evutil_format_sockaddr_port :: "sockaddr \<Rightarrow> nat \<Rightarrow> cstr" where
  "evutil_format_sockaddr_port sa outlen =
     take (outlen - 1)
       (case sa of
          Sin a port \<Rightarrow> (case evutil_inet_ntop4 a 128 of Some b \<Rightarrow> b @ [58] @ fmt_d port | None \<Rightarrow> socktype_text 2)
        | Sin6 ws port \<Rightarrow> (case evutil_inet_ntop6 ws 128 of Some b \<Rightarrow> [91] @ b @ [93, 58] @ fmt_d port | None \<Rightarrow> socktype_text 10))"

definition evutil_sockaddr_is_loopback :: "sockaddr \<Rightarrow> bool" where
  "evutil_sockaddr_is_loopback sa \<longleftrightarrow>
     (case sa of
        Sin a port \<Rightarrow> a AND 0xff000000 = 0x7f000000
      | Sin6 ws port \<Rightarrow> words_in6 ws = replicate 15 0 @ [1])"

section \<open>Printing and reading numbers\<close>

lemma unat_digit_char: "d < 16 \<Longrightarrow> unat (digit_char d) = (if d < 10 then 48 + d else 87 + d)"
proof -
  have "unat (of_nat n :: u8) = n" if "n < 256" for n using that by (simp add: unat_of_nat take_bit_eq_mod)
  from this [of "48 + d"] this [of "87 + d"] show "d < 16 \<Longrightarrow> unat (digit_char d) = (if d < 10 then 48 + d else 87 + d)"
    by (simp add: digit_char_def del: of_nat_add)
qed

lemma digit_char_class:
  "d < 16 \<Longrightarrow> EVUTIL_ISXDIGIT (digit_char d)" "d < 16 \<Longrightarrow> EVUTIL_ISDIGIT (digit_char d) \<longleftrightarrow> d < 10"
  "d < 16 \<Longrightarrow> char_val (digit_char d) = d"
  by (auto simp: EVUTIL_ISXDIGIT_iff EVUTIL_ISDIGIT_iff char_val_def word_le_nat_alt unat_digit_char)

lemma set_digits: "2 \<le> base \<Longrightarrow> set (digits base n) \<subseteq> digit_char ` {..<base}"
proof (induction base n rule: digits.induct)
  case (1 base n)
  then show ?case by (subst digits.simps) auto
qed

lemma digits_not_Nil [simp]: "digits base n \<noteq> []"
  by (subst digits.simps) simp

lemma num_val_append: "num_val base (s @ t) = foldl (\<lambda>n c. n * base + char_val c) (num_val base s) t"
  by (simp add: num_val_def)

lemma num_val_digits: "2 \<le> base \<Longrightarrow> base \<le> 16 \<Longrightarrow> num_val base (digits base n) = n"
proof (induction base n rule: digits.induct)
  case (1 base n)
  show ?case
  proof (cases "n < base")
    case True
    then show ?thesis using 1(3) by (subst digits.simps) (simp add: num_val_def digit_char_class)
  next
    case False
    then have "num_val base (digits base (n div base)) = n div base" using 1 by simp
    then show ?thesis using False 1(2,3)
      by (subst digits.simps) (simp add: num_val_append digit_char_class(3) less_le_trans [OF mod_less_divisor])
  qed
qed

lemma length_digits: "2 \<le> base \<Longrightarrow> n < base ^ k \<Longrightarrow> 0 < k \<Longrightarrow> length (digits base n) \<le> k"
proof (induction base n arbitrary: k rule: digits.induct)
  case (1 base n)
  show ?case
  proof (cases "n < base")
    case False
    then have "1 < k" using 1(3,4) by (metis less_one linorder_neqE_nat not_gr_zero power_one_right)
    then obtain j where j: "k = Suc j" "0 < j" by (metis less_imp_Suc_add less_numeral_extra(1) One_nat_def less_trans plus_1_eq_Suc add.commute gr0I not_less_iff_gr_or_eq Suc_lessE)
    have "n div base < base ^ j" using 1(2,3) j by (simp add: less_mult_imp_div_less mult.commute)
    then have "length (digits base (n div base)) \<le> j" using 1 False j(2) by simp
    then show ?thesis using False 1(2) j by (subst digits.simps) simp
  qed (use 1 in \<open>subst digits.simps, simp\<close>)
qed

lemma fmt_d_digits: "list_all EVUTIL_ISDIGIT (fmt_d n)"
  using set_digits [of 10 n] by (auto simp: list_all_iff digit_char_class)

lemma fmt_x_digits: "list_all EVUTIL_ISXDIGIT (fmt_x n)"
  using set_digits [of 16 n] by (auto simp: list_all_iff digit_char_class)

lemma takeWhile_digits:
  assumes "list_all P s" "t = [] \<or> \<not> P (hd t)"
  shows "takeWhile P (s @ t) = s" "dropWhile P (s @ t) = t"
proof -
  have "takeWhile P t = []" "dropWhile P t = t" using assms(2) by (cases t; auto)+
  then show "takeWhile P (s @ t) = s" "dropWhile P (s @ t) = t"
    using assms(1) by (auto simp: list_all_iff takeWhile_append2 dropWhile_append2)
qed

lemma digit_not_space: "EVUTIL_ISDIGIT c \<Longrightarrow> \<not> EVUTIL_ISSPACE c \<and> c \<noteq> 43 \<and> c \<noteq> 45 \<and> c \<noteq> 46"
  by (auto simp: EVUTIL_ISDIGIT_iff EVUTIL_ISSPACE_iff word_le_nat_alt)

lemma scan_u_digits:
  assumes "n < 2 ^ 32" "t = [] \<or> \<not> EVUTIL_ISDIGIT (hd t)"
  shows "scan_u (fmt_d n @ t) = Some (n, t)"
proof -
  obtain c s where cs: "fmt_d n = c # s" by (cases "fmt_d n") auto
  have "EVUTIL_ISDIGIT c" using fmt_d_digits [of n] cs by simp
  then have "dropWhile EVUTIL_ISSPACE (fmt_d n @ t) = fmt_d n @ t" "cur (fmt_d n @ t) \<noteq> 43" "cur (fmt_d n @ t) \<noteq> 45"
    using digit_not_space [of c] by (auto simp: cs)
  then show ?thesis
    using takeWhile_digits [OF fmt_d_digits assms(2), of n] num_val_digits [of 10 n] assms(1)
    by (simp add: scan_u_def Let_def)
qed

lemma scan_quad_text:
  assumes "a \<le> 255" "b \<le> 255" "c \<le> 255" "d \<le> 255"
  shows "scan_quad (quad_text a b c d) = Some (a, b, c, d)"
proof -
  have dot: "\<not> EVUTIL_ISDIGIT 46" by (simp add: EVUTIL_ISDIGIT_iff)
  show ?thesis unfolding scan_quad_def quad_text_def
    using assms dot scan_u_digits [of d "[]"] by (simp add: scan_u_digits expect_def)
qed

lemma quad_word:
  "push_bit 24 (of_nat (unat (drop_bit 24 a AND 0xff))) OR push_bit 16 (of_nat (unat (drop_bit 16 a AND 0xff))) OR
   push_bit 8 (of_nat (unat (drop_bit 8 a AND 0xff))) OR of_nat (unat (drop_bit 0 a AND 0xff)) = a" for a :: u32
proof -
  have m: "(0xff :: u32) = mask 8" by (simp add: mask_numeral)
  show ?thesis unfolding m
  proof (rule bit_word_eqI)
    fix n assume "n < LENGTH(32)"
    then consider "n < 8" | "8 \<le> n" "n < 16" | "16 \<le> n" "n < 24" | "24 \<le> n" "n < 32" by fastforce
    then show "bit (push_bit 24 (of_nat (unat (drop_bit 24 a AND mask 8))) OR push_bit 16 (of_nat (unat (drop_bit 16 a AND mask 8))) OR
        push_bit 8 (of_nat (unat (drop_bit 8 a AND mask 8))) OR of_nat (unat (drop_bit 0 a AND mask 8)) :: u32) n = bit a n"
      by cases (auto simp: bit_simps)
  qed
qed

lemma pton4_ntop4:
  assumes "evutil_inet_ntop4 a len = Some s"
  shows "evutil_inet_pton4 s = Some a"
proof -
  have le: "unat (x AND 0xff) \<le> 255" for x :: u32
  proof -
    have "x AND 0xff \<le> 0xff" by (rule word_and_le1)
    then show ?thesis by (simp add: word_le_nat_alt)
  qed
  from assms show ?thesis
    using le [of "drop_bit 24 a"] le [of "drop_bit 16 a"] le [of "drop_bit 8 a"] le [of a] quad_word [of a]
    by (auto simp: evutil_inet_ntop4_def evutil_inet_pton4_def Let_def scan_quad_text split: if_splits)
qed

section \<open>Reading IPv6 words\<close>

lemma colon_not_digit [simp]: "\<not> EVUTIL_ISXDIGIT 58" "\<not> EVUTIL_ISDIGIT 58" "\<not> EVUTIL_ISXDIGIT 46"
  by (simp_all add: EVUTIL_ISXDIGIT_iff EVUTIL_ISDIGIT_iff)

lemma x_not_digit: "\<not> EVUTIL_ISXDIGIT 120" "\<not> EVUTIL_ISXDIGIT 88"
  by (simp_all add: EVUTIL_ISXDIGIT_iff)

lemma strtol16_fmt:
  assumes "t = [] \<or> hd t = 58"
  shows "strtol16 (fmt_x n @ t) = (n, length (fmt_x n))"
proof -
  have d: "list_all EVUTIL_ISXDIGIT (fmt_x n)" by (rule fmt_x_digits)
  have no_prefix: "(case fmt_x n @ t of
      a # b # c # _ \<Rightarrow> if a = 48 \<and> (b = 120 \<or> b = 88) \<and> EVUTIL_ISXDIGIT c then 2 else 0 | _ \<Rightarrow> 0) = (0 :: nat)"
  proof -
    obtain c s where cs: "fmt_x n = c # s" by (cases "fmt_x n") auto
    have "\<not> (b = 120 \<or> b = 88)" if "s @ t = b # r" for b r
    proof (cases s)
      case Nil
      with that assms show ?thesis by auto
    next
      case (Cons b' s')
      then have "EVUTIL_ISXDIGIT b" using d cs that by simp
      then show ?thesis using x_not_digit by auto
    qed
    then show ?thesis by (auto simp: cs split: list.splits)
  qed
  have tw: "takeWhile EVUTIL_ISXDIGIT (fmt_x n @ t) = fmt_x n"
    using takeWhile_digits(1) [OF d, of t] assms by (cases t) auto
  show ?thesis unfolding strtol16_def no_prefix Let_def using tw num_val_digits [of 16 n] by simp
qed

lemma fmt_x_cur: "EVUTIL_ISXDIGIT (cur (fmt_x n @ t))"
  using fmt_x_digits [of n] by (cases "fmt_x n") auto

lemma word_len: "length (fmt_x (unat (w :: u16))) \<le> 4"
proof (rule length_digits)
  have "unat w < 2 ^ LENGTH(16)" by (rule unsigned_less)
  then show "unat w < 16 ^ 4" by simp
qed simp_all

lemma unat_word_le: "unat (w :: u16) \<le> 65536"
proof -
  have "unat w < 2 ^ LENGTH(16)" by (rule unsigned_less)
  then show ?thesis by simp
qed

text \<open>One word with its colon, and the last word.\<close>

lemma pton6_word:
  assumes "length ws \<le> 7" "m \<ge> 0"
  shows "pton6_loop (fmt_x (unat w) @ 58 # t) (int (length (fmt_x (unat w))) + 1 + m) ws gap = pton6_loop t m (ws @ [w]) gap"
proof -
  have "length (fmt_x (unat w)) \<noteq> 0" by simp
  then show ?thesis using assms word_len [of w] unat_word_le [of w] fmt_x_cur [of "unat w" "58 # t"]
    by (subst pton6_loop.simps) (auto simp: strtol16_fmt Let_def)
qed

lemma pton6_last:
  assumes "length ws \<le> 7"
  shows "pton6_loop (fmt_x (unat w)) (int (length (fmt_x (unat w)))) ws gap = Some (ws @ [w], gap)"
proof -
  have "length (fmt_x (unat w)) \<noteq> 0" by simp
  then show ?thesis using assms word_len [of w] unat_word_le [of w] fmt_x_cur [of "unat w" "[]"] strtol16_fmt [of "[]" "unat w"]
    by (subst pton6_loop.simps) (auto simp: Let_def pton6_loop.simps [of _ "-1"])
qed

text \<open>A sequence of words, each with its colon.\<close>

definition words_text :: "u16 list \<Rightarrow> cstr" where
  "words_text vs = concat (map (\<lambda>w. fmt_x (unat w) @ [58]) vs)"

lemma words_text_simps [simp]:
  "words_text [] = []" "words_text (v # vs) = fmt_x (unat v) @ 58 # words_text vs" "words_text (us @ vs) = words_text us @ words_text vs"
  by (simp_all add: words_text_def)

lemma pton6_words:
  assumes "length ws + length vs \<le> 8" "m \<ge> 0"
  shows "pton6_loop (words_text vs @ t) (int (length (words_text vs)) + m) ws gap = pton6_loop t m (ws @ vs) gap"
  using assms
proof (induction vs arbitrary: ws)
  case (Cons v vs)
  let ?m = "int (length (words_text vs)) + m"
  have "pton6_loop (words_text (v # vs) @ t) (int (length (words_text (v # vs))) + m) ws gap =
      pton6_loop (fmt_x (unat v) @ 58 # (words_text vs @ t)) (int (length (fmt_x (unat v))) + 1 + ?m) ws gap"
    by (simp add: algebra_simps)
  also have "\<dots> = pton6_loop (words_text vs @ t) ?m (ws @ [v]) gap"
    by (rule pton6_word) (use Cons.prems in auto)
  also have "\<dots> = pton6_loop t m ((ws @ [v]) @ vs) gap" by (rule Cons.IH) (use Cons.prems in auto)
  finally show ?case by simp
qed simp

text \<open>The words behind the gap: the last one has no colon.\<close>

definition tail_text :: "u16 list \<Rightarrow> cstr" where
  "tail_text vs = (if vs = [] then [] else words_text (butlast vs) @ fmt_x (unat (last vs)))"

lemma pton6_tail:
  assumes "length ws + length vs \<le> 8"
  shows "pton6_loop (tail_text vs) (int (length (tail_text vs))) ws gap = Some (ws @ vs, gap)"
proof (cases vs rule: rev_cases)
  case Nil
  then show ?thesis by (simp add: tail_text_def pton6_loop.simps)
next
  case (snoc us v)
  have "pton6_loop (tail_text vs) (int (length (tail_text vs))) ws gap =
      pton6_loop (fmt_x (unat v)) (int (length (fmt_x (unat v)))) (ws @ us) gap"
    using pton6_words [of ws us "int (length (fmt_x (unat v)))" "fmt_x (unat v)" gap] assms snoc by (simp add: tail_text_def)
  also have "\<dots> = Some ((ws @ us) @ [v], gap)" by (rule pton6_last) (use assms snoc in simp)
  finally show ?thesis using snoc by simp
qed

section \<open>Printing IPv6 words\<close>

lemma tail_text_Cons: "tail_text (w # ws) = fmt_x (unat w) @ (if ws = [] then [] else 58 # tail_text ws)"
  by (simp add: tail_text_def)

lemma print6_tail: "i + length ws = 8 \<Longrightarrow> gap < int i \<Longrightarrow> print6 gap i ws = tail_text ws"
  by (induction ws arbitrary: i) (auto simp: tail_text_Cons tail_text_def)

lemma print6_words:
  "i + length us + length vs = 8 \<Longrightarrow> vs \<noteq> [] \<Longrightarrow> int (i + length us) \<le> gap \<Longrightarrow>
     print6 gap i (us @ vs) = words_text us @ print6 gap (i + length us) vs"
  by (induction us arbitrary: i) auto

lemma gap_scan_zero:
  "gap_scan ws i best = best \<or> (\<exists>j < length ws. fst (gap_scan ws i best) = int (i + j) \<and> ws ! j = 0)"
proof (induction ws i best rule: gap_scan.induct)
  case (2 w ws i best)
  show ?case
  proof (cases "w = 0")
    case False
    with 2(1) show ?thesis by auto
  next
    case True
    let ?n = "length (takeWhile (\<lambda>x. x = 0) (w # ws))" and ?b = "if length (takeWhile (\<lambda>x. x = 0) (w # ws)) > snd best
      then (int i, length (takeWhile (\<lambda>x. x = 0) (w # ws))) else best"
    have eq: "gap_scan (w # ws) i best = gap_scan (drop ?n (w # ws)) (i + ?n) ?b" using True by (simp add: Let_def)
    from 2(2) [OF _ refl] True have "gap_scan (drop ?n (w # ws)) (i + ?n) ?b = ?b \<or>
        (\<exists>j < length (drop ?n (w # ws)). fst (gap_scan (drop ?n (w # ws)) (i + ?n) ?b) = int (i + ?n + j) \<and> drop ?n (w # ws) ! j = 0)"
      by blast
    then show ?thesis
    proof
      assume "gap_scan (drop ?n (w # ws)) (i + ?n) ?b = ?b"
      then show ?thesis unfolding eq using True by (cases "?n > snd best") (auto intro: exI [of _ 0])
    next
      assume "\<exists>j < length (drop ?n (w # ws)). fst (gap_scan (drop ?n (w # ws)) (i + ?n) ?b) = int (i + ?n + j) \<and> drop ?n (w # ws) ! j = 0"
      then obtain j where j: "j < length (drop ?n (w # ws))" "fst (gap_scan (drop ?n (w # ws)) (i + ?n) ?b) = int (i + ?n + j)"
        "drop ?n (w # ws) ! j = 0" by blast
      then have "?n + j < length (w # ws)" "(w # ws) ! (?n + j) = 0" by auto
      then show ?thesis unfolding eq using j(2) by (intro disjI2 exI [of _ "?n + j"]) (simp add: add.assoc)
    qed
  qed
qed simp

lemma longest_gap_cases:
  obtains "longest_gap ws = -1" | g where "longest_gap ws = int g" "g < length ws" "ws ! g = 0"
proof -
  have "longest_gap ws = -1 \<or> (\<exists>g < length ws. longest_gap ws = int g \<and> ws ! g = 0)"
    using gap_scan_zero [of ws 0 "(-1, 0)"] by (auto simp: longest_gap_def case_prod_beta)
  with that show thesis by blast
qed

lemma print6_shape:
  assumes len: "length ws = 8"
  obtains "print6 (longest_gap ws) 0 ws = tail_text ws"
  | us n vs where "ws = us @ replicate n 0 @ vs" "0 < n"
    "print6 (longest_gap ws) 0 ws = words_text us @ (if us = [] then [58, 58] else [58]) @ tail_text vs"
proof (cases rule: longest_gap_cases [of ws])
  case 1
  then show thesis using that(1) print6_tail [of 0 ws "-1"] len by simp
next
  case (2 g)
  let ?us = "take g ws" and ?zs = "takeWhile (\<lambda>x. x = 0) (drop g ws)" and ?vs = "dropWhile (\<lambda>x. x = 0) (drop g ws)"
  obtain ys where ys: "drop g ws = 0 # ys" using 2 by (metis Cons_nth_drop_Suc)
  have zs: "?zs = replicate (length ?zs) 0" by (rule replicate_length_same [symmetric]) (metis set_takeWhileD)
  have n: "0 < length ?zs" using ys by simp
  have split: "ws = ?us @ replicate (length ?zs) 0 @ ?vs" using zs by (metis append_take_drop_id takeWhile_dropWhile_id)
  have pre: "print6 (int g) 0 (?us @ drop g ws) = words_text ?us @ print6 (int g) (0 + length ?us) (drop g ws)"
    by (rule print6_words) (use 2 len in auto)
  have mid: "print6 (int g) g (drop g ws) = (if g = 0 then [58, 58] else [58]) @ print6 (int g) (g + length ?zs) ?vs"
    unfolding dropWhile_eq_drop unfolding ys by (simp add: Let_def)
  have post: "print6 (int g) (g + length ?zs) ?vs = tail_text ?vs"
    by (rule print6_tail) (use arg_cong [OF split, of length] 2 len n in auto)
  have "g = 0 \<longleftrightarrow> ?us = []" using 2 by auto
  then have "print6 (longest_gap ws) 0 ws = words_text ?us @ (if ?us = [] then [58, 58] else [58]) @ tail_text ?vs"
    using pre mid post 2 by simp
  then show thesis using that(2) [OF split n] by simp
qed

section \<open>Round trips\<close>

lemma no_dot: "46 \<notin> set (words_text ws)" "46 \<notin> set (tail_text ws)" "46 \<notin> set (fmt_x n)"
proof -
  have x: "46 \<notin> set (fmt_x n)" for n using fmt_x_digits [of n] colon_not_digit(3) by (auto simp: list_all_iff)
  then show "46 \<notin> set (fmt_x n)" .
  have w: "46 \<notin> set (words_text ws)" for ws using x by (induction ws) auto
  then show "46 \<notin> set (words_text ws)" .
  show "46 \<notin> set (tail_text ws)" using w x by (auto simp: tail_text_def)
qed

lemma pton6_no_dot:
  assumes "46 \<notin> set s" "pton6_loop s (int (length s)) [] (-1) = Some (ws, gap)"
  shows "evutil_inet_pton6 s = pton6_finish ws gap []"
proof -
  have "cur s \<noteq> 46" using assms(1) by (cases s) auto
  then show ?thesis using assms by (simp add: evutil_inet_pton6_def)
qed

lemma pton6_gap:
  assumes "length us + length vs \<le> 7"
  shows "pton6_loop (words_text us @ (if us = [] then [58, 58] else [58]) @ tail_text vs)
    (int (length (words_text us @ (if us = [] then [58, 58] else [58]) @ tail_text vs))) [] (-1) = Some (us @ vs, int (length us))"
proof (cases "us = []")
  case True
  have "pton6_loop ([58, 58] @ tail_text vs) (int (length ([58, 58] @ tail_text vs))) [] (-1) =
      pton6_loop (tail_text vs) (int (length (tail_text vs))) [] 0"
    by (subst pton6_loop.simps) simp
  also have "\<dots> = Some ([] @ vs, 0)" by (rule pton6_tail) (use assms in simp)
  finally show ?thesis using True by simp
next
  case False
  have "pton6_loop (words_text us @ [58] @ tail_text vs) (int (length (words_text us @ [58] @ tail_text vs))) [] (-1) =
      pton6_loop ([58] @ tail_text vs) (int (length ([58] @ tail_text vs))) ([] @ us) (-1)"
    using pton6_words [of "[]" us "int (length ([58] @ tail_text vs))" "[58] @ tail_text vs" "-1"] assms by (simp add: algebra_simps)
  also have "\<dots> = pton6_loop (tail_text vs) (int (length (tail_text vs))) us (int (length us))"
    using False assms by (subst pton6_loop.simps) simp
  also have "\<dots> = Some (us @ vs, int (length us))" by (rule pton6_tail) (use assms in simp)
  finally show ?thesis using False by simp
qed

lemma pton6_print6:
  assumes len: "length ws = 8"
  shows "evutil_inet_pton6 (print6 (longest_gap ws) 0 ws) = Some ws"
proof (cases rule: print6_shape [OF len])
  case 1
  have "pton6_loop (tail_text ws) (int (length (tail_text ws))) [] (-1) = Some ([] @ ws, -1)" by (rule pton6_tail) (use len in simp)
  from pton6_no_dot [OF no_dot(2) this] show ?thesis using 1 len by (simp add: pton6_finish_def)
next
  case (2 us n vs)
  have n: "length us + n + length vs = 8" using 2(1) len by simp
  let ?s = "words_text us @ (if us = [] then [58, 58] else [58]) @ tail_text vs"
  have "46 \<notin> set ?s" using no_dot by auto
  from pton6_no_dot [OF this pton6_gap] n 2 have "evutil_inet_pton6 ?s = pton6_finish (us @ vs) (int (length us)) []" by simp
  also have "\<dots> = Some (us @ replicate (8 - (length us + length vs)) 0 @ vs)" using n 2(2) by (simp add: pton6_finish_def)
  also have "8 - (length us + length vs) = n" using n by simp
  finally show ?thesis using 2 by simp
qed

lemma dot_split_quad:
  assumes "46 \<notin> set s" "s \<noteq> []" "last s = 58"
  shows "dot_split (s @ quad_text a b c d) = length s"
proof -
  have a: "46 \<notin> set (fmt_d a)" using fmt_d_digits [of a] by (auto simp: list_all_iff dest: digit_not_space)
  define t where "t = [46] @ fmt_d b @ [46] @ fmt_d c @ [46] @ fmt_d d"
  have q: "s @ quad_text a b c d = (s @ fmt_d a) @ t" by (simp add: quad_text_def t_def)
  have "takeWhile (\<lambda>c. c \<noteq> 46) (s @ quad_text a b c d) = s @ fmt_d a"
    unfolding q by (rule takeWhile_digits(1)) (use assms(1) a in \<open>auto simp: list_all_iff t_def\<close>)
  then have dot: "length (takeWhile (\<lambda>c. c \<noteq> 46) (s @ quad_text a b c d)) = length s + length (fmt_d a)" by simp
  have tk: "take (length s + length (fmt_d a)) (s @ quad_text a b c d) = s @ fmt_d a" by (simp add: quad_text_def)
  have "takeWhile EVUTIL_ISDIGIT (rev (fmt_d a) @ rev s) = rev (fmt_d a)"
    using takeWhile_digits(1) [of EVUTIL_ISDIGIT "rev (fmt_d a)" "rev s"] fmt_d_digits [of a] assms(2,3)
    by (auto simp: list_all_iff hd_rev)
  then show ?thesis unfolding dot_split_def Let_def dot tk by simp
qed

lemma word_bytes_eq: "word_bytes w = (a, b) \<Longrightarrow> a \<le> 255 \<and> b \<le> 255 \<and> of_nat (a * 256 + b) = w"
proof -
  assume "word_bytes w = (a, b)"
  then have ab: "a = unat (drop_bit 8 w)" "b = unat (w AND 0xff)" by (auto simp: word_bytes_def)
  have lt: "unat w < 2 ^ LENGTH(16)" by (rule unsigned_less)
  have "w AND 0xff = take_bit 8 w" by (simp add: take_bit_eq_mask mask_numeral)
  then have "b = take_bit 8 (unat w)" using ab(2) by (simp only: unsigned_take_bit_eq)
  moreover have "a = drop_bit 8 (take_bit 16 (unat w))" using ab(1) by (simp only: unsigned_drop_bit_eq) simp
  ultimately have "a = unat w div 256" "b = unat w mod 256"
    using lt by (auto simp: drop_bit_eq_div take_bit_eq_mod)
  moreover have "unat w div 256 \<le> 255" using lt by simp
  ultimately show ?thesis by simp
qed

lemma pton6_quad:
  assumes "46 \<notin> set s" "s \<noteq> []" "last s = 58" "hd s \<noteq> 46" "word_bytes u = (a, b)" "word_bytes v = (c, d)"
    "pton6_loop (s @ quad_text a b c d) (int (length s)) [] (-1) = Some (ws, gap)"
  shows "evutil_inet_pton6 (s @ quad_text a b c d) = pton6_finish ws gap [u, v]"
proof -
  note u = word_bytes_eq [OF assms(5)] and v = word_bytes_eq [OF assms(6)]
  have "cur (s @ quad_text a b c d) \<noteq> 46" using assms(2,4) by (cases s) auto
  moreover have "46 \<in> set (s @ quad_text a b c d)" by (simp add: quad_text_def)
  ultimately show ?thesis
    using assms(7) u v scan_quad_text [of a b c d] dot_split_quad [OF assms(1-3), of a b c d]
    by (simp add: evutil_inet_pton6_def Let_def del: of_nat_add of_nat_mult)
qed

lemma pton6_colons: "pton6_loop (58 # 58 # t) (2 + m) [] (-1) = pton6_loop t m [] 0" if "m \<ge> 0"
  using that by (subst pton6_loop.simps) simp

lemma pton6_ntop6:
  assumes len: "length ws = 8"
  shows "evutil_inet_pton6 (ntop6_text ws) = Some ws"
proof -
  obtain a b c d where ab: "word_bytes (ws ! 6) = (a, b)" and cd: "word_bytes (ws ! 7) = (c, d)" by fastforce
  let ?q = "quad_text a b c d"
  have ws: "ws = take 5 ws @ [ws ! 5, ws ! 6, ws ! 7]"
    using len by (intro nth_equalityI) (auto simp: nth_append nth_Cons' less_Suc_eq numeral_eq_Suc)
  have zeros: "take 5 ws = replicate 5 0" if "list_all (\<lambda>w. w = 0) (take 5 ws)"
    using that len by (intro replicate_eqI) (auto simp: list_all_iff)
  have "(list_all (\<lambda>w. w = 0) (take 5 ws) \<and> ws ! 5 = 0 \<and> ntop6_text ws = [58, 58] @ ?q) \<or>
      (list_all (\<lambda>w. w = 0) (take 5 ws) \<and> ws ! 5 = 0xffff \<and> ntop6_text ws = ([58, 58] @ words_text [0xffff]) @ ?q) \<or>
      ntop6_text ws = print6 (longest_gap ws) 0 ws"
    by (simp add: ntop6_text_def Let_def ab cd)
  then consider "list_all (\<lambda>w. w = 0) (take 5 ws)" "ws ! 5 = 0" "ntop6_text ws = [58, 58] @ ?q"
    | "list_all (\<lambda>w. w = 0) (take 5 ws)" "ws ! 5 = 0xffff" "ntop6_text ws = ([58, 58] @ words_text [0xffff]) @ ?q"
    | "ntop6_text ws = print6 (longest_gap ws) 0 ws" by blast
  then show ?thesis
  proof cases
    case 1
    have "pton6_loop ([58, 58] @ ?q) (int (length [58, 58 :: u8])) [] (-1) = Some ([], 0)"
      using pton6_colons [of 0 ?q] by (simp add: pton6_loop.simps [of ?q])
    from pton6_quad [OF _ _ _ _ ab cd this] have "evutil_inet_pton6 (ntop6_text ws) = pton6_finish [] 0 [ws ! 6, ws ! 7]"
      using 1(3) by simp
    then show ?thesis using ws zeros [OF 1(1)] 1(2) by (simp add: pton6_finish_def numeral_eq_Suc)
  next
    case 2
    let ?s = "[58, 58] @ words_text [0xffff]"
    have "pton6_loop (?s @ ?q) (int (length ?s)) [] (-1) = pton6_loop (words_text [0xffff] @ ?q) (int (length (words_text [0xffff])) + 0) [] 0"
      using pton6_colons [of "int (length (words_text [0xffff]))" "words_text [0xffff] @ ?q"] by (simp del: words_text_simps)
    also have "\<dots> = pton6_loop ?q 0 ([] @ [0xffff]) 0" by (rule pton6_words) simp_all
    also have "\<dots> = Some ([0xffff], 0)" by (simp add: pton6_loop.simps [of ?q])
    finally have "pton6_loop (?s @ ?q) (int (length ?s)) [] (-1) = Some ([0xffff], 0)" .
    from pton6_quad [OF _ _ _ _ ab cd this] have "evutil_inet_pton6 (ntop6_text ws) = pton6_finish [0xffff] 0 [ws ! 6, ws ! 7]"
      using 2(3) no_dot by simp
    then show ?thesis using ws zeros [OF 2(1)] 2(2) by (simp add: pton6_finish_def numeral_eq_Suc)
  next
    case 3
    with pton6_print6 [OF len] show ?thesis by simp
  qed
qed

text \<open>The texts are short and hold no colon or bracket where the address ends.\<close>

lemma quad_text_props:
  assumes "a \<le> 255" "b \<le> 255" "c \<le> 255" "d \<le> 255"
  shows "length (quad_text a b c d) \<le> 15" "58 \<notin> set (quad_text a b c d)" "93 \<notin> set (quad_text a b c d)"
proof -
  have l: "length (fmt_d n) \<le> 3" if "n \<le> 255" for n by (rule length_digits) (use that in auto)
  show "length (quad_text a b c d) \<le> 15" using l [OF assms(1)] l [OF assms(2)] l [OF assms(3)] l [OF assms(4)] by (simp add: quad_text_def)
  have "58 \<notin> set (fmt_d n)" "93 \<notin> set (fmt_d n)" for n
    using fmt_d_digits [of n] by (auto simp: list_all_iff EVUTIL_ISDIGIT_iff word_le_nat_alt dest!: bspec)
  then show "58 \<notin> set (quad_text a b c d)" "93 \<notin> set (quad_text a b c d)" by (auto simp: quad_text_def)
qed

lemma fmt_x_no_bracket: "93 \<notin> set (fmt_x n)"
  using fmt_x_digits [of n] by (auto simp: list_all_iff EVUTIL_ISXDIGIT_iff word_le_nat_alt dest!: bspec)

lemma words_text_props: "93 \<notin> set (words_text ws)" "length (words_text ws) \<le> 5 * length ws"
proof -
  show "93 \<notin> set (words_text ws)" using fmt_x_no_bracket by (induction ws) auto
  show "length (words_text ws) \<le> 5 * length ws"
  proof (induction ws)
    case (Cons w ws)
    then show ?case using word_len [of w] by simp
  qed simp
qed

lemma tail_text_props: "93 \<notin> set (tail_text ws)" "length (tail_text ws) \<le> 5 * length ws"
proof -
  show "93 \<notin> set (tail_text ws)" using fmt_x_no_bracket words_text_props(1) by (auto simp: tail_text_def)
  show "length (tail_text ws) \<le> 5 * length ws"
    using words_text_props(2) [of "butlast ws"] word_len [of "last ws"] by (cases ws rule: rev_cases) (auto simp: tail_text_def)
qed

lemma ntop6_props:
  assumes len: "length ws = 8"
  shows "length (ntop6_text ws) \<le> 44" "93 \<notin> set (ntop6_text ws)"
proof -
  obtain a b c d where ab: "word_bytes (ws ! 6) = (a, b)" and cd: "word_bytes (ws ! 7) = (c, d)" by fastforce
  note q = quad_text_props [of a b c d]
  have le: "a \<le> 255" "b \<le> 255" "c \<le> 255" "d \<le> 255" using word_bytes_eq [OF ab] word_bytes_eq [OF cd] by auto
  have p: "length (print6 (longest_gap ws) 0 ws) \<le> 44 \<and> 93 \<notin> set (print6 (longest_gap ws) 0 ws)"
  proof (cases rule: print6_shape [OF len])
    case 1
    then show ?thesis using tail_text_props [of ws] len by simp
  next
    case (2 us n vs)
    have "length us + n + length vs = 8" using 2(1) len by simp
    then show ?thesis unfolding 2(3)
      using words_text_props [of us] tail_text_props [of vs] 2(2) by auto
  qed
  have x: "length (fmt_x (unat (ws ! 5))) \<le> 4" by (rule word_len)
  show "length (ntop6_text ws) \<le> 44" "93 \<notin> set (ntop6_text ws)"
    using p q le x fmt_x_no_bracket by (auto simp: ntop6_text_def ab cd Let_def)
qed

lemma atoi_port:
  assumes "port \<le> 65535"
  shows "atoi (fmt_d port) = int port"
proof -
  obtain c s where cs: "fmt_d port = c # s" by (cases "fmt_d port") auto
  have c: "EVUTIL_ISDIGIT c" using fmt_d_digits [of port] cs by simp
  have "dropWhile EVUTIL_ISSPACE (fmt_d port) = fmt_d port" "cur (fmt_d port) \<noteq> 43" "cur (fmt_d port) \<noteq> 45"
    using digit_not_space [OF c] by (auto simp: cs)
  moreover have tw: "takeWhile EVUTIL_ISDIGIT (fmt_d port) = fmt_d port"
    using fmt_d_digits [of port] by (simp add: list_all_iff)
  moreover have "c_int (int port) = int port" by (rule c_int_id) (use assms in \<open>auto simp: INT_MAX_def\<close>)
  ultimately show ?thesis using num_val_digits [of 10 port] assms by (simp add: atoi_def Let_def min_def tw)
qed

lemma fmt_d_no_colon: "58 \<notin> set (fmt_d n)"
  using fmt_d_digits [of n] by (auto simp: list_all_iff EVUTIL_ISDIGIT_iff word_le_nat_alt dest!: bspec)

lemma split_at_first: "c \<notin> set s \<Longrightarrow> split_at c (s @ c # t) = Some (s, t)"
  by (induction s) (auto simp: split_at_def)

lemma ntop4_fits: "\<exists>s. evutil_inet_ntop4 a 16 = Some s \<and> length s \<le> 15 \<and> 58 \<notin> set s \<and> cur s \<noteq> 91"
proof -
  have le: "unat (x AND 0xff) \<le> 255" for x :: u32
    using word_and_le1 [of x "0xff"] by (simp add: word_le_nat_alt)
  let ?s = "quad_text (unat (drop_bit 24 a AND 0xff)) (unat (drop_bit 16 a AND 0xff)) (unat (drop_bit 8 a AND 0xff))
    (unat (drop_bit 0 a AND 0xff))"
  have "cur (fmt_d n @ t) \<noteq> 91" for n t
    using fmt_d_digits [of n] by (cases "fmt_d n") (auto simp: EVUTIL_ISDIGIT_iff word_le_nat_alt)
  then have "cur ?s \<noteq> 91" by (simp add: quad_text_def)
  moreover have "length ?s \<le> 15" "58 \<notin> set ?s" by (rule quad_text_props; rule le)+
  ultimately show ?thesis unfolding evutil_inet_ntop4_def Let_def by auto
qed

lemma ntop4_len: "evutil_inet_ntop4 a 16 = Some s \<Longrightarrow> evutil_inet_ntop4 a 128 = Some s"
  by (auto simp: evutil_inet_ntop4_def Let_def split: if_splits)

lemma ntop6_fits: "length ws = 8 \<Longrightarrow> 46 \<le> len \<Longrightarrow> evutil_inet_ntop6 ws len = Some (ntop6_text ws)"
  using ntop6_props(1) [of ws] by (simp add: evutil_inet_ntop6_def Let_def)

lemma port_len: "port \<le> 65535 \<Longrightarrow> length (fmt_d port) \<le> 5"
  by (rule length_digits) simp_all

section \<open>Properties\<close>

text \<open>
  C29. Socket addresses survive printing and parsing: for every IPv4 address and every IPv6 address,
  whether the latter is printed with a gap, with an embedded IPv4 part or in full, and every port
  but 0, \<^verbatim>\<open>evutil_parse_sockaddr_port\<close> gives back what \<^verbatim>\<open>evutil_format_sockaddr_port_\<close> has printed
  into a buffer of at least 58 bytes.
\<close>

theorem sockaddr_round_trip:
  assumes "0 < port" "port \<le> 65535" "length ws = 8" "58 \<le> outlen"
  shows "evutil_parse_sockaddr_port (evutil_format_sockaddr_port (Sin a port) outlen) 28 = Some (Sin a port, 16) \<and>
    evutil_parse_sockaddr_port (evutil_format_sockaddr_port (Sin6 ws port) outlen) 28 = Some (Sin6 ws port, 28)"
proof
  note len = port_len [OF assms(2)] and at = atoi_port [OF assms(2)]
  from ntop4_fits [of a] obtain s where s: "evutil_inet_ntop4 a 16 = Some s" "length s \<le> 15" "58 \<notin> set s" "cur s \<noteq> 91" by blast
  have f: "evutil_format_sockaddr_port (Sin a port) outlen = s @ 58 # fmt_d port"
    using s ntop4_len [OF s(1)] len assms(4) by (simp add: evutil_format_sockaddr_port_def)
  have "cur (s @ 58 # fmt_d port) \<noteq> 91" using s(4) by (cases s) auto
  then have "sockaddr_parts (s @ 58 # fmt_d port) = Some (False, s, Some (fmt_d port))"
    using s(2,3) fmt_d_no_colon by (simp add: sockaddr_parts_def split_at_first)
  then show "evutil_parse_sockaddr_port (evutil_format_sockaddr_port (Sin a port) outlen) 28 = Some (Sin a port, 16)"
    using f pton4_ntop4 [OF s(1)] at assms(1,2) by (simp add: evutil_parse_sockaddr_port_def)
  let ?t = "ntop6_text ws"
  note t = ntop6_props [OF assms(3)]
  have f6: "evutil_format_sockaddr_port (Sin6 ws port) outlen = (91 # ?t) @ 93 # 58 # fmt_d port"
    using ntop6_fits [OF assms(3), of 128] t len assms(4) by (simp add: evutil_format_sockaddr_port_def)
  have "sockaddr_parts ((91 # ?t) @ 93 # 58 # fmt_d port) = Some (True, ?t, Some (fmt_d port))"
    using t split_at_first [of 93 "91 # ?t" "58 # fmt_d port"] by (simp add: sockaddr_parts_def)
  then show "evutil_parse_sockaddr_port (evutil_format_sockaddr_port (Sin6 ws port) outlen) 28 = Some (Sin6 ws port, 28)"
    unfolding f6 using pton6_ntop6 [OF assms(3)] at assms(1,2) by (simp add: evutil_parse_sockaddr_port_def)
qed

theorem sockaddr_round_trip_witness:
  "evutil_parse_sockaddr_port (evutil_format_sockaddr_port (Sin6 [0x2001, 0xdb8, 0, 0, 1, 0, 0, 1] 80) 128) 28 =
     Some (Sin6 [0x2001, 0xdb8, 0, 0, 1, 0, 0, 1] 80, 28)"
  using sockaddr_round_trip [of 80 "[0x2001, 0xdb8, 0, 0, 1, 0, 0, 1]" 128] by simp

end
