(* ===== verification/Http_Uri.thy ===== *)
theory Http_Uri
  imports Inet
begin

text \<open>
  The URI functions of \<^verbatim>\<open>src/http.c\<close>: encoding and decoding, parsing into parts, joining the parts and setting
  a part; the parameters of a query are in \<open>Http_Headers\<close>. Strings are C strings without their final 0. A function
  that returns \<^verbatim>\<open>NULL\<close> or -1 returns \<open>None\<close>. Memory is available; the temporary buffer of the
  encoder and of \<^verbatim>\<open>evhttp_uri_join\<close> is the list of its bytes.
\<close>

section \<open>Encoding and decoding\<close>

definition uri_chars :: "nat list" where
  "uri_chars = [
    0, 0, 0, 0, 0, 0, 0, 0, 0, 0, 0, 0, 0, 0, 0, 0, 0, 0, 0, 0, 0, 0, 0, 0, 0, 0, 0, 0, 0, 0, 0, 0,
    0, 0, 0, 0, 0, 0, 0, 0, 0, 0, 0, 0, 0, 1, 1, 0, 1, 1, 1, 1, 1, 1, 1, 1, 1, 1, 0, 0, 0, 0, 0, 0,
    0, 1, 1, 1, 1, 1, 1, 1, 1, 1, 1, 1, 1, 1, 1, 1, 1, 1, 1, 1, 1, 1, 1, 1, 1, 1, 1, 0, 0, 0, 0, 1,
    0, 1, 1, 1, 1, 1, 1, 1, 1, 1, 1, 1, 1, 1, 1, 1, 1, 1, 1, 1, 1, 1, 1, 1, 1, 1, 1, 0, 0, 0, 1, 0,
    0, 0, 0, 0, 0, 0, 0, 0, 0, 0, 0, 0, 0, 0, 0, 0, 0, 0, 0, 0, 0, 0, 0, 0, 0, 0, 0, 0, 0, 0, 0, 0,
    0, 0, 0, 0, 0, 0, 0, 0, 0, 0, 0, 0, 0, 0, 0, 0, 0, 0, 0, 0, 0, 0, 0, 0, 0, 0, 0, 0, 0, 0, 0, 0,
    0, 0, 0, 0, 0, 0, 0, 0, 0, 0, 0, 0, 0, 0, 0, 0, 0, 0, 0, 0, 0, 0, 0, 0, 0, 0, 0, 0, 0, 0, 0, 0,
    0, 0, 0, 0, 0, 0, 0, 0, 0, 0, 0, 0, 0, 0, 0, 0, 0, 0, 0, 0, 0, 0, 0, 0, 0, 0, 0, 0, 0, 0, 0, 0]"

definition CHAR_IS_UNRESERVED :: "u8 \<Rightarrow> bool" where
  "CHAR_IS_UNRESERVED c \<longleftrightarrow> uri_chars ! unat c \<noteq> 0"

definition hex_upper :: "nat \<Rightarrow> u8" where
  "hex_upper d = (if d < 10 then of_nat (48 + d) else of_nat (55 + d))"

definition encode_char :: "bool \<Rightarrow> u8 \<Rightarrow> cstr" where
  "encode_char space_as_plus c =
     (if CHAR_IS_UNRESERVED c then [c]
      else if c = 32 \<and> space_as_plus then [43]
      else [37, hex_upper (unat c div 16), hex_upper (unat c mod 16)])"

text \<open>The first \<open>len\<close> bytes, or the string up to its end when \<open>len\<close> is negative.\<close>

definition evhttp_uriencode :: "u8 list \<Rightarrow> int \<Rightarrow> bool \<Rightarrow> cstr" where
  "evhttp_uriencode uri len space_as_plus =
     concat (map (encode_char space_as_plus) (if len \<ge> 0 then take (nat len) uri else takeWhile (\<lambda>c. c \<noteq> 0) uri))"

definition evhttp_encode_uri :: "cstr \<Rightarrow> cstr" where
  "evhttp_encode_uri str = evhttp_uriencode str (-1) False"

definition hex_pair :: "u8 \<Rightarrow> u8 \<Rightarrow> u8" where
  "hex_pair a b = of_nat (num_val 16 [a, b])"

text \<open>
  The loop of \<^verbatim>\<open>evhttp_decode_uri_internal\<close>: \<open>dp\<close> is \<^verbatim>\<open>decode_plus\<close>, which a question mark switches on when
  the control is negative. The index of the source is a 32-bit \<^verbatim>\<open>unsigned\<close> and the number of written bytes an
  \<^verbatim>\<open>int\<close>; the recursion over the list describes it for strings of less than 2 GiB.
\<close>

fun decode_loop :: "int \<Rightarrow> bool \<Rightarrow> cstr \<Rightarrow> u8 list" where
  "decode_loop ctl dp [] = []"
| "decode_loop ctl dp (c # s) =
     (if c = 63 then c # decode_loop ctl (dp \<or> ctl < 0) s
      else if c = 43 \<and> dp then 32 # decode_loop ctl dp s
      else
        (case s of
           a # b # r \<Rightarrow>
             if c = 37 \<and> EVUTIL_ISXDIGIT a \<and> EVUTIL_ISXDIGIT b then hex_pair a b # decode_loop ctl dp r
             else c # decode_loop ctl dp s
         | _ \<Rightarrow> c # decode_loop ctl dp s))"

definition evhttp_decode_uri_internal :: "cstr \<Rightarrow> int \<Rightarrow> u8 list" where
  "evhttp_decode_uri_internal uri decode_plus_ctl = decode_loop decode_plus_ctl (decode_plus_ctl = 1) uri"

definition evhttp_decode_uri :: "cstr \<Rightarrow> u8 list" where
  "evhttp_decode_uri uri = evhttp_decode_uri_internal uri (-1)"

definition evhttp_uridecode :: "cstr \<Rightarrow> bool \<Rightarrow> u8 list" where
  "evhttp_uridecode uri decode_plus = evhttp_decode_uri_internal uri (if decode_plus then 1 else 0)"

definition html_replace :: "u8 \<Rightarrow> cstr" where
  "html_replace ch =
     (if ch = 60 then map of_char ''&lt;''
      else if ch = 62 then map of_char ''&gt;''
      else if ch = 34 then map of_char ''&quot;''
      else if ch = 39 then map of_char ''&#039;''
      else if ch = 38 then map of_char ''&amp;''
      else [ch])"

definition evhttp_htmlescape :: "cstr \<Rightarrow> cstr option" where
  "evhttp_htmlescape html =
     (let escaped = concat (map html_replace html) in if length escaped \<ge> EV_SIZE_MAX then None else Some escaped)"

section \<open>The parts of a URI\<close>

record evhttp_uri =
  uri_flags :: u32
  scheme :: "cstr option"
  userinfo :: "cstr option"
  host :: "cstr option"
  port :: int
  path :: "cstr option"
  query :: "cstr option"
  fragment :: "cstr option"

definition EVHTTP_URI_NONCONFORMANT :: u32 where "EVHTTP_URI_NONCONFORMANT = 1"

definition evhttp_uri_new :: evhttp_uri where
  "evhttp_uri_new = \<lparr>uri_flags = 0, scheme = None, userinfo = None, host = None, port = -1, path = None, query = None, fragment = None\<rparr>"

definition scheme_ok :: "cstr \<Rightarrow> bool" where
  "scheme_ok s \<longleftrightarrow> s \<noteq> [] \<and> EVUTIL_ISALPHA (hd s) \<and> list_all (\<lambda>c. EVUTIL_ISALNUM c \<or> c = 43 \<or> c = 45 \<or> c = 46) (tl s)"

definition SUBDELIMS :: cstr where
  "SUBDELIMS = map of_char ''!$&'' @ [39] @ map of_char ''()*+,;=''"

fun userinfo_ok :: "cstr \<Rightarrow> bool" where
  "userinfo_ok [] \<longleftrightarrow> True"
| "userinfo_ok (c # s) \<longleftrightarrow>
     (if CHAR_IS_UNRESERVED c \<or> c \<in> set SUBDELIMS \<or> c = 58 then userinfo_ok s
      else (case s of a # b # r \<Rightarrow> c = 37 \<and> EVUTIL_ISXDIGIT a \<and> EVUTIL_ISXDIGIT b \<and> userinfo_ok r | _ \<Rightarrow> False))"

text \<open>
  \<^verbatim>\<open>regname_ok\<close> looks at the two characters behind a percent sign even where they lie behind the end of the
  name; the rest of the string is therefore an argument.
\<close>

fun regname_ok :: "nat \<Rightarrow> cstr \<Rightarrow> bool" where
  "regname_ok n [] \<longleftrightarrow> True"
| "regname_ok n (c # s) \<longleftrightarrow>
     (if n = 0 then True
      else if CHAR_IS_UNRESERVED c \<or> c \<in> set SUBDELIMS then regname_ok (n - 1) s
      else c = 37 \<and> EVUTIL_ISXDIGIT (cur s) \<and> EVUTIL_ISXDIGIT (cur (drop 1 s)) \<and> regname_ok (n - 3) (drop 2 s))"

fun parse_port_loop :: "int \<Rightarrow> cstr \<Rightarrow> int" where
  "parse_port_loop portnum [] = portnum"
| "parse_port_loop portnum (c # s) =
     (if \<not> EVUTIL_ISDIGIT c then -1
      else (let p = portnum * 10 + (uint c - 48) in if p < 0 \<or> p > 65535 then -1 else parse_port_loop p s))"

definition parse_port :: "cstr \<Rightarrow> int" where
  "parse_port s = parse_port_loop 0 s"

definition ipvfuture_ok :: "cstr \<Rightarrow> bool" where
  "ipvfuture_ok s \<longleftrightarrow>
     (let r = dropWhile EVUTIL_ISXDIGIT s
      in EVUTIL_ISXDIGIT (cur s) \<and> cur r = 46 \<and> list_all (\<lambda>c. CHAR_IS_UNRESERVED c \<or> c \<in> set SUBDELIMS \<or> c = 58) (tl r))"

text \<open>0 for bad, 1 for IPv6, 2 for a later version.\<close>

definition bracket_addr_ok :: "cstr \<Rightarrow> nat" where
  "bracket_addr_ok s =
     (if length s < 3 \<or> hd s \<noteq> 91 \<or> last s \<noteq> 93 then 0
      else
        (let inner = butlast (tl s)
         in if hd inner = 118 then (if ipvfuture_ok (tl inner) then 2 else 0)
            else if length inner \<ge> 64 then 0
            else if evutil_inet_pton6 inner \<noteq> None then 1 else 0))"

text \<open>\<open>rest\<close> is what follows the authority in the string.\<close>

definition host_ok :: "cstr \<Rightarrow> cstr \<Rightarrow> bool" where
  "host_ok h rest \<longleftrightarrow>
     (if cur (h @ rest) = 91 \<and> length h \<ge> 2 \<and> last h = 93 then bracket_addr_ok h \<noteq> 0 else regname_ok (length h) (h @ rest))"

definition split_userinfo :: "cstr \<Rightarrow> cstr option \<times> cstr" where
  "split_userinfo s = (case split_at 64 s of Some (u, h) \<Rightarrow> (Some u, h) | None \<Rightarrow> (None, s))"

text \<open>The host, and the digits behind a final colon if there is one.\<close>

definition split_port :: "cstr \<Rightarrow> cstr \<times> cstr option" where
  "split_port s =
     (let n = length s - length (takeWhile EVUTIL_ISDIGIT (rev s))
      in if n > 0 \<and> s ! (n - 1) = 58 then (take (n - 1) s, Some (drop n s)) else (s, None))"

definition parse_authority :: "evhttp_uri \<Rightarrow> cstr \<Rightarrow> cstr \<Rightarrow> evhttp_uri option" where
  "parse_authority uri s rest =
     (if s = [] then Some (uri\<lparr>host := Some []\<rparr>)
      else
        (let (u, hp) = split_userinfo s; (h, p) = split_port hp;
             portnum = (case p of None \<Rightarrow> port uri | Some [] \<Rightarrow> -1 | Some ds \<Rightarrow> parse_port ds);
             after = (case p of None \<Rightarrow> rest | Some ds \<Rightarrow> 58 # ds @ rest)
         in if (case u of Some i \<Rightarrow> \<not> userinfo_ok i | None \<Rightarrow> False) then None
            else if (case p of Some (d # ds) \<Rightarrow> portnum < 0 | _ \<Rightarrow> False) then None
            else if \<not> host_ok h after then None
            else Some (uri\<lparr>userinfo := (case u of Some i \<Rightarrow> Some i | None \<Rightarrow> userinfo uri), port := portnum, host := Some h\<rparr>)))"

datatype uri_part = PART_PATH | PART_QUERY | PART_FRAGMENT

text \<open>How many characters belong to the part.\<close>

fun conformant_end :: "uri_part \<Rightarrow> cstr \<Rightarrow> nat" where
  "conformant_end part [] = 0"
| "conformant_end part (c # s) =
     (if CHAR_IS_UNRESERVED c \<or> c \<in> set SUBDELIMS \<or> c = 58 \<or> c = 64 \<or> c = 47 then Suc (conformant_end part s)
      else
        (case s of
           a # b # r \<Rightarrow>
             if c = 37 \<and> EVUTIL_ISXDIGIT a \<and> EVUTIL_ISXDIGIT b then 3 + conformant_end part r
             else if c = 63 \<and> part \<noteq> PART_PATH then Suc (conformant_end part s) else 0
         | _ \<Rightarrow> if c = 63 \<and> part \<noteq> PART_PATH then Suc (conformant_end part s) else 0))"

definition end_of_path :: "cstr \<Rightarrow> uri_part \<Rightarrow> u32 \<Rightarrow> nat" where
  "end_of_path s part flags =
     (if flags AND EVHTTP_URI_NONCONFORMANT \<noteq> 0
      then (case part of
              PART_PATH \<Rightarrow> length (takeWhile (\<lambda>c. c \<noteq> 35 \<and> c \<noteq> 63) s)
            | PART_QUERY \<Rightarrow> length (takeWhile (\<lambda>c. c \<noteq> 35) s)
            | PART_FRAGMENT \<Rightarrow> length s)
      else conformant_end part s)"

definition end_of_authority :: "cstr \<Rightarrow> nat" where
  "end_of_authority s = length (takeWhile (\<lambda>c. c \<noteq> 63 \<and> c \<noteq> 35 \<and> c \<noteq> 47) s)"

fun path_matches_noscheme :: "cstr \<Rightarrow> bool" where
  "path_matches_noscheme [] \<longleftrightarrow> True"
| "path_matches_noscheme (c # s) \<longleftrightarrow> (if c = 58 then False else if c = 47 then True else path_matches_noscheme s)"

definition split_scheme :: "cstr \<Rightarrow> cstr option \<times> cstr" where
  "split_scheme s = (case split_at 58 s of Some (a, r) \<Rightarrow> if scheme_ok a then (Some a, r) else (None, s) | None \<Rightarrow> (None, s))"

text \<open>An optional part that begins with the character \<open>c\<close>, and what follows it.\<close>

definition take_part :: "u8 \<Rightarrow> uri_part \<Rightarrow> u32 \<Rightarrow> cstr \<Rightarrow> cstr option \<times> cstr" where
  "take_part c part flags s =
     (if cur s = c then (let n = end_of_path (tl s) part flags in (Some (take n (tl s)), drop n (tl s))) else (None, s))"

definition evhttp_uri_parse_with_flags :: "cstr \<Rightarrow> u32 \<Rightarrow> evhttp_uri option" where
  "evhttp_uri_parse_with_flags source_uri flags =
     (let (sch, s1) = split_scheme source_uri;
          uri = evhttp_uri_new\<lparr>uri_flags := flags, scheme := sch\<rparr>;
          got_authority = (take 2 s1 = [47, 47]);
          n = end_of_authority (drop 2 s1);
          auth = (if got_authority then parse_authority uri (take n (drop 2 s1)) (drop n (drop 2 s1)) else Some uri);
          s2 = (if got_authority then drop n (drop 2 s1) else s1);
          k = end_of_path s2 PART_PATH flags; pth = take k s2;
          (qry, s3) = take_part 63 PART_QUERY flags (drop k s2);
          (frg, s4) = take_part 35 PART_FRAGMENT flags s3
      in case auth of
           None \<Rightarrow> None
         | Some uri1 \<Rightarrow>
             if s4 \<noteq> [] then None
             else if \<not> got_authority \<and> take 2 pth = [47, 47] then None
             else if got_authority \<and> cur pth \<noteq> 47 \<and> pth \<noteq> [] then None
             else if sch = None \<and> \<not> path_matches_noscheme pth then None
             else Some (uri1\<lparr>path := Some pth, query := qry, fragment := frg\<rparr>))"

definition evhttp_uri_parse :: "cstr \<Rightarrow> evhttp_uri option" where
  "evhttp_uri_parse source_uri = evhttp_uri_parse_with_flags source_uri 0"

definition evhttp_uri_parse_authority :: "cstr \<Rightarrow> evhttp_uri option" where
  "evhttp_uri_parse_authority s =
     (let n = end_of_authority s
      in map_option (\<lambda>u. u\<lparr>path := Some []\<rparr>) (parse_authority evhttp_uri_new (take n s) (drop n s)))"

section \<open>Joining and setting parts\<close>

definition opt_text :: "cstr \<Rightarrow> cstr option \<Rightarrow> cstr \<Rightarrow> cstr" where
  "opt_text pre s post = (case s of None \<Rightarrow> [] | Some t \<Rightarrow> pre @ t @ post)"

definition authority_text :: "evhttp_uri \<Rightarrow> cstr" where
  "authority_text uri =
     (case host uri of
        None \<Rightarrow> []
      | Some h \<Rightarrow> [47, 47] @ opt_text [] (userinfo uri) [64] @ h @ (if port uri \<ge> 0 then 58 # fmt_d (nat (port uri)) else []))"

definition evhttp_uri_join :: "evhttp_uri \<Rightarrow> nat \<Rightarrow> cstr option" where
  "evhttp_uri_join uri limit =
     (if limit = 0 then None
      else if host uri \<noteq> None \<and> (case path uri of Some (c # _) \<Rightarrow> c \<noteq> 47 | _ \<Rightarrow> False) then None
      else
        (let s = opt_text [] (scheme uri) [58] @ authority_text uri @ opt_text [] (path uri) [] @
               opt_text [63] (query uri) [] @ opt_text [35] (fragment uri) []
         in if length s + 1 > limit then None else Some s))"

definition evhttp_uri_set_scheme :: "evhttp_uri \<Rightarrow> cstr option \<Rightarrow> evhttp_uri option" where
  "evhttp_uri_set_scheme uri s = (case s of Some x \<Rightarrow> if \<not> scheme_ok x then None else Some (uri\<lparr>scheme := s\<rparr>) | None \<Rightarrow> Some (uri\<lparr>scheme := s\<rparr>))"

definition evhttp_uri_set_userinfo :: "evhttp_uri \<Rightarrow> cstr option \<Rightarrow> evhttp_uri option" where
  "evhttp_uri_set_userinfo uri s = (case s of Some x \<Rightarrow> if \<not> userinfo_ok x then None else Some (uri\<lparr>userinfo := s\<rparr>) | None \<Rightarrow> Some (uri\<lparr>userinfo := s\<rparr>))"

definition evhttp_uri_set_host :: "evhttp_uri \<Rightarrow> cstr option \<Rightarrow> evhttp_uri option" where
  "evhttp_uri_set_host uri s =
     (case s of
        Some x \<Rightarrow> if (if cur x = 91 then bracket_addr_ok x \<noteq> 0 else regname_ok (length x) x) then Some (uri\<lparr>host := s\<rparr>) else None
      | None \<Rightarrow> Some (uri\<lparr>host := s\<rparr>))"

definition evhttp_uri_set_port :: "evhttp_uri \<Rightarrow> int \<Rightarrow> evhttp_uri option" where
  "evhttp_uri_set_port uri p = (if p < -1 then None else Some (uri\<lparr>port := p\<rparr>))"

definition evhttp_uri_set_path :: "evhttp_uri \<Rightarrow> cstr option \<Rightarrow> evhttp_uri option" where
  "evhttp_uri_set_path uri s =
     (if (case s of Some x \<Rightarrow> end_of_path x PART_PATH (uri_flags uri) \<noteq> length x | None \<Rightarrow> False) then None else Some (uri\<lparr>path := s\<rparr>))"

definition evhttp_uri_set_query :: "evhttp_uri \<Rightarrow> cstr option \<Rightarrow> evhttp_uri option" where
  "evhttp_uri_set_query uri s =
     (if (case s of Some x \<Rightarrow> end_of_path x PART_QUERY (uri_flags uri) \<noteq> length x | None \<Rightarrow> False) then None else Some (uri\<lparr>query := s\<rparr>))"

definition evhttp_uri_set_fragment :: "evhttp_uri \<Rightarrow> cstr option \<Rightarrow> evhttp_uri option" where
  "evhttp_uri_set_fragment uri s =
     (if (case s of Some x \<Rightarrow> end_of_path x PART_FRAGMENT (uri_flags uri) \<noteq> length x | None \<Rightarrow> False) then None else Some (uri\<lparr>fragment := s\<rparr>))"

section \<open>Encoding and decoding are inverse\<close>

lemma CHAR_IS_UNRESERVED_iff:
  "CHAR_IS_UNRESERVED c \<longleftrightarrow> EVUTIL_ISALNUM c \<or> c = 45 \<or> c = 46 \<or> c = 95 \<or> c = 126"
  unfolding EVUTIL_ISALNUM_iff by (rule list_all_chars) code_simp

lemma unreserved_plain: "CHAR_IS_UNRESERVED c \<Longrightarrow> c \<notin> {0, 35, 37, 38, 43, 47, 58, 61, 63, 64, 91}"
  by (auto simp: CHAR_IS_UNRESERVED_iff EVUTIL_ISALNUM_iff)

lemma unat_hex_upper: "d < 16 \<Longrightarrow> unat (hex_upper d) = (if d < 10 then 48 + d else 55 + d)"
proof -
  have "unat (of_nat n :: u8) = n" if "n < 256" for n using that by (simp add: unat_of_nat take_bit_eq_mod)
  from this [of "48 + d"] this [of "55 + d"] show "d < 16 \<Longrightarrow> unat (hex_upper d) = (if d < 10 then 48 + d else 55 + d)"
    by (simp add: hex_upper_def del: of_nat_add)
qed

lemma hex_upper_class: "d < 16 \<Longrightarrow> EVUTIL_ISXDIGIT (hex_upper d)" "d < 16 \<Longrightarrow> char_val (hex_upper d) = d"
  by (auto simp: EVUTIL_ISXDIGIT_iff char_val_def word_le_nat_alt unat_hex_upper)

lemma hex_pair_upper: "hex_pair (hex_upper (unat c div 16)) (hex_upper (unat c mod 16)) = c"
proof -
  have "unat c div 16 < 16" using unat_char_less [of c] by simp
  then show ?thesis by (simp add: hex_pair_def num_val_def hex_upper_class)
qed

lemma encode_char_hex:
  "\<not> CHAR_IS_UNRESERVED c \<Longrightarrow> \<not> (c = 32 \<and> sp) \<Longrightarrow> \<exists>a b. encode_char sp c = [37, a, b] \<and> EVUTIL_ISXDIGIT a \<and> EVUTIL_ISXDIGIT b \<and> hex_pair a b = c"
  using unat_char_less [of c] by (auto simp: encode_char_def hex_upper_class hex_pair_upper)

lemma decode_encode_char:
  assumes "sp \<longrightarrow> dp"
  shows "decode_loop ctl dp (encode_char sp c @ s) = c # decode_loop ctl dp s"
proof (cases "CHAR_IS_UNRESERVED c")
  case True
  then show ?thesis using unreserved_plain [OF True] by (auto simp: encode_char_def split: list.splits)
next
  case False
  show ?thesis
  proof (cases "c = 32 \<and> sp")
    case True
    then show ?thesis using False assms by (simp add: encode_char_def)
  qed (use encode_char_hex [OF False, of sp] in auto)
qed

lemma decode_encode: "sp \<longrightarrow> dp \<Longrightarrow> decode_loop ctl dp (concat (map (encode_char sp) bs)) = bs"
  by (induction bs) (simp_all add: decode_encode_char)

definition encoded_char :: "u8 \<Rightarrow> bool" where
  "encoded_char c \<longleftrightarrow> CHAR_IS_UNRESERVED c \<or> c = 37 \<or> c = 43"

lemma xdigit_unreserved: "EVUTIL_ISXDIGIT c \<Longrightarrow> CHAR_IS_UNRESERVED c"
  unfolding CHAR_IS_UNRESERVED_iff EVUTIL_ISXDIGIT_iff EVUTIL_ISALNUM_iff word_le_nat_alt by auto

lemma encode_char_encoded: "list_all encoded_char (encode_char sp c)"
proof (cases "CHAR_IS_UNRESERVED c \<or> c = 32 \<and> sp")
  case False
  then show ?thesis using encode_char_hex [of c sp] xdigit_unreserved by (auto simp: encoded_char_def)
qed (auto simp: encode_char_def encoded_char_def)

lemma encode_encoded: "list_all encoded_char (concat (map (encode_char sp) bs))"
  by (induction bs) (simp_all add: encode_char_encoded)

lemma takeWhile_nonzero: "0 \<notin> set s \<Longrightarrow> takeWhile (\<lambda>c. c \<noteq> 0) s = s" for s :: cstr
  by (auto simp: takeWhile_eq_all_conv)

lemma encoded_no_plus: "c \<in> set (encode_char False d) \<Longrightarrow> c \<noteq> 43"
proof (cases "CHAR_IS_UNRESERVED d")
  case False
  then show "c \<in> set (encode_char False d) \<Longrightarrow> c \<noteq> 43"
    using encode_char_hex [OF False, of False] by (auto simp: EVUTIL_ISXDIGIT_iff)
qed (use unreserved_plain in \<open>auto simp: encode_char_def\<close>)

text \<open>
  C30. Decoding the encoding of any bytes, zeros included, gives the bytes back, in each of the two ways of
  encoding a blank (as a plus sign only if the decoder reads plus signs as blanks). The encoded text consists
  of unreserved characters, percent signs and plus signs only, so it can stand in any part of a URI, and the
  deprecated functions are inverse on C strings.
\<close>

theorem uriencode_uridecode:
  assumes "sp \<longrightarrow> dp"
  shows "evhttp_uridecode (evhttp_uriencode bs (int (length bs)) sp) dp = bs \<and>
     list_all encoded_char (evhttp_uriencode bs (int (length bs)) sp) \<and>
     (0 \<notin> set s \<longrightarrow> evhttp_decode_uri (evhttp_encode_uri s) = s)"
  using assms takeWhile_nonzero [of s]
  by (simp add: evhttp_uridecode_def evhttp_decode_uri_internal_def evhttp_uriencode_def decode_encode
      encode_encoded evhttp_decode_uri_def evhttp_encode_uri_def)

theorem uriencode_uridecode_witness:
  "evhttp_uriencode [97, 32, 38, 0, 255] 5 True = [97, 43, 37, 50, 54, 37, 48, 48, 37, 70, 70] \<and>
   evhttp_uridecode [97, 43, 37, 50, 54, 37, 48, 48, 37, 70, 70] True = [97, 32, 38, 0, 255]"
proof -
  have e: "evhttp_uriencode [97, 32, 38, 0, 255] 5 True = [97, 43, 37, 50, 54, 37, 48, 48, 37, 70, 70]" by code_simp
  have "evhttp_uridecode (evhttp_uriencode [97, 32, 38, 0, 255] 5 True) True = [97, 32, 38, 0, 255]"
    using uriencode_uridecode [of True True "[97, 32, 38, 0, 255]"] by simp
  with e show ?thesis by simp
qed

section \<open>Parsing takes the text apart\<close>

lemma split_at_Some: "split_at c s = Some (a, r) \<Longrightarrow> s = a @ c # r \<and> c \<notin> set a"
proof -
  assume *: "split_at c s = Some (a, r)"
  then have "c \<in> set s" by (auto simp: split_at_def split: if_splits)
  then have d: "dropWhile (\<lambda>x. x \<noteq> c) s \<noteq> []" by (auto simp: dropWhile_eq_Nil_conv)
  then have "hd (dropWhile (\<lambda>x. x \<noteq> c) s) = c" using hd_dropWhile [of "\<lambda>x. x \<noteq> c" s] by auto
  with d have "dropWhile (\<lambda>x. x \<noteq> c) s = c # tl (dropWhile (\<lambda>x. x \<noteq> c) s)" by (metis list.collapse)
  then have "s = takeWhile (\<lambda>x. x \<noteq> c) s @ c # tl (dropWhile (\<lambda>x. x \<noteq> c) s)"
    by (metis takeWhile_dropWhile_id)
  with * show ?thesis by (auto simp: split_at_def split: if_splits dest: set_takeWhileD)
qed

lemma opt_text_simps [simp]: "opt_text pre None post = []" "opt_text pre (Some t) post = pre @ t @ post"
  by (simp_all add: opt_text_def)

lemma split_scheme_text:
  "split_scheme s = (sch, r) \<Longrightarrow> s = opt_text [] sch [58] @ r \<and> (sch = Some a \<longrightarrow> scheme_ok a)"
  by (auto simp: split_scheme_def split: option.splits if_splits dest!: split_at_Some)

lemma split_userinfo_text:
  "split_userinfo s = (u, h) \<Longrightarrow> s = opt_text [] u [64] @ h"
  by (auto simp: split_userinfo_def split: option.splits dest!: split_at_Some)

lemma take_part_text:
  "take_part c part flags s = (q, r) \<Longrightarrow> c \<noteq> 0 \<Longrightarrow> s = opt_text [c] q [] @ r"
  by (cases s) (auto simp: take_part_def Let_def cur_def split: if_splits)

lemma num_val_less: "list_all EVUTIL_ISDIGIT ds \<Longrightarrow> num_val 10 ds < 10 ^ length ds"
proof (induction ds rule: rev_induct)
  case (snoc c ds)
  have "char_val c < 10" using snoc.prems by (auto simp: EVUTIL_ISDIGIT_iff char_val_def word_le_nat_alt)
  then show ?case using snoc by (simp add: num_val_append)
qed (simp add: num_val_def)

lemma digit_val: "EVUTIL_ISDIGIT c \<Longrightarrow> uint c - 48 = int (char_val c)"
proof -
  assume "EVUTIL_ISDIGIT c"
  then have "48 \<le> unat c" "c \<le> 57" by (auto simp: EVUTIL_ISDIGIT_iff word_le_nat_alt)
  moreover have "uint c = int (unat c)" by (rule uint_nat)
  ultimately show "uint c - 48 = int (char_val c)" by (simp only: char_val_def if_True of_nat_diff of_nat_numeral)
qed

lemma parse_port_loop_eq:
  assumes "list_all EVUTIL_ISDIGIT ds" "0 \<le> parse_port_loop (int n) ds" "int n \<le> 65535"
  shows "parse_port_loop (int n) ds = int (foldl (\<lambda>n c. n * 10 + char_val c) n ds) \<and> parse_port_loop (int n) ds \<le> 65535"
  using assms
proof (induction ds arbitrary: n)
  case (Cons c ds)
  have p: "int n * 10 + (uint c - 48) = int (n * 10 + char_val c)" using Cons.prems(1) by (simp add: digit_val)
  show ?case using Cons.prems Cons.IH [of "n * 10 + char_val c"]
    by (simp add: p Let_def split: if_splits)
qed simp

lemma parse_port_eq:
  "list_all EVUTIL_ISDIGIT ds \<Longrightarrow> 0 \<le> parse_port ds \<Longrightarrow> parse_port ds = int (num_val 10 ds) \<and> parse_port ds \<le> 65535"
  using parse_port_loop_eq [of ds 0] by (simp add: parse_port_def num_val_def)

lemma split_port_text:
  assumes "split_port s = (h, p)"
  shows "s = h @ (case p of None \<Rightarrow> [] | Some ds \<Rightarrow> 58 # ds)" "p = Some ds \<Longrightarrow> list_all EVUTIL_ISDIGIT ds"
proof -
  define n where "n = length s - length (takeWhile EVUTIL_ISDIGIT (rev s))"
  have le: "length (takeWhile EVUTIL_ISDIGIT (rev s)) \<le> length s" by (metis length_rev length_takeWhile_le)
  have r: "rev s = takeWhile EVUTIL_ISDIGIT (rev s) @ dropWhile EVUTIL_ISDIGIT (rev s)" by simp
  have "s = rev (dropWhile EVUTIL_ISDIGIT (rev s)) @ rev (takeWhile EVUTIL_ISDIGIT (rev s))"
    by (metis r rev_append rev_rev_ident)
  then have d: "drop n s = rev (takeWhile EVUTIL_ISDIGIT (rev s))"
    unfolding n_def by (metis append_eq_conv_conj le length_rev length_append add_diff_cancel_right')
  then have digits: "list_all EVUTIL_ISDIGIT (drop n s)" by (auto simp: list_all_iff dest: set_takeWhileD)
  have "s = take (n - 1) s @ 58 # drop n s" if "0 < n" "s ! (n - 1) = 58"
  proof -
    have "n - 1 < length s" using that(1) le unfolding n_def by linarith
    from id_take_nth_drop [OF this] that show ?thesis by simp
  qed
  with assms show "s = h @ (case p of None \<Rightarrow> [] | Some ds \<Rightarrow> 58 # ds)"
    by (auto simp: split_port_def Let_def n_def [symmetric] split: if_splits)
  show "p = Some ds \<Longrightarrow> list_all EVUTIL_ISDIGIT ds"
    using assms digits by (auto simp: split_port_def Let_def n_def [symmetric] split: if_splits)
qed

text \<open>The text of a port in a source, and the one that is printed for it.\<close>

definition port_source :: "cstr \<Rightarrow> int \<Rightarrow> bool" where
  "port_source t p \<longleftrightarrow> p = -1 \<and> (t = [] \<or> t = [58]) \<or>
     (\<exists>ds. t = 58 # ds \<and> ds \<noteq> [] \<and> list_all EVUTIL_ISDIGIT ds \<and> p = int (num_val 10 ds) \<and> p \<le> 65535)"

definition port_text :: "int \<Rightarrow> cstr" where
  "port_text p = (if p \<ge> 0 then 58 # fmt_d (nat p) else [])"

lemma port_text_shorter: "port_source t p \<Longrightarrow> length (port_text p) \<le> length t"
proof -
  have "length (fmt_d (num_val 10 ds)) \<le> length ds" if "list_all EVUTIL_ISDIGIT ds" "ds \<noteq> []" for ds
    using length_digits [OF _ num_val_less [OF that(1)]] that(2) by simp
  then show "port_source t p \<Longrightarrow> length (port_text p) \<le> length t"
    by (auto simp: port_source_def port_text_def)
qed

lemma parse_authority_text:
  assumes "parse_authority uri s rest = Some u" "userinfo uri = None" "port uri = -1"
  obtains h t where "s = opt_text [] (userinfo u) [64] @ h @ t" "port_source t (port u)"
    "u = uri\<lparr>userinfo := userinfo u, port := port u, host := Some h\<rparr>"
proof (cases "s = []")
  case True
  then show thesis using assms by (intro that [of "[]" "[]"]) (auto simp: parse_authority_def port_source_def)
next
  case False
  obtain i hp where i: "split_userinfo s = (i, hp)" by force
  obtain h p where h: "split_port hp = (h, p)" by force
  have u: "u = uri\<lparr>userinfo := i, port := (case p of None \<Rightarrow> -1 | Some [] \<Rightarrow> -1 | Some ds \<Rightarrow> parse_port ds), host := Some h\<rparr>"
    "p = Some (d # ds) \<Longrightarrow> 0 \<le> parse_port (d # ds)" for d ds
    using assms False by (auto simp: parse_authority_def i h Let_def split: if_splits option.splits list.splits)
  have "port_source (case p of None \<Rightarrow> [] | Some ds \<Rightarrow> 58 # ds) (port u)"
    using u split_port_text(2) [OF h] parse_port_eq
    by (auto simp: port_source_def split: option.splits list.splits)
  then show thesis
    using split_userinfo_text [OF i] split_port_text(1) [OF h] u(1) by (intro that) auto
qed

text \<open>What stands in front of the port, and behind it.\<close>

definition uri_front :: "evhttp_uri \<Rightarrow> cstr" where
  "uri_front u = opt_text [] (scheme u) [58] @
     (case host u of None \<Rightarrow> [] | Some h \<Rightarrow> [47, 47] @ opt_text [] (userinfo u) [64] @ h)"

definition uri_back :: "evhttp_uri \<Rightarrow> cstr" where
  "uri_back u = opt_text [] (path u) [] @ opt_text [63] (query u) [] @ opt_text [35] (fragment u) []"

lemma uri_join_eq:
  assumes "host u \<noteq> None \<longrightarrow> (\<exists>p. path u = Some p \<and> (p = [] \<or> cur p = 47))" "host u = None \<longrightarrow> port u = -1"
    "length (uri_front u @ port_text (port u) @ uri_back u) < limit"
  shows "evhttp_uri_join u limit = Some (uri_front u @ port_text (port u) @ uri_back u)"
  using assms
  by (cases "host u") (auto simp: evhttp_uri_join_def authority_text_def uri_front_def uri_back_def port_text_def Let_def split: list.splits)

text \<open>The steps of the parser: scheme, authority, path, query, fragment, checks.\<close>

lemma uri_parse_steps:
  assumes "evhttp_uri_parse_with_flags s flags = Some u"
  obtains sch s1 uri got n s2 k qry s3 frg uri1 where
    "split_scheme s = (sch, s1)" "uri = evhttp_uri_new\<lparr>uri_flags := flags, scheme := sch\<rparr>" "got \<longleftrightarrow> take 2 s1 = [47, 47]"
    "n = end_of_authority (drop 2 s1)" "s2 = (if got then drop n (drop 2 s1) else s1)" "k = end_of_path s2 PART_PATH flags"
    "take_part 63 PART_QUERY flags (drop k s2) = (qry, s3)" "take_part 35 PART_FRAGMENT flags s3 = (frg, [])"
    "(if got then parse_authority uri (take n (drop 2 s1)) (drop n (drop 2 s1)) else Some uri) = Some uri1"
    "u = uri1\<lparr>path := Some (take k s2), query := qry, fragment := frg\<rparr>"
    "\<not> (\<not> got \<and> take 2 (take k s2) = [47, 47])" "got \<longrightarrow> take k s2 = [] \<or> cur (take k s2) = 47"
    "sch = None \<longrightarrow> path_matches_noscheme (take k s2)"
proof -
  obtain sch s1 where sch: "split_scheme s = (sch, s1)" by force
  define uri where "uri = evhttp_uri_new\<lparr>uri_flags := flags, scheme := sch\<rparr>"
  define n where "n = end_of_authority (drop 2 s1)"
  define got where "got \<longleftrightarrow> take 2 s1 = [47, 47]"
  define s2 where "s2 = (if got then drop n (drop 2 s1) else s1)"
  define k where "k = end_of_path s2 PART_PATH flags"
  obtain qry s3 where q: "take_part 63 PART_QUERY flags (drop k s2) = (qry, s3)" by force
  obtain frg s4 where f: "take_part 35 PART_FRAGMENT flags s3 = (frg, s4)" by force
  note parsed = assms [unfolded evhttp_uri_parse_with_flags_def Let_def sch prod.case, folded uri_def, folded got_def, folded n_def,
      folded s2_def, folded k_def, unfolded q prod.case, unfolded f prod.case]
  obtain uri1 where uri1: "(if got then parse_authority uri (take n (drop 2 s1)) (drop n (drop 2 s1)) else Some uri) = Some uri1"
    using parsed by (auto split: option.splits)
  from parsed have ok: "s4 = []" "\<not> (\<not> got \<and> take 2 (take k s2) = [47, 47])" "got \<longrightarrow> take k s2 = [] \<or> cur (take k s2) = 47"
    "sch = None \<longrightarrow> path_matches_noscheme (take k s2)" "u = uri1\<lparr>path := Some (take k s2), query := qry, fragment := frg\<rparr>"
    unfolding uri1 by (auto split: if_splits)
  show thesis by (rule that [OF sch uri_def got_def n_def s2_def k_def q f [unfolded ok(1)] uri1 ok(5,2-4)])
qed

lemma uri_parse_text:
  assumes "evhttp_uri_parse_with_flags s flags = Some u"
  obtains t p where "s = uri_front u @ t @ uri_back u" "port_source t (port u)" "path u = Some p"
    "host u = None \<longrightarrow> port u = -1 \<and> userinfo u = None \<and> t = []" "host u \<noteq> None \<longrightarrow> p = [] \<or> cur p = 47"
proof (rule uri_parse_steps [OF assms], goal_cases)
  case (1 sch s1 uri got n s2 k qry s3 frg uri1)
  note that = 1(1) and sch = 1(2) and got_def = 1(4) and s2_def = 1(6) and q = 1(8) and f = 1(9) and uri1 = 1(10) and u = 1(11,13)
  have uri: "userinfo uri = None" "port uri = -1" "host uri = None" "scheme uri = sch" unfolding 1(3) by (simp_all add: evhttp_uri_new_def)
  note s = split_scheme_text [OF sch]
  have "drop k s2 = opt_text [63] qry [] @ s3" using take_part_text [OF q] by simp
  moreover have "s3 = opt_text [35] frg []" using take_part_text [OF f] by simp
  ultimately have s2: "s2 = uri_back u" unfolding uri_back_def using append_take_drop_id [of k s2] by (simp add: u(1))
  show thesis
  proof (cases got)
    case False
    then have "u = uri\<lparr>path := Some (take k s2), query := qry, fragment := frg\<rparr>" "s1 = uri_back u"
      using uri1 u(1) s2 by (auto simp: s2_def)
    then show thesis using s uri by (intro that [of "[]" "take k s2"]) (auto simp: uri_front_def port_source_def)
  next
    case True
    then have "parse_authority uri (take n (drop 2 s1)) (drop n (drop 2 s1)) = Some uri1" using uri1 by simp
    from parse_authority_text [OF this uri(1,2)] obtain h t where
      a: "take n (drop 2 s1) = opt_text [] (userinfo uri1) [64] @ h @ t" "port_source t (port uri1)"
        "uri1 = uri\<lparr>userinfo := userinfo uri1, port := port uri1, host := Some h\<rparr>" by blast
    have "s1 = take 2 s1 @ take n (drop 2 s1) @ drop n (drop 2 s1)" by (simp only: append_take_drop_id)
    then have "s1 = [47, 47] @ take n (drop 2 s1) @ s2" using True unfolding s2_def by (simp only: got_def if_True simp_thms)
    then have s1: "s1 = [47, 47] @ (opt_text [] (userinfo uri1) [64] @ h @ t) @ uri_back u" unfolding a(1) s2 .
    have uri1: "host uri1 = Some h" "scheme uri1 = sch"
      using arg_cong [OF a(3), of host] arg_cong [OF a(3), of scheme] uri(4) by simp_all
    have "uri_front u = opt_text [] sch [58] @ [47, 47] @ opt_text [] (userinfo uri1) [64] @ h"
      by (simp add: uri_front_def u(1) uri1)
    moreover have "s = opt_text [] sch [58] @ s1" using s by blast
    ultimately have "s = uri_front u @ t @ uri_back u" unfolding s1 by simp
    then show thesis by (rule that) (use a(2) u(2) True in \<open>auto simp: u(1) uri1\<close>)
  qed
qed

text \<open>
  Joining the parts of a parsed URI gives the source back, up to the spelling of the port: its text is
  replaced by the decimal number, or removed if it has no digits. The result is never longer than the source, so a
  buffer that holds the source is large enough.
\<close>

theorem uri_parse_join:
  assumes "evhttp_uri_parse_with_flags s flags = Some u"
  shows "\<exists>t. s = uri_front u @ t @ uri_back u \<and> port_source t (port u) \<and>
     (\<forall>limit > length s. evhttp_uri_join u limit = Some (uri_front u @ port_text (port u) @ uri_back u))"
proof -
  from uri_parse_text [OF assms] obtain t p where
    t: "s = uri_front u @ t @ uri_back u" "port_source t (port u)" "path u = Some p"
      "host u = None \<longrightarrow> port u = -1 \<and> userinfo u = None \<and> t = []" "host u \<noteq> None \<longrightarrow> p = [] \<or> cur p = 47" .
  have "evhttp_uri_join u limit = Some (uri_front u @ port_text (port u) @ uri_back u)" if "length s < limit" for limit
    using t port_text_shorter [OF t(2)] that by (intro uri_join_eq) auto
  with t(1,2) show ?thesis by blast
qed

definition sample_uri :: cstr where
  "sample_uri = map of_char ''h://a:08/?b''"

lemmas uri_eval = evhttp_uri_parse_with_flags_def split_scheme_def split_at_def scheme_ok_def Let_def
  parse_authority_def split_userinfo_def split_port_def host_ok_def take_part_def end_of_path_def end_of_authority_def
  evhttp_uri_new_def parse_port_def evhttp_uri_join_def authority_text_def SUBDELIMS_def
  CHAR_IS_UNRESERVED_iff EVUTIL_ISALNUM_iff EVUTIL_ISALPHA_iff EVUTIL_ISDIGIT_iff

lemma sample_uri_parsed:
  "evhttp_uri_parse_with_flags sample_uri 0 = Some \<lparr>uri_flags = 0, scheme = Some [104], userinfo = None, host = Some [97],
     port = 8, path = Some [47], query = Some [98], fragment = None\<rparr>"
  by (simp add: sample_uri_def uri_eval)

theorem uri_parse_join_witness:
  "\<exists>u. evhttp_uri_parse sample_uri = Some u \<and> port u = 8 \<and> evhttp_uri_join u 20 = Some (map of_char ''h://a:8/?b'')"
proof -
  have len: "length sample_uri < 20" by (simp add: sample_uri_def)
  have "port_text 8 = [58, 56]" by code_simp
  then show ?thesis using uri_parse_join [OF sample_uri_parsed] len sample_uri_parsed
    by (auto simp: evhttp_uri_parse_def uri_front_def uri_back_def)
qed


section \<open>Well-formed URIs\<close>

text \<open>The characters that end an authority or a user name.\<close>

abbreviation plain :: "u8 \<Rightarrow> bool" where "plain c \<equiv> c \<notin> {35, 47, 63, 64}"

lemma plain_chars:
  "EVUTIL_ISXDIGIT c \<Longrightarrow> plain c" "EVUTIL_ISDIGIT c \<Longrightarrow> plain c" "EVUTIL_ISSPACE c \<Longrightarrow> plain c"
  "CHAR_IS_UNRESERVED c \<Longrightarrow> plain c" "c \<in> set SUBDELIMS \<Longrightarrow> plain c"
  by (auto simp: EVUTIL_ISXDIGIT_iff EVUTIL_ISDIGIT_iff EVUTIL_ISSPACE_iff EVUTIL_ISALNUM_iff CHAR_IS_UNRESERVED_iff SUBDELIMS_def)

lemma scan_u_plain: "scan_u s = Some (n, r) \<Longrightarrow> \<exists>front. s = front @ r \<and> list_all plain front"
proof -
  assume *: "scan_u s = Some (n, r)"
  define s1 where "s1 = dropWhile EVUTIL_ISSPACE s"
  define s2 where "s2 = (if cur s1 = 43 \<or> cur s1 = 45 then tl s1 else s1)"
  have "r = dropWhile EVUTIL_ISDIGIT s2" using * by (auto simp: scan_u_def Let_def s1_def s2_def split: if_splits)
  then have "s2 = takeWhile EVUTIL_ISDIGIT s2 @ r" by simp
  moreover have "s1 = (if cur s1 = 43 \<or> cur s1 = 45 then [cur s1] else []) @ s2" unfolding s2_def by (cases s1) auto
  moreover have "s = takeWhile EVUTIL_ISSPACE s @ s1" by (simp add: s1_def)
  ultimately have "s = (takeWhile EVUTIL_ISSPACE s @ (if cur s1 = 43 \<or> cur s1 = 45 then [cur s1] else []) @ takeWhile EVUTIL_ISDIGIT s2) @ r"
    by (metis append.assoc)
  moreover have "list_all plain (takeWhile EVUTIL_ISSPACE s @ (if cur s1 = 43 \<or> cur s1 = 45 then [cur s1] else []) @ takeWhile EVUTIL_ISDIGIT s2)"
    using plain_chars(2,3) by (auto simp: list_all_iff dest!: set_takeWhileD)
  ultimately show ?thesis by blast
qed

lemma scan_quad_plain: "scan_quad s = Some q \<Longrightarrow> list_all plain s"
proof -
  have e: "expect 46 t = Some r \<Longrightarrow> t = 46 # r" for t r by (auto simp: expect_def split: list.splits if_splits)
  assume "scan_quad s = Some q"
  then obtain a s1 t1 b s2 t2 c s3 t3 d where "scan_u s = Some (a, s1)" "expect 46 s1 = Some t1" "scan_u t1 = Some (b, s2)"
    "expect 46 s2 = Some t2" "scan_u t2 = Some (c, s3)" "expect 46 s3 = Some t3" "scan_u t3 = Some (d, [])"
    by (auto simp: scan_quad_def bind_eq_Some_conv split: if_splits)
  then show ?thesis by (auto dest!: e scan_u_plain)
qed

lemma strtol16_plain: "strtol16 s = (r, k) \<Longrightarrow> list_all plain (take k s)"
proof -
  assume *: "strtol16 s = (r, k)"
  define skip :: nat where "skip = (case s of
      a # b # c # _ \<Rightarrow> if a = 48 \<and> (b = 120 \<or> b = 88) \<and> EVUTIL_ISXDIGIT c then 2 else 0 | _ \<Rightarrow> 0)"
  have k: "k = skip + length (takeWhile EVUTIL_ISXDIGIT (drop skip s))"
    using * by (simp add: strtol16_def Let_def skip_def)
  have skip: "skip = 0 \<or> skip = 2 \<and> (\<exists>b t. s = 48 # b # t \<and> (b = 120 \<or> b = 88))"
    by (auto simp: skip_def split: list.splits)
  have "take k s = take skip s @ takeWhile EVUTIL_ISXDIGIT (drop skip s)"
    unfolding k take_add takeWhile_eq_take [symmetric] ..
  moreover have "list_all plain (take skip s)" using skip by auto
  ultimately show ?thesis using plain_chars(1) by (auto simp: list_all_iff dest: set_takeWhileD)
qed

lemma plain_step:
  assumes "list_all plain (take k s)" "k < n \<Longrightarrow> plain (cur (drop k s)) \<and> list_all plain (take (n - Suc k) (drop (Suc k) s))"
  shows "list_all plain (take n s)"
proof (cases "k < n")
  case False
  then have "take n s = take n (take k s)" by simp
  then show ?thesis using assms(1) by (metis in_set_takeD list_all_iff)
next
  case True
  define m where "m = n - Suc k"
  with True have m: "n = k + Suc m" by simp
  have "list_all plain (take (Suc m) (drop k s))"
  proof (cases "drop k s")
    case (Cons c t)
    then have "drop (Suc k) s = t" by (metis drop_Suc list.sel(3) tl_drop)
    then show ?thesis using assms(2) m Cons by (simp add: list_all_iff)
  qed simp
  then show ?thesis using assms(1) unfolding m take_add by (simp only: list_all_append)
qed

lemma pton6_loop_plain: "pton6_loop src n ws gap = Some r \<Longrightarrow> list_all plain (take (nat n) src)"
proof (induction src n ws gap rule: pton6_loop.induct)
  case (1 src n ws gap)
  have step: "list_all plain (take (nat n) src)"
    if "list_all plain (take k src)" "plain (cur (drop k src)) \<or> int k = n" "list_all plain (take (nat (n - int k - 1)) (drop (Suc k) src))" for k
  proof (rule plain_step [OF that(1)])
    assume "k < nat n"
    then have "nat (n - int k - 1) = nat n - Suc k" "int k \<noteq> n" by linarith+
    then show "plain (cur (drop k src)) \<and> list_all plain (take (nat n - Suc k) (drop (Suc k) src))" using that(2,3) by simp
  qed
  consider "n \<le> 0" | "0 < n" "EVUTIL_ISXDIGIT (cur src)" | "0 < n" "cur src = 58" "ws \<noteq> []" "gap = -1" "\<not> EVUTIL_ISXDIGIT (cur src)"
    | "0 < n" "cur src = 58" "ws = []" "cur (drop 1 src) = 58" "gap = -1" "\<not> EVUTIL_ISXDIGIT (cur src)"
    using 1(4) by (subst (asm) pton6_loop.simps) (auto split: if_splits)
  then show ?case
  proof cases
    case 2
    obtain v k where vk: "strtol16 src = (v, k)" by force
    have "\<not> length ws > 7" "\<not> (k > 4 \<or> k = 0 \<or> v > 65536)" "\<not> (cur (drop k src) \<noteq> 58 \<and> int k \<noteq> n)"
      "pton6_loop (drop 1 (drop k src)) (n - int k - 1) (ws @ [of_nat v]) gap = Some r"
      using 1(4) 2 by (subst (asm) pton6_loop.simps; simp add: vk Let_def split: if_splits)+
    note c = this
    have "list_all plain (take (nat (n - int k - 1)) (drop 1 (drop k src)))"
      using 1(1) [OF _ c(1) 2(2) vk [symmetric] refl refl c(2,3) c(4)] 2(1) by simp
    then show ?thesis using strtol16_plain [OF vk] c(3) by (intro step [of k]) auto
  next
    case 3
    then have "\<not> length ws > 7" "pton6_loop (drop 1 src) (n - 1) ws (int (length ws)) = Some r"
      using 1(4) by (subst (asm) pton6_loop.simps; simp split: if_splits)+
    then have "list_all plain (take (nat (n - 1)) (drop 1 src))" using 1(2) 3 by simp
    then show ?thesis using 3(2) by (intro step [of 0]) auto
  next
    case 4
    then have "pton6_loop (drop 2 src) (n - 2) ws 0 = Some r"
      using 1(4) by (subst (asm) pton6_loop.simps; simp split: if_splits)+
    then have "list_all plain (take (nat (n - 2)) (drop 2 src))" using 1(3) 4 by simp
    moreover have "list_all plain (take 1 src)" using 4(2) by (cases src) auto
    ultimately show ?thesis using 4(4) by (intro step [of 1]) (simp_all del: One_nat_def)
  qed simp
qed

lemma pton6_plain: "evutil_inet_pton6 s \<noteq> None \<Longrightarrow> list_all plain s"
proof -
  assume *: "evutil_inet_pton6 s \<noteq> None"
  show ?thesis
  proof (cases "46 \<in> set s")
    case False
    then obtain r where "pton6_loop s (int (length s)) [] (-1) = Some r"
      using * by (auto simp: evutil_inet_pton6_def bind_eq_Some_conv split: if_splits)
    from pton6_loop_plain [OF this] show ?thesis by simp
  next
    case True
    then obtain r q where r: "pton6_loop s (int (dot_split s)) [] (-1) = Some r" "scan_quad (drop (dot_split s) s) = Some q"
      using * by (auto simp: evutil_inet_pton6_def bind_eq_Some_conv Let_def split: if_splits)
    have "list_all plain (take (dot_split s) s @ drop (dot_split s) s)"
      using pton6_loop_plain [OF r(1)] scan_quad_plain [OF r(2)] by (simp only: list_all_append nat_int)
    then show ?thesis by (simp only: append_take_drop_id)
  qed
qed

text \<open>What the setters accept.\<close>

definition host_wf :: "cstr \<Rightarrow> bool" where
  "host_wf h \<longleftrightarrow> (if cur h = 91 then bracket_addr_ok h \<noteq> 0 else regname_ok (length h) h)"

definition uri_wf :: "evhttp_uri \<Rightarrow> bool" where
  "uri_wf u \<longleftrightarrow> pred_option scheme_ok (scheme u) \<and> pred_option userinfo_ok (userinfo u) \<and> pred_option host_wf (host u) \<and>
     -1 \<le> port u \<and> pred_option (\<lambda>x. end_of_path x PART_PATH (uri_flags u) = length x) (path u) \<and>
     pred_option (\<lambda>x. end_of_path x PART_QUERY (uri_flags u) = length x) (query u) \<and>
     pred_option (\<lambda>x. end_of_path x PART_FRAGMENT (uri_flags u) = length x) (fragment u)"

text \<open>What a text can express: an authority is followed by a path that begins with a slash, and so on.\<close>

definition uri_shape :: "evhttp_uri \<Rightarrow> bool" where
  "uri_shape u \<longleftrightarrow> port u \<le> 65535 \<and>
     (\<exists>p. path u = Some p \<and> (scheme u = None \<longrightarrow> path_matches_noscheme p) \<and>
       (if host u = None then port u = -1 \<and> userinfo u = None \<and> take 2 p \<noteq> [47, 47] else p = [] \<or> cur p = 47))"

lemma special_chars [simp]: "\<not> EVUTIL_ISXDIGIT 0" "\<not> CHAR_IS_UNRESERVED 37" "37 \<notin> set SUBDELIMS"
  "\<not> CHAR_IS_UNRESERVED 63" "63 \<notin> set SUBDELIMS" "\<not> CHAR_IS_UNRESERVED 35" "35 \<notin> set SUBDELIMS"
  by (simp_all add: EVUTIL_ISXDIGIT_iff CHAR_IS_UNRESERVED_iff EVUTIL_ISALNUM_iff SUBDELIMS_def)

abbreviation pct :: "cstr \<Rightarrow> bool" where
  "pct s \<equiv> EVUTIL_ISXDIGIT (cur s) \<and> EVUTIL_ISXDIGIT (cur (drop 1 s))"

lemma pct_Cons: "pct s \<Longrightarrow> \<exists>a b r. s = a # b # r \<and> EVUTIL_ISXDIGIT a \<and> EVUTIL_ISXDIGIT b"
  by (cases s; cases "tl s") auto

lemma conformant_end_Cons:
  "conformant_end part (c # s) =
     (if CHAR_IS_UNRESERVED c \<or> c \<in> set SUBDELIMS \<or> c = 58 \<or> c = 64 \<or> c = 47 then Suc (conformant_end part s)
      else if c = 37 \<and> pct s then 3 + conformant_end part (drop 2 s)
      else if c = 63 \<and> part \<noteq> PART_PATH then Suc (conformant_end part s) else 0)"
  by (cases s; cases "tl s") auto

declare conformant_end.simps(2) [simp del]

lemma conformant_end_le: "conformant_end part s \<le> length s"
proof (induction s rule: length_induct)
  case (1 s)
  show ?case
  proof (cases s)
    case (Cons c t)
    have "conformant_end part t \<le> length t" using 1 Cons by simp
    moreover have "conformant_end part (drop 2 t) \<le> length (drop 2 t)"
      using 1 Cons by (metis diff_le_self le_imp_less_Suc length_Cons length_drop)
    moreover have "pct t \<Longrightarrow> 2 \<le> length t" using pct_Cons by fastforce
    ultimately show ?thesis using Cons by (simp add: conformant_end_Cons, linarith)
  qed simp
qed

lemma conformant_end_take: "conformant_end part (take (conformant_end part s) s) = conformant_end part s"
proof (induction s rule: length_induct)
  case (1 s)
  show ?case
  proof (cases s)
    case (Cons c t)
    show ?thesis
    proof (cases "c = 37 \<and> pct t")
      case True
      then obtain a b r where t: "t = a # b # r" "EVUTIL_ISXDIGIT a" "EVUTIL_ISXDIGIT b" using pct_Cons by blast
      have "conformant_end part (37 # a # b # q) = 3 + conformant_end part q" for q
        using t(2,3) by (simp add: conformant_end_Cons [of _ 37])
      moreover have "take (3 + k) (37 # a # b # q) = 37 # a # b # take k q" for k q by (simp add: numeral_3_eq_3)
      moreover have "s = 37 # a # b # r" using Cons True t(1) by simp
      moreover have "conformant_end part (take (conformant_end part r) r) = conformant_end part r" using 1 Cons t(1) by simp
      ultimately show ?thesis by simp
    qed (use 1 Cons in \<open>auto simp: conformant_end_Cons\<close>)
  qed simp
qed

lemma takeWhile_all_length: "list_all P s \<Longrightarrow> length (takeWhile P s) = length s"
  by (simp add: list_all_iff takeWhile_eq_all_conv [THEN iffD2])

lemma end_of_path_take: "end_of_path (take (end_of_path s part flags) s) part flags = length (take (end_of_path s part flags) s)"
proof (cases "flags AND EVHTTP_URI_NONCONFORMANT \<noteq> 0")
  case False
  then show ?thesis using conformant_end_take conformant_end_le by (simp add: end_of_path_def min_absorb2)
next
  case True
  have "list_all P (take (length (takeWhile P s)) s)" for P
    using takeWhile_eq_take [of P s] by (auto simp: list_all_iff dest: set_takeWhileD)
  then show ?thesis using True by (cases part) (auto simp: end_of_path_def takeWhile_all_length)
qed

lemma regname_ok_rest:
  assumes "regname_ok (length h) (h @ rest)" "rest = [] \<or> \<not> EVUTIL_ISXDIGIT (hd rest)"
  shows "regname_ok (length h) h"
  using assms(1)
proof (induction h rule: length_induct)
  case (1 h)
  have x: "\<not> EVUTIL_ISXDIGIT (cur rest)" using assms(2) by (cases rest) (auto simp: EVUTIL_ISXDIGIT_iff)
  show ?case
  proof (cases h)
    case (Cons c s)
    show ?thesis
    proof (cases "CHAR_IS_UNRESERVED c \<or> c \<in> set SUBDELIMS")
      case True
      then show ?thesis using 1 Cons by simp
    next
      case False
      then have p: "c = 37" "EVUTIL_ISXDIGIT (cur (s @ rest))" "EVUTIL_ISXDIGIT (cur (drop 1 (s @ rest)))"
        "regname_ok (length s - 2) (drop 2 (s @ rest))"
        using 1(2) Cons by (auto simp: eval_nat_numeral)
      obtain a b r where s: "s = a # b # r" using p(2,3) x by (cases s; cases "tl s") auto
      show ?thesis using 1(1) p s Cons False by (simp add: eval_nat_numeral)
    qed
  qed simp
qed

lemma host_ok_wf:
  assumes "host_ok h rest" "rest = [] \<or> \<not> EVUTIL_ISXDIGIT (hd rest)"
  shows "host_wf h"
proof (cases "cur h = 91")
  case True
  then obtain t where h: "h = 91 # t" by (cases h) auto
  have "\<not> regname_ok (length h) (h @ rest)" by (simp add: h CHAR_IS_UNRESERVED_iff EVUTIL_ISALNUM_iff SUBDELIMS_def)
  then show ?thesis using assms(1) True h by (auto simp: host_ok_def host_wf_def split: if_splits)
next
  case False
  then have "regname_ok (length h) (h @ rest)" using assms(1) by (cases h) (auto simp: host_ok_def split: if_splits)
  then show ?thesis using regname_ok_rest assms(2) False by (simp add: host_wf_def)
qed

lemma end_of_authority_rest: "drop (end_of_authority s) s = [] \<or> \<not> EVUTIL_ISXDIGIT (hd (drop (end_of_authority s) s))"
proof -
  have "drop (end_of_authority s) s = dropWhile (\<lambda>c. c \<noteq> 63 \<and> c \<noteq> 35 \<and> c \<noteq> 47) s"
    by (simp add: end_of_authority_def dropWhile_eq_drop)
  moreover have "\<not> EVUTIL_ISXDIGIT c" if "c = 63 \<or> c = 35 \<or> c = 47" for c using that by (auto simp: EVUTIL_ISXDIGIT_iff)
  ultimately show ?thesis using hd_dropWhile [of "\<lambda>c. c \<noteq> 63 \<and> c \<noteq> 35 \<and> c \<noteq> 47" s] by metis
qed

lemma parse_authority_wf:
  assumes "parse_authority uri s rest = Some u" "userinfo uri = None" "rest = [] \<or> \<not> EVUTIL_ISXDIGIT (hd rest)"
  shows "pred_option userinfo_ok (userinfo u) \<and> pred_option host_wf (host u)"
proof (cases "s = []")
  case True
  then show ?thesis using assms by (auto simp: parse_authority_def host_wf_def)
next
  case False
  obtain i hp where i: "split_userinfo s = (i, hp)" by force
  obtain h p where h: "split_port hp = (h, p)" by force
  have "host_ok h (case p of None \<Rightarrow> rest | Some ds \<Rightarrow> 58 # ds @ rest)" "pred_option userinfo_ok i" "host u = Some h" "userinfo u = i"
    using assms False by (auto simp: parse_authority_def i h Let_def split: if_splits option.splits)
  moreover have "\<not> EVUTIL_ISXDIGIT 58" by (simp add: EVUTIL_ISXDIGIT_iff)
  ultimately show ?thesis using host_ok_wf assms(3) by (auto split: option.splits)
qed

lemma take_part_wf: "take_part c part flags s = (q, r) \<Longrightarrow> pred_option (\<lambda>x. end_of_path x part flags = length x) q"
  using end_of_path_take [of "tl s" part flags] by (auto simp: take_part_def Let_def split: if_splits)

lemma parse_authority_fields:
  "parse_authority uri s rest = Some u \<Longrightarrow> scheme u = scheme uri \<and> uri_flags u = uri_flags uri \<and> host u \<noteq> None"
  by (auto simp: parse_authority_def Let_def split: if_splits prod.splits)

lemma uri_parse_wf:
  assumes "evhttp_uri_parse_with_flags s flags = Some u"
  shows "uri_wf u \<and> uri_shape u \<and> uri_flags u = flags"
proof (rule uri_parse_steps [OF assms], goal_cases)
  case (1 sch s1 uri got n s2 k qry s3 frg uri1)
  have uri: "userinfo uri = None" "port uri = -1" "host uri = None" "scheme uri = sch" "uri_flags uri = flags"
    unfolding 1(2) by (simp_all add: evhttp_uri_new_def)
  have sch: "pred_option scheme_ok sch" using split_scheme_text [OF 1(1)] by (cases sch) auto
  have parts: "end_of_path (take k s2) PART_PATH flags = length (take k s2)"
      "pred_option (\<lambda>x. end_of_path x PART_QUERY flags = length x) qry" "pred_option (\<lambda>x. end_of_path x PART_FRAGMENT flags = length x) frg"
    using end_of_path_take [of s2 PART_PATH flags] take_part_wf [OF 1(7)] take_part_wf [OF 1(8)] 1(6) by simp_all
  have same: "scheme uri1 = sch \<and> uri_flags uri1 = flags \<and> (host uri1 = None \<longleftrightarrow> \<not> got)"
    using 1(9) parse_authority_fields uri by (auto split: if_splits)
  have auth: "pred_option userinfo_ok (userinfo uri1) \<and> pred_option host_wf (host uri1) \<and> -1 \<le> port uri1 \<and> port uri1 \<le> 65535 \<and>
      (\<not> got \<longrightarrow> port uri1 = -1 \<and> userinfo uri1 = None)"
  proof (cases got)
    case True
    then have a: "parse_authority uri (take n (drop 2 s1)) (drop n (drop 2 s1)) = Some uri1" using 1(9) by simp
    obtain h t where "port_source t (port uri1)" using parse_authority_text [OF a uri(1,2)] .
    then have "-1 \<le> port uri1" "port uri1 \<le> 65535" by (auto simp: port_source_def)
    moreover have "drop n (drop 2 s1) = [] \<or> \<not> EVUTIL_ISXDIGIT (hd (drop n (drop 2 s1)))"
      unfolding 1(4) by (rule end_of_authority_rest)
    ultimately show ?thesis using parse_authority_wf [OF a uri(1)] True by simp
  qed (use 1(9) uri in auto)
  show ?case using sch parts same auth 1(11-13) unfolding 1(10) uri_wf_def uri_shape_def by auto
qed

text \<open>
  C31. Every accepted source parses into a well-formed URI, and every successful call of a setter keeps a URI
  well-formed: each part passes the test of its own production. The flags are the ones given to the parser, and
  what was parsed can be written as a text again.
\<close>

theorem uri_parts_wf:
  assumes "uri_wf u"
  shows "(\<forall>s flags v. evhttp_uri_parse_with_flags s flags = Some v \<longrightarrow> uri_wf v \<and> uri_shape v \<and> uri_flags v = flags) \<and>
    (\<forall>v \<in> {evhttp_uri_set_scheme u x, evhttp_uri_set_userinfo u x, evhttp_uri_set_host u x, evhttp_uri_set_port u n,
        evhttp_uri_set_path u x, evhttp_uri_set_query u x, evhttp_uri_set_fragment u x}. pred_option uri_wf v)"
  using assms uri_parse_wf
  by (auto simp: uri_wf_def evhttp_uri_set_scheme_def evhttp_uri_set_userinfo_def evhttp_uri_set_host_def
      evhttp_uri_set_port_def evhttp_uri_set_path_def evhttp_uri_set_query_def evhttp_uri_set_fragment_def host_wf_def
      split: option.splits)

theorem uri_parts_wf_witness:
  "uri_wf evhttp_uri_new \<and> evhttp_uri_set_port evhttp_uri_new 80 = Some (evhttp_uri_new\<lparr>port := 80\<rparr>) \<and> uri_wf (evhttp_uri_new\<lparr>port := 80\<rparr>)"
proof -
  have "uri_wf evhttp_uri_new" by (simp add: uri_wf_def evhttp_uri_new_def)
  from uri_parts_wf [OF this, where x = None and n = 80] this show ?thesis by (simp add: evhttp_uri_set_port_def)
qed


section \<open>Parsing undoes joining\<close>

abbreviation part_end :: "uri_part \<Rightarrow> cstr \<Rightarrow> bool" where
  "part_end part r \<equiv> r = [] \<or> part \<noteq> PART_FRAGMENT \<and> (hd r = 35 \<or> hd r = 63 \<and> part = PART_PATH)"

lemma conformant_end_append:
  assumes "conformant_end part a = length a" "part_end part r"
  shows "conformant_end part (a @ r) = length a"
  using assms(1)
proof (induction a rule: length_induct)
  case (1 a)
  show ?case
  proof (cases a)
    case Nil
    then show ?thesis using assms(2) by (cases r) (auto simp: conformant_end_Cons)
  next
    case (Cons c t)
    show ?thesis
    proof (cases "c = 37 \<and> pct t")
      case True
      then obtain x y q where t: "t = x # y # q" "EVUTIL_ISXDIGIT x" "EVUTIL_ISXDIGIT y" using pct_Cons by blast
      have e: "conformant_end part (37 # x # y # z) = 3 + conformant_end part z" for z
        using t(2,3) by (simp add: conformant_end_Cons [of _ 37])
      then show ?thesis using 1 Cons t True by simp
    next
      case False
      have "conformant_end part (c # t) = Suc (length t)" using 1(2) Cons by simp
      then have "(CHAR_IS_UNRESERVED c \<or> c \<in> set SUBDELIMS \<or> c = 58 \<or> c = 64 \<or> c = 47) \<or> c = 63 \<and> part \<noteq> PART_PATH"
          "conformant_end part t = length t"
        using False by (auto simp: conformant_end_Cons split: if_splits)
      then show ?thesis using 1(1) Cons by (auto simp: conformant_end_Cons)
    qed
  qed
qed

lemma takeWhile_stop: "length (takeWhile P a) = length a \<Longrightarrow> r = [] \<or> \<not> P (hd r) \<Longrightarrow> takeWhile P (a @ r) = a"
proof -
  assume *: "length (takeWhile P a) = length a" "r = [] \<or> \<not> P (hd r)"
  from *(1) have "list_all P a" by (metis list_all_iff set_takeWhileD takeWhile_eq_take take_all le_refl)
  from takeWhile_digits(1) [OF this *(2)] show ?thesis .
qed

lemma end_of_path_append:
  assumes "end_of_path a part flags = length a" "part_end part r"
  shows "end_of_path (a @ r) part flags = length a"
proof (cases "flags AND EVHTTP_URI_NONCONFORMANT \<noteq> 0")
  case False
  then show ?thesis using assms conformant_end_append by (simp add: end_of_path_def)
next
  case True
  then show ?thesis using assms by (cases part) (auto simp: end_of_path_def takeWhile_stop)
qed

lemma take_part_back:
  assumes "pred_option (\<lambda>x. end_of_path x part flags = length x) q" "part_end part r" "q = None \<longrightarrow> cur r \<noteq> c"
  shows "take_part c part flags (opt_text [c] q [] @ r) = (q, r)"
proof (cases q)
  case (Some x)
  then have "end_of_path (x @ r) part flags = length x" using end_of_path_append assms(1,2) by simp
  then show ?thesis using Some by (simp add: take_part_def)
qed (use assms(3) in \<open>simp add: take_part_def\<close>)

lemma noscheme_prefix:
  assumes "path_matches_noscheme p" "rest = [] \<or> hd rest = 63 \<or> hd rest = 35" "p @ rest = a @ 58 # r" "58 \<notin> set a"
  shows "\<exists>c \<in> set a. c = 47 \<or> c = 63 \<or> c = 35"
  using assms
proof (induction p arbitrary: a)
  case Nil
  then show ?case by (cases a) auto
next
  case (Cons c p)
  then obtain a' where a: "a = c # a'" by (cases a) (auto split: if_splits)
  show ?case
  proof (cases "c = 47")
    case False
    then have "path_matches_noscheme p" "p @ rest = a' @ 58 # r" "58 \<notin> set a'" using Cons.prems a by (auto split: if_splits)
    from Cons.IH [OF this(1) Cons.prems(2) this(2,3)] show ?thesis using a by auto
  qed (use a in auto)
qed

lemma scheme_ok_chars: "scheme_ok a \<Longrightarrow> c \<in> set a \<Longrightarrow> c \<notin> {47, 63, 35, 58}"
proof -
  assume *: "scheme_ok a" "c \<in> set a"
  then obtain x s where a: "a = x # s" by (cases a) (auto simp: scheme_ok_def)
  have "EVUTIL_ISALNUM x" using *(1) by (auto simp: a scheme_ok_def EVUTIL_ISALPHA_iff EVUTIL_ISALNUM_iff)
  then have "EVUTIL_ISALNUM c \<or> c = 43 \<or> c = 45 \<or> c = 46" using * by (auto simp: a scheme_ok_def list_all_iff)
  then show ?thesis by (auto simp: EVUTIL_ISALNUM_iff)
qed

lemma split_scheme_join:
  assumes "pred_option scheme_ok sch"
    "sch = None \<Longrightarrow> cur t = 47 \<or> (\<exists>p rest. t = p @ rest \<and> path_matches_noscheme p \<and> (rest = [] \<or> hd rest = 63 \<or> hd rest = 35))"
  shows "split_scheme (opt_text [] sch [58] @ t) = (sch, t)"
proof (cases sch)
  case (Some a)
  then have "58 \<notin> set a" using assms(1) scheme_ok_chars [of a 58] by auto
  from split_at_first [OF this] show ?thesis using Some assms(1) by (simp add: split_scheme_def)
next
  case None
  have "\<not> scheme_ok a" if "split_at 58 t = Some (a, r)" for a r
  proof -
    from split_at_Some [OF that] have t: "t = a @ 58 # r" "58 \<notin> set a" by auto
    have "\<exists>c \<in> set a. c = 47 \<or> c = 63 \<or> c = 35"
    proof (cases "cur t = 47")
      case True
      then show ?thesis using t by (cases a) auto
    next
      case False
      then obtain p rest where "t = p @ rest" "path_matches_noscheme p" "rest = [] \<or> hd rest = 63 \<or> hd rest = 35"
        using assms(2) [OF None] by blast
      then show ?thesis using noscheme_prefix [of p rest a r] t by simp
    qed
    then show ?thesis using scheme_ok_chars by blast
  qed
  then show ?thesis using None by (auto simp: split_scheme_def split: option.splits)
qed

lemma userinfo_ok_plain: "userinfo_ok s \<Longrightarrow> list_all plain s"
proof (induction s rule: userinfo_ok.induct)
  case (2 c s)
  show ?case
  proof (cases "CHAR_IS_UNRESERVED c \<or> c \<in> set SUBDELIMS \<or> c = 58")
    case True
    then have "plain c" using plain_chars(4,5) by auto
    then show ?thesis using 2 True by simp
  next
    case False
    then obtain a b r where s: "s = a # b # r" "c = 37" "EVUTIL_ISXDIGIT a" "EVUTIL_ISXDIGIT b" "userinfo_ok r"
      using 2(3) by (auto split: list.splits)
    then have "list_all plain r" using 2(2) [OF False s(1) refl] by simp
    then show ?thesis using s plain_chars(1) by simp
  qed
qed simp

lemma regname_step:
  assumes "regname_ok (length h) h" "h = c # s"
  obtains "CHAR_IS_UNRESERVED c \<or> c \<in> set SUBDELIMS" "regname_ok (length s) s"
  | a b r where "c = 37" "s = a # b # r" "EVUTIL_ISXDIGIT a" "EVUTIL_ISXDIGIT b" "regname_ok (length r) r"
proof (cases "CHAR_IS_UNRESERVED c \<or> c \<in> set SUBDELIMS")
  case True
  then show thesis using assms by (intro that(1)) auto
next
  case False
  then have p: "c = 37" "pct s" "regname_ok (length s - 2) (drop 2 s)" using assms by (auto simp: eval_nat_numeral)
  then obtain a b r where "s = a # b # r" "EVUTIL_ISXDIGIT a" "EVUTIL_ISXDIGIT b" using pct_Cons by blast
  then show thesis using p by (intro that(2) [of a b r]) auto
qed

lemma regname_ok_plain: "regname_ok (length h) h \<Longrightarrow> list_all plain h \<and> 58 \<notin> set h \<and> 91 \<notin> set h"
proof (induction h rule: length_induct)
  case (1 h)
  show ?case
  proof (cases h)
    case (Cons c s)
    from 1(2) this show ?thesis
    proof (cases rule: regname_step)
      case 1
      then have "plain c" "c \<noteq> 58" "c \<noteq> 91" using plain_chars(4,5) unreserved_plain by (auto simp: SUBDELIMS_def)
      then show ?thesis using "1.IH" Cons \<open>regname_ok (length s) s\<close> by simp
    next
      case (2 a b r)
      then have "list_all plain r \<and> 58 \<notin> set r \<and> 91 \<notin> set r" using "1.IH" Cons by simp
      moreover have "x \<noteq> 58 \<and> x \<noteq> 91" if "EVUTIL_ISXDIGIT x" for x using that by (auto simp: EVUTIL_ISXDIGIT_iff)
      ultimately show ?thesis using 2 Cons plain_chars(1) by auto
    qed
  qed simp
qed

lemma regname_ok_append: "regname_ok (length h) h \<Longrightarrow> regname_ok (length h) (h @ rest)"
proof (induction h rule: length_induct)
  case (1 h)
  show ?case
  proof (cases h)
    case Nil
    then show ?thesis by (cases rest) auto
  next
    case (Cons c s)
    from 1(2) this show ?thesis
    proof (cases rule: regname_step)
      case (2 a b r)
      then show ?thesis using "1.IH" Cons by (simp add: eval_nat_numeral)
    qed (use "1.IH" Cons in simp)
  qed
qed

lemma bracket_plain:
  assumes "bracket_addr_ok h \<noteq> 0"
  shows "list_all plain h" "length h \<ge> 3" "hd h = 91" "last h = 93"
proof -
  show b: "length h \<ge> 3" "hd h = 91" "last h = 93" using assms by (auto simp: bracket_addr_ok_def split: if_splits)
  define t where "t = butlast (tl h)"
  have "tl h \<noteq> []" using b(1) by (cases h) auto
  then have h: "h = 91 # t @ [93]"
    unfolding t_def using b by (metis append_butlast_last_id hd_Cons_tl last_tl list.sel(2))
  have t: "if hd t = 118 then ipvfuture_ok (tl t) else evutil_inet_pton6 t \<noteq> None" "t \<noteq> []"
    using assms b by (auto simp: bracket_addr_ok_def h Let_def split: if_splits)
  have "list_all plain t"
  proof (cases "hd t = 118")
    case True
    define s where "s = tl t"
    define r where "r = dropWhile EVUTIL_ISXDIGIT s"
    have "ipvfuture_ok s" using t(1) True by (simp add: s_def)
    then have r: "cur r = 46" "list_all (\<lambda>c. CHAR_IS_UNRESERVED c \<or> c \<in> set SUBDELIMS \<or> c = 58) (tl r)"
      by (auto simp: ipvfuture_ok_def Let_def r_def [symmetric])
    have "plain c" if "CHAR_IS_UNRESERVED c \<or> c \<in> set SUBDELIMS \<or> c = 58" for c using that plain_chars(4,5) [of c] by auto
    with r(2) have tl: "list_all plain (tl r)" by (rule list.pred_mono_strong)
    have "s = takeWhile EVUTIL_ISXDIGIT s @ r" by (simp add: r_def)
    moreover have "r = 46 # tl r" using r(1) by (cases r) auto
    ultimately have "s = takeWhile EVUTIL_ISXDIGIT s @ 46 # tl r" by metis
    moreover have "list_all plain (takeWhile EVUTIL_ISXDIGIT s @ 46 # tl r)"
      using tl plain_chars(1) by (auto simp: list_all_iff dest: set_takeWhileD)
    ultimately have "list_all plain s" by metis
    then show ?thesis using True t(2) by (cases t) (auto simp: s_def)
  qed (use t(1) pton6_plain in auto)
  then show "list_all plain h" by (simp add: h)
qed

lemma host_wf_plain:
  assumes "host_wf h"
  shows "list_all plain h" "host_ok h rest" "split_port (h @ port_text p) = (h, if p \<ge> 0 then Some (fmt_d (nat p)) else None)"
proof -
  consider "cur h = 91" "bracket_addr_ok h \<noteq> 0" | "cur h \<noteq> 91" "regname_ok (length h) h"
    using assms by (auto simp: host_wf_def split: if_splits)
  then have h: "list_all plain h \<and> host_ok h rest \<and> (58 \<notin> set h \<or> h \<noteq> [] \<and> last h = 93)"
  proof cases
    case 1
    then show ?thesis using bracket_plain [OF 1(2)] by (cases h) (auto simp: host_ok_def)
  next
    case 2
    then show ?thesis using regname_ok_plain [OF 2(2)] regname_ok_append [OF 2(2)] by (cases h) (auto simp: host_ok_def)
  qed
  then show "list_all plain h" "host_ok h rest" by auto
  have dig: "\<not> EVUTIL_ISDIGIT 58" "\<not> EVUTIL_ISDIGIT 93" by (simp_all add: EVUTIL_ISDIGIT_iff)
  show "split_port (h @ port_text p) = (h, if p \<ge> 0 then Some (fmt_d (nat p)) else None)"
  proof (cases "p \<ge> 0")
    case True
    have "takeWhile EVUTIL_ISDIGIT (rev (fmt_d (nat p)) @ 58 # rev h) = rev (fmt_d (nat p))"
      using takeWhile_digits(1) [of EVUTIL_ISDIGIT "rev (fmt_d (nat p))" "58 # rev h"] fmt_d_digits dig by simp
    then show ?thesis using True by (simp add: port_text_def split_port_def Let_def nth_append)
  next
    case False
    have "h ! (length h - length (takeWhile EVUTIL_ISDIGIT (rev h)) - 1) \<noteq> 58" if "0 < length h - length (takeWhile EVUTIL_ISDIGIT (rev h))"
    proof (cases "58 \<in> set h")
      case True
      then have "h \<noteq> []" "last h = 93" using h by auto
      then have "takeWhile EVUTIL_ISDIGIT (rev h) = []" using dig(2) by (cases h rule: rev_cases) auto
      then show ?thesis using \<open>h \<noteq> []\<close> \<open>last h = 93\<close> by (simp add: last_conv_nth)
    next
      case False
      have "length h - length (takeWhile EVUTIL_ISDIGIT (rev h)) - 1 < length h" using that by linarith
      then show ?thesis using False nth_mem by metis
    qed
    then show ?thesis using False by (auto simp: port_text_def split_port_def Let_def)
  qed
qed

lemma parse_port_loop_val:
  assumes "list_all EVUTIL_ISDIGIT ds" "foldl (\<lambda>n c. n * 10 + char_val c) n ds \<le> 65535"
  shows "parse_port_loop (int n) ds = int (foldl (\<lambda>n c. n * 10 + char_val c) n ds)"
  using assms
proof (induction ds arbitrary: n)
  case (Cons c ds)
  have mono: "m \<le> foldl (\<lambda>n c. n * 10 + char_val c) m xs" for m xs
  proof (induction xs arbitrary: m)
    case (Cons a xs)
    have "m \<le> m * 10 + char_val a" by simp
    also have "\<dots> \<le> foldl (\<lambda>n c. n * 10 + char_val c) (m * 10 + char_val a) xs" by (rule Cons)
    finally show ?case by simp
  qed simp
  have p: "int n * 10 + (uint c - 48) = int (n * 10 + char_val c)" using Cons.prems(1) by (simp add: digit_val)
  have "n * 10 + char_val c \<le> 65535" using Cons.prems(2) mono [of "n * 10 + char_val c" ds] by simp
  then show ?case using Cons.prems Cons.IH [of "n * 10 + char_val c"] by (simp add: p Let_def del: of_nat_add of_nat_mult)
qed simp

lemma parse_port_fmt: "n \<le> 65535 \<Longrightarrow> parse_port (fmt_d n) = int n"
  using parse_port_loop_val [OF fmt_d_digits, of 0 n] num_val_digits [of 10 n] by (simp add: parse_port_def num_val_def)

lemma parse_authority_join:
  assumes "pred_option userinfo_ok i" "host_wf h" "-1 \<le> p" "p \<le> 65535" "userinfo uri = None" "port uri = -1"
  shows "parse_authority uri (opt_text [] i [64] @ h @ port_text p) rest = Some (uri\<lparr>userinfo := i, port := p, host := Some h\<rparr>)"
proof -
  note h = host_wf_plain [OF assms(2)]
  have "64 \<notin> set (h @ port_text p)" using h(1) fmt_d_digits [of "nat p"] plain_chars(2) by (auto simp: list_all_iff port_text_def)
  then have none: "split_at 64 (h @ port_text p) = None" by (simp add: split_at_def)
  have i: "split_userinfo (opt_text [] i [64] @ h @ port_text p) = (i, h @ port_text p)"
  proof (cases i)
    case (Some x)
    then have "64 \<notin> set x" using userinfo_ok_plain [of x] assms(1) by (auto simp: list_all_iff)
    from split_at_first [OF this] show ?thesis using Some by (simp add: split_userinfo_def)
  qed (simp add: split_userinfo_def none)
  have portnum: "(case (if p \<ge> 0 then Some (fmt_d (nat p)) else None) of None \<Rightarrow> port uri | Some [] \<Rightarrow> -1 | Some ds \<Rightarrow> parse_port ds) = p"
    using parse_port_fmt [of "nat p"] assms(3,4,6) digits_not_Nil [of 10 "nat p"] by (auto split: list.splits)
  show ?thesis
  proof (cases "opt_text [] i [64] @ h @ port_text p = []")
    case True
    then have "i = None" "h = []" "p = -1" using assms(3) by (auto simp: port_text_def split: if_splits option.splits) (cases i; simp)+
    then show ?thesis using assms(5,6) by (simp add: parse_authority_def port_text_def)
  next
    case False
    have pos: "\<not> (case (if p \<ge> 0 then Some (fmt_d (nat p)) else None) of Some (d # ds) \<Rightarrow> p < 0 | _ \<Rightarrow> False)"
      by (auto split: list.splits)
    have ui: "\<not> (case i of Some x \<Rightarrow> \<not> userinfo_ok x | None \<Rightarrow> False)" using assms(1) by (cases i) auto
    have same: "(case i of Some x \<Rightarrow> Some x | None \<Rightarrow> userinfo uri) = i" using assms(5) by (cases i) auto
    show ?thesis unfolding parse_authority_def Let_def i prod.case h(3) portnum same if_not_P [OF False] if_not_P [OF pos] if_not_P [OF ui]
      using h(2) by simp
  qed
qed

lemma end_of_authority_join:
  assumes "list_all (\<lambda>c. c \<noteq> 63 \<and> c \<noteq> 35 \<and> c \<noteq> 47) a" "r = [] \<or> hd r = 47 \<or> hd r = 63 \<or> hd r = 35"
  shows "end_of_authority (a @ r) = length a"
proof -
  have "takeWhile (\<lambda>c. c \<noteq> 63 \<and> c \<noteq> 35 \<and> c \<noteq> 47) (a @ r) = a" by (rule takeWhile_digits(1) [OF assms(1)]) (use assms(2) in auto)
  then show ?thesis unfolding end_of_authority_def by (simp only:)
qed

lemma authority_chars:
  assumes "pred_option userinfo_ok i" "host_wf h"
  shows "list_all (\<lambda>c. c \<noteq> 63 \<and> c \<noteq> 35 \<and> c \<noteq> 47) (opt_text [] i [64] @ h @ port_text p)"
proof -
  have "list_all (\<lambda>c. c \<noteq> 63 \<and> c \<noteq> 35 \<and> c \<noteq> 47) (opt_text [] i [64])"
    using assms(1) userinfo_ok_plain by (cases i) (auto simp: list_all_iff)
  moreover have "list_all (\<lambda>c. c \<noteq> 63 \<and> c \<noteq> 35 \<and> c \<noteq> 47) h" using host_wf_plain(1) [OF assms(2)] by (auto simp: list_all_iff)
  moreover have "list_all (\<lambda>c. c \<noteq> 63 \<and> c \<noteq> 35 \<and> c \<noteq> 47) (port_text p)"
    using fmt_d_digits [of "nat p"] plain_chars(2) by (auto simp: list_all_iff port_text_def)
  ultimately show ?thesis by simp
qed

text \<open>Path, query and fragment are found again in what follows the authority.\<close>

lemma uri_back_parts:
  assumes "uri_wf u" "path u = Some p" "flags = uri_flags u"
  shows "end_of_path (uri_back u) PART_PATH flags = length p" "take (length p) (uri_back u) = p"
    "take_part 63 PART_QUERY flags (drop (length p) (uri_back u)) = (query u, opt_text [35] (fragment u) [])"
    "take_part 35 PART_FRAGMENT flags (opt_text [35] (fragment u) []) = (fragment u, [])"
proof -
  let ?f = "opt_text [35] (fragment u) []"
  let ?q = "opt_text [63] (query u) []"
  have bk: "uri_back u = p @ ?q @ ?f" by (simp add: uri_back_def assms(2))
  have "part_end PART_PATH (?q @ ?f)" by (cases "query u"; cases "fragment u") auto
  then show "end_of_path (uri_back u) PART_PATH flags = length p"
    unfolding bk using assms end_of_path_append [of p PART_PATH flags] by (simp add: uri_wf_def)
  show "take (length p) (uri_back u) = p" by (simp add: bk)
  have f: "part_end PART_QUERY ?f" "cur ?f \<noteq> 63" by (cases "fragment u"; simp)+
  then show "take_part 63 PART_QUERY flags (drop (length p) (uri_back u)) = (query u, ?f)"
    unfolding bk using assms take_part_back [of PART_QUERY flags "query u" ?f 63] by (simp add: uri_wf_def)
  show "take_part 35 PART_FRAGMENT flags ?f = (fragment u, [])"
    using assms take_part_back [of PART_FRAGMENT flags "fragment u" "[]" 35] by (simp add: uri_wf_def)
qed

lemma uri_back_hd:
  assumes "path u = Some p"
  obtains rest where "uri_back u = p @ rest" "rest = [] \<or> hd rest = 63 \<or> hd rest = 35"
  using assms by (rule_tac that [of "opt_text [63] (query u) [] @ opt_text [35] (fragment u) []"])
    (cases "query u"; cases "fragment u"; auto simp: uri_back_def)+

text \<open>
  C32. Parsing is the inverse of joining: the text of every well-formed URI that can be written down, in
  particular of every URI that came out of the parser, is accepted and gives the same parts again, with the flags
  under which its parts are well-formed.
\<close>

theorem uri_join_parse:
  assumes "uri_wf u" "uri_shape u" "evhttp_uri_join u limit = Some s"
  shows "evhttp_uri_parse_with_flags s (uri_flags u) = Some u"
proof -
  obtain p where p: "path u = Some p" "scheme u = None \<longrightarrow> path_matches_noscheme p" "port u \<le> 65535"
    "if host u = None then port u = -1 \<and> userinfo u = None \<and> take 2 p \<noteq> [47, 47] else p = [] \<or> cur p = 47"
    using assms(2) by (auto simp: uri_shape_def)
  have s: "s = uri_front u @ port_text (port u) @ uri_back u"
    using assms(3) p(1,4) by (cases "host u") (auto simp: evhttp_uri_join_def authority_text_def uri_front_def uri_back_def port_text_def Let_def split: if_splits)
  obtain rest where rest: "uri_back u = p @ rest" "rest = [] \<or> hd rest = 63 \<or> hd rest = 35" using uri_back_hd [OF p(1)] .
  note bk = uri_back_parts [OF assms(1) p(1) refl]
  have wf: "pred_option scheme_ok (scheme u)" "pred_option userinfo_ok (userinfo u)" "pred_option host_wf (host u)" "-1 \<le> port u"
    using assms(1) by (auto simp: uri_wf_def)
  let ?uri = "evhttp_uri_new\<lparr>uri_flags := uri_flags u, scheme := scheme u\<rparr>"
  show ?thesis
  proof (cases "host u")
    case None
    have t: "s = opt_text [] (scheme u) [58] @ uri_back u" using p(4) None by (simp add: s uri_front_def port_text_def)
    have sch: "split_scheme s = (scheme u, uri_back u)" unfolding t using p(2) rest by (intro split_scheme_join [OF wf(1)]) auto
    have got: "take 2 (uri_back u) \<noteq> [47, 47]" using p(4) None rest by (cases p; cases "tl p"; cases rest) auto
    have u: "u = ?uri\<lparr>path := Some p, query := query u, fragment := fragment u\<rparr>"
      using p(1,4) None by (simp add: evhttp_uri_new_def)
    show ?thesis unfolding evhttp_uri_parse_with_flags_def sch Let_def prod.case if_not_P [OF got] bk
      using got p(2,4) None u by (cases "scheme u") simp_all
  next
    case (Some h)
    let ?a = "opt_text [] (userinfo u) [64] @ h @ port_text (port u)"
    have t: "s = opt_text [] (scheme u) [58] @ [47, 47] @ ?a @ uri_back u" using Some by (simp add: s uri_front_def)
    have sch: "split_scheme s = (scheme u, [47, 47] @ ?a @ uri_back u)" unfolding t by (intro split_scheme_join [OF wf(1)]) auto
    have h: "host_wf h" using wf(3) Some by simp
    have n: "end_of_authority (?a @ uri_back u) = length ?a"
      using rest p(4) Some by (intro end_of_authority_join authority_chars [OF wf(2) h]) (cases p; auto)
    have a: "parse_authority ?uri ?a (uri_back u) = Some (?uri\<lparr>userinfo := userinfo u, port := port u, host := Some h\<rparr>)"
      by (rule parse_authority_join [OF wf(2) h wf(4) p(3)]) (simp_all add: evhttp_uri_new_def)
    have d: "drop 2 ([47, 47] @ ?a @ uri_back u) = ?a @ uri_back u" "take 2 ([47, 47] @ ?a @ uri_back u) = [47, 47]" by simp_all
    have cut: "take (length ?a) (?a @ uri_back u) = ?a" "drop (length ?a) (?a @ uri_back u) = uri_back u" by simp_all
    have u: "u = (?uri\<lparr>userinfo := userinfo u, port := port u, host := Some h\<rparr>)\<lparr>path := Some p, query := query u, fragment := fragment u\<rparr>"
      using p(1) Some by (simp add: evhttp_uri_new_def)
    show ?thesis unfolding evhttp_uri_parse_with_flags_def sch Let_def prod.case d n cut a bk if_P [OF refl]
      using p(2,4) Some u by auto
  qed
qed

theorem uri_join_parse_witness:
  "\<exists>u s. evhttp_uri_parse sample_uri = Some u \<and> evhttp_uri_join u 20 = Some s \<and> s \<noteq> sample_uri \<and> evhttp_uri_parse s = Some u"
proof -
  let ?u = "\<lparr>uri_flags = 0, scheme = Some [104], userinfo = None, host = Some [97], port = 8, path = Some [47], query = Some [98], fragment = None\<rparr>"
  have "port_text 8 = [58, 56]" by code_simp
  then have j: "evhttp_uri_join ?u 20 = Some (map of_char ''h://a:8/?b'')"
    by (subst uri_join_eq) (auto simp: uri_front_def uri_back_def)
  from uri_parse_wf [OF sample_uri_parsed] have "uri_wf ?u" "uri_shape ?u" by auto
  from uri_join_parse [OF this j] j show ?thesis
    by (intro exI [of _ ?u] exI [of _ "map of_char ''h://a:8/?b''"]) (simp add: evhttp_uri_parse_def sample_uri_parsed, simp add: sample_uri_def)
qed

end
