(* ===== verification/Http_Headers.thy ===== *)
theory Http_Headers
  imports Evbuffer_Search Http_Uri
begin

text \<open>
  The key-value lists of \<^verbatim>\<open>src/http.c\<close>: header operations, the parameters of a query and the parser of header
  lines, which reads its lines from an evbuffer. A list of headers is the list of its keys and values; strings
  are C strings without their final 0, and memory is available except where \<open>ok\<close> decides whether a line can be
  allocated. The parser is a loop over the lines of the buffer; that it ends is a theorem.
\<close>

section \<open>Headers\<close>

type_synonym evkeyvalq = "(cstr \<times> cstr) list"

definition evhttp_find_header :: "evkeyvalq \<Rightarrow> cstr \<Rightarrow> cstr option" where
  "evhttp_find_header headers key = map_option snd (List.find (\<lambda>h. evutil_ascii_strcasecmp (fst h) key = 0) headers)"

fun evhttp_clear_headers :: "evkeyvalq \<Rightarrow> evkeyvalq" where
  "evhttp_clear_headers [] = []"
| "evhttp_clear_headers (h # headers) = evhttp_clear_headers headers"

fun evhttp_remove_header :: "evkeyvalq \<Rightarrow> cstr \<Rightarrow> int \<times> evkeyvalq" where
  "evhttp_remove_header [] key = (-1, [])"
| "evhttp_remove_header (h # headers) key =
     (if evutil_ascii_strcasecmp (fst h) key = 0 then (0, headers)
      else (let (r, hs) = evhttp_remove_header headers key in (r, h # hs)))"

abbreviation crlf_char :: "u8 \<Rightarrow> bool" where "crlf_char c \<equiv> c = CR \<or> c = LF"

function evhttp_header_is_valid_value :: "cstr \<Rightarrow> bool" where
  "evhttp_header_is_valid_value value =
     (let p = dropWhile (\<lambda>c. \<not> crlf_char c) value; q = dropWhile crlf_char p
      in if p = [] then True
         else if cur q \<noteq> 32 \<and> cur q \<noteq> 9 then False
         else evhttp_header_is_valid_value q)"
  by pat_completeness auto
termination
proof (relation "measure length", simp)
  fix v p q :: cstr
  assume p: "p = dropWhile (\<lambda>c. \<not> crlf_char c) v" and q: "q = dropWhile crlf_char p" and ne: "p \<noteq> []"
  have "crlf_char (hd p)" using ne p hd_dropWhile [of "\<lambda>c. \<not> crlf_char c" v] by auto
  then have "length q < length p" using q ne by (cases p) (auto intro: le_imp_less_Suc length_dropWhile_le)
  also have "\<dots> \<le> length v" unfolding p by (rule length_dropWhile_le)
  finally show "(q, v) \<in> measure length" by simp
qed

declare evhttp_header_is_valid_value.simps [simp del]

definition evhttp_add_header_internal :: "evkeyvalq \<Rightarrow> cstr \<Rightarrow> cstr \<Rightarrow> int \<times> evkeyvalq" where
  "evhttp_add_header_internal headers key value = (0, headers @ [(key, value)])"

definition evhttp_add_header :: "evkeyvalq \<Rightarrow> cstr \<Rightarrow> cstr \<Rightarrow> int \<times> evkeyvalq" where
  "evhttp_add_header headers key value =
     (if CR \<in> set key \<or> LF \<in> set key then (-1, headers)
      else if \<not> evhttp_header_is_valid_value value then (-1, headers)
      else evhttp_add_header_internal headers key value)"

section \<open>The parameters of a query\<close>

text \<open>\<^verbatim>\<open>strsep\<close> with one separator: the token, and the rest of the string if there was a separator.\<close>

definition strsep :: "u8 \<Rightarrow> cstr \<Rightarrow> cstr \<times> cstr option" where
  "strsep sep s = (case split_at sep s of Some (a, r) \<Rightarrow> (a, Some r) | None \<Rightarrow> (s, None))"

lemma strsep_shorter: "strsep sep s = (a, Some r) \<Longrightarrow> length r < length s"
  by (auto simp: strsep_def split: option.splits dest!: split_at_Some)

text \<open>The bytes of a buffer read as a C string.\<close>

definition cstring :: "u8 list \<Rightarrow> cstr" where
  "cstring bs = takeWhile (\<lambda>c. c \<noteq> 0) bs"

function parse_query_loop :: "cstr \<Rightarrow> evkeyvalq \<Rightarrow> evkeyvalq option" where
  "parse_query_loop p headers =
     (if p = [] then Some headers
      else
        (case strsep 38 p of (argument, p1) \<Rightarrow>
           (case strsep 61 argument of
              (key, None) \<Rightarrow> None
            | (key, Some value) \<Rightarrow>
                if key = [] then None
                else
                  (let headers1 = snd (evhttp_add_header_internal headers key (cstring (evhttp_decode_uri_internal value 1)))
                   in case p1 of None \<Rightarrow> Some headers1 | Some p2 \<Rightarrow> parse_query_loop p2 headers1))))"
  by pat_completeness auto
termination
  by (relation "measure (\<lambda>(p, h). length p)") (auto dest: strsep_shorter [OF sym])

declare parse_query_loop.simps [simp del]

definition evhttp_parse_query_impl :: "cstr \<Rightarrow> bool \<Rightarrow> int \<times> evkeyvalq" where
  "evhttp_parse_query_impl str is_whole_uri =
     (case (if is_whole_uri then map_option query (evhttp_uri_parse str) else Some (Some str)) of
        None \<Rightarrow> (-1, [])
      | Some None \<Rightarrow> (0, [])
      | Some (Some query_part) \<Rightarrow>
          (case parse_query_loop query_part [] of None \<Rightarrow> (-1, []) | Some headers \<Rightarrow> (0, headers)))"

definition evhttp_parse_query :: "cstr \<Rightarrow> int \<times> evkeyvalq" where
  "evhttp_parse_query uri = evhttp_parse_query_impl uri True"

definition evhttp_parse_query_str :: "cstr \<Rightarrow> int \<times> evkeyvalq" where
  "evhttp_parse_query_str uri = evhttp_parse_query_impl uri False"

section \<open>Parsing header lines\<close>

datatype message_read_status = ALL_DATA_READ | MORE_DATA_EXPECTED | DATA_CORRUPTED | REQUEST_CANCELED | DATA_TOO_LONG

definition evhttp_append_to_last_header :: "evkeyvalq \<Rightarrow> cstr \<Rightarrow> int \<times> evkeyvalq" where
  "evhttp_append_to_last_header headers line =
     (if headers = [] then (-1, headers)
      else
        (let (k, v) = last headers; l = evutil_rtrim_lws (dropWhile lws line)
         in (0, butlast headers @ [(k, v @ [32] @ l)])))"

text \<open>One line that is neither empty nor the last; \<open>None\<close> stands for the jump to the label \<^verbatim>\<open>error\<close>.\<close>

definition parse_header_line :: "evkeyvalq \<Rightarrow> cstr \<Rightarrow> evkeyvalq option" where
  "parse_header_line headers line =
     (if cur line = 32 \<or> cur line = 9 then
        (let (r, hs) = evhttp_append_to_last_header headers line in if r = -1 then None else Some hs)
      else
        (case strsep 58 line of
           (skey, None) \<Rightarrow> None
         | (skey, Some svalue) \<Rightarrow>
             (let (r, hs) = evhttp_add_header headers skey (evutil_rtrim_lws (dropWhile (\<lambda>c. c = 32) svalue))
              in if r = -1 then None else Some hs)))"

text \<open>
  The fields of a request, with the limits of the connection it belongs to; the limit of the headers is absent
  when the request has no connection. Sizes are \<^verbatim>\<open>size_t\<close>.
\<close>

datatype evhttp_request_kind = EVHTTP_REQUEST | EVHTTP_RESPONSE

datatype evhttp_cmd_type =
  EVHTTP_REQ_GET | EVHTTP_REQ_POST | EVHTTP_REQ_HEAD | EVHTTP_REQ_PUT | EVHTTP_REQ_DELETE | EVHTTP_REQ_OPTIONS |
  EVHTTP_REQ_TRACE | EVHTTP_REQ_CONNECT | EVHTTP_REQ_PATCH | EVHTTP_REQ_UNKNOWN

record evhttp_request =
  req_flags :: u32
  input_headers :: evkeyvalq
  output_headers :: evkeyvalq
  req_kind :: evhttp_request_kind
  req_type :: evhttp_cmd_type
  headers_size :: nat
  body_size :: nat
  req_uri :: "cstr option"
  uri_elems :: "evhttp_uri option"
  major :: int
  minor :: int
  response_code :: int
  response_code_line :: "cstr option"
  input_buffer :: evbuffer
  ntoread :: int
  chunked :: bool
  output_buffer :: evbuffer
  max_headers_size :: "nat option"
  max_body_size :: nat

definition too_long :: "evhttp_request \<Rightarrow> nat \<Rightarrow> bool" where
  "too_long req n \<longleftrightarrow> (case max_headers_size req of None \<Rightarrow> False | Some m \<Rightarrow> n > m)"

partial_function (option) evhttp_parse_headers ::
  "(nat \<Rightarrow> bool) \<Rightarrow> evhttp_request \<Rightarrow> evbuffer \<Rightarrow> (message_read_status \<times> evhttp_request \<times> evbuffer) option" where
  "evhttp_parse_headers ok req buffer = do {
     (r, b) \<leftarrow> evbuffer_readln ok buffer EVBUFFER_EOL_CRLF;
     if r = None
     then Some (if too_long req ((headers_size req + total_len b) mod 2 ^ 64) then DATA_TOO_LONG else MORE_DATA_EXPECTED, req, b)
     else
       (let len = length (the r); line = cstring (the r); req1 = req\<lparr>headers_size := (headers_size req + len) mod 2 ^ 64\<rparr>
        in if too_long req1 (headers_size req1) then Some (DATA_TOO_LONG, req1, b)
           else if line = [] then Some (ALL_DATA_READ, req1, b)
           else
             (let r2 = parse_header_line (input_headers req1) line
              in if r2 = None then Some (DATA_CORRUPTED, req1, b)
                 else evhttp_parse_headers ok (req1\<lparr>input_headers := the r2\<rparr>) b)) }"

text \<open>What \<^verbatim>\<open>evhttp_make_header\<close> writes for a list of headers.\<close>

definition header_line :: "cstr \<times> cstr \<Rightarrow> cstr" where
  "header_line h = fst h @ [58, 32] @ snd h @ [CR, LF]"

definition headers_text :: "evkeyvalq \<Rightarrow> cstr" where
  "headers_text headers = concat (map header_line headers) @ [CR, LF]"

section \<open>Reading back what was written\<close>

lemma strsep_first: "c \<notin> set a \<Longrightarrow> strsep c (a @ c # r) = (a, Some r)" "c \<notin> set a \<Longrightarrow> strsep c a = (a, None)"
  by (simp_all add: strsep_def split_at_first) (simp add: split_at_def)

text \<open>A parameter of a query, and the text a client writes for it.\<close>

definition param_text :: "cstr \<times> cstr \<Rightarrow> cstr" where
  "param_text p = fst p @ [61] @ evhttp_uriencode (snd p) (-1) True"

primrec query_text :: "(cstr \<times> cstr) list \<Rightarrow> cstr" where
  "query_text [] = []"
| "query_text (p # ps) = param_text p @ (if ps = [] then [] else 38 # query_text ps)"

abbreviation param_ok :: "cstr \<times> cstr \<Rightarrow> bool" where
  "param_ok p \<equiv> fst p \<noteq> [] \<and> set (fst p) \<inter> {38, 61} = {} \<and> 0 \<notin> set (snd p)"

lemma encoded_no_delim: "list_all encoded_char s \<Longrightarrow> 38 \<notin> set s \<and> 61 \<notin> set s \<and> 0 \<notin> set s"
proof -
  have "c \<noteq> 38 \<and> c \<noteq> 61 \<and> c \<noteq> 0" if "encoded_char c" for c using that unreserved_plain [of c] by (auto simp: encoded_char_def)
  then show "list_all encoded_char s \<Longrightarrow> 38 \<notin> set s \<and> 61 \<notin> set s \<and> 0 \<notin> set s" by (auto simp: list_all_iff)
qed

lemma parse_query_text:
  "list_all param_ok ps \<Longrightarrow> parse_query_loop (query_text ps) hs = Some (hs @ ps)"
proof (induction ps arbitrary: hs)
  case Nil
  then show ?case by (simp add: parse_query_loop.simps)
next
  case (Cons p ps)
  obtain k v where p: "p = (k, v)" by force
  let ?v = "evhttp_uriencode v (-1) True"
  have ok: "k \<noteq> []" "38 \<notin> set k" "61 \<notin> set k" "0 \<notin> set v" using Cons.prems p by auto
  have enc: "?v = concat (map (encode_char True) v)" by (simp add: evhttp_uriencode_def takeWhile_nonzero [OF ok(4)])
  have delim: "38 \<notin> set ?v" "61 \<notin> set ?v" using encoded_no_delim [OF encode_encoded] unfolding enc by auto
  have dec: "cstring (evhttp_decode_uri_internal ?v 1) = v"
    by (simp add: cstring_def evhttp_decode_uri_internal_def enc decode_encode takeWhile_nonzero [OF ok(4)])
  have arg: "strsep 61 (param_text p) = (k, Some ?v)" using strsep_first(1) [OF ok(3)] by (simp add: param_text_def p)
  have no: "38 \<notin> set (param_text p)" "param_text p \<noteq> []" using ok delim by (auto simp: param_text_def p)
  show ?case
  proof (cases "ps = []")
    case True
    then have "strsep 38 (query_text (p # ps)) = (param_text p, None)" using strsep_first(2) [OF no(1)] by simp
    then show ?thesis using no True ok(1) arg dec
      by (subst parse_query_loop.simps) (simp add: evhttp_add_header_internal_def p)
  next
    case False
    then have "strsep 38 (query_text (p # ps)) = (param_text p, Some (query_text ps))" using strsep_first(1) [OF no(1)] by simp
    then show ?thesis using no False ok(1) arg dec Cons
      by (subst parse_query_loop.simps) (simp add: evhttp_add_header_internal_def p)
  qed
qed

text \<open>
  C33. The parameters of a query survive: non-empty keys without ampersand and equals sign, each with any C string as value
  that is encoded with plus signs for blanks, joined with ampersands, are parsed into the same list in the same
  order, duplicates included.
\<close>

theorem query_round_trip:
  assumes "list_all param_ok ps"
  shows "evhttp_parse_query_str (query_text ps) = (0, ps)"
  using parse_query_text [OF assms, of "[]"] by (simp add: evhttp_parse_query_str_def evhttp_parse_query_impl_def)

theorem query_round_trip_witness:
  "query_text [([97], [98, 32, 38]), ([99], [])] = [97, 61, 98, 43, 37, 50, 54, 38, 99, 61] \<and>
   evhttp_parse_query_str [97, 61, 98, 43, 37, 50, 54, 38, 99, 61] = (0, [([97], [98, 32, 38]), ([99], [])])"
proof -
  have t: "query_text [([97], [98, 32, 38]), ([99], [])] = [97, 61, 98, 43, 37, 50, 54, 38, 99, 61]" by code_simp
  show ?thesis using query_round_trip [of "[([97], [98, 32, 38]), ([99], [])]"] t by simp
qed

text \<open>A header whose text has no line breaks, no 0, and nothing that the parser strips.\<close>

definition header_ok :: "cstr \<times> cstr \<Rightarrow> bool" where
  "header_ok h \<longleftrightarrow> set (fst h) \<inter> {0, CR, LF, 58} = {} \<and> \<not> lws (cur (fst h)) \<and> set (snd h) \<inter> {0, CR, LF} = {} \<and>
     (snd h = [] \<or> hd (snd h) \<noteq> 32 \<and> \<not> lws (last (snd h)))"

lemma valid_value_plain: "set v \<inter> {CR, LF} = {} \<Longrightarrow> evhttp_header_is_valid_value v"
proof -
  assume "set v \<inter> {CR, LF} = {}"
  then have "dropWhile (\<lambda>c. \<not> crlf_char c) v = []" by auto
  then show ?thesis by (subst evhttp_header_is_valid_value.simps) simp
qed

lemma rtrim_id: "v = [] \<or> \<not> lws (last v) \<Longrightarrow> evutil_rtrim_lws v = v"
  by (cases v rule: rev_cases) (auto simp: rtrim_spec)

lemma parse_header_line_ok:
  assumes "header_ok h"
  shows "parse_header_line hs (fst h @ [58, 32] @ snd h) = Some (hs @ [h])"
proof -
  obtain k v where h: "h = (k, v)" by force
  have ok: "set k \<inter> {0, CR, LF, 58} = {}" "\<not> lws (cur k)" "set v \<inter> {CR, LF} = {}" "v = [] \<or> hd v \<noteq> 32 \<and> \<not> lws (last v)"
    using assms by (auto simp: header_ok_def h)
  have "dropWhile (\<lambda>c. c = 32) (32 # v) = v" using ok(4) by (cases v) auto
  moreover have "cur (k @ 58 # 32 # v) \<noteq> 32 \<and> cur (k @ 58 # 32 # v) \<noteq> 9" using ok(2) by (cases k) (auto simp: lws_def)
  moreover have "strsep 58 (k @ 58 # 32 # v) = (k, Some (32 # v))" using ok(1) by (intro strsep_first) auto
  moreover have "evutil_rtrim_lws v = v" using ok(4) by (intro rtrim_id) auto
  moreover have "evhttp_add_header hs k v = (0, hs @ [(k, v)])"
    using ok(1) valid_value_plain [OF ok(3)] by (auto simp: evhttp_add_header_def evhttp_add_header_internal_def)
  ultimately show ?thesis by (simp add: parse_header_line_def h)
qed

lemma readln_crlf:
  assumes "evbuffer_ok b" "total_len b \<le> EV_SSIZE_MAX" "\<not> freeze_start b" "\<forall>n \<le> total_len b. ok n"
    "content b = line @ [CR, LF] @ rest" "LF \<notin> set line"
  obtains b' where "evbuffer_readln ok b EVBUFFER_EOL_CRLF = Some (Some line, b')" "evbuffer_ok b'" "content b' = rest"
    "\<not> freeze_start b'" "freeze_end b' = freeze_end b" "total_len b' < total_len b"
proof -
  have "eol_spec EVBUFFER_EOL_CRLF (content b) = Some (length line, 2)"
    using eol_spec_line [of EVBUFFER_EOL_CRLF line rest] assms(5,6) by (simp add: eol_bytes_def)
  moreover have len: "total_len b = length line + 2 + length rest" using length_content [OF assms(1)] assms(5) by simp
  moreover from len assms(4) have "ok (length line + 1)" by simp
  ultimately obtain b' where b': "evbuffer_readln ok b EVBUFFER_EOL_CRLF = Some (Some line, b')" "evbuffer_ok b'" "content b' = rest"
    "\<not> freeze_start b'" "freeze_end b' = freeze_end b"
    using readln_ok [OF assms(1-3), of ok EVBUFFER_EOL_CRLF] assms(3,5) by auto
  moreover have "total_len b' < total_len b" using length_content [OF b'(2)] b'(3) len by simp
  ultimately show thesis by (rule that)
qed


lemma header_ok_line: "header_ok h \<Longrightarrow> set (fst h @ [58, 32] @ snd h) \<inter> {0, LF} = {} \<and> fst h @ [58, 32] @ snd h \<noteq> []"
  by (auto simp: header_ok_def LF_def)

lemma cstring_id: "0 \<notin> set s \<Longrightarrow> cstring s = s"
  unfolding cstring_def by (rule takeWhile_nonzero)

lemma parse_headers_text:
  assumes "evbuffer_ok b" "total_len b \<le> EV_SSIZE_MAX" "\<not> freeze_start b" "\<forall>n \<le> total_len b. ok n"
    "content b = headers_text hs @ rest" "list_all header_ok hs"
    "headers_size req + length (headers_text hs) < 2 ^ 64" "\<not> too_long req (headers_size req + length (headers_text hs))"
  shows "\<exists>b' n. evhttp_parse_headers ok req b =
      Some (ALL_DATA_READ, req\<lparr>input_headers := input_headers req @ hs, headers_size := n\<rparr>, b') \<and>
    evbuffer_ok b' \<and> content b' = rest \<and> \<not> freeze_start b' \<and> n \<le> headers_size req + length (headers_text hs)"
  using assms
proof (induction hs arbitrary: b req)
  case Nil
  from readln_crlf [OF Nil(1-4), of "[]" rest] Nil(5) obtain b' where
    b': "evbuffer_readln ok b EVBUFFER_EOL_CRLF = Some (Some [], b')" "evbuffer_ok b'" "content b' = rest" "\<not> freeze_start b'"
    by (auto simp: headers_text_def)
  have "\<not> too_long (req\<lparr>headers_size := headers_size req\<rparr>) (headers_size req)"
    using Nil(8) by (auto simp: too_long_def headers_text_def split: option.splits)
  then show ?case using b' Nil(7) 
    by (subst evhttp_parse_headers.simps) (auto simp: cstring_def Let_def headers_text_def intro!: exI [of _ "headers_size req"])
next
  case (Cons h hs)
  let ?line = "fst h @ [58, 32] @ snd h"
  have h: "header_ok h" using Cons.prems(6) by simp
  have c: "content b = ?line @ [CR, LF] @ headers_text hs @ rest" using Cons.prems(5) by (simp add: headers_text_def header_line_def)
  have len: "length (headers_text (h # hs)) = length ?line + 2 + length (headers_text hs)" by (simp add: headers_text_def header_line_def)
  note l = header_ok_line [OF h]
  then have "LF \<notin> set ?line" by auto
  from readln_crlf [OF Cons.prems(1-4) c this] obtain b1 where
    b1: "evbuffer_readln ok b EVBUFFER_EOL_CRLF = Some (Some ?line, b1)" "evbuffer_ok b1" "content b1 = headers_text hs @ rest"
      "\<not> freeze_start b1" "total_len b1 < total_len b" by blast
  define req1 where "req1 = req\<lparr>headers_size := headers_size req + length ?line, input_headers := input_headers req @ [h]\<rparr>"
  have size: "(headers_size req + length ?line) mod 2 ^ 64 = headers_size req + length ?line" using Cons.prems(7) len by simp
  have long: "\<not> too_long req (headers_size req + length ?line)" "too_long (req\<lparr>headers_size := n\<rparr>) m = too_long req m"
    "too_long req1 m = too_long req m" for n m
    using Cons.prems(8) len by (auto simp: too_long_def req1_def split: option.splits)
  have cs: "cstring ?line = ?line" using l by (intro cstring_id) auto
  have parse: "evhttp_parse_headers ok req b = evhttp_parse_headers ok req1 b1"
    using parse_header_line_ok [OF h, of "input_headers req"] l size long(1) cs unfolding req1_def
    by (subst evhttp_parse_headers.simps) (simp add: b1(1) Let_def long(2) cs del: append_Cons append.simps)
  have "\<exists>b' n. evhttp_parse_headers ok req1 b1 =
      Some (ALL_DATA_READ, req1\<lparr>input_headers := input_headers req1 @ hs, headers_size := n\<rparr>, b') \<and>
    evbuffer_ok b' \<and> content b' = rest \<and> \<not> freeze_start b' \<and> n \<le> headers_size req1 + length (headers_text hs)"
    by (rule Cons.IH) (use b1 Cons.prems len long(3) in \<open>auto simp: req1_def too_long_def split: option.splits\<close>)
  moreover have "req1\<lparr>input_headers := input_headers req1 @ hs, headers_size := n\<rparr> =
      req\<lparr>input_headers := input_headers req @ h # hs, headers_size := n\<rparr>" "headers_size req1 = headers_size req + length ?line" for n
    by (simp_all add: req1_def)
  ultimately show ?case unfolding parse using len by fastforce
qed

text \<open>
  Headers survive: when a buffer holds the lines that are written for a list of headers, followed by an empty
  line and further bytes, the parser reads exactly these headers, behind the ones it already had, in order, and
  leaves the further bytes in the buffer, as long as the limit for the size is not exceeded. Keys have no
  colon and no line break, values no line break and no blanks at their ends.
\<close>

theorem headers_round_trip:
  assumes "evbuffer_ok b" "total_len b \<le> EV_SSIZE_MAX" "\<not> freeze_start b" "\<forall>n \<le> total_len b. ok n"
    "content b = headers_text hs @ rest" "list_all header_ok hs"
    "headers_size req + length (headers_text hs) < 2 ^ 64" "\<not> too_long req (headers_size req + length (headers_text hs))"
  shows "\<exists>req' b'. evhttp_parse_headers ok req b = Some (ALL_DATA_READ, req', b') \<and> evbuffer_ok b' \<and> content b' = rest \<and>
     input_headers req' = input_headers req @ hs"
  using parse_headers_text [OF assms] by auto

text \<open>A buffer of one chain with the given bytes, and a request with the default limits.\<close>

definition text_buffer :: "u8 list \<Rightarrow> evbuffer" where
  "text_buffer s = evbuffer_new\<lparr>chains := [sample_chain s], last_with_data := 0, total_len := length s\<rparr>"

lemma text_buffer_ok:
  assumes "s \<noteq> []" "length s < 1000"
  shows "evbuffer_ok (text_buffer s)" "content (text_buffer s) = s" "total_len (text_buffer s) = length s" "\<not> freeze_start (text_buffer s)"
    "\<not> freeze_end (text_buffer s)" "total_len (text_buffer s) \<le> EV_SSIZE_MAX"
  using assms
  by (simp_all add: evbuffer_ok_def text_buffer_def sample_chain_def evbuffer_new_def lwd_ok_def chain_ok_def CHAIN_PINNED_def
      evbuffer_chains_all_empty_def content_def cdata_def EV_SIZE_MAX_def EVBUFFER_CHAIN_MAX_def EVBUFFER_CHAIN_SIZE_def EV_SSIZE_MAX_def)

definition sample_request :: evhttp_request where
  "sample_request = \<lparr>req_flags = 0, input_headers = [], output_headers = [], req_kind = EVHTTP_REQUEST, req_type = EVHTTP_REQ_GET,
     headers_size = 0, body_size = 0, req_uri = None, uri_elems = None, major = 1, minor = 1, response_code = 0,
     response_code_line = None, input_buffer = evbuffer_new, ntoread = 0, chunked = False, output_buffer = evbuffer_new,
     max_headers_size = Some 1000, max_body_size = 1000\<rparr>"

theorem headers_round_trip_witness:
  "\<exists>req' b'. evhttp_parse_headers (\<lambda>_. True) sample_request (text_buffer (headers_text [([65], [98, 32, 99]), ([68], [])] @ [120])) =
     Some (ALL_DATA_READ, req', b') \<and> content b' = [120] \<and> input_headers req' = [([65], [98, 32, 99]), ([68], [])]"
  using headers_round_trip [OF text_buffer_ok(1,6,4), of "headers_text [([65], [98, 32, 99]), ([68], [])] @ [120]" "\<lambda>_. True"
      "[([65], [98, 32, 99]), ([68], [])]" "[120]" sample_request] text_buffer_ok(2) [of "headers_text [([65], [98, 32, 99]), ([68], [])] @ [120]"]
  by (simp add: headers_text_def header_line_def header_ok_def lws_def too_long_def CR_def LF_def) (auto simp: sample_request_def)

lemma eol_spec_crlf: "eol_spec EVBUFFER_EOL_CRLF s = Some (m, e) \<Longrightarrow> 0 < e \<and> m + e \<le> length s"
  by (auto simp: eol_spec_def first_index_eq_Some Suc_le_eq split: if_splits)

text \<open>The buffer is left with a final part of its bytes.\<close>

definition headers_left :: "u8 list \<Rightarrow> (message_read_status \<times> evhttp_request \<times> evbuffer) option \<Rightarrow> bool" where
  "headers_left s r \<longleftrightarrow> (\<exists>st req' b' n. r = Some (st, req', b') \<and> evbuffer_ok b' \<and> content b' = drop n s \<and> n \<le> length s \<and>
     st \<in> {ALL_DATA_READ, MORE_DATA_EXPECTED, DATA_CORRUPTED, DATA_TOO_LONG} \<and> (st = ALL_DATA_READ \<longrightarrow> 0 < n \<and> s ! (n - 1) = LF))"

lemma headers_left_drop: "headers_left (drop k s) r \<Longrightarrow> k \<le> length s \<Longrightarrow> headers_left s r"
  unfolding headers_left_def by (elim exE conjE, rule exI, rule exI, rule exI, rule_tac x = "k + n" in exI) (auto simp: add.commute)

lemma parse_headers_left:
  assumes "evbuffer_ok b" "total_len b \<le> EV_SSIZE_MAX" "\<not> freeze_start b"
  shows "headers_left (content b) (evhttp_parse_headers ok req b)"
  using assms
proof (induction "total_len b" arbitrary: b req rule: less_induct)
  case less
  from readln_ok [OF less.prems, of ok EVBUFFER_EOL_CRLF] obtain b1 where b1:
    "evbuffer_readln ok b EVBUFFER_EOL_CRLF = (case eol_spec EVBUFFER_EOL_CRLF (content b) of None \<Rightarrow> Some (None, b)
       | Some (m, e) \<Rightarrow> if ok (m + 1) then Some (Some (take m (content b)), b1) else Some (None, b))"
    "evbuffer_ok b1" "freeze_start b1 = freeze_start b"
    "\<And>m e. eol_spec EVBUFFER_EOL_CRLF (content b) = Some (m, e) \<Longrightarrow> content b1 = drop (m + e) (content b)" by blast
  show ?case
  proof (cases "\<exists>m e. eol_spec EVBUFFER_EOL_CRLF (content b) = Some (m, e) \<and> ok (m + 1)")
    case False
    then have "evbuffer_readln ok b EVBUFFER_EOL_CRLF = Some (None, b)" using b1(1) by (auto split: option.splits)
    then show ?thesis using less.prems
      by (subst evhttp_parse_headers.simps) (auto simp: headers_left_def intro!: exI [of _ 0])
  next
    case True
    then obtain m e where me: "eol_spec EVBUFFER_EOL_CRLF (content b) = Some (m, e)" "ok (m + 1)" by blast
    define l where "l = take m (content b)"
    have r: "evbuffer_readln ok b EVBUFFER_EOL_CRLF = Some (Some l, b1)" using b1(1) me by (simp add: l_def)
    have c: "content b1 = drop (m + e) (content b)" using b1(4) me(1) .
    have e: "0 < e" "m + e \<le> length (content b)" using eol_spec_crlf [OF me(1)] by auto
    have lf: "content b ! (m + e - 1) = LF"
      using me(1) by (auto simp: eol_spec_def first_index_eq_Some split: if_splits)
    have "total_len b1 < total_len b"
      using c e length_content [OF b1(2)] length_content [OF less.prems(1)] by simp
    then have IH: "headers_left (content b) (evhttp_parse_headers ok q b1)" for q
      using headers_left_drop [OF _ e(2)] less.hyps [of b1 q] b1(2,3) less.prems by (simp add: c)
    have fin: "headers_left (content b) (Some (st, q, b1))"
      if "st \<in> {ALL_DATA_READ, MORE_DATA_EXPECTED, DATA_CORRUPTED, DATA_TOO_LONG}" for st q
      using that b1(2) c e lf unfolding headers_left_def
      by (intro exI [of _ st] exI [of _ q] exI [of _ b1] exI [of _ "m + e"]) auto
    show ?thesis by (subst evhttp_parse_headers.simps) (simp add: r Let_def IH fin)
  qed
qed

text \<open>
  The parser of headers ends on every buffer, whatever bytes it holds. The buffer is well-formed afterwards and
  holds a final part of what it held; the status is one of four, and all headers are read only if the bytes that
  were taken end with a line break.
\<close>

theorem parse_headers_returns:
  assumes "evbuffer_ok b" "total_len b \<le> EV_SSIZE_MAX" "\<not> freeze_start b"
  shows "\<exists>st req' b' n. evhttp_parse_headers ok req b = Some (st, req', b') \<and> evbuffer_ok b' \<and> content b' = drop n (content b) \<and>
     n \<le> length (content b) \<and> st \<in> {ALL_DATA_READ, MORE_DATA_EXPECTED, DATA_CORRUPTED, DATA_TOO_LONG} \<and>
     (st = ALL_DATA_READ \<longrightarrow> 0 < n \<and> content b ! (n - 1) = LF)"
  using parse_headers_left [OF assms, of ok req] unfolding headers_left_def .

theorem parse_headers_returns_witness:
  "\<exists>st req' b'. evhttp_parse_headers (\<lambda>_. True) sample_request (text_buffer [120, 10, 121]) = Some (st, req', b') \<and> evbuffer_ok b'"
  using parse_headers_returns [OF text_buffer_ok(1,6,4), of "[120, 10, 121]" "\<lambda>_. True" sample_request] by auto

lemma valid_value_folded:
  assumes "set v1 \<inter> {CR, LF} = {}" "set v2 \<inter> {CR, LF} = {}"
  shows "evhttp_header_is_valid_value (v1 @ [CR, LF, CR, LF, 32] @ v2)"
proof -
  have c: "\<not> crlf_char 32" by (simp add: CR_def LF_def)
  have "list_all (\<lambda>c. \<not> crlf_char c) v1" using assms(1) by (auto simp: list_all_iff)
  then have "dropWhile (\<lambda>c. \<not> crlf_char c) (v1 @ [CR, LF, CR, LF, 32] @ v2) = [CR, LF, CR, LF, 32] @ v2"
    by (rule takeWhile_digits(2)) simp
  moreover have "dropWhile crlf_char ([CR, LF, CR, LF, 32] @ v2) = 32 # v2" using c by simp
  moreover have "evhttp_header_is_valid_value (32 # v2)" using assms(2) by (intro valid_value_plain) (auto simp: CR_def LF_def)
  ultimately show ?thesis by (subst evhttp_header_is_valid_value.simps) simp
qed

text \<open>
  C34. A header can end the headers: \<^verbatim>\<open>evhttp_add_header\<close> accepts a value that contains an empty line, as long as the
  next line begins with a blank, because it skips any number of line breaks before it looks for the blank. When such a
  header is written and read, the reader gets the part of the value in front of the empty line, takes the headers for
  finished and leaves the rest of the value in the buffer as the first bytes of the body.
\<close>

theorem header_value_splits:
  assumes "evbuffer_ok b" "total_len b \<le> EV_SSIZE_MAX" "\<not> freeze_start b" "\<forall>n \<le> total_len b. ok n"
    "content b = headers_text [(k, v1 @ [CR, LF, CR, LF, 32] @ v2)] @ rest" "header_ok (k, v1)" "set v2 \<inter> {CR, LF} = {}"
    "headers_size req + length (headers_text [(k, v1)]) < 2 ^ 64" "\<not> too_long req (headers_size req + length (headers_text [(k, v1)]))"
  shows "evhttp_add_header hs k (v1 @ [CR, LF, CR, LF, 32] @ v2) = (0, hs @ [(k, v1 @ [CR, LF, CR, LF, 32] @ v2)]) \<and>
    (\<exists>req' b'. evhttp_parse_headers ok req b = Some (ALL_DATA_READ, req', b') \<and> input_headers req' = input_headers req @ [(k, v1)] \<and>
       content b' = [32] @ v2 @ [CR, LF, CR, LF] @ rest)"
proof -
  have kv: "set k \<inter> {CR, LF} = {}" "set v1 \<inter> {CR, LF} = {}" using assms(6) by (auto simp: header_ok_def)
  have "content b = headers_text [(k, v1)] @ [32] @ v2 @ [CR, LF, CR, LF] @ rest"
    using assms(5) by (simp add: headers_text_def header_line_def)
  from parse_headers_text [OF assms(1-4) this _ assms(8,9)] assms(6) have
    "\<exists>req' b'. evhttp_parse_headers ok req b = Some (ALL_DATA_READ, req', b') \<and> input_headers req' = input_headers req @ [(k, v1)] \<and>
       content b' = [32] @ v2 @ [CR, LF, CR, LF] @ rest" by auto
  moreover have "evhttp_add_header hs k (v1 @ [CR, LF, CR, LF, 32] @ v2) = (0, hs @ [(k, v1 @ [CR, LF, CR, LF, 32] @ v2)])"
    using kv(1) valid_value_folded [OF kv(2) assms(7)] by (auto simp: evhttp_add_header_def evhttp_add_header_internal_def)
  ultimately show ?thesis by blast
qed

theorem header_value_splits_witness:
  "\<exists>req' b'. evhttp_add_header [] [65] [98, 13, 10, 13, 10, 32, 99] = (0, [([65], [98, 13, 10, 13, 10, 32, 99])]) \<and>
     evhttp_parse_headers (\<lambda>_. True) sample_request (text_buffer (headers_text [([65], [98, 13, 10, 13, 10, 32, 99])])) =
       Some (ALL_DATA_READ, req', b') \<and> input_headers req' = [([65], [98])] \<and> content b' = [32, 99, 13, 10, 13, 10]"
  using header_value_splits [OF text_buffer_ok(1,6,4), of "headers_text [([65], [98, 13, 10, 13, 10, 32, 99])]" "\<lambda>_. True" "[65]" "[98]" "[99]" "[]"
      sample_request "[]"] text_buffer_ok(2) [of "headers_text [([65], [98, 13, 10, 13, 10, 32, 99])]"]
  by (simp add: headers_text_def header_line_def header_ok_def lws_def too_long_def CR_def LF_def) (auto simp: sample_request_def)

end
