(* ===== verification/Http_Message.thy ===== *)
theory Http_Message
  imports Evbuffer_Move Http_Headers
begin

text \<open>
  Messages of \<^verbatim>\<open>src/http.c\<close>: the first line of a request or a response, the virtual hosts of a server, the headers that
  are added to a message, and the body of a chunked message. Requests are the records of the theory of headers; the
  input of the connection is an evbuffer. What is printed into a buffer is given as its bytes.
\<close>

section \<open>Virtual hosts\<close>

function prefix_suffix_match :: "cstr \<Rightarrow> cstr \<Rightarrow> bool \<Rightarrow> bool" where
  "prefix_suffix_match [] name ignorecase \<longleftrightarrow> name = []"
| "prefix_suffix_match (c # pattern) name ignorecase \<longleftrightarrow>
     (if c = 42 then
        (if name = [] then False
         else if prefix_suffix_match pattern name ignorecase then True
         else prefix_suffix_match (c # pattern) (tl name) ignorecase)
      else
        (if c \<noteq> cur name \<and> (\<not> ignorecase \<or> EVUTIL_TOLOWER c \<noteq> EVUTIL_TOLOWER (cur name)) then False
         else prefix_suffix_match pattern (tl name) ignorecase))"
  by pat_completeness auto
termination
proof (relation "measure (\<lambda>(p, n, i). length p + length n)", goal_cases)
  case (3 c pattern name ignorecase)
  then show ?case by (cases name) simp_all
qed auto

text \<open>A server with its virtual hosts; the pattern of the root is absent.\<close>

datatype evhttp = Evhttp (vhost_pattern: "cstr option") (aliases: "cstr list") (virtualhosts: "evhttp list")

fun evhttp_find_alias :: "evhttp \<Rightarrow> cstr \<Rightarrow> evhttp option" and find_alias_in :: "evhttp list \<Rightarrow> cstr \<Rightarrow> evhttp option" where
  "evhttp_find_alias (Evhttp p al vs) hostname =
     (if list_ex (\<lambda>a. evutil_ascii_strcasecmp a hostname = 0) al then Some (Evhttp p al vs)
      else find_alias_in vs hostname)"
| "find_alias_in [] hostname = None"
| "find_alias_in (v # vs) hostname =
     (case evhttp_find_alias v hostname of Some h \<Rightarrow> Some h | None \<Rightarrow> find_alias_in vs hostname)"

definition vhost_match :: "cstr \<Rightarrow> evhttp \<Rightarrow> bool" where
  "vhost_match hostname v \<longleftrightarrow> (case vhost_pattern v of None \<Rightarrow> False | Some p \<Rightarrow> prefix_suffix_match p hostname True)"

fun find_vhost_loop :: "evhttp \<Rightarrow> cstr \<Rightarrow> bool \<times> evhttp" and find_vhost_in :: "evhttp list \<Rightarrow> cstr \<Rightarrow> evhttp option" where
  "find_vhost_loop (Evhttp p al vs) hostname =
     (case find_vhost_in vs hostname of Some h \<Rightarrow> (True, h) | None \<Rightarrow> (False, Evhttp p al vs))"
| "find_vhost_in [] hostname = None"
| "find_vhost_in (v # vs) hostname =
     (if vhost_match hostname v then Some (snd (find_vhost_loop v hostname)) else find_vhost_in vs hostname)"

definition evhttp_find_vhost :: "evhttp \<Rightarrow> cstr \<Rightarrow> bool \<times> evhttp" where
  "evhttp_find_vhost http hostname =
     (case evhttp_find_alias http hostname of Some h \<Rightarrow> (True, h) | None \<Rightarrow> find_vhost_loop http hostname)"

section \<open>The first line\<close>

text \<open>\<^verbatim>\<open>%d\<close> of \<^verbatim>\<open>sscanf\<close>: blanks, a sign, digits; the value of \<^verbatim>\<open>strtol\<close> is stored in an \<^verbatim>\<open>int\<close>.\<close>

definition scan_d :: "cstr \<Rightarrow> (int \<times> cstr) option" where
  "scan_d s =
     (let s1 = dropWhile EVUTIL_ISSPACE s;
          s2 = (if cur s1 = 43 \<or> cur s1 = 45 then tl s1 else s1);
          ds = takeWhile EVUTIL_ISDIGIT s2; v = int (num_val 10 ds)
      in if ds = [] then None
         else Some (c_int (if cur s1 = 45 then max (- (2 ^ 63)) (- v) else min LONG_MAX v), dropWhile EVUTIL_ISDIGIT s2))"

text \<open>Conversion to \<^verbatim>\<open>char\<close>, which is signed.\<close>

definition c_char :: "int \<Rightarrow> int" where
  "c_char n = signed_take_bit 7 n"

abbreviation HTTP_SLASH :: cstr where "HTTP_SLASH \<equiv> [72, 84, 84, 80, 47]"

definition scan_version :: "cstr \<Rightarrow> (int \<times> int) option" where
  "scan_version version =
     (if take 5 version \<noteq> HTTP_SLASH then None
      else do {
        (a, s) \<leftarrow> scan_d (drop 5 version);
        s \<leftarrow> expect 46 s;
        (b, s) \<leftarrow> scan_d s;
        if s = [] then Some (a, b) else None })"

definition evhttp_parse_http_version :: "cstr \<Rightarrow> evhttp_request \<Rightarrow> evhttp_request option" where
  "evhttp_parse_http_version version req =
     (case scan_version version of
        None \<Rightarrow> None
      | Some (a, b) \<Rightarrow> if a > 1 then None else Some (req\<lparr>major := c_char a, minor := c_char b\<rparr>))"

definition evhttp_valid_response_code :: "int \<Rightarrow> bool" where
  "evhttp_valid_response_code code \<longleftrightarrow> code \<noteq> 0"

definition evhttp_parse_response_line :: "evhttp_request \<Rightarrow> cstr \<Rightarrow> int \<times> evhttp_request" where
  "evhttp_parse_response_line req line =
     (case strsep 32 line of
        (protocol, None) \<Rightarrow> (-1, req)
      | (protocol, Some l1) \<Rightarrow>
          (case strsep 32 l1 of (number, l2) \<Rightarrow>
             (case evhttp_parse_http_version protocol req of
                None \<Rightarrow> (-1, req)
              | Some req1 \<Rightarrow>
                  (let req2 = req1\<lparr>response_code := atoi number\<rparr>
                   in if \<not> evhttp_valid_response_code (response_code req2) then (-1, req2)
                      else (0, req2\<lparr>response_code_line := Some (case l2 of None \<Rightarrow> [] | Some r \<Rightarrow> r)\<rparr>)))))"

definition evhttp_method :: "evhttp_cmd_type \<Rightarrow> cstr option" where
  "evhttp_method t =
     (case t of
        EVHTTP_REQ_GET \<Rightarrow> Some (map of_char ''GET'')
      | EVHTTP_REQ_POST \<Rightarrow> Some (map of_char ''POST'')
      | EVHTTP_REQ_HEAD \<Rightarrow> Some (map of_char ''HEAD'')
      | EVHTTP_REQ_PUT \<Rightarrow> Some (map of_char ''PUT'')
      | EVHTTP_REQ_DELETE \<Rightarrow> Some (map of_char ''DELETE'')
      | EVHTTP_REQ_OPTIONS \<Rightarrow> Some (map of_char ''OPTIONS'')
      | EVHTTP_REQ_TRACE \<Rightarrow> Some (map of_char ''TRACE'')
      | EVHTTP_REQ_CONNECT \<Rightarrow> Some (map of_char ''CONNECT'')
      | EVHTTP_REQ_PATCH \<Rightarrow> Some (map of_char ''PATCH'')
      | EVHTTP_REQ_UNKNOWN \<Rightarrow> None)"

text \<open>The nested switches over the length and the characters of the method.\<close>

definition method_type :: "cstr \<Rightarrow> evhttp_cmd_type" where
  "method_type m =
     (if length m = 3 then
        (if m ! 2 \<noteq> 84 then EVHTTP_REQ_UNKNOWN
         else if m ! 0 = 71 then (if m ! 1 = 69 then EVHTTP_REQ_GET else EVHTTP_REQ_UNKNOWN)
         else if m ! 0 = 80 then (if m ! 1 = 85 then EVHTTP_REQ_PUT else EVHTTP_REQ_UNKNOWN)
         else EVHTTP_REQ_UNKNOWN)
      else if length m = 4 then
        (if m ! 0 = 80 then (if m ! 3 = 84 \<and> m ! 2 = 83 \<and> m ! 1 = 79 then EVHTTP_REQ_POST else EVHTTP_REQ_UNKNOWN)
         else if m ! 0 = 72 then (if m ! 3 = 68 \<and> m ! 2 = 65 \<and> m ! 1 = 69 then EVHTTP_REQ_HEAD else EVHTTP_REQ_UNKNOWN)
         else EVHTTP_REQ_UNKNOWN)
      else if length m = 5 then
        (if m ! 0 = 80 then (if m ! 4 = 72 \<and> m ! 3 = 67 \<and> m ! 2 = 84 \<and> m ! 1 = 65 then EVHTTP_REQ_PATCH else EVHTTP_REQ_UNKNOWN)
         else if m ! 0 = 84 then (if m ! 4 = 69 \<and> m ! 3 = 67 \<and> m ! 2 = 65 \<and> m ! 1 = 82 then EVHTTP_REQ_TRACE else EVHTTP_REQ_UNKNOWN)
         else EVHTTP_REQ_UNKNOWN)
      else if length m = 6 then
        (if m ! 0 \<noteq> 68 then EVHTTP_REQ_UNKNOWN
         else if m ! 5 = 69 \<and> m ! 4 = 84 \<and> m ! 3 = 69 \<and> m ! 2 = 76 \<and> m ! 1 = 69 then EVHTTP_REQ_DELETE else EVHTTP_REQ_UNKNOWN)
      else if length m = 7 then
        (if m ! 0 = 79 then
           (if m ! 6 = 83 \<and> m ! 5 = 78 \<and> m ! 4 = 79 \<and> m ! 3 = 73 \<and> m ! 2 = 84 \<and> m ! 1 = 80 then EVHTTP_REQ_OPTIONS else EVHTTP_REQ_UNKNOWN)
         else if m ! 0 = 67 then
           (if m ! 6 = 84 \<and> m ! 5 = 67 \<and> m ! 4 = 69 \<and> m ! 3 = 78 \<and> m ! 2 = 78 \<and> m ! 1 = 79 then EVHTTP_REQ_CONNECT else EVHTTP_REQ_UNKNOWN)
         else EVHTTP_REQ_UNKNOWN)
      else EVHTTP_REQ_UNKNOWN)"

text \<open>The parts in front of and behind the last character \<open>c\<close>.\<close>

definition split_last :: "u8 \<Rightarrow> cstr \<Rightarrow> (cstr \<times> cstr) option" where
  "split_last c s = (case split_at c (rev s) of None \<Rightarrow> None | Some (a, r) \<Rightarrow> Some (rev r, rev a))"

definition EVHTTP_PROXY_REQUEST :: u32 where "EVHTTP_PROXY_REQUEST = 0x0002"
definition EVHTTP_REQ_DEFER_FREE :: u32 where "EVHTTP_REQ_DEFER_FREE = 0x0008"
definition EVHTTP_REQ_NEEDS_FREE :: u32 where "EVHTTP_REQ_NEEDS_FREE = 0x0010"

definition is_proxy_uri :: "evhttp \<Rightarrow> evhttp_uri \<Rightarrow> bool" where
  "is_proxy_uri server u \<longleftrightarrow>
     (case (scheme u, host u) of
        (Some s, Some h) \<Rightarrow>
          (evutil_ascii_strcasecmp s (map of_char ''http'') = 0 \<or> evutil_ascii_strcasecmp s (map of_char ''https'') = 0) \<and>
          \<not> fst (evhttp_find_vhost server h)
      | _ \<Rightarrow> False)"

text \<open>\<open>bytes\<close> are the bytes of the line, which may contain 0.\<close>

definition evhttp_parse_request_line :: "evhttp \<Rightarrow> evhttp_request \<Rightarrow> u8 list \<Rightarrow> int \<times> evhttp_request" where
  "evhttp_parse_request_line server req bytes =
     (let line = rev (dropWhile (\<lambda>c. c = 32) (rev bytes))
      in if length line < 14 then (-1, req)
         else
           (case strsep 32 (cstring line) of
              (m, None) \<Rightarrow> (-1, req)
            | (m, Some l1) \<Rightarrow>
                (case split_last 32 l1 of
                   None \<Rightarrow> (-1, req)
                 | Some (uri, version) \<Rightarrow>
                     if uri = [] then (-1, req)
                     else
                       (let req1 = req\<lparr>req_type := method_type m\<rparr>
                        in case evhttp_parse_http_version version req1 of
                             None \<Rightarrow> (-1, req1)
                           | Some req2 \<Rightarrow>
                               (let elems = (if req_type req2 = EVHTTP_REQ_CONNECT then evhttp_uri_parse_authority uri
                                             else evhttp_uri_parse_with_flags uri EVHTTP_URI_NONCONFORMANT);
                                    req3 = req2\<lparr>req_uri := Some uri, uri_elems := elems\<rparr>
                                in case elems of
                                     None \<Rightarrow> (-1, req3)
                                   | Some u \<Rightarrow>
                                       (0, if is_proxy_uri server u
                                           then req3\<lparr>req_flags := req_flags req3 OR EVHTTP_PROXY_REQUEST\<rparr> else req3))))))"

definition evhttp_parse_firstline ::
  "(nat \<Rightarrow> bool) \<Rightarrow> evhttp \<Rightarrow> evhttp_request \<Rightarrow> evbuffer \<Rightarrow> (message_read_status \<times> evhttp_request \<times> evbuffer) option" where
  "evhttp_parse_firstline ok server req buffer = do {
     (r, b) \<leftarrow> evbuffer_readln ok buffer EVBUFFER_EOL_CRLF;
     Some (case r of
       None \<Rightarrow> (if too_long req (total_len b) then DATA_TOO_LONG else MORE_DATA_EXPECTED, req, b)
     | Some bytes \<Rightarrow>
         if too_long req (length bytes) then (DATA_TOO_LONG, req, b)
         else
           (let req1 = req\<lparr>headers_size := length bytes\<rparr>;
                (res, req2) = (case req_kind req1 of
                    EVHTTP_REQUEST \<Rightarrow> evhttp_parse_request_line server req1 bytes
                  | EVHTTP_RESPONSE \<Rightarrow> evhttp_parse_response_line req1 (cstring bytes))
            in (if res = -1 then DATA_CORRUPTED else ALL_DATA_READ, req2, b))) }"

section \<open>Writing a first line\<close>

text \<open>\<^verbatim>\<open>%d\<close> of \<^verbatim>\<open>printf\<close>.\<close>

definition fmt_i :: "int \<Rightarrow> cstr" where
  "fmt_i n = (if n < 0 then 45 # fmt_d (nat (- n)) else fmt_d (nat n))"

definition version_text :: "evhttp_request \<Rightarrow> cstr" where
  "version_text req = HTTP_SLASH @ fmt_i (major req) @ [46] @ fmt_i (minor req)"

definition request_line :: "evhttp_request \<Rightarrow> cstr" where
  "request_line req =
     (case evhttp_method (req_type req) of Some m \<Rightarrow> m | None \<Rightarrow> map of_char ''NULL'') @ [32] @
     (case req_uri req of Some u \<Rightarrow> u | None \<Rightarrow> map of_char ''(null)'') @ [32] @ version_text req @ [CR, LF]"

definition status_line :: "evhttp_request \<Rightarrow> cstr" where
  "status_line req =
     version_text req @ [32] @ fmt_i (response_code req) @ [32] @
     (case response_code_line req of Some r \<Rightarrow> r | None \<Rightarrow> map of_char ''(null)'') @ [CR, LF]"

section \<open>The methods\<close>

lemma evhttp_method_plain:
  "evhttp_method t = Some m \<Longrightarrow> 3 \<le> length m \<and> set m \<inter> {0, LF, 32} = {}"
  by (cases t) (auto simp: evhttp_method_def LF_def)

lemma method_type_method: "evhttp_method t = Some m \<Longrightarrow> method_type m = t"
  by (cases t) (auto simp: evhttp_method_def, auto simp: method_type_def)

lemma method_of_type:
  assumes "method_type m \<noteq> EVHTTP_REQ_UNKNOWN"
  shows "evhttp_method (method_type m) = Some m"
proof -
  consider "length m = 3" | "length m = 4" | "length m = 5" | "length m = 6" | "length m = 7"
    using assms by (force simp: method_type_def)
  then show ?thesis
  proof cases
    case 1
    then have "m = [m ! 0, m ! 1, m ! 2]" using map_nth [of m] by (simp add: upt_rec numeral_eq_Suc)
    then obtain a b c where m: "m = [a, b, c]" by blast
    show ?thesis using assms unfolding m by (simp add: method_type_def evhttp_method_def split: if_splits)
  next
    case 2
    then have "m = [m ! 0, m ! 1, m ! 2, m ! 3]" using map_nth [of m] by (simp add: upt_rec numeral_eq_Suc)
    then obtain a b c d where m: "m = [a, b, c, d]" by blast
    show ?thesis using assms unfolding m by (simp add: method_type_def evhttp_method_def split: if_splits)
  next
    case 3
    then have "m = [m ! 0, m ! 1, m ! 2, m ! 3, m ! 4]" using map_nth [of m] by (simp add: upt_rec numeral_eq_Suc)
    then obtain a b c d e where m: "m = [a, b, c, d, e]" by blast
    show ?thesis using assms unfolding m by (simp add: method_type_def evhttp_method_def split: if_splits)
  next
    case 4
    then have "m = [m ! 0, m ! 1, m ! 2, m ! 3, m ! 4, m ! 5]" using map_nth [of m] by (simp add: upt_rec numeral_eq_Suc)
    then obtain a b c d e f where m: "m = [a, b, c, d, e, f]" by blast
    show ?thesis using assms unfolding m by (simp add: method_type_def evhttp_method_def split: if_splits)
  next
    case 5
    then have "m = [m ! 0, m ! 1, m ! 2, m ! 3, m ! 4, m ! 5, m ! 6]" using map_nth [of m] by (simp add: upt_rec numeral_eq_Suc)
    then obtain a b c d e f g where m: "m = [a, b, c, d, e, f, g]" by blast
    show ?thesis using assms unfolding m by (simp add: method_type_def evhttp_method_def split: if_splits)
  qed
qed

text \<open>
  The nested switches over the length and the single characters recognise exactly the methods of the table:
  a method that is not unknown is found for its own name and for no other text, in this case of the letters.
\<close>

theorem method_type_iff:
  "(t \<noteq> EVHTTP_REQ_UNKNOWN \<and> method_type m = t) = (evhttp_method t = Some m)"
  using method_of_type [of m] method_type_method [of t m] by (auto simp: evhttp_method_def)

section \<open>Reading a first line back\<close>

lemma scan_d_digits:
  assumes "n \<le> 2147483647" "t = [] \<or> \<not> EVUTIL_ISDIGIT (hd t)"
  shows "scan_d (fmt_d n @ t) = Some (int n, t)"
proof -
  obtain c s where cs: "fmt_d n = c # s" by (cases "fmt_d n") auto
  have "EVUTIL_ISDIGIT c" using fmt_d_digits [of n] cs by simp
  then have "dropWhile EVUTIL_ISSPACE (fmt_d n @ t) = fmt_d n @ t" "cur (fmt_d n @ t) \<noteq> 43" "cur (fmt_d n @ t) \<noteq> 45"
    using digit_not_space [of c] by (auto simp: cs)
  moreover have "c_int (int n) = int n" using assms(1) by (intro c_int_id) (auto simp: INT_MAX_def)
  ultimately show ?thesis
    using takeWhile_digits [OF fmt_d_digits assms(2), of n] num_val_digits [of 10 n] assms(1)
    by (simp add: scan_d_def Let_def LONG_MAX_def min_def)
qed

lemma c_char_id: "0 \<le> n \<Longrightarrow> n \<le> 127 \<Longrightarrow> c_char n = n"
  unfolding c_char_def by (rule signed_take_bit_int_eq_self) auto

lemma parse_version_text:
  assumes "major w \<in> {0, 1}" "0 \<le> minor w" "minor w \<le> 127"
  shows "evhttp_parse_http_version (version_text w) req = Some (req\<lparr>major := major w, minor := minor w\<rparr>)"
proof -
  have a: "scan_d (fmt_d (nat (major w)) @ 46 # t) = Some (int (nat (major w)), 46 # t)" for t
    by (rule scan_d_digits) (use assms(1) in \<open>auto simp: EVUTIL_ISDIGIT_iff\<close>)
  have b: "scan_d (fmt_d (nat (minor w))) = Some (int (nat (minor w)), [])"
    using scan_d_digits [of "nat (minor w)" "[]"] assms by simp
  have "scan_version (version_text w) = Some (major w, minor w)"
    using assms by (auto simp: scan_version_def version_text_def fmt_i_def a b expect_def)
  then show ?thesis using assms by (auto simp: evhttp_parse_http_version_def c_char_id)
qed

lemma digits_plain: "x \<in> set (fmt_d n) \<Longrightarrow> x \<notin> {0, LF, CR, 32}"
  using fmt_d_digits [of n] by (auto simp: list_all_iff EVUTIL_ISDIGIT_iff LF_def CR_def word_le_nat_alt)

lemma version_text_plain:
  assumes "major w \<in> {0, 1}" "0 \<le> minor w"
  shows "set (version_text w) \<inter> {0, LF, CR, 32} = {}" "8 \<le> length (version_text w)" "last (version_text w) \<noteq> 32"
proof -
  have "\<not> minor w < 0" "\<not> major w < 0" using assms by auto
  then have v: "version_text w = HTTP_SLASH @ fmt_d (nat (major w)) @ [46] @ fmt_d (nat (minor w))"
    by (simp add: version_text_def fmt_i_def)
  show p: "set (version_text w) \<inter> {0, LF, CR, 32} = {}"
    using digits_plain by (auto simp: v LF_def CR_def)
  have d: "1 \<le> length (fmt_d n)" for n by (cases "fmt_d n") auto
  have "length (version_text w) = 6 + length (fmt_d (nat (major w))) + length (fmt_d (nat (minor w)))" by (simp add: v)
  then show "8 \<le> length (version_text w)" using d [of "nat (major w)"] d [of "nat (minor w)"] by linarith
  have "version_text w \<noteq> []" by (simp add: v)
  from last_in_set [OF this] p show "last (version_text w) \<noteq> 32" by blast
qed

lemma split_last_last: "c \<notin> set b \<Longrightarrow> split_last c (a @ c # b) = Some (a, b)"
  by (simp add: split_last_def split_at_first)

definition uri_of_type :: "evhttp_cmd_type \<Rightarrow> cstr \<Rightarrow> evhttp_uri option" where
  "uri_of_type t u =
     (if t = EVHTTP_REQ_CONNECT then evhttp_uri_parse_authority u else evhttp_uri_parse_with_flags u EVHTTP_URI_NONCONFORMANT)"

text \<open>A request that can be written as one line.\<close>

definition request_ok :: "evhttp_request \<Rightarrow> bool" where
  "request_ok w \<longleftrightarrow> req_type w \<noteq> EVHTTP_REQ_UNKNOWN \<and> major w \<in> {0, 1} \<and> 0 \<le> minor w \<and> minor w \<le> 127 \<and>
     (case req_uri w of None \<Rightarrow> False | Some u \<Rightarrow> u \<noteq> [] \<and> set u \<inter> {0, LF} = {} \<and> uri_of_type (req_type w) u \<noteq> None)"

lemma parse_request_line_ok:
  assumes "request_ok w"
  shows "\<exists>line. request_line w = line @ [CR, LF] \<and> set line \<inter> {0, LF} = {} \<and>
     (\<forall>server req. \<exists>fl. evhttp_parse_request_line server req line =
       (0, req\<lparr>req_type := req_type w, major := major w, minor := minor w, req_uri := req_uri w,
               uri_elems := uri_of_type (req_type w) (the (req_uri w)), req_flags := fl\<rparr>))"
proof -
  obtain m where m: "evhttp_method (req_type w) = Some m" using assms by (cases "req_type w") (auto simp: request_ok_def evhttp_method_def)
  obtain u el where u: "req_uri w = Some u" "u \<noteq> []" "set u \<inter> {0, LF} = {}" "uri_of_type (req_type w) u = Some el"
    using assms by (auto simp: request_ok_def split: option.splits)
  have v: "major w \<in> {0, 1}" "0 \<le> minor w" "minor w \<le> 127" using assms by (auto simp: request_ok_def)
  note vp = version_text_plain [OF v(1,2)] and mp = evhttp_method_plain [OF m]
  define line where "line = m @ [32] @ u @ [32] @ version_text w"
  have l: "request_line w = line @ [CR, LF]" by (simp add: request_line_def m u(1) line_def)
  have plain: "set line \<inter> {0, LF} = {}" using mp u(3) vp(1) by (auto simp: line_def LF_def)
  have trim: "rev (dropWhile (\<lambda>c. c = 32) (rev line)) = line"
  proof -
    have "version_text w \<noteq> []" using vp(2) by auto
    then have "last line \<noteq> 32" "line \<noteq> []" using vp(3) by (auto simp: line_def)
    then show ?thesis by (cases line rule: rev_cases) auto
  qed
  have len: "\<not> length line < 14" using vp(2) mp u(2) by (cases u) (auto simp: line_def)
  have cs: "cstring line = line" using plain by (intro cstring_id) auto
  have s1: "strsep 32 line = (m, Some (u @ 32 # version_text w))"
    using strsep_first(1) [of 32 m "u @ 32 # version_text w"] mp by (simp add: line_def)
  have s2: "split_last 32 (u @ 32 # version_text w) = Some (u, version_text w)" using vp(1) by (intro split_last_last) auto
  have el: "(if req_type w = EVHTTP_REQ_CONNECT then evhttp_uri_parse_authority u
      else evhttp_uri_parse_with_flags u EVHTTP_URI_NONCONFORMANT) = Some el" using u(4) by (simp add: uri_of_type_def)
  have "\<exists>fl. evhttp_parse_request_line server req line =
       (0, req\<lparr>req_type := req_type w, major := major w, minor := minor w, req_uri := req_uri w, uri_elems := Some el, req_flags := fl\<rparr>)" for server req
    unfolding evhttp_parse_request_line_def Let_def trim
    using len u(2) parse_version_text [OF v] el
    by (auto simp: cs s1 s2 method_type_method [OF m] u(1) intro: exI [of _ "req_flags req"])
  then show ?thesis using l plain u by auto
qed

lemma parse_firstline_line:
  assumes b: "evbuffer_ok b" "total_len b \<le> EV_SSIZE_MAX" "\<not> freeze_start b" "\<forall>n \<le> total_len b. ok n"
    and c: "content b = line @ [CR, LF] @ rest" "LF \<notin> set line" and long: "\<not> too_long req (length line)"
  obtains b' where "evbuffer_ok b'" "content b' = rest" "\<not> freeze_start b'" "freeze_end b' = freeze_end b" "total_len b' < total_len b"
    "evhttp_parse_firstline ok server req b =
      Some (let req1 = req\<lparr>headers_size := length line\<rparr>;
                (res, req2) = (case req_kind req1 of
                    EVHTTP_REQUEST \<Rightarrow> evhttp_parse_request_line server req1 line
                  | EVHTTP_RESPONSE \<Rightarrow> evhttp_parse_response_line req1 (cstring line))
            in (if res = -1 then DATA_CORRUPTED else ALL_DATA_READ, req2, b'))"
proof -
  from readln_crlf [OF b c] obtain b' where b': "evbuffer_readln ok b EVBUFFER_EOL_CRLF = Some (Some line, b')" "evbuffer_ok b'"
    "content b' = rest" "\<not> freeze_start b'" "freeze_end b' = freeze_end b" "total_len b' < total_len b" by blast
  show thesis by (rule that [OF b'(2-6)]) (simp add: evhttp_parse_firstline_def b'(1) long)
qed

lemma atoi_fmt:
  assumes "0 \<le> n" "n \<le> 2147483647"
  shows "atoi (fmt_i n) = n"
proof -
  obtain c s where cs: "fmt_d (nat n) = c # s" by (cases "fmt_d (nat n)") auto
  have "EVUTIL_ISDIGIT c" using fmt_d_digits [of "nat n"] cs by simp
  then have "dropWhile EVUTIL_ISSPACE (fmt_d (nat n)) = fmt_d (nat n)" "cur (fmt_d (nat n)) \<noteq> 43" "cur (fmt_d (nat n)) \<noteq> 45"
    using digit_not_space [of c] by (auto simp: cs)
  moreover have tw: "takeWhile EVUTIL_ISDIGIT (fmt_d (nat n)) = fmt_d (nat n)"
    using takeWhile_digits(1) [OF fmt_d_digits, of "[]" "nat n"] unfolding append_Nil2 by blast
  moreover have "c_int n = n" using assms by (intro c_int_id) (auto simp: INT_MAX_def)
  ultimately show ?thesis using assms num_val_digits [of 10 "nat n"] by (simp add: atoi_def Let_def fmt_i_def min_def tw)
qed

definition response_ok :: "evhttp_request \<Rightarrow> bool" where
  "response_ok w \<longleftrightarrow> major w \<in> {0, 1} \<and> 0 \<le> minor w \<and> minor w \<le> 127 \<and> 0 < response_code w \<and> response_code w \<le> 2147483647 \<and>
     (case response_code_line w of None \<Rightarrow> False | Some r \<Rightarrow> set r \<inter> {0, LF} = {})"

lemma parse_response_line_ok:
  assumes "response_ok w"
  shows "\<exists>line. status_line w = line @ [CR, LF] \<and> set line \<inter> {0, LF} = {} \<and>
     (\<forall>req. evhttp_parse_response_line req line =
       (0, req\<lparr>major := major w, minor := minor w, response_code := response_code w, response_code_line := response_code_line w\<rparr>))"
proof -
  obtain r where r: "response_code_line w = Some r" "set r \<inter> {0, LF} = {}"
    using assms by (auto simp: response_ok_def split: option.splits)
  have v: "major w \<in> {0, 1}" "0 \<le> minor w" "minor w \<le> 127" and c: "0 < response_code w" "response_code w \<le> 2147483647"
    using assms by (auto simp: response_ok_def)
  note vp = version_text_plain [OF v(1,2)]
  have n: "fmt_i (response_code w) = fmt_d (nat (response_code w))" using c by (simp add: fmt_i_def)
  define line where "line = version_text w @ [32] @ fmt_i (response_code w) @ [32] @ r"
  have l: "status_line w = line @ [CR, LF]" by (simp add: status_line_def r(1) line_def)
  have plain: "set line \<inter> {0, LF} = {}" using vp(1) r(2) digits_plain by (auto simp: line_def LF_def n)
  have s1: "strsep 32 line = (version_text w, Some (fmt_i (response_code w) @ 32 # r))"
    using strsep_first(1) [of 32 "version_text w"] vp(1) by (simp add: line_def)
  have s2: "strsep 32 (fmt_i (response_code w) @ 32 # r) = (fmt_i (response_code w), Some r)"
    using digits_plain [of 32 "nat (response_code w)"] by (intro strsep_first) (auto simp: n)
  have "evhttp_parse_response_line req line =
       (0, req\<lparr>major := major w, minor := minor w, response_code := response_code w, response_code_line := response_code_line w\<rparr>)" for req
    using c atoi_fmt [of "response_code w"] parse_version_text [OF v]
    by (simp add: evhttp_parse_response_line_def s1 s2 evhttp_valid_response_code_def Let_def r(1))
  then show ?thesis using l plain by blast
qed

lemma parse_firstline_written:
  assumes b: "evbuffer_ok b" "total_len b \<le> EV_SSIZE_MAX" "\<not> freeze_start b" "\<forall>n \<le> total_len b. ok n"
    and c: "content b = (case req_kind req of EVHTTP_REQUEST \<Rightarrow> request_line w | EVHTTP_RESPONSE \<Rightarrow> status_line w) @ rest"
    and w: "case req_kind req of EVHTTP_REQUEST \<Rightarrow> request_ok w | EVHTTP_RESPONSE \<Rightarrow> response_ok w"
    and long: "\<not> too_long req (total_len b)"
  shows "\<exists>req' b' n. evhttp_parse_firstline ok server req b = Some (ALL_DATA_READ, req', b') \<and>
     evbuffer_ok b' \<and> content b' = rest \<and> \<not> freeze_start b' \<and> total_len b' < total_len b \<and>
     major req' = major w \<and> minor req' = minor w \<and>
     headers_size req' + 2 + length rest = total_len b \<and> input_headers req' = input_headers req \<and> max_headers_size req' = max_headers_size req \<and>
     (case req_kind req of
        EVHTTP_REQUEST \<Rightarrow> req_type req' = req_type w \<and> req_uri req' = req_uri w \<and> uri_elems req' = uri_of_type (req_type w) (the (req_uri w))
      | EVHTTP_RESPONSE \<Rightarrow> response_code req' = response_code w \<and> response_code_line req' = response_code_line w)"
proof (cases "req_kind req")
  case EVHTTP_REQUEST
  with w have "request_ok w" by simp
  from parse_request_line_ok [OF this] obtain line where l: "request_line w = line @ [CR, LF]" "set line \<inter> {0, LF} = {}"
    and p: "\<forall>server req. \<exists>fl. evhttp_parse_request_line server req line =
       (0, req\<lparr>req_type := req_type w, major := major w, minor := minor w, req_uri := req_uri w,
               uri_elems := uri_of_type (req_type w) (the (req_uri w)), req_flags := fl\<rparr>)" by blast
  have cc: "content b = line @ [CR, LF] @ rest" "LF \<notin> set line" using c l EVHTTP_REQUEST by auto
  have len: "length line + 2 + length rest = total_len b" using length_content [OF b(1)] cc(1) by simp
  then have "\<not> too_long req (length line)" using long by (auto simp: too_long_def split: option.splits)
  from parse_firstline_line [OF b cc this, of server] EVHTTP_REQUEST obtain b' where
    b': "evbuffer_ok b'" "content b' = rest" "\<not> freeze_start b'" "freeze_end b' = freeze_end b" "total_len b' < total_len b"
    "evhttp_parse_firstline ok server req b = Some (let (res, req2) = evhttp_parse_request_line server (req\<lparr>headers_size := length line\<rparr>) line
       in (if res = -1 then DATA_CORRUPTED else ALL_DATA_READ, req2, b'))" by auto
  from p [rule_format, of server "req\<lparr>headers_size := length line\<rparr>"] obtain fl where
    "evhttp_parse_request_line server (req\<lparr>headers_size := length line\<rparr>) line =
       (0, req\<lparr>headers_size := length line, req_type := req_type w, major := major w, minor := minor w, req_uri := req_uri w,
               uri_elems := uri_of_type (req_type w) (the (req_uri w)), req_flags := fl\<rparr>)" by auto
  with b' len EVHTTP_REQUEST show ?thesis by auto
next
  case EVHTTP_RESPONSE
  with w have "response_ok w" by simp
  from parse_response_line_ok [OF this] obtain line where l: "status_line w = line @ [CR, LF]" "set line \<inter> {0, LF} = {}"
    and p: "\<forall>req. evhttp_parse_response_line req line =
       (0, req\<lparr>major := major w, minor := minor w, response_code := response_code w, response_code_line := response_code_line w\<rparr>)" by blast
  have cc: "content b = line @ [CR, LF] @ rest" "LF \<notin> set line" using c l EVHTTP_RESPONSE by auto
  have len: "length line + 2 + length rest = total_len b" using length_content [OF b(1)] cc(1) by simp
  then have "\<not> too_long req (length line)" using long by (auto simp: too_long_def split: option.splits)
  from parse_firstline_line [OF b cc this, of server] EVHTTP_RESPONSE obtain b' where
    b': "evbuffer_ok b'" "content b' = rest" "\<not> freeze_start b'" "freeze_end b' = freeze_end b" "total_len b' < total_len b"
    "evhttp_parse_firstline ok server req b = Some (let (res, req2) = evhttp_parse_response_line (req\<lparr>headers_size := length line\<rparr>) (cstring line)
       in (if res = -1 then DATA_CORRUPTED else ALL_DATA_READ, req2, b'))" by auto
  moreover have "cstring line = line" using l(2) by (intro cstring_id) auto
  moreover note p [rule_format, of "req\<lparr>headers_size := length line\<rparr>"]
  ultimately show ?thesis using len EVHTTP_RESPONSE by auto
qed


section \<open>Patterns of virtual hosts\<close>

text \<open>
  Matching without regard to case where an asterisk stands for any sequence of characters and every other character,
  \<^verbatim>\<open>?\<close> and \<^verbatim>\<open>[\<close> included, stands for itself.
\<close>

inductive star_match :: "cstr \<Rightarrow> cstr \<Rightarrow> bool" where
  star_match_Nil: "star_match [] []"
| star_match_char: "c \<noteq> 42 \<Longrightarrow> EVUTIL_TOLOWER c = EVUTIL_TOLOWER d \<Longrightarrow> star_match p n \<Longrightarrow> star_match (c # p) (d # n)"
| star_match_star: "star_match p n \<Longrightarrow> star_match (42 # p) (m @ n)"

inductive_simps star_match_Nil_iff: "star_match [] n"
inductive_simps star_match_Cons_iff: "star_match (c # p) n"

lemma star_match_star_Cons: "star_match (42 # p) (d # n) \<longleftrightarrow> star_match p (d # n) \<or> star_match (42 # p) n"
proof
  assume "star_match (42 # p) (d # n)"
  then obtain m n' where mn: "d # n = m @ n'" "star_match p n'" by (auto simp: star_match_Cons_iff)
  then show "star_match p (d # n) \<or> star_match (42 # p) n" by (cases m) (auto intro: star_match_star)
next
  assume "star_match p (d # n) \<or> star_match (42 # p) n"
  then show "star_match (42 # p) (d # n)"
  proof
    assume "star_match p (d # n)"
    from star_match_star [OF this, of "[]"] show ?thesis by simp
  next
    assume "star_match (42 # p) n"
    then obtain m n' where mn: "n = m @ n'" "star_match p n'" by (auto simp: star_match_Cons_iff)
    from star_match_star [OF mn(2), of "d # m"] mn(1) show ?thesis by simp
  qed
qed

lemma star_match_empty: "star_match p n \<Longrightarrow> n = [] \<Longrightarrow> set p \<subseteq> {42}"
  by (induction rule: star_match.induct) auto

text \<open>
  C35. The pattern of a virtual host matches a name exactly when the name follows from it by putting any sequence of
  characters for each asterisk, without regard to case, and the pattern does not end with an asterisk: a pattern with an
  asterisk at its end matches no name at all, and \<^verbatim>\<open>?\<close> and \<^verbatim>\<open>[\<close> stand for themselves. The regular
  shell matching that the documentation of \<^verbatim>\<open>evhttp_add_virtual_host\<close> announces differs in both points.
\<close>

theorem vhost_pattern_stars:
  assumes "0 \<notin> set pattern"
  shows "prefix_suffix_match pattern name True \<longleftrightarrow> star_match pattern name \<and> (pattern = [] \<or> last pattern \<noteq> 42)"
  using assms
proof (induction pattern name True rule: prefix_suffix_match.induct)
  case (1 name)
  then show ?case by (auto simp: star_match_Nil_iff)
next
  case (2 c pattern name)
  show ?case
  proof (cases "c = 42")
    case True
    show ?thesis
    proof (cases name)
      case Nil
      have "last (42 # pattern) = 42" if "star_match (42 # pattern) []" using star_match_empty [OF that refl] last_in_set [of "42 # pattern"] by blast
      then show ?thesis using True Nil by auto
    next
      case (Cons d n)
      have "pattern = [] \<Longrightarrow> \<not> star_match pattern name" using Cons by (simp add: star_match_Nil_iff)
      then show ?thesis using 2 True Cons star_match_star_Cons [of pattern d n] by (auto split: if_splits)
    qed
  next
    case False
    have c: "c \<noteq> 0" "0 \<notin> set pattern" using "2.prems" by auto
    show ?thesis
    proof (cases name)
      case Nil
      then show ?thesis using False c by (auto simp: star_match_Cons_iff)
    next
      case (Cons d n)
      have "star_match (c # pattern) name \<longleftrightarrow> EVUTIL_TOLOWER c = EVUTIL_TOLOWER d \<and> star_match pattern n"
        using False by (subst star_match_Cons_iff) (auto simp: Cons)
      then show ?thesis using False c Cons "2.hyps"(3) by (auto split: if_splits)
    qed
  qed
qed

theorem vhost_pattern_stars_witness:
  "prefix_suffix_match (map of_char ''*.a'') (map of_char ''b.A'') True \<and>
    \<not> prefix_suffix_match (map of_char ''a.*'') (map of_char ''a.b'') True"
proof -
  have "star_match [97] [65]" by (intro star_match.intros) (simp_all add: EVUTIL_TOLOWER_eq)
  then have "star_match [46, 97] [46, 65]" by (rule star_match_char [rotated 2]) simp_all
  from star_match_star [OF this, of "[98]"] have "star_match (map of_char ''*.a'') (map of_char ''b.A'')" by simp
  then show ?thesis using vhost_pattern_stars [of "map of_char ''*.a''" "map of_char ''b.A''"]
      vhost_pattern_stars [of "map of_char ''a.*''" "map of_char ''a.b''"] by simp
qed

end
