(* ===== verification/Http_Write.thy ===== *)
theory Http_Write
  imports Http_Message
begin

text \<open>
  Writing messages in \<^verbatim>\<open>src/http.c\<close>: the headers that are added to a request or a response, the phrases of the
  response codes and \<^verbatim>\<open>evhttp_make_header\<close>, which prints a message into the output buffer of its connection.
  Printing into a buffer is adding the printed bytes to it. The time that the date header shows and the default content type
  of the server are arguments. What is written is read back by the parser of first lines and headers.
\<close>

abbreviation lit :: "string \<Rightarrow> cstr" where "lit \<equiv> map of_char"

section \<open>The date\<close>

text \<open>The broken-down time of the C library, with the fields that are printed.\<close>

record tm =
  tm_sec :: nat
  tm_min :: nat
  tm_hour :: nat
  tm_mday :: nat
  tm_mon :: nat
  tm_year :: nat
  tm_wday :: nat

definition pad :: "u8 \<Rightarrow> nat \<Rightarrow> cstr \<Rightarrow> cstr" where
  "pad c n s = replicate (n - length s) c @ s"

definition DAYS :: "cstr list" where
  "DAYS = map lit [''Sun'', ''Mon'', ''Tue'', ''Wed'', ''Thu'', ''Fri'', ''Sat'']"

definition MONTHS :: "cstr list" where
  "MONTHS = map lit [''Jan'', ''Feb'', ''Mar'', ''Apr'', ''May'', ''Jun'', ''Jul'', ''Aug'', ''Sep'', ''Oct'', ''Nov'', ''Dec'']"

text \<open>The length of the whole text, and what fits into the array with its final 0.\<close>

definition evutil_date_rfc1123 :: "tm \<Rightarrow> nat \<Rightarrow> nat \<times> cstr" where
  "evutil_date_rfc1123 t datelen =
     (let s = DAYS ! tm_wday t @ lit '', '' @ pad 48 2 (fmt_d (tm_mday t)) @ [32] @ MONTHS ! tm_mon t @ [32] @
              pad 32 4 (fmt_d (1900 + tm_year t)) @ [32] @ pad 48 2 (fmt_d (tm_hour t)) @ [58] @ pad 48 2 (fmt_d (tm_min t)) @ [58] @
              pad 48 2 (fmt_d (tm_sec t)) @ lit '' GMT''
      in (length s, take (datelen - 1) s))"

section \<open>Headers that are added\<close>

definition REQ_VERSION_BEFORE :: "evhttp_request \<Rightarrow> int \<Rightarrow> int \<Rightarrow> bool" where
  "REQ_VERSION_BEFORE req major_v minor_v \<longleftrightarrow> major req < major_v \<or> major req = major_v \<and> minor req < minor_v"

definition REQ_VERSION_ATLEAST :: "evhttp_request \<Rightarrow> int \<Rightarrow> int \<Rightarrow> bool" where
  "REQ_VERSION_ATLEAST req major_v minor_v \<longleftrightarrow> major req > major_v \<or> major req = major_v \<and> minor req \<ge> minor_v"

definition evhttp_response_needs_body :: "evhttp_request \<Rightarrow> bool" where
  "evhttp_response_needs_body req \<longleftrightarrow>
     response_code req \<noteq> 204 \<and> response_code req \<noteq> 304 \<and> (response_code req < 100 \<or> response_code req \<ge> 200) \<and>
     req_type req \<noteq> EVHTTP_REQ_HEAD"

definition evhttp_is_connection_close :: "u32 \<Rightarrow> evkeyvalq \<Rightarrow> bool" where
  "evhttp_is_connection_close flags headers \<longleftrightarrow>
     (if flags AND EVHTTP_PROXY_REQUEST \<noteq> 0 then
        (case evhttp_find_header headers (lit ''Proxy-Connection'') of
           None \<Rightarrow> True | Some connection \<Rightarrow> evutil_ascii_strcasecmp connection (lit ''keep-alive'') \<noteq> 0)
      else
        (case evhttp_find_header headers (lit ''Connection'') of
           None \<Rightarrow> False | Some connection \<Rightarrow> evutil_ascii_strcasecmp connection (lit ''close'') = 0))"

definition evhttp_is_request_connection_close :: "evhttp_request \<Rightarrow> bool" where
  "evhttp_is_request_connection_close req \<longleftrightarrow>
     evhttp_is_connection_close (req_flags req) (input_headers req) \<or> evhttp_is_connection_close (req_flags req) (output_headers req)"

definition evhttp_is_connection_keepalive :: "evkeyvalq \<Rightarrow> bool" where
  "evhttp_is_connection_keepalive headers \<longleftrightarrow>
     (case evhttp_find_header headers (lit ''Connection'') of
        None \<Rightarrow> False | Some connection \<Rightarrow> evutil_ascii_strncasecmp 10 connection (lit ''keep-alive'') = 0)"

text \<open>The difference of sizes is unsigned: it is positive unless the text has exactly the length of the array.\<close>

definition evhttp_maybe_add_date_header :: "tm \<Rightarrow> evkeyvalq \<Rightarrow> evkeyvalq" where
  "evhttp_maybe_add_date_header t headers =
     (if evhttp_find_header headers (lit ''Date'') = None then
        (let (n, date) = evutil_date_rfc1123 t 50
         in if n \<noteq> 50 then snd (evhttp_add_header headers (lit ''Date'') date) else headers)
      else headers)"

definition evhttp_maybe_add_content_length_header :: "evkeyvalq \<Rightarrow> nat \<Rightarrow> evkeyvalq" where
  "evhttp_maybe_add_content_length_header headers content_length =
     (if evhttp_find_header headers (lit ''Transfer-Encoding'') = None \<and> evhttp_find_header headers (lit ''Content-Length'') = None
      then snd (evhttp_add_header headers (lit ''Content-Length'') (fmt_d content_length)) else headers)"

text \<open>The two functions give the request and the line that is printed.\<close>

definition evhttp_make_header_request :: "evhttp_request \<Rightarrow> evhttp_request \<times> cstr" where
  "evhttp_make_header_request req =
     (let h1 = snd (evhttp_remove_header (output_headers req) (lit ''Proxy-Connection''));
          h2 = (if (req_type req = EVHTTP_REQ_POST \<or> req_type req = EVHTTP_REQ_PUT) \<and> evhttp_find_header h1 (lit ''Content-Length'') = None
                then snd (evhttp_add_header h1 (lit ''Content-Length'') (fmt_d (total_len (output_buffer req)))) else h1)
      in (req\<lparr>output_headers := h2\<rparr>, request_line req))"

definition evhttp_make_header_response :: "tm \<Rightarrow> cstr option \<Rightarrow> evhttp_request \<Rightarrow> evhttp_request \<times> cstr" where
  "evhttp_make_header_response t default_content_type req =
     (let is_keepalive = evhttp_is_connection_keepalive (input_headers req);
          h0 = output_headers req;
          h1 = (if major req = 1 \<and> minor req \<ge> 1 then evhttp_maybe_add_date_header t h0 else h0);
          h2 = (if major req = 1 \<and> minor req = 0 \<and> is_keepalive
                then snd (evhttp_add_header h1 (lit ''Connection'') (lit ''keep-alive'')) else h1);
          h3 = (if major req = 1 \<and> (minor req \<ge> 1 \<or> is_keepalive) \<and> evhttp_response_needs_body req
                then evhttp_maybe_add_content_length_header h2 (total_len (output_buffer req)) else h2);
          h4 = (if evhttp_response_needs_body req then
                  (case default_content_type of
                     Some ct \<Rightarrow> if evhttp_find_header h3 (lit ''Content-Type'') = None
                                then snd (evhttp_add_header h3 (lit ''Content-Type'') ct) else h3
                   | None \<Rightarrow> h3)
                else h3);
          h5 = (if evhttp_is_connection_close (req_flags req) (input_headers req) then
                  (let g1 = snd (evhttp_remove_header h4 (lit ''Connection''));
                       g2 = (if req_flags req AND EVHTTP_PROXY_REQUEST = 0
                             then snd (evhttp_add_header g1 (lit ''Connection'') (lit ''close'')) else g1)
                   in snd (evhttp_remove_header g2 (lit ''Proxy-Connection'')))
                else h4)
      in (req\<lparr>output_headers := h5\<rparr>, status_line req))"

datatype expect = NO | CONTINUE | OTHER

definition evhttp_have_expect :: "evhttp_request \<Rightarrow> bool \<Rightarrow> expect" where
  "evhttp_have_expect req input =
     (let h = (if input then input_headers req else output_headers req)
      in if \<not> req_kind req = EVHTTP_REQUEST \<or> \<not> REQ_VERSION_ATLEAST req 1 1 then NO
         else
           (case evhttp_find_header h (lit ''Expect'') of
              None \<Rightarrow> NO
            | Some e \<Rightarrow> if evutil_ascii_strcasecmp e (lit ''100-continue'') = 0 then CONTINUE else OTHER))"

primrec print_headers :: "(nat \<Rightarrow> bool) \<Rightarrow> evkeyvalq \<Rightarrow> evbuffer \<Rightarrow> evbuffer option" where
  "print_headers ok [] out = Some out"
| "print_headers ok (h # hs) out = do { (r, o1) \<leftarrow> evbuffer_add ok out (header_line h); print_headers ok hs o1 }"

definition evhttp_make_header ::
  "(nat \<Rightarrow> bool) \<Rightarrow> tm \<Rightarrow> cstr option \<Rightarrow> evhttp_request \<Rightarrow> evbuffer \<Rightarrow> (evhttp_request \<times> evbuffer) option" where
  "evhttp_make_header ok t default_content_type req out =
     (let (req1, line) = (case req_kind req of
            EVHTTP_REQUEST \<Rightarrow> evhttp_make_header_request req
          | EVHTTP_RESPONSE \<Rightarrow> evhttp_make_header_response t default_content_type req)
      in do {
        (r, o1) \<leftarrow> evbuffer_add ok out line;
        o2 \<leftarrow> print_headers ok (output_headers req1) o1;
        (r, o3) \<leftarrow> evbuffer_add ok o2 [CR, LF];
        if evhttp_have_expect req1 False \<noteq> CONTINUE \<and> total_len (output_buffer req1) \<noteq> 0 then do {
          (r, o4, ob) \<leftarrow> evbuffer_add_buffer ok o3 (output_buffer req1);
          Some (req1\<lparr>output_buffer := ob\<rparr>, o4) }
        else Some (req1, o3) })"

section \<open>Response codes\<close>

definition informational_phrases :: "cstr list" where
  "informational_phrases = map lit [''Continue'', ''Switching Protocols'']"

definition success_phrases :: "cstr list" where
  "success_phrases = map lit [''OK'', ''Created'', ''Accepted'', ''Non-Authoritative Information'', ''No Content'', ''Reset Content'', ''Partial Content'']"

definition redirection_phrases :: "cstr list" where
  "redirection_phrases = map lit [''Multiple Choices'', ''Moved Permanently'', ''Found'', ''See Other'', ''Not Modified'', ''Use Proxy'',
     ''Temporary Redirect'']"

definition client_error_phrases :: "cstr list" where
  "client_error_phrases = map lit [''Bad Request'', ''Unauthorized'', ''Payment Required'', ''Forbidden'', ''Not Found'',
     ''Method Not Allowed'', ''Not Acceptable'', ''Proxy Authentication Required'', ''Request Time-out'', ''Conflict'', ''Gone'',
     ''Length Required'', ''Precondition Failed'', ''Request Entity Too Large'', ''Request-URI Too Large'',
     ''Unsupported Media Type'', ''Requested range not satisfiable'', ''Expectation Failed'']"

definition server_error_phrases :: "cstr list" where
  "server_error_phrases = map lit [''Internal Server Error'', ''Not Implemented'', ''Bad Gateway'', ''Service Unavailable'',
     ''Gateway Time-out'', ''HTTP Version not supported'']"

definition response_classes :: "(cstr \<times> cstr list) list" where
  "response_classes =
     [(lit ''Informational'', informational_phrases), (lit ''Success'', success_phrases), (lit ''Redirection'', redirection_phrases),
      (lit ''Client Error'', client_error_phrases), (lit ''Server Error'', server_error_phrases)]"

text \<open>The division rounds towards 0.\<close>

definition evhttp_response_phrase_internal :: "int \<Rightarrow> cstr" where
  "evhttp_response_phrase_internal code =
     (let klass = sgn code * (\<bar>code\<bar> div 100) - 1; subcode = sgn code * (\<bar>code\<bar> mod 100)
      in if klass < 0 \<or> klass \<ge> int (length response_classes) then lit ''Unknown Status Class''
         else if subcode \<ge> int (length (snd (response_classes ! nat klass))) then fst (response_classes ! nat klass)
         else snd (response_classes ! nat klass) ! nat subcode)"

definition evhttp_response_code :: "evhttp_request \<Rightarrow> int \<Rightarrow> cstr option \<Rightarrow> evhttp_request" where
  "evhttp_response_code req code reason =
     req\<lparr>req_kind := EVHTTP_RESPONSE, response_code := code,
         response_code_line := Some (case reason of None \<Rightarrow> evhttp_response_phrase_internal code | Some r \<Rightarrow> r)\<rparr>"

text \<open>The part of \<^verbatim>\<open>evhttp_send\<close> that writes the message; the connection is told to write afterwards.\<close>

definition evhttp_send ::
  "(nat \<Rightarrow> bool) \<Rightarrow> tm \<Rightarrow> cstr option \<Rightarrow> evhttp_request \<Rightarrow> evbuffer option \<Rightarrow> evbuffer \<Rightarrow> (evhttp_request \<times> evbuffer option \<times> evbuffer) option" where
  "evhttp_send ok t default_content_type req databuf out =
     (case databuf of
        None \<Rightarrow> map_option (\<lambda>(req2, o2). (req2, None, o2)) (evhttp_make_header ok t default_content_type req out)
      | Some d \<Rightarrow> do {
          (r, ob, d1) \<leftarrow> evbuffer_add_buffer ok (output_buffer req) d;
          (req2, o2) \<leftarrow> evhttp_make_header ok t default_content_type (req\<lparr>output_buffer := ob\<rparr>) out;
          Some (req2, Some d1, o2) })"

definition evhttp_send_reply where
  "evhttp_send_reply ok t default_content_type req code reason databuf out =
     evhttp_send ok t default_content_type (evhttp_response_code req code reason) databuf out"

definition evhttp_send_page where
  "evhttp_send_page ok t default_content_type req databuf out =
     (let req1 = (if major req = 0 \<or> minor req = 0 then req\<lparr>major := 1, minor := 1\<rparr> else req);
          req2 = (if req_kind req1 \<noteq> EVHTTP_RESPONSE then evhttp_response_code req1 200 (Some (lit ''OK'')) else req1);
          h1 = snd (evhttp_add_header (evhttp_clear_headers (output_headers req2)) (lit ''Content-Type'') (lit ''text/html''));
          h2 = snd (evhttp_add_header h1 (lit ''Connection'') (lit ''close''))
      in evhttp_send ok t default_content_type (req2\<lparr>output_headers := h2\<rparr>) databuf out)"

definition ERR_FORMAT :: "int \<Rightarrow> cstr \<Rightarrow> cstr" where
  "ERR_FORMAT error reason =
     lit ''<HTML><HEAD>'' @ [LF] @ lit ''<TITLE>'' @ fmt_i error @ [32] @ reason @ lit ''</TITLE>'' @ [LF] @ lit ''</HEAD><BODY>'' @ [LF] @
     lit ''<H1>'' @ reason @ lit ''</H1>'' @ [LF] @ lit ''</BODY></HTML>'' @ [LF]"

definition evhttp_send_error where
  "evhttp_send_error ok t default_content_type req error reason out = do {
     let phrase = (case reason of None \<Rightarrow> evhttp_response_phrase_internal error | Some r \<Rightarrow> r);
     (r, buf) \<leftarrow> evbuffer_add ok evbuffer_new (ERR_FORMAT error phrase);
     evhttp_send_page ok t default_content_type (evhttp_response_code req error (Some phrase)) (Some buf) out }"


section \<open>What is written\<close>

lemma alloc_serves_le: "alloc_serves ok n \<Longrightarrow> m \<le> n \<Longrightarrow> alloc_serves ok m"
  by (auto simp: alloc_serves_def)

lemma add_written:
  assumes "evbuffer_ok b" "\<not> freeze_end b" "alloc_serves ok n" "length s \<le> n" "total_len b + length s \<le> EV_SIZE_MAX"
  obtains b' where "evbuffer_add ok b s = Some (0, b')" "evbuffer_ok b'" "\<not> freeze_end b'" "content b' = content b @ s"
    "total_len b' = total_len b + length s"
proof -
  from evbuffer_add_ok [OF assms(1), of ok s] alloc_serves_le [OF assms(3,4)] assms(2,5) obtain b' where
    b': "evbuffer_add ok b s = Some (0, b')" "evbuffer_ok b'" "\<not> freeze_end b'" "content b' = content b @ s"
    by (auto simp: add_post_def)
  moreover have "total_len b' = total_len b + length s" using length_content [OF b'(2)] length_content [OF assms(1)] b'(4) by simp
  ultimately show thesis by (rule that)
qed

lemma print_headers_written:
  assumes "evbuffer_ok b" "\<not> freeze_end b" "alloc_serves ok n" "length (concat (map header_line hs)) \<le> n"
    "total_len b + length (concat (map header_line hs)) \<le> EV_SIZE_MAX"
  shows "\<exists>b'. print_headers ok hs b = Some b' \<and> evbuffer_ok b' \<and> \<not> freeze_end b' \<and> content b' = content b @ concat (map header_line hs) \<and>
    total_len b' = total_len b + length (concat (map header_line hs))"
  using assms
proof (induction hs arbitrary: b)
  case (Cons h hs)
  have len: "length (header_line h) \<le> n" "total_len b + length (header_line h) \<le> EV_SIZE_MAX" using Cons.prems(4,5) by simp_all
  from add_written [OF Cons.prems(1-3) len] obtain b1 where b1: "evbuffer_add ok b (header_line h) = Some (0, b1)" "evbuffer_ok b1"
    "\<not> freeze_end b1" "content b1 = content b @ header_line h" "total_len b1 = total_len b + length (header_line h)" .
  from Cons.IH [OF b1(2,3) Cons.prems(3)] Cons.prems(4,5) b1 show ?case by (simp add: add.assoc)
qed simp

lemma make_header_request_frame:
  assumes "evhttp_make_header_request req = (req1, line)"
  shows "line = request_line req" "req1 = req\<lparr>output_headers := output_headers req1\<rparr>"
  using assms by (auto simp: evhttp_make_header_request_def Let_def)

lemma make_header_response_frame:
  assumes "evhttp_make_header_response t ct req = (req1, line)"
  shows "line = status_line req" "req1 = req\<lparr>output_headers := output_headers req1\<rparr>"
  using assms unfolding evhttp_make_header_response_def Let_def by auto

text \<open>The headers that a message gets.\<close>

definition final_headers :: "tm \<Rightarrow> cstr option \<Rightarrow> evhttp_request \<Rightarrow> evkeyvalq" where
  "final_headers t ct req = output_headers (fst (case req_kind req of
       EVHTTP_REQUEST \<Rightarrow> evhttp_make_header_request req | EVHTTP_RESPONSE \<Rightarrow> evhttp_make_header_response t ct req))"

definition first_line :: "evhttp_request \<Rightarrow> cstr" where
  "first_line req = (case req_kind req of EVHTTP_REQUEST \<Rightarrow> request_line req | EVHTTP_RESPONSE \<Rightarrow> status_line req)"

text \<open>The body is held back when the peer is asked to confirm first.\<close>

definition sent_body :: "tm \<Rightarrow> cstr option \<Rightarrow> evhttp_request \<Rightarrow> u8 list" where
  "sent_body t ct req =
     (if evhttp_have_expect (req\<lparr>output_headers := final_headers t ct req\<rparr>) False = CONTINUE then [] else content (output_buffer req))"

definition message_text :: "tm \<Rightarrow> cstr option \<Rightarrow> evhttp_request \<Rightarrow> u8 list" where
  "message_text t ct req = first_line req @ headers_text (final_headers t ct req) @ sent_body t ct req"

lemma make_header_parts:
  "(case req_kind req of EVHTTP_REQUEST \<Rightarrow> evhttp_make_header_request req | EVHTTP_RESPONSE \<Rightarrow> evhttp_make_header_response t ct req) =
     (req\<lparr>output_headers := final_headers t ct req\<rparr>, first_line req)"
proof (cases "req_kind req")
  case EVHTTP_REQUEST
  obtain req1 line where r: "evhttp_make_header_request req = (req1, line)" by force
  from make_header_request_frame [OF this] show ?thesis using EVHTTP_REQUEST r by (simp add: final_headers_def first_line_def)
next
  case EVHTTP_RESPONSE
  obtain req1 line where r: "evhttp_make_header_response t ct req = (req1, line)" by force
  from make_header_response_frame [OF this] show ?thesis using EVHTTP_RESPONSE r by (simp add: final_headers_def first_line_def)
qed

lemma make_header_written:
  assumes out: "evbuffer_ok out" "\<not> freeze_end out" and body: "evbuffer_ok (output_buffer req)" "\<not> freeze_start (output_buffer req)"
    and al: "alloc_serves ok n" "length (first_line req @ headers_text (final_headers t ct req)) \<le> n"
    and tot: "total_len out + length (first_line req @ headers_text (final_headers t ct req)) + total_len (output_buffer req) \<le> EV_SIZE_MAX"
  shows "\<exists>ob o'. evhttp_make_header ok t ct req out = Some (req\<lparr>output_headers := final_headers t ct req, output_buffer := ob\<rparr>, o') \<and>
    evbuffer_ok o' \<and> content o' = content out @ message_text t ct req"
proof -
  let ?hs = "final_headers t ct req" and ?req = "req\<lparr>output_headers := final_headers t ct req\<rparr>"
  let ?H = "concat (map header_line ?hs)"
  have len: "length (headers_text ?hs) = length ?H + 2" by (simp add: headers_text_def)
  have l1: "length (first_line req) \<le> n" "total_len out + length (first_line req) \<le> EV_SIZE_MAX" using al(2) tot by simp_all
  from add_written [OF out al(1) l1] obtain o1 where o1: "evbuffer_add ok out (first_line req) = Some (0, o1)"
    "evbuffer_ok o1" "\<not> freeze_end o1" "content o1 = content out @ first_line req" "total_len o1 = total_len out + length (first_line req)" .
  have l2: "length ?H \<le> n" "total_len o1 + length ?H \<le> EV_SIZE_MAX" using al(2) tot len o1(5) by simp_all
  from print_headers_written [OF o1(2,3) al(1) l2] obtain o2 where o2: "print_headers ok ?hs o1 = Some o2" "evbuffer_ok o2" "\<not> freeze_end o2"
    "content o2 = content o1 @ ?H" "total_len o2 = total_len o1 + length ?H" by blast
  have l3: "length [CR, LF] \<le> n" "total_len o2 + length [CR, LF] \<le> EV_SIZE_MAX" using al(2) tot len o1(5) o2(5) by simp_all
  from add_written [OF o2(2,3) al(1) l3] obtain o3 where o3: "evbuffer_add ok o2 [CR, LF] = Some (0, o3)" "evbuffer_ok o3" "\<not> freeze_end o3"
    "content o3 = content o2 @ [CR, LF]" "total_len o3 = total_len o2 + length [CR, LF]" .
  have c3: "content o3 = content out @ first_line req @ headers_text ?hs" using o1(4) o2(4) o3(4) by (simp add: headers_text_def)
  have unf: "evhttp_make_header ok t ct req out =
     (if evhttp_have_expect ?req False \<noteq> CONTINUE \<and> total_len (output_buffer req) \<noteq> 0
      then do { (r, o4, ob) \<leftarrow> evbuffer_add_buffer ok o3 (output_buffer req); Some (?req\<lparr>output_buffer := ob\<rparr>, o4) }
      else Some (?req, o3))"
    unfolding evhttp_make_header_def make_header_parts by (simp add: o1(1) o2(1) o3(1))
  show ?thesis
  proof (cases "evhttp_have_expect ?req False \<noteq> CONTINUE \<and> total_len (output_buffer req) \<noteq> 0")
    case True
    have "total_len o3 + total_len (output_buffer req) \<le> EV_SIZE_MAX" using tot len o1(5) o2(5) o3(5) by simp
    from evbuffer_add_buffer_ok [OF o3(2,3) body this, of ok] obtain o4 ob where
      o4: "evbuffer_add_buffer ok o3 (output_buffer req) = Some (0, o4, ob)" "evbuffer_ok o4" "content o4 = content o3 @ content (output_buffer req)"
      by blast
    have "evhttp_make_header ok t ct req out = Some (?req\<lparr>output_buffer := ob\<rparr>, o4)" unfolding unf if_P [OF True] o4(1) by simp
    moreover have "content o4 = content out @ message_text t ct req" using True by (simp add: o4(3) c3 message_text_def sent_body_def)
    ultimately show ?thesis using o4(2) by blast
  next
    case False
    have "content (output_buffer req) = []" if "total_len (output_buffer req) = 0" using length_content [OF body(1)] that by simp
    then have "sent_body t ct req = []" using False by (auto simp: sent_body_def)
    then have "content o3 = content out @ message_text t ct req" by (simp add: c3 message_text_def)
    moreover have "?req = ?req\<lparr>output_buffer := output_buffer req\<rparr>" by (rule evhttp_request.equality) simp_all
    then have "evhttp_make_header ok t ct req out = Some (?req\<lparr>output_buffer := output_buffer req\<rparr>, o3)" unfolding unf if_not_P [OF False] by simp
    ultimately show ?thesis using o3(2) by blast
  qed
qed

text \<open>
  C36. A message survives from end to end: what is printed for a request or a response \<open>w\<close> is read by the parsers of the
  first line and of the headers at the other side, which find the same method, URI and version or the same code
  and phrase, and exactly the headers that the writer ended up with, in order; the body and whatever follows it
  are left in the buffer. The method is known, the URI can be parsed, the version is at most 1.127, and no header has characters
  that are stripped or end a line.
\<close>

theorem message_round_trip:
  assumes "evbuffer_ok (output_buffer w)" "\<not> freeze_start (output_buffer w)"
    "alloc_serves ok (length (first_line w @ headers_text (final_headers t ct w)))"
    "length (first_line w @ headers_text (final_headers t ct w)) + total_len (output_buffer w) \<le> EV_SIZE_MAX"
    "case req_kind w of EVHTTP_REQUEST \<Rightarrow> request_ok w | EVHTTP_RESPONSE \<Rightarrow> response_ok w"
    "list_all header_ok (final_headers t ct w)"
    "req_kind req = req_kind w" "evbuffer_ok b" "total_len b \<le> EV_SSIZE_MAX" "\<not> freeze_start b" "\<not> too_long req (total_len b)"
  shows "\<exists>w' out. evhttp_make_header ok t ct w evbuffer_new = Some (w', out) \<and>
    (content b = content out @ rest \<longrightarrow>
     (\<exists>req1 b1 req2 b2. evhttp_parse_firstline ok server req b = Some (ALL_DATA_READ, req1, b1) \<and>
        evhttp_parse_headers ok req1 b1 = Some (ALL_DATA_READ, req2, b2) \<and>
        major req1 = major w \<and> minor req1 = minor w \<and>
        (case req_kind w of
           EVHTTP_REQUEST \<Rightarrow> req_type req1 = req_type w \<and> req_uri req1 = req_uri w
         | EVHTTP_RESPONSE \<Rightarrow> response_code req1 = response_code w \<and> response_code_line req1 = response_code_line w) \<and>
        input_headers req2 = input_headers req @ output_headers w' \<and> content b2 = sent_body t ct w @ rest))"
proof -
  have "evbuffer_ok evbuffer_new" "\<not> freeze_end evbuffer_new" "content evbuffer_new = []" "total_len evbuffer_new = 0"
    using evbuffer_new_ok by (simp_all add: evbuffer_new_def)
  with make_header_written [of evbuffer_new, OF _ _ assms(1-3) order_refl] assms(4) obtain ob out where
    w: "evhttp_make_header ok t ct w evbuffer_new = Some (w\<lparr>output_headers := final_headers t ct w, output_buffer := ob\<rparr>, out)"
      "content out = message_text t ct w" by auto
  have ok: "\<forall>n \<le> m. ok n" for m using assms(3) by (simp add: alloc_serves_def)
  have "\<exists>req1 b1 req2 b2. evhttp_parse_firstline ok server req b = Some (ALL_DATA_READ, req1, b1) \<and>
        evhttp_parse_headers ok req1 b1 = Some (ALL_DATA_READ, req2, b2) \<and> major req1 = major w \<and> minor req1 = minor w \<and>
        (case req_kind w of
           EVHTTP_REQUEST \<Rightarrow> req_type req1 = req_type w \<and> req_uri req1 = req_uri w
         | EVHTTP_RESPONSE \<Rightarrow> response_code req1 = response_code w \<and> response_code_line req1 = response_code_line w) \<and>
        input_headers req2 = input_headers req @ final_headers t ct w \<and> content b2 = sent_body t ct w @ rest"
    if c: "content b = content out @ rest"
  proof -
    let ?hs = "final_headers t ct w" and ?rest = "sent_body t ct w @ rest"
    have fl: "content b = (case req_kind req of EVHTTP_REQUEST \<Rightarrow> request_line w | EVHTTP_RESPONSE \<Rightarrow> status_line w) @ headers_text ?hs @ ?rest"
      using c w(2) assms(7) by (simp add: message_text_def first_line_def)
    from assms(5,7) have wk: "case req_kind req of EVHTTP_REQUEST \<Rightarrow> request_ok w | EVHTTP_RESPONSE \<Rightarrow> response_ok w" by simp
    from parse_firstline_written [OF assms(8-10) ok fl wk assms(11), of server] assms(7) obtain req1 b1 where
      r1: "evhttp_parse_firstline ok server req b = Some (ALL_DATA_READ, req1, b1)" "evbuffer_ok b1" "content b1 = headers_text ?hs @ ?rest"
        "\<not> freeze_start b1" "total_len b1 < total_len b" "major req1 = major w" "minor req1 = minor w"
        "headers_size req1 + 2 + length (headers_text ?hs @ ?rest) = total_len b" "input_headers req1 = input_headers req"
        "max_headers_size req1 = max_headers_size req"
        "case req_kind w of EVHTTP_REQUEST \<Rightarrow> req_type req1 = req_type w \<and> req_uri req1 = req_uri w
         | EVHTTP_RESPONSE \<Rightarrow> response_code req1 = response_code w \<and> response_code_line req1 = response_code_line w"
      by (cases "req_kind w") auto
    have size: "headers_size req1 + length (headers_text ?hs) < 2 ^ 64" "\<not> too_long req1 (headers_size req1 + length (headers_text ?hs))"
      using r1(8,10) assms(9,11) by (auto simp: EV_SSIZE_MAX_def too_long_def split: option.splits)
    have "total_len b1 \<le> EV_SSIZE_MAX" using r1(5) assms(9) by simp
    from parse_headers_text [OF r1(2) this r1(4) ok r1(3) assms(6) size] r1 show ?thesis by fastforce
  qed
  with w(1) show ?thesis by simp
qed

text \<open>A POST request of two bytes with one header of its own.\<close>

definition sample_post :: evhttp_request where
  "sample_post = sample_request\<lparr>req_type := EVHTTP_REQ_POST, req_uri := Some [47, 97], output_headers := [([65], [98])],
     output_buffer := text_buffer [120, 121]\<rparr>"

definition sample_time :: tm where
  "sample_time = \<lparr>tm_sec = 1, tm_min = 2, tm_hour = 3, tm_mday = 4, tm_mon = 4, tm_year = 120, tm_wday = 1\<rparr>"

lemma sample_post_parts:
  "first_line sample_post = lit ''POST /a HTTP/1.1'' @ [CR, LF]"
  "final_headers sample_time None sample_post = [([65], [98]), (lit ''Content-Length'', lit ''2'')]"
  "sent_body sample_time None sample_post = [120, 121]"
  by code_simp+

lemma sample_post_ok: "request_ok sample_post" "list_all header_ok (final_headers sample_time None sample_post)"
proof -
  have "uri_of_type EVHTTP_REQ_POST [47, 97] \<noteq> None" by code_simp
  then show "request_ok sample_post" by (auto simp: request_ok_def sample_post_def sample_request_def LF_def)
  show "list_all header_ok (final_headers sample_time None sample_post)"
    unfolding sample_post_parts by (simp add: header_ok_def lws_def LF_def CR_def)
qed

theorem message_round_trip_witness:
  "\<exists>w' out req1 b1 req2 b2. evhttp_make_header (\<lambda>_. True) sample_time None sample_post evbuffer_new = Some (w', out) \<and>
     evhttp_parse_firstline (\<lambda>_. True) (Evhttp None [] []) sample_request (text_buffer (message_text sample_time None sample_post)) = Some (ALL_DATA_READ, req1, b1) \<and>
     evhttp_parse_headers (\<lambda>_. True) req1 b1 = Some (ALL_DATA_READ, req2, b2) \<and>
     req_uri req1 = Some [47, 97] \<and> input_headers req2 = [([65], [98]), (lit ''Content-Length'', lit ''2'')] \<and> content b2 = [120, 121]"
proof -
  let ?m = "message_text sample_time None sample_post"
  have m: "?m \<noteq> []" "length ?m < 1000" "length (first_line sample_post @ headers_text (final_headers sample_time None sample_post)) = 45"
    unfolding message_text_def sample_post_parts by (simp_all add: headers_text_def header_line_def)
  have p: "output_buffer sample_post = text_buffer [120, 121]" "req_kind sample_post = EVHTTP_REQUEST" "req_uri sample_post = Some [47, 97]"
    by (simp_all add: sample_post_def sample_request_def)
  have b: "evbuffer_ok (output_buffer sample_post)" "\<not> freeze_start (output_buffer sample_post)" "total_len (output_buffer sample_post) = 2"
    using text_buffer_ok [of "[120, 121]"] by (simp_all add: p)
  note tb = text_buffer_ok [OF m(1,2)]
  have lim: "\<not> too_long sample_request (total_len (text_buffer ?m))" using tb(3) m(2) by (simp add: too_long_def sample_request_def)
  have al: "alloc_serves (\<lambda>_. True) (length (first_line sample_post @ headers_text (final_headers sample_time None sample_post)))"
    "length (first_line sample_post @ headers_text (final_headers sample_time None sample_post)) + total_len (output_buffer sample_post) \<le> EV_SIZE_MAX"
    unfolding m(3) b(3) by (simp_all add: buffer_limits EV_SIZE_MAX_def)
  have k: "case req_kind sample_post of EVHTTP_REQUEST \<Rightarrow> request_ok sample_post | EVHTTP_RESPONSE \<Rightarrow> response_ok sample_post"
    "req_kind sample_request = req_kind sample_post" using sample_post_ok(1) p(2) by (simp_all add: sample_request_def)
  from message_round_trip [OF b(1,2) al k(1) sample_post_ok(2) k(2) tb(1,6,4) lim, of "[]" "Evhttp None [] []"] obtain w' out where
    w: "evhttp_make_header (\<lambda>_. True) sample_time None sample_post evbuffer_new = Some (w', out)"
    and rd: "content (text_buffer ?m) = content out \<longrightarrow> (\<exists>req1 b1 req2 b2.
       evhttp_parse_firstline (\<lambda>_. True) (Evhttp None [] []) sample_request (text_buffer ?m) = Some (ALL_DATA_READ, req1, b1) \<and>
       evhttp_parse_headers (\<lambda>_. True) req1 b1 = Some (ALL_DATA_READ, req2, b2) \<and> req_uri req1 = req_uri sample_post \<and>
       input_headers req2 = input_headers sample_request @ output_headers w' \<and> content b2 = sent_body sample_time None sample_post)"
    unfolding append_Nil2 p(2) by auto
  have new: "evbuffer_ok evbuffer_new" "\<not> freeze_end evbuffer_new" "content evbuffer_new = []" "total_len evbuffer_new = 0"
    using evbuffer_new_ok by (simp_all add: evbuffer_new_def)
  from make_header_written [OF new(1,2) b(1,2) al(1) order_refl] al(2) w have out: "content out = ?m"
    "output_headers w' = final_headers sample_time None sample_post" by (auto simp: new(3,4))
  from rd tb(2) out show ?thesis using w p(3) unfolding sample_post_parts by (auto simp: sample_request_def)
qed

end
