(* ===== verification/Http_Body.thy ===== *)
theory Http_Body
  imports Http_Write
begin

text \<open>
  Reading messages in \<^verbatim>\<open>src/http.c\<close>: the length of a body, bodies in chunks, and the functions that the read callback
  of a connection calls in its states. A connection has its state, its flags and the two buffers of its
  bufferevent. The callbacks of the program are arguments; they change the request. A function ends with a
  call that is not modelled here, such as the failure of the connection, or waits for more data. Undefined behaviour is \<open>None\<close>.
\<close>

section \<open>Chunks\<close>

text \<open>\<^verbatim>\<open>strtoll\<close> for the bases 10 and 16: the number, and the rest of the text.\<close>

definition evutil_strtoll :: "cstr \<Rightarrow> nat \<Rightarrow> int \<times> cstr" where
  "evutil_strtoll s base =
     (let s1 = dropWhile EVUTIL_ISSPACE s;
          s2 = (if cur s1 = 43 \<or> cur s1 = 45 then tl s1 else s1);
          s3 = (if base = 16 \<and> cur s2 = 48 \<and> (cur (tl s2) = 120 \<or> cur (tl s2) = 88) \<and> EVUTIL_ISXDIGIT (cur (tl (tl s2)))
                then drop 2 s2 else s2);
          P = (if base = 16 then EVUTIL_ISXDIGIT else EVUTIL_ISDIGIT);
          v = int (num_val base (takeWhile P s3))
      in if takeWhile P s3 = [] then (0, s)
         else (if cur s1 = 45 then max (- (2 ^ 63)) (- v) else min LONG_MAX v, dropWhile P s3))"

text \<open>The callback for a chunk, if there is one, and whether the request was cancelled by it.\<close>

definition run_chunk_cb :: "(evhttp_request \<Rightarrow> evhttp_request) option \<Rightarrow> evhttp_request \<Rightarrow> (bool \<times> evhttp_request) option" where
  "run_chunk_cb chunk_cb req =
     (case chunk_cb of
        None \<Rightarrow> Some (False, req)
      | Some cb \<Rightarrow>
          (let req1 = cb (req\<lparr>req_flags := req_flags req OR EVHTTP_REQ_DEFER_FREE\<rparr>)
           in do {
             (r, ib) \<leftarrow> evbuffer_drain (input_buffer req1) (total_len (input_buffer req1));
             let req2 = req1\<lparr>input_buffer := ib, req_flags := req_flags req1 AND NOT EVHTTP_REQ_DEFER_FREE\<rparr>;
             Some (req_flags req2 AND EVHTTP_REQ_NEEDS_FREE \<noteq> 0, req2) }))"

partial_function (option) evhttp_handle_chunked_read ::
  "(nat \<Rightarrow> bool) \<Rightarrow> (evhttp_request \<Rightarrow> evhttp_request) option \<Rightarrow> evhttp_request \<Rightarrow> evbuffer \<Rightarrow>
   (message_read_status \<times> evhttp_request \<times> evbuffer) option" where
  "evhttp_handle_chunked_read ok chunk_cb req buf =
     (if total_len buf = 0 then Some (MORE_DATA_EXPECTED, req, buf)
      else if total_len buf > EV_SSIZE_MAX then Some (DATA_CORRUPTED, req, buf)
      else if ntoread req < 0 then do {
        (r, b) \<leftarrow> evbuffer_readln ok buf EVBUFFER_EOL_CRLF;
        if r = None then Some (MORE_DATA_EXPECTED, req, b)
        else
          (let p = cstring (the r); n = fst (evutil_strtoll p 16); endp = snd (evutil_strtoll p 16);
               req1 = req\<lparr>body_size := body_size req + nat n, ntoread := n\<rparr>
           in if p = [] then evhttp_handle_chunked_read ok chunk_cb req b
              else if cur endp \<noteq> 0 \<and> cur endp \<noteq> 32 \<or> n < 0 then Some (DATA_CORRUPTED, req, b)
              else if nat n > EV_SIZE_MAX - body_size req then Some (DATA_CORRUPTED, req, b)
              else if body_size req + nat n > max_body_size req then Some (DATA_TOO_LONG, req, b)
              else if n = 0 then Some (ALL_DATA_READ, req1, b)
              else evhttp_handle_chunked_read ok chunk_cb req1 b) }
      else if ntoread req > int EV_SSIZE_MAX then Some (DATA_CORRUPTED, req, buf)
      else if ntoread req > 0 \<and> int (total_len buf) < ntoread req then Some (MORE_DATA_EXPECTED, req, buf)
      else do {
        (r, b, ib) \<leftarrow> evbuffer_remove_buffer ok buf (input_buffer req) (nat (ntoread req));
        (canceled, req2) \<leftarrow> run_chunk_cb chunk_cb (req\<lparr>input_buffer := ib, ntoread := -1\<rparr>);
        if canceled then Some (REQUEST_CANCELED, req2, b)
        else evhttp_handle_chunked_read ok chunk_cb req2 b })"

text \<open>What \<^verbatim>\<open>evhttp_send_reply_chunk\<close> and \<^verbatim>\<open>evhttp_send_reply_end\<close> write; the length is printed as an \<^verbatim>\<open>unsigned\<close>.\<close>

definition evhttp_send_reply_chunk ::
  "(nat \<Rightarrow> bool) \<Rightarrow> evhttp_request \<Rightarrow> evbuffer \<Rightarrow> evbuffer \<Rightarrow> (evbuffer \<times> evbuffer) option" where
  "evhttp_send_reply_chunk ok req databuf out =
     (if total_len databuf = 0 \<or> \<not> evhttp_response_needs_body req then Some (databuf, out)
      else do {
        (r, o1) \<leftarrow> (if chunked req then evbuffer_add ok out (fmt_x (total_len databuf mod 2 ^ 32) @ [CR, LF]) else Some (0, out));
        (r, o2, d) \<leftarrow> evbuffer_add_buffer ok o1 databuf;
        (r, o3) \<leftarrow> (if chunked req then evbuffer_add ok o2 [CR, LF] else Some (0, o2));
        Some (d, o3) })"

definition evhttp_send_reply_end :: "(nat \<Rightarrow> bool) \<Rightarrow> evhttp_request \<Rightarrow> evbuffer \<Rightarrow> (evhttp_request \<times> evbuffer) option" where
  "evhttp_send_reply_end ok req out =
     (if chunked req then do {
        (r, o1) \<leftarrow> evbuffer_add ok out [48, CR, LF, CR, LF];
        Some (req\<lparr>chunked := False\<rparr>, o1) }
      else Some (req, out))"

definition evhttp_send_reply_start where
  "evhttp_send_reply_start ok t default_content_type req code reason out =
     (let req1 = evhttp_response_code req code reason;
          req2 = (if evhttp_find_header (output_headers req1) (lit ''Content-Length'') = None \<and> REQ_VERSION_ATLEAST req1 1 1 \<and>
                     evhttp_response_needs_body req1
                  then req1\<lparr>output_headers := snd (evhttp_add_header (output_headers req1) (lit ''Transfer-Encoding'') (lit ''chunked'')), chunked := True\<rparr>
                  else req1\<lparr>chunked := False\<rparr>)
      in evhttp_make_header ok t default_content_type req2 out)"

section \<open>The length of a body\<close>

definition evhttp_get_body_length :: "evhttp_request \<Rightarrow> int \<times> evhttp_request" where
  "evhttp_get_body_length req =
     (case (evhttp_find_header (input_headers req) (lit ''Content-Length''), evhttp_find_header (input_headers req) (lit ''Connection'')) of
        (None, None) \<Rightarrow> (0, req\<lparr>ntoread := -1\<rparr>)
      | (None, Some connection) \<Rightarrow>
          (0, req\<lparr>ntoread := (if evutil_ascii_strcasecmp connection (lit ''Close'') \<noteq> 0 then 0 else -1)\<rparr>)
      | (Some content_length, _) \<Rightarrow>
          (let (n, endp) = evutil_strtoll content_length 10
           in if content_length = [] \<or> cur endp \<noteq> 0 \<or> n < 0 then (-1, req) else (0, req\<lparr>ntoread := n\<rparr>)))"

definition evhttp_method_may_have_body :: "evhttp_cmd_type \<Rightarrow> bool" where
  "evhttp_method_may_have_body t \<longleftrightarrow>
     (case t of
        EVHTTP_REQ_POST \<Rightarrow> True | EVHTTP_REQ_PUT \<Rightarrow> True | EVHTTP_REQ_PATCH \<Rightarrow> True | EVHTTP_REQ_GET \<Rightarrow> True
      | EVHTTP_REQ_DELETE \<Rightarrow> True | EVHTTP_REQ_OPTIONS \<Rightarrow> True | EVHTTP_REQ_CONNECT \<Rightarrow> True | _ \<Rightarrow> False)"

section \<open>The states of a connection\<close>

datatype evhttp_connection_state =
  EVCON_DISCONNECTED | EVCON_CONNECTING | EVCON_IDLE | EVCON_READING_FIRSTLINE | EVCON_READING_HEADERS | EVCON_READING_BODY |
  EVCON_READING_TRAILER | EVCON_WRITING

datatype evhttp_request_error =
  EVREQ_HTTP_TIMEOUT | EVREQ_HTTP_EOF | EVREQ_HTTP_INVALID_HEADER | EVREQ_HTTP_BUFFER_ERROR | EVREQ_HTTP_REQUEST_CANCEL | EVREQ_HTTP_DATA_TOO_LONG

record evhttp_connection =
  con_state :: evhttp_connection_state
  con_flags :: u32
  con_input :: evbuffer
  con_output :: evbuffer

record request_cbs =
  chunk_cb :: "(evhttp_request \<Rightarrow> evhttp_request) option"
  header_cb :: "(evhttp_request \<Rightarrow> int \<times> evhttp_request) option"

text \<open>How a function ends: it returns to wait for data, or it ends with a call of the named function.\<close>

datatype http_call =
  Wait | Connection_fail evhttp_request_error | Connection_done | Request_free_auto | Send_error int | Start_write | Connection_reset

type_synonym read_result = "(http_call \<times> evhttp_connection \<times> evhttp_request) option"

definition EVHTTP_CON_LINGERING_CLOSE :: u32 where "EVHTTP_CON_LINGERING_CLOSE = 0x0020"

definition evhttp_read_trailer :: "(nat \<Rightarrow> bool) \<Rightarrow> evhttp_connection \<Rightarrow> evhttp_request \<Rightarrow> read_result" where
  "evhttp_read_trailer ok evcon req = do {
     (st, req1, b) \<leftarrow> evhttp_parse_headers ok req (con_input evcon);
     Some (case st of
         DATA_CORRUPTED \<Rightarrow> Connection_fail EVREQ_HTTP_DATA_TOO_LONG
       | DATA_TOO_LONG \<Rightarrow> Connection_fail EVREQ_HTTP_DATA_TOO_LONG
       | ALL_DATA_READ \<Rightarrow> Connection_done
       | _ \<Rightarrow> Wait, evcon\<lparr>con_input := b\<rparr>, req1) }"

text \<open>A size that is compared with a signed 64-bit number, which is converted.\<close>

definition as_size :: "int \<Rightarrow> nat" where
  "as_size n = nat (n mod 2 ^ 64)"

definition evhttp_lingering_close :: "evhttp_connection \<Rightarrow> evhttp_request \<Rightarrow> read_result" where
  "evhttp_lingering_close evcon req =
     (let n = min (total_len (con_input evcon)) (as_size (ntoread req));
          req1 = req\<lparr>ntoread := ntoread req - int n, body_size := (body_size req + n) mod 2 ^ 64\<rparr>
      in do {
        (r, b) \<leftarrow> evbuffer_drain (con_input evcon) n;
        Some (if ntoread req1 = 0 then Connection_fail EVREQ_HTTP_DATA_TOO_LONG else Wait, evcon\<lparr>con_input := b\<rparr>, req1) })"

definition evhttp_lingering_fail :: "evhttp_connection \<Rightarrow> evhttp_request \<Rightarrow> read_result" where
  "evhttp_lingering_fail evcon req =
     (if con_flags evcon AND EVHTTP_CON_LINGERING_CLOSE \<noteq> 0 then evhttp_lingering_close evcon req
      else Some (Connection_fail EVREQ_HTTP_DATA_TOO_LONG, evcon, req))"

text \<open>The end of \<^verbatim>\<open>evhttp_read_body\<close>, behind the three ways to take data.\<close>

definition read_body_rest :: "request_cbs \<Rightarrow> evhttp_connection \<Rightarrow> evhttp_request \<Rightarrow> read_result" where
  "read_body_rest cbs evcon req =
     (if body_size req > max_body_size req \<or>
         \<not> chunked req \<and> ntoread req \<ge> 0 \<and> as_size (ntoread req) > max_body_size req
      then evhttp_lingering_fail evcon req
      else do {
        (canceled, req1) \<leftarrow>
          (if total_len (input_buffer req) > 0 \<and> chunk_cb cbs \<noteq> None then run_chunk_cb (chunk_cb cbs) req else Some (False, req));
        Some (if canceled then Request_free_auto else if ntoread req1 = 0 then Connection_done else Wait, evcon, req1) })"

definition evhttp_read_body :: "(nat \<Rightarrow> bool) \<Rightarrow> request_cbs \<Rightarrow> evhttp_connection \<Rightarrow> evhttp_request \<Rightarrow> read_result" where
  "evhttp_read_body ok cbs evcon req =
     (let buf = con_input evcon in
      if chunked req then do {
        (st, req1, b) \<leftarrow> evhttp_handle_chunked_read ok (chunk_cb cbs) req buf;
        (case st of
           ALL_DATA_READ \<Rightarrow> evhttp_read_trailer ok (evcon\<lparr>con_state := EVCON_READING_TRAILER, con_input := b\<rparr>) req1
         | DATA_CORRUPTED \<Rightarrow> Some (Connection_fail EVREQ_HTTP_DATA_TOO_LONG, evcon\<lparr>con_input := b\<rparr>, req1)
         | DATA_TOO_LONG \<Rightarrow> Some (Connection_fail EVREQ_HTTP_DATA_TOO_LONG, evcon\<lparr>con_input := b\<rparr>, req1)
         | REQUEST_CANCELED \<Rightarrow> Some (Request_free_auto, evcon\<lparr>con_input := b\<rparr>, req1)
         | MORE_DATA_EXPECTED \<Rightarrow> read_body_rest cbs (evcon\<lparr>con_input := b\<rparr>) req1) }
      else if ntoread req < 0 then
        (if (body_size req + total_len buf) mod 2 ^ 64 < body_size req then Some (Connection_fail EVREQ_HTTP_INVALID_HEADER, evcon, req)
         else do {
           (r, ib, b) \<leftarrow> evbuffer_add_buffer ok (input_buffer req) buf;
           read_body_rest cbs (evcon\<lparr>con_input := b\<rparr>) (req\<lparr>body_size := body_size req + total_len buf, input_buffer := ib\<rparr>) })
      else if chunk_cb cbs \<noteq> None \<or> total_len buf \<ge> as_size (ntoread req) then
        (let n = min (total_len buf) (as_size (ntoread req)) in do {
           (r, b, ib) \<leftarrow> evbuffer_remove_buffer ok buf (input_buffer req) n;
           read_body_rest cbs (evcon\<lparr>con_input := b\<rparr>)
             (req\<lparr>ntoread := ntoread req - int n, body_size := (body_size req + n) mod 2 ^ 64, input_buffer := ib\<rparr>) })
      else read_body_rest cbs evcon req)"

definition evhttp_send_continue :: "(nat \<Rightarrow> bool) \<Rightarrow> evhttp_connection \<Rightarrow> evhttp_request \<Rightarrow> evhttp_connection option" where
  "evhttp_send_continue ok evcon req = do {
     (r, o1) \<leftarrow> evbuffer_add ok (con_output evcon) (version_text req @ lit '' 100 Continue'' @ [CR, LF, CR, LF]);
     Some (evcon\<lparr>con_output := o1\<rparr>) }"

definition evhttp_get_body :: "(nat \<Rightarrow> bool) \<Rightarrow> request_cbs \<Rightarrow> evhttp_connection \<Rightarrow> evhttp_request \<Rightarrow> read_result" where
  "evhttp_get_body ok cbs evcon req =
     (if req_kind req = EVHTTP_REQUEST \<and> \<not> evhttp_method_may_have_body (req_type req) then Some (Connection_done, evcon, req)
      else
        (let evcon1 = evcon\<lparr>con_state := EVCON_READING_BODY\<rparr>;
             xfer_enc = evhttp_find_header (input_headers req) (lit ''Transfer-Encoding'');
             is_chunked = (case xfer_enc of None \<Rightarrow> False | Some x \<Rightarrow> evutil_ascii_strcasecmp x (lit ''chunked'') = 0);
             (res, req1) = (if is_chunked then (0, req\<lparr>chunked := True, ntoread := -1\<rparr>) else evhttp_get_body_length req)
         in if res = -1 then Some (Connection_fail EVREQ_HTTP_INVALID_HEADER, evcon1, req1)
            else if \<not> is_chunked \<and> req_kind req1 = EVHTTP_REQUEST \<and> ntoread req1 < 1 then Some (Connection_done, evcon1, req1)
            else
              (case evhttp_have_expect req1 True of
                 CONTINUE \<Rightarrow>
                   (if ntoread req1 > 0 \<and> int (max_body_size req1) \<le> LONG_MAX \<and> nat (ntoread req1) > max_body_size req1
                    then evhttp_lingering_fail evcon1 req1
                    else do {
                      evcon2 \<leftarrow> (if total_len (con_input evcon1) = 0 then evhttp_send_continue ok evcon1 req1 else Some evcon1);
                      evhttp_read_body ok cbs evcon2 req1 })
               | OTHER \<Rightarrow> Some (Send_error 417, evcon1, req1)
               | NO \<Rightarrow> evhttp_read_body ok cbs evcon1 req1)))"

definition evhttp_read_header :: "(nat \<Rightarrow> bool) \<Rightarrow> request_cbs \<Rightarrow> evhttp_connection \<Rightarrow> evhttp_request \<Rightarrow> read_result" where
  "evhttp_read_header ok cbs evcon req = do {
     (st, req1, b) \<leftarrow> evhttp_parse_headers ok req (con_input evcon);
     (let evcon1 = evcon\<lparr>con_input := b\<rparr> in
      if st = DATA_CORRUPTED \<or> st = DATA_TOO_LONG then Some (Connection_fail EVREQ_HTTP_INVALID_HEADER, evcon1, req1)
      else if st = MORE_DATA_EXPECTED then Some (Wait, evcon1, req1)
      else
        (let (v, req2) = (case header_cb cbs of None \<Rightarrow> (0, req1) | Some cb \<Rightarrow> cb req1)
         in if v < 0 then Some (Connection_fail EVREQ_HTTP_EOF, evcon1, req2)
            else
              (case req_kind req2 of
                 EVHTTP_REQUEST \<Rightarrow> evhttp_get_body ok cbs evcon1 req2
               | EVHTTP_RESPONSE \<Rightarrow>
                   (if response_code req2 = 100 then do {
                      (r, o1, ob) \<leftarrow> evbuffer_add_buffer ok (con_output evcon1) (output_buffer req2);
                      Some (Start_write, evcon1\<lparr>con_output := o1\<rparr>, req2\<lparr>output_buffer := ob\<rparr>) }
                    else if \<not> evhttp_response_needs_body req2 then Some (Connection_done, evcon1, req2)
                    else evhttp_get_body ok cbs evcon1 req2)))) }"

definition evhttp_read_firstline :: "(nat \<Rightarrow> bool) \<Rightarrow> evhttp \<Rightarrow> request_cbs \<Rightarrow> evhttp_connection \<Rightarrow> evhttp_request \<Rightarrow> read_result" where
  "evhttp_read_firstline ok server cbs evcon req = do {
     (st, req1, b) \<leftarrow> evhttp_parse_firstline ok server req (con_input evcon);
     (let evcon1 = evcon\<lparr>con_input := b\<rparr> in
      if st = DATA_CORRUPTED \<or> st = DATA_TOO_LONG then Some (Connection_fail EVREQ_HTTP_INVALID_HEADER, evcon1, req1)
      else if st = MORE_DATA_EXPECTED then Some (Wait, evcon1, req1)
      else evhttp_read_header ok cbs (evcon1\<lparr>con_state := EVCON_READING_HEADERS\<rparr>) req1) }"

text \<open>In the other states the program is aborted.\<close>

definition evhttp_read_cb :: "(nat \<Rightarrow> bool) \<Rightarrow> evhttp \<Rightarrow> request_cbs \<Rightarrow> evhttp_connection \<Rightarrow> evhttp_request \<Rightarrow> read_result" where
  "evhttp_read_cb ok server cbs evcon req =
     (case con_state evcon of
        EVCON_READING_FIRSTLINE \<Rightarrow> evhttp_read_firstline ok server cbs evcon req
      | EVCON_READING_HEADERS \<Rightarrow> evhttp_read_header ok cbs evcon req
      | EVCON_READING_BODY \<Rightarrow> evhttp_read_body ok cbs evcon req
      | EVCON_READING_TRAILER \<Rightarrow> evhttp_read_trailer ok evcon req
      | EVCON_IDLE \<Rightarrow> Some (Connection_reset, evcon, req)
      | _ \<Rightarrow> None)"


section \<open>Reading chunks\<close>

lemma digits_cur:
  "EVUTIL_ISXDIGIT (cur (fmt_x n))" "EVUTIL_ISDIGIT (cur (fmt_d n))"
proof -
  have "cur (fmt_x n) \<in> set (fmt_x n)" "cur (fmt_d n) \<in> set (fmt_d n)" by (cases "fmt_x n"; cases "fmt_d n"; simp)+
  then show "EVUTIL_ISXDIGIT (cur (fmt_x n))" "EVUTIL_ISDIGIT (cur (fmt_d n))"
    using fmt_x_digits [of n] fmt_d_digits [of n] by (auto simp: list_all_iff)
qed

lemma xdigit_not_space: "EVUTIL_ISXDIGIT c \<Longrightarrow> \<not> EVUTIL_ISSPACE c \<and> c \<noteq> 43 \<and> c \<noteq> 45 \<and> c \<noteq> 120 \<and> c \<noteq> 88"
  by (auto simp: EVUTIL_ISXDIGIT_iff EVUTIL_ISSPACE_iff word_le_nat_alt)

lemma dropWhile_cur: "\<not> P (cur s) \<Longrightarrow> dropWhile P s = s"
  by (cases s) auto

lemma strtoll_digits:
  assumes "int n \<le> LONG_MAX"
  shows "evutil_strtoll (fmt_x n) 16 = (int n, [])" "evutil_strtoll (fmt_d n) 10 = (int n, [])"
proof -
  note tx = takeWhile_digits [OF fmt_x_digits [of n], of "[]", OF disjI1, OF refl, unfolded append_Nil2]
  note td = takeWhile_digits [OF fmt_d_digits [of n], of "[]", OF disjI1, OF refl, unfolded append_Nil2]
  have x: "\<not> EVUTIL_ISSPACE (cur (fmt_x n))" "cur (fmt_x n) \<noteq> 43" "cur (fmt_x n) \<noteq> 45"
    using xdigit_not_space [OF digits_cur(1)] by auto
  have nx: "\<not> (cur (tl (fmt_x n)) = 120 \<or> cur (tl (fmt_x n)) = 88)"
  proof (cases "tl (fmt_x n)")
    case (Cons c s)
    then have "c \<in> set (fmt_x n)" by (metis list.set_intros(1) list.set_sel(2) tl_Nil list.distinct(1))
    then have "EVUTIL_ISXDIGIT c" using fmt_x_digits [of n] by (simp add: list_all_iff)
    then show ?thesis using xdigit_not_space Cons by auto
  qed simp
  show "evutil_strtoll (fmt_x n) 16 = (int n, [])"
    using num_val_digits [of 16 n] assms x nx
    unfolding evutil_strtoll_def Let_def dropWhile_cur [of EVUTIL_ISSPACE, OF x(1)] by (simp add: LONG_MAX_def tx)
  have d: "\<not> EVUTIL_ISSPACE (cur (fmt_d n))" "cur (fmt_d n) \<noteq> 43" "cur (fmt_d n) \<noteq> 45"
    using digit_not_space [OF digits_cur(2)] by auto
  show "evutil_strtoll (fmt_d n) 10 = (int n, [])"
    using num_val_digits [of 10 n] assms d
    unfolding evutil_strtoll_def Let_def dropWhile_cur [of EVUTIL_ISSPACE, OF d(1)] by (simp add: LONG_MAX_def td)
qed

lemma fmt_x_plain: "set (fmt_x n) \<inter> {0, LF} = {}"
proof -
  have "c \<noteq> 0 \<and> c \<noteq> LF" if "EVUTIL_ISXDIGIT c" for c using that by (auto simp: EVUTIL_ISXDIGIT_iff LF_def word_le_nat_alt)
  then show ?thesis using fmt_x_digits [of n] by (auto simp: list_all_iff)
qed

text \<open>What the reader of a body relies on.\<close>

definition chunk_state :: "(nat \<Rightarrow> bool) \<Rightarrow> evhttp_request \<Rightarrow> evbuffer \<Rightarrow> bool" where
  "chunk_state ok req b \<longleftrightarrow> evbuffer_ok b \<and> total_len b \<le> EV_SSIZE_MAX \<and> \<not> freeze_start b \<and> alloc_serves ok (total_len b) \<and>
     evbuffer_ok (input_buffer req) \<and> \<not> freeze_end (input_buffer req) \<and> total_len (input_buffer req) + total_len b \<le> EV_SIZE_MAX"

lemma chunk_readln:
  assumes s: "chunk_state ok req b" and c: "content b = line @ [CR, LF] @ rest" "LF \<notin> set line"
  obtains b' where "evbuffer_readln ok b EVBUFFER_EOL_CRLF = Some (Some line, b')" "content b' = rest" "chunk_state ok req b'"
    "0 < total_len b" "total_len b' < total_len b"
proof -
  have "\<forall>n \<le> total_len b. ok n" using s by (simp add: chunk_state_def alloc_serves_def)
  with readln_crlf [OF _ _ _ _ c, of ok] s obtain b' where b': "evbuffer_readln ok b EVBUFFER_EOL_CRLF = Some (Some line, b')"
    "evbuffer_ok b'" "content b' = rest" "\<not> freeze_start b'" "total_len b' < total_len b" by (auto simp: chunk_state_def)
  moreover have "chunk_state ok req b'" using b' s by (auto simp: chunk_state_def intro: alloc_serves_le)
  ultimately show thesis by (intro that) auto
qed

lemma chunk_blank:
  assumes s: "chunk_state ok req b" and n: "ntoread req < 0" and c: "content b = [CR, LF] @ rest"
  shows "\<exists>b'. evhttp_handle_chunked_read ok cb req b = evhttp_handle_chunked_read ok cb req b' \<and> chunk_state ok req b' \<and> content b' = rest"
proof -
  have "content b = [] @ [CR, LF] @ rest" "LF \<notin> set []" using c by simp_all
  from chunk_readln [OF s this] obtain b' where b': "evbuffer_readln ok b EVBUFFER_EOL_CRLF = Some (Some [], b')" "content b' = rest"
    "chunk_state ok req b'" "0 < total_len b" "total_len b' < total_len b" .
  have "\<not> total_len b > EV_SSIZE_MAX" using s by (simp add: chunk_state_def)
  then have "evhttp_handle_chunked_read ok cb req b = evhttp_handle_chunked_read ok cb req b'"
    using b'(1,4) n by (subst evhttp_handle_chunked_read.simps) (simp add: cstring_def)
  then show ?thesis using b' by blast
qed

lemma chunk_size_line:
  assumes s: "chunk_state ok req b" and r: "ntoread req < 0"
    and c: "content b = fmt_x n @ [CR, LF] @ rest" "int n \<le> LONG_MAX"
    and lim: "body_size req + n \<le> max_body_size req" "body_size req + n \<le> EV_SIZE_MAX"
  shows "\<exists>b'. evhttp_handle_chunked_read ok cb req b =
      (let req1 = req\<lparr>body_size := body_size req + n, ntoread := int n\<rparr>
       in if n = 0 then Some (ALL_DATA_READ, req1, b') else evhttp_handle_chunked_read ok cb req1 b') \<and>
    chunk_state ok req b' \<and> content b' = rest"
proof -
  have "LF \<notin> set (fmt_x n)" "cstring (fmt_x n) = fmt_x n" using fmt_x_plain [of n] by (auto intro: cstring_id)
  with chunk_readln [OF s c(1)] obtain b' where b': "evbuffer_readln ok b EVBUFFER_EOL_CRLF = Some (Some (fmt_x n), b')" "content b' = rest"
    "chunk_state ok req b'" "0 < total_len b" by blast
  have "\<not> total_len b > EV_SSIZE_MAX" using s by (simp add: chunk_state_def)
  moreover have "\<not> n > EV_SIZE_MAX - body_size req" "\<not> body_size req + n > max_body_size req" using lim by linarith+
  ultimately have "evhttp_handle_chunked_read ok cb req b =
      (let req1 = req\<lparr>body_size := body_size req + n, ntoread := int n\<rparr>
       in if n = 0 then Some (ALL_DATA_READ, req1, b') else evhttp_handle_chunked_read ok cb req1 b')"
    using b'(1,4) r strtoll_digits(1) [OF c(2)] \<open>cstring (fmt_x n) = fmt_x n\<close>
    by (subst evhttp_handle_chunked_read.simps, cases "n = 0") (simp_all add: Let_def)
  then show ?thesis using b' by blast
qed

lemma chunk_data:
  assumes s: "chunk_state ok req b" and r: "ntoread req = int (length d)" "d \<noteq> []" and c: "content b = d @ rest"
  shows "\<exists>b' ib. evhttp_handle_chunked_read ok None req b = evhttp_handle_chunked_read ok None (req\<lparr>input_buffer := ib, ntoread := -1\<rparr>) b' \<and>
    chunk_state ok (req\<lparr>input_buffer := ib, ntoread := -1\<rparr>) b' \<and> content b' = rest \<and> content ib = content (input_buffer req) @ d"
proof -
  have st: "evbuffer_ok b" "\<not> freeze_start b" "evbuffer_ok (input_buffer req)" "\<not> freeze_end (input_buffer req)"
    "total_len (input_buffer req) + total_len b \<le> EV_SIZE_MAX" "alloc_serves ok (total_len b)" "total_len b \<le> EV_SSIZE_MAX"
    using s by (auto simp: chunk_state_def)
  have len: "total_len b = length d + length rest" using length_content [OF st(1)] c by simp
  then have "alloc_serves ok (length d)" using st(6) by (auto intro: alloc_serves_le)
  from evbuffer_remove_buffer_ok [OF st(1-5) this] c len obtain b' ib where
    m: "evbuffer_remove_buffer ok b (input_buffer req) (length d) = Some (c_int (int (length d)), b', ib)" "evbuffer_ok b'" "evbuffer_ok ib"
      "freeze_start b' = freeze_start b" "freeze_end ib = freeze_end (input_buffer req)" "content ib = content (input_buffer req) @ d"
      "content b' = rest" by auto
  have l: "total_len b' = length rest" "total_len ib = total_len (input_buffer req) + length d"
    using length_content [OF m(2)] length_content [OF m(3)] length_content [OF st(3)] m(6,7) by simp_all
  have "alloc_serves ok (total_len b')" using st(6) l len by (auto intro: alloc_serves_le)
  then have "chunk_state ok (req\<lparr>input_buffer := ib, ntoread := -1\<rparr>) b'"
    using m(2-5) st l len by (simp add: chunk_state_def)
  moreover have "evhttp_handle_chunked_read ok None req b = evhttp_handle_chunked_read ok None (req\<lparr>input_buffer := ib, ntoread := -1\<rparr>) b'"
    using m(1) r len st(7) by (subst evhttp_handle_chunked_read.simps) (simp add: run_chunk_cb_def)
  ultimately show ?thesis using m(6,7) by blast
qed

text \<open>The text of chunks, as \<^verbatim>\<open>evhttp_send_reply_chunk\<close> writes it.\<close>

definition chunk_text :: "u8 list \<Rightarrow> u8 list" where
  "chunk_text d = fmt_x (length d) @ [CR, LF] @ d @ [CR, LF]"

lemma chunk_one:
  assumes s: "chunk_state ok req b" "ntoread req < 0" and d: "d \<noteq> []" "int (length d) \<le> LONG_MAX" and c: "content b = chunk_text d @ rest"
    and lim: "body_size req + length d \<le> max_body_size req" "body_size req + length d \<le> EV_SIZE_MAX"
  shows "\<exists>b' ib. evhttp_handle_chunked_read ok None req b =
      evhttp_handle_chunked_read ok None (req\<lparr>body_size := body_size req + length d, input_buffer := ib, ntoread := -1\<rparr>) b' \<and>
    chunk_state ok (req\<lparr>body_size := body_size req + length d, input_buffer := ib, ntoread := -1\<rparr>) b' \<and> content b' = rest \<and>
    content ib = content (input_buffer req) @ d"
proof -
  let ?r1 = "req\<lparr>body_size := body_size req + length d, ntoread := int (length d)\<rparr>"
  have "content b = fmt_x (length d) @ [CR, LF] @ d @ [CR, LF] @ rest" using c by (simp add: chunk_text_def)
  from chunk_size_line [OF s this d(2) lim, of None] d(1) obtain b1 where
    b1: "evhttp_handle_chunked_read ok None req b = evhttp_handle_chunked_read ok None ?r1 b1" "chunk_state ok req b1"
      "content b1 = d @ [CR, LF] @ rest" by auto
  have "chunk_state ok ?r1 b1" using b1(2) by (simp add: chunk_state_def)
  from chunk_data [OF this _ d(1) b1(3)] obtain b2 ib where
    b2: "evhttp_handle_chunked_read ok None ?r1 b1 = evhttp_handle_chunked_read ok None (?r1\<lparr>input_buffer := ib, ntoread := -1\<rparr>) b2"
      "chunk_state ok (?r1\<lparr>input_buffer := ib, ntoread := -1\<rparr>) b2" "content b2 = [CR, LF] @ rest" "content ib = content (input_buffer req) @ d"
    by auto
  from chunk_blank [OF b2(2) _ b2(3), of None] obtain b3 where
    "evhttp_handle_chunked_read ok None (?r1\<lparr>input_buffer := ib, ntoread := -1\<rparr>) b2 =
       evhttp_handle_chunked_read ok None (?r1\<lparr>input_buffer := ib, ntoread := -1\<rparr>) b3"
      "chunk_state ok (?r1\<lparr>input_buffer := ib, ntoread := -1\<rparr>) b3" "content b3 = rest" by auto
  moreover have "?r1\<lparr>input_buffer := ib, ntoread := -1\<rparr> = req\<lparr>body_size := body_size req + length d, input_buffer := ib, ntoread := -1\<rparr>" by simp
  ultimately show ?thesis using b1(1) b2(1,4) by auto
qed

lemma chunks_read:
  assumes "chunk_state ok req b" "ntoread req < 0" "\<forall>d \<in> set ds. d \<noteq> [] \<and> int (length d) \<le> LONG_MAX"
    "content b = concat (map chunk_text ds) @ [48, CR, LF] @ rest"
    "body_size req + length (concat ds) \<le> max_body_size req" "body_size req + length (concat ds) \<le> EV_SIZE_MAX"
  shows "\<exists>b' ib. evhttp_handle_chunked_read ok None req b =
      Some (ALL_DATA_READ, req\<lparr>body_size := body_size req + length (concat ds), input_buffer := ib, ntoread := 0\<rparr>, b') \<and>
    chunk_state ok (req\<lparr>input_buffer := ib\<rparr>) b' \<and> content b' = rest \<and> content ib = content (input_buffer req) @ concat ds"
  using assms
proof (induction ds arbitrary: b req)
  case Nil
  have "fmt_x 0 = [48]" by code_simp
  then have c: "content b = fmt_x 0 @ [CR, LF] @ rest" using Nil(4) by simp
  from chunk_size_line [OF Nil(1,2) c, of None] Nil(5,6) obtain b' where
    b': "evhttp_handle_chunked_read ok None req b = Some (ALL_DATA_READ, req\<lparr>body_size := body_size req, ntoread := 0\<rparr>, b')"
      "chunk_state ok req b'" "content b' = rest" by (auto simp: LONG_MAX_def)
  moreover have "req\<lparr>body_size := body_size req, ntoread := 0\<rparr> =
      req\<lparr>body_size := body_size req + length (concat []), input_buffer := input_buffer req, ntoread := 0\<rparr>"
    "req\<lparr>input_buffer := input_buffer req\<rparr> = req" by (rule evhttp_request.equality; simp)+
  ultimately show ?case by (metis append_Nil2 concat.simps(1))
next
  case (Cons d ds)
  have d: "d \<noteq> []" "int (length d) \<le> LONG_MAX" "\<forall>d \<in> set ds. d \<noteq> [] \<and> int (length d) \<le> LONG_MAX" using Cons.prems(3) by auto
  have c: "content b = chunk_text d @ concat (map chunk_text ds) @ [48, CR, LF] @ rest" using Cons.prems(4) by simp
  have lim: "body_size req + length d \<le> max_body_size req" "body_size req + length d \<le> EV_SIZE_MAX" using Cons.prems(5,6) by simp_all
  from chunk_one [OF Cons.prems(1,2) d(1,2) c lim] obtain b1 ib where
    b1: "evhttp_handle_chunked_read ok None req b =
        evhttp_handle_chunked_read ok None (req\<lparr>body_size := body_size req + length d, input_buffer := ib, ntoread := -1\<rparr>) b1"
      "chunk_state ok (req\<lparr>body_size := body_size req + length d, input_buffer := ib, ntoread := -1\<rparr>) b1"
      "content b1 = concat (map chunk_text ds) @ [48, CR, LF] @ rest" "content ib = content (input_buffer req) @ d" by auto
  let ?r = "req\<lparr>body_size := body_size req + length d, input_buffer := ib, ntoread := -1\<rparr>"
  have "\<exists>b' ib. evhttp_handle_chunked_read ok None ?r b1 =
      Some (ALL_DATA_READ, ?r\<lparr>body_size := body_size ?r + length (concat ds), input_buffer := ib, ntoread := 0\<rparr>, b') \<and>
    chunk_state ok (?r\<lparr>input_buffer := ib\<rparr>) b' \<and> content b' = rest \<and> content ib = content (input_buffer ?r) @ concat ds"
    by (rule Cons.IH [OF b1(2) _ d(3) b1(3)]) (use Cons.prems(5,6) in simp_all)
  then obtain b' ib' where r: "evhttp_handle_chunked_read ok None ?r b1 =
      Some (ALL_DATA_READ, ?r\<lparr>body_size := body_size ?r + length (concat ds), input_buffer := ib', ntoread := 0\<rparr>, b')"
    "chunk_state ok (?r\<lparr>input_buffer := ib'\<rparr>) b'" "content b' = rest" "content ib' = content ib @ concat ds" by auto
  have e: "?r\<lparr>body_size := body_size ?r + length (concat ds), input_buffer := ib', ntoread := 0\<rparr> =
      req\<lparr>body_size := body_size req + length (concat (d # ds)), input_buffer := ib', ntoread := 0\<rparr>" by simp
  have st: "chunk_state ok (req\<lparr>input_buffer := ib'\<rparr>) b'" using r(2) by (simp add: chunk_state_def)
  show ?case unfolding b1(1) r(1) e using st r(3,4) b1(4) by (intro exI [of _ b'] exI [of _ ib']) simp
qed

section \<open>Writing chunks\<close>

lemma send_chunk_written:
  assumes out: "evbuffer_ok out" "\<not> freeze_end out" and d: "evbuffer_ok d" "\<not> freeze_start d" "total_len d \<noteq> 0" "total_len d < 2 ^ 32"
    and req: "chunked req" "evhttp_response_needs_body req"
    and al: "alloc_serves ok n" "length (chunk_text (content d)) \<le> n" and tot: "total_len out + length (chunk_text (content d)) \<le> EV_SIZE_MAX"
  shows "\<exists>d' o'. evhttp_send_reply_chunk ok req d out = Some (d', o') \<and> evbuffer_ok o' \<and> \<not> freeze_end o' \<and>
    content o' = content out @ chunk_text (content d) \<and> total_len o' = total_len out + length (chunk_text (content d))"
proof -
  let ?h = "fmt_x (total_len d) @ [CR, LF]"
  have len: "length (content d) = total_len d" "length (chunk_text (content d)) = length ?h + total_len d + 2"
    using length_content [OF d(1)] by (simp_all add: chunk_text_def)
  have l1: "length ?h \<le> n" "total_len out + length ?h \<le> EV_SIZE_MAX" using al(2) tot len(2) by linarith+
  from add_written [OF out al(1) l1] obtain o1 where o1: "evbuffer_add ok out ?h = Some (0, o1)" "evbuffer_ok o1" "\<not> freeze_end o1"
    "content o1 = content out @ ?h" "total_len o1 = total_len out + length ?h" .
  have "total_len o1 + total_len d \<le> EV_SIZE_MAX" using o1(5) tot len(2) by linarith
  from evbuffer_add_buffer_ok [OF o1(2,3) d(1,2) this, of ok] obtain o2 d' where
    o2: "evbuffer_add_buffer ok o1 d = Some (0, o2, d')" "evbuffer_ok o2" "content o2 = content o1 @ content d" by blast
  have fe: "\<not> freeze_end o2" using add_buffer_frame(2) [OF o2(1)] o1(3) by simp
  have t2: "total_len o2 = total_len o1 + total_len d"
    using length_content [OF o2(2)] length_content [OF o1(2)] o2(3) len(1) by simp
  have l3: "length [CR, LF] \<le> n" "total_len o2 + length [CR, LF] \<le> EV_SIZE_MAX" using al(2) tot len(2) o1(5) t2 by simp_all
  from add_written [OF o2(2) fe al(1) l3] obtain o3 where o3: "evbuffer_add ok o2 [CR, LF] = Some (0, o3)" "evbuffer_ok o3" "\<not> freeze_end o3"
    "content o3 = content o2 @ [CR, LF]" "total_len o3 = total_len o2 + length [CR, LF]" .
  have "evhttp_send_reply_chunk ok req d out = Some (d', o3)"
    using d(3,4) req o1(1) o2(1) o3(1) by (simp add: evhttp_send_reply_chunk_def)
  moreover have "content o3 = content out @ chunk_text (content d)" using o1(4) o2(3) o3(4) len(1) by (simp add: chunk_text_def)
  moreover have "total_len o3 = total_len out + length (chunk_text (content d))" using len(2) o1(5) t2 o3(5) by simp
  ultimately show ?thesis using o3(2,3) by blast
qed

text \<open>Several chunks and the end of the reply.\<close>

primrec send_chunks :: "(nat \<Rightarrow> bool) \<Rightarrow> evhttp_request \<Rightarrow> evbuffer list \<Rightarrow> evbuffer \<Rightarrow> (evhttp_request \<times> evbuffer) option" where
  "send_chunks ok req [] out = evhttp_send_reply_end ok req out"
| "send_chunks ok req (d # ds) out = do { (d', o1) \<leftarrow> evhttp_send_reply_chunk ok req d out; send_chunks ok req ds o1 }"

abbreviation chunks_text :: "evbuffer list \<Rightarrow> u8 list" where
  "chunks_text ds \<equiv> concat (map (\<lambda>d. chunk_text (content d)) ds) @ [48, CR, LF, CR, LF]"

abbreviation chunk_buffer_ok :: "evbuffer \<Rightarrow> bool" where
  "chunk_buffer_ok d \<equiv> evbuffer_ok d \<and> \<not> freeze_start d \<and> total_len d \<noteq> 0 \<and> total_len d < 2 ^ 32"

lemma send_chunks_written:
  assumes "evbuffer_ok out" "\<not> freeze_end out" "list_all chunk_buffer_ok ds" "chunked req" "evhttp_response_needs_body req"
    "alloc_serves ok n" "length (chunks_text ds) \<le> n" "total_len out + length (chunks_text ds) \<le> EV_SIZE_MAX"
  shows "\<exists>o'. send_chunks ok req ds out = Some (req\<lparr>chunked := False\<rparr>, o') \<and> evbuffer_ok o' \<and> content o' = content out @ chunks_text ds"
  using assms
proof (induction ds arbitrary: out)
  case Nil
  from add_written [OF Nil(1,2,6), of "[48, CR, LF, CR, LF]"] Nil(7,8) obtain o1 where "evbuffer_add ok out [48, CR, LF, CR, LF] = Some (0, o1)"
    "evbuffer_ok o1" "content o1 = content out @ [48, CR, LF, CR, LF]" by auto
  then show ?case using Nil(4) by (simp add: evhttp_send_reply_end_def)
next
  case (Cons d ds)
  have d: "chunk_buffer_ok d" "list_all chunk_buffer_ok ds" using Cons.prems(3) by auto
  have len: "length (chunk_text (content d)) \<le> n" "total_len out + length (chunk_text (content d)) \<le> EV_SIZE_MAX" using Cons.prems(7,8) by auto
  from send_chunk_written [OF Cons.prems(1,2) _ _ _ _ Cons.prems(4-6) len] d(1) obtain d' o1 where
    o1: "evhttp_send_reply_chunk ok req d out = Some (d', o1)" "evbuffer_ok o1" "\<not> freeze_end o1"
      "content o1 = content out @ chunk_text (content d)" "total_len o1 = total_len out + length (chunk_text (content d))" by blast
  have "length (chunks_text ds) \<le> n" "total_len o1 + length (chunks_text ds) \<le> EV_SIZE_MAX" using Cons.prems(7,8) o1(5) by auto
  from Cons.IH [OF o1(2,3) d(2) Cons.prems(4-6) this] o1(1,4) show ?case by auto
qed

lemma trailer_done:
  assumes "chunk_state ok req b" "content b = [CR, LF] @ rest" "headers_size req < 2 ^ 63" "\<not> too_long req (headers_size req + 2)"
  shows "\<exists>req' b'. evhttp_read_trailer ok (evcon\<lparr>con_input := b\<rparr>) req = Some (Connection_done, evcon\<lparr>con_input := b'\<rparr>, req') \<and>
    content b' = rest \<and> input_buffer req' = input_buffer req"
proof -
  have "content b = headers_text [] @ rest" using assms(2) by (simp add: headers_text_def)
  from parse_headers_text [of b ok "[]" rest req, OF _ _ _ _ this] assms obtain b' n where
    "evhttp_parse_headers ok req b = Some (ALL_DATA_READ, req\<lparr>input_headers := input_headers req, headers_size := n\<rparr>, b')" "content b' = rest"
    by (auto simp: chunk_state_def alloc_serves_def headers_text_def)
  then show ?thesis by (auto simp: evhttp_read_trailer_def)
qed

text \<open>
  C38. A reply that is written in chunks arrives as a whole: each non-empty buffer is printed with its length in
  hexadecimal, the end of the reply with a chunk of length 0 and an empty trailer; a connection that reads a body in chunks and finds
  these bytes in its input appends exactly the contents of the buffers, in order, to the body of its request,
  reports that the message is complete, and leaves the bytes behind it in its input. Each buffer is shorter than
  2 ^ 32 bytes, the body stays below the limit of the connection, memory is available and no callback for chunks is set.
\<close>

theorem chunked_round_trip:
  assumes "list_all chunk_buffer_ok ds" "chunked w" "evhttp_response_needs_body w" "alloc_serves ok (length (chunks_text ds))"
    "length (chunks_text ds) \<le> EV_SIZE_MAX"
    "chunked req" "ntoread req < 0" "chunk_state ok req (con_input evcon)" "chunk_cb cbs = None"
    "body_size req + length (concat (map content ds)) \<le> max_body_size req" "max_body_size req \<le> EV_SIZE_MAX"
    "headers_size req < 2 ^ 63" "\<not> too_long req (headers_size req + 2)"
  shows "\<exists>w' out. send_chunks ok w ds evbuffer_new = Some (w', out) \<and>
    (content (con_input evcon) = content out @ rest \<longrightarrow>
     (\<exists>evcon' req'. evhttp_read_body ok cbs evcon req = Some (Connection_done, evcon', req') \<and>
        con_state evcon' = EVCON_READING_TRAILER \<and> content (con_input evcon') = rest \<and>
        content (input_buffer req') = content (input_buffer req) @ concat (map content ds)))"
proof -
  have "evbuffer_ok evbuffer_new" "\<not> freeze_end evbuffer_new" "content evbuffer_new = []" "total_len evbuffer_new = 0"
    using evbuffer_new_ok by (simp_all add: evbuffer_new_def)
  with send_chunks_written [of evbuffer_new, OF _ _ assms(1-4) order_refl] assms(5) obtain out where
    out: "send_chunks ok w ds evbuffer_new = Some (w\<lparr>chunked := False\<rparr>, out)" "content out = chunks_text ds" by auto
  let ?b = "con_input evcon"
  have "\<exists>evcon' req'. evhttp_read_body ok cbs evcon req = Some (Connection_done, evcon', req') \<and>
        con_state evcon' = EVCON_READING_TRAILER \<and> content (con_input evcon') = rest \<and>
        content (input_buffer req') = content (input_buffer req) @ concat (map content ds)"
    if c: "content ?b = content out @ rest"
  proof -
    have "content d \<noteq> [] \<and> int (length (content d)) \<le> LONG_MAX" if "chunk_buffer_ok d" for d
      using that length_content [of d] by (auto simp: LONG_MAX_def simp del: length_content)
    then have ds: "\<forall>d \<in> set (map content ds). d \<noteq> [] \<and> int (length d) \<le> LONG_MAX" using assms(1) by (simp add: list_all_iff)
    have cc: "content ?b = concat (map chunk_text (map content ds)) @ [48, CR, LF] @ [CR, LF] @ rest"
      using c out(2) by (simp add: comp_def)
    have "body_size req + length (concat (map content ds)) \<le> EV_SIZE_MAX" using assms(10,11) by simp
    from chunks_read [OF assms(8,7) ds cc assms(10) this] obtain b1 ib where
      r: "evhttp_handle_chunked_read ok None req ?b = Some (ALL_DATA_READ,
            req\<lparr>body_size := body_size req + length (concat (map content ds)), input_buffer := ib, ntoread := 0\<rparr>, b1)"
        "chunk_state ok (req\<lparr>input_buffer := ib\<rparr>) b1" "content b1 = [CR, LF] @ rest"
        "content ib = content (input_buffer req) @ concat (map content ds)" by auto
    let ?r = "req\<lparr>body_size := body_size req + length (concat (map content ds)), input_buffer := ib, ntoread := 0\<rparr>"
    have st: "chunk_state ok ?r b1" "headers_size ?r < 2 ^ 63" "\<not> too_long ?r (headers_size ?r + 2)"
      using r(2) assms(12,13) by (simp_all add: chunk_state_def too_long_def)
    from trailer_done [OF st(1) r(3) st(2,3), of "evcon\<lparr>con_state := EVCON_READING_TRAILER\<rparr>"] obtain req' b' where
      t: "evhttp_read_trailer ok (evcon\<lparr>con_state := EVCON_READING_TRAILER, con_input := b1\<rparr>) ?r =
            Some (Connection_done, evcon\<lparr>con_state := EVCON_READING_TRAILER, con_input := b'\<rparr>, req')"
        "content b' = rest" "input_buffer req' = ib" by auto
    have "evhttp_read_body ok cbs evcon req = evhttp_read_trailer ok (evcon\<lparr>con_state := EVCON_READING_TRAILER, con_input := b1\<rparr>) ?r"
      using assms(6,9) r(1) by (simp add: evhttp_read_body_def)
    then show ?thesis using t r(4) by simp
  qed
  with out(1) show ?thesis by simp
qed

section \<open>The loop over the chunks ends\<close>

text \<open>A callback that leaves the number of missing bytes alone and keeps the body usable.\<close>

definition chunk_cb_ok :: "(evhttp_request \<Rightarrow> evhttp_request) option \<Rightarrow> bool" where
  "chunk_cb_ok cb \<longleftrightarrow> (\<forall>f req. cb = Some f \<longrightarrow> ntoread (f req) = ntoread req \<and>
     (evbuffer_ok (input_buffer req) \<longrightarrow> evbuffer_ok (input_buffer (f req)) \<and> freeze_end (input_buffer (f req)) = freeze_end (input_buffer req) \<and>
       total_len (input_buffer (f req)) \<le> total_len (input_buffer req)))"

lemma run_chunk_cb_ok:
  assumes cb: "chunk_cb_ok cb" and st: "chunk_state ok req b"
  shows "\<exists>c req'. run_chunk_cb cb req = Some (c, req') \<and> ntoread req' = ntoread req \<and> chunk_state ok req' b"
proof (cases cb)
  case (Some f)
  let ?r = "f (req\<lparr>req_flags := req_flags req OR EVHTTP_REQ_DEFER_FREE\<rparr>)"
  have f: "ntoread ?r = ntoread req" "evbuffer_ok (input_buffer ?r)" "freeze_end (input_buffer ?r) = freeze_end (input_buffer req)"
    "total_len (input_buffer ?r) \<le> total_len (input_buffer req)"
    using cb [unfolded chunk_cb_ok_def, rule_format, OF Some, of "req\<lparr>req_flags := req_flags req OR EVHTTP_REQ_DEFER_FREE\<rparr>"] st
    by (auto simp: chunk_state_def)
  from evbuffer_drain_ok [OF f(2), of "total_len (input_buffer ?r)"] obtain r ib where
    d: "evbuffer_drain (input_buffer ?r) (total_len (input_buffer ?r)) = Some (r, ib)" "evbuffer_ok ib" "freeze_end ib = freeze_end (input_buffer ?r)"
      "ib = input_buffer ?r \<or> content ib = []" using length_content [OF f(2)] by (auto split: if_splits)
  have "total_len ib \<le> total_len (input_buffer req)" using d(4) f(4) length_content [OF d(2)] by (auto simp del: length_content)
  then show ?thesis using Some d(1-3) f st by (auto simp: run_chunk_cb_def Let_def chunk_state_def)
qed (use st in \<open>auto simp: run_chunk_cb_def\<close>)

text \<open>A result that leaves a final part of the bytes \<open>s\<close>.\<close>

definition chunks_left :: "u8 list \<Rightarrow> (message_read_status \<times> evhttp_request \<times> evbuffer) option \<Rightarrow> bool" where
  "chunks_left s r \<longleftrightarrow> (\<exists>st req' b' k. r = Some (st, req', b') \<and> evbuffer_ok b' \<and> content b' = drop k s)"

lemma chunks_left_Some: "evbuffer_ok b' \<Longrightarrow> content b' = drop k s \<Longrightarrow> chunks_left s (Some (st, req', b'))"
  by (auto simp: chunks_left_def)

lemma chunks_left_drop: "chunks_left (drop k s) r \<Longrightarrow> chunks_left s r"
  by (auto simp: chunks_left_def)

lemma chunked_read_ends:
  assumes "chunk_state ok req b" "chunk_cb_ok cb"
  shows "chunks_left (content b) (evhttp_handle_chunked_read ok cb req b)"
  using assms(1)
proof (induction "2 * total_len b + (if ntoread req < 0 then 0 else 1)" arbitrary: b req rule: less_induct)
  case less
  let ?P = "chunks_left (content b)"
  have b: "evbuffer_ok b" "total_len b \<le> EV_SSIZE_MAX" "\<not> freeze_start b" "\<forall>n. ok n" using less.prems by (auto simp: chunk_state_def alloc_serves_def)
  have here: "?P (Some (st, req', b))" for st req' by (rule chunks_left_Some [of _ 0]) (simp_all add: b(1))
  have step: "?P (evhttp_handle_chunked_read ok cb req1 b1)"
    if "chunk_state ok req1 b1" "content b1 = drop k (content b)"
      "2 * total_len b1 + (if ntoread req1 < 0 then 0 else 1) < 2 * total_len b + (if ntoread req < 0 then 0 else 1)" for req1 b1 k
    using less.hyps [OF that(3,1)] unfolding that(2) by (rule chunks_left_drop)
  consider (none) "total_len b = 0" | (line) "total_len b \<noteq> 0" "ntoread req < 0" | (data) "total_len b \<noteq> 0" "0 \<le> ntoread req" by linarith
  then show ?case
  proof cases
    case none
    then show ?thesis using here by (subst evhttp_handle_chunked_read.simps) auto
  next
    case line
    from readln_ok [OF b(1-3), of ok EVBUFFER_EOL_CRLF] b(4) obtain b' where
      rl: "evbuffer_readln ok b EVBUFFER_EOL_CRLF = (case eol_spec EVBUFFER_EOL_CRLF (content b) of None \<Rightarrow> Some (None, b)
             | Some (m, e) \<Rightarrow> Some (Some (take m (content b)), b'))"
        "evbuffer_ok b'" "freeze_start b' = freeze_start b"
        "\<forall>m e. eol_spec EVBUFFER_EOL_CRLF (content b) = Some (m, e) \<longrightarrow> content b' = drop (m + e) (content b)"
      by (auto split: option.splits)
    show ?thesis
    proof (cases "eol_spec EVBUFFER_EOL_CRLF (content b)")
      case None
      then show ?thesis using line here rl(1) b(2) by (subst evhttp_handle_chunked_read.simps) auto
    next
      case (Some me)
      obtain m e where me: "me = (m, e)" by force
      have c': "content b' = drop (m + e) (content b)" "0 < e" "m + e \<le> total_len b"
        using rl(4) eol_spec_crlf [of "content b" m e] Some me length_content [OF b(1)] by auto
      then have t: "total_len b' < total_len b" using length_content [OF rl(2)] length_content [OF b(1)] line(1) by auto
      have st': "chunk_state ok r b'" if "input_buffer r = input_buffer req" for r
        using less.prems rl(2,3) t that by (auto simp: chunk_state_def intro: alloc_serves_le)
      have there: "?P (Some (st, req', b'))" for st req' using rl(2) c'(1) by (rule chunks_left_Some)
      have go: "?P (evhttp_handle_chunked_read ok cb r b')" if "input_buffer r = input_buffer req" for r
        by (rule step [OF st' [OF that] c'(1)]) (use t in auto)
      show ?thesis using line rl(1) Some me b(2)
        by (subst evhttp_handle_chunked_read.simps) (simp add: Let_def go there)
    qed
  next
    case data
    let ?n = "nat (ntoread req)"
    show ?thesis
    proof (cases "ntoread req > int EV_SSIZE_MAX \<or> ntoread req > 0 \<and> int (total_len b) < ntoread req")
      case True
      then show ?thesis using data here b(2) by (subst evhttp_handle_chunked_read.simps) auto
    next
      case False
      have st: "evbuffer_ok b" "\<not> freeze_start b" "evbuffer_ok (input_buffer req)" "\<not> freeze_end (input_buffer req)"
        "total_len (input_buffer req) + total_len b \<le> EV_SIZE_MAX" "alloc_serves ok (total_len b)"
        using less.prems by (auto simp: chunk_state_def)
      have n: "?n \<le> total_len b" using False data by auto
      from evbuffer_remove_buffer_ok [OF st(1-5) alloc_serves_le [OF st(6) n]] obtain r b' ib where
        m: "evbuffer_remove_buffer ok b (input_buffer req) ?n = Some (r, b', ib)" "evbuffer_ok b'" "evbuffer_ok ib"
          "freeze_start b' = freeze_start b" "freeze_end ib = freeze_end (input_buffer req)"
          "content ib = content (input_buffer req) @ take ?n (content b)" "content b' = drop ?n (content b)" by blast
      have l: "total_len b' = total_len b - ?n" "total_len ib = total_len (input_buffer req) + ?n"
        using length_content [OF m(2)] length_content [OF m(3)] length_content [OF st(1)] length_content [OF st(3)] m(6,7) n by simp_all
      have "chunk_state ok (req\<lparr>input_buffer := ib, ntoread := -1\<rparr>) b'"
        using st m(2-5) l n less.prems by (auto simp: chunk_state_def intro: alloc_serves_le)
      from run_chunk_cb_ok [OF assms(2) this] obtain c req' where
        cb: "run_chunk_cb cb (req\<lparr>input_buffer := ib, ntoread := -1\<rparr>) = Some (c, req')" "ntoread req' = -1" "chunk_state ok req' b'" by auto
      have "?P (evhttp_handle_chunked_read ok cb req' b')"
        by (rule step [OF cb(3) m(7)]) (use cb(2) data l n in auto)
      moreover have "?P (Some (REQUEST_CANCELED, req', b'))" using m(2,7) by (rule chunks_left_Some)
      ultimately show ?thesis using False data b(2) m(1) cb(1) by (subst evhttp_handle_chunked_read.simps) auto
    qed
  qed
qed

text \<open>
  C39. The loop over the chunks ends, whatever the bytes are: every round takes a line or a chunk off the input,
  or forgets that a chunk of length 0 was missing. It ends with a status, and the input keeps a final part of its bytes. The callback
  for chunks may do anything to the request but change the number of missing bytes or break its body.
\<close>

theorem chunked_read_returns:
  assumes "chunk_state ok req b" "chunk_cb_ok cb"
  shows "\<exists>st req' b' k. evhttp_handle_chunked_read ok cb req b = Some (st, req', b') \<and> evbuffer_ok b' \<and> content b' = drop k (content b)"
  using chunked_read_ends [OF assms] by (auto simp: chunks_left_def)

lemma sample_chunk_state:
  assumes "s \<noteq> []" "length s < 1000" "input_buffer req = evbuffer_new"
  shows "chunk_state (\<lambda>_. True) req (text_buffer s)"
  using text_buffer_ok [OF assms(1,2)] evbuffer_new_ok assms
  by (simp add: chunk_state_def buffer_limits EV_SIZE_MAX_def)
    (simp add: evbuffer_new_def)

theorem chunked_read_returns_witness:
  "\<exists>st req' b' k. evhttp_handle_chunked_read (\<lambda>_. True) (Some (\<lambda>r. r)) sample_request (text_buffer [53, CR, LF, 97]) = Some (st, req', b') \<and>
     content b' = drop k [53, CR, LF, 97]"
proof -
  have "chunk_state (\<lambda>_. True) sample_request (text_buffer [53, CR, LF, 97])" by (rule sample_chunk_state) (simp_all add: sample_request_def)
  moreover have "chunk_cb_ok (Some (\<lambda>r. r))" by (simp add: chunk_cb_ok_def)
  ultimately show ?thesis using chunked_read_returns [of "\<lambda>_. True" sample_request "text_buffer [53, CR, LF, 97]" "Some (\<lambda>r. r)"]
      text_buffer_ok(2) [of "[53, CR, LF, 97]"] by auto
qed

text \<open>A connection that reads a body in chunks.\<close>

definition chunked_request :: evhttp_request where
  "chunked_request = sample_request\<lparr>chunked := True, ntoread := -1, response_code := 200\<rparr>"

definition body_connection :: "u8 list \<Rightarrow> evhttp_connection" where
  "body_connection s = \<lparr>con_state = EVCON_READING_BODY, con_flags = 0, con_input = text_buffer s, con_output = evbuffer_new\<rparr>"

definition no_cbs :: request_cbs where
  "no_cbs = \<lparr>chunk_cb = None, header_cb = None\<rparr>"

theorem chunked_round_trip_witness:
  "\<exists>w' out. send_chunks (\<lambda>_. True) chunked_request [text_buffer [97, 98], text_buffer [99]] evbuffer_new = Some (w', out) \<and>
    content out = [50, CR, LF, 97, 98, CR, LF, 49, CR, LF, 99, CR, LF, 48, CR, LF, CR, LF] \<and>
     (\<exists>evcon' req'. evhttp_read_body (\<lambda>_. True) no_cbs
          (body_connection [50, CR, LF, 97, 98, CR, LF, 49, CR, LF, 99, CR, LF, 48, CR, LF, CR, LF]) chunked_request =
        Some (Connection_done, evcon', req') \<and> content (input_buffer req') = [97, 98, 99])"
proof -
  let ?ds = "[text_buffer [97, 98], text_buffer [99]]" and ?s = "[50, CR, LF, 97, 98, CR, LF, 49, CR, LF, 99, CR, LF, 48, CR, LF, CR, LF]"
  note t1 = text_buffer_ok [of "[97, 98]"] and t2 = text_buffer_ok [of "[99]"] and ts = text_buffer_ok [of ?s]
  have x: "fmt_x 1 = [49]" "fmt_x 2 = [50]" by code_simp+
  have ds: "list_all chunk_buffer_ok ?ds" using t1 t2 by simp
  have ct: "chunks_text ?ds = ?s" using t1(2) t2(2) x by (simp add: chunk_text_def numeral_eq_Suc)
  have al: "alloc_serves (\<lambda>_. True) (length (chunks_text ?ds))" "length (chunks_text ?ds) \<le> EV_SIZE_MAX"
    unfolding ct by (simp_all add: buffer_limits EV_SIZE_MAX_def)
  have w: "chunked chunked_request" "evhttp_response_needs_body chunked_request" "ntoread chunked_request < 0" "chunk_cb no_cbs = None"
    by (simp_all add: chunked_request_def sample_request_def evhttp_response_needs_body_def no_cbs_def)
  have st: "chunk_state (\<lambda>_. True) chunked_request (con_input (body_connection ?s))"
    unfolding body_connection_def evhttp_connection.simps by (rule sample_chunk_state) (simp_all add: chunked_request_def sample_request_def)
  have lim: "body_size chunked_request + length (concat (map content ?ds)) \<le> max_body_size chunked_request"
    "max_body_size chunked_request \<le> EV_SIZE_MAX" "headers_size chunked_request < 2 ^ 63" "\<not> too_long chunked_request (headers_size chunked_request + 2)"
    using t1(2) t2(2) by (simp_all add: chunked_request_def sample_request_def EV_SIZE_MAX_def too_long_def)
  have c: "content (con_input (body_connection ?s)) = ?s" using ts(2) by (simp add: body_connection_def)
  have ib: "content (input_buffer chunked_request) = []" using evbuffer_new_ok(2) by (simp add: chunked_request_def sample_request_def)
  have new: "evbuffer_ok evbuffer_new" "\<not> freeze_end evbuffer_new" "content evbuffer_new = []" "total_len evbuffer_new = 0"
    using evbuffer_new_ok by (simp_all add: evbuffer_new_def)
  from send_chunks_written [OF new(1,2) ds w(1,2) al(1) order_refl] al(2) obtain out where
    o: "send_chunks (\<lambda>_. True) chunked_request ?ds evbuffer_new = Some (chunked_request\<lparr>chunked := False\<rparr>, out)" "content out = ?s"
    unfolding new(3,4) ct by auto
  from chunked_round_trip [OF ds w(1,2) al w(1,3) st w(4) lim, of "[]"] o show ?thesis
    unfolding c ib append_Nil2 using t1(2) t2(2) by auto
qed


section \<open>A whole request\<close>

lemma find_header_None: "evhttp_find_header hs k = None \<longleftrightarrow> (\<forall>h \<in> set hs. evutil_ascii_strcasecmp (fst h) k \<noteq> 0)"
  by (auto simp: evhttp_find_header_def find_None_iff)

lemma remove_header_subset: "set (snd (evhttp_remove_header hs k)) \<subseteq> set hs"
  by (induction hs) (auto simp: Let_def split: prod.splits)

lemma find_header_snoc:
  "evhttp_find_header (hs @ [(k', v)]) k =
     (case evhttp_find_header hs k of Some x \<Rightarrow> Some x | None \<Rightarrow> if evutil_ascii_strcasecmp k' k = 0 then Some v else None)"
  by (induction hs) (auto simp: evhttp_find_header_def)

lemma request_read_headers:
  assumes b: "evbuffer_ok b" "total_len b \<le> EV_SSIZE_MAX" "\<not> freeze_start b" "\<forall>n \<le> total_len b. ok n" "\<not> too_long req (total_len b)"
    and w: "request_ok w" "req_kind req = EVHTTP_REQUEST" "list_all header_ok hs"
    and c: "content b = request_line w @ headers_text hs @ rest"
  shows "\<exists>st1 b1 fl n b2. evhttp_parse_firstline ok server req b = Some (ALL_DATA_READ, st1, b1) \<and>
    evhttp_parse_headers ok st1 b1 = Some (ALL_DATA_READ,
      req\<lparr>req_type := req_type w, major := major w, minor := minor w, req_uri := req_uri w,
          uri_elems := uri_of_type (req_type w) (the (req_uri w)), req_flags := fl, input_headers := input_headers req @ hs, headers_size := n\<rparr>, b2) \<and>
    evbuffer_ok b2 \<and> content b2 = rest \<and> \<not> freeze_start b2"
proof -
  from parse_request_line_ok [OF w(1)] obtain line where l: "request_line w = line @ [CR, LF]" "set line \<inter> {0, LF} = {}"
    and p: "\<forall>server req. \<exists>fl. evhttp_parse_request_line server req line =
       (0, req\<lparr>req_type := req_type w, major := major w, minor := minor w, req_uri := req_uri w,
               uri_elems := uri_of_type (req_type w) (the (req_uri w)), req_flags := fl\<rparr>)" by blast
  have cc: "content b = line @ [CR, LF] @ headers_text hs @ rest" "LF \<notin> set line" using c l by auto
  have len: "length line + 2 + length (headers_text hs) + length rest = total_len b" using length_content [OF b(1)] cc(1) by simp
  then have "\<not> too_long req (length line)" using b(5) by (auto simp: too_long_def split: option.splits)
  from parse_firstline_line [OF b(1-4) cc this, of server] w(2) obtain b1 where
    b1: "evbuffer_ok b1" "content b1 = headers_text hs @ rest" "\<not> freeze_start b1" "total_len b1 < total_len b"
    "evhttp_parse_firstline ok server req b = Some (let (res, req2) = evhttp_parse_request_line server (req\<lparr>headers_size := length line\<rparr>) line
       in (if res = -1 then DATA_CORRUPTED else ALL_DATA_READ, req2, b1))" by auto
  from p [rule_format, of server "req\<lparr>headers_size := length line\<rparr>"] obtain fl where
    pl: "evhttp_parse_request_line server (req\<lparr>headers_size := length line\<rparr>) line = (0, req\<lparr>headers_size := length line, req_type := req_type w,
       major := major w, minor := minor w, req_uri := req_uri w, uri_elems := uri_of_type (req_type w) (the (req_uri w)), req_flags := fl\<rparr>)"
    by auto
  let ?r1 = "req\<lparr>headers_size := length line, req_type := req_type w, major := major w, minor := minor w, req_uri := req_uri w,
       uri_elems := uri_of_type (req_type w) (the (req_uri w)), req_flags := fl\<rparr>"
  have size: "headers_size ?r1 + length (headers_text hs) < 2 ^ 64" "\<not> too_long ?r1 (headers_size ?r1 + length (headers_text hs))"
    using len b(2,5) by (auto simp: EV_SSIZE_MAX_def too_long_def split: option.splits)
  have "total_len b1 \<le> EV_SSIZE_MAX" "\<forall>n \<le> total_len b1. ok n" using b1(4) b(2,4) by auto
  from parse_headers_text [OF b1(1) this(1) b1(3) this(2) b1(2) w(3) size] obtain b2 n where
    "evhttp_parse_headers ok ?r1 b1 = Some (ALL_DATA_READ, ?r1\<lparr>input_headers := input_headers ?r1 @ hs, headers_size := n\<rparr>, b2)"
    "evbuffer_ok b2" "content b2 = rest" "\<not> freeze_start b2" by blast
  then show ?thesis using b1(5) pl by (intro exI [of _ ?r1] exI [of _ b1] exI [of _ fl] exI [of _ n] exI [of _ b2]) simp
qed

text \<open>A body whose length the headers announce is complete in the input.\<close>

lemma get_body_length_known:
  assumes "req_kind req = EVHTTP_REQUEST" "evhttp_method_may_have_body (req_type req)" "\<not> chunked req"
    "evhttp_find_header (input_headers req) (lit ''Transfer-Encoding'') = None"
    "evhttp_find_header (input_headers req) (lit ''Content-Length'') = Some (fmt_d n)"
    "evhttp_find_header (input_headers req) (lit ''Expect'') = None" "0 < n"
    and st: "chunk_state ok req (con_input evcon)" and c: "content (con_input evcon) = d @ rest" "length d = n"
    and lim: "body_size req + n \<le> max_body_size req" "body_size req + n < 2 ^ 64" and cb: "chunk_cb cbs = None"
  shows "\<exists>evcon' req'. evhttp_get_body ok cbs evcon req = Some (Connection_done, evcon', req') \<and>
    content (con_input evcon') = rest \<and> content (input_buffer req') = content (input_buffer req) @ d \<and>
    input_headers req' = input_headers req \<and> req_uri req' = req_uri req \<and> req_type req' = req_type req"
proof -
  let ?b = "con_input evcon"
  have s: "evbuffer_ok ?b" "\<not> freeze_start ?b" "evbuffer_ok (input_buffer req)" "\<not> freeze_end (input_buffer req)"
    "total_len (input_buffer req) + total_len ?b \<le> EV_SIZE_MAX" "alloc_serves ok (total_len ?b)" "total_len ?b \<le> EV_SSIZE_MAX"
    using st by (auto simp: chunk_state_def)
  have len: "total_len ?b = n + length rest" using length_content [OF s(1)] c by simp
  have n63: "int n \<le> LONG_MAX" using len s(7) by (simp add: EV_SSIZE_MAX_def LONG_MAX_def)
  have bl: "evhttp_get_body_length req = (0, req\<lparr>ntoread := int n\<rparr>)"
    using assms(5) strtoll_digits(2) [OF n63] by (simp add: evhttp_get_body_length_def split: option.splits)
  have sz: "as_size (int n) = n" using n63 by (simp add: as_size_def LONG_MAX_def nat_mod_as_int)
  have ex: "evhttp_have_expect (req\<lparr>ntoread := int n\<rparr>) True = NO" using assms(6) by (simp add: evhttp_have_expect_def Let_def)
  from evbuffer_remove_buffer_ok [OF s(1-5) alloc_serves_le [OF s(6), of n]] len c obtain r b' ib where
    m: "evbuffer_remove_buffer ok ?b (input_buffer req) n = Some (r, b', ib)" "content ib = content (input_buffer req) @ d" "content b' = rest" by auto
  let ?r = "req\<lparr>ntoread := int n - int n, body_size := (body_size req + n) mod 2 ^ 64, input_buffer := ib\<rparr>"
  have "evhttp_get_body ok cbs evcon req = evhttp_read_body ok cbs (evcon\<lparr>con_state := EVCON_READING_BODY\<rparr>) (req\<lparr>ntoread := int n\<rparr>)"
    using assms(1,2,4,7) by (simp add: evhttp_get_body_def Let_def bl ex)
  also have "\<dots> = read_body_rest cbs (evcon\<lparr>con_state := EVCON_READING_BODY, con_input := b'\<rparr>) ?r"
    using assms(3,7) len m(1) by (simp add: evhttp_read_body_def sz)
  also have "\<dots> = Some (Connection_done, evcon\<lparr>con_state := EVCON_READING_BODY, con_input := b'\<rparr>, ?r)"
    using lim cb by (simp add: read_body_rest_def as_size_def)
  finally show ?thesis using m(2,3) by simp
qed

lemma final_headers_post:
  assumes "req_kind w = EVHTTP_REQUEST" "req_type w = EVHTTP_REQ_POST \<or> req_type w = EVHTTP_REQ_PUT"
    "evhttp_find_header (output_headers w) (lit ''Content-Length'') = None"
  shows "final_headers t ct w =
    snd (evhttp_remove_header (output_headers w) (lit ''Proxy-Connection'')) @ [(lit ''Content-Length'', fmt_d (total_len (output_buffer w)))]"
proof -
  have v: "evhttp_header_is_valid_value (fmt_d n)" for n by (rule valid_value_plain) (use digits_plain [of _ n] in auto)
  have "evhttp_find_header (snd (evhttp_remove_header (output_headers w) (lit ''Proxy-Connection''))) (lit ''Content-Length'') = None"
    using assms(3) remove_header_subset [of "output_headers w" "lit ''Proxy-Connection''"] unfolding find_header_None by blast
  then show ?thesis using assms(1,2) v
    by (auto simp: final_headers_def evhttp_make_header_request_def evhttp_add_header_def evhttp_add_header_internal_def Let_def CR_def LF_def)
qed

lemma content_length_header_ok: "header_ok (lit ''Content-Length'', fmt_d n)"
proof -
  have d: "c \<notin> {0, LF, CR, 32, 9}" if "c \<in> set (fmt_d n)" for c
    using that fmt_d_digits [of n] by (auto simp: list_all_iff EVUTIL_ISDIGIT_iff LF_def CR_def word_le_nat_alt)
  have "hd (fmt_d n) \<in> set (fmt_d n)" "last (fmt_d n) \<in> set (fmt_d n)" by simp_all
  from d [OF this(1)] d [OF this(2)] d show ?thesis by (auto simp: header_ok_def lws_def LF_def CR_def)
qed

lemma post_headers_found:
  fixes t ct
  assumes "req_kind w = EVHTTP_REQUEST" "req_type w = EVHTTP_REQ_POST \<or> req_type w = EVHTTP_REQ_PUT"
    "evhttp_find_header (output_headers w) (lit ''Content-Length'') = None"
    "evhttp_find_header (output_headers w) (lit ''Transfer-Encoding'') = None"
    "evhttp_find_header (output_headers w) (lit ''Expect'') = None"
    "list_all header_ok (output_headers w)"
  defines "hs \<equiv> final_headers t ct w"
  shows "evhttp_find_header hs (lit ''Content-Length'') = Some (fmt_d (total_len (output_buffer w)))"
    "evhttp_find_header hs (lit ''Transfer-Encoding'') = None" "evhttp_find_header hs (lit ''Expect'') = None" "list_all header_ok hs"
proof -
  let ?h1 = "snd (evhttp_remove_header (output_headers w) (lit ''Proxy-Connection''))"
  have keep: "evhttp_find_header ?h1 k = None" if "evhttp_find_header (output_headers w) k = None" for k
    using that remove_header_subset [of "output_headers w" "lit ''Proxy-Connection''"] unfolding find_header_None by blast
  have cmp: "evutil_ascii_strcasecmp (lit ''Content-Length'') (lit ''Content-Length'') = 0"
    "evutil_ascii_strcasecmp (lit ''Content-Length'') (lit ''Transfer-Encoding'') \<noteq> 0"
    "evutil_ascii_strcasecmp (lit ''Content-Length'') (lit ''Expect'') \<noteq> 0" by code_simp+
  show "evhttp_find_header hs (lit ''Content-Length'') = Some (fmt_d (total_len (output_buffer w)))"
    "evhttp_find_header hs (lit ''Transfer-Encoding'') = None" "evhttp_find_header hs (lit ''Expect'') = None"
    unfolding hs_def final_headers_post [OF assms(1-3)] find_header_snoc
    using keep [OF assms(3)] keep [OF assms(4)] keep [OF assms(5)] cmp by simp_all
  show "list_all header_ok hs" unfolding hs_def final_headers_post [OF assms(1-3)]
    using assms(6) remove_header_subset [of "output_headers w" "lit ''Proxy-Connection''"] content_length_header_ok
    by (auto simp: list_all_iff)
qed

text \<open>
  C37. A posted message arrives as a whole: when everything that is printed for a POST or PUT request is in the input of a
  server connection that waits for a request, one call of the read callback reads the first line, the headers
  and the body, whose length the writer has put into a header; it reports that the message is complete, with the method, the URI and the
  headers of the request and exactly the bytes of its body, and leaves the bytes of the next request in the input.
  The writer has set none of the headers Content-Length, Transfer-Encoding and Expect, its headers have no line breaks, the
  message stays below the limits of the connection, memory is available and no callback for headers or chunks is set.
\<close>

theorem request_read_complete:
  assumes w: "request_ok w" "req_kind w = EVHTTP_REQUEST" "req_type w = EVHTTP_REQ_POST \<or> req_type w = EVHTTP_REQ_PUT"
    "evhttp_find_header (output_headers w) (lit ''Content-Length'') = None"
    "evhttp_find_header (output_headers w) (lit ''Transfer-Encoding'') = None"
    "evhttp_find_header (output_headers w) (lit ''Expect'') = None" "list_all header_ok (output_headers w)"
    and body: "evbuffer_ok (output_buffer w)" "\<not> freeze_start (output_buffer w)" "total_len (output_buffer w) \<noteq> 0"
    and al: "alloc_serves ok (length (first_line w @ headers_text (final_headers t ct w)))"
      "length (first_line w @ headers_text (final_headers t ct w)) + total_len (output_buffer w) \<le> EV_SIZE_MAX"
    and con: "con_state evcon = EVCON_READING_FIRSTLINE" "chunk_state ok req (con_input evcon)" "\<not> too_long req (total_len (con_input evcon))"
    and req: "req_kind req = EVHTTP_REQUEST" "input_headers req = []" "\<not> chunked req"
      "body_size req + total_len (output_buffer w) \<le> max_body_size req" "max_body_size req \<le> EV_SIZE_MAX"
    and cbs: "chunk_cb cbs = None" "header_cb cbs = None"
  shows "\<exists>w' out. evhttp_make_header ok t ct w evbuffer_new = Some (w', out) \<and>
    (content (con_input evcon) = content out @ rest \<longrightarrow>
     (\<exists>evcon' req'. evhttp_read_cb ok server cbs evcon req = Some (Connection_done, evcon', req') \<and> content (con_input evcon') = rest \<and>
        content (input_buffer req') = content (input_buffer req) @ content (output_buffer w) \<and>
        req_type req' = req_type w \<and> req_uri req' = req_uri w \<and> input_headers req' = output_headers w'))"
proof -
  have "evbuffer_ok evbuffer_new" "\<not> freeze_end evbuffer_new" "content evbuffer_new = []" "total_len evbuffer_new = 0"
    using evbuffer_new_ok by (simp_all add: evbuffer_new_def)
  with make_header_written [of evbuffer_new, OF _ _ body(1,2) al(1) order_refl] al(2) obtain ob out where
    out: "evhttp_make_header ok t ct w evbuffer_new = Some (w\<lparr>output_headers := final_headers t ct w, output_buffer := ob\<rparr>, out)"
      "content out = message_text t ct w" by auto
  let ?hs = "final_headers t ct w" and ?b = "con_input evcon" and ?n = "total_len (output_buffer w)"
  note hf = post_headers_found [OF w(2-7), of t ct]
  have msg: "message_text t ct w = request_line w @ headers_text ?hs @ content (output_buffer w)"
    using hf(3) w(2) by (simp add: message_text_def first_line_def sent_body_def evhttp_have_expect_def Let_def)
  have read: "\<exists>evcon' req'. evhttp_read_cb ok server cbs evcon req = Some (Connection_done, evcon', req') \<and> content (con_input evcon') = rest \<and>
        content (input_buffer req') = content (input_buffer req) @ content (output_buffer w) \<and>
        req_type req' = req_type w \<and> req_uri req' = req_uri w \<and> input_headers req' = ?hs"
    if c: "content ?b = content out @ rest"
  proof -
    have cs: "evbuffer_ok ?b" "total_len ?b \<le> EV_SSIZE_MAX" "\<not> freeze_start ?b" "\<forall>n \<le> total_len ?b. ok n"
      using con(2) by (auto simp: chunk_state_def alloc_serves_def)
    have cc: "content ?b = request_line w @ headers_text ?hs @ content (output_buffer w) @ rest" using c out(2) msg by simp
    from request_read_headers [OF cs con(3) w(1) req(1) hf(4) cc, of server] obtain r1 b1 fl n b2 where
      r: "evhttp_parse_firstline ok server req ?b = Some (ALL_DATA_READ, r1, b1)"
        "evhttp_parse_headers ok r1 b1 = Some (ALL_DATA_READ,
           req\<lparr>req_type := req_type w, major := major w, minor := minor w, req_uri := req_uri w,
             uri_elems := uri_of_type (req_type w) (the (req_uri w)), req_flags := fl, input_headers := input_headers req @ ?hs, headers_size := n\<rparr>, b2)"
        "evbuffer_ok b2" "content b2 = content (output_buffer w) @ rest" "\<not> freeze_start b2" by blast
    let ?r = "req\<lparr>req_type := req_type w, major := major w, minor := minor w, req_uri := req_uri w,
             uri_elems := uri_of_type (req_type w) (the (req_uri w)), req_flags := fl, input_headers := input_headers req @ ?hs, headers_size := n\<rparr>"
    let ?e = "evcon\<lparr>con_state := EVCON_READING_HEADERS, con_input := b2\<rparr>"
    have "total_len b2 \<le> total_len ?b" using length_content [OF r(3)] length_content [OF cs(1)] r(4) cc by (simp del: length_content)
    then have st: "chunk_state ok ?r (con_input ?e)" using con(2) r(3,5) by (auto simp: chunk_state_def intro: alloc_serves_le)
    have "evhttp_read_cb ok server cbs evcon req = evhttp_get_body ok cbs ?e ?r"
      using con(1) r(1,2) cbs(2) req(1) by (simp add: evhttp_read_cb_def evhttp_read_firstline_def evhttp_read_header_def Let_def)
    moreover have "\<exists>evcon' req'. evhttp_get_body ok cbs ?e ?r = Some (Connection_done, evcon', req') \<and>
        content (con_input evcon') = rest \<and> content (input_buffer req') = content (input_buffer ?r) @ content (output_buffer w) \<and>
        input_headers req' = input_headers ?r \<and> req_uri req' = req_uri ?r \<and> req_type req' = req_type ?r"
      by (rule get_body_length_known [OF _ _ _ _ _ _ _ st, where n = ?n])
        (use req hf w(3) body(3) r(4) length_content [OF body(1)] cbs(1) in \<open>auto simp: evhttp_method_may_have_body_def EV_SIZE_MAX_def simp del: length_content\<close>)
    ultimately show ?thesis using req(2) by (simp add: conj_ac)
  qed
  with out(1) show ?thesis by simp
qed

theorem request_read_complete_witness:
  "\<exists>w' out evcon' req'. evhttp_make_header (\<lambda>_. True) sample_time None sample_post evbuffer_new = Some (w', out) \<and>
     evhttp_read_cb (\<lambda>_. True) (Evhttp None [] []) no_cbs
       ((body_connection (message_text sample_time None sample_post))\<lparr>con_state := EVCON_READING_FIRSTLINE\<rparr>) sample_request =
         Some (Connection_done, evcon', req') \<and>
     content (input_buffer req') = [120, 121] \<and> req_type req' = EVHTTP_REQ_POST \<and> req_uri req' = Some [47, 97]"
proof -
  let ?m = "message_text sample_time None sample_post"
  let ?e = "(body_connection ?m)\<lparr>con_state := EVCON_READING_FIRSTLINE\<rparr>"
  have m: "?m \<noteq> []" "length ?m < 1000" "length (first_line sample_post @ headers_text (final_headers sample_time None sample_post)) = 45"
    unfolding message_text_def sample_post_parts by (simp_all add: headers_text_def header_line_def)
  have p: "output_buffer sample_post = text_buffer [120, 121]" "req_kind sample_post = EVHTTP_REQUEST" "req_uri sample_post = Some [47, 97]"
    "req_type sample_post = EVHTTP_REQ_POST" by (simp_all add: sample_post_def sample_request_def)
  have f: "evhttp_find_header (output_headers sample_post) (lit ''Content-Length'') = None"
    "evhttp_find_header (output_headers sample_post) (lit ''Transfer-Encoding'') = None"
    "evhttp_find_header (output_headers sample_post) (lit ''Expect'') = None" by code_simp+
  have h: "list_all header_ok (output_headers sample_post)" by (simp add: sample_post_def header_ok_def lws_def LF_def CR_def)
  have b: "evbuffer_ok (output_buffer sample_post)" "\<not> freeze_start (output_buffer sample_post)" "total_len (output_buffer sample_post) = 2"
    "content (output_buffer sample_post) = [120, 121]" using text_buffer_ok [of "[120, 121]"] by (simp_all add: p)
  have al: "alloc_serves (\<lambda>_. True) (length (first_line sample_post @ headers_text (final_headers sample_time None sample_post)))"
    "length (first_line sample_post @ headers_text (final_headers sample_time None sample_post)) + total_len (output_buffer sample_post) \<le> EV_SIZE_MAX"
    unfolding m(3) b(3) by (simp_all add: buffer_limits EV_SIZE_MAX_def)
  have e: "con_state ?e = EVCON_READING_FIRSTLINE" "con_input ?e = text_buffer ?m" by (simp_all add: body_connection_def)
  have st: "chunk_state (\<lambda>_. True) sample_request (con_input ?e)" "\<not> too_long sample_request (total_len (con_input ?e))" unfolding e(2)
    using sample_chunk_state [OF m(1,2), of sample_request] text_buffer_ok(3) [OF m(1,2)] m(2) by (simp_all add: sample_request_def too_long_def)
  have r: "req_kind sample_request = EVHTTP_REQUEST" "input_headers sample_request = []" "\<not> chunked sample_request"
    "body_size sample_request + total_len (output_buffer sample_post) \<le> max_body_size sample_request" "max_body_size sample_request \<le> EV_SIZE_MAX"
    "chunk_cb no_cbs = None" "header_cb no_cbs = None" "content (input_buffer sample_request) = []" unfolding b(3)
    using evbuffer_new_ok(2) by (simp_all add: sample_request_def EV_SIZE_MAX_def no_cbs_def)
  from b(3) have b0: "total_len (output_buffer sample_post) \<noteq> 0" by simp
  have ty: "req_type sample_post = EVHTTP_REQ_POST \<or> req_type sample_post = EVHTTP_REQ_PUT" using p(4) by simp
  have new: "evbuffer_ok evbuffer_new" "\<not> freeze_end evbuffer_new" "content evbuffer_new = []" "total_len evbuffer_new = 0"
    using evbuffer_new_ok by (simp_all add: evbuffer_new_def)
  from make_header_written [OF new(1,2) b(1,2) al(1) order_refl] al(2) obtain ob out where
    o: "evhttp_make_header (\<lambda>_. True) sample_time None sample_post evbuffer_new = Some (sample_post\<lparr>output_headers := final_headers sample_time None sample_post, output_buffer := ob\<rparr>, out)"
      "content out = ?m" unfolding new(3,4) by auto
  from request_read_complete [OF sample_post_ok(1) p(2) ty f h b(1,2) b0 al e(1) st r(1-7), of "[]" "Evhttp None [] []"] o text_buffer_ok(2) [OF m(1,2)]
  show ?thesis unfolding e(2) append_Nil2 r(8) b(4) p(3,4) by auto
qed

section \<open>A chunk without a size\<close>

text \<open>
  C40. A line that starts with a blank and has neither a sign nor a digit behind the blanks is taken for the last chunk of a body: \<^verbatim>\<open>strtoll\<close> converts
  nothing and leaves its end at the first character of the line, and a blank there counts as the end of the
  number 0. The body is complete although its sender has not ended it.
\<close>

theorem chunk_without_size_ends:
  assumes "chunk_state ok req b" "ntoread req < 0" "content b = 32 # s @ [CR, LF] @ rest" "set s \<inter> {0, LF} = {}"
    "\<not> EVUTIL_ISXDIGIT (cur (dropWhile EVUTIL_ISSPACE s))" "cur (dropWhile EVUTIL_ISSPACE s) \<notin> {43, 45}"
    "body_size req \<le> max_body_size req"
  shows "\<exists>b'. evhttp_handle_chunked_read ok cb req b = Some (ALL_DATA_READ, req\<lparr>ntoread := 0\<rparr>, b') \<and> content b' = rest"
proof -
  have c: "content b = (32 # s) @ [CR, LF] @ rest" "LF \<notin> set (32 # s)" using assms(3,4) by (auto simp: LF_def)
  from chunk_readln [OF assms(1) c] obtain b' where b': "evbuffer_readln ok b EVBUFFER_EOL_CRLF = Some (Some (32 # s), b')" "content b' = rest"
    "chunk_state ok req b'" "0 < total_len b" "total_len b' < total_len b" .
  have cs: "cstring (32 # s) = 32 # s" using assms(4) by (intro cstring_id) auto
  let ?s = "dropWhile EVUTIL_ISSPACE s"
  have "takeWhile P x = []" if "\<not> P (cur x)" for P x using that by (cases x) auto
  from this [of EVUTIL_ISXDIGIT ?s] have nd: "takeWhile EVUTIL_ISXDIGIT ?s = []" using assms(5) by blast
  have "\<not> (cur ?s = 48)" using assms(5) by (auto simp: EVUTIL_ISXDIGIT_iff)
  then have st: "evutil_strtoll (32 # s) 16 = (0, 32 # s)" using assms(6) nd
    by (simp add: evutil_strtoll_def Let_def EVUTIL_ISSPACE_iff)
  have z: "EV_SSIZE_MAX \<ge> total_len b" using assms(1) by (simp add: chunk_state_def)
  have e: "req\<lparr>body_size := body_size req, ntoread := 0\<rparr> = req\<lparr>ntoread := 0\<rparr>" by (rule evhttp_request.equality) simp_all
  show ?thesis using b' assms(2,7) z cs st e by (subst evhttp_handle_chunked_read.simps) (simp add: Let_def)
qed

theorem chunk_without_size_ends_witness:
  "\<exists>b'. evhttp_handle_chunked_read (\<lambda>_. True) None chunked_request (text_buffer [32, 120, CR, LF, 97]) =
     Some (ALL_DATA_READ, chunked_request\<lparr>ntoread := 0\<rparr>, b') \<and> content b' = [97]"
proof -
  have st: "chunk_state (\<lambda>_. True) chunked_request (text_buffer [32, 120, CR, LF, 97])"
    by (rule sample_chunk_state) (simp_all add: chunked_request_def sample_request_def)
  show ?thesis
    by (rule chunk_without_size_ends [OF st, of "[120]"])
      (simp_all add: text_buffer_ok(2) chunked_request_def sample_request_def LF_def EVUTIL_ISSPACE_iff EVUTIL_ISXDIGIT_iff)
qed

end
