(* ===== verification/Spec2Isabelle.thy ===== *)
theory Spec2Isabelle
  imports Timer_List Time_Wheel Time_Heap Event_Tag Base_Props Evbuffer_Search Poll_Select Http_Body
begin

text \<open>
  \<^bold>\<open>Timer containers and libevent: a verification development.\<close>

  The repository holds the code of a book on Linux server programming, with three timer containers of its own
  (\<^verbatim>\<open>LST_Timer.h\<close>, \<^verbatim>\<open>TimeWheel.h\<close>, \<^verbatim>\<open>TimeHeap.h\<close>), and a copy of libevent
  (\<^verbatim>\<open>src/\<close>, \<^verbatim>\<open>include/event2/\<close>). The development models the containers and the parts of libevent with logic of their own:
  the event base with its timers, queues and backends, the chained buffer with the wire formats on top of it, and the
  URI, header and message layers of HTTP.

  \<^bold>\<open>Conventions.\<close> Definitions are pure and take the state as an argument. A C function that can abort the
  process (\<^verbatim>\<open>EVUTIL_ASSERT\<close>, \<^verbatim>\<open>event_errx\<close>) returns an \<open>outcome\<close>; one that can read or write outside
  a block returns an option or, in \<open>Time_Heap\<close>, a sum with the kind of the error. Integers are words or
  \<open>int\<close>/\<open>nat\<close> with the wrap-around written out where a width matters. What is not in the
  repository is an argument: \<^verbatim>\<open>epoll_ctl\<close>, \<^verbatim>\<open>poll\<close> and \<^verbatim>\<open>select\<close>, \<^verbatim>\<open>sigaction\<close>, the clock, the
  allocator (\<open>ok\<close> answers whether a request is served) and the callbacks of the program.

  \<^bold>\<open>Shared theories.\<close>
  \<^item> \<open>Event_Prelude\<close>: outcomes, widths and limits, the event flags, generic lemmas, collections of facts.
  \<^item> \<open>Array_Heap\<close>: moving a hole in an array heap, for both heaps. \<open>Dll\<close>: doubly linked segments in a store,
    for the list and the wheel.
  \<^item> \<open>Timer_Queue\<close>: the contract of a timer queue; \<open>Min_Heap\<close> and \<open>Time_Heap\<close> interpret it.
  \<^item> \<open>Framed_Stream\<close>: the contract of a self-delimiting encoding in a buffer; \<open>Event_Tag\<close> interprets it four times.
  \<^item> \<open>Backend\<close>: what \<^verbatim>\<open>src/evmap.c\<close> relies on in a \<^verbatim>\<open>struct eventop\<close>, for descriptors and for signals;
    \<open>Epoll\<close> (with and without changelist) and \<open>Evsig\<close> interpret it.

  \<^bold>\<open>Timer containers.\<close>
  \<^item> \<open>Timer_List\<close>: the sorted list of \<^verbatim>\<open>LST_Timer.h\<close> over a store of nodes. Adding implements insertion into the list of
    addresses; a timer later than all others is dropped; a tick fires exactly the expired timers.
  \<^item> \<open>Time_Wheel\<close>: slots and rotations of \<^verbatim>\<open>TimeWheel.h\<close>. A timer fires at the tick its timeout says, and not before.
  \<^item> \<open>Time_Heap\<close>: the array heap of \<^verbatim>\<open>TimeHeap.h\<close>. A tick ends and fires the due timers; adding to a heap of
    capacity 0, and only to such a heap, writes behind the array.

  \<^bold>\<open>Time and timers of the base.\<close>
  \<^item> \<open>Timeval\<close>: \<^verbatim>\<open>struct timeval\<close> arithmetic and the ratcheted clock of \<^verbatim>\<open>src/evutil_time.c\<close>.
  \<^item> \<open>Min_Heap\<close>: \<^verbatim>\<open>src/minheap-internal.h\<close> with the index field of every event. Erasing removes exactly one
    event and keeps order and indices; popping drains the due events in order.

  \<^bold>\<open>Event base.\<close>
  \<^item> \<open>Event_Struct\<close>: \<^verbatim>\<open>struct event\<close> and its list flags.
  \<^item> \<open>Epoll_Table\<close>, \<open>Epoll\<close>: the table of \<^verbatim>\<open>src/epolltable-internal.h\<close>, compared with the rule in its comment, and
    \<^verbatim>\<open>src/epoll.c\<close>. \<open>Changelist\<close>: the list of pending changes of \<^verbatim>\<open>src/evmap.c\<close>.
  \<^item> \<open>Poll_Select\<close>: \<^verbatim>\<open>src/poll.c\<close> and \<^verbatim>\<open>src/select.c\<close>, which serve the same requests with the same result.
  \<^item> \<open>Evmap\<close>, \<open>Evmap_Epoll\<close>: the maps of \<^verbatim>\<open>src/evmap.c\<close> over any backend, and over epoll. The kernel watches the
    union of what the registered events want; any sequence of additions and deletions through the changelist leaves the
    kernel alone until the changes are applied, and then gives what the plain backend gives.
  \<^item> \<open>Evsig\<close>: \<^verbatim>\<open>src/signal.c\<close>. Handlers are restored whatever happens to other signals in between.
  \<^item> \<open>Event_Base\<close>, \<open>Event_Loop\<close>: the operations and the loop of \<^verbatim>\<open>src/event.c\<close> for one thread.
  \<^item> \<open>Event_Inv\<close>, \<open>Base_Inv\<close>, \<open>Base_Timeouts\<close>, \<open>Base_Add\<close>, \<open>Base_Loop\<close>, \<open>Base_Run\<close>: the invariant of a base (flags,
    queues, heap, counters, maps and backends agree) and that every operation keeps it. They rest on the locale
    \<open>evmaps\<close>, which \<open>Base_Epoll\<close> interprets for epoll with changelist and the signal backend.
  \<^item> \<open>Base_Props\<close>: the resulting properties of a base: adding registers, deleting takes off every queue, due timeouts are
    processed and no others, the wait is never too long, common timeouts expire and are scheduled again, and the case
    where adding loses a timeout.

  \<^bold>\<open>Buffers and formats.\<close>
  \<^item> \<open>Evbuffer\<close>, \<open>Evbuffer_Move\<close>, \<open>Evbuffer_Search\<close>: \<^verbatim>\<open>src/buffer.c\<close>. Chains keep their memory blocks, so every copy is
    checked against its bounds; the operations are compared with operations on the list of all bytes.
  \<^item> \<open>Event_Tag\<close>: \<^verbatim>\<open>src/event_tagging.c\<close>. Encoded fields are decoded to the same values; a tag of six bytes makes the
    decoder read behind the five bytes it has made contiguous.
  \<^item> \<open>Evutil\<close>, \<open>Inet\<close>, \<open>Weakrand\<close>: character classes and strings, addresses, random numbers of \<^verbatim>\<open>src/evutil.c\<close>.
  \<^item> \<open>Http_Uri\<close>, \<open>Http_Headers\<close>, \<open>Http_Message\<close>, \<open>Http_Write\<close>, \<open>Http_Body\<close>: \<^verbatim>\<open>src/http.c\<close> from URIs to the read callback. What
    is written is read back, for URIs, queries, headers, messages, posted bodies and bodies in chunks; reading chunks
    always ends.

  \<^bold>\<open>Loops and fuel.\<close> Loops with a measure are recursive functions with a termination proof. Loops that may not
  end are partial functions into option (\<open>weakrand_range_loop\<close>, the linked lists, the reading of headers and chunks), and
  the properties prove that they return. Only the loops that callbacks of the program can prolong
  (\<open>event_base_loop\<close>, \<open>event_process_active\<close>, \<open>timeout_process\<close>) take a number of turns; for \<open>timeout_process\<close> the
  size of the heap is proved to be enough.

  \<^bold>\<open>Not modelled.\<close> Threads and locks: every object has one user. Bufferevents, listeners, connections of the HTTP layer,
  DNS and RPC: they need sockets and the bufferevent layer. File segments, references and vectored input of the buffer.
  The backends of other systems and the Windows code. Creating and freeing a base, its configuration and its debugging
  aids. The internal event of the signal backend is kept in a component of that backend and not on the queues
  of the base, so the properties of adding are stated for events that wait for no signal.
\<close>

end
